(* ===== verification/Prelude.thy ===== *)
theory Prelude
  imports Main "HOL-Library.Word" "HOL-Library.Monad_Syntax"
begin

text \<open>
  Shared vocabulary of the development: bytes and C strings, the 32-bit integers of the
  ia32 build, array accesses that fail out of range, and the little-endian codec every
  on-disk structure of \<^verbatim>\<open>os/include/ext.h\<close> is laid out with.

  A C \<^verbatim>\<open>int\<close> is a HOL \<^typ>\<open>int\<close> together with an explicit conversion: \<open>i32\<close> is what
  storing a value in a signed 32-bit variable leaves of it, \<open>u32\<close> what converting it to
  \<^verbatim>\<open>size_t\<close> or \<^verbatim>\<open>uint32_t\<close> leaves of it. A result of type \<open>'a option\<close> is \<^term>\<open>None\<close> where
  the C code has no defined result: an access outside an array, a shift by a negative
  amount, a failed \<^verbatim>\<open>assert\<close>, a division by zero, or a loop that does not end. Return
  codes such as \<open>-1\<close> are ordinary values inside \<^term>\<open>Some\<close>.
\<close>

named_theorems cint \<open>conversion of C integers in range\<close>
named_theorems codec \<open>encoding and decoding of on-disk structures\<close>

type_synonym byte = "8 word"
type_synonym cstr = "byte list" \<comment> \<open>a C string: its bytes before the terminating NUL\<close>

definition i32 :: "int \<Rightarrow> int" where
  "i32 x = (x + 2147483648) mod 4294967296 - 2147483648"

definition u32 :: "int \<Rightarrow> int" where
  "u32 x = x mod 4294967296"

definition i16 :: "int \<Rightarrow> int" where
  "i16 x = (x + 32768) mod 65536 - 32768"

definition cdiv :: "int \<Rightarrow> int \<Rightarrow> int" where
  \<comment> \<open>C division truncates towards zero\<close>
  "cdiv a b = sgn a * sgn b * (\<bar>a\<bar> div \<bar>b\<bar>)"

definition cmod :: "int \<Rightarrow> int \<Rightarrow> int" where
  "cmod a b = a - cdiv a b * b"

definition ok :: "bool \<Rightarrow> unit option" where
  \<comment> \<open>\<^verbatim>\<open>assert\<close>, and every other condition without which the C code is undefined\<close>
  "ok P = (if P then Some () else None)"

definition arr :: "'a list \<Rightarrow> int \<Rightarrow> 'a option" where
  "arr xs i = (if 0 \<le> i \<and> i < int (length xs) then Some (xs ! nat i) else None)"

definition arr_upd :: "'a list \<Rightarrow> int \<Rightarrow> 'a \<Rightarrow> 'a list option" where
  "arr_upd xs i v = (if 0 \<le> i \<and> i < int (length xs) then Some (xs[nat i := v]) else None)"

definition str :: "string \<Rightarrow> cstr" where
  "str s = map of_char s"

definition cstr_at :: "cstr \<Rightarrow> nat \<Rightarrow> byte" where
  \<comment> \<open>a read inside a C string, its terminator included\<close>
  "cstr_at s i = (if i < length s then s ! i else 0)"

fun until_nul :: "byte list \<Rightarrow> cstr" where
  \<comment> \<open>the C string that starts at a piece of memory\<close>
  "until_nul [] = []"
| "until_nul (b # bs) = (if b = 0 then [] else b # until_nul bs)"

definition strncpy :: "nat \<Rightarrow> cstr \<Rightarrow> byte list" where
  \<comment> \<open>the \<open>n\<close> bytes \<^verbatim>\<open>strncpy\<close> stores: the string cut at \<open>n\<close>, padded with NUL\<close>
  "strncpy n s = take n s @ replicate (n - length s) 0"

fun strncmp_eq :: "byte list \<Rightarrow> cstr \<Rightarrow> nat \<Rightarrow> bool option" where
  \<comment> \<open>\<^verbatim>\<open>strncmp(mem, s, n) == 0\<close>; \<^term>\<open>None\<close> where the comparison leaves \<open>mem\<close>\<close>
  "strncmp_eq mem s 0 = Some True"
| "strncmp_eq [] s (Suc n) = None"
| "strncmp_eq (b # mem) s (Suc n) =
     (case s of [] \<Rightarrow> Some (b = 0)
      | c # s' \<Rightarrow> if b \<noteq> c then Some False else strncmp_eq mem s' n)"

primrec le_nat :: "byte list \<Rightarrow> nat" where
  "le_nat [] = 0"
| "le_nat (b # bs) = unat b + 256 * le_nat bs"

primrec le_bytes :: "nat \<Rightarrow> nat \<Rightarrow> byte list" where
  "le_bytes 0 x = []"
| "le_bytes (Suc n) x = of_nat x # le_bytes n (x div 256)"

definition get32 :: "byte list \<Rightarrow> int" where
  "get32 bs = i32 (int (le_nat (take 4 bs)))"

definition put32 :: "int \<Rightarrow> byte list" where
  "put32 x = le_bytes 4 (nat (u32 x))"

definition get16 :: "byte list \<Rightarrow> int" where
  "get16 bs = i16 (int (le_nat (take 2 bs)))"

definition put16 :: "int \<Rightarrow> byte list" where
  "put16 x = le_bytes 2 (nat (x mod 65536))"

definition get32s :: "nat \<Rightarrow> byte list \<Rightarrow> int list" where
  \<comment> \<open>a buffer read as an array of \<open>n\<close> 32-bit integers\<close>
  "get32s n bs = map (\<lambda>k. get32 (drop (4 * k) bs)) [0..<n]"

definition put32s :: "int list \<Rightarrow> byte list" where
  "put32s xs = concat (map put32 xs)"

definition in32 :: "int \<Rightarrow> bool" where
  "in32 x \<longleftrightarrow> -2147483648 \<le> x \<and> x < 2147483648"

definition in16 :: "int \<Rightarrow> bool" where
  "in16 x \<longleftrightarrow> -32768 \<le> x \<and> x < 32768"

subsection \<open>C integers\<close>

lemma i32_id [cint]: "in32 x \<Longrightarrow> i32 x = x"
  by (simp add: i32_def in32_def)

lemma i32_range [simp]: "in32 (i32 x)"
  by (simp add: i32_def in32_def)

lemma i32_idem [simp]: "i32 (i32 x) = i32 x"
  by (rule i32_id) simp

lemma u32_id [cint]: "0 \<le> x \<Longrightarrow> x < 4294967296 \<Longrightarrow> u32 x = x"
  by (simp add: u32_def)

lemma u32_range: "0 \<le> u32 x" "u32 x < 4294967296"
  by (simp_all add: u32_def)

lemma i16_id [cint]: "in16 x \<Longrightarrow> i16 x = x"
  by (simp add: i16_def in16_def)

lemma i32_u32 [simp]: "i32 (u32 x) = i32 x"
  by (simp add: i32_def u32_def mod_add_left_eq)

lemma i16_mod [simp]: "i16 (x mod 65536) = i16 x"
  by (simp add: i16_def mod_add_left_eq)

lemma cdiv_nonneg [cint]: "0 \<le> a \<Longrightarrow> 0 \<le> b \<Longrightarrow> cdiv a b = a div b"
  by (cases "a = 0"; cases "b = 0") (simp_all add: cdiv_def)

lemma cmod_nonneg [cint]: "0 \<le> a \<Longrightarrow> 0 \<le> b \<Longrightarrow> cmod a b = a mod b"
  by (simp add: cmod_def cdiv_nonneg minus_div_mult_eq_mod)

lemma ok_simps [simp]: "ok P = Some u \<longleftrightarrow> P" "ok P = None \<longleftrightarrow> \<not> P" "ok True = Some ()"
  by (simp_all add: ok_def)

lemma ok_bind [simp]: "(ok P \<bind> f) = (if P then f () else None)"
  by (simp add: ok_def)

lemma arr_Some [simp]: "arr xs i = Some v \<longleftrightarrow> 0 \<le> i \<and> i < int (length xs) \<and> v = xs ! nat i"
  by (auto simp: arr_def)

lemma arr_nth: "i < length xs \<Longrightarrow> arr xs (int i) = Some (xs ! i)"
  by (simp add: arr_def)

subsection \<open>The little-endian codec\<close>

lemma length_le_bytes [simp]: "length (le_bytes n x) = n"
  by (induction n arbitrary: x) simp_all

lemma le_nat_le_bytes [codec]: "le_nat (le_bytes n x) = x mod 256 ^ n"
proof (induction n arbitrary: x)
  case 0
  show ?case by simp
next
  case (Suc n)
  have "x mod 256 ^ Suc n = 256 * (x div 256 mod 256 ^ n) + x mod 256"
    using mod_mult2_eq [of x 256 "256 ^ n"] by simp
  with Suc show ?case by (simp add: unat_of_nat)
qed

lemma le_nat_bound: "le_nat bs < 256 ^ length bs"
proof (induction bs)
  case Nil
  show ?case by simp
next
  case (Cons b bs)
  have "unat b < 256" using unsigned_less [of b, where ?'a = nat] by simp
  with Cons show ?case by simp
qed

lemma le_bytes_le_nat [codec]: "length bs = n \<Longrightarrow> le_bytes n (le_nat bs) = bs"
proof (induction bs arbitrary: n)
  case Nil
  then show ?case by simp
next
  case (Cons b bs)
  have "unat b < 256" using unsigned_less [of b, where ?'a = nat] by simp
  then have "(unat b + 256 * le_nat bs) div 256 = le_nat bs" by simp
  moreover have z: "(256 :: byte) = 0" by simp
  have "(of_nat (unat b + 256 * le_nat bs) :: byte) = of_nat (unat b) + 256 * of_nat (le_nat bs)"
    by (simp only: of_nat_add of_nat_mult of_nat_numeral)
  then have "(of_nat (unat b + 256 * le_nat bs) :: byte) = b"
    by (simp only: z mult_zero_left add_0_right) simp
  ultimately show ?case using Cons by auto
qed

lemma length_put32 [simp]: "length (put32 x) = 4"
  by (simp add: put32_def)

lemma length_put16 [simp]: "length (put16 x) = 2"
  by (simp add: put16_def)

lemma get32_put32 [codec]: "get32 (put32 x @ bs) = i32 x"
  by (simp add: get32_def put32_def le_nat_le_bytes u32_range)
    (simp add: u32_def i32_def mod_add_left_eq)

lemma get16_put16 [codec]: "get16 (put16 x @ bs) = i16 x"
  by (simp add: get16_def put16_def le_nat_le_bytes)

lemma in32_get32 [simp]: "in32 (get32 bs)"
  by (simp add: get32_def)

lemma in16_get16 [simp]: "in16 (get16 bs)"
  by (simp add: get16_def i16_def in16_def)

lemma put32_get32 [codec]: "length bs = 4 \<Longrightarrow> put32 (get32 bs) = bs"
proof -
  assume len: "length bs = 4"
  have "int (le_nat bs) < 4294967296"
    using le_nat_bound [of bs] len by simp
  then have "u32 (i32 (int (le_nat bs))) = int (le_nat bs)"
    by (simp add: u32_def i32_def mod_diff_left_eq)
  with len show ?thesis
    by (simp add: put32_def get32_def le_bytes_le_nat)
qed

lemma put16_get16 [codec]: "length bs = 2 \<Longrightarrow> put16 (get16 bs) = bs"
proof -
  assume len: "length bs = 2"
  have "int (le_nat bs) < 65536"
    using le_nat_bound [of bs] len by simp
  then have "i16 (int (le_nat bs)) mod 65536 = int (le_nat bs)"
    by (simp add: i16_def mod_diff_left_eq)
  with len show ?thesis
    by (simp add: put16_def get16_def le_bytes_le_nat)
qed

end
