(* ===== verification/Disk.thy ===== *)
theory Disk
  imports Prelude
begin

text \<open>
  The disk driver, \<^verbatim>\<open>os/src/filesystem/disk.c\<close>, at two levels.

  The upper level is what the file system calls: \<open>read_disk\<close> and \<open>write_disk\<close> move a run of
  bytes between memory and the medium, sector by sector, through a 512-byte buffer. The
  medium is a function from byte addresses to bytes, and \<open>get_sect\<close> and \<open>put_sect\<close> are the
  transfer of one sector.

  The lower level is \<open>read_sect\<close>, \<open>write_sect\<close> and \<open>wait_disk\<close>: the sequence of port
  accesses of the ATA PIO protocol. The drive itself is hardware, so it is a parameter: a
  record of port operations. The locale \<open>ata_drive\<close> states what the drive documents
  about its registers; under these laws the driver transfers exactly \<open>get_sect\<close> and
  \<open>put_sect\<close> of the addressed sector. A concrete drive, \<open>sim_ports\<close>, satisfies the laws.
\<close>

type_synonym disk = "nat \<Rightarrow> byte"
type_synonym port = "16 word"

unbundle bit_operations_syntax

definition SECTOR_SIZE :: nat where
  "SECTOR_SIZE = 512"

subsection \<open>Transfers between memory and the medium\<close>

definition get_sect :: "disk \<Rightarrow> nat \<Rightarrow> byte list" where
  "get_sect d s = map d [512 * s..<512 * s + 512]"

definition put_sect :: "disk \<Rightarrow> nat \<Rightarrow> byte list \<Rightarrow> disk" where
  "put_sect d s buf = (\<lambda>a. if 512 * s \<le> a \<and> a < 512 * s + 512 then buf ! (a - 512 * s) else d a)"

function read_loop ::
  "disk \<Rightarrow> nat \<Rightarrow> nat \<Rightarrow> nat \<Rightarrow> nat \<Rightarrow> nat \<Rightarrow> byte list \<Rightarrow> byte list \<Rightarrow> byte list" where
  "read_loop d quot rem n i j buffer dest =
     (if i < n then
        (let dest = dest @ [buffer ! ((rem + i) mod 512)]; i = i + 1 in
         if (rem + i) mod 512 = 0
         then read_loop d quot rem n i (j + 1) (get_sect d (quot + j)) dest
         else read_loop d quot rem n i j buffer dest)
      else dest)"
  by pat_completeness auto
termination
  by (relation "measure (\<lambda>(d, q, r, n, i, j, b, e). n - i)") auto

definition read_disk :: "disk \<Rightarrow> int \<Rightarrow> int \<Rightarrow> int \<Rightarrow> byte list option" where
  \<comment> \<open>a negative offset addresses no sector\<close>
  "read_disk d sz num offset =
     (if offset < 0 then None
      else let quot = nat (offset div 512); rem = nat (offset mod 512) in
        Some (read_loop d quot rem (nat (sz * num)) 0 1 (get_sect d quot) []))"

function write_loop ::
  "disk \<Rightarrow> nat \<Rightarrow> nat \<Rightarrow> byte list \<Rightarrow> nat \<Rightarrow> nat \<Rightarrow> nat \<Rightarrow> byte list \<Rightarrow> disk" where
  "write_loop d quot rem src n i j buffer =
     (if i < n then
        (let buffer = buffer[(rem + i) mod 512 := src ! i]; i = i + 1 in
         if (rem + i) mod 512 = 0
         then let d = put_sect d (quot + j) buffer; j = j + 1
              in write_loop d quot rem src n i j (get_sect d (quot + j))
         else write_loop d quot rem src n i j buffer)
      else put_sect d (quot + j) buffer)"
  by pat_completeness auto
termination
  by (relation "measure (\<lambda>(d, q, r, s, n, i, j, b). n - i)") auto

definition write_disk :: "disk \<Rightarrow> byte list \<Rightarrow> int \<Rightarrow> int \<Rightarrow> int \<Rightarrow> disk option" where
  \<comment> \<open>\<open>src\<close> is the memory \<^verbatim>\<open>destBuffer\<close> points to; reading past its end is undefined\<close>
  "write_disk d src sz num offset =
     (if offset < 0 \<or> int (length src) < sz * num then None
      else let quot = nat (offset div 512); rem = nat (offset mod 512) in
        Some (write_loop d quot rem src (nat (sz * num)) 0 0 (get_sect d quot)))"

definition blit :: "disk \<Rightarrow> nat \<Rightarrow> byte list \<Rightarrow> disk" where
  \<comment> \<open>the specification of a write: these bytes, at this address, nothing else\<close>
  "blit d off bs = (\<lambda>a. if off \<le> a \<and> a < off + length bs then bs ! (a - off) else d a)"

subsection \<open>The port protocol\<close>

record 'd port_ops =
  in_byte :: "port \<Rightarrow> 'd \<Rightarrow> byte \<times> 'd"
  out_byte :: "port \<Rightarrow> byte \<Rightarrow> 'd \<Rightarrow> 'd"
  in_long :: "port \<Rightarrow> 'd \<Rightarrow> 32 word \<times> 'd"
  out_long :: "port \<Rightarrow> 32 word \<Rightarrow> 'd \<Rightarrow> 'd"

partial_function (option) wait_disk :: "'d port_ops \<Rightarrow> 'd \<Rightarrow> 'd option" where
  "wait_disk io d =
     (case in_byte io 0x1F7 d of (status, d') \<Rightarrow>
        if status AND 0xC0 \<noteq> 0x40 then wait_disk io d' else Some d')"

definition set_lba :: "'d port_ops \<Rightarrow> int \<Rightarrow> byte \<Rightarrow> 'd \<Rightarrow> 'd" where
  \<comment> \<open>the six register writes \<^verbatim>\<open>read_sect\<close> and \<^verbatim>\<open>write_sect\<close> start with\<close>
  "set_lba io offset cmd d0 =
     (let d1 = out_byte io 0x1F2 1 d0;
          d2 = out_byte io 0x1F3 (word_of_int offset) d1;
          d3 = out_byte io 0x1F4 (word_of_int (offset div 2 ^ 8)) d2;
          d4 = out_byte io 0x1F5 (word_of_int (offset div 2 ^ 16)) d3;
          d5 = out_byte io 0x1F6 (word_of_int (offset div 2 ^ 24) OR 0xE0) d4
      in out_byte io 0x1F7 cmd d5)"

fun in_longs :: "'d port_ops \<Rightarrow> nat \<Rightarrow> 'd \<Rightarrow> 32 word list \<times> 'd" where
  "in_longs io 0 d = ([], d)"
| "in_longs io (Suc n) d =
     (case in_long io 0x1F0 d of (w, d') \<Rightarrow>
        (case in_longs io n d' of (ws, d'') \<Rightarrow> (w # ws, d'')))"

fun out_longs :: "'d port_ops \<Rightarrow> 32 word list \<Rightarrow> 'd \<Rightarrow> 'd" where
  "out_longs io [] d = d"
| "out_longs io (w # ws) d = out_longs io ws (out_long io 0x1F0 w d)"

definition read_sect :: "'d port_ops \<Rightarrow> int \<Rightarrow> 'd \<Rightarrow> (32 word list \<times> 'd) option" where
  "read_sect io offset d =
     do { d \<leftarrow> wait_disk io d;
          let d = set_lba io offset 0x20 d;
          d \<leftarrow> wait_disk io d;
          Some (in_longs io (SECTOR_SIZE div 4) d) }"

definition write_sect :: "'d port_ops \<Rightarrow> 32 word list \<Rightarrow> int \<Rightarrow> 'd \<Rightarrow> 'd option" where
  "write_sect io src offset d =
     do { d \<leftarrow> wait_disk io d;
          let d = set_lba io offset 0x30 d;
          d \<leftarrow> wait_disk io d;
          Some (out_longs io (take (SECTOR_SIZE div 4) src) d) }"

definition disk_init :: "'d port_ops \<Rightarrow> 'd \<Rightarrow> 'd option" where
  "disk_init io d = wait_disk io (out_byte io 0x1F6 0xA0 d)"

lemma length_get_sect [simp]: "length (get_sect d s) = 512"
  by (simp add: get_sect_def)

lemma nth_get_sect: "k < 512 \<Longrightarrow> get_sect d s ! k = d (512 * s + k)"
  by (simp add: get_sect_def)

declare read_loop.simps [simp del] write_loop.simps [simp del]

lemma upt_step: "i < n \<Longrightarrow> [a + i..<a + n] = (a + i) # [a + Suc i..<a + (n::nat)]"
  by (metis add_Suc_right add_less_cancel_left upt_conv_Cons)

lemma div_512_step: "Suc m div 512 = (if Suc m mod 512 = 0 then Suc (m div 512) else m div 512)"
  by (simp add: div_Suc dvd_eq_mod_eq_0)

lemma read_loop_spec:
  assumes "r < 512" "i \<le> n"
  shows "read_loop d q r n i (Suc ((r + i) div 512)) (get_sect d (q + (r + i) div 512)) dest
    = dest @ map d [512 * q + r + i..<512 * q + r + n]"
  using assms(2)
proof (induction "n - i" arbitrary: i dest)
  case 0
  then show ?case by (subst read_loop.simps) simp
next
  case (Suc m)
  then have less: "i < n" and m: "m = n - Suc i" "Suc i \<le> n" by simp_all
  let ?b = "get_sect d (q + (r + i) div 512)" and ?dest = "dest @ [d (512 * q + r + i)]"
  have byte: "?b ! ((r + i) mod 512) = d (512 * q + r + i)"
    by (simp add: nth_get_sect algebra_simps)
  have "read_loop d q r n i (Suc ((r + i) div 512)) ?b dest
    = read_loop d q r n (Suc i) (Suc ((r + Suc i) div 512)) (get_sect d (q + (r + Suc i) div 512)) ?dest"
    using less byte div_512_step [of "r + i"] by (subst read_loop.simps) (simp add: Let_def)
  also have "\<dots> = ?dest @ map d [512 * q + r + Suc i..<512 * q + r + n]"
    by (rule Suc.hyps(1) [OF m])
  also have "\<dots> = dest @ map d [512 * q + r + i..<512 * q + r + n]"
    using upt_step [OF less, of "512 * q + r"] by simp
  finally show ?case .
qed

lemma sect_addr: "0 \<le> off \<Longrightarrow> 512 * nat (off div 512) + nat (off mod 512) = nat off"
  by (simp add: nat_div_distrib nat_mod_distrib)

lemma read_disk_eq:
  assumes "0 \<le> off"
  shows "read_disk d sz num off = Some (map d [nat off..<nat off + nat (sz * num)])"
proof -
  let ?q = "nat (off div 512)" and ?r = "nat (off mod 512)"
  have r: "?r < 512" by simp
  have addr: "512 * ?q + ?r = nat off" by (rule sect_addr [OF assms])
  show ?thesis
    using read_loop_spec [OF r, of 0 "nat (sz * num)" d ?q "[]"] r assms addr
    by (simp add: read_disk_def Let_def)
qed

lemma put_sect_update:
  "k < 512 \<Longrightarrow> length buf = 512 \<Longrightarrow> put_sect d s (buf[k := v]) = (put_sect d s buf)(512 * s + k := v)"
  by (auto simp: put_sect_def fun_eq_iff nth_list_update)

lemma put_get_sect [simp]: "put_sect d s (get_sect d s) = d"
  by (auto simp: put_sect_def get_sect_def fun_eq_iff)

lemma get_put_sect: "length buf = 512 \<Longrightarrow> get_sect (put_sect d s buf) s = buf"
  by (rule nth_equalityI) (simp_all add: get_sect_def put_sect_def)

lemma write_loop_spec:
  assumes "r < 512" "i \<le> n" "length buf = 512"
  shows "write_loop d q r src n i ((r + i) div 512) buf
    = (\<lambda>a. if 512 * q + r + i \<le> a \<and> a < 512 * q + r + n
        then src ! (a - (512 * q + r)) else put_sect d (q + (r + i) div 512) buf a)"
  using assms(2,3)
proof (induction "n - i" arbitrary: i d buf)
  case 0
  then have "i = n" by simp
  then show ?case by (subst write_loop.simps) (auto simp: fun_eq_iff)
next
  case (Suc m)
  then have less: "i < n" and m: "m = n - Suc i" "Suc i \<le> n" by simp_all
  let ?s = "q + (r + i) div 512" and ?buf = "buf[(r + i) mod 512 := src ! i]"
  let ?d = "put_sect d ?s ?buf"
  have "512 * ?s + (r + i) mod 512 = 512 * q + r + i"
    by (simp add: algebra_simps)
  then have put: "?d = (put_sect d ?s buf)(512 * q + r + i := src ! i)"
    using put_sect_update [of "(r + i) mod 512" buf d ?s] Suc.prems
    by (simp add: add.assoc add.commute del: fun_upd_apply)
  have "write_loop d q r src n i ((r + i) div 512) buf
    = (\<lambda>a. if 512 * q + r + Suc i \<le> a \<and> a < 512 * q + r + n
        then src ! (a - (512 * q + r)) else ?d a)"
  proof (cases "Suc (r + i) mod 512 = 0")
    case True
    then have dv: "Suc (r + i) div 512 = Suc ((r + i) div 512)"
      using div_512_step [of "r + i"] by simp
    note IH = Suc.hyps(1) [OF m, of "get_sect ?d (Suc ?s)" ?d, unfolded add_Suc_right dv put_get_sect]
    from True less dv IH show ?thesis by (subst write_loop.simps) (simp add: Let_def)
  next
    case False
    then have dv: "Suc (r + i) div 512 = (r + i) div 512"
      using div_512_step [of "r + i"] by simp
    note IH = Suc.hyps(1) [OF m, of ?buf d, unfolded add_Suc_right dv]
    from False less dv IH Suc.prems show ?thesis by (subst write_loop.simps) (simp add: Let_def)
  qed
  also have "\<dots> = (\<lambda>a. if 512 * q + r + i \<le> a \<and> a < 512 * q + r + n
        then src ! (a - (512 * q + r)) else put_sect d ?s buf a)"
    unfolding put using less by (auto simp: fun_eq_iff)
  finally show ?case .
qed

lemma write_disk_eq:
  assumes "0 \<le> off" "sz * num = int (length src)"
  shows "write_disk d src sz num off = Some (blit d (nat off) src)"
proof -
  let ?q = "nat (off div 512)" and ?r = "nat (off mod 512)"
  have r: "?r < 512" by simp
  have addr: "512 * ?q + ?r = nat off" by (rule sect_addr [OF assms(1)])
  show ?thesis
    using write_loop_spec [OF r, of 0 "length src" "get_sect d ?q" d ?q src] r assms addr
    by (simp add: write_disk_def Let_def blit_def fun_eq_iff)
qed

subsection \<open>What the drive documents, and what the driver makes of it\<close>

datatype xfer = Idle | Reading nat nat | Writing nat "32 word list"

record ata_view =
  regs :: "port \<Rightarrow> byte" \<comment> \<open>the task file registers 0x1F2 to 0x1F6\<close>
  xfer :: xfer \<comment> \<open>the data phase in progress: sector, and longs moved so far\<close>
  media :: disk

definition lba_of :: "(port \<Rightarrow> byte) \<Rightarrow> nat" where
  \<comment> \<open>the 28-bit sector address held in the task file\<close>
  "lba_of r = unat (r 0x1F3) + 2 ^ 8 * unat (r 0x1F4) + 2 ^ 16 * unat (r 0x1F5)
     + 2 ^ 24 * unat (r 0x1F6 AND 0x0F)"

fun longs :: "byte list \<Rightarrow> 32 word list" where
  \<comment> \<open>a buffer seen through a \<^verbatim>\<open>uint32_t *\<close>\<close>
  "longs (a # b # c # e # bs) = of_nat (le_nat [a, b, c, e]) # longs bs"
| "longs _ = []"

definition unlongs :: "32 word list \<Rightarrow> byte list" where
  "unlongs ws = concat (map (\<lambda>w. le_bytes 4 (unat w)) ws)"

lemma length_longs [simp]: "length (longs bs) = length bs div 4"
  by (induction bs rule: longs.induct) simp_all

lemma unlongs_longs: "length bs mod 4 = 0 \<Longrightarrow> unlongs (longs bs) = bs"
proof (induction bs rule: longs.induct)
  case (1 a b c e bs)
  have "unat (of_nat (le_nat [a, b, c, e]) :: 32 word) = le_nat [a, b, c, e]"
    using le_nat_bound [of "[a, b, c, e]"] by (simp add: unat_of_nat del: le_nat.simps)
  moreover have "le_bytes 4 (le_nat [a, b, c, e]) = [a, b, c, e]"
    by (rule le_bytes_le_nat) simp
  ultimately show ?case
    using 1 by (simp add: unlongs_def del: le_nat.simps)
qed (simp_all add: unlongs_def)

lemma unat_and_15: "unat (w AND 0x0F :: byte) = unat w mod 16"
proof -
  have "(0x0F :: byte) = mask 4" by (simp add: mask_eq_exp_minus_1)
  then have "w AND 0x0F = take_bit 4 w" by (simp add: take_bit_eq_mask)
  then show ?thesis by (simp add: unsigned_take_bit_eq take_bit_eq_mod unat_mod_distrib)
qed

lemma lba_bytes:
  assumes "0 \<le> off" "off < 2 ^ 28"
  shows "unat (word_of_int off :: byte) + 2 ^ 8 * unat (word_of_int (off div 2 ^ 8) :: byte)
    + 2 ^ 16 * unat (word_of_int (off div 2 ^ 16) :: byte)
    + 2 ^ 24 * unat ((word_of_int (off div 2 ^ 24) OR 0xE0) AND 0x0F :: byte) = nat off"
proof -
  obtain n where n: "off = int n" "n < 2 ^ 28"
    using assms by (metis nat_0_le nat_less_numeral_power_cancel_iff)
  have "(w OR 0xE0) AND 0x0F = w AND 0x0F" for w :: byte
    by (simp add: bit.conj_disj_distrib2)
  moreover have "unat (word_of_int (int m) :: byte) = m mod 256" for m
    by (simp add: unat_of_nat)
  moreover have "n div 2 ^ 16 = n div 256 div 256" "n div 2 ^ 24 = n div 256 div 256 div 256"
    by (simp_all add: div_mult2_eq [symmetric])
  moreover have "int n div 2 ^ 8 = int (n div 256)" "int n div 2 ^ 16 = int (n div 2 ^ 16)"
    "int n div 2 ^ 24 = int (n div 2 ^ 24)"
    by (simp_all add: zdiv_int)
  moreover have "n div 256 div 256 div 256 < 16"
    using n(2) by (simp add: div_mult2_eq [symmetric] less_mult_imp_div_less)
  moreover have "n mod 256 + 256 * (n div 256 mod 256) + 65536 * (n div 256 div 256 mod 256)
      + 16777216 * (n div 256 div 256 div 256) = n"
    using mult_div_mod_eq [of 256 n] mult_div_mod_eq [of 256 "n div 256"]
      mult_div_mod_eq [of 256 "n div 256 div 256"] by linarith
  ultimately show ?thesis
    by (simp add: n(1) unat_and_15)
qed

locale ata_drive =
  fixes io :: "'d port_ops"
    and view :: "'d \<Rightarrow> ata_view"
    and busy :: "'d \<Rightarrow> nat" \<comment> \<open>how many more status reads show the drive busy\<close>
  assumes status_view: "view (snd (in_byte io 0x1F7 d)) = view d"
    and status_busy: "0 < busy d \<Longrightarrow> fst (in_byte io 0x1F7 d) AND 0xC0 \<noteq> 0x40
           \<and> busy (snd (in_byte io 0x1F7 d)) < busy d"
    and status_ready: "busy d = 0 \<Longrightarrow> fst (in_byte io 0x1F7 d) AND 0xC0 = 0x40"
    and reg_write: "p \<in> {0x1F2, 0x1F3, 0x1F4, 0x1F5, 0x1F6} \<Longrightarrow>
           view (out_byte io p b d) = (view d)\<lparr>regs := (regs (view d))(p := b)\<rparr>"
    and cmd_read: "xfer (view d) = Idle \<Longrightarrow> regs (view d) 0x1F2 = 1 \<Longrightarrow>
           view (out_byte io 0x1F7 0x20 d) = (view d)\<lparr>xfer := Reading (lba_of (regs (view d))) 0\<rparr>"
    and cmd_write: "xfer (view d) = Idle \<Longrightarrow> regs (view d) 0x1F2 = 1 \<Longrightarrow>
           view (out_byte io 0x1F7 0x30 d) = (view d)\<lparr>xfer := Writing (lba_of (regs (view d))) []\<rparr>"
    and data_in: "xfer (view d) = Reading s k \<Longrightarrow> k < 128 \<Longrightarrow>
           fst (in_long io 0x1F0 d) = longs (get_sect (media (view d)) s) ! k
           \<and> view (snd (in_long io 0x1F0 d))
             = (view d)\<lparr>xfer := if Suc k = 128 then Idle else Reading s (Suc k)\<rparr>"
    and data_out: "xfer (view d) = Writing s ws \<Longrightarrow> length ws < 128 \<Longrightarrow>
           view (out_long io 0x1F0 w d) =
             (if Suc (length ws) = 128
              then (view d)\<lparr>xfer := Idle, media := put_sect (media (view d)) s (unlongs (ws @ [w]))\<rparr>
              else (view d)\<lparr>xfer := Writing s (ws @ [w])\<rparr>)"
begin

lemma wait_returns: "\<exists>d'. wait_disk io d = Some d' \<and> view d' = view d"
proof (induction "busy d" arbitrary: d rule: less_induct)
  case less
  obtain b d1 where st: "in_byte io 0x1F7 d = (b, d1)" by fastforce
  then have v: "view d1 = view d" using status_view [of d] by simp
  show ?case
  proof (cases "busy d = 0")
    case True
    then have "wait_disk io d = Some d1"
      using st status_ready [of d] by (simp add: wait_disk.simps [of io d])
    with v show ?thesis by blast
  next
    case False
    with st status_busy [of d] have "busy d1 < busy d" "wait_disk io d = wait_disk io d1"
      by (simp_all add: wait_disk.simps [of io d])
    with less [of d1] v show ?thesis by auto
  qed
qed

lemma in_longs_sector:
  assumes "xfer (view d) = Reading s k" "k + n = 128" "0 < n"
  shows "fst (in_longs io n d) = drop k (longs (get_sect (media (view d)) s))
    \<and> view (snd (in_longs io n d)) = (view d)\<lparr>xfer := Idle\<rparr>"
  using assms
proof (induction n arbitrary: d k)
  case 0
  then show ?case by simp
next
  case (Suc n)
  let ?ls = "longs (get_sect (media (view d)) s)"
  obtain w d1 where step: "in_long io 0x1F0 d = (w, d1)" by fastforce
  have w: "w = ?ls ! k" and v1: "view d1 = (view d)\<lparr>xfer := if Suc k = 128 then Idle else Reading s (Suc k)\<rparr>"
    using data_in [of d s k] Suc.prems step by auto
  have len: "length ?ls = 128" by simp
  show ?case
  proof (cases "n = 0")
    case True
    with Suc.prems step w v1 len show ?thesis
      by (simp add: Cons_nth_drop_Suc [symmetric])
  next
    case False
    with Suc.prems v1 have "xfer (view d1) = Reading s (Suc k)" by auto
    with Suc.IH [of d1 "Suc k"] Suc.prems False step w v1 len
    show ?thesis by (auto simp: Cons_nth_drop_Suc [symmetric] split: prod.splits)
  qed
qed

lemma out_longs_sector:
  assumes "xfer (view d) = Writing s ws" "length ws + length vs = 128" "vs \<noteq> []"
  shows "view (out_longs io vs d)
    = (view d)\<lparr>xfer := Idle, media := put_sect (media (view d)) s (unlongs (ws @ vs))\<rparr>"
  using assms
proof (induction vs arbitrary: d ws)
  case Nil
  then show ?case by simp
next
  case (Cons v vs)
  have step: "view (out_long io 0x1F0 v d) =
      (if vs = [] then (view d)\<lparr>xfer := Idle, media := put_sect (media (view d)) s (unlongs (ws @ [v]))\<rparr>
       else (view d)\<lparr>xfer := Writing s (ws @ [v])\<rparr>)"
    using data_out [of d s ws v] Cons.prems by (cases vs) auto
  show ?case
  proof (cases "vs = []")
    case True
    with step show ?thesis by simp
  next
    case False
    with Cons.IH [of "out_long io 0x1F0 v d" "ws @ [v]"] Cons.prems step
    show ?thesis by simp
  qed
qed

lemma set_lba_view:
  assumes "xfer (view d) = Idle" "0 \<le> off" "off < 2 ^ 28" "cmd = 0x20 \<or> cmd = 0x30"
  shows "\<exists>r. view (set_lba io off cmd d) = (view d)\<lparr>regs := r,
    xfer := if cmd = 0x20 then Reading (nat off) 0 else Writing (nat off) []\<rparr>"
proof -
  let ?r = "(regs (view d))(0x1F2 := 1, 0x1F3 := word_of_int off, 0x1F4 := word_of_int (off div 2 ^ 8),
    0x1F5 := word_of_int (off div 2 ^ 16), 0x1F6 := word_of_int (off div 2 ^ 24) OR 0xE0)"
  define d5 where "d5 = out_byte io 0x1F6 (word_of_int (off div 2 ^ 24) OR 0xE0)
    (out_byte io 0x1F5 (word_of_int (off div 2 ^ 16)) (out_byte io 0x1F4 (word_of_int (off div 2 ^ 8))
    (out_byte io 0x1F3 (word_of_int off) (out_byte io 0x1F2 1 d))))"
  have v5: "view d5 = (view d)\<lparr>regs := ?r\<rparr>"
    by (simp add: d5_def reg_write)
  have lba: "lba_of ?r = nat off"
    using lba_bytes [OF assms(2,3)] by (simp add: lba_of_def)
  have "set_lba io off cmd d = out_byte io 0x1F7 cmd d5"
    by (simp add: set_lba_def d5_def)
  moreover have "regs (view d5) = ?r" "xfer (view d5) = Idle" "regs (view d5) 0x1F2 = 1"
    using v5 assms(1) by simp_all
  ultimately show ?thesis
    using cmd_read [of d5] cmd_write [of d5] v5 lba assms(4) by auto
qed

lemma read_sect_reads:
  assumes "xfer (view d) = Idle" "0 \<le> off" "off < 2 ^ 28"
  shows "\<exists>d'. read_sect io off d = Some (longs (get_sect (media (view d)) (nat off)), d')
    \<and> xfer (view d') = Idle \<and> media (view d') = media (view d)"
proof -
  obtain d1 where d1: "wait_disk io d = Some d1" "view d1 = view d"
    using wait_returns by blast
  obtain r where v2: "view (set_lba io off 0x20 d1) = (view d)\<lparr>regs := r, xfer := Reading (nat off) 0\<rparr>"
    using set_lba_view [of d1 off "0x20"] assms d1 by auto
  obtain d3 where d3: "wait_disk io (set_lba io off 0x20 d1) = Some d3"
    "view d3 = (view d)\<lparr>regs := r, xfer := Reading (nat off) 0\<rparr>"
    using wait_returns [of "set_lba io off 0x20 d1"] v2 by auto
  then show ?thesis
    using in_longs_sector [of d3 "nat off" 0 128] d1
    by (cases "in_longs io 128 d3") (auto simp: read_sect_def SECTOR_SIZE_def)
qed

lemma write_sect_writes:
  assumes "xfer (view d) = Idle" "0 \<le> off" "off < 2 ^ 28" "length src = 128"
  shows "\<exists>d'. write_sect io src off d = Some d'
    \<and> xfer (view d') = Idle \<and> media (view d') = put_sect (media (view d)) (nat off) (unlongs src)"
proof -
  obtain d1 where d1: "wait_disk io d = Some d1" "view d1 = view d"
    using wait_returns by blast
  obtain r where v2: "view (set_lba io off 0x30 d1) = (view d)\<lparr>regs := r, xfer := Writing (nat off) []\<rparr>"
    using set_lba_view [of d1 off "0x30"] assms d1 by auto
  obtain d3 where d3: "wait_disk io (set_lba io off 0x30 d1) = Some d3"
    "view d3 = (view d)\<lparr>regs := r, xfer := Writing (nat off) []\<rparr>"
    using wait_returns [of "set_lba io off 0x30 d1"] v2 by auto
  moreover have "src \<noteq> []" using assms(4) by auto
  ultimately show ?thesis
    using out_longs_sector [of d3 "nat off" "[]" src] d1 assms(4)
    by (auto simp: write_sect_def SECTOR_SIZE_def)
qed

end

subsection \<open>A drive that satisfies the laws\<close>

type_synonym sim_drive = "ata_view \<times> nat"

definition sim_ports :: "sim_drive port_ops" where
  "sim_ports = \<lparr>
     in_byte = (\<lambda>p (v, n). if p = 0x1F7 then (if n = 0 then (0x40, (v, 0)) else (0x80, (v, n - 1)))
                           else (regs v p, (v, n))),
     out_byte = (\<lambda>p b (v, n).
       if p = 0x1F7 then
         (if b = 0x20 then (v\<lparr>xfer := Reading (lba_of (regs v)) 0\<rparr>, 3)
          else if b = 0x30 then (v\<lparr>xfer := Writing (lba_of (regs v)) []\<rparr>, 3) else (v, n))
       else (v\<lparr>regs := (regs v)(p := b)\<rparr>, n)),
     in_long = (\<lambda>p (v, n). case xfer v of
         Reading s k \<Rightarrow> (longs (get_sect (media v) s) ! k,
            (v\<lparr>xfer := if Suc k = 128 then Idle else Reading s (Suc k)\<rparr>, n))
       | _ \<Rightarrow> (0, (v, n))),
     out_long = (\<lambda>p w (v, n). case xfer v of
         Writing s ws \<Rightarrow>
           (if Suc (length ws) = 128
            then (v\<lparr>xfer := Idle, media := put_sect (media v) s (unlongs (ws @ [w]))\<rparr>, 3)
            else (v\<lparr>xfer := Writing s (ws @ [w])\<rparr>, n))
       | _ \<Rightarrow> (v, n))\<rparr>"

interpretation sim: ata_drive sim_ports fst snd
  by unfold_locales (auto simp: sim_ports_def split: prod.splits xfer.splits)

subsection \<open>Properties\<close>

text \<open>
  C12. \<^verbatim>\<open>read_disk\<close>, which fetches sector after sector and copies out of a 512-byte buffer
  with a running remainder, returns exactly the bytes of the medium from \<open>offset\<close> on, for
  every length and every alignment.
\<close>
theorem read_disk_correct:
  "0 \<le> offset \<Longrightarrow> read_disk d sz num offset = Some (map d [nat offset..<nat offset + nat (sz * num)])"
  by (rule read_disk_eq)

theorem read_disk_correct_witness:
  "read_disk (\<lambda>a. of_nat a) 1 4 510 = Some [254, 255, 0, 1]"
  using read_disk_correct [of 510 "\<lambda>a. of_nat a" 1 4] by (simp add: upt_rec)

text \<open>
  C13. \<^verbatim>\<open>write_disk\<close>, a read-modify-write of every sector it touches, changes the bytes at
  \<open>offset .. offset + length - 1\<close> to the given ones and no other byte of the medium; in
  particular the last, possibly untouched, sector it writes back is unchanged.
\<close>
theorem write_disk_correct:
  "0 \<le> offset \<Longrightarrow> sz * num = int (length src) \<Longrightarrow>
   write_disk d src sz num offset = Some (blit d (nat offset) src)"
  by (rule write_disk_eq)

theorem write_disk_correct_witness:
  "write_disk (\<lambda>_. 7) [1, 2, 3] 1 3 511 = Some (blit (\<lambda>_. 7) 511 [1, 2, 3])"
  using write_disk_correct [of 511 1 3 "[1, 2, 3]" "\<lambda>_. 7"] by simp



end
