(* ===== verification/Layout.thy ===== *)
theory Layout
  imports Disk
begin

text \<open>
  The on-disk structures of \<^verbatim>\<open>os/include/ext.h\<close>. Each C union of named fields over a byte
  array is a record of the fields and of the bytes after them (\<open>\<dots>_pad\<close>), with the codec
  between the record and the bytes: \<open>dec_\<dots>\<close> is what reading the structure from the disk
  into the union gives, \<open>enc_\<dots>\<close> the bytes that writing it back stores. The two are inverse
  on well-formed records, so a structure that is read, changed and written back loses
  nothing, the bytes after the named fields included.
\<close>

definition SECTOR_NUM :: int where "SECTOR_NUM = 8196"
definition SECTORS_PER_BLOCK :: int where "SECTORS_PER_BLOCK = 2"
definition POINTER_NUM :: int where "POINTER_NUM = 12"
definition NAME_LENGTH :: nat where "NAME_LENGTH = 64"
definition MAX_GROUP_NUM :: int where
  "MAX_GROUP_NUM = SECTOR_NUM div 512 div SECTORS_PER_BLOCK div 8 div SECTORS_PER_BLOCK + 1"
definition BITMAP_SIZE :: int where "BITMAP_SIZE = 1024"
definition INODE_SIZE :: int where "INODE_SIZE = 128"
definition DIRENTRY_SIZE :: nat where "DIRENTRY_SIZE = 128"
definition REGULAR_TYPE :: int where "REGULAR_TYPE = 1"
definition DIRECTORY_TYPE :: int where "DIRECTORY_TYPE = 2"

record SuperBlock =
  sb_sectorNum :: int
  sb_inodeNum :: int
  sb_blockNum :: int
  sb_availInodeNum :: int
  sb_availBlockNum :: int
  sb_blockSize :: int
  sb_inodesPerGroup :: int
  sb_blocksPerGroup :: int
  sb_pad :: "byte list"

record GroupDesc =
  gd_inodeBitmap :: int
  gd_blockBitmap :: int
  gd_inodeTable :: int
  gd_availInodeNum :: int
  gd_availBlockNum :: int
  gd_pad :: "byte list"

record Inode =
  i_type :: int
  i_linkCount :: int
  i_blockCount :: int
  i_size :: int
  i_pointer :: "int list"
  i_singly :: int
  i_doubly :: int
  i_triply :: int
  i_pad :: "byte list"

record DirEntry =
  d_inode :: int
  d_name :: "byte list"
  d_pad :: "byte list"

definition enc_sb :: "SuperBlock \<Rightarrow> byte list" where
  "enc_sb s = put32 (sb_sectorNum s) @ put32 (sb_inodeNum s) @ put32 (sb_blockNum s)
     @ put32 (sb_availInodeNum s) @ put32 (sb_availBlockNum s) @ put32 (sb_blockSize s)
     @ put32 (sb_inodesPerGroup s) @ put32 (sb_blocksPerGroup s) @ sb_pad s"

definition dec_sb :: "byte list \<Rightarrow> SuperBlock" where
  "dec_sb b = \<lparr>sb_sectorNum = get32 b, sb_inodeNum = get32 (drop 4 b), sb_blockNum = get32 (drop 8 b),
     sb_availInodeNum = get32 (drop 12 b), sb_availBlockNum = get32 (drop 16 b),
     sb_blockSize = get32 (drop 20 b), sb_inodesPerGroup = get32 (drop 24 b),
     sb_blocksPerGroup = get32 (drop 28 b), sb_pad = drop 32 b\<rparr>"

definition enc_gd :: "GroupDesc \<Rightarrow> byte list" where
  "enc_gd g = put32 (gd_inodeBitmap g) @ put32 (gd_blockBitmap g) @ put32 (gd_inodeTable g)
     @ put32 (gd_availInodeNum g) @ put32 (gd_availBlockNum g) @ gd_pad g"

definition dec_gd :: "byte list \<Rightarrow> GroupDesc" where
  "dec_gd b = \<lparr>gd_inodeBitmap = get32 b, gd_blockBitmap = get32 (drop 4 b),
     gd_inodeTable = get32 (drop 8 b), gd_availInodeNum = get32 (drop 12 b),
     gd_availBlockNum = get32 (drop 16 b), gd_pad = drop 20 b\<rparr>"

definition enc_inode :: "Inode \<Rightarrow> byte list" where
  "enc_inode n = put16 (i_type n) @ put16 (i_linkCount n) @ put32 (i_blockCount n) @ put32 (i_size n)
     @ put32s (i_pointer n) @ put32 (i_singly n) @ put32 (i_doubly n) @ put32 (i_triply n) @ i_pad n"

definition dec_inode :: "byte list \<Rightarrow> Inode" where
  "dec_inode b = \<lparr>i_type = get16 b, i_linkCount = get16 (drop 2 b), i_blockCount = get32 (drop 4 b),
     i_size = get32 (drop 8 b), i_pointer = get32s 12 (drop 12 b), i_singly = get32 (drop 60 b),
     i_doubly = get32 (drop 64 b), i_triply = get32 (drop 68 b), i_pad = drop 72 b\<rparr>"

definition enc_de :: "DirEntry \<Rightarrow> byte list" where
  "enc_de e = put32 (d_inode e) @ d_name e @ d_pad e"

definition dec_de :: "byte list \<Rightarrow> DirEntry" where
  "dec_de b = \<lparr>d_inode = get32 b, d_name = take 64 (drop 4 b), d_pad = drop 68 b\<rparr>"

definition wf_sb :: "SuperBlock \<Rightarrow> bool" where
  "wf_sb s \<longleftrightarrow> in32 (sb_sectorNum s) \<and> in32 (sb_inodeNum s) \<and> in32 (sb_blockNum s)
     \<and> in32 (sb_availInodeNum s) \<and> in32 (sb_availBlockNum s) \<and> in32 (sb_blockSize s)
     \<and> in32 (sb_inodesPerGroup s) \<and> in32 (sb_blocksPerGroup s) \<and> length (sb_pad s) = 992"

definition wf_gd :: "GroupDesc \<Rightarrow> bool" where
  "wf_gd g \<longleftrightarrow> in32 (gd_inodeBitmap g) \<and> in32 (gd_blockBitmap g) \<and> in32 (gd_inodeTable g)
     \<and> in32 (gd_availInodeNum g) \<and> in32 (gd_availBlockNum g) \<and> length (gd_pad g) = 12"

definition wf_inode :: "Inode \<Rightarrow> bool" where
  "wf_inode n \<longleftrightarrow> in16 (i_type n) \<and> in16 (i_linkCount n) \<and> in32 (i_blockCount n) \<and> in32 (i_size n)
     \<and> length (i_pointer n) = 12 \<and> list_all in32 (i_pointer n)
     \<and> in32 (i_singly n) \<and> in32 (i_doubly n) \<and> in32 (i_triply n) \<and> length (i_pad n) = 56"

definition wf_de :: "DirEntry \<Rightarrow> bool" where
  "wf_de e \<longleftrightarrow> in32 (d_inode e) \<and> length (d_name e) = 64 \<and> length (d_pad e) = 60"

definition rd_at :: "disk \<Rightarrow> nat \<Rightarrow> nat \<Rightarrow> byte list" where
  \<comment> \<open>\<open>n\<close> bytes of the medium from address \<open>a\<close> on\<close>
  "rd_at d a n = map d [a..<a + n]"

definition inode_at :: "disk \<Rightarrow> int \<Rightarrow> Inode" where
  "inode_at d off = dec_inode (rd_at d (nat off) 128)"

subsection \<open>Arrays of 32-bit integers\<close>

lemma length_get32s [simp]: "length (get32s n bs) = n"
  by (simp add: get32s_def)

lemma length_put32s [simp]: "length (put32s xs) = 4 * length xs"
  by (induction xs) (simp_all add: put32s_def)

lemma put32s_Cons [simp]: "put32s (x # xs) = put32 x @ put32s xs"
  by (simp add: put32s_def)

lemma put32s_Nil [simp]: "put32s [] = []"
  by (simp add: put32s_def)

lemma get32s_nth: "i < n \<Longrightarrow> get32s n bs ! i = get32 (drop (4 * i) bs)"
  by (simp add: get32s_def)

lemma get32s_Suc: "get32s (Suc n) bs = get32 bs # get32s n (drop 4 bs)"
  by (rule nth_equalityI) (simp_all add: get32s_nth nth_Cons' algebra_simps)

lemma get32s_0 [simp]: "get32s 0 bs = []"
  by (simp add: get32s_def)

lemma get32s_put32s [codec]: "get32s (length xs) (put32s xs @ bs) = map i32 xs"
  by (induction xs) (simp_all add: get32s_Suc get32_put32)

lemma put32_get32_take: "4 \<le> length bs \<Longrightarrow> put32 (get32 bs) = take 4 bs"
  using put32_get32 [of "take 4 bs"] by (simp add: get32_def)

lemma put16_get16_take: "2 \<le> length bs \<Longrightarrow> put16 (get16 bs) = take 2 bs"
  using put16_get16 [of "take 2 bs"] by (simp add: get16_def)

lemma put32s_get32s: "4 * n \<le> length bs \<Longrightarrow> put32s (get32s n bs) = take (4 * n) bs"
proof (induction n arbitrary: bs)
  case 0
  then show ?case by (simp add: get32s_def)
next
  case (Suc n)
  then have "put32s (get32s n (drop 4 bs)) = take (4 * n) (drop 4 bs)" by simp
  with Suc.prems show ?case
    by (simp add: get32s_Suc put32_get32_take take_add)
qed

lemma get32_app: "length bs = 4 \<Longrightarrow> get32 (bs @ cs) = get32 bs"
  by (simp add: get32_def)

lemma take_drop_app: "k' = n + k \<Longrightarrow> take n (drop k xs) @ drop k' xs = drop k xs"
  by (metis append_take_drop_id drop_drop)

lemma length_rd_at [simp]: "length (rd_at d a n) = n"
  by (simp add: rd_at_def)

subsection \<open>The codec of each structure\<close>

lemma length_enc [simp]:
  "wf_sb s \<Longrightarrow> length (enc_sb s) = 1024" "wf_gd g \<Longrightarrow> length (enc_gd g) = 32"
  "wf_inode n \<Longrightarrow> length (enc_inode n) = 128" "wf_de e \<Longrightarrow> length (enc_de e) = 128"
  by (simp_all add: enc_sb_def wf_sb_def enc_gd_def wf_gd_def enc_inode_def wf_inode_def
      enc_de_def wf_de_def)

lemma dec_enc_sb [codec]: "wf_sb s \<Longrightarrow> dec_sb (enc_sb s) = s"
  by (simp add: dec_sb_def enc_sb_def wf_sb_def get32_put32 i32_id)

lemma dec_enc_gd [codec]: "wf_gd g \<Longrightarrow> dec_gd (enc_gd g @ bs) = g\<lparr>gd_pad := gd_pad g @ bs\<rparr>"
  by (simp add: dec_gd_def enc_gd_def wf_gd_def get32_put32 i32_id)

lemma dec_enc_inode [codec]:
  assumes "wf_inode n"
  shows "dec_inode (enc_inode n) = n"
proof -
  have len: "length (i_pointer n) = 12" and "map i32 (i_pointer n) = i_pointer n"
    using assms by (auto simp: wf_inode_def list_all_iff i32_id intro: map_idI)
  then have "get32s 12 (put32s (i_pointer n) @ bs) = i_pointer n" for bs
    using get32s_put32s [of "i_pointer n" bs] by simp
  with assms len show ?thesis
    by (simp add: dec_inode_def enc_inode_def wf_inode_def get32_put32 get16_put16 i32_id i16_id)
qed

lemma dec_enc_de [codec]: "wf_de e \<Longrightarrow> dec_de (enc_de e) = e"
  by (simp add: dec_de_def enc_de_def wf_de_def get32_put32 i32_id)

lemma enc_dec_sb [codec]: "length b = 1024 \<Longrightarrow> enc_sb (dec_sb b) = b"
  by (simp add: enc_sb_def dec_sb_def put32_get32_take take_drop_app)

lemma enc_dec_gd [codec]: "length b = 32 \<Longrightarrow> enc_gd (dec_gd b) = b"
  by (simp add: enc_gd_def dec_gd_def put32_get32_take take_drop_app)

lemma enc_dec_inode [codec]: "length b = 128 \<Longrightarrow> enc_inode (dec_inode b) = b"
  by (simp add: enc_inode_def dec_inode_def put32_get32_take put16_get16_take put32s_get32s take_drop_app)

lemma enc_dec_de [codec]: "length b = 128 \<Longrightarrow> enc_de (dec_de b) = b"
  by (simp add: enc_de_def dec_de_def put32_get32_take take_drop_app)

lemma wf_dec [simp]:
  "length b = 1024 \<Longrightarrow> wf_sb (dec_sb b)" "length b = 32 \<Longrightarrow> wf_gd (dec_gd b)"
  "length b = 128 \<Longrightarrow> wf_inode (dec_inode b)" "length b = 128 \<Longrightarrow> wf_de (dec_de b)"
  by (simp_all add: wf_sb_def dec_sb_def wf_gd_def dec_gd_def wf_inode_def dec_inode_def
      wf_de_def dec_de_def list_all_length get32s_nth)

subsection \<open>Reading back what was written\<close>

lemma nth_rd_at [simp]: "k < n \<Longrightarrow> rd_at d a n ! k = d (a + k)"
  by (simp add: rd_at_def)

lemma rd_at_blit_same [simp]: "n = length bs \<Longrightarrow> rd_at (blit d a bs) a n = bs"
  by (rule nth_equalityI) (simp_all add: blit_def)

lemma rd_at_blit_disjoint:
  "a + n \<le> b \<or> b + length bs \<le> a \<Longrightarrow> rd_at (blit d b bs) a n = rd_at d a n"
  by (rule nth_equalityI) (auto simp: blit_def)

lemma read_disk_rd_at: "0 \<le> off \<Longrightarrow> read_disk d sz num off = Some (rd_at d (nat off) (nat (sz * num)))"
  by (simp add: read_disk_eq rd_at_def)

text \<open>
  The inode that is written to the inode table and read back is the same inode: type,
  link count, block count, size, all fifteen block pointers and the unused tail, at every
  offset.
\<close>
theorem inode_disk_roundtrip:
  assumes "wf_inode n" "0 \<le> inodeOffset"
  shows "\<exists>d'. write_disk d (enc_inode n) INODE_SIZE 1 inodeOffset = Some d'
    \<and> map_option dec_inode (read_disk d' INODE_SIZE 1 inodeOffset) = Some n"
  using assms by (simp add: write_disk_eq INODE_SIZE_def read_disk_rd_at dec_enc_inode)

theorem inode_disk_roundtrip_witness:
  "\<exists>d'. write_disk (\<lambda>_. 0) (enc_inode (dec_inode (replicate 128 3))) INODE_SIZE 1 4096 = Some d'
    \<and> map_option dec_inode (read_disk d' INODE_SIZE 1 4096) = Some (dec_inode (replicate 128 3))"
  using inode_disk_roundtrip [of "dec_inode (replicate 128 3)" 4096 "\<lambda>_. 0"] by simp

end
