(* ===== verification/Geometry.thy ===== *)
theory Geometry
  imports Layout
begin

text \<open>
  The geometry of the file system, \<^verbatim>\<open>os/src/filesystem/ext.c\<close> from \<^verbatim>\<open>calGroupNum\<close> to
  \<^verbatim>\<open>readGroupHeader\<close>: how many block groups a disk has, how large each is, where its
  bitmaps, its inode table and its data blocks start, and the two headers (superblock and
  group descriptors) that record it.

  \<open>fs\<close> is the state every operation of \<^verbatim>\<open>ext.c\<close> works on: the medium and the two in-memory
  structures \<^verbatim>\<open>sBlock\<close> and \<^verbatim>\<open>gDesc\<close> of \<^verbatim>\<open>fs.c\<close>, which the code passes by pointer. The
  array \<^verbatim>\<open>gDesc\<close> has \<open>MAX_GROUP_NUM\<close> entries, one for this configuration.
\<close>

record fs =
  media_of :: disk
  sBlock :: SuperBlock
  gDesc :: "GroupDesc list"

definition groupSectors :: "int \<Rightarrow> int \<Rightarrow> int" where
  \<comment> \<open>the divisor of \<^verbatim>\<open>calGroupNum\<close>: the sectors of a full group, computed in \<^verbatim>\<open>size_t\<close>\<close>
  "groupSectors spb groupDescBlocks =
     u32 (2 + groupDescBlocks * spb + (1 + 1 + 128 * 8) * spb + 512 * spb * 8 * spb)"

partial_function (option) calGroupNum_loop :: "int \<Rightarrow> int \<Rightarrow> int \<Rightarrow> int option" where
  "calGroupNum_loop sectorNum spb groupDescBlocks =
     (let D = groupSectors spb groupDescBlocks in
      if D = 0 then None
      else let quot = i32 (u32 sectorNum div D);
               rem = i32 (u32 sectorNum mod D);
               groupHeaderSectors = i32 (2 + (groupDescBlocks + 1 + 1) * spb);
               groupNum = i32 (512 div 32 * groupDescBlocks * spb)
           in if quot = 0 \<and> rem < groupHeaderSectors then Some 0
              else if quot = 0 \<and> rem \<ge> groupHeaderSectors then Some 1
              else if quot \<le> groupNum \<and> rem < groupHeaderSectors then Some quot
              else if quot < groupNum \<and> rem \<ge> groupHeaderSectors then Some (i32 (quot + 1))
              else calGroupNum_loop sectorNum spb (i32 (groupDescBlocks + 1)))"

definition calGroupNum :: "int \<Rightarrow> int \<Rightarrow> int option" where
  "calGroupNum sectorNum spb = calGroupNum_loop sectorNum spb 1"

definition calDescBlocks :: "int \<Rightarrow> int \<Rightarrow> int option" where
  "calDescBlocks spb groupNum =
     (let b = u32 (512 * spb) in
      if b = 0 then None else Some (i32 (u32 (groupNum * 32 + 512 * spb - 1) div b)))"

definition calHeaderSectors :: "int \<Rightarrow> int \<Rightarrow> int" where
  "calHeaderSectors spb groupDescBlocks = i32 (2 + (groupDescBlocks + 1 + 1) * spb)"

definition calBodySectors :: "int \<Rightarrow> int" where
  "calBodySectors spb = i32 (128 * 8 * spb + 512 * spb * 8 * spb)"

definition calLastGroup :: "int \<Rightarrow> int \<Rightarrow> int \<Rightarrow> (int \<times> int) option" where
  \<comment> \<open>the common prefix of the three functions below: (groupHeaderSectors, remainder)\<close>
  "calLastGroup sectorNum spb groupNum =
     do { groupDescBlocks \<leftarrow> calDescBlocks spb groupNum;
          let header = calHeaderSectors spb groupDescBlocks;
          let m = i32 (header + calBodySectors spb);
          ok (m \<noteq> 0);
          Some (header, cmod sectorNum m) }"

definition calGroupSize :: "int \<Rightarrow> int \<Rightarrow> int \<Rightarrow> int \<Rightarrow> int option" where
  "calGroupSize sectorNum spb groupNum index =
     do { (header, rem) \<leftarrow> calLastGroup sectorNum spb groupNum;
          let body = calBodySectors spb;
          Some (if index < 0 then 0
                else if index + 1 < groupNum then i32 (header + body)
                else if index + 1 = groupNum then (if rem \<ge> header then rem else i32 (header + body))
                else 0) }"

definition calInodesPerGroup :: "int \<Rightarrow> int \<Rightarrow> int \<Rightarrow> int \<Rightarrow> int option" where
  "calInodesPerGroup sectorNum spb groupNum index =
     do { (header, rem) \<leftarrow> calLastGroup sectorNum spb groupNum;
          let full = i32 (512 * spb * 8);
          Some (if index < 0 then 0
                else if index + 1 < groupNum then full
                else if index + 1 = groupNum then
                  (if rem \<ge> header then
                     (if u32 (rem - header) \<ge> u32 (128 * 8 * spb) then full
                      else i32 (u32 (cdiv (rem - header) spb * spb * 512) div 128))
                   else full)
                else 0) }"

definition calBlocksPerGroup :: "int \<Rightarrow> int \<Rightarrow> int \<Rightarrow> int \<Rightarrow> int option" where
  "calBlocksPerGroup sectorNum spb groupNum index =
     do { (header, rem) \<leftarrow> calLastGroup sectorNum spb groupNum;
          let full = i32 (512 * spb * 8);
          Some (if index < 0 then 0
                else if index + 1 < groupNum then full
                else if index + 1 = groupNum then
                  (if rem \<ge> header then
                     (if u32 (rem - header) \<ge> u32 (128 * 8 * spb)
                      then i32 (u32 (rem - header - 128 * 8 * spb) div u32 spb)
                      else 0)
                   else full)
                else 0) }"

fun initGroups :: "int \<Rightarrow> int \<Rightarrow> int \<Rightarrow> int \<Rightarrow> int \<Rightarrow> int list \<Rightarrow>
    GroupDesc list \<times> int \<times> int \<times> int \<Rightarrow> (GroupDesc list \<times> int \<times> int \<times> int) option" where
  \<comment> \<open>the first loop of \<^verbatim>\<open>initGroupHeader\<close>: (descriptors, inodeNum, blockNum, counter)\<close>
  "initGroups sectorNum spb groupNum bitmapOffset groupSize [] st = Some st"
| "initGroups sectorNum spb groupNum bitmapOffset groupSize (i # is) (gd, inodeNum, blockNum, counter) =
     do { ipg \<leftarrow> calInodesPerGroup sectorNum spb groupNum i;
          bpg \<leftarrow> calBlocksPerGroup sectorNum spb groupNum i;
          g \<leftarrow> arr gd i;
          gd \<leftarrow> arr_upd gd i (g\<lparr>gd_availInodeNum := ipg, gd_availBlockNum := bpg,
                  gd_inodeBitmap := i32 (counter + bitmapOffset),
                  gd_blockBitmap := i32 (counter + (bitmapOffset + spb)),
                  gd_inodeTable := i32 (counter + (bitmapOffset + 2 * spb))\<rparr>);
          initGroups sectorNum spb groupNum bitmapOffset groupSize is
            (gd, i32 (inodeNum + ipg), i32 (blockNum + bpg), i32 (counter + groupSize)) }"

fun writeHeaders :: "SuperBlock \<Rightarrow> GroupDesc list \<Rightarrow> int \<Rightarrow> int \<Rightarrow> int list \<Rightarrow> disk \<Rightarrow> disk option" where
  "writeHeaders sb gd groupNum groupSize [] d = Some d"
| "writeHeaders sb gd groupNum groupSize (i # is) d =
     do { d \<leftarrow> write_disk d (enc_sb sb) 1024 1 (i32 (i * groupSize * 512));
          d \<leftarrow> write_disk d (concat (map enc_gd gd)) 32 groupNum (i32 (i * groupSize * 512 + 1024));
          writeHeaders sb gd groupNum groupSize is d }"

definition initGroupHeader :: "int \<Rightarrow> int \<Rightarrow> fs \<Rightarrow> (int \<times> fs) option" where
  "initGroupHeader sectorNum spb s =
     do { groupNum \<leftarrow> calGroupNum sectorNum spb;
          if groupNum = 0 then Some (-1, s)
          else do {
            groupDescBlocks \<leftarrow> calDescBlocks spb groupNum;
            groupSize \<leftarrow> calGroupSize sectorNum spb groupNum 0;
            let bitmapOffset = i32 (2 + groupDescBlocks * spb);
            (gd, inodeNum, blockNum, counter) \<leftarrow> initGroups sectorNum spb groupNum bitmapOffset groupSize
              (map int [0..<nat groupNum]) (gDesc s, 0, 0, 0);
            let sb = (sBlock s)\<lparr>sb_sectorNum := sectorNum, sb_inodeNum := inodeNum,
              sb_blockNum := blockNum, sb_availInodeNum := inodeNum, sb_availBlockNum := blockNum,
              sb_blockSize := i32 (512 * spb), sb_inodesPerGroup := i32 (512 * spb * 8),
              sb_blocksPerGroup := i32 (512 * spb * 8)\<rparr>;
            d \<leftarrow> writeHeaders sb gd groupNum groupSize (map int [0..<nat groupNum]) (media_of s);
            Some (0, \<lparr>media_of = d, sBlock = sb, gDesc = gd\<rparr>) } }"

definition readGroupHeader :: "fs \<Rightarrow> (int \<times> fs) option" where
  \<comment> \<open>the descriptors are read into the array \<^verbatim>\<open>gDesc\<close>: more than it holds is out of range\<close>
  "readGroupHeader s =
     do { b \<leftarrow> read_disk (media_of s) 1024 1 0;
          let sb = dec_sb b;
          groupNum \<leftarrow> calGroupNum (sb_sectorNum sb) (cdiv (sb_blockSize sb) 512);
          if groupNum = 0 then Some (-1, s\<lparr>sBlock := sb\<rparr>)
          else do {
            ok (groupNum \<le> int (length (gDesc s)));
            t \<leftarrow> read_disk (media_of s) 32 groupNum 1024;
            Some (0, s\<lparr>sBlock := sb,
              gDesc := map (\<lambda>k. dec_gd (take 32 (drop (32 * k) t))) [0..<nat groupNum]
                @ drop (nat groupNum) (gDesc s)\<rparr>) } }"

subsection \<open>The number of groups\<close>

lemma groupSectors_eq:
  assumes "1 \<le> spb" "spb \<le> 128" "1 \<le> g" "g \<le> 32768"
  shows "groupSectors spb g = 2 + g * spb + 1026 * spb + 4096 * (spb * spb)"
    and "4096 \<le> groupSectors spb g"
proof -
  have gs: "1 \<le> g * spb" "g * spb \<le> 32768 * 128"
    using assms mult_mono [of 1 g 1 spb] mult_mono [of g 32768 spb 128] by auto
  have ss: "1 \<le> spb * spb" "spb * spb \<le> 128 * 128"
    using assms mult_mono [of 1 spb 1 spb] mult_mono [of spb 128 spb 128] by auto
  have "2 + g * spb + (1 + 1 + 128 * 8) * spb + 512 * spb * 8 * spb
      = 2 + g * spb + 1026 * spb + 4096 * (spb * spb)" by simp
  then show eq: "groupSectors spb g = 2 + g * spb + 1026 * spb + 4096 * (spb * spb)"
    unfolding groupSectors_def using assms gs ss by (simp add: u32_id)
  show "4096 \<le> groupSectors spb g"
    unfolding eq using assms gs ss by simp
qed

definition groups_fit :: "int \<Rightarrow> int \<Rightarrow> int \<Rightarrow> int \<Rightarrow> bool" where
  \<comment> \<open>\<open>n\<close> groups with \<open>g\<close> descriptor blocks each: what a disk of \<open>s\<close> sectors holds, and what
     the descriptor blocks hold\<close>
  "groups_fit s spb g n \<longleftrightarrow>
     (let D = 2 + (g + 1026) * spb + 4096 * spb * spb in
      n = s div D + (if s mod D < 2 + (g + 2) * spb then 0 else 1) \<and> 0 \<le> n \<and> n \<le> 16 * g * spb)"

lemma calGroupNum_loop_returns:
  assumes "0 \<le> s" "s < 2147483648" "1 \<le> spb" "spb \<le> 128"
  shows "1 \<le> g \<Longrightarrow> g \<le> 32768 \<Longrightarrow> \<exists>n g'. calGroupNum_loop s spb g = Some n \<and> 1 \<le> g' \<and> groups_fit s spb g' n"
proof (induction "nat (32768 - g)" arbitrary: g rule: less_induct)
  case less
  let ?D = "groupSectors spb g"
  have De: "?D = 2 + (g + 1026) * spb + 4096 * spb * spb"
    using groupSectors_eq(1) [OF assms(3,4) less.prems] by (simp add: algebra_simps)
  have D: "4096 \<le> ?D" using groupSectors_eq(2) [OF assms(3,4) less.prems] .
  have q: "0 \<le> s div ?D" "s div ?D < 524288"
    using assms D zdiv_mono2 [of s 4096 ?D] by (simp_all add: le_less_trans pos_imp_zdiv_nonneg_iff)
  have r: "0 \<le> s mod ?D" "s mod ?D < 2147483648"
    using assms D by (simp_all add: le_less_trans [OF zmod_le_nonneg_dividend])
  have gs: "g \<le> g * spb" "1 \<le> g * spb" "g * spb \<le> 32768 * 128"
    using assms less.prems mult_mono [of g g 1 spb] mult_mono [of 1 g 1 spb]
      mult_mono [of g 32768 spb 128] by auto
  have conv: "i32 (u32 s div ?D) = s div ?D" "i32 (u32 s mod ?D) = s mod ?D"
    "i32 (2 + (g + 1 + 1) * spb) = 2 + (g + 2) * spb" "i32 (512 div 32 * g * spb) = 16 * (g * spb)"
    "i32 (s div ?D + 1) = s div ?D + 1" "i32 (g + 1) = g + 1"
    using q r gs assms less.prems by (simp_all add: i32_id u32_id in32_def algebra_simps)
  have unf: "calGroupNum_loop s spb g =
     (let quot = s div ?D; rem = s mod ?D; header = 2 + (g + 2) * spb; groupNum = 16 * (g * spb) in
      if quot = 0 \<and> rem < header then Some 0
      else if quot = 0 \<and> rem \<ge> header then Some 1
      else if quot \<le> groupNum \<and> rem < header then Some quot
      else if quot < groupNum \<and> rem \<ge> header then Some (quot + 1)
      else calGroupNum_loop s spb (g + 1))"
    using D by (subst calGroupNum_loop.simps) (simp only: Let_def conv, simp)
  have fit: "groups_fit s spb g n" if "n = s div ?D + (if s mod ?D < 2 + (g + 2) * spb then 0 else 1)"
    "n \<le> 16 * (g * spb)" for n
    using that q unfolding groups_fit_def Let_def De [symmetric] by (simp add: mult.assoc)
  show ?case
  proof (cases "(s div ?D \<le> 16 * (g * spb) \<and> s mod ?D < 2 + (g + 2) * spb)
      \<or> (s div ?D < 16 * (g * spb) \<and> s mod ?D \<ge> 2 + (g + 2) * spb)")
    case True
    let ?n = "s div ?D + (if s mod ?D < 2 + (g + 2) * spb then 0 else 1)"
    have "calGroupNum_loop s spb g = Some ?n"
      using True unfolding unf Let_def by auto
    moreover have "groups_fit s spb g ?n"
      using True by (intro fit) auto
    ultimately show ?thesis using less.prems by blast
  next
    case False
    then have big: "16 * (g * spb) \<le> s div ?D" by auto
    with q gs have "g < 32768" by auto
    moreover have "calGroupNum_loop s spb g = calGroupNum_loop s spb (g + 1)"
      using False big gs unfolding unf Let_def by auto
    ultimately show ?thesis using less.hyps [of "g + 1"] less.prems by auto
  qed
qed

lemma divmod_one_group:
  assumes "18440 \<le> s" "s < 36880"
  shows "s div 18440 = (1::int)" "s mod 18440 = s - 18440"
proof -
  show "s div 18440 = 1" using assms by simp
  have "(s - 18440) mod 18440 = s - 18440" using assms by (intro mod_pos_pos_trivial) simp_all
  then show "s mod 18440 = s - 18440" by simp
qed

lemma groupSectors_2_1: "groupSectors 2 1 = 18440"
  by (simp add: groupSectors_def u32_def)

lemma calGroupNum_one:
  assumes "8 \<le> s" "s < 18448"
  shows "calGroupNum s 2 = Some 1"
proof (cases "s < 18440")
  case True
  with assms show ?thesis
    by (simp add: calGroupNum_def calGroupNum_loop.simps Let_def groupSectors_2_1 i32_def u32_def)
next
  case False
  with assms divmod_one_group [of s] show ?thesis
    by (simp add: calGroupNum_def calGroupNum_loop.simps Let_def groupSectors_2_1 i32_def u32_def)
qed

lemma calGroupNum_two:
  assumes "18448 \<le> s" "s < 36880"
  shows "calGroupNum s 2 = Some 2"
  using assms divmod_one_group [of s]
  by (simp add: calGroupNum_def calGroupNum_loop.simps Let_def groupSectors_2_1 i32_def u32_def)

subsection \<open>A disk of one group\<close>

lemma calLastGroup_one:
  "0 \<le> s \<Longrightarrow> calLastGroup s 2 1 = Some (8, s mod 18440)"
  by (simp add: calLastGroup_def calDescBlocks_def calHeaderSectors_def calBodySectors_def
      u32_def i32_def Let_def cmod_nonneg)

definition inodes_one :: "int \<Rightarrow> int" where
  "inodes_one s = (if s < 2056 then (s - 8) div 2 * 8 else 8192)"

definition blocks_one :: "int \<Rightarrow> int" where
  "blocks_one s = (if s < 2056 then 0 else min 8192 ((s - 2056) div 2))"

lemma dims_one:
  assumes "8 \<le> s" "s < 18448"
  shows "calInodesPerGroup s 2 1 0 = Some (inodes_one s)"
    and "calBlocksPerGroup s 2 1 0 = Some (blocks_one s)"
    and "\<exists>z. calGroupSize s 2 1 0 = Some z"
proof -
  have r: "s mod 18440 = (if s < 18440 then s else s - 18440)"
    using assms divmod_one_group(2) [of s] by simp
  have u: "u32 (s - 8) = s - 8" "u32 2048 = 2048" "u32 2 = 2" "u32 (s - 2056) = (s - 2056) mod 4294967296"
    using assms by (simp_all add: u32_def)
  have m: "(s - 8) div 2 * 2 * 512 div 128 = (s - 8) div 2 * 8" by simp
  have b: "0 \<le> (s - 8) div 2" "(s - 8) div 2 \<le> 9220" using assms by auto
  then have "i32 (u32 ((s - 8) div 2 * 2 * 512) div 128) = (s - 8) div 2 * 8"
    unfolding u32_def i32_def using m by simp
  then show "calInodesPerGroup s 2 1 0 = Some (inodes_one s)"
    using assms r u by (auto simp: calInodesPerGroup_def calLastGroup_one inodes_one_def cdiv_nonneg i32_def)
  show "calBlocksPerGroup s 2 1 0 = Some (blocks_one s)"
    using assms r u by (auto simp: calBlocksPerGroup_def calLastGroup_one blocks_one_def i32_def min_def)
  show "\<exists>z. calGroupSize s 2 1 0 = Some z"
    using assms by (simp add: calGroupSize_def calLastGroup_one)
qed

lemma bounds_one:
  assumes "8 \<le> s" "s < 18448"
  shows "0 \<le> inodes_one s" "inodes_one s \<le> 8192" "0 \<le> blocks_one s" "blocks_one s \<le> 8192"
    "8 * 512 + 128 * inodes_one s \<le> 512 * s" "0 < blocks_one s \<Longrightarrow> 2056 + 2 * blocks_one s \<le> s"
  using assms by (auto simp: inodes_one_def blocks_one_def min_def)

definition header_one :: "int \<Rightarrow> fs \<Rightarrow> SuperBlock \<times> GroupDesc" where
  \<comment> \<open>the headers of a freshly formatted disk of \<open>s\<close> sectors in one group\<close>
  "header_one s t =
     ((sBlock t)\<lparr>sb_sectorNum := s, sb_inodeNum := inodes_one s, sb_blockNum := blocks_one s,
        sb_availInodeNum := inodes_one s, sb_availBlockNum := blocks_one s, sb_blockSize := 1024,
        sb_inodesPerGroup := 8192, sb_blocksPerGroup := 8192\<rparr>,
      (hd (gDesc t))\<lparr>gd_inodeBitmap := 4, gd_blockBitmap := 6, gd_inodeTable := 8,
        gd_availInodeNum := inodes_one s, gd_availBlockNum := blocks_one s\<rparr>)"

lemma wf_header_one:
  assumes "8 \<le> s" "s < 18448" "wf_sb (sBlock t)" "wf_gd (hd (gDesc t))"
  shows "wf_sb (fst (header_one s t))" "wf_gd (snd (header_one s t))"
  using assms bounds_one [of s]
  by (simp_all add: header_one_def wf_sb_def wf_gd_def in32_def)

lemma init_one:
  assumes s: "8 \<le> s" "s < 18448" and t: "length (gDesc t) = 1" "wf_sb (sBlock t)" "wf_gd (hd (gDesc t))"
  shows "initGroupHeader s 2 t = Some (0, \<lparr>media_of = blit (blit (media_of t) 0 (enc_sb (fst (header_one s t))))
      1024 (enc_gd (snd (header_one s t))), sBlock = fst (header_one s t), gDesc = [snd (header_one s t)]\<rparr>)"
proof -
  obtain g where g: "gDesc t = [g]" using t(1) by (auto simp: length_Suc_conv)
  obtain z where z: "calGroupSize s 2 1 0 = Some z" using dims_one(3) [OF s] by blast
  have desc: "calDescBlocks 2 1 = Some 1" by (simp add: calDescBlocks_def u32_def i32_def)
  have i: "i32 (inodes_one s) = inodes_one s" "i32 (blocks_one s) = blocks_one s"
    using bounds_one [OF s] by (simp_all add: i32_id in32_def)
  have grp: "initGroups s 2 1 4 z [0] ([g], 0, 0, 0)
      = Some ([snd (header_one s t)], inodes_one s, blocks_one s, i32 z)"
    using g i by (simp add: dims_one [OF s] arr_def arr_upd_def header_one_def i32_def)
  have len: "length (enc_sb (fst (header_one s t))) = 1024" "length (enc_gd (snd (header_one s t))) = 32"
    using wf_header_one [OF s t(2,3)] by simp_all
  have w: "writeHeaders (fst (header_one s t)) [snd (header_one s t)] 1 z [0] (media_of t)
      = Some (blit (blit (media_of t) 0 (enc_sb (fst (header_one s t)))) 1024 (enc_gd (snd (header_one s t))))"
    using len by (simp add: i32_def write_disk_eq)
  have sb: "(sBlock t)\<lparr>sb_sectorNum := s, sb_inodeNum := inodes_one s, sb_blockNum := blocks_one s,
       sb_availInodeNum := inodes_one s, sb_availBlockNum := blocks_one s, sb_blockSize := i32 1024,
       sb_inodesPerGroup := i32 8192, sb_blocksPerGroup := i32 8192\<rparr> = fst (header_one s t)"
    by (simp add: header_one_def i32_def)
  have off: "i32 4 = 4" by (simp add: i32_def)
  show ?thesis
    using calGroupNum_one [OF s] desc z grp w sb g off
    by (simp add: initGroupHeader_def Let_def del: initGroups.simps writeHeaders.simps)
qed

lemma read_header_one:
  assumes "wf_sb sb" "wf_gd g" "calGroupNum (sb_sectorNum sb) (cdiv (sb_blockSize sb) 512) = Some 1"
    "rd_at (media_of t) 0 1024 = enc_sb sb" "rd_at (media_of t) 1024 32 = enc_gd g" "length (gDesc t) = 1"
  shows "readGroupHeader t = Some (0, t\<lparr>sBlock := sb, gDesc := [g]\<rparr>)"
  using assms dec_enc_gd [of g "[]"]
  by (simp add: readGroupHeader_def read_disk_rd_at dec_enc_sb Let_def)

text \<open>
  \<^verbatim>\<open>calGroupNum\<close> searches with an unbounded loop for the number of descriptor blocks. For
  every sector count a 32-bit \<^verbatim>\<open>int\<close> holds and every block of 1 to 128 sectors it returns,
  and the count \<open>n\<close> it returns is the number of groups that fit on the disk when each has
  \<open>g\<close> descriptor blocks, with \<open>n\<close> descriptors fitting into these \<open>g\<close> blocks.
\<close>
theorem calGroupNum_terminates:
  assumes "0 \<le> sectorNum" "sectorNum < 2147483648" "1 \<le> spb" "spb \<le> 128"
  shows "\<exists>n g. calGroupNum sectorNum spb = Some n \<and> 1 \<le> g \<and> groups_fit sectorNum spb g n"
  using calGroupNum_loop_returns [OF assms, of 1] by (simp add: calGroupNum_def)

theorem calGroupNum_terminates_witness:
  "\<exists>n g. calGroupNum SECTOR_NUM SECTORS_PER_BLOCK = Some n \<and> 1 \<le> g
    \<and> groups_fit SECTOR_NUM SECTORS_PER_BLOCK g n"
  by (rule calGroupNum_terminates) (simp_all add: SECTOR_NUM_def SECTORS_PER_BLOCK_def)

text \<open>
  C15. Formatting and mounting: on a disk that holds one group (8 to 18447 sectors of two per
  block), \<^verbatim>\<open>initGroupHeader\<close> succeeds, and \<^verbatim>\<open>readGroupHeader\<close> on the disk it leaves, started
  with anything in memory, reconstructs the superblock and the group descriptor exactly.
  The areas it lays out are in order and inside the disk: bitmaps at sectors 4 and 6, the
  inode table at 8, and the data blocks, when there are any, from sector 2056 on.
\<close>
theorem format_mount_roundtrip:
  assumes "8 \<le> sectorNum" "sectorNum < 18448"
    and "length (gDesc t) = 1" "wf_sb (sBlock t)" "wf_gd (hd (gDesc t))"
    and "length (gDesc t') = 1"
  shows "\<exists>s. initGroupHeader sectorNum 2 t = Some (0, s)
    \<and> readGroupHeader (t'\<lparr>media_of := media_of s\<rparr>) = Some (0, s)
    \<and> map (\<lambda>g. (gd_inodeBitmap g, gd_blockBitmap g, gd_inodeTable g)) (gDesc s) = [(4, 6, 8)]
    \<and> sb_sectorNum (sBlock s) = sectorNum
    \<and> 8 * 512 + 128 * sb_inodeNum (sBlock s) \<le> 512 * sectorNum
    \<and> (0 < sb_blockNum (sBlock s) \<longrightarrow> 2056 + 2 * sb_blockNum (sBlock s) \<le> sectorNum)"
proof -
  let ?sb = "fst (header_one sectorNum t)" and ?g = "snd (header_one sectorNum t)"
  let ?d = "blit (blit (media_of t) 0 (enc_sb ?sb)) 1024 (enc_gd ?g)"
  have wf: "wf_sb ?sb" "wf_gd ?g" by (rule wf_header_one [OF assms(1,2,4,5)])+
  have fld: "sb_sectorNum ?sb = sectorNum" "sb_blockSize ?sb = 1024" "sb_inodeNum ?sb = inodes_one sectorNum"
    "sb_blockNum ?sb = blocks_one sectorNum" "gd_inodeBitmap ?g = 4" "gd_blockBitmap ?g = 6" "gd_inodeTable ?g = 8"
    by (simp_all add: header_one_def)
  have "calGroupNum (sb_sectorNum ?sb) (cdiv (sb_blockSize ?sb) 512) = Some 1"
    using calGroupNum_one [OF assms(1,2)] fld by (simp add: cdiv_nonneg)
  moreover have "rd_at ?d 0 1024 = enc_sb ?sb" "rd_at ?d 1024 32 = enc_gd ?g"
    using wf by (simp_all add: rd_at_blit_disjoint)
  ultimately have "readGroupHeader (t'\<lparr>media_of := ?d\<rparr>) = Some (0, \<lparr>media_of = ?d, sBlock = ?sb, gDesc = [?g]\<rparr>)"
    using read_header_one [OF wf, of "t'\<lparr>media_of := ?d\<rparr>"] assms(6) by simp
  then show ?thesis
    using init_one [OF assms(1-5)] fld bounds_one [OF assms(1,2)] by simp
qed

definition blank_fs :: fs where
  \<comment> \<open>the zero-initialised globals of \<^verbatim>\<open>fs.c\<close> over an empty disk\<close>
  "blank_fs = \<lparr>media_of = (\<lambda>_. 0), sBlock = dec_sb (replicate 1024 0), gDesc = [dec_gd (replicate 32 0)]\<rparr>"

theorem format_mount_roundtrip_witness:
  "\<exists>s. initGroupHeader SECTOR_NUM 2 blank_fs = Some (0, s)
    \<and> readGroupHeader (blank_fs\<lparr>media_of := media_of s\<rparr>) = Some (0, s)
    \<and> map (\<lambda>g. (gd_inodeBitmap g, gd_blockBitmap g, gd_inodeTable g)) (gDesc s) = [(4, 6, 8)]
    \<and> sb_sectorNum (sBlock s) = SECTOR_NUM
    \<and> 8 * 512 + 128 * sb_inodeNum (sBlock s) \<le> 512 * SECTOR_NUM
    \<and> (0 < sb_blockNum (sBlock s) \<longrightarrow> 2056 + 2 * sb_blockNum (sBlock s) \<le> SECTOR_NUM)"
  by (rule format_mount_roundtrip) (simp_all add: SECTOR_NUM_def blank_fs_def)

text \<open>
  C16. Mounting trusts the disk: \<^verbatim>\<open>readGroupHeader\<close> copies as many descriptors as the superblock
  on the disk implies into \<^verbatim>\<open>gDesc\<close>, which has \<open>MAX_GROUP_NUM\<close> (one) entries. A superblock of
  18448 to 36879 sectors means two groups, and the copy leaves the array.
\<close>
theorem mount_overruns_gDesc:
  assumes "sb = dec_sb (rd_at (media_of t) 0 1024)" "18448 \<le> sb_sectorNum sb" "sb_sectorNum sb < 36880"
    "sb_blockSize sb = 1024" "int (length (gDesc t)) = MAX_GROUP_NUM"
  shows "readGroupHeader t = None"
proof -
  have "MAX_GROUP_NUM = 1" by (simp add: MAX_GROUP_NUM_def SECTOR_NUM_def SECTORS_PER_BLOCK_def)
  with assms calGroupNum_two [OF assms(2,3)] show ?thesis
    by (simp add: readGroupHeader_def read_disk_rd_at Let_def cdiv_nonneg)
qed

theorem mount_overruns_gDesc_witness:
  "readGroupHeader (blank_fs\<lparr>media_of := blit (\<lambda>_. 0) 0 (enc_sb ((dec_sb (replicate 1024 0))
     \<lparr>sb_sectorNum := 20000, sb_blockSize := 1024\<rparr>))\<rparr>) = None"
proof -
  let ?sb = "(dec_sb (replicate 1024 0))\<lparr>sb_sectorNum := 20000, sb_blockSize := 1024\<rparr>"
  have wf: "wf_sb ?sb" using wf_dec(1) [of "replicate 1024 0"] by (simp add: wf_sb_def in32_def)
  show ?thesis
    by (rule mount_overruns_gDesc [of ?sb])
      (simp_all add: wf dec_enc_sb blank_fs_def MAX_GROUP_NUM_def SECTOR_NUM_def SECTORS_PER_BLOCK_def)
qed

end
