(* ===== verification/Alloc.thy ===== *)
theory Alloc
  imports Geometry
begin

text \<open>
  The two bitmap allocators of \<^verbatim>\<open>os/src/filesystem/ext.c\<close>: \<^verbatim>\<open>getAvailBlock\<close> and
  \<^verbatim>\<open>setAllocBlock\<close> for data blocks, \<^verbatim>\<open>getAvailInode\<close> and \<^verbatim>\<open>setAllocInode\<close> for inodes. Each
  keeps a bitmap block (bit set: in use) and two free counters, one in the group descriptor
  and one in the superblock, and writes all three back after every change.

  The search is over the bytes of the bitmap, most significant bit first, but its bound is
  computed from the number of \<^emph>\<open>free\<close> units, not from the size of the group. The locale
  \<open>bitmap_pool\<close> is what the callers rely on; the interpretations for blocks and inodes show
  what the code provides.
\<close>

fun scan_group :: "(GroupDesc \<Rightarrow> int) \<Rightarrow> GroupDesc list \<Rightarrow> int list \<Rightarrow> int \<Rightarrow> int option" where
  \<comment> \<open>the loop over the groups; past the last one the index is \<^verbatim>\<open>groupNum\<close>\<close>
  "scan_group avail gd [] groupNum = Some groupNum"
| "scan_group avail gd (i # is) groupNum =
     do { g \<leftarrow> arr gd i; if 1 \<le> avail g then Some i else scan_group avail gd is groupNum }"

function scan_byte :: "byte list \<Rightarrow> int \<Rightarrow> int \<Rightarrow> int option" where
  \<comment> \<open>\<^verbatim>\<open>for (; j < bound; j ++) if (bitmap.byte[j] != 0xff) break;\<close>\<close>
  "scan_byte bm bound j =
     (if j < bound then do { b \<leftarrow> arr bm j; if b \<noteq> 0xff then Some j else scan_byte bm bound (j + 1) }
      else Some j)"
  by pat_completeness auto
termination
  by (relation "measure (\<lambda>(bm, bound, j). nat (bound - j))") auto

function scan_bit :: "byte \<Rightarrow> nat \<Rightarrow> nat" where
  \<comment> \<open>\<^verbatim>\<open>for (; k < 8; k ++) if ((byte >> (7-k)) % 2 == 0) break;\<close>\<close>
  "scan_bit b k = (if k < 8 \<and> bit b (7 - k) then scan_bit b (k + 1) else k)"
  by pat_completeness auto
termination
  by (relation "measure (\<lambda>(b, k). 8 - k)") auto

definition sectorsPerBlock :: "SuperBlock \<Rightarrow> int" where
  "sectorsPerBlock sb = cdiv (sb_blockSize sb) 512"

definition groupNumOf :: "fs \<Rightarrow> int option" where
  "groupNumOf s = calGroupNum (sb_sectorNum (sBlock s)) (sectorsPerBlock (sBlock s))"

definition groupSizeOf :: "fs \<Rightarrow> int \<Rightarrow> int option" where
  "groupSizeOf s groupNum = calGroupSize (sb_sectorNum (sBlock s)) (sectorsPerBlock (sBlock s)) groupNum 0"

definition writeBack :: "fs \<Rightarrow> int \<Rightarrow> byte list \<Rightarrow> int \<Rightarrow> fs option" where
  \<comment> \<open>superblock, group descriptors and one bitmap, as every allocator operation ends\<close>
  "writeBack s groupNum bitmap bitmapOffset =
     do { d \<leftarrow> write_disk (media_of s) (enc_sb (sBlock s)) 1024 1 0;
          d \<leftarrow> write_disk d (concat (map enc_gd (gDesc s))) 32 groupNum 1024;
          d \<leftarrow> write_disk d bitmap BITMAP_SIZE 1 (i32 (bitmapOffset * 512));
          Some (s\<lparr>media_of := d\<rparr>) }"

definition getAvailBlock :: "fs \<Rightarrow> int \<Rightarrow> (int \<times> int \<times> fs) option" where
  \<comment> \<open>result: return code, \<^verbatim>\<open>*blockOffset\<close>, state\<close>
  "getAvailBlock s blockOffset =
     do { groupNum \<leftarrow> groupNumOf s;
          groupSize \<leftarrow> groupSizeOf s groupNum;
          if sb_availBlockNum (sBlock s) = 0 then Some (-1, blockOffset, s)
          else do {
            let sb = (sBlock s)\<lparr>sb_availBlockNum := i32 (sb_availBlockNum (sBlock s) - 1)\<rparr>;
            i \<leftarrow> scan_group gd_availBlockNum (gDesc s) (map int [0..<nat groupNum]) groupNum;
            let blockBitmapOffset = (if i < groupNum then gd_blockBitmap (gDesc s ! nat i) else 0);
            let blockOffset = (if i < groupNum then gd_inodeTable (gDesc s ! nat i) else blockOffset);
            bitmap \<leftarrow> read_disk (media_of s) BITMAP_SIZE 1 (i32 (blockBitmapOffset * 512));
            g \<leftarrow> arr (gDesc s) i;
            j \<leftarrow> scan_byte bitmap (cdiv (i32 (gd_availBlockNum g + 7)) 8) 0;
            b \<leftarrow> arr bitmap j;
            let k = scan_bit b 0;
            ok (k < 8); \<comment> \<open>\<^verbatim>\<open>1 << (7-k)\<close> is undefined for \<open>k = 8\<close>\<close>
            let bitmap = bitmap[nat j := b OR push_bit (7 - k) 1];
            let blockOffset = i32 (blockOffset + u32 (128 * 8 * sb_blockSize sb) div 512
                  + cdiv (i32 ((j * 8 + int k) * sb_blockSize sb)) 512);
            gd \<leftarrow> arr_upd (gDesc s) i (g\<lparr>gd_availBlockNum := i32 (gd_availBlockNum g - 1)\<rparr>);
            s \<leftarrow> writeBack (s\<lparr>sBlock := sb, gDesc := gd\<rparr>) groupNum bitmap blockBitmapOffset;
            Some (0, blockOffset, s) } }"

definition setAllocBlock :: "fs \<Rightarrow> int \<Rightarrow> (int \<times> fs) option" where
  "setAllocBlock s blockOffset =
     do { groupNum \<leftarrow> groupNumOf s;
          groupSize \<leftarrow> groupSizeOf s groupNum;
          let spb = u32 (sectorsPerBlock (sBlock s));
          ok (groupSize \<noteq> 0 \<and> spb \<noteq> 0);
          let i = cdiv blockOffset groupSize;
          g \<leftarrow> arr (gDesc s) i;
          let n = u32 (blockOffset - gd_inodeTable g - u32 (128 * 8 * sb_blockSize (sBlock s)) div 512) div spb;
          let j = n div 8; let k = n mod 8;
          bitmap \<leftarrow> read_disk (media_of s) BITMAP_SIZE 1 (i32 (gd_blockBitmap g * 512));
          b \<leftarrow> arr bitmap j;
          if \<not> bit b (7 - nat k) then Some (-1, s)
          else do {
            let sb = (sBlock s)\<lparr>sb_availBlockNum := i32 (sb_availBlockNum (sBlock s) + 1)\<rparr>;
            gd \<leftarrow> arr_upd (gDesc s) i (g\<lparr>gd_availBlockNum := i32 (gd_availBlockNum g + 1)\<rparr>);
            let bitmap = bitmap[nat j := b XOR push_bit (7 - nat k) 1];
            s \<leftarrow> writeBack (s\<lparr>sBlock := sb, gDesc := gd\<rparr>) groupNum bitmap (gd_blockBitmap g);
            Some (0, s) } }"

definition getAvailInode :: "fs \<Rightarrow> int \<Rightarrow> (int \<times> int \<times> fs) option" where
  "getAvailInode s inodeOffset =
     do { groupNum \<leftarrow> groupNumOf s;
          groupSize \<leftarrow> groupSizeOf s groupNum;
          if sb_availInodeNum (sBlock s) = 0 then Some (-1, inodeOffset, s)
          else do {
            let sb = (sBlock s)\<lparr>sb_availInodeNum := i32 (sb_availInodeNum (sBlock s) - 1)\<rparr>;
            i \<leftarrow> scan_group gd_availInodeNum (gDesc s) (map int [0..<nat groupNum]) groupNum;
            let inodeBitmapOffset = (if i < groupNum then gd_inodeBitmap (gDesc s ! nat i) else 0);
            let inodeTableOffset = (if i < groupNum then gd_inodeTable (gDesc s ! nat i) else 0);
            bitmap \<leftarrow> read_disk (media_of s) BITMAP_SIZE 1 (i32 (inodeBitmapOffset * 512));
            g \<leftarrow> arr (gDesc s) i;
            j \<leftarrow> scan_byte bitmap (cdiv (i32 (gd_availInodeNum g + 7)) 8) 0;
            b \<leftarrow> arr bitmap j;
            let k = scan_bit b 0;
            ok (k < 8);
            let bitmap = bitmap[nat j := b OR push_bit (7 - k) 1];
            let inodeOffset = i32 (inodeTableOffset * 512 + (j * 8 + int k) * 128);
            gd \<leftarrow> arr_upd (gDesc s) i (g\<lparr>gd_availInodeNum := i32 (gd_availInodeNum g - 1)\<rparr>);
            s \<leftarrow> writeBack (s\<lparr>sBlock := sb, gDesc := gd\<rparr>) groupNum bitmap inodeBitmapOffset;
            Some (0, inodeOffset, s) } }"

definition setAllocInode :: "fs \<Rightarrow> int \<Rightarrow> (int \<times> fs) option" where
  "setAllocInode s inodeOffset =
     do { groupNum \<leftarrow> groupNumOf s;
          groupSize \<leftarrow> groupSizeOf s groupNum;
          ok (groupSize \<noteq> 0);
          let i = cdiv (cdiv inodeOffset 512) groupSize;
          g \<leftarrow> arr (gDesc s) i;
          let n = u32 (inodeOffset - i32 (gd_inodeTable g * 512)) div 128;
          let j = n div 8; let k = n mod 8;
          bitmap \<leftarrow> read_disk (media_of s) BITMAP_SIZE 1 (i32 (gd_inodeBitmap g * 512));
          b \<leftarrow> arr bitmap j;
          if \<not> bit b (7 - nat k) then Some (-1, s)
          else do {
            let sb = (sBlock s)\<lparr>sb_availInodeNum := i32 (sb_availInodeNum (sBlock s) + 1)\<rparr>;
            gd \<leftarrow> arr_upd (gDesc s) i (g\<lparr>gd_availInodeNum := i32 (gd_availInodeNum g + 1)\<rparr>);
            let bitmap = bitmap[nat j := b XOR push_bit (7 - nat k) 1];
            s \<leftarrow> writeBack (s\<lparr>sBlock := sb, gDesc := gd\<rparr>) groupNum bitmap (gd_inodeBitmap g);
            Some (0, s) } }"

definition used :: "byte list \<Rightarrow> nat \<Rightarrow> bool" where
  \<comment> \<open>unit \<open>n\<close> of a bitmap: bit \<open>7 - n mod 8\<close> of byte \<open>n div 8\<close>\<close>
  "used bm n \<longleftrightarrow> bit (bm ! (n div 8)) (7 - n mod 8)"

definition mark :: "byte list \<Rightarrow> nat \<Rightarrow> byte list" where
  "mark bm n = bm[n div 8 := bm ! (n div 8) OR push_bit (7 - n mod 8) 1]"

definition unmark :: "byte list \<Rightarrow> nat \<Rightarrow> byte list" where
  "unmark bm n = bm[n div 8 := bm ! (n div 8) XOR push_bit (7 - n mod 8) 1]"

subsection \<open>The two scans\<close>

declare scan_byte.simps [simp del] scan_bit.simps [simp del]

lemma bit_255: "k < 8 \<Longrightarrow> bit (0xff :: byte) k"
proof -
  assume "k < 8"
  have "(0xff :: byte) = mask 8" by (simp add: mask_eq_exp_minus_1)
  with \<open>k < 8\<close> show ?thesis by (simp only: bit_mask_iff) simp
qed

lemma byte_eq_255: "b = 0xff \<longleftrightarrow> (\<forall>k<8. bit b (7 - k))" for b :: byte
proof
  assume "b = 0xff"
  moreover have "bit (0xff :: byte) (7 - k)" for k by (rule bit_255) simp
  ultimately show "\<forall>k<8. bit b (7 - k)" by (simp only: simp_thms)
next
  assume all: "\<forall>k<8. bit b (7 - k)"
  show "b = 0xff"
  proof (rule bit_word_eqI)
    fix n assume "n < LENGTH(8)"
    then have "7 - (7 - n) = n" "7 - n < 8" "n < 8" by simp_all
    then show "bit b n \<longleftrightarrow> bit (0xff :: byte) n" using all bit_255 by metis
  qed
qed

lemma scan_bit_spec:
  assumes "k \<le> m" "m < 8" "\<forall>i. k \<le> i \<and> i < m \<longrightarrow> bit b (7 - i)" "\<not> bit b (7 - m)"
  shows "scan_bit b k = m"
  using assms
proof (induction b k rule: scan_bit.induct)
  case (1 b k)
  show ?case
  proof (cases "k = m")
    case True
    with "1.prems" show ?thesis by (subst scan_bit.simps) simp
  next
    case False
    with "1.prems" have "bit b (7 - k)" "k < 8" by auto
    with "1.IH" "1.prems" False show ?thesis by (simp add: scan_bit.simps [of b k])
  qed
qed

lemma scan_bit_full: "k \<le> 8 \<Longrightarrow> scan_bit 0xff k = 8"
proof (induction "8 - k" arbitrary: k)
  case 0
  then show ?case by (subst scan_bit.simps) simp
next
  case (Suc m)
  have "bit (0xff :: byte) (7 - k)" by (rule bit_255) simp
  moreover have "scan_bit 0xff (Suc k) = 8" using Suc by simp
  ultimately show ?case using Suc.prems by (subst scan_bit.simps) simp
qed

lemma scan_byte_spec:
  assumes "j \<le> m" "m \<le> bound" "0 \<le> j" "m \<le> int (length bm)"
    "\<forall>i. j \<le> i \<and> i < m \<longrightarrow> bm ! nat i = 0xff" "m < bound \<longrightarrow> m < int (length bm) \<and> bm ! nat m \<noteq> 0xff"
  shows "scan_byte bm bound j = Some m"
  using assms
proof (induction "nat (m - j)" arbitrary: j)
  case 0
  then show ?case by (subst scan_byte.simps) (auto simp: arr_def)
next
  case (Suc n)
  then have "scan_byte bm bound (j + 1) = Some m" by simp
  with Suc show ?case by (subst scan_byte.simps) (auto simp: arr_def)
qed

lemma byte_full: "bm ! j = 0xff \<longleftrightarrow> (\<forall>k<8. used bm (8 * j + k))"
  by (simp add: byte_eq_255 used_def)

lemma search_found:
  assumes "length bm = 1024" "n < 8192" "\<forall>k<n. used bm k" "\<not> used bm n" "int (n div 8) \<le> bound"
  shows "scan_byte bm bound 0 = Some (int (n div 8))" "scan_bit (bm ! (n div 8)) 0 = n mod 8"
proof -
  have full: "bm ! j = 0xff" if "j < n div 8" for j
  proof -
    have "8 * j + k < n" if "k < 8" for k using that \<open>j < n div 8\<close> by (simp add: less_eq_div_iff_mult_less_eq Suc_leI)
    then show ?thesis using assms(3) by (simp add: byte_full)
  qed
  have n: "8 * (n div 8) + n mod 8 = n" by simp
  have ne: "bm ! (n div 8) \<noteq> 0xff"
    using assms(4) n by (metis byte_full mod_less_divisor zero_less_numeral)
  show "scan_byte bm bound 0 = Some (int (n div 8))"
    using full ne assms(1,2,5) by (intro scan_byte_spec) (auto simp: nat_less_iff)
  have "bit (bm ! (n div 8)) (7 - i)" if "i < n mod 8" for i
  proof -
    have "8 * (n div 8) + i < n" "i < 8" using that n by (linarith, simp add: less_trans [OF that])
    then have "used bm (8 * (n div 8) + i)" using assms(3) by blast
    with \<open>i < 8\<close> show ?thesis by (simp add: used_def)
  qed
  moreover have "\<not> bit (bm ! (n div 8)) (7 - n mod 8)" using assms(4) by (simp add: used_def)
  ultimately show "scan_bit (bm ! (n div 8)) 0 = n mod 8"
    by (intro scan_bit_spec) simp_all
qed

lemma search_lost:
  assumes "length bm = 1024" "m < 1024" "\<forall>k < 8 * m + 8. used bm k"
  shows "scan_byte bm (int m) 0 = Some (int m)" "scan_bit (bm ! m) 0 = 8"
proof -
  have full: "bm ! j = 0xff" if "j \<le> m" for j
    using that assms(3) by (simp add: byte_full)
  show "scan_byte bm (int m) 0 = Some (int m)"
    using full assms(1,2) by (intro scan_byte_spec) (auto simp: nat_le_iff)
  show "scan_bit (bm ! m) 0 = 8"
    using full [of m] scan_bit_full [of 0] by simp
qed

lemma bit_set_byte: "a < 8 \<Longrightarrow> c < 8 \<Longrightarrow> bit (b OR push_bit a 1) c \<longleftrightarrow> c = a \<or> bit b c" for b :: byte
  by (auto simp: bit_simps)

lemma set_clear_byte: "\<not> bit b a \<Longrightarrow> (b OR 2 ^ a) XOR 2 ^ a = b" for b :: byte
  by (rule bit_word_eqI) (auto simp: bit_simps)

lemma same_unit: "k div 8 = n div 8 \<Longrightarrow> 7 - k mod 8 = 7 - n mod 8 \<Longrightarrow> k = (n::nat)"
proof -
  assume eq: "k div 8 = n div 8" "7 - k mod 8 = 7 - n mod 8"
  have "k mod 8 < 8" "n mod 8 < 8" by simp_all
  with eq(2) have "k mod 8 = n mod 8" by linarith
  with eq(1) show ?thesis by (metis div_mult_mod_eq)
qed

lemma length_mark [simp]: "length (mark bm n) = length bm" "length (unmark bm n) = length bm"
  by (simp_all add: mark_def unmark_def)

lemma used_mark:
  assumes "n < 8 * length bm"
  shows "used (mark bm n) k \<longleftrightarrow> k = n \<or> used bm k"
proof (cases "k div 8 = n div 8")
  case True
  with assms bit_set_byte [of "7 - n mod 8" "7 - k mod 8" "bm ! (n div 8)"] same_unit [of k n]
  show ?thesis by (auto simp: used_def mark_def less_mult_imp_div_less mult.commute)
next
  case False
  then show ?thesis by (auto simp: used_def mark_def)
qed

lemma unmark_mark: "n < 8 * length bm \<Longrightarrow> \<not> used bm n \<Longrightarrow> unmark (mark bm n) n = bm"
  by (simp add: unmark_def mark_def used_def set_clear_byte less_mult_imp_div_less mult.commute)

lemma bit_clear_byte: "a < 8 \<Longrightarrow> c < 8 \<Longrightarrow> bit b a \<Longrightarrow> bit (b XOR push_bit a 1) c \<longleftrightarrow> c \<noteq> a \<and> bit b c" for b :: byte
  by (auto simp: bit_simps)

lemma used_unmark:
  assumes "n < 8 * length bm" "used bm n"
  shows "used (unmark bm n) k \<longleftrightarrow> k \<noteq> n \<and> used bm k"
proof (cases "k div 8 = n div 8")
  case True
  with assms bit_clear_byte [of "7 - n mod 8" "7 - k mod 8" "bm ! (n div 8)"] same_unit [of k n]
  show ?thesis by (auto simp: used_def unmark_def less_mult_imp_div_less mult.commute)
next
  case False
  then show ?thesis by (auto simp: used_def unmark_def)
qed

subsection \<open>The mounted file system\<close>

definition mounted :: "fs \<Rightarrow> bool" where
  \<comment> \<open>headers as \<^verbatim>\<open>readGroupHeader\<close> leaves them for a one-group disk\<close>
  "mounted s \<longleftrightarrow> wf_sb (sBlock s) \<and> 8 \<le> sb_sectorNum (sBlock s) \<and> sb_sectorNum (sBlock s) < 18448
     \<and> sb_blockSize (sBlock s) = 1024 \<and> length (gDesc s) = 1 \<and> wf_gd (hd (gDesc s))
     \<and> gd_inodeBitmap (hd (gDesc s)) = 4 \<and> gd_blockBitmap (hd (gDesc s)) = 6
     \<and> gd_inodeTable (hd (gDesc s)) = 8"

definition commit :: "fs \<Rightarrow> nat \<Rightarrow> byte list \<Rightarrow> fs" where
  \<comment> \<open>the state after \<open>writeBack\<close>: both headers and the bitmap at \<open>addr\<close> are on the medium\<close>
  "commit s addr bm = s\<lparr>media_of := blit (blit (blit (media_of s) 0 (enc_sb (sBlock s)))
     1024 (enc_gd (hd (gDesc s)))) addr bm\<rparr>"

lemma mounted_groups:
  assumes "mounted s"
  shows "groupNumOf s = Some 1" "\<exists>z. groupSizeOf s 1 = Some z" "\<exists>g. gDesc s = [g]"
    "sectorsPerBlock (sBlock s) = 2" "sb_blockSize (sBlock s) = 1024"
  using assms calGroupNum_one dims_one(3)
  by (auto simp: mounted_def groupNumOf_def groupSizeOf_def sectorsPerBlock_def cdiv_nonneg length_Suc_conv)

lemma groupSize_big:
  assumes "mounted s" "groupSizeOf s 1 = Some z"
  shows "z = min 18440 (sb_sectorNum (sBlock s))"
proof -
  let ?n = "sb_sectorNum (sBlock s)"
  have "?n mod 18440 = (if ?n < 18440 then ?n else ?n - 18440)"
    using assms divmod_one_group(2) [of ?n] by (simp add: mounted_def)
  moreover have "sectorsPerBlock (sBlock s) = 2" by (rule mounted_groups [OF assms(1)])
  ultimately show ?thesis
    using assms by (simp add: groupSizeOf_def calGroupSize_def calLastGroup_one calBodySectors_def i32_def
        mounted_def min_def split: if_splits)
qed

lemma writeBack_commit:
  assumes "mounted s" "length bm = 1024" "0 \<le> off" "off < 4194304"
  shows "writeBack s 1 bm off = Some (commit s (nat (off * 512)) bm)"
proof -
  obtain g where g: "gDesc s = [g]" using mounted_groups [OF assms(1)] by blast
  have "wf_sb (sBlock s)" "wf_gd g" using assms(1) g by (simp_all add: mounted_def)
  then show ?thesis
    using assms(2-4) g
    by (simp add: writeBack_def write_disk_eq BITMAP_SIZE_def i32_id in32_def commit_def)
qed

subsection \<open>What the callers of an allocator rely on\<close>

locale bitmap_pool =
  fixes get :: "fs \<Rightarrow> int \<Rightarrow> (int \<times> int \<times> fs) option"
    and put :: "fs \<Rightarrow> int \<Rightarrow> (int \<times> fs) option"
    and addr :: "nat \<Rightarrow> int" \<comment> \<open>the offset handed out for unit \<open>n\<close>\<close>
    and bm :: "fs \<Rightarrow> byte list" and avail :: "fs \<Rightarrow> int" and units :: "fs \<Rightarrow> nat"
    and ready :: "fs \<Rightarrow> bool"
    and took :: "fs \<Rightarrow> nat \<Rightarrow> fs" and freed :: "fs \<Rightarrow> nat \<Rightarrow> fs"
  assumes addr_inj: "addr m = addr n \<Longrightarrow> m = n"
    and ready_pool: "ready s \<Longrightarrow> length (bm s) = 1024 \<and> units s \<le> 8192 \<and> 0 \<le> avail s \<and> avail s \<le> 8192"
    and get_empty: "ready s \<Longrightarrow> avail s = 0 \<Longrightarrow> get s x = Some (-1, x, s)"
    and get_found: "ready s \<Longrightarrow> 0 < avail s \<Longrightarrow> n < 8192 \<Longrightarrow> \<forall>k<n. used (bm s) k \<Longrightarrow> \<not> used (bm s) n \<Longrightarrow>
           int (n div 8) \<le> (avail s + 7) div 8 \<Longrightarrow> get s x = Some (0, addr n, took s n)"
    and get_lost: "ready s \<Longrightarrow> 0 < avail s \<Longrightarrow> m < 1024 \<Longrightarrow> int m = (avail s + 7) div 8 \<Longrightarrow>
           \<forall>k < 8 * m + 8. used (bm s) k \<Longrightarrow> get s x = None"
    and took_law: "ready s \<Longrightarrow> 0 < avail s \<Longrightarrow> n < 8192 \<Longrightarrow> ready (took s n) \<and> bm (took s n) = mark (bm s) n
           \<and> avail (took s n) = avail s - 1 \<and> units (took s n) = units s"
    and put_used: "ready s \<Longrightarrow> n < units s \<Longrightarrow> used (bm s) n \<Longrightarrow> put s (addr n) = Some (0, freed s n)"
    and put_free: "ready s \<Longrightarrow> n < units s \<Longrightarrow> \<not> used (bm s) n \<Longrightarrow> put s (addr n) = Some (-1, s)"
    and freed_law: "ready s \<Longrightarrow> avail s < 8192 \<Longrightarrow> n < units s \<Longrightarrow> ready (freed s n)
           \<and> bm (freed s n) = unmark (bm s) n \<and> avail (freed s n) = avail s + 1 \<and> units (freed s n) = units s"
begin

definition accounted :: "fs \<Rightarrow> bool" where
  \<comment> \<open>the free counter agrees with the bitmap\<close>
  "accounted s \<longleftrightarrow> ready s \<and> avail s + int (card {k. k < units s \<and> used (bm s) k}) = int (units s)"

lemma first_free:
  assumes "accounted s" "0 < avail s"
  shows "\<exists>n. n < units s \<and> \<not> used (bm s) n \<and> (\<forall>k<n. used (bm s) k) \<and> int n + avail s \<le> int (units s)"
proof -
  let ?U = "{k. k < units s \<and> used (bm s) k}"
  have "card ?U < units s" using assms by (simp add: accounted_def)
  then have "?U \<noteq> {..<units s}" by (metis card_lessThan less_irrefl)
  then have "\<exists>n. n < units s \<and> \<not> used (bm s) n" by auto
  then have "\<exists>n. (n < units s \<and> \<not> used (bm s) n) \<and> (\<forall>k<n. \<not> (k < units s \<and> \<not> used (bm s) k))"
    by (rule exists_least_iff [THEN iffD1])
  then obtain n where n: "n < units s" "\<not> used (bm s) n" "\<forall>k<n. used (bm s) k"
    by force
  then have "{..<n} \<subseteq> ?U" by auto
  then have "n \<le> card ?U" using card_mono [of ?U "{..<n}"] by simp
  with assms have "int n + avail s \<le> int (units s)" by (simp add: accounted_def)
  with n show ?thesis by blast
qed

lemma accounted_took:
  assumes "accounted s" "0 < avail s" "n < units s" "\<not> used (bm s) n"
  shows "accounted (took s n)"
proof -
  have r: "ready s" "length (bm s) = 1024" "units s \<le> 8192" using assms ready_pool by (auto simp: accounted_def)
  have eq: "{k. k < units s \<and> used (mark (bm s) n) k} = insert n {k. k < units s \<and> used (bm s) k}"
    using r assms(3) by (auto simp: used_mark)
  have "card (insert n {k. k < units s \<and> used (bm s) k}) = Suc (card {k. k < units s \<and> used (bm s) k})"
    using assms(4) by simp
  with eq took_law [of s n] r assms show ?thesis by (simp add: accounted_def)
qed

lemma accounted_freed:
  assumes "accounted s" "n < units s" "used (bm s) n"
  shows "put s (addr n) = Some (0, freed s n)" "accounted (freed s n)" "avail (freed s n) = avail s + 1" "units (freed s n) = units s"
    "used (bm (freed s n)) k \<longleftrightarrow> k \<noteq> n \<and> used (bm s) k"
proof -
  let ?U = "{k. k < units s \<and> used (bm s) k}"
  have r: "ready s" "length (bm s) = 1024" "units s \<le> 8192" using assms ready_pool by (auto simp: accounted_def)
  have c: "card ?U = Suc (card (?U - {n}))" using assms(2,3) by (intro card_Suc_Diff1 [symmetric]) auto
  then have "avail s < 8192" using assms(1) r(3) by (simp add: accounted_def)
  note f = freed_law [OF r(1) this assms(2)]
  have u: "used (bm (freed s n)) k \<longleftrightarrow> k \<noteq> n \<and> used (bm s) k" for k
    using f r assms(2,3) by (simp add: used_unmark)
  have "{k. k < units s \<and> used (bm (freed s n)) k} = ?U - {n}" using u by auto
  then show "accounted (freed s n)" using f c assms(1) by (simp add: accounted_def)
  show "put s (addr n) = Some (0, freed s n)" using put_used r(1) assms(2,3) .
  show "avail (freed s n) = avail s + 1" "units (freed s n) = units s" "used (bm (freed s n)) k \<longleftrightarrow> k \<noteq> n \<and> used (bm s) k"
    using f u by simp_all
qed

lemma get_half_full:
  assumes "accounted s" "0 < avail s" "int (units s) \<le> 2 * avail s + 7"
  shows "\<exists>n. n < units s \<and> \<not> used (bm s) n \<and> get s x = Some (0, addr n, took s n) \<and> accounted (took s n)"
proof -
  obtain n where n: "n < units s" "\<not> used (bm s) n" "\<forall>k<n. used (bm s) k" "int n + avail s \<le> int (units s)"
    using first_free [OF assms(1,2)] by blast
  have r: "ready s" "units s \<le> 8192" using assms(1) ready_pool by (auto simp: accounted_def)
  have "int (n div 8) \<le> (avail s + 7) div 8"
    using n(4) assms(3) by (simp add: zdiv_int zdiv_mono1)
  then have "get s x = Some (0, addr n, took s n)"
    using get_found [of s n] r assms(2) n by simp
  with n accounted_took [OF assms(1,2)] show ?thesis by blast
qed

lemma put_get:
  assumes "accounted s" "0 < avail s" "n < units s" "\<not> used (bm s) n"
  shows "\<exists>t. put (took s n) (addr n) = Some (0, t) \<and> bm t = bm s \<and> avail t = avail s \<and> ready t
     \<and> units t = units s"
proof -
  have r1: "ready s" using assms(1) by (simp add: accounted_def)
  with ready_pool [OF r1] assms(3) have r: "ready s" "length (bm s) = 1024" "n < 8192" by auto
  note t = took_law [OF r(1) assms(2) r(3)]
  have "used (bm (took s n)) n" using t r by (simp add: used_mark)
  then have p: "put (took s n) (addr n) = Some (0, freed (took s n) n)"
    using put_used [of "took s n" n] t assms(3) by simp
  have "avail (took s n) < 8192" using t ready_pool [OF r(1)] by simp
  with freed_law [of "took s n" n] t assms(3) p r unmark_mark [of n "bm s"] assms(4) show ?thesis by auto
qed

end

subsection \<open>Blocks and inodes provide it\<close>

definition block_bm :: "fs \<Rightarrow> byte list" where
  "block_bm s = rd_at (media_of s) 3072 1024"

definition inode_bm :: "fs \<Rightarrow> byte list" where
  "inode_bm s = rd_at (media_of s) 2048 1024"

definition block_ready :: "fs \<Rightarrow> bool" where
  "block_ready s \<longleftrightarrow> mounted s \<and> gd_availBlockNum (hd (gDesc s)) = sb_availBlockNum (sBlock s)
     \<and> 0 \<le> sb_availBlockNum (sBlock s) \<and> sb_availBlockNum (sBlock s) \<le> 8192"

definition inode_ready :: "fs \<Rightarrow> bool" where
  "inode_ready s \<longleftrightarrow> mounted s \<and> gd_availInodeNum (hd (gDesc s)) = sb_availInodeNum (sBlock s)
     \<and> 0 \<le> sb_availInodeNum (sBlock s) \<and> sb_availInodeNum (sBlock s) \<le> 8192"

definition block_avail :: "fs \<Rightarrow> int" where
  "block_avail s = sb_availBlockNum (sBlock s)"

definition inode_avail :: "fs \<Rightarrow> int" where
  "inode_avail s = sb_availInodeNum (sBlock s)"

definition block_units :: "fs \<Rightarrow> nat" where
  "block_units s = nat (blocks_one (sb_sectorNum (sBlock s)))"

definition inode_units :: "fs \<Rightarrow> nat" where
  "inode_units s = nat (inodes_one (sb_sectorNum (sBlock s)))"

definition block_addr :: "nat \<Rightarrow> int" where
  "block_addr n = 2056 + 2 * int n" \<comment> \<open>a sector\<close>

definition inode_addr :: "nat \<Rightarrow> int" where
  "inode_addr n = 4096 + 128 * int n" \<comment> \<open>a byte address\<close>

definition block_count_add :: "int \<Rightarrow> fs \<Rightarrow> fs" where
  "block_count_add c s = s\<lparr>sBlock := (sBlock s)\<lparr>sb_availBlockNum := sb_availBlockNum (sBlock s) + c\<rparr>,
     gDesc := [(hd (gDesc s))\<lparr>gd_availBlockNum := gd_availBlockNum (hd (gDesc s)) + c\<rparr>]\<rparr>"

definition inode_count_add :: "int \<Rightarrow> fs \<Rightarrow> fs" where
  "inode_count_add c s = s\<lparr>sBlock := (sBlock s)\<lparr>sb_availInodeNum := sb_availInodeNum (sBlock s) + c\<rparr>,
     gDesc := [(hd (gDesc s))\<lparr>gd_availInodeNum := gd_availInodeNum (hd (gDesc s)) + c\<rparr>]\<rparr>"

definition block_took :: "fs \<Rightarrow> nat \<Rightarrow> fs" where
  "block_took s n = commit (block_count_add (-1) s) 3072 (mark (block_bm s) n)"

definition block_freed :: "fs \<Rightarrow> nat \<Rightarrow> fs" where
  "block_freed s n = commit (block_count_add 1 s) 3072 (unmark (block_bm s) n)"

definition inode_took :: "fs \<Rightarrow> nat \<Rightarrow> fs" where
  "inode_took s n = commit (inode_count_add (-1) s) 2048 (mark (inode_bm s) n)"

definition inode_freed :: "fs \<Rightarrow> nat \<Rightarrow> fs" where
  "inode_freed s n = commit (inode_count_add 1 s) 2048 (unmark (inode_bm s) n)"

lemma mounted_count_add:
  assumes "block_ready s" "0 \<le> sb_availBlockNum (sBlock s) + c" "sb_availBlockNum (sBlock s) + c \<le> 8193"
  shows "mounted (block_count_add c s)"
  using assms by (simp add: block_ready_def mounted_def block_count_add_def wf_sb_def wf_gd_def in32_def)

lemma mounted_inode_count_add:
  assumes "inode_ready s" "0 \<le> sb_availInodeNum (sBlock s) + c" "sb_availInodeNum (sBlock s) + c \<le> 8193"
  shows "mounted (inode_count_add c s)"
  using assms by (simp add: inode_ready_def mounted_def inode_count_add_def wf_sb_def wf_gd_def in32_def)

lemma commit_fields [simp]:
  "sBlock (commit s a b) = sBlock s" "gDesc (commit s a b) = gDesc s" "mounted (commit s a b) = mounted s"
  by (simp_all add: commit_def mounted_def)

lemma commit_bm [simp]:
  "mounted s \<Longrightarrow> length b = 1024 \<Longrightarrow> block_bm (commit s 3072 b) = b"
  "mounted s \<Longrightarrow> length b = 1024 \<Longrightarrow> inode_bm (commit s 2048 b) = b"
  "mounted s \<Longrightarrow> length b = 1024 \<Longrightarrow> inode_bm (commit s 3072 b) = inode_bm s"
  "mounted s \<Longrightarrow> length b = 1024 \<Longrightarrow> block_bm (commit s 2048 b) = block_bm s"
  by (auto simp: commit_def block_bm_def inode_bm_def rd_at_blit_disjoint mounted_def)

lemma length_bm [simp]: "length (block_bm s) = 1024" "length (inode_bm s) = 1024"
  by (simp_all add: block_bm_def inode_bm_def)

lemma get_block_step:
  assumes "block_ready s" "0 < block_avail s"
  shows "getAvailBlock s x =
     do { j \<leftarrow> scan_byte (block_bm s) ((block_avail s + 7) div 8) 0;
          b \<leftarrow> arr (block_bm s) j;
          let k = scan_bit b 0;
          ok (k < 8);
          s' \<leftarrow> writeBack (block_count_add (-1) s) 1 ((block_bm s)[nat j := b OR push_bit (7 - k) 1]) 6;
          Some (0, i32 (2056 + cdiv (i32 ((j * 8 + int k) * 1024)) 512), s') }"
proof -
  have m: "mounted s" using assms by (simp add: block_ready_def)
  obtain g where g: "gDesc s = [g]" using mounted_groups [OF m] by blast
  obtain z where z: "groupSizeOf s 1 = Some z" using mounted_groups [OF m] by blast
  have r: "gd_blockBitmap g = 6" "gd_inodeTable g = 8" "gd_availBlockNum g = sb_availBlockNum (sBlock s)"
    "0 < sb_availBlockNum (sBlock s)" "sb_availBlockNum (sBlock s) \<le> 8192" "sb_blockSize (sBlock s) = 1024"
    using assms g m by (auto simp: block_ready_def mounted_def block_avail_def)
  show ?thesis
    using mounted_groups(1) [OF m] z g r
    by (simp add: getAvailBlock_def arr_def arr_upd_def Let_def i32_id in32_def u32_def cdiv_nonneg
        read_disk_rd_at BITMAP_SIZE_def block_bm_def [symmetric] block_avail_def block_count_add_def
        cong: if_cong)
qed

lemma unit_split:
  "n < 8192 \<Longrightarrow> 0 \<le> int n div 8 \<and> int n div 8 < 1024 \<and> nat (int n div 8) = n div 8 \<and> nat (int n mod 8) = n mod 8"
  by (simp add: nat_div_distrib nat_mod_distrib) linarith

lemma put_block_step:
  assumes "block_ready s" "n < block_units s"
  shows "setAllocBlock s (block_addr n) =
     (if \<not> used (block_bm s) n then Some (-1, s)
      else writeBack (s\<lparr>sBlock := (sBlock s)\<lparr>sb_availBlockNum := i32 (block_avail s + 1)\<rparr>,
        gDesc := [(hd (gDesc s))\<lparr>gd_availBlockNum := i32 (block_avail s + 1)\<rparr>]\<rparr>) 1 (unmark (block_bm s) n) 6
        \<bind> (\<lambda>s'. Some (0, s')))"
proof -
  have m: "mounted s" using assms by (simp add: block_ready_def)
  obtain g where g: "gDesc s = [g]" using mounted_groups [OF m] by blast
  obtain z where z: "groupSizeOf s 1 = Some z" using mounted_groups [OF m] by blast
  let ?S = "sb_sectorNum (sBlock s)"
  have S: "8 \<le> ?S" "?S < 18448" using m by (simp_all add: mounted_def)
  have n: "int n < blocks_one ?S" using assms by (simp add: block_units_def)
  then have n8: "n < 8192" "2056 + 2 * int n < z"
    using groupSize_big [OF m z] bounds_one [OF S] by (auto simp: blocks_one_def split: if_splits)
  then have i: "cdiv (block_addr n) z = 0" by (simp add: block_addr_def cdiv_nonneg)
  have r: "gd_blockBitmap g = 6" "gd_inodeTable g = 8" "gd_availBlockNum g = sb_availBlockNum (sBlock s)"
    "sb_blockSize (sBlock s) = 1024" "sectorsPerBlock (sBlock s) = 2" "z \<noteq> 0"
    using assms g m n8 mounted_groups(4) [OF m] by (auto simp: block_ready_def mounted_def)
  have u: "u32 (block_addr n - 8 - 2048) div 2 = int n" using n8 by (simp add: block_addr_def u32_def)
  have b: "arr (block_bm s) (int n div 8) = Some (block_bm s ! (n div 8))" "nat (int n mod 8) = n mod 8"
    "nat (int n div 8) = n div 8" using unit_split [OF n8(1)] by (simp_all add: arr_def)
  have a: "arr (gDesc s) 0 = Some g" "\<And>h. arr_upd (gDesc s) 0 h = Some [h]" "hd (gDesc s) = g"
    using g by (simp_all add: arr_def arr_upd_def)
  have c: "u32 (128 * 8 * 1024) div 512 = 2048" "u32 2 = 2" "i32 (6 * 512) = 3072" by (simp_all add: u32_def i32_def)
  have d: "read_disk (media_of s) BITMAP_SIZE 1 3072 = Some (block_bm s)"
    by (simp add: read_disk_rd_at BITMAP_SIZE_def block_bm_def)
  note facts = mounted_groups(1) [OF m] z r a c d i u b block_avail_def used_def unmark_def
  show ?thesis
    unfolding setAllocBlock_def Let_def by (simp only: facts bind.simps ok_bind simp_thms if_True if_False
        zero_neq_numeral split: if_split) simp
qed

lemma block_ready_mounted: "block_ready s \<Longrightarrow> mounted s"
  by (simp add: block_ready_def)

lemma block_took_eq:
  assumes "block_ready s" "0 < block_avail s" "n < 8192"
  shows "writeBack (block_count_add (-1) s) 1 (mark (block_bm s) n) 6 = Some (block_took s n)"
proof -
  have "mounted (block_count_add (-1) s)"
    using assms by (intro mounted_count_add) (auto simp: block_ready_def block_avail_def)
  then show ?thesis by (simp add: writeBack_commit block_took_def)
qed

lemma get_block_found:
  assumes "block_ready s" "0 < block_avail s" "n < 8192" "\<forall>k<n. used (block_bm s) k" "\<not> used (block_bm s) n"
    "int (n div 8) \<le> (block_avail s + 7) div 8"
  shows "getAvailBlock s x = Some (0, block_addr n, block_took s n)"
proof -
  note f = search_found [OF length_bm(1) assms(3,4,5,6)]
  have k: "n mod 8 < 8" by simp
  have d: "n div 8 < 1024" using assms(3) by (simp add: less_mult_imp_div_less)
  have n: "8192 * int (n div 8) + int (n mod 8) * 1024 = int n * 1024"
    by (simp add: zdiv_int zmod_int) (simp add: algebra_simps minus_div_mult_eq_mod [symmetric])
  have "i32 (2056 + cdiv (i32 (int n * 1024)) 512) = block_addr n"
    using assms(3) by (simp add: block_addr_def i32_id in32_def cdiv_nonneg)
  with k d show ?thesis
    using block_took_eq [OF assms(1-3)]
    by (simp add: get_block_step [OF assms(1,2)] f arr_nth n mark_def del: push_bit_of_1)
qed

lemma get_block_lost:
  assumes "block_ready s" "0 < block_avail s" "m < 1024" "int m = (block_avail s + 7) div 8"
    "\<forall>k < 8 * m + 8. used (block_bm s) k"
  shows "getAvailBlock s x = None"
  using search_lost [OF length_bm(1) assms(3,5)] assms(3)
  by (simp add: get_block_step [OF assms(1,2)] assms(4) [symmetric] arr_nth)

lemma block_put_used:
  assumes "block_ready s" "n < block_units s" "used (block_bm s) n"
  shows "setAllocBlock s (block_addr n) = Some (0, block_freed s n)"
proof -
  have m: "mounted (block_count_add 1 s)"
    using assms by (intro mounted_count_add) (auto simp: block_ready_def)
  have "i32 (block_avail s + 1) = block_avail s + 1"
    using assms(1) by (intro i32_id) (simp add: block_ready_def block_avail_def in32_def)
  then have "s\<lparr>sBlock := (sBlock s)\<lparr>sb_availBlockNum := i32 (block_avail s + 1)\<rparr>,
        gDesc := [(hd (gDesc s))\<lparr>gd_availBlockNum := i32 (block_avail s + 1)\<rparr>]\<rparr> = block_count_add 1 s"
    using assms(1) by (simp add: block_count_add_def block_avail_def block_ready_def)
  with m assms show ?thesis
    by (simp add: put_block_step writeBack_commit block_freed_def)
qed

lemma block_pool_step:
  assumes "block_ready s"
  shows "0 < block_avail s \<Longrightarrow> block_ready (block_took s n) \<and> block_bm (block_took s n) = mark (block_bm s) n
     \<and> block_avail (block_took s n) = block_avail s - 1 \<and> block_units (block_took s n) = block_units s"
  and "block_avail s < 8192 \<Longrightarrow> block_ready (block_freed s n) \<and> block_bm (block_freed s n) = unmark (block_bm s) n
     \<and> block_avail (block_freed s n) = block_avail s + 1 \<and> block_units (block_freed s n) = block_units s"
proof -
  note defs = block_ready_def block_avail_def block_units_def block_took_def block_freed_def block_count_add_def
  show "block_ready (block_took s n) \<and> block_bm (block_took s n) = mark (block_bm s) n
     \<and> block_avail (block_took s n) = block_avail s - 1 \<and> block_units (block_took s n) = block_units s"
    if "0 < block_avail s"
    using assms that mounted_count_add [of s "-1"] by (simp add: defs)
  show "block_ready (block_freed s n) \<and> block_bm (block_freed s n) = unmark (block_bm s) n
     \<and> block_avail (block_freed s n) = block_avail s + 1 \<and> block_units (block_freed s n) = block_units s"
    if "block_avail s < 8192"
    using assms that mounted_count_add [of s 1] by (simp add: defs)
qed

lemma block_pool_empty: "block_ready s \<Longrightarrow> block_avail s = 0 \<Longrightarrow> getAvailBlock s x = Some (-1, x, s)"
  using mounted_groups [of s] by (auto simp: block_ready_def block_avail_def getAvailBlock_def)

lemma addr_inj:
  "block_addr m = block_addr n \<Longrightarrow> m = n" "inode_addr m = inode_addr n \<Longrightarrow> m = n"
  by (simp_all add: block_addr_def inode_addr_def)

interpretation blk: bitmap_pool getAvailBlock setAllocBlock block_addr block_bm block_avail block_units
  block_ready block_took block_freed
proof (unfold_locales, goal_cases)
  case (2 s)
  then show ?case using bounds_one [of "sb_sectorNum (sBlock s)"]
    by (auto simp: block_ready_def block_avail_def block_units_def mounted_def nat_le_iff)
qed (simp_all add: addr_inj block_pool_empty get_block_found get_block_lost block_pool_step
    block_put_used put_block_step)

lemma get_inode_step:
  assumes "inode_ready s" "0 < inode_avail s"
  shows "getAvailInode s x =
     do { j \<leftarrow> scan_byte (inode_bm s) ((inode_avail s + 7) div 8) 0;
          b \<leftarrow> arr (inode_bm s) j;
          let k = scan_bit b 0;
          ok (k < 8);
          s' \<leftarrow> writeBack (inode_count_add (-1) s) 1 ((inode_bm s)[nat j := b OR push_bit (7 - k) 1]) 4;
          Some (0, i32 (4096 + (j * 8 + int k) * 128), s') }"
proof -
  have m: "mounted s" using assms by (simp add: inode_ready_def)
  obtain g where g: "gDesc s = [g]" using mounted_groups [OF m] by blast
  obtain z where z: "groupSizeOf s 1 = Some z" using mounted_groups [OF m] by blast
  have r: "gd_inodeBitmap g = 4" "gd_inodeTable g = 8" "gd_availInodeNum g = sb_availInodeNum (sBlock s)"
    "0 < sb_availInodeNum (sBlock s)" "sb_availInodeNum (sBlock s) \<le> 8192"
    using assms g m by (auto simp: inode_ready_def mounted_def inode_avail_def)
  show ?thesis
    using mounted_groups(1) [OF m] z g r
    by (simp add: getAvailInode_def arr_def arr_upd_def Let_def i32_id in32_def cdiv_nonneg
        read_disk_rd_at BITMAP_SIZE_def inode_bm_def [symmetric] inode_avail_def inode_count_add_def
        cong: if_cong)
qed

lemma put_inode_step:
  assumes "inode_ready s" "n < inode_units s"
  shows "setAllocInode s (inode_addr n) =
     (if \<not> used (inode_bm s) n then Some (-1, s)
      else writeBack (s\<lparr>sBlock := (sBlock s)\<lparr>sb_availInodeNum := i32 (inode_avail s + 1)\<rparr>,
        gDesc := [(hd (gDesc s))\<lparr>gd_availInodeNum := i32 (inode_avail s + 1)\<rparr>]\<rparr>) 1 (unmark (inode_bm s) n) 4
        \<bind> (\<lambda>s'. Some (0, s')))"
proof -
  have m: "mounted s" using assms by (simp add: inode_ready_def)
  obtain g where g: "gDesc s = [g]" using mounted_groups [OF m] by blast
  obtain z where z: "groupSizeOf s 1 = Some z" using mounted_groups [OF m] by blast
  let ?S = "sb_sectorNum (sBlock s)"
  have S: "8 \<le> ?S" "?S < 18448" using m by (simp_all add: mounted_def)
  have n: "int n < inodes_one ?S" using assms by (simp add: inode_units_def)
  then have n8: "n < 8192" using bounds_one(2) [OF S] by simp
  have "4096 + 128 * int n < 512 * z"
    using groupSize_big [OF m z] bounds_one(5) [OF S] n n8 by (auto simp: min_def)
  then have i: "cdiv (cdiv (inode_addr n) 512) z = 0"
    by (simp add: inode_addr_def cdiv_nonneg div_pos_pos_trivial)
  have r: "gd_inodeBitmap g = 4" "gd_inodeTable g = 8" "gd_availInodeNum g = sb_availInodeNum (sBlock s)"
    "z \<noteq> 0" using assms g m \<open>4096 + 128 * int n < 512 * z\<close> by (auto simp: inode_ready_def mounted_def)
  have u: "u32 (inode_addr n - 4096) div 128 = int n" using n8 by (simp add: inode_addr_def u32_def)
  have b: "arr (inode_bm s) (int n div 8) = Some (inode_bm s ! (n div 8))" "nat (int n mod 8) = n mod 8"
    "nat (int n div 8) = n div 8" using unit_split [OF n8(1)] by (simp_all add: arr_def)
  have a: "arr (gDesc s) 0 = Some g" "\<And>h. arr_upd (gDesc s) 0 h = Some [h]" "hd (gDesc s) = g"
    using g by (simp_all add: arr_def arr_upd_def)
  have c: "i32 (8 * 512) = 4096" "i32 (4 * 512) = 2048" by (simp_all add: i32_def)
  have d: "read_disk (media_of s) BITMAP_SIZE 1 2048 = Some (inode_bm s)"
    by (simp add: read_disk_rd_at BITMAP_SIZE_def inode_bm_def)
  note facts = mounted_groups(1) [OF m] z r a c d i u b inode_avail_def used_def unmark_def
  show ?thesis
    unfolding setAllocInode_def Let_def by (simp only: facts bind.simps ok_bind simp_thms if_True if_False
        zero_neq_numeral split: if_split)
qed

lemma get_inode_found:
  assumes "inode_ready s" "0 < inode_avail s" "n < 8192" "\<forall>k<n. used (inode_bm s) k" "\<not> used (inode_bm s) n"
    "int (n div 8) \<le> (inode_avail s + 7) div 8"
  shows "getAvailInode s x = Some (0, inode_addr n, inode_took s n)"
proof -
  note f = search_found [OF length_bm(2) assms(3,4,5,6)]
  have k: "n mod 8 < 8" by simp
  have d: "n div 8 < 1024" using assms(3) by (simp add: less_mult_imp_div_less)
  have n: "1024 * int (n div 8) + int (n mod 8) * 128 = int n * 128"
    by (simp add: zdiv_int zmod_int) (simp add: algebra_simps minus_div_mult_eq_mod [symmetric])
  have "mounted (inode_count_add (-1) s)"
    using assms by (intro mounted_inode_count_add) (auto simp: inode_ready_def inode_avail_def)
  then have "writeBack (inode_count_add (-1) s) 1 (mark (inode_bm s) n) 4 = Some (inode_took s n)"
    by (simp add: writeBack_commit inode_took_def)
  moreover have "i32 (4096 + int n * 128) = inode_addr n"
    using assms(3) by (simp add: inode_addr_def i32_id in32_def)
  ultimately show ?thesis using k d n
    by (simp add: get_inode_step [OF assms(1,2)] f arr_nth mark_def del: push_bit_of_1)
qed

lemma get_inode_lost:
  assumes "inode_ready s" "0 < inode_avail s" "m < 1024" "int m = (inode_avail s + 7) div 8"
    "\<forall>k < 8 * m + 8. used (inode_bm s) k"
  shows "getAvailInode s x = None"
  using search_lost [OF length_bm(2) assms(3,5)] assms(3)
  by (simp add: get_inode_step [OF assms(1,2)] assms(4) [symmetric] arr_nth)

lemma inode_put_used:
  assumes "inode_ready s" "n < inode_units s" "used (inode_bm s) n"
  shows "setAllocInode s (inode_addr n) = Some (0, inode_freed s n)"
proof -
  have m: "mounted (inode_count_add 1 s)"
    using assms by (intro mounted_inode_count_add) (auto simp: inode_ready_def)
  have "i32 (inode_avail s + 1) = inode_avail s + 1"
    using assms(1) by (intro i32_id) (simp add: inode_ready_def inode_avail_def in32_def)
  then have "s\<lparr>sBlock := (sBlock s)\<lparr>sb_availInodeNum := i32 (inode_avail s + 1)\<rparr>,
        gDesc := [(hd (gDesc s))\<lparr>gd_availInodeNum := i32 (inode_avail s + 1)\<rparr>]\<rparr> = inode_count_add 1 s"
    using assms(1) by (simp add: inode_count_add_def inode_avail_def inode_ready_def)
  with m assms show ?thesis
    by (simp add: put_inode_step writeBack_commit inode_freed_def)
qed

lemma inode_pool_step:
  assumes "inode_ready s"
  shows "0 < inode_avail s \<Longrightarrow> inode_ready (inode_took s n) \<and> inode_bm (inode_took s n) = mark (inode_bm s) n
     \<and> inode_avail (inode_took s n) = inode_avail s - 1 \<and> inode_units (inode_took s n) = inode_units s"
  and "inode_avail s < 8192 \<Longrightarrow> inode_ready (inode_freed s n) \<and> inode_bm (inode_freed s n) = unmark (inode_bm s) n
     \<and> inode_avail (inode_freed s n) = inode_avail s + 1 \<and> inode_units (inode_freed s n) = inode_units s"
proof -
  note defs = inode_ready_def inode_avail_def inode_units_def inode_took_def inode_freed_def inode_count_add_def
  show "inode_ready (inode_took s n) \<and> inode_bm (inode_took s n) = mark (inode_bm s) n
     \<and> inode_avail (inode_took s n) = inode_avail s - 1 \<and> inode_units (inode_took s n) = inode_units s"
    if "0 < inode_avail s"
    using assms that mounted_inode_count_add [of s "-1"] by (simp add: defs)
  show "inode_ready (inode_freed s n) \<and> inode_bm (inode_freed s n) = unmark (inode_bm s) n
     \<and> inode_avail (inode_freed s n) = inode_avail s + 1 \<and> inode_units (inode_freed s n) = inode_units s"
    if "inode_avail s < 8192"
    using assms that mounted_inode_count_add [of s 1] by (simp add: defs)
qed

lemma inode_pool_empty: "inode_ready s \<Longrightarrow> inode_avail s = 0 \<Longrightarrow> getAvailInode s x = Some (-1, x, s)"
  using mounted_groups [of s] by (auto simp: inode_ready_def inode_avail_def getAvailInode_def)

interpretation ino: bitmap_pool getAvailInode setAllocInode inode_addr inode_bm inode_avail inode_units
  inode_ready inode_took inode_freed
proof (unfold_locales, goal_cases)
  case (2 s)
  then show ?case using bounds_one [of "sb_sectorNum (sBlock s)"]
    by (auto simp: inode_ready_def inode_avail_def inode_units_def mounted_def nat_le_iff)
qed (simp_all add: addr_inj inode_pool_empty get_inode_found get_inode_lost inode_pool_step
    inode_put_used put_inode_step)

subsection \<open>Properties of the allocators\<close>

definition block_accounted :: "fs \<Rightarrow> bool" where
  \<comment> \<open>mounted, and both free-block counters agree with the block bitmap\<close>
  "block_accounted s \<longleftrightarrow> block_ready s
     \<and> block_avail s + int (card {k. k < block_units s \<and> used (block_bm s) k}) = int (block_units s)"

definition inode_accounted :: "fs \<Rightarrow> bool" where
  "inode_accounted s \<longleftrightarrow> inode_ready s
     \<and> inode_avail s + int (card {k. k < inode_units s \<and> used (inode_bm s) k}) = int (inode_units s)"

lemma accounted_pool: "blk.accounted = block_accounted" "ino.accounted = inode_accounted"
  by (simp_all add: fun_eq_iff blk.accounted_def ino.accounted_def block_accounted_def inode_accounted_def)

definition fs_with :: "int \<Rightarrow> int \<Rightarrow> byte list \<Rightarrow> fs" where
  \<comment> \<open>a one-group disk of \<open>n\<close> sectors whose block bitmap starts with \<open>bs\<close>, all inodes free\<close>
  "fs_with n free bs = \<lparr>media_of = blit (\<lambda>_. 0) 3072 bs,
     sBlock = (fst (header_one n blank_fs))\<lparr>sb_availBlockNum := free\<rparr>,
     gDesc = [(snd (header_one n blank_fs))\<lparr>gd_availBlockNum := free\<rparr>]\<rparr>"

lemma wf_blank: "wf_sb (sBlock blank_fs)" "wf_gd (hd (gDesc blank_fs))"
  by (simp_all add: blank_fs_def)

lemma fs_with_ready:
  assumes "8 \<le> n" "n < 18448" "0 \<le> free" "free \<le> 8192"
  shows "block_ready (fs_with n free bs)" "inode_ready (fs_with n free bs)"
proof -
  note w = wf_header_one [OF assms(1,2) wf_blank]
  have "wf_sb (sBlock (fs_with n free bs))" "wf_gd (hd (gDesc (fs_with n free bs)))"
    using w assms(3,4) by (simp_all add: fs_with_def wf_sb_def wf_gd_def in32_def)
  then have "mounted (fs_with n free bs)"
    using assms by (simp add: mounted_def fs_with_def header_one_def)
  then show "block_ready (fs_with n free bs)" "inode_ready (fs_with n free bs)"
    using assms bounds_one [OF assms(1,2)]
    by (simp_all add: block_ready_def inode_ready_def fs_with_def header_one_def)
qed

lemma fs_with_pool:
  "block_avail (fs_with n free bs) = free" "block_units (fs_with n free bs) = nat (blocks_one n)"
  "length bs \<le> 1024 \<Longrightarrow> block_bm (fs_with n free bs) = bs @ replicate (1024 - length bs) 0"
  "inode_avail (fs_with n free bs) = inodes_one n" "inode_units (fs_with n free bs) = nat (inodes_one n)"
  "inode_bm (fs_with n free bs) = replicate 1024 0"
proof -
  show "length bs \<le> 1024 \<Longrightarrow> block_bm (fs_with n free bs) = bs @ replicate (1024 - length bs) 0"
    by (rule nth_equalityI) (auto simp: block_bm_def fs_with_def blit_def nth_append)
  show "inode_bm (fs_with n free bs) = replicate 1024 0"
    by (rule nth_equalityI) (auto simp: inode_bm_def fs_with_def blit_def)
qed (simp_all add: block_avail_def block_units_def inode_avail_def inode_units_def fs_with_def header_one_def)

lemma used_zero [simp]: "k < 8192 \<Longrightarrow> \<not> used (replicate 1024 0) k"
  by (simp add: used_def less_mult_imp_div_less)

lemma used_append: "k < 8 * length bs \<Longrightarrow> used (bs @ cs) k = used bs k"
  by (simp add: used_def nth_append less_mult_imp_div_less mult.commute)

lemma fresh_accounted:
  assumes "8 \<le> n" "n < 18448"
  shows "block_accounted (fs_with n (blocks_one n) [])"
    and "0 \<le> free \<Longrightarrow> free \<le> 8192 \<Longrightarrow> inode_accounted (fs_with n free [])"
proof -
  note b = bounds_one [OF assms]
  have "{k. k < nat (blocks_one n) \<and> used (replicate 1024 0) k} = {}"
    "{k. k < nat (inodes_one n) \<and> used (replicate 1024 0) k} = {}"
    using b by (auto simp: zless_nat_eq_int_zless)
  then show "block_accounted (fs_with n (blocks_one n) [])"
    and "0 \<le> free \<Longrightarrow> free \<le> 8192 \<Longrightarrow> inode_accounted (fs_with n free [])"
    using fs_with_ready [OF assms] b
    by (auto simp: block_accounted_def inode_accounted_def fs_with_pool)
qed

text \<open>
  C17. While at most half of the blocks (up to the rounding of the search bound) are in use and
  the counters agree with the bitmap, \<^verbatim>\<open>getAvailBlock\<close> succeeds: it hands out the sector of a
  block that was free, marks exactly that block, decrements the counters, and the counters
  still agree with the bitmap. Freeing that block with \<^verbatim>\<open>setAllocBlock\<close> restores bitmap and
  counters, and freeing it a second time is refused with \<open>-1\<close> and no change.
\<close>

theorem block_alloc_free:
  assumes "block_accounted s" "0 < block_avail s" "int (block_units s) \<le> 2 * block_avail s + 7"
  shows "\<exists>n t u. n < block_units s \<and> \<not> used (block_bm s) n
    \<and> getAvailBlock s x = Some (0, block_addr n, t)
    \<and> (\<forall>k. used (block_bm t) k \<longleftrightarrow> k = n \<or> used (block_bm s) k)
    \<and> block_avail t = block_avail s - 1 \<and> block_accounted t
    \<and> setAllocBlock t (block_addr n) = Some (0, u) \<and> block_bm u = block_bm s \<and> block_avail u = block_avail s
    \<and> setAllocBlock u (block_addr n) = Some (-1, u)"
proof -
  note a = assms [unfolded accounted_pool [symmetric]]
  obtain n where n: "n < block_units s" "\<not> used (block_bm s) n"
    "getAvailBlock s x = Some (0, block_addr n, block_took s n)" "block_accounted (block_took s n)"
    using blk.get_half_full [OF a] unfolding accounted_pool by blast
  obtain u where u: "setAllocBlock (block_took s n) (block_addr n) = Some (0, u)"
    "block_bm u = block_bm s" "block_avail u = block_avail s" "block_ready u" "block_units u = block_units s"
    using blk.put_get [OF a(1,2) n(1,2)] by blast
  have r: "block_ready s" using assms(1) by (simp add: block_accounted_def)
  with n(1) blk.ready_pool [OF r] have "n < 8 * length (block_bm s)" by simp
  then have "\<forall>k. used (block_bm (block_took s n)) k \<longleftrightarrow> k = n \<or> used (block_bm s) k"
    using block_pool_step(1) [OF r assms(2)] by (simp add: used_mark)
  moreover have "setAllocBlock u (block_addr n) = Some (-1, u)"
    using blk.put_free [of u n] u n by simp
  ultimately show ?thesis using n u block_pool_step(1) [OF r assms(2)] by blast
qed

theorem block_alloc_free_witness:
  "\<exists>n t u. n < block_units (fs_with 8196 3070 []) \<and> \<not> used (block_bm (fs_with 8196 3070 [])) n
    \<and> getAvailBlock (fs_with 8196 3070 []) 0 = Some (0, block_addr n, t)
    \<and> (\<forall>k. used (block_bm t) k \<longleftrightarrow> k = n \<or> used (block_bm (fs_with 8196 3070 [])) k)
    \<and> block_avail t = block_avail (fs_with 8196 3070 []) - 1 \<and> block_accounted t
    \<and> setAllocBlock t (block_addr n) = Some (0, u) \<and> block_bm u = block_bm (fs_with 8196 3070 [])
    \<and> block_avail u = block_avail (fs_with 8196 3070 [])
    \<and> setAllocBlock u (block_addr n) = Some (-1, u)"
proof (rule block_alloc_free)
  show "block_accounted (fs_with 8196 3070 [])"
    using fresh_accounted(1) [of 8196] by (simp add: blocks_one_def)
qed (simp_all add: fs_with_pool blocks_one_def)

text \<open>
  The same contract for inodes: \<^verbatim>\<open>getAvailInode\<close> hands out the byte address of a free
  slot of the inode table, marks it alone, keeps the counters in step with the bitmap, and
  \<^verbatim>\<open>setAllocInode\<close> undoes it once and only once.
\<close>

theorem inode_alloc_free:
  assumes "inode_accounted s" "0 < inode_avail s" "int (inode_units s) \<le> 2 * inode_avail s + 7"
  shows "\<exists>n t u. n < inode_units s \<and> \<not> used (inode_bm s) n
    \<and> getAvailInode s x = Some (0, inode_addr n, t)
    \<and> (\<forall>k. used (inode_bm t) k \<longleftrightarrow> k = n \<or> used (inode_bm s) k)
    \<and> inode_avail t = inode_avail s - 1 \<and> inode_accounted t
    \<and> setAllocInode t (inode_addr n) = Some (0, u) \<and> inode_bm u = inode_bm s \<and> inode_avail u = inode_avail s
    \<and> setAllocInode u (inode_addr n) = Some (-1, u)"
proof -
  note a = assms [unfolded accounted_pool [symmetric]]
  obtain n where n: "n < inode_units s" "\<not> used (inode_bm s) n"
    "getAvailInode s x = Some (0, inode_addr n, inode_took s n)" "inode_accounted (inode_took s n)"
    using ino.get_half_full [OF a] unfolding accounted_pool by blast
  obtain u where u: "setAllocInode (inode_took s n) (inode_addr n) = Some (0, u)"
    "inode_bm u = inode_bm s" "inode_avail u = inode_avail s" "inode_ready u" "inode_units u = inode_units s"
    using ino.put_get [OF a(1,2) n(1,2)] by blast
  have r: "inode_ready s" using assms(1) by (simp add: inode_accounted_def)
  with n(1) ino.ready_pool [OF r] have "n < 8 * length (inode_bm s)" by simp
  then have "\<forall>k. used (inode_bm (inode_took s n)) k \<longleftrightarrow> k = n \<or> used (inode_bm s) k"
    using inode_pool_step(1) [OF r assms(2)] by (simp add: used_mark)
  moreover have "setAllocInode u (inode_addr n) = Some (-1, u)"
    using ino.put_free [of u n] u n by simp
  ultimately show ?thesis using n u inode_pool_step(1) [OF r assms(2)] by blast
qed

theorem inode_alloc_free_witness:
  "\<exists>n t u. n < inode_units (fs_with 8196 0 []) \<and> \<not> used (inode_bm (fs_with 8196 0 [])) n
    \<and> getAvailInode (fs_with 8196 0 []) 0 = Some (0, inode_addr n, t)
    \<and> (\<forall>k. used (inode_bm t) k \<longleftrightarrow> k = n \<or> used (inode_bm (fs_with 8196 0 [])) k)
    \<and> inode_avail t = inode_avail (fs_with 8196 0 []) - 1 \<and> inode_accounted t
    \<and> setAllocInode t (inode_addr n) = Some (0, u) \<and> inode_bm u = inode_bm (fs_with 8196 0 [])
    \<and> inode_avail u = inode_avail (fs_with 8196 0 [])
    \<and> setAllocInode u (inode_addr n) = Some (-1, u)"
proof (rule inode_alloc_free)
  show "inode_accounted (fs_with 8196 0 [])" by (rule fresh_accounted(2)) simp_all
qed (simp_all add: fs_with_pool inodes_one_def)

text \<open>
  Past that point the allocator breaks: the loop over the bitmap bytes stops after
  \<^verbatim>\<open>(availBlockNum + 7) / 8\<close> bytes, a bound computed from the number of free blocks. When the
  counters are right, blocks are still free, but the bytes up to and including that index are
  full, no bit is found and the shift by \<open>7 - 8\<close> leaves the operation without a defined result.
\<close>

theorem block_search_stops_early:
  assumes "block_accounted s" "0 < block_avail s" "m < 1024" "int m = (block_avail s + 7) div 8"
    "\<forall>k < 8 * m + 8. used (block_bm s) k"
  shows "getAvailBlock s x = None \<and> (\<exists>n < block_units s. \<not> used (block_bm s) n)"
  using blk.get_lost [OF _ assms(2-5)] blk.first_free [of s] assms(1,2)
  unfolding accounted_pool block_accounted_def by blast

theorem block_search_stops_early_witness:
  "getAvailBlock (fs_with 2104 1 [0xff, 0xff, 0xfe]) 0 = None
    \<and> (\<exists>n < block_units (fs_with 2104 1 [0xff, 0xff, 0xfe]). \<not> used (block_bm (fs_with 2104 1 [0xff, 0xff, 0xfe])) n)"
proof -
  let ?s = "fs_with 2104 1 [0xff, 0xff, 0xfe]"
  have bm: "used (block_bm ?s) k \<longleftrightarrow> k < 23" if "k < 24" for k
  proof -
    have "\<forall>k \<in> set [0..<24]. used [0xff, 0xff, 0xfe] k \<longleftrightarrow> k < 23" by code_simp
    with that used_append [of k "[0xff, 0xff, 0xfe]" "replicate 1021 0"] show ?thesis
      by (simp add: fs_with_pool(3))
  qed
  have "{k. k < 24 \<and> used (block_bm ?s) k} = {..<23}" using bm by auto
  then have "block_accounted ?s"
    using fs_with_ready(1) [of 2104 1 "[0xff, 0xff, 0xfe]"]
    by (simp add: block_accounted_def fs_with_pool(1,2) blocks_one_def)
  then show ?thesis
    by (rule block_search_stops_early [where m = 1]) (simp_all add: fs_with_pool(1) bm)
qed

end
