(* ===== verification/Blocks.thy ===== *)
theory Blocks
  imports Alloc
begin

text \<open>
  The block map of a file, \<^verbatim>\<open>os/src/filesystem/ext.c\<close> lines 186 to 816: twelve direct
  pointers, then a singly, a doubly and a triply indirect pointer block. \<open>readBlock\<close> and
  \<open>writeBlock\<close> walk it, \<open>allocBlock\<close> appends a block and \<open>freeBlock\<close> releases the blocks from
  the end.

  The pointer buffers are uninitialised arrays on the C stack, of which a fresh pointer block
  stores every word: their contents are the parameter \<open>junk\<close> of the definitions.
\<close>

definition divider0 :: "SuperBlock \<Rightarrow> int" where "divider0 sb = cdiv (sb_blockSize sb) 4"
definition divider1 :: "SuperBlock \<Rightarrow> int" where "divider1 sb = i32 (divider0 sb * divider0 sb)"
definition divider2 :: "SuperBlock \<Rightarrow> int" where "divider2 sb = i32 (divider1 sb * divider0 sb)"
definition bound0 :: int where "bound0 = POINTER_NUM"
definition bound1 :: "SuperBlock \<Rightarrow> int" where "bound1 sb = i32 (bound0 + divider0 sb)"
definition bound2 :: "SuperBlock \<Rightarrow> int" where "bound2 sb = i32 (bound1 sb + divider1 sb)"
definition bound3 :: "SuperBlock \<Rightarrow> int" where "bound3 sb = i32 (bound2 sb + divider2 sb)"

definition read_ptrs :: "fs \<Rightarrow> int \<Rightarrow> int list option" where
  \<comment> \<open>\<^verbatim>\<open>read_disk(pointerBuffer, 1, blockSize, sector * SECTOR_SIZE)\<close>; the buffer has \<open>divider0\<close> words\<close>
  "read_ptrs s sector =
     do { ok (0 < divider0 (sBlock s) \<and> sb_blockSize (sBlock s) = 4 * divider0 (sBlock s));
          b \<leftarrow> read_disk (media_of s) 1 (sb_blockSize (sBlock s)) (i32 (sector * 512));
          Some (get32s (nat (divider0 (sBlock s))) b) }"

definition write_ptrs :: "fs \<Rightarrow> int \<Rightarrow> int list \<Rightarrow> fs option" where
  "write_ptrs s sector ws =
     do { d \<leftarrow> write_disk (media_of s) (put32s ws) 1 (sb_blockSize (sBlock s)) (i32 (sector * 512));
          Some (s\<lparr>media_of := d\<rparr>) }"

definition blockPointer :: "fs \<Rightarrow> Inode \<Rightarrow> int \<Rightarrow> int option option" where
  \<comment> \<open>the walk that \<^verbatim>\<open>readBlock\<close> and \<^verbatim>\<open>writeBlock\<close> have in common: the sector of block
     \<open>blockIndex\<close>; \<open>Some None\<close> where both return \<open>-1\<close>\<close>
  "blockPointer s inode blockIndex =
     (let sb = sBlock s in
      if blockIndex < bound0 then do { p \<leftarrow> arr (i_pointer inode) blockIndex; Some (Some p) }
      else if blockIndex < bound1 sb then
        do { singly \<leftarrow> read_ptrs s (i_singly inode);
             p \<leftarrow> arr singly (blockIndex - bound0); Some (Some p) }
      else if blockIndex < bound2 sb then
        do { doubly \<leftarrow> read_ptrs s (i_doubly inode);
             q \<leftarrow> arr doubly (cdiv (blockIndex - bound1 sb) (divider0 sb));
             singly \<leftarrow> read_ptrs s q;
             p \<leftarrow> arr singly (cmod (blockIndex - bound1 sb) (divider0 sb)); Some (Some p) }
      else if blockIndex < bound3 sb then
        do { triply \<leftarrow> read_ptrs s (i_triply inode);
             q \<leftarrow> arr triply (cdiv (blockIndex - bound2 sb) (divider1 sb));
             let remainder = cmod (blockIndex - bound2 sb) (divider1 sb);
             doubly \<leftarrow> read_ptrs s q;
             q \<leftarrow> arr doubly (cdiv remainder (divider0 sb));
             singly \<leftarrow> read_ptrs s q;
             p \<leftarrow> arr singly (cmod remainder (divider0 sb)); Some (Some p) }
      else Some None)"

definition readBlock :: "fs \<Rightarrow> Inode \<Rightarrow> int \<Rightarrow> byte list \<Rightarrow> (int \<times> byte list) option" where
  "readBlock s inode blockIndex buffer =
     do { p \<leftarrow> blockPointer s inode blockIndex;
          case p of None \<Rightarrow> Some (-1, buffer)
          | Some sector \<Rightarrow>
              do { b \<leftarrow> read_disk (media_of s) 1 (sb_blockSize (sBlock s)) (i32 (sector * 512)); Some (0, b) } }"

definition writeBlock :: "fs \<Rightarrow> Inode \<Rightarrow> int \<Rightarrow> byte list \<Rightarrow> (int \<times> fs) option" where
  "writeBlock s inode blockIndex buffer =
     do { p \<leftarrow> blockPointer s inode blockIndex;
          case p of None \<Rightarrow> Some (-1, s)
          | Some sector \<Rightarrow>
              do { d \<leftarrow> write_disk (media_of s) buffer 1 (sb_blockSize (sBlock s)) (i32 (sector * 512));
                   Some (0, s\<lparr>media_of := d\<rparr>) } }"

definition calNeededPointerBlocks :: "SuperBlock \<Rightarrow> int \<Rightarrow> int" where
  "calNeededPointerBlocks sb blockCount =
     (if blockCount = bound0 then 1
      else if blockCount = bound1 sb then 2
      else if blockCount < bound2 sb \<and> cmod (blockCount - bound1 sb) (divider0 sb) = 0 then 1
      else if blockCount = bound2 sb then 3
      else if blockCount < bound3 sb \<and> cmod (blockCount - bound2 sb) (divider1 sb) = 0 then 2
      else if blockCount < bound3 sb \<and> cmod (blockCount - bound2 sb) (divider0 sb) = 0 then 1
      else if blockCount \<ge> bound3 sb then -1
      else 0)"

type_synonym junk = "int list \<times> int list \<times> int list" \<comment> \<open>the three pointer buffers before they are read or set\<close>

definition getPointerBlock :: "fs \<Rightarrow> (int \<times> fs) option" where
  \<comment> \<open>\<^verbatim>\<open>getAvailBlock(superBlock, groupDesc, &pointerBufferOffset)\<close> with the return code ignored\<close>
  "getPointerBlock s = do { (_, off, s) \<leftarrow> getAvailBlock s 0; Some (off, s) }"

definition allocSingly :: "fs \<Rightarrow> Inode \<Rightarrow> int \<Rightarrow> junk \<Rightarrow> (Inode \<times> fs) option" where
  \<comment> \<open>the branches of \<^verbatim>\<open>allocLastBlock\<close> for \<^verbatim>\<open>blockCount < bound1\<close>\<close>
  "allocSingly s inode blockOffset = (\<lambda>(w1, w2, w3).
     let bc = i_blockCount inode in
     if bc < bound0 then
       do { ps \<leftarrow> arr_upd (i_pointer inode) bc blockOffset; Some (inode\<lparr>i_pointer := ps\<rparr>, s) }
     else if bc = bound0 then
       do { (singlyOffset, s) \<leftarrow> getPointerBlock s;
            w1 \<leftarrow> arr_upd w1 0 blockOffset;
            s \<leftarrow> write_ptrs s singlyOffset w1;
            Some (inode\<lparr>i_singly := singlyOffset\<rparr>, s) }
     else
       do { w1 \<leftarrow> read_ptrs s (i_singly inode);
            w1 \<leftarrow> arr_upd w1 (bc - bound0) blockOffset;
            s \<leftarrow> write_ptrs s (i_singly inode) w1;
            Some (inode, s) })"

definition allocDoubly :: "fs \<Rightarrow> Inode \<Rightarrow> int \<Rightarrow> junk \<Rightarrow> (Inode \<times> fs) option" where
  \<comment> \<open>the branches for \<^verbatim>\<open>bound1 <= blockCount < bound2\<close>\<close>
  "allocDoubly s inode blockOffset = (\<lambda>(w1, w2, w3).
     let sb = sBlock s; bc = i_blockCount inode; d0 = divider0 sb; k = bc - bound1 sb in
     if bc = bound1 sb then
       do { (singlyOffset, s) \<leftarrow> getPointerBlock s;
            (doublyOffset, s) \<leftarrow> getPointerBlock s;
            w1 \<leftarrow> arr_upd w1 0 blockOffset;
            w2 \<leftarrow> arr_upd w2 0 singlyOffset;
            s \<leftarrow> write_ptrs s singlyOffset w1;
            s \<leftarrow> write_ptrs s doublyOffset w2;
            Some (inode\<lparr>i_doubly := doublyOffset\<rparr>, s) }
     else if cmod k d0 = 0 then
       do { (singlyOffset, s) \<leftarrow> getPointerBlock s;
            w1 \<leftarrow> arr_upd w1 0 blockOffset;
            w2 \<leftarrow> read_ptrs s (i_doubly inode);
            w2 \<leftarrow> arr_upd w2 (cdiv k d0) singlyOffset;
            s \<leftarrow> write_ptrs s singlyOffset w1;
            s \<leftarrow> write_ptrs s (i_doubly inode) w2;
            Some (inode, s) }
     else
       do { w2 \<leftarrow> read_ptrs s (i_doubly inode);
            q \<leftarrow> arr w2 (cdiv k d0);
            w1 \<leftarrow> read_ptrs s q;
            w1 \<leftarrow> arr_upd w1 (cmod k d0) blockOffset;
            s \<leftarrow> write_ptrs s q w1;
            Some (inode, s) })"

definition allocTriply :: "fs \<Rightarrow> Inode \<Rightarrow> int \<Rightarrow> junk \<Rightarrow> (Inode \<times> fs) option" where
  \<comment> \<open>the branches for \<^verbatim>\<open>bound2 <= blockCount < bound3\<close>\<close>
  "allocTriply s inode blockOffset = (\<lambda>(w1, w2, w3).
     let sb = sBlock s; bc = i_blockCount inode; d0 = divider0 sb; d1 = divider1 sb; k = bc - bound2 sb in
     if bc = bound2 sb then
       do { (singlyOffset, s) \<leftarrow> getPointerBlock s;
            (doublyOffset, s) \<leftarrow> getPointerBlock s;
            (triplyOffset, s) \<leftarrow> getPointerBlock s;
            w1 \<leftarrow> arr_upd w1 0 blockOffset;
            w2 \<leftarrow> arr_upd w2 0 singlyOffset;
            w3 \<leftarrow> arr_upd w3 0 doublyOffset;
            s \<leftarrow> write_ptrs s singlyOffset w1;
            s \<leftarrow> write_ptrs s doublyOffset w2;
            s \<leftarrow> write_ptrs s triplyOffset w3;
            Some (inode\<lparr>i_triply := triplyOffset\<rparr>, s) }
     else if cmod k d1 = 0 then
       do { (singlyOffset, s) \<leftarrow> getPointerBlock s;
            (doublyOffset, s) \<leftarrow> getPointerBlock s;
            w1 \<leftarrow> arr_upd w1 0 blockOffset;
            w2 \<leftarrow> arr_upd w2 0 singlyOffset;
            w3 \<leftarrow> read_ptrs s (i_triply inode);
            w3 \<leftarrow> arr_upd w3 (cdiv k d1) doublyOffset;
            s \<leftarrow> write_ptrs s singlyOffset w1;
            s \<leftarrow> write_ptrs s doublyOffset w2;
            s \<leftarrow> write_ptrs s (i_triply inode) w3;
            Some (inode, s) }
     else if cmod k d0 = 0 then
       do { (singlyOffset, s) \<leftarrow> getPointerBlock s;
            w1 \<leftarrow> arr_upd w1 0 blockOffset;
            w3 \<leftarrow> read_ptrs s (i_triply inode);
            q \<leftarrow> arr w3 (cdiv k d1);
            w2 \<leftarrow> read_ptrs s q;
            w2 \<leftarrow> arr_upd w2 (cdiv (cmod k d1) d0) singlyOffset;
            s \<leftarrow> write_ptrs s singlyOffset w1;
            s \<leftarrow> write_ptrs s q w2;
            Some (inode, s) }
     else
       do { w3 \<leftarrow> read_ptrs s (i_triply inode);
            q \<leftarrow> arr w3 (cdiv k d1);
            w2 \<leftarrow> read_ptrs s q;
            r \<leftarrow> arr w2 (cdiv (cmod k d1) d0);
            w1 \<leftarrow> read_ptrs s r;
            w1 \<leftarrow> arr_upd w1 (cmod (cmod k d1) d0) blockOffset;
            s \<leftarrow> write_ptrs s r w1;
            Some (inode, s) })"

definition allocLastBlock :: "fs \<Rightarrow> Inode \<Rightarrow> int \<Rightarrow> int \<Rightarrow> junk \<Rightarrow> (int \<times> Inode \<times> fs) option" where
  "allocLastBlock s inode inodeOffset blockOffset junk =
     (let sb = sBlock s; bc = i_blockCount inode in
      if bc < bound3 sb then
        do { ok (0 < divider0 sb); \<comment> \<open>the length of the three arrays\<close>
             (inode, s) \<leftarrow> (if bc < bound1 sb then allocSingly s inode blockOffset junk
                           else if bc < bound2 sb then allocDoubly s inode blockOffset junk
                           else allocTriply s inode blockOffset junk);
             let inode = inode\<lparr>i_blockCount := i32 (bc + 1)\<rparr>;
             d \<leftarrow> write_disk (media_of s) (enc_inode inode) INODE_SIZE 1 inodeOffset;
             Some (0, inode, s\<lparr>media_of := d\<rparr>) }
      else Some (-1, inode, s))"

definition allocBlock :: "fs \<Rightarrow> Inode \<Rightarrow> int \<Rightarrow> junk \<Rightarrow> (int \<times> Inode \<times> fs) option" where
  "allocBlock s inode inodeOffset junk =
     (let ret = calNeededPointerBlocks (sBlock s) (i_blockCount inode) in
      if sb_availBlockNum (sBlock s) < ret + 1 then Some (-1, inode, s)
      else do { (_, blockOffset, s) \<leftarrow> getAvailBlock s 0;
                (_, inode, s) \<leftarrow> allocLastBlock s inode inodeOffset blockOffset junk;
                Some (0, inode, s) })"

definition setFree :: "fs \<Rightarrow> int \<Rightarrow> fs option" where
  \<comment> \<open>\<^verbatim>\<open>setAllocBlock(superBlock, groupDesc, blockOffset)\<close> with the return code ignored\<close>
  "setFree s blockOffset = do { (_, s) \<leftarrow> setAllocBlock s blockOffset; Some s }"

definition freeSingly :: "fs \<Rightarrow> Inode \<Rightarrow> fs option" where
  \<comment> \<open>the branches of \<^verbatim>\<open>freeLastBlock\<close> for \<^verbatim>\<open>blockCount < bound1\<close>, the count already decremented\<close>
  "freeSingly s inode =
     (let bc = i_blockCount inode in
      if bc < bound0 then do { p \<leftarrow> arr (i_pointer inode) bc; setFree s p }
      else if bc = bound0 then
        do { w1 \<leftarrow> read_ptrs s (i_singly inode); p \<leftarrow> arr w1 0;
             s \<leftarrow> setFree s p; setFree s (i_singly inode) }
      else
        do { w1 \<leftarrow> read_ptrs s (i_singly inode); p \<leftarrow> arr w1 (bc - bound0); setFree s p })"

definition freeDoubly :: "fs \<Rightarrow> Inode \<Rightarrow> fs option" where
  "freeDoubly s inode =
     (let sb = sBlock s; bc = i_blockCount inode; d0 = divider0 sb; k = bc - bound1 sb in
      if bc = bound1 sb then
        do { w2 \<leftarrow> read_ptrs s (i_doubly inode); q \<leftarrow> arr w2 0;
             w1 \<leftarrow> read_ptrs s q; p \<leftarrow> arr w1 0;
             s \<leftarrow> setFree s p; s \<leftarrow> setFree s q; setFree s (i_doubly inode) }
      else if cmod k d0 = 0 then
        do { w2 \<leftarrow> read_ptrs s (i_doubly inode); q \<leftarrow> arr w2 (cdiv k d0);
             w1 \<leftarrow> read_ptrs s q; p \<leftarrow> arr w1 0;
             s \<leftarrow> setFree s p; setFree s q }
      else
        do { w2 \<leftarrow> read_ptrs s (i_doubly inode); q \<leftarrow> arr w2 (cdiv k d0);
             w1 \<leftarrow> read_ptrs s q; p \<leftarrow> arr w1 (cmod k d0);
             setFree s p })"

definition freeTriply :: "fs \<Rightarrow> Inode \<Rightarrow> fs option" where
  "freeTriply s inode =
     (let sb = sBlock s; bc = i_blockCount inode; d0 = divider0 sb; d1 = divider1 sb; k = bc - bound2 sb in
      if bc = bound2 sb then
        do { w3 \<leftarrow> read_ptrs s (i_triply inode); r \<leftarrow> arr w3 0;
             w2 \<leftarrow> read_ptrs s r; q \<leftarrow> arr w2 0;
             w1 \<leftarrow> read_ptrs s q; p \<leftarrow> arr w1 0;
             s \<leftarrow> setFree s p; s \<leftarrow> setFree s q; s \<leftarrow> setFree s r; setFree s (i_triply inode) }
      else if cmod k d1 = 0 then
        do { w3 \<leftarrow> read_ptrs s (i_triply inode); r \<leftarrow> arr w3 (cdiv k d1);
             w2 \<leftarrow> read_ptrs s r; q \<leftarrow> arr w2 0;
             w1 \<leftarrow> read_ptrs s q; p \<leftarrow> arr w1 0;
             s \<leftarrow> setFree s p; s \<leftarrow> setFree s q; setFree s r }
      else if cmod k d0 = 0 then
        do { w3 \<leftarrow> read_ptrs s (i_triply inode); r \<leftarrow> arr w3 (cdiv k d1);
             w2 \<leftarrow> read_ptrs s r; q \<leftarrow> arr w2 (cdiv (cmod k d1) d0);
             w1 \<leftarrow> read_ptrs s q; p \<leftarrow> arr w1 0;
             s \<leftarrow> setFree s p; setFree s q }
      else
        do { w3 \<leftarrow> read_ptrs s (i_triply inode); r \<leftarrow> arr w3 (cdiv k d1);
             w2 \<leftarrow> read_ptrs s r; q \<leftarrow> arr w2 (cdiv (cmod k d1) d0);
             w1 \<leftarrow> read_ptrs s q; p \<leftarrow> arr w1 (cmod (cmod k d1) d0);
             setFree s p })"

definition freeLastBlock :: "fs \<Rightarrow> Inode \<Rightarrow> int \<Rightarrow> (int \<times> Inode \<times> fs) option" where
  "freeLastBlock s inode inodeOffset =
     (let sb = sBlock s; bc = i32 (i_blockCount inode - 1); inode = inode\<lparr>i_blockCount := bc\<rparr> in
      if bc < bound3 sb then
        do { ok (0 < divider0 sb);
             s \<leftarrow> (if bc < bound1 sb then freeSingly s inode
                  else if bc < bound2 sb then freeDoubly s inode
                  else freeTriply s inode);
             d \<leftarrow> write_disk (media_of s) (enc_inode inode) INODE_SIZE 1 inodeOffset;
             Some (0, inode, s\<lparr>media_of := d\<rparr>) }
      else Some (-1, inode, s))"

partial_function (option) freeBlock :: "fs \<Rightarrow> Inode \<Rightarrow> int \<Rightarrow> (int \<times> Inode \<times> fs) option" where
  "freeBlock s inode inodeOffset =
     (if i_blockCount inode = 0 then Some (0, inode, s)
      else do { (ret, inode, s) \<leftarrow> freeLastBlock s inode inodeOffset;
                if ret = -1 then Some (-1, inode, s) else freeBlock s inode inodeOffset })"

end
