(* ===== verification/Dirs.thy ===== *)
theory Dirs
  imports Blocks
begin

text \<open>
  Directories, \<^verbatim>\<open>os/src/filesystem/ext.c\<close>: \<open>stringChr\<close>, \<open>getDirEntry\<close>, the path walk
  \<open>readInode\<close>, and \<open>allocInode\<close> and \<open>freeInode\<close>, which create and remove a directory entry
  together with its inode. A directory is a file whose blocks are arrays of 128-byte entries;
  an entry whose inode field is zero is free.

  A path is a C string; the pointer \<^verbatim>\<open>destFilePath + count\<close> is the rest of the string from
  there on.
\<close>

definition slash :: byte where "slash = 0x2f"

fun stringChr :: "cstr \<Rightarrow> byte \<Rightarrow> int \<times> nat" where
  \<comment> \<open>(return code, \<^verbatim>\<open>*size\<close>): the position of \<open>token\<close>, or the length of the string\<close>
  "stringChr [] token = (-1, 0)"
| "stringChr (c # cs) token =
     (if token = c then (0, 0) else let (ret, sz) = stringChr cs token in (ret, Suc sz))"

definition entriesPerBlock :: "fs \<Rightarrow> nat" where
  "entriesPerBlock s = nat (u32 (sb_blockSize (sBlock s)) div 128)"

definition entry_at :: "byte list \<Rightarrow> nat \<Rightarrow> DirEntry" where
  "entry_at buffer j = dec_de (take 128 (drop (128 * j) buffer))"

definition put_entry :: "byte list \<Rightarrow> nat \<Rightarrow> DirEntry \<Rightarrow> byte list" where
  "put_entry buffer j e = take (128 * j) buffer @ enc_de e @ drop (128 * j + 128) buffer"

definition dir_entries :: "fs \<Rightarrow> byte list \<Rightarrow> DirEntry list" where
  "dir_entries s buffer = map (entry_at buffer) [0..<entriesPerBlock s]"

fun nth_used :: "DirEntry list \<Rightarrow> int \<Rightarrow> int \<Rightarrow> int + DirEntry" where
  \<comment> \<open>the inner loop of \<^verbatim>\<open>getDirEntry\<close>: the entry number \<open>dirIndex\<close>, or the count so far\<close>
  "nth_used [] dirCount dirIndex = Inl dirCount"
| "nth_used (e # es) dirCount dirIndex =
     (if d_inode e \<noteq> 0 then (if dirCount = dirIndex then Inr e else nth_used es (dirCount + 1) dirIndex)
      else nth_used es dirCount dirIndex)"

function getDirEntry_loop :: "fs \<Rightarrow> Inode \<Rightarrow> int \<Rightarrow> int \<Rightarrow> int \<Rightarrow> DirEntry option option" where
  "getDirEntry_loop s inode i dirCount dirIndex =
     (if i < i_blockCount inode then
        do { (ret, b) \<leftarrow> readBlock s inode i [];
             if ret = -1 then Some None
             else case nth_used (dir_entries s b) dirCount dirIndex of
               Inl c \<Rightarrow> getDirEntry_loop s inode (i + 1) c dirIndex
             | Inr e \<Rightarrow> Some (Some e) }
      else if i = i_blockCount inode then Some None
      else None)" \<comment> \<open>a negative count: \<^verbatim>\<open>dirEntry\<close> is still NULL\<close>
  by pat_completeness auto
termination
  by (relation "measure (\<lambda>(s, inode, i, c, d). nat (i_blockCount inode - i))") auto

definition getDirEntry :: "fs \<Rightarrow> Inode \<Rightarrow> int \<Rightarrow> DirEntry \<Rightarrow> (int \<times> DirEntry) option" where
  "getDirEntry s inode dirIndex destDirEntry =
     do { r \<leftarrow> getDirEntry_loop s inode 0 0 dirIndex;
          case r of None \<Rightarrow> Some (-1, destDirEntry)
          | Some e \<Rightarrow> Some (0, destDirEntry\<lparr>d_inode := d_inode e, d_name := strncpy 64 (until_nul (d_name e))\<rparr>) }"

datatype search =
    Found int nat "byte list" \<comment> \<open>block, entry in it, the block's bytes\<close>
  | Absent "byte list" \<comment> \<open>all blocks searched; the buffer as the last read left it\<close>
  | ReadError
  | Exists \<comment> \<open>\<^verbatim>\<open>allocInode\<close> only: the name is taken\<close>

fun find_name :: "DirEntry list \<Rightarrow> nat \<Rightarrow> cstr \<Rightarrow> nat \<Rightarrow> nat option option" where
  \<comment> \<open>the inner loop of \<^verbatim>\<open>readInode\<close> and \<^verbatim>\<open>freeInode\<close>: the first used entry whose name agrees
     with \<open>name\<close> on \<open>len\<close> bytes\<close>
  "find_name [] j name len = Some None"
| "find_name (e # es) j name len =
     (if d_inode e = 0 then find_name es (Suc j) name len
      else do { eq \<leftarrow> strncmp_eq (d_name e) name len;
                if eq then Some (Some j) else find_name es (Suc j) name len })"

function findEntry :: "fs \<Rightarrow> Inode \<Rightarrow> cstr \<Rightarrow> nat \<Rightarrow> byte list \<Rightarrow> int \<Rightarrow> search option" where
  "findEntry s inode name len buffer i =
     (if i < i_blockCount inode then
        do { (ret, b) \<leftarrow> readBlock s inode i buffer;
             if ret = -1 then Some ReadError
             else do { r \<leftarrow> find_name (dir_entries s b) 0 name len;
                       case r of None \<Rightarrow> findEntry s inode name len b (i + 1)
                       | Some j \<Rightarrow> Some (Found i j b) } }
      else Some (Absent buffer))"
  by pat_completeness auto
termination
  by (relation "measure (\<lambda>(s, inode, name, len, b, i). nat (i_blockCount inode - i))") auto

function readInode_loop :: "fs \<Rightarrow> Inode \<Rightarrow> int \<Rightarrow> cstr \<Rightarrow> (int \<times> Inode \<times> int) option" where
  "readInode_loop s destInode inodeOffset path =
     (if path = [] then Some (0, destInode, inodeOffset)
      else let (ret, sz) = stringChr path slash in
        if ret = 0 \<and> sz = 0 then Some (-1, destInode, inodeOffset)
        else if ret \<noteq> -1 \<and> i_type destInode = REGULAR_TYPE then Some (-1, destInode, inodeOffset)
        else do { r \<leftarrow> findEntry s destInode path sz [] 0;
                  case r of
                    Found i j b \<Rightarrow>
                      do { let inodeOffset = d_inode (entry_at b j);
                           b \<leftarrow> read_disk (media_of s) INODE_SIZE 1 inodeOffset;
                           if ret = -1 then Some (0, dec_inode b, inodeOffset)
                           else readInode_loop s (dec_inode b) inodeOffset (drop (sz + 1) path) }
                  | _ \<Rightarrow> Some (-1, destInode, inodeOffset) })"
  by pat_completeness auto
termination
  by (relation "measure (\<lambda>(s, n, off, path). length path)") auto

definition readInode :: "fs \<Rightarrow> Inode \<Rightarrow> cstr \<Rightarrow> (int \<times> Inode \<times> int) option" where
  \<comment> \<open>(return code, \<^verbatim>\<open>*destInode\<close>, \<^verbatim>\<open>*inodeOffset\<close>)\<close>
  "readInode s destInode destFilePath =
     (let (ret, sz) = stringChr destFilePath slash in
      if destFilePath = [] \<or> ret = -1 \<or> sz \<noteq> 0 then Some (-1, destInode, 0)
      else do { g \<leftarrow> arr (gDesc s) 0;
                let inodeOffset = i32 (gd_inodeTable g * 512);
                b \<leftarrow> read_disk (media_of s) INODE_SIZE 1 inodeOffset;
                readInode_loop s (dec_inode b) inodeOffset (drop (sz + 1) destFilePath) })"

fun find_slot :: "DirEntry list \<Rightarrow> nat \<Rightarrow> cstr \<Rightarrow> (bool \<times> nat) option option" where
  \<comment> \<open>the inner loop of \<^verbatim>\<open>allocInode\<close>: \<open>(False, j)\<close> the first free entry, \<open>(True, j)\<close> a used one
     that agrees with the name on the length of the name\<close>
  "find_slot [] j name = Some None"
| "find_slot (e # es) j name =
     (if d_inode e = 0 then Some (Some (False, j))
      else do { eq \<leftarrow> strncmp_eq (d_name e) name (length name);
                if eq then Some (Some (True, j)) else find_slot es (Suc j) name })"

function findSlot :: "fs \<Rightarrow> Inode \<Rightarrow> cstr \<Rightarrow> byte list \<Rightarrow> int \<Rightarrow> search option" where
  "findSlot s inode name buffer i =
     (if i < i_blockCount inode then
        do { (ret, b) \<leftarrow> readBlock s inode i buffer;
             if ret = -1 then Some ReadError
             else do { r \<leftarrow> find_slot (dir_entries s b) 0 name;
                       case r of None \<Rightarrow> findSlot s inode name b (i + 1)
                       | Some (taken, j) \<Rightarrow> Some (if taken then Exists else Found i j b) } }
      else Some (Absent buffer))"
  by pat_completeness auto
termination
  by (relation "measure (\<lambda>(s, inode, name, b, i). nat (i_blockCount inode - i))") auto

definition allocInode_finish :: "fs \<Rightarrow> Inode \<Rightarrow> int \<Rightarrow> Inode \<Rightarrow> int \<Rightarrow> cstr \<Rightarrow> int \<Rightarrow> int \<Rightarrow> nat \<Rightarrow> byte list \<Rightarrow>
    (int \<times> Inode \<times> Inode \<times> int \<times> fs) option" where
  \<comment> \<open>from \<^verbatim>\<open>getAvailInode\<close> to the end, entry \<open>j\<close> of block \<open>i\<close> being the free one\<close>
  "allocInode_finish s fatherInode fatherInodeOffset destInode destInodeOffset destFilename destFiletype i j buffer =
     do { (ret, destInodeOffset, s) \<leftarrow> getAvailInode s destInodeOffset;
          if ret = -1 then Some (-1, fatherInode, destInode, destInodeOffset, s)
          else do {
            ok (128 * j + 128 \<le> length buffer);
            let e = (entry_at buffer j)\<lparr>d_name := strncpy 64 destFilename, d_inode := destInodeOffset\<rparr>;
            (ret, s) \<leftarrow> writeBlock s fatherInode i (put_entry buffer j e);
            if ret = -1 then Some (-1, fatherInode, destInode, destInodeOffset, s)
            else do {
              d \<leftarrow> write_disk (media_of s) (enc_inode fatherInode) INODE_SIZE 1 fatherInodeOffset;
              let destInode = destInode\<lparr>i_type := i16 destFiletype, i_linkCount := 1, i_blockCount := 0, i_size := 0\<rparr>;
              d \<leftarrow> write_disk d (enc_inode destInode) INODE_SIZE 1 destInodeOffset;
              Some (0, fatherInode, destInode, destInodeOffset, s\<lparr>media_of := d\<rparr>) } } }"

definition allocInode :: "fs \<Rightarrow> Inode \<Rightarrow> int \<Rightarrow> Inode \<Rightarrow> int \<Rightarrow> cstr \<Rightarrow> int \<Rightarrow> junk \<Rightarrow> byte list \<Rightarrow>
    (int \<times> Inode \<times> Inode \<times> int \<times> fs) option" where
  \<comment> \<open>(return code, \<^verbatim>\<open>*fatherInode\<close>, \<^verbatim>\<open>*destInode\<close>, \<^verbatim>\<open>*destInodeOffset\<close>, state); \<open>buffer\<close> is the
     uninitialised \<^verbatim>\<open>uint8_t buffer[blockSize]\<close>, which \<^verbatim>\<open>memset(buffer, blockSize, 0)\<close> -- a count
     of zero bytes -- leaves as it is\<close>
  "allocInode s fatherInode fatherInodeOffset destInode destInodeOffset destFilename destFiletype junk buffer =
     (if destFilename = [] \<or> sb_availInodeNum (sBlock s) = 0
      then Some (-1, fatherInode, destInode, destInodeOffset, s)
      else do {
        r \<leftarrow> findSlot s fatherInode destFilename buffer 0;
        case r of
          Found i j b \<Rightarrow> allocInode_finish s fatherInode fatherInodeOffset destInode destInodeOffset
                          destFilename destFiletype i j b
        | Absent b \<Rightarrow>
            do { let i = i_blockCount fatherInode;
                 ok (0 \<le> i);
                 (ret, fatherInode, s) \<leftarrow> allocBlock s fatherInode fatherInodeOffset junk;
                 if ret = -1 then Some (-1, fatherInode, destInode, destInodeOffset, s)
                 else allocInode_finish s
                   (fatherInode\<lparr>i_size := i32 (i_blockCount fatherInode * sb_blockSize (sBlock s))\<rparr>)
                   fatherInodeOffset destInode destInodeOffset destFilename destFiletype i 0 b }
        | _ \<Rightarrow> Some (-1, fatherInode, destInode, destInodeOffset, s) })"

definition freeInode :: "fs \<Rightarrow> Inode \<Rightarrow> int \<Rightarrow> Inode \<Rightarrow> int \<Rightarrow> cstr \<Rightarrow> int \<Rightarrow>
    (int \<times> Inode \<times> int \<times> fs) option" where
  \<comment> \<open>(return code, \<^verbatim>\<open>*destInode\<close>, \<^verbatim>\<open>*destInodeOffset\<close>, state)\<close>
  "freeInode s fatherInode fatherInodeOffset destInode destInodeOffset destFilename destFiletype =
     (if destFilename = [] then Some (-1, destInode, destInodeOffset, s)
      else do {
        r \<leftarrow> findEntry s fatherInode destFilename (length destFilename) [] 0;
        case r of
          Found i j b \<Rightarrow>
            do { let destInodeOffset = d_inode (entry_at b j);
                 c \<leftarrow> read_disk (media_of s) INODE_SIZE 1 destInodeOffset;
                 let destInode = dec_inode c;
                 if i_type destInode \<noteq> destFiletype then Some (-1, destInode, destInodeOffset, s)
                 else do {
                   (ret, _) \<leftarrow> (if destFiletype = DIRECTORY_TYPE
                                then getDirEntry s destInode 0 (entry_at b j) else Some (-1, entry_at b j));
                   if ret \<noteq> -1 then Some (-1, destInode, destInodeOffset, s)
                   else do {
                     let destInode = destInode\<lparr>i_linkCount := i16 (i_linkCount destInode - 1)\<rparr>;
                     (destInode, s) \<leftarrow>
                       (if i_linkCount destInode = 0 then
                          do { (_, destInode, s) \<leftarrow> freeBlock s destInode destInodeOffset;
                               (_, s) \<leftarrow> setAllocInode s destInodeOffset; Some (destInode, s) }
                        else
                          do { d \<leftarrow> write_disk (media_of s) (enc_inode destInode) INODE_SIZE 1 destInodeOffset;
                               Some (destInode, s\<lparr>media_of := d\<rparr>) });
                     (_, s) \<leftarrow> writeBlock s fatherInode i (put_entry b j ((entry_at b j)\<lparr>d_inode := 0\<rparr>));
                     Some (0, destInode, destInodeOffset, s) } } }
        | Absent b \<Rightarrow> do { ok (0 \<le> i_blockCount fatherInode); Some (-1, destInode, destInodeOffset, s) }
        | _ \<Rightarrow> Some (-1, destInode, destInodeOffset, s) })"

end
