(* ===== verification/Files.thy ===== *)
theory Files
  imports Dirs
begin

text \<open>
  The file operations of \<^verbatim>\<open>os/src/filesystem/fs.c\<close> (and \<^verbatim>\<open>os/include/fcb.h\<close>): path helpers,
  \<open>syscall_open\<close>, \<open>syscall_unlink\<close>, \<open>syscall_readfile\<close>, \<open>syscall_writefile\<close>, \<open>syscall_lseek\<close>
  and \<open>ls\<close>. The message handlers around them are in theory \<open>Syscalls\<close>.

  Memory that the C code leaves uninitialised is a parameter: a block buffer, an inode, and
  the pointer buffers of \<^verbatim>\<open>allocLastBlock\<close>.
\<close>

unbundle bit_operations_syntax

definition O_RDONLY :: int where "O_RDONLY = 0"
definition O_RDWR :: int where "O_RDWR = 2"
definition O_CREAT :: int where "O_CREAT = 64"
definition O_DIRECTORY :: int where "O_DIRECTORY = 65536"
definition MAX_FILE_NUM :: int where "MAX_FILE_NUM = 32"
definition SEEK_SET :: int where "SEEK_SET = 0"
definition SEEK_CUR :: int where "SEEK_CUR = 1"
definition SEEK_END :: int where "SEEK_END = 2"

record FCB =
  f_inuse :: int
  f_inodeOffset :: int
  f_offset :: int
  f_flags :: int

record stack = \<comment> \<open>uninitialised local variables of one call\<close>
  st_block :: "byte list"
  st_inode :: Inode
  st_words :: "int \<Rightarrow> junk" \<comment> \<open>the pointer buffers, by the progress of the calling loop\<close>

subsection \<open>Paths and modes\<close>

primrec last_of :: "cstr \<Rightarrow> byte \<Rightarrow> nat \<Rightarrow> int" where
  \<comment> \<open>\<^verbatim>\<open>for (int i = end; i >= 0; --i)\<close> with \<open>i + 1\<close> as the counter\<close>
  "last_of s token 0 = -1"
| "last_of s token (Suc i) = (if cstr_at s i = token then int i else last_of s token i)"

definition find_last_of :: "cstr \<Rightarrow> byte \<Rightarrow> int \<Rightarrow> int" where
  "find_last_of s token stop =
     (let len = int (length s); stop = (if stop < len then stop else len - 1) in last_of s token (nat (stop + 1)))"

definition get_father_path :: "cstr \<Rightarrow> cstr option" where
  \<comment> \<open>into a buffer of \<^verbatim>\<open>NAME_LENGTH\<close> bytes; a negative count copies without bound\<close>
  "get_father_path src =
     (let last_pos = find_last_of src slash (int (length src) - 2) in
      if last_pos = 0 then Some [slash]
      else if 0 < last_pos \<and> last_pos < int NAME_LENGTH then Some (until_nul (strncpy (nat last_pos) src))
      else None)"

definition is_dir_path :: "cstr \<Rightarrow> bool option" where
  "is_dir_path path = (if path = [] then None else Some (last path = slash))"

definition is_dir_mode :: "int \<Rightarrow> bool" where
  "is_dir_mode mode \<longleftrightarrow> mode AND O_DIRECTORY \<noteq> 0"

definition is_empty_dir :: "fs \<Rightarrow> Inode \<Rightarrow> bool option" where
  "is_empty_dir s inode =
     do { (ret, _) \<leftarrow> getDirEntry s inode 0 \<lparr>d_inode = 0, d_name = [], d_pad = []\<rparr>; Some (ret \<noteq> 0) }"

definition mode_can_read :: "int \<Rightarrow> bool" where
  "mode_can_read mode \<longleftrightarrow> mode AND 1 = 0"

definition mode_can_write :: "int \<Rightarrow> bool" where
  "mode_can_write mode \<longleftrightarrow> mode AND 3 \<noteq> O_RDONLY"

definition min3 :: "int \<Rightarrow> int \<Rightarrow> int \<Rightarrow> int" where
  \<comment> \<open>\<^verbatim>\<open>min\<close> of \<^verbatim>\<open>fs.c\<close>\<close>
  "min3 a b c = (if a < b then (if a < c then a else c) else (if b < c then b else c))"

subsection \<open>Directories\<close>

partial_function (option) ls_loop :: "fs \<Rightarrow> Inode \<Rightarrow> int \<Rightarrow> cstr \<Rightarrow> cstr option" where
  "ls_loop s inode i buf =
     do { (ret, dir) \<leftarrow> getDirEntry s inode i \<lparr>d_inode = 0, d_name = [], d_pad = []\<rparr>;
          if ret = 0 then ls_loop s inode (i + 1) (buf @ until_nul (d_name dir) @ [0x20])
          else Some buf }"

definition ls :: "fs \<Rightarrow> stack \<Rightarrow> cstr \<Rightarrow> cstr \<Rightarrow> cstr option" where
  \<comment> \<open>the string in \<^verbatim>\<open>buf\<close> afterwards\<close>
  "ls s st filename buf =
     do { (ret, inode, _) \<leftarrow> readInode s (st_inode st) filename;
          ok (ret = 0);
          ls_loop s inode 0 buf }"

definition syscall_open :: "fs \<Rightarrow> stack \<Rightarrow> cstr \<Rightarrow> int \<Rightarrow> (int \<times> fs) option" where
  "syscall_open s st path mode =
     do { (ret, destInode, destInodeOffset) \<leftarrow> readInode s (st_inode st) path;
          if ret \<noteq> 0 then
            if mode AND O_CREAT = 0 then Some (-1, s)
            else do {
              dir_path \<leftarrow> is_dir_path path;
              if dir_path \<and> \<not> is_dir_mode mode then Some (-1, s)
              else do {
                father_path \<leftarrow> get_father_path path;
                (ret, fatherInode, fatherInodeOffset) \<leftarrow> readInode s (st_inode st) father_path;
                if ret \<noteq> 0 then Some (-1, s)
                else do {
                  let type = (if is_dir_mode mode then DIRECTORY_TYPE else REGULAR_TYPE);
                  let last_slash = find_last_of path slash (int (length path) - 1);
                  (ret, _, _, destInodeOffset, s) \<leftarrow> allocInode s fatherInode fatherInodeOffset destInode
                     destInodeOffset (drop (nat (last_slash + 1)) path) type (st_words st 0) (st_block st);
                  ok (ret = 0);
                  Some (destInodeOffset, s) } } }
          else Some (destInodeOffset, s) }"

definition syscall_unlink :: "fs \<Rightarrow> stack \<Rightarrow> cstr \<Rightarrow> (int \<times> fs) option" where
  "syscall_unlink s st path =
     do { (ret, destInode, destInodeOffset) \<leftarrow> readInode s (st_inode st) path;
          if ret \<noteq> 0 then Some (-1, s)
          else do {
            empty \<leftarrow> (if i_type destInode = DIRECTORY_TYPE then is_empty_dir s destInode else Some True);
            if \<not> empty then Some (-1, s)
            else do {
              father_path \<leftarrow> get_father_path path;
              (ret, fatherInode, fatherInodeOffset) \<leftarrow> readInode s (st_inode st) father_path;
              if ret \<noteq> 0 then Some (-1, s)
              else do {
                let last_slash = find_last_of path slash (int (length path) - 1);
                (ret, _, _, s) \<leftarrow> freeInode s fatherInode fatherInodeOffset destInode destInodeOffset
                   (drop (nat (last_slash + 1)) path) (i_type destInode);
                Some (ret, s) } } } }"

subsection \<open>File contents\<close>

definition memcpy :: "byte list \<Rightarrow> int \<Rightarrow> byte list \<Rightarrow> int \<Rightarrow> int \<Rightarrow> byte list option" where
  \<comment> \<open>\<^verbatim>\<open>memcpy(dst + d, src + s, n)\<close>: the new contents of \<open>dst\<close>\<close>
  "memcpy dst d src so n =
     (if 0 \<le> d \<and> 0 \<le> so \<and> 0 \<le> n \<and> d + n \<le> int (length dst) \<and> so + n \<le> int (length src)
      then Some (take (nat d) dst @ take (nat n) (drop (nat so) src) @ drop (nat (d + n)) dst) else None)"

partial_function (option) readfile_loop ::
  "fs \<Rightarrow> Inode \<Rightarrow> FCB \<Rightarrow> byte list \<Rightarrow> int \<Rightarrow> int \<Rightarrow> int \<Rightarrow> int \<Rightarrow> byte list \<Rightarrow> (int \<times> FCB \<times> byte list) option" where
  "readfile_loop s inode fcb dst max_len read_len quot rem buffer =
     (if max_len > read_len \<and> f_offset fcb < i_size inode then
        do { (_, buffer) \<leftarrow> readBlock s inode quot buffer;
             let n = min3 (sb_blockSize (sBlock s) - rem) (i_size inode - f_offset fcb) (max_len - read_len);
             dst \<leftarrow> memcpy dst read_len buffer rem n;
             readfile_loop s inode (fcb\<lparr>f_offset := i32 (f_offset fcb + n)\<rparr>) dst max_len (read_len + n)
               (quot + 1) 0 buffer }
      else Some (read_len, fcb, dst))"

definition syscall_readfile :: "fs \<Rightarrow> stack \<Rightarrow> FCB \<Rightarrow> int \<Rightarrow> byte list \<Rightarrow> int \<Rightarrow> (int \<times> FCB \<times> byte list) option" where
  \<comment> \<open>(return value, \<^verbatim>\<open>*fcb\<close>, the memory at \<^verbatim>\<open>str\<close>)\<close>
  "syscall_readfile s st fcb fd dst max_len =
     (if fd < 3 \<or> fd \<ge> MAX_FILE_NUM \<or> f_inuse fcb = 0 \<or> \<not> mode_can_read (f_flags fcb) then Some (-1, fcb, dst)
      else do {
        ok (0 < sb_blockSize (sBlock s));
        b \<leftarrow> read_disk (media_of s) INODE_SIZE 1 (f_inodeOffset fcb);
        let inode = dec_inode b;
        if i_size inode \<le> f_offset fcb then Some (0, fcb, dst)
        else readfile_loop s inode fcb dst max_len 0 (cdiv (f_offset fcb) (sb_blockSize (sBlock s)))
               (cmod (f_offset fcb) (sb_blockSize (sBlock s))) (st_block st) })"

partial_function (option) writefile_loop ::
  "fs \<Rightarrow> stack \<Rightarrow> Inode \<Rightarrow> FCB \<Rightarrow> byte list \<Rightarrow> int \<Rightarrow> int \<Rightarrow> int \<Rightarrow> int \<Rightarrow> byte list \<Rightarrow>
    (fs \<times> Inode \<times> FCB \<times> byte list) option" where
  "writefile_loop s st inode fcb src len write_len quot rem buffer =
     (if len > write_len then
        do { (ret, inode, s) \<leftarrow> (if quot \<ge> i_blockCount inode
                then allocBlock s inode (f_inodeOffset fcb) (st_words st write_len) else Some (0, inode, s));
             ok (ret = 0);
             (_, buffer) \<leftarrow> readBlock s inode quot buffer;
             let room = sb_blockSize (sBlock s) - rem;
             let n = (if room < len - write_len then room else len - write_len);
             buffer \<leftarrow> memcpy buffer rem src write_len n;
             (_, s) \<leftarrow> writeBlock s inode quot buffer;
             let off = i32 (f_offset fcb + n);
             writefile_loop s st (inode\<lparr>i_size := (if i_size inode > off then i_size inode else off)\<rparr>)
               (fcb\<lparr>f_offset := off\<rparr>) src len (write_len + n) (quot + 1) 0 buffer }
      else Some (s, inode, fcb, buffer))"

definition syscall_writefile :: "fs \<Rightarrow> stack \<Rightarrow> FCB \<Rightarrow> int \<Rightarrow> byte list \<Rightarrow> int \<Rightarrow> (int \<times> FCB \<times> fs) option" where
  "syscall_writefile s st fcb fd src len =
     (if fd < 3 \<or> fd \<ge> MAX_FILE_NUM \<or> f_inuse fcb = 0 \<or> \<not> mode_can_write (f_flags fcb) then Some (-1, fcb, s)
      else do {
        ok (0 < sb_blockSize (sBlock s));
        b \<leftarrow> read_disk (media_of s) INODE_SIZE 1 (f_inodeOffset fcb);
        (s, inode, fcb, buffer) \<leftarrow> writefile_loop s st (dec_inode b) fcb src len 0
               (cdiv (f_offset fcb) (sb_blockSize (sBlock s)))
               (cmod (f_offset fcb) (sb_blockSize (sBlock s))) (st_block st);
        _ \<leftarrow> readBlock s inode 0 buffer;
        d \<leftarrow> write_disk (media_of s) (enc_inode inode) INODE_SIZE 1 (f_inodeOffset fcb);
        Some (len, fcb, s\<lparr>media_of := d\<rparr>) })"

definition syscall_lseek :: "fs \<Rightarrow> FCB \<Rightarrow> int \<Rightarrow> int \<Rightarrow> int \<Rightarrow> (int \<times> FCB) option" where
  "syscall_lseek s fcb fd offset whence =
     (if fd < 3 \<or> fd \<ge> MAX_FILE_NUM \<or> f_inuse fcb = 0 then Some (-1, fcb)
      else do {
        b \<leftarrow> read_disk (media_of s) INODE_SIZE 1 (f_inodeOffset fcb);
        let seek = (\<lambda>off. Some (off, fcb\<lparr>f_offset := off\<rparr>));
        if whence = SEEK_SET then seek offset
        else if whence = SEEK_CUR then seek (i32 (f_offset fcb + offset))
        else if whence = SEEK_END then seek (i32 (i_size (dec_inode b) + offset))
        else Some (-1, fcb) })"

definition open_fd :: "FCB list \<Rightarrow> int \<Rightarrow> int \<Rightarrow> int \<times> FCB list" where
  \<comment> \<open>the loop of \<^verbatim>\<open>openfile_handler\<close> over the file table: the descriptor (or \<open>-1\<close>) and the table\<close>
  "open_fd table inodeOffset mode =
     (case filter (\<lambda>i. f_inuse (table ! i) = 0) [3..<length table] of
        [] \<Rightarrow> (-1, table)
      | i # _ \<Rightarrow> (int i, table[i := \<lparr>f_inuse = 1, f_inodeOffset = inodeOffset, f_offset = 0, f_flags = mode\<rparr>]))"

end
