(* ===== verification/Blockmap.thy ===== *)
theory Blockmap
  imports Blocks
begin

text \<open>
  What the block map of theory \<open>Blocks\<close> computes. On a mounted one-group disk (block size 1024, at most
  8192 blocks) a block is named by its number \<open>u\<close>, its sector is \<open>block_addr u\<close>. The invariant
  \<open>file_at s inode ds ps\<close> says that the file of \<open>inode\<close> consists of the blocks \<open>ds\<close>, in order, and
  that \<open>ps\<close> are its pointer blocks: the singly indirect one, then the doubly indirect one, then
  the pointer blocks under it. All of them are different, in use in the block bitmap, and
  linked the way the walk of \<^verbatim>\<open>readBlock\<close> follows. With 8192 blocks the triply indirect level is
  never reached.

  Over this invariant a file is a growing array of blocks: reading looks one up, writing
  replaces one, \<^verbatim>\<open>allocBlock\<close> appends one, and no block in use outside the file changes.
\<close>

subsection \<open>Blocks on the medium\<close>

definition block_byte :: "nat \<Rightarrow> nat" where "block_byte u = 1024 * (1028 + u)"

definition block_of :: "fs \<Rightarrow> nat \<Rightarrow> byte list" where
  "block_of s u = rd_at (media_of s) (block_byte u) 1024"

definition put_block :: "fs \<Rightarrow> nat \<Rightarrow> byte list \<Rightarrow> fs" where
  "put_block s u bs = s\<lparr>media_of := blit (media_of s) (block_byte u) bs\<rparr>"

definition ptrs :: "fs \<Rightarrow> nat \<Rightarrow> int list" where
  "ptrs s u = get32s 256 (block_of s u)"

definition put_inode :: "fs \<Rightarrow> int \<Rightarrow> Inode \<Rightarrow> fs" where
  "put_inode s off inode = s\<lparr>media_of := blit (media_of s) (nat off) (enc_inode inode)\<rparr>"

definition inode_offset :: "int \<Rightarrow> bool" where
  \<comment> \<open>the byte address of an entry of the inode table\<close>
  "inode_offset off \<longleftrightarrow> (\<exists>k < 8192. off = inode_addr k)"

lemma length_block_of [simp]: "length (block_of s u) = 1024" "length (ptrs s u) = 256"
  by (simp_all add: block_of_def ptrs_def)

lemma ptrs_in32: "j < 256 \<Longrightarrow> in32 (ptrs s u ! j)"
  by (simp add: ptrs_def get32s_nth)

lemma block_of_put_block [simp]:
  "length bs = 1024 \<Longrightarrow> block_of (put_block s u bs) v = (if v = u then bs else block_of s v)"
proof (cases v u rule: linorder_cases)
  case equal
  then show "length bs = 1024 \<Longrightarrow> ?thesis" by (simp add: block_of_def put_block_def)
qed (simp_all add: block_of_def put_block_def block_byte_def rd_at_blit_disjoint)

lemma put_block_rest [simp]:
  "sBlock (put_block s u bs) = sBlock s" "gDesc (put_block s u bs) = gDesc s"
  "length bs = 1024 \<Longrightarrow> block_bm (put_block s u bs) = block_bm s"
  "length bs = 1024 \<Longrightarrow> inode_bm (put_block s u bs) = inode_bm s"
  by (simp_all add: put_block_def block_bm_def inode_bm_def block_byte_def rd_at_blit_disjoint)

lemma ready_put_block [simp]:
  "mounted (put_block s u bs) = mounted s" "block_ready (put_block s u bs) = block_ready s"
  "block_avail (put_block s u bs) = block_avail s" "block_units (put_block s u bs) = block_units s"
  "length bs = 1024 \<Longrightarrow> block_accounted (put_block s u bs) = block_accounted s"
  by (simp_all add: mounted_def block_ready_def block_avail_def block_units_def block_accounted_def)

lemma put_inode_rest [simp]:
  "sBlock (put_inode s off inode) = sBlock s" "gDesc (put_inode s off inode) = gDesc s"
  by (simp_all add: put_inode_def)

lemma put_inode_regions:
  assumes "inode_offset off" "wf_inode inode"
  shows "block_of (put_inode s off inode) u = block_of s u"
    "block_bm (put_inode s off inode) = block_bm s" "inode_bm (put_inode s off inode) = inode_bm s"
    "inode_at (media_of (put_inode s off inode)) off = inode"
proof -
  obtain k where k: "k < 8192" "off = inode_addr k" using assms(1) by (auto simp: inode_offset_def)
  then have "nat off = 4096 + 128 * k" by (simp add: inode_addr_def nat_add_distrib nat_mult_distrib)
  then show "block_of (put_inode s off inode) u = block_of s u"
    "block_bm (put_inode s off inode) = block_bm s" "inode_bm (put_inode s off inode) = inode_bm s"
    "inode_at (media_of (put_inode s off inode)) off = inode"
    using k(1) assms(2)
    by (simp_all add: block_of_def put_inode_def block_bm_def inode_bm_def block_byte_def inode_at_def
        rd_at_blit_disjoint dec_enc_inode)
qed

lemma ready_put_inode:
  assumes "inode_offset off" "wf_inode inode"
  shows "mounted (put_inode s off inode) = mounted s" "block_ready (put_inode s off inode) = block_ready s"
    "block_avail (put_inode s off inode) = block_avail s" "block_units (put_inode s off inode) = block_units s"
    "block_accounted (put_inode s off inode) = block_accounted s"
  using put_inode_regions [OF assms]
  by (simp_all add: mounted_def block_ready_def block_avail_def block_units_def block_accounted_def)

lemma took_region:
  assumes "mounted s" "4096 \<le> a"
  shows "rd_at (media_of (block_took s n)) a l = rd_at (media_of s) a l"
proof -
  let ?t = "block_count_add (-1) s"
  have "length (enc_sb (sBlock ?t)) = 1024" "length (enc_gd (hd (gDesc ?t))) = 32" "media_of ?t = media_of s"
    using assms by (simp_all add: block_count_add_def mounted_def wf_sb_def wf_gd_def enc_sb_def enc_gd_def)
  then show ?thesis using assms(2) by (simp add: block_took_def commit_def rd_at_blit_disjoint)
qed

lemma block_of_took [simp]: "mounted s \<Longrightarrow> block_of (block_took s n) u = block_of s u"
  by (simp add: block_of_def took_region block_byte_def)

lemma inode_at_took:
  "mounted s \<Longrightarrow> inode_offset off \<Longrightarrow> inode_at (media_of (block_took s n)) off = inode_at (media_of s) off"
  by (auto simp: inode_offset_def inode_at_def inode_addr_def took_region)

lemma inode_bm_took:
  assumes "block_ready s" "0 < block_avail s"
  shows "inode_bm (block_took s n) = inode_bm s"
proof -
  have "mounted (block_count_add (-1) s)"
    using assms by (intro mounted_count_add) (auto simp: block_ready_def block_avail_def)
  then show ?thesis by (simp add: block_took_def) (simp add: inode_bm_def block_count_add_def)
qed

subsection \<open>The invariant of a file\<close>

definition pointer_blocks :: "nat \<Rightarrow> nat" where
  \<comment> \<open>how many pointer blocks a file of \<open>n\<close> blocks has\<close>
  "pointer_blocks n = (if n \<le> 12 then 0 else if n \<le> 268 then 1 else 2 + (n - 268 + 255) div 256)"

definition linked :: "fs \<Rightarrow> Inode \<Rightarrow> nat list \<Rightarrow> nat list \<Rightarrow> bool" where
  "linked s inode ds ps \<longleftrightarrow>
     (\<forall>i < length ds. i < 12 \<longrightarrow> i_pointer inode ! i = block_addr (ds ! i))
     \<and> (12 < length ds \<longrightarrow> i_singly inode = block_addr (ps ! 0))
     \<and> (\<forall>i < length ds. 12 \<le> i \<and> i < 268 \<longrightarrow> ptrs s (ps ! 0) ! (i - 12) = block_addr (ds ! i))
     \<and> (268 < length ds \<longrightarrow> i_doubly inode = block_addr (ps ! 1))
     \<and> (\<forall>j. 2 + j < length ps \<longrightarrow> ptrs s (ps ! 1) ! j = block_addr (ps ! (2 + j)))
     \<and> (\<forall>i < length ds. 268 \<le> i \<longrightarrow>
          ptrs s (ps ! (2 + (i - 268) div 256)) ! ((i - 268) mod 256) = block_addr (ds ! i))"

definition owned :: "fs \<Rightarrow> nat list \<Rightarrow> bool" where
  \<comment> \<open>different blocks of the disk, all in use\<close>
  "owned s us \<longleftrightarrow> distinct us \<and> (\<forall>u \<in> set us. u < block_units s \<and> used (block_bm s) u)"

definition file_at :: "fs \<Rightarrow> Inode \<Rightarrow> nat list \<Rightarrow> nat list \<Rightarrow> bool" where
  "file_at s inode ds ps \<longleftrightarrow> block_accounted s \<and> wf_inode inode \<and> i_blockCount inode = int (length ds)
     \<and> length ps = pointer_blocks (length ds) \<and> owned s (ds @ ps) \<and> linked s inode ds ps"

lemma units_bound: "block_accounted s \<Longrightarrow> block_units s \<le> 8192"
  using blk.ready_pool [of s] by (simp add: block_accounted_def)

lemma owned_bound:
  assumes "owned s us" "block_accounted s"
  shows "length us \<le> 8192" "\<And>u. u \<in> set us \<Longrightarrow> u < 8192"
proof -
  have "set us \<subseteq> {..<block_units s}" using assms(1) by (auto simp: owned_def)
  then have "card (set us) \<le> block_units s" using card_mono [of "{..<block_units s}" "set us"] by simp
  then show "length us \<le> 8192" using assms units_bound by (simp add: owned_def distinct_card le_trans)
  show "u < 8192" if "u \<in> set us" for u using that assms units_bound [of s] by (auto simp: owned_def)
qed

lemma file_bound:
  assumes "file_at s inode ds ps"
  shows "length ds \<le> 8192" "\<And>i. i < length ds \<Longrightarrow> ds ! i < 8192" "\<And>j. j < length ps \<Longrightarrow> ps ! j < 8192" "mounted s"
  using assms owned_bound [of s "ds @ ps"] by (auto simp: file_at_def block_accounted_def block_ready_def)

lemma mounted_dims:
  assumes "mounted s"
  shows "divider0 (sBlock s) = 256" "divider1 (sBlock s) = 65536" "divider2 (sBlock s) = 16777216"
    "bound0 = 12" "bound1 (sBlock s) = 268" "bound2 (sBlock s) = 65804" "bound3 (sBlock s) = 16843020" "sb_blockSize (sBlock s) = 1024"
  using assms by (simp_all add: mounted_def divider0_def divider1_def divider2_def bound0_def bound1_def bound2_def bound3_def
      POINTER_NUM_def cdiv_nonneg i32_def)

lemma sector_byte: "u < 8192 \<Longrightarrow> i32 (block_addr u * 512) = int (block_byte u)"
  by (simp add: block_addr_def block_byte_def i32_id in32_def)

lemma read_ptrs_block:
  "mounted s \<Longrightarrow> u < 8192 \<Longrightarrow> read_ptrs s (block_addr u) = Some (ptrs s u)"
  by (simp add: read_ptrs_def mounted_dims sector_byte read_disk_rd_at ptrs_def block_of_def)

lemma write_ptrs_block:
  "mounted s \<Longrightarrow> u < 8192 \<Longrightarrow> length ws = 256 \<Longrightarrow> write_ptrs s (block_addr u) ws = Some (put_block s u (put32s ws))"
  by (simp add: write_ptrs_def mounted_dims sector_byte write_disk_eq put_block_def)

lemma pointer_blocks_bound:
  "n \<le> 8192 \<Longrightarrow> pointer_blocks n \<le> 34" "12 < n \<Longrightarrow> 0 < pointer_blocks n" "268 < n \<Longrightarrow> 1 < pointer_blocks n"
  "268 \<le> i \<Longrightarrow> i < n \<Longrightarrow> 2 + (i - 268) div 256 < pointer_blocks n"
  by (auto simp: pointer_blocks_def)

lemma doubly_index:
  assumes "268 \<le> i"
  shows "cdiv (int i - 268) 256 = int ((i - 268) div 256)" "cmod (int i - 268) 256 = int ((i - 268) mod 256)"
  using assms by (simp_all add: cdiv_nonneg cmod_nonneg zdiv_int zmod_int of_nat_diff)

lemma blockPointer_file:
  assumes "file_at s inode ds ps" "i < length ds"
  shows "blockPointer s inode (int i) = Some (Some (block_addr (ds ! i)))"
proof -
  note b = file_bound [OF assms(1)]
  note d = mounted_dims [OF b(4)]
  have f: "linked s inode ds ps" "length (i_pointer inode) = 12" "length ps = pointer_blocks (length ds)"
    using assms(1) by (simp_all add: file_at_def wf_inode_def)
  consider (direct) "i < 12" | (singly) "12 \<le> i" "i < 268" | (doubly) "268 \<le> i" by linarith
  then show ?thesis
  proof cases
    case direct
    then show ?thesis using f assms(2) by (simp add: blockPointer_def d arr_nth linked_def)
  next
    case singly
    have a: "arr (ptrs s (ps ! 0)) (int i - 12) = Some (block_addr (ds ! i))"
      using singly f(1) assms(2) by (auto simp: arr_def linked_def nat_diff_distrib)
    have "i_singly inode = block_addr (ps ! 0)" "ps ! 0 < 8192"
      using singly f assms(2) b(3) pointer_blocks_bound(2) [of "length ds"] by (simp_all add: linked_def)
    then show ?thesis using singly by (simp add: blockPointer_def d read_ptrs_block b(4) a)
  next
    case doubly
    have q: "2 + (i - 268) div 256 < length ps" using pointer_blocks_bound(4) [OF doubly assms(2)] f(3) by simp
    have small: "(i - 268) div 256 < 256" using assms(2) b(1) by linarith
    note e = doubly_index [OF doubly]
    have a: "arr (ptrs s (ps ! 1)) (cdiv (int i - 268) 256) = Some (block_addr (ps ! (2 + (i - 268) div 256)))"
      using f(1) q small unfolding e by (subst arr_nth) (simp_all add: linked_def)
    have c: "arr (ptrs s (ps ! (2 + (i - 268) div 256))) (cmod (int i - 268) 256) = Some (block_addr (ds ! i))"
      using f(1) doubly assms(2) unfolding e by (subst arr_nth) (simp_all add: linked_def)
    have "i_doubly inode = block_addr (ps ! 1)" "ps ! 1 < 8192" "ps ! (2 + (i - 268) div 256) < 8192"
      using doubly f assms(2) q b(3) by (simp_all add: linked_def)
    moreover have "int i < 65804" "\<not> int i < 268" using assms(2) b(1) doubly by simp_all
    ultimately show ?thesis by (simp add: blockPointer_def d read_ptrs_block b(4)
        a [unfolded One_nat_def add_2_eq_Suc] c [unfolded add_2_eq_Suc])
  qed
qed

lemma readBlock_file:
  assumes "file_at s inode ds ps" "i < length ds"
  shows "readBlock s inode (int i) buf = Some (0, block_of s (ds ! i))"
  using blockPointer_file [OF assms] file_bound(2,4) [OF assms(1)] assms(2)
  by (simp add: readBlock_def mounted_dims sector_byte read_disk_rd_at block_of_def)

lemma writeBlock_file:
  assumes "file_at s inode ds ps" "i < length ds" "length bs = 1024"
  shows "writeBlock s inode (int i) bs = Some (0, put_block s (ds ! i) bs)"
  using blockPointer_file [OF assms(1,2)] file_bound(2,4) [OF assms(1)] assms(2,3)
  by (simp add: writeBlock_def mounted_dims sector_byte write_disk_eq put_block_def)

lemma linked_mono:
  assumes "linked s inode ds ps" "length ps = pointer_blocks (length ds)" "\<And>p. p \<in> set ps \<Longrightarrow> block_of t p = block_of s p"
  shows "linked t inode ds ps"
proof -
  have p: "j < length ps \<Longrightarrow> ptrs t (ps ! j) = ptrs s (ps ! j)" for j using assms(3) by (simp add: ptrs_def)
  note b = pointer_blocks_bound [of "length ds", folded assms(2)]
  show ?thesis using assms(1) p b(2,3) pointer_blocks_bound(4) [of _ "length ds", folded assms(2)]
    unfolding linked_def by fastforce
qed

lemma file_at_frame:
  \<comment> \<open>a file does not change when its blocks stay in use and its pointer blocks keep their contents\<close>
  assumes "file_at s inode ds ps" "block_accounted t" "block_units t = block_units s"
    "\<And>u. used (block_bm s) u \<Longrightarrow> used (block_bm t) u" "\<And>p. p \<in> set ps \<Longrightarrow> block_of t p = block_of s p"
  shows "file_at t inode ds ps"
  using assms linked_mono [of s inode ds ps t] by (auto simp: file_at_def owned_def)

lemma file_at_put_data:
  assumes "file_at s inode ds ps" "i < length ds" "length bs = 1024"
  shows "file_at (put_block s (ds ! i) bs) inode ds ps"
    "map (block_of (put_block s (ds ! i) bs)) ds = (map (block_of s) ds)[i := bs]"
proof -
  have d: "distinct (ds @ ps)" using assms(1) by (simp add: file_at_def owned_def)
  then have "p \<noteq> ds ! i" if "p \<in> set ps" for p using that assms(2) by (auto dest: nth_mem)
  moreover have "block_accounted s" using assms(1) by (simp add: file_at_def)
  ultimately show "file_at (put_block s (ds ! i) bs) inode ds ps"
    using assms(3) by (intro file_at_frame [OF assms(1)]) auto
  show "map (block_of (put_block s (ds ! i) bs)) ds = (map (block_of s) ds)[i := bs]"
    using d assms(2,3) by (auto intro!: nth_equalityI simp: nth_list_update nth_eq_iff_index_eq)
qed

subsection \<open>Counting pointer blocks\<close>

definition begun :: "nat \<Rightarrow> nat \<Rightarrow> nat" where
  \<comment> \<open>into how many pieces of length \<open>d\<close> the first \<open>k\<close> elements reach\<close>
  "begun d k = (k + (d - 1)) div d"

definition tree_blocks :: "nat \<Rightarrow> nat \<Rightarrow> nat" where
  \<comment> \<open>the pointer blocks of a file of \<open>n\<close> blocks when a pointer block holds \<open>d\<close> pointers: the
     singly indirect one; the doubly indirect one and one for every \<open>d\<close> blocks begun; the triply
     indirect one, one for every \<open>d * d\<close> and one for every \<open>d\<close> blocks begun\<close>
  "tree_blocks d n =
     (if 12 < n then 1 else 0)
     + (if 12 + d < n then 1 + begun d (min n (12 + d + d * d) - (12 + d)) else 0)
     + (if 12 + d + d * d < n then 1 + begun (d * d) (n - (12 + d + d * d)) + begun d (n - (12 + d + d * d)) else 0)"

lemma begun_eq:
  assumes "0 < d"
  shows "begun d k = k div d + (if k mod d = 0 then 0 else 1)"
proof -
  let ?r = "k mod d"
  have "k + (d - 1) = d * (k div d) + (?r + (d - 1))" by simp
  then have "begun d k = k div d + (?r + (d - 1)) div d"
    unfolding begun_def using assms by (simp only: div_mult_self4)
  moreover have "(?r + (d - 1)) div d = (if ?r = 0 then 0 else 1)"
  proof (cases "?r = 0")
    case False
    then have e: "?r + (d - 1) = d + (?r - 1)" "?r - 1 < d" using assms mod_less_divisor [OF assms, of k] by linarith+
    have "(d + (?r - 1)) div d = 1" using e(2) assms by (simp only: div_add_self1 div_less)
    then show ?thesis using False by (simp only: e(1) if_False)
  qed (use assms in simp)
  ultimately show ?thesis by simp
qed

lemma begun_Suc:
  assumes "0 < d"
  shows "begun d (Suc k) = begun d k + (if k mod d = 0 then 1 else 0)"
proof -
  have "begun d (Suc k) = (k + d) div d" using assms by (simp add: begun_def)
  then show ?thesis using assms by (simp add: begun_eq div_add_self2)
qed

lemma begun_0 [simp]: "0 < d \<Longrightarrow> begun d 0 = 0"
  by (simp add: begun_def)

lemma tree_blocks_Suc:
  assumes "13 \<le> d"
  shows "tree_blocks d (Suc n) = tree_blocks d n +
    (if n = 12 then 1 else 0)
    + (if n = 12 + d then 2 else if 12 + d < n \<and> n < 12 + d + d * d \<and> (n - (12 + d)) mod d = 0 then 1 else 0)
    + (if n = 12 + d + d * d then 3
       else if 12 + d + d * d < n then
         (if (n - (12 + d + d * d)) mod (d * d) = 0 then 1 else 0) + (if (n - (12 + d + d * d)) mod d = 0 then 1 else 0)
       else 0)"
proof -
  let ?b1 = "12 + d" and ?b2 = "12 + d + d * d"
  have d: "0 < d" "0 < d * d" using assms by simp_all
  have s: "begun e (Suc n - c) = begun e (n - c) + (if (n - c) mod e = 0 then 1 else 0)"
    if "c \<le> n" "0 < e" for c e using begun_Suc [OF that(2), of "n - c"] that(1) by (simp only: Suc_diff_le)
  have one: "begun e (Suc c - c) = 1" if "0 < e" for e c using begun_Suc [OF that, of 0] that by simp
  consider "n < ?b1" | "n = ?b1" | "?b1 < n" "n < ?b2" | "n = ?b2" | "?b2 < n" by linarith
  then show ?thesis
  proof cases
    case 3
    then have "min (Suc n) ?b2 = Suc n" "min n ?b2 = n" by simp_all
    with 3 d s [of ?b1 d] show ?thesis unfolding tree_blocks_def by (simp only: less_SucI less_imp_le if_True if_False) simp
  next
    case 5
    then have "min (Suc n) ?b2 = ?b2" "min n ?b2 = ?b2" by simp_all
    with 5 d s [of ?b2 d] s [of ?b2 "d * d"] show ?thesis unfolding tree_blocks_def by (simp only: less_SucI less_imp_le if_True if_False) simp
  next
    case 2
    have "min (Suc ?b1) ?b2 = Suc ?b1" using d by simp
    with 2 d show ?thesis unfolding tree_blocks_def 2 by (simp only: one) simp
  next
    case 4
    have "min (Suc ?b2) ?b2 = ?b2" "min ?b2 ?b2 = ?b2" by simp_all
    with 4 d show ?thesis unfolding tree_blocks_def 4 by (simp only: one) simp
  qed (use d in \<open>simp add: tree_blocks_def\<close>)
qed

lemma cmod_zero:
  "cmod (int n - int c) (int d) = 0 \<longleftrightarrow> (if c \<le> n then d dvd n - c else d dvd c - n)"
proof -
  have neg: "cmod (- x) y = - cmod x y" for x y by (simp add: cmod_def cdiv_def)
  have pos: "cmod (int k) (int d) = 0 \<longleftrightarrow> d dvd k" for k by (simp add: cmod_nonneg dvd_eq_mod_eq_0 flip: zmod_int)
  show ?thesis
  proof (cases "c \<le> n")
    case True
    then show ?thesis using pos [of "n - c"] by (simp add: of_nat_diff)
  next
    case False
    then have e: "int n - int c = - int (c - n)" by simp
    show ?thesis unfolding e neg neg_equal_0_iff_equal pos using False by simp
  qed
qed

lemma needed_bounds:
  assumes "sb_blockSize sb = 4 * int d" "d \<le> 1024"
  shows "divider0 sb = int d" "divider1 sb = int (d * d)" "divider2 sb = int (d * d * d)" "bound0 = int 12" "bound1 sb = int (12 + d)"
    "bound2 sb = int (12 + d + d * d)" "bound3 sb = int (12 + d + d * d + d * d * d)"
proof -
  have s: "d * d \<le> 1024 * 1024" using assms(2) by (intro mult_le_mono)
  then have c: "d * d * d \<le> 1024 * 1024 * 1024" using assms(2) by (intro mult_le_mono)
  have i: "i32 (int k) = int k" if "k \<le> 2000000000" for k using that by (simp add: i32_id in32_def)
  show d0: "divider0 sb = int d" using assms(1) by (simp add: divider0_def cdiv_nonneg)
  show d1: "divider1 sb = int (d * d)" unfolding divider1_def d0 using i [of "d * d"] s by simp
  show d2: "divider2 sb = int (d * d * d)" unfolding divider2_def d1 d0 using i [of "d * d * d"] c by simp
  show b0: "bound0 = int 12" by (simp add: bound0_def POINTER_NUM_def)
  show b1: "bound1 sb = int (12 + d)" unfolding bound1_def b0 d0 using i [of "12 + d"] assms(2) by simp
  show b2: "bound2 sb = int (12 + d + d * d)" unfolding bound2_def b1 d1 using i [of "12 + d + d * d"] s assms(2) by simp
  show "bound3 sb = int (12 + d + d * d + d * d * d)"
    unfolding bound3_def b2 d2 using i [of "12 + d + d * d + d * d * d"] s c assms(2) by simp
qed

lemma no_early_multiple:
  fixes d n :: nat
  assumes "13 \<le> d" "n \<noteq> 12"
  shows "n < 12 + d \<Longrightarrow> \<not> d dvd 12 + d - n" "n < 12 + d \<Longrightarrow> \<not> d dvd 12 + d + d * d - n"
    "12 + d < n \<Longrightarrow> n < 12 + d + d * d \<Longrightarrow> d dvd 12 + d + d * d - n \<longleftrightarrow> d dvd n - (12 + d)"
proof -
  show a: "\<not> d dvd 12 + d - n" if "n < 12 + d"
  proof
    assume "d dvd 12 + d - n"
    then obtain k where k: "12 + d - n = d * k" by (rule dvdE)
    have "d * k < d * 2" using k that assms(1) by linarith
    then have "k = 0 \<or> k = 1" by auto
    then show False using k assms that by auto
  qed
  show "\<not> d dvd 12 + d + d * d - n" if "n < 12 + d"
  proof -
    have "12 + d + d * d - n = d * d + (12 + d - n)" using that by simp
    then show ?thesis using a [OF that] by (simp only: dvd_add_right_iff dvd_triv_left) simp
  qed
  show "d dvd 12 + d + d * d - n \<longleftrightarrow> d dvd n - (12 + d)" if "12 + d < n" "n < 12 + d + d * d"
  proof -
    have "(12 + d + d * d - n) + (n - (12 + d)) = d * d" using that by simp
    then show ?thesis by (metis dvd_add_right_iff dvd_add_left_iff dvd_triv_left)
  qed
qed

lemma needed_counts:
  assumes "sb_blockSize sb = 4 * int d" "13 \<le> d" "d \<le> 1024" "n < 12 + d + d * d + d * d * d"
  shows "calNeededPointerBlocks sb (int n) = int (tree_blocks d (Suc n)) - int (tree_blocks d n)"
proof -
  let ?b1 = "12 + d" and ?b2 = "12 + d + d * d"
  note b = needed_bounds [OF assms(1,3)]
  note m = no_early_multiple [OF assms(2)]
  have dd: "d * d dvd k \<Longrightarrow> d dvd k" for k by (rule dvd_trans [of _ "d * d"]) simp_all
  have c: "calNeededPointerBlocks sb (int n) =
      (if n = 12 then 1 else if n = ?b1 then 2
       else if n < ?b2 \<and> (if ?b1 \<le> n then d dvd n - ?b1 else d dvd ?b1 - n) then 1
       else if n = ?b2 then 3
       else if (if ?b2 \<le> n then d * d dvd n - ?b2 else d * d dvd ?b2 - n) then 2
       else if (if ?b2 \<le> n then d dvd n - ?b2 else d dvd ?b2 - n) then 1 else 0)"
    unfolding calNeededPointerBlocks_def b cmod_zero of_nat_less_iff of_nat_le_iff of_nat_eq_iff using assms(4) by simp
  consider "n = 12" | "n \<noteq> 12" "n < ?b1" | "n = ?b1" | "?b1 < n" "n < ?b2" | "n = ?b2" | "?b2 < n" by linarith
  then show ?thesis
    unfolding c tree_blocks_Suc [OF assms(2)] mod_0_imp_dvd [THEN iffI, OF dvd_imp_mod_0]
    using assms(2) m dd by cases (auto simp: mod_eq_0_iff_dvd)
qed

text \<open>
  C11. \<^verbatim>\<open>calNeededPointerBlocks\<close> is right: for every block size from 52 to 4096 bytes (whose block numbers fit a C \<^verbatim>\<open>int\<close>)
  and every block count that the three levels can hold, its chain of comparisons and remainders
  computes how many pointer blocks a file has with one more block than it has now, minus how
  many it has now, the count being that of the whole tree. At the limit it returns \<open>-1\<close>.
\<close>

theorem calNeededPointerBlocks_counts_tree:
  assumes "sb_blockSize sb = 4 * int d" "13 \<le> d" "d \<le> 1024"
  shows "calNeededPointerBlocks sb (int n) =
    (if n < 12 + d + d * d + d * d * d then int (tree_blocks d (Suc n)) - int (tree_blocks d n) else -1)"
proof (cases "n < 12 + d + d * d + d * d * d")
  case True
  then show ?thesis using needed_counts [OF assms True] by simp
next
  case False
  have "0 < d * d * d" using assms(2) by simp
  then have "12 < n" "12 + d < n" "12 + d + d * d < n" using False assms(2) by linarith+
  then show ?thesis
    unfolding calNeededPointerBlocks_def needed_bounds [OF assms(1,3)] of_nat_less_iff of_nat_le_iff of_nat_eq_iff using False by simp
qed

theorem calNeededPointerBlocks_counts_tree_witness:
  "calNeededPointerBlocks ((sBlock blank_fs)\<lparr>sb_blockSize := 1024\<rparr>) (int 65804) = int (tree_blocks 256 65805) - int (tree_blocks 256 65804)"
  using calNeededPointerBlocks_counts_tree [of "(sBlock blank_fs)\<lparr>sb_blockSize := 1024\<rparr>" 256 65804] by simp

subsection \<open>Appending a block\<close>

lemma pointer_blocks_tree: "n \<le> 65804 \<Longrightarrow> tree_blocks 256 n = pointer_blocks n"
  by (auto simp: tree_blocks_def pointer_blocks_def begun_def min_def)

lemma pointer_blocks_Suc:
  "pointer_blocks (Suc n) = pointer_blocks n
     + (if n = 12 then 1 else if n = 268 then 2 else if 268 < n \<and> (n - 268) mod 256 = 0 then 1 else 0)"
proof (cases "268 < n")
  case True
  then have "Suc n - 268 = Suc (n - 268)" by simp
  then show ?thesis using True begun_Suc [of 256 "n - 268"] by (simp add: pointer_blocks_def begun_def)
qed (auto simp: pointer_blocks_def)

lemma needed_mounted:
  assumes "mounted s" "n < 65804"
  shows "calNeededPointerBlocks (sBlock s) (int n) = int (pointer_blocks (Suc n)) - int (pointer_blocks n)"
  using needed_counts [of "sBlock s" 256 n] assms mounted_dims(8) [OF assms(1)] by (simp add: pointer_blocks_tree)

definition room :: "fs \<Rightarrow> nat \<Rightarrow> bool" where
  \<comment> \<open>\<open>k\<close> blocks can be allocated one after the other: they are free, and until the last one the search bound of
     \<^verbatim>\<open>getAvailBlock\<close> reaches a free one\<close>
  "room s k \<longleftrightarrow> block_accounted s \<and> int k \<le> block_avail s \<and> int (block_units s) + 2 * int k \<le> 2 * block_avail s + 9"

definition grown :: "fs \<Rightarrow> fs \<Rightarrow> nat list \<Rightarrow> nat list \<Rightarrow> bool" where
  \<comment> \<open>from \<open>s\<close> to \<open>t\<close> the free blocks \<open>us\<close> were taken, and of the blocks in use only \<open>ps\<close> were written\<close>
  "grown s t ps us \<longleftrightarrow> block_accounted t \<and> block_units t = block_units s
     \<and> block_avail t + int (length us) = block_avail s
     \<and> distinct us \<and> (\<forall>u \<in> set us. u < block_units s \<and> \<not> used (block_bm s) u)
     \<and> (\<forall>k. used (block_bm t) k \<longleftrightarrow> k \<in> set us \<or> used (block_bm s) k)
     \<and> (\<forall>v. used (block_bm s) v \<and> v \<notin> set ps \<longrightarrow> block_of t v = block_of s v)
     \<and> inode_bm t = inode_bm s \<and> (\<forall>off. inode_offset off \<longrightarrow> inode_at (media_of t) off = inode_at (media_of s) off)"

lemma grown_refl: "block_accounted s \<Longrightarrow> grown s s ps []"
  by (simp add: grown_def)

lemma inode_at_put_block: "inode_offset off \<Longrightarrow> inode_at (media_of (put_block s u bs)) off = inode_at (media_of s) off"
  by (auto simp: inode_offset_def inode_at_def put_block_def block_byte_def inode_addr_def nat_add_distrib nat_mult_distrib
      rd_at_blit_disjoint)

lemma grown_put:
  assumes "grown s t ps us" "u \<in> set ps \<or> u \<in> set us" "length bs = 1024"
  shows "grown s (put_block t u bs) ps us"
  using assms by (auto simp: grown_def inode_at_put_block)

lemma grown_mounted: "grown s t ps us \<Longrightarrow> mounted t"
  by (simp add: grown_def block_accounted_def block_ready_def)

lemma grown_room: "room s (k + length us) \<Longrightarrow> grown s t ps us \<Longrightarrow> room t k"
  by (auto simp: room_def grown_def)

lemma grown_get:
  assumes "grown s t ps us" "room t (Suc k)"
  shows "\<exists>u. getAvailBlock t x = Some (0, block_addr u, block_took t u) \<and> u < 8192 \<and> grown s (block_took t u) ps (us @ [u])"
proof -
  have t: "block_accounted t" "0 < block_avail t" "int (block_units t) \<le> 2 * block_avail t + 7"
    using assms(2) by (auto simp: room_def)
  then have r: "block_ready t" "mounted t" by (simp_all add: block_accounted_def block_ready_def)
  obtain u where u: "u < block_units t" "\<not> used (block_bm t) u" "getAvailBlock t x = Some (0, block_addr u, block_took t u)"
    "block_accounted (block_took t u)"
    using blk.get_half_full [unfolded accounted_pool, OF t] by blast
  have "u < 8192" using u(1) units_bound [OF t(1)] by simp
  moreover have "grown s (block_took t u) ps (us @ [u])"
    using assms(1) u(1,2,4) \<open>u < 8192\<close> block_pool_step(1) [OF r(1) t(2), of u] inode_bm_took [OF r(1) t(2)] inode_at_took [OF r(2)]
    by (auto simp: grown_def used_mark r(2))
  ultimately show ?thesis using u(3) by blast
qed

lemma ptrs_put_block:
  "length ws = 256 \<Longrightarrow> ptrs (put_block s u (put32s ws)) v = (if v = u then map i32 ws else ptrs s v)"
  using get32s_put32s [of ws "[]"] by (simp add: ptrs_def)

lemma i32_block_addr: "u < 8192 \<Longrightarrow> i32 (block_addr u) = block_addr u"
  by (simp add: block_addr_def i32_id in32_def)

lemma map_i32_ptrs:
  "u < 8192 \<Longrightarrow> map i32 ((ptrs s v)[j := block_addr u]) = (ptrs s v)[j := block_addr u]"
  by (rule nth_equalityI, simp) (metis i32_block_addr i32_id length_block_of(2) length_list_update length_map nth_list_update_eq
      nth_list_update_neq nth_map ptrs_in32)

definition slot :: "fs \<Rightarrow> Inode \<Rightarrow> nat list \<Rightarrow> nat \<Rightarrow> int" where
  \<comment> \<open>where the pointer to block \<open>i\<close> of a file stands\<close>
  "slot s inode ps i =
     (if i < 12 then i_pointer inode ! i else if i < 268 then ptrs s (ps ! 0) ! (i - 12)
      else ptrs s (ps ! (2 + (i - 268) div 256)) ! ((i - 268) mod 256))"

lemma linked_slots:
  "linked s inode ds ps \<longleftrightarrow> (\<forall>i < length ds. slot s inode ps i = block_addr (ds ! i))
     \<and> (12 < length ds \<longrightarrow> i_singly inode = block_addr (ps ! 0)) \<and> (268 < length ds \<longrightarrow> i_doubly inode = block_addr (ps ! 1))
     \<and> (\<forall>j. 2 + j < length ps \<longrightarrow> ptrs s (ps ! 1) ! j = block_addr (ps ! (2 + j)))"
  unfolding linked_def slot_def by (auto simp: not_less)

lemma linked_snoc:
  assumes "linked s inode ds ps" "\<And>i. i < length ds \<Longrightarrow> slot t inode' (ps @ us) i = slot s inode ps i"
    "slot t inode' (ps @ us) (length ds) = block_addr u"
    "12 < Suc (length ds) \<Longrightarrow> i_singly inode' = block_addr ((ps @ us) ! 0)"
    "268 < Suc (length ds) \<Longrightarrow> i_doubly inode' = block_addr ((ps @ us) ! 1)"
    "\<And>j. 2 + j < length (ps @ us) \<Longrightarrow> ptrs t ((ps @ us) ! 1) ! j = block_addr ((ps @ us) ! (2 + j))"
  shows "linked t inode' (ds @ [u]) (ps @ us)"
  using assms by (auto simp: linked_slots nth_append less_Suc_eq)

definition appended :: "fs \<Rightarrow> fs \<Rightarrow> Inode \<Rightarrow> Inode \<Rightarrow> nat list \<Rightarrow> nat list \<Rightarrow> nat \<Rightarrow> bool" where
  \<comment> \<open>the pointer to block \<open>u\<close> was added to the tree\<close>
  "appended s t inode inode' ds ps u \<longleftrightarrow> (\<exists>us. grown s t ps us \<and> length (ps @ us) = pointer_blocks (Suc (length ds))
     \<and> linked t inode' (ds @ [u]) (ps @ us) \<and> wf_inode inode' \<and> i_blockCount inode' = i_blockCount inode
     \<and> i_size inode' = i_size inode \<and> i_type inode' = i_type inode \<and> i_linkCount inode' = i_linkCount inode)"

lemma appendedI:
  assumes "file_at s inode ds ps" "grown s t ps us" "length us + pointer_blocks (length ds) = pointer_blocks (Suc (length ds))"
    "wf_inode inode'" "i_blockCount inode' = i_blockCount inode"
    "i_size inode' = i_size inode" "i_type inode' = i_type inode" "i_linkCount inode' = i_linkCount inode"
    "linked t inode' (ds @ [u]) (ps @ us)"
  shows "appended s t inode inode' ds ps u"
  using assms unfolding appended_def file_at_def by (intro exI [of _ us]) (simp add: add.commute)

lemma append_direct:
  assumes "file_at s inode ds ps" "length ds < 12" "u < 8192"
  shows "\<exists>inode' t. allocSingly s inode (block_addr u) junk = Some (inode', t) \<and> appended s t inode inode' ds ps u"
proof -
  let ?inode = "inode\<lparr>i_pointer := (i_pointer inode)[length ds := block_addr u]\<rparr>"
  have f: "wf_inode inode" "i_blockCount inode = int (length ds)" "linked s inode ds ps" "ps = []" "length (i_pointer inode) = 12"
    using assms(1,2) by (auto simp: file_at_def wf_inode_def pointer_blocks_def)
  have "allocSingly s inode (block_addr u) junk = Some (?inode, s)"
    using f assms(2) by (cases junk) (simp add: allocSingly_def mounted_dims(4) [OF file_bound(4) [OF assms(1)]] arr_upd_def)
  moreover have l: "linked s ?inode (ds @ [u]) (ps @ [])"
    using assms(2) f(3-5) by (intro linked_snoc [OF f(3)]) (auto simp: slot_def)
  moreover have "wf_inode ?inode" using f(1) assms(3) set_update_subset_insert [of "i_pointer inode" "length ds" "block_addr u"]
    by (auto simp: wf_inode_def list_all_iff in32_def block_addr_def)
  then have "appended s s inode ?inode ds ps u"
    using assms by (intro appendedI [OF assms(1) grown_refl _ _ _ _ _ _ l]) (auto simp: file_at_def pointer_blocks_def)
  ultimately show ?thesis by blast
qed

lemma arr_upd_head: "length w = 256 \<Longrightarrow> arr_upd w 0 v = Some (w[0 := v])"
  by (auto simp: arr_upd_def)

lemma append_first_singly:
  assumes "file_at s inode ds ps" "length ds = 12" "u < 8192" "room s 1" "length w1 = 256"
  shows "\<exists>inode' t. allocSingly s inode (block_addr u) (w1, w2, w3) = Some (inode', t) \<and> appended s t inode inode' ds ps u"
proof -
  have f: "wf_inode inode" "i_blockCount inode = int (length ds)" "linked s inode ds ps" "ps = []" "block_accounted s"
    using assms(1,2) by (auto simp: file_at_def pointer_blocks_def)
  obtain q where q: "getAvailBlock s 0 = Some (0, block_addr q, block_took s q)" "q < 8192" "grown s (block_took s q) ps ([] @ [q])"
    using grown_get [OF grown_refl [OF f(5)], of 0 0 ps] assms(4) by auto
  let ?inode = "inode\<lparr>i_singly := block_addr q\<rparr>" and ?w = "w1[0 := block_addr u]"
  let ?t = "put_block (block_took s q) q (put32s ?w)"
  have g: "grown s ?t ps [q]" using grown_put [OF q(3), of q "put32s ?w"] assms(5) by simp
  have m: "mounted (block_took s q)" by (rule grown_mounted [OF q(3)])
  have "allocSingly s inode (block_addr u) (w1, w2, w3) = Some (?inode, ?t)"
    using f assms(2,5) by (simp add: allocSingly_def mounted_dims(4) [OF file_bound(4) [OF assms(1)]] getPointerBlock_def q(1)
        arr_upd_head write_ptrs_block [OF m q(2)])
  moreover have l: "linked ?t ?inode (ds @ [u]) (ps @ [q])"
    using assms(2,3,5) f(3,4) by (intro linked_snoc [OF f(3)]) (auto simp: slot_def ptrs_put_block i32_block_addr)
  have "appended s ?t inode ?inode ds ps u"
    using assms(2) f(1) q(2) by (intro appendedI [OF assms(1) g _ _ _ _ _ _ l]) (auto simp: pointer_blocks_def wf_inode_def in32_def block_addr_def)
  ultimately show ?thesis by blast
qed

lemma append_singly:
  assumes "file_at s inode ds ps" "12 < length ds" "length ds < 268" "u < 8192"
  shows "\<exists>inode' t. allocSingly s inode (block_addr u) junk = Some (inode', t) \<and> appended s t inode inode' ds ps u"
proof -
  have f: "wf_inode inode" "i_blockCount inode = int (length ds)" "linked s inode ds ps" "length ps = 1" "block_accounted s"
    using assms(1-3) by (auto simp: file_at_def pointer_blocks_def)
  note m = file_bound(4) [OF assms(1)]
  have p: "ps ! 0 < 8192" "i_singly inode = block_addr (ps ! 0)" using file_bound(3) [OF assms(1)] f(3,4) assms(2) by (simp_all add: linked_def)
  let ?w = "(ptrs s (ps ! 0))[length ds - 12 := block_addr u]"
  let ?t = "put_block s (ps ! 0) (put32s ?w)"
  have g: "grown s ?t ps []" using grown_put [OF grown_refl [OF f(5)], of "ps ! 0" ps] f(4) by simp
  have "allocSingly s inode (block_addr u) junk = Some (inode, ?t)"
    using f(2) assms(2,3) p by (cases junk) (simp add: allocSingly_def mounted_dims(4) [OF m] read_ptrs_block m arr_upd_def write_ptrs_block
        nat_diff_distrib)
  moreover have l: "linked ?t inode (ds @ [u]) (ps @ [])"
    using assms(2-4) f(3,4) p by (intro linked_snoc [OF f(3)]) (auto simp: slot_def ptrs_put_block map_i32_ptrs nth_list_update)
  have "appended s ?t inode inode ds ps u"
    using assms(2,3) f(1) by (intro appendedI [OF assms(1) g _ _ _ _ _ _ l]) (auto simp: pointer_blocks_def)
  ultimately show ?thesis by blast
qed

lemma append_first_doubly:
  assumes "file_at s inode ds ps" "length ds = 268" "u < 8192" "room s 2" "length w1 = 256" "length w2 = 256"
  shows "\<exists>inode' t. allocDoubly s inode (block_addr u) (w1, w2, w3) = Some (inode', t) \<and> appended s t inode inode' ds ps u"
proof -
  have f: "wf_inode inode" "i_blockCount inode = int (length ds)" "linked s inode ds ps" "length ps = 1" "block_accounted s"
    "owned s (ds @ ps)" using assms(1,2) by (auto simp: file_at_def pointer_blocks_def)
  have r: "room s (Suc (Suc 0))" using assms(4) by (simp add: numeral_2_eq_2)
  obtain q where q: "getAvailBlock s 0 = Some (0, block_addr q, block_took s q)" "q < 8192" "grown s (block_took s q) ps ([] @ [q])"
    using grown_get [OF grown_refl [OF f(5)] r, of 0 ps] by blast
  let ?s = "block_took s q"
  obtain p where p: "getAvailBlock ?s 0 = Some (0, block_addr p, block_took ?s p)" "p < 8192" "grown s (block_took ?s p) ps ([q] @ [p])"
    using grown_get [OF q(3) grown_room [OF _ q(3)], of 0 0] r by auto
  let ?inode = "inode\<lparr>i_doubly := block_addr p\<rparr>" and ?w = "w1[0 := block_addr u]" and ?x = "w2[0 := block_addr q]"
  let ?t = "put_block (put_block (block_took ?s p) q (put32s ?w)) p (put32s ?x)"
  have "grown s ?t ps [q, p]"
    using grown_put [OF grown_put [OF p(3), of q "put32s ?w"], of p "put32s ?x"] assms(5,6) by simp
  then have g: "grown s ?t ps [p, q]" unfolding grown_def by auto
  have m: "mounted (block_took ?s p)" by (rule grown_mounted [OF p(3)])
  have pq: "p \<noteq> q" "ps ! 0 \<noteq> p" "ps ! 0 \<noteq> q" using g f(4,6) by (auto simp: grown_def owned_def)
  have sm: "mounted s" using file_bound(4) [OF assms(1)] .
  have "allocDoubly s inode (block_addr u) (w1, w2, w3) = Some (?inode, ?t)"
    using f assms(2,5,6) by (simp add: allocDoubly_def mounted_dims [OF sm] getPointerBlock_def q(1) p(1)
        arr_upd_head write_ptrs_block [OF m q(2)] write_ptrs_block [of "put_block _ _ _", unfolded ready_put_block, OF m p(2)])
  moreover have l: "linked ?t ?inode (ds @ [u]) (ps @ [p, q])"
  proof (rule linked_snoc [OF f(3)])
    have o: "ptrs ?t (ps ! 0) = ptrs s (ps ! 0)"
      using pq assms(5,6) m by (simp add: ptrs_put_block) (simp add: ptrs_def sm grown_mounted [OF q(3)])
    show "slot ?t ?inode (ps @ [p, q]) i = slot s inode ps i" if "i < length ds" for i
      using that assms(2) f(4) o by (simp add: slot_def nth_append)
    show "slot ?t ?inode (ps @ [p, q]) (length ds) = block_addr u"
      using assms(2,3,5,6) f(4) pq(1) by (simp add: slot_def nth_append ptrs_put_block i32_block_addr)
    show "i_singly ?inode = block_addr ((ps @ [p, q]) ! 0)" using f(3,4) assms(2) by (simp add: linked_def nth_append)
    show "ptrs ?t ((ps @ [p, q]) ! 1) ! j = block_addr ((ps @ [p, q]) ! (2 + j))" if "2 + j < length (ps @ [p, q])" for j
      using that f(4) q(2) assms(6) by (simp add: nth_append ptrs_put_block i32_block_addr)
  qed (use f(4) in \<open>simp_all add: nth_append\<close>)
  have "appended s ?t inode ?inode ds ps u"
    using assms(2) f(1) p(2) by (intro appendedI [OF assms(1) g _ _ _ _ _ _ l]) (auto simp: pointer_blocks_def wf_inode_def in32_def block_addr_def)
  ultimately show ?thesis by blast
qed

lemma append_next_pointer_block:
  assumes "file_at s inode ds ps" "268 < length ds" "(length ds - 268) mod 256 = 0" "u < 8192" "room s 1" "length w1 = 256"
  shows "\<exists>inode' t. allocDoubly s inode (block_addr u) (w1, w2, w3) = Some (inode', t) \<and> appended s t inode inode' ds ps u"
proof -
  let ?k = "(length ds - 268) div 256"
  have k: "length ds = 268 + 256 * ?k" using assms(2,3) div_mult_mod_eq [of "length ds - 268" 256] by linarith
  have b: "length ds \<le> 8192" "mounted s" using file_bound [OF assms(1)] by simp_all
  then have k2: "?k < 256" by linarith
  have f: "wf_inode inode" "i_blockCount inode = int (length ds)" "linked s inode ds ps" "block_accounted s" "owned s (ds @ ps)"
    "length ps = pointer_blocks (length ds)" using assms(1) by (auto simp: file_at_def)
  have lp: "length ps = 2 + ?k" using assms(2,3) f(6) begun_eq [of 256 "length ds - 268"] by (simp add: pointer_blocks_def begun_def)
  have p1: "ps ! 1 < 8192" "i_doubly inode = block_addr (ps ! 1)" "ps ! 1 \<in> set ps"
    using file_bound(3) [OF assms(1)] lp f(3) assms(2) by (simp_all add: linked_def)
  obtain q where q: "getAvailBlock s 0 = Some (0, block_addr q, block_took s q)" "q < 8192" "grown s (block_took s q) ps ([] @ [q])"
    using grown_get [OF grown_refl [OF f(4)], of 0 0 ps] assms(5) by auto
  let ?s = "block_took s q"
  have m: "mounted ?s" by (rule grown_mounted [OF q(3)])
  have pt: "ptrs ?s v = ptrs s v" for v using b(2) by (simp add: ptrs_def)
  let ?w = "w1[0 := block_addr u]" and ?x = "(ptrs s (ps ! 1))[?k := block_addr q]"
  let ?t = "put_block (put_block ?s q (put32s ?w)) (ps ! 1) (put32s ?x)"
  have g: "grown s ?t ps [q]"
    using grown_put [OF grown_put [OF q(3), of q "put32s ?w"], of "ps ! 1" "put32s ?x"] assms(6) p1(3) by simp
  have fresh: "q \<notin> set ps" using g f(5) by (auto simp: grown_def owned_def)
  have old: "ptrs ?t (ps ! j) = ptrs s (ps ! j)" if "j < length ps" "j \<noteq> 1" for j
  proof -
    have "ps ! j \<noteq> ps ! 1" "ps ! j \<noteq> q" using that f(5) fresh lp by (auto simp: owned_def nth_eq_iff_index_eq)
    then show ?thesis using assms(6) by (simp add: ptrs_put_block pt)
  qed
  have e: "cdiv (int (length ds) - 268) 256 = int ?k" "cmod (int (length ds) - 268) 256 = 0"
    using doubly_index [of "length ds"] assms(2,3) by simp_all
  have "allocDoubly s inode (block_addr u) (w1, w2, w3) = Some (inode, ?t)"
    using f(2) assms(2,6) k2 e p1 by (simp add: allocDoubly_def mounted_dims [OF b(2)] getPointerBlock_def q(1) pt
        arr_upd_head read_ptrs_block [OF m] arr_upd_def [of _ "int _"] write_ptrs_block [OF m q(2)]
        write_ptrs_block [of "put_block _ _ _", unfolded ready_put_block, OF m])
  moreover have l: "linked ?t inode (ds @ [u]) (ps @ [q])"
  proof (rule linked_snoc [OF f(3)])
    show "slot ?t inode (ps @ [q]) i = slot s inode ps i" if "i < length ds" for i
    proof -
      have "268 \<le> i \<Longrightarrow> (i - 268) div 256 < ?k" using that k by (simp add: div_less_iff_less_mult)
      then show ?thesis using old lp by (simp add: slot_def nth_append)
    qed
    show "slot ?t inode (ps @ [q]) (length ds) = block_addr u"
      using assms(2,3,4,6) lp fresh p1(3) by (auto simp: slot_def nth_append ptrs_put_block i32_block_addr)
    show "i_singly inode = block_addr ((ps @ [q]) ! 0)" using f(3) lp assms(2) by (simp add: linked_def nth_append)
    show "i_doubly inode = block_addr ((ps @ [q]) ! 1)" using p1(2) lp by (simp add: nth_append)
    show "ptrs ?t ((ps @ [q]) ! 1) ! j = block_addr ((ps @ [q]) ! (2 + j))" if "2 + j < length (ps @ [q])" for j
    proof -
      have "ptrs ?t ((ps @ [q]) ! 1) = ?x" using lp q(2) by (simp add: nth_append ptrs_put_block map_i32_ptrs)
      then show ?thesis using that lp f(3) k2 by (cases "j = ?k") (simp_all add: nth_append linked_def)
    qed
  qed
  have "appended s ?t inode inode ds ps u"
    using assms(2,3) f(1) by (intro appendedI [OF assms(1) g _ _ _ _ _ _ l]) (auto simp: pointer_blocks_Suc)
  ultimately show ?thesis by blast
qed

lemma append_doubly:
  assumes "file_at s inode ds ps" "268 < length ds" "(length ds - 268) mod 256 \<noteq> 0" "u < 8192"
  shows "\<exists>inode' t. allocDoubly s inode (block_addr u) junk = Some (inode', t) \<and> appended s t inode inode' ds ps u"
proof -
  let ?k = "(length ds - 268) div 256" and ?m = "(length ds - 268) mod 256"
  have b: "length ds \<le> 8192" "mounted s" using file_bound [OF assms(1)] by simp_all
  then have k2: "?k < 256" by linarith
  have f: "wf_inode inode" "i_blockCount inode = int (length ds)" "linked s inode ds ps" "block_accounted s" "owned s (ds @ ps)"
    "length ps = pointer_blocks (length ds)" using assms(1) by (auto simp: file_at_def)
  have lp: "length ps = 3 + ?k" using assms(2,3) f(6) begun_eq [of 256 "length ds - 268"] by (simp add: pointer_blocks_def begun_def)
  let ?r = "ps ! (2 + ?k)"
  have p1: "ps ! 1 < 8192" "i_doubly inode = block_addr (ps ! 1)" "?r < 8192" "?r \<in> set ps" "ptrs s (ps ! 1) ! ?k = block_addr ?r"
    using file_bound(3) [OF assms(1)] lp f(3) assms(2) by (simp_all add: linked_def)
  let ?x = "(ptrs s ?r)[?m := block_addr u]"
  let ?t = "put_block s ?r (put32s ?x)"
  have g: "grown s ?t ps []" using grown_put [OF grown_refl [OF f(4)], of ?r ps "put32s ?x"] p1(4) by simp
  have old: "ptrs ?t (ps ! j) = (if j = 2 + ?k then ?x else ptrs s (ps ! j))" if "j < length ps" for j
    using that lp f(5) assms(4) by (simp add: ptrs_put_block map_i32_ptrs owned_def nth_eq_iff_index_eq)
  have e: "cdiv (int (length ds) - 268) 256 = int ?k" "cmod (int (length ds) - 268) 256 = int ?m"
    using doubly_index [of "length ds"] assms(2) by simp_all
  have a: "arr (ptrs s (ps ! 1)) (int ?k) = Some (block_addr ?r)" using k2 p1(5) by (simp add: arr_nth)
  have "allocDoubly s inode (block_addr u) junk = Some (inode, ?t)"
    using f(2) assms(2,3) e p1(1-3) by (cases junk) (simp add: allocDoubly_def mounted_dims [OF b(2)]
        read_ptrs_block [OF b(2)] a [unfolded One_nat_def add_2_eq_Suc] arr_upd_def write_ptrs_block [OF b(2)])
  moreover have l: "linked ?t inode (ds @ [u]) (ps @ [])"
  proof (rule linked_snoc [OF f(3)])
    show "slot ?t inode (ps @ []) i = slot s inode ps i" if "i < length ds" for i
    proof (cases "268 \<le> i")
      case True
      have "(i - 268) div 256 \<le> ?k" using that by (simp add: div_le_mono)
      moreover have "(i - 268) mod 256 \<noteq> ?m" if "(i - 268) div 256 = ?k"
        using that \<open>i < length ds\<close> True by (metis div_mod_decomp diff_less_mono less_irrefl)
      ultimately show ?thesis using True old [of "2 + (i - 268) div 256"] lp
        by (cases "(i - 268) div 256 = ?k") (simp_all add: slot_def)
    next
      case False
      then show ?thesis using old [of 0] lp by (simp add: slot_def)
    qed
    show "slot ?t inode (ps @ []) (length ds) = block_addr u" using assms(2) old [of "2 + ?k"] lp by (simp add: slot_def)
    show "i_singly inode = block_addr ((ps @ []) ! 0)" using f(3) assms(2) by (simp add: linked_def)
    show "ptrs ?t ((ps @ []) ! 1) ! j = block_addr ((ps @ []) ! (2 + j))" if "2 + j < length (ps @ [])" for j
      using that old [of 1] lp f(3) by (simp add: linked_def)
  qed (use p1(2) in simp)
  have "appended s ?t inode inode ds ps u"
    using assms(2,3) f(1) by (intro appendedI [OF assms(1) g _ _ _ _ _ _ l]) (auto simp: pointer_blocks_Suc)
  ultimately show ?thesis by blast
qed

definition changed :: "fs \<Rightarrow> fs \<Rightarrow> int \<Rightarrow> nat set \<Rightarrow> nat list \<Rightarrow> bool" where
  \<comment> \<open>from \<open>s\<close> to \<open>t\<close> the free blocks \<open>us\<close> were taken; of the blocks in use only those of \<open>W\<close>, and of
     the inodes only the one at \<open>off\<close>, may have been written\<close>
  "changed s t off W us \<longleftrightarrow> block_accounted t \<and> block_units t = block_units s
     \<and> block_avail t + int (length us) = block_avail s
     \<and> distinct us \<and> (\<forall>u \<in> set us. u < block_units s \<and> \<not> used (block_bm s) u)
     \<and> (\<forall>k. used (block_bm t) k \<longleftrightarrow> k \<in> set us \<or> used (block_bm s) k)
     \<and> (\<forall>v. used (block_bm s) v \<and> v \<notin> W \<longrightarrow> block_of t v = block_of s v)
     \<and> inode_bm t = inode_bm s
     \<and> (\<forall>off'. inode_offset off' \<and> off' \<noteq> off \<longrightarrow> inode_at (media_of t) off' = inode_at (media_of s) off')"

lemma changed_refl: "block_accounted s \<Longrightarrow> changed s s off W []"
  by (simp add: changed_def)

lemma changed_trans:
  "changed s t off W us \<Longrightarrow> changed t v off (W \<union> set us) vs \<Longrightarrow> changed s v off W (us @ vs)"
  unfolding changed_def by (intro conjI) auto

lemma changed_mono: "changed s t off W us \<Longrightarrow> W \<subseteq> X \<Longrightarrow> changed s t off X us"
  unfolding changed_def by blast

lemma grown_changed: "grown s t ps us \<Longrightarrow> changed s t off (set ps) us"
  unfolding grown_def changed_def by simp

lemma changed_put_block: "block_accounted s \<Longrightarrow> u \<in> W \<Longrightarrow> length bs = 1024 \<Longrightarrow> changed s (put_block s u bs) off W []"
  by (auto simp: changed_def inode_at_put_block)

lemma inode_at_put_inode:
  assumes "inode_offset off" "inode_offset off'" "off' \<noteq> off" "wf_inode inode"
  shows "inode_at (media_of (put_inode s off inode)) off' = inode_at (media_of s) off'"
proof -
  obtain k l where "off = inode_addr k" "off' = inode_addr l" "k \<noteq> l" using assms(1-3) by (auto simp: inode_offset_def)
  then have "nat off = 4096 + 128 * k" "nat off' = 4096 + 128 * l" "k < l \<or> l < k"
    by (auto simp: inode_addr_def nat_add_distrib nat_mult_distrib)
  then show ?thesis using assms(4) by (auto simp: inode_at_def put_inode_def rd_at_blit_disjoint)
qed

lemma changed_put_inode:
  "block_accounted s \<Longrightarrow> inode_offset off \<Longrightarrow> wf_inode inode \<Longrightarrow> changed s (put_inode s off inode) off W []"
  by (simp add: changed_def ready_put_inode put_inode_regions inode_at_put_inode)

lemma write_inode:
  "inode_offset off \<Longrightarrow> wf_inode inode \<Longrightarrow> write_disk (media_of s) (enc_inode inode) INODE_SIZE 1 off = Some (media_of (put_inode s off inode))"
  by (auto simp: inode_offset_def inode_addr_def write_disk_eq INODE_SIZE_def put_inode_def)

lemma append_pointer:
  assumes "file_at s inode ds ps" "u < 8192" "room s (pointer_blocks (Suc (length ds)) - pointer_blocks (length ds))"
    "length w1 = 256" "length w2 = 256"
  shows "\<exists>inode' t. (if length ds < 268 then allocSingly s inode (block_addr u) (w1, w2, w3) else allocDoubly s inode (block_addr u) (w1, w2, w3))
     = Some (inode', t) \<and> appended s t inode inode' ds ps u"
proof -
  consider "length ds < 12" | "length ds = 12" | "12 < length ds" "length ds < 268" | "length ds = 268"
    | "268 < length ds" "(length ds - 268) mod 256 = 0" | "268 < length ds" "(length ds - 268) mod 256 \<noteq> 0" by linarith
  then show ?thesis
  proof cases
    case 1
    then show ?thesis using append_direct [OF assms(1) 1 assms(2)] by simp
  next
    case 2
    then show ?thesis using append_first_singly [OF assms(1) 2 assms(2) _ assms(4)] assms(3) by (simp add: pointer_blocks_def)
  next
    case 3
    then show ?thesis using append_singly [OF assms(1) 3 assms(2)] by simp
  next
    case 4
    then show ?thesis using append_first_doubly [OF assms(1) 4 assms(2) _ assms(4,5)] assms(3) by (simp add: pointer_blocks_def)
  next
    case 5
    then show ?thesis using append_next_pointer_block [OF assms(1) 5 assms(2) _ assms(4)] assms(3) by (simp add: pointer_blocks_Suc)
  next
    case 6
    then show ?thesis using append_doubly [OF assms(1) 6 assms(2)] by simp
  qed
qed

lemma allocLastBlock_file:
  assumes "file_at s inode ds ps" "u < block_units s" "u \<notin> set (ds @ ps)" "used (block_bm s) u"
    "room s (pointer_blocks (Suc (length ds)) - pointer_blocks (length ds))" "inode_offset off" "length w1 = 256" "length w2 = 256"
  shows "\<exists>inode' t us. allocLastBlock s inode off (block_addr u) (w1, w2, w3) = Some (0, inode', t)
    \<and> file_at t inode' (ds @ [u]) (ps @ us) \<and> changed s t off (set ps) us \<and> inode_at (media_of t) off = inode'
    \<and> i_size inode' = i_size inode \<and> i_type inode' = i_type inode \<and> i_linkCount inode' = i_linkCount inode"
proof -
  have f: "block_accounted s" "i_blockCount inode = int (length ds)" "owned s (ds @ ps)" using assms(1) by (auto simp: file_at_def)
  note b = file_bound [OF assms(1)]
  have u: "u < 8192" using assms(2) units_bound [OF f(1)] by simp
  obtain inode1 t1 where a: "(if length ds < 268 then allocSingly s inode (block_addr u) (w1, w2, w3) else allocDoubly s inode (block_addr u) (w1, w2, w3))
     = Some (inode1, t1)" "appended s t1 inode inode1 ds ps u"
    using append_pointer [OF assms(1) u assms(5,7,8)] by blast
  obtain us where us: "grown s t1 ps us" "length (ps @ us) = pointer_blocks (Suc (length ds))" "linked t1 inode1 (ds @ [u]) (ps @ us)"
    "wf_inode inode1" "i_blockCount inode1 = i_blockCount inode" "i_size inode1 = i_size inode" "i_type inode1 = i_type inode"
    "i_linkCount inode1 = i_linkCount inode" using a(2) unfolding appended_def by blast
  let ?inode = "inode1\<lparr>i_blockCount := int (length ds) + 1\<rparr>"
  let ?t = "put_inode t1 off ?inode"
  have wf: "wf_inode ?inode" using us(4) b(1) by (simp add: wf_inode_def in32_def)
  have acc: "block_accounted t1" using us(1) by (simp add: grown_def)
  have "i32 (int (length ds) + 1) = int (length ds) + 1" using b(1) by (simp add: i32_id in32_def)
  then have al: "allocLastBlock s inode off (block_addr u) (w1, w2, w3) = Some (0, ?inode, ?t)"
    using a(1) f(2) b(1) write_inode [OF assms(6) wf, of t1]
    by (simp add: allocLastBlock_def mounted_dims [OF b(4)] put_inode_def Let_def split: if_splits)
  have ch: "changed s ?t off (set ps) us"
    using changed_trans [OF grown_changed [OF us(1)] changed_put_inode [OF acc assms(6) wf]] by simp
  have "owned ?t (ds @ [u] @ ps @ us)"
    using f(3) assms(2-4) ch by (auto simp: owned_def changed_def)
  moreover have "linked ?t ?inode (ds @ [u]) (ps @ us)"
    using us(3) by (simp add: linked_def ptrs_def put_inode_regions [OF assms(6) wf])
  ultimately have "file_at ?t ?inode (ds @ [u]) (ps @ us)"
    using us(2) wf ready_put_inode(5) [OF assms(6) wf] acc by (simp add: file_at_def)
  then show ?thesis using al ch us(6-8) put_inode_regions(4) [OF assms(6) wf]
    by (intro exI [of _ ?inode] exI [of _ ?t] exI [of _ us]) simp
qed

definition junk_ok :: "junk \<Rightarrow> bool" where
  \<comment> \<open>the three arrays on the stack have the length of a block\<close>
  "junk_ok junk \<longleftrightarrow> (case junk of (w1, w2, w3) \<Rightarrow> length w1 = 256 \<and> length w2 = 256 \<and> length w3 = 256)"

lemma allocBlock_file:
  assumes "file_at s inode ds ps" "room s (Suc (pointer_blocks (Suc (length ds)) - pointer_blocks (length ds)))" "inode_offset off" "junk_ok junk"
  shows "\<exists>inode' t u us. allocBlock s inode off junk = Some (0, inode', t)
    \<and> file_at t inode' (ds @ [u]) (ps @ us) \<and> changed s t off (set ps) (u # us) \<and> inode_at (media_of t) off = inode'
    \<and> i_size inode' = i_size inode \<and> i_type inode' = i_type inode \<and> i_linkCount inode' = i_linkCount inode"
proof -
  have f: "block_accounted s" "i_blockCount inode = int (length ds)" "owned s (ds @ ps)" using assms(1) by (auto simp: file_at_def)
  note b = file_bound [OF assms(1)]
  obtain w1 w2 w3 where w: "junk = (w1, w2, w3)" "length w1 = 256" "length w2 = 256" using assms(4) by (cases junk) (auto simp: junk_ok_def)
  let ?k = "pointer_blocks (Suc (length ds)) - pointer_blocks (length ds)"
  have need: "calNeededPointerBlocks (sBlock s) (i_blockCount inode) = int ?k"
    using needed_mounted [OF b(4)] b(1) f(2) by (simp add: pointer_blocks_Suc)
  obtain u where u: "getAvailBlock s 0 = Some (0, block_addr u, block_took s u)" "u < 8192" "grown s (block_took s u) ps ([] @ [u])"
    using grown_get [OF grown_refl [OF f(1)] assms(2)] by blast
  let ?s = "block_took s u"
  have r: "room ?s ?k" using grown_room [OF _ u(3)] assms(2) by simp
  have us: "u < block_units s" "u < block_units ?s" "\<not> used (block_bm s) u" "used (block_bm ?s) u" using u(3) by (auto simp: grown_def)
  then have "u \<notin> set (ds @ ps)" using f(3) by (auto simp: owned_def)
  moreover have "file_at ?s inode ds ps"
    using u(3) b(4) by (intro file_at_frame [OF assms(1)]) (auto simp: grown_def)
  ultimately obtain inode' t us' where al: "allocLastBlock ?s inode off (block_addr u) (w1, w2, w3) = Some (0, inode', t)"
    "file_at t inode' (ds @ [u]) (ps @ us')" "changed ?s t off (set ps) us'" "inode_at (media_of t) off = inode'"
    "i_size inode' = i_size inode" "i_type inode' = i_type inode" "i_linkCount inode' = i_linkCount inode"
    using allocLastBlock_file [OF _ us(2) _ us(4) r assms(3) w(2,3)] by blast
  have "allocBlock s inode off junk = Some (0, inode', t)"
    using assms(2) by (simp add: allocBlock_def need u(1) w(1) al(1) room_def block_avail_def)
  moreover have "changed s t off (set ps) ([u] @ us')"
    using changed_trans [OF grown_changed [OF u(3)] changed_mono [OF al(3), of "set ps \<union> set ([] @ [u])"]] by auto
  ultimately show ?thesis using al by auto
qed


definition sample_inode :: Inode where
  \<comment> \<open>a file of one block, block 0\<close>
  "sample_inode = \<lparr>i_type = 1, i_linkCount = 1, i_blockCount = 1, i_size = 1000, i_pointer = 2056 # replicate 11 0, i_singly = 0,
     i_doubly = 0, i_triply = 0, i_pad = replicate 56 0\<rparr>"

definition sample_disk :: fs where
  \<comment> \<open>a disk of 8196 sectors, 3070 blocks, the first of them in use\<close>
  "sample_disk = block_took (fs_with 8196 3070 []) 0"

lemma sample_disk_grown: "grown (fs_with 8196 3070 []) sample_disk [] [0]" "block_avail sample_disk = 3069" "block_units sample_disk = 3070"
proof -
  let ?s = "fs_with 8196 3070 []"
  have acc: "block_accounted ?s" using fresh_accounted(1) [of 8196] by (simp add: blocks_one_def)
  have r: "room ?s (Suc 0)" using acc by (simp add: room_def fs_with_pool blocks_one_def)
  obtain u where u: "getAvailBlock ?s 0 = Some (0, block_addr u, block_took ?s u)" "grown ?s (block_took ?s u) [] ([] @ [u])"
    using grown_get [OF grown_refl [OF acc] r] by blast
  have "getAvailBlock ?s 0 = Some (0, block_addr 0, block_took ?s 0)"
    using acc by (intro get_block_found) (simp_all add: block_accounted_def fs_with_pool)
  then have "u = 0" using u(1) by (simp add: addr_inj)
  then show "grown ?s sample_disk [] [0]" using u(2) by (simp add: sample_disk_def)
  then show "block_avail sample_disk = 3069" "block_units sample_disk = 3070"
    by (auto simp: grown_def fs_with_pool blocks_one_def)
qed

lemma sample_file: "file_at sample_disk sample_inode [0] []" "room sample_disk 1"
proof -
  note g = sample_disk_grown [unfolded grown_def]
  have "wf_inode sample_inode" by (simp add: wf_inode_def sample_inode_def in16_def in32_def list_all_iff)
  moreover have "linked sample_disk sample_inode [0] []" by (simp add: linked_def sample_inode_def block_addr_def)
  moreover have "owned sample_disk [0]" using g by (auto simp: owned_def)
  ultimately show "file_at sample_disk sample_inode [0] []"
    using g by (auto simp: file_at_def pointer_blocks_def) (simp add: sample_inode_def)
  show "room sample_disk 1" using g by (auto simp: room_def)
qed

definition sample_junk :: junk where
  "sample_junk = (replicate 256 7, replicate 256 7, replicate 256 7)"

lemma sample_junk_ok: "junk_ok sample_junk" "inode_offset (inode_addr 5)"
  by (auto simp: junk_ok_def sample_junk_def inode_offset_def intro: exI [of _ 5])


end
