(* ===== verification/Content.thy ===== *)
theory Content
  imports Files Blockmap
begin

text \<open>
  The contents of a file. Over the block array of theory \<open>Blockmap\<close> the bytes of a file are the
  first \<^verbatim>\<open>size\<close> bytes of its blocks; the loops of \<^verbatim>\<open>syscall_readfile\<close> and \<^verbatim>\<open>syscall_writefile\<close> (\<^verbatim>\<open>fs.c\<close>), which
  cut a transfer at block boundaries and append blocks as they go, read and replace a range of them.
\<close>

subsection \<open>Bytes and blocks\<close>

definition content :: "fs \<Rightarrow> nat list \<Rightarrow> byte list" where
  "content s ds = concat (map (block_of s) ds)"

definition file_bytes :: "fs \<Rightarrow> Inode \<Rightarrow> nat list \<Rightarrow> byte list" where
  "file_bytes s inode ds = take (nat (i_size inode)) (content s ds)"

lemma length_blocks_content [simp]: "length (content s ds) = 1024 * length ds"
  by (induction ds) (simp_all add: content_def)

lemma content_nth: "j < 1024 * length ds \<Longrightarrow> content s ds ! j = block_of s (ds ! (j div 1024)) ! (j mod 1024)"
proof (induction ds arbitrary: j)
  case (Cons d ds)
  show ?case
  proof (cases "j < 1024")
    case True
    then show ?thesis by (simp add: content_def nth_append)
  next
    case False
    then have "j div 1024 = Suc ((j - 1024) div 1024)" "j mod 1024 = (j - 1024) mod 1024"
      by (simp_all add: le_div_geq le_mod_geq)
    then show ?thesis using False Cons.IH [of "j - 1024"] Cons.prems by (simp add: content_def nth_append)
  qed
qed simp

lemma content_chunk:
  assumes "q < length ds" "m + n \<le> 1024"
  shows "take n (drop (1024 * q + m) (content s ds)) = take n (drop m (block_of s (ds ! q)))"
proof (rule nth_equalityI)
  have "1024 * q + 1024 \<le> 1024 * length ds" using assms(1) by simp
  then show "length (take n (drop (1024 * q + m) (content s ds))) = length (take n (drop m (block_of s (ds ! q))))"
    using assms by simp
  fix i
  assume "i < length (take n (drop (1024 * q + m) (content s ds)))"
  then have i: "i < n" "m + i < 1024" "1024 * q + m + i < 1024 * length ds" using assms by auto
  then have "(1024 * q + m + i) div 1024 = q" "(1024 * q + m + i) mod 1024 = m + i" by (simp_all add: add.assoc)
  then show "take n (drop (1024 * q + m) (content s ds)) ! i = take n (drop m (block_of s (ds ! q))) ! i"
    using i content_nth [of "1024 * q + m + i" ds s] by simp
qed

subsection \<open>Reading\<close>

lemma memcpy_nat:
  assumes "d + n \<le> length dst" "so + n \<le> length src"
  shows "memcpy dst (int d) src (int so) (int n) = Some (take d dst @ take n (drop so src) @ drop (d + n) dst)"
  using assms by (simp add: memcpy_def nat_add_distrib)

lemma min3_nat: "min3 (int a) (int b) (int c) = int (min a (min b c))"
  by (auto simp: min3_def)

lemma readfile_loop_spec:
  assumes "file_at s inode ds ps" "i_size inode = int z" "z \<le> 1024 * length ds"
    "1024 * q + m = off" "m < 1024" "f_offset fcb = int off" "r \<le> len" "len \<le> length dst" "off + (len - r) < 2147483648"
  shows "readfile_loop s inode fcb dst (int len) (int r) (int q) (int m) buf
    = (let k = min (len - r) (z - off) in
       Some (int (r + k), fcb\<lparr>f_offset := int (off + k)\<rparr>, take r dst @ take k (drop off (content s ds)) @ drop (r + k) dst))"
  using assms(4-)
proof (induction "len - r" arbitrary: q m off fcb r dst buf rule: less_induct)
  case less
  show ?case
  proof (cases "r < len \<and> off < z")
    case False
    then have "min (len - r) (z - off) = 0" by (auto simp: min_def)
    then show ?thesis using False less.prems(3) assms(2)
      by (subst readfile_loop.simps) auto
  next
    case True
    have bs: "sb_blockSize (sBlock s) = 1024" using mounted_dims(8) [OF file_bound(4) [OF assms(1)]] .
    have q: "q < length ds" using True less.prems(1) assms(3) by linarith
    define n where "n = min (1024 - m) (min (z - off) (len - r))"
    have n: "0 < n" "m + n \<le> 1024" "off + n \<le> z" "r + n \<le> len" using True less.prems(2) by (auto simp: n_def)
    let ?X = "take n (drop off (content s ds))" and ?k = "min (len - r) (z - off)"
    have X: "take n (drop m (block_of s (ds ! q))) = ?X" using content_chunk [OF q n(2), of s] less.prems(1) by simp
    have lX: "length ?X = n" using n(3) assms(3) by simp
    have a: "min3 (1024 - int m) (int z - int off) (int len - int r) = int n"
      using min3_nat [of "1024 - m" "z - off" "len - r"] True less.prems(2) by (simp add: n_def of_nat_diff)
    have b: "memcpy dst (int r) (block_of s (ds ! q)) (int m) (int n) = Some (take r dst @ ?X @ drop (r + n) dst)"
      using memcpy_nat [of r n dst m "block_of s (ds ! q)"] n less.prems(5) X by simp
    have c: "i32 (int off + int n) = int (off + n)" using n(4) less.prems(6) by (simp add: i32_id in32_def)
    let ?dst = "take r dst @ ?X @ drop (r + n) dst" and ?fcb = "fcb\<lparr>f_offset := int (off + n)\<rparr>"
    let ?next = "readfile_loop s inode ?fcb ?dst (int len) (int (r + n)) (int (Suc q)) (int 0) (block_of s (ds ! q))"
    have g: "int len > int r \<and> int off < int z" using True by simp
    have e: "int q + 1 = int (Suc q)" "int r + int n = int (r + n)" by simp_all
    have step: "readfile_loop s inode fcb dst (int len) (int r) (int q) (int m) buf = ?next"
      by (subst readfile_loop.simps, simp only: assms(2) bs less.prems(3) g simp_thms if_True readBlock_file [OF assms(1) q] bind.simps
          prod.case Let_def a b c e) simp
    have w: "take r ?dst = take r dst" "take (r + n) ?dst = take r dst @ ?X" "drop (r + n + j) ?dst = drop (r + n + j) dst" for j
      using lX n(4) less.prems(5) by (simp_all add: ac_simps)
    show ?thesis
    proof (cases "r + n < len \<and> off + n < z")
      case False
      then have k: "n = ?k" using n by (auto simp: min_def)
      have "?next = Some (int (r + n), ?fcb, ?dst)"
        using False by (subst readfile_loop.simps) (auto simp: assms(2))
      then show ?thesis unfolding step by (simp only: Let_def k [symmetric])
    next
      case True
      then have "n = 1024 - m" by (auto simp: n_def min_def split: if_splits)
      then have "1024 * Suc q + 0 = off + n" using less.prems(1,2) by simp
      moreover have "len - (r + n) < len - r" using n True by linarith
      ultimately have nx: "?next = (let k = min (len - (r + n)) (z - (off + n)) in
         Some (int (r + n + k), ?fcb\<lparr>f_offset := int (off + n + k)\<rparr>,
           take (r + n) ?dst @ take k (drop (off + n) (content s ds)) @ drop (r + n + k) ?dst))"
        using n(4) less.prems(5,6) lX True by (intro less.hyps) simp_all
      have k: "min (len - (r + n)) (z - (off + n)) = ?k - n" "n \<le> ?k" using n by (auto simp: min_def)
      have e: "r + n + (?k - n) = r + ?k" "off + n + (?k - n) = off + ?k" using k(2) by simp_all
      have t: "take ?k (drop off (content s ds)) = ?X @ take (?k - n) (drop (off + n) (content s ds))"
        using k(2) by (metis add.commute drop_drop le_add_diff_inverse take_add)
      have f: "?fcb\<lparr>f_offset := x\<rparr> = fcb\<lparr>f_offset := x\<rparr>" for x by simp
      show ?thesis unfolding step nx Let_def k(1) w(2) w(3) t append_assoc f e ..
    qed
  qed
qed

subsection \<open>Writing\<close>

definition written :: "byte list \<Rightarrow> byte list \<Rightarrow> nat \<Rightarrow> byte list \<Rightarrow> bool" where
  \<comment> \<open>\<open>c'\<close> is \<open>c\<close> with \<open>bs\<close> stored at \<open>off\<close>, perhaps longer\<close>
  "written c c' off bs \<longleftrightarrow> length c \<le> length c' \<and> off + length bs \<le> length c'
     \<and> (\<forall>j. off \<le> j \<and> j < off + length bs \<longrightarrow> c' ! j = bs ! (j - off))
     \<and> (\<forall>j < length c. \<not> (off \<le> j \<and> j < off + length bs) \<longrightarrow> c' ! j = c ! j)"

lemma written_trans:
  assumes "written c d off xs" "written d e (off + length xs) ys"
  shows "written c e off (xs @ ys)"
  unfolding written_def
proof (intro conjI allI impI)
  show "length c \<le> length e" "off + length (xs @ ys) \<le> length e" using assms by (auto simp: written_def)
  show "e ! j = (xs @ ys) ! (j - off)" if "off \<le> j \<and> j < off + length (xs @ ys)" for j
    using assms that by (cases "j < off + length xs") (auto simp: written_def nth_append)
  show "e ! j = c ! j" if "j < length c" "\<not> (off \<le> j \<and> j < off + length (xs @ ys))" for j
    using assms that by (auto simp: written_def)
qed

lemma written_file:
  assumes "written c c' off bs" "off \<le> z" "z \<le> length c"
  shows "take (max z (off + length bs)) c' = take off (take z c) @ bs @ drop (off + length bs) (take z c)"
proof (rule nth_equalityI)
  have l: "length c \<le> length c'" "off + length bs \<le> length c'" using assms(1) by (auto simp: written_def)
  then show "length (take (max z (off + length bs)) c') = length (take off (take z c) @ bs @ drop (off + length bs) (take z c))"
    using assms by auto
  fix j
  assume "j < length (take (max z (off + length bs)) c')"
  then have j: "j < max z (off + length bs)" by simp
  have lo: "length (take off (take z c)) = off" using assms(2,3) by simp
  consider "j < off" | "off \<le> j" "j < off + length bs" | "off + length bs \<le> j" by linarith
  then show "take (max z (off + length bs)) c' ! j = (take off (take z c) @ bs @ drop (off + length bs) (take z c)) ! j"
    using assms j lo by cases (auto simp: written_def nth_append)
qed

lemma file_at_size:
  assumes "file_at s inode ds ps" "in32 z"
  shows "file_at s (inode\<lparr>i_size := z\<rparr>) ds ps"
proof -
  have "wf_inode inode" using assms(1) by (simp add: file_at_def)
  then have "wf_inode (inode\<lparr>i_size := z\<rparr>)" using assms(2) by (simp add: wf_inode_def)
  then show ?thesis using assms(1) by (simp add: file_at_def linked_def)
qed

lemma written_put:
  assumes "file_at s inode ds ps" "q < length ds" "m + length xs \<le> 1024"
  shows "written (content s ds)
    (content (put_block s (ds ! q) (take m (block_of s (ds ! q)) @ xs @ drop (m + length xs) (block_of s (ds ! q)))) ds) (1024 * q + m) xs"
    (is "written _ (content ?t ds) _ _")
proof -
  let ?B = "block_of s (ds ! q)"
  let ?C = "take m ?B @ xs @ drop (m + length xs) ?B"
  have lC: "length ?C = 1024" using assms(3) by simp
  have d: "distinct ds" using assms(1) by (simp add: file_at_def owned_def)
  have n: "content ?t ds ! j = (if j div 1024 = q then ?C ! (j mod 1024) else content s ds ! j)" if "j < 1024 * length ds" for j
  proof -
    have "j div 1024 < length ds" using that by (simp add: less_mult_imp_div_less mult.commute)
    then show ?thesis using that d assms(2) lC by (simp add: content_nth nth_eq_iff_index_eq)
  qed
  have q: "1024 * q + 1024 \<le> 1024 * length ds" using assms(2) by simp
  show ?thesis
    unfolding written_def
  proof (intro conjI allI impI)
    show "content ?t ds ! j = xs ! (j - (1024 * q + m))" if "1024 * q + m \<le> j \<and> j < 1024 * q + m + length xs" for j
    proof -
      define i where "i = j - (1024 * q + m)"
      have i: "j = 1024 * q + (m + i)" "i < length xs" using that by (auto simp: i_def)
      have "m + i < 1024" using i(2) assms(3) by simp
      then have "j div 1024 = q" "j mod 1024 = m + i" using i(1) by simp_all
      then have "content ?t ds ! j = ?C ! (m + i)" using i q assms(3) n [of j] by simp
      also have "\<dots> = xs ! i" using i(2) assms(3) by (simp add: nth_append)
      finally show ?thesis by (simp add: i_def)
    qed
    show "content ?t ds ! j = content s ds ! j"
      if "j < length (content s ds)" "\<not> (1024 * q + m \<le> j \<and> j < 1024 * q + m + length xs)" for j
    proof (cases "j div 1024 = q")
      case True
      then have "j mod 1024 < 1024" "j = 1024 * q + j mod 1024" by auto
      then have "?C ! (j mod 1024) = ?B ! (j mod 1024)" using that(2) assms(3) by (auto simp: nth_append)
      then show ?thesis using that True n [of j] content_nth [of j ds s] by simp
    next
      case False
      then show ?thesis using that n [of j] by simp
    qed
  qed (use q assms(3) in simp_all)
qed

lemma content_same:
  "(\<And>u. u \<in> set ds \<Longrightarrow> block_of t u = block_of s u) \<Longrightarrow> content t ds = content s ds"
  by (simp add: content_def cong: map_cong)

definition need :: "nat \<Rightarrow> nat \<Rightarrow> nat" where
  \<comment> \<open>blocks to take for a file to grow from \<open>n\<close> to \<open>N\<close> blocks\<close>
  "need n N = (N - n) + (pointer_blocks N - pointer_blocks n)"

lemma pointer_blocks_mono: "n \<le> N \<Longrightarrow> pointer_blocks n \<le> pointer_blocks N"
  by (induction rule: dec_induct) (simp_all add: pointer_blocks_Suc)

lemma need_Suc:
  assumes "n < N"
  shows "need n N = Suc (pointer_blocks (Suc n) - pointer_blocks n) + need (Suc n) N"
  using assms pointer_blocks_mono [of "Suc n" N] pointer_blocks_mono [of n "Suc n"] by (simp add: need_def)

lemma room_mono: "room s k \<Longrightarrow> l \<le> k \<Longrightarrow> room s l"
  by (auto simp: room_def)

lemma changed_room: "room s (k + length us) \<Longrightarrow> changed s t off W us \<Longrightarrow> room t k"
  by (auto simp: room_def changed_def)

definition grows :: "fs \<Rightarrow> fs \<Rightarrow> int \<Rightarrow> Inode \<Rightarrow> nat list \<Rightarrow> nat list \<Rightarrow> nat list \<Rightarrow> nat list \<Rightarrow> bool" where
  \<comment> \<open>the file of \<open>ds\<close> and \<open>ps\<close> became the file of \<open>ds'\<close> and \<open>ps'\<close>, which start the same; nothing else changed\<close>
  "grows s t off inode' ds ps ds' ps' \<longleftrightarrow> file_at t inode' ds' ps' \<and> take (length ds) ds' = ds
     \<and> (\<exists>us. changed s t off (set ds \<union> set ps) us \<and> set ds' \<union> set ps' = set ds \<union> set ps \<union> set us
          \<and> length us = need (length ds) (length ds'))"

lemma grows_trans:
  assumes "grows s t off inode ds ps ds' ps'" "grows t v off inode' ds' ps' ds'' ps''" "length ds \<le> length ds'" "length ds' \<le> length ds''"
  shows "grows s v off inode' ds ps ds'' ps''"
proof -
  obtain us where us: "changed s t off (set ds \<union> set ps) us" "set ds' \<union> set ps' = set ds \<union> set ps \<union> set us"
    "length us = need (length ds) (length ds')" using assms(1) unfolding grows_def by blast
  obtain vs where vs: "changed t v off (set ds' \<union> set ps') vs" "set ds'' \<union> set ps'' = set ds' \<union> set ps' \<union> set vs"
    "length vs = need (length ds') (length ds'')" using assms(2) unfolding grows_def by blast
  have "take (length ds) ds'' = ds" using assms by (metis grows_def min_def take_take)
  moreover have "changed s v off (set ds \<union> set ps) (us @ vs)" using changed_trans [OF us(1)] vs(1) us(2) by simp
  moreover have "length (us @ vs) = need (length ds) (length ds'')"
    using us(3) vs(3) assms(3,4) pointer_blocks_mono [of "length ds" "length ds'"] pointer_blocks_mono [of "length ds'" "length ds''"]
    by (simp add: need_def)
  ultimately show ?thesis using assms(2) us(2) vs(2) unfolding grows_def by (intro conjI exI [of _ "us @ vs"]) auto
qed

lemma grows_room:
  assumes "grows s t off inode' ds ps ds' ps'" "room s (need (length ds) N)" "length ds \<le> length ds'" "length ds' \<le> N"
  shows "room t (need (length ds') N)"
proof -
  obtain us where us: "changed s t off (set ds \<union> set ps) us" "length us = need (length ds) (length ds')"
    using assms(1) unfolding grows_def by blast
  have "need (length ds) N = need (length ds') N + length us"
    using us(2) assms(3,4) pointer_blocks_mono [of "length ds" "length ds'"] pointer_blocks_mono [of "length ds'" N] by (simp add: need_def)
  then show ?thesis using changed_room [OF _ us(1)] assms(2) by simp
qed

lemma grow_to:
  \<comment> \<open>the block that is about to be written exists\<close>
  assumes "file_at s inode ds ps" "q \<le> length ds" "inode_offset off" "junk_ok junk" "room s (need (length ds) (max (length ds) (Suc q)))"
  shows "\<exists>inode' t ds' ps'. (if int q \<ge> i_blockCount inode then allocBlock s inode off junk else Some (0, inode, s)) = Some (0, inode', t)
    \<and> grows s t off inode' ds ps ds' ps' \<and> length ds' = max (length ds) (Suc q) \<and> i_size inode' = i_size inode
    \<and> i_type inode' = i_type inode \<and> i_linkCount inode' = i_linkCount inode \<and> content t ds = content s ds"
proof (cases "q < length ds")
  case True
  have "grows s s off inode ds ps ds ps" using assms(1) changed_refl [of s off]
    by (auto simp: grows_def file_at_def need_def intro!: exI [of _ "[]"])
  then show ?thesis using True assms(1) by (intro exI [of _ inode] exI [of _ s] exI [of _ ds] exI [of _ ps]) (simp add: file_at_def max_def)
next
  case False
  then have q: "q = length ds" using assms(2) by simp
  have r: "room s (Suc (pointer_blocks (Suc (length ds)) - pointer_blocks (length ds)))"
    using assms(5) unfolding q by (simp add: need_def max_def)
  obtain inode' t u us where t: "allocBlock s inode off junk = Some (0, inode', t)" "file_at t inode' (ds @ [u]) (ps @ us)"
    "changed s t off (set ps) (u # us)" "i_size inode' = i_size inode" "i_type inode' = i_type inode" "i_linkCount inode' = i_linkCount inode"
    using allocBlock_file [OF assms(1) r assms(3,4)] by blast
  have "length us = pointer_blocks (Suc (length ds)) - pointer_blocks (length ds)" using t(2) assms(1) by (auto simp: file_at_def)
  then have "grows s t off inode' ds ps (ds @ [u]) (ps @ us)"
    using t(2) changed_mono [OF t(3), of "set ds \<union> set ps"]
    by (auto simp: grows_def need_def intro!: exI [of _ "u # us"])
  moreover have "content t ds = content s ds"
  proof (rule content_same)
    fix v assume "v \<in> set ds"
    then have "used (block_bm s) v" "v \<notin> set ps" using assms(1) by (auto simp: file_at_def owned_def)
    then show "block_of t v = block_of s v" using t(3) by (auto simp: changed_def)
  qed
  ultimately show ?thesis using t assms(1) q
    by (intro exI [of _ inode'] exI [of _ t] exI [of _ "ds @ [u]"] exI [of _ "ps @ us"]) (simp add: file_at_def max_def)
qed

lemma written_grow:
  assumes "content t ds = content s ds" "take (length ds) ds' = ds" "off \<le> 1024 * length ds'" "length ds \<le> length ds'"
  shows "written (content s ds) (content t ds') off []"
proof -
  have "ds' = ds @ drop (length ds) ds'" using assms(2) by (metis append_take_drop_id)
  then have "content t ds' = content s ds @ content t (drop (length ds) ds')" using assms(1) by (metis content_def concat_append map_append)
  then show ?thesis using assms(3,4) by (auto simp: written_def nth_append)
qed

lemma grows_put:
  assumes "file_at s inode ds ps" "q < length ds" "length bs = 1024" "in32 z"
  shows "grows s (put_block s (ds ! q) bs) off (inode\<lparr>i_size := z\<rparr>) ds ps ds ps"
proof -
  have "changed s (put_block s (ds ! q) bs) off (set ds \<union> set ps) []"
    using assms by (intro changed_put_block) (auto simp: file_at_def)
  then show ?thesis using file_at_size [OF file_at_put_data(1) [OF assms(1-3)] assms(4)]
    by (auto simp: grows_def need_def intro!: exI [of _ "[]"])
qed

lemma writefile_step:
  assumes "file_at s inode ds ps" "1024 * q + m = off" "m < 1024" "q \<le> length ds" "f_offset fcb = int off"
    "inode_offset (f_inodeOffset fcb)" "\<And>k. junk_ok (st_words st k)" "w < len" "len \<le> length src" "off + (len - w) < 2147483648"
    "i_size inode = int z" "room s (need (length ds) (max (length ds) (Suc q)))" "n = min (1024 - m) (len - w)"
  shows "\<exists>t inode' ds' ps' buf'. writefile_loop s st inode fcb src (int len) (int w) (int q) (int m) buf
      = writefile_loop t st inode' (fcb\<lparr>f_offset := int (off + n)\<rparr>) src (int len) (int (w + n)) (int (Suc q)) (int 0) buf'
    \<and> grows s t (f_inodeOffset fcb) inode' ds ps ds' ps' \<and> length ds' = max (length ds) (Suc q) \<and> i_size inode' = int (max z (off + n))
    \<and> i_type inode' = i_type inode \<and> i_linkCount inode' = i_linkCount inode
    \<and> written (content s ds) (content t ds') off (take n (drop w src))"
proof -
  obtain inode1 t1 ds' ps' where a: "(if int q \<ge> i_blockCount inode then allocBlock s inode (f_inodeOffset fcb) (st_words st (int w))
      else Some (0, inode, s)) = Some (0, inode1, t1)"
    "grows s t1 (f_inodeOffset fcb) inode1 ds ps ds' ps'" "length ds' = max (length ds) (Suc q)" "i_size inode1 = i_size inode"
    "i_type inode1 = i_type inode" "i_linkCount inode1 = i_linkCount inode" "content t1 ds = content s ds"
    using grow_to [OF assms(1,4,6) assms(7) assms(12)] by blast
  have f: "file_at t1 inode1 ds' ps'" "take (length ds) ds' = ds" using a(2) by (simp_all add: grows_def)
  have q: "q < length ds'" using a(3) by simp
  have bs: "sb_blockSize (sBlock t1) = 1024" using mounted_dims(8) [OF file_bound(4) [OF f(1)]] .
  let ?B = "block_of t1 (ds' ! q)" and ?X = "take n (drop w src)"
  have n: "m + n \<le> 1024" "w + n \<le> len" "off + n < 2147483648" using assms(3,8,10,13) by auto
  have lX: "length ?X = n" using n(2) assms(9) by simp
  let ?C = "take m ?B @ ?X @ drop (m + n) ?B"
  have lC: "length ?C = 1024" using lX n(1) by simp
  let ?t = "put_block t1 (ds' ! q) ?C" and ?inode = "inode1\<lparr>i_size := int (max z (off + n))\<rparr>" and ?fcb = "fcb\<lparr>f_offset := int (off + n)\<rparr>"
  have z: "in32 (int (max z (off + n)))" using assms(1,11) n(3) by (auto simp: file_at_def wf_inode_def in32_def)
  have e1: "(if 1024 - int m < int len - int w then 1024 - int m else int len - int w) = int n"
    using assms(3,8,13) by (auto simp: min_def)
  have e2: "memcpy ?B (int m) src (int w) (int n) = Some ?C"
    using memcpy_nat [of m n ?B w src] n assms(9) by simp
  have e3: "i32 (int off + int n) = int (off + n)" using n(3) by (simp add: i32_id in32_def)
  have e4: "(if i_size inode1 > int (off + n) then i_size inode1 else int (off + n)) = int (max z (off + n))" "int q + 1 = int (Suc q)"
    "int w + int n = int (w + n)" using a(4) assms(11) by auto
  have g: "int len > int w" using assms(8) by simp
  have "writefile_loop s st inode fcb src (int len) (int w) (int q) (int m) buf
    = writefile_loop ?t st ?inode ?fcb src (int len) (int (w + n)) (int (Suc q)) (int 0) ?C"
    by (subst writefile_loop.simps, simp only: g if_True a(1) bind.simps prod.case ok_simps readBlock_file [OF f(1) q] bs Let_def
        assms(5) e1 e2 e3 e4 writeBlock_file [OF f(1) q lC]) simp
  moreover have "grows s ?t (f_inodeOffset fcb) ?inode ds ps ds' ps'"
    using grows_trans [OF a(2) grows_put [OF f(1) q lC z]] a(3) by simp
  moreover have "written (content s ds) (content ?t ds') off ([] @ ?X)"
  proof (rule written_trans)
    show "written (content s ds) (content t1 ds') off []"
      using a(3) q assms(2,3) by (intro written_grow [OF a(7) f(2)]) linarith+
    show "written (content t1 ds') (content ?t ds') (off + length []) ?X"
      using written_put [OF f(1) q, of m ?X] lX n(1) assms(2) by simp
  qed
  ultimately show ?thesis using a(3,5,6)
    by (intro exI [of _ ?t] exI [of _ ?inode] exI [of _ ds'] exI [of _ ps'] exI [of _ ?C]) simp
qed

lemma writefile_loop_done: "\<not> len > w \<Longrightarrow> writefile_loop s st inode fcb src len w q m buf = Some (s, inode, fcb, buf)"
  by (subst writefile_loop.simps) simp

lemma begun_within: "1024 * q < k \<Longrightarrow> k \<le> 1024 * Suc q \<Longrightarrow> begun 1024 k = Suc q"
proof -
  assume "1024 * q < k" "k \<le> 1024 * Suc q"
  then have "k + (1024 - 1) = 1024 * Suc q + (k - 1024 * q - 1)" "k - 1024 * q - 1 < 1024" by simp_all
  then show ?thesis unfolding begun_def by (metis div_mult_self4 div_less add.right_neutral zero_neq_numeral)
qed

lemma begun_le: "k \<le> 1024 * n \<Longrightarrow> begun 1024 k \<le> n"
  by (simp add: begun_def div_le_mono2)

lemma begun_mono: "k \<le> l \<Longrightarrow> begun d k \<le> begun d l"
  by (simp add: begun_def div_le_mono)

lemma writefile_loop_spec:
  assumes "file_at s inode ds ps" "1024 * q + m = off" "m < 1024" "off \<le> 1024 * length ds" "f_offset fcb = int off"
    "inode_offset (f_inodeOffset fcb)" "\<And>k. junk_ok (st_words st k)" "w < len" "len \<le> length src" "off + (len - w) < 2147483648"
    "i_size inode = int z" "room s (need (length ds) (max (length ds) (begun 1024 (off + (len - w)))))"
  shows "\<exists>t inode' ds' ps' buf'. writefile_loop s st inode fcb src (int len) (int w) (int q) (int m) buf
      = Some (t, inode', fcb\<lparr>f_offset := int (off + (len - w))\<rparr>, buf')
    \<and> grows s t (f_inodeOffset fcb) inode' ds ps ds' ps' \<and> length ds' = max (length ds) (begun 1024 (off + (len - w)))
    \<and> i_size inode' = int (max z (off + (len - w))) \<and> i_type inode' = i_type inode \<and> i_linkCount inode' = i_linkCount inode
    \<and> written (content s ds) (content t ds') off (take (len - w) (drop w src))"
  using assms(1-6,8-)
proof (induction "len - w" arbitrary: s inode ds ps q m off fcb w z buf rule: less_induct)
  case less
  define n where "n = min (1024 - m) (len - w)"
  have n: "0 < n" "m + n \<le> 1024" "w + n \<le> len" using less.prems(3,7) by (auto simp: n_def)
  let ?N = "max (length ds) (begun 1024 (off + (len - w)))"
  have q: "q \<le> length ds" using less.prems(2,4) by linarith
  have b1: "begun 1024 (off + n) = Suc q" using n less.prems(2) by (intro begun_within) auto
  have b2: "Suc q \<le> begun 1024 (off + (len - w))" using begun_mono [of "off + n" "off + (len - w)" 1024] n(3) b1 by simp
  have "need (length ds) (max (length ds) (Suc q)) \<le> need (length ds) ?N"
    using b2 pointer_blocks_mono [of "max (length ds) (Suc q)" ?N] unfolding need_def by (intro add_mono diff_le_mono) auto
  then have r: "room s (need (length ds) (max (length ds) (Suc q)))" using room_mono less.prems(11) by blast
  obtain t inode1 ds1 ps1 buf1 where st: "writefile_loop s st inode fcb src (int len) (int w) (int q) (int m) buf
      = writefile_loop t st inode1 (fcb\<lparr>f_offset := int (off + n)\<rparr>) src (int len) (int (w + n)) (int (Suc q)) (int 0) buf1"
    "grows s t (f_inodeOffset fcb) inode1 ds ps ds1 ps1" "length ds1 = max (length ds) (Suc q)" "i_size inode1 = int (max z (off + n))"
    "i_type inode1 = i_type inode" "i_linkCount inode1 = i_linkCount inode"
    "written (content s ds) (content t ds1) off (take n (drop w src))"
    using writefile_step [OF less.prems(1-3) q less.prems(5,6) assms(7) less.prems(7-10) r n_def] by blast
  show ?case
  proof (cases "w + n < len")
    case False
    then have e: "len - w = n" using n(3) by simp
    have "writefile_loop t st inode1 (fcb\<lparr>f_offset := int (off + n)\<rparr>) src (int len) (int (w + n)) (int (Suc q)) (int 0) buf1
      = Some (t, inode1, fcb\<lparr>f_offset := int (off + n)\<rparr>, buf1)" using False by (intro writefile_loop_done) simp
    then show ?thesis unfolding e b1 st(1) using st(2-)
      by (intro exI [of _ t] exI [of _ inode1] exI [of _ ds1] exI [of _ ps1] exI [of _ buf1]) simp
  next
    case True
    then have nm: "n = 1024 - m" by (auto simp: n_def min_def split: if_splits)
    let ?fcb = "fcb\<lparr>f_offset := int (off + n)\<rparr>"
    have e: "off + n + (len - (w + n)) = off + (len - w)" using n(3) by simp
    have N: "max (length ds1) (begun 1024 (off + (len - w))) = ?N" using st(3) b2 by (simp add: max_def)
    have f1: "file_at t inode1 ds1 ps1" using st(2) by (simp add: grows_def)
    have p1: "1024 * Suc q + 0 = off + n" using nm less.prems(2,3) by simp
    have "Suc q \<le> length ds1" using st(3) by simp
    then have p2: "off + n \<le> 1024 * length ds1" using mult_le_mono2 [of "Suc q" "length ds1" 1024] p1 by simp
    have p3: "room t (need (length ds1) ?N)" using grows_room [OF st(2) less.prems(11)] st(3) b2 by simp
    have p4: "len - (w + n) < len - w" using True n(1) by linarith
    have p5: "f_offset ?fcb = int (off + n)" "f_inodeOffset ?fcb = f_inodeOffset fcb" "(0::nat) < 1024" by simp_all
    note ih = less.hyps [of "w + n" t inode1 ds1 ps1 "Suc q" 0 "off + n" ?fcb "max z (off + n)" buf1, unfolded e N p5(2),
        OF p4 f1 p1 p5(3) p2 p5(1) less.prems(6) True less.prems(8,9) st(4) p3]
    obtain v inode2 ds2 ps2 buf2 where v:
      "writefile_loop t st inode1 ?fcb src (int len) (int (w + n)) (int (Suc q)) (int 0) buf1
        = Some (v, inode2, ?fcb\<lparr>f_offset := int (off + (len - w))\<rparr>, buf2)"
      "grows t v (f_inodeOffset fcb) inode2 ds1 ps1 ds2 ps2" "length ds2 = ?N"
      "i_size inode2 = int (max (max z (off + n)) (off + (len - w)))" "i_type inode2 = i_type inode1" "i_linkCount inode2 = i_linkCount inode1"
      "written (content t ds1) (content v ds2) (off + n) (take (len - (w + n)) (drop (w + n) src))"
      using ih by blast
    have "length (take n (drop w src)) = n" using n(3) less.prems(8) by simp
    moreover have "take (len - w) (drop w src) = take n (drop w src) @ take (len - (w + n)) (drop (w + n) src)"
      using take_add [of n "len - (w + n)" "drop w src"] n(3) by (simp add: add.commute)
    ultimately have "written (content s ds) (content v ds2) off (take (len - w) (drop w src))"
      using written_trans [OF st(7)] v(7) by simp
    moreover have "grows s v (f_inodeOffset fcb) inode2 ds ps ds2 ps2"
      using grows_trans [OF st(2) v(2)] st(3) v(3) b2 by simp
    moreover have "max (max z (off + n)) (off + (len - w)) = max z (off + (len - w))" using n(3) by simp
    ultimately show ?thesis unfolding st(1) using v(1,3-6) st(5,6)
      by (intro exI [of _ v] exI [of _ inode2] exI [of _ ds2] exI [of _ ps2] exI [of _ buf2]) simp
  qed
qed

subsection \<open>The system calls\<close>

definition open_file :: "fs \<Rightarrow> int \<Rightarrow> Inode \<Rightarrow> nat list \<Rightarrow> nat list \<Rightarrow> bool" where
  \<comment> \<open>the inode on the disk at \<open>off\<close> describes a file with these blocks\<close>
  "open_file s off inode ds ps \<longleftrightarrow> inode_offset off \<and> inode_at (media_of s) off = inode \<and> file_at s inode ds ps
     \<and> 0 \<le> i_size inode \<and> i_size inode \<le> 1024 * int (length ds)"

definition descriptor :: "FCB \<Rightarrow> int \<Rightarrow> bool" where
  "descriptor fcb fd \<longleftrightarrow> 3 \<le> fd \<and> fd < MAX_FILE_NUM \<and> f_inuse fcb \<noteq> 0"

lemma file_at_put_inode:
  assumes "file_at s inode ds ps" "inode_offset off" "wf_inode inode'"
  shows "file_at (put_inode s off inode') inode ds ps"
proof -
  have "block_accounted s" using assms(1) by (simp add: file_at_def)
  then show ?thesis using put_inode_regions(1,2) [OF assms(2,3)]
    by (intro file_at_frame [OF assms(1)]) (simp_all add: ready_put_inode [OF assms(2,3)])
qed

lemma read_inode:
  "inode_offset off \<Longrightarrow> read_disk (media_of s) INODE_SIZE 1 off = Some (rd_at (media_of s) (nat off) 128)"
  "dec_inode (rd_at (media_of s) (nat off) 128) = inode_at (media_of s) off"
  by (auto simp: inode_offset_def inode_addr_def read_disk_rd_at INODE_SIZE_def inode_at_def)

lemma offset_split:
  "cdiv (int off) 1024 = int (off div 1024)" "cmod (int off) 1024 = int (off mod 1024)"
  by (simp_all add: cdiv_nonneg cmod_nonneg zdiv_int zmod_int)

lemma readfile_file:
  assumes "open_file s (f_inodeOffset fcb) inode ds ps" "descriptor fcb fd" "mode_can_read (f_flags fcb)"
    "f_offset fcb = int off" "len \<le> length dst" "off + len < 2147483648"
  shows "syscall_readfile s st fcb fd dst (int len) =
    (let bs = take len (drop off (file_bytes s inode ds)) in
     Some (int (length bs), fcb\<lparr>f_offset := int (off + length bs)\<rparr>, bs @ drop (length bs) dst))"
proof -
  have f: "file_at s inode ds ps" "inode_offset (f_inodeOffset fcb)" "inode_at (media_of s) (f_inodeOffset fcb) = inode"
    using assms(1) by (simp_all add: open_file_def)
  obtain z where z: "i_size inode = int z" "z \<le> 1024 * length ds"
    using assms(1) by (metis (mono_tags) nonneg_int_cases open_file_def of_nat_le_iff of_nat_mult of_nat_numeral)
  have bs: "sb_blockSize (sBlock s) = 1024" using mounted_dims(8) [OF file_bound(4) [OF f(1)]] .
  have b: "take len (drop off (file_bytes s inode ds)) = take (min len (z - off)) (drop off (content s ds))"
    by (simp add: file_bytes_def z(1) drop_take min.commute)
  have l: "length (take (min len (z - off)) (drop off (content s ds))) = min len (z - off)" using z(2) by auto
  have d: "\<not> (fd < 3 \<or> fd \<ge> MAX_FILE_NUM \<or> f_inuse fcb = 0 \<or> \<not> mode_can_read (f_flags fcb))"
    using assms(2,3) by (auto simp: descriptor_def)
  show ?thesis
  proof (cases "z \<le> off")
    case True
    then show ?thesis using d unfolding b by (simp add: syscall_readfile_def bs read_inode f(2,3) z(1) assms(4))
  next
    case False
    have "readfile_loop s inode fcb dst (int len) (int 0) (int (off div 1024)) (int (off mod 1024)) (st_block st)
      = (let k = min (len - 0) (z - off) in
         Some (int (0 + k), fcb\<lparr>f_offset := int (off + k)\<rparr>, take 0 dst @ take k (drop off (content s ds)) @ drop (0 + k) dst))"
      using assms(4-6) by (intro readfile_loop_spec [OF f(1) z]) simp_all
    then show ?thesis using d False unfolding b Let_def l
      by (simp add: syscall_readfile_def bs read_inode f(2,3) z(1) assms(4) offset_split)
  qed
qed

lemma writefile_file:
  assumes "open_file s (f_inodeOffset fcb) inode ds ps" "descriptor fcb fd" "mode_can_write (f_flags fcb)"
    "f_offset fcb = int off" "int off \<le> i_size inode" "0 < len" "len \<le> length src" "off + len < 2147483648" "\<And>k. junk_ok (st_words st k)"
    "room s (need (length ds) (max (length ds) (begun 1024 (off + len))))"
  shows "\<exists>t inode' ds' ps'. syscall_writefile s st fcb fd src (int len) = Some (int len, fcb\<lparr>f_offset := int (off + len)\<rparr>, t)
    \<and> open_file t (f_inodeOffset fcb) inode' ds' ps' \<and> grows s t (f_inodeOffset fcb) inode' ds ps ds' ps'
    \<and> file_bytes t inode' ds' = take off (file_bytes s inode ds) @ take len src @ drop (off + len) (file_bytes s inode ds) \<and> i_type inode' = i_type inode"
proof -
  have f: "file_at s inode ds ps" "inode_offset (f_inodeOffset fcb)" "inode_at (media_of s) (f_inodeOffset fcb) = inode"
    using assms(1) by (simp_all add: open_file_def)
  obtain z where z: "i_size inode = int z" "z \<le> 1024 * length ds"
    using assms(1) by (metis (mono_tags) nonneg_int_cases open_file_def of_nat_le_iff of_nat_mult of_nat_numeral)
  have bs: "sb_blockSize (sBlock s) = 1024" using mounted_dims(8) [OF file_bound(4) [OF f(1)]] .
  have d: "\<not> (fd < 3 \<or> fd \<ge> MAX_FILE_NUM \<or> f_inuse fcb = 0 \<or> \<not> mode_can_write (f_flags fcb))"
    using assms(2,3) by (auto simp: descriptor_def)
  have off: "off \<le> 1024 * length ds" "off \<le> z" using assms(5) z by simp_all
  obtain t inode' ds' ps' buf' where t: "writefile_loop s st inode fcb src (int len) (int 0) (int (off div 1024)) (int (off mod 1024)) (st_block st)
      = Some (t, inode', fcb\<lparr>f_offset := int (off + (len - 0))\<rparr>, buf')"
    "grows s t (f_inodeOffset fcb) inode' ds ps ds' ps'" "length ds' = max (length ds) (begun 1024 (off + (len - 0)))"
    "i_size inode' = int (max z (off + (len - 0)))" "i_type inode' = i_type inode" "written (content s ds) (content t ds') off (take (len - 0) (drop 0 src))"
    using writefile_loop_spec [OF f(1) _ _ off(1) assms(4) f(2) assms(9), of "off div 1024" "off mod 1024" 0 len src z "st_block st"] assms(6-8,10) z(1)
    by auto
  let ?t = "put_inode t (f_inodeOffset fcb) inode'"
  have f': "file_at t inode' ds' ps'" "wf_inode inode'" "block_accounted t" using t(2) by (simp_all add: grows_def file_at_def)
  have ne: "0 < length ds'" using t(3) assms(6) by (auto simp: begun_def max_def split: if_splits)
  have call: "syscall_writefile s st fcb fd src (int len) = Some (int len, fcb\<lparr>f_offset := int (off + len)\<rparr>, ?t)"
    using d t(1) readBlock_file [OF f'(1) ne] write_inode [OF f(2) f'(2), of t]
    by (simp add: syscall_writefile_def bs read_inode f(2,3) assms(4) offset_split put_inode_def)
  have same: "block_of ?t u = block_of t u" for u using put_inode_regions(1) [OF f(2) f'(2)] .
  have f2: "file_at ?t inode' ds' ps'" by (rule file_at_put_inode [OF f'(1) f(2) f'(2)])
  have "grows t ?t (f_inodeOffset fcb) inode' ds' ps' ds' ps'"
    using f2 changed_put_inode [OF f'(3) f(2) f'(2), of "set ds' \<union> set ps'"] by (auto simp: grows_def need_def intro!: exI [of _ "[]"])
  then have g: "grows s ?t (f_inodeOffset fcb) inode' ds ps ds' ps'" using grows_trans [OF t(2)] t(3) by simp
  have sz: "max z (off + len) \<le> 1024 * length ds'"
  proof -
    have "length ds \<le> length ds'" using t(3) by simp
    moreover have "off + len \<le> 1024 * length ds'" using t(6) assms(7) by (simp add: written_def)
    ultimately show ?thesis using z(2) by simp
  qed
  have iz: "i_size inode' = int (max z (off + len))" using t(4) by simp
  have "int (max z (off + len)) \<le> int (1024 * length ds')" using sz by (simp only: of_nat_le_iff)
  then have "0 \<le> i_size inode'" "i_size inode' \<le> 1024 * int (length ds')" unfolding iz by simp_all
  then have o: "open_file ?t (f_inodeOffset fcb) inode' ds' ps'"
    using f2 f(2) put_inode_regions(4) [OF f(2) f'(2)] by (simp add: open_file_def)
  have "length (take len src) = len" using assms(7) by simp
  then have "file_bytes ?t inode' ds' = take off (file_bytes s inode ds) @ take len src @ drop (off + len) (file_bytes s inode ds)"
    using written_file [OF t(6) off(2)] z t(4) content_same [of ds' ?t t] same by (simp add: file_bytes_def)
  then show ?thesis using call o g t(5) by blast
qed


lemma grows_frame:
  \<comment> \<open>a file that has another inode and no block in common with the written one is as before\<close>
  assumes "grows s t off inode' ds ps ds' ps'" "open_file s off2 inode2 ds2 ps2" "off2 \<noteq> off"
    "(set ds \<union> set ps) \<inter> (set ds2 \<union> set ps2) = {}"
  shows "open_file t off2 inode2 ds2 ps2" "file_bytes t inode2 ds2 = file_bytes s inode2 ds2"
proof -
  obtain us where c: "changed s t off (set ds \<union> set ps) us" using assms(1) by (auto simp: grows_def)
  have f: "file_at s inode2 ds2 ps2" "inode_offset off2" "inode_at (media_of s) off2 = inode2"
    using assms(2) by (simp_all add: open_file_def)
  have b: "block_of t v = block_of s v" if "v \<in> set ds2 \<union> set ps2" for v
  proof -
    have "used (block_bm s) v" using that f(1) by (auto simp: file_at_def owned_def)
    moreover have "v \<notin> set ds \<union> set ps" using that assms(4) by blast
    ultimately show ?thesis using c unfolding changed_def by blast
  qed
  have "file_at t inode2 ds2 ps2" using c b by (intro file_at_frame [OF f(1)]) (simp_all add: changed_def)
  moreover have "inode_at (media_of t) off2 = inode2" using c f(2,3) assms(3) by (simp add: changed_def)
  ultimately show "open_file t off2 inode2 ds2 ps2" using assms(2) by (simp add: open_file_def)
  show "file_bytes t inode2 ds2 = file_bytes s inode2 ds2" using content_same [of ds2 t s] b by (simp add: file_bytes_def)
qed

lemma lseek_set:
  assumes "open_file s (f_inodeOffset fcb) inode ds ps" "descriptor fcb fd"
  shows "syscall_lseek s fcb fd off SEEK_SET = Some (off, fcb\<lparr>f_offset := off\<rparr>)"
  using assms by (simp add: syscall_lseek_def open_file_def descriptor_def read_inode(1))

lemma range_of_write:
  assumes "off \<le> length c" "len \<le> length src"
  shows "take len (drop off (take off c @ take len src @ drop (off + len) c)) = take len src"
  using assms by simp



text \<open>Reading a range of a file. \<^verbatim>\<open>syscall_readfile\<close> returns the bytes of the file from the descriptor's offset on, as many as were asked for
  or as there are (none at or behind the end of the file), puts them at the start of the buffer, leaves the rest of it alone and moves
  the offset by their number. The length of a file is the size its inode records.\<close>

theorem readfile_returns_range:
  assumes "open_file s (f_inodeOffset fcb) inode ds ps" "descriptor fcb fd" "mode_can_read (f_flags fcb)"
    "f_offset fcb = int off" "len \<le> length dst" "off + len < 2147483648"
  shows "syscall_readfile s st fcb fd dst (int len) =
      (let bs = take len (drop off (file_bytes s inode ds)) in
       Some (int (length bs), fcb\<lparr>f_offset := int (off + length bs)\<rparr>, bs @ drop (length bs) dst))
    \<and> int (length (file_bytes s inode ds)) = i_size inode"
proof -
  have "0 \<le> i_size inode" "nat (i_size inode) \<le> 1024 * length ds" using assms(1) by (auto simp: open_file_def)
  then have "int (length (file_bytes s inode ds)) = i_size inode" by (simp add: file_bytes_def)
  then show ?thesis using readfile_file [OF assms] by blast
qed

subsection \<open>A sample\<close>

definition sample_fs :: fs where
  \<comment> \<open>the sample file at inode 5; a file without blocks at inode 6\<close>
  "sample_fs = put_inode (put_inode sample_disk (inode_addr 6) (sample_inode\<lparr>i_blockCount := 0, i_size := 0\<rparr>)) (inode_addr 5) sample_inode"

definition sample_fcb :: FCB where
  "sample_fcb = \<lparr>f_inuse = 1, f_inodeOffset = inode_addr 5, f_offset = 1000, f_flags = O_RDWR\<rparr>"

definition sample_stack :: stack where
  "sample_stack = \<lparr>st_block = [], st_inode = sample_inode, st_words = (\<lambda>_. sample_junk)\<rparr>"

lemma sample_offsets: "inode_offset (inode_addr 5)" "inode_offset (inode_addr 6)" "inode_addr 6 \<noteq> inode_addr 5"
  by (auto simp: inode_offset_def inode_addr_def intro: exI [of _ 6] exI [of _ 5])

lemma open_put_inode:
  assumes "file_at s inode ds ps" "inode_offset off" "0 \<le> i_size inode" "i_size inode \<le> 1024 * int (length ds)"
  shows "open_file (put_inode s off inode) off inode ds ps"
proof -
  have "wf_inode inode" "block_accounted s" using assms(1) by (simp_all add: file_at_def)
  then show ?thesis using assms file_at_put_inode [OF assms(1,2)] put_inode_regions(4) by (simp add: open_file_def)
qed

lemma sample_open:
  "open_file sample_fs (inode_addr 5) sample_inode [0] []"
  "open_file sample_fs (inode_addr 6) (sample_inode\<lparr>i_blockCount := 0, i_size := 0\<rparr>) [] []"
  "room sample_fs 3"
proof -
  let ?e = "sample_inode\<lparr>i_blockCount := 0, i_size := 0\<rparr>"
  let ?s = "put_inode sample_disk (inode_addr 6) ?e"
  have w: "wf_inode sample_inode" "wf_inode ?e"
    using sample_file(1) by (auto simp: file_at_def wf_inode_def sample_inode_def in16_def in32_def list_all_iff)
  have acc: "block_accounted sample_disk" using sample_file(1) by (simp add: file_at_def)
  have e: "file_at sample_disk ?e [] []"
    using acc w(2) by (simp add: file_at_def pointer_blocks_def owned_def linked_def)
  have o: "open_file ?s (inode_addr 6) ?e [] []" using e sample_offsets(2) by (intro open_put_inode) simp_all
  have f: "file_at ?s sample_inode [0] []" using sample_file(1) sample_offsets(2) w(2) by (rule file_at_put_inode)
  show "open_file sample_fs (inode_addr 5) sample_inode [0] []"
    unfolding sample_fs_def using f sample_offsets(1) by (intro open_put_inode) (simp_all add: sample_inode_def)
  have "file_at ?s ?e [] []" using o by (simp add: open_file_def)
  then have "file_at sample_fs ?e [] []" unfolding sample_fs_def using sample_offsets(1) w(1) by (rule file_at_put_inode)
  then show "open_file sample_fs (inode_addr 6) ?e [] []"
    using o inode_at_put_inode [OF sample_offsets w(1), of ?s] sample_offsets(2) by (simp add: open_file_def sample_fs_def)
  show "room sample_fs 3" using acc sample_disk_grown(2,3) sample_offsets(1,2) w by (simp add: room_def sample_fs_def ready_put_inode)
qed

lemma sample_call:
  "open_file sample_fs (f_inodeOffset sample_fcb) sample_inode [0] []" "descriptor sample_fcb 3"
  "mode_can_write (f_flags sample_fcb)" "mode_can_read (f_flags sample_fcb)" "f_offset sample_fcb = int 1000" "int 1000 \<le> i_size sample_inode"
  "junk_ok (st_words sample_stack k)" "room sample_fs (need (length [0::nat]) (max (length [0::nat]) (begun 1024 (1000 + 3000))))"
  using sample_open(1,3) sample_junk_ok(1)
  by (simp_all add: sample_fcb_def descriptor_def mode_can_write_def mode_can_read_def O_RDWR_def O_RDONLY_def MAX_FILE_NUM_def
      sample_inode_def sample_stack_def need_def begun_def pointer_blocks_def)



theorem readfile_returns_range_witness:
  "syscall_readfile sample_fs sample_stack (sample_fcb\<lparr>f_offset := int 990\<rparr>) 3 (replicate 30 0) (int 30) =
      (let bs = take 30 (drop 990 (file_bytes sample_fs sample_inode [0])) in
       Some (int (length bs), sample_fcb\<lparr>f_offset := int 990, f_offset := int (990 + length bs)\<rparr>, bs @ drop (length bs) (replicate 30 0)))
    \<and> int (length (file_bytes sample_fs sample_inode [0])) = i_size sample_inode"
  by (rule readfile_returns_range) (use sample_call(1,2,4) in \<open>simp_all add: descriptor_def\<close>)

end
