(* ===== verification/Pagefile.thy ===== *)
theory Pagefile
  imports Files
begin

text \<open>
  The swap files of \<^verbatim>\<open>os/src/filesystem/pagefile.c\<close>: a list of files under \<^verbatim>\<open>/swap\<close>, each with an
  in-use flag. \<open>get_pagefile\<close> hands out a free one or creates \<^verbatim>\<open>/swap/page<n>\<close>,
  \<open>write_page_to_file\<close> and \<open>read_file_to_page\<close> move a page of 4096 bytes, \<open>free_pagefile\<close> clears
  the flag.
\<close>

definition PAGE_SIZE_4K :: int where "PAGE_SIZE_4K = 4096"
definition PAGEFILE_PATH :: cstr where "PAGEFILE_PATH = str ''/swap''"

record Pagefile =
  pf_name :: cstr
  pf_inuse :: int

record swap =
  pagefiles :: "Pagefile list" \<comment> \<open>the linked list, head first\<close>
  pagefile_num :: int

function decimal :: "nat \<Rightarrow> cstr" where
  \<comment> \<open>the digits of \<^verbatim>\<open>%d\<close>\<close>
  "decimal n = (if n < 10 then [of_nat (48 + n)] else decimal (n div 10) @ [of_nat (48 + n mod 10)])"
  by pat_completeness auto
termination by (relation "measure id") auto

declare decimal.simps [simp del]

definition pagefile_path :: "cstr \<Rightarrow> cstr option" where
  \<comment> \<open>\<^verbatim>\<open>sprintf(pf->name, "%s/%s", PAGEFILE_PATH, dir.name)\<close> into \<^verbatim>\<open>char name[32]\<close>\<close>
  "pagefile_path name = (let p = PAGEFILE_PATH @ [slash] @ name in if length p < 32 then Some p else None)"

partial_function (option) pagefile_init_loop :: "fs \<Rightarrow> Inode \<Rightarrow> int \<Rightarrow> swap \<Rightarrow> swap option" where
  "pagefile_init_loop s inode i w =
     do { (ret, dir) \<leftarrow> getDirEntry s inode i \<lparr>d_inode = 0, d_name = [], d_pad = []\<rparr>;
          if ret = 0 then
            do { p \<leftarrow> pagefile_path (until_nul (d_name dir));
                 pagefile_init_loop s inode (i + 1)
                   \<lparr>pagefiles = \<lparr>pf_name = p, pf_inuse = 0\<rparr> # pagefiles w, pagefile_num = pagefile_num w + 1\<rparr> }
          else Some w }"

definition pagefile_init :: "fs \<Rightarrow> stack \<Rightarrow> swap option" where
  \<comment> \<open>the return code of \<^verbatim>\<open>readInode\<close> is not looked at\<close>
  "pagefile_init s st =
     do { (_, inode, _) \<leftarrow> readInode s (st_inode st) PAGEFILE_PATH;
          pagefile_init_loop s inode 0 \<lparr>pagefiles = [], pagefile_num = 0\<rparr> }"

fun take_unused :: "Pagefile list \<Rightarrow> (cstr \<times> Pagefile list) option" where
  \<comment> \<open>the search of \<^verbatim>\<open>get_pagefile\<close>: the first free file, marked; \<^term>\<open>None\<close>: all in use\<close>
  "take_unused [] = None"
| "take_unused (pf # pfs) =
     (if pf_inuse pf = 0 then Some (pf_name pf, pf\<lparr>pf_inuse := 1\<rparr> # pfs)
      else map_option (map_prod id ((#) pf)) (take_unused pfs))"

definition get_pagefile :: "fs \<Rightarrow> stack \<Rightarrow> swap \<Rightarrow> (cstr \<times> swap \<times> fs) option" where
  "get_pagefile s st w =
     (case take_unused (pagefiles w) of
        Some (name, pfs) \<Rightarrow> Some (name, w\<lparr>pagefiles := pfs\<rparr>, s)
      | None \<Rightarrow>
          do { name \<leftarrow> pagefile_path (str ''page'' @ decimal (nat (pagefile_num w)));
               (_, s) \<leftarrow> syscall_open s st name O_CREAT;
               Some (name, \<lparr>pagefiles = \<lparr>pf_name = name, pf_inuse = 1\<rparr> # pagefiles w,
                           pagefile_num = pagefile_num w + 1\<rparr>, s) })"

definition page_fcb :: "int \<Rightarrow> FCB" where
  "page_fcb inodeOffset = \<lparr>f_inuse = 1, f_inodeOffset = inodeOffset, f_offset = 0, f_flags = O_RDWR\<rparr>"

definition write_page_to_file :: "fs \<Rightarrow> stack \<Rightarrow> cstr \<Rightarrow> byte list \<Rightarrow> fs option" where
  "write_page_to_file s st filename page =
     do { (off, s) \<leftarrow> syscall_open s st filename O_RDWR;
          (_, _, s) \<leftarrow> syscall_writefile s st (page_fcb off) 3 page PAGE_SIZE_4K;
          Some s }"

definition read_file_to_page :: "fs \<Rightarrow> stack \<Rightarrow> cstr \<Rightarrow> byte list \<Rightarrow> byte list option" where
  \<comment> \<open>the new contents of the page\<close>
  "read_file_to_page s st filename page =
     do { (off, s) \<leftarrow> syscall_open s st filename O_RDWR;
          (ret, _, page) \<leftarrow> syscall_readfile s st (page_fcb off) 3 page PAGE_SIZE_4K;
          ok (ret = PAGE_SIZE_4K);
          Some page }"

fun clear_inuse :: "Pagefile list \<Rightarrow> cstr \<Rightarrow> Pagefile list" where
  "clear_inuse [] filename = []"
| "clear_inuse (pf # pfs) filename =
     (if pf_name pf = filename then pf\<lparr>pf_inuse := 0\<rparr> # pfs else pf # clear_inuse pfs filename)"

definition free_pagefile :: "swap \<Rightarrow> cstr \<Rightarrow> swap" where
  "free_pagefile w filename = w\<lparr>pagefiles := clear_inuse (pagefiles w) filename\<rparr>"

subsection \<open>Decimal numbers are distinct names\<close>

lemma digit_range: "n < 10 \<Longrightarrow> uint (of_nat (48 + n) :: byte) = int (48 + n)"
  by (simp add: uint_word_of_int_eq unsigned_of_nat take_bit_nat_def flip: of_nat_add)

lemma digit_inj: "m < 10 \<Longrightarrow> n < 10 \<Longrightarrow> (of_nat (48 + m) :: byte) = of_nat (48 + n) \<Longrightarrow> m = n"
  using digit_range [of m] digit_range [of n] by simp

lemma decimal_nonempty [simp]: "decimal n \<noteq> []"
  by (subst decimal.simps) simp

lemma decimal_inj: "decimal m = decimal n \<Longrightarrow> m = n"
proof (induction m arbitrary: n rule: less_induct)
  case (less m)
  have last: "last (decimal k) = of_nat (48 + k mod 10)" for k
    by (subst decimal.simps) simp
  have front: "butlast (decimal k) = (if k < 10 then [] else decimal (k div 10))" for k
    by (subst decimal.simps) simp
  have "m mod 10 = n mod 10" using less.prems last [of m] last [of n] digit_inj [of "m mod 10" "n mod 10"] by simp
  moreover have "m div 10 = n div 10"
  proof -
    have "(if m < 10 then [] else decimal (m div 10)) = (if n < 10 then [] else decimal (n div 10))"
      using less.prems front by metis
    then consider "m < 10" "n < 10" | "10 \<le> m" "10 \<le> n" "decimal (m div 10) = decimal (n div 10)"
      by (metis decimal_nonempty not_le)
    then show ?thesis by cases (use less.IH [of "m div 10" "n div 10"] in simp_all)
  qed
  ultimately show ?case by (metis div_mult_mod_eq)
qed

subsection \<open>Page files are exclusive\<close>

definition in_use :: "swap \<Rightarrow> cstr set" where
  "in_use w = {pf_name pf | pf. pf \<in> set (pagefiles w) \<and> pf_inuse pf \<noteq> 0}"

definition page_name :: "nat \<Rightarrow> cstr" where
  "page_name n = PAGEFILE_PATH @ [slash] @ str ''page'' @ decimal n"

definition swap_ok :: "swap \<Rightarrow> bool" where
  \<comment> \<open>the files are named \<^verbatim>\<open>/swap/page0\<close> to \<^verbatim>\<open>/swap/page<n-1>\<close>, each once\<close>
  "swap_ok w \<longleftrightarrow> 0 \<le> pagefile_num w \<and> distinct (map pf_name (pagefiles w))
     \<and> set (map pf_name (pagefiles w)) = page_name ` {..<nat (pagefile_num w)}"

lemma page_name_inj: "page_name m = page_name n \<Longrightarrow> m = n"
  using decimal_inj by (simp add: page_name_def)

lemma take_unused_Some:
  assumes "take_unused pfs = Some (name, pfs')" "distinct (map pf_name pfs)"
  shows "map pf_name pfs' = map pf_name pfs
    \<and> (\<exists>pf \<in> set pfs. pf_name pf = name \<and> pf_inuse pf = 0)
    \<and> (\<forall>n. (\<exists>pf \<in> set pfs'. pf_name pf = n \<and> pf_inuse pf \<noteq> 0)
          \<longleftrightarrow> n = name \<or> (\<exists>pf \<in> set pfs. pf_name pf = n \<and> pf_inuse pf \<noteq> 0))"
  using assms
proof (induction pfs arbitrary: pfs')
  case (Cons pf pfs)
  show ?case
  proof (cases "pf_inuse pf = 0")
    case True
    with Cons.prems show ?thesis by auto
  next
    case False
    then obtain qs where qs: "take_unused pfs = Some (name, qs)" "pfs' = pf # qs"
      using Cons.prems(1) by (auto simp: map_prod_def)
    with Cons.IH [OF qs(1)] Cons.prems(2) False show ?thesis by auto
  qed
qed simp

lemma take_unused_None: "take_unused pfs = None \<longleftrightarrow> (\<forall>pf \<in> set pfs. pf_inuse pf \<noteq> 0)"
  by (induction pfs) auto

lemma clear_inuse_spec:
  assumes "distinct (map pf_name pfs)"
  shows "map pf_name (clear_inuse pfs f) = map pf_name pfs
    \<and> (\<forall>n. (\<exists>pf \<in> set (clear_inuse pfs f). pf_name pf = n \<and> pf_inuse pf \<noteq> 0)
         \<longleftrightarrow> n \<noteq> f \<and> (\<exists>pf \<in> set pfs. pf_name pf = n \<and> pf_inuse pf \<noteq> 0))"
  using assms by (induction pfs) (auto split: if_splits intro: rev_image_eqI)

lemma in_use_iff: "n \<in> in_use w \<longleftrightarrow> (\<exists>pf \<in> set (pagefiles w). pf_name pf = n \<and> pf_inuse pf \<noteq> 0)"
  by (auto simp: in_use_def)

lemma free_in_use:
  assumes "swap_ok w"
  shows "in_use (free_pagefile w f) = in_use w - {f} \<and> swap_ok (free_pagefile w f)"
proof -
  note c = clear_inuse_spec [of "pagefiles w" f]
  have "in_use (free_pagefile w f) = in_use w - {f}"
    using c assms by (auto simp: swap_ok_def free_pagefile_def in_use_iff)
  moreover have "swap_ok (free_pagefile w f)"
    using c assms unfolding swap_ok_def free_pagefile_def by simp
  ultimately show ?thesis by simp
qed

lemma get_pagefile_fresh:
  assumes "swap_ok w" "get_pagefile s st w = Some (name, w', s')"
  shows "name \<notin> in_use w \<and> in_use w' = insert name (in_use w) \<and> swap_ok w'"
proof (cases "take_unused (pagefiles w)")
  case None
  have n: "name = page_name (nat (pagefile_num w))"
    and w': "w' = \<lparr>pagefiles = \<lparr>pf_name = name, pf_inuse = 1\<rparr> # pagefiles w, pagefile_num = pagefile_num w + 1\<rparr>"
    using assms(2) None
    by (auto simp: get_pagefile_def pagefile_path_def page_name_def Let_def bind_eq_Some_conv split: if_splits)
  have new: "name \<notin> set (map pf_name (pagefiles w))"
    using assms(1) page_name_inj n by (auto simp: swap_ok_def)
  have l: "{..<nat (pagefile_num w + 1)} = insert (nat (pagefile_num w)) {..<nat (pagefile_num w)}"
    using assms(1) by (auto simp: swap_ok_def)
  have "swap_ok w'" using assms(1) new n unfolding w' swap_ok_def by (simp add: l)
  moreover have "in_use w' = insert name (in_use w)" unfolding w' by (simp add: set_eq_iff in_use_iff) auto
  moreover have "name \<notin> in_use w" using new by (auto simp: in_use_def)
  ultimately show ?thesis by blast
next
  case (Some r)
  obtain pfs where r: "take_unused (pagefiles w) = Some (name, pfs)" "w' = w\<lparr>pagefiles := pfs\<rparr>"
    using assms(2) Some by (cases r) (simp add: get_pagefile_def)
  have d: "distinct (map pf_name (pagefiles w))" using assms(1) by (simp add: swap_ok_def)
  note t = take_unused_Some [OF r(1) d]
  have "name \<notin> in_use w"
    using t d by (auto simp: in_use_def distinct_map inj_on_def)
  moreover have "in_use w' = insert name (in_use w)" using t by (auto simp: r(2) in_use_iff)
  moreover have "swap_ok w'" using t assms(1) unfolding r(2) swap_ok_def by simp
  ultimately show ?thesis by blast
qed

text \<open>
  Page files are exclusive: the file that \<^verbatim>\<open>get_pagefile\<close> returns is one that nobody uses, it
  is in use afterwards together with those that were, and \<^verbatim>\<open>free_pagefile\<close> gives back exactly
  that file. The invariant that the files are \<^verbatim>\<open>page0\<close>, \<^verbatim>\<open>page1\<close>, ..., each once, is kept.
\<close>

theorem pagefile_exclusive:
  assumes "swap_ok w" "get_pagefile s st w = Some (name, w', s')"
  shows "name \<notin> in_use w \<and> in_use w' = insert name (in_use w) \<and> swap_ok w'
    \<and> in_use (free_pagefile w' name) = in_use w \<and> swap_ok (free_pagefile w' name)"
  using get_pagefile_fresh [OF assms] free_in_use [of w' name] by auto

theorem pagefile_exclusive_witness:
  "let w = \<lparr>pagefiles = [\<lparr>pf_name = page_name 1, pf_inuse = 1\<rparr>, \<lparr>pf_name = page_name 0, pf_inuse = 0\<rparr>], pagefile_num = 2\<rparr>;
       w' = \<lparr>pagefiles = [\<lparr>pf_name = page_name 1, pf_inuse = 1\<rparr>, \<lparr>pf_name = page_name 0, pf_inuse = 1\<rparr>], pagefile_num = 2\<rparr> in
   page_name 0 \<notin> in_use w \<and> in_use w' = insert (page_name 0) (in_use w) \<and> swap_ok w'
    \<and> in_use (free_pagefile w' (page_name 0)) = in_use w \<and> swap_ok (free_pagefile w' (page_name 0))"
proof -
  have l: "{..<2} = {0, 1 :: nat}" by auto
  have "page_name 1 \<noteq> page_name 0" using page_name_inj by fastforce
  then show ?thesis unfolding Let_def
    by (intro pagefile_exclusive [where s = undefined and st = undefined and s' = undefined])
      (auto simp: swap_ok_def l get_pagefile_def)
qed

end
