(* ===== verification/Paths.thy ===== *)
theory Paths
  imports Content Pagefile
begin

text \<open>
  Directories and paths. A directory is a file whose blocks hold 128-byte entries; here it is the
  list of its entries, the file system a collection of files with blocks of their own, and a path
  a list of names. The lookup of \<^verbatim>\<open>readInode\<close> (\<^verbatim>\<open>ext.c\<close>), which works on the bytes of the blocks and
  of the path, is a walk over these lists; reading and writing a file leaves the names alone, so
  that a page written to a page file (\<^verbatim>\<open>pagefile.c\<close>) is found again under its name.
\<close>

declare findEntry.simps [simp del] readInode_loop.simps [simp del] getDirEntry_loop.simps [simp del] findSlot.simps [simp del]

subsection \<open>The entries of a directory\<close>

definition entries :: "fs \<Rightarrow> nat list \<Rightarrow> DirEntry list" where
  "entries s ds = concat (map (\<lambda>u. dir_entries s (block_of s u)) ds)"

definition hit :: "cstr \<Rightarrow> DirEntry \<Rightarrow> bool" where
  \<comment> \<open>a used entry whose name starts with \<open>n\<close>: the comparison goes no further\<close>
  "hit n e \<longleftrightarrow> d_inode e \<noteq> 0 \<and> take (length n) (d_name e) = n"

lemma find_app: "List.find P (xs @ ys) = (case List.find P xs of None \<Rightarrow> List.find P ys | Some x \<Rightarrow> Some x)"
  by (induction xs) auto

lemma strncmp_prefix: "length n \<le> length mem \<Longrightarrow> strncmp_eq mem (n @ rest) (length n) = Some (take (length n) mem = n)"
proof (induction n arbitrary: mem)
  case (Cons c n)
  then obtain b mem' where "mem = b # mem'" by (cases mem) auto
  then show ?case using Cons by auto
qed simp

lemma entries_per_block: "mounted s \<Longrightarrow> entriesPerBlock s = 8"
  using mounted_dims(8) [of s] by (simp add: entriesPerBlock_def u32_def)

lemma entry_name: "length b = 1024 \<Longrightarrow> j < 8 \<Longrightarrow> length (d_name (entry_at b j)) = 64"
  by (simp add: entry_at_def dec_de_def)

lemma find_name_spec:
  assumes "\<forall>e \<in> set es. length (d_name e) = 64" "length n \<le> 64"
  shows "case List.find (hit n) es of None \<Rightarrow> find_name es j (n @ rest) (length n) = Some None
    | Some e \<Rightarrow> \<exists>i < length es. es ! i = e \<and> find_name es j (n @ rest) (length n) = Some (Some (j + i))"
  using assms
proof (induction es arbitrary: j)
  case (Cons e es)
  show ?case
  proof (cases "hit n e")
    case True
    then show ?thesis using Cons.prems by (auto simp: hit_def strncmp_prefix)
  next
    case False
    then have "find_name (e # es) j (n @ rest) (length n) = find_name es (Suc j) (n @ rest) (length n)"
      using Cons.prems by (auto simp: hit_def strncmp_prefix)
    moreover have "List.find (hit n) (e # es) = List.find (hit n) es" using False by simp
    ultimately show ?thesis using Cons.IH [of "Suc j"] Cons.prems by (cases "List.find (hit n) es") force+
  qed
qed simp

lemma dir_entries_8:
  assumes "mounted s" "length b = 1024"
  shows "length (dir_entries s b) = 8" "j < 8 \<Longrightarrow> dir_entries s b ! j = entry_at b j" "\<forall>e \<in> set (dir_entries s b). length (d_name e) = 64"
  using assms by (auto simp: dir_entries_def entries_per_block entry_name)

lemma findEntry_spec:
  assumes "file_at s inode ds ps" "length n \<le> 64" "i \<le> length ds"
  shows "case List.find (hit n) (entries s (drop i ds)) of
      None \<Rightarrow> \<exists>b. findEntry s inode (n @ rest) (length n) buf (int i) = Some (Absent b)
    | Some e \<Rightarrow> \<exists>k j. findEntry s inode (n @ rest) (length n) buf (int i) = Some (Found (int k) j (block_of s (ds ! k)))
        \<and> k < length ds \<and> j < 8 \<and> entry_at (block_of s (ds ! k)) j = e"
  using assms(3)
proof (induction "length ds - i" arbitrary: i buf)
  case 0
  then have "\<not> int i < i_blockCount inode" using assms(1) by (simp add: file_at_def)
  moreover have "entries s (drop i ds) = []" using 0 by (simp add: entries_def)
  ultimately show ?case by (subst findEntry.simps) simp
next
  case (Suc d)
  let ?b = "block_of s (ds ! i)" and ?f = "findEntry s inode (n @ rest) (length n)"
  have i: "i < length ds" using Suc.hyps(2) by linarith
  have m: "mounted s" using file_bound(4) [OF assms(1)] .
  have bc: "int i < i_blockCount inode" using assms(1) i by (simp add: file_at_def)
  have e: "entries s (drop i ds) = dir_entries s ?b @ entries s (drop (Suc i) ds)"
    using i by (simp add: entries_def Cons_nth_drop_Suc [symmetric])
  have f: "?f buf (int i) = (case find_name (dir_entries s ?b) 0 (n @ rest) (length n) of None \<Rightarrow> None
    | Some None \<Rightarrow> ?f ?b (int (Suc i)) | Some (Some j) \<Rightarrow> Some (Found (int i) j ?b))"
    using bc by (subst findEntry.simps) (simp add: readBlock_file [OF assms(1) i] add.commute split: option.splits bind_splits)
  note de = dir_entries_8 [OF m, of ?b]
  note spec = find_name_spec [OF de(3) assms(2), of 0 rest]
  show ?case
  proof (cases "List.find (hit n) (dir_entries s ?b)")
    case None
    then have n: "?f buf (int i) = ?f ?b (int (Suc i))" using spec f by simp
    have "List.find (hit n) (entries s (drop i ds)) = List.find (hit n) (entries s (drop (Suc i) ds))"
      using None unfolding e find_app by simp
    then show ?thesis unfolding n using Suc.hyps(1) [of "Suc i" ?b] Suc.hyps(2) i by simp
  next
    case (Some x)
    then obtain j where j: "j < 8" "dir_entries s ?b ! j = x" "find_name (dir_entries s ?b) 0 (n @ rest) (length n) = Some (Some j)"
      using spec de by auto
    then have "?f buf (int i) = Some (Found (int i) j ?b)" using f by simp
    moreover have "List.find (hit n) (entries s (drop i ds)) = Some x" using Some unfolding e find_app by simp
    ultimately show ?thesis using j i de(2) by auto
  qed
qed

subsection \<open>The files of a disk\<close>

type_synonym files = "int \<Rightarrow> (Inode \<times> nat list \<times> nat list) option"

definition root_inode :: int where
  "root_inode = inode_addr 0"

definition dir_of :: "fs \<Rightarrow> files \<Rightarrow> int \<Rightarrow> DirEntry list option" where
  "dir_of s F off = (case F off of None \<Rightarrow> None
     | Some (inode, ds, ps) \<Rightarrow> if i_type inode = REGULAR_TYPE then None else Some (entries s ds))"

definition fs_ok :: "fs \<Rightarrow> files \<Rightarrow> bool" where
  \<comment> \<open>\<open>F\<close> gives the files of the disk, by the address of their inode: each has its blocks for
     itself, the used entries of a directory lead to files, and there is a root\<close>
  "fs_ok s F \<longleftrightarrow> root_inode \<in> dom F
     \<and> (\<forall>off inode ds ps. F off = Some (inode, ds, ps) \<longrightarrow> open_file s off inode ds ps)
     \<and> (\<forall>off off' inode ds ps inode' ds' ps'. F off = Some (inode, ds, ps) \<and> F off' = Some (inode', ds', ps') \<and> off \<noteq> off'
          \<longrightarrow> (set ds \<union> set ps) \<inter> (set ds' \<union> set ps') = {})
     \<and> (\<forall>off es e. dir_of s F off = Some es \<and> e \<in> set es \<and> d_inode e \<noteq> 0 \<longrightarrow> d_inode e \<in> dom F)"

fun walk :: "(int \<Rightarrow> DirEntry list option) \<Rightarrow> int \<Rightarrow> cstr list \<Rightarrow> int option" where
  "walk D off [] = Some off"
| "walk D off (n # ns) = (case D off of None \<Rightarrow> None
     | Some es \<Rightarrow> (case List.find (hit n) es of None \<Rightarrow> None | Some e \<Rightarrow> walk D (d_inode e) ns))"

fun ends_in_file :: "(int \<Rightarrow> DirEntry list option) \<Rightarrow> int \<Rightarrow> cstr list \<Rightarrow> bool" where
  \<comment> \<open>the last name is looked up in something that is not a directory\<close>
  "ends_in_file D off [] = False"
| "ends_in_file D off (n # ns) = (case D off of None \<Rightarrow> ns = []
     | Some es \<Rightarrow> (case List.find (hit n) es of None \<Rightarrow> False | Some e \<Rightarrow> ends_in_file D (d_inode e) ns))"

fun joined :: "cstr list \<Rightarrow> cstr" where
  "joined [] = []"
| "joined [n] = n"
| "joined (n # ns) = n @ slash # joined ns"

definition path_of :: "cstr list \<Rightarrow> cstr" where
  "path_of ns = slash # joined ns"

definition name_ok :: "cstr \<Rightarrow> bool" where
  "name_ok n \<longleftrightarrow> n \<noteq> [] \<and> slash \<notin> set n \<and> 0 \<notin> set n \<and> length n \<le> 64"

lemma joined_Cons: "joined (n # ns) = (if ns = [] then n else n @ slash # joined ns)"
  by (cases ns) auto

lemma stringChr_name:
  "slash \<notin> set n \<Longrightarrow> stringChr n slash = (-1, length n)"
  "slash \<notin> set n \<Longrightarrow> stringChr (n @ slash # rest) slash = (0, length n)"
  by (induction n) auto

lemma fs_okD:
  assumes "fs_ok s F"
  shows "root_inode \<in> dom F" "F off = Some (inode, ds, ps) \<Longrightarrow> open_file s off inode ds ps"
    "F off = Some (inode, ds, ps) \<Longrightarrow> F off' = Some (inode', ds', ps') \<Longrightarrow> off \<noteq> off' \<Longrightarrow> (set ds \<union> set ps) \<inter> (set ds' \<union> set ps') = {}"
    "dir_of s F off = Some es \<Longrightarrow> e \<in> set es \<Longrightarrow> d_inode e \<noteq> 0 \<Longrightarrow> d_inode e \<in> dom F"
  using assms unfolding fs_ok_def by blast+

lemma find_hit: "List.find (hit n) es = Some e \<Longrightarrow> e \<in> set es \<and> d_inode e \<noteq> 0"
  by (auto simp: find_Some_iff hit_def)

lemma readInode_step:
  \<comment> \<open>one name of the path; a file that is not a directory is refused unless the name is the last one\<close>
  assumes "file_at s inode ds ps" "name_ok n" "i_type inode \<noteq> REGULAR_TYPE \<or> ns = []"
  shows "case List.find (hit n) (entries s ds) of None \<Rightarrow> readInode_loop s inode off (joined (n # ns)) = Some (-1, inode, off)
    | Some e \<Rightarrow> inode_offset (d_inode e) \<longrightarrow> readInode_loop s inode off (joined (n # ns))
        = (if ns = [] then Some (0, inode_at (media_of s) (d_inode e), d_inode e)
           else readInode_loop s (inode_at (media_of s) (d_inode e)) (d_inode e) (joined ns))"
proof -
  have n: "n \<noteq> []" "slash \<notin> set n" "length n \<le> 64" using assms(2) by (auto simp: name_ok_def)
  define rest where "rest = (if ns = [] then [] else slash # joined ns)"
  have j: "joined (n # ns) = n @ rest" by (simp add: joined_Cons rest_def)
  have c: "stringChr (n @ rest) slash = (if ns = [] then -1 else 0, length n)"
    using stringChr_name [OF n(2)] by (simp add: rest_def)
  note spec = findEntry_spec [OF assms(1) n(3), of 0 rest "[]"]
  show ?thesis
  proof (cases "List.find (hit n) (entries s ds)")
    case None
    then obtain b where "findEntry s inode (n @ rest) (length n) [] 0 = Some (Absent b)" using spec by auto
    then show ?thesis using None n(1) c assms(3) unfolding j by (subst readInode_loop.simps) auto
  next
    case (Some e)
    then obtain k j' where f: "findEntry s inode (n @ rest) (length n) [] 0 = Some (Found (int k) j' (block_of s (ds ! k)))"
      "entry_at (block_of s (ds ! k)) j' = e" using spec by auto
    have "readInode_loop s inode off (joined (n # ns)) = (if ns = [] then Some (0, inode_at (media_of s) (d_inode e), d_inode e)
           else readInode_loop s (inode_at (media_of s) (d_inode e)) (d_inode e) (joined ns))" if "inode_offset (d_inode e)"
      unfolding j using n(1) c assms(3) f read_inode(1) [OF that, of s]
      by (subst readInode_loop.simps) (auto simp: read_inode(2) rest_def Let_def)
    then show ?thesis using Some by simp
  qed
qed

lemma readInode_loop_walk:
  assumes "fs_ok s F" "F off = Some (inode, ds, ps)" "\<forall>n \<in> set ns. name_ok n" "\<not> ends_in_file (dir_of s F) off ns"
  shows "case walk (dir_of s F) off ns of
      None \<Rightarrow> \<exists>x o'. readInode_loop s inode off (joined ns) = Some (-1, x, o') \<and> wf_inode x
    | Some off' \<Rightarrow> readInode_loop s inode off (joined ns) = Some (0, inode_at (media_of s) off', off')"
  using assms(2-)
proof (induction ns arbitrary: off inode ds ps)
  case Nil
  have "inode_at (media_of s) off = inode" using fs_okD(2) [OF assms(1) Nil(1)] by (simp add: open_file_def)
  then show ?case by (subst readInode_loop.simps) simp
next
  case (Cons n ns)
  have n: "name_ok n" using Cons.prems(2) by simp
  have fa: "file_at s inode ds ps" "wf_inode inode" using fs_okD(2) [OF assms(1) Cons.prems(1)] by (simp_all add: open_file_def file_at_def)
  show ?case
  proof (cases "dir_of s F off")
    case None
    then have "i_type inode = REGULAR_TYPE" "ns \<noteq> []" using Cons.prems(1,3) by (auto simp: dir_of_def split: if_splits)
    then have "readInode_loop s inode off (joined (n # ns)) = Some (-1, inode, off)"
      using n stringChr_name(2) [of n "joined ns"] by (subst readInode_loop.simps) (simp add: joined_Cons name_ok_def)
    then show ?thesis using None fa(2) by simp
  next
    case (Some es)
    then have es: "es = entries s ds" "i_type inode \<noteq> REGULAR_TYPE" using Cons.prems(1) by (auto simp: dir_of_def split: if_splits)
    note step = readInode_step [OF fa(1) n, of ns off]
    show ?thesis
    proof (cases "List.find (hit n) es")
      case None
      then show ?thesis using Some step es fa(2) by simp
    next
      case e: (Some e)
      obtain inode' ds' ps' where F': "F (d_inode e) = Some (inode', ds', ps')"
        using fs_okD(4) [OF assms(1) Some, of e] find_hit [OF e] by auto
      have o': "inode_offset (d_inode e)" "inode_at (media_of s) (d_inode e) = inode'"
        using fs_okD(2) [OF assms(1) F'] by (simp_all add: open_file_def)
      have "\<not> ends_in_file (dir_of s F) (d_inode e) ns" using Cons.prems(3) Some e by simp
      then have ih: "case walk (dir_of s F) (d_inode e) ns of None \<Rightarrow> \<exists>x o'. readInode_loop s inode' (d_inode e) (joined ns) = Some (-1, x, o') \<and> wf_inode x
        | Some off' \<Rightarrow> readInode_loop s inode' (d_inode e) (joined ns) = Some (0, inode_at (media_of s) off', off')"
        using Cons.IH [OF F'] Cons.prems(2) by simp
      have w: "walk (dir_of s F) off (n # ns) = walk (dir_of s F) (d_inode e) ns" using Some e by simp
      have "readInode_loop s inode' (d_inode e) [] = Some (0, inode', d_inode e)" by (subst readInode_loop.simps) simp
      then have st: "readInode_loop s inode off (joined (n # ns)) = readInode_loop s inode' (d_inode e) (joined ns)"
        using step e es o' by simp
      show ?thesis unfolding w st by (rule ih)
    qed
  qed
qed

lemma readInode_loop_through:
  \<comment> \<open>the last name is looked up in whatever the walk has reached\<close>
  assumes "fs_ok s F" "F off = Some (inode, ds, ps)" "\<forall>n \<in> set ns. name_ok n" "name_ok n"
    "walk (dir_of s F) off ns = Some off'" "F off' = Some (inode', ds', ps')"
    "List.find (hit n) (entries s ds') = Some e" "inode_offset (d_inode e)"
  shows "readInode_loop s inode off (joined (ns @ [n])) = Some (0, inode_at (media_of s) (d_inode e), d_inode e)"
  using assms(2,3,5)
proof (induction ns arbitrary: off inode ds ps)
  case Nil
  have "file_at s inode ds ps" using fs_okD(2) [OF assms(1) Nil(1)] by (simp add: open_file_def)
  then show ?case using readInode_step [of s inode ds ps n "[]" off] assms(4,6-8) Nil by simp
next
  case (Cons m ns)
  have fa: "file_at s inode ds ps" using fs_okD(2) [OF assms(1) Cons.prems(1)] by (simp add: open_file_def)
  obtain es x where x: "dir_of s F off = Some es" "List.find (hit m) es = Some x" "walk (dir_of s F) (d_inode x) ns = Some off'"
    using Cons.prems(3) by (auto split: option.splits)
  then have es: "es = entries s ds" "i_type inode \<noteq> REGULAR_TYPE" using Cons.prems(1) by (auto simp: dir_of_def split: if_splits)
  obtain inode1 ds1 ps1 where F': "F (d_inode x) = Some (inode1, ds1, ps1)"
    using fs_okD(4) [OF assms(1) x(1), of x] find_hit [OF x(2)] by auto
  have o': "inode_offset (d_inode x)" "inode_at (media_of s) (d_inode x) = inode1"
    using fs_okD(2) [OF assms(1) F'] by (simp_all add: open_file_def)
  show ?case using readInode_step [OF fa, of m "ns @ [n]" off] Cons.IH [OF F' _ x(3)] Cons.prems(2) x(2) es o' by simp
qed

lemma readInode_root:
  assumes "fs_ok s F"
  shows "\<exists>r ds ps. F root_inode = Some (r, ds, ps) \<and> (\<forall>inode ns. readInode s inode (path_of ns) = readInode_loop s r root_inode (joined ns))"
proof -
  obtain r ds ps where F: "F root_inode = Some (r, ds, ps)" using fs_okD(1) [OF assms(1)] by auto
  have o: "open_file s root_inode r ds ps" using fs_okD(2) [OF assms(1) F] .
  then have m: "mounted s" using file_bound(4) [of s r ds ps] by (simp add: open_file_def)
  have g: "arr (gDesc s) 0 = Some (hd (gDesc s))" using m by (cases "gDesc s") (simp_all add: mounted_def)
  have a: "i32 (gd_inodeTable (hd (gDesc s)) * 512) = root_inode" using m by (simp add: mounted_def root_inode_def inode_addr_def i32_id in32_def)
  have b: "read_disk (media_of s) INODE_SIZE 1 root_inode = Some (rd_at (media_of s) (nat root_inode) 128)"
    "dec_inode (rd_at (media_of s) (nat root_inode) 128) = r"
    using o read_inode(1) [of root_inode s] read_inode(2) [of s root_inode] by (simp_all add: open_file_def)
  show ?thesis using F by (simp add: readInode_def path_of_def g a b Let_def)
qed

lemma readInode_walk:
  assumes "fs_ok s F" "\<forall>n \<in> set ns. name_ok n" "\<not> ends_in_file (dir_of s F) root_inode ns"
  shows "case walk (dir_of s F) root_inode ns of
      None \<Rightarrow> \<exists>x o'. readInode s inode (path_of ns) = Some (-1, x, o') \<and> wf_inode x
    | Some off \<Rightarrow> readInode s inode (path_of ns) = Some (0, inode_at (media_of s) off, off)"
  using readInode_root [OF assms(1)] readInode_loop_walk [OF assms(1) _ assms(2,3)] by (auto split: option.splits)

subsection \<open>Writing a file keeps the names\<close>

lemma entries_same:
  assumes "mounted s" "mounted t" "\<And>u. u \<in> set ds \<Longrightarrow> block_of t u = block_of s u"
  shows "entries t ds = entries s ds"
proof -
  have "dir_entries t b = dir_entries s b" for b using assms(1,2) by (simp add: dir_entries_def entries_per_block)
  then have "map (\<lambda>u. dir_entries t (block_of t u)) ds = map (\<lambda>u. dir_entries s (block_of s u)) ds" using assms(3) by simp
  then show ?thesis by (simp only: entries_def)
qed

lemma fs_ok_mounted: "fs_ok s F \<Longrightarrow> mounted s"
  using fs_okD(1,2) file_bound(4) by (fastforce simp: open_file_def)

lemma changed_other:
  \<comment> \<open>the blocks of another file are not touched\<close>
  assumes "fs_ok s F" "F off = Some (inode, ds, ps)" "F off2 = Some (inode2, ds2, ps2)" "off2 \<noteq> off"
    "changed s t off (set ds \<union> set ps) us" "u \<in> set ds2 \<union> set ps2"
  shows "block_of t u = block_of s u" "u \<notin> set us"
proof -
  have "open_file s off2 inode2 ds2 ps2" using fs_okD(2) [OF assms(1,3)] .
  then have "used (block_bm s) u" using assms(6) by (auto simp: open_file_def file_at_def owned_def)
  moreover have "u \<notin> set ds \<union> set ps" using fs_okD(3) [OF assms(1,2,3)] assms(4,6) by auto
  ultimately show "block_of t u = block_of s u" "u \<notin> set us" using assms(5) unfolding changed_def by blast+
qed

lemma fs_ok_grows:
  assumes "fs_ok s F" "F off = Some (inode, ds, ps)" "i_type inode = REGULAR_TYPE" "grows s t off inode' ds ps ds' ps'"
    "open_file t off inode' ds' ps'" "i_type inode' = i_type inode"
  shows "dir_of t (F(off \<mapsto> (inode', ds', ps'))) = dir_of s F" "fs_ok t (F(off \<mapsto> (inode', ds', ps')))"
proof -
  let ?F = "F(off \<mapsto> (inode', ds', ps'))"
  obtain us where us: "changed s t off (set ds \<union> set ps) us" "set ds' \<union> set ps' = set ds \<union> set ps \<union> set us"
    using assms(4) by (auto simp: grows_def)
  have m: "mounted s" "mounted t" using fs_ok_mounted [OF assms(1)] file_bound(4) [of t inode' ds' ps'] assms(5) by (simp_all add: open_file_def)
  note other = changed_other [OF assms(1,2) _ _ us(1)]
  show D: "dir_of t ?F = dir_of s F"
  proof
    fix o'
    show "dir_of t ?F o' = dir_of s F o'"
    proof (cases "o' = off")
      case True
      then show ?thesis using assms(2,3,6) by (simp add: dir_of_def)
    next
      case False
      then show ?thesis using entries_same [OF m] other(1) [of o'] by (auto simp: dir_of_def split: option.splits)
    qed
  qed
  have o: "open_file t o' inode2 ds2 ps2" if "?F o' = Some (inode2, ds2, ps2)" for o' inode2 ds2 ps2
  proof (cases "o' = off")
    case False
    then have F': "F o' = Some (inode2, ds2, ps2)" using that by simp
    have "(set ds \<union> set ps) \<inter> (set ds2 \<union> set ps2) = {}" using fs_okD(3) [OF assms(1,2) F'] False by blast
    then show ?thesis using grows_frame(1) [OF assms(4) fs_okD(2) [OF assms(1) F'] False] by blast
  qed (use that assms(5) in simp)
  have new: "(set ds' \<union> set ps') \<inter> (set ds2 \<union> set ps2) = {}" if "F o' = Some (inode2, ds2, ps2)" "o' \<noteq> off" for o' inode2 ds2 ps2
    using fs_okD(3) [OF assms(1,2) that(1)] that(2) other(2) [OF that] us(2) by blast
  have dis: "(set ds1 \<union> set ps1) \<inter> (set ds2 \<union> set ps2) = {}"
    if "?F o1 = Some (inode1, ds1, ps1)" "?F o2 = Some (inode2, ds2, ps2)" "o1 \<noteq> o2" for o1 inode1 ds1 ps1 o2 inode2 ds2 ps2
  proof -
    note h = that
    consider "o1 = off" "o2 \<noteq> off" | "o2 = off" "o1 \<noteq> off" | "o1 \<noteq> off" "o2 \<noteq> off" using h(3) by blast
    then show ?thesis
    proof cases
      case 1
      then show ?thesis using h new [of o2] by simp
    next
      case 2
      then show ?thesis using h new [of o1] by (simp add: Int_commute)
    next
      case 3
      then show ?thesis using h fs_okD(3) [OF assms(1), of o1 inode1 ds1 ps1 o2] by simp
    qed
  qed
  have cl: "d_inode e \<in> dom ?F" if "dir_of t ?F o' = Some es" "e \<in> set es" "d_inode e \<noteq> 0" for o' es e
    using fs_okD(4) [OF assms(1)] that unfolding D by auto
  have rt: "root_inode \<in> dom ?F" using fs_okD(1) [OF assms(1)] by simp
  show "fs_ok t ?F" unfolding fs_ok_def using rt o dis cl by blast
qed

subsection \<open>Page files\<close>

lemma open_existing:
  assumes "fs_ok s F" "\<forall>n \<in> set ns. name_ok n" "\<not> ends_in_file (dir_of s F) root_inode ns" "walk (dir_of s F) root_inode ns = Some off"
  shows "syscall_open s st (path_of ns) mode = Some (off, s)"
  using readInode_walk [OF assms(1-3), of "st_inode st"] assms(4) by (simp add: syscall_open_def)

lemma page_descriptor:
  "descriptor (page_fcb off) 3" "mode_can_write (f_flags (page_fcb off))" "mode_can_read (f_flags (page_fcb off))"
  "f_offset (page_fcb off) = int 0" "f_inodeOffset (page_fcb off) = off"
  by (simp_all add: page_fcb_def descriptor_def MAX_FILE_NUM_def mode_can_write_def mode_can_read_def O_RDWR_def O_RDONLY_def)

definition regular :: "fs \<Rightarrow> files \<Rightarrow> cstr list \<Rightarrow> int \<Rightarrow> bool" where
  \<comment> \<open>the path leads to a regular file, at inode \<open>off\<close>\<close>
  "regular s F ns off \<longleftrightarrow> fs_ok s F \<and> (\<forall>n \<in> set ns. name_ok n) \<and> \<not> ends_in_file (dir_of s F) root_inode ns
     \<and> walk (dir_of s F) root_inode ns = Some off \<and> (\<exists>inode ds ps. F off = Some (inode, ds, ps) \<and> i_type inode = REGULAR_TYPE)"

definition bytes_at :: "fs \<Rightarrow> files \<Rightarrow> int \<Rightarrow> byte list" where
  "bytes_at s F off = (case F off of None \<Rightarrow> [] | Some (inode, ds, ps) \<Rightarrow> file_bytes s inode ds)"

lemma page_written:
  assumes "regular s F ns off" "F off = Some (inode, ds, ps)" "length page = 4096" "\<And>k. junk_ok (st_words st k)" "room s (need (length ds) (max (length ds) 4))"
  shows "\<exists>t F'. write_page_to_file s st (path_of ns) page = Some t \<and> regular t F' ns off \<and> take 4096 (bytes_at t F' off) = page \<and> fs_ok t F' \<and> dir_of t F' = dir_of s F
    \<and> (\<forall>off2 inode2 ds2 ps2. off2 \<noteq> off \<and> F off2 = Some (inode2, ds2, ps2)
         \<longrightarrow> F' off2 = Some (inode2, ds2, ps2) \<and> file_bytes t inode2 ds2 = file_bytes s inode2 ds2)"
proof -
  note d = page_descriptor [of off]
  have f: "fs_ok s F" "\<forall>n \<in> set ns. name_ok n" "\<not> ends_in_file (dir_of s F) root_inode ns" "walk (dir_of s F) root_inode ns = Some off"
    "i_type inode = REGULAR_TYPE" using assms(1,2) by (auto simp: regular_def)
  have o: "open_file s (f_inodeOffset (page_fcb off)) inode ds ps" using fs_okD(2) [OF f(1) assms(2)] d(5) by simp
  then have z: "int 0 \<le> i_size inode" by (simp add: open_file_def)
  have r: "room s (need (length ds) (max (length ds) (begun 1024 (0 + 4096))))" using assms(5) by (simp add: begun_def)
  obtain t inode' ds' ps' where t:
    "syscall_writefile s st (page_fcb off) 3 page (int 4096) = Some (int 4096, (page_fcb off)\<lparr>f_offset := int (0 + 4096)\<rparr>, t)"
    "open_file t off inode' ds' ps'" "grows s t off inode' ds ps ds' ps'"
    "file_bytes t inode' ds' = take 0 (file_bytes s inode ds) @ take 4096 page @ drop (0 + 4096) (file_bytes s inode ds)" "i_type inode' = i_type inode"
    using writefile_file [OF o d(1,2,4) z _ _ _ assms(4) r, of page] assms(3) d(5) by auto
  let ?F = "F(off \<mapsto> (inode', ds', ps'))"
  note g = fs_ok_grows [OF f(1) assms(2) f(5) t(3,2,5)]
  have "write_page_to_file s st (path_of ns) page = Some t"
    using open_existing [OF f(1-4)] t(1) by (simp add: write_page_to_file_def PAGE_SIZE_4K_def)
  moreover have "regular t ?F ns off" using f g t(5) by (auto simp: regular_def)
  moreover have "take 4096 (bytes_at t ?F off) = page" using t(4) assms(3) by (simp add: bytes_at_def)
  moreover have "?F off2 = Some (inode2, ds2, ps2) \<and> file_bytes t inode2 ds2 = file_bytes s inode2 ds2"
    if "off2 \<noteq> off" "F off2 = Some (inode2, ds2, ps2)" for off2 inode2 ds2 ps2
    using grows_frame(2) [OF t(3) fs_okD(2) [OF f(1) that(2)] that(1)] fs_okD(3) [OF f(1) assms(2) that(2)] that by auto
  ultimately show ?thesis using g by blast
qed

lemma page_read:
  assumes "regular s F ns off" "take 4096 (bytes_at s F off) = page" "length page = 4096" "length page2 = 4096"
  shows "read_file_to_page s st (path_of ns) page2 = Some page"
proof -
  note d = page_descriptor [of off]
  obtain inode ds ps where f: "fs_ok s F" "\<forall>n \<in> set ns. name_ok n" "\<not> ends_in_file (dir_of s F) root_inode ns" "walk (dir_of s F) root_inode ns = Some off"
    "F off = Some (inode, ds, ps)" using assms(1) by (auto simp: regular_def)
  have "take 4096 (drop 0 (file_bytes s inode ds)) = page" using assms(2) f(5) by (simp add: bytes_at_def)
  then have "syscall_readfile s st (page_fcb off) 3 page2 (int 4096) = Some (int 4096, (page_fcb off)\<lparr>f_offset := int (0 + 4096)\<rparr>, page)"
    using readfile_file [of s "page_fcb off" inode ds ps 3 0 4096 page2 st] d fs_okD(2) [OF f(1,5)] assms(3,4) by simp
  then show ?thesis using open_existing [OF f(1-4)] by (simp add: read_file_to_page_def PAGE_SIZE_4K_def)
qed

text \<open>A page written to its page file is read back. For a file that \<^verbatim>\<open>write_page_to_file\<close> finds under its path, with room on the disk,
  the call succeeds, and \<^verbatim>\<open>read_file_to_page\<close> of the same path then fills a page of any contents with exactly the bytes that were written.
  The names are as before, and the file system is well formed with only that file changed: every other file, the other page
  files among them, keeps its inode, its blocks and its bytes.\<close>

theorem pagefile_roundtrip:
  assumes "regular s F ns off" "F off = Some (inode, ds, ps)" "length page = 4096" "length page2 = 4096" "\<And>k. junk_ok (st_words st k)"
    "room s (need (length ds) (max (length ds) 4))"
  shows "\<exists>t F'. write_page_to_file s st (path_of ns) page = Some t \<and> read_file_to_page t st2 (path_of ns) page2 = Some page
    \<and> fs_ok t F' \<and> dir_of t F' = dir_of s F
    \<and> (\<forall>off2 inode2 ds2 ps2. off2 \<noteq> off \<and> F off2 = Some (inode2, ds2, ps2)
         \<longrightarrow> F' off2 = Some (inode2, ds2, ps2) \<and> file_bytes t inode2 ds2 = file_bytes s inode2 ds2)"
  using page_written [where st = st, OF assms(1-3,5,6)] page_read [OF _ _ assms(3,4)] by metis

subsection \<open>Opening by path\<close>

text \<open>C7. Opening a path follows its names. On a well-formed file system \<^verbatim>\<open>syscall_open\<close> without \<^verbatim>\<open>O_CREAT\<close> returns the inode
  that the names of the path lead to from the root, directory by directory, and \<open>-1\<close> when a name is missing or a name before the last one is a
  regular file; the disk is not changed. In a directory the first used entry that starts with the name counts. (A last name below
  a regular file is the exception, stated below.)\<close>

theorem open_follows_path:
  assumes "fs_ok s F" "\<forall>n \<in> set ns. name_ok n" "\<not> ends_in_file (dir_of s F) root_inode ns" "mode AND O_CREAT = 0"
  shows "syscall_open s st (path_of ns) mode = Some (case walk (dir_of s F) root_inode ns of None \<Rightarrow> -1 | Some off \<Rightarrow> off, s)"
  using readInode_walk [OF assms(1-3), of "st_inode st"] assms(4) by (auto simp: syscall_open_def split: option.splits)

text \<open>C18. A regular file is searched as a directory. When the names before the last one lead to a regular file, the last name is
  looked up in the contents of that file, taken as directory entries: \<^verbatim>\<open>syscall_open\<close> returns whatever inode address the bytes of the file
  give, so that a process that can write a file can open any inode.\<close>

theorem file_searched_as_directory:
  assumes "fs_ok s F" "\<forall>n \<in> set ns. name_ok n" "name_ok n" "walk (dir_of s F) root_inode ns = Some off"
    "F off = Some (inode, ds, ps)" "i_type inode = REGULAR_TYPE" "List.find (hit n) (entries s ds) = Some e" "inode_offset (d_inode e)"
  shows "dir_of s F off = None \<and> syscall_open s st (path_of (ns @ [n])) mode = Some (d_inode e, s)"
proof -
  obtain r rs rp where r: "F root_inode = Some (r, rs, rp)"
    "\<And>inode ns. readInode s inode (path_of ns) = readInode_loop s r root_inode (joined ns)" using readInode_root [OF assms(1)] by blast
  have "readInode s (st_inode st) (path_of (ns @ [n])) = Some (0, inode_at (media_of s) (d_inode e), d_inode e)"
    unfolding r(2) by (rule readInode_loop_through [OF assms(1) r(1) assms(2-5,7,8)])
  then show ?thesis using assms(5,6) by (simp add: dir_of_def syscall_open_def)
qed

subsection \<open>A sample\<close>

lemma entry_put_entry:
  assumes "length b = 1024" "wf_de e" "j < 8" "k < 8"
  shows "entry_at (put_entry b j e) k = (if k = j then e else entry_at b k)" "length (put_entry b j e) = 1024"
proof -
  have l: "length (enc_de e) = 128" using assms(2) by (rule length_enc)
  show "length (put_entry b j e) = 1024" using assms l by (simp add: put_entry_def)
  consider "k = j" | "k < j" | "j < k" by linarith
  then show "entry_at (put_entry b j e) k = (if k = j then e else entry_at b k)"
  proof cases
    case 1
    then show ?thesis using assms l by (simp add: put_entry_def entry_at_def dec_enc_de)
  next
    case 2
    then have "128 * k + 128 \<le> 128 * j" by simp
    then show ?thesis using assms l 2 by (simp add: put_entry_def entry_at_def take_drop)
  next
    case 3
    then have "128 * j + 128 \<le> 128 * k" by simp
    then show ?thesis using assms l 3 by (simp add: put_entry_def entry_at_def)
  qed
qed

definition sample_entry :: "string \<Rightarrow> int \<Rightarrow> DirEntry" where
  "sample_entry name off = \<lparr>d_inode = off, d_name = strncpy 64 (str name), d_pad = replicate 60 0\<rparr>"

definition sample_dir :: Inode where
  "sample_dir = sample_inode\<lparr>i_type := DIRECTORY_TYPE, i_size := 1024\<rparr>"

definition sample_page :: Inode where
  "sample_page = sample_inode\<lparr>i_pointer := 2058 # replicate 11 0\<rparr>"

definition sample_disk2 :: fs where
  "sample_disk2 = block_took sample_disk 1"

definition sample_tree :: fs where
  \<comment> \<open>the root directory in block 0, with one entry \<^verbatim>\<open>page0\<close>, a file whose block 1 looks like a directory with an entry \<^verbatim>\<open>x\<close>\<close>
  "sample_tree = put_inode (put_inode (put_block (put_block sample_disk2
     0 (put_entry (replicate 1024 0) 0 (sample_entry ''page0'' (inode_addr 5))))
     1 (put_entry (replicate 1024 0) 0 (sample_entry ''x'' (inode_addr 9)))) root_inode sample_dir) (inode_addr 5) sample_page"

definition sample_files :: files where
  "sample_files = [root_inode \<mapsto> (sample_dir, [0], []), inode_addr 5 \<mapsto> (sample_page, [1], [])]"

lemma sample_disk2_grown: "grown (fs_with 8196 3070 []) sample_disk2 [] [0, 1]" "block_avail sample_disk2 = 3068" "block_units sample_disk2 = 3070"
proof -
  let ?s = "fs_with 8196 3070 []"
  note g = sample_disk_grown(1) [unfolded grown_def]
  have r: "room sample_disk (Suc 0)" using sample_file(2) by simp
  obtain u where u: "getAvailBlock sample_disk 0 = Some (0, block_addr u, block_took sample_disk u)" "grown ?s (block_took sample_disk u) [] ([0] @ [u])"
    using grown_get [OF sample_disk_grown(1) r] by blast
  have b: "used (block_bm sample_disk) 0" "\<not> used (block_bm sample_disk) 1" using g by (simp_all add: fs_with_pool)
  have "getAvailBlock sample_disk 0 = Some (0, block_addr 1, block_took sample_disk 1)"
    by (rule get_block_found) (use g b sample_disk_grown(2) in \<open>simp_all only: block_accounted_def\<close>, simp_all)
  then have "u = 1" using u(1) by (simp add: addr_inj)
  then show "grown ?s sample_disk2 [] [0, 1]" using u(2) by (simp add: sample_disk2_def)
  then show "block_avail sample_disk2 = 3068" "block_units sample_disk2 = 3070"
    by (auto simp: grown_def fs_with_pool blocks_one_def)
qed

lemma sample_tree_wf:
  "wf_inode sample_dir" "wf_inode sample_page" "inode_offset root_inode" "inode_offset (inode_addr 5)" "inode_offset (inode_addr 9)"
  "wf_de (sample_entry ''page0'' (inode_addr 5))" "wf_de (sample_entry ''x'' (inode_addr 9))" "root_inode \<noteq> inode_addr 5"
  by (auto simp: wf_inode_def sample_dir_def sample_page_def sample_inode_def in16_def in32_def list_all_iff DIRECTORY_TYPE_def
      inode_offset_def root_inode_def inode_addr_def wf_de_def sample_entry_def strncpy_def str_def
      intro: exI [of _ "0::nat"] exI [of _ "5::nat"] exI [of _ "9::nat"])

lemma le_nat_zero: "le_nat (replicate n 0) = 0"
  by (induction n) simp_all

lemma zero_entry: "k < 8 \<Longrightarrow> d_inode (entry_at (replicate 1024 0) k) = 0"
  by (simp add: entry_at_def dec_de_def get32_def le_nat_zero i32_def)

lemma one_entry:
  assumes "mounted s" "wf_de e" "block_of s u = put_entry (replicate 1024 0) 0 e"
  shows "\<exists>zs. entries s [u] = e # zs \<and> zs \<noteq> [] \<and> (\<forall>z \<in> set zs. d_inode z = 0)"
proof -
  let ?b = "put_entry (replicate 1024 0) 0 e"
  have "entries s [u] = map (entry_at ?b) (0 # [1..<8])"
    using assms by (simp add: entries_def dir_entries_def entries_per_block upt_rec)
  moreover have "entry_at ?b 0 = e" "\<forall>k \<in> set [1..<8]. d_inode (entry_at ?b k) = 0"
    using entry_put_entry(1) [of "replicate 1024 0" e 0] assms(2) by (auto simp: zero_entry)
  ultimately show ?thesis by (intro exI [of _ "map (entry_at ?b) [1..<8]"]) simp
qed

lemma sample_tree_parts:
  "open_file sample_tree root_inode sample_dir [0] []" "open_file sample_tree (inode_addr 5) sample_page [1] []"
  "block_of sample_tree 0 = put_entry (replicate 1024 0) 0 (sample_entry ''page0'' (inode_addr 5))"
  "block_of sample_tree 1 = put_entry (replicate 1024 0) 0 (sample_entry ''x'' (inode_addr 9))" "room sample_tree 3"
proof -
  let ?b0 = "put_entry (replicate 1024 0) 0 (sample_entry ''page0'' (inode_addr 5))"
  let ?b1 = "put_entry (replicate 1024 0) 0 (sample_entry ''x'' (inode_addr 9))"
  let ?s = "put_block (put_block sample_disk2 0 ?b0) 1 ?b1"
  note w = sample_tree_wf and g = sample_disk2_grown(1) [unfolded grown_def]
  have l: "length ?b0 = 1024" "length ?b1 = 1024" using entry_put_entry(2) [of "replicate 1024 0" _ 0 0] w(6,7) by simp_all
  have acc: "block_accounted ?s" using g l by simp
  have own: "owned ?s [0]" "owned ?s [1]" using g l by (auto simp: owned_def)
  have d: "file_at ?s sample_dir [0] []"
    using acc w(1) own(1) by (simp add: file_at_def linked_def sample_dir_def sample_inode_def block_addr_def pointer_blocks_def)
  have p: "file_at ?s sample_page [1] []"
    using acc w(2) own(2) by (simp add: file_at_def linked_def sample_page_def sample_inode_def block_addr_def pointer_blocks_def)
  let ?t = "put_inode ?s root_inode sample_dir"
  have o: "open_file ?t root_inode sample_dir [0] []" using d w(3) by (intro open_put_inode) (simp_all add: sample_dir_def)
  have fd: "file_at ?t sample_dir [0] []" using o by (simp add: open_file_def)
  show "open_file sample_tree (inode_addr 5) sample_page [1] []"
    unfolding sample_tree_def using file_at_put_inode [OF p w(3,1)] w(4) by (intro open_put_inode) (simp_all add: sample_page_def sample_inode_def)
  show "open_file sample_tree root_inode sample_dir [0] []"
    using file_at_put_inode [OF fd w(4,2)] inode_at_put_inode [OF w(4,3,8,2), of ?t] o by (simp add: open_file_def sample_tree_def)
  show "block_of sample_tree 0 = ?b0" "block_of sample_tree 1 = ?b1"
    using l by (simp_all add: sample_tree_def put_inode_regions(1) [OF w(4,2)] put_inode_regions(1) [OF w(3,1)])
  show "room sample_tree 3"
    using acc sample_disk2_grown(2,3) l by (simp add: room_def sample_tree_def ready_put_inode [OF w(4,2)] ready_put_inode [OF w(3,1)])
qed

lemma sample_tree_ok: "fs_ok sample_tree sample_files"
  "dir_of sample_tree sample_files root_inode = Some (entries sample_tree [0])" "dir_of sample_tree sample_files (inode_addr 5) = None"
proof -
  note o = sample_tree_parts and w = sample_tree_wf
  have m: "mounted sample_tree" using file_bound(4) [of sample_tree sample_dir "[0]" "[]"] o(1) by (simp add: open_file_def)
  obtain zs where zs: "entries sample_tree [0] = sample_entry ''page0'' (inode_addr 5) # zs" "\<forall>z \<in> set zs. d_inode z = 0"
    using one_entry [OF m w(6) o(3)] by blast
  show d: "dir_of sample_tree sample_files root_inode = Some (entries sample_tree [0])" "dir_of sample_tree sample_files (inode_addr 5) = None"
    using w(8) by (simp_all add: dir_of_def sample_files_def sample_dir_def sample_page_def sample_inode_def DIRECTORY_TYPE_def REGULAR_TYPE_def)
  have c: "d_inode e \<in> dom sample_files" if "dir_of sample_tree sample_files x = Some es" "e \<in> set es" "d_inode e \<noteq> 0" for x es e
  proof -
    have "x = root_inode" using that(1) d(2) by (auto simp: dir_of_def sample_files_def split: if_splits)
    then show ?thesis using that d(1) zs by (auto simp: sample_entry_def sample_files_def)
  qed
  show "fs_ok sample_tree sample_files"
    unfolding fs_ok_def using o(1,2) w(8) c by (auto simp: sample_files_def split: if_splits)
qed

lemma sample_walk:
  "walk (dir_of sample_tree sample_files) root_inode [str ''page0''] = Some (inode_addr 5)"
  "ends_in_file (dir_of sample_tree sample_files) root_inode [str ''page0''] = False"
  "\<forall>n \<in> set [str ''page0'']. name_ok n" "name_ok (str ''x'')"
  "List.find (hit (str ''x'')) (entries sample_tree [1]) = Some (sample_entry ''x'' (inode_addr 9))"
proof -
  have m: "mounted sample_tree" using file_bound(4) [of sample_tree sample_dir "[0]" "[]"] sample_tree_parts(1) by (simp add: open_file_def)
  have h: "hit (str n) (sample_entry n off)" if "length n \<le> 64" "off \<noteq> 0" for n off
    using that by (simp add: hit_def sample_entry_def strncpy_def str_def)
  have a: "inode_addr 5 \<noteq> 0" "inode_addr 9 \<noteq> 0" by (simp_all add: inode_addr_def)
  obtain zs where "entries sample_tree [0] = sample_entry ''page0'' (inode_addr 5) # zs"
    using one_entry [OF m sample_tree_wf(6) sample_tree_parts(3)] by blast
  then have f: "List.find (hit (str ''page0'')) (entries sample_tree [0]) = Some (sample_entry ''page0'' (inode_addr 5))"
    using h [of "''page0''"] a(1) by simp
  then show "walk (dir_of sample_tree sample_files) root_inode [str ''page0''] = Some (inode_addr 5)"
    "ends_in_file (dir_of sample_tree sample_files) root_inode [str ''page0''] = False"
    by (simp_all add: sample_tree_ok(2)) (simp add: sample_entry_def)
  obtain zs where "entries sample_tree [1] = sample_entry ''x'' (inode_addr 9) # zs"
    using one_entry [OF m sample_tree_wf(7) sample_tree_parts(4)] by blast
  then show "List.find (hit (str ''x'')) (entries sample_tree [1]) = Some (sample_entry ''x'' (inode_addr 9))"
    using h [of "''x''"] a(2) by simp
qed (simp_all add: name_ok_def str_def slash_def of_char_def)

lemma sample_page_file:
  "sample_files (inode_addr 5) = Some (sample_page, [1], [])" "i_type sample_page = REGULAR_TYPE"
  "room sample_tree (need (length [1::nat]) (max (length [1::nat]) 4))" "junk_ok (st_words sample_stack k)"
  using sample_tree_wf(8) sample_tree_parts(5) sample_junk_ok(1)
  by (simp_all add: sample_files_def sample_page_def sample_inode_def REGULAR_TYPE_def sample_stack_def need_def pointer_blocks_def)

theorem open_follows_path_witness:
  "syscall_open sample_tree sample_stack (path_of [str ''page0'']) O_RDWR
     = Some (case walk (dir_of sample_tree sample_files) root_inode [str ''page0''] of None \<Rightarrow> -1 | Some off \<Rightarrow> off, sample_tree)
   \<and> walk (dir_of sample_tree sample_files) root_inode [str ''page0''] = Some (inode_addr 5)"
  using open_follows_path [OF sample_tree_ok(1) sample_walk(3), of O_RDWR sample_stack] sample_walk(1,2)
  by (simp add: O_RDWR_def O_CREAT_def)

theorem file_searched_as_directory_witness:
  "dir_of sample_tree sample_files (inode_addr 5) = None
    \<and> syscall_open sample_tree sample_stack (path_of ([str ''page0''] @ [str ''x''])) O_RDWR
        = Some (d_inode (sample_entry ''x'' (inode_addr 9)), sample_tree)"
  by (rule file_searched_as_directory [OF sample_tree_ok(1) sample_walk(3,4,1) sample_page_file(1,2) sample_walk(5)])
    (use sample_tree_wf(5) in \<open>simp add: sample_entry_def\<close>)

lemma sample_regular: "regular sample_tree sample_files [str ''page0''] (inode_addr 5)"
  using sample_tree_ok(1) sample_walk sample_page_file(1,2) by (simp add: regular_def)

theorem pagefile_roundtrip_witness:
  "\<exists>t F'. write_page_to_file sample_tree sample_stack (path_of [str ''page0'']) (replicate 4096 7) = Some t
    \<and> read_file_to_page t sample_stack (path_of [str ''page0'']) (replicate 4096 0) = Some (replicate 4096 7)
    \<and> fs_ok t F' \<and> dir_of t F' = dir_of sample_tree sample_files
    \<and> (\<forall>off2 inode2 ds2 ps2. off2 \<noteq> inode_addr 5 \<and> sample_files off2 = Some (inode2, ds2, ps2)
         \<longrightarrow> F' off2 = Some (inode2, ds2, ps2) \<and> file_bytes t inode2 ds2 = file_bytes sample_tree inode2 ds2)"
  by (rule pagefile_roundtrip [OF sample_regular sample_page_file(1) _ _ sample_page_file(4,3)]) simp_all

end
