(* ===== verification/Names.thy ===== *)
theory Names
  imports Paths
begin

text \<open>
  Creating a file. \<^verbatim>\<open>syscall_open\<close> with \<^verbatim>\<open>O_CREAT\<close> (\<^verbatim>\<open>fs.c\<close>) takes the path apart at its last slash, finds the
  directory and lets \<^verbatim>\<open>allocInode\<close> (\<^verbatim>\<open>ext.c\<close>) take a free inode and enter it in the first free entry. Over the
  lists of theory \<open>Paths\<close> this is the update of one element of one directory.
\<close>

subsection \<open>Taking a path apart\<close>

lemma last_of_slash:
  "slash \<notin> set n \<Longrightarrow> length pre < k \<Longrightarrow> k \<le> length (pre @ slash # n) \<Longrightarrow> last_of (pre @ slash # n) slash k = int (length pre)"
proof (induction k)
  case (Suc k)
  show ?case
  proof (cases "k = length pre")
    case True
    then show ?thesis by (simp add: cstr_at_def)
  next
    case False
    then have k: "length pre < k" "k < length (pre @ slash # n)" using Suc.prems by auto
    then have "(pre @ slash # n) ! k = n ! (k - length pre - 1)" by (simp add: nth_append nth_Cons')
    moreover have "n ! (k - length pre - 1) \<in> set n" using k by (intro nth_mem) simp
    ultimately have "cstr_at (pre @ slash # n) k \<noteq> slash" using k(2) Suc.prems(1) by (auto simp: cstr_at_def)
    then show ?thesis using Suc.IH Suc.prems(1) k by simp
  qed
qed simp

lemma find_last_slash:
  assumes "slash \<notin> set n" "int (length pre) \<le> stop" "stop < int (length (pre @ slash # n))"
  shows "find_last_of (pre @ slash # n) slash stop = int (length pre)"
proof -
  have "last_of (pre @ slash # n) slash (nat (stop + 1)) = int (length pre)"
    using assms by (intro last_of_slash) auto
  then show ?thesis using assms(3) by (simp add: find_last_of_def)
qed

lemma joined_snoc: "joined (ns @ [n]) = (if ns = [] then n else joined ns @ slash # n)"
proof (induction ns)
  case (Cons m ns)
  then show ?case by (cases ns) simp_all
qed simp

lemma until_nul_id: "0 \<notin> set s \<Longrightarrow> until_nul s = s"
  by (induction s) auto

lemma until_nul_pad: "0 \<notin> set s \<Longrightarrow> until_nul (s @ replicate m 0) = s"
  by (induction s) (auto, cases m, auto)

lemma joined_no_nul: "\<forall>n \<in> set ns. name_ok n \<Longrightarrow> 0 \<notin> set (joined ns)"
  by (induction ns rule: joined.induct) (auto simp: name_ok_def slash_def)

lemma path_parts:
  assumes "\<forall>n \<in> set ns. name_ok n" "name_ok n" "length (path_of ns) < 64"
  shows "get_father_path (path_of (ns @ [n])) = Some (path_of ns)" "is_dir_path (path_of (ns @ [n])) = Some False"
    "drop (nat (find_last_of (path_of (ns @ [n])) slash (int (length (path_of (ns @ [n]))) - 1) + 1)) (path_of (ns @ [n])) = n"
proof -
  have n: "n \<noteq> []" "slash \<notin> set n" using assms(2) by (auto simp: name_ok_def)
  define pre where "pre = (if ns = [] then [] else path_of ns)"
  have p: "path_of (ns @ [n]) = pre @ slash # n" by (simp add: path_of_def joined_snoc pre_def)
  have ln: "0 < length n" using n(1) by simp
  have a: "find_last_of (pre @ slash # n) slash (int (length (pre @ slash # n)) - 2) = int (length pre)"
    "find_last_of (pre @ slash # n) slash (int (length (pre @ slash # n)) - 1) = int (length pre)"
    using ln by (intro find_last_slash n(2); simp)+
  show "drop (nat (find_last_of (path_of (ns @ [n])) slash (int (length (path_of (ns @ [n]))) - 1) + 1)) (path_of (ns @ [n])) = n"
    unfolding p a(2) by (simp add: nat_add_distrib)
  have "last (pre @ slash # n) \<noteq> slash" using n by (metis last_appendR last_ConsR last_in_set list.distinct(1))
  then show "is_dir_path (path_of (ns @ [n])) = Some False" unfolding p by (simp add: is_dir_path_def)
  have nul: "0 \<notin> set (path_of ns)" using joined_no_nul [OF assms(1)] by (simp add: path_of_def slash_def)
  show "get_father_path (path_of (ns @ [n])) = Some (path_of ns)"
  proof (cases "ns = []")
    case True
    then show ?thesis using a(1) unfolding p get_father_path_def Let_def by (simp add: pre_def path_of_def)
  next
    case False
    then have "pre = path_of ns" "0 < length pre" by (simp_all add: pre_def path_of_def)
    then show ?thesis using a(1) nul assms(3) unfolding p get_father_path_def Let_def a(1)
      by (simp add: strncpy_def NAME_LENGTH_def until_nul_id)
  qed
qed

subsection \<open>The first free entry\<close>

lemma find_slot_spec:
  assumes "\<forall>e \<in> set es. length (d_name e) = 64" "length n \<le> 64" "\<forall>e \<in> set es. \<not> hit n e"
  shows "if \<forall>e \<in> set es. d_inode e \<noteq> 0 then find_slot es j n = Some None
    else \<exists>i < length es. d_inode (es ! i) = 0 \<and> find_slot es j n = Some (Some (False, j + i))"
  using assms
proof (induction es arbitrary: j)
  case (Cons e es)
  show ?case
  proof (cases "d_inode e = 0")
    case False
    then have "find_slot (e # es) j n = find_slot es (Suc j) n"
      using Cons.prems strncmp_prefix [of n "d_name e" "[]"] by (auto simp: hit_def)
    then show ?thesis using False Cons.IH [of "Suc j"] Cons.prems by (auto split: if_splits)
  qed auto
qed simp

lemma entries_nth:
  assumes "mounted s" "k < length ds" "j < 8"
  shows "8 * k + j < length (entries s ds)" "entries s ds ! (8 * k + j) = entry_at (block_of s (ds ! k)) j"
    "length (entries s ds) = 8 * length ds"
proof -
  show l: "length (entries s ds) = 8 * length ds" for ds
    by (induction ds) (simp_all add: entries_def dir_entries_8 [OF assms(1)])
  then show "8 * k + j < length (entries s ds)" using assms(2,3) by simp
  show "entries s ds ! (8 * k + j) = entry_at (block_of s (ds ! k)) j"
    using assms(2)
  proof (induction ds arbitrary: k)
    case (Cons d ds)
    have e: "entries s (d # ds) = dir_entries s (block_of s d) @ entries s ds" by (simp add: entries_def)
    show ?case
    proof (cases k)
      case 0
      then show ?thesis unfolding e using assms(3) dir_entries_8 [OF assms(1), of "block_of s d"] by (simp add: nth_append)
    next
      case (Suc i)
      then have "entries s (d # ds) ! (8 * k + j) = entries s ds ! (8 * i + j)"
        unfolding e using dir_entries_8(1) [OF assms(1), of "block_of s d"] by (simp add: nth_append)
      then show ?thesis using Cons.IH [of i] Cons.prems Suc by simp
    qed
  qed simp
qed

lemma findSlot_spec:
  assumes "file_at s inode ds ps" "length n \<le> 64" "i \<le> length ds" "\<forall>e \<in> set (entries s (drop i ds)). \<not> hit n e"
    "\<exists>e \<in> set (entries s (drop i ds)). d_inode e = 0"
  shows "\<exists>k j. findSlot s inode n buf (int i) = Some (Found (int k) j (block_of s (ds ! k)))
        \<and> k < length ds \<and> j < 8 \<and> d_inode (entry_at (block_of s (ds ! k)) j) = 0"
  using assms(3-)
proof (induction "length ds - i" arbitrary: i buf)
  case 0
  then show ?case by (simp add: entries_def)
next
  case (Suc d)
  let ?b = "block_of s (ds ! i)" and ?f = "findSlot s inode n"
  have i: "i < length ds" using Suc.hyps(2) by linarith
  have bc: "int i < i_blockCount inode" using assms(1) i by (simp add: file_at_def)
  have e: "entries s (drop i ds) = dir_entries s ?b @ entries s (drop (Suc i) ds)"
    using i by (simp add: entries_def Cons_nth_drop_Suc [symmetric])
  have f: "?f buf (int i) = (case find_slot (dir_entries s ?b) 0 n of None \<Rightarrow> None
    | Some None \<Rightarrow> ?f ?b (int (Suc i)) | Some (Some (taken, j)) \<Rightarrow> Some (if taken then Exists else Found (int i) j ?b))"
    using bc by (subst findSlot.simps) (simp add: readBlock_file [OF assms(1) i] add.commute split: option.splits bind_splits)
  note de = dir_entries_8 [OF file_bound(4) [OF assms(1)], of ?b]
  have h: "\<forall>e \<in> set (dir_entries s ?b). \<not> hit n e" using Suc.prems(2) e by simp
  note spec = find_slot_spec [OF de(3) assms(2) h, of 0]
  show ?case
  proof (cases "\<forall>e \<in> set (dir_entries s ?b). d_inode e \<noteq> 0")
    case True
    then have "?f buf (int i) = ?f ?b (int (Suc i))" using spec f by simp
    moreover have "\<exists>e \<in> set (entries s (drop (Suc i) ds)). d_inode e = 0" using Suc.prems(3) e True by auto
    moreover have "d = length ds - Suc i" using Suc.hyps(2) by simp
    ultimately show ?thesis using Suc.hyps(1) [of "Suc i" ?b] Suc.prems(2) i e by simp
  next
    case False
    then obtain j where "j < 8" "d_inode (dir_entries s ?b ! j) = 0" "find_slot (dir_entries s ?b) 0 n = Some (Some (False, j))"
      using spec de(1) by (auto split: if_splits)
    then show ?thesis using f i de(2) by (intro exI [of _ i] exI [of _ j]) simp
  qed
qed

subsection \<open>Taking an inode\<close>

lemma inode_took_region:
  assumes "mounted s" "4096 \<le> a"
  shows "rd_at (media_of (inode_took s n)) a l = rd_at (media_of s) a l"
proof -
  let ?t = "inode_count_add (-1) s"
  have "length (enc_sb (sBlock ?t)) = 1024" "length (enc_gd (hd (gDesc ?t))) = 32" "media_of ?t = media_of s"
    using assms by (simp_all add: inode_count_add_def mounted_def wf_sb_def wf_gd_def enc_sb_def enc_gd_def)
  then show ?thesis using assms(2) by (simp add: inode_took_def commit_def rd_at_blit_disjoint)
qed

lemma inode_took_rest:
  assumes "inode_ready s" "0 < inode_avail s"
  shows "mounted (inode_took s n)" "block_of (inode_took s n) u = block_of s u" "block_bm (inode_took s n) = block_bm s"
    "block_units (inode_took s n) = block_units s" "block_avail (inode_took s n) = block_avail s"
    "block_accounted (inode_took s n) = block_accounted s"
    "inode_offset off \<Longrightarrow> inode_at (media_of (inode_took s n)) off = inode_at (media_of s) off"
proof -
  have ms: "mounted s" using assms(1) by (simp add: inode_ready_def)
  have m: "mounted (inode_count_add (-1) s)"
    using assms by (intro mounted_inode_count_add) (auto simp: inode_ready_def inode_avail_def)
  then show mt: "mounted (inode_took s n)" by (simp add: inode_took_def)
  show "block_of (inode_took s n) u = block_of s u" using ms by (simp add: block_of_def inode_took_region block_byte_def)
  show b: "block_bm (inode_took s n) = block_bm s" using m by (simp add: inode_took_def) (simp add: block_bm_def inode_count_add_def)
  show u: "block_units (inode_took s n) = block_units s" "block_avail (inode_took s n) = block_avail s"
    by (simp_all add: block_units_def block_avail_def inode_took_def inode_count_add_def)
  have "block_ready (inode_took s n) = block_ready s"
    using ms mt by (simp add: block_ready_def) (simp add: inode_took_def inode_count_add_def)
  then show "block_accounted (inode_took s n) = block_accounted s" by (simp add: block_accounted_def b u)
  show "inode_at (media_of (inode_took s n)) off = inode_at (media_of s) off" if "inode_offset off"
    using that ms by (auto simp: inode_offset_def inode_at_def inode_addr_def inode_took_region)
qed

lemma open_file_frame:
  \<comment> \<open>an open file in a state that has the same inode, the same pointer blocks and at least the same blocks in use\<close>
  assumes "open_file s off inode ds ps" "block_accounted t" "block_units t = block_units s"
    "\<And>u. used (block_bm s) u \<Longrightarrow> used (block_bm t) u" "\<And>p. p \<in> set ps \<Longrightarrow> block_of t p = block_of s p"
    "inode_at (media_of t) off = inode_at (media_of s) off"
  shows "open_file t off inode ds ps"
  using assms file_at_frame [of s inode ds ps t] by (simp add: open_file_def)

definition enter :: "fs \<Rightarrow> nat \<Rightarrow> int \<Rightarrow> Inode \<Rightarrow> nat \<Rightarrow> nat \<Rightarrow> DirEntry \<Rightarrow> Inode \<Rightarrow> fs" where
  \<comment> \<open>inode \<open>k\<close> taken and initialised, and entry \<open>j\<close> of block \<open>u\<close> of the directory at \<open>dir\<close> set\<close>
  "enter s k dir dinode u j e inode =
     put_inode (put_inode (put_block (inode_took s k) u (put_entry (block_of s u) j e)) dir dinode) (inode_addr k) inode"

lemma enter_rest:
  assumes "inode_ready s" "0 < inode_avail s" "inode_offset dir" "wf_inode dinode" "wf_inode inode" "k < 8192" "wf_de e" "j < 8"
  shows "block_of (enter s k dir dinode u j e inode) v = (if v = u then put_entry (block_of s u) j e else block_of s v)"
    "block_bm (enter s k dir dinode u j e inode) = block_bm s" "block_units (enter s k dir dinode u j e inode) = block_units s"
    "block_accounted (enter s k dir dinode u j e inode) = block_accounted s" "mounted (enter s k dir dinode u j e inode)"
    "inode_offset off \<Longrightarrow> off \<noteq> inode_addr k \<Longrightarrow> off \<noteq> dir \<Longrightarrow> inode_at (media_of (enter s k dir dinode u j e inode)) off = inode_at (media_of s) off"
    "inode_at (media_of (enter s k dir dinode u j e inode)) (inode_addr k) = inode"
    "dir \<noteq> inode_addr k \<Longrightarrow> inode_at (media_of (enter s k dir dinode u j e inode)) dir = dinode"
    "inode_bm (enter s k dir dinode u j e inode) = inode_bm (inode_took s k)"
proof -
  have k: "inode_offset (inode_addr k)" using assms(6) by (auto simp: inode_offset_def)
  have l: "length (put_entry (block_of s u) j e) = 1024" using entry_put_entry(2) [of "block_of s u" e j j] assms(7,8) by simp
  note r = inode_took_rest [OF assms(1,2)] and p = put_inode_regions [OF k assms(5)] put_inode_regions [OF assms(3,4)]
    and q = ready_put_inode [OF k assms(5)] ready_put_inode [OF assms(3,4)]
  show "block_of (enter s k dir dinode u j e inode) v = (if v = u then put_entry (block_of s u) j e else block_of s v)"
    "block_bm (enter s k dir dinode u j e inode) = block_bm s" "block_units (enter s k dir dinode u j e inode) = block_units s"
    "block_accounted (enter s k dir dinode u j e inode) = block_accounted s" "mounted (enter s k dir dinode u j e inode)"
    "inode_at (media_of (enter s k dir dinode u j e inode)) (inode_addr k) = inode"
    "inode_bm (enter s k dir dinode u j e inode) = inode_bm (inode_took s k)"
    using l by (simp_all add: enter_def r p q)
  show "inode_at (media_of (enter s k dir dinode u j e inode)) off = inode_at (media_of s) off"
    if "inode_offset off" "off \<noteq> inode_addr k" "off \<noteq> dir"
    using that l by (simp add: enter_def inode_at_put_inode k assms(3,4,5) r inode_at_put_block)
  show "inode_at (media_of (enter s k dir dinode u j e inode)) dir = dinode" if "dir \<noteq> inode_addr k"
    using that by (simp add: enter_def inode_at_put_inode k assms(3,5) p)
qed

lemma entries_put:
  \<comment> \<open>an entry of one block of a directory replaced\<close>
  assumes "mounted s" "mounted t" "i < length ds" "distinct ds" "j < 8" "wf_de e"
    "\<And>v. v \<in> set ds \<Longrightarrow> block_of t v = (if v = ds ! i then put_entry (block_of s v) j e else block_of s v)"
  shows "entries t ds = (entries s ds)[8 * i + j := e]"
proof (rule nth_equalityI)
  note l = entries_nth(3) [OF assms(1,3,5)] and l' = entries_nth(3) [OF assms(2,3,5)]
  show "length (entries t ds) = length ((entries s ds)[8 * i + j := e])" by (simp add: l l')
  fix x
  assume "x < length (entries t ds)"
  then have x: "x < 8 * length ds" by (simp add: l')
  define p q where "p = x div 8" and "q = x mod 8"
  have pq: "x = 8 * p + q" "q < 8" "p < length ds" using x by (auto simp: p_def q_def)
  have "entry_at (block_of t (ds ! p)) q = (if p = i \<and> q = j then e else entry_at (block_of s (ds ! p)) q)"
    using assms(7) [OF nth_mem [OF pq(3)]] pq assms(3-6) by (simp add: nth_eq_iff_index_eq entry_put_entry(1))
  moreover have "8 * p + q = 8 * i + j \<longleftrightarrow> p = i \<and> q = j" using pq(2) assms(5) by (cases p i rule: linorder_cases) auto
  then have "(entries s ds)[8 * i + j := e] ! (8 * p + q) = (if p = i \<and> q = j then e else entries s ds ! (8 * p + q))"
    using entries_nth(1) [OF assms(1,3,5)] by (cases "p = i \<and> q = j") auto
  ultimately show "entries t ds ! x = (entries s ds)[8 * i + j := e] ! x"
    using entries_nth(2) [OF assms(1) pq(3,2)] entries_nth(2) [OF assms(2) pq(3,2)] unfolding pq(1) by simp
qed

lemma entries_enter:
  assumes "inode_ready s" "0 < inode_avail s" "inode_offset dir" "wf_inode dinode" "wf_inode inode" "k < 8192" "wf_de e" "j < 8"
    "i < length ds" "distinct ds"
  shows "entries (enter s k dir dinode (ds ! i) j e inode) ds = (entries s ds)[8 * i + j := e]"
proof -
  have "mounted s" using assms(1) by (simp add: inode_ready_def)
  then show ?thesis using enter_rest(1,5) [OF assms(1-8), where u = "ds ! i"] assms(7-10) by (intro entries_put) simp_all
qed

lemma fs_ok_enter:
  assumes "fs_ok s F" "F dir = Some (dinode, ds, ps)" "dir_of s F dir = Some es" "inode_ready s" "0 < inode_avail s" "k < 8192" "wf_inode inode" "wf_de e" "i < length ds"
    "j < 8" "inode_addr k \<notin> dom F" "d_inode e = inode_addr k" "i_blockCount inode = 0" "i_size inode = 0"
  defines "t \<equiv> enter s k dir dinode (ds ! i) j e inode" and "F' \<equiv> F(inode_addr k \<mapsto> (inode, [], []))"
  shows "dir_of t F' = (dir_of s F)(dir := Some (es[8 * i + j := e]), inode_addr k := if i_type inode = REGULAR_TYPE then None else Some [])"
    "fs_ok t F'"
proof -
  have o: "open_file s dir dinode ds ps" using fs_okD(2) [OF assms(1,2)] .
  then have d: "inode_offset dir" "wf_inode dinode" "distinct (ds @ ps)" "block_accounted s" "inode_at (media_of s) dir = dinode"
    by (auto simp: open_file_def file_at_def owned_def)
  have ne: "dir \<noteq> inode_addr k" using assms(2,11) by auto
  have es: "es = entries s ds" "i_type dinode \<noteq> REGULAR_TYPE" using assms(2,3) by (auto simp: dir_of_def split: if_splits)
  note r = enter_rest [OF assms(4,5) d(1,2) assms(7,6,8,10), where u = "ds ! i", folded t_def]
  have m: "mounted s" using assms(4) by (simp add: inode_ready_def)
  have u: "ds ! i \<in> set ds" using assms(9) by simp
  have keep: "block_of t v = block_of s v" if "F off = Some (inode2, ds2, ps2)" "v \<in> set ps2 \<or> off \<noteq> dir \<and> v \<in> set ds2" for off inode2 ds2 ps2 v
  proof -
    have "v \<noteq> ds ! i"
    proof (cases "off = dir")
      case True
      then show ?thesis using that assms(2) d(3) u by auto
    next
      case False
      then show ?thesis using fs_okD(3) [OF assms(1,2) that(1)] that(2) u by auto
    qed
    then show ?thesis using r(1) by simp
  qed
  have new: "open_file t (inode_addr k) inode [] []"
    using r(4,7) d(4) assms(6,7,13,14) by (auto simp: open_file_def file_at_def pointer_blocks_def owned_def linked_def inode_offset_def)
  have old: "open_file t off inode2 ds2 ps2" if "F off = Some (inode2, ds2, ps2)" for off inode2 ds2 ps2
  proof (rule open_file_frame [OF fs_okD(2) [OF assms(1) that]])
    have io: "inode_offset off" using fs_okD(2) [OF assms(1) that] by (simp add: open_file_def)
    have "off \<noteq> inode_addr k" using that assms(11) by auto
    then show "inode_at (media_of t) off = inode_at (media_of s) off" using r(6) [OF io] r(8) [OF ne] d(5) by (cases "off = dir") simp_all
  qed (use r(2-4) d(4) keep [OF that] in simp_all)
  show D: "dir_of t F' = (dir_of s F)(dir := Some (es[8 * i + j := e]), inode_addr k := if i_type inode = REGULAR_TYPE then None else Some [])"
  proof
    fix off
    consider "off = inode_addr k" | "off = dir" "off \<noteq> inode_addr k" | "off \<noteq> dir" "off \<noteq> inode_addr k" by blast
    then show "dir_of t F' off = ((dir_of s F)(dir := Some (es[8 * i + j := e]), inode_addr k := if i_type inode = REGULAR_TYPE then None else Some [])) off"
    proof cases
      case 1
      then show ?thesis by (simp add: dir_of_def F'_def entries_def)
    next
      case 2
      then show ?thesis using assms(2) es entries_enter [OF assms(4,5) d(1,2) assms(7,6,8,10,9)] d(3) by (simp add: dir_of_def F'_def t_def)
    next
      case 3
      then show ?thesis using entries_same [OF m r(5)] keep [of off] by (auto simp: dir_of_def F'_def split: option.splits)
    qed
  qed
  have cl: "d_inode x \<in> dom F'" if "dir_of t F' off = Some xs" "x \<in> set xs" "d_inode x \<noteq> 0" for off xs x
  proof -
    have "x = e \<or> (\<exists>off ys. dir_of s F off = Some ys \<and> x \<in> set ys)"
      using that assms(3) unfolding D by (auto split: if_splits dest!: set_update_subset_insert [THEN subsetD])
    then show ?thesis using fs_okD(4) [OF assms(1)] that(3) assms(12) by (auto simp: F'_def)
  qed
  have dis: "(set ds1 \<union> set ps1) \<inter> (set ds2 \<union> set ps2) = {}"
    if "F' o1 = Some (inode1, ds1, ps1)" "F' o2 = Some (inode2, ds2, ps2)" "o1 \<noteq> o2" for o1 inode1 ds1 ps1 o2 inode2 ds2 ps2
  proof (cases "o1 = inode_addr k \<or> o2 = inode_addr k")
    case False
    then show ?thesis using that fs_okD(3) [OF assms(1), of o1 inode1 ds1 ps1 o2] by (simp add: F'_def)
  qed (use that in \<open>auto simp: F'_def\<close>)
  have op: "open_file t off inode2 ds2 ps2" if "F' off = Some (inode2, ds2, ps2)" for off inode2 ds2 ps2
    using that new old by (auto simp: F'_def split: if_splits)
  have rt: "root_inode \<in> dom F'" using fs_okD(1) [OF assms(1)] by (simp add: F'_def)
  show "fs_ok t F'" unfolding fs_ok_def using rt op dis cl by blast
qed

subsection \<open>Creating a file\<close>

fun trail :: "(int \<Rightarrow> DirEntry list option) \<Rightarrow> int \<Rightarrow> cstr list \<Rightarrow> int list" where
  \<comment> \<open>the directories a walk looks into\<close>
  "trail D off [] = []"
| "trail D off (n # ns) = off # (case D off of None \<Rightarrow> []
     | Some es \<Rightarrow> (case List.find (hit n) es of None \<Rightarrow> [] | Some e \<Rightarrow> trail D (d_inode e) ns))"

lemma walk_trail: "\<forall>off' \<in> set (trail D off ns). D' off' = D off' \<Longrightarrow> walk D' off ns = walk D off ns"
  by (induction ns arbitrary: off) (auto split: option.splits)

lemma walk_snoc: "walk D off (ns @ [n]) = (case walk D off ns of None \<Rightarrow> None
    | Some off' \<Rightarrow> (case D off' of None \<Rightarrow> None | Some es \<Rightarrow> map_option d_inode (List.find (hit n) es)))"
  by (induction ns arbitrary: off) (auto split: option.splits)

lemma trail_dom: "fs_ok s F \<Longrightarrow> off \<in> dom F \<Longrightarrow> set (trail (dir_of s F) off ns) \<subseteq> dom F"
proof (induction ns arbitrary: off)
  case (Cons n ns)
  show ?case
  proof (cases "dir_of s F off")
    case (Some es)
    show ?thesis
    proof (cases "List.find (hit n) es")
      case e: (Some e)
      have "d_inode e \<in> dom F" using fs_okD(4) [OF Cons.prems(1) Some, of e] find_hit [OF e] by blast
      then show ?thesis using Cons Some e by simp
    qed (use Some Cons.prems in simp)
  qed (use Cons.prems in simp)
qed simp

lemma find_updated: "\<forall>x \<in> set xs. \<not> P x \<Longrightarrow> i < length xs \<Longrightarrow> P y \<Longrightarrow> List.find P (xs[i := y]) = Some y"
proof (induction xs arbitrary: i)
  case (Cons x xs)
  then show ?case by (cases i) simp_all
qed simp

lemma ends_in_file_snoc: "walk D off ns = Some off' \<Longrightarrow> D off' \<noteq> None \<Longrightarrow> \<not> ends_in_file D off (ns @ [n])"
  by (induction ns arbitrary: off) (auto split: option.splits)

lemma ends_in_file_dir: "walk D off ns = Some off' \<Longrightarrow> \<not> ends_in_file D off ns"
  by (induction ns arbitrary: off) (auto split: option.splits)

definition new_entry :: "DirEntry \<Rightarrow> cstr \<Rightarrow> nat \<Rightarrow> DirEntry" where
  "new_entry e n k = e\<lparr>d_name := strncpy 64 n, d_inode := inode_addr k\<rparr>"

definition new_inode :: "Inode \<Rightarrow> int \<Rightarrow> Inode" where
  "new_inode x type = x\<lparr>i_type := type, i_linkCount := 1, i_blockCount := 0, i_size := 0\<rparr>"

lemma wf_new_entry: "length b = 1024 \<Longrightarrow> j < 8 \<Longrightarrow> k < 8192 \<Longrightarrow> wf_de (new_entry (entry_at b j) n k)"
  by (simp add: wf_de_def new_entry_def entry_at_def dec_de_def strncpy_def inode_addr_def in32_def)

lemma hit_new_entry: "length n \<le> 64 \<Longrightarrow> hit n (new_entry e n k)"
  by (simp add: hit_def new_entry_def strncpy_def inode_addr_def)

lemma wf_new_inode: "wf_inode x \<Longrightarrow> type = REGULAR_TYPE \<or> type = DIRECTORY_TYPE \<Longrightarrow> wf_inode (new_inode x type) \<and> i16 type = type"
  by (auto simp: wf_inode_def new_inode_def REGULAR_TYPE_def DIRECTORY_TYPE_def in16_def in32_def i16_def)

lemma allocInode_enters:
  assumes "open_file s dir dinode ds ps" "name_ok n" "\<forall>e \<in> set (entries s ds). \<not> hit n e" "\<exists>e \<in> set (entries s ds). d_inode e = 0"
    "inode_accounted s" "0 < inode_avail s" "int (inode_units s) \<le> 2 * inode_avail s + 7" "wf_inode x" "type = REGULAR_TYPE \<or> type = DIRECTORY_TYPE"
  shows "\<exists>k i j. k < inode_units s \<and> \<not> used (inode_bm s) k \<and> i < length ds \<and> j < 8 \<and> d_inode (entries s ds ! (8 * i + j)) = 0
    \<and> allocInode s dinode dir x o' n type junk buf = Some (0, dinode, new_inode x type, inode_addr k,
        enter s k dir dinode (ds ! i) j (new_entry (entries s ds ! (8 * i + j)) n k) (new_inode x type))"
proof -
  have f: "file_at s dinode ds ps" "inode_offset dir" "wf_inode dinode" using assms(1) by (simp_all add: open_file_def file_at_def)
  have n: "n \<noteq> []" "length n \<le> 64" using assms(2) by (auto simp: name_ok_def)
  obtain i j where ij: "findSlot s dinode n buf 0 = Some (Found (int i) j (block_of s (ds ! i)))" "i < length ds" "j < 8"
    "d_inode (entry_at (block_of s (ds ! i)) j) = 0"
    using findSlot_spec [OF f(1) n(2), of 0 buf] assms(3,4) by auto
  obtain k where k: "k < inode_units s" "\<not> used (inode_bm s) k" "getAvailInode s o' = Some (0, inode_addr k, inode_took s k)"
    using ino.get_half_full [unfolded accounted_pool, OF assms(5-7)] by blast
  have r: "inode_ready s" using assms(5) by (simp add: inode_accounted_def)
  then have k8: "k < 8192" using k(1) ino.ready_pool [of s] by simp
  then have ko: "inode_offset (inode_addr k)" by (auto simp: inode_offset_def)
  let ?b = "block_of s (ds ! i)"
  have en: "entries s ds ! (8 * i + j) = entry_at ?b j" using entries_nth(2) [OF file_bound(4) [OF f(1)] ij(2,3)] .
  let ?e = "new_entry (entry_at ?b j) n k"
  have we: "wf_de ?e" using wf_new_entry ij(3) k8 by simp
  have l: "length (put_entry ?b j ?e) = 1024" using entry_put_entry(2) [OF _ we ij(3,3)] by simp
  note rest = inode_took_rest [OF r assms(6)]
  have acc: "block_accounted s" using f(1) by (simp add: file_at_def)
  have ft: "file_at (inode_took s k) dinode ds ps" by (rule file_at_frame [OF f(1)]) (simp_all add: rest acc)
  have w: "writeBlock (inode_took s k) dinode (int i) (put_entry ?b j ?e) = Some (0, put_block (inode_took s k) (ds ! i) (put_entry ?b j ?e))"
    by (rule writeBlock_file [OF ft ij(2) l])
  have wi: "wf_inode (new_inode x type)" "i16 type = type" using wf_new_inode [OF assms(8,9)] by auto
  let ?s = "put_block (inode_took s k) (ds ! i) (put_entry ?b j ?e)"
  have "allocInode_finish s dinode dir x o' n type (int i) j ?b
    = Some (0, dinode, new_inode x type, inode_addr k, enter s k dir dinode (ds ! i) j ?e (new_inode x type))"
    using k(3) w ij(3) write_inode [OF f(2,3), of ?s] write_inode [OF ko wi(1), of "put_inode ?s dir dinode"]
    by (simp add: allocInode_finish_def new_entry_def [symmetric] new_inode_def [symmetric] wi(2) put_inode_def enter_def Let_def)
  moreover have "sb_availInodeNum (sBlock s) \<noteq> 0" using assms(6) by (simp add: inode_avail_def)
  ultimately have "allocInode s dinode dir x o' n type junk buf
    = Some (0, dinode, new_inode x type, inode_addr k, enter s k dir dinode (ds ! i) j ?e (new_inode x type))"
    using ij(1) n(1) by (simp add: allocInode_def)
  then show ?thesis using k(1,2) ij(2-4) en by (intro exI [of _ k] exI [of _ i] exI [of _ j]) simp
qed


subsection \<open>A sample\<close>

lemma block_took_inodes:
  assumes "block_ready s" "0 < block_avail s"
  shows "inode_accounted (block_took s n) = inode_accounted s" "inode_avail (block_took s n) = inode_avail s" "inode_units (block_took s n) = inode_units s"
proof -
  have m: "mounted s" using assms(1) by (simp add: block_ready_def)
  have "mounted (block_count_add (-1) s)"
    using assms by (intro mounted_count_add) (auto simp: block_ready_def block_avail_def)
  then have "mounted (block_took s n)" by (simp add: block_took_def)
  then have r: "inode_ready (block_took s n) = inode_ready s"
    using m by (simp add: inode_ready_def) (simp add: block_took_def block_count_add_def)
  show u: "inode_avail (block_took s n) = inode_avail s" "inode_units (block_took s n) = inode_units s"
    by (simp_all add: inode_units_def inode_avail_def block_took_def block_count_add_def)
  show "inode_accounted (block_took s n) = inode_accounted s" by (simp add: inode_accounted_def r u inode_bm_took [OF assms])
qed

lemma fs_ok_took:
  assumes "fs_ok s F" "inode_ready s" "0 < inode_avail s"
  shows "fs_ok (inode_took s n) F" "dir_of (inode_took s n) F = dir_of s F"
proof -
  note r = inode_took_rest [OF assms(2,3), where n = n]
  have m: "mounted s" using fs_ok_mounted [OF assms(1)] .
  show D: "dir_of (inode_took s n) F = dir_of s F"
    using entries_same [OF m r(1)] by (auto simp: dir_of_def r(2) split: option.splits)
  have op: "open_file (inode_took s n) off inode ds ps" if "F off = Some (inode, ds, ps)" for off inode ds ps
  proof (rule open_file_frame [OF fs_okD(2) [OF assms(1) that]])
    show "inode_at (media_of (inode_took s n)) off = inode_at (media_of s) off"
      using r(7) fs_okD(2) [OF assms(1) that] by (simp add: open_file_def)
    show "block_accounted (inode_took s n)" using fs_okD(2) [OF assms(1) that] by (simp add: r(6) open_file_def file_at_def)
  qed (simp_all add: r)
  show "fs_ok (inode_took s n) F" unfolding fs_ok_def D using op fs_okD(1,3,4) [OF assms(1)] by blast
qed

definition sample_named :: fs where
  \<comment> \<open>the sample of \<open>Paths\<close> with its two inodes marked in the bitmap\<close>
  "sample_named = inode_took (inode_took sample_tree 0) 5"

lemma sample_tree_inodes: "inode_accounted sample_tree" "inode_avail sample_tree = inodes_one 8196" "inode_units sample_tree = nat (inodes_one 8196)"
  "inode_bm sample_tree = replicate 1024 0"
proof -
  let ?s = "fs_with 8196 3070 []"
  have acc: "block_ready ?s" "0 < block_avail ?s" "block_ready sample_disk" "0 < block_avail sample_disk" "inode_accounted ?s"
    using fresh_accounted [of 8196] sample_disk_grown by (simp_all add: blocks_one_def block_accounted_def fs_with_pool grown_def)
  note b = block_took_inodes [OF acc(1,2), of 0, folded sample_disk_def] block_took_inodes [OF acc(3,4), of 1, folded sample_disk2_def]
  have bm: "inode_bm sample_disk2 = replicate 1024 0"
    using sample_disk2_grown(1) by (simp add: grown_def fs_with_pool)
  note w = sample_tree_wf
  have l: "length (put_entry (replicate 1024 0) 0 (sample_entry ''page0'' (inode_addr 5))) = 1024"
    "length (put_entry (replicate 1024 0) 0 (sample_entry ''x'' (inode_addr 9))) = 1024"
    using entry_put_entry(2) [of "replicate 1024 0" _ 0 0] w(6,7) by simp_all
  show i: "inode_bm sample_tree = replicate 1024 0"
    using l bm by (simp add: sample_tree_def put_inode_regions(3) [OF w(4,2)] put_inode_regions(3) [OF w(3,1)])
  have h: "sBlock sample_tree = sBlock sample_disk2" "gDesc sample_tree = gDesc sample_disk2" by (simp_all add: sample_tree_def)
  show u: "inode_avail sample_tree = inodes_one 8196" "inode_units sample_tree = nat (inodes_one 8196)"
    using b fs_with_pool(4,5) [of 8196 3070 "[]"] h by (simp_all add: inode_avail_def inode_units_def)
  have "inode_ready sample_tree = inode_ready sample_disk2" "inode_avail sample_tree = inode_avail sample_disk2" "inode_units sample_tree = inode_units sample_disk2"
    using h by (simp_all add: inode_ready_def mounted_def inode_avail_def inode_units_def)
  then have "inode_accounted sample_tree = inode_accounted sample_disk2" by (simp add: inode_accounted_def i bm)
  then show "inode_accounted sample_tree" using b(1,4) acc(5) by simp
qed

lemma sample_named_ok:
  "fs_ok sample_named sample_files" "dir_of sample_named sample_files = dir_of sample_tree sample_files" "inode_accounted sample_named"
  "inode_avail sample_named = 8190" "inode_units sample_named = 8192" "used (inode_bm sample_named) 0" "used (inode_bm sample_named) 5"
proof -
  note t = sample_tree_inodes
  let ?s = "inode_took sample_tree 0"
  have r: "inode_ready sample_tree" "0 < inode_avail sample_tree" using t(1,2) by (simp_all add: inode_accounted_def inodes_one_def)
  have u: "\<not> used (inode_bm sample_tree) 0" using t(4) by simp
  note p = inode_pool_step(1) [OF r, of 0]
  have a: "inode_accounted ?s" using ino.accounted_took [unfolded accounted_pool, OF t(1) r(2) _ u] t(3) by (simp add: inodes_one_def)
  have r': "inode_ready ?s" "0 < inode_avail ?s" using p t(2) by (simp_all add: inodes_one_def)
  note q = inode_pool_step(1) [OF r', of 5]
  have b: "used (inode_bm ?s) 0" "\<not> used (inode_bm ?s) 5" using p by (simp_all add: used_mark t(4))
  show "fs_ok sample_named sample_files" "dir_of sample_named sample_files = dir_of sample_tree sample_files"
    using fs_ok_took [OF fs_ok_took(1) [OF sample_tree_ok(1) r] r'] fs_ok_took(2) [OF sample_tree_ok(1) r] by (simp_all add: sample_named_def)
  show "inode_accounted sample_named"
    using ino.accounted_took [unfolded accounted_pool, OF a r'(2) _ b(2)] p t(3) by (simp add: inodes_one_def sample_named_def)
  show "inode_avail sample_named = 8190" "inode_units sample_named = 8192" using p q t(2,3) by (simp_all add: sample_named_def inodes_one_def)
  show "used (inode_bm sample_named) 0" "used (inode_bm sample_named) 5" using q b by (simp_all add: used_mark sample_named_def)
qed


end
