(* ===== verification/Vga.thy ===== *)
theory Vga
  imports Prelude
begin

text \<open>
  The text console driver, \<^verbatim>\<open>os/src/console/vga.c\<close>: an 80 by 25 screen in mapped video memory, a
  cursor, and the \<^verbatim>\<open>waterline\<close>, the column that a backspace may not cross because the text
  before it was printed by a program and not typed. \<^verbatim>\<open>VGA_MEM\<close> is the list of 16-bit cells of
  the mapped page (2048 cells, the first 2000 of them visible); the bytes that
  \<^verbatim>\<open>update_cursor\<close> sends to the ports are appended to a log.
\<close>

unbundle bit_operations_syntax

type_synonym cell = "16 word"

definition VGA_WIDTH :: int where "VGA_WIDTH = 80"
definition VGA_HEIGHT :: int where "VGA_HEIGHT = 25"
definition VGA_COLOR :: cell where "VGA_COLOR = 0xc00"
definition VGA_CELLS :: nat where "VGA_CELLS = 2048" \<comment> \<open>\<^verbatim>\<open>VGA_MEM_SIZE\<close> bytes of \<^verbatim>\<open>uint16_t\<close>\<close>
definition newline :: byte where "newline = 10"

record vga =
  VGA_MEM :: "cell list"
  displayRow :: int
  displayCol :: int
  waterline :: int
  ports :: "(int \<times> byte) list"

definition posPutchar :: "vga \<Rightarrow> cell \<Rightarrow> vga option" where
  \<comment> \<open>\<^verbatim>\<open>VGA_POS_PUTCHAR\<close>, its argument already converted to \<^verbatim>\<open>uint16_t\<close>\<close>
  "posPutchar v ch =
     do { m \<leftarrow> arr_upd (VGA_MEM v) (displayRow v * VGA_WIDTH + displayCol v) (ch OR VGA_COLOR);
          Some (v\<lparr>VGA_MEM := m\<rparr>) }"

function fill_loop :: "cell list \<Rightarrow> int \<Rightarrow> int \<Rightarrow> cell list option" where
  \<comment> \<open>\<^verbatim>\<open>for (; i < n; ++i) VGA_MEM[i] = 0 | (0xc << 8);\<close>\<close>
  "fill_loop m i n = (if i < n then do { m \<leftarrow> arr_upd m i VGA_COLOR; fill_loop m (i + 1) n } else Some m)"
  by pat_completeness auto
termination by (relation "measure (\<lambda>(m, i, n). nat (n - i))") auto

function clear_rows :: "cell list \<Rightarrow> int \<Rightarrow> int \<Rightarrow> cell list option" where
  \<comment> \<open>the inner loop of \<^verbatim>\<open>clear_screen\<close>: column \<open>i\<close>, rows \<open>j\<close> onwards\<close>
  "clear_rows m i j =
     (if j < VGA_HEIGHT then do { m \<leftarrow> arr_upd m (j * VGA_WIDTH + i) VGA_COLOR; clear_rows m i (j + 1) } else Some m)"
  by pat_completeness auto
termination by (relation "measure (\<lambda>(m, i, j). nat (VGA_HEIGHT - j))") auto

function clear_cols :: "cell list \<Rightarrow> int \<Rightarrow> cell list option" where
  "clear_cols m i = (if i < VGA_WIDTH then do { m \<leftarrow> clear_rows m i 0; clear_cols m (i + 1) } else Some m)"
  by pat_completeness auto
termination by (relation "measure (\<lambda>(m, i). nat (VGA_WIDTH - i))") auto

definition clear_screen :: "vga \<Rightarrow> vga option" where
  "clear_screen v = do { m \<leftarrow> clear_cols (VGA_MEM v) 0; Some (v\<lparr>VGA_MEM := m\<rparr>) }"

function scroll_loop :: "cell list \<Rightarrow> int \<Rightarrow> cell list option" where
  \<comment> \<open>\<^verbatim>\<open>for (; i < VGA_WIDTH * (VGA_HEIGHT - 1); i++) VGA_MEM[i] = VGA_MEM[i + VGA_WIDTH];\<close>\<close>
  "scroll_loop m i =
     (if i < VGA_WIDTH * (VGA_HEIGHT - 1)
      then do { c \<leftarrow> arr m (i + VGA_WIDTH); m \<leftarrow> arr_upd m i c; scroll_loop m (i + 1) } else Some m)"
  by pat_completeness auto
termination by (relation "measure (\<lambda>(m, i). nat (VGA_WIDTH * (VGA_HEIGHT - 1) - i))") auto

definition scroll_screen :: "vga \<Rightarrow> vga option" where
  "scroll_screen v =
     do { m \<leftarrow> scroll_loop (VGA_MEM v) 0;
          m \<leftarrow> fill_loop m (VGA_WIDTH * (VGA_HEIGHT - 1)) (VGA_WIDTH * VGA_HEIGHT);
          Some (v\<lparr>VGA_MEM := m\<rparr>) }"

definition update_cursor :: "vga \<Rightarrow> vga" where
  "update_cursor v =
     (let cursorPos = displayRow v * VGA_WIDTH + displayCol v in
      v\<lparr>ports := ports v @ [(0x3d4, 0x0f), (0x3d5, of_int (cursorPos AND 0xff)),
                            (0x3d4, 0x0e), (0x3d5, of_int (drop_bit 8 cursorPos AND 0xff))]\<rparr>)"

definition check_displayrow :: "vga \<Rightarrow> vga option" where
  "check_displayrow v =
     (if displayRow v = VGA_HEIGHT
      then do { v \<leftarrow> scroll_screen v; Some (v\<lparr>displayRow := VGA_HEIGHT - 1, displayCol := 0\<rparr>) }
      else Some v)"

definition check_displaycol :: "vga \<Rightarrow> vga option" where
  "check_displaycol v =
     (if displayCol v = VGA_WIDTH
      then check_displayrow (v\<lparr>displayCol := 0, displayRow := displayRow v + 1\<rparr>) else Some v)"

definition vga_init :: "cell list \<Rightarrow> vga option" where
  \<comment> \<open>over the page that \<^verbatim>\<open>ps_io_map\<close> returns; row, column and waterline are zero-initialised globals\<close>
  "vga_init page =
     do { v \<leftarrow> clear_screen \<lparr>VGA_MEM = page, displayRow = 0, displayCol = 0, waterline = 0, ports = []\<rparr>;
          Some (update_cursor v) }"

definition vga_putchar :: "vga \<Rightarrow> byte \<Rightarrow> bool \<Rightarrow> vga option" where
  \<comment> \<open>\<^verbatim>\<open>char\<close> is signed: the conversion to \<^verbatim>\<open>uint16_t\<close> extends the sign\<close>
  "vga_putchar v ch Mwaterline =
     do { v \<leftarrow> (if ch = newline
               then check_displayrow (v\<lparr>displayCol := 0, displayRow := displayRow v + 1\<rparr>)
               else do { v \<leftarrow> posPutchar v (scast ch);
                         check_displaycol (v\<lparr>displayCol := displayCol v + 1\<rparr>) });
          Some (v\<lparr>waterline := (if Mwaterline then displayCol v else waterline v)\<rparr>) }"

definition vga_delchar :: "vga \<Rightarrow> vga option" where
  "vga_delchar v =
     (if displayCol v > 0 \<and> displayCol v > waterline v
      then posPutchar (v\<lparr>displayCol := displayCol v - 1\<rparr>) 0 else Some v)"

subsection \<open>The screen as a specification\<close>

definition vga_ok :: "vga \<Rightarrow> bool" where
  "vga_ok v \<longleftrightarrow> length (VGA_MEM v) = VGA_CELLS \<and> 0 \<le> displayRow v \<and> displayRow v < 25
     \<and> 0 \<le> displayCol v \<and> displayCol v < 80 \<and> 0 \<le> waterline v \<and> waterline v < 80"

definition screen :: "vga \<Rightarrow> cell list list" where
  \<comment> \<open>the 25 visible lines\<close>
  "screen v = map (\<lambda>r. take 80 (drop (80 * r) (VGA_MEM v))) [0..<25]"

definition blank_line :: "cell list" where
  "blank_line = replicate 80 VGA_COLOR"

definition glyph :: "byte \<Rightarrow> cell" where
  "glyph ch = scast ch OR VGA_COLOR"

declare fill_loop.simps [simp del] clear_rows.simps [simp del] clear_cols.simps [simp del]
  scroll_loop.simps [simp del]

lemma fill_loop_eq:
  "0 \<le> i \<Longrightarrow> i \<le> n \<Longrightarrow> n \<le> int (length m) \<Longrightarrow>
   fill_loop m i n = Some (take (nat i) m @ replicate (nat (n - i)) VGA_COLOR @ drop (nat n) m)"
proof (induction "nat (n - i)" arbitrary: m i)
  case 0
  then show ?case by (simp add: fill_loop.simps)
next
  case (Suc k)
  let ?m = "m[nat i := VGA_COLOR]"
  have "i < n" using Suc.hyps(2) by simp
  then have "fill_loop m i n = fill_loop ?m (i + 1) n" using Suc.prems by (subst fill_loop.simps) (simp add: arr_upd_def)
  also have "\<dots> = Some (take (nat (i + 1)) ?m @ replicate (nat (n - (i + 1))) VGA_COLOR @ drop (nat n) ?m)"
    using Suc by simp
  finally have "fill_loop m i n = \<dots>" .
  moreover have "take (nat (i + 1)) ?m = take (nat i) m @ [VGA_COLOR]"
    using Suc by (simp add: nat_add_distrib take_Suc_conv_app_nth)
  moreover have "drop (nat n) ?m = drop (nat n) m" using \<open>i < n\<close> Suc.prems by (simp add: nat_less_eq_zless)
  moreover have "nat (n - i) = Suc (nat (n - (i + 1)))" using Suc by simp
  ultimately show ?case by simp
qed

lemma scroll_loop_eq:
  "0 \<le> i \<Longrightarrow> i \<le> 1920 \<Longrightarrow> 2000 \<le> length m \<Longrightarrow>
   scroll_loop m i = Some (take (nat i) m @ take (nat (1920 - i)) (drop (nat (i + 80)) m) @ drop 1920 m)"
proof (induction "nat (1920 - i)" arbitrary: m i)
  case 0
  then have "i = 1920" by simp
  then show ?case by (simp add: scroll_loop.simps VGA_WIDTH_def VGA_HEIGHT_def)
next
  case (Suc k)
  let ?m = "m[nat i := m ! nat (i + 80)]"
  have "i < 1920" using Suc.hyps(2) by simp
  then have "scroll_loop m i = scroll_loop ?m (i + 1)"
    using Suc.prems by (subst scroll_loop.simps) (simp add: arr_upd_def arr_def VGA_WIDTH_def VGA_HEIGHT_def)
  also have "\<dots> = Some (take (nat (i + 1)) ?m @ take (nat (1920 - (i + 1))) (drop (nat (i + 81)) ?m) @ drop 1920 ?m)"
    using Suc by (simp add: algebra_simps)
  finally have "scroll_loop m i = \<dots>" .
  moreover have "take (nat (i + 1)) ?m = take (nat i) m @ [m ! nat (i + 80)]"
    using Suc by (simp add: nat_add_distrib take_Suc_conv_app_nth)
  moreover have "drop (nat (i + 81)) ?m = drop (nat (i + 81)) m" "drop 1920 ?m = drop 1920 m"
    using \<open>i < 1920\<close> Suc.prems by (simp_all add: nat_less_eq_zless nat_less_iff)
  moreover have "take (nat (1920 - i)) (drop (nat (i + 80)) m)
      = m ! nat (i + 80) # take (nat (1920 - (i + 1))) (drop (nat (i + 81)) m)"
  proof -
    have "nat (1920 - i) = Suc (nat (1920 - (i + 1)))" "nat (i + 81) = Suc (nat (i + 80))" using Suc by simp_all
    then show ?thesis using Suc by (simp add: Cons_nth_drop_Suc [symmetric])
  qed
  ultimately show ?case by simp
qed

lemma length_screen [simp]: "length (screen v) = 25"
  by (simp add: screen_def)

lemma screen_line: "length (VGA_MEM v) = VGA_CELLS \<Longrightarrow> r < 25 \<Longrightarrow> length (screen v ! r) = 80"
  by (simp add: screen_def VGA_CELLS_def)

lemma screen_nth:
  "length (VGA_MEM v) = VGA_CELLS \<Longrightarrow> r < 25 \<Longrightarrow> c < 80 \<Longrightarrow> screen v ! r ! c = VGA_MEM v ! (80 * r + c)"
  by (simp add: screen_def VGA_CELLS_def)

lemma screen_eqI:
  assumes "length (VGA_MEM v) = VGA_CELLS" "length s = 25" "\<And>r. r < 25 \<Longrightarrow> length (s ! r) = 80"
    "\<And>r c. r < 25 \<Longrightarrow> c < 80 \<Longrightarrow> VGA_MEM v ! (80 * r + c) = s ! r ! c"
  shows "screen v = s"
  using assms by (intro nth_equalityI) (simp_all add: screen_line screen_nth)

lemma same_cell:
  assumes "c < 80" "c' < 80"
  shows "80 * r + c = 80 * r' + c' \<longleftrightarrow> r = r' \<and> c = (c' :: nat)"
proof
  assume eq: "80 * r + c = 80 * r' + c'"
  have "(80 * r + c) div 80 = r" "(80 * r' + c') div 80 = r'" using assms by simp_all
  with eq show "r = r' \<and> c = c'" by simp
qed simp

lemma same_cell_int:
  assumes "0 \<le> i" "i < 80" "c < 80" "0 \<le> j"
  shows "j * 80 + i = 80 * int r + int c \<longleftrightarrow> j = int r \<and> i = int c"
proof -
  have "j * 80 + i = int (80 * nat j + nat i)" using assms by simp
  then have "j * 80 + i = 80 * int r + int c \<longleftrightarrow> 80 * nat j + nat i = 80 * r + c" by linarith
  also have "\<dots> \<longleftrightarrow> nat j = r \<and> nat i = c" using assms by (intro same_cell) simp_all
  finally show ?thesis using assms by (auto simp: nat_eq_iff)
qed

lemma screen_update:
  assumes "length (VGA_MEM v) = VGA_CELLS" "r < 25" "c < 80"
  shows "screen (v\<lparr>VGA_MEM := (VGA_MEM v)[80 * r + c := x]\<rparr>) = (screen v)[r := (screen v ! r)[c := x]]"
  using assms by (intro screen_eqI) (auto simp: screen_line screen_nth nth_list_update same_cell VGA_CELLS_def)

lemma screen_cong: "VGA_MEM v = VGA_MEM w \<Longrightarrow> screen v = screen w"
  by (simp add: screen_def)

lemma scroll_screen_eq:
  assumes "length (VGA_MEM v) = VGA_CELLS"
  shows "\<exists>m. scroll_screen v = Some (v\<lparr>VGA_MEM := m\<rparr>) \<and> length m = VGA_CELLS
    \<and> screen (v\<lparr>VGA_MEM := m\<rparr>) = tl (screen v) @ [blank_line]"
proof -
  let ?m = "take 1920 (drop 80 (VGA_MEM v)) @ replicate 80 VGA_COLOR @ drop 2000 (VGA_MEM v)"
  have "scroll_screen v = Some (v\<lparr>VGA_MEM := ?m\<rparr>)"
    using assms by (simp add: scroll_screen_def scroll_loop_eq fill_loop_eq VGA_WIDTH_def VGA_HEIGHT_def
        VGA_CELLS_def)
  moreover have "length ?m = VGA_CELLS" using assms by (simp add: VGA_CELLS_def)
  moreover have "screen (v\<lparr>VGA_MEM := ?m\<rparr>) = tl (screen v) @ [blank_line]"
    using assms by (intro screen_eqI)
      (auto simp: VGA_CELLS_def nth_append nth_tl screen_line screen_nth blank_line_def algebra_simps
        less_Suc_eq_le split: if_splits)
  ultimately show ?thesis by blast
qed

lemma nat_pred: "Suc k = nat (n - i) \<Longrightarrow> k = nat (n - (i + 1))"
  by linarith

lemma clear_rows_eq:
  "0 \<le> i \<Longrightarrow> i < 80 \<Longrightarrow> 0 \<le> j \<Longrightarrow> j \<le> 25 \<Longrightarrow> length m = VGA_CELLS \<Longrightarrow>
   \<exists>m'. clear_rows m i j = Some m' \<and> length m' = VGA_CELLS \<and>
     (\<forall>r c. r < 25 \<and> c < 80 \<longrightarrow> m' ! (80 * r + c) = (if int c = i \<and> j \<le> int r then VGA_COLOR else m ! (80 * r + c)))"
proof (induction "nat (25 - j)" arbitrary: m j)
  case 0
  then show ?case by (subst clear_rows.simps) (auto simp: VGA_HEIGHT_def)
next
  case (Suc k)
  then have j: "j < 25" by simp
  let ?m = "m[nat (j * 80 + i) := VGA_COLOR]"
  have step: "clear_rows m i j = clear_rows ?m i (j + 1)"
    using Suc.prems j by (subst clear_rows.simps) (simp add: arr_upd_def VGA_HEIGHT_def VGA_WIDTH_def VGA_CELLS_def)
  have "?m ! (80 * r + c) = (if int c = i \<and> int r = j then VGA_COLOR else m ! (80 * r + c))"
    if "r < 25" "c < 80" for r c
    using that Suc.prems j by (auto simp: nth_list_update VGA_CELLS_def nat_eq_iff same_cell_int)
  moreover have "length ?m = VGA_CELLS" using Suc.prems by simp
  moreover obtain m' where "clear_rows ?m i (j + 1) = Some m'" "length m' = VGA_CELLS"
    "\<forall>r c. r < 25 \<and> c < 80 \<longrightarrow>
       m' ! (80 * r + c) = (if int c = i \<and> j + 1 \<le> int r then VGA_COLOR else ?m ! (80 * r + c))"
    using Suc.hyps(1) [of "j + 1" ?m] Suc.prems nat_pred [OF Suc.hyps(2)] j by auto
  ultimately show ?case using step by (intro exI [of _ m']) auto
qed

lemma clear_cols_eq:
  "0 \<le> i \<Longrightarrow> i \<le> 80 \<Longrightarrow> length m = VGA_CELLS \<Longrightarrow>
   \<exists>m'. clear_cols m i = Some m' \<and> length m' = VGA_CELLS \<and>
     (\<forall>r c. r < 25 \<and> c < 80 \<longrightarrow> m' ! (80 * r + c) = (if i \<le> int c then VGA_COLOR else m ! (80 * r + c)))"
proof (induction "nat (80 - i)" arbitrary: m i)
  case 0
  then show ?case by (subst clear_cols.simps) (auto simp: VGA_WIDTH_def)
next
  case (Suc k)
  then have i: "i < 80" by simp
  obtain m1 where m1: "clear_rows m i 0 = Some m1" "length m1 = VGA_CELLS"
    "\<forall>r c. r < 25 \<and> c < 80 \<longrightarrow> m1 ! (80 * r + c) = (if int c = i then VGA_COLOR else m ! (80 * r + c))"
    using clear_rows_eq [of i 0 m] Suc.prems i by auto
  have step: "clear_cols m i = clear_cols m1 (i + 1)"
    using i m1(1) by (subst clear_cols.simps) (simp add: VGA_WIDTH_def)
  obtain m' where "clear_cols m1 (i + 1) = Some m'" "length m' = VGA_CELLS"
    "\<forall>r c. r < 25 \<and> c < 80 \<longrightarrow> m' ! (80 * r + c) = (if i + 1 \<le> int c then VGA_COLOR else m1 ! (80 * r + c))"
    using Suc.hyps(1) [of "i + 1" m1] Suc.prems nat_pred [OF Suc.hyps(2)] i m1(2) by auto
  with m1(3) step show ?case by (intro exI [of _ m']) auto
qed

subsection \<open>Properties of the console\<close>

definition term_of :: "vga \<Rightarrow> cell list list \<times> nat \<times> nat" where
  \<comment> \<open>the abstraction: lines, cursor row and column\<close>
  "term_of v = (screen v, nat (displayRow v), nat (displayCol v))"

definition term_newline :: "cell list list \<Rightarrow> nat \<Rightarrow> cell list list \<times> nat \<times> nat" where
  "term_newline lines r = (if r + 1 = 25 then (tl lines @ [blank_line], 24, 0) else (lines, r + 1, 0))"

fun term_put :: "cell list list \<times> nat \<times> nat \<Rightarrow> byte \<Rightarrow> cell list list \<times> nat \<times> nat" where
  \<comment> \<open>what a terminal does with a character\<close>
  "term_put (lines, r, c) ch =
     (if ch = newline then term_newline lines r
      else let lines = lines[r := (lines ! r)[c := glyph ch]] in
        if c + 1 = 80 then term_newline lines r else (lines, r, c + 1))"

lemma check_displayrow_spec:
  assumes "length (VGA_MEM v) = VGA_CELLS" "0 \<le> r" "r < 25"
  shows "\<exists>v'. check_displayrow (v\<lparr>displayCol := 0, displayRow := r + 1\<rparr>) = Some v'
    \<and> length (VGA_MEM v') = VGA_CELLS \<and> 0 \<le> displayRow v' \<and> displayRow v' < 25 \<and> displayCol v' = 0
    \<and> waterline v' = waterline v \<and> term_of v' = term_newline (screen v) (nat r)"
proof (cases "r = 24")
  case True
  obtain m where "scroll_screen (v\<lparr>displayCol := 0, displayRow := 25\<rparr>) = Some (v\<lparr>displayCol := 0, displayRow := 25, VGA_MEM := m\<rparr>)"
    "length m = VGA_CELLS" "screen (v\<lparr>displayCol := 0, displayRow := 25, VGA_MEM := m\<rparr>) = tl (screen v) @ [blank_line]"
    using scroll_screen_eq [of "v\<lparr>displayCol := 0, displayRow := 25\<rparr>"] assms screen_cong [of "v\<lparr>displayCol := 0, displayRow := 25\<rparr>" v]
    by auto
  with True show ?thesis
    by (simp add: check_displayrow_def VGA_HEIGHT_def term_of_def term_newline_def
        screen_cong [of "v\<lparr>VGA_MEM := m, displayRow := 24, displayCol := 0\<rparr>" "v\<lparr>displayCol := 0, displayRow := 25, VGA_MEM := m\<rparr>"])
next
  case False
  with assms show ?thesis
    by (auto simp: check_displayrow_def VGA_HEIGHT_def term_of_def term_newline_def nat_add_distrib
        intro!: screen_cong)
qed

lemma posPutchar_eq:
  assumes "vga_ok v"
  shows "posPutchar v ch = Some (v\<lparr>VGA_MEM := (VGA_MEM v)[80 * nat (displayRow v) + nat (displayCol v) := ch OR VGA_COLOR]\<rparr>)"
proof -
  have "nat (displayRow v * 80 + displayCol v) = 80 * nat (displayRow v) + nat (displayCol v)"
    using assms by (simp add: vga_ok_def nat_add_distrib nat_mult_distrib)
  then show ?thesis using assms by (simp add: posPutchar_def arr_upd_def VGA_WIDTH_def VGA_CELLS_def vga_ok_def)
qed

lemma waterline_term [simp]: "term_of (v\<lparr>waterline := w\<rparr>) = term_of v"
  by (simp add: term_of_def screen_def)

lemma put_inner:
  \<comment> \<open>the character and the line break, before the waterline is set\<close>
  assumes "vga_ok v"
  shows "\<exists>u. (if ch = newline then check_displayrow (v\<lparr>displayCol := 0, displayRow := displayRow v + 1\<rparr>)
      else do { v \<leftarrow> posPutchar v (scast ch); check_displaycol (v\<lparr>displayCol := displayCol v + 1\<rparr>) }) = Some u
    \<and> vga_ok u \<and> waterline u = waterline v \<and> term_of u = term_put (term_of v) ch"
proof (cases "ch = newline")
  case True
  obtain u where u: "check_displayrow (v\<lparr>displayCol := 0, displayRow := displayRow v + 1\<rparr>) = Some u"
    "vga_ok u" "waterline u = waterline v" "term_of u = term_newline (screen v) (nat (displayRow v))"
    using check_displayrow_spec [of v "displayRow v"] assms unfolding vga_ok_def by auto
  moreover have "term_put (term_of v) ch = term_newline (screen v) (nat (displayRow v))"
    using True by (simp add: term_of_def)
  ultimately show ?thesis using True by simp
next
  case ch: False
  let ?r = "nat (displayRow v)" and ?c = "nat (displayCol v)"
  let ?u = "v\<lparr>VGA_MEM := (VGA_MEM v)[80 * ?r + ?c := glyph ch]\<rparr>"
  have p: "posPutchar v (scast ch) = Some ?u"
    using posPutchar_eq [OF assms] by (simp add: glyph_def)
  have l: "length (VGA_MEM ?u) = VGA_CELLS" using assms by (simp add: vga_ok_def)
  have sc: "screen ?u = (screen v)[?r := (screen v ! ?r)[?c := glyph ch]]"
    using assms by (intro screen_update) (auto simp: vga_ok_def nat_less_iff)
  show ?thesis
  proof (cases "displayCol v = 79")
    case True
    obtain u where u: "check_displayrow (?u\<lparr>displayCol := 0, displayRow := displayRow v + 1\<rparr>) = Some u"
      "vga_ok u" "waterline u = waterline v" "term_of u = term_newline (screen ?u) ?r"
      using check_displayrow_spec [of ?u "displayRow v"] assms l unfolding vga_ok_def by auto
    have "term_put (term_of v) ch = term_newline (screen ?u) ?r"
      unfolding sc using True ch by (simp add: term_of_def)
    with u True ch p show ?thesis by (simp add: check_displaycol_def VGA_WIDTH_def)
  next
    case False
    have "term_of (?u\<lparr>displayCol := displayCol v + 1\<rparr>) = term_put (term_of v) ch"
      using False assms ch sc by (simp add: term_of_def vga_ok_def nat_add_distrib screen_def nat_eq_iff)
    moreover have "vga_ok (?u\<lparr>displayCol := displayCol v + 1\<rparr>)" using False assms by (simp add: vga_ok_def)
    ultimately show ?thesis using False ch p by (simp add: check_displaycol_def VGA_WIDTH_def)
  qed
qed

lemma putchar_refines:
  assumes "vga_ok v"
  shows "\<exists>v'. vga_putchar v ch w = Some v' \<and> vga_ok v' \<and> term_of v' = term_put (term_of v) ch
    \<and> waterline v' = (if w then displayCol v' else waterline v)"
proof -
  obtain u where u: "vga_putchar v ch w = Some (u\<lparr>waterline := (if w then displayCol u else waterline u)\<rparr>)"
    "vga_ok u" "waterline u = waterline v" "term_of u = term_put (term_of v) ch"
    using put_inner [OF assms, of ch] unfolding vga_putchar_def by auto
  then show ?thesis by (simp add: vga_ok_def)
qed

text \<open>
  C30. The console driver implements a terminal: on every state of the console that satisfies
  the invariant, \<^verbatim>\<open>vga_putchar\<close> stays inside video memory, keeps the invariant, and changes the
  25 lines and the cursor as the specification \<open>term_put\<close> says: a line feed or a full line
  moves to the next line, at the bottom the screen scrolls by one line. The waterline moves to
  the cursor for program output and stays for typed characters.
\<close>

theorem vga_putchar_refines_terminal:
  assumes "vga_ok v"
  shows "\<exists>v'. vga_putchar v ch Mwaterline = Some v' \<and> vga_ok v' \<and> term_of v' = term_put (term_of v) ch
    \<and> waterline v' = (if Mwaterline then displayCol v' else waterline v)"
  using assms by (rule putchar_refines)

definition blank_vga :: vga where
  "blank_vga = \<lparr>VGA_MEM = replicate VGA_CELLS VGA_COLOR, displayRow = 24, displayCol = 79, waterline = 0, ports = []\<rparr>"

theorem vga_putchar_refines_terminal_witness:
  "\<exists>v'. vga_putchar blank_vga 65 True = Some v' \<and> vga_ok v' \<and> term_of v' = term_put (term_of blank_vga) 65
    \<and> waterline v' = (if True then displayCol v' else waterline blank_vga)"
  by (rule vga_putchar_refines_terminal) (simp add: blank_vga_def vga_ok_def)

lemma vga_delchar_ok: "vga_ok v \<Longrightarrow> \<exists>v'. vga_delchar v = Some v' \<and> vga_ok v'"
  using posPutchar_eq [of "v\<lparr>displayCol := displayCol v - 1\<rparr>" 0] by (auto simp: vga_delchar_def vga_ok_def)

text \<open>
  Backspace: \<^verbatim>\<open>vga_delchar\<close> keeps the invariant and never moves the cursor to the left of
  the waterline, so program output is not erased; when the cursor is right of it, the cell
  before the cursor is blanked and nothing else changes.
\<close>

theorem vga_delchar_respects_waterline:
  assumes "vga_ok v"
  shows "\<exists>v'. vga_delchar v = Some v' \<and> vga_ok v' \<and> waterline v' = waterline v
    \<and> displayRow v' = displayRow v
    \<and> (if waterline v < displayCol v
       then displayCol v' = displayCol v - 1
         \<and> screen v' = (screen v)[nat (displayRow v) :=
              (screen v ! nat (displayRow v))[nat (displayCol v - 1) := VGA_COLOR]]
       else v' = v)"
proof (cases "waterline v < displayCol v")
  case True
  let ?v = "v\<lparr>displayCol := displayCol v - 1\<rparr>"
  have ok: "vga_ok ?v" using assms True by (simp add: vga_ok_def)
  have sc: "screen ?v = screen v" by (rule screen_cong) simp
  have "screen (?v\<lparr>VGA_MEM := (VGA_MEM ?v)[80 * nat (displayRow v) + nat (displayCol v - 1) := VGA_COLOR]\<rparr>)
    = (screen v)[nat (displayRow v) := (screen v ! nat (displayRow v))[nat (displayCol v - 1) := VGA_COLOR]]"
    unfolding sc [symmetric] using ok by (intro screen_update) (auto simp: vga_ok_def nat_less_iff)
  with True ok posPutchar_eq [OF ok] show ?thesis
    by (auto simp: vga_delchar_def vga_ok_def)
next
  case False
  with assms show ?thesis by (simp add: vga_delchar_def)
qed

theorem vga_delchar_respects_waterline_witness:
  "\<exists>v'. vga_delchar blank_vga = Some v' \<and> vga_ok v' \<and> waterline v' = waterline blank_vga
    \<and> displayRow v' = displayRow blank_vga
    \<and> (if waterline blank_vga < displayCol blank_vga
       then displayCol v' = displayCol blank_vga - 1
         \<and> screen v' = (screen blank_vga)[nat (displayRow blank_vga) :=
              (screen blank_vga ! nat (displayRow blank_vga))[nat (displayCol blank_vga - 1) := VGA_COLOR]]
       else v' = blank_vga)"
  by (rule vga_delchar_respects_waterline) (simp add: blank_vga_def vga_ok_def)

lemma vga_init_ok:
  assumes "length page = VGA_CELLS"
  shows "\<exists>v. vga_init page = Some v \<and> vga_ok v \<and> term_of v = (replicate 25 blank_line, 0, 0)"
proof -
  obtain m where m: "clear_cols page 0 = Some m" "length m = VGA_CELLS"
    "\<forall>r c. r < 25 \<and> c < 80 \<longrightarrow> m ! (80 * r + c) = VGA_COLOR"
    using clear_cols_eq [of 0 page] assms by auto
  then have "screen \<lparr>VGA_MEM = m, displayRow = 0, displayCol = 0, waterline = 0, ports = p\<rparr> = replicate 25 blank_line" for p
    by (intro screen_eqI) (simp_all add: blank_line_def)
  with m show ?thesis
    by (simp add: vga_init_def clear_screen_def update_cursor_def Let_def term_of_def vga_ok_def)
qed

end
