(* ===== verification/Keyboard.thy ===== *)
theory Keyboard
  imports Vga
begin

text \<open>
  Keyboard input, \<^verbatim>\<open>os/src/console/keyboard.c\<close>, and the two console system calls of
  \<^verbatim>\<open>os/src/console/stdio_handler.c\<close>. Scan codes become characters through a table with four
  rows (caps lock and shift); characters wait in a ring buffer of 64 bytes until a reader takes
  them. The loop of the interrupt thread is the operation \<open>kbd_key\<close>, one scan code each; a read
  from standard input is \<open>readstdin_begin\<close> (everything before the wait) and \<open>readstdin_end\<close>
  (everything after it), between which keys arrive. The notification \<^verbatim>\<open>buf_full_ntfn\<close> is the flag
  \<open>full_ntfn\<close>.
\<close>

definition MAX_KEYBUFFER_SIZE :: int where "MAX_KEYBUFFER_SIZE = 64"
definition KEYTABLE_SIZE :: nat where "KEYTABLE_SIZE = 0x59"
definition KF12_P :: byte where "KF12_P = 0x58"
definition KLSH_P :: byte where "KLSH_P = 0x2a"
definition KRSH_P :: byte where "KRSH_P = 0x36"
definition KCAP_P :: byte where "KCAP_P = 0x3a"
definition KENT_P :: byte where "KENT_P = 0x1c"
definition KBAC_P :: byte where "KBAC_P = 0x0e"

record kbd =
  key_buffer :: "byte list"
  buffer_head :: int
  buffer_tail :: int
  lshift :: byte
  rshift :: byte
  caps :: byte
  full_ntfn :: bool

record console =
  kb :: kbd
  scr :: vga
  serial :: "byte list" \<comment> \<open>what \<^verbatim>\<open>__arch_putchar\<close> sent to the serial line\<close>

definition key_rows :: "(nat \<times> byte \<times> byte \<times> byte \<times> byte) list" where
  \<comment> \<open>the assignments of \<^verbatim>\<open>keytable_init\<close>, in order: scan code, then the rows \<^verbatim>\<open>NCAPS_NSH\<close>,
     \<^verbatim>\<open>NCAPS_SH\<close>, \<^verbatim>\<open>CAPS_NSH\<close>, \<^verbatim>\<open>CAPS_SH\<close>\<close>
  "key_rows = [
     (0x02, 49, 33, 49, 33), (0x03, 50, 64, 50, 64), (0x04, 51, 35, 51, 35), (0x05, 52, 36, 52, 36),
     (0x06, 53, 37, 53, 37), (0x07, 54, 94, 54, 94), (0x08, 55, 38, 55, 38), (0x09, 56, 42, 56, 42),
     (0x0a, 57, 40, 57, 40), (0x0b, 48, 41, 48, 41), (0x1e, 97, 65, 65, 97), (0x30, 98, 66, 66, 98),
     (0x2e, 99, 67, 67, 99), (0x20, 100, 68, 68, 100), (0x12, 101, 69, 69, 101), (0x21, 102, 70, 70, 102),
     (0x22, 103, 71, 71, 103), (0x23, 104, 72, 72, 104), (0x17, 105, 73, 73, 105), (0x24, 106, 74, 74, 106),
     (0x25, 107, 75, 75, 107), (0x26, 108, 76, 76, 108), (0x32, 109, 77, 77, 109), (0x31, 110, 78, 78, 110),
     (0x18, 111, 79, 79, 111), (0x19, 112, 80, 80, 112), (0x10, 113, 81, 81, 113), (0x13, 114, 82, 82, 114),
     (0x1f, 115, 83, 83, 115), (0x14, 116, 84, 84, 116), (0x16, 117, 85, 85, 117), (0x2f, 118, 86, 86, 118),
     (0x11, 119, 87, 87, 119), (0x2d, 120, 88, 88, 120), (0x15, 121, 89, 89, 121), (0x2c, 122, 90, 90, 122),
     (0x0c, 45, 95, 45, 95), (0x0d, 61, 43, 61, 43), (0x1a, 91, 123, 91, 123), (0x1b, 93, 125, 93, 125),
     (0x1c, 10, 10, 10, 10), (0x27, 59, 58, 59, 58), (0x28, 39, 34, 39, 34), (0x29, 96, 126, 96, 126),
     (0x2b, 92, 124, 92, 124), (0x33, 44, 60, 44, 60), (0x34, 46, 62, 46, 62), (0x35, 47, 63, 47, 63),
     (0x39, 32, 32, 32, 32)]"

definition key_row :: "(byte \<times> byte \<times> byte \<times> byte \<Rightarrow> byte) \<Rightarrow> byte list" where
  "key_row sel = foldl (\<lambda>row (code, cs). row[code := sel cs]) (replicate KEYTABLE_SIZE 0) key_rows"

definition keyTable :: "byte list list" where
  "keyTable = [key_row (\<lambda>(a, b, c, d). a), key_row (\<lambda>(a, b, c, d). b),
     key_row (\<lambda>(a, b, c, d). c), key_row (\<lambda>(a, b, c, d). d)]"

definition keytable_init :: "kbd \<Rightarrow> kbd" where
  \<comment> \<open>the part that is not the table\<close>
  "keytable_init k = k\<lparr>buffer_head := 0, buffer_tail := 0, key_buffer := replicate 64 0,
     lshift := 0, rshift := 0, caps := 0\<rparr>"

definition code_to_char :: "kbd \<Rightarrow> byte \<Rightarrow> byte option" where
  "code_to_char k code =
     (if code \<ge> KF12_P then Some 0
      else do { row \<leftarrow> arr keyTable (uint (caps k AND 2) + uint (lshift k OR rshift k));
                arr row (uint code) })"

definition update_kbd_state :: "kbd \<Rightarrow> byte \<Rightarrow> kbd" where
  "update_kbd_state k code =
     (if code \<le> KF12_P + 0x80 then
        if code = KLSH_P then k\<lparr>lshift := 1\<rparr>
        else if code = KLSH_P + 0x80 then k\<lparr>lshift := 0\<rparr>
        else if code = KRSH_P then k\<lparr>rshift := 1\<rparr>
        else if code = KRSH_P + 0x80 then k\<lparr>rshift := 0\<rparr>
        else if code = KCAP_P then
          (if caps k = 0 then k\<lparr>caps := 2\<rparr> else if caps k = 3 then k\<lparr>caps := 1\<rparr> else k)
        else if code = KCAP_P + 0x80 then
          (if caps k = 2 then k\<lparr>caps := 3\<rparr> else if caps k = 1 then k\<lparr>caps := 0\<rparr> else k)
        else k
      else k)"

partial_function (option) ps2_wait :: "(int \<Rightarrow> 'p \<Rightarrow> byte \<times> 'p) \<Rightarrow> 'p \<Rightarrow> 'p option" where
  \<comment> \<open>\<^verbatim>\<open>while ((inByte(KEYBOARD_INPUT_CONTROL) & 0x1) == 0);\<close> over the port function \<open>inb\<close>\<close>
  "ps2_wait inb p = (let (b, p) = inb 0x64 p in if b AND 1 = 0 then ps2_wait inb p else Some p)"

definition ps2_init :: "(int \<Rightarrow> 'p \<Rightarrow> byte \<times> 'p) \<Rightarrow> (int \<Rightarrow> byte \<Rightarrow> 'p \<Rightarrow> 'p) \<Rightarrow> 'p \<Rightarrow> 'p option" where
  "ps2_init inb outb p =
     do { let p = outb 0x64 0x20 p;
          p \<leftarrow> ps2_wait inb p;
          let (config, p) = inb 0x60 p;
          let config = (config AND 0xBC) OR 1;
          let p = outb 0x60 config (outb 0x64 0x60 p);
          let p = outb 0x64 0xAE p;
          Some (outb 0x60 1 (outb 0x60 0xF0 p)) }"

definition buffer_empty :: "kbd \<Rightarrow> bool" where
  "buffer_empty k \<longleftrightarrow> buffer_head k = buffer_tail k"

definition buffer_full :: "kbd \<Rightarrow> bool" where
  "buffer_full k \<longleftrightarrow> cmod (buffer_tail k + 1) MAX_KEYBUFFER_SIZE = buffer_head k"

definition buffer_back :: "kbd \<Rightarrow> kbd" where
  \<comment> \<open>a backspace: lines 243 to 247\<close>
  "buffer_back k =
     (if buffer_empty k then k
      else let t = buffer_tail k - 1 in k\<lparr>buffer_tail := (if t < 0 then t + MAX_KEYBUFFER_SIZE else t)\<rparr>)"

definition buffer_push :: "kbd \<Rightarrow> byte \<Rightarrow> kbd option" where
  "buffer_push k ch =
     do { b \<leftarrow> arr_upd (key_buffer k) (buffer_tail k) ch;
          Some (k\<lparr>key_buffer := b, buffer_tail := cmod (buffer_tail k + 1) MAX_KEYBUFFER_SIZE\<rparr>) }"

definition kbd_key :: "console \<Rightarrow> byte \<Rightarrow> console option" where
  \<comment> \<open>one turn of \<^verbatim>\<open>kbd_irq_handle_mainloop\<close>, \<open>code\<close> being what \<^verbatim>\<open>inByte(0x60)\<close> returned\<close>
  "kbd_key c code =
     do { let k = update_kbd_state (kb c) code;
          c \<leftarrow> (if code = KBAC_P then
                  do { v \<leftarrow> vga_delchar (scr c); Some (c\<lparr>kb := buffer_back k, scr := v\<rparr>) }
                else
                  do { ch \<leftarrow> code_to_char k code;
                       if ch = 0 then Some (c\<lparr>kb := k\<rparr>)
                       else do { k \<leftarrow> (if \<not> buffer_full k
                                      then do { k \<leftarrow> buffer_push k ch;
                                                Some (if ch = newline then k\<lparr>full_ntfn := True\<rparr> else k) }
                                      else Some (k\<lparr>full_ntfn := True\<rparr>));
                                 v \<leftarrow> vga_putchar (scr c) ch False;
                                 Some (c\<lparr>kb := k, scr := v\<rparr>) } });
          Some (c\<lparr>scr := update_cursor (scr c)\<rparr>) }"

definition readstdin_begin :: "console \<Rightarrow> console" where
  "readstdin_begin c = c\<lparr>kb := (kb c)\<lparr>buffer_tail := buffer_head (kb c)\<rparr>\<rparr>"

function drain_loop :: "kbd \<Rightarrow> byte list \<Rightarrow> int \<Rightarrow> int \<Rightarrow> (int \<times> byte list \<times> kbd) option" where
  "drain_loop k dst max_len read_len =
     (if buffer_head k \<noteq> buffer_tail k \<and> read_len < max_len then
        do { b \<leftarrow> arr (key_buffer k) (buffer_head k);
             dst \<leftarrow> arr_upd dst read_len b;
             drain_loop (k\<lparr>buffer_head := cmod (buffer_head k + 1) MAX_KEYBUFFER_SIZE\<rparr>) dst max_len (read_len + 1) }
      else Some (read_len, dst, k))"
  by pat_completeness auto
termination by (relation "measure (\<lambda>(k, dst, m, r). nat (m - r))") auto

definition readstdin_end :: "console \<Rightarrow> byte list \<Rightarrow> int \<Rightarrow> (int \<times> byte list \<times> console) option" where
  \<comment> \<open>after the wait on \<^verbatim>\<open>buf_full_ntfn\<close>, which is blocked while the flag is down; \<open>dst\<close> is the
     memory at \<^verbatim>\<open>read_data\<close>; (reply, memory, state)\<close>
  "readstdin_end c dst max_len =
     do { ok (full_ntfn (kb c));
          (n, dst, k) \<leftarrow> drain_loop ((kb c)\<lparr>full_ntfn := False\<rparr>) dst max_len 0;
          Some (n, dst, c\<lparr>kb := k\<rparr>) }"

function writestdout_loop :: "console \<Rightarrow> byte list \<Rightarrow> int \<Rightarrow> int \<Rightarrow> console option" where
  "writestdout_loop c src max_len i =
     (if i < max_len then
        do { ch \<leftarrow> arr src i;
             v \<leftarrow> vga_putchar (scr c) ch True;
             writestdout_loop (c\<lparr>serial := serial c @ [ch], scr := v\<rparr>) src max_len (i + 1) }
      else Some c)"
  by pat_completeness auto
termination by (relation "measure (\<lambda>(c, s, m, i). nat (m - i))") auto

definition writestdout_handler :: "console \<Rightarrow> byte list \<Rightarrow> int \<Rightarrow> (int \<times> console) option" where
  "writestdout_handler c src max_len =
     do { c \<leftarrow> writestdout_loop c src max_len 0;
          Some (max_len, c\<lparr>scr := update_cursor (scr c)\<rparr>) }"

subsection \<open>The contract of the line buffer\<close>

locale edit_buffer =
  fixes inv :: "'s \<Rightarrow> bool" and content :: "'s \<Rightarrow> byte list" and cap :: nat
    and full :: "'s \<Rightarrow> bool" and push :: "'s \<Rightarrow> byte \<Rightarrow> 's option" and unpush :: "'s \<Rightarrow> 's" and flush :: "'s \<Rightarrow> 's"
  assumes full_law: "inv s \<Longrightarrow> full s \<longleftrightarrow> length (content s) = cap"
    and room_law: "inv s \<Longrightarrow> length (content s) \<le> cap"
    and push_law: "inv s \<Longrightarrow> \<not> full s \<Longrightarrow> \<exists>t. push s ch = Some t \<and> inv t \<and> content t = content s @ [ch]"
    and back_law: "inv s \<Longrightarrow> inv (unpush s) \<and> content (unpush s) = butlast (content s)"
    and flush_law: "inv s \<Longrightarrow> inv (flush s) \<and> content (flush s) = []"
begin

definition enter :: "'s \<Rightarrow> byte \<Rightarrow> 's option" where
  \<comment> \<open>a character that arrives at a full buffer is dropped\<close>
  "enter s ch = (if full s then Some s else push s ch)"

lemma enter_law:
  assumes "inv s"
  shows "\<exists>t. enter s ch = Some t \<and> inv t
    \<and> content t = (if length (content s) = cap then content s else content s @ [ch])"
  using assms push_law [of s ch] by (auto simp: enter_def full_law)

lemma back_enter: \<comment> \<open>a backspace undoes a key\<close>
  assumes "inv s" "length (content s) < cap"
  shows "\<exists>t. enter s ch = Some t \<and> content (unpush t) = content s \<and> inv (unpush t)"
  using enter_law [OF assms(1), of ch] back_law assms(2) by fastforce

end

definition ring_ok :: "kbd \<Rightarrow> bool" where
  "ring_ok k \<longleftrightarrow> length (key_buffer k) = 64 \<and> 0 \<le> buffer_head k \<and> buffer_head k < 64
     \<and> 0 \<le> buffer_tail k \<and> buffer_tail k < 64"

definition mods_ok :: "kbd \<Rightarrow> bool" where
  "mods_ok k \<longleftrightarrow> lshift k \<in> {0, 1} \<and> rshift k \<in> {0, 1} \<and> caps k \<in> {0, 1, 2, 3}"

definition pending :: "kbd \<Rightarrow> nat" where
  "pending k = nat ((buffer_tail k - buffer_head k) mod 64)"

definition content :: "kbd \<Rightarrow> byte list" where
  \<comment> \<open>the characters in the ring, oldest first\<close>
  "content k = map (\<lambda>i. key_buffer k ! nat ((buffer_head k + int i) mod 64)) [0..<pending k]"

definition flush_buffer :: "kbd \<Rightarrow> kbd" where
  "flush_buffer k = k\<lparr>buffer_tail := buffer_head k\<rparr>"

lemma length_content [simp]: "length (content k) = pending k"
  by (simp add: content_def)

lemma mod64_cases:
  assumes "0 \<le> h" "h < 64" "0 \<le> t" "t < (64::int)"
  shows "(t - h) mod 64 = (if h \<le> t then t - h else t - h + 64)"
proof (cases "h \<le> t")
  case True
  with assms show ?thesis by simp
next
  case False
  have "(t - h) mod 64 = (t - h + 64) mod 64" by (rule mod_add_self2 [symmetric])
  also have "\<dots> = t - h + 64" using False assms by (intro mod_pos_pos_trivial) simp_all
  finally show ?thesis using False by simp
qed

lemma step64: "0 \<le> t \<Longrightarrow> t < 64 \<Longrightarrow> cmod (t + 1) 64 = (if t = 63 then 0 else t + (1::int))"
  by (auto simp: cmod_nonneg)

lemma slot64:
  assumes "0 \<le> h" "h < 64" "i < 64"
  shows "(h + int i) mod 64 = (if h + int i < 64 then h + int i else h + int i - 64)"
proof (cases "h + int i < 64")
  case False
  have "(h + int i) mod 64 = (h + int i - 64 + 64) mod 64" by simp
  also have "\<dots> = (h + int i - 64) mod 64" by (rule mod_add_self2)
  also have "\<dots> = h + int i - 64" using False assms by (intro mod_pos_pos_trivial) simp_all
  finally show ?thesis using False by simp
qed (use assms in simp)

lemma pending_less: "pending k < 64"
  by (simp add: pending_def nat_less_iff)

lemma pending_eq:
  assumes "ring_ok k"
  shows "int (pending k) = (if buffer_head k \<le> buffer_tail k then buffer_tail k - buffer_head k
    else buffer_tail k - buffer_head k + 64)"
  using assms mod64_cases [of "buffer_head k" "buffer_tail k"] by (simp add: ring_ok_def pending_def)

lemma full_pending: "ring_ok k \<Longrightarrow> buffer_full k \<longleftrightarrow> pending k = 63"
  using pending_eq [of k] step64 [of "buffer_tail k"]
  by (auto simp: buffer_full_def MAX_KEYBUFFER_SIZE_def ring_ok_def split: if_splits)

lemma push_content:
  assumes "ring_ok k" "\<not> buffer_full k"
  shows "\<exists>t. buffer_push k ch = Some t \<and> ring_ok t \<and> content t = content k @ [ch]
    \<and> t = k\<lparr>key_buffer := (key_buffer k)[nat (buffer_tail k) := ch], buffer_tail := cmod (buffer_tail k + 1) 64\<rparr>"
proof -
  let ?t = "k\<lparr>key_buffer := (key_buffer k)[nat (buffer_tail k) := ch], buffer_tail := cmod (buffer_tail k + 1) 64\<rparr>"
  have ok: "ring_ok ?t" using assms(1) step64 [of "buffer_tail k"] by (auto simp: ring_ok_def)
  have p: "pending k < 63" using assms full_pending [of k] pending_less [of k] by simp
  have "int (pending ?t) = int (pending k) + 1"
    using p pending_eq [OF assms(1)] step64 [of "buffer_tail k"] assms(1)
    unfolding pending_eq [OF ok] by (auto simp: ring_ok_def split: if_splits)
  then have pt: "pending ?t = Suc (pending k)" by simp
  have pos: "nat ((buffer_head k + int i) mod 64) = nat (buffer_tail k) \<longleftrightarrow> i = pending k" if "i \<le> pending k" for i
    using that assms(1) p slot64 [of "buffer_head k" i] pending_eq [OF assms(1)]
    by (auto simp: ring_ok_def nat_eq_iff split: if_splits)
  have bound: "nat ((buffer_head k + int i) mod 64) < 64" for i by (simp add: nat_less_iff)
  have new: "key_buffer ?t ! nat ((buffer_head k + int i) mod 64)
      = (if i = pending k then ch else key_buffer k ! nat ((buffer_head k + int i) mod 64))" if "i \<le> pending k" for i
    using pos [OF that] bound [of i] assms(1) by (simp add: ring_ok_def nth_list_update eq_commute)
  have "content ?t = map (\<lambda>i. key_buffer ?t ! nat ((buffer_head k + int i) mod 64)) [0..<Suc (pending k)]"
    by (simp only: content_def pt) simp
  also have "\<dots> = content k @ [ch]" using new by (simp add: content_def)
  finally have "content ?t = content k @ [ch]" .
  moreover have "buffer_push k ch = Some ?t"
    using assms(1) by (simp add: buffer_push_def arr_upd_def MAX_KEYBUFFER_SIZE_def ring_ok_def)
  ultimately show ?thesis using ok by blast
qed

lemma back_content:
  assumes "ring_ok k"
  shows "ring_ok (buffer_back k) \<and> content (buffer_back k) = butlast (content k)"
proof (cases "buffer_empty k")
  case True
  then have "pending k = 0" by (simp add: buffer_empty_def pending_def)
  with True assms show ?thesis by (simp add: buffer_back_def content_def)
next
  case False
  let ?t = "if buffer_tail k - 1 < 0 then buffer_tail k - 1 + 64 else buffer_tail k - 1"
  have e: "buffer_back k = k\<lparr>buffer_tail := ?t\<rparr>"
    using False by (simp add: buffer_back_def MAX_KEYBUFFER_SIZE_def Let_def)
  have ok: "ring_ok (k\<lparr>buffer_tail := ?t\<rparr>)" using assms by (auto simp: ring_ok_def)
  have "int (pending (k\<lparr>buffer_tail := ?t\<rparr>)) = int (pending k) - 1"
    unfolding pending_eq [OF assms] pending_eq [OF ok] using False assms
    by (auto simp: buffer_empty_def ring_ok_def)
  then have "pending (k\<lparr>buffer_tail := ?t\<rparr>) = pending k - 1" by simp
  then have "content (k\<lparr>buffer_tail := ?t\<rparr>) = butlast (content k)"
    by (cases "pending k") (simp_all add: content_def)
  with ok e show ?thesis by simp
qed

interpretation ring: edit_buffer ring_ok content 63 buffer_full buffer_push buffer_back flush_buffer
proof (unfold_locales, goal_cases)
  case (2 s)
  then show ?case using pending_less [of s] by simp
next
  case (3 s ch)
  then show ?case using push_content by blast
next
  case (5 s)
  then show ?case by (simp add: flush_buffer_def ring_ok_def content_def pending_def)
qed (simp_all add: full_pending back_content)

subsection \<open>Scan codes\<close>

lemma length_updates: "length (foldl (\<lambda>row (code, cs). row[code := sel cs]) xs ys) = length xs"
  by (induction ys arbitrary: xs) auto

lemma length_key_row [simp]: "length (key_row sel) = 89"
  unfolding key_row_def length_updates by (simp add: KEYTABLE_SIZE_def)

lemma keyTable_shape: "length keyTable = 4" "row \<in> set keyTable \<Longrightarrow> length row = 89"
  by (auto simp: keyTable_def)

lemma mods_index:
  assumes "mods_ok k"
  shows "0 \<le> uint (caps k AND 2) + uint (lshift k OR rshift k)" "uint (caps k AND 2) + uint (lshift k OR rshift k) < 4"
  using assms by (auto simp: mods_ok_def)

lemma code_to_char_total:
  assumes "mods_ok k"
  shows "\<exists>ch. code_to_char k code = Some ch"
proof (cases "code \<ge> KF12_P")
  case False
  then have "uint code < 88" by (simp add: KF12_P_def word_le_def word_less_def not_le)
  with False mods_index [OF assms] keyTable_shape show ?thesis
    by (simp add: code_to_char_def arr_def nat_less_iff)
qed (simp add: code_to_char_def)

lemma mods_update: "mods_ok k \<Longrightarrow> mods_ok (update_kbd_state k code)"
  by (auto simp: mods_ok_def update_kbd_state_def)

lemma update_ring [simp]:
  "key_buffer (update_kbd_state k code) = key_buffer k" "buffer_head (update_kbd_state k code) = buffer_head k"
  "buffer_tail (update_kbd_state k code) = buffer_tail k" "full_ntfn (update_kbd_state k code) = full_ntfn k"
  by (simp_all add: update_kbd_state_def)

lemma ring_update [simp]:
  "ring_ok (update_kbd_state k code) = ring_ok k" "content (update_kbd_state k code) = content k"
  "ring_ok (k\<lparr>full_ntfn := b\<rparr>) = ring_ok k" "content (k\<lparr>full_ntfn := b\<rparr>) = content k"
  by (simp_all add: ring_ok_def content_def pending_def)

definition modifiers :: "kbd \<Rightarrow> byte \<times> byte \<times> byte" where
  "modifiers k = (lshift k, rshift k, caps k)"

lemma modifiers_cong:
  assumes "modifiers k = modifiers k'"
  shows "modifiers (update_kbd_state k code) = modifiers (update_kbd_state k' code)"
    "code_to_char k code = code_to_char k' code" "mods_ok k = mods_ok k'"
  using assms by (auto simp: modifiers_def update_kbd_state_def code_to_char_def mods_ok_def)

definition key_edit :: "byte list \<Rightarrow> byte \<Rightarrow> byte \<Rightarrow> byte list" where
  \<comment> \<open>what one key does to the line being typed: scan code \<open>code\<close>, character \<open>ch\<close>\<close>
  "key_edit line code ch =
     (if code = KBAC_P then butlast line
      else if ch = 0 \<or> length line = 63 then line else line @ [ch])"

definition console_ok :: "console \<Rightarrow> bool" where
  "console_ok c \<longleftrightarrow> ring_ok (kb c) \<and> mods_ok (kb c) \<and> vga_ok (scr c)"

lemma cursor_ok [simp]: "vga_ok (update_cursor v) = vga_ok v"
  by (simp add: vga_ok_def update_cursor_def Let_def)

lemma buffer_back_mods [simp]: "modifiers (buffer_back k) = modifiers k" "full_ntfn (buffer_back k) = full_ntfn k"
  by (simp_all add: modifiers_def buffer_back_def Let_def)

lemma buffer_push_mods: "buffer_push k ch = Some t \<Longrightarrow> modifiers t = modifiers k \<and> full_ntfn t = full_ntfn k"
  by (auto simp: buffer_push_def modifiers_def bind_eq_Some_conv)

lemma modifiers_ntfn [simp]: "modifiers (k\<lparr>full_ntfn := b\<rparr>) = modifiers k"
  by (simp add: modifiers_def)

lemma kbd_char_step:
  assumes "ring_ok k" "mods_ok k"
  shows "\<exists>k'. (if \<not> buffer_full k
      then do { k \<leftarrow> buffer_push k ch; Some (if ch = newline then k\<lparr>full_ntfn := True\<rparr> else k) }
      else Some (k\<lparr>full_ntfn := True\<rparr>)) = Some k' \<and> ring_ok k' \<and> modifiers k' = modifiers k
    \<and> content k' = (if length (content k) = 63 then content k else content k @ [ch])
    \<and> (full_ntfn k' \<longleftrightarrow> full_ntfn k \<or> length (content k) = 63 \<or> ch = newline)"
proof (cases "buffer_full k")
  case True
  with assms ring.full_law [of k] show ?thesis by simp
next
  case False
  obtain t where t: "buffer_push k ch = Some t" "ring_ok t" "content t = content k @ [ch]"
    using ring.push_law [OF assms(1) False] by blast
  with False assms ring.full_law [of k] buffer_push_mods [OF t(1)] show ?thesis by auto
qed

lemma kbd_key_step:
  assumes "console_ok c" "k = update_kbd_state (kb c) code"
  shows "\<exists>c' ch. kbd_key c code = Some c' \<and> console_ok c' \<and> code_to_char k code = Some ch
    \<and> modifiers (kb c') = modifiers k \<and> content (kb c') = key_edit (content (kb c)) code ch
    \<and> (full_ntfn (kb c') \<longleftrightarrow> full_ntfn (kb c) \<or>
        (code \<noteq> KBAC_P \<and> ch \<noteq> 0 \<and> (ch = newline \<or> length (content (kb c)) = 63)))"
proof -
  have m: "mods_ok k" and r: "ring_ok k" and cont: "content k = content (kb c)" and f: "full_ntfn k = full_ntfn (kb c)"
    using assms mods_update by (auto simp: console_ok_def)
  obtain ch where ch: "code_to_char k code = Some ch" using code_to_char_total [OF m] by blast
  note defs = kbd_key_def assms(2) [symmetric] Let_def console_ok_def key_edit_def
  show ?thesis
  proof (cases "code = KBAC_P")
    case True
    obtain v where v: "vga_delchar (scr c) = Some v" "vga_ok v"
      using vga_delchar_ok [of "scr c"] assms(1) by (auto simp: console_ok_def)
    have "ring_ok (buffer_back k)" "content (buffer_back k) = butlast (content (kb c))"
      using ring.back_law [OF r] cont by simp_all
    moreover have "mods_ok (buffer_back k)" using m modifiers_cong(3) [of k "buffer_back k"] by simp
    moreover have "kbd_key c code = Some (c\<lparr>kb := buffer_back k, scr := update_cursor v\<rparr>)"
      using True v assms(2) by (simp add: kbd_key_def Let_def)
    ultimately show ?thesis using True v ch f by (simp add: console_ok_def key_edit_def)
  next
    case nb: False
    show ?thesis
    proof (cases "ch = 0")
      case True
      with nb ch assms(1) m r cont f show ?thesis by (simp add: defs)
    next
      case False
      obtain v where v: "vga_putchar (scr c) ch False = Some v" "vga_ok v"
        using putchar_refines [of "scr c" ch False] assms(1) by (auto simp: console_ok_def)
      obtain k' where k': "(if \<not> buffer_full k
          then do { k \<leftarrow> buffer_push k ch; Some (if ch = newline then k\<lparr>full_ntfn := True\<rparr> else k) }
          else Some (k\<lparr>full_ntfn := True\<rparr>)) = Some k'" "ring_ok k'" "modifiers k' = modifiers k"
        "content k' = (if length (content k) = 63 then content k else content k @ [ch])"
        "full_ntfn k' \<longleftrightarrow> full_ntfn k \<or> length (content k) = 63 \<or> ch = newline"
        using kbd_char_step [OF r m, of ch] by blast
      have "mods_ok k'" using m modifiers_cong(3) [OF k'(3)] by simp
      with nb False ch v k'(1) have "kbd_key c code = Some (c\<lparr>kb := k', scr := update_cursor v\<rparr>)"
        by (simp add: kbd_key_def assms(2) [symmetric] Let_def)
      with k' v nb False ch \<open>mods_ok k'\<close> cont f show ?thesis by (auto simp: console_ok_def key_edit_def)
    qed
  qed
qed

primrec type_keys :: "console \<Rightarrow> byte list \<Rightarrow> console option" where
  \<comment> \<open>the interrupt thread over a sequence of scan codes\<close>
  "type_keys c [] = Some c"
| "type_keys c (code # codes) = do { c \<leftarrow> kbd_key c code; type_keys c codes }"

primrec typed_line :: "kbd \<Rightarrow> byte list \<Rightarrow> byte list \<Rightarrow> byte list" where
  \<comment> \<open>the line that a sequence of scan codes makes of \<open>line\<close>\<close>
  "typed_line k line [] = line"
| "typed_line k line (code # codes) =
     (let k = update_kbd_state k code in
      typed_line k (key_edit line code (the (code_to_char k code))) codes)"

lemma typed_line_cong: "modifiers k = modifiers k' \<Longrightarrow> typed_line k line codes = typed_line k' line codes"
proof (induction codes arbitrary: k k' line)
  case (Cons code codes)
  note m = modifiers_cong(1) [OF Cons.prems, of code]
  from Cons.IH [OF m] modifiers_cong(2) [OF m, of code] show ?case by (simp add: Let_def)
qed simp

lemma type_keys_step:
  assumes "console_ok c"
  shows "\<exists>c'. type_keys c codes = Some c' \<and> console_ok c'
    \<and> content (kb c') = typed_line (kb c) (content (kb c)) codes \<and> (full_ntfn (kb c) \<longrightarrow> full_ntfn (kb c'))"
  using assms
proof (induction codes arbitrary: c)
  case Nil
  then show ?case by simp
next
  case (Cons code codes)
  let ?k = "update_kbd_state (kb c) code"
  obtain c1 ch where c1: "kbd_key c code = Some c1" "console_ok c1" "code_to_char ?k code = Some ch"
    "modifiers (kb c1) = modifiers ?k" "content (kb c1) = key_edit (content (kb c)) code ch"
    "full_ntfn (kb c) \<longrightarrow> full_ntfn (kb c1)"
    using kbd_key_step [OF Cons.prems refl] by blast
  have "typed_line (kb c1) (content (kb c1)) codes = typed_line (kb c) (content (kb c)) (code # codes)"
    using c1 typed_line_cong [OF c1(4)] by (simp add: Let_def)
  with Cons.IH [OF c1(2)] c1 show ?case by auto
qed

declare drain_loop.simps [simp del] writestdout_loop.simps [simp del]

lemma content_Cons:
  assumes "ring_ok k" "buffer_head k \<noteq> buffer_tail k"
  shows "content k = key_buffer k ! nat (buffer_head k) # content (k\<lparr>buffer_head := cmod (buffer_head k + 1) 64\<rparr>)"
    and "ring_ok (k\<lparr>buffer_head := cmod (buffer_head k + 1) 64\<rparr>)"
proof -
  let ?k = "k\<lparr>buffer_head := cmod (buffer_head k + 1) 64\<rparr>"
  show ok: "ring_ok ?k" using assms(1) step64 [of "buffer_head k"] by (auto simp: ring_ok_def)
  have "int (pending k) = int (pending ?k) + 1"
    unfolding pending_eq [OF assms(1)] pending_eq [OF ok]
    using assms step64 [of "buffer_head k"] by (auto simp: ring_ok_def split: if_splits)
  then have p: "pending k = Suc (pending ?k)" by simp
  have "(cmod (buffer_head k + 1) 64 + int i) mod 64 = (buffer_head k + int (Suc i)) mod 64" for i
    using assms(1) mod_add_left_eq [of "buffer_head k + 1" 64 "int i"] by (simp add: ring_ok_def cmod_nonneg add.assoc)
  then show "content k = key_buffer k ! nat (buffer_head k) # content ?k"
    using assms(1) unfolding content_def p by (simp add: upt_conv_Cons map_Suc_upt [symmetric] ring_ok_def del: upt_Suc)
qed

lemma drain_content:
  assumes "ring_ok k" "0 \<le> r" "r \<le> max_len" "max_len \<le> int (length dst)"
  shows "\<exists>k'. drain_loop k dst max_len r =
      Some (r + int (min (length (content k)) (nat (max_len - r))),
        take (nat r) dst @ take (nat (max_len - r)) (content k)
          @ drop (nat r + min (length (content k)) (nat (max_len - r))) dst, k')
    \<and> ring_ok k' \<and> content k' = drop (nat (max_len - r)) (content k) \<and> modifiers k' = modifiers k \<and> full_ntfn k' = full_ntfn k"
  using assms
proof (induction "nat (max_len - r)" arbitrary: k dst r)
  case 0
  then show ?case by (subst drain_loop.simps) simp
next
  case (Suc n)
  show ?case
  proof (cases "buffer_head k = buffer_tail k")
    case True
    then have "pending k = 0" "content k = []" by (simp_all add: pending_def content_def)
    with True Suc.prems show ?thesis by (subst drain_loop.simps) simp
  next
    case False
    let ?k = "k\<lparr>buffer_head := cmod (buffer_head k + 1) 64\<rparr>" and ?b = "key_buffer k ! nat (buffer_head k)"
    have r: "r < max_len" using Suc.hyps(2) by simp
    have step: "drain_loop k dst max_len r = drain_loop ?k (dst[nat r := ?b]) max_len (r + 1)"
      using False r Suc.prems by (subst drain_loop.simps)
        (simp add: arr_def arr_upd_def ring_ok_def MAX_KEYBUFFER_SIZE_def)
    note c = content_Cons [OF Suc.prems(1) False]
    have n: "n = nat (max_len - (r + 1))" using Suc.hyps(2) by linarith
    have t: "take (nat (r + 1)) (dst[nat r := ?b]) = take (nat r) dst @ [?b]"
      using r Suc.prems by (simp add: nat_add_distrib take_Suc_conv_app_nth)
    have d: "drop (nat (r + 1) + j) (dst[nat r := ?b]) = drop (nat r + Suc j) dst" for j
      using Suc.prems by (simp add: nat_add_distrib)
    have m: "nat (max_len - r) = Suc n" using Suc.hyps(2) by simp
    have "modifiers ?k = modifiers k" by (simp add: modifiers_def)
    with Suc.hyps(1) [OF n c(2), of "dst[nat r := ?b]"] Suc.prems r show ?thesis
      unfolding step t d by (simp add: c(1) m n [symmetric] add.assoc)
  qed
qed

lemma stdin_read:
  assumes "console_ok c" "type_keys (readstdin_begin c) codes = Some c'" "full_ntfn (kb c')"
    "0 \<le> max_len" "max_len \<le> int (length dst)"
    "line = typed_line (kb c) [] codes" "n = min (length line) (nat max_len)"
  shows "\<exists>c''. readstdin_end c' dst max_len = Some (int n, take n line @ drop n dst, c'')
    \<and> content (kb c'') = drop n line \<and> console_ok c'' \<and> \<not> full_ntfn (kb c'')"
proof -
  have b: "console_ok (readstdin_begin c)" "content (kb (readstdin_begin c)) = []"
    using ring.flush_law [of "kb c"] assms(1) by (simp_all add: console_ok_def readstdin_begin_def flush_buffer_def mods_ok_def)
  have l: "content (kb c') = line" "console_ok c'"
    using type_keys_step [OF b(1), of codes] assms(2,6) b(2)
      typed_line_cong [of "kb (readstdin_begin c)" "kb c"] by (auto simp: readstdin_begin_def modifiers_def)
  obtain k' where k': "drain_loop ((kb c')\<lparr>full_ntfn := False\<rparr>) dst max_len 0 =
      Some (int n, take (nat max_len) line @ drop n dst, k')" "ring_ok k'" "content k' = drop (nat max_len) line"
      "modifiers k' = modifiers (kb c')" "\<not> full_ntfn k'"
    using drain_content [of "(kb c')\<lparr>full_ntfn := False\<rparr>" 0 max_len dst] l assms(4,5,7) by (auto simp: console_ok_def)
  have "mods_ok k'" using modifiers_cong(3) [OF k'(4)] l(2) by (simp add: console_ok_def)
  moreover have "take (nat max_len) line = take n line" "drop (nat max_len) line = drop n line"
    using assms(7) by (simp_all add: min_def)
  ultimately show ?thesis using k' l(2) assms(3) by (simp add: readstdin_end_def console_ok_def)
qed

lemma type_keys_append: "type_keys c (xs @ ys) = do { c \<leftarrow> type_keys c xs; type_keys c ys }"
  by (induction xs arbitrary: c) simp_all

lemma enter_char:
  assumes "mods_ok k"
  shows "code_to_char k KENT_P = Some newline"
proof -
  have "\<forall>row \<in> set keyTable. row ! 0x1c = 10" by code_simp
  with mods_index [OF assms] keyTable_shape show ?thesis
    by (simp add: code_to_char_def KENT_P_def KF12_P_def arr_def nat_less_iff newline_def)
qed

lemma enter_signals:
  assumes "console_ok c" "kbd_key c KENT_P = Some c'"
  shows "full_ntfn (kb c')"
proof -
  have "mods_ok (update_kbd_state (kb c) KENT_P)" using assms(1) mods_update by (simp add: console_ok_def)
  from enter_char [OF this] kbd_key_step [OF assms(1) refl, of KENT_P] assms(2) show ?thesis
    by (auto simp: KENT_P_def KBAC_P_def newline_def)
qed

text \<open>
  C31. Reading a line. After \<^verbatim>\<open>readstdin_handler\<close> has flushed the ring, any sequence of scan codes
  that ends with Enter is processed without leaving an array and wakes the reader. The handler
  then returns the first \<^verbatim>\<open>max_len\<close> characters of the line that an editor with backspace makes of
  those keys (at most 63 characters), stores exactly them at the start of the caller's buffer
  and leaves the rest in the ring.
\<close>

theorem stdin_returns_typed_line:
  assumes "console_ok c" "0 \<le> max_len" "max_len \<le> int (length dst)"
    "line = typed_line (kb c) [] (codes @ [KENT_P])" "n = min (length line) (nat max_len)"
  shows "\<exists>c' c''. type_keys (readstdin_begin c) (codes @ [KENT_P]) = Some c'
    \<and> readstdin_end c' dst max_len = Some (int n, take n line @ drop n dst, c'')
    \<and> content (kb c'') = drop n line \<and> console_ok c'' \<and> \<not> full_ntfn (kb c'')"
proof -
  have b: "console_ok (readstdin_begin c)"
    using ring.flush_law [of "kb c"] assms(1) by (simp add: console_ok_def readstdin_begin_def flush_buffer_def mods_ok_def)
  obtain c1 where c1: "type_keys (readstdin_begin c) codes = Some c1" "console_ok c1"
    using type_keys_step [OF b] by blast
  obtain c' where c': "kbd_key c1 KENT_P = Some c'" using kbd_key_step [OF c1(2) refl] by blast
  then have t: "type_keys (readstdin_begin c) (codes @ [KENT_P]) = Some c'"
    using c1 by (simp add: type_keys_append)
  show ?thesis
    using stdin_read [OF assms(1) t enter_signals [OF c1(2) c'] assms(2-5)] t by blast
qed

definition fresh_console :: console where
  "fresh_console = \<lparr>kb = keytable_init \<lparr>key_buffer = [], buffer_head = 0, buffer_tail = 0, lshift = 0,
     rshift = 0, caps = 0, full_ntfn = False\<rparr>, scr = blank_vga, serial = []\<rparr>"

lemma fresh_console_ok: "console_ok fresh_console"
  by (simp add: fresh_console_def console_ok_def ring_ok_def mods_ok_def keytable_init_def blank_vga_def vga_ok_def)

theorem stdin_returns_typed_line_witness:
  "\<exists>c' c''. type_keys (readstdin_begin fresh_console) ([0x2a, 0x23, 0xaa, 0x18, 0x0e, 0x17] @ [KENT_P]) = Some c'
    \<and> readstdin_end c' [1, 2, 3, 4, 5] 4 = Some (int 3, take 3 [72, 105, 10] @ drop 3 [1, 2, 3, 4, 5], c'')
    \<and> content (kb c'') = drop 3 [72, 105, 10] \<and> console_ok c'' \<and> \<not> full_ntfn (kb c'')"
proof (rule stdin_returns_typed_line)
  show "[72, 105, 10] = typed_line (kb fresh_console) [] ([0x2a, 0x23, 0xaa, 0x18, 0x0e, 0x17] @ [KENT_P])"
    by code_simp
qed (simp_all add: fresh_console_ok)

text \<open>
  The notification is sticky: when Enter is typed while no program reads, the flag stays up,
  and the next \<^verbatim>\<open>readstdin_handler\<close>, which flushes the ring but not the notification, does not
  wait: it returns 0 characters at once, as if end of file had been reached.
\<close>

theorem stale_enter_makes_read_empty:
  assumes "console_ok c" "0 \<le> max_len" "max_len \<le> int (length dst)"
  shows "\<exists>c' c''. type_keys c (codes @ [KENT_P]) = Some c'
    \<and> readstdin_end (readstdin_begin c') dst max_len = Some (0, dst, c'') \<and> console_ok c''"
proof -
  obtain c1 where c1: "type_keys c codes = Some c1" "console_ok c1" using type_keys_step [OF assms(1)] by blast
  obtain c' where c': "kbd_key c1 KENT_P = Some c'" "console_ok c'" using kbd_key_step [OF c1(2) refl] by blast
  have f: "full_ntfn (kb (readstdin_begin c'))" using enter_signals [OF c1(2) c'(1)] by (simp add: readstdin_begin_def)
  have "\<exists>c''. readstdin_end (readstdin_begin c') dst max_len = Some (0, dst, c'') \<and> console_ok c''"
    using stdin_read [OF c'(2), of "[]" "readstdin_begin c'" max_len dst "[]" 0] f assms(2,3) by auto
  with c1 c'(1) show ?thesis by (auto simp: type_keys_append)
qed

theorem stale_enter_makes_read_empty_witness:
  "\<exists>c' c''. type_keys fresh_console ([0x23] @ [KENT_P]) = Some c'
    \<and> readstdin_end (readstdin_begin c') [1, 2, 3] 3 = Some (0, [1, 2, 3], c'') \<and> console_ok c''"
  by (rule stale_enter_makes_read_empty) (simp_all add: fresh_console_ok)

definition to_upper :: "byte \<Rightarrow> byte" where
  "to_upper ch = (if 97 \<le> ch \<and> ch \<le> 122 then ch - 32 else ch)"

definition to_lower :: "byte \<Rightarrow> byte" where
  "to_lower ch = (if 65 \<le> ch \<and> ch \<le> 90 then ch + 32 else ch)"

definition caps_on :: "kbd \<Rightarrow> bool" where "caps_on k \<longleftrightarrow> caps k AND 2 \<noteq> 0"
definition caps_held :: "kbd \<Rightarrow> bool" where "caps_held k \<longleftrightarrow> caps k \<in> {1, 2}"

lemma arr_map: "arr (map f xs) i = map_option f (arr xs i)"
  by (simp add: arr_def nat_less_iff)

lemma keyTable_rows:
  "keyTable ! 2 = map to_upper (keyTable ! 0)" "keyTable ! 3 = map to_lower (keyTable ! 1)"
  by code_simp+

text \<open>
  Caps lock. Pressing the key toggles the lock once, however often the press code repeats
  while the key is held, and releasing it leaves the lock alone; no other key changes it. With
  the lock on, a key gives the same character as without it, except that a letter has the
  other case.
\<close>

theorem caps_lock_correct:
  assumes "mods_ok k"
  shows "caps_on (update_kbd_state k KCAP_P) = (if caps_held k then caps_on k else \<not> caps_on k)
    \<and> caps_held (update_kbd_state k KCAP_P)
    \<and> caps_on (update_kbd_state k (KCAP_P + 0x80)) = caps_on k \<and> \<not> caps_held (update_kbd_state k (KCAP_P + 0x80))
    \<and> (code \<notin> {KCAP_P, KCAP_P + 0x80} \<longrightarrow> caps (update_kbd_state k code) = caps k)
    \<and> code_to_char (k\<lparr>caps := 3\<rparr>) code = map_option (if lshift k OR rshift k = 0 then to_upper else to_lower)
         (code_to_char (k\<lparr>caps := 0\<rparr>) code)"
proof -
  have "code_to_char (k\<lparr>caps := 3\<rparr>) code = map_option (if lshift k OR rshift k = 0 then to_upper else to_lower)
         (code_to_char (k\<lparr>caps := 0\<rparr>) code)"
  proof -
    have sh: "lshift k OR rshift k = 0 \<or> lshift k OR rshift k = 1" using assms by (auto simp: mods_ok_def)
    have rows: "arr keyTable 0 = Some (keyTable ! 0)" "arr keyTable 1 = Some (keyTable ! 1)"
      "arr keyTable 2 = Some (map to_upper (keyTable ! 0))" "arr keyTable 3 = Some (map to_lower (keyTable ! 1))"
      using keyTable_shape keyTable_rows by (simp_all add: arr_def)
    from sh show ?thesis
      by (elim disjE) (simp_all add: code_to_char_def rows arr_map to_upper_def [of 0] to_lower_def [of 0])
  qed
  with assms show ?thesis
    by (auto simp: mods_ok_def update_kbd_state_def caps_on_def caps_held_def KCAP_P_def KF12_P_def
        KLSH_P_def KRSH_P_def)
qed

theorem caps_lock_correct_witness:
  "caps_on (update_kbd_state (kb fresh_console) KCAP_P)
    = (if caps_held (kb fresh_console) then caps_on (kb fresh_console) else \<not> caps_on (kb fresh_console))
    \<and> caps_held (update_kbd_state (kb fresh_console) KCAP_P)
    \<and> caps_on (update_kbd_state (kb fresh_console) (KCAP_P + 0x80)) = caps_on (kb fresh_console)
    \<and> \<not> caps_held (update_kbd_state (kb fresh_console) (KCAP_P + 0x80))
    \<and> caps (update_kbd_state (kb fresh_console) 0x1e) = caps (kb fresh_console)
    \<and> code_to_char ((kb fresh_console)\<lparr>caps := 3\<rparr>) 0x1e
      = map_option (if lshift (kb fresh_console) OR rshift (kb fresh_console) = 0 then to_upper else to_lower)
         (code_to_char ((kb fresh_console)\<lparr>caps := 0\<rparr>) 0x1e)"
proof -
  have "mods_ok (kb fresh_console)" by (simp add: fresh_console_def keytable_init_def mods_ok_def)
  moreover have "(0x1e :: byte) \<notin> {KCAP_P, KCAP_P + 0x80}" by (simp add: KCAP_P_def)
  ultimately show ?thesis using caps_lock_correct [of "kb fresh_console" "0x1e"] by blast
qed

lemma stdout_loop:
  "vga_ok (scr c) \<Longrightarrow> 0 \<le> i \<Longrightarrow> i \<le> n \<Longrightarrow> n \<le> int (length src) \<Longrightarrow>
   \<exists>c'. writestdout_loop c src n i = Some c' \<and> vga_ok (scr c') \<and> kb c' = kb c
     \<and> serial c' = serial c @ take (nat (n - i)) (drop (nat i) src)
     \<and> term_of (scr c') = foldl term_put (term_of (scr c)) (take (nat (n - i)) (drop (nat i) src))"
proof (induction "nat (n - i)" arbitrary: c i)
  case 0
  then show ?case by (subst writestdout_loop.simps) simp
next
  case (Suc k)
  have i: "i < n" using Suc.hyps(2) by simp
  let ?ch = "src ! nat i"
  obtain v where v: "vga_putchar (scr c) ?ch True = Some v" "vga_ok v" "term_of v = term_put (term_of (scr c)) ?ch"
    using putchar_refines [OF Suc.prems(1)] by blast
  let ?c = "c\<lparr>serial := serial c @ [?ch], scr := v\<rparr>"
  have step: "writestdout_loop c src n i = writestdout_loop ?c src n (i + 1)"
    using i v Suc.prems by (subst writestdout_loop.simps) (simp add: arr_def)
  have k: "k = nat (n - (i + 1))" using Suc.hyps(2) by linarith
  have "take (nat (n - i)) (drop (nat i) src) = ?ch # take (nat (n - (i + 1))) (drop (nat (i + 1)) src)"
  proof -
    have "nat (n - i) = Suc (nat (n - (i + 1)))" "nat (i + 1) = Suc (nat i)" using i Suc.prems by simp_all
    then show ?thesis using i Suc.prems by (simp add: Cons_nth_drop_Suc [symmetric])
  qed
  with Suc.hyps(1) [OF k, of ?c] Suc.prems i v step show ?case by auto
qed

text \<open>
  Writing to the terminal: \<^verbatim>\<open>writestdout_handler\<close> sends exactly the first \<^verbatim>\<open>max_len\<close> bytes of
  the caller's buffer to the serial line and to the screen, in order, replies \<^verbatim>\<open>max_len\<close>, and
  leaves the screen as the terminal specification leaves it after those characters.
\<close>

theorem stdout_writes_all:
  assumes "console_ok c" "0 \<le> max_len" "max_len \<le> int (length src)"
  shows "\<exists>c'. writestdout_handler c src max_len = Some (max_len, c') \<and> console_ok c'
    \<and> serial c' = serial c @ take (nat max_len) src
    \<and> term_of (scr c') = foldl term_put (term_of (scr c)) (take (nat max_len) src)"
proof -
  have "term_of (update_cursor v) = term_of v" for v
    by (simp add: term_of_def screen_def update_cursor_def Let_def)
  with stdout_loop [of c 0 max_len src] assms show ?thesis
    by (auto simp: writestdout_handler_def console_ok_def)
qed

theorem stdout_writes_all_witness:
  "\<exists>c'. writestdout_handler fresh_console [104, 105, 10] 3 = Some (3, c') \<and> console_ok c'
    \<and> serial c' = serial fresh_console @ take (nat 3) [104, 105, 10]
    \<and> term_of (scr c') = foldl term_put (term_of (scr fresh_console)) (take (nat 3) [104, 105, 10])"
  by (rule stdout_writes_all) (simp_all add: fresh_console_ok)

end
