(* ===== verification/Workers.thy ===== *)
theory Workers
  imports Prelude "HOL-Library.Multiset"
begin

text \<open>
  The worker threads of \<^verbatim>\<open>os/src/worker/sys_worker.c\<close>. The thread that receives system calls
  hands each slow one to one of eight workers: it spins until a worker is not busy, stores the
  callback and its argument in the worker's slot, and signals the worker. The objects behind
  \<^verbatim>\<open>ntfn\<close> are endpoints, so a signal is a rendezvous: it completes when the worker waits.

  The threads interleave; \<open>wstep\<close> is one step of one of them, a statement of the C code each.
  Two fields of the state only record what happened: \<open>sent\<close>, the requests handed to
  \<^verbatim>\<open>sysworker_dispatch_thread\<close>, and \<open>finished\<close>, the callbacks that have returned.
\<close>

definition MAX_WORKER_NUM :: nat where "MAX_WORKER_NUM = 8"

record ('f, 'd) SysWorker =
  busy :: int
  w_fn :: "'f option" \<comment> \<open>\<^term>\<open>None\<close> is \<^verbatim>\<open>NULL\<close>\<close>
  w_data :: 'd

datatype ('f, 'd) worker_pc =
    AtWait \<comment> \<open>in \<^verbatim>\<open>seL4_Wait\<close>\<close>
  | Woken \<comment> \<open>before the assertion and the call\<close>
  | Calling 'f 'd \<comment> \<open>in the callback\<close>
  | Returned \<comment> \<open>before \<^verbatim>\<open>busy = 0\<close>\<close>

datatype ('f, 'd) dispatcher_pc =
    Serving \<comment> \<open>outside \<^verbatim>\<open>sysworker_dispatch_thread\<close>\<close>
  | Spinning 'f 'd \<comment> \<open>in the loop over \<^verbatim>\<open>get_idle_worker\<close>\<close>
  | Signalling nat

record ('f, 'd) pool =
  workers :: "('f, 'd) SysWorker list"
  pcs :: "('f, 'd) worker_pc list"
  dispatcher :: "('f, 'd) dispatcher_pc"
  sent :: "('f \<times> 'd) list"
  finished :: "('f \<times> 'd) list"

fun idle_from :: "nat \<Rightarrow> ('f, 'd) SysWorker list \<Rightarrow> nat option" where
  "idle_from i [] = None"
| "idle_from i (w # ws) = (if busy w = 0 then Some i else idle_from (Suc i) ws)"

definition get_idle_worker :: "('f, 'd) pool \<Rightarrow> nat option" where
  "get_idle_worker p = idle_from 0 (workers p)"

definition sysworkers_init :: "'d \<Rightarrow> ('f, 'd) pool" where
  "sysworkers_init null =
     \<lparr>workers = replicate MAX_WORKER_NUM \<lparr>busy = 0, w_fn = None, w_data = null\<rparr>,
      pcs = replicate MAX_WORKER_NUM AtWait, dispatcher = Serving, sent = [], finished = []\<rparr>"

definition assign :: "('f, 'd) pool \<Rightarrow> nat \<Rightarrow> 'f \<Rightarrow> 'd \<Rightarrow> ('f, 'd) pool" where
  \<comment> \<open>lines 29 to 31, the dispatcher then being at its signal\<close>
  "assign p i f d = p\<lparr>workers := (workers p)[i := (workers p ! i)\<lparr>busy := 1, w_fn := Some f, w_data := d\<rparr>],
     dispatcher := Signalling i\<rparr>"

inductive wstep :: "('f, 'd) pool \<Rightarrow> ('f, 'd) pool \<Rightarrow> bool" where
  dispatch: "dispatcher p = Serving \<Longrightarrow> wstep p (p\<lparr>dispatcher := Spinning f d, sent := sent p @ [(f, d)]\<rparr>)"
| spin: "dispatcher p = Spinning f d \<Longrightarrow> get_idle_worker p = None \<Longrightarrow> wstep p p"
| pick: "dispatcher p = Spinning f d \<Longrightarrow> get_idle_worker p = Some i \<Longrightarrow> wstep p (assign p i f d)"
| signal: "dispatcher p = Signalling i \<Longrightarrow> i < length (pcs p) \<Longrightarrow> pcs p ! i = AtWait \<Longrightarrow>
    wstep p (p\<lparr>dispatcher := Serving, pcs := (pcs p)[i := Woken]\<rparr>)"
| call: "i < length (pcs p) \<Longrightarrow> pcs p ! i = Woken \<Longrightarrow> w_fn (workers p ! i) = Some f \<Longrightarrow>
    wstep p (p\<lparr>pcs := (pcs p)[i := Calling f (w_data (workers p ! i))]\<rparr>)"
| return: "i < length (pcs p) \<Longrightarrow> pcs p ! i = Calling f d \<Longrightarrow>
    wstep p (p\<lparr>pcs := (pcs p)[i := Returned], finished := finished p @ [(f, d)]\<rparr>)"
| release: "i < length (pcs p) \<Longrightarrow> pcs p ! i = Returned \<Longrightarrow>
    wstep p (p\<lparr>pcs := (pcs p)[i := AtWait], workers := (workers p)[i := (workers p ! i)\<lparr>busy := 0\<rparr>]\<rparr>)"

inductive_cases wstepE: "wstep p q"

inductive reachable :: "'d \<Rightarrow> ('f, 'd) pool \<Rightarrow> bool" for null where
  init: "reachable null (sysworkers_init null)"
| step: "reachable null p \<Longrightarrow> wstep p q \<Longrightarrow> reachable null q"

subsection \<open>The invariant\<close>

definition job :: "('f, 'd) pool \<Rightarrow> nat \<Rightarrow> ('f \<times> 'd) multiset" where
  \<comment> \<open>the request worker \<open>i\<close> holds and has not finished\<close>
  "job p i = (case pcs p ! i of
       AtWait \<Rightarrow> if dispatcher p = Signalling i then {#(the (w_fn (workers p ! i)), w_data (workers p ! i))#} else {#}
     | Woken \<Rightarrow> {#(the (w_fn (workers p ! i)), w_data (workers p ! i))#}
     | Calling f d \<Rightarrow> {#(f, d)#}
     | Returned \<Rightarrow> {#})"

definition queued :: "('f, 'd) pool \<Rightarrow> ('f \<times> 'd) multiset" where
  "queued p = (case dispatcher p of Spinning f d \<Rightarrow> {#(f, d)#} | _ \<Rightarrow> {#})"

definition worker_ok :: "('f, 'd) pool \<Rightarrow> nat \<Rightarrow> bool" where
  "worker_ok p i \<longleftrightarrow>
     (busy (workers p ! i) = 0 \<longrightarrow> pcs p ! i = AtWait \<and> dispatcher p \<noteq> Signalling i)
   \<and> (busy (workers p ! i) \<noteq> 0 \<and> pcs p ! i = AtWait \<longrightarrow> dispatcher p = Signalling i)
   \<and> (dispatcher p = Signalling i \<longrightarrow> pcs p ! i = AtWait)
   \<and> (busy (workers p ! i) \<noteq> 0 \<longrightarrow> w_fn (workers p ! i) \<noteq> None)"

definition pool_inv :: "('f, 'd) pool \<Rightarrow> bool" where
  "pool_inv p \<longleftrightarrow> length (workers p) = 8 \<and> length (pcs p) = 8 \<and> (\<forall>i<8. worker_ok p i)
     \<and> (\<forall>i. dispatcher p = Signalling i \<longrightarrow> i < 8)
     \<and> mset (sent p) = mset (finished p) + (\<Sum>i<8. job p i) + queued p"

lemma idle_from_Some:
  "idle_from i ws = Some j \<Longrightarrow> i \<le> j \<and> j < i + length ws \<and> busy (ws ! (j - i)) = 0"
  by (induction i ws rule: idle_from.induct) (auto simp: nth_Cons' split: if_splits)

lemma idle_from_None: "idle_from i ws = None \<longleftrightarrow> (\<forall>w \<in> set ws. busy w \<noteq> 0)"
  by (induction i ws rule: idle_from.induct) auto

lemma get_idle_Some: "get_idle_worker p = Some j \<Longrightarrow> j < length (workers p) \<and> busy (workers p ! j) = 0"
  using idle_from_Some [of 0 "workers p" j] by (simp add: get_idle_worker_def)

lemma sum_change:
  fixes f g :: "nat \<Rightarrow> 'a multiset"
  assumes "k < 8" "\<And>i. i < 8 \<Longrightarrow> i \<noteq> k \<Longrightarrow> g i = f i"
  shows "(\<Sum>i<8. g i) + f k = (\<Sum>i<8. f i) + g k"
proof -
  have "(\<Sum>i<8. h i) = h k + (\<Sum>i\<in>{..<8} - {k}. h i)" for h :: "nat \<Rightarrow> 'a multiset"
    using assms(1) by (intro sum.remove) simp_all
  moreover have "(\<Sum>i\<in>{..<8} - {k}. g i) = (\<Sum>i\<in>{..<8} - {k}. f i)" using assms(2) by (intro sum.cong) auto
  ultimately show ?thesis by (simp add: ac_simps)
qed

lemma pool_inv_init: "pool_inv (sysworkers_init null)"
  by (simp add: pool_inv_def sysworkers_init_def worker_ok_def job_def queued_def MAX_WORKER_NUM_def)

lemma pool_invI:
  assumes "length (workers p) = 8" "length (pcs p) = 8" "\<And>i. i < 8 \<Longrightarrow> worker_ok p i"
    "\<And>i. dispatcher p = Signalling i \<Longrightarrow> i < 8"
    "mset (sent p) = mset (finished p) + (\<Sum>i<8. job p i) + queued p"
  shows "pool_inv p"
  using assms by (simp add: pool_inv_def)

lemma pool_invD:
  assumes "pool_inv p"
  shows "length (workers p) = 8" "length (pcs p) = 8" "\<And>i. i < 8 \<Longrightarrow> worker_ok p i"
    "\<And>i. dispatcher p = Signalling i \<Longrightarrow> i < 8"
    "mset (sent p) = mset (finished p) + (\<Sum>i<8. job p i) + queued p"
  using assms unfolding pool_inv_def by blast+

lemma inv_dispatch:
  assumes "pool_inv p" "dispatcher p = Serving"
  shows "pool_inv (p\<lparr>dispatcher := Spinning f d, sent := sent p @ [(f, d)]\<rparr>)"
proof -
  let ?q = "p\<lparr>dispatcher := Spinning f d, sent := sent p @ [(f, d)]\<rparr>"
  have "job ?q i = job p i" for i using assms(2) by (simp add: job_def split: worker_pc.split)
  then have "(\<Sum>i<8. job ?q i) = (\<Sum>i<8. job p i)" by simp
  moreover have "worker_ok ?q i" if "i < 8" for i
    using pool_invD(3) [OF assms(1) that] assms(2) by (simp add: worker_ok_def)
  ultimately show ?thesis using pool_invD(1,2,5) [OF assms(1)] assms(2)
    by (intro pool_invI) (simp_all add: queued_def)
qed

lemma inv_pick:
  assumes "pool_inv p" "dispatcher p = Spinning f d" "get_idle_worker p = Some i"
  shows "pool_inv (assign p i f d)"
proof -
  let ?q = "assign p i f d"
  have i: "i < 8" "busy (workers p ! i) = 0" "pcs p ! i = AtWait"
    using get_idle_Some [OF assms(3)] pool_invD(1) [OF assms(1)] pool_invD(3) [OF assms(1), of i]
    by (auto simp: worker_ok_def)
  note len = pool_invD(1) [OF assms(1)]
  have "(\<Sum>j<8. job ?q j) + job p i = (\<Sum>j<8. job p j) + job ?q i"
    using i(1) assms(2) by (intro sum_change) (auto simp: job_def assign_def split: worker_pc.split)
  moreover have "job p i = {#}" "job ?q i = {#(f, d)#}"
    using i assms(2) len by (simp_all add: job_def assign_def)
  moreover have "worker_ok ?q j" if "j < 8" for j
    using pool_invD(3) [OF assms(1) that] i len assms(2) by (auto simp: worker_ok_def assign_def nth_list_update)
  ultimately show ?thesis using pool_invD(1,2,5) [OF assms(1)] assms(2) i(1)
    by (intro pool_invI) (simp_all add: queued_def, simp_all add: assign_def)
qed

lemma inv_signal:
  assumes "pool_inv p" "dispatcher p = Signalling i" "pcs p ! i = AtWait"
  shows "pool_inv (p\<lparr>dispatcher := Serving, pcs := (pcs p)[i := Woken]\<rparr>)"
proof -
  let ?q = "p\<lparr>dispatcher := Serving, pcs := (pcs p)[i := Woken]\<rparr>"
  have i: "i < 8" "length (pcs p) = 8" using assms pool_invD [OF assms(1)] by auto
  have "job ?q j = job p j" if "j < 8" for j
    using assms(2,3) i that by (auto simp: job_def nth_list_update split: worker_pc.split)
  then have "(\<Sum>j<8. job ?q j) = (\<Sum>j<8. job p j)" by simp
  moreover have "worker_ok ?q j" if "j < 8" for j
    using pool_invD(3) [OF assms(1) that] i assms(2-) by (auto simp: worker_ok_def nth_list_update)
  ultimately show ?thesis using pool_invD(1,2,4,5) [OF assms(1)] assms(2)
    by (intro pool_invI) (simp_all add: queued_def)
qed

lemma inv_call:
  assumes "pool_inv p" "i < length (pcs p)" "pcs p ! i = Woken" "w_fn (workers p ! i) = Some f"
  shows "pool_inv (p\<lparr>pcs := (pcs p)[i := Calling f (w_data (workers p ! i))]\<rparr>)"
proof -
  let ?q = "p\<lparr>pcs := (pcs p)[i := Calling f (w_data (workers p ! i))]\<rparr>"
  have i: "i < 8" "length (pcs p) = 8" using assms pool_invD [OF assms(1)] by auto
  have "job ?q j = job p j" if "j < 8" for j
    using assms(3,4) i that by (auto simp: job_def nth_list_update split: worker_pc.split)
  then have "(\<Sum>j<8. job ?q j) = (\<Sum>j<8. job p j)" by simp
  moreover have "worker_ok ?q j" if "j < 8" for j
    using pool_invD(3) [OF assms(1) that] i assms(2-) by (auto simp: worker_ok_def nth_list_update)
  ultimately show ?thesis using pool_invD(1,2,4,5) [OF assms(1)] assms(2)
    by (intro pool_invI) (simp_all add: queued_def)
qed

lemma inv_return:
  assumes "pool_inv p" "i < length (pcs p)" "pcs p ! i = Calling f d"
  shows "pool_inv (p\<lparr>pcs := (pcs p)[i := Returned], finished := finished p @ [(f, d)]\<rparr>)"
proof -
  let ?q = "p\<lparr>pcs := (pcs p)[i := Returned], finished := finished p @ [(f, d)]\<rparr>"
  have i: "i < 8" "length (pcs p) = 8" using assms pool_invD [OF assms(1)] by auto
  have "(\<Sum>j<8. job ?q j) + job p i = (\<Sum>j<8. job p j) + job ?q i"
    using i by (intro sum_change) (auto simp: job_def split: worker_pc.split)
  moreover have "job p i = {#(f, d)#}" "job ?q i = {#}" using i assms(3) by (simp_all add: job_def)
  moreover have "worker_ok ?q j" if "j < 8" for j
    using pool_invD(3) [OF assms(1) that] i assms(2-) by (auto simp: worker_ok_def nth_list_update)
  ultimately show ?thesis using pool_invD(1,2,4,5) [OF assms(1)]
    by (intro pool_invI) (simp_all add: queued_def)
qed

lemma inv_release:
  assumes "pool_inv p" "i < length (pcs p)" "pcs p ! i = Returned"
  shows "pool_inv (p\<lparr>pcs := (pcs p)[i := AtWait], workers := (workers p)[i := (workers p ! i)\<lparr>busy := 0\<rparr>]\<rparr>)"
proof -
  let ?q = "p\<lparr>pcs := (pcs p)[i := AtWait], workers := (workers p)[i := (workers p ! i)\<lparr>busy := 0\<rparr>]\<rparr>"
  have i: "i < 8" "length (pcs p) = 8" "length (workers p) = 8" using assms pool_invD [OF assms(1)] by auto
  have s: "dispatcher p \<noteq> Signalling i" using pool_invD(3) [OF assms(1), of i] assms(3) i by (auto simp: worker_ok_def)
  have "job ?q j = job p j" if "j < 8" for j
    using assms(3) i that s by (auto simp: job_def nth_list_update split: worker_pc.split)
  then have "(\<Sum>j<8. job ?q j) = (\<Sum>j<8. job p j)" by simp
  moreover have "worker_ok ?q j" if "j < 8" for j
    using pool_invD(3) [OF assms(1) that] i s assms(2-) by (auto simp: worker_ok_def nth_list_update)
  ultimately show ?thesis using pool_invD(1,2,4,5) [OF assms(1)]
    by (intro pool_invI) (simp_all add: queued_def)
qed

lemmas inv_steps = inv_dispatch inv_pick inv_signal inv_call inv_return inv_release

lemma pool_inv_step: "wstep p q \<Longrightarrow> pool_inv p \<Longrightarrow> pool_inv q"
  by (induction rule: wstep.induct) (simp_all add: inv_steps)

lemma reachable_inv: "reachable null p \<Longrightarrow> pool_inv p"
  by (induction rule: reachable.induct) (simp_all add: pool_inv_init pool_inv_step)

text \<open>
  C32. In every reachable state of the interleaved system, the requests handed to
  \<^verbatim>\<open>sysworker_dispatch_thread\<close> are, as a multiset, the callbacks that have returned, the
  requests held by the eight workers and the one the dispatcher still spins on: no request is
  lost, overwritten or executed twice. In particular every executed callback was requested.
\<close>

theorem workers_exactly_once:
  assumes "reachable null p"
  shows "mset (sent p) = mset (finished p) + (\<Sum>i<8. job p i) + queued p \<and> mset (finished p) \<subseteq># mset (sent p)"
  using pool_invD(5) [OF reachable_inv [OF assms]] by (simp add: add.assoc)

lemma reachable_one_call:
  "reachable 0 (assign ((sysworkers_init 0)\<lparr>dispatcher := Spinning True (7::nat), sent := [(True, 7)]\<rparr>) 0 True 7)"
proof -
  let ?p = "(sysworkers_init 0)\<lparr>dispatcher := Spinning True (7::nat), sent := [(True, 7)]\<rparr>"
  have "wstep (sysworkers_init 0) ?p"
    using wstep.dispatch [of "sysworkers_init 0" True "7::nat"] by (simp add: sysworkers_init_def)
  then have "reachable 0 ?p" by (rule reachable.step [OF reachable.init])
  moreover have "get_idle_worker ?p = Some 0"
    by (simp add: get_idle_worker_def sysworkers_init_def MAX_WORKER_NUM_def numeral_eq_Suc)
  then have "wstep ?p (assign ?p 0 True 7)" by (intro wstep.pick) simp_all
  ultimately show ?thesis by (rule reachable.step)
qed

theorem workers_exactly_once_witness:
  "let p = assign ((sysworkers_init 0)\<lparr>dispatcher := Spinning True (7::nat), sent := [(True, 7)]\<rparr>) 0 True 7 in
   mset (sent p) = mset (finished p) + (\<Sum>i<8. job p i) + queued p \<and> mset (finished p) \<subseteq># mset (sent p)"
  unfolding Let_def by (rule workers_exactly_once) (rule reachable_one_call)



end
