(* ===== verification/Vspace.thy ===== *)
theory Vspace
  imports Prelude
begin

text \<open>
  The address-space manager of \<^verbatim>\<open>libsel4utils\<close> (\<^verbatim>\<open>include/sel4utils/vspace_internal.h\<close>,
  \<^verbatim>\<open>src/vspace/vspace.c\<close>), which the system uses for its own address space and for that of every
  process. A shadow page table records for every 4 KiB page the capability mapped there, or that
  the page is reserved, or that it is free; reservations are kept in a list.

  On ia32 \<^verbatim>\<open>VSPACE_NUM_LEVELS\<close> is 2 and \<^verbatim>\<open>VSPACE_LEVEL_BITS\<close> is 10: the table has a top level of
  1024 entries, each \<^verbatim>\<open>EMPTY\<close>, \<^verbatim>\<open>RESERVED\<close> or a bottom level of 1024 (capability, cookie)
  pairs, and the \<^verbatim>\<open>..._mid\<close> functions only meet \<^verbatim>\<open>level_num == 1\<close>. The four functions over the top
  level are one loop with different actions on a slot (\<open>walk_mid\<close>), those over a bottom level one
  loop with different actions on an entry (\<open>walk_bottom\<close>). Addresses are unsigned 32-bit numbers;
  every sum is reduced by \<open>u32\<close>. \<open>levels\<close> is the number of bottom levels that
  \<^verbatim>\<open>create_level\<close> can still allocate.
\<close>

definition RESERVED :: int where "RESERVED = 4294967295"
definition EMPTY :: int where "EMPTY = 0"
definition KERNEL_RESERVED_START :: int where "KERNEL_RESERVED_START = 3758096384" \<comment> \<open>\<^verbatim>\<open>0xe0000000\<close>\<close>
definition LEVEL_SIZE :: nat where "LEVEL_SIZE = 1024" \<comment> \<open>\<^verbatim>\<open>VSPACE_LEVEL_SIZE\<close>\<close>

type_synonym entry = "int \<times> int" \<comment> \<open>capability, cookie\<close>

datatype table = NoTable | AllReserved | Bottom "entry list"

record res =
  r_id :: nat \<comment> \<open>the address of the structure\<close>
  r_start :: int
  r_end :: int
  r_rights :: int
  r_cacheable :: int
  r_malloced :: int
  r_deferred :: bool

record vspace =
  top_level :: "table list"
  levels :: nat
  last_allocated :: int
  reservation_head :: "res list"

definition index0 :: "int \<Rightarrow> int" where \<comment> \<open>\<^verbatim>\<open>INDEX_FOR_LEVEL(addr, 0)\<close>\<close>
  "index0 addr = addr div 4096 mod 1024"

definition index1 :: "int \<Rightarrow> int" where \<comment> \<open>\<^verbatim>\<open>INDEX_FOR_LEVEL(addr, 1)\<close>\<close>
  "index1 addr = addr div 4194304 mod 1024"

definition create_bottom_level :: "vspace \<Rightarrow> int \<Rightarrow> (entry list \<times> vspace) option" where
  \<comment> \<open>\<^term>\<open>None\<close> is \<^verbatim>\<open>NULL\<close>\<close>
  "create_bottom_level v init =
     (if levels v = 0 then None else Some (replicate LEVEL_SIZE (init, 0), v\<lparr>levels := levels v - 1\<rparr>))"

partial_function (option) walk_bottom ::
  "(entry \<Rightarrow> entry option) \<Rightarrow> entry list \<Rightarrow> int \<Rightarrow> int \<Rightarrow> (int \<times> entry list) option" where
  \<comment> \<open>an action that gives \<^term>\<open>None\<close> ends the loop with \<open>-1\<close>\<close>
  "walk_bottom act level start stop =
     (if start < stop then
        do { e \<leftarrow> arr level (index0 start);
             case act e of None \<Rightarrow> Some (-1, level)
             | Some e' \<Rightarrow> do { level \<leftarrow> arr_upd level (index0 start) e';
                              walk_bottom act level (u32 (start + 4096)) stop } }
      else Some (0, level))"

partial_function (option) walk_mid ::
  "(vspace \<Rightarrow> int \<Rightarrow> int \<Rightarrow> int \<Rightarrow> bool \<Rightarrow> (int \<times> vspace) option) \<Rightarrow> vspace \<Rightarrow> int \<Rightarrow> int \<Rightarrow> (int \<times> vspace) option" where
  "walk_mid act v start stop =
     (if start < stop then
        let index = index1 start;
            aligned_start = start - start mod 4194304;
            next_start = u32 (aligned_start + 4194304);
            must_recurse = (next_start > stop \<or> start \<noteq> aligned_start);
            next_start = (if next_start > stop then stop else next_start)
        in do { (error, v) \<leftarrow> act v index start next_start must_recurse;
                if error \<noteq> 0 then Some (error, v) else walk_mid act v next_start stop }
      else Some (0, v))"

definition set_table :: "vspace \<Rightarrow> int \<Rightarrow> table \<Rightarrow> vspace" where
  "set_table v index t = v\<lparr>top_level := (top_level v)[nat index := t]\<rparr>"

definition in_bottom :: "(entry \<Rightarrow> entry option) \<Rightarrow> vspace \<Rightarrow> int \<Rightarrow> int \<Rightarrow> int \<Rightarrow> entry list \<Rightarrow> (int \<times> vspace) option" where
  "in_bottom act v index start next_start level =
     do { (error, level) \<leftarrow> walk_bottom act level start next_start; Some (error, set_table v index (Bottom level)) }"

definition reserve_entry :: "bool \<Rightarrow> entry \<Rightarrow> entry option" where
  \<comment> \<open>the loop body of \<^verbatim>\<open>reserve_entries_bottom\<close>\<close>
  "reserve_entry preserve_frames = (\<lambda>(cap, cookie).
     if cap = RESERVED then None else if cap \<noteq> EMPTY \<and> preserve_frames then None else Some (RESERVED, 0))"

definition reserve_slot :: "bool \<Rightarrow> vspace \<Rightarrow> int \<Rightarrow> int \<Rightarrow> int \<Rightarrow> bool \<Rightarrow> (int \<times> vspace) option" where
  "reserve_slot preserve_frames v index start next_start must_recurse =
     do { t \<leftarrow> arr (top_level v) index;
          case t of
            AllReserved \<Rightarrow> Some (-1, v)
          | Bottom level \<Rightarrow> in_bottom (reserve_entry preserve_frames) v index start next_start level
          | NoTable \<Rightarrow>
              if must_recurse then
                case create_bottom_level v EMPTY of
                  None \<Rightarrow> Some (-1, v)
                | Some (level, v) \<Rightarrow> in_bottom (reserve_entry preserve_frames) (set_table v index (Bottom level)) index start next_start level
              else Some (0, set_table v index AllReserved) }"

definition clear_entry :: "bool \<Rightarrow> entry \<Rightarrow> entry option" where
  "clear_entry only_reserved = (\<lambda>(cap, cookie). if cap \<noteq> RESERVED \<and> only_reserved then None else Some (EMPTY, 0))"

definition clear_slot :: "bool \<Rightarrow> vspace \<Rightarrow> int \<Rightarrow> int \<Rightarrow> int \<Rightarrow> bool \<Rightarrow> (int \<times> vspace) option" where
  "clear_slot only_reserved v index start next_start must_recurse =
     do { t \<leftarrow> arr (top_level v) index;
          case t of
            AllReserved \<Rightarrow> Some (-1, v)
          | NoTable \<Rightarrow> Some (0, v)
          | Bottom level \<Rightarrow> in_bottom (clear_entry only_reserved) v index start next_start level }"

definition update_entry :: "int \<Rightarrow> int \<Rightarrow> entry \<Rightarrow> entry option" where
  "update_entry cap cookie = (\<lambda>(old_cap, old_cookie).
     if old_cap \<noteq> RESERVED \<and> old_cap \<noteq> EMPTY then None else Some (cap, cookie))"

definition update_slot :: "int \<Rightarrow> int \<Rightarrow> vspace \<Rightarrow> int \<Rightarrow> int \<Rightarrow> int \<Rightarrow> bool \<Rightarrow> (int \<times> vspace) option" where
  \<comment> \<open>a missing level is created full of what the slot stood for\<close>
  "update_slot cap cookie v index start next_start must_recurse =
     do { t \<leftarrow> arr (top_level v) index;
          case t of
            Bottom level \<Rightarrow> in_bottom (update_entry cap cookie) v index start next_start level
          | _ \<Rightarrow>
              (case create_bottom_level v (if t = NoTable then EMPTY else RESERVED) of
                  None \<Rightarrow> Some (-1, v)
                | Some (level, v) \<Rightarrow> in_bottom (update_entry cap cookie) (set_table v index (Bottom level)) index start next_start level) }"

definition check_entry :: "int \<Rightarrow> entry \<Rightarrow> entry option" where
  "check_entry good = (\<lambda>(cap, cookie). if cap \<noteq> good then None else Some (cap, cookie))"

definition check_slot :: "int \<Rightarrow> int \<Rightarrow> vspace \<Rightarrow> int \<Rightarrow> int \<Rightarrow> int \<Rightarrow> bool \<Rightarrow> (int \<times> vspace) option" where
  \<comment> \<open>\<^verbatim>\<open>is_reserved_or_empty_mid\<close>: error \<open>-1\<close> stands for \<^verbatim>\<open>false\<close>\<close>
  "check_slot good bad v index start next_start must_recurse =
     do { t \<leftarrow> arr (top_level v) index;
          let word = (case t of NoTable \<Rightarrow> EMPTY | _ \<Rightarrow> RESERVED);
          case t of
            Bottom level \<Rightarrow> do { (error, _) \<leftarrow> walk_bottom (check_entry good) level start next_start; Some (error, v) }
          | _ \<Rightarrow> Some (if word = bad then -1 else 0, v) }"

definition reserve_entries_range :: "vspace \<Rightarrow> int \<Rightarrow> int \<Rightarrow> bool \<Rightarrow> (int \<times> vspace) option" where
  "reserve_entries_range v start stop preserve_frames = walk_mid (reserve_slot preserve_frames) v start stop"

definition reserve_entries :: "vspace \<Rightarrow> int \<Rightarrow> nat \<Rightarrow> (int \<times> vspace) option" where
  "reserve_entries v vaddr size_bits = reserve_entries_range v vaddr (u32 (vaddr + 2 ^ size_bits)) False"

definition clear_entries_range :: "vspace \<Rightarrow> int \<Rightarrow> int \<Rightarrow> bool \<Rightarrow> (int \<times> vspace) option" where
  "clear_entries_range v start stop only_reserved =
     do { (error, v) \<leftarrow> walk_mid (clear_slot only_reserved) v start stop;
          if error \<noteq> 0 then Some (error, v)
          else Some (0, if start < last_allocated v then v\<lparr>last_allocated := start\<rparr> else v) }"

definition clear_entries :: "vspace \<Rightarrow> int \<Rightarrow> nat \<Rightarrow> (int \<times> vspace) option" where
  "clear_entries v vaddr size_bits = clear_entries_range v vaddr (u32 (vaddr + 2 ^ size_bits)) False"

definition update_entries :: "vspace \<Rightarrow> int \<Rightarrow> int \<Rightarrow> nat \<Rightarrow> int \<Rightarrow> (int \<times> vspace) option" where
  "update_entries v vaddr cap size_bits cookie = walk_mid (update_slot cap cookie) v vaddr (u32 (vaddr + 2 ^ size_bits))"

definition is_available_range :: "vspace \<Rightarrow> int \<Rightarrow> int \<Rightarrow> bool option" where
  "is_available_range v start stop =
     do { (error, _) \<leftarrow> walk_mid (check_slot EMPTY RESERVED) v start stop; Some (error = 0) }"

definition is_reserved_range :: "vspace \<Rightarrow> int \<Rightarrow> int \<Rightarrow> bool option" where
  "is_reserved_range v start stop =
     do { (error, _) \<leftarrow> walk_mid (check_slot RESERVED EMPTY) v start stop; Some (error = 0) }"

definition get_entry :: "vspace \<Rightarrow> int \<Rightarrow> entry option" where
  \<comment> \<open>the walk of \<^verbatim>\<open>get_cap\<close> and \<^verbatim>\<open>get_cookie\<close>\<close>
  "get_entry v vaddr =
     do { t \<leftarrow> arr (top_level v) (index1 vaddr);
          case t of Bottom level \<Rightarrow> arr level (index0 vaddr) | _ \<Rightarrow> Some (0, 0) }"

definition get_cap :: "vspace \<Rightarrow> int \<Rightarrow> int option" where
  "get_cap v vaddr = do { (cap, _) \<leftarrow> get_entry v vaddr; Some cap }"

definition get_cookie :: "vspace \<Rightarrow> int \<Rightarrow> int option" where
  "get_cookie v vaddr = do { (_, cookie) \<leftarrow> get_entry v vaddr; Some cookie }"

subsection \<open>Reservations\<close>

definition check_reservation_bounds :: "res \<Rightarrow> int \<Rightarrow> int \<Rightarrow> bool" where
  "check_reservation_bounds r start stop \<longleftrightarrow> start \<ge> r_start r \<and> stop \<le> r_end r"

definition check_reservation :: "vspace \<Rightarrow> res \<Rightarrow> int \<Rightarrow> int \<Rightarrow> bool option" where
  "check_reservation v r start stop =
     (if check_reservation_bounds r start stop then is_reserved_range v start stop else Some False)"

fun insert_res :: "res \<Rightarrow> res list \<Rightarrow> res list" where
  "insert_res r [] = [r]"
| "insert_res r (x # xs) = (if r_start r > r_start x then r # x # xs else x # insert_res r xs)"

definition insert_reservation :: "vspace \<Rightarrow> res \<Rightarrow> vspace" where
  "insert_reservation v r = v\<lparr>reservation_head := insert_res r (reservation_head v)\<rparr>"

fun remove_res :: "nat \<Rightarrow> res list \<Rightarrow> res list" where
  "remove_res i [] = []"
| "remove_res i (x # xs) = (if r_id x = i then xs else x # remove_res i xs)"

definition remove_reservation :: "vspace \<Rightarrow> res \<Rightarrow> vspace option" where
  \<comment> \<open>an empty list has no head to look behind\<close>
  "remove_reservation v r =
     (if reservation_head v = [] then None
      else Some (v\<lparr>reservation_head := remove_res (r_id r) (reservation_head v)\<rparr>))"

definition round_down :: "int \<Rightarrow> int" where "round_down n = n - n mod 4096"
definition round_up :: "int \<Rightarrow> int" where "round_up n = u32 (n + (if n mod 4096 = 0 then 0 else 4096 - n mod 4096))"

definition perform_reservation :: "vspace \<Rightarrow> res \<Rightarrow> int \<Rightarrow> int \<Rightarrow> int \<Rightarrow> int \<Rightarrow> (res \<times> vspace) option" where
  "perform_reservation v r vaddr bytes rights cacheable =
     do { let r = r\<lparr>r_start := round_down vaddr, r_end := round_up (u32 (vaddr + bytes)), r_rights := rights,
                    r_cacheable := cacheable\<rparr>;
          (error, v) \<leftarrow> reserve_entries_range v (r_start r) (r_end r) True;
          ok (error = 0);
          Some (r, insert_reservation v r) }"

fun find_res :: "res list \<Rightarrow> int \<Rightarrow> res option" where
  "find_res [] vaddr = None"
| "find_res (r # rs) vaddr = (if vaddr \<ge> r_start r \<and> vaddr < r_end r then Some r else find_res rs vaddr)"

definition find_reserve :: "vspace \<Rightarrow> int \<Rightarrow> res option" where
  "find_reserve v vaddr = find_res (reservation_head v) vaddr"

partial_function (option) find_range_loop :: "vspace \<Rightarrow> int \<Rightarrow> nat \<Rightarrow> int \<Rightarrow> int \<Rightarrow> int \<Rightarrow> (int \<times> int) option option" where
  \<comment> \<open>(start, current) of the range; \<open>Some None\<close>: out of virtual memory\<close>
  "find_range_loop v num_pages size_bits contiguous start current =
     (if contiguous < num_pages then
        do { available \<leftarrow> is_available_range v current (u32 (current + 2 ^ size_bits));
             let current = u32 (current + 2 ^ size_bits);
             let contiguous = (if available then contiguous + 1 else 0);
             let start = (if available then start else current);
             if current \<ge> KERNEL_RESERVED_START then Some None
             else find_range_loop v num_pages size_bits contiguous start current }
      else Some (Some (start, current)))"

definition find_range :: "vspace \<Rightarrow> int \<Rightarrow> nat \<Rightarrow> (int option \<times> vspace) option" where
  "find_range v num_pages size_bits =
     do { let n = 2 ^ size_bits;
          let start = u32 (last_allocated v + n - 1); \<comment> \<open>\<^verbatim>\<open>ALIGN_UP\<close>\<close>
          let start = start - start mod n;
          r \<leftarrow> find_range_loop v num_pages size_bits 0 start start;
          case r of None \<Rightarrow> Some (None, v)
          | Some (start, current) \<Rightarrow> Some (Some start, v\<lparr>last_allocated := current\<rparr>) }"

definition sel4utils_reserve_range_at :: "vspace \<Rightarrow> nat \<Rightarrow> int \<Rightarrow> int \<Rightarrow> int \<Rightarrow> int \<Rightarrow> (res option \<times> vspace) option" where
  \<comment> \<open>\<open>i\<close> is the address \<^verbatim>\<open>malloc\<close> returns (0: it fails); the first component is \<^verbatim>\<open>reservation.res\<close>\<close>
  "sel4utils_reserve_range_at v i vaddr sz rights cacheable =
     (if i = 0 then Some (None, v)
      else do { available \<leftarrow> is_available_range v vaddr (u32 (vaddr + sz));
                if \<not> available then Some (None, v)
                else do { (r, v) \<leftarrow> perform_reservation v
                            \<lparr>r_id = i, r_start = 0, r_end = 0, r_rights = 0, r_cacheable = 0, r_malloced = 1, r_deferred = False\<rparr>
                            vaddr sz rights cacheable;
                          Some (Some r, v) } })"

definition valid_size_bits :: "nat \<Rightarrow> bool" where \<comment> \<open>\<^verbatim>\<open>sel4_valid_size_bits\<close> on ia32\<close>
  "valid_size_bits size_bits \<longleftrightarrow> size_bits = 12 \<or> size_bits = 22"

definition sel4utils_reserve_range_no_alloc_aligned ::
  "vspace \<Rightarrow> res \<Rightarrow> int \<Rightarrow> nat \<Rightarrow> int \<Rightarrow> int \<Rightarrow> (int \<times> res \<times> int \<times> vspace) option" where
  \<comment> \<open>(error, the structure, \<^verbatim>\<open>*result\<close>, the address space)\<close>
  "sel4utils_reserve_range_no_alloc_aligned v r sz size_bits rights cacheable =
     do { let n = 2 ^ size_bits;
          (vaddr, v) \<leftarrow> find_range v (sz div n + (if sz mod n > 0 then 1 else 0)) size_bits;
          case vaddr of None \<Rightarrow> Some (-1, r, 0, v)
          | Some vaddr \<Rightarrow>
              do { (r, v) \<leftarrow> perform_reservation v (r\<lparr>r_malloced := 0, r_deferred := False\<rparr>) vaddr sz rights cacheable;
                   Some (0, r, vaddr, v) } }"

definition sel4utils_reserve_range_aligned :: "vspace \<Rightarrow> nat \<Rightarrow> int \<Rightarrow> nat \<Rightarrow> int \<Rightarrow> int \<Rightarrow> (res option \<times> int \<times> vspace) option" where
  \<comment> \<open>the second component is \<^verbatim>\<open>*result\<close>; when the range cannot be had, \<^verbatim>\<open>res->malloced = 1\<close>
     writes to the structure that was just freed\<close>
  "sel4utils_reserve_range_aligned v i bytes size_bits rights cacheable =
     (if \<not> valid_size_bits size_bits then Some (None, 0, v)
      else if i = 0 then Some (None, 0, v)
      else do { (error, r, vaddr, v) \<leftarrow> sel4utils_reserve_range_no_alloc_aligned v
                  \<lparr>r_id = i, r_start = 0, r_end = 0, r_rights = 0, r_cacheable = 0, r_malloced = 0, r_deferred = False\<rparr>
                  bytes size_bits rights cacheable;
                ok (error = 0);
                let r = r\<lparr>r_malloced := 1\<rparr>;
                Some (Some r, vaddr, v\<lparr>reservation_head := map (\<lambda>x. if r_id x = i then r else x) (reservation_head v)\<rparr>) })"

definition sel4utils_free_reservation :: "vspace \<Rightarrow> res \<Rightarrow> vspace option" where
  \<comment> \<open>the error of \<^verbatim>\<open>clear_entries_range\<close> is not looked at\<close>
  "sel4utils_free_reservation v r =
     do { (_, v) \<leftarrow> clear_entries_range v (r_start r) (r_end r) True; remove_reservation v r }"

definition sel4utils_get_cap :: "vspace \<Rightarrow> int \<Rightarrow> int option" where
  "sel4utils_get_cap v vaddr = do { cap \<leftarrow> get_cap v vaddr; Some (if cap = RESERVED then 0 else cap) }"

subsection \<open>Mapping pages\<close>

fun map_pages_at_vaddr :: "(int \<Rightarrow> int \<Rightarrow> int) \<Rightarrow> vspace \<Rightarrow> (int \<times> int) list \<Rightarrow> int \<Rightarrow> nat \<Rightarrow> (int \<times> vspace) option" where
  \<comment> \<open>over the list of (cap, cookie); \<open>map_page cap vaddr\<close> is the error of the kernel's mapping call\<close>
  "map_pages_at_vaddr map_page v [] vaddr size_bits = Some (0, v)"
| "map_pages_at_vaddr map_page v ((cap, cookie) # caps) vaddr size_bits =
     (let error = map_page cap vaddr in
      if error \<noteq> 0 then Some (error, v)
      else do { (error, v) \<leftarrow> update_entries v vaddr cap size_bits cookie;
                if error \<noteq> 0 then Some (error, v)
                else map_pages_at_vaddr map_page v caps (u32 (vaddr + 2 ^ size_bits)) size_bits })"

definition sel4utils_map_pages_at_vaddr ::
  "(int \<Rightarrow> int \<Rightarrow> int) \<Rightarrow> vspace \<Rightarrow> (int \<times> int) list \<Rightarrow> int \<Rightarrow> nat \<Rightarrow> res \<Rightarrow> (int \<times> vspace) option" where
  "sel4utils_map_pages_at_vaddr map_page v caps vaddr size_bits r =
     (if \<not> valid_size_bits size_bits then Some (-1, v)
      else do { valid \<leftarrow> check_reservation v r vaddr (u32 (vaddr + int (length caps) * 2 ^ size_bits));
                if \<not> valid then Some (-1, v)
                else if r_deferred r then Some (-1, v)
                else map_pages_at_vaddr map_page v caps vaddr size_bits })"

subsection \<open>The flat page table\<close>

definition entry :: "vspace \<Rightarrow> nat \<Rightarrow> entry" where
  \<comment> \<open>what the two-level table says of page \<open>p\<close>\<close>
  "entry v p = (case top_level v ! (p div 1024) of
       NoTable \<Rightarrow> (EMPTY, 0) | AllReserved \<Rightarrow> (RESERVED, 0) | Bottom level \<Rightarrow> level ! (p mod 1024))"

definition tables_ok :: "vspace \<Rightarrow> bool" where
  "tables_ok v \<longleftrightarrow> length (top_level v) = 1024
     \<and> (\<forall>t \<in> set (top_level v). case t of Bottom level \<Rightarrow> length level = 1024 | _ \<Rightarrow> True)"

lemma page_index:
  "p < 1048576 \<Longrightarrow> index0 (4096 * int p) = int (p mod 1024)"
  "p < 1048576 \<Longrightarrow> index1 (4096 * int p) = int (p div 1024)"
proof -
  show "index0 (4096 * int p) = int (p mod 1024)" by (simp add: index0_def zmod_int)
  assume "p < 1048576"
  then have "int p div 1024 < 1024" by simp
  moreover have "4096 * int p div 4194304 = int p div 1024" by simp
  ultimately show "index1 (4096 * int p) = int (p div 1024)" by (simp add: index1_def zdiv_int)
qed

lemma page_step: "Suc p < 1048576 \<Longrightarrow> u32 (4096 * int p + 4096) = 4096 * int (Suc p)"
  by (simp add: u32_def)

lemma slot_mod: "1024 * i \<le> p \<Longrightarrow> p < 1024 * i + 1024 \<Longrightarrow> p mod 1024 = p - 1024 * i \<and> p div 1024 = (i :: nat)"
proof -
  assume "1024 * i \<le> p" "p < 1024 * i + 1024"
  then obtain j where "p = 1024 * i + j" "j < 1024" by (metis add_less_cancel_left le_Suc_ex)
  then show ?thesis by simp
qed

lemma walk_bottom_ok:
  assumes "length level = 1024" "1024 * i \<le> p" "p \<le> q" "q \<le> 1024 * i + 1024" "q < 1048576"
    "\<And>k. p \<le> k \<Longrightarrow> k < q \<Longrightarrow> act (level ! (k - 1024 * i)) \<noteq> None"
  shows "\<exists>level'. walk_bottom act level (4096 * int p) (4096 * int q) = Some (0, level') \<and> length level' = 1024
    \<and> (\<forall>j<1024. level' ! j = (if p \<le> 1024 * i + j \<and> 1024 * i + j < q then the (act (level ! j)) else level ! j))"
  using assms
proof (induction "q - p" arbitrary: p level)
  case 0
  then show ?case by (subst walk_bottom.simps) auto
next
  case (Suc n)
  then have pq: "p < q" and n: "n = q - Suc p" by simp_all
  let ?j = "p - 1024 * i"
  have j: "?j < 1024" "p mod 1024 = ?j" using slot_mod [of i p] pq Suc.prems by auto
  obtain e where e: "act (level ! ?j) = Some e" using Suc.prems(6) [of p] pq by blast
  let ?l = "level[?j := e]"
  have "index0 (4096 * int p) = int ?j" using page_index(1) [of p] j pq Suc.prems by simp
  then have step: "walk_bottom act level (4096 * int p) (4096 * int q) = walk_bottom act ?l (4096 * int (Suc p)) (4096 * int q)"
    using pq e j Suc.prems(1,5) page_step [of p] by (subst walk_bottom.simps) (simp add: arr_def arr_upd_def)
  have "act (?l ! (k - 1024 * i)) \<noteq> None" if "Suc p \<le> k" "k < q" for k
    using Suc.prems(6) [of k] that Suc.prems(2) by (simp add: nth_list_update)
  then obtain l' where l': "walk_bottom act ?l (4096 * int (Suc p)) (4096 * int q) = Some (0, l')" "length l' = 1024"
    "\<forall>j<1024. l' ! j = (if Suc p \<le> 1024 * i + j \<and> 1024 * i + j < q then the (act (?l ! j)) else ?l ! j)"
    using Suc.hyps(1) [OF n, of ?l] Suc.prems(1-5) pq by auto
  show ?case
  proof (intro exI [of _ l'] conjI allI impI)
    fix k assume k: "k < (1024 :: nat)"
    show "l' ! k = (if p \<le> 1024 * i + k \<and> 1024 * i + k < q then the (act (level ! k)) else level ! k)"
    proof (cases "k = ?j")
      case True
      with l'(3) k e pq Suc.prems(1,2) show ?thesis by simp
    next
      case False
      then have "Suc p \<le> 1024 * i + k \<longleftrightarrow> p \<le> 1024 * i + k" using Suc.prems(2) by linarith
      with l'(3) k False show ?thesis by simp
    qed
  qed (use step l' in simp_all)
qed

lemma walk_bottom_fail:
  assumes "length level = 1024" "1024 * i \<le> p" "p \<le> q" "q \<le> 1024 * i + 1024" "q < 1048576"
    "p \<le> k" "k < q" "act (level ! (k - 1024 * i)) = None"
  shows "\<exists>level'. walk_bottom act level (4096 * int p) (4096 * int q) = Some (-1, level') \<and> length level' = 1024"
  using assms
proof (induction "q - p" arbitrary: p level)
  case (Suc n)
  then have pq: "p < q" and n: "n = q - Suc p" by simp_all
  let ?j = "p - 1024 * i"
  have j: "?j < 1024" "p mod 1024 = ?j" using slot_mod [of i p] pq Suc.prems by auto
  have ix: "index0 (4096 * int p) = int ?j" using page_index(1) [of p] j pq Suc.prems by simp
  show ?case
  proof (cases "act (level ! ?j)")
    case None
    then show ?thesis using pq j ix Suc.prems(1) by (subst walk_bottom.simps) (simp add: arr_def)
  next
    case (Some e)
    then have kp: "k \<noteq> p" using Suc.prems(8) by auto
    have step: "walk_bottom act level (4096 * int p) (4096 * int q)
        = walk_bottom act (level[?j := e]) (4096 * int (Suc p)) (4096 * int q)"
      using pq Some j ix Suc.prems(1,5) page_step [of p] by (subst walk_bottom.simps) (simp add: arr_def arr_upd_def)
    show ?thesis unfolding step
      using Suc.hyps(1) [OF n, of "level[?j := e]"] Suc.prems kp pq by (auto simp: nth_list_update)
  qed
qed simp

subsection \<open>From slots to ranges\<close>

definition chunk :: "nat \<Rightarrow> nat \<Rightarrow> nat \<Rightarrow> bool" where
  \<comment> \<open>pages \<open>p\<close> to \<open>q - 1\<close> lie in slot \<open>i\<close> of the top level\<close>
  "chunk i p q \<longleftrightarrow> 1024 * i \<le> p \<and> p < q \<and> q \<le> 1024 * i + 1024 \<and> i < 1023"

definition same_rest :: "vspace \<Rightarrow> vspace \<Rightarrow> bool" where
  "same_rest v v' \<longleftrightarrow> last_allocated v' = last_allocated v \<and> reservation_head v' = reservation_head v"

definition slots :: "nat \<Rightarrow> nat \<Rightarrow> nat" where
  \<comment> \<open>the number of top-level slots a range touches\<close>
  "slots p q = (if p < q then (q + 1023) div 1024 - p div 1024 else 0)"

lemma chunk_bounds:
  assumes "chunk i p q" "p \<le> k" "k < q"
  shows "k div 1024 = i" "k mod 1024 = k - 1024 * i" "k < 1047552" "i < 1024"
  using assms slot_mod [of i k] by (auto simp: chunk_def)

lemma walk_mid_step:
  assumes "p < q" "q \<le> 1047552"
  shows "walk_mid act v (4096 * int p) (4096 * int q) =
    (let i = p div 1024; e = min q (1024 * i + 1024) in
     do { (error, v) \<leftarrow> act v (int i) (4096 * int p) (4096 * int e) (p \<noteq> 1024 * i \<or> e \<noteq> 1024 * i + 1024);
          if error \<noteq> 0 then Some (error, v) else walk_mid act v (4096 * int e) (4096 * int q) })"
proof -
  let ?i = "p div 1024"
  let ?e = "min q (1024 * ?i + 1024)"
  have i: "?i < 1023" using assms by linarith
  have "4096 * int p mod 4194304 = 4096 * (int p mod 1024)" using mult_mod_right [of 4096 "int p" 1024] by simp
  moreover have "1024 * (int p div 1024) + int p mod 1024 = int p" by (rule mult_div_mod_eq)
  ultimately have start: "4096 * int p - 4096 * int p mod 4194304 = 4194304 * int ?i"
    unfolding of_nat_div of_nat_numeral by linarith
  have nxt: "u32 (4194304 * int ?i + 4194304) = 4194304 * int ?i + 4194304" using i by (simp add: u32_def)
  have e: "(if 4194304 * int ?i + 4194304 > 4096 * int q then 4096 * int q else 4194304 * int ?i + 4194304) = 4096 * int ?e"
    by (simp add: min_def)
  have ix: "index1 (4096 * int p) = int ?i" using page_index(2) [of p] assms by simp
  have m: "(4194304 * int ?i + 4194304 > 4096 * int q \<or> 4096 * int p \<noteq> 4194304 * int ?i)
      = (p \<noteq> 1024 * ?i \<or> ?e \<noteq> 1024 * ?i + 1024)"
    by (auto simp: min_def)
  show ?thesis
    using assms(1) by (subst walk_mid.simps) (simp only: start nxt Let_def e m ix, simp)
qed

lemma first_chunk:
  assumes "p < q" "q \<le> 1047552"
  shows "chunk (p div 1024) p (min q (1024 * (p div 1024) + 1024))" "q - min q (1024 * (p div 1024) + 1024) < q - p"
  using assms by (auto simp: chunk_def min_def)

locale slot_action =
  fixes act :: "vspace \<Rightarrow> int \<Rightarrow> int \<Rightarrow> int \<Rightarrow> bool \<Rightarrow> (int \<times> vspace) option"
    and slot_ok :: "table \<Rightarrow> bool" and good :: "entry \<Rightarrow> bool" and upd :: "entry \<Rightarrow> entry"
  assumes slot_law: "tables_ok v \<Longrightarrow> 0 < levels v \<Longrightarrow> chunk i p q \<Longrightarrow> slot_ok (top_level v ! i) \<Longrightarrow>
      must = (p \<noteq> 1024 * i \<or> q \<noteq> 1024 * i + 1024) \<Longrightarrow> (\<And>k. p \<le> k \<Longrightarrow> k < q \<Longrightarrow> good (entry v k)) \<Longrightarrow>
      \<exists>v'. act v (int i) (4096 * int p) (4096 * int q) must = Some (0, v') \<and> tables_ok v' \<and> same_rest v v'
        \<and> levels v \<le> Suc (levels v') \<and> (\<forall>j. j \<noteq> i \<longrightarrow> top_level v' ! j = top_level v ! j)
        \<and> (\<forall>k < 1048576. entry v' k = (if p \<le> k \<and> k < q then upd (entry v k) else entry v k))"
begin

lemma walk_law:
  assumes "tables_ok v" "slots p q \<le> levels v" "p \<le> q" "q \<le> 1047552"
    "\<And>k. p \<le> k \<Longrightarrow> k < q \<Longrightarrow> slot_ok (top_level v ! (k div 1024)) \<and> good (entry v k)"
  shows "\<exists>v'. walk_mid act v (4096 * int p) (4096 * int q) = Some (0, v') \<and> tables_ok v' \<and> same_rest v v'
    \<and> levels v \<le> levels v' + slots p q \<and> (\<forall>k < 1048576. entry v' k = (if p \<le> k \<and> k < q then upd (entry v k) else entry v k))"
  using assms
proof (induction "q - p" arbitrary: p v rule: less_induct)
  case less
  show ?case
  proof (cases "p = q")
    case True
    then show ?thesis using less.prems(1) by (subst walk_mid.simps) (auto simp: same_rest_def)
  next
    case False
    let ?i = "p div 1024"
    let ?e = "min q (1024 * ?i + 1024)"
    have p: "p < q" "1024 * ?i \<le> p" "p < 1024 * ?i + 1024" using False less.prems(3) by auto
    have i: "?i < 1023" using p less.prems(4) by linarith
    have c: "chunk ?i p ?e" using p i by (auto simp: chunk_def)
    let ?must = "p \<noteq> 1024 * ?i \<or> ?e \<noteq> 1024 * ?i + 1024"
    have sl: "Suc (slots ?e q) \<le> slots p q" using p by (auto simp: slots_def min_def)
    then have lv: "0 < levels v" "slots ?e q \<le> levels v - 1" using less.prems(2) by linarith+
    obtain v1 where v1: "act v (int ?i) (4096 * int p) (4096 * int ?e) ?must = Some (0, v1)" "tables_ok v1"
      "same_rest v v1" "levels v \<le> Suc (levels v1)" "\<forall>j. j \<noteq> ?i \<longrightarrow> top_level v1 ! j = top_level v ! j"
      "\<forall>k < 1048576. entry v1 k = (if p \<le> k \<and> k < ?e then upd (entry v k) else entry v k)"
      using slot_law [OF less.prems(1) lv(1) c _ refl] less.prems(5) p by (auto simp: less.prems(5))
    have step: "walk_mid act v (4096 * int p) (4096 * int q) = walk_mid act v1 (4096 * int ?e) (4096 * int q)"
      unfolding walk_mid_step [OF p(1) less.prems(4), of act v] Let_def v1(1) by simp
    have "slot_ok (top_level v1 ! (k div 1024)) \<and> good (entry v1 k)" if k: "?e \<le> k" "k < q" for k
    proof -
      have "k div 1024 \<noteq> ?i" using k p by auto
      then show ?thesis using less.prems(5) [of k] v1(5,6) k p less.prems(4) by auto
    qed
    moreover have dec: "q - ?e < q - p" using p by (auto simp: min_def)
    moreover have "slots ?e q \<le> levels v1" using lv v1(4) by linarith
    ultimately obtain v2 where v2: "walk_mid act v1 (4096 * int ?e) (4096 * int q) = Some (0, v2)" "tables_ok v2"
      "same_rest v1 v2" "levels v1 \<le> levels v2 + slots ?e q" "\<forall>k < 1048576. entry v2 k = (if ?e \<le> k \<and> k < q then upd (entry v1 k) else entry v1 k)"
      using less.hyps [OF dec v1(2)] less.prems(4) by (metis min.cobounded1)
    have "levels v \<le> levels v2 + slots p q" using v1(4) v2(4) sl by linarith
    then show ?thesis
      using step v2(1-3,5) v1(3,6) p by (intro exI [of _ v2]) (auto simp: same_rest_def)
  qed
qed

end

lemma set_table_fields [simp]:
  "levels (set_table v i t) = levels v" "last_allocated (set_table v i t) = last_allocated v"
  "reservation_head (set_table v i t) = reservation_head v" "length (top_level (set_table v i t)) = length (top_level v)"
  by (simp_all add: set_table_def)

lemma top_set_table [simp]:
  "i < length (top_level v) \<Longrightarrow> top_level (set_table v (int i) t) ! j = (if j = i then t else top_level v ! j)"
  by (auto simp: set_table_def nth_list_update)

lemma tables_ok_set: "tables_ok v \<Longrightarrow> (case t of Bottom l \<Rightarrow> length l = 1024 | _ \<Rightarrow> True) \<Longrightarrow> tables_ok (set_table v i t)"
  by (auto simp: tables_ok_def set_table_def dest!: set_update_subset_insert [THEN subsetD])

lemma tables_okD: "tables_ok v \<Longrightarrow> i < 1024 \<Longrightarrow> top_level v ! i = Bottom level \<Longrightarrow> length level = 1024"
  by (auto simp: tables_ok_def dest: bspec [OF _ nth_mem, of _ _ i])

lemma in_bottom_ok:
  assumes "tables_ok v" "chunk i p q" "top_level v ! i = Bottom level"
    "\<And>k. p \<le> k \<Longrightarrow> k < q \<Longrightarrow> act (entry v k) \<noteq> None"
  shows "\<exists>v'. in_bottom act v (int i) (4096 * int p) (4096 * int q) level = Some (0, v') \<and> tables_ok v' \<and> same_rest v v'
    \<and> levels v' = levels v \<and> (\<forall>j. j \<noteq> i \<longrightarrow> top_level v' ! j = top_level v ! j)
    \<and> (\<forall>k < 1048576. entry v' k = (if p \<le> k \<and> k < q then the (act (entry v k)) else entry v k))"
proof -
  have i: "i < 1024" "length (top_level v) = 1024" "length level = 1024"
    using assms(1-3) tables_okD [of v i level] by (auto simp: chunk_def tables_ok_def)
  have e: "entry v k = level ! (k - 1024 * i)" if "p \<le> k" "k < q" for k
    using chunk_bounds [OF assms(2) that] assms(3) by (simp add: entry_def)
  obtain l where l: "walk_bottom act level (4096 * int p) (4096 * int q) = Some (0, l)" "length l = 1024"
    "\<forall>j<1024. l ! j = (if p \<le> 1024 * i + j \<and> 1024 * i + j < q then the (act (level ! j)) else level ! j)"
    using walk_bottom_ok [of level i p q act] i assms(2,4) e by (auto simp: chunk_def)
  let ?v = "set_table v (int i) (Bottom l)"
  have "entry ?v k = (if p \<le> k \<and> k < q then the (act (entry v k)) else entry v k)" if k: "k < 1048576" for k
  proof (cases "k div 1024 = i")
    case True
    then have "1024 * i + k mod 1024 = k" by (metis mult_div_mod_eq)
    with l(3) True i assms(3) show ?thesis by (simp add: entry_def)
  next
    case False
    then have "\<not> (p \<le> k \<and> k < q)" using chunk_bounds(1) [OF assms(2)] by blast
    with False i show ?thesis by (auto simp: entry_def)
  qed
  moreover have "tables_ok ?v" using assms(1) l(2) by (intro tables_ok_set) simp_all
  ultimately show ?thesis using l(1) i by (auto simp: in_bottom_def same_rest_def)
qed

lemma create_level_entry:
  assumes "tables_ok v" "i < 1024" "create_bottom_level v init = Some (level, v')"
    "top_level v ! i = NoTable \<and> init = EMPTY \<or> top_level v ! i = AllReserved \<and> init = RESERVED"
  shows "tables_ok (set_table v' (int i) (Bottom level))" "entry (set_table v' (int i) (Bottom level)) = entry v"
    "levels v = Suc (levels v')" "same_rest v v'" "\<And>j. j \<noteq> i \<Longrightarrow> top_level (set_table v' (int i) (Bottom level)) ! j = top_level v ! j"
    "top_level (set_table v' (int i) (Bottom level)) ! i = Bottom level"
proof -
  have c: "level = replicate 1024 (init, 0)" "v' = v\<lparr>levels := levels v - 1\<rparr>" "levels v \<noteq> 0"
    using assms(3) by (auto simp: create_bottom_level_def LEVEL_SIZE_def split: if_splits)
  have l: "length (top_level v) = 1024" using assms(1) by (simp add: tables_ok_def)
  have "tables_ok v'" using assms(1) c by (simp add: tables_ok_def)
  then show "tables_ok (set_table v' (int i) (Bottom level))" using c by (intro tables_ok_set) simp_all
  show "entry (set_table v' (int i) (Bottom level)) = entry v"
    using c l assms(2,4) by (auto simp: entry_def fun_eq_iff)
  show "levels v = Suc (levels v')" "same_rest v v'" using c by (simp_all add: same_rest_def)
  show "\<And>j. j \<noteq> i \<Longrightarrow> top_level (set_table v' (int i) (Bottom level)) ! j = top_level v ! j"
    "top_level (set_table v' (int i) (Bottom level)) ! i = Bottom level" using c l assms(2) by simp_all
qed

interpretation reserve: slot_action "reserve_slot preserve" "\<lambda>t. True"
  "\<lambda>e. reserve_entry preserve e \<noteq> None" "\<lambda>e. the (reserve_entry preserve e)"
proof (unfold_locales, goal_cases)
  case (1 v i p q must)
  have i: "i < 1024" "length (top_level v) = 1024" using 1(1,3) by (auto simp: chunk_def tables_ok_def)
  show ?case
  proof (cases "top_level v ! i")
    case AllReserved
    have "entry v p = (RESERVED, 0)" "p < q"
      using chunk_bounds(1) [OF 1(3), of p] 1(3) AllReserved by (auto simp: entry_def chunk_def)
    with 1(6) [of p] show ?thesis by (simp add: reserve_entry_def)
  next
    case (Bottom level)
    with in_bottom_ok [OF 1(1,3) Bottom, of "reserve_entry preserve"] 1(6) i show ?thesis
      by (fastforce simp: reserve_slot_def arr_nth)
  next
    case NoTable
    show ?thesis
    proof (cases must)
      case True
      obtain level w where c: "create_bottom_level v EMPTY = Some (level, w)"
        using 1(2) by (simp add: create_bottom_level_def)
      note ce = create_level_entry [OF 1(1) i(1) c] 
      have n: "top_level v ! i = NoTable \<and> EMPTY = EMPTY \<or> top_level v ! i = AllReserved \<and> EMPTY = RESERVED"
        using NoTable by simp
      let ?v = "set_table w (int i) (Bottom level)"
      obtain v' where "in_bottom (reserve_entry preserve) ?v (int i) (4096 * int p) (4096 * int q) level = Some (0, v')"
        "tables_ok v'" "same_rest ?v v'" "levels v' = levels ?v" "\<forall>j. j \<noteq> i \<longrightarrow> top_level v' ! j = top_level ?v ! j"
        "\<forall>k < 1048576. entry v' k = (if p \<le> k \<and> k < q then the (reserve_entry preserve (entry v k)) else entry v k)"
        using in_bottom_ok [OF ce(1) [OF n] 1(3) ce(6) [OF n], of "reserve_entry preserve"] 1(6) ce(2) [OF n] by auto
      then show ?thesis using True NoTable c i ce(3,4,5) [OF n]
        by (auto simp: reserve_slot_def arr_nth same_rest_def)
    next
      case False
      then have pq: "p = 1024 * i" "q = 1024 * i + 1024" using 1(5) by auto
      let ?v = "set_table v (int i) AllReserved"
      have "entry ?v k = (if p \<le> k \<and> k < q then the (reserve_entry preserve (entry v k)) else entry v k)" for k
      proof (cases "p \<le> k \<and> k < q")
        case True
        with chunk_bounds(1) [OF 1(3), of k] NoTable i show ?thesis
          by (simp add: entry_def reserve_entry_def RESERVED_def EMPTY_def)
      next
        case out: False
        then have "k div 1024 \<noteq> i" using pq by auto
        with out i show ?thesis by (auto simp: entry_def)
      qed
      moreover have "tables_ok ?v" using 1(1) by (intro tables_ok_set) simp_all
      ultimately show ?thesis using False NoTable i by (auto simp: reserve_slot_def arr_nth same_rest_def)
    qed
  qed
qed

interpretation clear: slot_action "clear_slot only" "\<lambda>t. t \<noteq> AllReserved"
  "\<lambda>e. clear_entry only e \<noteq> None" "\<lambda>e. the (clear_entry only e)"
proof (unfold_locales, goal_cases)
  case (1 v i p q must)
  have i: "i < 1024" "length (top_level v) = 1024" using 1(1,3) by (auto simp: chunk_def tables_ok_def)
  show ?case
  proof (cases "top_level v ! i")
    case (Bottom level)
    with in_bottom_ok [OF 1(1,3) Bottom, of "clear_entry only"] 1(6) i show ?thesis
      by (fastforce simp: clear_slot_def arr_nth)
  next
    case NoTable
    have "entry v k = the (clear_entry only (entry v k))" if "p \<le> k" "k < q" for k
      using chunk_bounds(1) [OF 1(3) that] NoTable 1(6) [OF that] by (auto simp: entry_def clear_entry_def split: if_splits)
    with NoTable i 1(1) show ?thesis by (auto simp: clear_slot_def arr_nth same_rest_def)
  qed (use 1(4) in simp)
qed

interpretation update: slot_action "update_slot cap cookie" "\<lambda>t. True"
  "\<lambda>e. update_entry cap cookie e \<noteq> None" "\<lambda>e. the (update_entry cap cookie e)"
proof (unfold_locales, goal_cases)
  case (1 v i p q must)
  let ?act = "update_entry cap cookie"
  have i: "i < 1024" "length (top_level v) = 1024" using 1(1,3) by (auto simp: chunk_def tables_ok_def)
  show ?case
  proof (cases "\<exists>level. top_level v ! i = Bottom level")
    case True
    then obtain level where Bottom: "top_level v ! i = Bottom level" by blast
    with in_bottom_ok [OF 1(1,3) Bottom, of ?act] 1(6) i show ?thesis
      by (fastforce simp: update_slot_def arr_nth)
  next
    case False
    let ?init = "if top_level v ! i = NoTable then EMPTY else RESERVED"
    have n: "top_level v ! i = NoTable \<and> ?init = EMPTY \<or> top_level v ! i = AllReserved \<and> ?init = RESERVED"
      using False by (cases "top_level v ! i") auto
    obtain level w where c: "create_bottom_level v ?init = Some (level, w)"
      using 1(2) by (simp add: create_bottom_level_def)
    note ce = create_level_entry [OF 1(1) i(1) c n]
    let ?v = "set_table w (int i) (Bottom level)"
    obtain v' where "in_bottom ?act ?v (int i) (4096 * int p) (4096 * int q) level = Some (0, v')"
      "tables_ok v'" "same_rest ?v v'" "levels v' = levels ?v" "\<forall>j. j \<noteq> i \<longrightarrow> top_level v' ! j = top_level ?v ! j"
      "\<forall>k < 1048576. entry v' k = (if p \<le> k \<and> k < q then the (?act (entry v k)) else entry v k)"
      using in_bottom_ok [OF ce(1) 1(3) ce(6), of ?act] 1(6) ce(2) by auto
    then show ?thesis using c i ce(3,4,5) False
      by (cases "top_level v ! i") (auto simp: update_slot_def arr_nth same_rest_def)
  qed
qed

lemma check_slot_spec:
  assumes "tables_ok v" "chunk i p q" "(g, bad) = (EMPTY, RESERVED) \<or> (g, bad) = (RESERVED, EMPTY)"
  shows "check_slot g bad v (int i) (4096 * int p) (4096 * int q) must
    = Some (if \<forall>k. p \<le> k \<and> k < q \<longrightarrow> fst (entry v k) = g then 0 else -1, v)"
proof -
  have i: "i < 1024" "length (top_level v) = 1024" using assms(1,2) by (auto simp: chunk_def tables_ok_def)
  have pq: "p < q" using assms(2) by (simp add: chunk_def)
  have slot: "k div 1024 = i" "k mod 1024 = k - 1024 * i" if "p \<le> k" "k < q" for k
    using chunk_bounds(1,2) [OF assms(2) that] .
  have ne: "EMPTY \<noteq> RESERVED" by (simp add: EMPTY_def RESERVED_def)
  show ?thesis
  proof (cases "top_level v ! i")
    case (Bottom level)
    note l = tables_okD [OF assms(1) i(1) Bottom]
    have e: "entry v k = level ! (k - 1024 * i)" if "p \<le> k" "k < q" for k
      using slot [OF that] Bottom by (simp add: entry_def)
    have a: "check_entry g x = None \<longleftrightarrow> fst x \<noteq> g" for x by (cases x) (simp add: check_entry_def)
    show ?thesis
    proof (cases "\<forall>k. p \<le> k \<and> k < q \<longrightarrow> fst (entry v k) = g")
      case True
      then have "\<exists>l. walk_bottom (check_entry g) level (4096 * int p) (4096 * int q) = Some (0, l)"
        using walk_bottom_ok [of level i p q "check_entry g"] l assms(2) e a by (auto simp: chunk_def)
      with True Bottom i show ?thesis by (auto simp: check_slot_def arr_nth)
    next
      case False
      then obtain k where "p \<le> k" "k < q" "fst (entry v k) \<noteq> g" by blast
      then have "\<exists>l. walk_bottom (check_entry g) level (4096 * int p) (4096 * int q) = Some (-1, l)"
        using walk_bottom_fail [of level i p q k "check_entry g"] l assms(2) e a by (auto simp: chunk_def)
      with False Bottom i show ?thesis by (auto simp: check_slot_def arr_nth)
    qed
  next
    case NoTable
    then have "fst (entry v k) = EMPTY" if "p \<le> k" "k < q" for k using slot [OF that] by (simp add: entry_def)
    then have "(\<forall>k. p \<le> k \<and> k < q \<longrightarrow> fst (entry v k) = g) \<longleftrightarrow> g = EMPTY" using pq by auto
    with NoTable i assms(3) ne show ?thesis by (auto simp: check_slot_def arr_nth)
  next
    case AllReserved
    then have "fst (entry v k) = RESERVED" if "p \<le> k" "k < q" for k using slot [OF that] by (simp add: entry_def)
    then have "(\<forall>k. p \<le> k \<and> k < q \<longrightarrow> fst (entry v k) = g) \<longleftrightarrow> g = RESERVED" using pq by auto
    with AllReserved i assms(3) ne show ?thesis by (auto simp: check_slot_def arr_nth)
  qed
qed

lemma check_range_spec:
  assumes "tables_ok v" "(g, bad) = (EMPTY, RESERVED) \<or> (g, bad) = (RESERVED, EMPTY)" "p \<le> q" "q \<le> 1047552"
  shows "walk_mid (check_slot g bad) v (4096 * int p) (4096 * int q)
    = Some (if \<forall>k. p \<le> k \<and> k < q \<longrightarrow> fst (entry v k) = g then 0 else -1, v)"
  using assms(3,4)
proof (induction "q - p" arbitrary: p rule: less_induct)
  case less
  show ?case
  proof (cases "p = q")
    case True
    then show ?thesis by (subst walk_mid.simps) auto
  next
    case False
    then have p: "p < q" using less.prems by simp
    let ?e = "min q (1024 * (p div 1024) + 1024)"
    note c = first_chunk [OF p less.prems(2)]
    have "p \<le> ?e" "?e \<le> q" using c(1) by (simp_all add: chunk_def)
    then have "p \<le> k \<and> k < q \<longleftrightarrow> (p \<le> k \<and> k < ?e) \<or> (?e \<le> k \<and> k < q)" for k by linarith
    then have "(\<forall>k. p \<le> k \<and> k < q \<longrightarrow> fst (entry v k) = g) \<longleftrightarrow>
      (\<forall>k. p \<le> k \<and> k < ?e \<longrightarrow> fst (entry v k) = g) \<and> (\<forall>k. ?e \<le> k \<and> k < q \<longrightarrow> fst (entry v k) = g)"
      by blast
    with less.hyps [OF c(2)] less.prems(2) show ?thesis
      by (simp add: walk_mid_step [OF p less.prems(2)] Let_def check_slot_spec [OF assms(1) c(1) assms(2)])
  qed
qed

lemmas range_specs = check_range_spec [of _ EMPTY RESERVED] check_range_spec [of _ RESERVED EMPTY]

lemma available_spec:
  assumes "tables_ok v" "p \<le> q" "q \<le> 1047552"
  shows "is_available_range v (4096 * int p) (4096 * int q) = Some (\<forall>k. p \<le> k \<and> k < q \<longrightarrow> fst (entry v k) = EMPTY)"
    and "is_reserved_range v (4096 * int p) (4096 * int q) = Some (\<forall>k. p \<le> k \<and> k < q \<longrightarrow> fst (entry v k) = RESERVED)"
  using range_specs [OF assms(1) _ assms(2,3)] by (simp_all add: is_available_range_def is_reserved_range_def)

subsection \<open>Ranges of pages\<close>

definition at_pages :: "vspace \<Rightarrow> nat \<Rightarrow> nat \<Rightarrow> (entry \<Rightarrow> bool) \<Rightarrow> bool" where
  "at_pages v p q P \<longleftrightarrow> (\<forall>k. p \<le> k \<and> k < q \<longrightarrow> P (entry v k))"

definition set_pages :: "vspace \<Rightarrow> nat \<Rightarrow> nat \<Rightarrow> entry \<Rightarrow> vspace \<Rightarrow> bool" where
  \<comment> \<open>\<open>v'\<close> is \<open>v\<close> with the entry \<open>e\<close> at pages \<open>p\<close> to \<open>q - 1\<close>\<close>
  "set_pages v p q e v' \<longleftrightarrow> tables_ok v' \<and> (\<forall>k < 1048576. entry v' k = (if p \<le> k \<and> k < q then e else entry v k))"

lemma empty_not_reserved [simp]: "EMPTY \<noteq> RESERVED" "RESERVED \<noteq> EMPTY"
  by (simp_all add: EMPTY_def RESERVED_def)

lemma reserve_pages:
  assumes "tables_ok v" "slots p q \<le> levels v" "p \<le> q" "q \<le> 1047552" "at_pages v p q (\<lambda>e. fst e = EMPTY)"
  shows "\<exists>v'. reserve_entries_range v (4096 * int p) (4096 * int q) preserve = Some (0, v') \<and> same_rest v v'
    \<and> levels v \<le> levels v' + slots p q \<and> set_pages v p q (RESERVED, 0) v'"
proof -
  have e: "reserve_entry preserve e = Some (RESERVED, 0)" if "fst e = EMPTY" for e
    using that by (cases e) (simp add: reserve_entry_def)
  show ?thesis
  proof -
    obtain v' where v': "walk_mid (reserve_slot preserve) v (4096 * int p) (4096 * int q) = Some (0, v')" "tables_ok v'"
      "same_rest v v'" "levels v \<le> levels v' + slots p q"
      "\<forall>k < 1048576. entry v' k = (if p \<le> k \<and> k < q then the (reserve_entry preserve (entry v k)) else entry v k)"
      using reserve.walk_law [OF assms(1-4), of preserve] assms(5) e by (auto simp: at_pages_def)
    moreover have "the (reserve_entry preserve (entry v k)) = (RESERVED, 0)" if "p \<le> k" "k < q" for k
      using e [of "entry v k"] assms(5) that by (simp add: at_pages_def)
    ultimately show ?thesis by (intro exI [of _ v']) (simp add: reserve_entries_range_def set_pages_def)
  qed
qed

lemma update_pages:
  assumes "tables_ok v" "slots p q \<le> levels v" "p \<le> q" "q \<le> 1047552" "at_pages v p q (\<lambda>e. fst e \<in> {EMPTY, RESERVED})"
  shows "\<exists>v'. walk_mid (update_slot cap cookie) v (4096 * int p) (4096 * int q) = Some (0, v') \<and> same_rest v v'
    \<and> levels v \<le> levels v' + slots p q \<and> set_pages v p q (cap, cookie) v'"
proof -
  have e: "update_entry cap cookie e = Some (cap, cookie)" if "fst e \<in> {EMPTY, RESERVED}" for e
    using that by (cases e) (auto simp: update_entry_def)
  show ?thesis
  proof -
    obtain v' where v': "walk_mid (update_slot cap cookie) v (4096 * int p) (4096 * int q) = Some (0, v')" "tables_ok v'"
      "same_rest v v'" "levels v \<le> levels v' + slots p q"
      "\<forall>k < 1048576. entry v' k = (if p \<le> k \<and> k < q then the (update_entry cap cookie (entry v k)) else entry v k)"
      using update.walk_law [OF assms(1-4), of cap cookie] assms(5) e by (auto simp: at_pages_def)
    moreover have "the (update_entry cap cookie (entry v k)) = (cap, cookie)" if "p \<le> k" "k < q" for k
      using e [of "entry v k"] assms(5) that by (simp add: at_pages_def)
    ultimately show ?thesis by (intro exI [of _ v']) (simp add: set_pages_def)
  qed
qed

lemma clear_pages:
  assumes "tables_ok v" "slots p q \<le> levels v" "p \<le> q" "q \<le> 1047552" "at_pages v p q (\<lambda>e. only \<longrightarrow> fst e = RESERVED)"
    "\<And>k. p \<le> k \<Longrightarrow> k < q \<Longrightarrow> top_level v ! (k div 1024) \<noteq> AllReserved"
  shows "\<exists>v'. clear_entries_range v (4096 * int p) (4096 * int q) only = Some (0, v')
    \<and> reservation_head v' = reservation_head v \<and> set_pages v p q (EMPTY, 0) v'"
proof -
  have e: "clear_entry only e = Some (EMPTY, 0)" if "only \<longrightarrow> fst e = RESERVED" for e
    using that by (cases e) (auto simp: clear_entry_def)
  obtain v' where v': "walk_mid (clear_slot only) v (4096 * int p) (4096 * int q) = Some (0, v')" "tables_ok v'"
    "same_rest v v'" "\<forall>k < 1048576. entry v' k = (if p \<le> k \<and> k < q then the (clear_entry only (entry v k)) else entry v k)"
    using clear.walk_law [OF assms(1-4), of only] assms(5,6) e by (auto simp: at_pages_def)
  let ?v = "if 4096 * int p < last_allocated v' then v'\<lparr>last_allocated := 4096 * int p\<rparr> else v'"
  have "entry ?v = entry v'" "tables_ok ?v = tables_ok v'" "reservation_head ?v = reservation_head v'"
    by (simp_all add: entry_def fun_eq_iff tables_ok_def)
  moreover have "the (clear_entry only (entry v k)) = (EMPTY, 0)" if "p \<le> k" "k < q" for k
    using e [of "entry v k"] assms(5) that by (simp add: at_pages_def)
  ultimately have "set_pages v p q (EMPTY, 0) ?v" "reservation_head ?v = reservation_head v"
    using v'(2-4) by (auto simp: set_pages_def same_rest_def)
  with v'(1) show ?thesis by (simp add: clear_entries_range_def)
qed

text \<open>
  C34. The two-level table of \<^verbatim>\<open>vspace_internal.h\<close> behaves as a flat array of pages. On a well-formed
  table, for every page-aligned range below the last 4 MiB of the address space:
  \<^verbatim>\<open>is_available_range\<close> and \<^verbatim>\<open>is_reserved_range\<close> answer whether all its pages are empty, or all
  reserved; \<^verbatim>\<open>reserve_entries_range\<close> on an empty range and \<^verbatim>\<open>update_entries\<close>' walk on a range without
  mappings succeed when enough bottom levels can be allocated, and change exactly the entries
  of that range, also where it begins, ends or lies inside a 4 MiB slot.
\<close>

theorem shadow_table_is_flat:
  assumes "tables_ok v" "p \<le> q" "q \<le> 1047552" "slots p q \<le> levels v"
  shows "is_available_range v (4096 * int p) (4096 * int q) = Some (at_pages v p q (\<lambda>e. fst e = EMPTY))
    \<and> is_reserved_range v (4096 * int p) (4096 * int q) = Some (at_pages v p q (\<lambda>e. fst e = RESERVED))
    \<and> (at_pages v p q (\<lambda>e. fst e = EMPTY) \<longrightarrow>
        (\<exists>v'. reserve_entries_range v (4096 * int p) (4096 * int q) True = Some (0, v') \<and> set_pages v p q (RESERVED, 0) v'))
    \<and> (at_pages v p q (\<lambda>e. fst e \<in> {EMPTY, RESERVED}) \<longrightarrow>
        (\<exists>v'. walk_mid (update_slot cap cookie) v (4096 * int p) (4096 * int q) = Some (0, v')
          \<and> set_pages v p q (cap, cookie) v'))"
  using available_spec [OF assms(1-3)] reserve_pages [OF assms(1,4,2,3)] update_pages [OF assms(1,4,2,3)]
  unfolding at_pages_def by blast

definition empty_vspace :: "nat \<Rightarrow> vspace" where
  "empty_vspace n = \<lparr>top_level = replicate 1024 NoTable, levels = n, last_allocated = 4096, reservation_head = []\<rparr>"

lemma empty_vspace_ok: "tables_ok (empty_vspace n)" "k < 1048576 \<Longrightarrow> entry (empty_vspace n) k = (EMPTY, 0)"
  by (simp_all add: empty_vspace_def tables_ok_def entry_def)

theorem shadow_table_is_flat_witness:
  "is_available_range (empty_vspace 9) (4096 * int 1000) (4096 * int 2100) = Some True
    \<and> (\<exists>v'. reserve_entries_range (empty_vspace 9) (4096 * int 1000) (4096 * int 2100) True = Some (0, v')
          \<and> set_pages (empty_vspace 9) 1000 2100 (RESERVED, 0) v')
    \<and> (\<exists>v'. walk_mid (update_slot 7 8) (empty_vspace 9) (4096 * int 1000) (4096 * int 2100) = Some (0, v')
          \<and> set_pages (empty_vspace 9) 1000 2100 (7, 8) v')"
proof -
  have free: "at_pages (empty_vspace 9) 1000 2100 (\<lambda>e. fst e = EMPTY)"
    "at_pages (empty_vspace 9) 1000 2100 (\<lambda>e. fst e \<in> {EMPTY, RESERVED})"
    by (simp_all add: at_pages_def empty_vspace_ok)
  have "slots 1000 2100 \<le> levels (empty_vspace 9)" by (simp add: slots_def empty_vspace_def)
  from shadow_table_is_flat [OF empty_vspace_ok(1) _ _ this, of 7 8] free show ?thesis by auto
qed

subsection \<open>Reservations do not overlap\<close>

definition covers :: "res \<Rightarrow> nat \<Rightarrow> bool" where
  "covers r k \<longleftrightarrow> r_start r \<le> 4096 * int k \<and> 4096 * int k < r_end r"

definition res_ok :: "vspace \<Rightarrow> res \<Rightarrow> bool" where
  "res_ok v r \<longleftrightarrow> (\<exists>p q. r_start r = 4096 * int p \<and> r_end r = 4096 * int q \<and> p < q \<and> q \<le> 1047552
     \<and> at_pages v p q (\<lambda>e. fst e \<noteq> EMPTY))"

definition vspace_ok :: "vspace \<Rightarrow> bool" where
  \<comment> \<open>reservations are disjoint, in descending order, and their pages are not free\<close>
  "vspace_ok v \<longleftrightarrow> tables_ok v \<and> (\<forall>r \<in> set (reservation_head v). res_ok v r)
     \<and> sorted_wrt (\<lambda>a b. r_end b \<le> r_start a) (reservation_head v)"

lemma insert_res_set [simp]: "set (insert_res r rs) = insert r (set rs)"
  by (induction rs) auto

lemma insert_res_sorted:
  assumes "sorted_wrt (\<lambda>a b. r_end b \<le> r_start a) rs" "\<forall>x \<in> set rs. r_start x < r_end x"
    "r_start r < r_end r" "\<forall>x \<in> set rs. r_end x \<le> r_start r \<or> r_end r \<le> r_start x"
  shows "sorted_wrt (\<lambda>a b. r_end b \<le> r_start a) (insert_res r rs)"
  using assms by (induction rs) force+

lemma find_insert:
  assumes "\<forall>x \<in> set rs. r_end x \<le> r_start r \<or> r_end r \<le> r_start x"
  shows "find_res (insert_res r rs) a = (if r_start r \<le> a \<and> a < r_end r then Some r else find_res rs a)"
  using assms by (induction rs) auto

lemma res_disjoint_free:
  assumes "res_ok v x" "at_pages v p q (\<lambda>e. fst e = EMPTY)" "p < q"
  shows "r_end x \<le> 4096 * int p \<or> 4096 * int q \<le> r_start x"
proof (rule ccontr)
  assume no: "\<not> ?thesis"
  obtain a b where ab: "r_start x = 4096 * int a" "r_end x = 4096 * int b" "a < b" "at_pages v a b (\<lambda>e. fst e \<noteq> EMPTY)"
    using assms(1) by (auto simp: res_ok_def)
  have "a < q" "p < b" using no ab by auto
  then have "a \<le> max a p" "max a p < b" "p \<le> max a p" "max a p < q" using assms(3) ab(3) by auto
  with ab(4) assms(2) show False unfolding at_pages_def by blast
qed

lemma page_rounding:
  assumes "q \<le> 1047552"
  shows "round_down (4096 * int p) = 4096 * int p" "round_up (u32 (4096 * int q)) = 4096 * int q"
    "u32 (4096 * int q) = 4096 * int q" "round_up (4096 * int q) = 4096 * int q"
  using assms by (simp_all add: round_down_def round_up_def u32_def)

lemma res_ok_mono:
  assumes "res_ok v r" "\<And>k. k < 1048576 \<Longrightarrow> fst (entry v k) \<noteq> EMPTY \<Longrightarrow> fst (entry v' k) \<noteq> EMPTY"
  shows "res_ok v' r"
proof -
  obtain p q where r: "r_start r = 4096 * int p" "r_end r = 4096 * int q" "p < q" "q \<le> 1047552"
    "at_pages v p q (\<lambda>e. fst e \<noteq> EMPTY)" using assms(1) by (auto simp: res_ok_def)
  have "at_pages v' p q (\<lambda>e. fst e \<noteq> EMPTY)"
    unfolding at_pages_def
  proof (intro allI impI)
    fix k assume k: "p \<le> k \<and> k < q"
    with r(5) have "fst (entry v k) \<noteq> EMPTY" by (simp add: at_pages_def)
    with assms(2) [of k] k r(4) show "fst (entry v' k) \<noteq> EMPTY" by simp
  qed
  with r show ?thesis unfolding res_ok_def by blast
qed

lemma reserve_at_free:
  assumes ok: "vspace_ok v" and i: "i \<noteq> 0" and pq: "p < q" "q \<le> 1047552" and lv: "slots p q \<le> levels v"
    and free: "at_pages v p q (\<lambda>e. fst e = EMPTY)"
  shows "\<exists>r v'. sel4utils_reserve_range_at v i (4096 * int p) (4096 * int q - 4096 * int p) rights cacheable = Some (Some r, v')
    \<and> r_start r = 4096 * int p \<and> r_end r = 4096 * int q \<and> r_id r = i \<and> vspace_ok v' \<and> set_pages v p q (RESERVED, 0) v'
    \<and> reservation_head v' = insert_res r (reservation_head v)
    \<and> (\<forall>x \<in> set (reservation_head v). r_end x \<le> r_start r \<or> r_end r \<le> r_start x)"
proof -
  have t: "tables_ok v" using ok by (simp add: vspace_ok_def)
  have av: "is_available_range v (4096 * int p) (4096 * int q) = Some True"
    using available_spec(1) [OF t less_imp_le [OF pq(1)] pq(2)] free by (simp add: at_pages_def)
  obtain w where w: "reserve_entries_range v (4096 * int p) (4096 * int q) True = Some (0, w)" "same_rest v w"
    "set_pages v p q (RESERVED, 0) w" using reserve_pages [OF t lv less_imp_le [OF pq(1)] pq(2) free] by blast
  let ?r = "\<lparr>r_id = i, r_start = 4096 * int p, r_end = 4096 * int q, r_rights = rights, r_cacheable = cacheable,
    r_malloced = 1, r_deferred = False\<rparr>"
  let ?v = "insert_reservation w ?r"
  have eq: "sel4utils_reserve_range_at v i (4096 * int p) (4096 * int q - 4096 * int p) rights cacheable = Some (Some ?r, ?v)"
    using i av w(1) by (simp add: sel4utils_reserve_range_at_def perform_reservation_def page_rounding [OF pq(2)] Let_def)
  have ent: "entry ?v = entry w" "tables_ok ?v = tables_ok w" by (simp_all add: entry_def fun_eq_iff tables_ok_def insert_reservation_def)
  have dis: "\<forall>x \<in> set (reservation_head v). r_end x \<le> 4096 * int p \<or> 4096 * int q \<le> r_start x"
    using ok res_disjoint_free [OF _ free pq(1)] by (auto simp: vspace_ok_def)
  have head: "reservation_head ?v = insert_res ?r (reservation_head v)"
    using w(2) by (simp add: insert_reservation_def same_rest_def)
  have keep: "res_ok ?v x" if "res_ok v x" for x
    using w(3) by (intro res_ok_mono [OF that]) (simp add: ent set_pages_def)
  have new: "res_ok ?v ?r" using pq w(3) by (auto simp: res_ok_def at_pages_def ent set_pages_def)
  have "\<forall>x \<in> set (reservation_head v). r_start x < r_end x" using ok by (auto simp: vspace_ok_def res_ok_def)
  then have "sorted_wrt (\<lambda>a b. r_end b \<le> r_start a) (insert_res ?r (reservation_head v))"
    using ok dis pq(1) by (intro insert_res_sorted) (auto simp: vspace_ok_def)
  then have "vspace_ok ?v" using keep new ok w(3) head by (auto simp: vspace_ok_def ent set_pages_def)
  moreover have "set_pages v p q (RESERVED, 0) ?v" using w(3) by (simp add: set_pages_def ent)
  ultimately show ?thesis using eq head dis by auto
qed

text \<open>
  C35. Reservations never overlap. In an address space whose reservations are disjoint, sorted and
  not free, \<^verbatim>\<open>sel4utils_reserve_range_at\<close> of a non-empty page-aligned range either returns \<^verbatim>\<open>NULL\<close> and
  changes nothing, exactly when one of its pages is not free, or returns a reservation of exactly
  that range that overlaps no other, marks exactly its pages as reserved, keeps the invariant, and
  \<^verbatim>\<open>find_reserve\<close> then finds it for the addresses inside and what it found before elsewhere.
\<close>

theorem reserve_range_at_exclusive:
  assumes "vspace_ok v" "i \<noteq> 0" "p < q" "q \<le> 1047552" "slots p q \<le> levels v"
  shows "if at_pages v p q (\<lambda>e. fst e = EMPTY)
    then \<exists>r v'. sel4utils_reserve_range_at v i (4096 * int p) (4096 * int q - 4096 * int p) rights cacheable = Some (Some r, v')
      \<and> r_start r = 4096 * int p \<and> r_end r = 4096 * int q \<and> vspace_ok v' \<and> set_pages v p q (RESERVED, 0) v'
      \<and> (\<forall>x \<in> set (reservation_head v). r_end x \<le> r_start r \<or> r_end r \<le> r_start x)
      \<and> (\<forall>a. find_reserve v' a = (if r_start r \<le> a \<and> a < r_end r then Some r else find_reserve v a))
    else sel4utils_reserve_range_at v i (4096 * int p) (4096 * int q - 4096 * int p) rights cacheable = Some (None, v)"
proof (cases "at_pages v p q (\<lambda>e. fst e = EMPTY)")
  case True
  obtain r v' where r: "sel4utils_reserve_range_at v i (4096 * int p) (4096 * int q - 4096 * int p) rights cacheable = Some (Some r, v')"
    "r_start r = 4096 * int p" "r_end r = 4096 * int q" "vspace_ok v'" "set_pages v p q (RESERVED, 0) v'"
    "reservation_head v' = insert_res r (reservation_head v)"
    "\<forall>x \<in> set (reservation_head v). r_end x \<le> r_start r \<or> r_end r \<le> r_start x"
    using reserve_at_free [OF assms True] by blast
  then have "\<forall>a. find_reserve v' a = (if r_start r \<le> a \<and> a < r_end r then Some r else find_reserve v a)"
    unfolding find_reserve_def r(6) using find_insert [OF r(7)] by blast
  with True r show ?thesis by auto
next
  case False
  have "tables_ok v" using assms(1) by (simp add: vspace_ok_def)
  then have "is_available_range v (4096 * int p) (4096 * int q) = Some False"
    using False available_spec(1) [OF _ less_imp_le [OF assms(3)] assms(4)] unfolding at_pages_def by auto
  with False assms(2) page_rounding(3) [OF assms(4)] show ?thesis unfolding sel4utils_reserve_range_at_def by simp
qed

theorem reserve_range_at_exclusive_witness:
  "if at_pages (empty_vspace 1) 65536 65537 (\<lambda>e. fst e = EMPTY)
    then \<exists>r v'. sel4utils_reserve_range_at (empty_vspace 1) 5 (4096 * int 65536) (4096 * int 65537 - 4096 * int 65536) 7 1 = Some (Some r, v')
      \<and> r_start r = 4096 * int 65536 \<and> r_end r = 4096 * int 65537 \<and> vspace_ok v' \<and> set_pages (empty_vspace 1) 65536 65537 (RESERVED, 0) v'
      \<and> (\<forall>x \<in> set (reservation_head (empty_vspace 1)). r_end x \<le> r_start r \<or> r_end r \<le> r_start x)
      \<and> (\<forall>a. find_reserve v' a = (if r_start r \<le> a \<and> a < r_end r then Some r else find_reserve (empty_vspace 1) a))
    else sel4utils_reserve_range_at (empty_vspace 1) 5 (4096 * int 65536) (4096 * int 65537 - 4096 * int 65536) 7 1 = Some (None, empty_vspace 1)"
  by (rule reserve_range_at_exclusive)
    (simp_all add: vspace_ok_def empty_vspace_ok slots_def, simp_all add: empty_vspace_def)

definition free_run :: "vspace \<Rightarrow> nat \<Rightarrow> nat \<Rightarrow> bool" where
  "free_run v n p \<longleftrightarrow> at_pages v p (p + n) (\<lambda>e. fst e = EMPTY)"

definition found :: "vspace \<Rightarrow> nat \<Rightarrow> nat \<Rightarrow> (int \<times> int) option \<Rightarrow> bool" where
  \<comment> \<open>first fit: the answer is the lowest run of free pages from page \<open>a\<close> on\<close>
  "found v n a r \<longleftrightarrow> (case r of None \<Rightarrow> \<forall>p. a \<le> p \<and> p + n < 917504 \<longrightarrow> \<not> free_run v n p
     | Some (start, current) \<Rightarrow> \<exists>p. start = 4096 * int p \<and> current = 4096 * int (p + n) \<and> a \<le> p \<and> p + n < 917504
          \<and> free_run v n p \<and> (\<forall>p'. a \<le> p' \<and> p' < p \<longrightarrow> \<not> free_run v n p'))"

lemma found_skip:
  assumes "found v n (Suc b) r" "a \<le> b" "b < a + n" "fst (entry v b) \<noteq> EMPTY"
  shows "found v n a r"
proof -
  have no: "\<not> free_run v n p" if "a \<le> p" "p \<le> b" for p
    using assms(3,4) that unfolding free_run_def at_pages_def by (auto intro!: exI [of _ b])
  have split: "p \<le> b \<or> Suc b \<le> p" for p by linarith
  show ?thesis
  proof (cases r)
    case None
    have "\<not> free_run v n p" if "a \<le> p" "p + n < 917504" for p
      using split [of p] no [of p] assms(1) that unfolding found_def None option.case by blast
    then show ?thesis unfolding found_def None option.case by blast
  next
    case (Some sc)
    obtain s c where sc: "sc = (s, c)" by (cases sc)
    from assms(1) obtain p where p: "s = 4096 * int p" "c = 4096 * int (p + n)" "Suc b \<le> p" "p + n < 917504" "free_run v n p"
      "\<forall>p'. Suc b \<le> p' \<and> p' < p \<longrightarrow> \<not> free_run v n p'" unfolding found_def Some sc option.case prod.case by (elim exE conjE)
    have "a \<le> p" using p(3) assms(2) by simp
    moreover have "\<forall>p'. a \<le> p' \<and> p' < p \<longrightarrow> \<not> free_run v n p'" using p(6) no split by metis
    ultimately show ?thesis using p unfolding found_def Some sc by auto
  qed
qed

lemma find_range_total:
  assumes "tables_ok v" "c \<le> int n" "a \<le> b" "b < 917504" "c = int (b - a)" "at_pages v a b (\<lambda>e. fst e = EMPTY)"
  shows "\<exists>r. find_range_loop v (int n) 12 c (4096 * int a) (4096 * int b) = Some r \<and> found v n a r"
  using assms
proof (induction "917504 - b" arbitrary: a b c rule: less_induct)
  case less
  show ?case
  proof (cases "c < int n")
    case False
    then have "c = int n" "b = a + n" using less.prems by auto
    with less.prems show ?thesis by (subst find_range_loop.simps) (auto simp: found_def free_run_def)
  next
    case True
    have nxt: "u32 (4096 * int b + 4096) = 4096 * int (Suc b)" using less.prems(4) by (intro page_step) simp
    have av: "is_available_range v (4096 * int b) (4096 * int (Suc b)) = Some (fst (entry v b) = EMPTY)"
    proof -
      have "(\<forall>k. b \<le> k \<and> k < Suc b \<longrightarrow> fst (entry v k) = EMPTY) = (fst (entry v b) = EMPTY)"
        by (auto simp: less_Suc_eq_le dest: le_antisym)
      then show ?thesis using available_spec(1) [OF less.prems(1), of b "Suc b"] less.prems(4) by simp
    qed
    show ?thesis
    proof (cases "Suc b < 917504")
      case False
      then have "4096 * int (Suc b) \<ge> KERNEL_RESERVED_START" using less.prems(4) by (simp add: KERNEL_RESERVED_START_def)
      then have "find_range_loop v (int n) 12 c (4096 * int a) (4096 * int b) = Some None"
        using True by (subst find_range_loop.simps) (simp add: nxt av del: of_nat_Suc)
      moreover have "found v n a None" using False True less.prems(3,4,5) by (auto simp: found_def)
      ultimately show ?thesis by blast
    next
      case lt: True
      let ?free = "fst (entry v b) = EMPTY"
      let ?a = "if ?free then a else Suc b" and ?c = "if ?free then c + 1 else 0"
      have "\<not> 4096 * int (Suc b) \<ge> KERNEL_RESERVED_START" using lt by (simp add: KERNEL_RESERVED_START_def)
      then have step: "find_range_loop v (int n) 12 c (4096 * int a) (4096 * int b)
          = find_range_loop v (int n) 12 ?c (4096 * int ?a) (4096 * int (Suc b))"
        using True by (subst find_range_loop.simps) (simp add: nxt av Let_def del: of_nat_Suc)
      have "at_pages v ?a (Suc b) (\<lambda>e. fst e = EMPTY)"
        using less.prems(6) by (auto simp: at_pages_def less_Suc_eq)
      then have "\<exists>r. find_range_loop v (int n) 12 ?c (4096 * int ?a) (4096 * int (Suc b)) = Some r \<and> found v n ?a r"
        using less.prems(1,3,5) lt True by (intro less.hyps) (auto split: if_splits)
      then obtain r where r: "find_range_loop v (int n) 12 ?c (4096 * int ?a) (4096 * int (Suc b)) = Some r" "found v n ?a r"
        by blast
      have "found v n a r"
        using r(2) found_skip [of v n b r a] less.prems(3,5) True by (cases ?free) auto
      with r(1) show ?thesis unfolding step by blast
    qed
  qed
qed

lemma find_range_spec:
  assumes "tables_ok v" "last_allocated v = 4096 * int l" "l < 917504"
  shows "\<exists>r. found v n l r \<and> find_range v (int n) 12
    = Some (map_option fst r, case r of None \<Rightarrow> v | Some (_, current) \<Rightarrow> v\<lparr>last_allocated := current\<rparr>)"
proof -
  have st: "u32 (4096 * int l + 4096 - 1) - u32 (4096 * int l + 4096 - 1) mod 4096 = 4096 * int l"
  proof -
    have "u32 (4096 * int l + 4096 - 1) = 4096 * int l + 4095" using assms(3) by (simp add: u32_def)
    moreover have "(4096 * int l + 4095) mod 4096 = 4095" using mod_mult_self4 [of 4096 "int l" 4095] by simp
    ultimately show ?thesis by simp
  qed
  obtain r where r: "find_range_loop v (int n) 12 0 (4096 * int l) (4096 * int l) = Some r" "found v n l r"
    using find_range_total [OF assms(1), of 0 n l l] assms(3) by (auto simp: at_pages_def)
  have "find_range v (int n) 12 = (case r of None \<Rightarrow> Some (None, v) | Some (start, current) \<Rightarrow> Some (Some start, v\<lparr>last_allocated := current\<rparr>))"
    using st r(1) by (simp add: find_range_def assms(2) Let_def)
  then show ?thesis using r(2) by (intro exI [of _ r]) (auto split: option.splits)
qed



text \<open>
  A reservation that fills a whole 4 MiB slot is never given back: the slot is marked in the
  top level, which \<^verbatim>\<open>clear_entries_mid\<close> refuses to clear, and \<^verbatim>\<open>sel4utils_free_reservation\<close> does not
  look at that error. The reservation disappears from the list, but its pages stay reserved, so
  the same range can never be reserved again.
\<close>

theorem free_reservation_leaks_whole_slot:
  assumes "tables_ok v" "j < 1023" "top_level v ! j = AllReserved" "r \<in> set (reservation_head v)"
    "r_start r = 4096 * int (1024 * j)" "r_end r = 4096 * int (1024 * j + 1024)" "i \<noteq> 0"
  shows "\<exists>v'. sel4utils_free_reservation v r = Some v' \<and> entry v' = entry v
    \<and> reservation_head v' = remove_res (r_id r) (reservation_head v)
    \<and> sel4utils_reserve_range_at v' i (r_start r) (r_end r - r_start r) rights cacheable = Some (None, v')"
proof -
  let ?p = "1024 * j" and ?q = "1024 * j + 1024"
  have q: "?p < ?q" "?q \<le> 1047552" using assms(2) by auto
  have l: "length (top_level v) = 1024" using assms(1) by (simp add: tables_ok_def)
  have "walk_mid (clear_slot True) v (4096 * int ?p) (4096 * int ?q) = Some (-1, v)"
    unfolding walk_mid_step [OF q] Let_def using assms(2,3) l by (simp add: clear_slot_def arr_def)
  then have f: "sel4utils_free_reservation v r = Some (v\<lparr>reservation_head := remove_res (r_id r) (reservation_head v)\<rparr>)"
    using assms(4) by (auto simp: sel4utils_free_reservation_def clear_entries_range_def assms(5,6) remove_reservation_def)
  let ?v = "v\<lparr>reservation_head := remove_res (r_id r) (reservation_head v)\<rparr>"
  have e: "entry ?v = entry v" "tables_ok ?v" using assms(1) by (simp_all add: entry_def fun_eq_iff tables_ok_def)
  have "fst (entry v ?p) \<noteq> EMPTY" using assms(3) by (simp add: entry_def)
  then have "is_available_range ?v (4096 * int ?p) (4096 * int ?q) = Some False"
    using available_spec(1) [OF e(2) less_imp_le [OF q(1)] q(2)] q(1) unfolding e(1) by auto
  then have "sel4utils_reserve_range_at ?v i (4096 * int ?p) (4096 * int ?q - 4096 * int ?p) rights cacheable = Some (None, ?v)"
    using assms(7) page_rounding(3) [OF q(2)] unfolding sel4utils_reserve_range_at_def by simp
  with f e(1) show ?thesis unfolding assms(5,6) by auto
qed

definition slot_reservation :: res where
  "slot_reservation = \<lparr>r_id = 9, r_start = 4096 * int (1024 * 64), r_end = 4096 * int (1024 * 64 + 1024), r_rights = 7,
     r_cacheable = 1, r_malloced = 1, r_deferred = False\<rparr>"

theorem free_reservation_leaks_whole_slot_witness:
  "let v = \<lparr>top_level = (replicate 1024 NoTable)[64 := AllReserved], levels = 1, last_allocated = 4096,
            reservation_head = [slot_reservation]\<rparr> in
   \<exists>v'. sel4utils_free_reservation v slot_reservation = Some v' \<and> entry v' = entry v
    \<and> reservation_head v' = remove_res (r_id slot_reservation) (reservation_head v)
    \<and> sel4utils_reserve_range_at v' 3 (r_start slot_reservation) (r_end slot_reservation - r_start slot_reservation) 7 1 = Some (None, v')"
  unfolding Let_def
  by (rule free_reservation_leaks_whole_slot [where j = 64])
    (auto simp: slot_reservation_def tables_ok_def dest!: set_update_subset_insert [THEN subsetD])

end
