(* ===== verification/Frames.thy ===== *)
theory Frames
  imports Vspace
begin

text \<open>
  Frames of memory and the capabilities that name them: the part of \<^verbatim>\<open>libsel4utils\<close> that maps
  frames (\<^verbatim>\<open>src/vspace/vspace.c\<close>, \<^verbatim>\<open>src/mapping.c\<close>) and the windows onto the memory of a process
  that the system opens to reach a caller's buffer (\<^verbatim>\<open>os/src/vm/mem_projection.c\<close>).

  The kernel and the object allocator behind \<^verbatim>\<open>vka_t\<close> appear as a record: which frame the
  capability in a slot of the root CNode names, the slots and frames that are not in use, and the
  contents of every frame. A frame that is allocated is zeroed, as the kernel does on retyping.
  The error code of the kernel's mapping invocation is a parameter (\<open>map_page\<close>); what is
  mapped at an address is what the shadow table of \<open>Vspace\<close> records there.
\<close>

subsection \<open>Slots and frames\<close>

record capspace =
  cslot :: "int \<Rightarrow> nat option" \<comment> \<open>the frame a capability names\<close>
  free_slots :: "int list"
  free_frames :: "nat list"
  mem :: "nat \<Rightarrow> byte list"

definition vka_cspace_alloc :: "capspace \<Rightarrow> (int \<times> capspace) option" where
  "vka_cspace_alloc c = (case free_slots c of [] \<Rightarrow> None | s # ss \<Rightarrow> Some (s, c\<lparr>free_slots := ss\<rparr>))"

definition vka_cspace_free :: "capspace \<Rightarrow> int \<Rightarrow> capspace" where
  "vka_cspace_free c s = c\<lparr>free_slots := s # free_slots c\<rparr>"

definition cnode_copy :: "capspace \<Rightarrow> int \<Rightarrow> int \<Rightarrow> capspace option" where
  \<comment> \<open>\<^term>\<open>None\<close> is an error: the source is empty or the destination is not\<close>
  "cnode_copy c dst src =
     (case cslot c src of None \<Rightarrow> None
      | Some f \<Rightarrow> if cslot c dst = None then Some (c\<lparr>cslot := (cslot c)(dst := Some f)\<rparr>) else None)"

definition cnode_delete :: "capspace \<Rightarrow> int \<Rightarrow> capspace" where
  "cnode_delete c s = c\<lparr>cslot := (cslot c)(s := None)\<rparr>"

definition frame_ut :: "nat \<Rightarrow> int" where \<comment> \<open>the allocator's handle of the memory of a frame, never 0\<close>
  "frame_ut f = int f + 1"

definition vka_alloc_frame :: "capspace \<Rightarrow> (int \<times> int \<times> capspace) option" where
  \<comment> \<open>slot and \<^verbatim>\<open>ut\<close> handle\<close>
  "vka_alloc_frame c =
     (case (free_slots c, free_frames c) of
        (s # ss, f # fs) \<Rightarrow>
          Some (s, frame_ut f, c\<lparr>free_slots := ss, free_frames := fs, cslot := (cslot c)(s := Some f),
                                mem := (mem c)(f := replicate 4096 0)\<rparr>)
      | _ \<Rightarrow> None)"

definition vka_utspace_free :: "capspace \<Rightarrow> int \<Rightarrow> capspace" where
  "vka_utspace_free c ut = c\<lparr>free_frames := nat (ut - 1) # free_frames c\<rparr>"

definition release_cap :: "capspace \<Rightarrow> int \<Rightarrow> capspace" where
  \<comment> \<open>\<^verbatim>\<open>vka_cnode_delete\<close> and \<^verbatim>\<open>vka_cspace_free\<close> of a slot\<close>
  "release_cap c s = vka_cspace_free (cnode_delete c s) s"

subsection \<open>Mapping, unmapping and creating pages\<close>

definition sel4utils_map_pages ::
  "(int \<Rightarrow> int \<Rightarrow> int) \<Rightarrow> vspace \<Rightarrow> (int \<times> int) list \<Rightarrow> nat \<Rightarrow> (int option \<times> vspace) option" where
  "sel4utils_map_pages map_page v caps size_bits =
     do { ok (caps \<noteq> []);
          (vaddr, v) \<leftarrow> find_range v (int (length caps)) size_bits;
          case vaddr of None \<Rightarrow> Some (None, v)
          | Some vaddr \<Rightarrow>
              do { (error, v) \<leftarrow> map_pages_at_vaddr map_page v caps vaddr size_bits;
                   if error \<noteq> 0 then do { (_, v) \<leftarrow> clear_entries v vaddr size_bits; Some (None, v) }
                   else Some (Some vaddr, v) } }"

fun unmap_loop :: "bool \<Rightarrow> bool \<Rightarrow> vspace \<Rightarrow> capspace \<Rightarrow> int \<Rightarrow> nat \<Rightarrow> nat \<Rightarrow> (vspace \<times> capspace) option" where
  \<comment> \<open>\<open>with_vka\<close>: a \<^verbatim>\<open>vka\<close> was given, \<open>reserved\<close>: the first address lies in a reservation\<close>
  "unmap_loop with_vka reserved v c vaddr 0 size_bits = Some (v, c)"
| "unmap_loop with_vka reserved v c vaddr (Suc n) size_bits =
     do { cap \<leftarrow> get_cap v vaddr;
          cookie \<leftarrow> get_cookie v vaddr;
          let c = (if with_vka then (let c = release_cap c cap in if cookie \<noteq> 0 then vka_utspace_free c cookie else c) else c);
          (_, v) \<leftarrow> (if reserved then reserve_entries v vaddr size_bits else clear_entries v vaddr size_bits);
          cap' \<leftarrow> get_cap v vaddr;
          cookie' \<leftarrow> get_cookie v vaddr;
          ok (cap' \<noteq> cap);
          ok (cookie' = 0);
          unmap_loop with_vka reserved v c (u32 (vaddr + 2 ^ size_bits)) n size_bits }"

definition sel4utils_unmap_pages ::
  "bool \<Rightarrow> vspace \<Rightarrow> capspace \<Rightarrow> int \<Rightarrow> nat \<Rightarrow> nat \<Rightarrow> (vspace \<times> capspace) option" where
  "sel4utils_unmap_pages with_vka v c vaddr num_pages size_bits =
     (if \<not> valid_size_bits size_bits then Some (v, c)
      else unmap_loop with_vka (find_reserve v vaddr \<noteq> None) v c vaddr num_pages size_bits)"

fun new_pages_loop ::
  "(int \<Rightarrow> int \<Rightarrow> int) \<Rightarrow> vspace \<Rightarrow> capspace \<Rightarrow> int \<Rightarrow> nat \<Rightarrow> nat \<Rightarrow> (int \<times> nat \<times> vspace \<times> capspace) option" where
  \<comment> \<open>(error, pages not reached); the error of \<^verbatim>\<open>update_entries\<close> does not end the loop,
     the next round overwrites it\<close>
  "new_pages_loop map_page v c vaddr 0 size_bits = Some (0, 0, v, c)"
| "new_pages_loop map_page v c vaddr (Suc n) size_bits =
     (case vka_alloc_frame c of
        None \<Rightarrow> Some (10, Suc n, v, c) \<comment> \<open>\<^verbatim>\<open>seL4_NotEnoughMemory\<close>\<close>
      | Some (cap, ut, c) \<Rightarrow>
          let error = map_page cap vaddr in
          if error = 0 then
            do { (error, v) \<leftarrow> update_entries v vaddr cap size_bits ut;
                 if n = 0 then Some (error, 0, v, c)
                 else new_pages_loop map_page v c (u32 (vaddr + 2 ^ size_bits)) n size_bits }
          else Some (error, Suc n, v, vka_utspace_free (release_cap c cap) ut))"

definition new_pages_at_vaddr ::
  "(int \<Rightarrow> int \<Rightarrow> int) \<Rightarrow> vspace \<Rightarrow> capspace \<Rightarrow> int \<Rightarrow> nat \<Rightarrow> nat \<Rightarrow> (int \<times> vspace \<times> capspace) option" where
  "new_pages_at_vaddr map_page v c vaddr num_pages size_bits =
     do { (error, left, v, c) \<leftarrow> new_pages_loop map_page v c vaddr num_pages size_bits;
          if left > 0 then
            do { (v, c) \<leftarrow> sel4utils_unmap_pages True v c vaddr (num_pages - left) size_bits; Some (error, v, c) }
          else Some (error, v, c) }"

definition sel4utils_new_pages_at_vaddr ::
  "(int \<Rightarrow> int \<Rightarrow> int) \<Rightarrow> vspace \<Rightarrow> capspace \<Rightarrow> int \<Rightarrow> nat \<Rightarrow> nat \<Rightarrow> res \<Rightarrow> (int \<times> vspace \<times> capspace) option" where
  "sel4utils_new_pages_at_vaddr map_page v c vaddr num_pages size_bits r =
     do { valid \<leftarrow> check_reservation v r vaddr (u32 (vaddr + int num_pages * 2 ^ size_bits));
          if \<not> valid then Some (-1, v, c) else new_pages_at_vaddr map_page v c vaddr num_pages size_bits }"

definition sel4utils_new_pages ::
  "(int \<Rightarrow> int \<Rightarrow> int) \<Rightarrow> vspace \<Rightarrow> capspace \<Rightarrow> nat \<Rightarrow> nat \<Rightarrow> (int option \<times> vspace \<times> capspace) option" where
  "sel4utils_new_pages map_page v c num_pages size_bits =
     do { ok (num_pages > 0);
          (vaddr, v) \<leftarrow> find_range v (int num_pages) size_bits;
          case vaddr of None \<Rightarrow> Some (None, v, c)
          | Some vaddr \<Rightarrow>
              do { (error, v, c) \<leftarrow> new_pages_at_vaddr map_page v c vaddr num_pages size_bits;
                   if error \<noteq> 0 then do { (_, v) \<leftarrow> clear_entries v vaddr size_bits; Some (None, v, c) }
                   else Some (Some vaddr, v, c) } }"

subsection \<open>Tearing an address space down\<close>

partial_function (option) page_entries :: "vspace \<Rightarrow> int \<Rightarrow> int \<Rightarrow> nat \<Rightarrow> nat option" where
  \<comment> \<open>how many 4 KiB entries carry the cookie of the page\<close>
  "page_entries v cookie test_vaddr n =
     do { k \<leftarrow> get_cookie v test_vaddr;
          if k = cookie then page_entries v cookie (u32 (test_vaddr + 4096)) (n + 1) else Some n }"

definition free_page :: "vspace \<Rightarrow> capspace \<Rightarrow> int \<Rightarrow> (vspace \<times> capspace) option" where
  "free_page v c vaddr =
     do { cookie \<leftarrow> get_cookie v vaddr;
          if cookie \<noteq> 0 then
            do { n \<leftarrow> page_entries v cookie (u32 (vaddr + 4096)) 1;
                 sel4utils_unmap_pages True v c vaddr 1 (12 * n) }
          else Some (v, c) }"

fun free_bottom :: "vspace \<Rightarrow> capspace \<Rightarrow> int \<Rightarrow> nat \<Rightarrow> (vspace \<times> capspace) option" where
  \<comment> \<open>\<^verbatim>\<open>free_pages_at_level\<close> at level 0 for the last \<open>n\<close> entries of a slot\<close>
  "free_bottom v c vaddr 0 = Some (v, c)"
| "free_bottom v c vaddr (Suc n) =
     do { cap \<leftarrow> get_cap v vaddr;
          (v, c) \<leftarrow> (if cap \<noteq> EMPTY \<and> cap \<noteq> RESERVED then free_page v c vaddr else Some (v, c));
          free_bottom v c (u32 (vaddr + 4096)) n }"

fun free_slots_from :: "vspace \<Rightarrow> capspace \<Rightarrow> nat \<Rightarrow> nat \<Rightarrow> (vspace \<times> capspace) option" where
  \<comment> \<open>\<^verbatim>\<open>free_pages_at_level\<close> at level 1 for the last \<open>n\<close> slots; the memory of a bottom level goes
     back to the address space it was allocated from\<close>
  "free_slots_from v c i 0 = Some (v, c)"
| "free_slots_from v c i (Suc n) =
     do { t \<leftarrow> arr (top_level v) (int i);
          (v, c) \<leftarrow> (case t of Bottom _ \<Rightarrow>
                         do { (v, c) \<leftarrow> free_bottom v c (4194304 * int i) LEVEL_SIZE;
                              Some (v\<lparr>levels := levels v + 1\<rparr>, c) }
                       | _ \<Rightarrow> Some (v, c));
          free_slots_from v c (i + 1) n }"

fun free_reservations :: "nat \<Rightarrow> vspace \<Rightarrow> vspace option" where
  \<comment> \<open>the loop while \<^verbatim>\<open>reservation_head\<close> is not \<^verbatim>\<open>NULL\<close>, which removes one reservation a round\<close>
  "free_reservations 0 v = (if reservation_head v = [] then Some v else None)"
| "free_reservations (Suc n) v =
     (case reservation_head v of [] \<Rightarrow> Some v
      | r # _ \<Rightarrow> do { v \<leftarrow> sel4utils_free_reservation v r; free_reservations n v })"

definition sel4utils_tear_down :: "vspace \<Rightarrow> capspace \<Rightarrow> (vspace \<times> capspace) option" where
  "sel4utils_tear_down v c =
     do { v \<leftarrow> free_reservations (length (reservation_head v)) v; free_slots_from v c 0 1024 }"

subsection \<open>Windows\<close>

definition sel4utils_dup_and_map ::
  "(int \<Rightarrow> int \<Rightarrow> int) \<Rightarrow> vspace \<Rightarrow> capspace \<Rightarrow> int \<Rightarrow> nat \<Rightarrow> (int option \<times> vspace \<times> capspace) option" where
  "sel4utils_dup_and_map map_page v c page size_bits =
     (case vka_cspace_alloc c of
        None \<Rightarrow> Some (None, v, c)
      | Some (copy, c) \<Rightarrow>
          (case cnode_copy c copy page of
             None \<Rightarrow> Some (None, v, vka_cspace_free c copy)
           | Some c \<Rightarrow>
               do { (vaddr, v) \<leftarrow> sel4utils_map_pages map_page v [(copy, 0)] size_bits;
                    case vaddr of None \<Rightarrow> Some (None, v, release_cap c copy)
                    | Some vaddr \<Rightarrow> Some (Some vaddr, v, c) }))"

definition sel4utils_unmap_dup :: "vspace \<Rightarrow> capspace \<Rightarrow> int \<Rightarrow> nat \<Rightarrow> (vspace \<times> capspace) option" where
  "sel4utils_unmap_dup v c vaddr size_bits =
     do { copy \<leftarrow> sel4utils_get_cap v vaddr;
          ok (copy \<noteq> 0);
          (v, c) \<leftarrow> sel4utils_unmap_pages False v c vaddr 1 size_bits;
          Some (v, release_cap c copy) }"

definition PAGE_ALIGN_4K :: "int \<Rightarrow> int" where "PAGE_ALIGN_4K addr = addr - addr mod 4096"

definition setup_projection_space ::
  "(int \<Rightarrow> int \<Rightarrow> int) \<Rightarrow> vspace \<Rightarrow> vspace \<Rightarrow> capspace \<Rightarrow> int \<Rightarrow> (int \<times> vspace \<times> capspace) option" where
  \<comment> \<open>\<open>pv\<close> is the address space of the process, \<open>v\<close> the system's own; the
     result is not compared with \<^verbatim>\<open>NULL\<close>, so a failure gives a small address\<close>
  "setup_projection_space map_page pv v c vaddr =
     do { let page_addr = PAGE_ALIGN_4K vaddr;
          frame \<leftarrow> sel4utils_get_cap pv page_addr;
          (addr, v, c) \<leftarrow> sel4utils_dup_and_map map_page v c frame 12;
          Some (u32 ((case addr of None \<Rightarrow> 0 | Some a \<Rightarrow> a) + vaddr - page_addr), v, c) }"

definition destroy_projection_space :: "vspace \<Rightarrow> capspace \<Rightarrow> int \<Rightarrow> (vspace \<times> capspace) option" where
  "destroy_projection_space v c vaddr = sel4utils_unmap_dup v c (PAGE_ALIGN_4K vaddr) 12"

definition cross_page :: "int \<Rightarrow> int \<Rightarrow> bool" where
  \<comment> \<open>as written: the first address is compared with itself\<close>
  "cross_page vaddr1 vaddr2 \<longleftrightarrow> vaddr1 div 4096 \<noteq> vaddr1 div 4096"

subsection \<open>One page at a time\<close>

lemma get_entry_page:
  assumes "tables_ok v" "k < 1048576"
  shows "get_entry v (4096 * int k) = Some (if top_level v ! (k div 1024) = AllReserved then (0, 0) else entry v k)"
proof -
  have i: "k div 1024 < 1024" "length (top_level v) = 1024" using assms by (auto simp: tables_ok_def)
  have a: "arr (top_level v) (index1 (4096 * int k)) = Some (top_level v ! (k div 1024))"
    using i unfolding page_index(2) [OF assms(2)] by (simp add: arr_def)
  have b: "arr level (index0 (4096 * int k)) = Some (level ! (k mod 1024))" if "top_level v ! (k div 1024) = Bottom level" for level
    using tables_okD [OF assms(1) i(1) that] unfolding page_index(1) [OF assms(2)] by (simp add: arr_def)
  show ?thesis by (cases "top_level v ! (k div 1024)") (simp_all add: get_entry_def a b entry_def EMPTY_def)
qed

lemma mapped_bottom:
  assumes "entry v k = (cap, cookie)" "cap \<noteq> EMPTY" "cap \<noteq> RESERVED"
  shows "\<exists>level. top_level v ! (k div 1024) = Bottom level"
  using assms by (cases "top_level v ! (k div 1024)") (auto simp: entry_def)

lemma get_mapped:
  assumes "tables_ok v" "k < 1048576" "entry v k = (cap, cookie)" "cap \<noteq> EMPTY" "cap \<noteq> RESERVED"
  shows "get_cap v (4096 * int k) = Some cap" "get_cookie v (4096 * int k) = Some cookie"
    "sel4utils_get_cap v (4096 * int k) = Some cap"
  using mapped_bottom [OF assms(3-5)] get_entry_page [OF assms(1,2)] assms(3,5)
  by (auto simp: get_cap_def get_cookie_def sel4utils_get_cap_def)

lemma one_page: "at_pages v k (Suc k) P \<longleftrightarrow> P (entry v k)"
  by (auto simp: at_pages_def less_Suc_eq_le dest: le_antisym)

lemma page_next: "k < 1047552 \<Longrightarrow> u32 (4096 * int k + 2 ^ 12) = 4096 * int (Suc k)"
  using page_step [of k] by simp

lemma slots_one: "slots k (Suc k) = 1"
proof -
  have "Suc k + 1023 = k + 1024 * 1" by simp
  then show ?thesis unfolding slots_def by (metis add.commute add_diff_cancel_left' div_mult_self2 lessI zero_neq_numeral)
qed

lemma update_page:
  assumes "tables_ok v" "k < 1047552" "slots k (Suc k) \<le> levels v" "fst (entry v k) \<in> {EMPTY, RESERVED}"
  shows "\<exists>v'. update_entries v (4096 * int k) cap 12 cookie = Some (0, v') \<and> same_rest v v' \<and> levels v \<le> Suc (levels v')
    \<and> set_pages v k (Suc k) (cap, cookie) v'"
  using update_pages [of v k "Suc k" cap cookie] assms unfolding update_entries_def page_next [OF assms(2)] one_page slots_one by simp

lemma entry_hint [simp]: "entry (v\<lparr>last_allocated := a\<rparr>) = entry v" "tables_ok (v\<lparr>last_allocated := a\<rparr>) = tables_ok v"
  by (auto simp: entry_def fun_eq_iff tables_ok_def)

lemma walk_one_page:
  assumes "tables_ok v" "k < 1047552" "top_level v ! (k div 1024) = Bottom level" "a (entry v k) = Some e"
    "\<And>must. slot v (int (k div 1024)) (4096 * int k) (4096 * int (Suc k)) must
      = in_bottom a v (int (k div 1024)) (4096 * int k) (4096 * int (Suc k)) level"
  shows "\<exists>v'. walk_mid slot v (4096 * int k) (4096 * int (Suc k)) = Some (0, v') \<and> same_rest v v' \<and> levels v' = levels v
    \<and> set_pages v k (Suc k) e v'"
proof -
  have c: "chunk (k div 1024) k (Suc k)" and m: "min (Suc k) (1024 * (k div 1024) + 1024) = Suc k"
    using first_chunk(1) [of k "Suc k"] assms(2) by (auto simp: chunk_def min_def split: if_splits)
  have is_k: "k \<le> j \<and> j < Suc k \<longleftrightarrow> j = k" for j by auto
  have act: "a (entry v j) \<noteq> None" if "k \<le> j" "j < Suc k" for j
  proof -
    have "j = k" using that by simp
    then show ?thesis using assms(4) by simp
  qed
  obtain v' where v': "in_bottom a v (int (k div 1024)) (4096 * int k) (4096 * int (Suc k)) level = Some (0, v')"
    "tables_ok v'" "same_rest v v'" "levels v' = levels v"
    "\<forall>j < 1048576. entry v' j = (if k \<le> j \<and> j < Suc k then the (a (entry v j)) else entry v j)"
    using in_bottom_ok [where act = a, OF assms(1) c assms(3) act] by blast
  then have w: "walk_mid slot v (4096 * int k) (4096 * int (Suc k)) = Some (0, v')"
    unfolding walk_mid_step [OF lessI, of k, simplified Suc_le_eq, OF assms(2)] Let_def m assms(5) by (simp add: walk_mid.simps)
  have "set_pages v k (Suc k) e v'" using v'(2,5) assms(4) unfolding set_pages_def is_k by simp
  with w v'(3,4) show ?thesis by blast
qed

lemma mapped_slot:
  assumes "tables_ok v" "k < 1047552" "top_level v ! (k div 1024) = Bottom level"
  shows "arr (top_level v) (int (k div 1024)) = Some (Bottom level)"
  using assms by (simp add: arr_def tables_ok_def)

lemma clear_page:
  assumes "tables_ok v" "k < 1047552" "top_level v ! (k div 1024) = Bottom level"
  shows "\<exists>v'. clear_entries v (4096 * int k) 12 = Some (0, v') \<and> reservation_head v' = reservation_head v
    \<and> levels v' = levels v \<and> last_allocated v' = min (4096 * int k) (last_allocated v) \<and> set_pages v k (Suc k) (EMPTY, 0) v'"
proof -
  obtain v' where v': "walk_mid (clear_slot False) v (4096 * int k) (4096 * int (Suc k)) = Some (0, v')" "same_rest v v'"
    "levels v' = levels v" "set_pages v k (Suc k) (EMPTY, 0) v'"
    using walk_one_page [OF assms, where a = "clear_entry False" and e = "(EMPTY, 0)" and slot = "clear_slot False"]
    by (auto simp: clear_slot_def mapped_slot [OF assms] clear_entry_def split: prod.splits)
  let ?v = "if 4096 * int k < last_allocated v' then v'\<lparr>last_allocated := 4096 * int k\<rparr> else v'"
  have "clear_entries v (4096 * int k) 12 = Some (0, ?v)"
    unfolding clear_entries_def clear_entries_range_def page_next [OF assms(2)] v'(1) by simp
  moreover have "set_pages v k (Suc k) (EMPTY, 0) ?v" using v'(4) unfolding set_pages_def by simp
  ultimately show ?thesis using v'(2,3) by (intro exI [of _ ?v]) (auto simp: same_rest_def min_def)
qed

lemma reserve_mapped_page:
  assumes "tables_ok v" "k < 1047552" "entry v k = (cap, cookie)" "cap \<noteq> EMPTY" "cap \<noteq> RESERVED"
  shows "\<exists>v'. reserve_entries v (4096 * int k) 12 = Some (0, v') \<and> same_rest v v' \<and> levels v' = levels v
    \<and> set_pages v k (Suc k) (RESERVED, 0) v'"
proof -
  obtain level where b: "top_level v ! (k div 1024) = Bottom level" using mapped_bottom [OF assms(3-5)] by blast
  have "reserve_slot False v (int (k div 1024)) (4096 * int k) (4096 * int (Suc k)) must
      = in_bottom (reserve_entry False) v (int (k div 1024)) (4096 * int k) (4096 * int (Suc k)) level" for must
    by (simp add: reserve_slot_def mapped_slot [OF assms(1,2) b])
  moreover have "reserve_entry False (entry v k) = Some (RESERVED, 0)" using assms(3,5) by (simp add: reserve_entry_def)
  ultimately show ?thesis
    using walk_one_page [OF assms(1,2) b] unfolding reserve_entries_def reserve_entries_range_def page_next [OF assms(2)] by blast
qed

lemma check_own_page:
  assumes "tables_ok v" "k < 1047552" "r_start r = 4096 * int k" "r_end r = 4096 * int (Suc k)"
  shows "check_reservation v r (4096 * int k) (4096 * int (Suc k)) = Some (fst (entry v k) = RESERVED)"
proof -
  have "is_reserved_range v (4096 * int k) (4096 * int (Suc k)) = Some (at_pages v k (Suc k) (\<lambda>e. fst e = RESERVED))"
    using available_spec(2) [OF assms(1), of k "Suc k"] assms(2) by (simp add: at_pages_def)
  then show ?thesis using assms(3,4) unfolding check_reservation_def check_reservation_bounds_def one_page by simp
qed

lemma new_page_spec:
  assumes "tables_ok v" "k < 1047552" "1 \<le> levels v" "fst (entry v k) = RESERVED" "r_start r = 4096 * int k" "r_end r = 4096 * int (Suc k)"
    "free_slots c = s # ss" "free_frames c = f # fs" "map_page s (4096 * int k) = 0"
  shows "\<exists>v'. sel4utils_new_pages_at_vaddr map_page v c (4096 * int k) 1 12 r = Some (0, v',
      c\<lparr>free_slots := ss, free_frames := fs, cslot := (cslot c)(s := Some f), mem := (mem c)(f := replicate 4096 0)\<rparr>)
    \<and> same_rest v v' \<and> set_pages v k (Suc k) (s, frame_ut f) v'"
proof -
  obtain v' where v': "update_entries v (4096 * int k) s 12 (frame_ut f) = Some (0, v')" "same_rest v v'"
    "set_pages v k (Suc k) (s, frame_ut f) v'"
    using update_page [OF assms(1,2), of s "frame_ut f"] assms(3,4) by (auto simp: slots_one)
  have "u32 (4096 * int k + int 1 * 2 ^ 12) = 4096 * int (Suc k)" using page_next [OF assms(2)] by simp
  then have "sel4utils_new_pages_at_vaddr map_page v c (4096 * int k) 1 12 r = new_pages_at_vaddr map_page v c (4096 * int k) 1 12"
    using check_own_page [OF assms(1,2,5,6)] assms(4) by (simp add: sel4utils_new_pages_at_vaddr_def del: of_nat_Suc)
  also have "\<dots> = Some (0, v',
      c\<lparr>free_slots := ss, free_frames := fs, cslot := (cslot c)(s := Some f), mem := (mem c)(f := replicate 4096 0)\<rparr>)"
    using v'(1) assms(7-9) by (simp add: new_pages_at_vaddr_def vka_alloc_frame_def)
  finally show ?thesis using v'(2,3) by blast
qed

lemma map_page_spec:
  assumes "tables_ok v" "k < 1047552" "1 \<le> levels v" "fst (entry v k) = RESERVED" "r_start r = 4096 * int k" "r_end r = 4096 * int (Suc k)"
    "\<not> r_deferred r" "map_page cap (4096 * int k) = 0"
  shows "\<exists>v'. sel4utils_map_pages_at_vaddr map_page v [(cap, 0)] (4096 * int k) 12 r = Some (0, v') \<and> same_rest v v'
    \<and> set_pages v k (Suc k) (cap, 0) v'"
proof -
  obtain v' where v': "update_entries v (4096 * int k) cap 12 0 = Some (0, v')" "same_rest v v'" "set_pages v k (Suc k) (cap, 0) v'"
    using update_page [OF assms(1,2), of cap 0] assms(3,4) by (auto simp: slots_one)
  have "u32 (4096 * int k + int (length [(cap, 0 :: int)]) * 2 ^ 12) = 4096 * int (Suc k)" using page_next [OF assms(2)] by simp
  then have "sel4utils_map_pages_at_vaddr map_page v [(cap, 0)] (4096 * int k) 12 r = Some (0, v')"
    using check_own_page [OF assms(1,2,5,6)] assms(4,7,8) v'(1)
    by (simp add: sel4utils_map_pages_at_vaddr_def valid_size_bits_def del: of_nat_Suc)
  then show ?thesis using v'(2,3) by blast
qed

lemma vspace_ok_set_pages:
  assumes "vspace_ok v" "set_pages v k (Suc k) e v'" "fst e \<noteq> EMPTY" "reservation_head v' = reservation_head v"
  shows "vspace_ok v'"
proof -
  have "res_ok v' r" if "res_ok v r" for r
    by (rule res_ok_mono [OF that]) (use assms(2,3) in \<open>auto simp: set_pages_def\<close>)
  then show ?thesis using assms(1,2,4) by (simp add: vspace_ok_def set_pages_def)
qed

subsection \<open>Windows open and close\<close>

lemma free_page_unreserved:
  assumes "vspace_ok v" "fst (entry v k) = EMPTY"
  shows "find_reserve v (4096 * int k) = None"
proof -
  have "\<not> (4096 * int k \<ge> r_start r \<and> 4096 * int k < r_end r)" if "r \<in> set (reservation_head v)" for r
  proof -
    have "res_ok v r" using assms(1) that by (simp add: vspace_ok_def)
    then have "r_end r \<le> 4096 * int k \<or> 4096 * int (Suc k) \<le> r_start r"
      using assms(2) by (intro res_disjoint_free) (simp_all add: one_page)
    then show ?thesis by auto
  qed
  then have "find_res (filter (\<lambda>r. r \<in> set (reservation_head v)) rs) (4096 * int k) = None" for rs
    by (induction rs) auto
  then have "find_res (filter (\<lambda>r. r \<in> set (reservation_head v)) (reservation_head v)) (4096 * int k) = None" .
  moreover have "filter (\<lambda>r. r \<in> set (reservation_head v)) (reservation_head v) = reservation_head v" by (simp add: filter_True)
  ultimately show ?thesis unfolding find_reserve_def by metis
qed

lemma find_one_page:
  assumes "tables_ok v" "last_allocated v = 4096 * int l" "l \<le> k" "k + 1 < 917504" "fst (entry v k) = EMPTY"
    "\<And>p. l \<le> p \<Longrightarrow> p < k \<Longrightarrow> fst (entry v p) \<noteq> EMPTY"
  shows "find_range v 1 12 = Some (Some (4096 * int k), v\<lparr>last_allocated := 4096 * int (Suc k)\<rparr>)"
proof -
  have run: "free_run v 1 p \<longleftrightarrow> fst (entry v p) = EMPTY" for p by (simp add: free_run_def one_page)
  have "l < 917504" using assms(3,4) by simp
  then obtain r where r: "found v 1 l r" "find_range v (int 1) 12
    = Some (map_option fst r, case r of None \<Rightarrow> v | Some (_, current) \<Rightarrow> v\<lparr>last_allocated := current\<rparr>)"
    using find_range_spec [OF assms(1,2)] by blast
  have "r = Some (4096 * int k, 4096 * int (Suc k))"
  proof (cases r)
    case None
    with r(1) assms(3-5) show ?thesis unfolding found_def run by auto
  next
    case (Some sc)
    obtain a b where sc: "sc = (a, b)" by (cases sc)
    from r(1) obtain p where p: "a = 4096 * int p" "b = 4096 * int (p + 1)" "l \<le> p" "fst (entry v p) = EMPTY"
      "\<forall>p'. l \<le> p' \<and> p' < p \<longrightarrow> fst (entry v p') \<noteq> EMPTY" unfolding found_def Some sc option.case prod.case run by (elim exE conjE)
    have "p = k" using p(3-5) assms(3,5,6) by (metis linorder_neqE_nat)
    with p Some sc show ?thesis by simp
  qed
  with r(2) show ?thesis by simp
qed

definition windowed :: "vspace \<Rightarrow> capspace \<Rightarrow> nat \<Rightarrow> nat \<Rightarrow> bool" where
  \<comment> \<open>the next window will be page \<open>k\<close>, the lowest free one from page \<open>l\<close> on\<close>
  "windowed v c l k \<longleftrightarrow> vspace_ok v \<and> last_allocated v = 4096 * int l \<and> l \<le> k \<and> k + 1 < 917504 \<and> 1 \<le> levels v
     \<and> entry v k = (EMPTY, 0) \<and> (\<forall>p. l \<le> p \<and> p < k \<longrightarrow> fst (entry v p) \<noteq> EMPTY)
     \<and> (\<exists>s ss. free_slots c = s # ss \<and> s \<noteq> EMPTY \<and> s \<noteq> RESERVED \<and> cslot c s = None)"

lemma window_open:
  assumes "windowed v c l k" "cslot c page = Some f" "\<And>s. map_page s (4096 * int k) = 0"
  shows "\<exists>v'. sel4utils_dup_and_map map_page v c page 12 = Some (Some (4096 * int k), v',
      c\<lparr>free_slots := tl (free_slots c), cslot := (cslot c)(hd (free_slots c) := Some f)\<rparr>)
    \<and> set_pages v k (Suc k) (hd (free_slots c), 0) v' \<and> reservation_head v' = reservation_head v
    \<and> last_allocated v' = 4096 * int (Suc k) \<and> levels v \<le> Suc (levels v')"
proof -
  obtain s ss where s: "free_slots c = s # ss" "s \<noteq> EMPTY" "s \<noteq> RESERVED" "cslot c s = None"
    using assms(1) by (auto simp: windowed_def)
  note w = assms(1) [unfolded windowed_def]
  have t: "tables_ok v" using w by (simp add: vspace_ok_def)
  let ?v = "v\<lparr>last_allocated := 4096 * int (Suc k)\<rparr>"
  obtain v' where v': "update_entries ?v (4096 * int k) s 12 0 = Some (0, v')" "same_rest ?v v'" "levels v \<le> Suc (levels v')" "set_pages ?v k (Suc k) (s, 0) v'"
    using update_page [of ?v k s 0] t w by (auto simp: slots_one)
  have "sel4utils_map_pages map_page v [(s, 0)] 12 = Some (Some (4096 * int k), v')"
    using find_one_page [OF t, of l k] w v'(1) assms(3) by (simp add: sel4utils_map_pages_def ok_def)
  then have "sel4utils_dup_and_map map_page v c page 12
      = Some (Some (4096 * int k), v', c\<lparr>free_slots := ss, cslot := (cslot c)(s := Some f)\<rparr>)"
    using s assms(2) by (simp add: sel4utils_dup_and_map_def vka_cspace_alloc_def cnode_copy_def)
  then show ?thesis using v' s(1) by (simp add: set_pages_def same_rest_def)
qed

lemma window_close:
  assumes "tables_ok v" "k < 1047552" "entry v k = (s, 0)" "s \<noteq> EMPTY" "s \<noteq> RESERVED" "find_reserve v (4096 * int k) = None"
  shows "\<exists>v'. (\<forall>c. sel4utils_unmap_dup v c (4096 * int k) 12 = Some (v', release_cap c s)) \<and> set_pages v k (Suc k) (EMPTY, 0) v'
    \<and> reservation_head v' = reservation_head v \<and> levels v' = levels v \<and> last_allocated v' = min (4096 * int k) (last_allocated v)"
proof -
  obtain level where b: "top_level v ! (k div 1024) = Bottom level" using mapped_bottom [OF assms(3-5)] by blast
  obtain v' where v': "clear_entries v (4096 * int k) 12 = Some (0, v')" "reservation_head v' = reservation_head v"
    "levels v' = levels v" "last_allocated v' = min (4096 * int k) (last_allocated v)" "set_pages v k (Suc k) (EMPTY, 0) v'"
    using clear_page [OF assms(1,2) b] by blast
  have k: "k < 1048576" using assms(2) by simp
  have "tables_ok v'" "entry v' k = (0, 0)" using v'(5) assms(2) by (auto simp: set_pages_def EMPTY_def)
  then have "get_entry v' (4096 * int k) = Some (0, 0)" using get_entry_page [of v' k] k by simp
  then show ?thesis
    using v' get_mapped [OF assms(1) k assms(3-5)] assms(4,6)
    by (simp add: sel4utils_unmap_dup_def sel4utils_unmap_pages_def valid_size_bits_def ok_def get_cap_def get_cookie_def EMPTY_def
        numeral_eq_Suc cong: if_cong)
qed

definition same_pages :: "vspace \<Rightarrow> vspace \<Rightarrow> bool" where
  "same_pages v v' \<longleftrightarrow> tables_ok v' \<and> (\<forall>k < 1048576. entry v' k = entry v k)"

lemma window_offset:
  assumes "0 \<le> off" "off < 4096"
  shows "PAGE_ALIGN_4K (4096 * int p + off) = 4096 * int p"
proof -
  have "(4096 * int p + off) mod 4096 = off" using assms by (simp add: mod_pos_pos_trivial)
  then show ?thesis by (simp add: PAGE_ALIGN_4K_def)
qed

lemma vspace_ok_same_pages:
  assumes "vspace_ok v" "same_pages v v'" "reservation_head v' = reservation_head v"
  shows "vspace_ok v'"
proof -
  have "res_ok v' r" if "res_ok v r" for r
    by (rule res_ok_mono [OF that]) (use assms(2) in \<open>auto simp: same_pages_def\<close>)
  then show ?thesis using assms by (simp add: vspace_ok_def same_pages_def)
qed

lemma window_cycle:
  assumes "windowed v c l k" "2 \<le> levels v" "cslot c page = Some f" "\<And>s. map_page s (4096 * int k) = 0"
  shows "\<exists>v1 c1 v2 s. sel4utils_dup_and_map map_page v c page 12 = Some (Some (4096 * int k), v1, c1)
    \<and> cslot c1 page = Some f \<and> mem c1 = mem c \<and> sel4utils_get_cap v1 (4096 * int k) = Some s \<and> cslot c1 s = Some f
    \<and> (\<forall>m. sel4utils_unmap_dup v1 (c1\<lparr>mem := m\<rparr>) (4096 * int k) 12 = Some (v2, c\<lparr>mem := m\<rparr>))
    \<and> windowed v2 c k k \<and> same_pages v v2 \<and> levels v \<le> Suc (levels v2)"
proof -
  let ?s = "hd (free_slots c)"
  let ?c = "c\<lparr>free_slots := tl (free_slots c), cslot := (cslot c)(?s := Some f)\<rparr>"
  note w = assms(1) [unfolded windowed_def]
  have s: "free_slots c = ?s # tl (free_slots c)" "?s \<noteq> EMPTY" "?s \<noteq> RESERVED" "cslot c ?s = None" using w by auto
  have k: "k < 1047552" using w by auto
  obtain v1 where v1: "sel4utils_dup_and_map map_page v c page 12 = Some (Some (4096 * int k), v1, ?c)"
    "set_pages v k (Suc k) (?s, 0) v1" "reservation_head v1 = reservation_head v" "last_allocated v1 = 4096 * int (Suc k)"
    "levels v \<le> Suc (levels v1)"
    using window_open [where map_page = map_page, OF assms(1,3,4)] by blast
  have e1: "tables_ok v1" "entry v1 k = (?s, 0)" using v1(2) k(1) by (auto simp: set_pages_def)
  have fr: "find_reserve v1 (4096 * int k) = None"
    using free_page_unreserved [of v k] w v1(3) by (simp add: find_reserve_def)
  obtain v2 where v2: "\<forall>c. sel4utils_unmap_dup v1 c (4096 * int k) 12 = Some (v2, release_cap c ?s)"
    "set_pages v1 k (Suc k) (EMPTY, 0) v2" "reservation_head v2 = reservation_head v1" "levels v2 = levels v1"
    "last_allocated v2 = min (4096 * int k) (last_allocated v1)"
    using window_close [OF e1(1) k(1) e1(2) s(2,3) fr] by blast
  have close: "sel4utils_unmap_dup v1 (?c\<lparr>mem := m\<rparr>) (4096 * int k) 12 = Some (v2, c\<lparr>mem := m\<rparr>)" for m
    using v2(1) s(1,4) by (simp add: release_cap_def cnode_delete_def vka_cspace_free_def fun_upd_idem)
  have is_k: "k \<le> j \<and> j < Suc k \<longleftrightarrow> j = k" for j by auto
  have same: "same_pages v v2" using v1(2) v2(2) w unfolding set_pages_def same_pages_def is_k by auto
  moreover have "vspace_ok v2" using vspace_ok_same_pages [OF _ same] w v1(3) v2(3) by simp
  ultimately have "windowed v2 c k k" using w v1(4,5) v2(4,5) assms(2) s k by (auto simp: windowed_def same_pages_def)
  moreover have "sel4utils_get_cap v1 (4096 * int k) = Some ?s" using get_mapped(3) [OF e1(1) _ e1(2) s(2,3)] k by simp
  ultimately show ?thesis using v1(1,5) v2(4) close same assms(3) s(4)
    by (intro exI [of _ v1] exI [of _ ?c] exI [of _ v2] exI [of _ ?s]) auto
qed

text \<open>
  C37. A window onto a caller's buffer. For a mapped page of a process,
  \<^verbatim>\<open>setup_projection_space\<close> returns an address with the same offset in a page of the system's address
  space that was free, where a capability to the very frame of the process is now mapped, and
  changes no other page and no memory. \<^verbatim>\<open>destroy_projection_space\<close> of that address then undoes
  all of it: the shadow table, the reservations, the capability slots are as before and the next
  window gets the same page, so serving requests does not use up address space or slots.
\<close>

theorem projection_roundtrip:
  assumes "windowed v c l k" "tables_ok pv" "p < 1048576" "0 \<le> off" "off < 4096"
    "entry pv p = (cap, cookie)" "cap \<noteq> EMPTY" "cap \<noteq> RESERVED" "cslot c cap = Some f"
    "\<And>s. map_page s (4096 * int k) = 0"
  shows "\<exists>v1 c1 v2 w. setup_projection_space map_page pv v c (4096 * int p + off) = Some (4096 * int k + off, v1, c1)
    \<and> set_pages v k (Suc k) (w, 0) v1 \<and> cslot c1 w = Some f \<and> mem c1 = mem c
    \<and> destroy_projection_space v1 c1 (4096 * int k + off) = Some (v2, c)
    \<and> same_pages v v2 \<and> reservation_head v2 = reservation_head v \<and> last_allocated v2 = 4096 * int k"
proof -
  let ?s = "hd (free_slots c)"
  let ?c = "c\<lparr>free_slots := tl (free_slots c), cslot := (cslot c)(?s := Some f)\<rparr>"
  note w = assms(1) [unfolded windowed_def]
  have s: "free_slots c = ?s # tl (free_slots c)" "?s \<noteq> EMPTY" "?s \<noteq> RESERVED" "cslot c ?s = None" using w by auto
  have k: "k < 1047552" "4096 * int k + off < 4294967296" using w assms(5) by auto
  obtain v1 where v1: "sel4utils_dup_and_map map_page v c cap 12 = Some (Some (4096 * int k), v1, ?c)"
    "set_pages v k (Suc k) (?s, 0) v1" "reservation_head v1 = reservation_head v" "last_allocated v1 = 4096 * int (Suc k)"
    using window_open [where map_page = map_page, OF assms(1,9,10)] by blast
  have set: "setup_projection_space map_page pv v c (4096 * int p + off) = Some (4096 * int k + off, v1, ?c)"
    using get_mapped(3) [OF assms(2,3,6-8)] v1(1) k(2) assms(4)
    unfolding setup_projection_space_def window_offset [OF assms(4,5)] by (simp add: u32_def)
  have e1: "tables_ok v1" "entry v1 k = (?s, 0)" using v1(2) k(1) by (auto simp: set_pages_def)
  have "find_reserve v1 (4096 * int k) = None"
    using free_page_unreserved [of v k] w v1(3) by (simp add: find_reserve_def)
  then obtain v2 where v2: "\<forall>c. sel4utils_unmap_dup v1 c (4096 * int k) 12 = Some (v2, release_cap c ?s)"
    "set_pages v1 k (Suc k) (EMPTY, 0) v2" "reservation_head v2 = reservation_head v1"
    "last_allocated v2 = min (4096 * int k) (last_allocated v1)"
    using window_close [OF e1(1) k(1) e1(2) s(2,3)] by blast
  have "release_cap ?c ?s = c" using s(1,4) by (simp add: release_cap_def cnode_delete_def vka_cspace_free_def fun_upd_idem)
  moreover have "same_pages v v2"
  proof -
    have "k \<le> j \<and> j < Suc k \<longleftrightarrow> j = k" for j by auto
    then show ?thesis using v1(2) v2(2) w by (simp add: set_pages_def same_pages_def)
  qed
  ultimately show ?thesis
    using set v1 v2 unfolding destroy_projection_space_def window_offset [OF assms(4,5)]
    by (intro exI [of _ v1] exI [of _ ?c] exI [of _ v2] exI [of _ ?s]) simp
qed

definition sample_caps :: capspace where
  \<comment> \<open>slot 7 names frame 2\<close>
  "sample_caps = \<lparr>cslot = [7 \<mapsto> 2], free_slots = [20, 21, 22], free_frames = [4, 5], mem = \<lambda>_. replicate 4096 0\<rparr>"

definition sample_process :: vspace where
  \<comment> \<open>slot 7 is mapped at page 3\<close>
  "sample_process = \<lparr>top_level = (replicate 1024 NoTable)[0 := Bottom ((replicate 1024 (EMPTY, 0))[3 := (7, 3)])], levels = 1,
     last_allocated = 4096, reservation_head = []\<rparr>"

lemma sample_windowed: "windowed (empty_vspace 1) sample_caps 1 1"
  by (simp add: windowed_def vspace_ok_def empty_vspace_ok)
    (simp add: empty_vspace_def sample_caps_def EMPTY_def RESERVED_def)

lemma sample_process_ok: "tables_ok sample_process" "entry sample_process 3 = (7, 3)"
  by (auto simp: sample_process_def tables_ok_def entry_def dest!: set_update_subset_insert [THEN subsetD])

theorem projection_roundtrip_witness:
  "\<exists>v1 c1 v2 w. setup_projection_space (\<lambda>_ _. 0) sample_process (empty_vspace 1) sample_caps (4096 * int 3 + 10)
      = Some (4096 * int 1 + 10, v1, c1)
    \<and> set_pages (empty_vspace 1) 1 (Suc 1) (w, 0) v1 \<and> cslot c1 w = Some 2 \<and> mem c1 = mem sample_caps
    \<and> destroy_projection_space v1 c1 (4096 * int 1 + 10) = Some (v2, sample_caps)
    \<and> same_pages (empty_vspace 1) v2 \<and> reservation_head v2 = reservation_head (empty_vspace 1) \<and> last_allocated v2 = 4096 * int 1"
  by (rule projection_roundtrip [OF sample_windowed sample_process_ok(1) _ _ _ sample_process_ok(2)])
    (simp_all add: EMPTY_def RESERVED_def sample_caps_def)

end
