(* ===== verification/Process.thy ===== *)
theory Process
  imports Pagefile Frames
begin

text \<open>
  Processes: \<^verbatim>\<open>os/src/process.c\<close>, the process control block of \<^verbatim>\<open>os/include/pcb.h\<close>, the list of virtual
  frames that was added to \<^verbatim>\<open>sel4utils_process_t\<close> (\<^verbatim>\<open>libsel4utils/include/sel4utils/process.h\<close>), and
  the stack and IPC buffer of a process (\<^verbatim>\<open>libsel4vspace/src/vspace.c\<close>).

  A pointer to a \<^verbatim>\<open>VFrame\<close> is the number \<open>vf_ptr\<close>; \<open>vframes\<close> is the linked list, head first. The
  state of the system is the record \<open>os\<close>. What comes from outside is the record \<open>env\<close>: the error
  code of the kernel's mapping invocation, the accessed and dirty bits the kernel reports for
  a page, the clock, the contents of uninitialised locals, and the ELF loader, which gets an
  address space and leaves one with the image mapped. Kernel objects other than frames
  (threads, CNodes, page directories, endpoints) are not part of the state.
\<close>

definition MAX_PROCESS_NUM :: nat where "MAX_PROCESS_NUM = 16"
definition MAX_ELF_SIZE :: int where "MAX_ELF_SIZE = 1048576"
definition MAX_CWD_LEN :: nat where "MAX_CWD_LEN = 32"
definition O_WRONLY :: int where "O_WRONLY = 1"
definition HEAP_BASE_VADDR :: int where "HEAP_BASE_VADDR = 0x10000000"
definition STACK_TOP_VADDR :: int where "STACK_TOP_VADDR = 0xc0000000"
definition STACK_SIZE :: int where "STACK_SIZE = 4096 * 16"
definition IPC_BUFFER_VADDR :: int where "IPC_BUFFER_VADDR = 0x8000000"
definition seL4_AllRights :: int where "seL4_AllRights = 15"

record VFrame =
  vf_ptr :: nat \<comment> \<open>the address of the structure\<close>
  vf_reserve :: "res option" \<comment> \<open>\<^verbatim>\<open>reserve.res\<close>\<close>
  vf_accessed :: int
  vf_dirty :: int
  vf_inRAM :: int
  vf_pagefile :: "cstr option"

record process =
  p_vspace :: vspace
  pframes_used :: int
  vframes :: "VFrame list"
  replacer :: "nat option"
  ipc_buffer :: int \<comment> \<open>\<^verbatim>\<open>thread.ipc_buffer_addr\<close>\<close>
  stack_top :: int \<comment> \<open>\<^verbatim>\<open>thread.stack_top\<close>\<close>

record PCB =
  p_inuse :: int
  p_stime :: int
  p_proc :: process
  heap_top :: int
  file_table :: "FCB list"
  p_cwd :: cstr
  p_cmd :: cstr

record os =
  proc_table :: "PCB list"
  os_fs :: fs
  os_swap :: swap
  os_caps :: capspace
  os_root :: vspace \<comment> \<open>the system's own address space\<close>
  os_heap :: nat \<comment> \<open>the next address \<^verbatim>\<open>malloc\<close> returns\<close>

record env =
  env_map :: "int \<Rightarrow> int \<Rightarrow> int"
  env_status :: "int \<Rightarrow> int \<times> int" \<comment> \<open>accessed, dirty\<close>
  env_time :: int \<comment> \<open>\<^verbatim>\<open>timer_get_time()\<close>\<close>
  env_stack :: stack
  env_elf :: "byte list"
  env_load :: "byte list \<Rightarrow> vspace \<Rightarrow> capspace \<Rightarrow> (vspace \<times> capspace) option"
  env_levels :: nat

definition zero_fcb :: FCB where
  "zero_fcb = \<lparr>f_inuse = 0, f_inodeOffset = 0, f_offset = 0, f_flags = 0\<rparr>"

definition fresh_vspace :: "env \<Rightarrow> vspace" where
  \<comment> \<open>\<^verbatim>\<open>common_init\<close> and \<^verbatim>\<open>common_init_post_bootstrap\<close>: the kernel's part is reserved in the top level\<close>
  "fresh_vspace e = \<lparr>top_level = replicate 896 NoTable @ replicate 128 AllReserved, levels = env_levels e,
     last_allocated = 0x10000000, reservation_head = []\<rparr>"

definition zero_process :: process where
  "zero_process = \<lparr>p_vspace = \<lparr>top_level = [], levels = 0, last_allocated = 0, reservation_head = []\<rparr>, pframes_used = 0,
     vframes = [], replacer = None, ipc_buffer = 0, stack_top = 0\<rparr>"

definition zero_pcb :: PCB where
  "zero_pcb = \<lparr>p_inuse = 0, p_stime = 0, p_proc = zero_process, heap_top = 0,
     file_table = replicate 32 zero_fcb, p_cwd = [], p_cmd = []\<rparr>"

subsection \<open>The process table\<close>

definition pid_getproc :: "os \<Rightarrow> int \<Rightarrow> PCB option" where
  "pid_getproc w pid = do { ok (0 \<le> pid \<and> pid < int MAX_PROCESS_NUM); arr (proc_table w) pid }"

fun first_unused :: "PCB list \<Rightarrow> nat \<Rightarrow> nat option" where
  "first_unused [] i = None"
| "first_unused (pcb # pcbs) i = (if p_inuse pcb = 0 then Some i else first_unused pcbs (i + 1))"

definition set_pcb :: "os \<Rightarrow> int \<Rightarrow> PCB \<Rightarrow> os" where
  "set_pcb w pid pcb = w\<lparr>proc_table := (proc_table w)[nat pid := pcb]\<rparr>"

definition alloc_pid :: "os \<Rightarrow> (int \<times> os) option" where
  \<comment> \<open>a full table is a failed assertion\<close>
  "alloc_pid w = do { i \<leftarrow> first_unused (proc_table w) 0;
     Some (int i, set_pcb w (int i) ((proc_table w ! i)\<lparr>p_inuse := 1\<rparr>)) }"

definition malloc :: "os \<Rightarrow> nat \<times> os" where
  "malloc w = (os_heap w, w\<lparr>os_heap := os_heap w + 1\<rparr>)"

subsection \<open>Stack and IPC buffer\<close>

definition vspace_new_ipc_buffer ::
  "env \<Rightarrow> vspace \<Rightarrow> capspace \<Rightarrow> nat \<Rightarrow> (int \<times> vspace \<times> capspace) option" where
  \<comment> \<open>the address, 0 for \<^verbatim>\<open>NULL\<close>; \<open>i\<close> is the address of the reservation\<close>
  "vspace_new_ipc_buffer e v c i =
     do { (reserve, v) \<leftarrow> sel4utils_reserve_range_at v i IPC_BUFFER_VADDR PAGE_SIZE_4K seL4_AllRights 1;
          case reserve of None \<Rightarrow> Some (0, v, c)
          | Some r \<Rightarrow>
              do { (error, v, c) \<leftarrow> sel4utils_new_pages_at_vaddr (env_map e) v c IPC_BUFFER_VADDR 1 12 r;
                   if error \<noteq> 0 then do { v \<leftarrow> sel4utils_free_reservation v r; Some (0, v, c) }
                   else Some (IPC_BUFFER_VADDR, v, c) } }"

definition vspace_free_ipc_buffer :: "vspace \<Rightarrow> capspace \<Rightarrow> int \<Rightarrow> (vspace \<times> capspace) option" where
  "vspace_free_ipc_buffer v c addr = sel4utils_unmap_pages True v c addr 1 12"

fun sized_stack_loop ::
  "env \<Rightarrow> os \<Rightarrow> process \<Rightarrow> int \<Rightarrow> nat \<Rightarrow> (process \<times> os) option" where
  "sized_stack_loop e w p cur 0 = Some (p, w)"
| "sized_stack_loop e w p cur (Suc n) =
     do { let (i, w) = malloc w;
          (reserve, v) \<leftarrow> sel4utils_reserve_range_at (p_vspace p) i cur PAGE_SIZE_4K seL4_AllRights 1;
          r \<leftarrow> reserve;
          (error, v, c) \<leftarrow> sel4utils_new_pages_at_vaddr (env_map e) v (os_caps w) cur 1 12 r;
          let (j, w) = malloc (w\<lparr>os_caps := c\<rparr>);
          let vf = \<lparr>vf_ptr = j, vf_reserve = Some r, vf_accessed = 0, vf_dirty = 0, vf_inRAM = 1, vf_pagefile = None\<rparr>;
          let p = p\<lparr>p_vspace := v, vframes := vf # vframes p, pframes_used := pframes_used p + 1\<rparr>;
          ok (error = 0);
          sized_stack_loop e w p (u32 (cur + PAGE_SIZE_4K)) n }"

definition vspace_new_sized_stack :: "env \<Rightarrow> os \<Rightarrow> process \<Rightarrow> nat \<Rightarrow> (int \<times> process \<times> os) option" where
  \<comment> \<open>for a process (\<^verbatim>\<open>proc\<close> is not \<^verbatim>\<open>NULL\<close>)\<close>
  "vspace_new_sized_stack e w p n_pages =
     do { let stack_bottom = u32 (STACK_TOP_VADDR - STACK_SIZE);
          (p, w) \<leftarrow> sized_stack_loop e w p stack_bottom n_pages;
          Some (u32 (stack_bottom + int n_pages * PAGE_SIZE_4K), p, w) }"

definition vspace_free_sized_stack :: "vspace \<Rightarrow> capspace \<Rightarrow> int \<Rightarrow> nat \<Rightarrow> (vspace \<times> capspace) option" where
  \<comment> \<open>only the reservation of the lowest page is freed\<close>
  "vspace_free_sized_stack v c tos n_pages =
     (if n_pages > 0 then
        do { let bottom = u32 (tos - int n_pages * PAGE_SIZE_4K);
             (v, c) \<leftarrow> sel4utils_unmap_pages True v c bottom n_pages 12;
             r \<leftarrow> find_reserve v bottom;
             v \<leftarrow> sel4utils_free_reservation v r;
             Some (v, c) }
      else Some (v, c))"

subsection \<open>Creating and destroying a process\<close>

definition configure_process :: "env \<Rightarrow> os \<Rightarrow> byte list \<Rightarrow> (process \<times> os) option" where
  \<comment> \<open>what \<^verbatim>\<open>sel4utils_configure_process_custom\<close> does to memory: an empty address space, the image,
     the IPC buffer, a stack of 16 pages\<close>
  "configure_process e w img =
     do { (v, c) \<leftarrow> env_load e img (fresh_vspace e) (os_caps w);
          let (i, w) = malloc w;
          (ipc, v, c) \<leftarrow> vspace_new_ipc_buffer e v c i;
          ok (ipc \<noteq> 0);
          (tos, p, w) \<leftarrow> vspace_new_sized_stack e (w\<lparr>os_caps := c\<rparr>) (zero_process\<lparr>p_vspace := v, ipc_buffer := ipc\<rparr>) 16;
          Some (p\<lparr>stack_top := tos\<rparr>, w) }"

definition sel4utils_destroy_process :: "process \<Rightarrow> capspace \<Rightarrow> capspace option" where
  \<comment> \<open>\<^verbatim>\<open>sel4utils_clean_up_thread\<close>, then \<^verbatim>\<open>vspace_tear_down\<close>\<close>
  "sel4utils_destroy_process p c =
     do { (v, c) \<leftarrow> (if ipc_buffer p \<noteq> 0 then vspace_free_ipc_buffer (p_vspace p) c (ipc_buffer p) else Some (p_vspace p, c));
          (v, c) \<leftarrow> (if stack_top p \<noteq> 0 then vspace_free_sized_stack v c (stack_top p) 16 else Some (v, c));
          (v, c) \<leftarrow> sel4utils_tear_down v c;
          Some c }"

definition std_files :: "FCB list \<Rightarrow> FCB list" where
  "std_files table = table[0 := \<lparr>f_inuse = 1, f_inodeOffset = -1, f_offset = 0, f_flags = O_RDONLY\<rparr>,
     1 := \<lparr>f_inuse = 1, f_inodeOffset = -1, f_offset = 0, f_flags = O_WRONLY\<rparr>,
     2 := \<lparr>f_inuse = 1, f_inodeOffset = -1, f_offset = 0, f_flags = O_WRONLY\<rparr>]"

definition start_process :: "env \<Rightarrow> os \<Rightarrow> int \<Rightarrow> process \<Rightarrow> cstr \<Rightarrow> cstr \<Rightarrow> os option" where
  \<comment> \<open>the part \<^verbatim>\<open>syscall_execve\<close> and \<^verbatim>\<open>load_shell\<close> share: descriptors, directory, command, start time, replacer\<close>
  "start_process e w pid p dir path =
     do { pcb \<leftarrow> pid_getproc w pid;
          ok (length dir < MAX_CWD_LEN);
          ok (length path < MAX_CWD_LEN);
          Some (set_pcb w pid (pcb\<lparr>p_proc := p\<lparr>replacer := (case vframes p of [] \<Rightarrow> None | vf # _ \<Rightarrow> Some (vf_ptr vf))\<rparr>,
            file_table := std_files (file_table pcb), p_cwd := dir, p_cmd := path,
            p_stime := i32 (env_time e div 1000 div 1000)\<rparr>)) }"

definition syscall_execve :: "env \<Rightarrow> os \<Rightarrow> int \<Rightarrow> cstr \<Rightarrow> (int \<times> os) option" where
  \<comment> \<open>the result of \<^verbatim>\<open>syscall_open\<close> is used without a check; \<open>parent\<close> is the pid of the caller\<close>
  "syscall_execve e w parent path =
     do { parent_pcb \<leftarrow> pid_getproc w parent;
          (off, s) \<leftarrow> syscall_open (os_fs w) (env_stack e) path O_RDONLY;
          (elf_size, _, elf_file) \<leftarrow> syscall_readfile s (env_stack e)
             \<lparr>f_inuse = 1, f_inodeOffset = off, f_offset = 0, f_flags = O_RDONLY\<rparr> 3 (env_elf e) MAX_ELF_SIZE;
          (pid, w) \<leftarrow> alloc_pid (w\<lparr>os_fs := s\<rparr>);
          (p, w) \<leftarrow> configure_process e w (take (nat elf_size) elf_file);
          w \<leftarrow> start_process e w pid p (p_cwd parent_pcb) path;
          Some (pid, w) }"

definition load_shell :: "env \<Rightarrow> os \<Rightarrow> byte list \<Rightarrow> os option" where
  \<comment> \<open>the image comes from the archive linked into the root server\<close>
  "load_shell e w img =
     do { (pid, w) \<leftarrow> alloc_pid w;
          (p, w) \<leftarrow> configure_process e w img;
          start_process e w pid p (str ''/'') (str ''shell'') }"

fun free_pagefiles :: "VFrame list \<Rightarrow> swap \<Rightarrow> swap" where
  "free_pagefiles [] sw = sw"
| "free_pagefiles (vf # vfs) sw =
     free_pagefiles vfs (case vf_pagefile vf of None \<Rightarrow> sw | Some f \<Rightarrow> free_pagefile sw f)"

definition syscall_kill :: "os \<Rightarrow> int \<Rightarrow> int \<Rightarrow> (int \<times> os) option" where
  \<comment> \<open>the pid is an index without a check\<close>
  "syscall_kill w pid sig =
     do { pcb \<leftarrow> arr (proc_table w) pid;
          if p_inuse pcb = 0 then Some (-1, w)
          else if sig = 9 \<or> sig = 15 then
            do { c \<leftarrow> sel4utils_destroy_process (p_proc pcb) (os_caps w);
                 Some (0, set_pcb (w\<lparr>os_caps := c, os_swap := free_pagefiles (vframes (p_proc pcb)) (os_swap w)\<rparr>) pid zero_pcb) }
          else Some (-1, w) }"

subsection \<open>The list of processes as text\<close>

definition pad_left :: "nat \<Rightarrow> cstr \<Rightarrow> cstr" where
  "pad_left n s = replicate (n - length s) 0x20 @ s"

definition dec_int :: "int \<Rightarrow> cstr" where \<comment> \<open>\<^verbatim>\<open>%d\<close>\<close>
  "dec_int n = (if n < 0 then 0x2d # decimal (nat (- n)) else decimal (nat n))"

definition ps_line :: "nat \<Rightarrow> PCB \<Rightarrow> cstr" where
  "ps_line i pcb = pad_left 3 (dec_int (int i)) @ [0x20] @ pad_left 4 (dec_int (pframes_used (p_proc pcb))) @ [0x20]
     @ pad_left 7 (dec_int (p_stime pcb)) @ [0x20] @ pad_left 9 (p_cmd pcb) @ [10]"

fun ps_loop :: "PCB list \<Rightarrow> nat \<Rightarrow> cstr \<Rightarrow> cstr option" where
  \<comment> \<open>\<^verbatim>\<open>tmp\<close> has room for 63 characters\<close>
  "ps_loop [] i buf = Some buf"
| "ps_loop (pcb # pcbs) i buf =
     (if p_inuse pcb \<noteq> 0 then do { ok (length (ps_line i pcb) < 64); ps_loop pcbs (i + 1) (buf @ ps_line i pcb) }
      else ps_loop pcbs (i + 1) buf)"

definition syscall_ps :: "os \<Rightarrow> cstr \<Rightarrow> cstr option" where
  "syscall_ps w buf = ps_loop (proc_table w) 0 (buf @ str ''PID SIZE   STIME   COMMAND'' @ [10])"

end
