(* ===== verification/Vmfault.thy ===== *)
theory Vmfault
  imports Process
begin

text \<open>
  Page faults: \<^verbatim>\<open>os/src/vm/vmfault_handler.c\<close>. A process has at most 256 physical frames; when it
  needs another page, a victim is chosen by the second-chance loop, saved to its page file if it
  was modified or never saved, and its frame is given to the page that faulted.
\<close>

definition MAX_PFRAME_NUM :: int where "MAX_PFRAME_NUM = 256"

fun find_vframe :: "VFrame list \<Rightarrow> int \<Rightarrow> VFrame option option" where
  \<comment> \<open>\<^term>\<open>None\<close>: a reservation that is \<^verbatim>\<open>NULL\<close> is dereferenced\<close>
  "find_vframe [] vaddr = Some None"
| "find_vframe (vf # vfs) vaddr =
     do { r \<leftarrow> vf_reserve vf;
          if vaddr \<ge> r_start r \<and> vaddr < r_end r then Some (Some vf) else find_vframe vfs vaddr }"

definition get_vf :: "VFrame list \<Rightarrow> nat \<Rightarrow> VFrame option" where
  "get_vf vfs i = find (\<lambda>vf. vf_ptr vf = i) vfs"

definition upd_vf :: "nat \<Rightarrow> (VFrame \<Rightarrow> VFrame) \<Rightarrow> VFrame list \<Rightarrow> VFrame list" where
  "upd_vf i f vfs = map (\<lambda>vf. if vf_ptr vf = i then f vf else vf) vfs"

fun next_vf :: "VFrame list \<Rightarrow> nat \<Rightarrow> nat option" where
  \<comment> \<open>\<^verbatim>\<open>curr->next\<close>\<close>
  "next_vf (vf # vf' # vfs) i = (if vf_ptr vf = i then Some (vf_ptr vf') else next_vf (vf' # vfs) i)"
| "next_vf _ i = None"

definition unmap_page :: "capspace \<Rightarrow> int \<Rightarrow> capspace" where
  "unmap_page c frame = release_cap c frame"

fun update_status :: "(int \<Rightarrow> int \<times> int) \<Rightarrow> VFrame list \<Rightarrow> VFrame list option" where
  "update_status hw [] = Some []"
| "update_status hw (vf # vfs) =
     do { vf \<leftarrow> (if vf_inRAM vf \<noteq> 0 then
                   do { r \<leftarrow> vf_reserve vf;
                        Some (vf\<lparr>vf_accessed := fst (hw (r_start r)) * 2, vf_dirty := snd (hw (r_start r)) * 2\<rparr>) }
                 else Some vf);
          vfs \<leftarrow> update_status hw vfs;
          Some (vf # vfs) }"

definition next_or_head :: "VFrame list \<Rightarrow> nat \<Rightarrow> nat option" where
  "next_or_head vfs i = (case next_vf vfs i of Some j \<Rightarrow> Some j | None \<Rightarrow> (case vfs of [] \<Rightarrow> None | h # _ \<Rightarrow> Some (vf_ptr h)))"

partial_function (option) second_chance :: "VFrame list \<Rightarrow> nat option \<Rightarrow> (VFrame list \<times> nat) option" where
  \<comment> \<open>the list with the bits that were taken back, and the victim, where \<^verbatim>\<open>replacer\<close> stays\<close>
  "second_chance vfs rep =
     do { i \<leftarrow> rep;
          vf \<leftarrow> get_vf vfs i;
          if vf_inRAM vf \<noteq> 0 then
            if vf_accessed vf < 2 \<and> vf_dirty vf < 2 then Some (vfs, i)
            else if vf_dirty vf = 2 then second_chance (upd_vf i (vf_dirty_update (\<lambda>_. 1)) vfs) (next_or_head vfs i)
            else second_chance (upd_vf i (vf_accessed_update (\<lambda>_. 1)) vfs) (next_or_head vfs i)
          else second_chance vfs (next_or_head vfs i) }"

definition frame_page :: "capspace \<Rightarrow> int \<Rightarrow> byte list option" where
  \<comment> \<open>the memory behind a capability\<close>
  "frame_page c cap = do { f \<leftarrow> cslot c cap; Some (mem c f) }"

definition set_frame_page :: "capspace \<Rightarrow> int \<Rightarrow> byte list \<Rightarrow> capspace option" where
  "set_frame_page c cap page = do { f \<leftarrow> cslot c cap; Some (c\<lparr>mem := (mem c)(f := page)\<rparr>) }"

definition save_page :: "env \<Rightarrow> os \<Rightarrow> cstr \<Rightarrow> int \<Rightarrow> os option" where
  \<comment> \<open>lines 67 to 69: a window onto the frame, the write, the window closed\<close>
  "save_page e w name frame =
     do { (addr, v, c) \<leftarrow> sel4utils_dup_and_map (env_map e) (os_root w) (os_caps w) frame 12;
          mapping \<leftarrow> addr;
          page \<leftarrow> frame_page c frame;
          s \<leftarrow> write_page_to_file (os_fs w) (env_stack e) name page;
          (v, c) \<leftarrow> sel4utils_unmap_dup v c mapping 12;
          Some (w\<lparr>os_root := v, os_caps := c, os_fs := s\<rparr>) }"

definition load_page :: "env \<Rightarrow> os \<Rightarrow> cstr \<Rightarrow> int \<Rightarrow> os option" where
  \<comment> \<open>lines 86 to 88\<close>
  "load_page e w name frame =
     do { (addr, v, c) \<leftarrow> sel4utils_dup_and_map (env_map e) (os_root w) (os_caps w) frame 12;
          mapping \<leftarrow> addr;
          page \<leftarrow> frame_page c frame;
          page \<leftarrow> read_file_to_page (os_fs w) (env_stack e) name page;
          c \<leftarrow> set_frame_page c frame page;
          (v, c) \<leftarrow> sel4utils_unmap_dup v c mapping 12;
          Some (w\<lparr>os_root := v, os_caps := c\<rparr>) }"

definition link_pagefile :: "env \<Rightarrow> os \<Rightarrow> VFrame \<Rightarrow> (cstr \<times> bool \<times> os) option" where
  \<comment> \<open>lines 56 to 60: the page file of the victim, and whether it must be saved\<close>
  "link_pagefile e w victim =
     (case vf_pagefile victim of
        Some name \<Rightarrow> Some (name, vf_dirty victim \<noteq> 0, w)
      | None \<Rightarrow> do { (name, sw, s) \<leftarrow> get_pagefile (os_fs w) (env_stack e) (os_swap w);
                     Some (name, True, w\<lparr>os_fs := s, os_swap := sw\<rparr>) })"

definition page_out :: "env \<Rightarrow> os \<Rightarrow> process \<Rightarrow> nat \<Rightarrow> (int \<times> process \<times> os) option" where
  \<comment> \<open>lines 55 to 82: save the victim, keep its frame under a new capability, reserve its page again\<close>
  "page_out e w p i =
     do { victim \<leftarrow> get_vf (vframes p) i;
          (name, save, w) \<leftarrow> link_pagefile e w victim;
          r \<leftarrow> vf_reserve victim;
          frame \<leftarrow> sel4utils_get_cap (p_vspace p) (r_start r);
          w \<leftarrow> (if save then save_page e w name frame else Some w);
          (tmp_frame, c) \<leftarrow> vka_cspace_alloc (os_caps w);
          c \<leftarrow> cnode_copy c tmp_frame frame;
          let c = unmap_page c frame;
          (_, v) \<leftarrow> reserve_entries (p_vspace p) (r_start r) 12;
          Some (tmp_frame, p\<lparr>p_vspace := v, vframes := upd_vf i (\<lambda>vf. vf\<lparr>vf_pagefile := Some name, vf_inRAM := 0\<rparr>) (vframes p)\<rparr>,
                w\<lparr>os_caps := c\<rparr>) }"

definition page_in :: "env \<Rightarrow> os \<Rightarrow> process \<Rightarrow> nat \<Rightarrow> int \<Rightarrow> (process \<times> os) option" where
  \<comment> \<open>lines 84 to 94; the error of the mapping is not looked at\<close>
  "page_in e w p i tmp_frame =
     do { vf \<leftarrow> get_vf (vframes p) i;
          w \<leftarrow> (case vf_pagefile vf of None \<Rightarrow> Some w | Some name \<Rightarrow> load_page e w name tmp_frame);
          r \<leftarrow> vf_reserve vf;
          (_, v) \<leftarrow> sel4utils_map_pages_at_vaddr (env_map e) (p_vspace p) [(tmp_frame, 0)] (r_start r) 12 r;
          Some (p\<lparr>p_vspace := v, vframes := upd_vf i (vf_inRAM_update (\<lambda>_. 1)) (vframes p)\<rparr>, w) }"

definition page_replace :: "env \<Rightarrow> os \<Rightarrow> process \<Rightarrow> nat \<Rightarrow> (process \<times> os) option" where
  "page_replace e w p i =
     do { vfs \<leftarrow> update_status (env_status e) (vframes p);
          (vfs, k) \<leftarrow> second_chance vfs (replacer p);
          (tmp_frame, p, w) \<leftarrow> page_out e w (p\<lparr>vframes := vfs, replacer := Some k\<rparr>) k;
          page_in e w p i tmp_frame }"

definition alloc_frame :: "env \<Rightarrow> os \<Rightarrow> process \<Rightarrow> nat \<Rightarrow> (process \<times> os) option" where
  "alloc_frame e w p i =
     (if pframes_used p \<ge> MAX_PFRAME_NUM then page_replace e w p i
      else do { vf \<leftarrow> get_vf (vframes p) i;
                r \<leftarrow> vf_reserve vf;
                (_, v, c) \<leftarrow> sel4utils_new_pages_at_vaddr (env_map e) (p_vspace p) (os_caps w) (r_start r) 1 12 r;
                Some (p\<lparr>pframes_used := pframes_used p + 1, p_vspace := v,
                        vframes := upd_vf i (vf_inRAM_update (\<lambda>_. 1)) (vframes p)\<rparr>, w\<lparr>os_caps := c\<rparr>) })"

definition new_vframe :: "os \<Rightarrow> process \<Rightarrow> int \<Rightarrow> (nat \<times> process \<times> os) option" where
  \<comment> \<open>a page is reserved and a frame put at the head of the list; the same lines stand in
     \<^verbatim>\<open>expand_stack\<close> and in the \<^verbatim>\<open>SYSCALL_BRK\<close> case\<close>
  "new_vframe w p vaddr =
     do { let (i, w) = malloc w;
          (reserve, v) \<leftarrow> sel4utils_reserve_range_at (p_vspace p) i vaddr PAGE_SIZE_4K seL4_AllRights 1;
          let (j, w) = malloc w;
          let vf = \<lparr>vf_ptr = j, vf_reserve = reserve, vf_accessed = 0, vf_dirty = 0, vf_inRAM = 0, vf_pagefile = None\<rparr>;
          Some (j, p\<lparr>p_vspace := v, vframes := vf # vframes p\<rparr>, w) }"

definition expand_stack :: "env \<Rightarrow> os \<Rightarrow> process \<Rightarrow> int \<Rightarrow> (process \<times> os) option" where
  "expand_stack e w p fault_vaddr =
     do { (i, p, w) \<leftarrow> new_vframe w p (PAGE_ALIGN_4K fault_vaddr); alloc_frame e w p i }"

definition set_proc :: "os \<Rightarrow> int \<Rightarrow> process \<Rightarrow> os option" where
  "set_proc w pid p = do { pcb \<leftarrow> pid_getproc w pid; Some (set_pcb w pid (pcb\<lparr>p_proc := p\<rparr>)) }"

definition handle_vmfault :: "env \<Rightarrow> os \<Rightarrow> int \<Rightarrow> (int \<times> int) option \<Rightarrow> bool \<Rightarrow> (bool \<times> os) option" where
  \<comment> \<open>\<open>fault\<close>: address and instruction pointer when the message is a \<^verbatim>\<open>seL4_Fault_VMFault\<close>; the boolean is \<^verbatim>\<open>*resume\<close>\<close>
  "handle_vmfault e w badge fault resume =
     do { pcb \<leftarrow> pid_getproc w badge;
          case fault of None \<Rightarrow> Some (resume, w)
          | Some (fault_vaddr, currip) \<Rightarrow>
              do { vframe \<leftarrow> find_vframe (vframes (p_proc pcb)) fault_vaddr;
                   if fault_vaddr \<ge> heap_top pcb \<and> fault_vaddr \<ge> HEAP_BASE_VADDR \<and> fault_vaddr < STACK_TOP_VADDR then
                     do { (p, w) \<leftarrow> expand_stack e w (p_proc pcb) fault_vaddr; w \<leftarrow> set_proc w badge p; Some (True, w) }
                   else case vframe of
                     None \<Rightarrow> if currip = 0 then do { (_, w) \<leftarrow> syscall_kill w badge 9; Some (False, w) } else Some (False, w)
                   | Some vf \<Rightarrow> do { (p, w) \<leftarrow> alloc_frame e w (p_proc pcb) (vf_ptr vf);
                                    w \<leftarrow> set_proc w badge p; Some (True, w) } } }"

fun handle_vmfault_loop ::
  "os \<Rightarrow> bool \<Rightarrow> (env \<times> int \<times> (int \<times> int) option) list \<Rightarrow> (bool list \<times> os) option" where
  \<comment> \<open>the messages received so far, each with the outside world at that time; the list says
     before which of them the previous sender was resumed by \<^verbatim>\<open>seL4_ReplyRecv\<close>\<close>
  "handle_vmfault_loop w resume [] = Some ([], w)"
| "handle_vmfault_loop w resume ((e, badge, fault) # msgs) =
     do { (resume', w) \<leftarrow> handle_vmfault e w badge fault resume;
          (replies, w) \<leftarrow> handle_vmfault_loop w resume' msgs;
          Some (resume # replies, w) }"

subsection \<open>The second-chance search\<close>

definition chances :: "VFrame \<Rightarrow> nat" where
  \<comment> \<open>how often the search passes a page before it takes it\<close>
  "chances vf = (if vf_accessed vf = 2 then 1 else 0) + (if vf_dirty vf = 2 then 1 else 0)"

definition bits_ok :: "VFrame \<Rightarrow> bool" where
  "bits_ok vf \<longleftrightarrow> vf_accessed vf \<in> {0, 1, 2} \<and> vf_dirty vf \<in> {0, 1, 2}"

definition aged :: "VFrame \<Rightarrow> VFrame \<Rightarrow> bool" where
  \<comment> \<open>the same page with bits lowered, but not cleared\<close>
  "aged f g \<longleftrightarrow> g = f\<lparr>vf_accessed := vf_accessed g, vf_dirty := vf_dirty g\<rparr>
     \<and> (vf_accessed g = 0 \<longleftrightarrow> vf_accessed f = 0) \<and> (vf_dirty g = 0 \<longleftrightarrow> vf_dirty f = 0)"

definition picked :: "VFrame list \<Rightarrow> nat \<Rightarrow> bool" where
  \<comment> \<open>\<open>k\<close> is the first page of the list with the fewest chances among those in memory\<close>
  "picked vfs k \<longleftrightarrow> (\<exists>pre f post. vfs = pre @ f # post \<and> vf_ptr f = k \<and> vf_inRAM f \<noteq> 0
     \<and> (\<forall>g \<in> set pre. vf_inRAM g \<noteq> 0 \<longrightarrow> chances f < chances g) \<and> (\<forall>g \<in> set post. vf_inRAM g \<noteq> 0 \<longrightarrow> chances f \<le> chances g))"

definition lowered :: "VFrame \<Rightarrow> VFrame" where
  "lowered f = (if vf_inRAM f = 0 then f else if vf_dirty f = 2 then f\<lparr>vf_dirty := 1\<rparr> else f\<lparr>vf_accessed := 1\<rparr>)"

definition work :: "VFrame list \<Rightarrow> nat" where
  "work vfs = sum_list (map (\<lambda>f. if vf_inRAM f \<noteq> 0 then chances f else 0) vfs) * length vfs
     + length (takeWhile (\<lambda>f. vf_inRAM f = 0) vfs)"

lemma lowered_simps [simp]: "vf_ptr (lowered f) = vf_ptr f" "vf_inRAM (lowered f) = vf_inRAM f"
  by (simp_all add: lowered_def)

lemma lowered_chances:
  "bits_ok f \<Longrightarrow> vf_inRAM f \<noteq> 0 \<Longrightarrow> 0 < chances f \<Longrightarrow> chances f = Suc (chances (lowered f)) \<and> bits_ok (lowered f)"
  by (auto simp: lowered_def chances_def bits_ok_def)

lemma lowered_aged: "bits_ok f \<Longrightarrow> vf_inRAM f = 0 \<or> 0 < chances f \<Longrightarrow> aged f (lowered f) \<and> bits_ok (lowered f)"
  by (auto simp: lowered_def aged_def chances_def bits_ok_def split: if_splits)

lemma aged_trans: "aged f g \<Longrightarrow> aged g h \<Longrightarrow> aged f h"
  by (cases f; cases g; cases h) (auto simp: aged_def)

lemma aged_refl: "aged f f"
  by (simp add: aged_def)

lemma picked_rotate:
  assumes "picked (R @ [lowered h]) k" "bits_ok h" "vf_inRAM h = 0 \<or> 0 < chances h"
  shows "picked (h # R) k"
proof -
  obtain pre f post where p: "R @ [lowered h] = pre @ f # post" "vf_ptr f = k" "vf_inRAM f \<noteq> 0"
    "\<forall>g \<in> set pre. vf_inRAM g \<noteq> 0 \<longrightarrow> chances f < chances g" "\<forall>g \<in> set post. vf_inRAM g \<noteq> 0 \<longrightarrow> chances f \<le> chances g"
    using assms(1) by (auto simp: picked_def)
  have c: "chances h = Suc (chances (lowered h))" if "vf_inRAM h \<noteq> 0"
    using lowered_chances [OF assms(2) that] assms(3) that by auto
  show ?thesis
  proof (cases post rule: rev_cases)
    case Nil
    then have f: "f = lowered h" "pre = R" using p(1) by auto
    then have "vf_inRAM h \<noteq> 0" using p(3) by simp
    then show ?thesis using p(2,4) f c unfolding picked_def by (intro exI [of _ "[]"] exI [of _ h] exI [of _ R]) auto
  next
    case (snoc post' l)
    then have R: "R = pre @ f # post'" "l = lowered h" using p(1) by auto
    then have "\<forall>g \<in> set (h # pre). vf_inRAM g \<noteq> 0 \<longrightarrow> chances f < chances g" using p(4,5) snoc c by auto
    moreover have "\<forall>g \<in> set post'. vf_inRAM g \<noteq> 0 \<longrightarrow> chances f \<le> chances g" using p(5) snoc by auto
    ultimately show ?thesis using p(2,3) R(1) unfolding picked_def
      by (intro exI [of _ "h # pre"] exI [of _ f] exI [of _ post']) auto
  qed
qed

lemma work_rotate:
  assumes "bits_ok h" "vf_inRAM h = 0 \<and> (\<exists>g \<in> set R. vf_inRAM g \<noteq> 0) \<or> vf_inRAM h \<noteq> 0 \<and> 0 < chances h"
  shows "work (R @ [lowered h]) < work (h # R)"
proof (cases "vf_inRAM h = 0")
  case True
  then obtain g where "g \<in> set R" "vf_inRAM g \<noteq> 0" using assms(2) by auto
  then show ?thesis using True by (simp add: work_def lowered_def takeWhile_append1)
next
  case False
  have c: "chances h = Suc (chances (lowered h))" using lowered_chances [OF assms(1) False] assms(2) False by auto
  have "length (takeWhile (\<lambda>f. vf_inRAM f = 0) (R @ [lowered h])) \<le> length R"
  proof (cases "\<exists>g \<in> set R. vf_inRAM g \<noteq> 0")
    case True
    then obtain g where "g \<in> set R" "vf_inRAM g \<noteq> 0" by blast
    then show ?thesis by (simp add: takeWhile_append1 length_takeWhile_le)
  next
    case nex: False
    then show ?thesis using False by (simp add: takeWhile_append2)
  qed
  then show ?thesis using False c by (simp add: work_def algebra_simps)
qed

lemma get_vf_mid:
  assumes "distinct (map vf_ptr (xs @ f # ys))"
  shows "get_vf (xs @ f # ys) (vf_ptr f) = Some f" "upd_vf (vf_ptr f) u (xs @ f # ys) = xs @ u f # ys"
proof -
  have "vf_ptr f \<notin> vf_ptr ` set xs" "vf_ptr f \<notin> vf_ptr ` set ys" using assms by auto
  then show "get_vf (xs @ f # ys) (vf_ptr f) = Some f" "upd_vf (vf_ptr f) u (xs @ f # ys) = xs @ u f # ys"
    unfolding get_vf_def upd_vf_def by (induction xs) (auto simp: image_iff intro!: map_idI)
qed

lemma next_vf_mid:
  assumes "distinct (map vf_ptr (xs @ f # ys))"
  shows "next_vf (xs @ f # ys) (vf_ptr f) = (case ys of [] \<Rightarrow> None | y # _ \<Rightarrow> Some (vf_ptr y))"
  using assms
proof (induction xs)
  case Nil
  then show ?case by (cases ys) auto
next
  case (Cons x xs)
  then show ?case by (cases xs) (auto split: list.split)
qed

lemma second_chance_correct:
  assumes "distinct (map vf_ptr (xs @ f # ys))" "\<forall>g \<in> set (xs @ f # ys). bits_ok g" "\<exists>g \<in> set (xs @ f # ys). vf_inRAM g \<noteq> 0"
  shows "\<exists>vfs' k. second_chance (xs @ f # ys) (Some (vf_ptr f)) = Some (vfs', k) \<and> picked (f # ys @ xs) k
    \<and> list_all2 aged (xs @ f # ys) vfs'"
  using assms
proof (induction "work (f # ys @ xs)" arbitrary: xs f ys rule: less_induct)
  case less
  have bf: "bits_ok f" using less.prems(2) by simp
  note mid = get_vf_mid [OF less.prems(1)] next_vf_mid [OF less.prems(1)]
  show ?case
  proof (cases "vf_inRAM f \<noteq> 0 \<and> chances f = 0")
    case True
    then have "second_chance (xs @ f # ys) (Some (vf_ptr f)) = Some (xs @ f # ys, vf_ptr f)"
      using bf by (subst second_chance.simps) (auto simp: mid chances_def bits_ok_def split: if_splits)
    moreover have "picked (f # ys @ xs) (vf_ptr f)"
      using True unfolding picked_def by (intro exI [of _ "[]"] exI [of _ f] exI [of _ "ys @ xs"]) simp
    ultimately show ?thesis by (auto intro: list.rel_refl aged_refl)
  next
    case False
    let ?f = "lowered f"
    have go: "vf_inRAM f = 0 \<or> 0 < chances f" using False by auto
    have low: "aged f ?f" "bits_ok ?f" using lowered_aged [OF bf go] by auto
    have ram: "vf_inRAM f = 0 \<and> (\<exists>g \<in> set (ys @ xs). vf_inRAM g \<noteq> 0) \<or> vf_inRAM f \<noteq> 0 \<and> 0 < chances f"
      using less.prems(3) go by auto
    obtain xs' f' ys' where new: "xs @ ?f # ys = xs' @ f' # ys'" "f' # ys' @ xs' = ys @ xs @ [?f]"
    proof (cases ys)
      case (Cons y zs)
      then show ?thesis using that [of "xs @ [?f]" y zs] by simp
    next
      case Nil
      then show ?thesis using that [of "[]" "hd (xs @ [?f])" "tl (xs @ [?f])"] by (cases xs) simp_all
    qed
    have nxt: "next_or_head (xs @ f # ys) (vf_ptr f) = Some (vf_ptr f')"
    proof -
      have "f' = hd (ys @ xs @ [?f])" using new(2) by (metis list.sel(1))
      then show ?thesis unfolding next_or_head_def mid(3) by (cases ys; cases xs) simp_all
    qed
    have step: "second_chance (xs @ f # ys) (Some (vf_ptr f)) = second_chance (xs' @ f' # ys') (Some (vf_ptr f'))"
    proof -
      have "second_chance (xs @ f # ys) (Some (vf_ptr f)) = second_chance (xs @ ?f # ys) (Some (vf_ptr f'))"
        using bf go by (subst second_chance.simps)
          (auto simp: mid(1,2) nxt Let_def lowered_def chances_def bits_ok_def split: if_splits)
      then show ?thesis unfolding new(1) .
    qed
    have "map vf_ptr (xs' @ f' # ys') = map vf_ptr (xs @ f # ys)" unfolding new(1) [symmetric] by simp
    then have d: "distinct (map vf_ptr (xs' @ f' # ys'))" using less.prems(1) by simp
    have b: "\<forall>g \<in> set (xs' @ f' # ys'). bits_ok g" unfolding new(1) [symmetric] using less.prems(2) low(2) by auto
    have r: "\<exists>g \<in> set (xs' @ f' # ys'). vf_inRAM g \<noteq> 0" unfolding new(1) [symmetric] using less.prems(3) by auto
    have "work (f' # ys' @ xs') < work (f # ys @ xs)" using work_rotate [OF bf ram] unfolding new(2) by simp
    then obtain vfs' k where ih: "second_chance (xs' @ f' # ys') (Some (vf_ptr f')) = Some (vfs', k)" "picked (f' # ys' @ xs') k"
      "list_all2 aged (xs' @ f' # ys') vfs'" using less.hyps d b r by blast
    have "picked (f # ys @ xs) k" using picked_rotate [OF _ bf go, of "ys @ xs" k] ih(2) unfolding new(2) by simp
    moreover have "list_all2 aged (xs @ f # ys) (xs @ ?f # ys)"
      using low(1) by (auto intro!: list_all2_appendI list.rel_refl aged_refl)
    then have "list_all2 aged (xs @ f # ys) vfs'" using ih(3) unfolding new(1) [symmetric]
      by (rule list_all2_trans [rotated]) (erule (1) aged_trans)
    ultimately show ?thesis using step ih(1) by auto
  qed
qed

definition from_ptr :: "nat \<Rightarrow> VFrame list \<Rightarrow> VFrame list" where
  \<comment> \<open>the circular list as the search sees it from the page \<open>i\<close> on\<close>
  "from_ptr i vfs = dropWhile (\<lambda>f. vf_ptr f \<noteq> i) vfs @ takeWhile (\<lambda>f. vf_ptr f \<noteq> i) vfs"

definition sampled :: "(int \<Rightarrow> int \<times> int) \<Rightarrow> VFrame \<Rightarrow> VFrame \<Rightarrow> bool" where
  \<comment> \<open>the bits of a page in memory are those of the hardware, times two\<close>
  "sampled hw f g \<longleftrightarrow> (if vf_inRAM f \<noteq> 0
     then \<exists>r. vf_reserve f = Some r \<and> g = f\<lparr>vf_accessed := fst (hw (r_start r)) * 2, vf_dirty := snd (hw (r_start r)) * 2\<rparr>
     else g = f)"

lemma update_status_sampled:
  "\<forall>f \<in> set vfs. vf_inRAM f \<noteq> 0 \<longrightarrow> vf_reserve f \<noteq> None \<Longrightarrow>
   \<exists>vfs'. update_status hw vfs = Some vfs' \<and> list_all2 (sampled hw) vfs vfs'"
proof (induction vfs)
  case Nil
  then show ?case by simp
next
  case (Cons f vfs)
  then obtain vfs' where v: "update_status hw vfs = Some vfs'" "list_all2 (sampled hw) vfs vfs'" by auto
  show ?case
  proof (cases "vf_inRAM f = 0")
    case True
    then have "sampled hw f f" by (simp add: sampled_def)
    then show ?thesis using True v by simp
  next
    case False
    then obtain r where r: "vf_reserve f = Some r" using Cons.prems by auto
    then have "sampled hw f (f\<lparr>vf_accessed := fst (hw (r_start r)) * 2, vf_dirty := snd (hw (r_start r)) * 2\<rparr>)"
      using False by (simp add: sampled_def)
    then show ?thesis using False r v by simp
  qed
qed

lemma sampled_same: "list_all2 (sampled hw) vfs vfs' \<Longrightarrow> map vf_ptr vfs' = map vf_ptr vfs \<and> map vf_inRAM vfs' = map vf_inRAM vfs"
  by (induction rule: list_all2_induct) (auto simp: sampled_def split: if_splits)

lemma from_ptr_split:
  assumes "distinct (map vf_ptr (xs @ f # ys))"
  shows "from_ptr (vf_ptr f) (xs @ f # ys) = f # ys @ xs"
proof -
  have "vf_ptr f \<notin> vf_ptr ` set xs" using assms by simp
  then have "\<forall>x \<in> set xs. vf_ptr x \<noteq> vf_ptr f" by (metis imageI)
  then show ?thesis by (simp add: from_ptr_def dropWhile_append2 takeWhile_append2)
qed

text \<open>
  C39. Choosing the victim. When the process has a page in memory and its \<^verbatim>\<open>replacer\<close> points into
  its list of pages, the loop of \<^verbatim>\<open>page_replace\<close> ends: after the accessed and dirty bits of the pages in
  memory were read from the hardware, it takes the first page, in circular order from the
  replacer, that has the fewest of the two bits set, and it only lowers bits, so that a modified
  page is still known to be modified.
\<close>

theorem victim_selection:
  assumes "distinct (map vf_ptr vfs)" "i \<in> vf_ptr ` set vfs" "\<exists>f \<in> set vfs. vf_inRAM f \<noteq> 0"
    "\<forall>f \<in> set vfs. if vf_inRAM f \<noteq> 0 then vf_reserve f \<noteq> None else bits_ok f"
    "\<forall>a. fst (hw a) \<in> {0, 1} \<and> snd (hw a) \<in> {0, 1}"
  shows "\<exists>vfs1 vfs2 k. update_status hw vfs = Some vfs1 \<and> list_all2 (sampled hw) vfs vfs1
    \<and> second_chance vfs1 (Some i) = Some (vfs2, k) \<and> picked (from_ptr i vfs1) k \<and> list_all2 aged vfs1 vfs2"
proof -
  obtain vfs1 where v: "update_status hw vfs = Some vfs1" "list_all2 (sampled hw) vfs vfs1"
    using update_status_sampled [of vfs hw] assms(4) by (auto split: if_splits)
  have same: "map vf_ptr vfs1 = map vf_ptr vfs" "map vf_inRAM vfs1 = map vf_inRAM vfs" using sampled_same [OF v(2)] by auto
  have "i \<in> set (map vf_ptr vfs1)" using assms(2) same by simp
  then obtain f where f: "f \<in> set vfs1" "vf_ptr f = i" by auto
  obtain xs ys where s: "vfs1 = xs @ f # ys" using f(1) by (metis split_list)
  have d: "distinct (map vf_ptr (xs @ f # ys))" using assms(1) same s by metis
  have r: "\<exists>g \<in> set (xs @ f # ys). vf_inRAM g \<noteq> 0"
  proof -
    obtain h where h: "h \<in> set vfs" "vf_inRAM h \<noteq> 0" using assms(3) by blast
    then have "vf_inRAM h \<in> set (map vf_inRAM vfs1)" unfolding same(2) by simp
    then obtain g where "g \<in> set vfs1" "vf_inRAM g = vf_inRAM h" by auto
    then show ?thesis using h(2) s by metis
  qed
  have "bits_ok g" if g: "g \<in> set vfs1" for g
  proof -
    obtain n where n: "n < length vfs1" "g = vfs1 ! n" using g by (metis in_set_conv_nth)
    then have sm: "sampled hw (vfs ! n) g" "vfs ! n \<in> set vfs" using v(2) by (auto simp: list_all2_conv_all_nth)
    show ?thesis
    proof (cases "vf_inRAM (vfs ! n) \<noteq> 0")
      case True
      then obtain a where "vf_accessed g = fst (hw a) * 2" "vf_dirty g = snd (hw a) * 2" using sm(1) by (auto simp: sampled_def)
      moreover have "fst (hw a) \<in> {0, 1}" "snd (hw a) \<in> {0, 1}" using assms(5) by auto
      ultimately show ?thesis by (auto simp: bits_ok_def)
    next
      case False
      then show ?thesis using sm assms(4) by (auto simp: sampled_def)
    qed
  qed
  then have b: "\<forall>g \<in> set (xs @ f # ys). bits_ok g" using s by simp
  obtain vfs2 k where k: "second_chance (xs @ f # ys) (Some (vf_ptr f)) = Some (vfs2, k)" "picked (f # ys @ xs) k"
    "list_all2 aged (xs @ f # ys) vfs2" using second_chance_correct [OF d b r] by blast
  then show ?thesis using v s f(2) from_ptr_split [OF d] by auto
qed

definition sample_vf :: "nat \<Rightarrow> int \<Rightarrow> VFrame" where
  "sample_vf i ram = \<lparr>vf_ptr = i, vf_reserve = Some \<lparr>r_id = i, r_start = 4096 * int i, r_end = 4096 * int i + 4096, r_rights = 15,
     r_cacheable = 1, r_malloced = 1, r_deferred = False\<rparr>, vf_accessed = 0, vf_dirty = 0, vf_inRAM = ram, vf_pagefile = None\<rparr>"

theorem victim_selection_witness:
  "\<exists>vfs1 vfs2 k. update_status (\<lambda>a. if a = 4096 then (1, 0) else (1, 1)) [sample_vf 2 1, sample_vf 1 1, sample_vf 3 0] = Some vfs1
    \<and> list_all2 (sampled (\<lambda>a. if a = 4096 then (1, 0) else (1, 1))) [sample_vf 2 1, sample_vf 1 1, sample_vf 3 0] vfs1
    \<and> second_chance vfs1 (Some 3) = Some (vfs2, k) \<and> picked (from_ptr 3 vfs1) k \<and> list_all2 aged vfs1 vfs2"
  by (rule victim_selection) (simp_all add: sample_vf_def bits_ok_def)

subsection \<open>Faults on the stack\<close>

lemma get_upd_vf:
  assumes "\<And>vf. vf_ptr (u vf) = vf_ptr vf"
  shows "get_vf (upd_vf j u vfs) i = map_option (\<lambda>vf. if i = j then u vf else vf) (get_vf vfs i)"
  unfolding get_vf_def upd_vf_def by (induction vfs) (auto simp: assms)

definition reserve_of :: "VFrame list \<Rightarrow> nat \<Rightarrow> res option option" where
  "reserve_of vfs i = map_option vf_reserve (get_vf vfs i)"

lemma reserve_of_upd:
  "(\<And>vf. vf_ptr (u vf) = vf_ptr vf) \<Longrightarrow> (\<And>vf. vf_reserve (u vf) = vf_reserve vf) \<Longrightarrow> reserve_of (upd_vf j u vfs) i = reserve_of vfs i"
  by (cases "get_vf vfs i") (simp_all add: reserve_of_def get_upd_vf)

lemma second_chance_reserve:
  assumes "second_chance vfs rep = Some r"
  shows "reserve_of (fst r) i = reserve_of vfs i"
proof (rule second_chance.raw_induct [of "\<lambda>vfs rep r. reserve_of (fst r) i = reserve_of vfs i", OF _ assms], goal_cases)
  case (1 sc vfs rep y)
  have low: "reserve_of (upd_vf k (vf_dirty_update (\<lambda>_. 1)) vfs) i = reserve_of vfs i"
    "reserve_of (upd_vf k (vf_accessed_update (\<lambda>_. 1)) vfs) i = reserve_of vfs i" for k
    by (simp_all add: reserve_of_upd)
  from 1(2) obtain j vf where j: "get_vf vfs j = Some vf"
    "(if vf_inRAM vf \<noteq> 0 then
        if vf_accessed vf < 2 \<and> vf_dirty vf < 2 then Some (vfs, j)
        else if vf_dirty vf = 2 then sc (upd_vf j (vf_dirty_update (\<lambda>_. 1)) vfs) (next_or_head vfs j)
        else sc (upd_vf j (vf_accessed_update (\<lambda>_. 1)) vfs) (next_or_head vfs j)
      else sc vfs (next_or_head vfs j)) = Some y"
    by (auto simp: bind_eq_Some_conv)
  show ?case using j(2) 1(1) low by (auto split: if_splits)
qed

lemma update_status_reserve: "update_status hw vfs = Some vfs' \<Longrightarrow> reserve_of vfs' i = reserve_of vfs i"
  by (induction vfs arbitrary: vfs')
    (auto simp: reserve_of_def get_vf_def bind_eq_Some_conv split: if_splits)

lemma page_out_reserve: "page_out e w p i = Some (t, p', w') \<Longrightarrow> reserve_of (vframes p') j = reserve_of (vframes p) j"
  by (auto simp: page_out_def Let_def bind_eq_Some_conv reserve_of_upd split: prod.splits)

lemma page_in_unreserved: "reserve_of (vframes p) j = Some None \<Longrightarrow> page_in e w p j t = None"
  by (auto simp: page_in_def reserve_of_def bind_eq_None_conv split: option.splits)

lemma alloc_frame_unreserved:
  assumes "reserve_of (vframes p) j = Some None"
  shows "alloc_frame e w p j = None"
proof (cases "pframes_used p \<ge> MAX_PFRAME_NUM")
  case False
  then show ?thesis using assms by (auto simp: alloc_frame_def reserve_of_def)
next
  case True
  have "page_replace e w p j = None"
  proof (rule ccontr)
    assume "page_replace e w p j \<noteq> None"
    then obtain vfs1 vfs2 k t p' w' where r: "update_status (env_status e) (vframes p) = Some vfs1"
      "second_chance vfs1 (replacer p) = Some (vfs2, k)"
      "page_out e w (p\<lparr>vframes := vfs2, replacer := Some k\<rparr>) k = Some (t, p', w')" "page_in e w' p' j t \<noteq> None"
      by (auto simp: page_replace_def bind_eq_Some_conv)
    have "reserve_of (vframes p') j = Some None"
      using page_out_reserve [OF r(3), of j] second_chance_reserve [OF r(2), of j] update_status_reserve [OF r(1), of j] assms by simp
    then show False using page_in_unreserved r(4) by simp
  qed
  then show ?thesis using True by (simp add: alloc_frame_def)
qed

lemma page_align: "0 \<le> a \<Longrightarrow> PAGE_ALIGN_4K a = 4096 * int (nat (a div 4096))"
  by (simp add: PAGE_ALIGN_4K_def minus_mod_eq_mult_div)

text \<open>
  C40. A fault on a stack page that was swapped out is fatal for the whole system. Every fault
  between the top of the heap and the top of the stack is taken as a request for a new stack
  page, before it is asked whether the process already has that page: when the page is
  reserved, as a swapped-out page is, the reservation fails, and the null pointer is
  dereferenced.
\<close>

theorem swapped_stack_page_crashes:
  assumes "pid_getproc w badge = Some pcb" "tables_ok (p_vspace (p_proc pcb))" "os_heap w \<noteq> 0"
    "heap_top pcb \<le> addr" "HEAP_BASE_VADDR \<le> addr" "addr < STACK_TOP_VADDR"
    "fst (entry (p_vspace (p_proc pcb)) (nat (addr div 4096))) \<noteq> EMPTY"
  shows "handle_vmfault e w badge (Some (addr, ip)) resume = None"
proof -
  let ?v = "p_vspace (p_proc pcb)" and ?k = "nat (addr div 4096)"
  have a: "0 \<le> addr" using assms(5) by (simp add: HEAP_BASE_VADDR_def)
  have k: "Suc ?k \<le> 1047552" using assms(6) a by (simp add: STACK_TOP_VADDR_def)
  have "is_available_range ?v (4096 * int ?k) (4096 * int (Suc ?k)) = Some False"
    using available_spec(1) [OF assms(2), of ?k "Suc ?k"] k assms(7) by (auto simp: less_Suc_eq_le)
  then have "sel4utils_reserve_range_at ?v (os_heap w) (PAGE_ALIGN_4K addr) PAGE_SIZE_4K seL4_AllRights 1 = Some (None, ?v)"
    using assms(3) page_step [of ?k] k unfolding page_align [OF a] by (simp add: sel4utils_reserve_range_at_def PAGE_SIZE_4K_def)
  then obtain j p' w' where n: "new_vframe w (p_proc pcb) (PAGE_ALIGN_4K addr) = Some (j, p', w')" "reserve_of (vframes p') j = Some None"
    by (auto simp: new_vframe_def malloc_def reserve_of_def get_vf_def)
  have "expand_stack e w (p_proc pcb) addr = None"
    using alloc_frame_unreserved [OF n(2)] by (simp add: expand_stack_def n(1))
  then show ?thesis using assms(1,4-6) by (cases "find_vframe (vframes (p_proc pcb)) addr") (simp_all add: handle_vmfault_def)
qed

definition sample_os :: "PCB \<Rightarrow> os" where
  "sample_os pcb = \<lparr>proc_table = pcb # replicate 15 zero_pcb, os_fs = blank_fs, os_swap = \<lparr>pagefiles = [], pagefile_num = 0\<rparr>,
     os_caps = sample_caps, os_root = empty_vspace 9, os_heap = 100\<rparr>"

definition sample_env :: env where
  "sample_env = \<lparr>env_map = \<lambda>_ _. 0, env_status = \<lambda>_. (0, 0), env_time = 0,
     env_stack = \<lparr>st_block = replicate 1024 0, st_inode = dec_inode (replicate 128 0), st_words = \<lambda>_. ([], [], [])\<rparr>,
     env_elf = [], env_load = \<lambda>_ v c. Some (v, c), env_levels = 9\<rparr>"

definition swapped_pcb :: PCB where
  \<comment> \<open>the slot of the top of the stack is reserved\<close>
  "swapped_pcb = zero_pcb\<lparr>p_inuse := 1, heap_top := HEAP_BASE_VADDR, p_proc := zero_process\<lparr>p_vspace :=
     (empty_vspace 4)\<lparr>top_level := (replicate 1024 NoTable)[767 := AllReserved]\<rparr>, pframes_used := 256\<rparr>\<rparr>"

theorem swapped_stack_page_crashes_witness:
  "handle_vmfault sample_env (sample_os swapped_pcb) 0 (Some (0xbffff010, 0)) False = None"
proof (rule swapped_stack_page_crashes [where pcb = swapped_pcb])
  show "tables_ok (p_vspace (p_proc swapped_pcb))"
    by (auto simp: swapped_pcb_def tables_ok_def dest!: set_update_subset_insert [THEN subsetD])
qed (simp_all add: pid_getproc_def sample_os_def MAX_PROCESS_NUM_def arr_def swapped_pcb_def zero_pcb_def HEAP_BASE_VADDR_def
      STACK_TOP_VADDR_def entry_def zero_process_def empty_vspace_def)

end
