(* ===== verification/Paging.thy ===== *)
theory Paging
  imports Vmfault
begin

text \<open>
  Demand paging as a process sees it: a page that \<^verbatim>\<open>SYSCALL_BRK\<close> reserved has no frame until it is touched; the fault
  handler (\<^verbatim>\<open>os/src/vm/vmfault_handler.c\<close>) then gives it one.
\<close>

lemma alloc_frame_fresh:
  assumes "get_vf (vframes p) i = Some vf" "vf_reserve vf = Some r" "r_start r = 4096 * int k" "r_end r = 4096 * int (Suc k)"
    "k < 1047552" "tables_ok (p_vspace p)" "1 \<le> levels (p_vspace p)" "fst (entry (p_vspace p) k) = RESERVED" "pframes_used p < MAX_PFRAME_NUM"
    "free_slots (os_caps w) = s # ss" "free_frames (os_caps w) = f # fs" "env_map e s (4096 * int k) = 0"
  shows "\<exists>v. alloc_frame e w p i = Some (p\<lparr>pframes_used := pframes_used p + 1, p_vspace := v, vframes := upd_vf i (vf_inRAM_update (\<lambda>_. 1)) (vframes p)\<rparr>,
      w\<lparr>os_caps := (os_caps w)\<lparr>free_slots := ss, free_frames := fs, cslot := (cslot (os_caps w))(s := Some f), mem := (mem (os_caps w))(f := replicate 4096 0)\<rparr>\<rparr>)
    \<and> set_pages (p_vspace p) k (Suc k) (s, frame_ut f) v"
proof -
  obtain v where "sel4utils_new_pages_at_vaddr (env_map e) (p_vspace p) (os_caps w) (4096 * int k) 1 12 r = Some (0, v,
      (os_caps w)\<lparr>free_slots := ss, free_frames := fs, cslot := (cslot (os_caps w))(s := Some f), mem := (mem (os_caps w))(f := replicate 4096 0)\<rparr>)"
    "set_pages (p_vspace p) k (Suc k) (s, frame_ut f) v"
    using new_page_spec [OF assms(6,5,7,8,3,4,10,11), of "env_map e"] assms(12) by blast
  then show ?thesis using assms(1-3,9) by (auto simp: alloc_frame_def)
qed

lemma getproc_set_pcb:
  assumes "pid_getproc w pid = Some pcb"
  shows "pid_getproc (set_pcb w pid pcb') pid = Some pcb'" "pid' \<noteq> pid \<Longrightarrow> pid_getproc (set_pcb w pid pcb') pid' = pid_getproc w pid'"
  using assms by (auto simp: pid_getproc_def set_pcb_def arr_def nth_list_update split: if_splits)

text \<open>C21. Touching a heap page gives the process a page of zeros. When a process faults on an address below its heap top, in a page that is reserved for
  it and has no frame, and the process has fewer than 256 frames, \<^verbatim>\<open>handle_vmfault\<close> maps a frame that was free at exactly that page, filled with zeros,
  counts it, marks the virtual frame as resident and resumes the process; no other page of the process and no other process changes.\<close>

theorem heap_fault_maps_zeroed_page:
  assumes "pid_getproc w badge = Some pcb" "a < heap_top pcb" "4096 * int k \<le> a" "a < 4096 * int (Suc k)" "k < 1047552"
    "find_vframe (vframes (p_proc pcb)) a = Some (Some vf)" "get_vf (vframes (p_proc pcb)) (vf_ptr vf) = Some vf"
    "vf_reserve vf = Some r" "r_start r = 4096 * int k" "r_end r = 4096 * int (Suc k)"
    "tables_ok (p_vspace (p_proc pcb))" "1 \<le> levels (p_vspace (p_proc pcb))" "fst (entry (p_vspace (p_proc pcb)) k) = RESERVED"
    "pframes_used (p_proc pcb) < MAX_PFRAME_NUM"
    "free_slots (os_caps w) = s # ss" "free_frames (os_caps w) = f # fs" "env_map e s (4096 * int k) = 0"
  shows "\<exists>w' p. handle_vmfault e w badge (Some (a, ip)) resume = Some (True, w')
    \<and> pid_getproc w' badge = Some (pcb\<lparr>p_proc := p\<rparr>) \<and> (\<forall>pid. pid \<noteq> badge \<longrightarrow> pid_getproc w' pid = pid_getproc w pid)
    \<and> (\<forall>j < 1048576. entry (p_vspace p) j = (if j = k then (s, frame_ut f) else entry (p_vspace (p_proc pcb)) j))
    \<and> frame_page (os_caps w') s = Some (replicate 4096 0) \<and> (\<forall>g. g \<noteq> f \<longrightarrow> mem (os_caps w') g = mem (os_caps w) g)
    \<and> pframes_used p = pframes_used (p_proc pcb) + 1 \<and> get_vf (vframes p) (vf_ptr vf) = Some (vf\<lparr>vf_inRAM := 1\<rparr>)"
proof -
  let ?p = "p_proc pcb"
  obtain v where v: "alloc_frame e w ?p (vf_ptr vf) = Some (?p\<lparr>pframes_used := pframes_used ?p + 1, p_vspace := v,
      vframes := upd_vf (vf_ptr vf) (vf_inRAM_update (\<lambda>_. 1)) (vframes ?p)\<rparr>,
      w\<lparr>os_caps := (os_caps w)\<lparr>free_slots := ss, free_frames := fs, cslot := (cslot (os_caps w))(s := Some f), mem := (mem (os_caps w))(f := replicate 4096 0)\<rparr>\<rparr>)"
    (is "_ = Some (?q, ?w)") and pages: "set_pages (p_vspace ?p) k (Suc k) (s, frame_ut f) v"
    using alloc_frame_fresh [OF assms(7,8,9,10,5,11-17)] by blast
  have g: "pid_getproc ?w pid = pid_getproc w pid" for pid by (simp add: pid_getproc_def)
  let ?w' = "set_pcb ?w badge (pcb\<lparr>p_proc := ?q\<rparr>)"
  have "handle_vmfault e w badge (Some (a, ip)) resume = Some (True, ?w')"
    using assms(1,2,6) v g [of badge] by (simp add: handle_vmfault_def set_proc_def)
  moreover have "pid_getproc ?w' badge = Some (pcb\<lparr>p_proc := ?q\<rparr>)" "pid \<noteq> badge \<Longrightarrow> pid_getproc ?w' pid = pid_getproc w pid" for pid
    using getproc_set_pcb [of ?w badge pcb] g assms(1) by simp_all
  moreover have "entry (p_vspace ?q) j = (if j = k then (s, frame_ut f) else entry (p_vspace ?p) j)" if "j < 1048576" for j
    using pages that by (auto simp: set_pages_def)
  moreover have "frame_page (os_caps ?w') s = Some (replicate 4096 0)" "g \<noteq> f \<Longrightarrow> mem (os_caps ?w') g = mem (os_caps w) g" for g
    by (simp_all add: frame_page_def set_pcb_def)
  moreover have "get_vf (vframes ?q) (vf_ptr vf) = Some (vf\<lparr>vf_inRAM := 1\<rparr>)"
    using get_upd_vf assms(7) by simp
  ultimately show ?thesis by (intro exI [of _ ?w'] exI [of _ ?q]) simp
qed

definition heap_vframe :: VFrame where
  "heap_vframe = \<lparr>vf_ptr = 7, vf_reserve = Some \<lparr>r_id = 6, r_start = 4096 * 65536, r_end = 4096 * 65537, r_rights = 15, r_cacheable = 1, r_malloced = 1,
     r_deferred = False\<rparr>, vf_accessed = 0, vf_dirty = 0, vf_inRAM = 0, vf_pagefile = None\<rparr>"

definition heap_pcb :: PCB where
  \<comment> \<open>a process with one page of heap\<close>
  "heap_pcb = zero_pcb\<lparr>p_inuse := 1, heap_top := HEAP_BASE_VADDR + 4096, p_proc := zero_process\<lparr>p_vspace :=
     (empty_vspace 4)\<lparr>top_level := (replicate 1024 NoTable)[64 := AllReserved]\<rparr>, vframes := [heap_vframe]\<rparr>\<rparr>"

theorem heap_fault_maps_zeroed_page_witness:
  "\<exists>w' p. handle_vmfault sample_env (sample_os heap_pcb) 0 (Some (4096 * 65536 + 16, 0)) False = Some (True, w')
    \<and> pid_getproc w' 0 = Some (heap_pcb\<lparr>p_proc := p\<rparr>) \<and> (\<forall>pid. pid \<noteq> 0 \<longrightarrow> pid_getproc w' pid = pid_getproc (sample_os heap_pcb) pid)
    \<and> (\<forall>j < 1048576. entry (p_vspace p) j = (if j = 65536 then (hd (free_slots sample_caps), frame_ut (hd (free_frames sample_caps)))
          else entry (p_vspace (p_proc heap_pcb)) j))
    \<and> frame_page (os_caps w') (hd (free_slots sample_caps)) = Some (replicate 4096 0)
    \<and> (\<forall>g. g \<noteq> hd (free_frames sample_caps) \<longrightarrow> mem (os_caps w') g = mem (os_caps (sample_os heap_pcb)) g)
    \<and> pframes_used p = pframes_used (p_proc heap_pcb) + 1 \<and> get_vf (vframes p) (vf_ptr heap_vframe) = Some (heap_vframe\<lparr>vf_inRAM := 1\<rparr>)"
proof (rule heap_fault_maps_zeroed_page [where k = 65536 and r = "the (vf_reserve heap_vframe)" and ss = "tl (free_slots sample_caps)" and fs = "tl (free_frames sample_caps)"])
  show "tables_ok (p_vspace (p_proc heap_pcb))"
    by (auto simp: heap_pcb_def tables_ok_def dest!: set_update_subset_insert [THEN subsetD])
qed (simp_all add: pid_getproc_def sample_os_def MAX_PROCESS_NUM_def arr_def heap_pcb_def zero_pcb_def HEAP_BASE_VADDR_def get_vf_def
      heap_vframe_def entry_def zero_process_def empty_vspace_def sample_env_def sample_caps_def MAX_PFRAME_NUM_def)

end
