(* ===== verification/Syscalls.thy ===== *)
theory Syscalls
  imports Vmfault Keyboard
begin

text \<open>
  The system calls: the dispatcher \<^verbatim>\<open>os/src/syscall_handler.c\<close> with its loop (\<^verbatim>\<open>os/src/root.c\<close>), and the
  handlers the workers run for it (\<^verbatim>\<open>os/src/filesystem/fs.c\<close>, \<^verbatim>\<open>os/src/console/stdio_handler.c\<close>,
  \<^verbatim>\<open>os/src/timer/timer.c\<close>).

  A message is the list of its registers; a reply is the list as it is after the assignments
  \<^verbatim>\<open>seL4_SetMR\<close>, so a case that assigns nothing answers with the registers of the request. Slow calls
  become a \<open>request\<close> that carries what the code stores in \<^verbatim>\<open>FileData\<close>, \<^verbatim>\<open>StdioData\<close> or \<^verbatim>\<open>TimeData\<close>, the
  slot of the saved reply capability first. The caller's memory is reached through a window
  onto one page; an access beyond the end of that page has no defined result.
\<close>

subsection \<open>The caller's memory\<close>

definition open_window :: "env \<Rightarrow> os \<Rightarrow> int \<Rightarrow> int \<Rightarrow> (int \<times> os) option" where
  "open_window e w pid vaddr =
     do { pcb \<leftarrow> pid_getproc w pid;
          (a, v, c) \<leftarrow> setup_projection_space (env_map e) (p_vspace (p_proc pcb)) (os_root w) (os_caps w) vaddr;
          Some (a, w\<lparr>os_root := v, os_caps := c\<rparr>) }"

definition close_window :: "os \<Rightarrow> int \<Rightarrow> os option" where
  "close_window w a =
     do { (v, c) \<leftarrow> destroy_projection_space (os_root w) (os_caps w) a; Some (w\<lparr>os_root := v, os_caps := c\<rparr>) }"

definition window_bytes :: "os \<Rightarrow> int \<Rightarrow> byte list option" where
  \<comment> \<open>from \<open>a\<close> to the end of its page\<close>
  "window_bytes w a =
     do { cap \<leftarrow> sel4utils_get_cap (os_root w) (PAGE_ALIGN_4K a);
          page \<leftarrow> frame_page (os_caps w) cap;
          Some (drop (nat (a mod 4096)) page) }"

definition window_store :: "os \<Rightarrow> int \<Rightarrow> byte list \<Rightarrow> os option" where
  "window_store w a bs =
     do { cap \<leftarrow> sel4utils_get_cap (os_root w) (PAGE_ALIGN_4K a);
          page \<leftarrow> frame_page (os_caps w) cap;
          c \<leftarrow> set_frame_page (os_caps w) cap (take (nat (a mod 4096)) page @ bs);
          Some (w\<lparr>os_caps := c\<rparr>) }"

definition read_cstr :: "byte list \<Rightarrow> cstr option" where
  "read_cstr bs = (if 0 \<in> set bs then Some (until_nul bs) else None)"

definition write_cstr :: "byte list \<Rightarrow> cstr \<Rightarrow> byte list option" where
  \<comment> \<open>\<^verbatim>\<open>strcpy\<close>\<close>
  "write_cstr bs s = (if length s < length bs then Some (s @ [0] @ drop (length s + 1) bs) else None)"

definition get_fcb :: "PCB \<Rightarrow> int \<Rightarrow> FCB" where
  \<comment> \<open>\<^verbatim>\<open>file_table + fd\<close>, which is only read when \<open>fd\<close> is in range\<close>
  "get_fcb pcb fd = (if 0 \<le> fd \<and> fd < int (length (file_table pcb)) then file_table pcb ! nat fd else zero_fcb)"

definition put_fcb :: "os \<Rightarrow> int \<Rightarrow> int \<Rightarrow> FCB \<Rightarrow> os option" where
  "put_fcb w pid fd fcb =
     do { pcb \<leftarrow> pid_getproc w pid;
          Some (if 0 \<le> fd \<and> fd < int (length (file_table pcb))
                then set_pcb w pid (pcb\<lparr>file_table := (file_table pcb)[nat fd := fcb]\<rparr>) else w) }"

definition free_reply :: "os \<Rightarrow> int \<Rightarrow> os" where
  "free_reply w reply = w\<lparr>os_caps := vka_cspace_free (os_caps w) reply\<rparr>"

subsection \<open>The handlers run by the workers\<close>

definition filesystem_init :: "env \<Rightarrow> os \<Rightarrow> os option" where
  \<comment> \<open>\<^verbatim>\<open>readGroupHeader\<close> and \<^verbatim>\<open>pagefile_init\<close>; the return code is not looked at\<close>
  "filesystem_init e w =
     do { (_, s) \<leftarrow> readGroupHeader (os_fs w); sw \<leftarrow> pagefile_init s (env_stack e); Some (w\<lparr>os_fs := s, os_swap := sw\<rparr>) }"

definition readfile_handler :: "env \<Rightarrow> os \<Rightarrow> int \<Rightarrow> int \<Rightarrow> int \<Rightarrow> int \<Rightarrow> int \<Rightarrow> (int list \<times> os) option" where
  "readfile_handler e w reply pid fd vaddr max_len =
     do { (a, w) \<leftarrow> open_window e w pid vaddr;
          ok (\<not> cross_page a (u32 (a + max_len)));
          pcb \<leftarrow> pid_getproc w pid;
          dst \<leftarrow> window_bytes w a;
          (ret, fcb, dst) \<leftarrow> syscall_readfile (os_fs w) (env_stack e) (get_fcb pcb fd) fd dst max_len;
          w \<leftarrow> window_store w a dst;
          w \<leftarrow> put_fcb w pid fd fcb;
          w \<leftarrow> close_window w a;
          Some ([u32 ret, a], free_reply w reply) }"

definition writefile_handler :: "env \<Rightarrow> os \<Rightarrow> int \<Rightarrow> int \<Rightarrow> int \<Rightarrow> int \<Rightarrow> int \<Rightarrow> (int list \<times> os) option" where
  "writefile_handler e w reply pid fd vaddr len =
     do { (a, w) \<leftarrow> open_window e w pid vaddr;
          ok (\<not> cross_page a (u32 (a + len)));
          pcb \<leftarrow> pid_getproc w pid;
          src \<leftarrow> window_bytes w a;
          (ret, fcb, s) \<leftarrow> syscall_writefile (os_fs w) (env_stack e) (get_fcb pcb fd) fd src len;
          w \<leftarrow> put_fcb (w\<lparr>os_fs := s\<rparr>) pid fd fcb;
          w \<leftarrow> close_window w a;
          Some ([u32 ret], free_reply w reply) }"

definition openfile_handler :: "env \<Rightarrow> os \<Rightarrow> int \<Rightarrow> int \<Rightarrow> int \<Rightarrow> int \<Rightarrow> (int list \<times> os) option" where
  "openfile_handler e w reply pid vaddr mode =
     do { (a, w) \<leftarrow> open_window e w pid vaddr;
          bs \<leftarrow> window_bytes w a;
          path \<leftarrow> read_cstr bs;
          (inodeOffset, s) \<leftarrow> syscall_open (os_fs w) (env_stack e) path mode;
          let w = w\<lparr>os_fs := s\<rparr>;
          (ret, w) \<leftarrow> (if inodeOffset = -1 then Some (-1, w)
                       else do { pcb \<leftarrow> pid_getproc w pid;
                                 let (fd, table) = open_fd (file_table pcb) inodeOffset mode;
                                 Some (fd, set_pcb w pid (pcb\<lparr>file_table := table\<rparr>)) });
          w \<leftarrow> close_window w a;
          Some ([u32 ret], free_reply w reply) }"

definition unlink_handler :: "env \<Rightarrow> os \<Rightarrow> int \<Rightarrow> int \<Rightarrow> int \<Rightarrow> (int list \<times> os) option" where
  "unlink_handler e w reply pid vaddr =
     do { (a, w) \<leftarrow> open_window e w pid vaddr;
          bs \<leftarrow> window_bytes w a;
          path \<leftarrow> read_cstr bs;
          (ret, s) \<leftarrow> syscall_unlink (os_fs w) (env_stack e) path;
          w \<leftarrow> close_window (w\<lparr>os_fs := s\<rparr>) a;
          Some ([u32 ret], free_reply w reply) }"

definition lseek_handler :: "env \<Rightarrow> os \<Rightarrow> int \<Rightarrow> int \<Rightarrow> int \<Rightarrow> int \<Rightarrow> int \<Rightarrow> (int list \<times> os) option" where
  "lseek_handler e w reply pid fd offset whence =
     do { pcb \<leftarrow> pid_getproc w pid;
          (ret, fcb) \<leftarrow> syscall_lseek (os_fs w) (get_fcb pcb fd) fd offset whence;
          w \<leftarrow> put_fcb w pid fd fcb;
          Some ([u32 ret], free_reply w reply) }"

definition writestdout :: "env \<Rightarrow> os \<Rightarrow> console \<Rightarrow> int \<Rightarrow> int \<Rightarrow> int \<Rightarrow> int \<Rightarrow> (int list \<times> os \<times> console) option" where
  "writestdout e w con reply pid vaddr len =
     do { (a, w) \<leftarrow> open_window e w pid vaddr;
          ok (\<not> cross_page a (u32 (a + len)));
          src \<leftarrow> window_bytes w a;
          (ret, con) \<leftarrow> writestdout_handler con src len;
          w \<leftarrow> close_window w a;
          Some ([u32 ret], free_reply w reply, con) }"

definition readstdin_finish :: "env \<Rightarrow> os \<Rightarrow> console \<Rightarrow> int \<Rightarrow> int \<Rightarrow> int \<Rightarrow> int \<Rightarrow> (int list \<times> os \<times> console) option" where
  \<comment> \<open>\<^verbatim>\<open>readstdin_handler\<close> from the wait on; \<open>readstdin_begin\<close> comes before. The second register of
     the reply is not assigned.\<close>
  "readstdin_finish e w con reply pid vaddr max_len =
     do { (a, w) \<leftarrow> open_window e w pid vaddr;
          ok (\<not> cross_page a (u32 (a + max_len)));
          dst \<leftarrow> window_bytes w a;
          (ret, dst, con) \<leftarrow> readstdin_end con dst max_len;
          w \<leftarrow> window_store w a dst;
          w \<leftarrow> close_window w a;
          Some ([u32 ret], free_reply w reply, con) }"

definition sleep_ticks :: "int \<Rightarrow> int" where
  \<comment> \<open>how often \<^verbatim>\<open>timer_sleep\<close> waits for the timer, for a time in microseconds\<close>
  "sleep_ticks microsec = microsec div 1000 div 3"

subsection \<open>The dispatcher\<close>

datatype request =
    ReadStdin int int int int \<comment> \<open>reply, pid, buffer, length\<close>
  | ReadFile int int int int int \<comment> \<open>reply, pid, descriptor, buffer, length\<close>
  | WriteStdout int int int int
  | WriteFile int int int int int
  | Sleep int int \<comment> \<open>reply, time\<close>
  | OpenFile int int int int \<comment> \<open>reply, pid, path, flags\<close>
  | Unlink int int int \<comment> \<open>reply, pid, path\<close>
  | Lseek int int int int int \<comment> \<open>reply, pid, descriptor, offset, whence\<close>

definition save_caller :: "os \<Rightarrow> (int \<times> os) option" where
  "save_caller w = do { (reply, c) \<leftarrow> vka_cspace_alloc (os_caps w); Some (reply, w\<lparr>os_caps := c\<rparr>) }"

definition dispatched :: "int list \<Rightarrow> request \<Rightarrow> os \<Rightarrow> (int list \<times> bool \<times> request option \<times> os) option" where
  "dispatched mrs req w = Some (mrs, False, Some req, w)"

definition replied :: "int list \<Rightarrow> os \<Rightarrow> (int list \<times> bool \<times> request option \<times> os) option" where
  "replied mrs w = Some (mrs, True, None, w)"

partial_function (option) brk_loop :: "os \<Rightarrow> process \<Rightarrow> int \<Rightarrow> int \<Rightarrow> (process \<times> int \<times> os) option" where
  "brk_loop w p top_of_heap new_brk =
     (if top_of_heap < new_brk then
        do { (_, p, w) \<leftarrow> new_vframe w p top_of_heap;
             brk_loop w p (u32 (top_of_heap + PAGE_SIZE_4K)) new_brk }
      else Some (p, top_of_heap, w))"

definition do_brk :: "os \<Rightarrow> int \<Rightarrow> PCB \<Rightarrow> int \<Rightarrow> (int \<times> os) option" where
  "do_brk w badge pcb new_brk =
     (if new_brk = 0 then Some (HEAP_BASE_VADDR, set_pcb w badge (pcb\<lparr>heap_top := HEAP_BASE_VADDR\<rparr>))
      else if heap_top pcb \<le> new_brk then
        do { (p, t, w) \<leftarrow> brk_loop w (p_proc pcb) (heap_top pcb) new_brk;
             Some (t, set_pcb w badge (pcb\<lparr>p_proc := p, heap_top := t\<rparr>)) }
      else None)"

definition do_close :: "os \<Rightarrow> int \<Rightarrow> PCB \<Rightarrow> int list \<Rightarrow> int \<Rightarrow> int list \<times> os" where
  \<comment> \<open>register 0 is only assigned when the descriptor is out of range\<close>
  "do_close w badge pcb mrs fd =
     (if fd \<ge> MAX_FILE_NUM \<or> fd < 0 then (mrs[0 := u32 (-1)], w)
      else (mrs, set_pcb w badge (pcb\<lparr>file_table := (file_table pcb)[nat fd := (file_table pcb ! nat fd)\<lparr>f_inuse := 0\<rparr>]\<rparr>)))"

definition do_execve :: "env \<Rightarrow> os \<Rightarrow> int \<Rightarrow> int \<Rightarrow> (int \<times> os) option" where
  \<comment> \<open>the argument strings only reach the new thread\<close>
  "do_execve e w badge path =
     do { (a, w) \<leftarrow> open_window e w badge path;
          bs \<leftarrow> window_bytes w a;
          name \<leftarrow> read_cstr bs;
          (pid, w) \<leftarrow> syscall_execve e w badge name;
          w \<leftarrow> close_window w a;
          Some (pid, w) }"

definition do_getcwd :: "env \<Rightarrow> os \<Rightarrow> int \<Rightarrow> PCB \<Rightarrow> int \<Rightarrow> os option" where
  \<comment> \<open>the length the caller passes is not used\<close>
  "do_getcwd e w badge pcb path =
     do { (a, w) \<leftarrow> open_window e w badge path;
          bs \<leftarrow> window_bytes w a;
          bs \<leftarrow> write_cstr bs (p_cwd pcb);
          w \<leftarrow> window_store w a bs;
          close_window w a }"

definition do_chdir :: "env \<Rightarrow> os \<Rightarrow> int \<Rightarrow> PCB \<Rightarrow> int \<Rightarrow> os option" where
  \<comment> \<open>\<^verbatim>\<open>strcpy\<close> into the 32 bytes of \<^verbatim>\<open>cwd\<close>, whatever the string is\<close>
  "do_chdir e w badge pcb path =
     do { (a, w) \<leftarrow> open_window e w badge path;
          bs \<leftarrow> window_bytes w a;
          s \<leftarrow> read_cstr bs;
          ok (length s < MAX_CWD_LEN);
          close_window (set_pcb w badge (pcb\<lparr>p_cwd := s\<rparr>)) a }"

definition do_ls :: "env \<Rightarrow> os \<Rightarrow> int \<Rightarrow> int \<Rightarrow> int \<Rightarrow> os option" where
  "do_ls e w badge path buf =
     do { (a, w) \<leftarrow> open_window e w badge path;
          (b, w) \<leftarrow> open_window e w badge buf;
          bs \<leftarrow> window_bytes w a;
          name \<leftarrow> read_cstr bs;
          dst \<leftarrow> window_bytes w b;
          old \<leftarrow> read_cstr dst;
          out \<leftarrow> ls (os_fs w) (env_stack e) name old;
          dst \<leftarrow> write_cstr dst out;
          w \<leftarrow> window_store w b dst;
          w \<leftarrow> close_window w a;
          close_window w b }"

definition do_ps :: "env \<Rightarrow> os \<Rightarrow> int \<Rightarrow> int \<Rightarrow> os option" where
  "do_ps e w badge buf =
     do { (b, w) \<leftarrow> open_window e w badge buf;
          dst \<leftarrow> window_bytes w b;
          old \<leftarrow> read_cstr dst;
          out \<leftarrow> syscall_ps w old;
          dst \<leftarrow> write_cstr dst out;
          w \<leftarrow> window_store w b dst;
          close_window w b }"

definition handle_syscall :: "env \<Rightarrow> os \<Rightarrow> int \<Rightarrow> int list \<Rightarrow> (int list \<times> bool \<times> request option \<times> os) option" where
  \<comment> \<open>registers of the reply, \<^verbatim>\<open>*have_reply\<close>, the request handed to \<^verbatim>\<open>sysworker_dispatch_thread\<close>\<close>
  "handle_syscall e w badge mrs =
     do { pcb \<leftarrow> pid_getproc w badge;
          nr \<leftarrow> arr mrs 0;
          m1 \<leftarrow> arr mrs 1;
          m2 \<leftarrow> arr mrs 2;
          m3 \<leftarrow> arr mrs 3;
          if nr = 0 then do { (reply, w) \<leftarrow> save_caller w;
            if i32 m1 = 0 then dispatched mrs (ReadStdin reply badge m3 (i32 m2)) w
            else dispatched mrs (ReadFile reply badge (i32 m1) m3 (i32 m2)) w }
          else if nr = 1 then do { (reply, w) \<leftarrow> save_caller w;
            if i32 m1 = 1 \<or> i32 m1 = 2 then dispatched mrs (WriteStdout reply badge m3 (i32 m2)) w
            else dispatched mrs (WriteFile reply badge (i32 m1) m3 (i32 m2)) w }
          else if nr = 2 then do { (reply, w) \<leftarrow> save_caller w; dispatched mrs (Sleep reply m1) w }
          else if nr = 3 then replied (mrs[0 := u32 (env_time e)]) w
          else if nr = 4 then do { (ret, w) \<leftarrow> do_brk w badge pcb m1; replied (mrs[0 := ret]) w }
          else if nr = 5 then do { (reply, w) \<leftarrow> save_caller w; dispatched mrs (OpenFile reply badge m1 (i32 m2)) w }
          else if nr = 6 then (let (mrs, w) = do_close w badge pcb mrs (i32 m1) in replied mrs w)
          else if nr = 7 then do { (reply, w) \<leftarrow> save_caller w; dispatched mrs (Unlink reply badge m1) w }
          else if nr = 8 then do { (reply, w) \<leftarrow> save_caller w;
            dispatched mrs (Lseek reply badge (i32 m1) (i32 m2) (i32 m3)) w }
          else if nr = 9 then do { (ret, w) \<leftarrow> do_execve e w badge m1; replied (mrs[0 := u32 ret]) w }
          else if nr = 13 then do { w \<leftarrow> do_getcwd e w badge pcb m1; replied mrs w }
          else if nr = 16 then do { w \<leftarrow> do_chdir e w badge pcb m1; replied mrs w }
          else if nr = 14 then do { w \<leftarrow> do_ls e w badge m1 m2; replied mrs w }
          else if nr = 15 then do { w \<leftarrow> do_ps e w badge m1; replied mrs w }
          else if nr = 10 then do { (ret, w) \<leftarrow> syscall_kill w (i32 m1) (i32 m2); replied (mrs[0 := u32 ret]) w }
          else if nr = 11 then replied (mrs[0 := badge]) w
          else if nr = 12 then do { (_, w) \<leftarrow> syscall_kill w badge 9; replied mrs w }
          else None }"

fun handle_syscall_loop ::
  "os \<Rightarrow> bool \<Rightarrow> (env \<times> int \<times> int list) list \<Rightarrow> (bool list \<times> request list \<times> os) option" where
  \<comment> \<open>over the messages received: before which of them the previous sender got its reply by
     \<^verbatim>\<open>seL4_ReplyRecv\<close>, and the requests for the workers, in order\<close>
  "handle_syscall_loop w have_reply [] = Some ([], [], w)"
| "handle_syscall_loop w have_reply ((e, badge, mrs) # msgs) =
     do { (_, have_reply', req, w) \<leftarrow> handle_syscall e w badge mrs;
          (replies, reqs, w) \<leftarrow> handle_syscall_loop w have_reply' msgs;
          Some (have_reply # replies, (case req of None \<Rightarrow> [] | Some r \<Rightarrow> [r]) @ reqs, w) }"

definition serve :: "env \<Rightarrow> os \<Rightarrow> console \<Rightarrow> request \<Rightarrow> (int list \<times> os \<times> console) option" where
  \<comment> \<open>what a worker does with a request; a read from the keyboard is served from the wait on\<close>
  "serve e w con req =
     (case req of
        ReadStdin reply pid vaddr len \<Rightarrow> readstdin_finish e w con reply pid vaddr len
      | WriteStdout reply pid vaddr len \<Rightarrow> writestdout e w con reply pid vaddr len
      | ReadFile reply pid fd vaddr len \<Rightarrow> do { (mrs, w) \<leftarrow> readfile_handler e w reply pid fd vaddr len; Some (mrs, w, con) }
      | WriteFile reply pid fd vaddr len \<Rightarrow> do { (mrs, w) \<leftarrow> writefile_handler e w reply pid fd vaddr len; Some (mrs, w, con) }
      | Sleep reply time \<Rightarrow> Some ([], free_reply w reply, con)
      | OpenFile reply pid path flags \<Rightarrow> do { (mrs, w) \<leftarrow> openfile_handler e w reply pid path flags; Some (mrs, w, con) }
      | Unlink reply pid path \<Rightarrow> do { (mrs, w) \<leftarrow> unlink_handler e w reply pid path; Some (mrs, w, con) }
      | Lseek reply pid fd offset whence \<Rightarrow> do { (mrs, w) \<leftarrow> lseek_handler e w reply pid fd offset whence; Some (mrs, w, con) })"

end
