(* ===== verification/Shape.thy ===== *)
theory Shape
  imports Syscalls
begin

text \<open>
  What every operation keeps of the process table: its 16 entries, each with 32 descriptors and with strings
  that fit the arrays \<^verbatim>\<open>cwd\<close> and \<^verbatim>\<open>cmd\<close> of \<^verbatim>\<open>os/include/pcb.h\<close>. The operations of the system are collected into one
  step relation over the state they share: a message is handled by \<^verbatim>\<open>handle_syscall\<close>, a worker serves a request,
  a fault is handled by \<^verbatim>\<open>handle_vmfault\<close>, a key is pressed.
\<close>

subsection \<open>The shape of a process table\<close>

definition pcb_shape :: "PCB \<Rightarrow> bool" where
  "pcb_shape pcb \<longleftrightarrow> length (file_table pcb) = 32 \<and> length (p_cwd pcb) < MAX_CWD_LEN \<and> length (p_cmd pcb) < MAX_CWD_LEN"

definition os_shape :: "os \<Rightarrow> bool" where
  "os_shape w \<longleftrightarrow> length (proc_table w) = MAX_PROCESS_NUM \<and> (\<forall>pcb \<in> set (proc_table w). pcb_shape pcb)"

named_theorems keeps \<open>operations that leave the process table alone\<close>
named_theorems shapes \<open>operations that keep the shape of the process table\<close>

lemma bind_Some: "(m \<bind> f) = Some r \<longleftrightarrow> (\<exists>x. m = Some x \<and> f x = Some r)"
  by (cases m) auto

lemma shape_set_pcb: "os_shape w \<Longrightarrow> pcb_shape pcb \<Longrightarrow> os_shape (set_pcb w pid pcb)"
  by (auto simp: os_shape_def set_pcb_def dest!: set_update_subset_insert [THEN subsetD])

lemma shape_same: "proc_table w' = proc_table w \<Longrightarrow> os_shape w \<longrightarrow> os_shape w'"
  by (simp add: os_shape_def)

lemma shape_getproc: "os_shape w \<Longrightarrow> pid_getproc w pid = Some pcb \<Longrightarrow> pcb_shape pcb"
  by (auto simp: os_shape_def pid_getproc_def bind_Some split: if_splits)

subsection \<open>Operations that leave it alone\<close>

lemma open_window_keeps [keeps]: "open_window e w pid vaddr = Some (a, w') \<Longrightarrow> proc_table w' = proc_table w"
  by (auto simp: open_window_def bind_Some split: prod.splits)

lemma close_window_keeps [keeps]: "close_window w a = Some w' \<Longrightarrow> proc_table w' = proc_table w"
  by (auto simp: close_window_def bind_Some split: prod.splits)

lemma window_store_keeps [keeps]: "window_store w a bs = Some w' \<Longrightarrow> proc_table w' = proc_table w"
  by (auto simp: window_store_def bind_Some)

lemma malloc_keeps [keeps]: "malloc w = (i, w') \<Longrightarrow> proc_table w' = proc_table w"
  by (auto simp: malloc_def)

lemma new_vframe_keeps [keeps]: "new_vframe w p vaddr = Some (i, p', w') \<Longrightarrow> proc_table w' = proc_table w"
  by (auto simp: new_vframe_def malloc_def bind_Some Let_def split: prod.splits)

lemma save_page_keeps [keeps]: "save_page e w name frame = Some w' \<Longrightarrow> proc_table w' = proc_table w"
  by (auto simp: save_page_def bind_Some split: prod.splits)

lemma load_page_keeps [keeps]: "load_page e w name frame = Some w' \<Longrightarrow> proc_table w' = proc_table w"
  by (auto simp: load_page_def bind_Some split: prod.splits)

lemma link_pagefile_keeps [keeps]: "link_pagefile e w victim = Some (name, b, w') \<Longrightarrow> proc_table w' = proc_table w"
  by (auto simp: link_pagefile_def bind_Some split: option.splits prod.splits)

lemma page_out_keeps [keeps]: "page_out e w p i = Some (f, p', w') \<Longrightarrow> proc_table w' = proc_table w"
  by (auto simp: page_out_def bind_Some Let_def split: prod.splits if_splits dest!: keeps)

lemma page_in_keeps [keeps]: "page_in e w p i f = Some (p', w') \<Longrightarrow> proc_table w' = proc_table w"
  by (auto simp: page_in_def bind_Some split: option.splits prod.splits dest!: keeps)

lemma page_replace_keeps [keeps]: "page_replace e w p i = Some (p', w') \<Longrightarrow> proc_table w' = proc_table w"
  by (auto simp: page_replace_def bind_Some split: prod.splits dest!: keeps)

lemma alloc_frame_keeps [keeps]: "alloc_frame e w p i = Some (p', w') \<Longrightarrow> proc_table w' = proc_table w"
  by (auto simp: alloc_frame_def bind_Some split: if_splits prod.splits dest!: keeps)

lemma expand_stack_keeps [keeps]: "expand_stack e w p a = Some (p', w') \<Longrightarrow> proc_table w' = proc_table w"
  by (auto simp: expand_stack_def bind_Some split: prod.splits dest!: keeps)

lemma sized_stack_loop_keeps [keeps]: "sized_stack_loop e w p cur n = Some (p', w') \<Longrightarrow> proc_table w' = proc_table w"
proof (induction n arbitrary: w p cur)
  case (Suc n)
  then show ?case by (force simp: bind_Some malloc_def Let_def split: prod.splits if_splits)
qed simp

lemma configure_process_keeps [keeps]: "configure_process e w img = Some (p, w') \<Longrightarrow> proc_table w' = proc_table w"
  by (auto simp: configure_process_def vspace_new_sized_stack_def bind_Some malloc_def Let_def split: prod.splits if_splits dest!: keeps)

lemma save_caller_keeps [keeps]: "save_caller w = Some (r, w') \<Longrightarrow> proc_table w' = proc_table w"
  by (auto simp: save_caller_def bind_Some split: prod.splits)

lemma free_reply_keeps [simp]: "proc_table (free_reply w r) = proc_table w"
  by (simp add: free_reply_def)

lemma brk_loop_result: "brk_loop w p t b = Some r \<Longrightarrow> proc_table (snd (snd r)) = proc_table w"
  by (erule brk_loop.raw_induct [rotated]) (auto simp: bind_Some split: if_splits prod.splits dest!: new_vframe_keeps)

lemma brk_loop_keeps [keeps]: "brk_loop w p t b = Some (p', t', w') \<Longrightarrow> proc_table w' = proc_table w"
  by (drule brk_loop_result) simp

lemma shape_updates [simp]:
  "os_shape (w\<lparr>os_fs := s\<rparr>) = os_shape w" "os_shape (w\<lparr>os_caps := c\<rparr>) = os_shape w" "os_shape (w\<lparr>os_swap := sw\<rparr>) = os_shape w"
  "os_shape (free_reply w r) = os_shape w"
  by (simp_all add: os_shape_def)

lemmas keep_shape = keeps [THEN shape_same]

subsection \<open>Operations on it\<close>

lemma put_fcb_shape [shapes]: "put_fcb w pid fd fcb = Some w' \<Longrightarrow> os_shape w \<longrightarrow> os_shape w'"
  by (auto simp: put_fcb_def bind_Some pcb_shape_def split: if_splits intro!: shape_set_pcb dest: shape_getproc)

lemma set_proc_shape [shapes]: "set_proc w pid p = Some w' \<Longrightarrow> os_shape w \<longrightarrow> os_shape w'"
  by (auto simp: set_proc_def bind_Some pcb_shape_def intro!: shape_set_pcb dest: shape_getproc)

lemma first_unused_bound: "first_unused pcbs i = Some j \<Longrightarrow> i \<le> j \<and> j < i + length pcbs"
  by (induction pcbs arbitrary: i) (fastforce split: if_splits)+

lemma alloc_pid_shape [shapes]: "alloc_pid w = Some (pid, w') \<Longrightarrow> os_shape w \<longrightarrow> os_shape w'"
  by (auto simp: alloc_pid_def bind_Some os_shape_def pcb_shape_def set_pcb_def dest!: first_unused_bound set_update_subset_insert [THEN subsetD])

lemma start_process_shape [shapes]: "start_process e w pid p dir path = Some w' \<Longrightarrow> os_shape w \<longrightarrow> os_shape w'"
  by (auto simp: start_process_def bind_Some pcb_shape_def std_files_def split: if_splits intro!: shape_set_pcb dest: shape_getproc)

lemma execve_shape [shapes]: "syscall_execve e w parent path = Some (pid, w') \<Longrightarrow> os_shape w \<longrightarrow> os_shape w'"
  by (auto simp: syscall_execve_def bind_Some split: prod.splits dest!: shapes keep_shape)

lemma load_shell_shape [shapes]: "load_shell e w img = Some w' \<Longrightarrow> os_shape w \<longrightarrow> os_shape w'"
  by (auto simp: load_shell_def bind_Some split: prod.splits dest!: shapes keep_shape)

lemma kill_shape [shapes]: "syscall_kill w pid sig = Some (r, w') \<Longrightarrow> os_shape w \<longrightarrow> os_shape w'"
  by (auto simp: syscall_kill_def bind_Some split: if_splits intro!: shape_set_pcb dest: shape_same)
   (auto simp: pcb_shape_def zero_pcb_def MAX_CWD_LEN_def)

lemma open_fd_table: "length (snd (open_fd table off mode)) = length table"
  by (simp add: open_fd_def split: list.split)

subsection \<open>The workers\<close>

lemma readfile_shape [shapes]: "readfile_handler e w reply pid fd vaddr len = Some (mrs, w') \<Longrightarrow> os_shape w \<longrightarrow> os_shape w'"
  by (auto simp: readfile_handler_def bind_Some split: prod.splits if_splits dest!: shapes keep_shape)

lemma writefile_shape [shapes]: "writefile_handler e w reply pid fd vaddr len = Some (mrs, w') \<Longrightarrow> os_shape w \<longrightarrow> os_shape w'"
  by (auto simp: writefile_handler_def bind_Some split: prod.splits if_splits dest!: shapes keep_shape)

lemma unlink_shape [shapes]: "unlink_handler e w reply pid vaddr = Some (mrs, w') \<Longrightarrow> os_shape w \<longrightarrow> os_shape w'"
  by (auto simp: unlink_handler_def bind_Some split: prod.splits if_splits dest!: shapes keep_shape)

lemma lseek_shape [shapes]: "lseek_handler e w reply pid fd off wh = Some (mrs, w') \<Longrightarrow> os_shape w \<longrightarrow> os_shape w'"
  by (auto simp: lseek_handler_def bind_Some split: prod.splits if_splits dest!: shapes keep_shape)

lemma writestdout_shape [shapes]: "writestdout e w con reply pid vaddr len = Some (mrs, w', con') \<Longrightarrow> os_shape w \<longrightarrow> os_shape w'"
  by (auto simp: writestdout_def bind_Some split: prod.splits if_splits dest!: shapes keep_shape)

lemma readstdin_shape [shapes]: "readstdin_finish e w con reply pid vaddr len = Some (mrs, w', con') \<Longrightarrow> os_shape w \<longrightarrow> os_shape w'"
  by (auto simp: readstdin_finish_def bind_Some split: prod.splits if_splits dest!: shapes keep_shape)

lemma openfile_shape [shapes]: "openfile_handler e w reply pid vaddr mode = Some (mrs, w') \<Longrightarrow> os_shape w \<longrightarrow> os_shape w'"
proof (rule impI)
  assume h: "openfile_handler e w reply pid vaddr mode = Some (mrs, w')" and w: "os_shape w"
  obtain a w1 s off ret w2 w3 where w1: "open_window e w pid vaddr = Some (a, w1)" "close_window w2 a = Some w3" "w' = free_reply w3 reply"
    "(if off = -1 then Some (-1, w1\<lparr>os_fs := s\<rparr>) else do { pcb \<leftarrow> pid_getproc (w1\<lparr>os_fs := s\<rparr>) pid;
        let (fd, table) = open_fd (file_table pcb) off mode; Some (fd, set_pcb (w1\<lparr>os_fs := s\<rparr>) pid (pcb\<lparr>file_table := table\<rparr>)) }) = Some (ret, w2)"
    using h unfolding openfile_handler_def by (auto simp: bind_Some Let_def split: prod.splits)
  have s1: "os_shape w1" using w w1(1) keep_shape by blast
  have "os_shape w2"
  proof (cases "off = -1")
    case False
    then obtain pcb where p: "pid_getproc (w1\<lparr>os_fs := s\<rparr>) pid = Some pcb"
      "(let (fd, table) = open_fd (file_table pcb) off mode in Some (fd, set_pcb (w1\<lparr>os_fs := s\<rparr>) pid (pcb\<lparr>file_table := table\<rparr>))) = Some (ret, w2)"
      using w1(4) by (auto simp: bind_Some)
    then obtain fd table where "open_fd (file_table pcb) off mode = (fd, table)"
      "w2 = set_pcb (w1\<lparr>os_fs := s\<rparr>) pid (pcb\<lparr>file_table := table\<rparr>)" by (cases "open_fd (file_table pcb) off mode") auto
    with p(1) show ?thesis using s1 open_fd_table [of "file_table pcb" off mode] shape_getproc [of "w1\<lparr>os_fs := s\<rparr>" pid pcb]
      by (auto simp: pcb_shape_def intro!: shape_set_pcb)
  qed (use w1(4) s1 in auto)
  then show "os_shape w'" using w1(2,3) keep_shape by auto
qed

lemma serve_shape [shapes]: "serve e w con req = Some (mrs, w', con') \<Longrightarrow> os_shape w \<longrightarrow> os_shape w'"
  by (cases req) (auto simp: serve_def bind_Some split: prod.splits dest!: shapes)

subsection \<open>The dispatcher\<close>

lemma do_brk_shape [shapes]: "do_brk w badge pcb b = Some (r, w') \<Longrightarrow> pid_getproc w badge = Some pcb \<Longrightarrow> os_shape w \<longrightarrow> os_shape w'"
  by (auto simp: do_brk_def bind_Some pcb_shape_def split: if_splits prod.splits intro!: shape_set_pcb dest: shape_getproc dest!: keep_shape)

lemma do_close_shape [shapes]: "do_close w badge pcb mrs fd = (mrs', w') \<Longrightarrow> pid_getproc w badge = Some pcb \<Longrightarrow> os_shape w \<longrightarrow> os_shape w'"
  by (auto simp: do_close_def pcb_shape_def split: if_splits intro!: shape_set_pcb dest: shape_getproc)

lemma do_execve_shape [shapes]: "do_execve e w badge path = Some (pid, w') \<Longrightarrow> os_shape w \<longrightarrow> os_shape w'"
  by (auto simp: do_execve_def bind_Some split: prod.splits dest!: shapes keep_shape)

lemma do_getcwd_shape [shapes]: "do_getcwd e w badge pcb path = Some w' \<Longrightarrow> os_shape w \<longrightarrow> os_shape w'"
  by (auto simp: do_getcwd_def bind_Some split: prod.splits dest!: shapes keep_shape)

lemma do_chdir_shape [shapes]: "do_chdir e w badge pcb path = Some w' \<Longrightarrow> pid_getproc w badge = Some pcb \<Longrightarrow> os_shape w \<longrightarrow> os_shape w'"
proof (rule impI)
  assume h: "do_chdir e w badge pcb path = Some w'" "pid_getproc w badge = Some pcb" and w: "os_shape w"
  obtain a w1 s where w1: "open_window e w badge path = Some (a, w1)" "length s < MAX_CWD_LEN"
    "close_window (set_pcb w1 badge (pcb\<lparr>p_cwd := s\<rparr>)) a = Some w'"
    using h(1) by (auto simp: do_chdir_def bind_Some split: prod.splits if_splits)
  have "pcb_shape (pcb\<lparr>p_cwd := s\<rparr>)" using shape_getproc [OF w h(2)] w1(2) by (simp add: pcb_shape_def)
  then show "os_shape w'" using w keep_shape(1) [OF w1(1)] keep_shape(2) [OF w1(3)] shape_set_pcb by blast
qed

lemma do_ls_shape [shapes]: "do_ls e w badge path buf = Some w' \<Longrightarrow> os_shape w \<longrightarrow> os_shape w'"
  by (auto simp: do_ls_def bind_Some split: prod.splits dest!: shapes keep_shape)

lemma do_ps_shape [shapes]: "do_ps e w badge buf = Some w' \<Longrightarrow> os_shape w \<longrightarrow> os_shape w'"
  by (auto simp: do_ps_def bind_Some split: prod.splits dest!: shapes keep_shape)

lemma handle_syscall_shape [shapes]: "handle_syscall e w badge mrs = Some (mrs', rep, req, w') \<Longrightarrow> os_shape w \<longrightarrow> os_shape w'"
  unfolding handle_syscall_def dispatched_def replied_def
  by (auto simp: bind_Some Let_def split: if_splits prod.splits dest!: shapes keep_shape)

lemma handle_vmfault_shape [shapes]: "handle_vmfault e w badge fault resume = Some (resume', w') \<Longrightarrow> os_shape w \<longrightarrow> os_shape w'"
proof (cases fault)
  case None
  then show "handle_vmfault e w badge fault resume = Some (resume', w') \<Longrightarrow> ?thesis" by (auto simp: handle_vmfault_def bind_Some)
next
  case (Some ai)
  then show "handle_vmfault e w badge fault resume = Some (resume', w') \<Longrightarrow> ?thesis"
    by (cases ai) (auto simp: handle_vmfault_def bind_Some split: option.splits if_splits dest!: shapes keep_shape)
qed

subsection \<open>The console\<close>

declare drain_loop.simps [simp del] writestdout_loop.simps [simp del]

lemma drain_loop_ok: "drain_loop k dst m r = Some (n, dst', k') \<Longrightarrow> ring_ok k \<and> mods_ok k \<Longrightarrow> ring_ok k' \<and> mods_ok k'"
proof (induction k dst m r rule: drain_loop.induct)
  case (1 k dst m r)
  show ?case
  proof (cases "buffer_head k \<noteq> buffer_tail k \<and> r < m")
    case True
    let ?k = "k\<lparr>buffer_head := cmod (buffer_head k + 1) MAX_KEYBUFFER_SIZE\<rparr>"
    have "ring_ok ?k \<and> mods_ok ?k"
      using 1(3) step64 [of "buffer_head k"] by (auto simp: ring_ok_def mods_ok_def MAX_KEYBUFFER_SIZE_def cmod_nonneg)
    then show ?thesis using 1(1,2) True by (subst (asm) drain_loop.simps) (auto simp: bind_Some)
  next
    case False
    then show ?thesis using 1(2,3) by (subst (asm) drain_loop.simps) auto
  qed
qed

lemma writestdout_loop_ok: "writestdout_loop c src m i = Some c' \<Longrightarrow> console_ok c \<Longrightarrow> console_ok c'"
proof (induction c src m i rule: writestdout_loop.induct)
  case (1 c src m i)
  show ?case
  proof (cases "i < m")
    case True
    then obtain ch v where v: "arr src i = Some ch" "vga_putchar (scr c) ch True = Some v"
      "writestdout_loop (c\<lparr>serial := serial c @ [ch], scr := v\<rparr>) src m (i + 1) = Some c'"
      using 1(2) by (subst (asm) writestdout_loop.simps) (auto simp: bind_Some)
    have "vga_ok v" using putchar_refines [of "scr c" ch True] 1(3) v(2) by (auto simp: console_ok_def)
    then show ?thesis using 1(1) [OF True v] 1(3) by (simp add: console_ok_def)
  next
    case False
    then show ?thesis using 1(2,3) by (subst (asm) writestdout_loop.simps) simp
  qed
qed

lemma readstdin_end_ok: "readstdin_end c dst m = Some (n, dst', c') \<Longrightarrow> console_ok c \<Longrightarrow> console_ok c'"
  by (auto simp: readstdin_end_def console_ok_def bind_Some mods_ok_def split: prod.splits if_splits dest!: drain_loop_ok)

lemma writestdout_handler_ok: "writestdout_handler c src m = Some (n, c') \<Longrightarrow> console_ok c \<Longrightarrow> console_ok c'"
  by (auto simp: writestdout_handler_def bind_Some dest!: writestdout_loop_ok) (simp add: console_ok_def)

lemma serve_console: "serve e w con req = Some (mrs, w', con') \<Longrightarrow> console_ok con \<Longrightarrow> console_ok con'"
  by (cases req)
    (auto simp: serve_def readstdin_finish_def writestdout_def bind_Some split: prod.splits if_splits
      intro: readstdin_end_ok writestdout_handler_ok)

lemma readstdin_begin_ok: "console_ok c \<Longrightarrow> console_ok (readstdin_begin c)"
  using ring.flush_law [of "kb c"] by (simp add: console_ok_def readstdin_begin_def flush_buffer_def mods_ok_def)

subsection \<open>The system\<close>

record system =
  sys_os :: os
  sys_con :: console
  sys_pending :: "request list" \<comment> \<open>handed to the workers and not yet served\<close>

fun sender :: "request \<Rightarrow> int option" where
  \<comment> \<open>the process a request works for\<close>
  "sender (ReadStdin reply pid buf len) = Some pid"
| "sender (ReadFile reply pid fd buf len) = Some pid"
| "sender (WriteStdout reply pid buf len) = Some pid"
| "sender (WriteFile reply pid fd buf len) = Some pid"
| "sender (Sleep reply time) = None"
| "sender (OpenFile reply pid path flags) = Some pid"
| "sender (Unlink reply pid path) = Some pid"
| "sender (Lseek reply pid fd offset whence) = Some pid"

inductive sys_step :: "system \<Rightarrow> system \<Rightarrow> bool" where
  start: "load_shell e (sys_os S) img = Some w \<Longrightarrow> sys_step S (S\<lparr>sys_os := w\<rparr>)"
| message: "handle_syscall e (sys_os S) badge mrs = Some (mrs', have_reply, req, w)
    \<Longrightarrow> sys_step S (S\<lparr>sys_os := w, sys_pending := sys_pending S @ (case req of None \<Rightarrow> [] | Some r \<Rightarrow> [r])\<rparr>)"
| flush: "ReadStdin reply pid buf len \<in> set (sys_pending S) \<Longrightarrow> sys_step S (S\<lparr>sys_con := readstdin_begin (sys_con S)\<rparr>)"
| worker: "sys_pending S = xs @ r # ys \<Longrightarrow> serve e (sys_os S) (sys_con S) r = Some (mrs, w, con)
    \<Longrightarrow> sys_step S (S\<lparr>sys_os := w, sys_con := con, sys_pending := xs @ ys\<rparr>)"
| fault: "handle_vmfault e (sys_os S) badge what resume = Some (resume', w) \<Longrightarrow> sys_step S (S\<lparr>sys_os := w\<rparr>)"
| key: "kbd_key (sys_con S) code = Some con \<Longrightarrow> sys_step S (S\<lparr>sys_con := con\<rparr>)"

definition sys_ok :: "system \<Rightarrow> bool" where
  "sys_ok S \<longleftrightarrow> os_shape (sys_os S) \<and> console_ok (sys_con S)
     \<and> (\<forall>r \<in> set (sys_pending S). \<forall>pid. sender r = Some pid \<longrightarrow> 0 \<le> pid \<and> pid < int MAX_PROCESS_NUM)"

lemma handle_syscall_sender:
  assumes "handle_syscall e w badge mrs = Some (mrs', have_reply, Some r, w')" "sender r = Some pid"
  shows "pid = badge \<and> 0 \<le> badge \<and> badge < int MAX_PROCESS_NUM"
  using assms unfolding handle_syscall_def dispatched_def replied_def
  by (auto simp: bind_Some pid_getproc_def Let_def split: if_splits prod.splits)

lemma sys_step_ok: "sys_step S T \<Longrightarrow> sys_ok S \<Longrightarrow> sys_ok T"
proof (induction rule: sys_step.induct)
  case (start e S img w)
  then show ?case using load_shell_shape [OF start(1)] by (auto simp: sys_ok_def)
next
  case (message e S badge mrs mrs' have_reply req w)
  then show ?case using handle_syscall_shape [OF message(1)] handle_syscall_sender [of e "sys_os S" badge mrs mrs' have_reply]
    by (fastforce simp: sys_ok_def split: option.splits)
next
  case (worker S xs r ys e mrs w con)
  then show ?case using serve_shape [OF worker(2)] serve_console [OF worker(2)] by (auto simp: sys_ok_def)
next
  case (fault e S badge what resume resume' w)
  then show ?case using handle_vmfault_shape [OF fault(1)] by (auto simp: sys_ok_def)
next
  case (key S code con)
  then show ?case using kbd_key_step [of "sys_con S" "update_kbd_state (kb (sys_con S)) code" code] by (auto simp: sys_ok_def)
qed (simp add: sys_ok_def readstdin_begin_ok)

definition sys_init :: "system \<Rightarrow> bool" where
  \<comment> \<open>\<^verbatim>\<open>proc_table\<close> is zeroed memory; the console after \<^verbatim>\<open>vga_init\<close> and \<^verbatim>\<open>kbd_init\<close>; no request yet\<close>
  "sys_init S \<longleftrightarrow> proc_table (sys_os S) = replicate MAX_PROCESS_NUM zero_pcb \<and> sys_con S = fresh_console \<and> sys_pending S = []"

lemma sys_init_ok: "sys_init S \<Longrightarrow> sys_ok S"
  by (simp add: sys_init_def sys_ok_def os_shape_def pcb_shape_def zero_pcb_def MAX_CWD_LEN_def fresh_console_ok)

lemma sys_reach_ok: "sys_step\<^sup>*\<^sup>* S T \<Longrightarrow> sys_ok S \<Longrightarrow> sys_ok T"
  by (induction rule: rtranclp_induct) (auto intro: sys_step_ok)


definition idle_os :: os where
  "idle_os = \<lparr>proc_table = replicate MAX_PROCESS_NUM zero_pcb, os_fs = fs_with 8196 3070 [], os_swap = \<lparr>pagefiles = [], pagefile_num = 0\<rparr>,
     os_caps = \<lparr>cslot = (\<lambda>_. None), free_slots = [100, 101], free_frames = [], mem = (\<lambda>_. [])\<rparr>, os_root = p_vspace zero_process, os_heap = 0\<rparr>"

definition sample_system :: system where
  "sample_system = \<lparr>sys_os = idle_os, sys_con = fresh_console, sys_pending = []\<rparr>"

definition sample_waiting :: system where
  \<comment> \<open>process 3 waits for a line from the keyboard\<close>
  "sample_waiting = sample_system\<lparr>sys_os := idle_os\<lparr>os_caps := (os_caps idle_os)\<lparr>free_slots := [101]\<rparr>\<rparr>, sys_pending := [ReadStdin 100 3 4096 64]\<rparr>"

lemma sample_waits: "sys_init sample_system" "sys_step\<^sup>*\<^sup>* sample_system sample_waiting"
proof -
  show "sys_init sample_system" by (simp add: sys_init_def sample_system_def idle_os_def)
  let ?w = "idle_os\<lparr>os_caps := (os_caps idle_os)\<lparr>free_slots := [101]\<rparr>\<rparr>"
  have "handle_syscall sample_env idle_os 3 [0, 0, 64, 4096] = Some ([0, 0, 64, 4096], False, Some (ReadStdin 100 3 4096 64), ?w)"
    by (simp add: handle_syscall_def pid_getproc_def arr_def save_caller_def vka_cspace_alloc_def dispatched_def idle_os_def MAX_PROCESS_NUM_def i32_def)
  then have "sys_step sample_system (sample_system\<lparr>sys_os := ?w, sys_pending := sys_pending sample_system @
      (case Some (ReadStdin 100 3 4096 64) of None \<Rightarrow> [] | Some r \<Rightarrow> [r])\<rparr>)"
    by (intro sys_step.message) (simp add: sample_system_def)
  then show "sys_step\<^sup>*\<^sup>* sample_system sample_waiting" by (simp add: sample_waiting_def sample_system_def r_into_rtranclp)
qed


end
