(* ===== verification/Boot.thy ===== *)
theory Boot
  imports Shape Workers
begin

text \<open>
  Starting the system, \<^verbatim>\<open>main\<close> of \<^verbatim>\<open>os/src/root.c\<close>: the interrupt controllers, the drivers, the file system, the
  workers, the shell and the service threads, in the order of the code. The set-up of allocators and device
  operations by the libraries (\<^verbatim>\<open>rootvars_init\<close>, \<^verbatim>\<open>serial_init\<close>, \<^verbatim>\<open>timer_init\<close>) and the creation of kernel objects (endpoints,
  notifications, threads) have no state here; a thread is the three pages it gets.
\<close>

unbundle bit_operations_syntax

definition PORT_PIC_MASTER :: port where "PORT_PIC_MASTER = 0x20"
definition PORT_PIC_SLAVE :: port where "PORT_PIC_SLAVE = 0xA0"

definition interrupt_init :: "'d port_ops \<Rightarrow> 'd \<Rightarrow> 'd" where
  \<comment> \<open>the four initialisation words of both controllers\<close>
  "interrupt_init io d0 = fold (\<lambda>(p, b) d. out_byte io p b d)
     [(PORT_PIC_MASTER, 0x11), (PORT_PIC_SLAVE, 0x11), (PORT_PIC_MASTER + 1, 32), (PORT_PIC_SLAVE + 1, 40),
      (PORT_PIC_MASTER + 1, 4), (PORT_PIC_SLAVE + 1, 2), (PORT_PIC_MASTER + 1, 3), (PORT_PIC_SLAVE + 1, 3)] d0"

definition thread_page :: "env \<Rightarrow> os \<Rightarrow> (int \<times> os) option" where
  "thread_page e w =
     do { (vaddr, v, c) \<leftarrow> sel4utils_new_pages (env_map e) (os_root w) (os_caps w) 1 12;
          a \<leftarrow> vaddr;
          Some (a, w\<lparr>os_root := v, os_caps := c\<rparr>) }"

definition start_system_thread :: "env \<Rightarrow> os \<Rightarrow> os option" where
  \<comment> \<open>a page for the IPC buffer, one for the stack, one for the thread's variables\<close>
  "start_system_thread e w =
     do { (ipc, w) \<leftarrow> thread_page e w;
          (stack, w) \<leftarrow> thread_page e w;
          ok (u32 (stack + PAGE_SIZE_4K) mod 8 = 0);
          (tls, w) \<leftarrow> thread_page e w;
          Some w }"

fun start_workers :: "env \<Rightarrow> nat \<Rightarrow> os \<Rightarrow> os option" where
  \<comment> \<open>the loop of \<^verbatim>\<open>sysworkers_init\<close>; the table itself is in theory \<open>Workers\<close>\<close>
  "start_workers e 0 w = Some w"
| "start_workers e (Suc n) w = do { w \<leftarrow> start_system_thread e w; start_workers e n w }"

definition main_boot :: "'d port_ops \<Rightarrow> 'd \<Rightarrow> env \<Rightarrow> cell list \<Rightarrow> kbd \<Rightarrow> byte list \<Rightarrow> os \<Rightarrow> ('d \<times> system) option" where
  \<comment> \<open>up to \<^verbatim>\<open>handle_syscall_loop\<close>; \<open>page\<close> is the screen's memory, \<open>img\<close> the image of the shell\<close>
  "main_boot io d e page k img w =
     do { let d = interrupt_init io d;
          v \<leftarrow> vga_init page;
          d \<leftarrow> ps2_init (\<lambda>p. in_byte io (word_of_int p)) (\<lambda>p. out_byte io (word_of_int p)) d;
          let k = keytable_init k;
          d \<leftarrow> disk_init io d;
          w \<leftarrow> filesystem_init e w;
          w \<leftarrow> start_workers e MAX_WORKER_NUM w;
          w \<leftarrow> load_shell e w img;
          w \<leftarrow> start_system_thread e w;
          w \<leftarrow> start_system_thread e w;
          Some (d, \<lparr>sys_os = w, sys_con = \<lparr>kb = k, scr = v, serial = []\<rparr>, sys_pending = []\<rparr>) }"

lemma thread_page_keeps [keeps]: "thread_page e w = Some (a, w') \<Longrightarrow> proc_table w' = proc_table w"
  by (auto simp: thread_page_def bind_Some)

lemma start_system_thread_keeps [keeps]: "start_system_thread e w = Some w' \<Longrightarrow> proc_table w' = proc_table w"
  by (auto simp: start_system_thread_def bind_Some split: if_splits dest!: thread_page_keeps)

lemma start_workers_keeps [keeps]: "start_workers e n w = Some w' \<Longrightarrow> proc_table w' = proc_table w"
  by (induction n arbitrary: w) (auto simp: bind_Some dest!: start_system_thread_keeps)

lemma filesystem_init_keeps [keeps]: "filesystem_init e w = Some w' \<Longrightarrow> proc_table w' = proc_table w"
  by (auto simp: filesystem_init_def bind_Some)

lemma boot_well_formed:
  assumes "proc_table w = replicate MAX_PROCESS_NUM zero_pcb" "length page = VGA_CELLS" "main_boot io d e page k img w = Some (d', S)"
  shows "sys_ok S"
proof -
  obtain v w1 w2 w3 w4 w5 where s: "vga_init page = Some v" "filesystem_init e w = Some w1" "start_workers e MAX_WORKER_NUM w1 = Some w2"
    "load_shell e w2 img = Some w3" "start_system_thread e w3 = Some w4" "start_system_thread e w4 = Some w5"
    "S = \<lparr>sys_os = w5, sys_con = \<lparr>kb = keytable_init k, scr = v, serial = []\<rparr>, sys_pending = []\<rparr>"
    using assms(3) by (auto simp: main_boot_def bind_Some Let_def)
  have "os_shape w2" using s(2,3) assms(1) keeps by (simp add: os_shape_def pcb_shape_def zero_pcb_def MAX_CWD_LEN_def)
  then have "os_shape w5" using load_shell_shape [OF s(4)] start_system_thread_keeps [OF s(5)] start_system_thread_keeps [OF s(6)] shape_same by metis
  moreover have "vga_ok v" using vga_init_ok [OF assms(2)] s(1) by simp
  ultimately show ?thesis by (simp add: s(7) sys_ok_def console_ok_def ring_ok_def mods_ok_def keytable_init_def)
qed

end
