(* ===== verification/Muslc.thy ===== *)
theory Muslc
  imports Syscalls
begin

text \<open>
  The C library's side of a system call: \<^verbatim>\<open>libsel4muslcsys\<close>. The calls that were changed for this system send a
  message to the server (\<^verbatim>\<open>ipc_wrapper.c\<close>, \<^verbatim>\<open>sys_io.c\<close>, \<^verbatim>\<open>sys_exit.c\<close>, \<^verbatim>\<open>sys_time.c\<close>, \<^verbatim>\<open>sys_morecore.c\<close>); the table of
  descriptors of \<^verbatim>\<open>sys_io.c\<close>, which they replace, is still there and is modelled with it.

  \<^verbatim>\<open>seL4_Call\<close> is the parameter \<open>call\<close>: it takes the registers of the message and the state of the world and
  returns the registers of the reply. Memory that \<^verbatim>\<open>malloc\<close> returns is a parameter too, \<^term>\<open>None\<close> when it fails. A
  pointer that is only passed on is a number. What a call returns is a \<^verbatim>\<open>long\<close>.
\<close>

unbundle bit_operations_syntax

definition EINVAL :: int where "EINVAL = 22"
definition ENOENT :: int where "ENOENT = 2"
definition ENOMEM :: int where "ENOMEM = 12"
definition EACCES :: int where "EACCES = 13"
definition EMFILE :: int where "EMFILE = 24"
definition O_LARGEFILE :: int where "O_LARGEFILE = 0x8000"
definition FIRST_USER_FD :: int where "FIRST_USER_FD = 3"
definition FILE_TYPE_FREE :: int where "FILE_TYPE_FREE = -1"
definition FILE_TYPE_CPIO :: int where "FILE_TYPE_CPIO = 0"
definition seL4_MsgMaxLength :: nat where "seL4_MsgMaxLength = 120"

subsection \<open>Messages\<close>

type_synonym 's channel = "int list \<Rightarrow> 's \<Rightarrow> (int list \<times> 's) option"

definition syscall_ipc_normal :: "'s channel \<Rightarrow> int list \<Rightarrow> 's \<Rightarrow> (int list \<times> 's) option" where
  "syscall_ipc_normal call args s = call (map u32 args) s"

definition syscall_ipc_execve :: "'s channel \<Rightarrow> int \<Rightarrow> int list \<Rightarrow> 's \<Rightarrow> (int list \<times> 's) option" where
  "syscall_ipc_execve call path argv s =
     do { ok (length argv + 3 \<le> seL4_MsgMaxLength); call (map u32 ([9, path, int (length argv)] @ argv)) s }"

definition answer :: "'s channel \<Rightarrow> int list \<Rightarrow> 's \<Rightarrow> (int \<times> 's) option" where
  \<comment> \<open>\<^verbatim>\<open>syscall_ipc_normal(...); return seL4_GetMR(0);\<close>\<close>
  "answer call args s = do { (mrs, s) \<leftarrow> syscall_ipc_normal call args s; m \<leftarrow> arr mrs 0; Some (i32 m, s) }"

subsection \<open>Calls that are one message\<close>

definition sys_open :: "'s channel \<Rightarrow> int \<Rightarrow> int \<Rightarrow> 's \<Rightarrow> (int \<times> 's) option" where
  "sys_open call path flags s = answer call [5, path, flags] s"

definition sys_close :: "'s channel \<Rightarrow> int \<Rightarrow> 's \<Rightarrow> (int \<times> 's) option" where
  "sys_close call fd s = answer call [6, fd] s"

definition sys_unlink :: "'s channel \<Rightarrow> int \<Rightarrow> 's \<Rightarrow> (int \<times> 's) option" where
  "sys_unlink call path s = answer call [7, path] s"

definition sys_getcwd :: "'s channel \<Rightarrow> int \<Rightarrow> int \<Rightarrow> 's \<Rightarrow> (int \<times> 's) option" where
  "sys_getcwd call path len s = do { (_, s) \<leftarrow> syscall_ipc_normal call [13, path, len] s; Some (0, s) }"

definition sys_chdir :: "'s channel \<Rightarrow> int \<Rightarrow> 's \<Rightarrow> (int \<times> 's) option" where
  "sys_chdir call path s = do { (_, s) \<leftarrow> syscall_ipc_normal call [16, path] s; Some (0, s) }"

definition sys_lseek :: "'s channel \<Rightarrow> int \<Rightarrow> int \<Rightarrow> int \<Rightarrow> 's \<Rightarrow> (int \<times> 's) option" where
  \<comment> \<open>the offset is an \<^verbatim>\<open>off_t\<close> cut to an \<^verbatim>\<open>int\<close>\<close>
  "sys_lseek call fd offset whence s = answer call [8, fd, i32 offset, whence] s"

definition sys_execve :: "'s channel \<Rightarrow> int \<Rightarrow> int list \<Rightarrow> 's \<Rightarrow> (int \<times> 's) option" where
  \<comment> \<open>\<open>argv\<close> up to its \<^verbatim>\<open>NULL\<close>\<close>
  "sys_execve call path argv s =
     do { (mrs, s) \<leftarrow> syscall_ipc_execve call path (takeWhile (\<lambda>a. a \<noteq> 0) argv) s; m \<leftarrow> arr mrs 0; Some (i32 m, s) }"

definition sys_kill :: "'s channel \<Rightarrow> int \<Rightarrow> int \<Rightarrow> 's \<Rightarrow> (int \<times> 's) option" where
  "sys_kill call pid sig s = answer call [10, pid, sig] s"

definition sys_exit :: "'s channel \<Rightarrow> int \<Rightarrow> 's \<Rightarrow> (int \<times> 's) option" where
  "sys_exit call sig s = do { (_, s) \<leftarrow> syscall_ipc_normal call [12, sig] s; Some (0, s) }"

definition sys_getpid :: "'s channel \<Rightarrow> 's \<Rightarrow> (int \<times> 's) option" where
  "sys_getpid call s = answer call [11] s"

definition sys_nanosleep :: "'s channel \<Rightarrow> int \<Rightarrow> int \<Rightarrow> 's \<Rightarrow> (int \<times> 's) option" where
  \<comment> \<open>seconds and nanoseconds; \<^verbatim>\<open>int micros\<close>\<close>
  "sys_nanosleep call sec nsec s =
     do { let micros = i32 (sec * 1000000);
          (_, s) \<leftarrow> syscall_ipc_normal call [2, i32 (micros + nsec div 1000)] s;
          Some (0, s) }"

definition sys_clock_gettime :: "'s channel \<Rightarrow> int \<Rightarrow> 's \<Rightarrow> (int \<times> (int \<times> int) option \<times> 's) option" where
  \<comment> \<open>(return value, seconds and nanoseconds, state); 0 is \<^verbatim>\<open>CLOCK_REALTIME\<close>\<close>
  "sys_clock_gettime call clk_id s =
     (if clk_id \<noteq> 0 then Some (- EINVAL, None, s)
      else do { (mrs, s) \<leftarrow> syscall_ipc_normal call [3] s;
                micros \<leftarrow> arr mrs 0;
                Some (0, Some (micros div 1000000, micros mod 1000000 * 1000), s) })"

definition sys_brk :: "'s channel \<Rightarrow> int \<Rightarrow> 's \<Rightarrow> (int \<times> 's) option" where
  \<comment> \<open>of a process that has the server's endpoint\<close>
  "sys_brk call newbrk s = answer call [4, newbrk] s"

record morecore =
  morecore_area :: int
  morecore_base :: int
  morecore_top :: int

definition sys_brk_local :: "morecore \<Rightarrow> int \<Rightarrow> int \<times> morecore" where
  \<comment> \<open>of the server itself, in its static area\<close>
  "sys_brk_local m newbrk =
     (if newbrk = 0 then (i32 (morecore_base m), m)
      else if newbrk < morecore_top m \<and> newbrk > morecore_area m then (i32 newbrk, m\<lparr>morecore_base := newbrk\<rparr>)
      else (0, m))"

definition sys_mmap_impl :: "morecore \<Rightarrow> int \<Rightarrow> int \<Rightarrow> (int \<times> morecore) option" where
  \<comment> \<open>length and flags; \<^verbatim>\<open>MAP_ANONYMOUS\<close> is \<open>0x20\<close>\<close>
  "sys_mmap_impl m len flags =
     (if flags AND 0x20 \<noteq> 0 then
        if len > u32 (morecore_top m - morecore_base m) then Some (- ENOMEM, m)
        else let t = u32 (morecore_top m - len) in Some (i32 t, m\<lparr>morecore_top := t\<rparr>)
      else None)"

subsection \<open>Vectors\<close>

type_synonym iovec = "int \<times> int" \<comment> \<open>\<^verbatim>\<open>iov_base\<close>, \<^verbatim>\<open>iov_len\<close>\<close>

fun writev_loop :: "'s channel \<Rightarrow> int \<Rightarrow> iovec list \<Rightarrow> int \<Rightarrow> 's \<Rightarrow> (int \<times> 's) option" where
  "writev_loop call fd [] ret s = Some (ret, s)"
| "writev_loop call fd ((base, len) # iov) ret s =
     (if len \<noteq> 0 then
        do { (mrs, s) \<leftarrow> syscall_ipc_normal call [1, fd, len, base] s; m \<leftarrow> arr mrs 0;
             writev_loop call fd iov (i32 (ret + m)) s }
      else writev_loop call fd iov ret s)"

definition sys_writev :: "'s channel \<Rightarrow> int \<Rightarrow> iovec list \<Rightarrow> 's \<Rightarrow> (int \<times> 's) option" where
  \<comment> \<open>of a process that has the server's endpoint; the server writes to its serial line\<close>
  "sys_writev call fd iov s = writev_loop call fd iov 0 s"

definition sys_write :: "'s channel \<Rightarrow> int \<Rightarrow> int \<Rightarrow> int \<Rightarrow> 's \<Rightarrow> (int \<times> 's) option" where
  "sys_write call fd buf count s = sys_writev call fd [(buf, count)] s"

fun readv_loop :: "'s channel \<Rightarrow> int \<Rightarrow> iovec list \<Rightarrow> int \<Rightarrow> 's \<Rightarrow> (int \<times> 's) option" where
  \<comment> \<open>\<^verbatim>\<open>iov_len\<close> is unsigned: a negative \<^verbatim>\<open>nr\<close> has left the loop before the comparison\<close>
  "readv_loop call fd [] read s = Some (read, s)"
| "readv_loop call fd ((base, len) # iov) read s =
     do { (nr, s) \<leftarrow> (if len \<noteq> 0 then do { (mrs, s) \<leftarrow> syscall_ipc_normal call [0, fd, len, base] s; m \<leftarrow> arr mrs 0; Some (i32 m, s) }
                       else Some (0, s));
          if nr < 0 then Some (if read = 0 then nr else read, s)
          else if nr \<noteq> len then Some (i32 (read + nr), s)
          else readv_loop call fd iov (i32 (read + nr)) s }"

definition sys_readv :: "'s channel \<Rightarrow> int \<Rightarrow> iovec list \<Rightarrow> 's \<Rightarrow> (int \<times> 's) option" where
  "sys_readv call fd iov s = readv_loop call fd iov 0 s"

definition sys_read :: "'s channel \<Rightarrow> int \<Rightarrow> int \<Rightarrow> int \<Rightarrow> 's \<Rightarrow> (int \<times> 's) option" where
  "sys_read call fd buf count s = sys_readv call fd [(buf, count)] s"

definition sys_ioctl :: "int \<Rightarrow> int option" where
  "sys_ioctl fd = (if fd = 1 then Some 0 else None)"

definition sys__llseek :: "'s channel \<Rightarrow> int \<Rightarrow> int \<Rightarrow> int \<Rightarrow> int \<Rightarrow> 's \<Rightarrow> (int \<times> int option \<times> 's) option" where
  \<comment> \<open>(return value, \<^verbatim>\<open>*result\<close>, state); \<open>errno\<close> is what \<^verbatim>\<open>__syscall_ret\<close> made of the answer\<close>
  "sys__llseek call fd offset_high offset_low whence s =
     do { (ret, s) \<leftarrow> sys_lseek call fd (u32 offset_high * 4294967296 + u32 offset_low) whence s;
          if -4096 < ret \<and> ret < 0 then Some (ret, None, s) else Some (0, Some ret, s) }"

definition sys_access :: "'s channel \<Rightarrow> int \<Rightarrow> int \<Rightarrow> 's \<Rightarrow> (int \<times> 's) option" where
  \<comment> \<open>\<^verbatim>\<open>F_OK\<close> is 0, \<^verbatim>\<open>R_OK\<close> is 4; \<^verbatim>\<open>open\<close> adds \<^verbatim>\<open>O_LARGEFILE\<close>\<close>
  "sys_access call path mode s =
     (if mode = 0 \<or> mode = 4 then
        do { (fd, s) \<leftarrow> sys_open call path O_LARGEFILE s;
             if fd < 0 then Some (- EACCES, s) else do { (_, s) \<leftarrow> sys_close call fd s; Some (0, s) } }
      else Some (- EACCES, s))"

subsection \<open>The local table of descriptors\<close>

record cpio_file_data =
  c_start :: int
  c_size :: int
  c_current :: int

record muslcsys_fd =
  filetype :: int
  fd_data :: "cpio_file_data option" \<comment> \<open>what \<^verbatim>\<open>data\<close> points to\<close>

record fds =
  fd_table :: "muslcsys_fd list option" \<comment> \<open>\<^term>\<open>None\<close>: \<^verbatim>\<open>NULL\<close>\<close>
  free_fd_table :: "int list"
  free_fd_table_index :: int
  num_fds :: int

definition fds_start :: fds where
  "fds_start = \<lparr>fd_table = None, free_fd_table = [], free_fd_table_index = 0, num_fds = 256\<rparr>"

definition get_fd_struct :: "fds \<Rightarrow> int \<Rightarrow> muslcsys_fd option" where
  "get_fd_struct t fd =
     do { ok (fd < num_fds t \<and> fd \<ge> FIRST_USER_FD); tab \<leftarrow> fd_table t; arr tab (fd - FIRST_USER_FD) }"

definition put_fd_struct :: "fds \<Rightarrow> int \<Rightarrow> muslcsys_fd \<Rightarrow> fds option" where
  \<comment> \<open>an assignment through \<open>get_fd_struct\<close>\<close>
  "put_fd_struct t fd x =
     do { _ \<leftarrow> get_fd_struct t fd; tab \<leftarrow> fd_table t; Some (t\<lparr>fd_table := Some (tab[nat (fd - FIRST_USER_FD) := x])\<rparr>) }"

definition add_free_fd :: "fds \<Rightarrow> int \<Rightarrow> fds option" where
  "add_free_fd t fd =
     do { x \<leftarrow> get_fd_struct t fd;
          t \<leftarrow> put_fd_struct t fd (x\<lparr>filetype := FILE_TYPE_FREE\<rparr>);
          let i = free_fd_table_index t + 1;
          ok (i < num_fds t);
          tab \<leftarrow> arr_upd (free_fd_table t) i fd;
          Some (t\<lparr>free_fd_table_index := i, free_fd_table := tab\<rparr>) }"

definition get_free_fd :: "fds \<Rightarrow> (int \<times> fds) option" where
  "get_free_fd t =
     (if free_fd_table_index t = -1 then Some (- EMFILE, t)
      else do { fd \<leftarrow> arr (free_fd_table t) (free_fd_table_index t);
                Some (fd, t\<lparr>free_fd_table_index := free_fd_table_index t - 1\<rparr>) })"

definition valid_fd :: "fds \<Rightarrow> int \<Rightarrow> bool" where
  "valid_fd t fd \<longleftrightarrow> fd < num_fds t \<and> fd \<ge> FIRST_USER_FD"

function add_free_fds :: "fds \<Rightarrow> int \<Rightarrow> int \<Rightarrow> fds option" where
  \<comment> \<open>\<^verbatim>\<open>for (int i = from; i < upto; i++) add_free_fd(i);\<close>\<close>
  "add_free_fds t i n = (if i < n then do { t \<leftarrow> add_free_fd t i; add_free_fds t (i + 1) n } else Some t)"
  by pat_completeness auto
termination by (relation "measure (\<lambda>(t, i, n). nat (n - i))") auto

declare add_free_fds.simps [simp del]

definition allocate_file_table :: "muslcsys_fd list option \<Rightarrow> int list option \<Rightarrow> fds \<Rightarrow> (int \<times> fds) option" where
  \<comment> \<open>with what the two calls of \<^verbatim>\<open>malloc\<close> return; when the second fails, \<^verbatim>\<open>fd_table\<close> still points to the freed memory\<close>
  "allocate_file_table m1 m2 t =
     (case m1 of None \<Rightarrow> Some (- ENOMEM, t)
      | Some tab \<Rightarrow> (case m2 of None \<Rightarrow> Some (- ENOMEM, t\<lparr>fd_table := Some tab\<rparr>)
          | Some free \<Rightarrow>
              do { t \<leftarrow> add_free_fds (t\<lparr>fd_table := Some tab, free_fd_table := free, free_fd_table_index := -1\<rparr>) FIRST_USER_FD (num_fds t);
                   Some (0, t) }))"

definition allocate_fd :: "muslcsys_fd list option \<Rightarrow> int list option \<Rightarrow> fds \<Rightarrow> (int \<times> fds) option" where
  "allocate_fd m1 m2 t =
     do { (r, t) \<leftarrow> (if fd_table t = None then allocate_file_table m1 m2 t else Some (0, t));
          if r = - ENOMEM then Some (- ENOMEM, t) else get_free_fd t }"

definition grow_fds :: "muslcsys_fd list option \<Rightarrow> int list option \<Rightarrow> muslcsys_fd list option \<Rightarrow> int list option \<Rightarrow> int \<Rightarrow> fds \<Rightarrow> (int \<times> fds) option" where
  \<comment> \<open>\<^verbatim>\<open>num_fds\<close> is updated before the loop that starts from it\<close>
  "grow_fds m1 m2 m3 m4 how_much t =
     do { let new_num_fds = i32 (num_fds t + how_much);
          (r, t) \<leftarrow> (if fd_table t = None then allocate_file_table m1 m2 t else Some (0, t));
          if r = - ENOMEM then Some (- ENOMEM, t)
          else case m3 of None \<Rightarrow> Some (- ENOMEM, t)
          | Some new_tab \<Rightarrow> (case m4 of None \<Rightarrow> Some (- ENOMEM, t)
              | Some new_free \<Rightarrow>
                  do { tab \<leftarrow> fd_table t;
                       let n = nat (num_fds t);
                       ok (n \<le> length new_tab \<and> n - 3 \<le> length new_free \<and> n \<le> length tab \<and> n - 3 \<le> length (free_fd_table t));
                       t \<leftarrow> add_free_fds (t\<lparr>fd_table := Some (take n tab @ drop n new_tab),
                              free_fd_table := take (n - 3) (free_fd_table t) @ drop (n - 3) new_free, num_fds := new_num_fds\<rparr>) new_num_fds new_num_fds;
                       Some (0, t) }) }"

definition sys_open_impl :: "(cstr \<Rightarrow> (int \<times> int) option) option \<Rightarrow> muslcsys_fd list option \<Rightarrow> int list option \<Rightarrow> bool \<Rightarrow> cstr \<Rightarrow> int \<Rightarrow> fds \<Rightarrow> (int \<times> fds) option" where
  \<comment> \<open>the archive, if an interface was installed, gives start and size of a file; \<open>have_mem\<close>: \<^verbatim>\<open>malloc\<close> succeeds\<close>
  "sys_open_impl cpio m1 m2 have_mem pathname flags t =
     do { ok (flags AND NOT O_LARGEFILE = O_RDONLY);
          let file = (case cpio of None \<Rightarrow> None
            | Some get \<Rightarrow> (case get pathname of Some f \<Rightarrow> Some f
                | None \<Rightarrow> if take 2 pathname = str ''./'' then get (drop 2 pathname) else None));
          case file of None \<Rightarrow> Some (- ENOENT, t)
          | Some (start, sz) \<Rightarrow>
              do { (fd, t) \<leftarrow> allocate_fd m1 m2 t;
                   if fd = - EMFILE then Some (- EMFILE, t)
                   else do {
                     x \<leftarrow> get_fd_struct t fd;
                     if have_mem then
                       do { t \<leftarrow> put_fd_struct t fd (x\<lparr>filetype := FILE_TYPE_CPIO, fd_data := Some \<lparr>c_start = start, c_size = sz, c_current = 0\<rparr>\<rparr>);
                            Some (fd, t) }
                     else do { t \<leftarrow> put_fd_struct t fd (x\<lparr>filetype := FILE_TYPE_CPIO, fd_data := None\<rparr>);
                               t \<leftarrow> add_free_fd t fd;
                               Some (- ENOMEM, t) } } } }"

definition sys_openat :: "int option" where
  \<comment> \<open>\<^verbatim>\<open>assert(0)\<close>\<close>
  "sys_openat = None"

definition sys_prlimit64 :: "muslcsys_fd list option \<Rightarrow> int list option \<Rightarrow> muslcsys_fd list option \<Rightarrow> int list option \<Rightarrow> int \<Rightarrow> int option \<Rightarrow> fds \<Rightarrow>
    (int \<times> (int \<times> int) \<times> fds) option" where
  \<comment> \<open>(return value, the old limits, state); \<open>new_limit\<close> is \<^verbatim>\<open>rlim_cur\<close> of the new one; 7 is \<^verbatim>\<open>RLIMIT_NOFILE\<close>\<close>
  "sys_prlimit64 m1 m2 m3 m4 resource new_limit t =
     do { ok (resource = 7);
          let old = (num_fds t, 65536);
          case new_limit of None \<Rightarrow> Some (0, old, t)
          | Some n \<Rightarrow> if n < num_fds t then Some (0, old, t)
                      else do { (r, t) \<leftarrow> grow_fds m1 m2 m3 m4 (i32 (n - num_fds t)) t; Some (r, old, t) } }"

lemma grow_fds_adds_none:
  \<comment> \<open>after a successful growth the free list is the old one\<close>
  assumes "grow_fds m1 m2 m3 m4 how_much t = Some (0, t')" "fd_table t = Some tab"
  shows "num_fds t' = i32 (num_fds t + how_much) \<and> free_fd_table_index t' = free_fd_table_index t
    \<and> take (nat (num_fds t) - 3) (free_fd_table t') = take (nat (num_fds t) - 3) (free_fd_table t)"
  using assms by (auto simp: grow_fds_def add_free_fds.simps ENOMEM_def Let_def bind_eq_Some_conv split: option.splits if_splits)

subsection \<open>Client and server\<close>

definition immediate :: "env \<Rightarrow> int list \<Rightarrow> int \<Rightarrow> os channel" where
  \<comment> \<open>\<^verbatim>\<open>seL4_Call\<close> of process \<open>pid\<close>, answered by the dispatcher itself; registers that are not part of the message
     hold old values, \<open>junk\<close>\<close>
  "immediate e junk pid msg w =
     do { (mrs, have_reply, _, w) \<leftarrow> handle_syscall e w pid (take 4 (msg @ junk)); ok have_reply; Some (mrs, w) }"

lemma regs4:
  assumes "length junk = 4"
  shows "\<exists>a b c d. junk = [a, b, c, d]"
  using assms by (auto simp: length_Suc_conv eval_nat_numeral)



end
