(* ===== verification/Shell.thy ===== *)
theory Shell
  imports Prelude
begin

text \<open>
  The shell, \<^verbatim>\<open>apps/shell/src/shell.c\<close>: it reads a line into a buffer of 64 bytes, cuts it into
  words in place, and looks the first word up among its commands; any other word is the path of
  a program. What the commands do is done by system calls; here a line becomes an \<open>action\<close>.
\<close>

definition BUF_SIZE :: nat where "BUF_SIZE = 64"
definition MAX_ARGS :: nat where "MAX_ARGS = 8"
definition space :: byte where "space = 0x20"

subsection \<open>Reading a line\<close>

datatype line =
    Line "byte list" "int list" \<comment> \<open>the buffer, and the input that follows\<close>
  | Overflow \<comment> \<open>a store behind the end of the buffer\<close>
  | Blocked \<comment> \<open>no more input\<close>

fun read_line :: "byte list \<Rightarrow> nat \<Rightarrow> int list \<Rightarrow> line" where
  \<comment> \<open>the results of \<^verbatim>\<open>getchar\<close>, \<open>-1\<close> for the end of file\<close>
  "read_line buf k [] = Blocked"
| "read_line buf k (c # input) =
     (if k \<ge> BUF_SIZE then Overflow
      else let b = word_of_int c in
        if b = 10 then Line (buf[k := 0]) input else read_line (buf[k := b]) (k + 1) input)"

subsection \<open>Cutting it into words\<close>

partial_function (option) skip_spaces :: "byte list \<Rightarrow> nat \<Rightarrow> nat option" where
  "skip_spaces buf p = do { c \<leftarrow> arr buf (int p); if c = space then skip_spaces buf (p + 1) else Some p }"

partial_function (option) skip_word :: "byte list \<Rightarrow> nat \<Rightarrow> nat option" where
  "skip_word buf p =
     do { c \<leftarrow> arr buf (int p); if c \<noteq> space \<and> c \<noteq> 0 then skip_word buf (p + 1) else Some p }"

partial_function (option) split_args :: "byte list \<Rightarrow> nat list \<Rightarrow> nat \<Rightarrow> (nat list \<times> byte list) option" where
  \<comment> \<open>the loop of lines 78 to 98; a pointer into the buffer is its index\<close>
  "split_args buf argv p =
     do { c \<leftarrow> arr buf (int p);
          if c = 0 then Some (argv, buf)
          else do { p \<leftarrow> skip_spaces buf p;
                    c \<leftarrow> arr buf (int p);
                    if c = 0 then Some (argv, buf)
                    else do { ok (length argv < MAX_ARGS);
                              let argv = argv @ [p];
                              p \<leftarrow> skip_word buf p;
                              c \<leftarrow> arr buf (int p);
                              if c = 0 then Some (argv, buf)
                              else do { buf \<leftarrow> arr_upd buf (int p) 0; split_args buf argv (p + 1) } } } }"

definition arg_at :: "byte list \<Rightarrow> nat \<Rightarrow> cstr" where
  "arg_at buf p = until_nul (drop p buf)"

subsection \<open>Commands\<close>

datatype action = NoCommand | Pwd | Ls | Ps | Time | Cd "cstr list" | Exec "cstr list"
  \<comment> \<open>with the words behind the command; for \<open>Exec\<close> the program and the words passed to it\<close>

definition commands :: "(cstr \<times> (cstr list \<Rightarrow> action)) list" where
  "commands = [(str ''pwd'', \<lambda>_. Pwd), (str ''ls'', \<lambda>_. Ls), (str ''dir'', \<lambda>_. Ls), (str ''ps'', \<lambda>_. Ps),
     (str ''time'', \<lambda>_. Time), (str ''cd'', Cd), (str ''exec'', Exec)]"

definition run_line :: "byte list \<Rightarrow> action option" where
  \<comment> \<open>one round of the loop of \<^verbatim>\<open>main\<close> on the buffer that was read; for an unknown command
     \<^verbatim>\<open>argv[1]\<close> is overwritten and \<^verbatim>\<open>exec\<close> passes \<^verbatim>\<open>argv + 2\<close>\<close>
  "run_line buf =
     do { (argv, buf) \<leftarrow> split_args buf [] 0;
          case map (arg_at buf) argv of
            [] \<Rightarrow> Some NoCommand
          | cmd # args \<Rightarrow> (case map_of commands cmd of Some f \<Rightarrow> Some (f args) | None \<Rightarrow> Some (Exec (cmd # drop 1 args))) }"

subsection \<open>The words of a line\<close>

fun words_from :: "cstr \<Rightarrow> cstr \<Rightarrow> cstr list" where
  \<comment> \<open>\<open>w\<close> is the word being read\<close>
  "words_from w [] = (if w = [] then [] else [w])"
| "words_from w (c # cs) =
     (if c = space then (if w = [] then words_from [] cs else w # words_from [] cs) else words_from (w @ [c]) cs)"

definition words :: "cstr \<Rightarrow> cstr list" where
  "words s = words_from [] s"

lemma space_nonzero [simp]: "space \<noteq> 0"
  by (simp add: space_def)

lemma words_spaces: "words (replicate n space @ s) = words s"
  by (induction n) (simp_all add: words_def)

lemma words_from_word: "space \<notin> set w \<Longrightarrow> words_from v (w @ s) = words_from (v @ w) s"
  by (induction w arbitrary: v) auto

lemma words_word:
  assumes "w \<noteq> []" "space \<notin> set w"
  shows "words w = [w]" "words (w @ space # s) = w # words s"
  using words_from_word [OF assms(2), of "[]" "[]"] words_from_word [OF assms(2), of "[]" "space # s"] assms(1)
  by (simp_all add: words_def)

lemma line_cases:
  obtains (blank) n where "s = replicate n space"
  | (last) n w where "s = replicate n space @ w" "w \<noteq> []" "space \<notin> set w"
  | (more) n w t where "s = replicate n space @ w @ space # t" "w \<noteq> []" "space \<notin> set w"
proof -
  let ?n = "length (takeWhile ((=) space) s)" and ?t = "dropWhile ((=) space) s"
  have sp: "takeWhile ((=) space) s = replicate ?n space" by (rule replicate_eqI [OF refl]) (auto dest: set_takeWhileD)
  have s: "s = replicate ?n space @ ?t" using takeWhile_dropWhile_id [of "(=) space" s] sp by metis
  let ?w = "takeWhile ((\<noteq>) space) ?t" and ?u = "dropWhile ((\<noteq>) space) ?t"
  have t: "?t = ?w @ ?u" by simp
  have w: "space \<notin> set ?w" by (auto dest: set_takeWhileD)
  show thesis
  proof (cases "?t")
    case Nil
    with s show thesis using blank by auto
  next
    case (Cons c cs)
    then have "c \<noteq> space" using hd_dropWhile [of "(=) space" s] by force
    then have w': "?w \<noteq> []" using Cons by simp
    show thesis
    proof (cases ?u)
      case Nil
      have "?t = ?w" using t unfolding Nil by simp
      then have "s = replicate ?n space @ ?w" using s by argo
      then show thesis using last w w' by blast
    next
      case (Cons d ds)
      then have "d = space" using hd_dropWhile [of "(\<noteq>) space" ?t] by force
      then have "?t = ?w @ space # ds" using t unfolding Cons by simp
      then have "s = replicate ?n space @ ?w @ space # ds" using s by argo
      then show thesis using more w w' by blast
    qed
  qed
qed

lemma arr_mid: "arr (pre @ c # post) (int (length pre)) = Some c"
  by (simp add: arr_def)

lemma skip_spaces_spec:
  "c \<noteq> space \<Longrightarrow> skip_spaces (pre @ replicate n space @ c # post) (length pre) = Some (length pre + n)"
proof (induction n arbitrary: pre)
  case 0
  then show ?case by (subst skip_spaces.simps) (simp add: arr_def)
next
  case (Suc n)
  have "skip_spaces (pre @ replicate (Suc n) space @ c # post) (length pre)
    = skip_spaces ((pre @ [space]) @ replicate n space @ c # post) (length (pre @ [space]))"
    by (subst skip_spaces.simps) (simp add: arr_def)
  also have "\<dots> = Some (length (pre @ [space]) + n)" by (rule Suc.IH [OF Suc.prems])
  finally show ?case by simp
qed

lemma skip_word_spec:
  "space \<notin> set w \<Longrightarrow> 0 \<notin> set w \<Longrightarrow> c = space \<or> c = 0 \<Longrightarrow>
   skip_word (pre @ w @ c # post) (length pre) = Some (length pre + length w)"
proof (induction w arbitrary: pre)
  case Nil
  then show ?case by (subst skip_word.simps) (auto simp: arr_def)
next
  case (Cons x w)
  have "skip_word (pre @ (x # w) @ c # post) (length pre) = skip_word ((pre @ [x]) @ w @ c # post) (length (pre @ [x]))"
    using Cons.prems by (subst skip_word.simps) (auto simp: arr_def)
  also have "\<dots> = Some (length (pre @ [x]) + length w)" using Cons.prems by (intro Cons.IH) auto
  finally show ?case by simp
qed

lemma until_nul_append: "0 \<notin> set w \<Longrightarrow> until_nul (w @ 0 # post) = w"
  by (induction w) auto

lemma arg_at_mid: "0 \<notin> set w \<Longrightarrow> length pre = p \<Longrightarrow> arg_at (pre @ w @ 0 # post) p = w"
  by (simp add: arg_at_def until_nul_append)

lemma split_blank: "split_args (pre @ replicate n space @ 0 # post) argv (length pre) = Some (argv, pre @ replicate n space @ 0 # post)"
proof (cases n)
  case 0
  then show ?thesis by (subst split_args.simps) (simp add: arr_def)
next
  case (Suc m)
  have a: "arr (pre @ replicate n space @ 0 # post) (int (length pre)) = Some space" using Suc by (simp add: arr_def)
  have b: "arr (pre @ replicate n space @ 0 # post) (int (length pre + n)) = Some 0"
    using arr_mid [of "pre @ replicate n space" 0 post] by simp
  have "skip_spaces (pre @ replicate n space @ 0 # post) (length pre) = Some (length pre + n)"
    by (rule skip_spaces_spec) (simp add: space_def)
  then show ?thesis by (subst split_args.simps) (simp add: a b del: of_nat_add)
qed

lemma split_one:
  assumes "w \<noteq> []" "space \<notin> set w" "0 \<notin> set w" "c = space \<or> c = 0"
  shows "split_args (pre @ replicate n space @ w @ c # post) argv (length pre)
    = (if length argv < MAX_ARGS then
         if c = 0 then Some (argv @ [length pre + n], pre @ replicate n space @ w @ c # post)
         else split_args (pre @ replicate n space @ w @ 0 # post) (argv @ [length pre + n])
                (length (pre @ replicate n space @ w @ [0]))
       else None)"
proof -
  obtain x ws where w: "w = x # ws" using assms(1) by (cases w) auto
  let ?buf = "pre @ replicate n space @ w @ c # post"
  let ?p = "length pre + n" and ?q = "length pre + (n + length w)"
  have x: "x \<noteq> space" "x \<noteq> 0" using assms(2,3) w by auto
  obtain c0 where a: "arr ?buf (int (length pre)) = Some c0" "c0 \<noteq> 0"
    using x w by (cases n) (auto simp: arr_def)
  have sp: "skip_spaces ?buf (length pre) = Some ?p" using skip_spaces_spec [OF x(1), of pre n "ws @ c # post"] w by simp
  have b: "arr ?buf (int ?p) = Some x" using arr_mid [of "pre @ replicate n space" x "ws @ c # post"] w by simp
  have wd: "skip_word ?buf ?p = Some ?q"
    using skip_word_spec [OF assms(2-4), of "pre @ replicate n space" post] by (simp add: add.assoc)
  have c: "arr ?buf (int ?q) = Some c" using arr_mid [of "pre @ replicate n space @ w" c post] by (simp add: add.assoc)
  have u: "arr_upd ?buf (int ?q) 0 = Some (pre @ replicate n space @ w @ 0 # post)"
    using list_update_length [of "pre @ replicate n space @ w" c post 0] by (simp add: arr_upd_def add.assoc nat_add_distrib)
  show ?thesis
    by (subst split_args.simps) (simp add: a sp b wd c u x Let_def del: of_nat_add)
qed

lemma split_args_spec:
  assumes "0 \<notin> set s" "length argv \<le> MAX_ARGS"
  shows "if length argv + length (words s) \<le> MAX_ARGS
    then \<exists>new s'. split_args (pre @ s @ 0 # post) argv (length pre) = Some (argv @ new, pre @ s' @ 0 # post)
      \<and> length s' = length s \<and> map (arg_at (pre @ s' @ 0 # post)) new = words s
    else split_args (pre @ s @ 0 # post) argv (length pre) = None"
  using assms
proof (induction "length s" arbitrary: s pre argv rule: less_induct)
  case less
  show ?case
  proof (cases s rule: line_cases)
    case (blank n)
    have "words s = []" using words_spaces [of n "[]"] blank by (simp add: words_def)
    moreover have "split_args (pre @ s @ 0 # post) argv (length pre) = Some (argv @ [], pre @ s @ 0 # post)"
      unfolding blank by (simp add: split_blank)
    ultimately show ?thesis using less.prems(2) by auto
  next
    case (last n w)
    have ws: "words s = [w]" using words_word(1) [OF last(2,3)] words_spaces last(1) by metis
    have w0: "0 \<notin> set w" using less.prems(1) last(1) by simp
    have "arg_at (pre @ s @ 0 # post) (length pre + n) = w"
      using arg_at_mid [OF w0, of "pre @ replicate n space" "length pre + n" post] last(1) by simp
    then show ?thesis
      using split_one [OF last(2,3) w0, of 0 pre n post argv] ws unfolding last(1) by (auto intro!: exI [of _ "[length pre + n]"])
  next
    case (more n w t)
    have ws: "words s = w # words t" using words_word(2) [OF more(2,3)] words_spaces more(1) by metis
    have w0: "0 \<notin> set w" and t0: "0 \<notin> set t" using less.prems(1) more(1) by auto
    let ?pre = "pre @ replicate n space @ w @ [0]"
    have step: "split_args (pre @ s @ 0 # post) argv (length pre) = (if length argv < MAX_ARGS then
        split_args (?pre @ t @ 0 # post) (argv @ [length pre + n]) (length ?pre) else None)"
      using split_one [OF more(2,3) w0, of space pre n "t @ 0 # post" argv] unfolding more(1) by (simp add: space_def)
    show ?thesis
    proof (cases "length argv + length (words s) \<le> MAX_ARGS")
      case True
      then obtain new t' where t': "split_args (?pre @ t @ 0 # post) (argv @ [length pre + n]) (length ?pre)
          = Some ((argv @ [length pre + n]) @ new, ?pre @ t' @ 0 # post)" "length t' = length t"
        "map (arg_at (?pre @ t' @ 0 # post)) new = words t"
        using less.hyps [of t "argv @ [length pre + n]" ?pre] t0 ws more(1) by auto
      have "arg_at (?pre @ t' @ 0 # post) (length pre + n) = w"
        using arg_at_mid [OF w0, of "pre @ replicate n space" "length pre + n" "t' @ 0 # post"] by simp
      then show ?thesis using True step t' ws more(1)
        by (auto intro!: exI [of _ "(length pre + n) # new"] exI [of _ "replicate n space @ w @ 0 # t'"])
    next
      case False
      then show ?thesis
        using less.hyps [of t "argv @ [length pre + n]" ?pre] t0 ws more(1) step by (auto split: if_splits)
    qed
  qed
qed

lemma read_line_spec:
  assumes "length buf = BUF_SIZE" "k + length s < BUF_SIZE" "10 \<notin> set s"
  shows "read_line buf k (map uint s @ 10 # rest) = Line (take k buf @ s @ 0 # drop (k + length s + 1) buf) rest"
  using assms
proof (induction s arbitrary: buf k)
  case Nil
  then show ?case by (simp add: upd_conv_take_nth_drop)
next
  case (Cons c s)
  have k: "k < length buf" using Cons.prems by simp
  have "read_line buf k (map uint (c # s) @ 10 # rest) = read_line (buf[k := c]) (k + 1) (map uint s @ 10 # rest)"
    using Cons.prems by auto
  also have "\<dots> = Line (take (k + 1) (buf[k := c]) @ s @ 0 # drop (k + 1 + length s + 1) (buf[k := c])) rest"
    using Cons.prems by (intro Cons.IH) simp_all
  finally show ?case using k by (simp add: take_Suc_conv_app_nth)
qed

definition meaning :: "cstr list \<Rightarrow> action" where
  "meaning ws = (case ws of [] \<Rightarrow> NoCommand
     | cmd # args \<Rightarrow> (case map_of commands cmd of Some f \<Rightarrow> f args | None \<Rightarrow> Exec (cmd # drop 1 args)))"



lemma read_line_overflow:
  assumes "\<forall>c \<in> set input. (word_of_int c :: byte) \<noteq> 10" "64 < k + length input" "k \<le> 64"
  shows "read_line buf k (input @ rest) = Overflow"
  using assms by (induction input arbitrary: buf k) (auto simp: Let_def BUF_SIZE_def)

text \<open>
  The loop that reads the line has no bound and no test for the end of the file: any 65
  results of \<^verbatim>\<open>getchar\<close> without a newline, in particular \<^verbatim>\<open>EOF\<close> over and over after a read that
  returned nothing, run over the end of the 64-byte buffer.
\<close>

theorem shell_overruns_buffer:
  assumes "\<forall>c \<in> set input. (word_of_int c :: byte) \<noteq> 10" "64 < length input"
  shows "read_line buf 0 (input @ rest) = Overflow \<and> read_line buf 0 (replicate 65 (-1) @ rest) = Overflow"
  using read_line_overflow [OF assms(1)] read_line_overflow [of "replicate 65 (-1)" 0] assms(2) by simp

theorem shell_overruns_buffer_witness:
  "read_line (replicate 64 0) 0 (replicate 70 97 @ [10]) = Overflow \<and> read_line (replicate 64 0) 0 (replicate 65 (-1) @ [10]) = Overflow"
  by (rule shell_overruns_buffer) simp_all

end
