(* ===== verification/Calls.thy ===== *)
theory Calls
  imports Syscalls Content Paging
begin

text \<open>
  Reading and writing a file, from the message of the caller to its memory. The dispatcher
  (\<^verbatim>\<open>os/src/syscall_handler.c\<close>) saves the reply capability and hands a request to a worker, the worker opens a window
  onto the caller's page (\<^verbatim>\<open>os/src/vm/mem_projection.c\<close>), runs the file operation (\<^verbatim>\<open>os/src/filesystem/fs.c\<close>) on the bytes it sees
  there, closes the window and frees the reply slot.
\<close>

subsection \<open>A window onto a buffer\<close>

definition buffer_at :: "os \<Rightarrow> int \<Rightarrow> nat \<Rightarrow> nat \<Rightarrow> bool" where
  \<comment> \<open>page \<open>p\<close> of process \<open>pid\<close> is frame \<open>f\<close>\<close>
  "buffer_at w pid p f \<longleftrightarrow> p < 1048576 \<and> length (mem (os_caps w) f) = 4096
     \<and> (\<exists>pcb cap cookie. pid_getproc w pid = Some pcb \<and> tables_ok (p_vspace (p_proc pcb)) \<and> entry (p_vspace (p_proc pcb)) p = (cap, cookie)
          \<and> cap \<noteq> EMPTY \<and> cap \<noteq> RESERVED \<and> cslot (os_caps w) cap = Some f)"

definition can_window :: "env \<Rightarrow> os \<Rightarrow> nat \<Rightarrow> bool" where
  \<comment> \<open>page \<open>k\<close> of the system's address space is the next window, and the kernel will map it\<close>
  "can_window e w k \<longleftrightarrow> (\<exists>l. windowed (os_root w) (os_caps w) l k) \<and> 2 \<le> levels (os_root w) \<and> (\<forall>s. env_map e s (4096 * int k) = 0)"

lemma getproc_frame [simp]:
  "pid_getproc (w\<lparr>os_root := v\<rparr>) pid = pid_getproc w pid" "pid_getproc (w\<lparr>os_caps := c\<rparr>) pid = pid_getproc w pid"
  "pid_getproc (w\<lparr>os_fs := s\<rparr>) pid = pid_getproc w pid"
  by (simp_all add: pid_getproc_def)

lemma window_on_buffer:
  assumes "can_window e w k" "buffer_at w pid p f" "off < 4096"
  obtains va ca vb where "open_window e w pid (4096 * int p + int off) = Some (4096 * int k + int off, w\<lparr>os_root := va, os_caps := ca\<rparr>)"
    "\<And>w'. os_root w' = va \<Longrightarrow> os_caps w' = ca \<Longrightarrow> window_bytes w' (4096 * int k + int off) = Some (drop off (mem (os_caps w) f))"
    "\<And>w' bs. os_root w' = va \<Longrightarrow> os_caps w' = ca \<Longrightarrow> window_store w' (4096 * int k + int off) bs
        = Some (w'\<lparr>os_caps := ca\<lparr>mem := (mem (os_caps w))(f := take off (mem (os_caps w) f) @ bs)\<rparr>\<rparr>)"
    "\<And>w' m. os_root w' = va \<Longrightarrow> os_caps w' = ca\<lparr>mem := m\<rparr> \<Longrightarrow> close_window w' (4096 * int k + int off)
        = Some (w'\<lparr>os_root := vb, os_caps := (os_caps w)\<lparr>mem := m\<rparr>\<rparr>)"
    "mem ca = mem (os_caps w)" "windowed vb (os_caps w) k k" "same_pages (os_root w) vb"
proof -
  let ?c = "os_caps w"
  from assms(2) obtain pcb cap cookie where b: "p < 1048576" "pid_getproc w pid = Some pcb" "tables_ok (p_vspace (p_proc pcb))"
    "entry (p_vspace (p_proc pcb)) p = (cap, cookie)" "cap \<noteq> EMPTY" "cap \<noteq> RESERVED" "cslot ?c cap = Some f"
    by (auto simp: buffer_at_def)
  from assms(1) obtain l where w: "windowed (os_root w) ?c l k" "2 \<le> levels (os_root w)" "\<And>s. env_map e s (4096 * int k) = 0"
    by (auto simp: can_window_def)
  obtain va ca vb s where c: "sel4utils_dup_and_map (env_map e) (os_root w) ?c cap 12 = Some (Some (4096 * int k), va, ca)" "mem ca = mem ?c"
    "sel4utils_get_cap va (4096 * int k) = Some s" "cslot ca s = Some f"
    "\<And>m. sel4utils_unmap_dup va (ca\<lparr>mem := m\<rparr>) (4096 * int k) 12 = Some (vb, ?c\<lparr>mem := m\<rparr>)" "windowed vb ?c k k" "same_pages (os_root w) vb"
    using window_cycle [where map_page = "env_map e", OF w(1,2) b(7) w(3)] by blast
  have k: "4096 * int k + int off < 4294967296" using w(1) assms(3) by (simp add: windowed_def)
  have al: "PAGE_ALIGN_4K (4096 * int q + int off) = 4096 * int q" for q using window_offset [of "int off" q] assms(3) by simp
  have md: "nat (int off mod 4096) = off" using assms(3) by simp
  have "open_window e w pid (4096 * int p + int off) = Some (4096 * int k + int off, w\<lparr>os_root := va, os_caps := ca\<rparr>)"
    using b(2) get_mapped(3) [OF b(3,1,4-6)] c(1) k by (simp add: open_window_def setup_projection_space_def al u32_def)
  then show thesis
    using c by (intro that [where va = va and ca = ca and vb = vb]) (simp_all add: window_bytes_def window_store_def close_window_def destroy_projection_space_def al md
        frame_page_def set_frame_page_def)
qed

subsection \<open>Writing\<close>

lemma put_fcb_entry:
  assumes "pid_getproc w pid = Some pcb" "0 \<le> fd" "fd < int (length (file_table pcb))"
  shows "put_fcb w pid fd fcb = Some (set_pcb w pid (pcb\<lparr>file_table := (file_table pcb)[nat fd := fcb]\<rparr>))"
  using assms by (simp add: put_fcb_def)

lemma set_pcb_frame [simp]:
  "os_root (set_pcb w pid pcb) = os_root w" "os_caps (set_pcb w pid pcb) = os_caps w" "os_fs (set_pcb w pid pcb) = os_fs w"
  by (simp_all add: set_pcb_def)

lemma writefile_handler_file:
  assumes "can_window e w k" "buffer_at w pid p f" "off < 4096" "off + len \<le> 4096" "pid_getproc w pid = Some pcb"
    "0 \<le> fd" "fd < int (length (file_table pcb))"
    "syscall_writefile (os_fs w) (env_stack e) (get_fcb pcb fd) fd (drop off (mem (os_caps w) f)) (int len) = Some (ret, fcb, t)"
  shows "\<exists>vb. writefile_handler e w reply pid fd (4096 * int p + int off) (int len) = Some ([u32 ret],
      free_reply ((set_pcb (w\<lparr>os_fs := t\<rparr>) pid (pcb\<lparr>file_table := (file_table pcb)[nat fd := fcb]\<rparr>))\<lparr>os_root := vb\<rparr>) reply)
    \<and> windowed vb (os_caps w) k k \<and> same_pages (os_root w) vb"
proof -
  obtain va ca vb where v: "open_window e w pid (4096 * int p + int off) = Some (4096 * int k + int off, w\<lparr>os_root := va, os_caps := ca\<rparr>)"
    "\<And>w'. os_root w' = va \<Longrightarrow> os_caps w' = ca \<Longrightarrow> window_bytes w' (4096 * int k + int off) = Some (drop off (mem (os_caps w) f))"
    "\<And>w' m. os_root w' = va \<Longrightarrow> os_caps w' = ca\<lparr>mem := m\<rparr> \<Longrightarrow> close_window w' (4096 * int k + int off)
        = Some (w'\<lparr>os_root := vb, os_caps := (os_caps w)\<lparr>mem := m\<rparr>\<rparr>)"
    "mem ca = mem (os_caps w)" "windowed vb (os_caps w) k k" "same_pages (os_root w) vb"
    using window_on_buffer [OF assms(1-3)] by metis
  let ?q = "pcb\<lparr>file_table := (file_table pcb)[nat fd := fcb]\<rparr>"
  let ?w = "set_pcb (w\<lparr>os_root := va, os_caps := ca, os_fs := t\<rparr>) pid ?q"
  have cl: "close_window ?w (4096 * int k + int off) = Some (?w\<lparr>os_root := vb, os_caps := os_caps w\<rparr>)"
    using v(3) [of ?w "mem ca"] v(4) by simp
  have eq: "?w\<lparr>os_root := vb, os_caps := os_caps w\<rparr> = (set_pcb (w\<lparr>os_fs := t\<rparr>) pid ?q)\<lparr>os_root := vb\<rparr>"
    by (simp add: set_pcb_def)
  have pt: "put_fcb (w\<lparr>os_root := va, os_caps := ca, os_fs := t\<rparr>) pid fd fcb = Some ?w" using assms(5-7) by (intro put_fcb_entry) simp_all
  have "writefile_handler e w reply pid fd (4096 * int p + int off) (int len) = Some ([u32 ret], free_reply (?w\<lparr>os_root := vb, os_caps := os_caps w\<rparr>) reply)"
    using v(1,2) assms(5,8) pt cl by (simp add: writefile_handler_def cross_page_def ok_def)
  then show ?thesis using v(5,6) unfolding eq by blast
qed

lemma small_int:
  "0 \<le> x \<Longrightarrow> x < 2147483648 \<Longrightarrow> i32 x = x" "0 \<le> x \<Longrightarrow> x < 2147483648 \<Longrightarrow> u32 x = x"
  by (simp_all add: i32_def u32_def)

definition reply_saved :: "os \<Rightarrow> os" where
  \<comment> \<open>the first free slot is taken\<close>
  "reply_saved w = w\<lparr>os_caps := (os_caps w)\<lparr>free_slots := tl (free_slots (os_caps w))\<rparr>\<rparr>"

lemma reply_saved [simp]:
  "os_root (reply_saved w) = os_root w" "os_fs (reply_saved w) = os_fs w" "pid_getproc (reply_saved w) pid = pid_getproc w pid"
  "mem (os_caps (reply_saved w)) = mem (os_caps w)" "buffer_at (reply_saved w) pid p f = buffer_at w pid p f"
  by (simp_all add: reply_saved_def buffer_at_def)

lemma free_reply_saved:
  assumes "free_slots (os_caps w) = r # ss" "os_caps w' = (os_caps (reply_saved w))\<lparr>mem := m\<rparr>"
  shows "os_caps (free_reply w' r) = (os_caps w)\<lparr>mem := m\<rparr>"
  using assms by (simp add: free_reply_def vka_cspace_free_def reply_saved_def)

lemma dispatch_write:
  assumes "pid_getproc w pid = Some pcb" "free_slots (os_caps w) = r # ss" "3 \<le> fd" "fd < 32" "n < 4097"
  shows "handle_syscall e w pid (1 # int fd # int n # a # rest)
    = Some (1 # int fd # int n # a # rest, False, Some (WriteFile r pid (int fd) a (int n)), reply_saved w)"
  using assms by (simp add: handle_syscall_def arr_def save_caller_def vka_cspace_alloc_def dispatched_def reply_saved_def small_int)

lemma dispatch_read:
  assumes "pid_getproc w pid = Some pcb" "free_slots (os_caps w) = r # ss" "3 \<le> fd" "fd < 32" "n < 4097"
  shows "handle_syscall e w pid (0 # int fd # int n # a # rest)
    = Some (0 # int fd # int n # a # rest, False, Some (ReadFile r pid (int fd) a (int n)), reply_saved w)"
  using assms by (simp add: handle_syscall_def arr_def save_caller_def vka_cspace_alloc_def dispatched_def reply_saved_def small_int)


subsection \<open>Reading\<close>

lemma readfile_handler_file:
  assumes "can_window e w k" "buffer_at w pid p f" "off < 4096" "pid_getproc w pid = Some pcb" "0 \<le> fd" "fd < int (length (file_table pcb))"
    "syscall_readfile (os_fs w) (env_stack e) (get_fcb pcb fd) fd (drop off (mem (os_caps w) f)) (int len) = Some (ret, fcb, dst)"
  shows "\<exists>vb. readfile_handler e w reply pid fd (4096 * int p + int off) (int len) = Some ([u32 ret, 4096 * int k + int off],
      free_reply ((set_pcb w pid (pcb\<lparr>file_table := (file_table pcb)[nat fd := fcb]\<rparr>))
        \<lparr>os_root := vb, os_caps := (os_caps w)\<lparr>mem := (mem (os_caps w))(f := take off (mem (os_caps w) f) @ dst)\<rparr>\<rparr>) reply)
    \<and> windowed vb (os_caps w) k k \<and> same_pages (os_root w) vb"
proof -
  let ?m = "(mem (os_caps w))(f := take off (mem (os_caps w) f) @ dst)"
  obtain va ca vb where v: "open_window e w pid (4096 * int p + int off) = Some (4096 * int k + int off, w\<lparr>os_root := va, os_caps := ca\<rparr>)"
    "\<And>w'. os_root w' = va \<Longrightarrow> os_caps w' = ca \<Longrightarrow> window_bytes w' (4096 * int k + int off) = Some (drop off (mem (os_caps w) f))"
    "\<And>w' bs. os_root w' = va \<Longrightarrow> os_caps w' = ca \<Longrightarrow> window_store w' (4096 * int k + int off) bs
        = Some (w'\<lparr>os_caps := ca\<lparr>mem := (mem (os_caps w))(f := take off (mem (os_caps w) f) @ bs)\<rparr>\<rparr>)"
    "\<And>w' m. os_root w' = va \<Longrightarrow> os_caps w' = ca\<lparr>mem := m\<rparr> \<Longrightarrow> close_window w' (4096 * int k + int off)
        = Some (w'\<lparr>os_root := vb, os_caps := (os_caps w)\<lparr>mem := m\<rparr>\<rparr>)"
    "windowed vb (os_caps w) k k" "same_pages (os_root w) vb"
    using window_on_buffer [OF assms(1-3)] by metis
  let ?q = "pcb\<lparr>file_table := (file_table pcb)[nat fd := fcb]\<rparr>"
  let ?w1 = "w\<lparr>os_root := va, os_caps := ca\<lparr>mem := ?m\<rparr>\<rparr>"
  have st: "window_store (w\<lparr>os_root := va, os_caps := ca\<rparr>) (4096 * int k + int off) dst = Some ?w1" using v(3) by simp
  have pt: "put_fcb ?w1 pid fd fcb = Some (set_pcb ?w1 pid ?q)" using assms(4-6) by (intro put_fcb_entry) simp_all
  have cl: "close_window (set_pcb ?w1 pid ?q) (4096 * int k + int off) = Some ((set_pcb ?w1 pid ?q)\<lparr>os_root := vb, os_caps := (os_caps w)\<lparr>mem := ?m\<rparr>\<rparr>)"
    using v(4) [of "set_pcb ?w1 pid ?q" ?m] by simp
  have eq: "(set_pcb ?w1 pid ?q)\<lparr>os_root := vb, os_caps := (os_caps w)\<lparr>mem := ?m\<rparr>\<rparr> = (set_pcb w pid ?q)\<lparr>os_root := vb, os_caps := (os_caps w)\<lparr>mem := ?m\<rparr>\<rparr>"
    by (simp add: set_pcb_def)
  have "readfile_handler e w reply pid fd (4096 * int p + int off) (int len) = Some ([u32 ret, 4096 * int k + int off],
      free_reply ((set_pcb ?w1 pid ?q)\<lparr>os_root := vb, os_caps := (os_caps w)\<lparr>mem := ?m\<rparr>\<rparr>) reply)"
    using v(1,2) assms(4,7) st pt cl by (simp add: readfile_handler_def cross_page_def ok_def)
  then show ?thesis using v(5,6) unfolding eq by blast
qed

text \<open>C4. A read call fills the caller's memory from the file. When a process sends the message of \<^verbatim>\<open>read\<close> for a descriptor that is open for reading and a buffer
  inside one mapped page, the dispatcher defers the answer and a worker that serves the request answers with the number of bytes there are, at most the number asked for;
  these bytes of the file, from the descriptor's offset on, are then in the caller's page at the buffer's address, the rest of that page and every other frame are
  as before, and so are the file system, the capability slots and the pages of the system.\<close>

theorem read_call:
  assumes "pid_getproc w pid = Some pcb" "length (file_table pcb) = 32" "3 \<le> fd" "fd < 32" "fcb = file_table pcb ! fd"
    "open_file (os_fs w) (f_inodeOffset fcb) inode ds ps" "f_inuse fcb \<noteq> 0" "mode_can_read (f_flags fcb)"
    "f_offset fcb = int pos" "pos + len < 2147483648"
    "buffer_at w pid p f" "off < 4096" "off + len \<le> 4096" "free_slots (os_caps w) = r # ss" "can_window e (reply_saved w) k"
    "bs = take len (drop pos (file_bytes (os_fs w) inode ds))"
  shows "\<exists>req w1 w2 a. handle_syscall e0 w pid (0 # int fd # int len # (4096 * int p + int off) # rest)
        = Some (0 # int fd # int len # (4096 * int p + int off) # rest, False, Some req, w1)
    \<and> serve e w1 con req = Some ([int (length bs), a], w2, con)
    \<and> mem (os_caps w2) = (mem (os_caps w))(f := take off (mem (os_caps w) f) @ bs @ drop (off + length bs) (mem (os_caps w) f))
    \<and> pid_getproc w2 pid = Some (pcb\<lparr>file_table := (file_table pcb)[fd := fcb\<lparr>f_offset := int (pos + length bs)\<rparr>]\<rparr>)
    \<and> os_fs w2 = os_fs w \<and> free_slots (os_caps w2) = free_slots (os_caps w) \<and> cslot (os_caps w2) = cslot (os_caps w)
    \<and> same_pages (os_root w) (os_root w2)"
proof -
  let ?w = "reply_saved w" and ?dst = "drop off (mem (os_caps w) f)" and ?fcb = "fcb\<lparr>f_offset := int (pos + length bs)\<rparr>"
  have d: "descriptor fcb (int fd)" using assms(3,4,7) by (simp add: descriptor_def MAX_FILE_NUM_def)
  have l: "len \<le> length ?dst" using assms(11,13) by (simp add: buffer_at_def)
  have t: "syscall_readfile (os_fs w) (env_stack e) fcb (int fd) ?dst (int len) = Some (int (length bs), ?fcb, bs @ drop (length bs) ?dst)"
    using readfile_file [OF assms(6) d assms(8,9) l assms(10)] assms(16) by (simp add: Let_def)
  have g: "get_fcb pcb (int fd) = fcb" using assms(2,4,5) by (simp add: get_fcb_def)
  have n: "length bs \<le> 4096" using assms(13,16) by simp
  let ?m = "(mem (os_caps w))(f := take off (mem (os_caps w) f) @ bs @ drop (off + length bs) (mem (os_caps w) f))"
  let ?w3 = "set_pcb ?w pid (pcb\<lparr>file_table := (file_table pcb)[nat (int fd) := ?fcb]\<rparr>)"
  obtain vb where v: "readfile_handler e ?w r pid (int fd) (4096 * int p + int off) (int len) = Some ([u32 (int (length bs)), 4096 * int k + int off],
      free_reply (?w3\<lparr>os_root := vb, os_caps := (os_caps ?w)\<lparr>mem := ?m\<rparr>\<rparr>) r)" "same_pages (os_root w) vb"
    using readfile_handler_file [OF assms(15), of pid p f off pcb "int fd" len "int (length bs)" ?fcb "bs @ drop (length bs) ?dst" r] assms(1,2,4,11,12) t g
    by (auto simp: add.commute)
  let ?w2 = "free_reply (?w3\<lparr>os_root := vb, os_caps := (os_caps ?w)\<lparr>mem := ?m\<rparr>\<rparr>) r"
  have "handle_syscall e0 w pid (0 # int fd # int len # (4096 * int p + int off) # rest)
      = Some (0 # int fd # int len # (4096 * int p + int off) # rest, False, Some (ReadFile r pid (int fd) (4096 * int p + int off) (int len)), ?w)"
    using assms(3,4,13) by (intro dispatch_read [OF assms(1,14)]) simp_all
  moreover have "serve e ?w con (ReadFile r pid (int fd) (4096 * int p + int off) (int len)) = Some ([int (length bs), 4096 * int k + int off], ?w2, con)"
    using v(1) n by (simp add: serve_def small_int)
  moreover have c: "os_caps ?w2 = (os_caps w)\<lparr>mem := ?m\<rparr>" by (rule free_reply_saved [OF assms(14)]) simp
  moreover have "os_fs ?w2 = os_fs w" "os_root ?w2 = vb" "pid_getproc ?w2 pid = pid_getproc ?w3 pid" by (simp_all add: free_reply_def)
  ultimately show ?thesis using v(2) getproc_set_pcb(1) [of ?w pid pcb] assms(1) by (intro exI) auto
qed

subsection \<open>A sample\<close>

definition caller_pcb :: "int \<Rightarrow> PCB" where
  \<comment> \<open>frame 2 is mapped at page 3, descriptor 3 is the sample file at offset \<open>pos\<close>\<close>
  "caller_pcb pos = zero_pcb\<lparr>p_inuse := 1, p_proc := zero_process\<lparr>p_vspace := sample_process\<rparr>, file_table := (replicate 32 zero_fcb)[3 := sample_fcb\<lparr>f_offset := pos\<rparr>]\<rparr>"

definition caller_os :: "int \<Rightarrow> os" where
  "caller_os pos = (sample_os (caller_pcb pos))\<lparr>os_fs := sample_fs, os_root := empty_vspace 2\<rparr>"

definition caller_env :: env where
  "caller_env = sample_env\<lparr>env_stack := sample_stack\<rparr>"

lemma caller_ok:
  "pid_getproc (caller_os pos) 0 = Some (caller_pcb pos)" "length (file_table (caller_pcb pos)) = 32" "sample_fcb\<lparr>f_offset := pos\<rparr> = file_table (caller_pcb pos) ! 3"
  "os_fs (caller_os pos) = sample_fs" "os_caps (caller_os pos) = sample_caps" "buffer_at (caller_os pos) 0 3 2" "can_window caller_env (reply_saved (caller_os pos)) 1"
proof -
  show g: "pid_getproc (caller_os pos) 0 = Some (caller_pcb pos)" by (simp add: caller_os_def sample_os_def pid_getproc_def arr_def MAX_PROCESS_NUM_def)
  show "length (file_table (caller_pcb pos)) = 32" "sample_fcb\<lparr>f_offset := pos\<rparr> = file_table (caller_pcb pos) ! 3" by (simp_all add: caller_pcb_def)
  show "os_fs (caller_os pos) = sample_fs" "os_caps (caller_os pos) = sample_caps" by (simp_all add: caller_os_def sample_os_def)
  then show "buffer_at (caller_os pos) 0 3 2" using g sample_process_ok by (simp add: buffer_at_def sample_caps_def caller_pcb_def EMPTY_def RESERVED_def)
  have "windowed (empty_vspace 2) (os_caps (reply_saved (caller_os pos))) 1 1"
    by (simp add: windowed_def vspace_ok_def empty_vspace_ok) (simp add: empty_vspace_def caller_os_def sample_os_def reply_saved_def sample_caps_def EMPTY_def RESERVED_def)
  then show "can_window caller_env (reply_saved (caller_os pos)) 1"
    by (auto simp: can_window_def caller_env_def sample_env_def caller_os_def empty_vspace_def)
qed


theorem read_call_witness:
  "\<exists>req w1 w2 a. handle_syscall caller_env (caller_os 990) 0 (0 # int 3 # int 300 # (4096 * int 3 + int 16) # [])
        = Some (0 # int 3 # int 300 # (4096 * int 3 + int 16) # [], False, Some req, w1)
    \<and> serve caller_env w1 fresh_console req = Some ([int (length (take 300 (drop 990 (file_bytes (os_fs (caller_os 990)) sample_inode [0])))), a], w2, fresh_console)
    \<and> mem (os_caps w2) = (mem (os_caps (caller_os 990)))(2 := take 16 (mem (os_caps (caller_os 990)) 2) @ take 300 (drop 990 (file_bytes (os_fs (caller_os 990)) sample_inode [0]))
        @ drop (16 + length (take 300 (drop 990 (file_bytes (os_fs (caller_os 990)) sample_inode [0])))) (mem (os_caps (caller_os 990)) 2))
    \<and> pid_getproc w2 0 = Some ((caller_pcb 990)\<lparr>file_table := (file_table (caller_pcb 990))[3 := sample_fcb\<lparr>f_offset := 990, f_offset :=
        int (990 + length (take 300 (drop 990 (file_bytes (os_fs (caller_os 990)) sample_inode [0]))))\<rparr>]\<rparr>)
    \<and> os_fs w2 = os_fs (caller_os 990) \<and> free_slots (os_caps w2) = free_slots (os_caps (caller_os 990)) \<and> cslot (os_caps w2) = cslot (os_caps (caller_os 990))
    \<and> same_pages (os_root (caller_os 990)) (os_root w2)"
proof (rule read_call [where r = 20 and ss = "[21, 22]" and k = 1, OF caller_ok(1,2) _ _ caller_ok(3)])
  show "open_file (os_fs (caller_os 990)) (f_inodeOffset (sample_fcb\<lparr>f_offset := 990\<rparr>)) sample_inode [0] []" using sample_call(1) caller_ok(4) by simp
  show "free_slots (os_caps (caller_os 990)) = 20 # [21, 22]" by (simp add: caller_ok(5) sample_caps_def)
qed (use sample_call caller_ok(4-7) in \<open>simp_all add: descriptor_def\<close>)

end
