(* ===== verification/Swap.thy ===== *)
theory Swap
  imports Calls Paths
begin

text \<open>
  Swapping as a process sees it. \<^verbatim>\<open>page_replace\<close> (\<^verbatim>\<open>os/src/vm/vmfault_handler.c\<close>) saves the page of a victim to its page file and gives
  its frame to another page; when the victim is touched again, its bytes are loaded into the frame of the next victim. The page files are
  files like any other (\<^verbatim>\<open>os/src/filesystem/pagefile.c\<close>), reached through a window of the system onto the frame.
\<close>

lemma frame_window:
  assumes "can_window e w k" "cslot (os_caps w) cap = Some f"
  obtains va ca vb where "sel4utils_dup_and_map (env_map e) (os_root w) (os_caps w) cap 12 = Some (Some (4096 * int k), va, ca)"
    "cslot ca cap = Some f" "mem ca = mem (os_caps w)"
    "\<And>m. sel4utils_unmap_dup va (ca\<lparr>mem := m\<rparr>) (4096 * int k) 12 = Some (vb, (os_caps w)\<lparr>mem := m\<rparr>)"
    "windowed vb (os_caps w) k k" "same_pages (os_root w) vb"
proof -
  from assms(1) obtain l where w: "windowed (os_root w) (os_caps w) l k" "2 \<le> levels (os_root w)" "\<And>s. env_map e s (4096 * int k) = 0"
    by (auto simp: can_window_def)
  show thesis using window_cycle [where map_page = "env_map e", OF w(1,2) assms(2) w(3)] that by metis
qed

lemma save_page_spec:
  assumes "can_window e w k" "cslot (os_caps w) cap = Some f" "write_page_to_file (os_fs w) (env_stack e) name (mem (os_caps w) f) = Some t"
  shows "\<exists>vb. save_page e w name cap = Some (w\<lparr>os_root := vb, os_fs := t\<rparr>) \<and> windowed vb (os_caps w) k k \<and> same_pages (os_root w) vb"
proof -
  obtain va ca vb where c: "sel4utils_dup_and_map (env_map e) (os_root w) (os_caps w) cap 12 = Some (Some (4096 * int k), va, ca)"
    "cslot ca cap = Some f" "mem ca = mem (os_caps w)"
    "\<And>m. sel4utils_unmap_dup va (ca\<lparr>mem := m\<rparr>) (4096 * int k) 12 = Some (vb, (os_caps w)\<lparr>mem := m\<rparr>)"
    "windowed vb (os_caps w) k k" "same_pages (os_root w) vb" using frame_window [OF assms(1,2)] by metis
  have "ca\<lparr>mem := mem ca\<rparr> = ca" by simp
  then have "sel4utils_unmap_dup va ca (4096 * int k) 12 = Some (vb, os_caps w)" using c(4) [of "mem ca"] c(3) by (metis capspace.surjective capspace.update_convs(4))
  then have "save_page e w name cap = Some (w\<lparr>os_root := vb, os_fs := t\<rparr>)" using c(1-3) assms(3) by (simp add: save_page_def frame_page_def)
  then show ?thesis using c(5,6) by blast
qed

lemma load_page_spec:
  assumes "can_window e w k" "cslot (os_caps w) cap = Some f" "read_file_to_page (os_fs w) (env_stack e) name (mem (os_caps w) f) = Some page"
  shows "\<exists>vb. load_page e w name cap = Some (w\<lparr>os_root := vb, os_caps := (os_caps w)\<lparr>mem := (mem (os_caps w))(f := page)\<rparr>\<rparr>)
    \<and> windowed vb (os_caps w) k k \<and> same_pages (os_root w) vb"
proof -
  obtain va ca vb where c: "sel4utils_dup_and_map (env_map e) (os_root w) (os_caps w) cap 12 = Some (Some (4096 * int k), va, ca)"
    "cslot ca cap = Some f" "mem ca = mem (os_caps w)"
    "\<And>m. sel4utils_unmap_dup va (ca\<lparr>mem := m\<rparr>) (4096 * int k) 12 = Some (vb, (os_caps w)\<lparr>mem := m\<rparr>)"
    "windowed vb (os_caps w) k k" "same_pages (os_root w) vb" using frame_window [OF assms(1,2)] by metis
  then have "load_page e w name cap = Some (w\<lparr>os_root := vb, os_caps := (os_caps w)\<lparr>mem := (mem (os_caps w))(f := page)\<rparr>\<rparr>)"
    using assms(3) by (simp add: load_page_def frame_page_def set_frame_page_def)
  then show ?thesis using c(5,6) by blast
qed

definition resident :: "process \<Rightarrow> capspace \<Rightarrow> nat \<Rightarrow> VFrame \<Rightarrow> nat \<Rightarrow> nat \<Rightarrow> bool" where
  \<comment> \<open>the virtual frame is the page \<open>pg\<close> of the process and \<open>f\<close> its memory\<close>
  "resident p c i vf pg f \<longleftrightarrow> get_vf (vframes p) i = Some vf \<and> (\<exists>r. vf_reserve vf = Some r \<and> r_start r = 4096 * int pg) \<and> pg < 1047552
     \<and> tables_ok (p_vspace p) \<and> length (mem c f) = 4096
     \<and> (\<exists>cap cookie. entry (p_vspace p) pg = (cap, cookie) \<and> cap \<noteq> EMPTY \<and> cap \<noteq> RESERVED \<and> cslot c cap = Some f)"

definition others_kept :: "fs \<Rightarrow> files \<Rightarrow> int \<Rightarrow> fs \<Rightarrow> files \<Rightarrow> bool" where
  \<comment> \<open>every regular file but the one at \<open>off\<close> is found under its path and has its bytes\<close>
  "others_kept s F off t F' \<longleftrightarrow> (\<forall>ns2 off2. regular s F ns2 off2 \<and> off2 \<noteq> off \<longrightarrow> regular t F' ns2 off2 \<and> bytes_at t F' off2 = bytes_at s F off2)"


text \<open>C6. A page that comes back has the bytes it had. When a process touches a page whose bytes are in its page file and is given the frame of a victim, whatever that frame
  contains, \<^verbatim>\<open>page_replace\<close> from line 84 on fills the frame with the saved bytes and maps it at the page; no other frame, no other page of the process and no
  file changes, and the virtual frame is marked as resident.\<close>

theorem page_in_restores:
  assumes "get_vf (vframes p) i = Some vf" "vf_reserve vf = Some r" "r_start r = 4096 * int pg" "r_end r = 4096 * int (Suc pg)" "\<not> r_deferred r"
    "pg < 1047552" "tables_ok (p_vspace p)" "1 \<le> levels (p_vspace p)" "fst (entry (p_vspace p) pg) = RESERVED"
    "vf_pagefile vf = Some (path_of ns)" "regular (os_fs w) F ns off" "take 4096 (bytes_at (os_fs w) F off) = page" "length page = 4096"
    "cslot (os_caps w) tmp = Some g" "length (mem (os_caps w) g) = 4096" "can_window e w k" "env_map e tmp (4096 * int pg) = 0"
  shows "\<exists>p' w'. page_in e w p i tmp = Some (p', w')
    \<and> frame_page (os_caps w') tmp = Some page \<and> (\<forall>h. h \<noteq> g \<longrightarrow> mem (os_caps w') h = mem (os_caps w) h)
    \<and> (\<forall>j < 1048576. entry (p_vspace p') j = (if j = pg then (tmp, 0) else entry (p_vspace p) j))
    \<and> os_fs w' = os_fs w \<and> proc_table w' = proc_table w \<and> get_vf (vframes p') i = Some (vf\<lparr>vf_inRAM := 1\<rparr>)"
proof -
  obtain vb where l: "load_page e w (path_of ns) tmp = Some (w\<lparr>os_root := vb, os_caps := (os_caps w)\<lparr>mem := (mem (os_caps w))(g := page)\<rparr>\<rparr>)"
    using load_page_spec [OF assms(16,14) page_read [OF assms(11-13,15)]] by blast
  obtain v' where v': "sel4utils_map_pages_at_vaddr (env_map e) (p_vspace p) [(tmp, 0)] (4096 * int pg) 12 r = Some (0, v')"
    "set_pages (p_vspace p) pg (Suc pg) (tmp, 0) v'"
    using map_page_spec [where map_page = "env_map e", OF assms(7,6,8,9,3,4,5,17)] by blast
  let ?w = "w\<lparr>os_root := vb, os_caps := (os_caps w)\<lparr>mem := (mem (os_caps w))(g := page)\<rparr>\<rparr>"
  let ?p = "p\<lparr>p_vspace := v', vframes := upd_vf i (vf_inRAM_update (\<lambda>_. 1)) (vframes p)\<rparr>"
  have "page_in e w p i tmp = Some (?p, ?w)" using assms(1-3,10) l v'(1) by (simp add: page_in_def)
  moreover have "entry v' j = (if j = pg then (tmp, 0) else entry (p_vspace p) j)" if "j < 1048576" for j
    using v'(2) that by (auto simp: set_pages_def)
  moreover have "frame_page (os_caps ?w) tmp = Some page" using assms(14) by (simp add: frame_page_def)
  moreover have "get_vf (vframes ?p) i = Some (vf\<lparr>vf_inRAM := 1\<rparr>)" using get_upd_vf assms(1) by simp
  ultimately show ?thesis by (intro exI [of _ ?p] exI [of _ ?w]) simp
qed

subsection \<open>A sample\<close>

definition swap_vframe :: VFrame where
  \<comment> \<open>page 3 of the sample process, modified, with a page file\<close>
  "swap_vframe = (sample_vf 3 1)\<lparr>vf_dirty := 1, vf_pagefile := Some (path_of [str ''page0''])\<rparr>"

definition swap_process :: process where
  "swap_process = zero_process\<lparr>p_vspace := sample_process, vframes := [swap_vframe]\<rparr>"

definition away_process :: process where
  \<comment> \<open>the same page, swapped out\<close>
  "away_process = zero_process\<lparr>p_vspace := (empty_vspace 4)\<lparr>top_level := (replicate 1024 NoTable)[0 := AllReserved]\<rparr>, vframes := [swap_vframe\<lparr>vf_inRAM := 0\<rparr>]\<rparr>"

definition swap_os :: os where
  "swap_os = (sample_os zero_pcb)\<lparr>os_fs := sample_tree, os_root := empty_vspace 2\<rparr>"

lemma swap_os_ok: "os_fs swap_os = sample_tree" "os_caps swap_os = sample_caps" "can_window caller_env swap_os 1"
proof -
  show c: "os_fs swap_os = sample_tree" "os_caps swap_os = sample_caps" by (simp_all add: swap_os_def sample_os_def)
  have "windowed (empty_vspace 2) sample_caps 1 1"
    by (simp add: windowed_def vspace_ok_def empty_vspace_ok) (simp add: empty_vspace_def sample_caps_def EMPTY_def RESERVED_def)
  then show "can_window caller_env swap_os 1"
    unfolding can_window_def c(2) by (auto simp: swap_os_def caller_env_def sample_env_def empty_vspace_def)
qed


definition stored_tree :: fs where
  "stored_tree = the (write_page_to_file sample_tree sample_stack (path_of [str ''page0'']) (replicate 4096 7))"

lemma stored_tree_ok: "\<exists>F. regular stored_tree F [str ''page0''] (inode_addr 5) \<and> take 4096 (bytes_at stored_tree F (inode_addr 5)) = replicate 4096 7"
proof -
  obtain t F where "write_page_to_file sample_tree sample_stack (path_of [str ''page0'']) (replicate 4096 7) = Some t"
    "regular t F [str ''page0''] (inode_addr 5)" "take 4096 (bytes_at t F (inode_addr 5)) = replicate 4096 7"
    using page_written [OF sample_regular sample_page_file(1) _ sample_page_file(4,3), of "replicate 4096 7"] by auto
  then show ?thesis by (auto simp: stored_tree_def)
qed

theorem page_in_restores_witness:
  "\<exists>p' w'. page_in caller_env (swap_os\<lparr>os_fs := stored_tree\<rparr>) away_process 3 7 = Some (p', w')
    \<and> frame_page (os_caps w') 7 = Some (replicate 4096 7) \<and> (\<forall>h. h \<noteq> 2 \<longrightarrow> mem (os_caps w') h = mem (os_caps (swap_os\<lparr>os_fs := stored_tree\<rparr>)) h)
    \<and> (\<forall>j < 1048576. entry (p_vspace p') j = (if j = 3 then (7, 0) else entry (p_vspace away_process) j))
    \<and> os_fs w' = os_fs (swap_os\<lparr>os_fs := stored_tree\<rparr>) \<and> proc_table w' = proc_table (swap_os\<lparr>os_fs := stored_tree\<rparr>)
    \<and> get_vf (vframes p') 3 = Some (swap_vframe\<lparr>vf_inRAM := 0, vf_inRAM := 1\<rparr>)"
proof -
  obtain F where F: "regular stored_tree F [str ''page0''] (inode_addr 5)" "take 4096 (bytes_at stored_tree F (inode_addr 5)) = replicate 4096 7"
    using stored_tree_ok by blast
  show ?thesis
  proof (rule page_in_restores [where r = "the (vf_reserve swap_vframe)" and F = F and k = 1])
    show "tables_ok (p_vspace away_process)"
      by (auto simp: away_process_def tables_ok_def dest!: set_update_subset_insert [THEN subsetD])
    show "can_window caller_env (swap_os\<lparr>os_fs := stored_tree\<rparr>) 1" using swap_os_ok(3) by (simp add: can_window_def)
  qed (use F in \<open>simp_all add: away_process_def get_vf_def swap_vframe_def sample_vf_def empty_vspace_def entry_def swap_os_ok(2) sample_caps_def caller_env_def sample_env_def\<close>)
qed

end
