(* ===== verification/Release.thy ===== *)
theory Release
  imports Names
begin

text \<open>
  Removing a file: \<^verbatim>\<open>freeLastBlock\<close>, \<^verbatim>\<open>freeBlock\<close> and \<^verbatim>\<open>freeInode\<close> (\<^verbatim>\<open>ext.c\<close>) and \<^verbatim>\<open>syscall_unlink\<close> (\<^verbatim>\<open>fs.c\<close>). The
  blocks go back to the bitmap from the last one on, each pointer block together with the first block it holds a
  pointer to; then the inode goes back and the entry of the directory is cleared. Over the files of theory \<open>Paths\<close>
  this takes one file away and clears one entry, which is the converse of what theory \<open>Names\<close> shows of \<^verbatim>\<open>syscall_open\<close>.
\<close>

subsection \<open>Giving blocks back\<close>

lemma count_add_media [simp]: "media_of (block_count_add c s) = media_of s" "media_of (inode_count_add c s) = media_of s"
  by (simp_all add: block_count_add_def inode_count_add_def)

lemma commit_region:
  assumes "mounted s" "addr + length bm \<le> 4096" "4096 \<le> a"
  shows "rd_at (media_of (commit s addr bm)) a l = rd_at (media_of s) a l"
  using assms by (simp add: commit_def rd_at_blit_disjoint mounted_def)

definition released :: "fs \<Rightarrow> fs \<Rightarrow> int \<Rightarrow> nat list \<Rightarrow> bool" where
  \<comment> \<open>from \<open>s\<close> to \<open>t\<close> the blocks \<open>us\<close> were given back; no block and no inode but the one at \<open>off\<close> was written\<close>
  "released s t off us \<longleftrightarrow> block_accounted t \<and> block_units t = block_units s
     \<and> block_avail t = block_avail s + int (length us)
     \<and> (\<forall>k. used (block_bm t) k \<longleftrightarrow> used (block_bm s) k \<and> k \<notin> set us)
     \<and> (\<forall>v. block_of t v = block_of s v)
     \<and> inode_bm t = inode_bm s \<and> inode_avail t = inode_avail s \<and> inode_units t = inode_units s \<and> inode_accounted t = inode_accounted s
     \<and> (\<forall>off'. inode_offset off' \<and> off' \<noteq> off \<longrightarrow> inode_at (media_of t) off' = inode_at (media_of s) off')"

lemma released_refl: "block_accounted s \<Longrightarrow> released s s off []"
  by (simp add: released_def)

lemma released_trans: "released s t off us \<Longrightarrow> released t v off vs \<Longrightarrow> released s v off (us @ vs)"
  unfolding released_def by (intro conjI) auto

lemma released_mounted: "released s t off us \<Longrightarrow> mounted t"
  by (simp add: released_def block_accounted_def block_ready_def)

lemma released_put_inode:
  "block_accounted s \<Longrightarrow> inode_offset off \<Longrightarrow> wf_inode inode \<Longrightarrow> released s (put_inode s off inode) off []"
  by (simp add: released_def ready_put_inode put_inode_regions inode_at_put_inode inode_avail_def inode_units_def inode_accounted_def
      inode_ready_def)

lemma block_freed_rest:
  assumes "block_ready s" "block_avail s < 8192"
  shows "block_of (block_freed s n) u = block_of s u" "inode_bm (block_freed s n) = inode_bm s"
    "inode_offset off \<Longrightarrow> inode_at (media_of (block_freed s n)) off = inode_at (media_of s) off"
    "inode_avail (block_freed s n) = inode_avail s" "inode_units (block_freed s n) = inode_units s"
    "inode_accounted (block_freed s n) = inode_accounted s"
proof -
  have m: "mounted (block_count_add 1 s)" "mounted s"
    using assms by (auto intro!: mounted_count_add simp: block_ready_def block_avail_def)
  have region: "4096 \<le> a \<Longrightarrow> rd_at (media_of (block_freed s n)) a l = rd_at (media_of s) a l" for a l
    using m(1) by (simp add: block_freed_def commit_region)
  then show "block_of (block_freed s n) u = block_of s u"
    "inode_offset off \<Longrightarrow> inode_at (media_of (block_freed s n)) off = inode_at (media_of s) off"
    by (auto simp: block_of_def block_byte_def inode_offset_def inode_at_def inode_addr_def)
  show i: "inode_bm (block_freed s n) = inode_bm s" using m by (simp add: block_freed_def) (simp add: inode_bm_def)
  show u: "inode_avail (block_freed s n) = inode_avail s" "inode_units (block_freed s n) = inode_units s"
    by (simp_all add: inode_units_def inode_avail_def block_freed_def block_count_add_def)
  have "mounted (block_freed s n)" using m by (simp add: block_freed_def)
  then have "inode_ready (block_freed s n) = inode_ready s"
    using m by (simp add: inode_ready_def) (simp add: block_freed_def block_count_add_def)
  then show "inode_accounted (block_freed s n) = inode_accounted s" by (simp add: inode_accounted_def i u)
qed

lemma setFree_used:
  assumes "block_accounted s" "u < block_units s" "used (block_bm s) u"
  shows "\<exists>t. setFree s (block_addr u) = Some t \<and> released s t off [u]"
proof -
  note f = blk.accounted_freed [unfolded accounted_pool, OF assms]
  have "block_ready s" "block_ready (block_freed s u)" using assms(1) f(2) by (simp_all add: block_accounted_def)
  then have "block_avail s < 8192" using f(3) blk.ready_pool [of "block_freed s u"] by simp
  note r = block_freed_rest [OF \<open>block_ready s\<close> this]
  have "setFree s (block_addr u) = Some (block_freed s u)" using f(1) by (simp add: setFree_def)
  moreover have "released s (block_freed s u) off [u]" using f r by (auto simp: released_def)
  ultimately show ?thesis by blast
qed

lemma setFree_next:
  assumes "released s t off us" "owned s (us @ [u])"
  shows "\<exists>t'. setFree t (block_addr u) = Some t' \<and> released s t' off (us @ [u])"
proof -
  have "block_accounted t" "u < block_units t" "used (block_bm t) u" using assms by (auto simp: released_def owned_def)
  then show ?thesis using setFree_used [of t u off] released_trans [OF assms(1)] by blast
qed

subsection \<open>The last block of a file\<close>

lemma linked_butlast:
  assumes "linked s inode (ds @ [u]) ps" "length ps = pointer_blocks (Suc (length ds))" "\<And>v. block_of t v = block_of s v"
  shows "linked t (inode\<lparr>i_blockCount := c\<rparr>) ds (take (pointer_blocks (length ds)) ps)"
proof -
  let ?m = "pointer_blocks (length ds)"
  have p: "ptrs t v = ptrs s v" for v using assms(3) by (simp add: ptrs_def)
  have m: "?m \<le> length ps" using assms(2) by (simp add: pointer_blocks_Suc)
  note b = pointer_blocks_bound(2,3) [of "length ds"] pointer_blocks_bound(4) [of _ "length ds"]
  have q: "take ?m ps ! j = ps ! j" if "j < ?m" for j using that by simp
  have l: "i_pointer inode ! i = block_addr (ds ! i)" if "i < length ds" "i < 12" for i
    using assms(1) that by (auto simp: linked_def nth_append)
  moreover have "i_singly inode = block_addr (ps ! 0)" if "12 < length ds" using assms(1) that by (simp add: linked_def)
  moreover have "ptrs s (ps ! 0) ! (i - 12) = block_addr (ds ! i)" if "i < length ds" "12 \<le> i" "i < 268" for i
    using assms(1) that by (auto simp: linked_def nth_append)
  moreover have "i_doubly inode = block_addr (ps ! 1)" if "268 < length ds" using assms(1) that by (simp add: linked_def)
  moreover have "ptrs s (ps ! 1) ! j = block_addr (ps ! (2 + j))" if "2 + j < ?m" for j
    using assms(1) that m by (simp add: linked_def)
  moreover have "ptrs s (ps ! (2 + (i - 268) div 256)) ! ((i - 268) mod 256) = block_addr (ds ! i)" if "i < length ds" "268 \<le> i" for i
    using assms(1) that by (auto simp: linked_def nth_append)
  ultimately show ?thesis unfolding linked_def p using b m by (auto simp: q)
qed

definition shrunk :: "fs \<Rightarrow> Inode \<Rightarrow> nat list \<Rightarrow> nat \<Rightarrow> nat list \<Rightarrow> int \<Rightarrow> fs option \<Rightarrow> bool" where
  \<comment> \<open>\<open>r\<close> is the state after the last block \<open>u\<close> and the pointer blocks that only it needed were given back\<close>
  "shrunk s inode ds u ps off r \<longleftrightarrow> (\<exists>t. r = Some t \<and> released s t off (u # rev (drop (pointer_blocks (length ds)) ps)))"

lemma free_chain:
  assumes "block_accounted s" "owned s us"
  shows "us = [u] \<Longrightarrow> \<exists>t. setFree s (block_addr u) = Some t \<and> released s t off us"
    "us = [u, v] \<Longrightarrow> \<exists>t. do { s \<leftarrow> setFree s (block_addr u); setFree s (block_addr v) } = Some t \<and> released s t off us"
    "us = [u, v, w] \<Longrightarrow> \<exists>t. do { s \<leftarrow> setFree s (block_addr u); s \<leftarrow> setFree s (block_addr v); setFree s (block_addr w) } = Some t
       \<and> released s t off us"
proof -
  have step: "\<exists>t'. setFree t (block_addr u) = Some t' \<and> released s t' off (vs @ [u])" if "released s t off vs" "us = vs @ [u] @ ws" for t vs u ws
    using that assms(2) by (intro setFree_next) (auto simp: owned_def)
  have nil: "released s s off []" by (rule released_refl [OF assms(1)])
  show "\<exists>t. setFree s (block_addr u) = Some t \<and> released s t off us" if "us = [u]" using step [OF nil, of u "[]"] that by simp
  show "\<exists>t. do { s \<leftarrow> setFree s (block_addr u); setFree s (block_addr v) } = Some t \<and> released s t off us" if us: "us = [u, v]"
  proof -
    obtain t where t: "setFree s (block_addr u) = Some t" "released s t off [u]" using step [OF nil, of u "[v]"] us by auto
    then show ?thesis using step [OF t(2), of v "[]"] us by simp
  qed
  show "\<exists>t. do { s \<leftarrow> setFree s (block_addr u); s \<leftarrow> setFree s (block_addr v); setFree s (block_addr w) } = Some t
       \<and> released s t off us" if us: "us = [u, v, w]"
  proof -
    obtain t where t: "setFree s (block_addr u) = Some t" "released s t off [u]" using step [OF nil, of u "[v, w]"] us by auto
    obtain t' where t': "setFree t (block_addr v) = Some t'" "released s t' off [u, v]" using step [OF t(2), of v "[w]"] us by auto
    then show ?thesis using step [OF t'(2), of w "[]"] us t by simp
  qed
qed

lemma free_pointer:
  assumes "file_at s inode (ds @ [u]) ps"
  defines "inode' \<equiv> inode\<lparr>i_blockCount := int (length ds)\<rparr>"
  shows "shrunk s inode ds u ps off (if length ds < 268 then freeSingly s inode' else freeDoubly s inode')"
proof -
  note b = file_bound [OF assms(1)]
  note d = mounted_dims [OF b(4)]
  let ?n = "length ds" and ?us = "u # rev (drop (pointer_blocks (length ds)) ps)"
  have f: "linked s inode (ds @ [u]) ps" "length (i_pointer inode) = 12" "length ps = pointer_blocks (Suc ?n)" "block_accounted s"
    "owned s (ds @ [u] @ ps)" using assms(1) by (simp_all add: file_at_def wf_inode_def)
  have own: "owned s ?us" using f(5) set_drop_subset [of _ ps] by (auto simp: owned_def)
  note chain = free_chain [OF f(4) own]
  note L = f(1) [unfolded linked_def]
  have i: "i_blockCount inode' = int ?n" "i_pointer inode' = i_pointer inode" "i_singly inode' = i_singly inode" "i_doubly inode' = i_doubly inode"
    by (simp_all add: inode'_def)
  have last: "(ds @ [u]) ! ?n = u" by simp
  have rd: "read_ptrs s (block_addr (ps ! j)) = Some (ptrs s (ps ! j))" if "j < length ps" for j
    using read_ptrs_block [OF b(4)] b(3) [OF that] by simp
  consider (direct) "?n < 12" | (singly) "12 \<le> ?n" "?n < 268" | (doubly) "268 \<le> ?n" by linarith
  then show ?thesis
  proof cases
    case direct
    then have us: "?us = [u]" using f(3) by (simp add: pointer_blocks_def)
    have "i_pointer inode ! ?n = block_addr u" using L direct last by fastforce
    then show ?thesis unfolding shrunk_def using direct chain(1) [OF us] f(2) by (simp add: freeSingly_def i d arr_nth Let_def)
  next
    case singly
    have p0: "i_singly inode = block_addr (ps ! 0)" "0 < length ps" using L singly f(3) pointer_blocks_bound(2) [of "Suc ?n"] by simp_all
    have w: "ptrs s (ps ! 0) ! (?n - 12) = block_addr u" using L singly last by fastforce
    have a: "arr (ptrs s (ps ! 0)) (int ?n - 12) = Some (block_addr u)" using singly w by (auto simp: arr_def nat_diff_distrib)
    show ?thesis
    proof (cases "?n = 12")
      case True
      then have us: "?us = [u, ps ! 0]" using f(3) by (cases ps) (simp_all add: pointer_blocks_def)
      have "arr (ptrs s (ps ! 0)) 0 = Some (block_addr u)" using w True by (simp add: arr_def)
      note a0 = this
      show ?thesis unfolding shrunk_def using True chain(2) [OF us] p0(1) rd [OF p0(2)] by (simp add: freeSingly_def i d a0)
    next
      case False
      then have us: "?us = [u]" using f(3) singly by (simp add: pointer_blocks_def)
      show ?thesis unfolding shrunk_def using False singly chain(1) [OF us] p0(1) rd [OF p0(2)] by (simp add: freeSingly_def i d a)
    qed
  next
    case doubly
    let ?q = "2 + (?n - 268) div 256"
    have q: "?q < length ps" "1 < length ps" using pointer_blocks_bound(4) [OF doubly, of "Suc ?n"] f(3) by simp_all
    have small: "(?n - 268) div 256 < 256" using b(1) by simp
    note e = doubly_index [OF doubly]
    have p1: "i_doubly inode = block_addr (ps ! 1)" "ptrs s (ps ! 1) ! ((?n - 268) div 256) = block_addr (ps ! ?q)" using L doubly q by simp_all
    have w: "ptrs s (ps ! ?q) ! ((?n - 268) mod 256) = block_addr u" using L doubly last by fastforce
    have a: "arr (ptrs s (ps ! 1)) (cdiv (int ?n - 268) 256) = Some (block_addr (ps ! ?q))"
      "arr (ptrs s (ps ! ?q)) (cmod (int ?n - 268) 256) = Some (block_addr u)"
      using small p1(2) w unfolding e by (simp_all add: arr_nth)
    have z: "arr (ptrs s (ps ! ?q)) 0 = Some (block_addr u)" if "(?n - 268) mod 256 = 0" using w that by (simp add: arr_def)
    note rds = rd [OF q(1)] rd [OF q(2)]
    consider (first) "?n = 268" | (next') "268 < ?n" "(?n - 268) mod 256 = 0" | (inner) "268 < ?n" "(?n - 268) mod 256 \<noteq> 0"
      using doubly by linarith
    then show ?thesis
    proof cases
      case first
      then have us: "?us = [u, ps ! 2, ps ! 1]" using f(3)
        by (simp add: pointer_blocks_def numeral_2_eq_2 length_Suc_conv) auto
      have a0: "arr (ptrs s (ps ! 1)) 0 = Some (block_addr (ps ! 2))" "arr (ptrs s (ps ! 2)) 0 = Some (block_addr u)"
        using p1(2) w first by (simp_all add: arr_def numeral_2_eq_2)
      show ?thesis unfolding shrunk_def using first chain(3) [OF us] p1(1) rds by (simp add: freeDoubly_def i d a0 [unfolded One_nat_def numeral_2_eq_2] numeral_2_eq_2 Let_def)
    next
      case next'
      have "(?n - 268 + 255) div 256 = (?n - 268) div 256" using begun_eq [of 256 "?n - 268"] next'(2) by (simp add: begun_def)
      then have "pointer_blocks ?n = ?q" unfolding pointer_blocks_def using next'(1) by (simp only: if_False not_le) simp
      moreover have "length ps = Suc ?q" using f(3) next' calculation by (simp add: pointer_blocks_Suc)
      ultimately have us: "?us = [u, ps ! ?q]" using q(1) by (simp add: Cons_nth_drop_Suc [symmetric])
      show ?thesis unfolding shrunk_def using next' chain(2) [OF us] p1(1) rds e(2)
        by (simp add: freeDoubly_def i d a [unfolded One_nat_def add_2_eq_Suc] z [OF next'(2), unfolded add_2_eq_Suc] Let_def)
    next
      case inner
      then have us: "?us = [u]" using f(3) by (simp add: pointer_blocks_Suc)
      show ?thesis unfolding shrunk_def using inner chain(1) [OF us] p1(1) rds e(2)
        by (simp add: freeDoubly_def i d a [unfolded One_nat_def add_2_eq_Suc] a(2) [unfolded e add_2_eq_Suc] Let_def)
    qed
  qed
qed

lemma freeLastBlock_file:
  assumes "file_at s inode (ds @ [u]) ps" "inode_offset off"
  defines "inode' \<equiv> inode\<lparr>i_blockCount := int (length ds)\<rparr>" and "m \<equiv> pointer_blocks (length ds)"
  shows "\<exists>t. freeLastBlock s inode off = Some (0, inode', t) \<and> released s t off (u # rev (drop m ps))
    \<and> file_at t inode' ds (take m ps)"
proof -
  note b = file_bound [OF assms(1)]
  note d = mounted_dims [OF b(4)]
  have f: "linked s inode (ds @ [u]) ps" "length ps = pointer_blocks (Suc (length ds))" "owned s (ds @ [u] @ ps)"
    "wf_inode inode" "i_blockCount inode = int (Suc (length ds))"
    using assms(1) by (simp_all add: file_at_def)
  have wf: "wf_inode inode'" using f(4) b(1) by (simp add: wf_inode_def inode'_def in32_def)
  have bc: "i32 (i_blockCount inode - 1) = int (length ds)" using f(5) b(1) by (simp add: i32_id in32_def)
  obtain t where t: "(if length ds < 268 then freeSingly s inode' else freeDoubly s inode') = Some t" "released s t off (u # rev (drop m ps))"
    using free_pointer [OF assms(1)] unfolding shrunk_def inode'_def m_def by blast
  have acc: "block_accounted t" using t(2) by (simp add: released_def)
  let ?t = "put_inode t off inode'"
  have r: "released s ?t off (u # rev (drop m ps))"
    using released_trans [OF t(2) released_put_inode [OF acc assms(2) wf]] by simp
  have "freeLastBlock s inode off = Some (0, inode', ?t)"
    using t(1) b(1) write_inode [OF assms(2) wf, of t] unfolding inode'_def
    by (simp add: freeLastBlock_def bc d put_inode_def Let_def split: if_splits)
  moreover have "linked ?t inode' ds (take m ps)"
    unfolding inode'_def m_def by (rule linked_butlast [OF f(1,2)]) (use r in \<open>simp add: released_def inode'_def\<close>)
  moreover have "owned ?t (ds @ take m ps)"
  proof -
    have "distinct (take m ps @ drop m ps)" using f(3) by (simp add: owned_def)
    then have dis: "set (take m ps) \<inter> set (drop m ps) = {}" by (simp only: distinct_append)
    have sub: "set (take m ps) \<subseteq> set ps" "set (drop m ps) \<subseteq> set ps" by (rule set_take_subset, rule set_drop_subset)
    have o: "distinct ds" "set ds \<inter> set ps = {}" "u \<notin> set ds" "u \<notin> set ps" "distinct ps"
      "\<And>v. v \<in> set ds \<union> set ps \<Longrightarrow> v < block_units s \<and> used (block_bm s) v" using f(3) by (auto simp: owned_def)
    have "distinct (ds @ take m ps)" using o(1,2,5) sub(1) by auto
    moreover have "v < block_units ?t \<and> used (block_bm ?t) v" if "v \<in> set ds \<union> set (take m ps)" for v
    proof -
      have "v \<notin> set (drop m ps)" "v \<noteq> u" "v \<in> set ds \<union> set ps" using that dis sub o(2-4) by auto
      then show ?thesis using o(6) [of v] r by (simp add: released_def)
    qed
    ultimately show ?thesis by (simp add: owned_def)
  qed
  moreover have "block_accounted ?t" using r by (simp add: released_def)
  ultimately show ?thesis using r wf f(2) unfolding file_at_def
    by (intro exI [of _ ?t]) (simp add: inode'_def m_def pointer_blocks_Suc)
qed

lemma freeBlock_file:
  assumes "file_at s inode ds ps" "inode_offset off"
  shows "\<exists>t us. freeBlock s inode off = Some (0, inode\<lparr>i_blockCount := 0\<rparr>, t) \<and> released s t off us
    \<and> set us = set ds \<union> set ps \<and> length us = length ds + length ps"
  using assms(1)
proof (induction ds arbitrary: s inode ps rule: rev_induct)
  case Nil
  then have "i_blockCount inode = 0" "ps = []" "block_accounted s" by (auto simp: file_at_def pointer_blocks_def)
  then show ?case using released_refl [of s off]
    by (intro exI [of _ s] exI [of _ "[]"]) (simp add: freeBlock.simps [of s inode])
next
  case (snoc u ds)
  let ?m = "pointer_blocks (length ds)" and ?inode = "inode\<lparr>i_blockCount := int (length ds)\<rparr>"
  obtain t where t: "freeLastBlock s inode off = Some (0, ?inode, t)" "released s t off (u # rev (drop ?m ps))" "file_at t ?inode ds (take ?m ps)"
    using freeLastBlock_file [OF snoc.prems assms(2)] by blast
  obtain v us where v: "freeBlock t ?inode off = Some (0, inode\<lparr>i_blockCount := 0\<rparr>, v)" "released t v off us" "set us = set ds \<union> set (take ?m ps)"
    "length us = length ds + length (take ?m ps)"
    using snoc.IH [OF t(3)] by auto
  have p: "set (take ?m ps) \<union> set (drop ?m ps) = set ps" by (metis append_take_drop_id set_append)
  have c: "i_blockCount inode \<noteq> 0" using snoc.prems by (simp add: file_at_def)
  let ?us = "(u # rev (drop ?m ps)) @ us"
  have "freeBlock s inode off = Some (0, inode\<lparr>i_blockCount := 0\<rparr>, v)"
    using t(1) v(1) c by (subst freeBlock.simps) simp
  moreover have "set ?us = set (ds @ [u]) \<union> set ps" using v(3) p by auto
  moreover have "length ?us = length (ds @ [u]) + length ps" using v(4) by simp
  ultimately show ?case using released_trans [OF t(2) v(2)] by blast
qed

subsection \<open>Giving an inode back\<close>

lemma inode_freed_rest:
  assumes "inode_ready s" "inode_avail s < 8192"
  shows "mounted (inode_freed s n)" "block_of (inode_freed s n) u = block_of s u" "block_bm (inode_freed s n) = block_bm s"
    "block_units (inode_freed s n) = block_units s" "block_avail (inode_freed s n) = block_avail s"
    "block_accounted (inode_freed s n) = block_accounted s"
    "inode_offset off \<Longrightarrow> inode_at (media_of (inode_freed s n)) off = inode_at (media_of s) off"
proof -
  have m: "mounted (inode_count_add 1 s)" "mounted s"
    using assms by (auto intro!: mounted_inode_count_add simp: inode_ready_def inode_avail_def)
  then show mt: "mounted (inode_freed s n)" by (simp add: inode_freed_def)
  have region: "4096 \<le> a \<Longrightarrow> rd_at (media_of (inode_freed s n)) a l = rd_at (media_of s) a l" for a l
    using m(1) by (simp add: inode_freed_def commit_region)
  then show "block_of (inode_freed s n) u = block_of s u"
    "inode_offset off \<Longrightarrow> inode_at (media_of (inode_freed s n)) off = inode_at (media_of s) off"
    by (auto simp: block_of_def block_byte_def inode_offset_def inode_at_def inode_addr_def)
  show b: "block_bm (inode_freed s n) = block_bm s" using m by (simp add: inode_freed_def) (simp add: block_bm_def)
  show u: "block_units (inode_freed s n) = block_units s" "block_avail (inode_freed s n) = block_avail s"
    by (simp_all add: block_units_def block_avail_def inode_freed_def inode_count_add_def)
  have "block_ready (inode_freed s n) = block_ready s"
    using m mt by (simp add: block_ready_def) (simp add: inode_freed_def inode_count_add_def)
  then show "block_accounted (inode_freed s n) = block_accounted s" by (simp add: block_accounted_def b u)
qed

lemma file_at_kept:
  \<comment> \<open>a file whose own blocks stay in use, its pointer blocks with their contents\<close>
  assumes "file_at s inode ds ps" "block_accounted t" "block_units t = block_units s"
    "\<And>u. u \<in> set ds \<union> set ps \<Longrightarrow> used (block_bm t) u" "\<And>p. p \<in> set ps \<Longrightarrow> block_of t p = block_of s p"
  shows "file_at t inode ds ps"
  using assms linked_mono [of s inode ds ps t] by (auto simp: file_at_def owned_def)

subsection \<open>Removing an entry\<close>

lemma nth_used_none: "\<forall>e \<in> set es. d_inode e = 0 \<Longrightarrow> nth_used es c k = Inl c"
  by (induction es) auto

lemma getDirEntry_empty:
  assumes "file_at s inode ds ps" "\<forall>e \<in> set (entries s ds). d_inode e = 0"
  shows "getDirEntry s inode 0 d = Some (-1, d)"
proof -
  have bc: "i_blockCount inode = int (length ds)" using assms(1) by (simp add: file_at_def)
  have "getDirEntry_loop s inode (int i) 0 0 = Some None" if "i \<le> length ds" for i
    using that
  proof (induction "length ds - i" arbitrary: i)
    case 0
    then show ?case by (subst getDirEntry_loop.simps) (simp add: bc)
  next
    case (Suc m)
    then have i: "i < length ds" by linarith
    have "\<forall>e \<in> set (dir_entries s (block_of s (ds ! i))). d_inode e = 0" using assms(2) nth_mem [OF i] by (auto simp: entries_def)
    then have "nth_used (dir_entries s (block_of s (ds ! i))) 0 0 = Inl 0" by (rule nth_used_none)
    then show ?case using Suc.hyps(1) [of "Suc i"] Suc.hyps(2) i
      by (subst getDirEntry_loop.simps) (simp add: bc readBlock_file [OF assms(1) i] add.commute)
  qed
  from this [of 0] show ?thesis by (simp add: getDirEntry_def)
qed

definition removed :: "fs \<Rightarrow> fs \<Rightarrow> nat \<Rightarrow> nat set \<Rightarrow> nat \<Rightarrow> nat \<Rightarrow> nat \<Rightarrow> bool" where
  \<comment> \<open>inode \<open>k\<close> and the blocks \<open>U\<close>, \<open>l\<close> of them, were given back, and entry \<open>j\<close> of block \<open>u\<close> was cleared; nothing else was written\<close>
  "removed s t k U l u j \<longleftrightarrow> block_accounted t \<and> block_units t = block_units s \<and> block_avail t = block_avail s + int l
     \<and> (\<forall>m. used (block_bm t) m \<longleftrightarrow> used (block_bm s) m \<and> m \<notin> U)
     \<and> (\<forall>v. block_of t v = (if v = u then put_entry (block_of s u) j ((entry_at (block_of s u) j)\<lparr>d_inode := 0\<rparr>) else block_of s v))
     \<and> inode_accounted t \<and> inode_units t = inode_units s \<and> inode_avail t = inode_avail s + 1
     \<and> (\<forall>m. used (inode_bm t) m \<longleftrightarrow> m \<noteq> k \<and> used (inode_bm s) m)
     \<and> (\<forall>off'. inode_offset off' \<and> off' \<noteq> inode_addr k \<longrightarrow> inode_at (media_of t) off' = inode_at (media_of s) off')"

lemma wf_cleared: "length b = 1024 \<Longrightarrow> j < 8 \<Longrightarrow> wf_de ((entry_at b j)\<lparr>d_inode := 0\<rparr>)"
  by (simp add: wf_de_def entry_at_def dec_de_def in32_def)

lemma freeInode_removes:
  assumes "open_file s dir dinode dds dps" "open_file s (inode_addr k) inode ds ps" "(set dds \<union> set dps) \<inter> (set ds \<union> set ps) = {}"
    "name_ok n" "List.find (hit n) (entries s dds) = Some e" "d_inode e = inode_addr k" "i_linkCount inode = 1"
    "inode_accounted s" "k < inode_units s" "used (inode_bm s) k"
    "i_type inode = DIRECTORY_TYPE \<longrightarrow> (\<forall>x \<in> set (entries s ds). d_inode x = 0)"
  shows "\<exists>t inode' i j. freeInode s dinode dir x o' n (i_type inode) = Some (0, inode', inode_addr k, t)
    \<and> i < length dds \<and> j < 8 \<and> entry_at (block_of s (dds ! i)) j = e
    \<and> removed s t k (set ds \<union> set ps) (length ds + length ps) (dds ! i) j"
proof -
  let ?off = "inode_addr k"
  have d: "file_at s dinode dds dps" and f: "inode_offset ?off" "inode_at (media_of s) ?off = inode" "file_at s inode ds ps"
    using assms(1,2) by (simp_all add: open_file_def)
  have n: "n \<noteq> []" "length n \<le> 64" using assms(4) by (auto simp: name_ok_def)
  obtain i j where ij: "findEntry s dinode n (length n) [] 0 = Some (Found (int i) j (block_of s (dds ! i)))" "i < length dds" "j < 8"
    "entry_at (block_of s (dds ! i)) j = e"
    using findEntry_spec [OF d n(2), of 0 "[]" "[]"] assms(5) by auto
  let ?b = "block_of s (dds ! i)" and ?inode = "inode\<lparr>i_linkCount := 0\<rparr>"
  have "linked s ?inode ds ps" "wf_inode ?inode" using f(3) by (auto simp: file_at_def linked_def wf_inode_def in16_def)
  then have "file_at s ?inode ds ps" using f(3) by (simp add: file_at_def)
  then obtain v us where v: "freeBlock s ?inode ?off = Some (0, ?inode\<lparr>i_blockCount := 0\<rparr>, v)" "released s v ?off us"
    "set us = set ds \<union> set ps" "length us = length ds + length ps" using freeBlock_file [OF _ f(1)] by blast
  have iv: "inode_accounted v" "k < inode_units v" "used (inode_bm v) k" using v(2) assms(8-10) by (simp_all add: released_def)
  note fr = ino.accounted_freed [unfolded accounted_pool, OF iv]
  have r: "inode_ready v" "inode_avail v < 8192"
    using iv(1) fr(2,3) ino.ready_pool [of "inode_freed v k"] by (simp_all add: inode_accounted_def)
  note rest = inode_freed_rest [OF r, where n = k]
  let ?w = "inode_freed v k" and ?c = "put_entry ?b j (e\<lparr>d_inode := 0\<rparr>)"
  have vv: "block_accounted v" "block_units v = block_units s" "\<And>m. used (block_bm v) m \<longleftrightarrow> used (block_bm s) m \<and> m \<notin> set us"
    "\<And>u. block_of v u = block_of s u" using v(2) by (simp_all add: released_def)
  have "file_at ?w dinode dds dps"
  proof (rule file_at_kept [OF d])
    fix u assume "u \<in> set dds \<union> set dps"
    then have "used (block_bm s) u" "u \<notin> set us" using d assms(3) v(3) by (auto simp: file_at_def owned_def)
    then show "used (block_bm ?w) u" by (simp add: rest vv)
  qed (simp_all add: rest vv)
  moreover have l: "length ?c = 1024" using entry_put_entry(2) [OF _ wf_cleared [OF _ ij(3)] ij(3,3), of ?b ?b] ij(4) by simp
  ultimately have w: "writeBlock ?w dinode (int i) ?c = Some (0, put_block ?w (dds ! i) ?c)" using writeBlock_file ij(2) by blast
  let ?t = "put_block ?w (dds ! i) ?c"
  have "i16 (1 - 1) = 0" by (simp add: i16_def)
  moreover have "i_type inode = DIRECTORY_TYPE \<Longrightarrow> getDirEntry s inode 0 e = Some (-1, e)"
    using getDirEntry_empty [OF f(3), of e] assms(11) by simp
  ultimately have "freeInode s dinode dir x o' n (i_type inode) = Some (0, ?inode\<lparr>i_blockCount := 0\<rparr>, ?off, ?t)"
    using n(1) ij(1,4) v(1) fr(1) w read_inode(1) [OF f(1), of s] assms(6,7)
    by (simp add: freeInode_def read_inode(2) f(2) Let_def)
  moreover have "removed s ?t k (set ds \<union> set ps) (length ds + length ps) (dds ! i) j"
  proof -
    have h: "inode_accounted ?t = inode_accounted ?w" "inode_units ?t = inode_units ?w" "inode_avail ?t = inode_avail ?w"
      using l by (simp_all add: inode_accounted_def inode_ready_def inode_units_def inode_avail_def)
    show ?thesis using fr l ij(4) v(2-4) unfolding removed_def h by (simp add: rest vv inode_at_put_block) (simp add: released_def)
  qed
  ultimately show ?thesis using ij by blast
qed

subsection \<open>Removing a file\<close>

lemma trail_named:
  \<comment> \<open>a directory that a walk visits or ends in is where it starts or has an entry in one that it visits\<close>
  "x \<in> set (trail D off ns) \<or> walk D off ns = Some x \<Longrightarrow> x = off \<or> (\<exists>d \<in> set (trail D off ns). \<exists>es e. D d = Some es \<and> e \<in> set es \<and> d_inode e = x)"
proof (induction ns arbitrary: off)
  case (Cons n ns)
  show ?case
  proof (cases "D off")
    case (Some es)
    show ?thesis
    proof (cases "List.find (hit n) es")
      case e: (Some e)
      then have "e \<in> set es" using find_hit by blast
      moreover have t: "trail D off (n # ns) = off # trail D (d_inode e) ns" "walk D off (n # ns) = walk D (d_inode e) ns" using Some e by simp_all
      then have "x = off \<or> x = d_inode e \<or> (\<exists>d \<in> set (trail D (d_inode e) ns). \<exists>es e. D d = Some es \<and> e \<in> set es \<and> d_inode e = x)"
        using Cons.IH [of "d_inode e"] Cons.prems by auto
      ultimately consider "x = off" | "x = d_inode e" "e \<in> set es"
        | d xs y where "d \<in> set (trail D (d_inode e) ns)" "D d = Some xs" "y \<in> set xs" "d_inode y = x" by blast
      then show ?thesis
      proof cases
        case 2
        then show ?thesis unfolding t using Some by (intro disjI2 bexI [of _ off] exI [of _ es] exI [of _ e]) simp_all
      next
        case 3
        then show ?thesis unfolding t by (intro disjI2 bexI [of _ d] exI [of _ xs] exI [of _ y]) simp_all
      qed simp
    qed (use Some Cons.prems in simp)
  qed (use Cons.prems in simp)
qed simp

lemma filter_singleton_update:
  assumes "filter P xs = [y]" "i < length xs" "P (xs ! i)" "\<not> P z"
  shows "filter P (xs[i := z]) = []"
proof -
  have "filter P (take i xs @ xs ! i # drop (Suc i) xs) = [y]" using assms(1) id_take_nth_drop [OF assms(2)] by simp
  then have "filter P (take i xs) @ xs ! i # filter P (drop (Suc i) xs) = [y]" using assms(3) by (simp only: filter_append filter.simps if_True)
  then have "filter P (take i xs) = []" "filter P (drop (Suc i) xs) = []" by (simp_all add: append_eq_Cons_conv)
  then show ?thesis using assms(2,4) by (simp only: upd_conv_take_nth_drop filter_append filter.simps if_False append_Nil)
qed

definition sole_entry :: "fs \<Rightarrow> files \<Rightarrow> int \<Rightarrow> DirEntry \<Rightarrow> bool" where
  \<comment> \<open>\<open>e\<close> is an entry of the directory \<open>dir\<close>, and no other entry leads where it does\<close>
  "sole_entry s F dir e \<longleftrightarrow> (\<forall>d xs. dir_of s F d = Some xs \<longrightarrow> filter (\<lambda>x. d_inode x = d_inode e) xs = (if d = dir then [e] else []))"

lemma fs_ok_removed:
  assumes "fs_ok s F" "F dir = Some (dinode, dds, dps)" "i_type dinode \<noteq> REGULAR_TYPE" "F (inode_addr k) = Some (inode, ds, ps)" "inode_addr k \<noteq> dir" "inode_addr k \<noteq> root_inode"
    "i < length dds" "j < 8" "entry_at (block_of s (dds ! i)) j = e" "d_inode e = inode_addr k" "sole_entry s F dir e"
    "removed s t k (set ds \<union> set ps) l (dds ! i) j"
  defines "F' \<equiv> F(inode_addr k := None)"
  shows "dir_of t F' = (dir_of s F)(dir := Some ((entries s dds)[8 * i + j := e\<lparr>d_inode := 0\<rparr>]), inode_addr k := None)" (is "_ = ?D")
    "fs_ok t F'"
    "off \<noteq> inode_addr k \<Longrightarrow> off \<noteq> dir \<Longrightarrow> bytes_at t F' off = bytes_at s F off"
proof -
  let ?off = "inode_addr k"
  note r = assms(12) [unfolded removed_def]
  have m: "mounted s" "mounted t" using fs_ok_mounted [OF assms(1)] r by (simp_all add: block_accounted_def block_ready_def)
  have d: "distinct (dds @ dps)" using fs_okD(2) [OF assms(1,2)] by (simp add: open_file_def file_at_def owned_def)
  have keep: "v \<noteq> dds ! i" if "F off = Some (inode2, ds2, ps2)" "v \<in> set ps2 \<or> off \<noteq> dir \<and> v \<in> set ds2" for off inode2 ds2 ps2 v
  proof (cases "off = dir")
    case True
    then show ?thesis using that assms(2,7) d by (auto dest: nth_mem)
  next
    case False
    then show ?thesis using fs_okD(3) [OF assms(1,2) that(1)] that(2) nth_mem [OF assms(7)] by auto
  qed
  have same: "entries t ds2 = entries s ds2 \<and> file_bytes t inode2 ds2 = file_bytes s inode2 ds2" if "F off = Some (inode2, ds2, ps2)" "off \<noteq> dir" for off inode2 ds2 ps2
  proof -
    have "v \<in> set ds2 \<Longrightarrow> block_of t v = block_of s v" for v using keep [OF that(1), of v] that(2) r by simp
    then show ?thesis using entries_same [OF m] content_same [of ds2 t s] by (simp add: file_bytes_def)
  qed
  have e: "entries t dds = (entries s dds)[8 * i + j := e\<lparr>d_inode := 0\<rparr>]"
    using r assms(9) d wf_cleared [of "block_of s (dds ! i)" j] assms(8) by (intro entries_put m assms(7,8)) auto
  show D: "dir_of t F' = ?D"
  proof
    fix off
    show "dir_of t F' off = ?D off"
    proof (cases "off = ?off \<or> off = dir")
      case True
      then show ?thesis using assms(2,3,5) e by (auto simp: dir_of_def F'_def)
    next
      case False
      then show ?thesis using same [of off] by (auto simp: dir_of_def F'_def split: option.splits)
    qed
  qed
  show "bytes_at t F' off = bytes_at s F off" if "off \<noteq> ?off" "off \<noteq> dir"
    using that same [of off] by (auto simp: bytes_at_def F'_def split: option.splits)
  have op: "open_file t off inode2 ds2 ps2" if "F' off = Some (inode2, ds2, ps2)" for off inode2 ds2 ps2
  proof -
    have F: "F off = Some (inode2, ds2, ps2)" "off \<noteq> ?off" using that by (auto simp: F'_def split: if_splits)
    note o = fs_okD(2) [OF assms(1) F(1)]
    have "used (block_bm t) u" if "u \<in> set ds2 \<union> set ps2" for u
      using that fs_okD(3) [OF assms(1) assms(4) F(1)] F(2) o r by (auto simp: open_file_def file_at_def owned_def)
    then have "file_at t inode2 ds2 ps2" using o r keep [OF F(1)] by (intro file_at_kept [of s inode2 ds2 ps2 t]) (auto simp: open_file_def)
    then show ?thesis using o r F(2) by (simp add: open_file_def)
  qed
  have cl: "d_inode x \<in> dom F'" if D': "dir_of t F' off = Some xs" and x: "x \<in> set xs" "d_inode x \<noteq> 0" for off xs x
  proof -
    have es: "dir_of s F dir = Some (entries s dds)" using assms(2,3) by (simp add: dir_of_def)
    have lx: "8 * i + j < length (entries s dds)" "entries s dds ! (8 * i + j) = e" using entries_nth(1,2) [OF m(1) assms(7,8)] assms(9) by simp_all
    have nz: "?off \<noteq> 0" by (simp add: inode_addr_def)
    have "\<exists>ys. dir_of s F off = Some ys \<and> x \<in> set ys \<and> d_inode x \<noteq> ?off"
    proof (cases "off = dir")
      case True
      then have xs: "xs = (entries s dds)[8 * i + j := e\<lparr>d_inode := 0\<rparr>]" using D' unfolding D using assms(5) by simp
      have "filter (\<lambda>x. d_inode x = ?off) xs = []"
        unfolding xs using assms(10,11) es lx nz by (intro filter_singleton_update) (auto simp: sole_entry_def)
      moreover have "x \<in> set (entries s dds)" using x set_update_subset_insert [of "entries s dds" "8 * i + j" "e\<lparr>d_inode := 0\<rparr>"] unfolding xs by auto
      ultimately show ?thesis using es True x(1) by (auto simp: filter_empty_conv)
    next
      case False
      then have "dir_of s F off = Some xs" using D' unfolding D by (auto split: if_splits)
      then show ?thesis using x assms(10,11) False by (fastforce simp: sole_entry_def filter_empty_conv)
    qed
    then show ?thesis using fs_okD(4) [OF assms(1)] x(2) by (auto simp: F'_def)
  qed
  have "root_inode \<in> dom F'" using fs_okD(1) [OF assms(1)] assms(6) by (auto simp: F'_def)
  moreover have "(set ds1 \<union> set ps1) \<inter> (set ds2 \<union> set ps2) = {}"
    if "F' o1 = Some (inode1, ds1, ps1)" "F' o2 = Some (inode2, ds2, ps2)" "o1 \<noteq> o2" for o1 inode1 ds1 ps1 o2 inode2 ds2 ps2
    using that fs_okD(3) [OF assms(1), of o1 inode1 ds1 ps1 o2] by (auto simp: F'_def split: if_splits)
  ultimately show "fs_ok t F'" unfolding fs_ok_def using op cl by blast
qed


lemma sample_sole:
  "sole_entry sample_named sample_files root_inode (sample_entry ''page0'' (inode_addr 5))"
  "List.find (hit (str ''page0'')) (entries sample_tree [0]) = Some (sample_entry ''page0'' (inode_addr 5))"
  "filter (hit (str ''page0'')) (entries sample_tree [0]) = [sample_entry ''page0'' (inode_addr 5)]"
proof -
  have m: "mounted sample_tree" using fs_ok_mounted [OF sample_tree_ok(1)] .
  obtain zs where zs: "entries sample_tree [0] = sample_entry ''page0'' (inode_addr 5) # zs" "\<forall>z \<in> set zs. d_inode z = 0"
    using one_entry [OF m sample_tree_wf(6) sample_tree_parts(3)] by blast
  have a: "inode_addr 5 \<noteq> 0" by (simp add: inode_addr_def)
  have e: "d_inode (sample_entry ''page0'' (inode_addr 5)) = inode_addr 5" by (simp add: sample_entry_def)
  have h: "hit (str ''page0'') (sample_entry ''page0'' (inode_addr 5))" using a by (simp add: hit_def sample_entry_def strncpy_def str_def)
  then show "List.find (hit (str ''page0'')) (entries sample_tree [0]) = Some (sample_entry ''page0'' (inode_addr 5))" using zs(1) by simp
  show "filter (hit (str ''page0'')) (entries sample_tree [0]) = [sample_entry ''page0'' (inode_addr 5)]"
    using zs h by (auto simp: filter_empty_conv hit_def)
  have "x = root_inode \<and> xs = entries sample_tree [0]" if "dir_of sample_tree sample_files x = Some xs" for x xs
  proof -
    have "x = root_inode" using that sample_tree_ok(3) by (auto simp: dir_of_def sample_files_def split: if_splits)
    then show ?thesis using that sample_tree_ok(2) by simp
  qed
  moreover have "filter (\<lambda>x. d_inode x = inode_addr 5) zs = []" using zs(2) a by (auto simp: filter_empty_conv)
  then have "filter (\<lambda>x. d_inode x = inode_addr 5) (entries sample_tree [0]) = [sample_entry ''page0'' (inode_addr 5)]"
    unfolding zs(1) using e by simp
  ultimately show "sole_entry sample_named sample_files root_inode (sample_entry ''page0'' (inode_addr 5))"
    unfolding sole_entry_def sample_named_ok(2) e by (intro allI impI) (simp only: if_True)
qed


end
