(* ===== verification/Exclusive.thy ===== *)
theory Exclusive
  imports Shape "HOL-Library.Multiset"
begin

text \<open>
  Page files are never shared. A page that is written to its page file stays there until it is read back, possibly
  while many other pages of many processes are written to theirs; that works because no two pages have the same
  page file. The theory \<open>Pagefile\<close> shows what one call of \<^verbatim>\<open>get_pagefile\<close> does; here the claim is about the pages of
  all processes together, over every step of the system: the file of every page is in use, and different pages
  have different files. The step relation is that of theory \<open>Shape\<close>.
\<close>

subsection \<open>The page files of a process and of all processes\<close>

definition names_of :: "process \<Rightarrow> cstr list" where
  "names_of p = List.map_filter vf_pagefile (vframes p)"

definition files_of :: "os \<Rightarrow> cstr list" where
  "files_of w = concat (map (\<lambda>pcb. names_of (p_proc pcb)) (proc_table w))"

definition proc_ok :: "os \<Rightarrow> process \<Rightarrow> bool" where
  \<comment> \<open>the structures of a process are different objects on the heap\<close>
  "proc_ok w p \<longleftrightarrow> distinct (map vf_ptr (vframes p)) \<and> (\<forall>vf \<in> set (vframes p). vf_ptr vf < os_heap w)"

definition backed :: "os \<Rightarrow> bool" where
  "backed w \<longleftrightarrow> swap_ok (os_swap w) \<and> (\<forall>pcb \<in> set (proc_table w). proc_ok w (p_proc pcb))
     \<and> distinct (files_of w) \<and> set (files_of w) \<subseteq> in_use (os_swap w)"

definition advance :: "os \<Rightarrow> process \<Rightarrow> os \<Rightarrow> process \<Rightarrow> bool" where
  \<comment> \<open>from \<open>w\<close> and the process \<open>p\<close> to \<open>w'\<close> and \<open>p'\<close>: the page files that \<open>p'\<close> has and \<open>p\<close> had not were not in use\<close>
  "advance w p w' p' \<longleftrightarrow> proc_table w' = proc_table w \<and> os_heap w \<le> os_heap w'
     \<and> (proc_ok w p \<and> swap_ok (os_swap w) \<longrightarrow> proc_ok w' p' \<and> swap_ok (os_swap w')
        \<and> (\<exists>new. distinct new \<and> set new \<inter> in_use (os_swap w) = {} \<and> in_use (os_swap w') = in_use (os_swap w) \<union> set new
             \<and> mset (names_of p') = mset (names_of p) + mset new))"

lemma proc_ok_ptrs:
  assumes "map vf_ptr (vframes p') = map vf_ptr (vframes p)" "os_heap w \<le> os_heap w'" "proc_ok w p"
  shows "proc_ok w' p'"
proof -
  have "\<forall>i \<in> set (map vf_ptr (vframes p)). i < os_heap w'" using assms(2,3) by (auto simp: proc_ok_def)
  then show ?thesis using assms(1,3) unfolding proc_ok_def by (metis (mono_tags, lifting) image_eqI list.set_map)
qed

lemma advance_same:
  assumes "proc_table w' = proc_table w" "os_heap w \<le> os_heap w'" "os_swap w' = os_swap w" "names_of p' = names_of p"
    "map vf_ptr (vframes p') = map vf_ptr (vframes p)"
  shows "advance w p w' p'"
  using assms proc_ok_ptrs [OF assms(5,2)] by (auto simp: advance_def intro!: exI [of _ "[]"])

lemma advance_refl: "advance w p w p"
  by (rule advance_same) simp_all

lemma advance_trans:
  assumes "advance w p w' p'" "advance w' p' w'' p''"
  shows "advance w p w'' p''"
proof -
  have "proc_ok w'' p'' \<and> swap_ok (os_swap w'') \<and> (\<exists>new. distinct new \<and> set new \<inter> in_use (os_swap w) = {}
      \<and> in_use (os_swap w'') = in_use (os_swap w) \<union> set new \<and> mset (names_of p'') = mset (names_of p) + mset new)"
    if ok: "proc_ok w p \<and> swap_ok (os_swap w)"
  proof -
    obtain n1 where n1: "proc_ok w' p'" "swap_ok (os_swap w')" "distinct n1" "set n1 \<inter> in_use (os_swap w) = {}"
      "in_use (os_swap w') = in_use (os_swap w) \<union> set n1" "mset (names_of p') = mset (names_of p) + mset n1"
      using assms(1) ok unfolding advance_def by blast
    obtain n2 where n2: "proc_ok w'' p''" "swap_ok (os_swap w'')" "distinct n2" "set n2 \<inter> in_use (os_swap w') = {}"
      "in_use (os_swap w'') = in_use (os_swap w') \<union> set n2" "mset (names_of p'') = mset (names_of p') + mset n2"
      using assms(2) n1(1,2) unfolding advance_def by blast
    show ?thesis using n1 n2 by (intro conjI exI [of _ "n1 @ n2"]) auto
  qed
  moreover have "proc_table w'' = proc_table w" "os_heap w \<le> os_heap w''" using assms by (auto simp: advance_def)
  ultimately show ?thesis unfolding advance_def by blast
qed

subsection \<open>What the operations on a process do\<close>

lemma names_of_Cons: "vf_pagefile vf = None \<Longrightarrow> vframes p' = vf # vframes p \<Longrightarrow> names_of p' = names_of p"
  by (simp add: names_of_def List.map_filter_simps)

lemma update_status_same: "update_status hw vfs = Some vfs' \<Longrightarrow> map vf_ptr vfs' = map vf_ptr vfs \<and> map vf_pagefile vfs' = map vf_pagefile vfs"
  by (induction vfs arbitrary: vfs') (auto simp: bind_Some split: if_splits)

lemma upd_vf_same:
  "(\<And>vf. vf_ptr (f vf) = vf_ptr vf \<and> vf_pagefile (f vf) = vf_pagefile vf) \<Longrightarrow>
    map vf_ptr (upd_vf i f vfs) = map vf_ptr vfs \<and> map vf_pagefile (upd_vf i f vfs) = map vf_pagefile vfs"
  by (simp add: upd_vf_def)

lemma second_chance_result: "second_chance vfs rep = Some r \<Longrightarrow> map vf_ptr (fst r) = map vf_ptr vfs \<and> map vf_pagefile (fst r) = map vf_pagefile vfs"
proof (erule second_chance.raw_induct [rotated])
  fix f vfs rep r
  assume IH: "\<And>vfs rep r. f vfs rep = Some r \<Longrightarrow> map vf_ptr (fst r) = map vf_ptr vfs \<and> map vf_pagefile (fst r) = map vf_pagefile vfs"
    and "(do { i \<leftarrow> rep; vf \<leftarrow> get_vf vfs i;
          if vf_inRAM vf \<noteq> 0 then
            if vf_accessed vf < 2 \<and> vf_dirty vf < 2 then Some (vfs, i)
            else if vf_dirty vf = 2 then f (upd_vf i (vf_dirty_update (\<lambda>_. 1)) vfs) (next_or_head vfs i)
            else f (upd_vf i (vf_accessed_update (\<lambda>_. 1)) vfs) (next_or_head vfs i)
          else f vfs (next_or_head vfs i) }) = Some r"
  then show "map vf_ptr (fst r) = map vf_ptr vfs \<and> map vf_pagefile (fst r) = map vf_pagefile vfs"
    using upd_vf_same [of "vf_dirty_update (\<lambda>_. 1)"] upd_vf_same [of "vf_accessed_update (\<lambda>_. 1)"]
    by (auto simp: bind_Some split: if_splits dest!: IH)
qed

lemma map_filter_map: "map g vfs = map g vfs' \<Longrightarrow> List.map_filter g vfs = List.map_filter g vfs'"
proof (induction vfs arbitrary: vfs')
  case (Cons vf vfs)
  then obtain v vs where "vfs' = v # vs" "g v = g vf" "map g vfs = map g vs" by (auto simp: Cons_eq_map_conv)
  then show ?case using Cons.IH by (simp add: List.map_filter_simps split: option.split)
qed simp

lemma advance_vframes:
  assumes "proc_table w' = proc_table w" "os_heap w \<le> os_heap w'" "os_swap w' = os_swap w"
    "map vf_ptr (vframes p') = map vf_ptr (vframes p) \<and> map vf_pagefile (vframes p') = map vf_pagefile (vframes p)"
  shows "advance w p w' p'"
  using assms map_filter_map [of vf_pagefile "vframes p'" "vframes p"] by (intro advance_same) (simp_all add: names_of_def)

lemma upd_vf_names:
  assumes "distinct (map vf_ptr vfs)" "get_vf vfs i = Some vf" "vf_pagefile vf = None \<or> vf_pagefile vf = Some name"
    "\<And>v. vf_ptr (f v) = vf_ptr v \<and> vf_pagefile (f v) = Some name"
  shows "mset (List.map_filter vf_pagefile (upd_vf i f vfs))
    = mset (List.map_filter vf_pagefile vfs) + mset (if vf_pagefile vf = None then [name] else [])"
  using assms(1,2)
proof (induction vfs)
  case (Cons v vfs)
  show ?case
  proof (cases "vf_ptr v = i")
    case True
    then have v: "v = vf" using Cons.prems(2) by (simp add: get_vf_def)
    have "vf_ptr u \<noteq> i" if "u \<in> set vfs" for u
      using Cons.prems(1) True that image_eqI [of i vf_ptr u "set vfs"] by (metis distinct.simps(2) list.set_map list.simps(9))
    then have "upd_vf i f vfs = vfs" by (auto simp: upd_vf_def intro!: map_idI)
    then have "upd_vf i f (v # vfs) = f v # vfs" using True by (simp add: upd_vf_def)
    then show ?thesis using assms(3,4) v by (auto simp: List.map_filter_simps)
  next
    case False
    then have "upd_vf i f (v # vfs) = v # upd_vf i f vfs" "get_vf vfs i = Some vf" using Cons.prems(2) by (simp_all add: upd_vf_def get_vf_def)
    then show ?thesis using Cons.IH Cons.prems(1) by (simp add: List.map_filter_simps split: option.split)
  qed
qed (simp add: get_vf_def)

lemma get_vf_Some: "get_vf vfs i = Some vf \<Longrightarrow> vf \<in> set vfs \<and> vf_ptr vf = i"
  by (auto simp: get_vf_def find_Some_iff)

lemma save_page_fields: "save_page e w name frame = Some w' \<Longrightarrow> os_swap w' = os_swap w \<and> os_heap w' = os_heap w"
  by (auto simp: save_page_def bind_Some split: prod.splits)

lemma load_page_fields: "load_page e w name frame = Some w' \<Longrightarrow> os_swap w' = os_swap w \<and> os_heap w' = os_heap w"
  by (auto simp: load_page_def bind_Some split: prod.splits)

lemma page_out_advance:
  assumes "page_out e w p i = Some (frame, p', w')"
  shows "advance w p w' p'"
proof -
  obtain victim name save w1 w2 c v where o: "get_vf (vframes p) i = Some victim" "link_pagefile e w victim = Some (name, save, w1)"
    "os_swap w2 = os_swap w1" "os_heap w2 = os_heap w1" "w' = w2\<lparr>os_caps := c\<rparr>"
    "p' = p\<lparr>p_vspace := v, vframes := upd_vf i (\<lambda>vf. vf\<lparr>vf_pagefile := Some name, vf_inRAM := 0\<rparr>) (vframes p)\<rparr>"
    using assms by (auto simp: page_out_def bind_Some Let_def split: prod.splits if_splits dest!: save_page_fields)
  let ?f = "\<lambda>vf. vf\<lparr>vf_pagefile := Some name, vf_inRAM := 0\<rparr>" and ?new = "if vf_pagefile victim = None then [name] else []"
  have h: "os_heap w1 = os_heap w" "vf_pagefile victim = None \<or> vf_pagefile victim = Some name"
    using o(2) by (auto simp: link_pagefile_def bind_Some split: option.splits prod.splits)
  have sw: "swap_ok (os_swap w1) \<and> set ?new \<inter> in_use (os_swap w) = {} \<and> in_use (os_swap w1) = in_use (os_swap w) \<union> set ?new"
    if "swap_ok (os_swap w)"
    using o(2) that get_pagefile_fresh [OF that] by (auto simp: link_pagefile_def bind_Some split: option.splits prod.splits)
  have t: "proc_table w' = proc_table w" using page_out_keeps [OF assms] .
  have ptr: "map vf_ptr (vframes p') = map vf_ptr (vframes p)" using o(6) by (simp add: upd_vf_def)
  have "proc_ok w' p'" if "proc_ok w p" using proc_ok_ptrs [OF ptr _ that] o(4,5) h(1) by simp
  moreover have "mset (names_of p') = mset (names_of p) + mset ?new" if "proc_ok w p"
    using upd_vf_names [OF _ o(1) h(2), of ?f] that o(6) by (simp add: names_of_def proc_ok_def)
  moreover have "os_heap w \<le> os_heap w'" "os_swap w' = os_swap w1" "distinct ?new" using o(3-5) h(1) by simp_all
  ultimately show ?thesis using t sw unfolding advance_def by (intro conjI impI exI [of _ ?new]) simp_all
qed

lemma page_in_advance:
  assumes "page_in e w p i frame = Some (p', w')"
  shows "advance w p w' p'"
proof -
  obtain v where v: "p' = p\<lparr>p_vspace := v, vframes := upd_vf i (vf_inRAM_update (\<lambda>_. 1)) (vframes p)\<rparr>" "os_swap w' = os_swap w \<and> os_heap w' = os_heap w"
    using assms by (auto simp: page_in_def bind_Some split: option.splits prod.splits dest!: load_page_fields)
  then show ?thesis using page_in_keeps [OF assms] upd_vf_same [of "vf_inRAM_update (\<lambda>_. 1)" i]
    by (intro advance_vframes) simp_all
qed

lemma page_replace_advance:
  assumes "page_replace e w p i = Some (p', w')"
  shows "advance w p w' p'"
proof -
  obtain vfs vfs1 k frame p1 w1 where r: "update_status (env_status e) (vframes p) = Some vfs" "second_chance vfs (replacer p) = Some (vfs1, k)"
    "page_out e w (p\<lparr>vframes := vfs1, replacer := Some k\<rparr>) k = Some (frame, p1, w1)" "page_in e w1 p1 i frame = Some (p', w')"
    using assms by (auto simp: page_replace_def bind_Some split: prod.splits)
  have "advance w p w (p\<lparr>vframes := vfs1, replacer := Some k\<rparr>)"
    using update_status_same [OF r(1)] second_chance_result [OF r(2)] by (intro advance_vframes) simp_all
  then show ?thesis using page_out_advance [OF r(3)] page_in_advance [OF r(4)] advance_trans by blast
qed

lemma alloc_frame_advance:
  assumes "alloc_frame e w p i = Some (p', w')"
  shows "advance w p w' p'"
proof (cases "pframes_used p \<ge> MAX_PFRAME_NUM")
  case True
  then show ?thesis using assms page_replace_advance by (simp add: alloc_frame_def)
next
  case False
  then show ?thesis using assms upd_vf_same [of "vf_inRAM_update (\<lambda>_. 1)" i]
    by (intro advance_vframes) (auto simp: alloc_frame_def bind_Some split: prod.splits)
qed

lemma new_vframe_advance:
  assumes "vframes p' = vf # vframes p" "vf_pagefile vf = None" "vf_ptr vf = os_heap w + k" "os_heap w' = os_heap w + Suc k"
    "proc_table w' = proc_table w" "os_swap w' = os_swap w"
  shows "advance w p w' p'"
proof -
  have "proc_ok w' p'" if "proc_ok w p" using that assms(1,3,4) by (auto simp: proc_ok_def)
  then show ?thesis using assms names_of_Cons [OF assms(2,1)] by (auto simp: advance_def intro!: exI [of _ "[]"])
qed

lemma new_vframe_step: "new_vframe w p vaddr = Some (i, p', w') \<Longrightarrow> advance w p w' p'"
  by (auto simp: new_vframe_def malloc_def bind_Some Let_def split: prod.splits intro!: new_vframe_advance [where k = 1])

lemma expand_stack_advance: "expand_stack e w p a = Some (p', w') \<Longrightarrow> advance w p w' p'"
  by (auto simp: expand_stack_def bind_Some split: prod.splits intro: advance_trans dest!: new_vframe_step alloc_frame_advance)

lemma brk_loop_step: "brk_loop w p t b = Some r \<Longrightarrow> advance w p (snd (snd r)) (fst r)"
  by (erule brk_loop.raw_induct [rotated])
    (auto simp: bind_Some advance_refl split: if_splits prod.splits dest!: new_vframe_step intro: advance_trans)

lemma sized_stack_loop_advance: "sized_stack_loop e w p cur n = Some (p', w') \<Longrightarrow> advance w p w' p'"
proof (induction n arbitrary: w p cur)
  case (Suc n)
  obtain r v c p1 w1 where l: "sized_stack_loop e w1 p1 (u32 (cur + PAGE_SIZE_4K)) n = Some (p', w')"
    "p1 = p\<lparr>p_vspace := v, vframes := \<lparr>vf_ptr = os_heap w + 1, vf_reserve = Some r, vf_accessed = 0, vf_dirty = 0, vf_inRAM = 1, vf_pagefile = None\<rparr>
       # vframes p, pframes_used := pframes_used p + 1\<rparr>" "w1 = w\<lparr>os_caps := c, os_heap := os_heap w + 2\<rparr>"
    using Suc.prems by (auto simp: bind_Some malloc_def Let_def split: prod.splits if_splits)
  have "advance w p w1 p1" unfolding l(2,3) by (rule new_vframe_advance [where k = 1], simp) simp_all
  then show ?case using Suc.IH [OF l(1)] advance_trans by blast
qed (simp add: advance_refl)

lemma configure_process_advance: "configure_process e w img = Some (p, w') \<Longrightarrow> advance w zero_process w' p"
proof -
  assume "configure_process e w img = Some (p, w')"
  then obtain v ipc c1 tos p1 where l: "sized_stack_loop e (w\<lparr>os_heap := os_heap w + 1, os_caps := c1\<rparr>) (zero_process\<lparr>p_vspace := v, ipc_buffer := ipc\<rparr>)
      (u32 (STACK_TOP_VADDR - STACK_SIZE)) 16 = Some (p1, w')" "p = p1\<lparr>stack_top := tos\<rparr>"
    by (auto simp: configure_process_def vspace_new_sized_stack_def bind_Some malloc_def Let_def split: prod.splits if_splits)
  have "advance w zero_process (w\<lparr>os_heap := os_heap w + 1, os_caps := c1\<rparr>) (zero_process\<lparr>p_vspace := v, ipc_buffer := ipc\<rparr>)" "advance w' p1 w' p"
    by (rule advance_same; simp add: l(2) names_of_def)+
  then show ?thesis using sized_stack_loop_advance [OF l(1)] advance_trans by blast
qed

subsection \<open>What they do to the whole table\<close>

named_theorems backs \<open>operations that keep the page files of all processes apart\<close>

lemma files_update:
  assumes "i < length xs"
  shows "mset (concat (map g (xs[i := y]))) + mset (g (xs ! i)) = mset (concat (map g xs)) + mset (g y)"
proof -
  have "concat (map g (xs[i := y])) = concat (map g (take i xs)) @ g y @ concat (map g (drop (Suc i) xs))"
    using assms by (simp add: upd_conv_take_nth_drop)
  moreover have "concat (map g xs) = concat (map g (take i xs)) @ g (xs ! i) @ concat (map g (drop (Suc i) xs))"
    using assms by (subst id_take_nth_drop [OF assms]) simp
  ultimately show ?thesis by (simp only: mset_append ac_simps)
qed

lemma distinct_submset:
  assumes "mset xs \<subseteq># mset ys" "distinct ys"
  shows "distinct xs"
  unfolding distinct_count_atmost_1
proof
  fix a
  have "count (mset xs) a \<le> count (mset ys) a" using assms(1) by (rule mset_subset_eq_count)
  also have "\<dots> \<le> 1" using assms(2) by (simp add: distinct_count_atmost_1)
  finally have "count (mset xs) a \<le> 1" .
  moreover have "a \<in> set xs \<longleftrightarrow> 0 < count (mset xs) a" by (simp only: count_greater_zero_iff set_mset_mset)
  ultimately show "count (mset xs) a = (if a \<in> set xs then 1 else 0)" by (simp only: split: if_split) linarith
qed

lemma backed_set:
  \<comment> \<open>an entry gets a process whose page files it had before or were not in use\<close>
  assumes "backed w" "i < length (proc_table w)" "proc_table w' = proc_table w" "os_heap w \<le> os_heap w'" "swap_ok (os_swap w')"
    "proc_ok w' (p_proc pcb)" "distinct new" "set new \<inter> in_use (os_swap w) = {}" "in_use (os_swap w') = in_use (os_swap w) \<union> set new"
    "mset (names_of (p_proc pcb)) \<subseteq># mset (names_of (p_proc (proc_table w ! i))) + mset new"
  shows "backed (w'\<lparr>proc_table := (proc_table w)[i := pcb]\<rparr>)"
proof -
  let ?g = "\<lambda>pcb. names_of (p_proc pcb)" and ?w = "w'\<lparr>proc_table := (proc_table w)[i := pcb]\<rparr>"
  have eq: "mset (files_of ?w) + mset (?g (proc_table w ! i)) = mset (files_of w) + mset (?g pcb)"
    using files_update [OF assms(2), of ?g pcb] by (simp add: files_of_def)
  have sub: "mset (files_of ?w) \<subseteq># mset (files_of w @ new)"
  proof -
    have "mset (files_of ?w) + mset (?g (proc_table w ! i)) \<subseteq># mset (files_of w) + (mset (?g (proc_table w ! i)) + mset new)"
      unfolding eq using assms(10) by (rule subset_mset.add_left_mono)
    then show ?thesis by (simp add: ac_simps)
  qed
  have d: "distinct (files_of w @ new)" "set (files_of w @ new) \<subseteq> in_use (os_swap w')"
    using assms(1,7-9) by (auto simp: backed_def)
  have "distinct (files_of ?w)" using distinct_submset [OF sub d(1)] .
  moreover have "set (files_of ?w) \<subseteq> in_use (os_swap w')" using d(2) set_mset_mono [OF sub] by auto
  moreover have "proc_ok w' (p_proc x)" if "x \<in> set (proc_table w)" for x
    using that assms(1,4) by (auto simp: backed_def intro: proc_ok_ptrs [of "p_proc x" "p_proc x" w w'])
  then have "\<forall>x \<in> set ((proc_table w)[i := pcb]). proc_ok ?w (p_proc x)"
    using assms(6) by (auto simp: proc_ok_def dest!: set_update_subset_insert [THEN subsetD])
  ultimately show ?thesis using assms(5) by (simp add: backed_def)
qed

lemma backed_advance:
  assumes "backed w" "pid_getproc w pid = Some pcb" "advance w (p_proc pcb) w' p'" "p_proc pcb' = p'"
  shows "backed (set_pcb w' pid pcb')"
proof -
  have i: "nat pid < length (proc_table w)" "pcb = proc_table w ! nat pid"
    using assms(2) by (auto simp: pid_getproc_def bind_Some split: if_splits)
  then have "proc_ok w (p_proc pcb)" "swap_ok (os_swap w)" using assms(1) by (simp_all add: backed_def)
  then obtain new where n: "proc_ok w' p'" "swap_ok (os_swap w')" "distinct new" "set new \<inter> in_use (os_swap w) = {}"
    "in_use (os_swap w') = in_use (os_swap w) \<union> set new" "mset (names_of p') = mset (names_of (p_proc pcb)) + mset new"
    "proc_table w' = proc_table w" "os_heap w \<le> os_heap w'"
    using assms(3) unfolding advance_def by blast
  have "backed (w'\<lparr>proc_table := (proc_table w)[nat pid := pcb']\<rparr>)"
    by (rule backed_set [OF assms(1) i(1) n(7,8,2) _ n(3-5)]) (use n(1,6) i(2) assms(4) in simp_all)
  then show ?thesis by (simp add: set_pcb_def n(7))
qed

lemma backed_same:
  assumes "map (\<lambda>pcb. vframes (p_proc pcb)) (proc_table w') = map (\<lambda>pcb. vframes (p_proc pcb)) (proc_table w)" "os_swap w' = os_swap w" "os_heap w' = os_heap w"
  shows "backed w \<longrightarrow> backed w'"
proof
  assume b: "backed w"
  let ?v = "\<lambda>w. map (\<lambda>pcb. vframes (p_proc pcb)) (proc_table w)"
  have f: "files_of x = concat (map (List.map_filter vf_pagefile) (?v x))" for x by (simp add: files_of_def names_of_def comp_def)
  have p: "(\<forall>pcb \<in> set (proc_table x). proc_ok x (p_proc pcb)) \<longleftrightarrow> (\<forall>vfs \<in> set (?v x). distinct (map vf_ptr vfs) \<and> (\<forall>vf \<in> set vfs. vf_ptr vf < os_heap x))" for x
    by (simp add: proc_ok_def)
  show "backed w'" using b unfolding backed_def f p assms .
qed

lemma backed_set_same:
  assumes "pid_getproc w pid = Some pcb" "vframes (p_proc pcb') = vframes (p_proc pcb)"
  shows "backed w \<longrightarrow> backed (set_pcb w pid pcb')"
proof (rule backed_same)
  have i: "nat pid < length (proc_table w)" "pcb = proc_table w ! nat pid"
    using assms(1) by (auto simp: pid_getproc_def bind_Some split: if_splits)
  then show "map (\<lambda>pcb. vframes (p_proc pcb)) (proc_table (set_pcb w pid pcb')) = map (\<lambda>pcb. vframes (p_proc pcb)) (proc_table w)"
    using assms(2) by (simp add: set_pcb_def map_update list_update_same_conv)
qed (simp_all add: set_pcb_def)

lemma open_window_backs [backs]: "open_window e w pid vaddr = Some (a, w') \<Longrightarrow> backed w \<longrightarrow> backed w'"
  by (rule backed_same) (auto simp: open_window_def bind_Some split: prod.splits)

lemma close_window_backs [backs]: "close_window w a = Some w' \<Longrightarrow> backed w \<longrightarrow> backed w'"
  by (rule backed_same) (auto simp: close_window_def bind_Some split: prod.splits)

lemma window_store_backs [backs]: "window_store w a bs = Some w' \<Longrightarrow> backed w \<longrightarrow> backed w'"
  by (rule backed_same) (auto simp: window_store_def bind_Some)

lemma save_caller_backs [backs]: "save_caller w = Some (r, w') \<Longrightarrow> backed w \<longrightarrow> backed w'"
  by (rule backed_same) (auto simp: save_caller_def bind_Some split: prod.splits)

lemma backed_updates [simp]:
  "backed (w\<lparr>os_fs := s\<rparr>) = backed w" "backed (w\<lparr>os_caps := c\<rparr>) = backed w" "backed (free_reply w r) = backed w"
  by (simp_all add: backed_def files_of_def proc_ok_def free_reply_def)

lemma put_fcb_backs [backs]: "put_fcb w pid fd fcb = Some w' \<Longrightarrow> backed w \<longrightarrow> backed w'"
  by (auto simp: put_fcb_def bind_Some split: if_splits intro!: backed_set_same [THEN mp])

lemma set_proc_backs:
  assumes "backed w" "pid_getproc w pid = Some pcb" "advance w (p_proc pcb) w' p'" "set_proc w' pid p' = Some w''"
  shows "backed w''"
proof -
  have "proc_table w' = proc_table w" using assms(3) by (simp add: advance_def)
  then have "pid_getproc w' pid = Some pcb" using assms(2) by (simp add: pid_getproc_def)
  then have "w'' = set_pcb w' pid (pcb\<lparr>p_proc := p'\<rparr>)" using assms(4) by (simp add: set_proc_def)
  then show ?thesis using backed_advance [OF assms(1-3)] by simp
qed

lemma free_pagefiles_in_use: "swap_ok sw \<Longrightarrow> swap_ok (free_pagefiles vfs sw) \<and> in_use (free_pagefiles vfs sw) = in_use sw - set (List.map_filter vf_pagefile vfs)"
proof (induction vfs arbitrary: sw)
  case (Cons vf vfs)
  show ?case
  proof (cases "vf_pagefile vf")
    case (Some f)
    then show ?thesis using Cons.IH [of "free_pagefile sw f"] free_in_use [OF Cons.prems, of f] by (auto simp: List.map_filter_simps)
  qed (use Cons in \<open>simp add: List.map_filter_simps\<close>)
qed simp

lemma kill_backs [backs]:
  assumes "syscall_kill w pid sig = Some (r, w')"
  shows "backed w \<longrightarrow> backed w'"
proof
  assume b: "backed w"
  show "backed w'"
  proof (cases "w' = w")
    case False
    then obtain c where k: "arr (proc_table w) pid \<noteq> None"
      "w' = set_pcb (w\<lparr>os_caps := c, os_swap := free_pagefiles (vframes (p_proc (proc_table w ! nat pid))) (os_swap w)\<rparr>) pid zero_pcb"
      using assms by (auto simp: syscall_kill_def bind_Some split: if_splits)
    let ?i = "nat pid" and ?g = "\<lambda>pcb. names_of (p_proc pcb)"
    let ?p = "p_proc (proc_table w ! ?i)" and ?sw = "free_pagefiles (vframes (p_proc (proc_table w ! ?i))) (os_swap w)"
    have i: "?i < length (proc_table w)" using k(1) by (auto simp: arr_def split: if_splits)
    have sw: "swap_ok ?sw" "in_use ?sw = in_use (os_swap w) - set (names_of ?p)"
      using free_pagefiles_in_use [of "os_swap w"] b by (simp_all add: backed_def names_of_def)
    have z: "names_of (p_proc zero_pcb) = []" by (simp add: names_of_def zero_pcb_def zero_process_def)
    have eq: "mset (files_of w') + mset (names_of ?p) = mset (files_of w)"
      using files_update [OF i, of ?g zero_pcb] z by (simp add: files_of_def k(2) set_pcb_def)
    then have "distinct (files_of w' @ names_of ?p)" using b mset_eq_imp_distinct_iff [of "files_of w' @ names_of ?p" "files_of w"] by (simp add: backed_def)
    moreover have "set (files_of w') \<subseteq> set (files_of w)" using set_mset_mono [of "mset (files_of w')" "mset (files_of w)"] eq
      by (metis mset_subset_eq_add_left set_mset_mset)
    moreover have "\<forall>x \<in> set (proc_table w'). proc_ok w' (p_proc x)"
      using b by (auto simp: k(2) set_pcb_def backed_def proc_ok_def zero_pcb_def zero_process_def dest!: set_update_subset_insert [THEN subsetD])
    moreover have "os_swap w' = ?sw" by (simp add: k(2) set_pcb_def)
    ultimately show ?thesis using b sw by (auto simp: backed_def)
  qed (use b in simp)
qed

lemma alloc_pid_backs [backs]: "alloc_pid w = Some (pid, w') \<Longrightarrow> backed w \<longrightarrow> backed w'"
proof -
  assume "alloc_pid w = Some (pid, w')"
  then obtain i where i: "first_unused (proc_table w) 0 = Some i" "w' = set_pcb w (int i) ((proc_table w ! i)\<lparr>p_inuse := 1\<rparr>)"
    by (auto simp: alloc_pid_def bind_Some)
  have "i < length (proc_table w)" using first_unused_bound [OF i(1)] by simp
  then show "backed w \<longrightarrow> backed w'" unfolding i(2)
    by (intro backed_same) (simp_all add: set_pcb_def map_update list_update_same_conv)
qed

lemma start_process_backs:
  assumes "configure_process e w img = Some (p, w1)" "start_process e w1 pid p dir path = Some w'" "backed w"
  shows "backed w'"
proof -
  note a = configure_process_advance [OF assms(1)]
  have t: "proc_table w1 = proc_table w" using a by (simp add: advance_def)
  obtain pcb pcb' where s: "pid_getproc w1 pid = Some pcb" "w' = set_pcb w1 pid pcb'" "vframes (p_proc pcb') = vframes p"
    using assms(2) by (auto simp: start_process_def bind_Some split: if_splits)
  have i: "nat pid < length (proc_table w)" using s(1) t by (auto simp: pid_getproc_def bind_Some split: if_splits)
  have z: "proc_ok w zero_process" "names_of zero_process = []" by (simp_all add: proc_ok_def names_of_def zero_process_def)
  then obtain new where n: "proc_ok w1 p" "swap_ok (os_swap w1)" "distinct new" "set new \<inter> in_use (os_swap w) = {}"
    "in_use (os_swap w1) = in_use (os_swap w) \<union> set new" "mset (names_of p) = mset new" "os_heap w \<le> os_heap w1"
    using a assms(3) unfolding advance_def backed_def by auto
  have "backed (w1\<lparr>proc_table := (proc_table w)[nat pid := pcb']\<rparr>)"
    by (rule backed_set [OF assms(3) i t n(7,2) _ n(3-5)]) (use n(1,6) s(3) in \<open>simp_all add: proc_ok_def names_of_def\<close>)
  then show ?thesis by (simp add: s(2) set_pcb_def t)
qed

lemma execve_backs [backs]: "syscall_execve e w parent path = Some (pid, w') \<Longrightarrow> backed w \<longrightarrow> backed w'"
  by (auto simp: syscall_execve_def bind_Some split: prod.splits dest!: alloc_pid_backs intro: start_process_backs)

lemma load_shell_backs [backs]: "load_shell e w img = Some w' \<Longrightarrow> backed w \<longrightarrow> backed w'"
  by (auto simp: load_shell_def bind_Some split: prod.splits dest!: alloc_pid_backs intro: start_process_backs)

subsection \<open>The workers and the dispatcher\<close>

lemma readfile_backs [backs]: "readfile_handler e w reply pid fd vaddr len = Some (mrs, w') \<Longrightarrow> backed w \<longrightarrow> backed w'"
  by (auto simp: readfile_handler_def bind_Some split: prod.splits if_splits dest!: backs)

lemma writefile_backs [backs]: "writefile_handler e w reply pid fd vaddr len = Some (mrs, w') \<Longrightarrow> backed w \<longrightarrow> backed w'"
  by (auto simp: writefile_handler_def bind_Some split: prod.splits if_splits dest!: backs)

lemma unlink_backs [backs]: "unlink_handler e w reply pid vaddr = Some (mrs, w') \<Longrightarrow> backed w \<longrightarrow> backed w'"
  by (auto simp: unlink_handler_def bind_Some split: prod.splits if_splits dest!: backs)

lemma lseek_backs [backs]: "lseek_handler e w reply pid fd off wh = Some (mrs, w') \<Longrightarrow> backed w \<longrightarrow> backed w'"
  by (auto simp: lseek_handler_def bind_Some split: prod.splits if_splits dest!: backs)

lemma writestdout_backs [backs]: "writestdout e w con reply pid vaddr len = Some (mrs, w', con') \<Longrightarrow> backed w \<longrightarrow> backed w'"
  by (auto simp: writestdout_def bind_Some split: prod.splits if_splits dest!: backs)

lemma readstdin_backs [backs]: "readstdin_finish e w con reply pid vaddr len = Some (mrs, w', con') \<Longrightarrow> backed w \<longrightarrow> backed w'"
  by (auto simp: readstdin_finish_def bind_Some split: prod.splits if_splits dest!: backs)

lemma open_fd_backs:
  assumes "(if off = -1 then Some (-1, w) else do { pcb \<leftarrow> pid_getproc w pid;
        let (fd, table) = open_fd (file_table pcb) off mode; Some (fd, set_pcb w pid (pcb\<lparr>file_table := table\<rparr>)) }) = Some (ret, w')"
  shows "backed w \<longrightarrow> backed w'"
proof (cases "off = -1")
  case False
  then obtain pcb table where "pid_getproc w pid = Some pcb" "w' = set_pcb w pid (pcb\<lparr>file_table := table\<rparr>)"
    using assms by (auto simp: bind_Some case_prod_beta Let_def)
  then show ?thesis using backed_set_same by simp
qed (use assms in auto)

lemma openfile_backs [backs]: "openfile_handler e w reply pid vaddr mode = Some (mrs, w') \<Longrightarrow> backed w \<longrightarrow> backed w'"
proof -
  assume h: "openfile_handler e w reply pid vaddr mode = Some (mrs, w')"
  obtain a w1 s off ret w2 w3 where w1: "open_window e w pid vaddr = Some (a, w1)" "close_window w2 a = Some w3" "w' = free_reply w3 reply"
    "(if off = -1 then Some (-1, w1\<lparr>os_fs := s\<rparr>) else do { pcb \<leftarrow> pid_getproc (w1\<lparr>os_fs := s\<rparr>) pid;
        let (fd, table) = open_fd (file_table pcb) off mode; Some (fd, set_pcb (w1\<lparr>os_fs := s\<rparr>) pid (pcb\<lparr>file_table := table\<rparr>)) }) = Some (ret, w2)"
    using h unfolding openfile_handler_def by (auto simp: bind_Some Let_def split: prod.splits)
  then show ?thesis using open_window_backs [OF w1(1)] open_fd_backs [OF w1(4)] close_window_backs [OF w1(2)] by simp
qed

lemma serve_backs [backs]: "serve e w con req = Some (mrs, w', con') \<Longrightarrow> backed w \<longrightarrow> backed w'"
  by (cases req) (auto simp: serve_def bind_Some split: prod.splits dest!: backs)

lemma do_brk_backs [backs]:
  assumes "do_brk w badge pcb b = Some (r, w')" "pid_getproc w badge = Some pcb"
  shows "backed w \<longrightarrow> backed w'"
proof (cases "b = 0")
  case True
  then show ?thesis using assms backed_set_same [OF assms(2)] by (auto simp: do_brk_def)
next
  case False
  then obtain p t w1 where l: "brk_loop w (p_proc pcb) (heap_top pcb) b = Some (p, t, w1)" "w' = set_pcb w1 badge (pcb\<lparr>p_proc := p, heap_top := t\<rparr>)"
    using assms(1) by (auto simp: do_brk_def bind_Some split: if_splits prod.splits)
  show ?thesis using backed_advance [OF _ assms(2)] brk_loop_step [OF l(1)] l(2) by simp
qed

lemma do_close_backs [backs]: "do_close w badge pcb mrs fd = (mrs', w') \<Longrightarrow> pid_getproc w badge = Some pcb \<Longrightarrow> backed w \<longrightarrow> backed w'"
  using backed_set_same [of w badge pcb] by (auto simp: do_close_def split: if_splits)

lemma do_execve_backs [backs]: "do_execve e w badge path = Some (pid, w') \<Longrightarrow> backed w \<longrightarrow> backed w'"
  by (auto simp: do_execve_def bind_Some split: prod.splits dest!: backs)

lemma do_getcwd_backs [backs]: "do_getcwd e w badge pcb path = Some w' \<Longrightarrow> backed w \<longrightarrow> backed w'"
  by (auto simp: do_getcwd_def bind_Some split: prod.splits dest!: backs)

lemma do_chdir_backs [backs]:
  assumes "do_chdir e w badge pcb path = Some w'" "pid_getproc w badge = Some pcb"
  shows "backed w \<longrightarrow> backed w'"
proof -
  obtain a w1 s where w1: "open_window e w badge path = Some (a, w1)" "close_window (set_pcb w1 badge (pcb\<lparr>p_cwd := s\<rparr>)) a = Some w'"
    using assms(1) by (auto simp: do_chdir_def bind_Some split: prod.splits if_splits)
  have "pid_getproc w1 badge = Some pcb" using assms(2) open_window_keeps [OF w1(1)] by (simp add: pid_getproc_def)
  then show ?thesis using open_window_backs [OF w1(1)] close_window_backs [OF w1(2)] backed_set_same [of w1 badge pcb "pcb\<lparr>p_cwd := s\<rparr>"] by simp
qed

lemma do_ls_backs [backs]: "do_ls e w badge path buf = Some w' \<Longrightarrow> backed w \<longrightarrow> backed w'"
  by (auto simp: do_ls_def bind_Some split: prod.splits dest!: backs)

lemma do_ps_backs [backs]: "do_ps e w badge buf = Some w' \<Longrightarrow> backed w \<longrightarrow> backed w'"
  by (auto simp: do_ps_def bind_Some split: prod.splits dest!: backs)

lemma handle_syscall_backs [backs]: "handle_syscall e w badge mrs = Some (mrs', rep, req, w') \<Longrightarrow> backed w \<longrightarrow> backed w'"
  unfolding handle_syscall_def dispatched_def replied_def
  by (auto simp: bind_Some Let_def split: if_splits prod.splits dest!: backs)

lemma handle_vmfault_backs [backs]:
  assumes "handle_vmfault e w badge fault resume = Some (resume', w')"
  shows "backed w \<longrightarrow> backed w'"
proof (cases fault)
  case None
  then show ?thesis using assms by (auto simp: handle_vmfault_def bind_Some)
next
  case (Some ai)
  then show ?thesis using assms
    by (cases ai) (auto simp: handle_vmfault_def bind_Some split: option.splits if_splits dest!: kill_backs
        intro: set_proc_backs [OF _ _ expand_stack_advance] set_proc_backs [OF _ _ alloc_frame_advance])
qed

lemma sys_step_backs: "sys_step S T \<Longrightarrow> backed (sys_os S) \<Longrightarrow> backed (sys_os T)"
  by (induction rule: sys_step.induct) (auto dest!: backs)

lemma sys_reach_backs: "sys_step\<^sup>*\<^sup>* S T \<Longrightarrow> backed (sys_os S) \<Longrightarrow> backed (sys_os T)"
  by (induction rule: rtranclp_induct) (auto intro: sys_step_backs)



end
