(* ===== verification/Cslots.thy ===== *)
theory Cslots
  imports Prelude
begin

text \<open>
  Capability slots. The system gets a slot for every capability it creates from the allocator of
  \<^verbatim>\<open>libsel4allocman\<close> that \<^verbatim>\<open>rootvars_init\<close> sets up (\<^verbatim>\<open>bootstrap_use_current_simple\<close>): during the bootstrap from
  \<^verbatim>\<open>cspace/simple1level.c\<close>, which counts upwards, afterwards from \<^verbatim>\<open>cspace/single_level.c\<close>, a bitmap of 32-bit words in
  which a set bit is a free slot, with a cursor at the word that was used last.

  Both are handed to the allocation manager through a table of functions. Here the contract behind that table is the
  locale \<open>slot_source\<close> (slots are handed out, each once), extended to \<open>slot_pool\<close> (a slot can be given back); what follows from
  it is proved once. Numbers are those of the 32-bit build; the memory for the bitmap comes from the memory allocator,
  whose error code is a parameter.
\<close>

unbundle bit_operations_syntax

type_synonym word32 = "32 word"

record cspacepath =
  cp_root :: int
  cp_capPtr :: int
  cp_capDepth :: int
  cp_dest :: int
  cp_destDepth :: int
  cp_offset :: int
  cp_window :: int

record cspace_config = \<comment> \<open>the same fields in both allocators\<close>
  cnode :: int
  cnode_size_bits :: int
  cnode_guard_bits :: int
  first_slot :: int
  end_slot :: int

definition make_path :: "cspace_config \<Rightarrow> int \<Rightarrow> cspacepath" where
  \<comment> \<open>\<^verbatim>\<open>_cspace_single_level_make_path\<close> and \<^verbatim>\<open>_cspace_simple1level_make_path\<close>\<close>
  "make_path config slot = \<lparr>cp_root = cnode config, cp_capPtr = slot, cp_capDepth = u32 (cnode_size_bits config + cnode_guard_bits config),
     cp_dest = 0, cp_destDepth = 0, cp_offset = slot, cp_window = 1\<rparr>"

subsection \<open>The counting allocator\<close>

record simple1level =
  s1_config :: cspace_config
  current_slot :: int

definition cspace_simple1level_create :: "cspace_config \<Rightarrow> simple1level" where
  "cspace_simple1level_create config = \<lparr>s1_config = config, current_slot = first_slot config\<rparr>"

definition cspace_simple1level_alloc :: "simple1level \<Rightarrow> (int \<times> cspacepath option \<times> simple1level) option" where
  \<comment> \<open>return code, \<^verbatim>\<open>*slot\<close> where it is assigned\<close>
  "cspace_simple1level_alloc c =
     Some (if current_slot c = end_slot (s1_config c) then (1, None, c)
       else (0, Some (make_path (s1_config c) (current_slot c)), c\<lparr>current_slot := u32 (current_slot c + 1)\<rparr>))"

definition cspace_simple1level_free :: "simple1level \<Rightarrow> cspacepath \<Rightarrow> simple1level" where
  "cspace_simple1level_free c slot = c"

subsection \<open>The bitmap allocator\<close>

record single_level =
  sl_config :: cspace_config
  bitmap :: "word32 list"
  bitmap_length :: int
  last_entry :: int

definition BITS_PER_WORD :: int where "BITS_PER_WORD = 32"

definition BIT :: "int \<Rightarrow> word32" where
  "BIT n = push_bit (nat n) 1"

definition CLZL :: "word32 \<Rightarrow> int option" where
  \<comment> \<open>\<^verbatim>\<open>__builtin_clzl\<close>: leading zeros, undefined for 0\<close>
  "CLZL x = (if x = 0 then None else Some (int (length (takeWhile (\<lambda>i. \<not> bit x (31 - i)) [0..<32]))))"

definition cspace_single_level_create :: "int \<Rightarrow> cspace_config \<Rightarrow> int \<times> single_level" where
  \<comment> \<open>\<open>error\<close> is the error code of \<^verbatim>\<open>allocman_mspace_alloc\<close> for the bitmap. The length that is recorded
     does not count the last, incomplete word.\<close>
  "cspace_single_level_create error config =
     (let num_slots = u32 (end_slot config - first_slot config);
          num_entries = num_slots div BITS_PER_WORD;
          c = \<lparr>sl_config = config, bitmap = [], bitmap_length = num_entries, last_entry = 0\<rparr>;
          excess = num_slots mod BITS_PER_WORD;
          num_entries = (if excess \<noteq> 0 then num_entries + 1 else num_entries);
          words = replicate (nat num_entries) (- 1);
          words = (if excess \<noteq> 0
            then words[nat num_entries - 1 := fold (\<lambda>i w. w XOR BIT i) [excess..31] (words ! (nat num_entries - 1))]
            else words) in
      if error \<noteq> 0 then (error, c) else (0, c\<lparr>bitmap := words\<rparr>))"

definition cspace_single_level_destroy :: "single_level \<Rightarrow> int" where
  \<comment> \<open>the number of bytes given back to the memory allocator\<close>
  "cspace_single_level_destroy c = bitmap_length c * 4"

partial_function (option) next_entry :: "word32 list \<Rightarrow> int \<Rightarrow> int \<Rightarrow> int \<Rightarrow> int option" where
  \<comment> \<open>\<^verbatim>\<open>do { i = (i + 1) % bitmap_length; } while (bitmap[i] == 0 && i != last_entry);\<close>\<close>
  "next_entry bm len stop i =
     (let i = u32 (i + 1) mod len in
      do { w \<leftarrow> arr bm i; if w = 0 \<and> i \<noteq> stop then next_entry bm len stop i else Some i })"

definition cspace_single_level_alloc :: "single_level \<Rightarrow> (int \<times> cspacepath option \<times> single_level) option" where
  "cspace_single_level_alloc c =
     do { w \<leftarrow> arr (bitmap c) (last_entry c);
          i \<leftarrow> (if w = 0 then
                  do { ok (bitmap_length c \<noteq> 0);
                       ok (last_entry c < bitmap_length c);
                       next_entry (bitmap c) (bitmap_length c) (last_entry c) (last_entry c) }
                else Some (last_entry c));
          if w = 0 \<and> i = last_entry c then Some (1, None, c)
          else do {
            w \<leftarrow> arr (bitmap c) i;
            lz \<leftarrow> CLZL w;
            let index = BITS_PER_WORD - 1 - lz;
            bm \<leftarrow> arr_upd (bitmap c) i (w AND NOT (BIT index));
            Some (0, Some (make_path (sl_config c) (u32 (first_slot (sl_config c) + (i * BITS_PER_WORD + index)))),
                  c\<lparr>bitmap := bm, last_entry := i\<rparr>) } }"

definition cspace_single_level_alloc_at :: "single_level \<Rightarrow> int \<Rightarrow> (int \<times> single_level) option" where
  "cspace_single_level_alloc_at c slot =
     (let index = u32 (slot - first_slot (sl_config c)) in
      if index div BITS_PER_WORD \<ge> bitmap_length c then Some (1, c)
      else do { w \<leftarrow> arr (bitmap c) (index div BITS_PER_WORD);
                if w AND BIT (index mod BITS_PER_WORD) = 0 then Some (1, c)
                else do { bm \<leftarrow> arr_upd (bitmap c) (index div BITS_PER_WORD) (w AND NOT (BIT (index mod BITS_PER_WORD)));
                          Some (0, c\<lparr>bitmap := bm\<rparr>) } })"

definition cspace_single_level_free :: "single_level \<Rightarrow> cspacepath \<Rightarrow> single_level option" where
  "cspace_single_level_free c slot =
     (let index = u32 (cp_capPtr slot - first_slot (sl_config c)) in
      do { w \<leftarrow> arr (bitmap c) (index div BITS_PER_WORD);
           ok (w AND BIT (index mod BITS_PER_WORD) = 0);
           bm \<leftarrow> arr_upd (bitmap c) (index div BITS_PER_WORD) (w OR BIT (index mod BITS_PER_WORD));
           Some (c\<lparr>bitmap := bm\<rparr>) })"

subsection \<open>What a client of a slot allocator relies on\<close>

locale slot_source =
  fixes alloc :: "'s \<Rightarrow> (int \<times> cspacepath option \<times> 's) option"
    and avail :: "'s \<Rightarrow> int set" \<comment> \<open>the slots it can still hand out\<close>
    and valid :: "'s \<Rightarrow> bool"
  assumes avail_finite: "valid s \<Longrightarrow> finite (avail s)"
    and alloc_none: "valid s \<Longrightarrow> avail s = {} \<Longrightarrow> alloc s = Some (1, None, s)"
    and alloc_one: "valid s \<Longrightarrow> avail s \<noteq> {} \<Longrightarrow>
      \<exists>p t. alloc s = Some (0, Some p, t) \<and> cp_capPtr p \<in> avail s \<and> avail t = avail s - {cp_capPtr p} \<and> valid t"
begin

fun alloc_many :: "nat \<Rightarrow> 's \<Rightarrow> (int list \<times> 's) option" where
  \<comment> \<open>a client that asks for \<open>n\<close> slots and stops at the first error\<close>
  "alloc_many 0 s = Some ([], s)"
| "alloc_many (Suc n) s =
     do { (ret, p, s) \<leftarrow> alloc s;
          if ret \<noteq> 0 then Some ([], s)
          else do { p \<leftarrow> p; (ps, s) \<leftarrow> alloc_many n s; Some (cp_capPtr p # ps, s) } }"

lemma alloc_many_distinct:
  assumes "valid s"
  shows "\<exists>ps t. alloc_many n s = Some (ps, t) \<and> length ps = min n (card (avail s)) \<and> distinct ps \<and> set ps \<subseteq> avail s
    \<and> avail t = avail s - set ps \<and> valid t"
  using assms
proof (induction n arbitrary: s)
  case (Suc n)
  show ?case
  proof (cases "avail s = {}")
    case True
    then show ?thesis using alloc_none [OF Suc.prems] Suc.prems by simp
  next
    case False
    then obtain p t where p: "alloc s = Some (0, Some p, t)" "cp_capPtr p \<in> avail s" "avail t = avail s - {cp_capPtr p}" "valid t"
      using alloc_one [OF Suc.prems] by blast
    obtain ps u where u: "alloc_many n t = Some (ps, u)" "length ps = min n (card (avail t))" "distinct ps" "set ps \<subseteq> avail t"
      "avail u = avail t - set ps" "valid u" using Suc.IH [OF p(4)] by blast
    have "card (avail s) = Suc (card (avail t))" using card_Suc_Diff1 [OF avail_finite [OF Suc.prems] p(2)] p(3) by simp
    then have "length (cp_capPtr p # ps) = min (Suc n) (card (avail s))" using u(2) by simp
    moreover have "cp_capPtr p \<notin> set ps" "set (cp_capPtr p # ps) \<subseteq> avail s" "avail u = avail s - set (cp_capPtr p # ps)" using u(4,5) p(2,3) by auto
    moreover have "alloc_many (Suc n) s = Some (cp_capPtr p # ps, u)" using p(1) u(1) by simp
    ultimately show ?thesis using u(3,6) by (intro exI [of _ "cp_capPtr p # ps"] exI [of _ u]) simp
  qed
qed simp

end

locale slot_pool = slot_source +
  fixes put :: "'a \<Rightarrow> cspacepath \<Rightarrow> 'a option"
    and managed :: "'a \<Rightarrow> int set" \<comment> \<open>the slots it manages\<close>
  assumes put_used: "valid s \<Longrightarrow> cp_capPtr p \<in> managed s - avail s \<Longrightarrow>
      \<exists>t. put s p = Some t \<and> avail t = insert (cp_capPtr p) (avail s) \<and> managed t = managed s \<and> valid t"
    and put_free: "valid s \<Longrightarrow> cp_capPtr p \<in> avail s \<Longrightarrow> put s p = None"
    and avail_managed: "valid s \<Longrightarrow> avail s \<subseteq> managed s"
    and alloc_managed: "valid s \<Longrightarrow> alloc s = Some (r, q, t) \<Longrightarrow> managed t = managed s"
begin

lemma put_alloc:
  \<comment> \<open>giving back what was just taken restores the pool, and only once\<close>
  assumes "valid s" "avail s \<noteq> {}"
  shows "\<exists>p t u. alloc s = Some (0, Some p, t) \<and> put t p = Some u \<and> avail u = avail s \<and> valid u \<and> put u p = None"
proof -
  obtain p t where p: "alloc s = Some (0, Some p, t)" "cp_capPtr p \<in> avail s" "avail t = avail s - {cp_capPtr p}" "valid t"
    using alloc_one [OF assms] by blast
  have "cp_capPtr p \<in> managed t - avail t" using p alloc_managed [OF assms(1) p(1)] avail_managed [OF assms(1)] by auto
  then obtain u where u: "put t p = Some u" "avail u = insert (cp_capPtr p) (avail t)" "valid u" using put_used [OF p(4)] by blast
  then have "avail u = avail s" using p(2,3) by auto
  then show ?thesis using p(1,2) u put_free [of u p] by auto
qed

end

subsection \<open>The counting allocator provides slots\<close>

definition s1_avail :: "simple1level \<Rightarrow> int set" where
  "s1_avail c = {current_slot c..<end_slot (s1_config c)}"

definition s1_valid :: "simple1level \<Rightarrow> bool" where
  "s1_valid c \<longleftrightarrow> 0 \<le> current_slot c \<and> current_slot c \<le> end_slot (s1_config c) \<and> end_slot (s1_config c) < 4294967296"

interpretation s1: slot_source cspace_simple1level_alloc s1_avail s1_valid
proof (unfold_locales, goal_cases)
  case (3 c)
  let ?t = "c\<lparr>current_slot := current_slot c + 1\<rparr>"
  have lt: "current_slot c < end_slot (s1_config c)" using 3 by (auto simp: s1_avail_def)
  then have "cspace_simple1level_alloc c = Some (0, Some (make_path (s1_config c) (current_slot c)), ?t)"
    using 3 by (simp add: cspace_simple1level_alloc_def s1_valid_def u32_id)
  moreover have "s1_avail ?t = s1_avail c - {current_slot c}" "s1_valid ?t" "current_slot c \<in> s1_avail c"
    using 3 lt by (auto simp: s1_avail_def s1_valid_def)
  ultimately show ?case by (auto simp: make_path_def)
qed (auto simp: s1_avail_def s1_valid_def cspace_simple1level_alloc_def)

subsection \<open>The bitmap allocator provides a pool\<close>

definition slot_free :: "word32 list \<Rightarrow> nat \<Rightarrow> bool" where
  "slot_free bm k \<longleftrightarrow> bit (bm ! (k div 32)) (k mod 32)"

definition sl_managed :: "single_level \<Rightarrow> int set" where
  "sl_managed c = {first_slot (sl_config c)..<first_slot (sl_config c) + 32 * bitmap_length c}"

definition sl_avail :: "single_level \<Rightarrow> int set" where
  \<comment> \<open>the free slots, of the words that are searched\<close>
  "sl_avail c = {s \<in> sl_managed c. slot_free (bitmap c) (nat (s - first_slot (sl_config c)))}"

definition sl_valid :: "single_level \<Rightarrow> bool" where
  "sl_valid c \<longleftrightarrow> 0 \<le> last_entry c \<and> last_entry c < bitmap_length c \<and> bitmap_length c \<le> int (length (bitmap c))
     \<and> 0 \<le> first_slot (sl_config c) \<and> first_slot (sl_config c) + 32 * bitmap_length c \<le> 4294967296"

lemma bit_BIT: "k < 32 \<Longrightarrow> bit (BIT (int n)) k \<longleftrightarrow> k = n"
  by (auto simp: BIT_def bit_simps)

lemma BIT_test: "n < 32 \<Longrightarrow> w AND BIT (int n) = 0 \<longleftrightarrow> \<not> bit w n" for w :: word32
proof
  assume n: "n < 32" and "w AND BIT (int n) = 0"
  then have "\<not> bit (w AND BIT (int n)) n" by simp
  then show "\<not> bit w n" using n by (simp add: bit_and_iff bit_BIT)
next
  assume n: "n < 32" and "\<not> bit w n"
  then show "w AND BIT (int n) = 0" by (intro bit_word_eqI) (auto simp: bit_and_iff bit_BIT)
qed

lemma slot_free_set:
  assumes "k < 32 * length bm"
  shows "slot_free (bm[k div 32 := bm ! (k div 32) AND NOT (BIT (int (k mod 32)))]) j \<longleftrightarrow> j \<noteq> k \<and> slot_free bm j"
    "slot_free (bm[k div 32 := bm ! (k div 32) OR BIT (int (k mod 32))]) j \<longleftrightarrow> j = k \<or> slot_free bm j"
proof -
  have b: "k div 32 < length bm" using assms by (simp add: less_mult_imp_div_less mult.commute)
  have e: "j div 32 = k div 32 \<Longrightarrow> j mod 32 = k mod 32 \<longleftrightarrow> j = k" by (metis div_mult_mod_eq)
  show "slot_free (bm[k div 32 := bm ! (k div 32) AND NOT (BIT (int (k mod 32)))]) j \<longleftrightarrow> j \<noteq> k \<and> slot_free bm j"
    "slot_free (bm[k div 32 := bm ! (k div 32) OR BIT (int (k mod 32))]) j \<longleftrightarrow> j = k \<or> slot_free bm j"
    using b e by (cases "j div 32 = k div 32"; auto simp: slot_free_def bit_and_iff bit_or_iff bit_not_iff bit_BIT)+
qed

lemma takeWhile_short: "\<exists>x \<in> set xs. \<not> P x \<Longrightarrow> length (takeWhile P xs) < length xs"
  by (induction xs) auto

lemma highest_bit:
  fixes w :: word32
  assumes "w \<noteq> 0"
  shows "\<exists>n < 32. CLZL w = Some (31 - int n) \<and> bit w n"
proof -
  define xs where "xs = [0..<32::nat]"
  have xs: "length xs = 32" "\<And>i. i < 32 \<Longrightarrow> xs ! i = i" "set xs = {..<32}" unfolding xs_def by (auto simp del: upt_rec_numeral)
  define l where "l = length (takeWhile (\<lambda>i. \<not> bit w (31 - i)) xs)"
  have "\<exists>n < 32. bit w n"
  proof (rule ccontr)
    assume "\<not> (\<exists>n < 32. bit w n)"
    then have "w = 0" by (intro bit_word_eqI) auto
    then show False using assms by contradiction
  qed
  then obtain n where n: "n < 32" "bit w n" by blast
  have "31 - n \<in> set xs" "bit w (31 - (31 - n))" using n xs(3) by auto
  then have "\<exists>x \<in> set xs. \<not> \<not> bit w (31 - x)" by blast
  then have l: "l < 32" using takeWhile_short [of xs "\<lambda>i. \<not> bit w (31 - i)"] xs(1) unfolding l_def by simp
  then have "bit w (31 - l)" using nth_length_takeWhile [of "\<lambda>i. \<not> bit w (31 - i)" xs] xs(1,2) unfolding l_def by simp
  moreover have "CLZL w = Some (31 - int (31 - l))" using assms l unfolding CLZL_def xs_def [symmetric] l_def [symmetric] by simp
  ultimately show ?thesis using l by (intro exI [of _ "31 - l"]) simp
qed

lemma next_entry_spec:
  \<comment> \<open>the search goes once round at most: it ends at the next word that is not zero, or where it started\<close>
  assumes "0 < len" "len \<le> int (length bm)" "len < 4294967296" "0 \<le> start" "start < len" "0 \<le> d" "d < len" "i = (start + d) mod len"
    "\<forall>e. 0 < e \<and> e \<le> d \<longrightarrow> bm ! nat ((start + e) mod len) = 0"
  shows "\<exists>j. next_entry bm len start i = Some j \<and> 0 \<le> j \<and> j < len \<and> (bm ! nat j \<noteq> 0 \<or> j = start \<and> (\<forall>k. 0 \<le> k \<and> k < len \<and> k \<noteq> start \<longrightarrow> bm ! nat k = 0))"
  using assms(6-)
proof (induction "nat (len - d)" arbitrary: d i rule: less_induct)
  case less
  let ?j = "(start + (d + 1)) mod len"
  have j: "0 \<le> ?j" "?j < len" using assms(1) by simp_all
  have i: "0 \<le> i" "i < len" using less.prems(3) assms(1) by simp_all
  have "u32 (i + 1) mod len = (i + 1) mod len" using i assms(3) by (simp add: u32_id)
  also have "\<dots> = ?j" unfolding less.prems(3) by (simp only: mod_add_left_eq add.assoc)
  finally have step: "u32 (i + 1) mod len = ?j" .
  have a: "arr bm ?j = Some (bm ! nat ?j)" using j assms(2) by (simp add: arr_def)
  show ?case
  proof (cases "bm ! nat ?j = 0 \<and> ?j \<noteq> start")
    case False
    have "bm ! nat k = 0" if "?j = start" "0 \<le> k" "k < len" "k \<noteq> start" for k
    proof -
      have "len dvd d + 1" using that(1) assms(4,5) by (metis add_diff_cancel_left' mod_eq_dvd_iff mod_pos_pos_trivial)
      then have d: "d + 1 = len" using less.prems(1,2) zdvd_imp_le [of len "d + 1"] by simp
      let ?e = "(k - start) mod len"
      have "?e \<noteq> 0" using that(2-4) assms(4,5) by (metis mod_eq_dvd_iff mod_0_imp_dvd mod_pos_pos_trivial)
      then have "0 < ?e" "?e \<le> d" using assms(1) d pos_mod_bound [of len "k - start"] pos_mod_sign [of len "k - start"] by linarith+
      moreover have "(start + ?e) mod len = k" using that(2,3) by (simp add: mod_add_right_eq)
      ultimately show ?thesis using less.prems(4) by metis
    qed
    then show ?thesis using False j by (subst next_entry.simps) (auto simp: step a Let_def)
  next
    case True
    have d: "d + 1 < len"
    proof (rule ccontr)
      assume "\<not> d + 1 < len"
      then have "d + 1 = len" using less.prems(2) by simp
      then show False using True assms(4,5) by simp
    qed
    have "\<forall>e. 0 < e \<and> e \<le> d + 1 \<longrightarrow> bm ! nat ((start + e) mod len) = 0"
    proof (intro allI impI)
      fix e assume "0 < e \<and> e \<le> d + 1"
      then show "bm ! nat ((start + e) mod len) = 0" using True less.prems(4) by (cases "e = d + 1") auto
    qed
    then have "\<exists>j. next_entry bm len start ?j = Some j \<and> 0 \<le> j \<and> j < len \<and> (bm ! nat j \<noteq> 0 \<or> j = start \<and> (\<forall>k. 0 \<le> k \<and> k < len \<and> k \<noteq> start \<longrightarrow> bm ! nat k = 0))"
      using less.hyps [of "d + 1" ?j] d less.prems(1,2) by simp
    moreover have "next_entry bm len start i = next_entry bm len start ?j"
      using True by (subst next_entry.simps) (simp add: step a Let_def)
    ultimately show ?thesis by simp
  qed
qed

lemma sl_index:
  assumes "sl_valid c" "s \<in> sl_managed c"
  shows "\<exists>k. s = first_slot (sl_config c) + int k \<and> k < 32 * length (bitmap c) \<and> int k < 32 * bitmap_length c
    \<and> u32 (s - first_slot (sl_config c)) = int k \<and> int k div 32 = int (k div 32) \<and> int k mod 32 = int (k mod 32)"
  using assms by (intro exI [of _ "nat (s - first_slot (sl_config c))"]) (auto simp: sl_valid_def sl_managed_def u32_id zdiv_int zmod_int)

lemma sl_avail_iff: "first_slot (sl_config c) + int k \<in> sl_avail c \<longleftrightarrow> int k < 32 * bitmap_length c \<and> slot_free (bitmap c) k"
  by (simp add: sl_avail_def sl_managed_def)

lemma sl_update:
  assumes "sl_valid c" "int k < 32 * bitmap_length c"
  defines "f \<equiv> first_slot (sl_config c)"
  shows "sl_avail (c\<lparr>bitmap := (bitmap c)[k div 32 := bitmap c ! (k div 32) AND NOT (BIT (int (k mod 32)))]\<rparr>) = sl_avail c - {f + int k}"
    "sl_avail (c\<lparr>bitmap := (bitmap c)[k div 32 := bitmap c ! (k div 32) OR BIT (int (k mod 32))]\<rparr>) = insert (f + int k) (sl_avail c)"
proof -
  have k: "k < 32 * length (bitmap c)" using assms(1,2) by (simp add: sl_valid_def)
  have n: "nat (x - f) = k \<longleftrightarrow> x = f + int k" if "x \<in> sl_managed c" for x using that by (auto simp: sl_managed_def f_def)
  have m: "f + int k \<in> sl_managed c" "sl_managed (c\<lparr>bitmap := b\<rparr>) = sl_managed c" for b using assms(1,2) by (auto simp: sl_managed_def f_def)
  show "sl_avail (c\<lparr>bitmap := (bitmap c)[k div 32 := bitmap c ! (k div 32) AND NOT (BIT (int (k mod 32)))]\<rparr>) = sl_avail c - {f + int k}"
    "sl_avail (c\<lparr>bitmap := (bitmap c)[k div 32 := bitmap c ! (k div 32) OR BIT (int (k mod 32))]\<rparr>) = insert (f + int k) (sl_avail c)"
    using n m(1) by (auto simp: sl_avail_def m(2) slot_free_set [OF k] f_def [symmetric])
qed

lemma word_empty: "m < length bm \<Longrightarrow> bm ! m = 0 \<longleftrightarrow> (\<forall>n < 32. \<not> slot_free bm (32 * m + n))" for bm :: "word32 list"
  by (auto simp: slot_free_def intro!: bit_word_eqI)

lemma sl_avail_empty:
  assumes "sl_valid c"
  shows "sl_avail c = {} \<longleftrightarrow> (\<forall>i. 0 \<le> i \<and> i < bitmap_length c \<longrightarrow> bitmap c ! nat i = 0)"
proof
  let ?f = "first_slot (sl_config c)"
  assume e: "sl_avail c = {}"
  show "\<forall>i. 0 \<le> i \<and> i < bitmap_length c \<longrightarrow> bitmap c ! nat i = 0"
  proof (intro allI impI)
    fix i assume i: "0 \<le> i \<and> i < bitmap_length c"
    have "\<not> slot_free (bitmap c) (32 * nat i + n)" if "n < 32" for n
      using e sl_avail_iff [of c "32 * nat i + n"] i that by auto
    then show "bitmap c ! nat i = 0" using word_empty [of "nat i" "bitmap c"] i assms by (auto simp: sl_valid_def)
  qed
next
  assume z: "\<forall>i. 0 \<le> i \<and> i < bitmap_length c \<longrightarrow> bitmap c ! nat i = 0"
  have "x \<notin> sl_avail c" for x
  proof
    assume "x \<in> sl_avail c"
    then have x: "x \<in> sl_managed c" "slot_free (bitmap c) (nat (x - first_slot (sl_config c)))" by (auto simp: sl_avail_def)
    obtain k where k: "x = first_slot (sl_config c) + int k" "int k < 32 * bitmap_length c" using sl_index [OF assms x(1)] by blast
    then have "int (k div 32) < bitmap_length c" by linarith
    then have "bitmap c ! (k div 32) = 0" using z [rule_format, of "int (k div 32)"] by (simp only: nat_int of_nat_0_le_iff simp_thms)
    then show False using x(2) k(1) by (simp add: slot_free_def)
  qed
  then show "sl_avail c = {}" by blast
qed

lemma sl_take:
  assumes "sl_valid c" "0 \<le> i" "i < bitmap_length c" "bitmap c ! nat i \<noteq> 0"
  shows "\<exists>lz p t. CLZL (bitmap c ! nat i) = Some lz
    \<and> p = make_path (sl_config c) (u32 (first_slot (sl_config c) + (i * BITS_PER_WORD + (BITS_PER_WORD - 1 - lz))))
    \<and> t = c\<lparr>bitmap := (bitmap c)[nat i := bitmap c ! nat i AND NOT (BIT (BITS_PER_WORD - 1 - lz))], last_entry := i\<rparr>
    \<and> cp_capPtr p \<in> sl_avail c \<and> sl_avail t = sl_avail c - {cp_capPtr p} \<and> sl_valid t \<and> sl_managed t = sl_managed c"
proof -
  obtain n where n: "n < 32" "CLZL (bitmap c ! nat i) = Some (31 - int n)" "bit (bitmap c ! nat i) n" using highest_bit [OF assms(4)] by blast
  let ?k = "32 * nat i + n" and ?f = "first_slot (sl_config c)"
  have k: "?k div 32 = nat i" "?k mod 32 = n" "int ?k < 32 * bitmap_length c" using n(1) assms(2,3) by auto
  have f: "u32 (?f + (i * BITS_PER_WORD + (BITS_PER_WORD - 1 - (31 - int n)))) = ?f + int ?k" "BITS_PER_WORD - 1 - (31 - int n) = int n"
    using assms(1-3) n(1) by (auto simp: sl_valid_def BITS_PER_WORD_def u32_id)
  let ?c = "c\<lparr>bitmap := (bitmap c)[nat i := bitmap c ! nat i AND NOT (BIT (int n))]\<rparr>"
  have a: "sl_avail ?c = sl_avail c - {?f + int ?k}" using sl_update(1) [OF assms(1) k(3)] unfolding k by simp
  have "?f + int ?k \<in> sl_avail c" using n(3) k unfolding sl_avail_iff slot_free_def by simp
  moreover have "sl_avail (?c\<lparr>last_entry := i\<rparr>) = sl_avail ?c" by (simp add: sl_avail_def sl_managed_def)
  moreover have "sl_valid (?c\<lparr>last_entry := i\<rparr>)" "sl_managed (?c\<lparr>last_entry := i\<rparr>) = sl_managed c"
    using assms(1-3) by (auto simp: sl_valid_def sl_managed_def)
  ultimately show ?thesis using n(2) f a
    by (intro exI [of _ "31 - int n"] exI [of _ "make_path (sl_config c) (?f + int ?k)"] exI [of _ "?c\<lparr>last_entry := i\<rparr>"])
      (simp add: make_path_def)
qed

lemma sl_alloc_spec:
  assumes "sl_valid c"
  shows "if sl_avail c = {} then cspace_single_level_alloc c = Some (1, None, c)
    else \<exists>p t. cspace_single_level_alloc c = Some (0, Some p, t) \<and> cp_capPtr p \<in> sl_avail c \<and> sl_avail t = sl_avail c - {cp_capPtr p}
      \<and> sl_valid t \<and> sl_managed t = sl_managed c"
proof -
  let ?l = "last_entry c" and ?n = "bitmap_length c"
  have v: "0 \<le> ?l" "?l < ?n" "?n \<le> int (length (bitmap c))" "?n < 4294967296" using assms by (auto simp: sl_valid_def)
  have ar: "arr (bitmap c) i = Some (bitmap c ! nat i)" if "0 \<le> i" "i < ?n" for i using that v(3) by (simp add: arr_def)
  have up: "arr_upd (bitmap c) i w = Some ((bitmap c)[nat i := w])" if "0 \<le> i" "i < ?n" for i w using that v(3) by (simp add: arr_upd_def)
  show ?thesis
  proof (cases "bitmap c ! nat ?l = 0")
    case False
    have ne: "sl_avail c \<noteq> {}" using False v(1,2) sl_avail_empty [OF assms] by blast
    obtain lz p t where t: "CLZL (bitmap c ! nat ?l) = Some lz"
      "p = make_path (sl_config c) (u32 (first_slot (sl_config c) + (?l * BITS_PER_WORD + (BITS_PER_WORD - 1 - lz))))"
      "t = c\<lparr>bitmap := (bitmap c)[nat ?l := bitmap c ! nat ?l AND NOT (BIT (BITS_PER_WORD - 1 - lz))], last_entry := ?l\<rparr>"
      "cp_capPtr p \<in> sl_avail c \<and> sl_avail t = sl_avail c - {cp_capPtr p} \<and> sl_valid t \<and> sl_managed t = sl_managed c"
      using sl_take [OF assms v(1,2) False] by blast
    have "cspace_single_level_alloc c = Some (0, Some p, t)"
      unfolding t(2,3) cspace_single_level_alloc_def ar [OF v(1,2)] bind.simps up [OF v(1,2)] using False by (simp add: ar [OF v(1,2)] t(1) up [OF v(1,2)] Let_def)
    then show ?thesis using ne t(4) by auto
  next
    case True
    obtain j where j: "next_entry (bitmap c) ?n ?l ?l = Some j" "0 \<le> j" "j < ?n"
      "bitmap c ! nat j \<noteq> 0 \<or> j = ?l \<and> (\<forall>k. 0 \<le> k \<and> k < ?n \<and> k \<noteq> ?l \<longrightarrow> bitmap c ! nat k = 0)"
    proof -
      have "\<forall>e. 0 < e \<and> e \<le> (0::int) \<longrightarrow> bitmap c ! nat ((?l + e) mod ?n) = 0" by linarith
      then show thesis using that next_entry_spec [of ?n "bitmap c" ?l 0 ?l] v by auto
    qed
    show ?thesis
    proof (cases "j = ?l")
      case eq: True
      then have "sl_avail c = {}" using j(4) True sl_avail_empty [OF assms] by metis
      then show ?thesis using True eq j(1) v by (simp add: cspace_single_level_alloc_def ar [OF v(1,2)])
    next
      case False
      then have nz: "bitmap c ! nat j \<noteq> 0" using j(4) by blast
      then have ne: "sl_avail c \<noteq> {}" using j(2,3) sl_avail_empty [OF assms] by blast
      obtain lz p t where t: "CLZL (bitmap c ! nat j) = Some lz"
        "p = make_path (sl_config c) (u32 (first_slot (sl_config c) + (j * BITS_PER_WORD + (BITS_PER_WORD - 1 - lz))))"
        "t = c\<lparr>bitmap := (bitmap c)[nat j := bitmap c ! nat j AND NOT (BIT (BITS_PER_WORD - 1 - lz))], last_entry := j\<rparr>"
        "cp_capPtr p \<in> sl_avail c \<and> sl_avail t = sl_avail c - {cp_capPtr p} \<and> sl_valid t \<and> sl_managed t = sl_managed c"
        using sl_take [OF assms j(2,3) nz] by blast
      have "cspace_single_level_alloc c = Some (0, Some p, t)"
        using True False j(1) v unfolding t(2,3) by (simp add: cspace_single_level_alloc_def ar [OF v(1,2)] ar [OF j(2,3)] t(1) up [OF j(2,3)] Let_def)
      then show ?thesis using ne t(4) by auto
    qed
  qed
qed

lemma sl_put_spec:
  assumes "sl_valid c" "cp_capPtr p \<in> sl_managed c"
  shows "if cp_capPtr p \<in> sl_avail c then cspace_single_level_free c p = None
    else \<exists>t. cspace_single_level_free c p = Some t \<and> sl_avail t = insert (cp_capPtr p) (sl_avail c) \<and> sl_managed t = sl_managed c \<and> sl_valid t"
proof -
  let ?f = "first_slot (sl_config c)"
  obtain k where k: "cp_capPtr p = ?f + int k" "k < 32 * length (bitmap c)" "int k < 32 * bitmap_length c"
    "u32 (cp_capPtr p - ?f) = int k" "int k div 32 = int (k div 32)" "int k mod 32 = int (k mod 32)"
    using sl_index [OF assms] by blast
  have b: "k div 32 < length (bitmap c)" using k(2) by (simp add: less_mult_imp_div_less mult.commute)
  have fr: "cp_capPtr p \<in> sl_avail c \<longleftrightarrow> bit (bitmap c ! (k div 32)) (k mod 32)" unfolding k(1) sl_avail_iff slot_free_def using k(3) by simp
  let ?t = "c\<lparr>bitmap := (bitmap c)[k div 32 := bitmap c ! (k div 32) OR BIT (int (k mod 32))]\<rparr>"
  have a: "arr (bitmap c) (int (k div 32)) = Some (bitmap c ! (k div 32))" "arr_upd (bitmap c) (int (k div 32)) w = Some ((bitmap c)[k div 32 := w])" for w
    using b by (simp_all only: arr_def arr_upd_def nat_int of_nat_0_le_iff of_nat_less_iff simp_thms if_True)
  have "cspace_single_level_free c p = (if bit (bitmap c ! (k div 32)) (k mod 32) then None else Some ?t)"
    unfolding cspace_single_level_free_def k(4) BITS_PER_WORD_def Let_def k(5,6) by (simp add: a BIT_test)
  moreover have "sl_avail ?t = insert (cp_capPtr p) (sl_avail c)" using sl_update(2) [OF assms(1) k(3)] by (simp add: k(1))
  moreover have "sl_managed ?t = sl_managed c" "sl_valid ?t" using assms(1) by (simp_all add: sl_managed_def sl_valid_def)
  ultimately show ?thesis using fr by auto
qed

interpretation sl: slot_pool cspace_single_level_alloc sl_avail sl_valid cspace_single_level_free sl_managed
proof (unfold_locales, goal_cases)
  case (1 c)
  have "sl_avail c \<subseteq> sl_managed c" "finite (sl_managed c)" by (auto simp: sl_avail_def sl_managed_def)
  then show ?case by (rule finite_subset)
next
  case (2 c)
  then show ?case using sl_alloc_spec [of c] by simp
next
  case (3 c)
  then show ?case using sl_alloc_spec [of c] by auto
next
  case (4 c p)
  then show ?case using sl_put_spec [of c p] by auto
next
  case (5 c p)
  then show ?case using sl_put_spec [of c p] by (auto simp: sl_avail_def)
next
  case (6 c)
  then show ?case by (auto simp: sl_avail_def)
next
  case (7 c r q t)
  then show ?case using sl_alloc_spec [of c] by (auto split: if_splits)
qed

lemma alloc_at_spec:
  assumes "sl_valid c" "slot \<in> sl_managed c"
  shows "if slot \<in> sl_avail c then \<exists>t. cspace_single_level_alloc_at c slot = Some (0, t) \<and> sl_avail t = sl_avail c - {slot} \<and> sl_valid t
    else cspace_single_level_alloc_at c slot = Some (1, c)"
proof -
  let ?f = "first_slot (sl_config c)"
  obtain k where k: "slot = ?f + int k" "k < 32 * length (bitmap c)" "int k < 32 * bitmap_length c"
    "u32 (slot - ?f) = int k" "int k div 32 = int (k div 32)" "int k mod 32 = int (k mod 32)"
    using sl_index [OF assms] by blast
  have b: "k div 32 < length (bitmap c)" using k(2) by (simp add: less_mult_imp_div_less mult.commute)
  have l: "\<not> bitmap_length c \<le> int (k div 32)" using k(3) by linarith
  have fr: "slot \<in> sl_avail c \<longleftrightarrow> bit (bitmap c ! (k div 32)) (k mod 32)" unfolding k(1) sl_avail_iff slot_free_def using k(3) by simp
  let ?t = "c\<lparr>bitmap := (bitmap c)[k div 32 := bitmap c ! (k div 32) AND NOT (BIT (int (k mod 32)))]\<rparr>"
  have a: "arr (bitmap c) (int (k div 32)) = Some (bitmap c ! (k div 32))" "arr_upd (bitmap c) (int (k div 32)) w = Some ((bitmap c)[k div 32 := w])" for w
    using b by (simp_all only: arr_def arr_upd_def nat_int of_nat_0_le_iff of_nat_less_iff simp_thms if_True)
  have "cspace_single_level_alloc_at c slot = (if bit (bitmap c ! (k div 32)) (k mod 32) then Some (0, ?t) else Some (1, c))"
    unfolding cspace_single_level_alloc_at_def k(4) BITS_PER_WORD_def Let_def k(5,6) using l by (simp add: a BIT_test)
  moreover have "sl_avail ?t = sl_avail c - {slot}" using sl_update(1) [OF assms(1) k(3)] by (simp add: k(1))
  moreover have "sl_valid ?t" using assms(1) by (simp add: sl_valid_def)
  ultimately show ?thesis using fr by auto
qed

subsection \<open>Setting the bitmap up\<close>

definition config_ok :: "cspace_config \<Rightarrow> bool" where
  \<comment> \<open>a range of slots that has a complete word\<close>
  "config_ok config \<longleftrightarrow> 0 \<le> first_slot config \<and> first_slot config + 32 \<le> end_slot config \<and> end_slot config < 4294967296"

lemma create_fields:
  assumes "config_ok config" "cspace_single_level_create 0 config = (0, c)"
  defines "n \<equiv> end_slot config - first_slot config"
  shows "sl_config c = config" "bitmap_length c = n div 32" "last_entry c = 0"
    "length (bitmap c) = nat (if n mod 32 \<noteq> 0 then n div 32 + 1 else n div 32)"
    "i < nat (n div 32) \<Longrightarrow> bitmap c ! i = - 1"
proof -
  have n: "u32 n = n" "0 < n div 32" using assms(1) by (auto simp: n_def config_ok_def u32_id)
  show "sl_config c = config" "bitmap_length c = n div 32" "last_entry c = 0"
    "length (bitmap c) = nat (if n mod 32 \<noteq> 0 then n div 32 + 1 else n div 32)"
    "i < nat (n div 32) \<Longrightarrow> bitmap c ! i = - 1"
    using assms(2) n(2) by (auto simp: cspace_single_level_create_def n_def [symmetric] n(1) BITS_PER_WORD_def Let_def nth_list_update)
qed

lemma create_spec:
  assumes "config_ok config"
  shows "\<exists>c. cspace_single_level_create 0 config = (0, c) \<and> sl_valid c \<and> sl_config c = config
    \<and> bitmap_length c = (end_slot config - first_slot config) div 32 \<and> sl_avail c = sl_managed c"
proof -
  let ?n = "end_slot config - first_slot config"
  obtain c where c: "cspace_single_level_create 0 config = (0, c)" by (simp add: cspace_single_level_create_def Let_def)
  have n: "u32 ?n = ?n" "0 < ?n div 32" "32 * (?n div 32) \<le> ?n" using assms by (auto simp: config_ok_def u32_id)
  note f = create_fields [OF assms c]
  have v: "sl_valid c" using assms n f by (auto simp: sl_valid_def config_ok_def)
  have "x \<in> sl_avail c" if x: "x \<in> sl_managed c" for x
  proof -
    obtain k where k: "x = first_slot (sl_config c) + int k" "int k < 32 * bitmap_length c" using sl_index [OF v x] by blast
    then have "k div 32 < nat (?n div 32)" using f(2) by linarith
    then show ?thesis unfolding k(1) sl_avail_iff slot_free_def using k(2) f(5) by simp
  qed
  then have "sl_avail c = sl_managed c" by (auto simp: sl_avail_def)
  then show ?thesis using c v f(1,2) by blast
qed

lemma destroy_leaks:
  \<comment> \<open>the bitmap has \<open>4 * length (bitmap c)\<close> bytes\<close>
  assumes "config_ok config" "cspace_single_level_create 0 config = (0, c)"
  shows "cspace_single_level_destroy c = 4 * int (length (bitmap c)) \<longleftrightarrow> 32 dvd end_slot config - first_slot config"
proof -
  let ?n = "end_slot config - first_slot config"
  have u: "0 \<le> ?n" using assms(1) by (simp add: config_ok_def)
  have "bitmap_length c = ?n div 32" "length (bitmap c) = nat (if ?n mod 32 \<noteq> 0 then ?n div 32 + 1 else ?n div 32)"
    by (rule create_fields [OF assms])+
  moreover have "32 dvd ?n \<longleftrightarrow> ?n mod 32 = 0" by (rule dvd_eq_mod_eq_0)
  ultimately show ?thesis using u by (cases "?n mod 32 = 0") (simp_all add: cspace_single_level_destroy_def)
qed

subsection \<open>Slots are exclusive\<close>

inductive slot_run :: "single_level \<Rightarrow> int set \<Rightarrow> bool" where
  \<comment> \<open>the allocator after some calls, and the slots that are handed out and not given back\<close>
  start: "config_ok config \<Longrightarrow> cspace_single_level_create 0 config = (0, c) \<Longrightarrow> slot_run c {}"
| alloc: "slot_run c U \<Longrightarrow> cspace_single_level_alloc c = Some (0, Some p, t) \<Longrightarrow> slot_run t (insert (cp_capPtr p) U)"
| full: "slot_run c U \<Longrightarrow> cspace_single_level_alloc c = Some (1, None, t) \<Longrightarrow> slot_run t U"
| alloc_at: "slot_run c U \<Longrightarrow> 0 \<le> slot \<Longrightarrow> slot < 4294967296 \<Longrightarrow> cspace_single_level_alloc_at c slot = Some (0, t) \<Longrightarrow> slot_run t (insert slot U)"
| free: "slot_run c U \<Longrightarrow> cp_capPtr p \<in> U \<Longrightarrow> cspace_single_level_free c p = Some t \<Longrightarrow> slot_run t (U - {cp_capPtr p})"

definition run_ok :: "single_level \<Rightarrow> int set \<Rightarrow> bool" where
  "run_ok c U \<longleftrightarrow> sl_valid c \<and> config_ok (sl_config c) \<and> bitmap_length c = (end_slot (sl_config c) - first_slot (sl_config c)) div 32
     \<and> U = sl_managed c - sl_avail c"

lemma managed_index:
  \<comment> \<open>a slot number whose distance to the first slot lies in the bitmap is managed\<close>
  assumes "sl_valid c" "0 \<le> slot" "slot < 4294967296" "u32 (slot - first_slot (sl_config c)) div 32 < bitmap_length c"
  shows "slot \<in> sl_managed c"
proof -
  let ?d = "slot - first_slot (sl_config c)"
  have f: "0 \<le> first_slot (sl_config c)" "first_slot (sl_config c) + 32 * bitmap_length c \<le> 4294967296" "0 < bitmap_length c"
    using assms(1) by (auto simp: sl_valid_def)
  have u: "u32 ?d < 32 * bitmap_length c" using assms(4) by linarith
  have "0 \<le> ?d"
  proof (rule ccontr)
    assume "\<not> 0 \<le> ?d"
    then have "u32 (?d + 4294967296) = ?d + 4294967296" using assms(2,3) f by (intro u32_id) linarith+
    moreover have "u32 (?d + 4294967296) = u32 ?d" by (simp add: u32_def)
    ultimately have "u32 ?d = ?d + 4294967296" by simp
    then show False using u f assms(2) by linarith
  qed
  then have "u32 ?d = ?d" using assms(3) f(1) by (simp add: u32_id)
  then show ?thesis using u \<open>0 \<le> ?d\<close> by (simp add: sl_managed_def)
qed

lemma alloc_at_taken:
  assumes "sl_valid c" "0 \<le> slot" "slot < 4294967296" "cspace_single_level_alloc_at c slot = Some (0, t)"
  shows "slot \<in> sl_avail c \<and> sl_avail t = sl_avail c - {slot} \<and> sl_valid t \<and> sl_config t = sl_config c \<and> bitmap_length t = bitmap_length c"
proof -
  have "u32 (slot - first_slot (sl_config c)) div 32 < bitmap_length c"
    using assms(4) by (auto simp: cspace_single_level_alloc_at_def BITS_PER_WORD_def Let_def split: if_splits)
  then have "slot \<in> sl_managed c" using managed_index [OF assms(1-3)] by blast
  moreover have "sl_config t = sl_config c" "bitmap_length t = bitmap_length c"
    using assms(4) by (auto simp: cspace_single_level_alloc_at_def Let_def bind_eq_Some_conv split: if_splits)
  ultimately show ?thesis using alloc_at_spec [OF assms(1), of slot] assms(4) by (cases "slot \<in> sl_avail c") auto
qed

lemma alloc_config: "cspace_single_level_alloc c = Some (r, p, t) \<Longrightarrow> sl_config t = sl_config c \<and> bitmap_length t = bitmap_length c"
  by (auto simp: cspace_single_level_alloc_def Let_def bind_eq_Some_conv split: if_splits)

lemma free_config: "cspace_single_level_free c p = Some t \<Longrightarrow> sl_config t = sl_config c \<and> bitmap_length t = bitmap_length c"
  by (auto simp: cspace_single_level_free_def Let_def bind_eq_Some_conv split: if_splits)

lemma managed_config: "sl_config t = sl_config c \<Longrightarrow> bitmap_length t = bitmap_length c \<Longrightarrow> sl_managed t = sl_managed c"
  by (simp add: sl_managed_def)

lemma slot_run_ok: "slot_run c U \<Longrightarrow> run_ok c U"
proof (induction rule: slot_run.induct)
  case (start config c)
  then show ?case using create_spec [of config] by (auto simp: run_ok_def)
next
  case (alloc c U p t)
  then have v: "sl_valid c" by (simp add: run_ok_def)
  have "cp_capPtr p \<in> sl_avail c" "sl_avail t = sl_avail c - {cp_capPtr p}" "sl_valid t"
    using sl_alloc_spec [OF v] alloc.hyps(2) by (auto split: if_splits)
  then show ?case using alloc.IH alloc_config [OF alloc.hyps(2)] managed_config [of t c] sl.avail_managed [OF v] by (auto simp: run_ok_def)
next
  case (full c U t)
  then have v: "sl_valid c" by (simp add: run_ok_def)
  then show ?case using full sl_alloc_spec [OF v] by (auto split: if_splits)
next
  case (alloc_at c U slot t)
  then have v: "sl_valid c" by (simp add: run_ok_def)
  note a = alloc_at_taken [OF v alloc_at.hyps(2-4)]
  then show ?case using alloc_at.IH managed_config [of t c] sl.avail_managed [OF v] by (auto simp: run_ok_def)
next
  case (free c U p t)
  then have v: "sl_valid c" "cp_capPtr p \<in> sl_managed c" "cp_capPtr p \<notin> sl_avail c" by (auto simp: run_ok_def)
  have "sl_avail t = insert (cp_capPtr p) (sl_avail c)" "sl_valid t" using sl_put_spec [OF v(1,2)] v(3) free.hyps(3) by auto
  then show ?case using free.IH free_config [OF free.hyps(3)] managed_config [of t c] by (auto simp: run_ok_def)
qed

text \<open>C28. A capability slot is never handed out twice. After any sequence of allocations (of any slot, or of a given one) and releases on an allocator that was set up for a range of at
  least 32 slots, \<^verbatim>\<open>_cspace_single_level_alloc\<close> returns: with a slot of the range that is not in use, or, exactly when all slots of the complete words of the
  range are in use, with error 1 and no change. Every slot in use can be given back, and a slot that is not in use fails the assertion of
  \<^verbatim>\<open>_cspace_single_level_free\<close>.\<close>

theorem slots_exclusive:
  assumes "slot_run c U"
  shows "(if card U = 32 * nat ((end_slot (sl_config c) - first_slot (sl_config c)) div 32)
      then cspace_single_level_alloc c = Some (1, None, c)
      else \<exists>p t. cspace_single_level_alloc c = Some (0, Some p, t) \<and> cp_capPtr p \<notin> U
        \<and> first_slot (sl_config c) \<le> cp_capPtr p \<and> cp_capPtr p < end_slot (sl_config c))
    \<and> (\<forall>p. cp_capPtr p \<in> U \<longrightarrow> (\<exists>t. cspace_single_level_free c p = Some t))
    \<and> (\<forall>p. cp_capPtr p \<in> sl_managed c - U \<longrightarrow> cspace_single_level_free c p = None)"
proof -
  have r: "sl_valid c" "config_ok (sl_config c)" "bitmap_length c = (end_slot (sl_config c) - first_slot (sl_config c)) div 32"
    "U = sl_managed c - sl_avail c" using slot_run_ok [OF assms] by (simp_all add: run_ok_def)
  let ?n = "(end_slot (sl_config c) - first_slot (sl_config c)) div 32"
  have m: "finite (sl_managed c)" "card (sl_managed c) = 32 * nat ?n" "sl_avail c \<subseteq> sl_managed c"
    using r(2) sl.avail_managed [OF r(1)] by (simp_all add: sl_managed_def r(3) config_ok_def nat_mult_distrib)
  have "card U = 32 * nat ?n \<longleftrightarrow> sl_avail c = {}"
  proof
    assume "card U = 32 * nat ?n"
    then have "U = sl_managed c" using m r(4) by (intro card_subset_eq) auto
    then show "sl_avail c = {}" using m(3) r(4) by blast
  qed (use m r(4) in simp)
  moreover have "cp_capPtr p < end_slot (sl_config c) \<and> first_slot (sl_config c) \<le> cp_capPtr p \<and> cp_capPtr p \<notin> U" if "cp_capPtr p \<in> sl_avail c" for p
  proof -
    have "32 * ?n \<le> end_slot (sl_config c) - first_slot (sl_config c)" by simp
    then show ?thesis using that m(3) r(3,4) by (auto simp: sl_managed_def)
  qed
  ultimately have "if card U = 32 * nat ?n then cspace_single_level_alloc c = Some (1, None, c)
      else \<exists>p t. cspace_single_level_alloc c = Some (0, Some p, t) \<and> cp_capPtr p \<notin> U
        \<and> first_slot (sl_config c) \<le> cp_capPtr p \<and> cp_capPtr p < end_slot (sl_config c)"
    using sl_alloc_spec [OF r(1)] by (cases "sl_avail c = {}") (simp, simp, blast)
  moreover have "\<exists>t. cspace_single_level_free c p = Some t" if "cp_capPtr p \<in> U" for p
    using sl_put_spec [OF r(1), of p] that r(4) by auto
  moreover have "cspace_single_level_free c p = None" if "cp_capPtr p \<in> sl_managed c - U" for p
    using sl.put_free [OF r(1), of p] that r(4) by auto
  ultimately show ?thesis by blast
qed

definition sample_config :: cspace_config where
  "sample_config = \<lparr>cnode = 2, cnode_size_bits = 6, cnode_guard_bits = 0, first_slot = 20, end_slot = 64\<rparr>"

theorem slots_exclusive_witness:
  "\<exists>c p t. slot_run c {} \<and> sl_config c = sample_config \<and> cspace_single_level_alloc c = Some (0, Some p, t) \<and> 20 \<le> cp_capPtr p \<and> cp_capPtr p < 64"
proof -
  have k: "config_ok sample_config" by (simp add: config_ok_def sample_config_def)
  then obtain c where c: "cspace_single_level_create 0 sample_config = (0, c)" "sl_config c = sample_config" using create_spec by blast
  have r: "slot_run c {}" using slot_run.start [OF k c(1)] .
  then show ?thesis using slots_exclusive [OF r] c(2) by (auto simp: sample_config_def)
qed

text \<open>
  A range of fewer than 32 slots has no complete word: \<^verbatim>\<open>bitmap_length\<close> is 0, so no slot can be asked for by number, and
  when the last one has been taken the next allocation fails the assertion \<^verbatim>\<open>bitmap_length != 0\<close> instead of returning the error.
\<close>

theorem short_range_fails:
  assumes "bitmap_length c = 0" "last_entry c = 0" "bitmap c = [0]"
  shows "cspace_single_level_alloc c = None \<and> cspace_single_level_alloc_at c slot = Some (1, c)"
  using assms u32_range(1) [of "slot - first_slot (sl_config c)"]
  by (simp add: cspace_single_level_alloc_def cspace_single_level_alloc_at_def arr_def BITS_PER_WORD_def Let_def)

end
