(* ===== verification/Malloc.thy ===== *)
theory Malloc
  imports Prelude
begin

text \<open>
  Memory for the bookkeeping of the allocation manager (\<^verbatim>\<open>libsel4allocman/src/mspace\<close>): \<^verbatim>\<open>k_r_malloc.c\<close>, a first-fit
  allocator with a circular list of free blocks in the order of their addresses, on top of a pool that is handed
  out from the bottom, \<^verbatim>\<open>fixed_pool.c\<close> or \<^verbatim>\<open>virtual_pool.c\<close>, and \<^verbatim>\<open>dual_pool.c\<close>, which the system uses and which
  tries one after the other.

  A header has 8 bytes on the 32-bit build. Memory is a partial map from the addresses of headers to their two fields: an access
  outside it has no result. All headers of a pool lie at multiples of 8 from its start, so two of them do not overlap; the
  list head \<^verbatim>\<open>base\<close> lies below the pool, where \<^verbatim>\<open>bootstrap_create_allocman\<close> puts it. What a client writes into a
  block it was given may change every cell of the block except its header.
\<close>

record k_r_header =
  h_ptr :: int
  h_size :: int \<comment> \<open>in headers\<close>

record k_r_malloc =
  kr_base :: int \<comment> \<open>the address of the field \<^verbatim>\<open>base\<close>\<close>
  freep :: int \<comment> \<open>0 is \<^verbatim>\<open>NULL\<close>\<close>
  kr_mem :: "int \<rightharpoonup> k_r_header"

definition rd_ptr :: "k_r_malloc \<Rightarrow> int \<Rightarrow> int option" where
  "rd_ptr k p = map_option h_ptr (kr_mem k p)"

definition rd_size :: "k_r_malloc \<Rightarrow> int \<Rightarrow> int option" where
  "rd_size k p = map_option h_size (kr_mem k p)"

definition wr_ptr :: "k_r_malloc \<Rightarrow> int \<Rightarrow> int \<Rightarrow> k_r_malloc option" where
  "wr_ptr k p v = map_option (\<lambda>h. k\<lparr>kr_mem := (kr_mem k)(p \<mapsto> h\<lparr>h_ptr := v\<rparr>)\<rparr>) (kr_mem k p)"

definition wr_size :: "k_r_malloc \<Rightarrow> int \<Rightarrow> int \<Rightarrow> k_r_malloc option" where
  "wr_size k p v = map_option (\<lambda>h. k\<lparr>kr_mem := (kr_mem k)(p \<mapsto> h\<lparr>h_size := v\<rparr>)\<rparr>) (kr_mem k p)"

definition hdr_at :: "int \<Rightarrow> int \<Rightarrow> int" where
  \<comment> \<open>\<^verbatim>\<open>p + n\<close> for a pointer to a header\<close>
  "hdr_at p n = u32 (p + 8 * n)"

subsection \<open>\<^verbatim>\<open>k_r_malloc.c\<close>\<close>

definition mspace_k_r_malloc_init :: "k_r_malloc \<Rightarrow> k_r_malloc" where
  "mspace_k_r_malloc_init k = k\<lparr>freep := 0\<rparr>"

partial_function (option) free_place :: "k_r_malloc \<Rightarrow> int \<Rightarrow> int \<Rightarrow> int option" where
  \<comment> \<open>the loop of \<^verbatim>\<open>mspace_k_r_malloc_free\<close>: the free block behind which \<open>bp\<close> belongs\<close>
  "free_place k bp p =
     do { q \<leftarrow> rd_ptr k p;
          if bp > p \<and> bp < q then Some p
          else if p \<ge> q \<and> (bp > p \<or> bp < q) then Some p
          else free_place k bp q }"

definition mspace_k_r_malloc_free :: "k_r_malloc \<Rightarrow> int \<Rightarrow> k_r_malloc option" where
  "mspace_k_r_malloc_free k ap =
     (if ap = 0 then Some k
      else
       let bp = hdr_at ap (- 1) in
       do { p \<leftarrow> free_place k bp (freep k);
            q \<leftarrow> rd_ptr k p;
            n \<leftarrow> rd_size k bp;
            k \<leftarrow> (if hdr_at bp n = q
                   then do { m \<leftarrow> rd_size k q;
                             k \<leftarrow> wr_size k bp (u32 (n + m));
                             q' \<leftarrow> rd_ptr k q;
                             wr_ptr k bp q' }
                   else wr_ptr k bp q);
            m \<leftarrow> rd_size k p;
            k \<leftarrow> (if hdr_at p m = bp
                   then do { n \<leftarrow> rd_size k bp;
                             k \<leftarrow> wr_size k p (u32 (m + n));
                             q' \<leftarrow> rd_ptr k bp;
                             wr_ptr k p q' }
                   else wr_ptr k p bp);
            Some (k\<lparr>freep := p\<rparr>) })"

partial_function (option) alloc_loop ::
  "('c \<Rightarrow> int \<Rightarrow> int \<times> 'c) \<Rightarrow> int \<Rightarrow> int \<Rightarrow> int \<Rightarrow> k_r_malloc \<Rightarrow> 'c \<Rightarrow> (int \<times> k_r_malloc \<times> 'c) option" where
  \<comment> \<open>the loop of \<^verbatim>\<open>mspace_k_r_malloc_alloc\<close>; the pool behind \<^verbatim>\<open>cookie\<close> is the state of \<^verbatim>\<open>morecore\<close>\<close>
  "alloc_loop morecore nunits prevp p k c =
     do { size \<leftarrow> rd_size k p;
          if size \<ge> nunits then
            if size = nunits then
              do { q \<leftarrow> rd_ptr k p;
                   k \<leftarrow> wr_ptr k prevp q;
                   Some (hdr_at p 1, k\<lparr>freep := prevp\<rparr>, c) }
            else
              do { k \<leftarrow> wr_size k p (size - nunits);
                   let p = hdr_at p (size - nunits);
                   k \<leftarrow> wr_size k p nunits;
                   Some (hdr_at p 1, k\<lparr>freep := prevp\<rparr>, c) }
          else if p = freep k then
            (case morecore c nunits of (p, c) \<Rightarrow>
              if p = 0 then Some (0, k, c)
              else do { k \<leftarrow> wr_size k p nunits;
                        k \<leftarrow> mspace_k_r_malloc_free k (hdr_at p 1);
                        q \<leftarrow> rd_ptr k (freep k);
                        alloc_loop morecore nunits (freep k) q k c })
          else do { q \<leftarrow> rd_ptr k p; alloc_loop morecore nunits p q k c } }"

definition nunits_for :: "int \<Rightarrow> int" where
  "nunits_for nbytes = u32 (nbytes + 8 - 1) div 8 + 1"

definition mspace_k_r_malloc_alloc ::
  "('c \<Rightarrow> int \<Rightarrow> int \<times> 'c) \<Rightarrow> k_r_malloc \<Rightarrow> 'c \<Rightarrow> int \<Rightarrow> (int \<times> k_r_malloc \<times> 'c) option" where
  "mspace_k_r_malloc_alloc morecore k c nbytes =
     do { k \<leftarrow> (if freep k = 0
                 then do { k \<leftarrow> wr_ptr (k\<lparr>freep := kr_base k\<rparr>) (kr_base k) (kr_base k);
                           wr_size k (kr_base k) 0 }
                 else Some k);
          p \<leftarrow> rd_ptr k (freep k);
          alloc_loop morecore (nunits_for nbytes) (freep k) p k c }"

subsection \<open>\<^verbatim>\<open>fixed_pool.c\<close>\<close>

record fixed_pool =
  pool_ptr :: int
  remaining :: int

definition fixed_morecore :: "fixed_pool \<Rightarrow> int \<Rightarrow> int \<times> fixed_pool" where
  \<comment> \<open>\<^verbatim>\<open>_morecore\<close>\<close>
  "fixed_morecore f new_units =
     (let new_size = u32 (new_units * 8) in
      if new_size > remaining f then (0, f)
      else (pool_ptr f, f\<lparr>pool_ptr := u32 (pool_ptr f + new_size), remaining := u32 (remaining f - new_size)\<rparr>))"

definition mspace_fixed_pool_create :: "int \<Rightarrow> int \<Rightarrow> fixed_pool" where
  "mspace_fixed_pool_create pool bytes =
     (let padding = pool mod 8 in \<lparr>pool_ptr = u32 (pool + padding), remaining = u32 (bytes - padding)\<rparr>)"

definition mspace_fixed_pool_alloc :: "k_r_malloc \<Rightarrow> fixed_pool \<Rightarrow> int \<Rightarrow> (int \<times> int \<times> k_r_malloc \<times> fixed_pool) option" where
  \<comment> \<open>the pointer and \<^verbatim>\<open>*error\<close>\<close>
  "mspace_fixed_pool_alloc k f bytes =
     do { (ret, k, f) \<leftarrow> mspace_k_r_malloc_alloc fixed_morecore k f bytes;
          Some (ret, if ret = 0 then 1 else 0, k, f) }"

definition mspace_fixed_pool_free :: "k_r_malloc \<Rightarrow> int \<Rightarrow> k_r_malloc option" where
  "mspace_fixed_pool_free k ptr = mspace_k_r_malloc_free k ptr"

subsection \<open>\<^verbatim>\<open>virtual_pool.c\<close>\<close>

record virtual_pool =
  v_ptr :: int
  v_top :: int
  v_limit :: int

definition mspace_virtual_pool_create :: "int \<Rightarrow> int \<Rightarrow> virtual_pool" where
  "mspace_virtual_pool_create vstart bytes = \<lparr>v_ptr = vstart, v_top = vstart, v_limit = u32 (vstart + bytes)\<rparr>"

function add_pages :: "(int \<Rightarrow> int) \<Rightarrow> int \<Rightarrow> virtual_pool \<Rightarrow> bool \<times> virtual_pool" where
  \<comment> \<open>the loop of \<^verbatim>\<open>_morecore\<close>; \<open>add_page\<close> is the error code of \<^verbatim>\<open>_add_page\<close> for an address. The addresses of a
     process end at \<^verbatim>\<open>0xe0000000\<close>, so \<^verbatim>\<open>pool_top\<close> does not wrap.\<close>
  "add_pages add_page new_end v =
     (if new_end > v_top v
      then if add_page (v_top v) \<noteq> 0 then (False, v) else add_pages add_page new_end (v\<lparr>v_top := v_top v + 4096\<rparr>)
      else (True, v))"
  by pat_completeness auto
termination by (relation "measure (\<lambda>(_, e, v). nat (e - v_top v))") auto

declare add_pages.simps [simp del]

definition virtual_morecore :: "(int \<Rightarrow> int) \<Rightarrow> virtual_pool \<Rightarrow> int \<Rightarrow> int \<times> virtual_pool" where
  \<comment> \<open>\<^verbatim>\<open>_morecore\<close>\<close>
  "virtual_morecore add_page v new_units =
     (let new_size = u32 (new_units * 8) in
      if u32 (v_ptr v + new_size) > v_limit v then (0, v)
      else case add_pages add_page (u32 (v_ptr v + new_size)) v of (done, v) \<Rightarrow>
        if \<not> done then (0, v) else (v_ptr v, v\<lparr>v_ptr := u32 (v_ptr v + new_size)\<rparr>))"

definition mspace_virtual_pool_alloc ::
  "(int \<Rightarrow> int) \<Rightarrow> k_r_malloc \<Rightarrow> virtual_pool \<Rightarrow> int \<Rightarrow> (int \<times> int \<times> k_r_malloc \<times> virtual_pool) option" where
  "mspace_virtual_pool_alloc add_page k v bytes =
     do { (ret, k, v) \<leftarrow> mspace_k_r_malloc_alloc (virtual_morecore add_page) k v bytes;
          Some (ret, if ret = 0 then 1 else 0, k, v) }"

definition mspace_virtual_pool_free :: "k_r_malloc \<Rightarrow> int \<Rightarrow> k_r_malloc option" where
  "mspace_virtual_pool_free k ptr = mspace_k_r_malloc_free k ptr"

subsection \<open>\<^verbatim>\<open>dual_pool.c\<close>\<close>

record dual_pool =
  fixed_pool_start :: int
  fixed_pool_end :: int
  d_fixed :: fixed_pool
  d_fixed_kr :: k_r_malloc
  have_virtual_pool :: bool
  d_virtual :: virtual_pool
  d_virtual_kr :: k_r_malloc

definition mspace_dual_pool_create :: "dual_pool \<Rightarrow> int \<Rightarrow> int \<Rightarrow> dual_pool" where
  "mspace_dual_pool_create d pool bytes =
     d\<lparr>fixed_pool_start := pool, fixed_pool_end := u32 (pool + bytes), have_virtual_pool := False,
       d_fixed := mspace_fixed_pool_create pool bytes, d_fixed_kr := mspace_k_r_malloc_init (d_fixed_kr d)\<rparr>"

definition mspace_dual_pool_attach_virtual :: "dual_pool \<Rightarrow> int \<Rightarrow> int \<Rightarrow> dual_pool" where
  "mspace_dual_pool_attach_virtual d vstart bytes =
     d\<lparr>d_virtual := mspace_virtual_pool_create vstart bytes, d_virtual_kr := mspace_k_r_malloc_init (d_virtual_kr d),
       have_virtual_pool := True\<rparr>"

definition mspace_dual_pool_alloc :: "(int \<Rightarrow> int) \<Rightarrow> dual_pool \<Rightarrow> int \<Rightarrow> (int \<times> int \<times> dual_pool) option" where
  "mspace_dual_pool_alloc add_page d bytes =
     do { (ret, error, d) \<leftarrow>
            (if have_virtual_pool d
             then do { (ret, error, k, v) \<leftarrow> mspace_virtual_pool_alloc add_page (d_virtual_kr d) (d_virtual d) bytes;
                       Some (ret, error, d\<lparr>d_virtual_kr := k, d_virtual := v\<rparr>) }
             else Some (0, 1, d));
          if error = 0 then Some (ret, 0, d)
          else do { (ret, error, k, f) \<leftarrow> mspace_fixed_pool_alloc (d_fixed_kr d) (d_fixed d) bytes;
                    Some (ret, error, d\<lparr>d_fixed_kr := k, d_fixed := f\<rparr>) } }"

definition mspace_dual_pool_free :: "dual_pool \<Rightarrow> int \<Rightarrow> dual_pool option" where
  "mspace_dual_pool_free d ptr =
     (if ptr \<ge> fixed_pool_start d \<and> ptr < fixed_pool_end d
      then do { k \<leftarrow> mspace_fixed_pool_free (d_fixed_kr d) ptr; Some (d\<lparr>d_fixed_kr := k\<rparr>) }
      else do { k \<leftarrow> mspace_virtual_pool_free (d_virtual_kr d) ptr; Some (d\<lparr>d_virtual_kr := k\<rparr>) })"

subsection \<open>Rings of addresses\<close>

definition adj :: "int \<Rightarrow> int set \<Rightarrow> int \<Rightarrow> int \<Rightarrow> bool" where
  \<comment> \<open>\<open>y\<close> follows \<open>x\<close> in the ring of the addresses \<open>S\<close>; behind the last comes \<open>b\<close>\<close>
  "adj b S x y \<longleftrightarrow> x \<in> S \<and> y \<in> S \<and> (x < y \<and> (\<forall>z\<in>S. z \<le> x \<or> y \<le> z) \<or> y = b \<and> (\<forall>z\<in>S. z \<le> x))"

definition ahead :: "int set \<Rightarrow> int \<Rightarrow> int \<Rightarrow> int set" where
  \<comment> \<open>the addresses on the way from \<open>p\<close> to \<open>f\<close>\<close>
  "ahead S p f = {z \<in> S. if p \<le> f then p \<le> z \<and> z \<le> f else p \<le> z \<or> z \<le> f}"

lemma ahead_step:
  assumes "adj b S p q" "p \<noteq> f" "f \<in> S" "\<forall>z\<in>S. b \<le> z"
  shows "ahead S q f = ahead S p f - {p}"
  using assms by (auto simp: ahead_def adj_def split: if_splits)

lemma ahead_self: "p \<in> S \<Longrightarrow> p \<in> ahead S p f"
  by (simp add: ahead_def)

lemma ahead_next:
  assumes "adj b S f p" "\<forall>z\<in>S. b \<le> z"
  shows "ahead S p f = S"
  using assms by (auto simp: ahead_def adj_def)

lemma finite_ahead: "finite S \<Longrightarrow> finite (ahead S p f)"
  by (simp add: ahead_def)

lemma card_ahead_step:
  assumes "adj b S p q" "p \<noteq> f" "f \<in> S" "\<forall>z\<in>S. b \<le> z" "finite S"
  shows "card (ahead S q f) < card (ahead S p f)"
  unfolding ahead_step [OF assms(1-4)] using assms ahead_self [of p S f] finite_ahead [OF assms(5)]
  by (intro card_Diff1_less) (auto simp: adj_def)

lemma adj_insert:
  assumes "\<forall>x\<in>S. adj b S x (nx x)" "p \<in> S" "p < n" "\<forall>z\<in>S. z \<le> p \<or> n < z"
  shows "\<forall>x\<in>insert n S. adj b (insert n S) x ((nx(p := n, n := nx p)) x)"
proof
  fix x assume "x \<in> insert n S"
  have n: "n \<notin> S" using assms(3,4) by fastforce
  have p: "adj b S p (nx p)" using assms(1,2) by blast
  consider "x = n" | "x = p" | "x \<in> S" "x \<noteq> p" "x \<noteq> n" using \<open>x \<in> insert n S\<close> by blast
  then show "adj b (insert n S) x ((nx(p := n, n := nx p)) x)"
  proof cases
    case 1
    then show ?thesis using p assms(2-4) n unfolding adj_def by auto
  next
    case 2
    then show ?thesis using assms(2-4) unfolding adj_def by force
  next
    case 3
    then have "adj b S x (nx x)" using assms(1) by blast
    moreover have "x < n \<Longrightarrow> x < p" "n < x \<or> x < n" using 3 assms(4) by fastforce+
    ultimately show ?thesis using 3 assms(2-4) unfolding adj_def by auto
  qed
qed

lemma adj_remove:
  assumes "\<forall>x\<in>S. adj b S x (nx x)" "p \<in> S" "nx p = q" "q \<noteq> b"
  shows "\<forall>x\<in>S - {q}. adj b (S - {q}) x ((nx(p := nx q)) x)"
proof
  fix x assume x: "x \<in> S - {q}"
  have p: "adj b S p q" using assms(1-3) by blast
  then have q: "adj b S q (nx q)" "p < q" using assms(1,4) by (auto simp: adj_def)
  have a: "adj b S x (nx x)" using assms(1) x by blast
  show "adj b (S - {q}) x ((nx(p := nx q)) x)"
  proof (cases "x = p")
    case True
    have pz: "z \<le> p \<or> q < z" if "z \<in> S - {q}" for z using p q(2) that assms(4) unfolding adj_def by fastforce
    have y: "nx q \<in> S" "q < nx q \<and> (\<forall>z\<in>S. z \<le> q \<or> nx q \<le> z) \<or> nx q = b \<and> (\<forall>z\<in>S. z \<le> q)" using q(1) by (auto simp: adj_def)
    from y(2) have "nx q \<noteq> q \<and> (p < nx q \<and> (\<forall>z\<in>S - {q}. z \<le> p \<or> nx q \<le> z) \<or> nx q = b \<and> (\<forall>z\<in>S - {q}. z \<le> p))"
    proof (elim disjE conjE)
      assume l: "q < nx q" "\<forall>z\<in>S. z \<le> q \<or> nx q \<le> z"
      have "z \<le> p \<or> nx q \<le> z" if "z \<in> S - {q}" for z using pz [OF that] that l(2) by force
      then show ?thesis using l(1) q(2) by auto
    next
      assume l: "nx q = b" "\<forall>z\<in>S. z \<le> q"
      have "z \<le> p" if "z \<in> S - {q}" for z using pz [OF that] that l(2) by force
      then show ?thesis using l(1) assms(4) by auto
    qed
    then show ?thesis using True x y(1) by (simp add: adj_def)
  next
    case False
    then have "nx x \<noteq> q" using a p assms(4) unfolding adj_def by force
    then show ?thesis using False a x unfolding adj_def by auto
  qed
qed

subsection \<open>Blocks that tile the pool\<close>

definition blocks_ok :: "int \<Rightarrow> int \<Rightarrow> (int \<Rightarrow> int) \<Rightarrow> int set \<Rightarrow> bool" where
  \<comment> \<open>the blocks \<open>B\<close> lie between \<open>start\<close> and \<open>brk\<close>, do not overlap, and leave no byte out\<close>
  "blocks_ok start brk sz B \<longleftrightarrow> finite B
     \<and> (\<forall>a\<in>B. start \<le> a \<and> 8 dvd (a - start) \<and> 0 < sz a \<and> a + 8 * sz a \<le> brk)
     \<and> (\<forall>a\<in>B. \<forall>c\<in>B. a < c \<longrightarrow> a + 8 * sz a \<le> c)
     \<and> (\<Sum>a\<in>B. 8 * sz a) = brk - start"

definition touch :: "(int \<Rightarrow> int) \<Rightarrow> int set \<Rightarrow> int \<Rightarrow> int \<Rightarrow> bool" where
  "touch sz F a c \<longleftrightarrow> a \<in> F \<and> c \<in> F \<and> a + 8 * sz a = c"

lemma blocks_ok_cong: "(\<And>a. a \<in> B \<Longrightarrow> sz a = sz' a) \<Longrightarrow> blocks_ok start brk sz B = blocks_ok start brk sz' B"
  unfolding blocks_ok_def by (simp cong: sum.cong)

lemma blocks_okD:
  assumes "blocks_ok start brk sz B"
  shows "finite B" "a \<in> B \<Longrightarrow> start \<le> a" "a \<in> B \<Longrightarrow> 8 dvd (a - start)" "a \<in> B \<Longrightarrow> 0 < sz a" "a \<in> B \<Longrightarrow> a + 8 * sz a \<le> brk"
    "a \<in> B \<Longrightarrow> c \<in> B \<Longrightarrow> a < c \<Longrightarrow> a + 8 * sz a \<le> c" "(\<Sum>a\<in>B. 8 * sz a) = brk - start"
  using assms unfolding blocks_ok_def by blast+

lemma blocks_merge:
  assumes "blocks_ok start brk sz B" "a \<in> B" "c \<in> B" "a + 8 * sz a = c"
  shows "blocks_ok start brk (sz(a := sz a + sz c)) (B - {c})"
proof -
  note d = blocks_okD [OF assms(1)]
  have ac: "a < c" "a \<noteq> c" using d(4) [OF assms(2)] assms(4) by auto
  have "(\<Sum>x\<in>B - {c}. 8 * (sz(a := sz a + sz c)) x) = (\<Sum>x\<in>B - {c} - {a}. 8 * sz x) + 8 * (sz a + sz c)"
    using assms(2) ac d(1) by (subst sum.remove [of _ a]) auto
  moreover have "(\<Sum>x\<in>B. 8 * sz x) = (\<Sum>x\<in>B - {c} - {a}. 8 * sz x) + 8 * sz a + 8 * sz c"
    using assms(2,3) ac d(1) by (subst sum.remove [of _ c], simp, simp, subst sum.remove [of _ a]) auto
  ultimately have "(\<Sum>x\<in>B - {c}. 8 * (sz(a := sz a + sz c)) x) = brk - start" using d(7) by simp
  moreover have "x + 8 * (sz(a := sz a + sz c)) x \<le> y" if xy: "x \<in> B - {c}" "y \<in> B - {c}" "x < y" for x y
  proof (cases "x = a")
    case True
    then have "c \<le> y" using d(6) [OF assms(2), of y] xy assms(4) by auto
    then show ?thesis using True d(6) [OF assms(3), of y] xy assms(4) by simp
  qed (use d(6) [of x y] xy in auto)
  moreover have "0 < (sz(a := sz a + sz c)) x" "x + 8 * (sz(a := sz a + sz c)) x \<le> brk" if "x \<in> B - {c}" for x
    using that d(4,5) [of x] d(4,5) [OF assms(2)] d(4,5) [OF assms(3)] assms(4) by (auto simp: algebra_simps)
  ultimately show ?thesis using d(1-3) unfolding blocks_ok_def by blast
qed

lemma blocks_split:
  assumes "blocks_ok start brk sz B" "a \<in> B" "0 < n" "n < sz a" "c = a + 8 * (sz a - n)"
  shows "blocks_ok start brk (sz(a := sz a - n, c := n)) (insert c B)" "c \<notin> B"
proof -
  note d = blocks_okD [OF assms(1)]
  have ac: "a < c" "c + 8 * n = a + 8 * sz a" using assms(4,5) by auto
  show c: "c \<notin> B" using d(6) [OF assms(2), of c] ac assms(3) by auto
  let ?sz = "sz(a := sz a - n, c := n)"
  have "(\<Sum>x\<in>insert c B. 8 * ?sz x) = (\<Sum>x\<in>B - {a}. 8 * sz x) + 8 * (sz a - n) + 8 * n"
    using assms(2) ac(1) c d(1) by (subst sum.insert, simp, simp, subst sum.remove [of B a]) (auto intro!: sum.cong split: if_splits)
  moreover have "(\<Sum>x\<in>B. 8 * sz x) = (\<Sum>x\<in>B - {a}. 8 * sz x) + 8 * sz a" using assms(2) d(1) by (subst sum.remove [of B a]) auto
  ultimately have "(\<Sum>x\<in>insert c B. 8 * ?sz x) = brk - start" using d(7) by simp
  moreover have "x + 8 * ?sz x \<le> y" if xy: "x \<in> insert c B" "y \<in> insert c B" "x < y" for x y
  proof -
    consider "x = c" "y \<in> B" | "x = a" "y = c" | "x = a" "y \<in> B" | "x \<in> B" "x \<noteq> a" "x \<noteq> c" "y = c" | "x \<in> B" "x \<noteq> a" "x \<noteq> c" "y \<in> B"
      using xy by auto
    then show ?thesis
    proof cases
      case 1
      then have "a < y" using xy(3) ac(1) by simp
      then show ?thesis using 1 d(6) [OF assms(2), of y] ac(2) by simp
    next
      case 4
      have "x < a"
      proof (rule ccontr)
        assume "\<not> x < a"
        then show False using 4 d(6) [OF assms(2), of x] xy(3) ac(2) assms(3) by simp
      qed
      then show ?thesis using 4 d(6) [of x a] assms(2) ac(1) by simp
    qed (use xy ac assms(3,5) d(6) [of x y] in auto)
  qed
  moreover have "start \<le> x \<and> 8 dvd (x - start) \<and> 0 < ?sz x \<and> x + 8 * ?sz x \<le> brk" if x: "x \<in> insert c B" for x
  proof (cases "x = c")
    case True
    have "c - start = (a - start) + 8 * (sz a - n)" using assms(5) by simp
    then have "8 dvd (c - start)" using d(3) [OF assms(2)] by (simp only: dvd_add_left_iff dvd_triv_left)
    then show ?thesis using True d(2,5) [OF assms(2)] ac assms(3) by simp
  qed (use x d(2-5) [of x] ac assms(3,4) in auto)
  ultimately show "blocks_ok start brk ?sz (insert c B)" using d(1) unfolding blocks_ok_def by blast
qed

lemma blocks_extend:
  assumes "blocks_ok start brk sz B" "start \<le> brk" "0 < n"
  shows "blocks_ok start (brk + 8 * n) (sz(brk := n)) (insert brk B)" "brk \<notin> B"
proof -
  note d = blocks_okD [OF assms(1)]
  show t: "brk \<notin> B" using d(4,5) [of brk] by auto
  have "8 dvd (\<Sum>a\<in>B. 8 * sz a)" by (intro dvd_sum) simp
  then have "8 dvd (brk - start)" using d(7) by simp
  moreover have "(\<Sum>x\<in>insert brk B. 8 * (sz(brk := n)) x) = (\<Sum>x\<in>B. 8 * sz x) + 8 * n"
    using t d(1) by (subst sum.insert) (auto intro!: sum.cong)
  moreover have "x + 8 * (sz(brk := n)) x \<le> y" if "x \<in> insert brk B" "y \<in> insert brk B" "x < y" for x y
    using that d(4,5) [of x] d(4,5) [of y] d(6) [of x y] by auto
  moreover have "x + 8 * (sz(brk := n)) x \<le> brk + 8 * n" "0 < (sz(brk := n)) x" "start \<le> x" "8 dvd (x - start)" if "x \<in> insert brk B" for x
    using that d(2-5) [of x] assms(2,3) \<open>8 dvd (brk - start)\<close> by auto
  ultimately show "blocks_ok start (brk + 8 * n) (sz(brk := n)) (insert brk B)" using d(1,7) unfolding blocks_ok_def by simp
qed

definition heap_w :: "int \<Rightarrow> int \<Rightarrow> int \<Rightarrow> (int \<Rightarrow> int) \<Rightarrow> (int \<Rightarrow> int) \<Rightarrow> int set \<Rightarrow> int set \<Rightarrow> bool" where
  \<comment> \<open>the free blocks \<open>F\<close> form a ring with \<open>b\<close>, and tile the pool together with the blocks \<open>A\<close> that are in use\<close>
  "heap_w start brk b nx sz F A \<longleftrightarrow> b < start \<and> sz b = 0 \<and> F \<inter> A = {} \<and> blocks_ok start brk sz (F \<union> A)
     \<and> (\<forall>x\<in>insert b F. adj b (insert b F) x (nx x))"

lemma heap_w_cong:
  assumes "heap_w start brk b nx sz F A" "\<And>x. x \<in> insert b F \<Longrightarrow> nx' x = nx x" "\<And>x. x \<in> insert b (F \<union> A) \<Longrightarrow> sz' x = sz x"
  shows "heap_w start brk b nx' sz' F A"
proof -
  have "blocks_ok start brk sz' (F \<union> A) = blocks_ok start brk sz (F \<union> A)" using assms(3) by (intro blocks_ok_cong) simp
  then show ?thesis using assms unfolding heap_w_def by simp
qed

lemma heap_wD:
  assumes "heap_w start brk b nx sz F A"
  shows "b < start" "sz b = 0" "F \<inter> A = {}" "blocks_ok start brk sz (F \<union> A)" "finite F" "finite A"
    "x \<in> insert b F \<Longrightarrow> adj b (insert b F) x (nx x)" "x \<in> F \<Longrightarrow> b < x" "b \<notin> F" "b \<notin> A" "x \<in> A \<Longrightarrow> b < x"
  using assms blocks_okD(1,2) [of start brk sz "F \<union> A"] unfolding heap_w_def by fastforce+

lemma heap_insert:
  \<comment> \<open>a block in use becomes free\<close>
  assumes "heap_w start brk b nx sz F (insert a A)" "a \<notin> A" "p \<in> insert b F" "p < a" "\<forall>z\<in>insert b F. z \<le> p \<or> a < z"
  shows "heap_w start brk b (nx(p := a, a := nx p)) sz (insert a F) A"
    "\<And>x y. touch sz (insert a F) x y \<Longrightarrow> touch sz F x y \<or> x = p \<and> y = a \<or> x = a \<and> y = nx p"
proof -
  note d = heap_wD [OF assms(1)]
  have r: "\<forall>x\<in>insert a (insert b F). adj b (insert a (insert b F)) x ((nx(p := a, a := nx p)) x)"
    using adj_insert [of "insert b F" b nx p a] d(7) assms(3-5) by blast
  have "F \<union> insert a A = insert a F \<union> A" by auto
  then show "heap_w start brk b (nx(p := a, a := nx p)) sz (insert a F) A"
    using assms(1,2) r unfolding heap_w_def by (simp add: insert_commute)
  note o = blocks_okD(4,6) [OF d(4)]
  fix x y assume "touch sz (insert a F) x y"
  then have xy: "x \<in> insert a F" "y \<in> insert a F" "x + 8 * sz x = y" "x < y" using o(1) [of x] by (auto simp: touch_def)
  consider "x \<in> F" "y \<in> F" | "x \<in> F" "y = a" | "x = a" "y \<in> F" using xy by auto
  then show "touch sz F x y \<or> x = p \<and> y = a \<or> x = a \<and> y = nx p"
  proof cases
    case 2
    then have "x \<le> p" using assms(5) xy(4) by force
    moreover have "\<not> x < p"
    proof
      assume "x < p"
      then have "p \<in> F" using assms(3) d(8) [OF 2(1)] by auto
      then show False using o(2) [of x p] 2 \<open>x < p\<close> xy(3) assms(4) by auto
    qed
    ultimately show ?thesis using 2 by simp
  next
    case 3
    then have "p < y" using assms(4) xy(4) by simp
    then have n: "p < nx p" "\<forall>z\<in>insert b F. z \<le> p \<or> nx p \<le> z" "nx p \<in> insert b F" using d(7) [OF assms(3)] 3 unfolding adj_def by force+
    then have "nx p \<le> y" "a < nx p" using 3 \<open>p < y\<close> assms(5) by force+
    moreover have "nx p \<in> F" using n(1,3) assms(3) d(8) by force
    ultimately show ?thesis using 3 o(2) [of a "nx p"] xy(3) by auto
  qed (use xy in \<open>simp add: touch_def\<close>)
qed

lemma heap_join:
  \<comment> \<open>a free block takes in the free block that starts where it ends\<close>
  assumes "heap_w start brk b nx sz F A" "x \<in> F" "y \<in> F" "nx x = y" "x + 8 * sz x = y"
  shows "heap_w start brk b (nx(x := nx y)) (sz(x := sz x + sz y)) (F - {y}) A"
    "\<And>u v. touch (sz(x := sz x + sz y)) (F - {y}) u v \<Longrightarrow> touch sz F (if u = x then y else u) v"
proof -
  note d = heap_wD [OF assms(1)]
  have yb: "y \<noteq> b" "x \<noteq> b" using d(8) assms(2,3) by auto
  have "\<forall>u\<in>insert b F - {y}. adj b (insert b F - {y}) u ((nx(x := nx y)) u)"
    using adj_remove [of "insert b F" b nx x y] d(7) assms(2,4) yb by blast
  moreover have "blocks_ok start brk (sz(x := sz x + sz y)) (F \<union> A - {y})" using blocks_merge [OF d(4)] assms(2,3,5) by blast
  moreover have "insert b F - {y} = insert b (F - {y})" "F \<union> A - {y} = F - {y} \<union> A" using yb d(3) assms(3) by auto
  ultimately show "heap_w start brk b (nx(x := nx y)) (sz(x := sz x + sz y)) (F - {y}) A" using d(1-3) yb unfolding heap_w_def by auto
qed (use assms in \<open>auto simp: touch_def split: if_splits\<close>)

subsection \<open>Reading and writing headers\<close>

definition siz :: "k_r_malloc \<Rightarrow> int \<Rightarrow> int" where "siz k a = h_size (the (kr_mem k a))"
definition nxt :: "k_r_malloc \<Rightarrow> int \<Rightarrow> int" where "nxt k a = h_ptr (the (kr_mem k a))"

definition set_ptr :: "k_r_malloc \<Rightarrow> int \<Rightarrow> int \<Rightarrow> k_r_malloc" where
  "set_ptr k a v = k\<lparr>kr_mem := (kr_mem k)(a \<mapsto> (the (kr_mem k a))\<lparr>h_ptr := v\<rparr>)\<rparr>"
definition set_size :: "k_r_malloc \<Rightarrow> int \<Rightarrow> int \<Rightarrow> k_r_malloc" where
  "set_size k a v = k\<lparr>kr_mem := (kr_mem k)(a \<mapsto> (the (kr_mem k a))\<lparr>h_size := v\<rparr>)\<rparr>"

lemma rd_wr:
  assumes "a \<in> dom (kr_mem k)"
  shows "rd_ptr k a = Some (nxt k a)" "rd_size k a = Some (siz k a)"
    "wr_ptr k a v = Some (set_ptr k a v)" "wr_size k a v = Some (set_size k a v)"
  using assms by (auto simp: rd_ptr_def rd_size_def nxt_def siz_def wr_ptr_def wr_size_def set_ptr_def set_size_def)

lemma set_sel [simp]:
  "nxt (set_ptr k a v) = (nxt k)(a := v)" "siz (set_ptr k a v) = siz k"
  "nxt (set_size k a v) = nxt k" "siz (set_size k a v) = (siz k)(a := v)"
  "freep (set_ptr k a v) = freep k" "freep (set_size k a v) = freep k"
  "kr_base (set_ptr k a v) = kr_base k" "kr_base (set_size k a v) = kr_base k"
  "dom (kr_mem (set_ptr k a v)) = insert a (dom (kr_mem k))" "dom (kr_mem (set_size k a v)) = insert a (dom (kr_mem k))"
  "x \<noteq> a \<Longrightarrow> kr_mem (set_ptr k a v) x = kr_mem k x" "x \<noteq> a \<Longrightarrow> kr_mem (set_size k a v) x = kr_mem k x"
  by (auto simp: nxt_def siz_def set_ptr_def set_size_def fun_eq_iff)

lemma freep_sel [simp]:
  "nxt (k\<lparr>freep := f\<rparr>) = nxt k" "siz (k\<lparr>freep := f\<rparr>) = siz k"
  by (auto simp: nxt_def siz_def fun_eq_iff)

subsection \<open>Giving a block back\<close>

definition kr_inv :: "int \<Rightarrow> int \<Rightarrow> int \<Rightarrow> k_r_malloc \<Rightarrow> int set \<Rightarrow> int set \<Rightarrow> bool" where
  \<comment> \<open>the pool runs from \<open>start\<close> to \<open>lim\<close> and is handed out up to \<open>brk\<close>; free blocks that touch are joined\<close>
  "kr_inv start brk lim k F A \<longleftrightarrow> 0 < kr_base k \<and> start \<le> brk \<and> brk \<le> lim \<and> lim < 4294967296
     \<and> kr_base k \<in> dom (kr_mem k) \<and> (\<forall>a. start \<le> a \<and> a < lim \<and> 8 dvd (a - start) \<longrightarrow> a \<in> dom (kr_mem k))
     \<and> heap_w start brk (kr_base k) (nxt k) (siz k) F A \<and> (\<forall>a c. \<not> touch (siz k) F a c)
     \<and> freep k \<in> insert (kr_base k) F"

lemma kr_invD:
  assumes "kr_inv start brk lim k F A"
  shows "0 < kr_base k" "start \<le> brk" "brk \<le> lim" "lim < 4294967296" "heap_w start brk (kr_base k) (nxt k) (siz k) F A"
    "freep k \<in> insert (kr_base k) F" "\<not> touch (siz k) F a c"
    "x \<in> insert (kr_base k) (F \<union> A) \<Longrightarrow> x \<in> dom (kr_mem k)"
    "\<And>y. start \<le> y \<Longrightarrow> y < lim \<Longrightarrow> 8 dvd (y - start) \<Longrightarrow> y \<in> dom (kr_mem k)"
proof -
  show i: "0 < kr_base k" "start \<le> brk" "brk \<le> lim" "lim < 4294967296" "heap_w start brk (kr_base k) (nxt k) (siz k) F A"
    "freep k \<in> insert (kr_base k) F" "\<not> touch (siz k) F a c"
    using assms by (simp_all add: kr_inv_def)
  show m: "y \<in> dom (kr_mem k)" if "start \<le> y" "y < lim" "8 dvd (y - start)" for y
    using assms that unfolding kr_inv_def by blast
  note b = blocks_okD(2-5) [OF heap_wD(4) [OF i(5)], of x]
  show "x \<in> dom (kr_mem k)" if "x \<in> insert (kr_base k) (F \<union> A)"
  proof (cases "x = kr_base k")
    case False
    then have "x \<in> F \<union> A" using that by simp
    then show ?thesis using b i(2,3) by (intro m) auto
  qed (use assms in \<open>simp add: kr_inv_def\<close>)
qed

lemma place_exists:
  assumes "finite S" "b \<in> S" "b < a" "a \<notin> (S :: int set)"
  shows "\<exists>p\<in>S. p < a \<and> (\<forall>z\<in>S. z \<le> p \<or> a < z)"
proof -
  let ?P = "{z \<in> S. z < a}"
  have P: "finite ?P" "b \<in> ?P" using assms by auto
  then have "Max ?P \<in> ?P" using Max_in [of ?P] by blast
  moreover have "z \<le> Max ?P \<or> a < z" if "z \<in> S" for z
  proof (cases "z < a")
    case True
    then show ?thesis using P(1) that by (intro disjI1 Max_ge) auto
  qed (use that assms(4) in force)
  ultimately show ?thesis by blast
qed

lemma free_place_finds:
  assumes "finite S" "\<forall>x\<in>S. rd_ptr k x = Some (nx x) \<and> adj b S x (nx x)" "\<forall>z\<in>S. b \<le> z" "b < a"
    "p \<in> S" "p < a" "\<forall>z\<in>S. z \<le> p \<or> a < z" "q \<in> S"
  shows "free_place k a q = Some p"
  using assms(8)
proof (induction "card (ahead S q p)" arbitrary: q rule: less_induct)
  case less
  have n: "rd_ptr k q = Some (nx q)" "adj b S q (nx q)" using assms(2) less.prems by blast+
  show ?case
  proof (cases "q = p")
    case True
    have "p < a \<and> a < nx p \<or> nx p \<le> p" using n(2) True assms(5-7) unfolding adj_def by force
    then show ?thesis using True n(1) assms(6) by (subst free_place.simps) auto
  next
    case False
    have "\<not> (q < a \<and> a < nx q) \<and> \<not> (nx q \<le> q \<and> (q < a \<or> a < nx q))"
    proof (cases "q < nx q")
      case True
      then have "p \<le> q \<or> nx q \<le> p" using n(2) assms(5,3) unfolding adj_def by force
      then show ?thesis using True False less.prems assms(6,7) by force
    next
      case l: False
      then have "nx q = b" "p \<le> q" using n(2) assms(5) unfolding adj_def by auto
      then show ?thesis using False less.prems assms(4,7) by force
    qed
    then have "free_place k a q = free_place k a (nx q)" using n(1) by (subst free_place.simps) auto
    moreover have "card (ahead S (nx q) p) < card (ahead S q p)" using card_ahead_step [OF n(2) False assms(5,3,1)] .
    moreover have "nx q \<in> S" using n(2) by (simp add: adj_def)
    ultimately show ?thesis using less.hyps by simp
  qed
qed

lemma hdr_at_id: "0 \<le> p + 8 * n \<Longrightarrow> p + 8 * n < 4294967296 \<Longrightarrow> hdr_at p n = p + 8 * n"
  by (simp add: hdr_at_def u32_id)

lemma block_end:
  \<comment> \<open>the end of a block, and that its arithmetic does not wrap\<close>
  assumes "kr_inv start brk lim k F A" "x \<in> insert (kr_base k) (F \<union> A)"
  shows "hdr_at x (siz k x) = x + 8 * siz k x" "0 < x" "x < 4294967296" "0 \<le> siz k x" "siz k x < 536870912"
proof -
  note d = kr_invD [OF assms(1)] heap_wD [OF kr_invD(5) [OF assms(1)]]
  note b = blocks_okD(2-5) [OF d(13), of x]
  have "0 < x \<and> 0 \<le> siz k x \<and> x + 8 * siz k x \<le> brk"
  proof (cases "x = kr_base k")
    case True
    then show ?thesis using d(1,2,10,11) by simp
  next
    case False
    then show ?thesis using assms(2) b d(1,10) by auto
  qed
  then show "hdr_at x (siz k x) = x + 8 * siz k x" "0 < x" "x < 4294967296" "0 \<le> siz k x" "siz k x < 536870912"
    using d(3,4) by (auto intro: hdr_at_id)
qed

definition free_upper :: "k_r_malloc \<Rightarrow> int \<Rightarrow> int \<Rightarrow> k_r_malloc" where
  \<comment> \<open>the first half of \<^verbatim>\<open>mspace_k_r_malloc_free\<close>: the block \<open>a\<close> and the next free block \<open>q\<close>\<close>
  "free_upper k a q = (if a + 8 * siz k a = q then set_ptr (set_size k a (siz k a + siz k q)) a (nxt k q) else set_ptr k a q)"

definition free_lower :: "k_r_malloc \<Rightarrow> int \<Rightarrow> int \<Rightarrow> k_r_malloc" where
  "free_lower k a p = (if p + 8 * siz k p = a then set_ptr (set_size k p (siz k p + siz k a)) p (nxt k a) else set_ptr k p a)"

lemma free_upper_heap:
  assumes "kr_inv start brk lim k F (insert a A)" "a \<notin> A" "p \<in> insert (kr_base k) F" "p < a"
    "\<forall>z\<in>insert (kr_base k) F. z \<le> p \<or> a < z"
  defines "k1 \<equiv> free_upper k a (nxt k p)"
  obtains F1 where "heap_w start brk (kr_base k) ((nxt k1)(p := a)) (siz k1) F1 A" "a \<in> F1" "F1 \<subseteq> insert a F" "p \<in> insert (kr_base k) F1"
    "\<And>x y. touch (siz k1) F1 x y \<Longrightarrow> x = p \<and> y = a"
proof -
  let ?b = "kr_base k" and ?q = "nxt k p"
  note d = kr_invD [OF assms(1)]
  note h = heap_wD [OF d(5)]
  note i = heap_insert [OF d(5) assms(2-5)]
  have q: "adj ?b (insert ?b F) p ?q" using h(7) [OF assms(3)] .
  show ?thesis
  proof (cases "a + 8 * siz k a = ?q")
    case False
    have "heap_w start brk ?b ((nxt k1)(p := a)) (siz k1) (insert a F) A"
      by (rule heap_w_cong [OF i(1)]) (use False assms(4) in \<open>auto simp: k1_def free_upper_def\<close>)
    moreover have "x = p \<and> y = a" if "touch (siz k1) (insert a F) x y" for x y
      using i(2) [of x y] that False d(7) by (auto simp: k1_def free_upper_def touch_def)
    ultimately show ?thesis using assms(3) by (intro that [of "insert a F"]) auto
  next
    case True
    have a: "0 < siz k a" "?b < a" "a \<notin> F" using blocks_okD(4) [OF h(4)] h(3,11) by auto
    then have qF: "?q \<in> F" "a < ?q" "p < ?q" using q True assms(4) by (auto simp: adj_def)
    note j = heap_join [OF i(1), of a ?q]
    have nx: "((nxt k)(p := a, a := ?q)) a = ?q" "((nxt k)(p := a, a := ?q)) ?q = nxt k ?q" using qF(2,3) by auto
    have heap: "heap_w start brk ?b ((nxt k)(p := a, a := ?q, a := nxt k ?q)) ((siz k)(a := siz k a + siz k ?q)) (insert a F - {?q}) A"
      using j(1) qF(1) nx True by simp
    have "heap_w start brk ?b ((nxt k1)(p := a)) (siz k1) (insert a F - {?q}) A"
      by (rule heap_w_cong [OF heap]) (use True assms(4) in \<open>auto simp: k1_def free_upper_def\<close>)
    moreover have "x = p \<and> y = a" if t: "touch (siz k1) (insert a F - {?q}) x y" for x y
    proof -
      have "touch (siz k) (insert a F) (if x = a then ?q else x) y" using j(2) qF(1) nx True t by (auto simp: k1_def free_upper_def)
      then show ?thesis using i(2) [of "if x = a then ?q else x" y] d(7) qF(2,3) by (auto split: if_splits)
    qed
    ultimately show ?thesis using assms(3) qF(2,3) by (intro that [of "insert a F - {?q}"]) auto
  qed
qed

lemma free_lower_heap:
  assumes "heap_w start brk b ((nxt k)(p := a)) (siz k) F A" "a \<in> F" "p \<in> insert b F" "\<And>x y. touch (siz k) F x y \<Longrightarrow> x = p \<and> y = a"
  defines "k1 \<equiv> free_lower k a p"
  obtains F1 where "heap_w start brk b (nxt k1) (siz k1) F1 A" "F1 \<subseteq> F" "p \<in> insert b F1" "\<And>x y. \<not> touch (siz k1) F1 x y"
    "\<exists>x\<in>F1. siz k a \<le> siz k1 x"
proof -
  note h = heap_wD [OF assms(1)]
  show ?thesis
  proof (cases "p + 8 * siz k p = a")
    case False
    have "heap_w start brk b (nxt k1) (siz k1) F A"
      by (rule heap_w_cong [OF assms(1)]) (use False in \<open>auto simp: k1_def free_lower_def\<close>)
    moreover have "\<not> touch (siz k1) F x y" for x y using assms(4) [of x y] False by (auto simp: k1_def free_lower_def touch_def)
    moreover have "siz k1 a = siz k a" using False by (simp add: k1_def free_lower_def)
    then have "\<exists>x\<in>F. siz k a \<le> siz k1 x" using assms(2) by force
    ultimately show ?thesis using assms(3) by (intro that [of F]) auto
  next
    case True
    have "p \<noteq> b" using True h(2) h(8) [OF assms(2)] by auto
    then have pF: "p \<in> F" "p \<noteq> a" using assms(3) True blocks_okD(4) [OF h(4), of p] by auto
    note j = heap_join [OF assms(1) pF(1) assms(2) _ True]
    have "heap_w start brk b (nxt k1) (siz k1) (F - {a}) A"
      by (rule heap_w_cong [OF j(1)]) (use True pF in \<open>auto simp: k1_def free_lower_def\<close>)
    moreover have "\<not> touch (siz k1) (F - {a}) x y" for x y
    proof
      assume "touch (siz k1) (F - {a}) x y"
      then have "touch (siz k) F (if x = p then a else x) y" using j(2) True by (auto simp: k1_def free_lower_def)
      then show False using assms(4) [of "if x = p then a else x" y] pF(2) by (auto split: if_splits)
    qed
    moreover have "siz k a \<le> siz k1 p" using True blocks_okD(4) [OF h(4), of p] pF(1) by (simp add: k1_def free_lower_def)
    ultimately show ?thesis using pF by (intro that [of "F - {a}"]) auto
  qed
qed

lemma free_spec:
  \<comment> \<open>the block is free afterwards, joined with its free neighbours; only headers of free blocks are written\<close>
  assumes "kr_inv start brk lim k F (insert a A)" "a \<notin> A"
  shows "\<exists>k' F'. mspace_k_r_malloc_free k (hdr_at a 1) = Some k' \<and> kr_inv start brk lim k' F' A \<and> kr_base k' = kr_base k
    \<and> (\<forall>x. x \<notin> insert (kr_base k) (insert a F) \<longrightarrow> kr_mem k' x = kr_mem k x)
    \<and> (\<exists>x\<in>F'. siz k a \<le> siz k' x)"
proof -
  let ?b = "kr_base k"
  note d = kr_invD [OF assms(1)]
  note h = heap_wD [OF d(5)]
  have a: "?b < a" "a \<notin> insert ?b F" using h(3,11) by auto
  obtain p where p: "p \<in> insert ?b F" "p < a" "\<forall>z\<in>insert ?b F. z \<le> p \<or> a < z"
    using place_exists [of "insert ?b F" ?b a] a h(5) by auto
  let ?q = "nxt k p"
  have "free_place k a (freep k) = Some p"
  proof (rule free_place_finds [of "insert ?b F" k "nxt k" ?b])
    show "\<forall>x\<in>insert ?b F. rd_ptr k x = Some (nxt k x) \<and> adj ?b (insert ?b F) x (nxt k x)"
      using h(7) d(8) rd_wr(1) by (metis Un_iff insert_iff)
  qed (use h(5) h(8) a(1) p d(6) in \<open>auto simp: less_imp_le\<close>)
  moreover define k1 where "k1 = free_upper k a ?q"
  define k2 where "k2 = free_lower k1 a p"
  have q: "?q \<in> insert ?b F" using h(7) [OF p(1)] by (simp add: adj_def)
  have e: "a \<in> dom (kr_mem k)" "p \<in> dom (kr_mem k)" "?q \<in> dom (kr_mem k)" using d(8) p(1) q by auto
  have e8: "hdr_at a (siz k a) = a + 8 * siz k a" "a + 8 < 4294967296" "0 < a"
    using block_end [OF assms(1), of a] blocks_okD(4,5) [OF h(4), of a] d(3,4) by auto
  have sums: "u32 (siz k a + siz k ?q) = siz k a + siz k ?q"
    using block_end(4,5) [OF assms(1), of a] block_end(4,5) [OF assms(1), of ?q] q by (intro u32_id) auto
  have ends: "hdr_at a 1 = a + 8" "hdr_at (a + 8) (- 1) = a" using e8 by (simp_all add: hdr_at_def u32_id)
  have up: "(if hdr_at a (siz k a) = ?q then do { m \<leftarrow> rd_size k ?q; k \<leftarrow> wr_size k a (u32 (siz k a + m)); q' \<leftarrow> rd_ptr k ?q; wr_ptr k a q' }
      else wr_ptr k a ?q) = Some k1"
    using e sums unfolding k1_def free_upper_def e8(1) by (simp add: rd_wr)
  obtain F1 where f1: "heap_w start brk ?b ((nxt k1)(p := a)) (siz k1) F1 A" "a \<in> F1" "F1 \<subseteq> insert a F" "p \<in> insert ?b F1"
    "\<And>x y. touch (siz k1) F1 x y \<Longrightarrow> x = p \<and> y = a" using free_upper_heap [OF assms p] k1_def by metis
  obtain F2 where f2: "heap_w start brk ?b (nxt k2) (siz k2) F2 A" "F2 \<subseteq> F1" "p \<in> insert ?b F2" "\<And>x y. \<not> touch (siz k2) F2 x y"
    "\<exists>x\<in>F2. siz k1 a \<le> siz k2 x"
    using free_lower_heap [OF f1(1,2,4,5)] k2_def by metis
  have k1: "dom (kr_mem k1) = dom (kr_mem k)" "kr_base k1 = ?b" "siz k1 p = siz k p" using e(1) p(2) by (auto simp: k1_def free_upper_def)
  note b1 = blocks_okD(4,5) [OF heap_wD(4) [OF f1(1)]] 
  have "0 \<le> siz k p \<and> siz k p < 536870912" "0 \<le> siz k1 a \<and> siz k1 a < 536870912"
    using block_end(4,5) [OF assms(1), of p] p(1) b1 [of a] f1(2) d(3,4) e8(3) by auto
  then have sums: "u32 (siz k1 p + siz k1 a) = siz k1 p + siz k1 a" using k1(3) by (intro u32_id) auto
  have "hdr_at p (siz k1 p) = p + 8 * siz k1 p" using block_end(1) [OF assms(1), of p] p(1) k1(3) by auto
  then have low: "(if hdr_at p (siz k1 p) = a then do { n \<leftarrow> rd_size k1 a; k \<leftarrow> wr_size k1 p (u32 (siz k1 p + n)); q' \<leftarrow> rd_ptr k a; wr_ptr k p q' }
      else wr_ptr k1 p a) = Some k2"
    using e sums k1(1) unfolding k2_def free_lower_def by (simp add: rd_wr)
  have "mspace_k_r_malloc_free k (hdr_at a 1) = Some (k2\<lparr>freep := p\<rparr>)"
    using calculation e8(2,3) e up low k1(1) unfolding mspace_k_r_malloc_free_def ends by (simp add: ends rd_wr Let_def)
  moreover have k2: "dom (kr_mem k2) = dom (kr_mem k)" "kr_base k2 = ?b" using e(2) k1 by (auto simp: k2_def free_lower_def)
  then have "kr_inv start brk lim (k2\<lparr>freep := p\<rparr>) F2 A" using d f2 unfolding kr_inv_def by auto
  moreover have "kr_mem (k2\<lparr>freep := p\<rparr>) x = kr_mem k x" if "x \<notin> insert ?b (insert a F)" for x
  proof -
    have "x \<noteq> a" "x \<noteq> p" using that p(1) by auto
    then show ?thesis by (simp add: k1_def k2_def free_upper_def free_lower_def)
  qed
  moreover have "siz k a \<le> siz k1 a"
    using block_end(4) [OF assms(1), of ?q] q by (auto simp: k1_def free_upper_def)
  ultimately show ?thesis using k2(2) f2(5) by (intro exI [of _ "k2\<lparr>freep := p\<rparr>"] exI [of _ F2]) (auto intro: order_trans)
qed

subsection \<open>Taking a block\<close>

lemma not_in_use:
  \<comment> \<open>a cell of a block in use does not lie in a free block\<close>
  assumes "kr_inv start brk lim k F A" "y \<in> A" "y \<le> x" "x < y + 8 * siz k y" "z \<in> insert (kr_base k) F"
  shows "x \<noteq> z" "x < z \<or> z + 8 * siz k z \<le> x"
proof -
  note h = heap_wD [OF kr_invD(5) [OF assms(1)]]
  note b = blocks_okD(4,6) [OF h(4)]
  have "x < z \<or> z + 8 * siz k z \<le> x \<and> z < x"
  proof (cases "z = kr_base k")
    case True
    then show ?thesis using h(2) h(11) [OF assms(2)] assms(3) by simp
  next
    case False
    then have z: "z \<in> F" "z \<noteq> y" using assms(2,5) h(3) by auto
    then consider "z < y" | "y < z" by linarith
    then show ?thesis using b(2) [of z y] b(2) [of y z] b(1) [of z] z assms(2-4) by cases auto
  qed
  then show "x \<noteq> z" "x < z \<or> z + 8 * siz k z \<le> x" by auto
qed

definition kept :: "k_r_malloc \<Rightarrow> k_r_malloc \<Rightarrow> int set \<Rightarrow> bool" where
  \<comment> \<open>the blocks \<open>A\<close> are as they were, contents included\<close>
  "kept k k' A \<longleftrightarrow> kr_base k' = kr_base k \<and> (\<forall>y\<in>A. \<forall>x. y \<le> x \<and> x < y + 8 * siz k y \<longrightarrow> kr_mem k' x = kr_mem k x)"

lemma kept_siz: "kept k k' A \<Longrightarrow> y \<in> A \<Longrightarrow> 0 < siz k y \<Longrightarrow> siz k' y = siz k y"
  by (simp add: kept_def siz_def)

lemma kept_trans:
  assumes "kept k k1 A" "kept k1 k2 A" "\<forall>y\<in>A. 0 < siz k y"
  shows "kept k k2 A"
  using assms kept_siz [OF assms(1)] unfolding kept_def by fastforce

lemma take_exact:
  assumes "kr_inv start brk lim k F A" "prev \<in> insert (kr_base k) F" "nxt k prev = p" "p \<in> F"
  defines "k' \<equiv> set_ptr k prev (nxt k p)\<lparr>freep := prev\<rparr>"
  shows "kr_inv start brk lim k' (F - {p}) (insert p A)" "kept k k' A"
proof -
  note d = kr_invD [OF assms(1)]
  note h = heap_wD [OF d(5)]
  let ?b = "kr_base k"
  have pb: "p \<noteq> ?b" using h(9) assms(4) by blast
  have "adj ?b (insert ?b F) prev p" using h(7) [OF assms(2)] assms(3) by simp
  then have pp: "prev < p" using pb by (auto simp: adj_def)
  have "\<forall>x\<in>insert ?b F - {p}. adj ?b (insert ?b F - {p}) x (((nxt k)(prev := nxt k p)) x)"
    using adj_remove [of "insert ?b F" ?b "nxt k", OF _ assms(2,3) pb] h(7) by blast
  moreover have "insert ?b F - {p} = insert ?b (F - {p})" using pb by auto
  moreover have "F \<union> A = F - {p} \<union> insert p A" using assms(4) by auto
  ultimately have "heap_w start brk ?b (nxt k') (siz k') (F - {p}) (insert p A)" using h(1-4) unfolding heap_w_def k'_def by auto
  moreover have "\<not> touch (siz k') (F - {p}) x y" for x y using d(7) [of x y] by (auto simp: k'_def touch_def)
  ultimately show "kr_inv start brk lim k' (F - {p}) (insert p A)"
    using d(1-4,8,9) assms(2) pp unfolding kr_inv_def by (auto simp: k'_def)
  show "kept k k' A" using not_in_use(1) [OF assms(1) _ _ _ assms(2)] unfolding kept_def by (auto simp: k'_def)
qed

lemma take_tail:
  assumes "kr_inv start brk lim k F A" "prev \<in> insert (kr_base k) F" "p \<in> F" "0 < n" "n < siz k p"
  defines "a \<equiv> p + 8 * (siz k p - n)"
  defines "k' \<equiv> set_size (set_size k p (siz k p - n)) a n\<lparr>freep := prev\<rparr>"
  shows "kr_inv start brk lim k' F (insert a A)" "kept k k' A" "a \<notin> A" "a \<in> dom (kr_mem k)" "siz k' a = n"
proof -
  note d = kr_invD [OF assms(1)]
  note h = heap_wD [OF d(5)]
  let ?b = "kr_base k"
  have s: "blocks_ok start brk ((siz k)(p := siz k p - n, a := n)) (insert a (F \<union> A))" "a \<notin> F \<union> A"
    using blocks_split [OF h(4) _ assms(4,5)] assms(3) by (auto simp: a_def)
  note sb = blocks_okD(2,3,4,5) [OF s(1), of a]
  have ab: "a \<noteq> ?b" "p \<noteq> ?b" using sb(1) h(1) h(9) assms(3) by auto
  show "a \<notin> A" "siz k' a = n" using s(2) by (auto simp: k'_def)
  show ad: "a \<in> dom (kr_mem k)" using sb d(3) by (intro d(9)) auto
  have "siz k' = (siz k)(p := siz k p - n, a := n)" "nxt k' = nxt k" by (simp_all add: k'_def)
  then have "heap_w start brk ?b (nxt k') (siz k') F (insert a A)" using h(1-3,7) s ab unfolding heap_w_def by simp
  moreover have "\<not> touch (siz k') F x y" for x y using d(7) [of x y] s(2) by (auto simp: k'_def touch_def a_def)
  ultimately show "kr_inv start brk lim k' F (insert a A)" using d(1-4,8,9) assms(2,3) ad unfolding kr_inv_def by (auto simp: k'_def)
  have "x \<noteq> p \<and> x \<noteq> a" if "y \<in> A" "y \<le> x" "x < y + 8 * siz k y" for x y
    using not_in_use [OF assms(1) that, of p] assms(3-5) by (auto simp: a_def)
  then show "kept k k' A" unfolding kept_def by (auto simp: k'_def)
qed

lemma loop_takes:
  assumes "kr_inv start brk lim k F A" "prev \<in> insert (kr_base k) F" "nxt k prev = p" "p \<in> insert (kr_base k) F" "0 < n" "n \<le> siz k p"
  shows "\<exists>a k' F'. alloc_loop morecore n prev p k c = Some (a + 8, k', c) \<and> kr_inv start brk lim k' F' (insert a A) \<and> a \<notin> A
    \<and> siz k' a = n \<and> kept k k' A"
proof -
  note d = kr_invD [OF assms(1)]
  note h = heap_wD [OF d(5)]
  have pF: "p \<in> F" using assms(4-6) h(2) by auto
  have e: "p \<in> dom (kr_mem k)" "prev \<in> dom (kr_mem k)" using d(8) pF assms(2) by auto
  show ?thesis
  proof (cases "siz k p = n")
    case True
    have "hdr_at p 1 = p + 8" using pF block_end(2) [OF assms(1), of p] blocks_okD(5) [OF h(4), of p] d(3,4) True assms(5) by (intro hdr_at_id [of p 1, simplified]) auto
    then have "alloc_loop morecore n prev p k c = Some (p + 8, set_ptr k prev (nxt k p)\<lparr>freep := prev\<rparr>, c)"
      using True e by (subst alloc_loop.simps) (simp add: rd_wr)
    moreover have "p \<notin> A" using pF h(3) by blast
    moreover have "siz (set_ptr k prev (nxt k p)\<lparr>freep := prev\<rparr>) p = n" using True by simp
    ultimately show ?thesis using take_exact [OF assms(1-3) pF] by blast
  next
    case False
    then have n: "n < siz k p" using assms(6) by simp
    let ?a = "p + 8 * (siz k p - n)"
    note t = take_tail [OF assms(1,2) pF assms(5) n]
    have "?a + 8 * n \<le> brk" using pF blocks_okD(5) [OF h(4), of p] by auto
    then have "hdr_at p (siz k p - n) = ?a" "hdr_at ?a 1 = ?a + 8"
      using pF n block_end(2) [OF assms(1), of p] d(3,4) assms(5) by (simp_all add: hdr_at_def u32_id)
    then have "alloc_loop morecore n prev p k c = Some (?a + 8, set_size (set_size k p (siz k p - n)) ?a n\<lparr>freep := prev\<rparr>, c)"
      using n e t(4) by (subst alloc_loop.simps) (simp add: rd_wr Let_def)
    then show ?thesis using t by blast
  qed
qed

lemma loop_searches:
  \<comment> \<open>the search stops at a block that is big enough, or has seen them all when it is back at \<^verbatim>\<open>freep\<close>\<close>
  assumes "kr_inv start brk lim k F A" "prev \<in> insert (kr_base k) F" "nxt k prev = p"
    "\<forall>x\<in>insert (kr_base k) F - ahead (insert (kr_base k) F) p (freep k). siz k x < n"
  shows "\<exists>prev' p'. prev' \<in> insert (kr_base k) F \<and> nxt k prev' = p' \<and> p' \<in> insert (kr_base k) F
    \<and> alloc_loop morecore n prev p k c = alloc_loop morecore n prev' p' k c
    \<and> (n \<le> siz k p' \<or> p' = freep k \<and> (\<forall>x\<in>insert (kr_base k) F. siz k x < n))"
  using assms(2-4)
proof (induction "card (ahead (insert (kr_base k) F) p (freep k))" arbitrary: prev p rule: less_induct)
  case less
  let ?S = "insert (kr_base k) F"
  note d = kr_invD [OF assms(1)]
  note h = heap_wD [OF d(5)]
  have p: "p \<in> ?S" using h(7) [OF less.prems(1)] less.prems(2) by (simp add: adj_def)
  have min: "\<forall>z\<in>?S. kr_base k \<le> z" using h(8) by (auto simp: less_imp_le)
  show ?case
  proof (cases "n \<le> siz k p")
    case small: False
    show ?thesis
    proof (cases "p = freep k")
      case True
      have "ahead ?S p p = {p}" using p by (auto simp: ahead_def)
      then have "\<forall>x\<in>?S. siz k x < n" using less.prems(3) small unfolding True [symmetric] by force
      then show ?thesis using less.prems(1,2) p True by blast
    next
      case False
      have "alloc_loop morecore n prev p k c = alloc_loop morecore n p (nxt k p) k c"
        using small False d(8) p by (subst alloc_loop.simps) (auto simp: rd_wr)
      moreover have s: "ahead ?S (nxt k p) (freep k) = ahead ?S p (freep k) - {p}" by (rule ahead_step [OF h(7) [OF p] False d(6) min])
      moreover have "card (ahead ?S (nxt k p) (freep k)) < card (ahead ?S p (freep k))"
        using card_ahead_step [OF h(7) [OF p] False d(6) min] h(5) by simp
      moreover have "\<forall>x\<in>?S - ahead ?S (nxt k p) (freep k). siz k x < n" using less.prems(3) small unfolding s by force
      ultimately show ?thesis using less.hyps [OF _ p refl] by simp
    qed
  qed (use less.prems p in blast)
qed

lemma loop_starts:
  assumes i: "kr_inv start brk lim k F A"
  obtains prev p where "prev \<in> insert (kr_base k) F" "nxt k prev = p" "p \<in> insert (kr_base k) F"
    "alloc_loop morecore n (freep k) (nxt k (freep k)) k c = alloc_loop morecore n prev p k c"
    "n \<le> siz k p \<or> p = freep k \<and> (\<forall>x\<in>insert (kr_base k) F. siz k x < n)"
proof -
  note h = heap_wD [OF kr_invD(5) [OF i]]
  have "ahead (insert (kr_base k) F) (nxt k (freep k)) (freep k) = insert (kr_base k) F"
    using ahead_next [OF h(7) [OF kr_invD(6) [OF i]]] h(8) by (auto simp: less_imp_le)
  then have "\<forall>x\<in>insert (kr_base k) F - ahead (insert (kr_base k) F) (nxt k (freep k)) (freep k). siz k x < n" by blast
  from loop_searches [OF i kr_invD(6) [OF i] refl this, of morecore c] show ?thesis by (elim exE conjE) (rule that)
qed

subsection \<open>Growing the pool\<close>

lemma inv_extend:
  assumes "kr_inv start brk lim k F A" "0 < n" "brk + 8 * n \<le> lim"
  shows "kr_inv start (brk + 8 * n) lim (set_size k brk n) F (insert brk A)" "brk \<notin> A" "brk \<in> dom (kr_mem k)" "kept k (set_size k brk n) A"
proof -
  note d = kr_invD [OF assms(1)]
  note h = heap_wD [OF d(5)]
  note b = blocks_okD(3-5) [OF h(4)]
  have x: "blocks_ok start (brk + 8 * n) ((siz k)(brk := n)) (insert brk (F \<union> A))" "brk \<notin> F \<union> A"
    using blocks_extend [OF h(4) d(2) assms(2)] by auto
  show A: "brk \<notin> A" using x(2) by blast
  show m: "brk \<in> dom (kr_mem k)" using d(2,3) assms(2,3) blocks_okD(3) [OF x(1), of brk] by (intro d(9)) auto
  have "brk \<noteq> kr_base k" using h(1) d(2) by simp
  then have "heap_w start (brk + 8 * n) (kr_base k) (nxt k) ((siz k)(brk := n)) F (insert brk A)"
    using h(1-3,7) x unfolding heap_w_def by simp
  moreover have "\<not> touch ((siz k)(brk := n)) F u v" for u v using d(7) [of u v] x(2) by (auto simp: touch_def)
  ultimately show "kr_inv start (brk + 8 * n) lim (set_size k brk n) F (insert brk A)"
    using d(1-4,6,8,9) m assms(2,3) unfolding kr_inv_def by auto
  have "z < brk" if "y \<in> A" "z < y + 8 * siz k y" for y z using b(3) [of y] that by simp
  then show "kept k (set_size k brk n) A" unfolding kept_def by fastforce
qed

lemma free_kept:
  assumes "kr_inv start brk lim k F (insert a A)" "a \<notin> A" "\<forall>x. x \<notin> insert (kr_base k) (insert a F) \<longrightarrow> kr_mem k' x = kr_mem k x" "kr_base k' = kr_base k"
  shows "kept k k' A"
proof -
  note h = heap_wD [OF kr_invD(5) [OF assms(1)]]
  note b = blocks_okD(4,6) [OF h(4)]
  have "x \<notin> insert (kr_base k) (insert a F)" if x: "y \<in> A" "y \<le> x" "x < y + 8 * siz k y" for x y
  proof -
    have "x \<noteq> a" using b(2) [of a y] b(2) [of y a] b(1) [of a] x assms(2) by (cases "a < y"; cases "y < a") auto
    then show ?thesis using not_in_use(1) [OF assms(1) _ x(2,3)] x(1) by auto
  qed
  then show ?thesis using assms(3,4) unfolding kept_def by blast
qed

definition kr_state :: "int \<Rightarrow> int \<Rightarrow> int \<Rightarrow> k_r_malloc \<Rightarrow> int set \<Rightarrow> int set \<Rightarrow> bool" where
  \<comment> \<open>before the first allocation there is no list\<close>
  "kr_state start brk lim k F A \<longleftrightarrow>
     (if freep k = 0 then F = {} \<and> A = {} \<and> brk = start \<and> 0 < kr_base k \<and> kr_base k < start \<and> start \<le> lim \<and> lim < 4294967296
        \<and> kr_base k \<in> dom (kr_mem k) \<and> (\<forall>a. start \<le> a \<and> a < lim \<and> 8 dvd (a - start) \<longrightarrow> a \<in> dom (kr_mem k))
      else kr_inv start brk lim k F A)"

definition kr_started :: "k_r_malloc \<Rightarrow> k_r_malloc" where
  "kr_started k = (if freep k = 0 then set_size (set_ptr (k\<lparr>freep := kr_base k\<rparr>) (kr_base k) (kr_base k)) (kr_base k) 0 else k)"

lemma started_inv:
  assumes "kr_state start brk lim k F A"
  shows "kr_inv start brk lim (kr_started k) F A" "kept k (kr_started k) A" "kr_base k \<in> dom (kr_mem k)"
    "mspace_k_r_malloc_alloc morecore k c nbytes
      = alloc_loop morecore (nunits_for nbytes) (freep (kr_started k)) (nxt (kr_started k) (freep (kr_started k))) (kr_started k) c"
proof -
  let ?k = "kr_started k"
  show "kr_base k \<in> dom (kr_mem k)" using assms kr_invD(8) [of start brk lim k F A "kr_base k"] unfolding kr_state_def by (auto split: if_splits)
  show i: "kr_inv start brk lim ?k F A"
  proof (cases "freep k = 0")
    case True
    then have "kr_base ?k = kr_base k" "freep ?k = kr_base k" "nxt ?k (kr_base k) = kr_base k" "siz ?k (kr_base k) = 0"
      "dom (kr_mem ?k) = insert (kr_base k) (dom (kr_mem k))" by (auto simp: kr_started_def)
    then show ?thesis using assms True unfolding kr_state_def kr_inv_def heap_w_def adj_def blocks_ok_def touch_def by simp
  qed (use assms in \<open>simp add: kr_state_def kr_started_def\<close>)
  show "kept k ?k A"
  proof (cases "freep k = 0")
    case True
    then show ?thesis using assms by (simp add: kept_def kr_state_def kr_started_def)
  qed (simp add: kept_def kr_started_def)
  have f: "freep ?k \<in> dom (kr_mem ?k)" using kr_invD(6,8) [OF i] by blast
  show "mspace_k_r_malloc_alloc morecore k c nbytes
      = alloc_loop morecore (nunits_for nbytes) (freep ?k) (nxt ?k (freep ?k)) ?k c"
  proof (cases "freep k = 0")
    case True
    have "kr_base k \<in> dom (kr_mem (k\<lparr>freep := kr_base k\<rparr>))" using assms True by (simp add: kr_state_def)
    then show ?thesis using True f unfolding mspace_k_r_malloc_alloc_def kr_started_def by (simp add: rd_wr)
  qed (use f in \<open>simp add: mspace_k_r_malloc_alloc_def kr_started_def rd_wr\<close>)
qed

locale core_source =
  fixes morecore :: "'c \<Rightarrow> int \<Rightarrow> int \<times> 'c"
    and brk :: "'c \<Rightarrow> int" \<comment> \<open>the end of what was handed out\<close>
    and lim :: "'c \<Rightarrow> int" \<comment> \<open>the end of the pool\<close>
    and units :: "'c \<Rightarrow> int" \<comment> \<open>the greatest number of headers that can be asked for without a sum that wraps\<close>
    and valid :: "'c \<Rightarrow> bool"
  assumes core: "valid c \<Longrightarrow> 0 < n \<Longrightarrow> n \<le> units c \<Longrightarrow> morecore c n = (p, c') \<Longrightarrow>
      valid c' \<and> lim c' = lim c \<and> units c' = units c \<and> (if p = 0 then brk c' = brk c else p = brk c \<and> brk c' = brk c + 8 * n \<and> brk c' \<le> lim c)"
begin

lemma alloc_spec:
  assumes "valid c" "kr_state start (brk c) (lim c) k F A" "0 < n" "n \<le> units c" "n = nunits_for nbytes"
  shows "\<exists>r k' c' F'. mspace_k_r_malloc_alloc morecore k c nbytes = Some (r, k', c') \<and> valid c' \<and> lim c' = lim c \<and> units c' = units c \<and> kept k k' A
    \<and> (if r = 0 then kr_inv start (brk c') (lim c) k' F A \<and> brk c' = brk c \<and> (\<forall>a\<in>F. siz k' a < n) \<and> fst (morecore c n) = 0
       else kr_inv start (brk c') (lim c) k' F' (insert (r - 8) A) \<and> r - 8 \<notin> A \<and> siz k' (r - 8) = n)"
proof -
  define k0 where "k0 = kr_started k"
  note st = started_inv [OF assms(2), folded k0_def]
  note i = st(1)
  note h = heap_wD [OF kr_invD(5) [OF i]]
  have pos: "\<forall>y\<in>A. 0 < siz k y"
  proof (cases "freep k = 0")
    case False
    then show ?thesis using blocks_okD(4) [OF h(4)] by (simp add: k0_def kr_started_def)
  qed (use assms(2) in \<open>simp add: kr_state_def\<close>)
  obtain prev p where p: "prev \<in> insert (kr_base k0) F" "nxt k0 prev = p" "p \<in> insert (kr_base k0) F"
    "mspace_k_r_malloc_alloc morecore k c nbytes = alloc_loop morecore n prev p k0 c"
    "n \<le> siz k0 p \<or> p = freep k0 \<and> (\<forall>x\<in>insert (kr_base k0) F. siz k0 x < n)"
    using loop_starts [OF i, of morecore n c] unfolding st(4) assms(5) by metis
  from p(5) show ?thesis
  proof
    assume "n \<le> siz k0 p"
    then obtain a k' F' where t: "alloc_loop morecore n prev p k0 c = Some (a + 8, k', c)" "kr_inv start (brk c) (lim c) k' F' (insert a A)" "a \<notin> A"
      "siz k' a = n" "kept k0 k' A" using loop_takes [OF i p(1-3) assms(3), of morecore c] by blast
    then have "a + 8 \<noteq> 0" using block_end(2) [OF t(2), of a] by simp
    then show ?thesis using t p(4) assms(1) kept_trans [OF st(2) t(5) pos] by (intro exI [of _ "a + 8"] exI [of _ k'] exI [of _ c] exI [of _ F']) simp
  next
    assume small: "p = freep k0 \<and> (\<forall>x\<in>insert (kr_base k0) F. siz k0 x < n)"
    obtain q c' where m: "morecore c n = (q, c')" by fastforce
    note c = core [OF assms(1,3,4) m]
    have e: "p \<in> dom (kr_mem k0)" using kr_invD(8) [OF i] p(3) by blast
    show ?thesis
    proof (cases "q = 0")
      case True
      then have "alloc_loop morecore n prev p k0 c = Some (0, k0, c')" using small m e p(3) by (subst alloc_loop.simps) (auto simp: rd_wr)
      then show ?thesis using p(4) c True i st(2) small m by auto
    next
      case False
      then have c2: "q = brk c" "brk c' = brk c + 8 * n" "brk c' \<le> lim c" using c by auto
      define k1 where "k1 = set_size k0 q n"
      note x = inv_extend [OF i assms(3) c2(3) [unfolded c2(2)], folded c2(1), folded k1_def]
      obtain k2 F2 where f: "mspace_k_r_malloc_free k1 (hdr_at q 1) = Some k2" "kr_inv start (q + 8 * n) (lim c) k2 F2 A"
        "kr_base k2 = kr_base k1" "\<forall>x. x \<notin> insert (kr_base k1) (insert q F) \<longrightarrow> kr_mem k2 x = kr_mem k1 x" "\<exists>x\<in>F2. siz k1 q \<le> siz k2 x"
        using free_spec [OF x(1,2)] by blast
      note i2 = f(2) 
      note h2 = heap_wD [OF kr_invD(5) [OF i2]]
      have ke: "kept k0 k2 A"
        using kept_trans [OF x(4) free_kept [OF x(1,2) f(4,3)]] blocks_okD(4) [OF h(4)] by (simp add: k1_def)
      have fd: "freep k2 \<in> dom (kr_mem k2)" using kr_invD(6,8) [OF i2] by blast
      have go: "alloc_loop morecore n prev p k0 c = alloc_loop morecore n (freep k2) (nxt k2 (freep k2)) k2 c'"
        using small m e p(3) False f(1) x(3) fd by (subst alloc_loop.simps) (auto simp: rd_wr k1_def)
      obtain prev2 p2 where p2: "prev2 \<in> insert (kr_base k2) F2" "nxt k2 prev2 = p2" "p2 \<in> insert (kr_base k2) F2"
        "alloc_loop morecore n (freep k2) (nxt k2 (freep k2)) k2 c' = alloc_loop morecore n prev2 p2 k2 c'"
        "n \<le> siz k2 p2 \<or> p2 = freep k2 \<and> (\<forall>x\<in>insert (kr_base k2) F2. siz k2 x < n)"
        using loop_starts [OF i2, of morecore n c'] by metis
      have "n \<le> siz k2 p2" using p2(5) f(5) by (force simp: k1_def)
      then obtain a k' F' where t: "alloc_loop morecore n prev2 p2 k2 c' = Some (a + 8, k', c')" "kr_inv start (q + 8 * n) (lim c) k' F' (insert a A)" "a \<notin> A"
        "siz k' a = n" "kept k2 k' A" using loop_takes [OF i2 p2(1-3) assms(3), of morecore c'] by blast
      have pos0: "\<forall>y\<in>A. 0 < siz k0 y" using blocks_okD(4) [OF h(4)] by simp
      have "kept k k' A" using kept_trans [OF st(2) kept_trans [OF ke t(5) pos0] pos] .
      moreover have "a + 8 \<noteq> 0" using block_end(2) [OF t(2), of a] by simp
      ultimately show ?thesis using t p(4) p2(4) go c c2 by (intro exI [of _ "a + 8"] exI [of _ k'] exI [of _ c'] exI [of _ F']) simp
    qed
  qed
qed

end

subsection \<open>A pool and its clients\<close>

definition pool_uses :: "k_r_malloc \<Rightarrow> int set \<Rightarrow> (int \<rightharpoonup> int) \<Rightarrow> bool" where
  \<comment> \<open>\<open>U\<close> has the pointers in use and the numbers of bytes asked for\<close>
  "pool_uses k A U \<longleftrightarrow> A = (\<lambda>r. r - 8) ` dom U \<and> (\<forall>r b. U r = Some b \<longrightarrow> 0 < b \<and> b \<le> 268435456 \<and> siz k (r - 8) = nunits_for b)"

definition pool_ok :: "int \<Rightarrow> int \<Rightarrow> int \<Rightarrow> k_r_malloc \<Rightarrow> (int \<rightharpoonup> int) \<Rightarrow> bool" where
  "pool_ok start brk lim k U \<longleftrightarrow> (\<exists>F A. kr_state start brk lim k F A \<and> pool_uses k A U)"

definition client_writes :: "(int \<rightharpoonup> int) \<Rightarrow> k_r_malloc \<Rightarrow> k_r_malloc \<Rightarrow> bool" where
  \<comment> \<open>only cells that hold a byte of a block in use may change\<close>
  "client_writes U k k' \<longleftrightarrow> kr_base k' = kr_base k \<and> freep k' = freep k \<and> dom (kr_mem k') = dom (kr_mem k)
     \<and> (\<forall>x. (\<forall>r b. U r = Some b \<longrightarrow> x < r \<or> r + b \<le> x) \<longrightarrow> kr_mem k' x = kr_mem k x)"

definition intact :: "(int \<rightharpoonup> int) \<Rightarrow> k_r_malloc \<Rightarrow> k_r_malloc \<Rightarrow> bool" where
  \<comment> \<open>the contents of the blocks in use are the same\<close>
  "intact U k k' \<longleftrightarrow> (\<forall>r b x. U r = Some b \<and> r \<le> x \<and> x < r + b \<longrightarrow> kr_mem k' x = kr_mem k x)"

lemma nunits_small: "0 \<le> b \<Longrightarrow> b \<le> 268435456 \<Longrightarrow> nunits_for b = (b + 7) div 8 + 1"
  by (simp add: nunits_for_def u32_id)

lemma nunits_bounds:
  assumes "0 \<le> b" "b \<le> 268435456"
  shows "0 < nunits_for b" "b + 8 \<le> 8 * nunits_for b" "nunits_for b \<le> 33554433"
  unfolding nunits_small [OF assms] using assms by presburger+

lemma pool_usesD:
  assumes "pool_uses k A U" "U r = Some b"
  shows "r - 8 \<in> A" "0 \<le> b" "b \<le> 268435456" "siz k (r - 8) = nunits_for b" "b + 8 \<le> 8 * nunits_for b"
proof -
  show u: "r - 8 \<in> A" "b \<le> 268435456" "siz k (r - 8) = nunits_for b" using assms by (auto simp: pool_uses_def)
  have "0 < b" using assms by (auto simp: pool_uses_def)
  then show "0 \<le> b" "b + 8 \<le> 8 * nunits_for b" using nunits_bounds(2) u(2) by simp_all
qed

lemma kept_intact:
  assumes "kept k k' A" "pool_uses k A U"
  shows "intact U k k'"
  unfolding intact_def
proof (intro allI impI)
  fix r b x assume r: "U r = Some b \<and> r \<le> x \<and> x < r + b"
  note u = pool_usesD [OF assms(2) conjunct1 [OF r]]
  then have "r - 8 \<le> x \<and> x < r - 8 + 8 * siz k (r - 8)" using r by simp
  then show "kr_mem k' x = kr_mem k x" using assms(1) u(1) unfolding kept_def by blast
qed

lemma pool_uses_cong:
  assumes "pool_uses k A U" "\<And>y. y \<in> A \<Longrightarrow> siz k' y = siz k y"
  shows "pool_uses k' A U"
proof -
  have "siz k' (r - 8) = siz k (r - 8)" if "U r = Some b" for r b using that assms(1) by (intro assms(2)) (auto simp: pool_uses_def)
  then show ?thesis using assms(1) by (auto simp: pool_uses_def)
qed

lemma pool_uses_drop:
  assumes "pool_uses k A U"
  shows "pool_uses k (A - {r - 8}) (U(r := None))"
  using assms unfolding pool_uses_def by (auto simp: image_iff)

lemma state_inv: "kr_state start brk lim k F A \<Longrightarrow> a \<in> A \<Longrightarrow> kr_inv start brk lim k F A"
  by (auto simp: kr_state_def split: if_splits)

lemma inv_state: "kr_inv start brk lim k F A \<Longrightarrow> kr_state start brk lim k F A"
  using block_end(2) [of start brk lim k F A "freep k"] kr_invD(6) [of start brk lim k F A] by (auto simp: kr_state_def)

lemma pool_use:
  assumes "pool_ok start brk lim k U" "U r = Some b"
  obtains F A where "kr_inv start brk lim k F A" "pool_uses k A U" "r - 8 \<in> A" "0 < b" "b \<le> 268435456" "siz k (r - 8) = nunits_for b"
proof -
  obtain F A where f: "kr_state start brk lim k F A" "pool_uses k A U" using assms(1) by (auto simp: pool_ok_def)
  moreover have "r - 8 \<in> A" using f(2) assms(2) by (auto simp: pool_uses_def)
  ultimately show ?thesis using that [of F A] state_inv [of start brk lim k F A "r - 8"] assms(2) by (auto simp: pool_uses_def)
qed

lemma pool_ranges:
  assumes "pool_ok start brk lim k U" "U r = Some b"
  shows "start + 8 \<le> r" "r + b \<le> brk" "U r' = Some b' \<Longrightarrow> r \<noteq> r' \<Longrightarrow> r + b \<le> r' - 8 \<or> r' + b' \<le> r - 8"
proof -
  obtain F A where f: "kr_inv start brk lim k F A" "pool_uses k A U" "r - 8 \<in> A" "0 < b" "b \<le> 268435456" "siz k (r - 8) = nunits_for b"
    using pool_use [OF assms] .
  note b = blocks_okD [OF heap_wD(4) [OF kr_invD(5) [OF f(1)]]]
  note n = nunits_bounds [OF less_imp_le [OF f(4)] f(5)]
  show "start + 8 \<le> r" "r + b \<le> brk" using b(2,5) [of "r - 8"] f(3,6) n(2) by auto
  show "r + b \<le> r' - 8 \<or> r' + b' \<le> r - 8" if r': "U r' = Some b'" "r \<noteq> r'"
  proof -
    have g: "r' - 8 \<in> A" "0 \<le> b'" "b' \<le> 268435456" "siz k (r' - 8) = nunits_for b'" by (rule pool_usesD [OF f(2) r'(1)])+
    show ?thesis using b(6) [of "r - 8" "r' - 8"] b(6) [of "r' - 8" "r - 8"] g f(3,6) n(2) nunits_bounds(2) [OF g(2,3)] r'(2)
      by (cases "r < r'") auto
  qed
qed

lemma pool_free:
  assumes "pool_ok start brk lim k U" "U r = Some b"
  shows "\<exists>k'. mspace_k_r_malloc_free k r = Some k' \<and> pool_ok start brk lim k' (U(r := None)) \<and> intact (U(r := None)) k k'"
proof -
  obtain F A where f: "kr_inv start brk lim k F A" "pool_uses k A U" "r - 8 \<in> A" using pool_use [OF assms] .
  have A: "kr_inv start brk lim k F (insert (r - 8) (A - {r - 8}))" "r - 8 \<notin> A - {r - 8}" using f(1,3) by (auto simp: insert_absorb)
  note b = blocks_okD(4,5) [OF heap_wD(4) [OF kr_invD(5) [OF f(1)]]]
  have "hdr_at (r - 8) 1 = r" using b [of "r - 8"] f(3) kr_invD(3,4) [OF f(1)] block_end(2) [OF f(1), of "r - 8"] by (simp add: hdr_at_def u32_id)
  then obtain k' F' where k': "mspace_k_r_malloc_free k r = Some k'" "kr_inv start brk lim k' F' (A - {r - 8})" "kr_base k' = kr_base k"
    "\<forall>x. x \<notin> insert (kr_base k) (insert (r - 8) F) \<longrightarrow> kr_mem k' x = kr_mem k x" using free_spec [OF A] by auto
  have ke: "kept k k' (A - {r - 8})" by (rule free_kept [OF A k'(4,3)])
  have "pool_uses k' (A - {r - 8}) (U(r := None))"
    using pool_uses_cong [OF pool_uses_drop [OF f(2)]] kept_siz [OF ke] b(1) by simp
  then show ?thesis using k'(1) inv_state [OF k'(2)] kept_intact [OF ke pool_uses_drop [OF f(2)]] by (auto simp: pool_ok_def)
qed

lemma pool_write:
  assumes "pool_ok start brk lim k U" "client_writes U k k'"
  shows "pool_ok start brk lim k' U"
proof -
  obtain F A where f: "kr_state start brk lim k F A" "pool_uses k A U" using assms(1) by (auto simp: pool_ok_def)
  have w: "kr_base k' = kr_base k" "freep k' = freep k" "dom (kr_mem k') = dom (kr_mem k)"
    "\<And>x. (\<forall>r b. U r = Some b \<longrightarrow> x < r \<or> r + b \<le> x) \<Longrightarrow> kr_mem k' x = kr_mem k x" using assms(2) by (auto simp: client_writes_def)
  show ?thesis
  proof (cases "freep k = 0")
    case True
    then show ?thesis using f w(1-3) by (auto simp: pool_ok_def kr_state_def pool_uses_def)
  next
    case False
    then have i: "kr_inv start brk lim k F A" using f(1) by (simp add: kr_state_def)
    note d = kr_invD [OF i]
    note h = heap_wD [OF d(5)]
    note b = blocks_okD(4,6) [OF h(4)]
    have m: "kr_mem k' x = kr_mem k x" if x: "x \<in> insert (kr_base k) (F \<union> A)" for x
    proof (intro w(4) allI impI)
      fix r n assume r: "U r = Some n"
      note p = pool_use [OF assms(1) r]
      have g: "r - 8 \<in> A" "siz k (r - 8) = nunits_for n" "n + 8 \<le> 8 * nunits_for n"
        by (rule pool_usesD [OF f(2) r])+
      show "x < r \<or> r + n \<le> x"
      proof (cases "x = kr_base k")
        case True
        then show ?thesis using h(11) [OF g(1)] by simp
      next
        case False
        then have "x \<in> F \<union> A" using x by simp
        then show ?thesis using b(2) [of "r - 8" x] b(2) [of x "r - 8"] b(1) [of x] g by (cases "r - 8 < x") auto
      qed
    qed
    have s: "siz k' x = siz k x" "nxt k' x = nxt k x" if "x \<in> insert (kr_base k) (F \<union> A)" for x
      using m [OF that] by (simp_all add: siz_def nxt_def)
    have "heap_w start brk (kr_base k) (nxt k') (siz k') F A" by (rule heap_w_cong [OF d(5)]) (use s in auto)
    moreover have "\<not> touch (siz k') F u v" for u v using d(7) [of u v] s(1) [of u] by (auto simp: touch_def)
    ultimately have "kr_inv start brk lim k' F A" using i w(1-3) unfolding kr_inv_def by simp
    moreover have "pool_uses k' A U" using pool_uses_cong [OF f(2)] s(1) by simp
    ultimately show ?thesis using inv_state [of start brk lim k' F A] by (auto simp: pool_ok_def)
  qed
qed

context core_source
begin

lemma pool_alloc:
  assumes "valid c" "pool_ok start (brk c) (lim c) k U" "0 < bytes" "bytes \<le> 268435456" "nunits_for bytes \<le> units c"
  shows "\<exists>r k' c'. mspace_k_r_malloc_alloc morecore k c bytes = Some (r, k', c') \<and> valid c' \<and> lim c' = lim c \<and> units c' = units c \<and> intact U k k'
    \<and> (if r = 0 then pool_ok start (brk c') (lim c) k' U \<and> fst (morecore c (nunits_for bytes)) = 0
       else U r = None \<and> pool_ok start (brk c') (lim c) k' (U(r \<mapsto> bytes)))"
proof -
  obtain F A where f: "kr_state start (brk c) (lim c) k F A" "pool_uses k A U" using assms(2) by (auto simp: pool_ok_def)
  note n = nunits_bounds [OF less_imp_le [OF assms(3)] assms(4)]
  obtain r k' c' F' where a: "mspace_k_r_malloc_alloc morecore k c bytes = Some (r, k', c')" "valid c'" "lim c' = lim c" "units c' = units c" "kept k k' A"
    "if r = 0 then kr_inv start (brk c') (lim c) k' F A \<and> brk c' = brk c \<and> (\<forall>a\<in>F. siz k' a < nunits_for bytes) \<and> fst (morecore c (nunits_for bytes)) = 0
       else kr_inv start (brk c') (lim c) k' F' (insert (r - 8) A) \<and> r - 8 \<notin> A \<and> siz k' (r - 8) = nunits_for bytes"
    using alloc_spec [OF assms(1) f(1) n(1) assms(5) refl] by blast
  have pos: "0 < siz k y" if "y \<in> A" for y using blocks_okD(4) [OF heap_wD(4) [OF kr_invD(5) [OF state_inv [OF f(1) that]]]] that by simp
  have u: "pool_uses k' A U" using pool_uses_cong [OF f(2)] kept_siz [OF a(5) _ pos] by simp
  show ?thesis
  proof (cases "r = 0")
    case True
    then have i: "kr_inv start (brk c') (lim c) k' F A" "fst (morecore c (nunits_for bytes)) = 0" using a(6) by auto
    have "pool_ok start (brk c') (lim c) k' U" using u inv_state [OF i(1)] by (auto simp: pool_ok_def)
    then show ?thesis using a(1-4) True i(2) kept_intact [OF a(5) f(2)] by auto
  next
    case False
    then have i: "kr_inv start (brk c') (lim c) k' F' (insert (r - 8) A)" "r - 8 \<notin> A" "siz k' (r - 8) = nunits_for bytes" using a(6) by auto
    have "U r = None" using i(2) f(2) by (auto simp: pool_uses_def image_iff)
    moreover have "pool_uses k' (insert (r - 8) A) (U(r \<mapsto> bytes))" using u i(3) assms(3,4) unfolding pool_uses_def by auto
    then have "pool_ok start (brk c') (lim c) k' (U(r \<mapsto> bytes))" using inv_state [OF i(1)] by (auto simp: pool_ok_def)
    ultimately show ?thesis using a(1-4) False kept_intact [OF a(5) f(2)] by auto
  qed
qed

end

subsection \<open>The two pools\<close>

interpretation fp: core_source fixed_morecore pool_ptr "\<lambda>f. pool_ptr f + remaining f" "\<lambda>f. 536870911"
  "\<lambda>f. 0 < pool_ptr f \<and> 0 \<le> remaining f \<and> pool_ptr f + remaining f < 4294967296"
  by unfold_locales (auto simp: fixed_morecore_def Let_def u32_id split: if_splits)

lemma add_pages_spec:
  "add_pages add_page e v = (fin, v') \<Longrightarrow> v_ptr v' = v_ptr v \<and> v_limit v' = v_limit v \<and> v_top v \<le> v_top v' \<and> (fin \<longrightarrow> e \<le> v_top v')"
proof (induction add_page e v arbitrary: fin v' rule: add_pages.induct)
  case (1 add_page e v)
  then show ?case by (fastforce simp: add_pages.simps [of add_page e v] split: if_splits)
qed

interpretation vp: core_source "virtual_morecore add_page" v_ptr v_limit "\<lambda>v. (4294967295 - v_limit v) div 8"
  "\<lambda>v. 0 < v_ptr v \<and> v_ptr v \<le> v_top v \<and> v_ptr v \<le> v_limit v \<and> v_limit v < 4294967296"
proof (unfold_locales, goal_cases)
  case (1 v n p v')
  then have n: "8 * n \<le> 4294967295 - v_limit v" by linarith
  then have u: "u32 (n * 8) = 8 * n" "u32 (v_ptr v + 8 * n) = v_ptr v + 8 * n" using 1 by (simp_all add: u32_id)
  obtain fin w where w: "add_pages add_page (v_ptr v + 8 * n) v = (fin, w)" by fastforce
  note s = add_pages_spec [OF w]
  have m: "(p, v') = (if v_ptr v + 8 * n > v_limit v then (0, v) else if \<not> fin then (0, w) else (v_ptr w, w\<lparr>v_ptr := u32 (v_ptr w + 8 * n)\<rparr>))"
    using 1(4) unfolding virtual_morecore_def Let_def u w by (auto split: if_splits)
  consider "v_ptr v + 8 * n > v_limit v" | "v_ptr v + 8 * n \<le> v_limit v" "\<not> fin" | "v_ptr v + 8 * n \<le> v_limit v" fin by linarith
  then show ?case using m s u(2) 1(1,2) by cases auto
qed

subsection \<open>Memory is handed out once\<close>

definition pool_mem :: "k_r_malloc \<Rightarrow> int \<Rightarrow> int \<Rightarrow> bool" where
  \<comment> \<open>the memory of a pool, and \<^verbatim>\<open>base\<close> below it\<close>
  "pool_mem k start lim \<longleftrightarrow> 0 < kr_base k \<and> kr_base k + 8 \<le> start \<and> start \<le> lim \<and> lim \<le> 3758096384
     \<and> kr_base k \<in> dom (kr_mem k) \<and> (\<forall>a. start \<le> a \<and> a < lim \<and> 8 dvd (a - start) \<longrightarrow> a \<in> dom (kr_mem k))"

definition in_fixed :: "dual_pool \<Rightarrow> int set" where
  "in_fixed d = {fixed_pool_start d..<fixed_pool_end d}"

inductive dual_run :: "(int \<Rightarrow> int) \<Rightarrow> dual_pool \<Rightarrow> (int \<rightharpoonup> int) \<Rightarrow> bool" for add_page where
  \<comment> \<open>the pools after some calls, with the pointers in use; clients write to their blocks at any time. (The pointer to a block of 0 bytes
     is the end of the block, which at the end of a pool does not say to which pool it belongs.)\<close>
  create: "pool_mem (d_fixed_kr d) (pool + pool mod 8) (pool + bytes) \<Longrightarrow> 0 \<le> pool \<Longrightarrow> dual_run add_page (mspace_dual_pool_create d pool bytes) Map.empty"
| attach: "dual_run add_page d U \<Longrightarrow> \<not> have_virtual_pool d \<Longrightarrow> pool_mem (d_virtual_kr d) vstart (vstart + bytes)
    \<Longrightarrow> vstart + bytes \<le> fixed_pool_start d \<or> fixed_pool_end d \<le> vstart
    \<Longrightarrow> dual_run add_page (mspace_dual_pool_attach_virtual d vstart bytes) U"
| alloc: "dual_run add_page d U \<Longrightarrow> 0 < bytes \<Longrightarrow> bytes \<le> 268435456 \<Longrightarrow> mspace_dual_pool_alloc add_page d bytes = Some (r, 0, d')
    \<Longrightarrow> dual_run add_page d' (U(r \<mapsto> bytes))"
| fails: "dual_run add_page d U \<Longrightarrow> 0 < bytes \<Longrightarrow> bytes \<le> 268435456 \<Longrightarrow> mspace_dual_pool_alloc add_page d bytes = Some (r, 1, d')
    \<Longrightarrow> dual_run add_page d' U"
| free: "dual_run add_page d U \<Longrightarrow> U r = Some b \<Longrightarrow> mspace_dual_pool_free d r = Some d' \<Longrightarrow> dual_run add_page d' (U(r := None))"
| writes: "dual_run add_page d U \<Longrightarrow> client_writes (U |` in_fixed d) (d_fixed_kr d) kf \<Longrightarrow> client_writes (U |` (- in_fixed d)) (d_virtual_kr d) kv
    \<Longrightarrow> dual_run add_page (d\<lparr>d_fixed_kr := kf, d_virtual_kr := kv\<rparr>) U"

definition fixed_ok :: "dual_pool \<Rightarrow> (int \<rightharpoonup> int) \<Rightarrow> bool" where
  "fixed_ok d U \<longleftrightarrow> (\<exists>start. fixed_pool_start d \<le> start \<and> pool_ok start (pool_ptr (d_fixed d)) (fixed_pool_end d) (d_fixed_kr d) U)
     \<and> pool_ptr (d_fixed d) + remaining (d_fixed d) = fixed_pool_end d
     \<and> 0 < pool_ptr (d_fixed d) \<and> 0 \<le> remaining (d_fixed d) \<and> fixed_pool_end d < 4294967296"

definition virtual_ok :: "dual_pool \<Rightarrow> (int \<rightharpoonup> int) \<Rightarrow> bool" where
  "virtual_ok d U \<longleftrightarrow> (\<exists>start. pool_ok start (v_ptr (d_virtual d)) (v_limit (d_virtual d)) (d_virtual_kr d) U
       \<and> (v_limit (d_virtual d) \<le> fixed_pool_start d \<or> fixed_pool_end d \<le> start))
     \<and> 0 < v_ptr (d_virtual d) \<and> v_ptr (d_virtual d) \<le> v_top (d_virtual d) \<and> v_ptr (d_virtual d) \<le> v_limit (d_virtual d)
     \<and> v_limit (d_virtual d) \<le> 3758096384"

definition dual_intact :: "(int \<rightharpoonup> int) \<Rightarrow> dual_pool \<Rightarrow> dual_pool \<Rightarrow> bool" where
  "dual_intact U d d' \<longleftrightarrow> intact (U |` in_fixed d) (d_fixed_kr d) (d_fixed_kr d') \<and> intact (U |` (- in_fixed d)) (d_virtual_kr d) (d_virtual_kr d')"

definition dual_ok :: "dual_pool \<Rightarrow> (int \<rightharpoonup> int) \<Rightarrow> bool" where
  "dual_ok d U \<longleftrightarrow> fixed_ok d (U |` in_fixed d) \<and> (if have_virtual_pool d then virtual_ok d (U |` (- in_fixed d)) else dom U \<subseteq> in_fixed d)"

lemma pool_fresh:
  assumes "pool_mem k start lim" "freep k = 0"
  shows "pool_ok start start lim k Map.empty"
  using assms by (auto simp: pool_ok_def pool_mem_def kr_state_def pool_uses_def)

lemma fixed_range:
  assumes "fixed_ok d U" "U r = Some b"
  shows "r \<in> in_fixed d" "r + b \<le> fixed_pool_end d"
proof -
  obtain start where s: "pool_ok start (pool_ptr (d_fixed d)) (fixed_pool_end d) (d_fixed_kr d) U" "fixed_pool_start d \<le> start"
    "pool_ptr (d_fixed d) \<le> fixed_pool_end d" using assms(1) by (auto simp: fixed_ok_def)
  have "0 < b" using pool_use [OF s(1) assms(2)] by blast
  then show "r \<in> in_fixed d" "r + b \<le> fixed_pool_end d" using pool_ranges(1,2) [OF s(1) assms(2)] s(2,3) by (auto simp: in_fixed_def)
qed

lemma virtual_range:
  assumes "virtual_ok d U" "U r = Some b"
  shows "r + b \<le> fixed_pool_start d \<or> fixed_pool_end d \<le> r" "r \<notin> in_fixed d"
proof -
  obtain start where s: "pool_ok start (v_ptr (d_virtual d)) (v_limit (d_virtual d)) (d_virtual_kr d) U"
    "v_limit (d_virtual d) \<le> fixed_pool_start d \<or> fixed_pool_end d \<le> start" "v_ptr (d_virtual d) \<le> v_limit (d_virtual d)"
    using assms(1) by (auto simp: virtual_ok_def)
  have "0 < b" using pool_use [OF s(1) assms(2)] by blast
  then show "r + b \<le> fixed_pool_start d \<or> fixed_pool_end d \<le> r" "r \<notin> in_fixed d"
    using pool_ranges(1,2) [OF s(1) assms(2)] s(2,3) by (auto simp: in_fixed_def)
qed

lemma restrict_upd:
  "r \<in> X \<Longrightarrow> U(r \<mapsto> b) |` X = (U |` X)(r \<mapsto> b)" "r \<notin> X \<Longrightarrow> U(r \<mapsto> b) |` X = U |` X"
  "r \<in> X \<Longrightarrow> U(r := None) |` X = (U |` X)(r := None)" "r \<notin> X \<Longrightarrow> U(r := None) |` X = U |` X"
  by (auto simp: restrict_map_def fun_eq_iff)

lemma fixed_alloc:
  assumes "fixed_ok d U" "0 < bytes" "bytes \<le> 268435456"
  shows "\<exists>r e k f. mspace_fixed_pool_alloc (d_fixed_kr d) (d_fixed d) bytes = Some (r, e, k, f) \<and> intact U (d_fixed_kr d) k
    \<and> (if e = 0 then U r = None \<and> fixed_ok (d\<lparr>d_fixed_kr := k, d_fixed := f\<rparr>) (U(r \<mapsto> bytes))
       else e = 1 \<and> fixed_ok (d\<lparr>d_fixed_kr := k, d_fixed := f\<rparr>) U \<and> remaining (d_fixed d) < 8 * nunits_for bytes)"
proof -
  obtain start where s: "fixed_pool_start d \<le> start" "pool_ok start (pool_ptr (d_fixed d)) (fixed_pool_end d) (d_fixed_kr d) U"
    and f: "pool_ptr (d_fixed d) + remaining (d_fixed d) = fixed_pool_end d" "0 < pool_ptr (d_fixed d)" "0 \<le> remaining (d_fixed d)"
      "fixed_pool_end d < 4294967296" using assms(1) by (auto simp: fixed_ok_def)
  note n = nunits_bounds [OF less_imp_le [OF assms(2)] assms(3)]
  obtain r k c where a: "mspace_k_r_malloc_alloc fixed_morecore (d_fixed_kr d) (d_fixed d) bytes = Some (r, k, c)"
    "0 < pool_ptr c \<and> 0 \<le> remaining c \<and> pool_ptr c + remaining c < 4294967296" "pool_ptr c + remaining c = fixed_pool_end d"
    "intact U (d_fixed_kr d) k"
    "if r = 0 then pool_ok start (pool_ptr c) (fixed_pool_end d) k U \<and> fst (fixed_morecore (d_fixed d) (nunits_for bytes)) = 0
       else U r = None \<and> pool_ok start (pool_ptr c) (fixed_pool_end d) k (U(r \<mapsto> bytes))"
    using fp.pool_alloc [of "d_fixed d" start "d_fixed_kr d" U bytes] s(2) f assms n(3) unfolding f(1) by auto
  have "remaining (d_fixed d) < 8 * nunits_for bytes" if "fst (fixed_morecore (d_fixed d) (nunits_for bytes)) = 0"
    using that f(2) n(1,3) by (auto simp: fixed_morecore_def Let_def u32_id split: if_splits)
  then show ?thesis using a s(1) f(4) by (auto simp: mspace_fixed_pool_alloc_def fixed_ok_def)
qed

lemma virtual_alloc:
  assumes "virtual_ok d U" "0 < bytes" "bytes \<le> 268435456"
  shows "\<exists>r e k v. mspace_virtual_pool_alloc add_page (d_virtual_kr d) (d_virtual d) bytes = Some (r, e, k, v) \<and> intact U (d_virtual_kr d) k
    \<and> (if e = 0 then U r = None \<and> virtual_ok (d\<lparr>d_virtual_kr := k, d_virtual := v\<rparr>) (U(r \<mapsto> bytes))
       else e = 1 \<and> virtual_ok (d\<lparr>d_virtual_kr := k, d_virtual := v\<rparr>) U)"
proof -
  obtain start where s: "pool_ok start (v_ptr (d_virtual d)) (v_limit (d_virtual d)) (d_virtual_kr d) U"
    "v_limit (d_virtual d) \<le> fixed_pool_start d \<or> fixed_pool_end d \<le> start"
    and v: "0 < v_ptr (d_virtual d)" "v_ptr (d_virtual d) \<le> v_top (d_virtual d)" "v_ptr (d_virtual d) \<le> v_limit (d_virtual d)" "v_limit (d_virtual d) \<le> 3758096384"
    using assms(1) by (auto simp: virtual_ok_def)
  note n = nunits_bounds [OF less_imp_le [OF assms(2)] assms(3)]
  have un: "nunits_for bytes \<le> (4294967295 - v_limit (d_virtual d)) div 8" using n(3) v(4) by linarith
  obtain r k c where a: "mspace_k_r_malloc_alloc (virtual_morecore add_page) (d_virtual_kr d) (d_virtual d) bytes = Some (r, k, c)"
    "0 < v_ptr c \<and> v_ptr c \<le> v_top c \<and> v_ptr c \<le> v_limit c \<and> v_limit c < 4294967296" "v_limit c = v_limit (d_virtual d)"
    "intact U (d_virtual_kr d) k"
    "if r = 0 then pool_ok start (v_ptr c) (v_limit (d_virtual d)) k U
       else U r = None \<and> pool_ok start (v_ptr c) (v_limit (d_virtual d)) k (U(r \<mapsto> bytes))"
    using vp.pool_alloc [of "d_virtual d" start "d_virtual_kr d" U bytes add_page] s(1) v assms un by (auto split: if_splits)
  then show ?thesis using s(2) v(4) by (auto simp: mspace_virtual_pool_alloc_def virtual_ok_def)
qed

lemma fixed_other: "fixed_ok (d\<lparr>d_virtual_kr := k, d_virtual := v\<rparr>) = fixed_ok d" "in_fixed (d\<lparr>d_virtual_kr := k, d_virtual := v\<rparr>) = in_fixed d"
  "fixed_ok (d\<lparr>d_virtual_kr := k\<rparr>) = fixed_ok d" "in_fixed (d\<lparr>d_virtual_kr := k\<rparr>) = in_fixed d"
  by (auto simp: fixed_ok_def in_fixed_def fun_eq_iff)

lemma virtual_other: "virtual_ok (d\<lparr>d_fixed_kr := k, d_fixed := f\<rparr>) = virtual_ok d" "in_fixed (d\<lparr>d_fixed_kr := k, d_fixed := f\<rparr>) = in_fixed d"
  "virtual_ok (d\<lparr>d_fixed_kr := k\<rparr>) = virtual_ok d" "in_fixed (d\<lparr>d_fixed_kr := k\<rparr>) = in_fixed d"
  by (auto simp: virtual_ok_def in_fixed_def fun_eq_iff)

lemma dual_fixed_alloc:
  assumes "dual_ok d U" "0 < bytes" "bytes \<le> 268435456"
  shows "\<exists>r e k f. mspace_fixed_pool_alloc (d_fixed_kr d) (d_fixed d) bytes = Some (r, e, k, f) \<and> intact (U |` in_fixed d) (d_fixed_kr d) k
    \<and> (if e = 0 then U r = None \<and> dual_ok (d\<lparr>d_fixed_kr := k, d_fixed := f\<rparr>) (U(r \<mapsto> bytes))
       else e = 1 \<and> dual_ok (d\<lparr>d_fixed_kr := k, d_fixed := f\<rparr>) U \<and> remaining (d_fixed d) < 8 * nunits_for bytes)"
proof -
  have o: "fixed_ok d (U |` in_fixed d)" using assms(1) by (simp add: dual_ok_def)
  obtain r e k f where a: "mspace_fixed_pool_alloc (d_fixed_kr d) (d_fixed d) bytes = Some (r, e, k, f) \<and> intact (U |` in_fixed d) (d_fixed_kr d) k"
    "if e = 0 then (U |` in_fixed d) r = None \<and> fixed_ok (d\<lparr>d_fixed_kr := k, d_fixed := f\<rparr>) ((U |` in_fixed d)(r \<mapsto> bytes))
       else e = 1 \<and> fixed_ok (d\<lparr>d_fixed_kr := k, d_fixed := f\<rparr>) (U |` in_fixed d) \<and> remaining (d_fixed d) < 8 * nunits_for bytes"
    using fixed_alloc [OF o assms(2,3)] by blast
  have "r \<in> in_fixed d" if "e = 0"
    using fixed_range(1) [of "d\<lparr>d_fixed_kr := k, d_fixed := f\<rparr>" "(U |` in_fixed d)(r \<mapsto> bytes)" r bytes] a(2) that by (simp add: virtual_other)
  then have "if e = 0 then U r = None \<and> dual_ok (d\<lparr>d_fixed_kr := k, d_fixed := f\<rparr>) (U(r \<mapsto> bytes))
       else e = 1 \<and> dual_ok (d\<lparr>d_fixed_kr := k, d_fixed := f\<rparr>) U \<and> remaining (d_fixed d) < 8 * nunits_for bytes"
    using a(2) assms(1) by (cases "e = 0"; cases "have_virtual_pool d") (simp_all add: dual_ok_def virtual_other restrict_upd)
  then show ?thesis using a(1) by blast
qed

lemma dual_virtual_alloc:
  assumes "dual_ok d U" "have_virtual_pool d" "0 < bytes" "bytes \<le> 268435456"
  shows "\<exists>r e k v. mspace_virtual_pool_alloc add_page (d_virtual_kr d) (d_virtual d) bytes = Some (r, e, k, v) \<and> intact (U |` (- in_fixed d)) (d_virtual_kr d) k
    \<and> (if e = 0 then U r = None \<and> dual_ok (d\<lparr>d_virtual_kr := k, d_virtual := v\<rparr>) (U(r \<mapsto> bytes))
       else e = 1 \<and> dual_ok (d\<lparr>d_virtual_kr := k, d_virtual := v\<rparr>) U)"
proof -
  have o: "virtual_ok d (U |` (- in_fixed d))" using assms(1,2) by (simp add: dual_ok_def)
  obtain r e k v where a: "mspace_virtual_pool_alloc add_page (d_virtual_kr d) (d_virtual d) bytes = Some (r, e, k, v) \<and> intact (U |` (- in_fixed d)) (d_virtual_kr d) k"
    "if e = 0 then (U |` (- in_fixed d)) r = None \<and> virtual_ok (d\<lparr>d_virtual_kr := k, d_virtual := v\<rparr>) ((U |` (- in_fixed d))(r \<mapsto> bytes))
       else e = 1 \<and> virtual_ok (d\<lparr>d_virtual_kr := k, d_virtual := v\<rparr>) (U |` (- in_fixed d))"
    using virtual_alloc [OF o assms(3,4)] by blast
  have "r \<notin> in_fixed d" if "e = 0"
    using virtual_range(2) [of "d\<lparr>d_virtual_kr := k, d_virtual := v\<rparr>" "(U |` (- in_fixed d))(r \<mapsto> bytes)" r bytes] a(2) that by (simp add: fixed_other)
  then have "if e = 0 then U r = None \<and> dual_ok (d\<lparr>d_virtual_kr := k, d_virtual := v\<rparr>) (U(r \<mapsto> bytes))
       else e = 1 \<and> dual_ok (d\<lparr>d_virtual_kr := k, d_virtual := v\<rparr>) U"
    using a(2) assms(1,2) by (cases "e = 0") (simp_all add: dual_ok_def fixed_other restrict_upd)
  then show ?thesis using a(1) by blast
qed

lemma dual_alloc:
  assumes "dual_ok d U" "0 < bytes" "bytes \<le> 268435456"
  shows "\<exists>r e d'. mspace_dual_pool_alloc add_page d bytes = Some (r, e, d') \<and> dual_intact U d d'
    \<and> (if e = 0 then U r = None \<and> dual_ok d' (U(r \<mapsto> bytes)) else e = 1 \<and> dual_ok d' U \<and> remaining (d_fixed d) < 8 * nunits_for bytes)"
proof (cases "have_virtual_pool d")
  case False
  obtain r e k f where f: "mspace_fixed_pool_alloc (d_fixed_kr d) (d_fixed d) bytes = Some (r, e, k, f) \<and> intact (U |` in_fixed d) (d_fixed_kr d) k"
    "if e = 0 then U r = None \<and> dual_ok (d\<lparr>d_fixed_kr := k, d_fixed := f\<rparr>) (U(r \<mapsto> bytes))
       else e = 1 \<and> dual_ok (d\<lparr>d_fixed_kr := k, d_fixed := f\<rparr>) U \<and> remaining (d_fixed d) < 8 * nunits_for bytes"
    using dual_fixed_alloc [OF assms] by blast
  then have "mspace_dual_pool_alloc add_page d bytes = Some (r, e, d\<lparr>d_fixed_kr := k, d_fixed := f\<rparr>)" "dual_intact U d (d\<lparr>d_fixed_kr := k, d_fixed := f\<rparr>)"
    using False by (simp_all add: mspace_dual_pool_alloc_def dual_intact_def intact_def)
  then show ?thesis using f(2) by metis
next
  case True
  obtain r e k v where a: "mspace_virtual_pool_alloc add_page (d_virtual_kr d) (d_virtual d) bytes = Some (r, e, k, v) \<and> intact (U |` (- in_fixed d)) (d_virtual_kr d) k"
    "if e = 0 then U r = None \<and> dual_ok (d\<lparr>d_virtual_kr := k, d_virtual := v\<rparr>) (U(r \<mapsto> bytes))
       else e = 1 \<and> dual_ok (d\<lparr>d_virtual_kr := k, d_virtual := v\<rparr>) U"
    using dual_virtual_alloc [OF assms(1) True assms(2,3)] by blast
  show ?thesis
  proof (cases "e = 0")
    case False
    let ?d = "d\<lparr>d_virtual_kr := k, d_virtual := v\<rparr>"
    have "dual_ok ?d U" using a(2) False by simp
    then obtain r' e' k' f where f: "mspace_fixed_pool_alloc (d_fixed_kr ?d) (d_fixed ?d) bytes = Some (r', e', k', f) \<and> intact (U |` in_fixed d) (d_fixed_kr d) k'"
      "if e' = 0 then U r' = None \<and> dual_ok (?d\<lparr>d_fixed_kr := k', d_fixed := f\<rparr>) (U(r' \<mapsto> bytes))
       else e' = 1 \<and> dual_ok (?d\<lparr>d_fixed_kr := k', d_fixed := f\<rparr>) U \<and> remaining (d_fixed ?d) < 8 * nunits_for bytes"
      using dual_fixed_alloc [of ?d U, OF _ assms(2,3)] by (auto simp: fixed_other)
    then have "mspace_dual_pool_alloc add_page d bytes = Some (r', e', ?d\<lparr>d_fixed_kr := k', d_fixed := f\<rparr>)" "d_fixed ?d = d_fixed d"
      "dual_intact U d (?d\<lparr>d_fixed_kr := k', d_fixed := f\<rparr>)" using a(1) True False by (simp_all add: mspace_dual_pool_alloc_def dual_intact_def)
    then show ?thesis using f(2) by metis
  qed (use a True in \<open>auto simp: mspace_dual_pool_alloc_def dual_intact_def intact_def\<close>)
qed

lemma dual_free:
  assumes "dual_ok d U" "U r = Some b"
  shows "\<exists>d'. mspace_dual_pool_free d r = Some d' \<and> dual_ok d' (U(r := None)) \<and> dual_intact (U(r := None)) d d'"
proof (cases "r \<in> in_fixed d")
  case True
  then have f: "fixed_ok d (U |` in_fixed d)" "(U |` in_fixed d) r = Some b" using assms by (auto simp: dual_ok_def)
  then obtain k where k: "mspace_k_r_malloc_free (d_fixed_kr d) r = Some k" "fixed_ok (d\<lparr>d_fixed_kr := k\<rparr>) ((U |` in_fixed d)(r := None))"
    "intact ((U |` in_fixed d)(r := None)) (d_fixed_kr d) k"
    using pool_free [of _ _ _ _ "U |` in_fixed d" r b] unfolding fixed_ok_def by fastforce
  then have "mspace_dual_pool_free d r = Some (d\<lparr>d_fixed_kr := k\<rparr>)" using True by (simp add: mspace_dual_pool_free_def mspace_fixed_pool_free_def in_fixed_def)
  moreover have "dual_ok (d\<lparr>d_fixed_kr := k\<rparr>) (U(r := None))" "dual_intact (U(r := None)) d (d\<lparr>d_fixed_kr := k\<rparr>)"
    using True assms(1) k(2,3) by (auto simp: dual_ok_def dual_intact_def virtual_other restrict_upd intact_def split: if_splits)
  ultimately show ?thesis by blast
next
  case False
  then have h: "have_virtual_pool d" using assms by (auto simp: dual_ok_def split: if_splits)
  then have v: "virtual_ok d (U |` (- in_fixed d))" "(U |` (- in_fixed d)) r = Some b" using assms False by (auto simp: dual_ok_def)
  then obtain k where k: "mspace_k_r_malloc_free (d_virtual_kr d) r = Some k" "virtual_ok (d\<lparr>d_virtual_kr := k\<rparr>) ((U |` (- in_fixed d))(r := None))"
    "intact ((U |` (- in_fixed d))(r := None)) (d_virtual_kr d) k"
    using pool_free [of _ _ _ _ "U |` (- in_fixed d)" r b] unfolding virtual_ok_def by fastforce
  then have "mspace_dual_pool_free d r = Some (d\<lparr>d_virtual_kr := k\<rparr>)"
    using False by (auto simp: mspace_dual_pool_free_def mspace_virtual_pool_free_def in_fixed_def)
  moreover have "dual_ok (d\<lparr>d_virtual_kr := k\<rparr>) (U(r := None))" "dual_intact (U(r := None)) d (d\<lparr>d_virtual_kr := k\<rparr>)"
    using False h assms(1) k(2,3) by (auto simp: dual_ok_def dual_intact_def fixed_other restrict_upd intact_def split: if_splits)
  ultimately show ?thesis by blast
qed

lemma create_ok:
  assumes "pool_mem (d_fixed_kr d) (pool + pool mod 8) (pool + bytes)" "0 \<le> pool"
  shows "dual_ok (mspace_dual_pool_create d pool bytes) Map.empty"
proof -
  let ?d = "mspace_dual_pool_create d pool bytes" and ?s = "pool + pool mod 8"
  have m: "0 < ?s" "?s \<le> pool + bytes" "pool + bytes \<le> 3758096384" "0 \<le> pool mod 8" using assms by (auto simp: pool_mem_def)
  then have "u32 ?s = ?s" "u32 (bytes - pool mod 8) = bytes - pool mod 8" "u32 (pool + bytes) = pool + bytes" using assms(2) by (auto intro!: u32_id)
  then have f: "fixed_pool_start ?d = pool" "fixed_pool_end ?d = pool + bytes" "pool_ptr (d_fixed ?d) = ?s" "remaining (d_fixed ?d) = bytes - pool mod 8"
    "d_fixed_kr ?d = (d_fixed_kr d)\<lparr>freep := 0\<rparr>" "\<not> have_virtual_pool ?d"
    by (simp_all add: mspace_dual_pool_create_def mspace_fixed_pool_create_def mspace_k_r_malloc_init_def Let_def)
  have "pool_ok ?s ?s (pool + bytes) (d_fixed_kr ?d) Map.empty"
    by (rule pool_fresh) (use assms(1) in \<open>auto simp: f(5) pool_mem_def\<close>)
  then have "\<exists>start. pool \<le> start \<and> pool_ok start ?s (pool + bytes) (d_fixed_kr ?d) Map.empty" using m(4) by (intro exI [of _ ?s]) simp
  then have "fixed_ok ?d Map.empty" unfolding fixed_ok_def f(1-4) using m by simp
  then show ?thesis by (simp add: dual_ok_def f(6))
qed

lemma attach_ok:
  assumes "dual_ok d U" "\<not> have_virtual_pool d" "pool_mem (d_virtual_kr d) vstart (vstart + bytes)"
    "vstart + bytes \<le> fixed_pool_start d \<or> fixed_pool_end d \<le> vstart"
  shows "dual_ok (mspace_dual_pool_attach_virtual d vstart bytes) U"
proof -
  let ?d = "mspace_dual_pool_attach_virtual d vstart bytes"
  have m: "0 < vstart" "vstart \<le> vstart + bytes" "vstart + bytes \<le> 3758096384" using assms(3) by (auto simp: pool_mem_def)
  then have "u32 (vstart + bytes) = vstart + bytes" by (intro u32_id) auto
  then have v: "d_virtual ?d = \<lparr>v_ptr = vstart, v_top = vstart, v_limit = vstart + bytes\<rparr>" "d_virtual_kr ?d = (d_virtual_kr d)\<lparr>freep := 0\<rparr>" "have_virtual_pool ?d"
    by (simp_all add: mspace_dual_pool_attach_virtual_def mspace_virtual_pool_create_def mspace_k_r_malloc_init_def)
  have o: "fixed_ok ?d = fixed_ok d" "in_fixed ?d = in_fixed d" "fixed_pool_start ?d = fixed_pool_start d" "fixed_pool_end ?d = fixed_pool_end d"
    by (auto simp: fixed_ok_def in_fixed_def mspace_dual_pool_attach_virtual_def fun_eq_iff)
  have "pool_ok vstart vstart (vstart + bytes) (d_virtual_kr ?d) Map.empty"
    by (rule pool_fresh) (use assms(3) in \<open>auto simp: v pool_mem_def\<close>)
  moreover have "U |` (- in_fixed d) = Map.empty" using assms(1,2) by (auto simp: dual_ok_def restrict_map_def fun_eq_iff domIff)
  ultimately have "virtual_ok ?d (U |` (- in_fixed d))" using m assms(4) by (auto simp: virtual_ok_def v o)
  then show ?thesis using assms(1) v(3) by (simp add: dual_ok_def o)
qed

lemma writes_ok:
  assumes "dual_ok d U" "client_writes (U |` in_fixed d) (d_fixed_kr d) kf" "client_writes (U |` (- in_fixed d)) (d_virtual_kr d) kv"
  shows "dual_ok (d\<lparr>d_fixed_kr := kf, d_virtual_kr := kv\<rparr>) U"
proof -
  let ?d = "d\<lparr>d_fixed_kr := kf, d_virtual_kr := kv\<rparr>"
  have i: "in_fixed ?d = in_fixed d" by (simp add: in_fixed_def)
  have "fixed_ok ?d (U |` in_fixed d)" using assms(1) pool_write [OF _ assms(2)] unfolding dual_ok_def fixed_ok_def by auto
  moreover have "virtual_ok ?d (U |` (- in_fixed d))" if "have_virtual_pool d"
    using that assms(1) pool_write [OF _ assms(3)] unfolding dual_ok_def virtual_ok_def by auto
  ultimately show ?thesis using assms(1) by (simp add: dual_ok_def i split: if_splits)
qed

lemma dual_run_ok: "dual_run add_page d U \<Longrightarrow> dual_ok d U"
proof (induction rule: dual_run.induct)
  case (create d pool bytes)
  then show ?case by (rule create_ok)
next
  case (attach d U vstart bytes)
  then show ?case by (intro attach_ok)
next
  case (alloc d U bytes r d')
  then show ?case using dual_alloc [OF alloc.IH alloc.hyps(2,3), of add_page] by (simp del: fun_upd_apply)
next
  case (fails d U bytes r d')
  then show ?case using dual_alloc [OF fails.IH fails.hyps(2,3), of add_page] by auto
next
  case (free d U r b d')
  then show ?case using dual_free [OF free.IH free.hyps(2)] by (simp del: fun_upd_apply)
next
  case (writes d U kf kv)
  then show ?case by (intro writes_ok)
qed

lemma dual_disjoint:
  assumes "dual_ok d U" "U r = Some b" "U r' = Some b'" "r \<noteq> r'"
  shows "r + b \<le> r' \<or> r' + b' \<le> r"
proof -
  have f: "fixed_ok d (U |` in_fixed d)" using assms(1) by (simp add: dual_ok_def)
  have v: "virtual_ok d (U |` (- in_fixed d))" if "x \<notin> in_fixed d" "x \<in> dom U" for x using that assms(1) by (auto simp: dual_ok_def split: if_splits)
  have mixed: "r + b \<le> s \<or> s + c \<le> r" if x: "r \<in> in_fixed d" "s \<notin> in_fixed d" "U r = Some b" "U s = Some c" for r s b c
  proof -
    have "virtual_ok d (U |` (- in_fixed d))" "(U |` (- in_fixed d)) s = Some c" using v [of s] x(2,4) by auto
    then have s: "s + c \<le> fixed_pool_start d \<or> fixed_pool_end d \<le> s" by (rule virtual_range(1))
    have "fixed_pool_start d \<le> r" "r + b \<le> fixed_pool_end d" using fixed_range(2) [OF f, of r b] x(1,3) by (simp_all add: in_fixed_def)
    then show ?thesis using s by linarith
  qed
  consider "r \<in> in_fixed d" "r' \<in> in_fixed d" | "r \<in> in_fixed d" "r' \<notin> in_fixed d" | "r \<notin> in_fixed d" "r' \<in> in_fixed d" | "r \<notin> in_fixed d" "r' \<notin> in_fixed d" by blast
  then show ?thesis
  proof cases
    case 1
    then show ?thesis using f assms(2-4) pool_ranges(3) [of _ _ _ _ "U |` in_fixed d" r b r' b'] unfolding fixed_ok_def by fastforce
  next
    case 4
    then show ?thesis using v [of r] assms(2-4) pool_ranges(3) [of _ _ _ _ "U |` (- in_fixed d)" r b r' b'] unfolding virtual_ok_def by fastforce
  qed (use mixed assms(2,3) in auto)
qed

text \<open>C27. Memory of the allocation manager is handed out once. After any sequence of allocations, releases and writes of clients into their own blocks, on a fixed pool
  to which a virtual pool may be attached, a request of up to 256 MiB ends: with a pointer to as many bytes that no other block in use overlaps, or, only if the
  rest of the fixed pool is too small, with error 1. Every block in use can be released. Neither call changes the contents of the blocks
  that stay in use.\<close>

theorem mspace_exclusive:
  assumes "dual_run add_page d U"
  shows "(\<forall>r b r' b'. U r = Some b \<and> U r' = Some b' \<and> r \<noteq> r' \<longrightarrow> r + b \<le> r' \<or> r' + b' \<le> r)
    \<and> (\<forall>bytes. 0 < bytes \<and> bytes \<le> 268435456 \<longrightarrow> (\<exists>r e d'. mspace_dual_pool_alloc add_page d bytes = Some (r, e, d') \<and> dual_intact U d d'
        \<and> (if e = 0 then U r = None \<and> (\<forall>r' b'. U r' = Some b' \<longrightarrow> r + bytes \<le> r' \<or> r' + b' \<le> r)
           else e = 1 \<and> remaining (d_fixed d) < 8 * nunits_for bytes)))
    \<and> (\<forall>r b. U r = Some b \<longrightarrow> (\<exists>d'. mspace_dual_pool_free d r = Some d' \<and> dual_intact (U(r := None)) d d'))"
proof -
  have o: "dual_ok d U" using dual_run_ok [OF assms] .
  have "\<exists>r e d'. mspace_dual_pool_alloc add_page d bytes = Some (r, e, d') \<and> dual_intact U d d'
      \<and> (if e = 0 then U r = None \<and> (\<forall>r' b'. U r' = Some b' \<longrightarrow> r + bytes \<le> r' \<or> r' + b' \<le> r)
         else e = 1 \<and> remaining (d_fixed d) < 8 * nunits_for bytes)" if b: "0 < bytes" "bytes \<le> 268435456" for bytes
  proof -
    obtain r e d' where a: "mspace_dual_pool_alloc add_page d bytes = Some (r, e, d') \<and> dual_intact U d d'"
      "if e = 0 then U r = None \<and> dual_ok d' (U(r \<mapsto> bytes)) else e = 1 \<and> dual_ok d' U \<and> remaining (d_fixed d) < 8 * nunits_for bytes"
      using dual_alloc [OF o b] by blast
    have "r + bytes \<le> r' \<or> r' + b' \<le> r" if "e = 0" "U r' = Some b'" for r' b'
    proof -
      have "r \<noteq> r'" using a(2) that by auto
      then show ?thesis using dual_disjoint [of d' "U(r \<mapsto> bytes)" r bytes r' b'] a(2) that by simp
    qed
    then have "if e = 0 then U r = None \<and> (\<forall>r' b'. U r' = Some b' \<longrightarrow> r + bytes \<le> r' \<or> r' + b' \<le> r)
         else e = 1 \<and> remaining (d_fixed d) < 8 * nunits_for bytes" using a(2) by (cases "e = 0") auto
    then show ?thesis using a(1) by blast
  qed
  moreover have "\<exists>d'. mspace_dual_pool_free d r = Some d' \<and> dual_intact (U(r := None)) d d'" if "U r = Some b" for r b using dual_free [OF o that] by blast
  ultimately show ?thesis using dual_disjoint [OF o] by blast
qed

definition sample_dual :: dual_pool where
  "sample_dual = \<lparr>fixed_pool_start = 0, fixed_pool_end = 0, d_fixed = \<lparr>pool_ptr = 0, remaining = 0\<rparr>,
     d_fixed_kr = \<lparr>kr_base = 4096, freep = 0, kr_mem = (\<lambda>a. if 4096 \<le> a \<and> a < 12288 then Some \<lparr>h_ptr = 0, h_size = 0\<rparr> else None)\<rparr>,
     have_virtual_pool = False, d_virtual = \<lparr>v_ptr = 0, v_top = 0, v_limit = 0\<rparr>,
     d_virtual_kr = \<lparr>kr_base = 0, freep = 0, kr_mem = Map.empty\<rparr>\<rparr>"

theorem mspace_exclusive_witness:
  "\<exists>d r d'. dual_run (\<lambda>_. 0) d Map.empty \<and> mspace_dual_pool_alloc (\<lambda>_. 0) d 100 = Some (r, 0, d')"
proof -
  let ?d = "mspace_dual_pool_create sample_dual 8192 4096"
  have m: "pool_mem (d_fixed_kr sample_dual) (8192 + 8192 mod 8) (8192 + 4096)" by (auto simp: pool_mem_def sample_dual_def)
  have r: "dual_run (\<lambda>_. 0) ?d Map.empty" by (rule dual_run.create [OF m]) simp
  have "\<not> remaining (d_fixed ?d) < 8 * nunits_for 100"
    by (simp add: mspace_dual_pool_create_def mspace_fixed_pool_create_def Let_def u32_def nunits_for_def)
  then have "\<exists>r d'. mspace_dual_pool_alloc (\<lambda>_. 0) ?d 100 = Some (r, 0, d')"
    using mspace_exclusive [OF r, THEN conjunct2, THEN conjunct1, rule_format, of 100] by (auto split: if_splits)
  then show ?thesis using r by blast
qed

end
