(* ===== verification/Untyped.thy ===== *)
theory Untyped
  imports Cslots Malloc
begin

text \<open>
  Untyped memory (\<^verbatim>\<open>libsel4allocman/src/utspace/split.c\<close>): the buddy allocator that every kernel object of the system is
  made from. An untyped is split in halves until a piece has the size of the object, and two free halves are joined again.
  The free pieces of each size are doubly linked lists through their nodes; a node points to its parent and to its
  other half.

  Pointers to nodes are \<^typ>\<open>int\<close>, 0 is \<^verbatim>\<open>NULL\<close>; an access to a node that does not exist, or that was given back, has no
  result. A \<^verbatim>\<open>struct utspace_split_node **\<close> always points into one of the three arrays of list heads: it is the array and the index.
  The calls the allocator makes (memory for nodes, slots for capabilities, the kernel) are the operations of a record of
  functions over the state of the rest of the system; what the allocator relies on is the locale \<open>ut_supply\<close>, and the allocators of
  \<open>Malloc\<close> and \<open>Cslots\<close> provide it.
\<close>

datatype ut_pool = heads | dev_heads | dev_mem_heads

type_synonym head_ref = "ut_pool \<times> nat"

record ut_node =
  n_ut :: cspacepath
  n_parent :: int
  n_sibling :: int
  n_head :: "head_ref option"
  n_origin :: head_ref
  n_paddr :: int
  n_next :: int
  n_prev :: int

record utspace =
  ut_nodes :: "int \<rightharpoonup> ut_node"
  ut_heads :: "ut_pool \<Rightarrow> int list" \<comment> \<open>three arrays of \<^verbatim>\<open>CONFIG_WORD_SIZE\<close> pointers\<close>

record 'a ut_env =
  mem_alloc :: "'a \<Rightarrow> (int \<times> 'a) option" \<comment> \<open>\<^verbatim>\<open>allocman_mspace_alloc\<close> for a node; 0 on an error\<close>
  mem_free :: "'a \<Rightarrow> int \<Rightarrow> 'a option"
  slot_alloc :: "'a \<Rightarrow> (int \<times> cspacepath option \<times> 'a) option" \<comment> \<open>\<^verbatim>\<open>allocman_cspace_alloc\<close>\<close>
  slot_free :: "'a \<Rightarrow> cspacepath \<Rightarrow> 'a option"
  retype :: "'a \<Rightarrow> int \<Rightarrow> int \<Rightarrow> int \<Rightarrow> cspacepath \<Rightarrow> int \<times> 'a" \<comment> \<open>\<^verbatim>\<open>seL4_Untyped_Retype\<close>: untyped, type, size, slot\<close>
  cap_delete :: "'a \<Rightarrow> cspacepath \<Rightarrow> 'a" \<comment> \<open>\<^verbatim>\<open>vka_cnode_delete\<close>\<close>
  fresh_node :: "int \<Rightarrow> ut_node" \<comment> \<open>what the memory of a new node happens to contain\<close>

definition ALLOCMAN_NO_PADDR :: int where "ALLOCMAN_NO_PADDR = 1"
definition CONFIG_WORD_SIZE :: nat where "CONFIG_WORD_SIZE = 32"

definition get_head :: "utspace \<Rightarrow> head_ref \<Rightarrow> int option" where
  "get_head s h = (if snd h < CONFIG_WORD_SIZE then arr (ut_heads s (fst h)) (int (snd h)) else None)"

definition set_head :: "utspace \<Rightarrow> head_ref \<Rightarrow> int \<Rightarrow> utspace option" where
  "set_head s h p = map_option (\<lambda>xs. s\<lparr>ut_heads := (ut_heads s)(fst h := xs)\<rparr>) (arr_upd (ut_heads s (fst h)) (int (snd h)) p)"

definition nd_upd :: "utspace \<Rightarrow> int \<Rightarrow> (ut_node \<Rightarrow> ut_node) \<Rightarrow> utspace option" where
  "nd_upd s p f = map_option (\<lambda>n. s\<lparr>ut_nodes := (ut_nodes s)(p \<mapsto> f n)\<rparr>) (ut_nodes s p)"

subsection \<open>Nodes and lists\<close>

definition remove_node :: "utspace \<Rightarrow> head_ref \<Rightarrow> int \<Rightarrow> utspace option" where
  "remove_node s head node =
     do { n \<leftarrow> ut_nodes s node;
          s \<leftarrow> (if n_prev n \<noteq> 0 then nd_upd s (n_prev n) (\<lambda>m. m\<lparr>n_next := n_next n\<rparr>)
                 else do { h \<leftarrow> get_head s head; ok (h = node); set_head s head (n_next n) });
          n \<leftarrow> ut_nodes s node;
          s \<leftarrow> (if n_next n \<noteq> 0 then nd_upd s (n_next n) (\<lambda>m. m\<lparr>n_prev := n_prev n\<rparr>) else Some s);
          nd_upd s node (\<lambda>m. m\<lparr>n_head := Some head\<rparr>) }"

definition insert_node :: "utspace \<Rightarrow> head_ref \<Rightarrow> int \<Rightarrow> utspace option" where
  "insert_node s head node =
     do { h \<leftarrow> get_head s head;
          s \<leftarrow> nd_upd s node (\<lambda>m. m\<lparr>n_next := h, n_prev := 0\<rparr>);
          s \<leftarrow> (if h \<noteq> 0 then nd_upd s h (\<lambda>m. m\<lparr>n_prev := node\<rparr>) else Some s);
          s \<leftarrow> set_head s head node;
          nd_upd s node (\<lambda>m. m\<lparr>n_head := None\<rparr>) }"

definition new_node :: "'a ut_env \<Rightarrow> utspace \<Rightarrow> 'a \<Rightarrow> (int \<times> utspace \<times> 'a) option" where
  "new_node e s a =
     do { (node, a) \<leftarrow> mem_alloc e a;
          if node = 0 then Some (0, s, a)
          else do { (error, ut, a) \<leftarrow> slot_alloc e a;
                    if error \<noteq> 0 then do { a \<leftarrow> mem_free e a node; Some (0, s, a) }
                    else do { ut \<leftarrow> ut; Some (node, s\<lparr>ut_nodes := (ut_nodes s)(node \<mapsto> (fresh_node e node)\<lparr>n_ut := ut\<rparr>)\<rparr>, a) } } }"

definition delete_node :: "'a ut_env \<Rightarrow> utspace \<Rightarrow> 'a \<Rightarrow> int \<Rightarrow> (utspace \<times> 'a) option" where
  "delete_node e s a node =
     do { n \<leftarrow> ut_nodes s node;
          let a = cap_delete e a (n_ut n);
          a \<leftarrow> slot_free e a (n_ut n);
          a \<leftarrow> mem_free e a node;
          Some (s\<lparr>ut_nodes := (ut_nodes s)(node := None)\<rparr>, a) }"

definition insert_new_node :: "'a ut_env \<Rightarrow> utspace \<Rightarrow> 'a \<Rightarrow> head_ref \<Rightarrow> cspacepath \<Rightarrow> int \<Rightarrow> (int \<times> utspace \<times> 'a) option" where
  "insert_new_node e s a head ut paddr =
     do { (node, a) \<leftarrow> mem_alloc e a;
          if node = 0 then Some (1, s, a)
          else do { s \<leftarrow> insert_node (s\<lparr>ut_nodes := (ut_nodes s)(node \<mapsto>
                      (fresh_node e node)\<lparr>n_parent := 0, n_ut := ut, n_paddr := paddr, n_origin := head\<rparr>)\<rparr>) head node;
                    Some (0, s, a) } }"

definition utspace_split_create :: "utspace \<Rightarrow> utspace" where
  "utspace_split_create s = s\<lparr>ut_heads := (\<lambda>_. replicate CONFIG_WORD_SIZE 0)\<rparr>"

fun add_uts :: "'a ut_env \<Rightarrow> ut_pool \<Rightarrow> (cspacepath \<times> nat \<times> int) list \<Rightarrow> utspace \<Rightarrow> 'a \<Rightarrow> (int \<times> utspace \<times> 'a) option" where
  \<comment> \<open>the loop of \<^verbatim>\<open>_utspace_split_add_uts\<close>, over \<^verbatim>\<open>uts[i]\<close>, \<^verbatim>\<open>size_bits[i]\<close> and \<^verbatim>\<open>paddr ? paddr[i] : ALLOCMAN_NO_PADDR\<close>\<close>
  "add_uts e pool [] s a = Some (0, s, a)"
| "add_uts e pool ((ut, size_bits, paddr) # uts) s a =
     do { (error, s, a) \<leftarrow> insert_new_node e s a (pool, size_bits) ut paddr;
          if error \<noteq> 0 then Some (error, s, a) else add_uts e pool uts s a }"

definition utspace_split_add_uts ::
  "'a ut_env \<Rightarrow> utspace \<Rightarrow> 'a \<Rightarrow> (cspacepath \<times> nat \<times> int) list \<Rightarrow> int \<Rightarrow> (int \<times> utspace \<times> 'a) option" where
  "utspace_split_add_uts e s a uts utType =
     (if utType = 0 then add_uts e heads uts s a
      else if utType = 1 then add_uts e dev_heads uts s a
      else if utType = 2 then add_uts e dev_mem_heads uts s a
      else Some (- 1, s, a))"

subsection \<open>Splitting\<close>

definition ut_covers :: "int \<Rightarrow> nat \<Rightarrow> ut_node \<Rightarrow> bool" where
  "ut_covers paddr size_bits n \<longleftrightarrow> n_paddr n \<noteq> ALLOCMAN_NO_PADDR \<and> n_paddr n \<le> paddr \<and> paddr < u32 (n_paddr n + 2 ^ size_bits)"

partial_function (option) find_node :: "(ut_node \<Rightarrow> bool) \<Rightarrow> utspace \<Rightarrow> int \<Rightarrow> int option" where
  \<comment> \<open>the loops over a free list: the first node that passes the test, or 0\<close>
  "find_node P s node =
     (if node = 0 then Some 0
      else do { n \<leftarrow> ut_nodes s node; if P n then Some node else find_node P s (n_next n) })"

definition split_link :: "ut_pool \<Rightarrow> nat \<Rightarrow> int \<Rightarrow> int \<Rightarrow> int \<Rightarrow> utspace \<Rightarrow> utspace option" where
  \<comment> \<open>the end of \<^verbatim>\<open>_refill_pool\<close>, when both halves exist\<close>
  "split_link pool size_bits node left right s =
     do { s \<leftarrow> remove_node s (pool, size_bits + 1) node;
          n \<leftarrow> ut_nodes s node;
          let no = (n_paddr n = ALLOCMAN_NO_PADDR);
          s \<leftarrow> nd_upd s left (\<lambda>m. m\<lparr>n_parent := node, n_sibling := right, n_origin := (pool, size_bits),
                 n_paddr := (if no then ALLOCMAN_NO_PADDR else n_paddr n)\<rparr>);
          s \<leftarrow> nd_upd s right (\<lambda>m. m\<lparr>n_parent := node, n_sibling := left, n_origin := (pool, size_bits),
                 n_paddr := (if no then ALLOCMAN_NO_PADDR else u32 (n_paddr n + 2 ^ size_bits))\<rparr>);
          s \<leftarrow> insert_node s (pool, size_bits) right;
          insert_node s (pool, size_bits) left }"

definition split_node :: "'a ut_env \<Rightarrow> ut_pool \<Rightarrow> nat \<Rightarrow> int \<Rightarrow> utspace \<Rightarrow> 'a \<Rightarrow> (int \<times> utspace \<times> 'a) option" where
  \<comment> \<open>the second half of \<^verbatim>\<open>_refill_pool\<close>\<close>
  "split_node e pool size_bits node s a =
     do { (left, s, a) \<leftarrow> new_node e s a;
          if left = 0 then Some (1, s, a)
          else do {
            (right, s, a) \<leftarrow> new_node e s a;
            if right = 0 then do { (s, a) \<leftarrow> delete_node e s a left; Some (1, s, a) }
            else do {
              n \<leftarrow> ut_nodes s node;
              l \<leftarrow> ut_nodes s left;
              r \<leftarrow> ut_nodes s right;
              let (sel4_error, a) = retype e a (cp_capPtr (n_ut n)) 0 (int size_bits) (n_ut l);
              if sel4_error \<noteq> 0 then
                do { (s, a) \<leftarrow> delete_node e s a left; (s, a) \<leftarrow> delete_node e s a right; Some (1, s, a) }
              else
                let (sel4_error, a) = retype e a (cp_capPtr (n_ut n)) 0 (int size_bits) (n_ut r) in
                if sel4_error \<noteq> 0 then
                  do { let a = cap_delete e a (n_ut l);
                       (s, a) \<leftarrow> delete_node e s a left; (s, a) \<leftarrow> delete_node e s a right; Some (1, s, a) }
                else do { s \<leftarrow> split_link pool size_bits node left right s; Some (0, s, a) } } } }"

function refill_pool :: "'a ut_env \<Rightarrow> ut_pool \<Rightarrow> int \<Rightarrow> nat \<Rightarrow> utspace \<Rightarrow> 'a \<Rightarrow> (int \<times> utspace \<times> 'a) option" where
  "refill_pool e pool paddr size_bits s a =
     do { h \<leftarrow> get_head s (pool, size_bits);
          found \<leftarrow> (if paddr = ALLOCMAN_NO_PADDR then Some h else find_node (ut_covers paddr size_bits) s h);
          if found \<noteq> 0 then Some (0, s, a)
          else if size_bits \<ge> CONFIG_WORD_SIZE - 2 then Some (1, s, a)
          else do {
            (error, s, a) \<leftarrow> refill_pool e pool paddr (size_bits + 1) s a;
            if error \<noteq> 0 then Some (1, s, a)
            else do {
              h \<leftarrow> get_head s (pool, size_bits + 1);
              node \<leftarrow> (if paddr = ALLOCMAN_NO_PADDR then Some h
                        else do { node \<leftarrow> find_node (ut_covers paddr (size_bits + 1)) s h; ok (node \<noteq> 0); Some node });
              split_node e pool size_bits node s a } } }"
  by pat_completeness auto
termination by (relation "measure (\<lambda>(_, _, _, size_bits, _, _). CONFIG_WORD_SIZE - size_bits)") (auto simp: CONFIG_WORD_SIZE_def)

declare refill_pool.simps [simp del]

subsection \<open>Allocation and release\<close>

definition vka_get_object_size :: "int \<Rightarrow> int \<Rightarrow> int" where
  \<comment> \<open>for the 32-bit x86 kernel without IOMMU and VT-x; an unknown type gives \<^verbatim>\<open>-1\<close>\<close>
  "vka_get_object_size objectType objectSize =
     (if objectType = 0 then objectSize
      else if objectType = 1 then 11
      else if objectType = 2 then 4
      else if objectType = 3 then 4
      else if objectType = 4 then u32 (4 + objectSize)
      else if objectType = 5 then 12
      else if objectType = 6 then 22
      else if objectType = 7 then 12
      else if objectType = 8 then 12
      else if objectType = 16777215 then 12
      else if objectType = 4294967295 then 0
      else 4294967295)"

definition get_sel4_object_size :: "int \<Rightarrow> int \<Rightarrow> int" where
  "get_sel4_object_size type size_bits =
     (if type = 4 then u32 (size_bits - 4) else vka_get_object_size type size_bits)"

fun find_head_from :: "utspace \<Rightarrow> ut_pool \<Rightarrow> int \<Rightarrow> nat \<Rightarrow> nat list \<Rightarrow> bool option" where
  "find_head_from s pool paddr size_bits [] = Some False"
| "find_head_from s pool paddr size_bits (i # is) =
     do { h \<leftarrow> get_head s (pool, i);
          node \<leftarrow> find_node (\<lambda>n. n_paddr n \<noteq> ALLOCMAN_NO_PADDR \<and> n_paddr n \<le> paddr
                     \<and> u32 (paddr + 2 ^ size_bits) \<le> u32 (n_paddr n + u32 (2 ^ i))) s h;
          if node \<noteq> 0 then Some True else find_head_from s pool paddr size_bits is }"

definition find_head_for_paddr :: "utspace \<Rightarrow> ut_pool \<Rightarrow> int \<Rightarrow> nat \<Rightarrow> bool option" where
  \<comment> \<open>whether the result is \<^verbatim>\<open>head\<close> (the argument) or \<^verbatim>\<open>NULL\<close>\<close>
  "find_head_for_paddr s pool paddr size_bits = find_head_from s pool paddr size_bits [0..<CONFIG_WORD_SIZE]"

definition choose_at :: "'a ut_env \<Rightarrow> utspace \<Rightarrow> 'a \<Rightarrow> nat \<Rightarrow> int \<Rightarrow> bool \<Rightarrow> ((ut_pool \<times> int) option \<times> utspace \<times> 'a) option" where
  \<comment> \<open>the node for an object at a given address: which array, which node; \<^term>\<open>None\<close> inside is error 1\<close>
  "choose_at e s a size_bits paddr canBeDev =
     do { dev \<leftarrow> (if canBeDev then find_head_for_paddr s dev_heads paddr size_bits else Some False);
          devmem \<leftarrow> (if canBeDev \<and> \<not> dev then find_head_for_paddr s dev_mem_heads paddr size_bits else Some False);
          normal \<leftarrow> (if \<not> dev \<and> \<not> devmem then find_head_for_paddr s heads paddr size_bits else Some False);
          if \<not> dev \<and> \<not> devmem \<and> \<not> normal then Some (None, s, a)
          else do {
            let pool = (if dev then dev_heads else if devmem then dev_mem_heads else heads);
            (error, s, a) \<leftarrow> refill_pool e pool paddr size_bits s a;
            if error \<noteq> 0 then Some (None, s, a)
            else do { h \<leftarrow> get_head s (pool, size_bits);
                      node \<leftarrow> find_node (\<lambda>n. n_paddr n \<noteq> ALLOCMAN_NO_PADDR \<and> n_paddr n = paddr) s h;
                      ok (node \<noteq> 0);
                      Some (Some (pool, node), s, a) } } }"

definition choose_any :: "'a ut_env \<Rightarrow> utspace \<Rightarrow> 'a \<Rightarrow> nat \<Rightarrow> bool \<Rightarrow> ((ut_pool \<times> int) option \<times> utspace \<times> 'a) option" where
  "choose_any e s a size_bits canBeDev =
     do { (dev, s, a) \<leftarrow> (if canBeDev
            then do { (error, s, a) \<leftarrow> refill_pool e dev_mem_heads ALLOCMAN_NO_PADDR size_bits s a; Some (error = 0, s, a) }
            else Some (False, s, a));
          if dev then do { h \<leftarrow> get_head s (dev_mem_heads, size_bits); Some (Some (dev_mem_heads, h), s, a) }
          else do { (error, s, a) \<leftarrow> refill_pool e heads ALLOCMAN_NO_PADDR size_bits s a;
                    if error \<noteq> 0 then Some (None, s, a)
                    else do { h \<leftarrow> get_head s (heads, size_bits); Some (Some (heads, h), s, a) } } }"

definition utspace_split_alloc ::
  "'a ut_env \<Rightarrow> utspace \<Rightarrow> 'a \<Rightarrow> nat \<Rightarrow> int \<Rightarrow> cspacepath \<Rightarrow> int \<Rightarrow> bool \<Rightarrow> (int \<times> int \<times> utspace \<times> 'a) option" where
  \<comment> \<open>the cookie and \<^verbatim>\<open>*error\<close>\<close>
  "utspace_split_alloc e s a size_bits type slot paddr canBeDev =
     (let sel4_size_bits = get_sel4_object_size type (int size_bits) in
      if int size_bits \<noteq> vka_get_object_size type sel4_size_bits \<or> size_bits = 0 then Some (0, 1, s, a)
      else do {
        (node, s, a) \<leftarrow> (if paddr \<noteq> ALLOCMAN_NO_PADDR then choose_at e s a size_bits paddr canBeDev
                          else choose_any e s a size_bits canBeDev);
        case node of None \<Rightarrow> Some (0, 1, s, a)
        | Some (pool, node) \<Rightarrow>
            do { n \<leftarrow> ut_nodes s node;
                 let (sel4_error, a) = retype e a (cp_capPtr (n_ut n)) type sel4_size_bits slot;
                 if sel4_error \<noteq> 0 then Some (0, 1, s, a)
                 else do { s \<leftarrow> remove_node s (pool, size_bits) node; Some (node, 0, s, a) } } })"

partial_function (option) utspace_split_free :: "'a ut_env \<Rightarrow> utspace \<Rightarrow> 'a \<Rightarrow> int \<Rightarrow> (utspace \<times> 'a) option" where
  \<comment> \<open>the size is only passed on\<close>
  "utspace_split_free e s a node =
     do { n \<leftarrow> ut_nodes s node;
          let parent = n_parent n;
          sib_free \<leftarrow> (if parent = 0 then Some False else do { m \<leftarrow> ut_nodes s (n_sibling n); Some (n_head m = None) });
          if sib_free then
            do { m \<leftarrow> ut_nodes s (n_sibling n);
                 s \<leftarrow> remove_node s (n_origin m) (n_sibling n);
                 (s, a) \<leftarrow> delete_node e s a (n_sibling n);
                 (s, a) \<leftarrow> delete_node e s a node;
                 utspace_split_free e s a parent }
          else do { h \<leftarrow> n_head n; s \<leftarrow> insert_node s h node; Some (s, a) } }"

definition utspace_split_paddr :: "utspace \<Rightarrow> int \<Rightarrow> int option" where
  "utspace_split_paddr s cookie = map_option n_paddr (ut_nodes s cookie)"

subsection \<open>Doubly linked lists\<close>

fun seg :: "(int \<rightharpoonup> ut_node) \<Rightarrow> int \<Rightarrow> int \<Rightarrow> int list \<Rightarrow> bool" where
  \<comment> \<open>the list that starts at \<open>p\<close> has the nodes \<open>xs\<close>; before \<open>p\<close> comes \<open>prv\<close>\<close>
  "seg m p prv [] \<longleftrightarrow> p = 0"
| "seg m p prv (x # xs) \<longleftrightarrow> p = x \<and> x \<noteq> 0 \<and> (\<exists>n. m x = Some n \<and> n_prev n = prv \<and> seg m (n_next n) x xs)"

definition links :: "(int \<rightharpoonup> ut_node) \<Rightarrow> int \<Rightarrow> (int \<times> int) option" where
  "links m x = map_option (\<lambda>n. (n_next n, n_prev n)) (m x)"

lemma seg_cong: "(\<And>x. x \<in> set xs \<Longrightarrow> links m' x = links m x) \<Longrightarrow> seg m' p prv xs = seg m p prv xs"
proof (induction xs arbitrary: p prv)
  case (Cons x xs)
  have "links m' x = links m x" using Cons.prems by simp
  then have "(\<exists>n. m' x = Some n \<and> n_prev n = prv \<and> seg m (n_next n) x xs) = (\<exists>n. m x = Some n \<and> n_prev n = prv \<and> seg m (n_next n) x xs)"
    by (cases "m' x"; cases "m x") (auto simp: links_def)
  then show ?case using Cons.IH Cons.prems by simp
qed simp

lemma seg_nodes: "seg m p prv xs \<Longrightarrow> x \<in> set xs \<Longrightarrow> x \<noteq> 0 \<and> x \<in> dom m"
  by (induction xs arbitrary: p prv) auto

lemma seg_start: "seg m p prv xs \<Longrightarrow> p = (if xs = [] then 0 else hd xs)"
  by (cases xs) auto

lemma seg_at:
  assumes "seg m p prv (ys @ x # zs)"
  shows "\<exists>n. m x = Some n \<and> n_prev n = (if ys = [] then prv else last ys) \<and> n_next n = (if zs = [] then 0 else hd zs)"
  using assms
proof (induction ys arbitrary: p prv)
  case Nil
  then show ?case using seg_start by fastforce
qed auto

lemma seg_remove:
  assumes "seg m p prv (ys @ x # zs)" "distinct (ys @ x # zs)"
    "\<And>z n. z \<in> set (ys @ zs) \<Longrightarrow> m z = Some n \<Longrightarrow> \<exists>n'. m' z = Some n'
       \<and> n_next n' = (if ys \<noteq> [] \<and> z = last ys then if zs = [] then 0 else hd zs else n_next n)
       \<and> n_prev n' = (if zs \<noteq> [] \<and> z = hd zs then if ys = [] then prv else last ys else n_prev n)"
  shows "seg m' (if ys = [] then if zs = [] then 0 else hd zs else p) prv (ys @ zs)"
  using assms
proof (induction ys arbitrary: p prv)
  case Nil
  then obtain n where n: "m x = Some n" "seg m (n_next n) x zs" by auto
  show ?case
  proof (cases zs)
    case (Cons z zs')
    then obtain k where k: "m z = Some k" "seg m (n_next k) z zs'" "z \<noteq> 0" using n(2) by auto
    obtain k' where k': "m' z = Some k'" "n_next k' = n_next k" "n_prev k' = prv" using Nil.prems(3) [of z k] k(1) Cons by auto
    have "links m' w = links m w" if w: "w \<in> set zs'" for w
    proof -
      obtain kw where "m w = Some kw" using seg_nodes [OF k(2) w] by auto
      then show ?thesis using Nil.prems(2) Nil.prems(3) [of w kw] w Cons by (auto simp: links_def)
    qed
    then have "seg m' (n_next k') z zs'" using k(2) k'(2) seg_cong [of zs' m' m] by simp
    then show ?thesis using Cons k' k(3) by simp
  qed simp
next
  case (Cons y ys)
  then obtain n where n: "m y = Some n" "n_prev n = prv" "seg m (n_next n) y (ys @ x # zs)" "y \<noteq> 0" "p = y" by auto
  have y: "y \<noteq> x" "y \<notin> set ys" "y \<notin> set zs" using Cons.prems(2) by auto
  then have hz: "zs \<noteq> [] \<Longrightarrow> hd zs \<noteq> y" using hd_in_set by metis
  obtain n' where n': "m' y = Some n'" "n_prev n' = prv" "n_next n' = (if ys = [] then if zs = [] then 0 else hd zs else n_next n)"
    using Cons.prems(3) [of y n] n(1,2) y by (cases zs) (auto split: if_splits)
  have "seg m' (if ys = [] then if zs = [] then 0 else hd zs else n_next n) y (ys @ zs)"
  proof (rule Cons.IH [OF n(3)])
    fix z k assume "z \<in> set (ys @ zs)" "m z = Some k"
    then show "\<exists>n'. m' z = Some n' \<and> n_next n' = (if ys \<noteq> [] \<and> z = last ys then if zs = [] then 0 else hd zs else n_next k)
        \<and> n_prev n' = (if zs \<noteq> [] \<and> z = hd zs then if ys = [] then y else last ys else n_prev k)"
      using Cons.prems(3) [of z k] y hz by (cases "ys = []") auto
  qed (use Cons.prems(2) in simp)
  then show ?case using n n' by simp
qed

subsection \<open>The free lists\<close>

definition lists_ok :: "utspace \<Rightarrow> (head_ref \<Rightarrow> int list) \<Rightarrow> bool" where
  \<comment> \<open>\<open>fl\<close> has the nodes of each free list\<close>
  "lists_ok s fl \<longleftrightarrow> (\<forall>pool. length (ut_heads s pool) = CONFIG_WORD_SIZE)
     \<and> (\<forall>h. snd h < CONFIG_WORD_SIZE \<longrightarrow> (\<exists>p. get_head s h = Some p \<and> seg (ut_nodes s) p 0 (fl h)))
     \<and> (\<forall>h. distinct (fl h)) \<and> (\<forall>h. CONFIG_WORD_SIZE \<le> snd h \<longrightarrow> fl h = [])
     \<and> (\<forall>h h'. h \<noteq> h' \<longrightarrow> set (fl h) \<inter> set (fl h') = {})"

definition node_core :: "ut_node \<Rightarrow> cspacepath \<times> int \<times> int \<times> head_ref \<times> int" where
  "node_core n = (n_ut n, n_parent n, n_sibling n, n_origin n, n_paddr n)"

definition same_core :: "utspace \<Rightarrow> utspace \<Rightarrow> int set \<Rightarrow> bool" where
  \<comment> \<open>the two states have the same nodes, which differ in their links only, and in the field \<^verbatim>\<open>head\<close> of the nodes \<open>X\<close>\<close>
  "same_core s s' X \<longleftrightarrow> dom (ut_nodes s') = dom (ut_nodes s)
     \<and> (\<forall>x n n'. ut_nodes s x = Some n \<and> ut_nodes s' x = Some n' \<longrightarrow> node_core n' = node_core n \<and> (x \<notin> X \<longrightarrow> n_head n' = n_head n))"

lemma get_set_head:
  assumes "length (ut_heads s (fst h)) = CONFIG_WORD_SIZE" "snd h < CONFIG_WORD_SIZE"
  shows "\<exists>s'. set_head s h p = Some s' \<and> ut_nodes s' = ut_nodes s \<and> (\<forall>pool. length (ut_heads s' pool) = length (ut_heads s pool))
    \<and> get_head s' h = Some p \<and> (\<forall>h'. h' \<noteq> h \<longrightarrow> get_head s' h' = get_head s h')"
proof -
  let ?s = "s\<lparr>ut_heads := (ut_heads s)(fst h := (ut_heads s (fst h))[snd h := p])\<rparr>"
  have "set_head s h p = Some ?s" using assms by (simp add: set_head_def arr_upd_def)
  moreover have "get_head ?s h = Some p" using assms by (simp add: get_head_def arr_def)
  moreover have "get_head ?s h' = get_head s h'" if "h' \<noteq> h" for h'
    using that by (cases h; cases h') (auto simp: get_head_def arr_def nth_list_update)
  ultimately show ?thesis by (intro exI [of _ ?s]) auto
qed

lemma get_head_nodes [simp]: "get_head (s\<lparr>ut_nodes := m\<rparr>) h = get_head s h"
  by (simp add: get_head_def)

lemma nd_upd_at: "ut_nodes s p = Some n \<Longrightarrow> nd_upd s p f = Some (s\<lparr>ut_nodes := (ut_nodes s)(p \<mapsto> f n)\<rparr>)"
  by (simp add: nd_upd_def)

lemma lists_okD:
  assumes "lists_ok s fl"
  shows "length (ut_heads s pool) = CONFIG_WORD_SIZE" "distinct (fl h)" "x \<in> set (fl h) \<Longrightarrow> snd h < CONFIG_WORD_SIZE"
    "snd h < CONFIG_WORD_SIZE \<Longrightarrow> get_head s h = Some (if fl h = [] then 0 else hd (fl h))"
    "snd h < CONFIG_WORD_SIZE \<Longrightarrow> seg (ut_nodes s) (if fl h = [] then 0 else hd (fl h)) 0 (fl h)"
    "x \<in> set (fl h) \<Longrightarrow> x \<in> set (fl h') \<Longrightarrow> h' = h" "x \<in> set (fl h) \<Longrightarrow> x \<noteq> 0 \<and> x \<in> dom (ut_nodes s)"
proof -
  show l: "length (ut_heads s pool) = CONFIG_WORD_SIZE" "distinct (fl h)" using assms unfolding lists_ok_def by blast+
  show i: "snd h < CONFIG_WORD_SIZE" if "x \<in> set (fl h)" using assms that unfolding lists_ok_def by (metis empty_iff empty_set not_less)
  show "x \<in> set (fl h) \<Longrightarrow> x \<in> set (fl h') \<Longrightarrow> h' = h" using assms unfolding lists_ok_def by blast
  have e: "\<exists>p. get_head s h = Some p \<and> seg (ut_nodes s) p 0 (fl h)" if "snd h < CONFIG_WORD_SIZE" using assms that unfolding lists_ok_def by blast
  then show "get_head s h = Some (if fl h = [] then 0 else hd (fl h))" "seg (ut_nodes s) (if fl h = [] then 0 else hd (fl h)) 0 (fl h)"
    if "snd h < CONFIG_WORD_SIZE" using seg_start that by metis+
  show "x \<noteq> 0 \<and> x \<in> dom (ut_nodes s)" if "x \<in> set (fl h)" using e [OF i [OF that]] seg_nodes that by blast
qed

definition unlinked :: "(int \<rightharpoonup> ut_node) \<Rightarrow> int list \<Rightarrow> int \<Rightarrow> int list \<Rightarrow> head_ref \<Rightarrow> int \<rightharpoonup> ut_node" where
  \<comment> \<open>the nodes after \<^verbatim>\<open>_remove_node\<close> of \<open>x\<close> from the list \<open>ys @ x # zs\<close>\<close>
  "unlinked m ys x zs h z =
     (if z = x then map_option (\<lambda>k. k\<lparr>n_head := Some h\<rparr>) (m z)
      else map_option (\<lambda>k. k\<lparr>n_next := (if ys \<noteq> [] \<and> z = last ys then if zs = [] then 0 else hd zs else n_next k),
                            n_prev := (if zs \<noteq> [] \<and> z = hd zs then if ys = [] then 0 else last ys else n_prev k)\<rparr>) (m z))"

lemma unlinked_core:
  "unlinked m ys x zs h z = None \<longleftrightarrow> m z = None"
  "m z = Some n \<Longrightarrow> unlinked m ys x zs h z = Some n' \<Longrightarrow> node_core n' = node_core n"
  "m z = Some n \<Longrightarrow> unlinked m ys x zs h z = Some n' \<Longrightarrow> z \<noteq> x \<Longrightarrow> n_head n' = n_head n"
  by (cases "z = x"; auto simp: unlinked_def node_core_def)+

lemma remove_node_run:
  assumes "lists_ok s fl" "fl h = ys @ x # zs"
  shows "\<exists>s'. remove_node s h x = Some s' \<and> ut_nodes s' = unlinked (ut_nodes s) ys x zs h
    \<and> (\<forall>pool. length (ut_heads s' pool) = length (ut_heads s pool))
    \<and> get_head s' h = Some (if ys @ zs = [] then 0 else hd (ys @ zs)) \<and> (\<forall>h'. h' \<noteq> h \<longrightarrow> get_head s' h' = get_head s h')"
proof -
  let ?m = "ut_nodes s" and ?l = "if ys = [] then 0 else last ys" and ?r = "if zs = [] then 0 else hd zs"
  note d = lists_okD [OF assms(1)]
  have i: "snd h < CONFIG_WORD_SIZE" using d(3) [of x h] assms(2) by simp
  have dist: "distinct (ys @ x # zs)" using d(2) [of h] assms(2) by simp
  have nz: "z \<noteq> 0 \<and> z \<in> dom ?m" if "z \<in> set (ys @ x # zs)" for z using d(7) [of z h] that assms(2) by simp
  obtain n where n: "?m x = Some n" "n_prev n = ?l" "n_next n = ?r" using seg_at [of ?m _ 0 ys x zs] d(5) [OF i] assms(2) by auto
  have l: "last ys \<noteq> x \<and> last ys \<noteq> 0 \<and> last ys \<notin> set zs" if "ys \<noteq> []" using dist nz [of "last ys"] last_in_set [OF that] by auto
  have r: "hd zs \<noteq> x \<and> hd zs \<noteq> 0" if "zs \<noteq> []" using dist nz [of "hd zs"] hd_in_set [OF that] by auto
  obtain s1 where s1: "(if n_prev n \<noteq> 0 then nd_upd s (n_prev n) (\<lambda>m. m\<lparr>n_next := n_next n\<rparr>)
      else do { p \<leftarrow> get_head s h; ok (p = x); set_head s h (n_next n) }) = Some s1"
    "ut_nodes s1 = (if ys = [] then ?m else ?m(last ys \<mapsto> (the (?m (last ys)))\<lparr>n_next := ?r\<rparr>))"
    "\<forall>pool. length (ut_heads s1 pool) = length (ut_heads s pool)" "get_head s1 h = Some (if ys @ zs = [] then 0 else hd (ys @ zs))"
    "\<forall>h'. h' \<noteq> h \<longrightarrow> get_head s1 h' = get_head s h'"
  proof (cases "ys = []")
    case True
    then have "get_head s h = Some x" using d(4) [OF i] assms(2) by simp
    then show ?thesis using that get_set_head [OF d(1) i, of ?r] True n by (auto simp: ok_def)
  next
    case False
    then obtain k where k: "?m (last ys) = Some k" using nz [of "last ys"] last_in_set by auto
    have "get_head s h = Some (hd ys)" using d(4) [OF i] assms(2) False by simp
    then show ?thesis using that [of "s\<lparr>ut_nodes := ?m(last ys \<mapsto> k\<lparr>n_next := ?r\<rparr>)\<rparr>"] False n(2,3) k l
      by (simp add: nd_upd_at)
  qed
  have x1: "ut_nodes s1 x = Some n" using s1(2) n(1) l by auto
  have z1: "ut_nodes s1 (hd zs) = ?m (hd zs)" if "zs \<noteq> []" using s1(2) l hd_in_set [OF that] by auto
  let ?s2 = "if zs = [] then s1 else s1\<lparr>ut_nodes := (ut_nodes s1)(hd zs \<mapsto> (the (?m (hd zs)))\<lparr>n_prev := ?l\<rparr>)\<rparr>"
  have s2: "(if n_next n \<noteq> 0 then nd_upd s1 (n_next n) (\<lambda>m. m\<lparr>n_prev := n_prev n\<rparr>) else Some s1) = Some ?s2"
  proof (cases "zs = []")
    case False
    then obtain k where "?m (hd zs) = Some k" using nz [of "hd zs"] hd_in_set by auto
    then show ?thesis using False n(2,3) r z1 by (simp add: nd_upd_at)
  qed (use n(3) in simp)
  have x2: "ut_nodes ?s2 x = Some n" using x1 r by auto
  let ?s3 = "?s2\<lparr>ut_nodes := (ut_nodes ?s2)(x \<mapsto> n\<lparr>n_head := Some h\<rparr>)\<rparr>"
  have "remove_node s h x = Some ?s3"
    unfolding remove_node_def using n(1) s1(1) x1 s2 nd_upd_at [OF x2] by simp
  moreover have "ut_nodes ?s3 = unlinked ?m ys x zs h"
  proof
    fix z
    have lr: "ys \<noteq> [] \<Longrightarrow> zs \<noteq> [] \<Longrightarrow> last ys \<noteq> hd zs" using l hd_in_set by metis
    consider "z = x" | "z \<noteq> x" "ys \<noteq> [] \<and> z = last ys" | "z \<noteq> x" "zs \<noteq> [] \<and> z = hd zs" "\<not> (ys \<noteq> [] \<and> z = last ys)"
      | "z \<noteq> x" "\<not> (zs \<noteq> [] \<and> z = hd zs)" "\<not> (ys \<noteq> [] \<and> z = last ys)" by blast
    then show "ut_nodes ?s3 z = unlinked ?m ys x zs h z"
    proof cases
      case 1
      then show ?thesis using n(1) by (simp add: unlinked_def)
    next
      case 2
      then obtain k where "?m z = Some k" using nz [of z] last_in_set by fastforce
      then show ?thesis using 2 lr by (auto simp: unlinked_def s1(2))
    next
      case 3
      then obtain k where "?m z = Some k" using nz [of z] hd_in_set by fastforce
      then show ?thesis using 3 by (auto simp: unlinked_def)
    next
      case 4
      then show ?thesis by (cases "zs = []"; cases "ys = []"; cases "?m z") (simp_all add: unlinked_def s1(2))
    qed
  qed
  ultimately show ?thesis using s1(3-5) by (intro exI [of _ ?s3]) simp
qed

lemma lists_okI:
  assumes "\<And>pool. length (ut_heads s pool) = CONFIG_WORD_SIZE"
    "\<And>h. snd h < CONFIG_WORD_SIZE \<Longrightarrow> \<exists>p. get_head s h = Some p \<and> seg (ut_nodes s) p 0 (fl h)"
    "\<And>h. distinct (fl h)" "\<And>h. CONFIG_WORD_SIZE \<le> snd h \<Longrightarrow> fl h = []" "\<And>x h h'. x \<in> set (fl h) \<Longrightarrow> x \<in> set (fl h') \<Longrightarrow> h' = h"
  shows "lists_ok s fl"
  using assms unfolding lists_ok_def by blast

lemma remove_spec:
  assumes "lists_ok s fl" "x \<in> set (fl h)"
  shows "\<exists>s' n. remove_node s h x = Some s' \<and> lists_ok s' (fl(h := remove1 x (fl h))) \<and> same_core s s' {x}
    \<and> ut_nodes s' x = Some n \<and> n_head n = Some h"
proof -
  note d = lists_okD [OF assms(1)]
  obtain ys zs where yz: "fl h = ys @ x # zs" "x \<notin> set ys" using split_list_first [OF assms(2)] by blast
  obtain s' where s': "remove_node s h x = Some s'" "ut_nodes s' = unlinked (ut_nodes s) ys x zs h"
    "\<forall>pool. length (ut_heads s' pool) = length (ut_heads s pool)" "get_head s' h = Some (if ys @ zs = [] then 0 else hd (ys @ zs))"
    "\<forall>h'. h' \<noteq> h \<longrightarrow> get_head s' h' = get_head s h'" using remove_node_run [OF assms(1) yz(1)] by blast
  have r: "remove1 x (fl h) = ys @ zs" using yz by (simp add: remove1_append)
  have i: "snd h < CONFIG_WORD_SIZE" using d(3) assms(2) by blast
  have dist: "distinct (ys @ x # zs)" using d(2) [of h] yz(1) by simp
  have "seg (ut_nodes s') (if ys = [] then if zs = [] then 0 else hd zs else hd (ys @ x # zs)) 0 (ys @ zs)"
  proof (rule seg_remove [OF _ dist])
    show "seg (ut_nodes s) (hd (ys @ x # zs)) 0 (ys @ x # zs)" using d(5) [OF i] yz(1) by (auto split: if_splits)
    fix z k assume "z \<in> set (ys @ zs)" "ut_nodes s z = Some k"
    then show "\<exists>n'. ut_nodes s' z = Some n' \<and> n_next n' = (if ys \<noteq> [] \<and> z = last ys then if zs = [] then 0 else hd zs else n_next k)
        \<and> n_prev n' = (if zs \<noteq> [] \<and> z = hd zs then if ys = [] then 0 else last ys else n_prev k)"
      using dist by (auto simp: s'(2) unlinked_def)
  qed
  then have here: "seg (ut_nodes s') (if ys @ zs = [] then 0 else hd (ys @ zs)) 0 (ys @ zs)" by (cases ys) auto
  have "lists_ok s' (fl(h := remove1 x (fl h)))"
  proof (rule lists_okI)
    fix h' :: head_ref assume i': "snd h' < CONFIG_WORD_SIZE"
    show "\<exists>p. get_head s' h' = Some p \<and> seg (ut_nodes s') p 0 ((fl(h := remove1 x (fl h))) h')"
    proof (cases "h' = h")
      case False
      have "links (ut_nodes s') z = links (ut_nodes s) z" if z: "z \<in> set (fl h')" for z
      proof -
        have "z \<notin> set (ys @ x # zs)" using d(6) [of z h' h] False z yz(1) by auto
        then have "\<not> (ys \<noteq> [] \<and> z = last ys)" "\<not> (zs \<noteq> [] \<and> z = hd zs)" "z \<noteq> x" using last_in_set hd_in_set by auto
        then show ?thesis by (cases "ut_nodes s z"; cases "ys = []"; cases "zs = []") (auto simp: s'(2) unlinked_def links_def)
      qed
      then have "seg (ut_nodes s') p 0 (fl h') = seg (ut_nodes s) p 0 (fl h')" for p by (rule seg_cong)
      moreover have "get_head s' h' = get_head s h'" using s'(5) False by blast
      ultimately show ?thesis using d(4,5) [OF i'] False by simp
    qed (use s'(4) here r in simp)
  next
    fix k :: head_ref
    have sub: "set ((fl(h := remove1 x (fl h))) k) \<subseteq> set (fl k)" for k by (simp add: set_remove1_subset)
    show "(fl(h := remove1 x (fl h))) k = []" if k: "CONFIG_WORD_SIZE \<le> snd k"
    proof -
      have "set (fl k) = {}" using d(3) [of _ k] k by fastforce
      then have "set ((fl(h := remove1 x (fl h))) k) = {}" using sub [of k] by auto
      then show ?thesis by (simp only: set_empty)
    qed
    fix y k'
    assume "y \<in> set ((fl(h := remove1 x (fl h))) k)" "y \<in> set ((fl(h := remove1 x (fl h))) k')"
    then have "y \<in> set (fl k)" "y \<in> set (fl k')" using sub by blast+
    then show "k' = k" by (rule d(6))
  qed (use d(1,2) s'(3) in auto)
  moreover have "same_core s s' {x}"
    unfolding same_core_def s'(2) using unlinked_core [where h = h] by (auto simp: dom_def)
  moreover obtain n where "ut_nodes s x = Some n" using d(7) [OF assms(2)] by auto
  then have "ut_nodes s' x = Some (n\<lparr>n_head := Some h\<rparr>)" by (simp add: s'(2) unlinked_def)
  ultimately show ?thesis using s'(1) by auto
qed

definition linked :: "(int \<rightharpoonup> ut_node) \<Rightarrow> int \<Rightarrow> int list \<Rightarrow> int \<rightharpoonup> ut_node" where
  \<comment> \<open>the nodes after \<^verbatim>\<open>_insert_node\<close> of \<open>x\<close> before the list \<open>zs\<close>\<close>
  "linked m x zs z =
     (if z = x then map_option (\<lambda>k. k\<lparr>n_next := (if zs = [] then 0 else hd zs), n_prev := 0, n_head := None\<rparr>) (m z)
      else map_option (\<lambda>k. k\<lparr>n_prev := (if zs \<noteq> [] \<and> z = hd zs then x else n_prev k)\<rparr>) (m z))"

lemma insert_node_run:
  assumes "lists_ok s fl" "snd h < CONFIG_WORD_SIZE" "x \<in> dom (ut_nodes s)" "x \<notin> set (fl h)"
  shows "\<exists>s'. insert_node s h x = Some s' \<and> ut_nodes s' = linked (ut_nodes s) x (fl h)
    \<and> (\<forall>pool. length (ut_heads s' pool) = length (ut_heads s pool)) \<and> get_head s' h = Some x \<and> (\<forall>h'. h' \<noteq> h \<longrightarrow> get_head s' h' = get_head s h')"
proof -
  let ?m = "ut_nodes s" and ?z = "if fl h = [] then 0 else hd (fl h)"
  note d = lists_okD [OF assms(1)]
  obtain n where n: "?m x = Some n" using assms(3) by auto
  have h: "get_head s h = Some ?z" using d(4) [OF assms(2)] .
  have z: "hd (fl h) \<noteq> 0 \<and> hd (fl h) \<in> dom ?m \<and> hd (fl h) \<noteq> x" if "fl h \<noteq> []" using d(7) [of "hd (fl h)" h] hd_in_set [OF that] assms(4) by auto
  let ?n1 = "n\<lparr>n_next := ?z, n_prev := 0\<rparr>"
  let ?s1 = "s\<lparr>ut_nodes := ?m(x \<mapsto> ?n1)\<rparr>"
  let ?s2 = "if fl h = [] then ?s1 else s\<lparr>ut_nodes := ?m(x \<mapsto> ?n1, hd (fl h) \<mapsto> (the (?m (hd (fl h))))\<lparr>n_prev := x\<rparr>)\<rparr>"
  have s2: "(if ?z \<noteq> 0 then nd_upd ?s1 ?z (\<lambda>m. m\<lparr>n_prev := x\<rparr>) else Some ?s1) = Some ?s2"
    using z by (cases "fl h = []") (auto simp: nd_upd_at)
  have len: "length (ut_heads ?s2 (fst h)) = CONFIG_WORD_SIZE" using d(1) by simp
  obtain s3 where s3: "set_head ?s2 h x = Some s3" "ut_nodes s3 = ut_nodes ?s2" "\<forall>pool. length (ut_heads s3 pool) = length (ut_heads ?s2 pool)"
    "get_head s3 h = Some x" "\<forall>h'. h' \<noteq> h \<longrightarrow> get_head s3 h' = get_head ?s2 h'" using get_set_head [OF len assms(2)] by blast
  have x3: "ut_nodes s3 x = Some ?n1" using s3(2) z by auto
  let ?s4 = "s3\<lparr>ut_nodes := (ut_nodes s3)(x \<mapsto> ?n1\<lparr>n_head := None\<rparr>)\<rparr>"
  have "insert_node s h x = Some ?s4"
    unfolding insert_node_def using h nd_upd_at [OF n] s2 s3(1) nd_upd_at [OF x3] by simp
  moreover have "ut_nodes ?s4 = linked ?m x (fl h)"
  proof
    fix w show "ut_nodes ?s4 w = linked ?m x (fl h) w"
      using n z s3(2) by (cases "w = x"; cases "fl h = []"; cases "w = hd (fl h)"; cases "?m w") (auto simp: linked_def)
  qed
  moreover have "get_head ?s2 h' = get_head s h'" for h' by simp
  ultimately show ?thesis using s3(3-5) by (intro exI [of _ ?s4]) auto
qed

lemma insert_spec:
  assumes "lists_ok s fl" "snd h < CONFIG_WORD_SIZE" "x \<in> dom (ut_nodes s)" "x \<noteq> 0" "\<And>h'. x \<notin> set (fl h')"
  shows "\<exists>s' n. insert_node s h x = Some s' \<and> lists_ok s' (fl(h := x # fl h)) \<and> same_core s s' {x} \<and> ut_nodes s' x = Some n \<and> n_head n = None"
proof -
  note d = lists_okD [OF assms(1)]
  obtain s' where s': "insert_node s h x = Some s'" "ut_nodes s' = linked (ut_nodes s) x (fl h)"
    "\<forall>pool. length (ut_heads s' pool) = length (ut_heads s pool)" "get_head s' h = Some x" "\<forall>h'. h' \<noteq> h \<longrightarrow> get_head s' h' = get_head s h'"
    using insert_node_run [OF assms(1-3) assms(5)] by blast
  obtain n where n: "ut_nodes s x = Some n" using assms(3) by auto
  let ?z = "if fl h = [] then 0 else hd (fl h)"
  have x: "ut_nodes s' x = Some (n\<lparr>n_next := ?z, n_prev := 0, n_head := None\<rparr>)" by (simp add: s'(2) linked_def n)
  have keep: "links (ut_nodes s') z = links (ut_nodes s) z" if "z \<noteq> x" "\<not> (fl h \<noteq> [] \<and> z = hd (fl h))" for z
    using that by (cases "ut_nodes s z") (auto simp: s'(2) linked_def links_def)
  have "seg (ut_nodes s') ?z x (fl h)"
  proof (cases "fl h")
    case (Cons z zs)
    then obtain k where k: "ut_nodes s z = Some k" "seg (ut_nodes s) (n_next k) z zs" "z \<noteq> 0" using d(5) [OF assms(2)] by auto
    have "links (ut_nodes s') w = links (ut_nodes s) w" if "w \<in> set zs" for w
      using keep [of w] that d(2) [of h] assms(5) [of h] Cons by auto
    then have "seg (ut_nodes s') p q zs = seg (ut_nodes s) p q zs" for p q by (rule seg_cong)
    then have "seg (ut_nodes s') (n_next k) z zs" using k(2) by simp
    moreover have "ut_nodes s' z = Some (k\<lparr>n_prev := x\<rparr>)" using k(1) assms(5) [of h] Cons by (auto simp: s'(2) linked_def)
    ultimately show ?thesis using Cons k(3) by simp
  qed simp
  then have here: "seg (ut_nodes s') x 0 (x # fl h)" using x assms(4) by simp
  have "lists_ok s' (fl(h := x # fl h))"
  proof (rule lists_okI)
    fix h' :: head_ref assume i': "snd h' < CONFIG_WORD_SIZE"
    show "\<exists>p. get_head s' h' = Some p \<and> seg (ut_nodes s') p 0 ((fl(h := x # fl h)) h')"
    proof (cases "h' = h")
      case False
      have "links (ut_nodes s') z = links (ut_nodes s) z" if z: "z \<in> set (fl h')" for z
      proof (rule keep)
        show "z \<noteq> x" using z assms(5) by blast
        show "\<not> (fl h \<noteq> [] \<and> z = hd (fl h))" using d(6) [of z h' h] hd_in_set [of "fl h"] False z by blast
      qed
      then have "seg (ut_nodes s') p 0 (fl h') = seg (ut_nodes s) p 0 (fl h')" for p by (rule seg_cong)
      moreover have "get_head s' h' = get_head s h'" using s'(5) False by blast
      ultimately show ?thesis using d(4,5) [OF i'] False by simp
    qed (use s'(4) here in auto)
  next
    fix y h1 h2 assume "y \<in> set ((fl(h := x # fl h)) h1)" "y \<in> set ((fl(h := x # fl h)) h2)"
    then show "h2 = h1" using d(6) [of y h1 h2] assms(5) [of h1] assms(5) [of h2] by (auto split: if_splits)
  next
    fix k :: head_ref
    show "(fl(h := x # fl h)) k = []" if k: "CONFIG_WORD_SIZE \<le> snd k"
    proof -
      have "set (fl k) = {}" "k \<noteq> h" using d(3) [of _ k] k assms(2) by fastforce+
      then show ?thesis by simp
    qed
  qed (use d(1,2) s'(3) assms(5) in auto)
  moreover have "same_core s s' {x}"
    by (auto simp: same_core_def s'(2) linked_def node_core_def split: if_splits)
  ultimately show ?thesis using s'(1) x by auto
qed

subsection \<open>The trees of halves\<close>

definition inner :: "(int \<rightharpoonup> ut_node) \<Rightarrow> int \<Rightarrow> bool" where
  "inner m p \<longleftrightarrow> p \<noteq> 0 \<and> (\<exists>x n. m x = Some n \<and> n_parent n = p)"

definition leaf :: "(int \<rightharpoonup> ut_node) \<Rightarrow> int \<Rightarrow> ut_node \<Rightarrow> bool" where
  "leaf m x n \<longleftrightarrow> m x = Some n \<and> \<not> inner m x"

definition region :: "ut_node \<Rightarrow> int set" where
  "region n = {n_paddr n..<n_paddr n + 2 ^ snd (n_origin n)}"

definition halves :: "ut_node \<Rightarrow> ut_node \<Rightarrow> ut_node \<Rightarrow> bool" where
  \<comment> \<open>\<open>n\<close> and \<open>k\<close> are the halves of \<open>p\<close>\<close>
  "halves p n k \<longleftrightarrow> n_origin k = n_origin n \<and> n_origin p = (fst (n_origin n), Suc (snd (n_origin n)))
     \<and> (n_paddr n = n_paddr p \<and> n_paddr k = n_paddr p + 2 ^ snd (n_origin n) \<or> n_paddr k = n_paddr p \<and> n_paddr n = n_paddr p + 2 ^ snd (n_origin n))"

definition size_ok :: "ut_node \<Rightarrow> bool" where
  "size_ok n \<longleftrightarrow> 1 \<le> snd (n_origin n) \<and> snd (n_origin n) < CONFIG_WORD_SIZE \<and> 0 \<le> n_paddr n \<and> 2 ^ snd (n_origin n) dvd n_paddr n
     \<and> n_paddr n + 2 ^ snd (n_origin n) < 4294967296"

definition family :: "(int \<rightharpoonup> ut_node) \<Rightarrow> int \<Rightarrow> ut_node \<Rightarrow> bool" where
  \<comment> \<open>a node with a parent, and its other half\<close>
  "family m x n \<longleftrightarrow> (\<exists>p k. m (n_parent n) = Some p \<and> m (n_sibling n) = Some k \<and> n_sibling n \<noteq> x \<and> n_parent k = n_parent n \<and> n_sibling k = x \<and> halves p n k)"

definition tree_ok :: "(int \<rightharpoonup> ut_node) \<Rightarrow> int set \<Rightarrow> bool" where
  \<comment> \<open>the pieces that are not split do not overlap and make up the memory \<open>R\<close>\<close>
  "tree_ok m R \<longleftrightarrow> 0 \<notin> dom m \<and> (\<forall>x n. m x = Some n \<longrightarrow> size_ok n \<and> (n_head n = None \<and> \<not> inner m x \<or> n_head n = Some (n_origin n)))
     \<and> (\<forall>x n. m x = Some n \<and> n_parent n \<noteq> 0 \<longrightarrow> family m x n)
     \<and> (\<forall>x n z k. m x = Some n \<and> m z = Some k \<and> n_parent n \<noteq> 0 \<and> n_parent k = n_parent n \<longrightarrow> z = x \<or> z = n_sibling n)
     \<and> (\<forall>x n z k. leaf m x n \<and> leaf m z k \<and> x \<noteq> z \<longrightarrow> region n \<inter> region k = {})
     \<and> {y. \<exists>x n. leaf m x n \<and> y \<in> region n} = R"

lemma tree_okD:
  assumes "tree_ok m R"
  shows "m 0 = None" "m x = Some n \<Longrightarrow> size_ok n" "m x = Some n \<Longrightarrow> n_head n = None \<Longrightarrow> \<not> inner m x"
    "m x = Some n \<Longrightarrow> n_head n = None \<or> n_head n = Some (n_origin n)" "m x = Some n \<Longrightarrow> n_parent n \<noteq> 0 \<Longrightarrow> family m x n"
    "m x = Some n \<Longrightarrow> m z = Some k \<Longrightarrow> n_parent n \<noteq> 0 \<Longrightarrow> n_parent k = n_parent n \<Longrightarrow> z = x \<or> z = n_sibling n"
    "leaf m x n \<Longrightarrow> leaf m z k \<Longrightarrow> x \<noteq> z \<Longrightarrow> region n \<inter> region k = {}" "{y. \<exists>x n. leaf m x n \<and> y \<in> region n} = R"
  using assms unfolding tree_ok_def by (blast dest: domI)+

lemma tree_okI:
  assumes "m 0 = None" "\<And>x n. m x = Some n \<Longrightarrow> size_ok n" "\<And>x n. m x = Some n \<Longrightarrow> n_head n = None \<and> \<not> inner m x \<or> n_head n = Some (n_origin n)"
    "\<And>x n. m x = Some n \<Longrightarrow> n_parent n \<noteq> 0 \<Longrightarrow> family m x n"
    "\<And>x n z k. m x = Some n \<Longrightarrow> m z = Some k \<Longrightarrow> n_parent n \<noteq> 0 \<Longrightarrow> n_parent k = n_parent n \<Longrightarrow> z = x \<or> z = n_sibling n"
    "\<And>x n z k. leaf m x n \<Longrightarrow> leaf m z k \<Longrightarrow> x \<noteq> z \<Longrightarrow> region n \<inter> region k = {}" "{y. \<exists>x n. leaf m x n \<and> y \<in> region n} = R"
  shows "tree_ok m R"
  using assms unfolding tree_ok_def by (blast dest: domD)

lemma size_ok_paddr: "size_ok n \<Longrightarrow> n_paddr n \<noteq> 1"
proof
  assume s: "size_ok n" "n_paddr n = 1"
  then obtain i where "snd (n_origin n) = Suc i" unfolding size_ok_def by (metis Suc_le_D One_nat_def)
  then have "(2::int) dvd 1" using s unfolding size_ok_def by (metis dvd_def dvd_trans power_Suc)
  then show False by simp
qed

lemma halves_region:
  assumes "halves p n k"
  shows "region p = region n \<union> region k" "region n \<inter> region k = {}"
  using assms by (auto simp: halves_def region_def)

lemma inner_dom: "tree_ok m R \<Longrightarrow> inner m p \<Longrightarrow> p \<in> dom m"
  using tree_okD(5) [of m R] unfolding inner_def family_def by blast

lemma core_fields: "node_core n' = node_core n \<Longrightarrow> n_ut n' = n_ut n \<and> n_parent n' = n_parent n \<and> n_sibling n' = n_sibling n \<and> n_origin n' = n_origin n \<and> n_paddr n' = n_paddr n"
  by (simp add: node_core_def)

lemma tree_flip:
  \<comment> \<open>links do not matter; a piece may become free if it is not split\<close>
  assumes "tree_ok (ut_nodes s) R" "same_core s s' X"
    "\<And>x n'. x \<in> X \<Longrightarrow> ut_nodes s' x = Some n' \<Longrightarrow> n_head n' = None \<and> \<not> inner (ut_nodes s) x \<or> n_head n' = Some (n_origin n')"
  shows "tree_ok (ut_nodes s') R" "inner (ut_nodes s') p = inner (ut_nodes s) p"
proof -
  let ?m = "ut_nodes s" and ?m' = "ut_nodes s'"
  note d = tree_okD [OF assms(1)]
  have dm: "dom ?m' = dom ?m" using assms(2) by (simp add: same_core_def)
  have c: "\<exists>n. ?m z = Some n \<and> node_core k = node_core n \<and> (z \<notin> X \<longrightarrow> n_head k = n_head n)" if z: "?m' z = Some k" for z k
  proof -
    obtain n where "?m z = Some n" using z dm by (metis domD domI)
    then show ?thesis using assms(2) z by (auto simp: same_core_def)
  qed
  have b: "\<exists>k. ?m' z = Some k \<and> node_core k = node_core n" if z: "?m z = Some n" for z n
  proof -
    obtain k where "?m' z = Some k" using z dm by (metis domD domI)
    then show ?thesis using assms(2) z by (auto simp: same_core_def)
  qed
  have i: "inner ?m' q = inner ?m q" for q
  proof -
    have "(\<exists>z n. ?m' z = Some n \<and> n_parent n = q) = (\<exists>z n. ?m z = Some n \<and> n_parent n = q)"
      using b c core_fields by (intro iffI; (elim exE conjE)) metis+
    then show ?thesis by (simp add: inner_def)
  qed
  then show "inner ?m' p = inner ?m p" .
  have lf: "leaf ?m' z k \<Longrightarrow> \<exists>n. leaf ?m z n \<and> region k = region n" for z k
    using c [of z k] by (auto simp: leaf_def i region_def dest: core_fields)
  have lb: "leaf ?m z n \<Longrightarrow> \<exists>k. leaf ?m' z k \<and> region k = region n" for z n
    using b [of z n] by (auto simp: leaf_def i region_def dest: core_fields)
  show "tree_ok ?m' R"
  proof (rule tree_okI)
    show "?m' 0 = None" using d(1) dm by (metis domIff)
    show "{y. \<exists>x n. leaf ?m' x n \<and> y \<in> region n} = R" unfolding d(8) [symmetric] using lf lb by blast
    show "region n \<inter> region k = {}" if "leaf ?m' z n" "leaf ?m' w k" "z \<noteq> w" for z n w k using lf [OF that(1)] lf [OF that(2)] d(7) that(3) by metis
    fix z n assume z: "?m' z = Some n"
    obtain n0 where n0: "?m z = Some n0" "node_core n = node_core n0" "z \<notin> X \<longrightarrow> n_head n = n_head n0" using c [OF z] by blast
    note f = core_fields [OF n0(2)]
    show "size_ok n" using d(2) [OF n0(1)] f by (simp add: size_ok_def)
    show "n_head n = None \<and> \<not> inner ?m' z \<or> n_head n = Some (n_origin n)" using d(3,4) [OF n0(1)] n0(3) f assms(3) [of z n] z i by (cases "z \<in> X") auto
    show "family ?m' z n" if np: "n_parent n \<noteq> 0"
    proof -
      obtain p k where p: "?m (n_parent n0) = Some p" "?m (n_sibling n0) = Some k" "n_sibling n0 \<noteq> z" "n_parent k = n_parent n0" "n_sibling k = z" "halves p n0 k"
        using d(5) [OF n0(1)] np f unfolding family_def by auto
      obtain p' where p': "?m' (n_parent n) = Some p'" "node_core p' = node_core p" using b [OF p(1)] f by auto
      obtain k' where k': "?m' (n_sibling n) = Some k'" "node_core k' = node_core k" using b [OF p(2)] f by auto
      have "halves p' n k'" using p(6) core_fields [OF p'(2)] core_fields [OF k'(2)] f by (simp add: halves_def)
      then show ?thesis unfolding family_def using p(3-5) p'(1) k'(1) f core_fields [OF k'(2)] by auto
    qed
    fix w k assume w: "?m' w = Some k" and "n_parent n \<noteq> 0" "n_parent k = n_parent n"
    moreover obtain k0 where "?m w = Some k0" "n_parent k0 = n_parent k" using c [OF w] core_fields by metis
    ultimately show "w = z \<or> w = n_sibling n" using d(6) [OF n0(1), of w k0] f by simp
  qed
qed

lemma no_child:
  \<comment> \<open>nobody points to a node that does not exist\<close>
  assumes "tree_ok m R" "m l = None" "m x = Some n"
  shows "n_parent n = 0 \<or> n_parent n \<noteq> l" "n_parent n \<noteq> 0 \<Longrightarrow> n_sibling n \<noteq> l"
  using tree_okD(5) [OF assms(1,3)] assms(2) unfolding family_def by auto

lemma tree_split:
  assumes "tree_ok m R" "m p = Some n" "\<not> inner m p" "n_head n = Some (n_origin n)" "m l = None" "m r = None" "l \<noteq> r" "l \<noteq> 0" "r \<noteq> 0"
    "n_parent nl = p" "n_sibling nl = r" "n_parent nr = p" "n_sibling nr = l" "halves n nl nr" "size_ok nl" "size_ok nr"
    "n_head nl = Some (n_origin nl)" "n_head nr = Some (n_origin nr)"
  defines "m' \<equiv> m(l \<mapsto> nl, r \<mapsto> nr)"
  shows "tree_ok m' R" "\<not> inner m' l" "\<not> inner m' r" "inner m' z \<longleftrightarrow> inner m z \<or> z = p"
proof -
  note d = tree_okD [OF assms(1)]
  have p0: "p \<noteq> 0" "p \<noteq> l" "p \<noteq> r" using assms(2,5,6) d(1) by auto
  have old: "m' x = m x" if "x \<noteq> l" "x \<noteq> r" for x using that by (simp add: m'_def)
  have new: "m' l = Some nl" "m' r = Some nr" using assms(7) by (simp_all add: m'_def)
  have cases: "x = l \<and> k = nl \<or> x = r \<and> k = nr \<or> x \<noteq> l \<and> x \<noteq> r \<and> m x = Some k" if "m' x = Some k" for x k
    using that by (auto simp: m'_def split: if_splits)
  show i: "inner m' q \<longleftrightarrow> inner m q \<or> q = p" for q
    unfolding inner_def using new old cases assms(5,6,10,12) p0 by (metis option.distinct(1))
  have li: "\<not> inner m l" "\<not> inner m r" using inner_dom [OF assms(1)] assms(5,6) by auto
  then show "\<not> inner m' l" "\<not> inner m' r" using i p0 by auto
  have lp: "leaf m p n" using assms(2,3) by (simp add: leaf_def)
  have lf: "leaf m' x k \<longleftrightarrow> x = l \<and> k = nl \<or> x = r \<and> k = nr \<or> x \<noteq> p \<and> leaf m x k" for x k
    using li p0 assms(5,6) new unfolding leaf_def i by (cases "x = l"; cases "x = r") (auto simp: old)
  note hr = halves_region [OF assms(14)]
  show "tree_ok m' R"
  proof (rule tree_okI)
    show "m' 0 = None" using d(1) assms(8,9) by (simp add: m'_def)
    have "{y. \<exists>x n. leaf m' x n \<and> y \<in> region n} = {y. \<exists>x n. leaf m x n \<and> y \<in> region n}"
    proof (intro subset_antisym subsetI CollectI; (elim CollectE exE conjE))
      fix y x k assume "leaf m' x k" "y \<in> region k"
      then show "\<exists>x n. leaf m x n \<and> y \<in> region n" unfolding lf using lp hr(1) by blast
    next
      fix y x k assume y: "leaf m x k" "y \<in> region k"
      show "\<exists>x n. leaf m' x n \<and> y \<in> region n"
      proof (cases "x = p")
        case True
        then have "y \<in> region nl \<or> y \<in> region nr" using y hr(1) assms(2) by (auto simp: leaf_def)
        then show ?thesis unfolding lf by blast
      qed (use y lf in blast)
    qed
    then show "{y. \<exists>x n. leaf m' x n \<and> y \<in> region n} = R" using d(8) by simp
    show "region k \<inter> region j = {}" if kj: "leaf m' x k" "leaf m' z j" "x \<noteq> z" for x k z j
    proof -
      have o: "region n \<inter> region j = {}" if "w \<noteq> p" "leaf m w j" for w j using d(7) [OF lp that(2)] that(1) by simp
      have "region nl \<inter> region j = {}" "region nr \<inter> region j = {}" if "w \<noteq> p" "leaf m w j" for w j using o [OF that] hr(1) by auto
      then show ?thesis using kj hr(2) d(7) unfolding lf by blast
    qed
    fix x k assume x: "m' x = Some k"
    show "size_ok k" using cases [OF x] d(2) assms(15,16) by blast
    show "n_head k = None \<and> \<not> inner m' x \<or> n_head k = Some (n_origin k)" using cases [OF x] d(3,4) [of x k] assms(2,4,17,18) i by auto
    show "family m' x k" if k: "n_parent k \<noteq> 0"
    proof -
      consider "x = l" "k = nl" | "x = r" "k = nr" | "x \<noteq> l" "x \<noteq> r" "m x = Some k" using cases [OF x] by blast
      then show ?thesis
      proof cases
        case 1
        then show ?thesis using new old [of p] p0 assms(2,7,10-14) unfolding family_def by auto
      next
        case 2
        have "halves n nr nl" using assms(14) by (auto simp: halves_def)
        then show ?thesis using 2 new old [of p] p0 assms(2,7,10-13) unfolding family_def by auto
      next
        case 3
        then have f: "family m x k" using d(5) k by blast
        have "n_parent k \<noteq> l" "n_parent k \<noteq> r" "n_sibling k \<noteq> l" "n_sibling k \<noteq> r" using no_child [OF assms(1) _ 3(3)] assms(5,6) k by auto
        then show ?thesis using f old unfolding family_def by simp
      qed
    qed
    fix z j assume z: "m' z = Some j" and kj: "n_parent k \<noteq> 0" "n_parent j = n_parent k"
    have "n_parent y \<noteq> p" if "m w = Some y" for w y using that assms(3) p0 by (auto simp: inner_def)
    then show "z = x \<or> z = n_sibling k" using cases [OF x] cases [OF z] kj d(6) assms(10-13) by metis
  qed
qed

lemma tree_merge:
  assumes "tree_ok m R" "m x = Some n" "n_parent n \<noteq> 0" "\<not> inner m x" "\<not> inner m (n_sibling n)"
  defines "m' \<equiv> m(x := None, n_sibling n := None)"
  shows "tree_ok m' R" "\<not> inner m' (n_parent n)" "n_parent n \<noteq> x" "n_parent n \<noteq> n_sibling n"
    "\<exists>p. m (n_parent n) = Some p \<and> snd (n_origin p) = Suc (snd (n_origin n)) \<and> n_head p = Some (n_origin p)" "inner m' z \<longleftrightarrow> inner m z \<and> z \<noteq> n_parent n"
proof -
  note d = tree_okD [OF assms(1)]
  let ?y = "n_sibling n" and ?q = "n_parent n"
  obtain p k where pk: "m ?q = Some p" "m ?y = Some k" "?y \<noteq> x" "n_parent k = ?q" "n_sibling k = x" "halves p n k"
    using d(5) [OF assms(2,3)] unfolding family_def by blast
  have iq: "inner m ?q" using assms(2,3) by (auto simp: inner_def)
  then show qx: "?q \<noteq> x" "?q \<noteq> ?y" using assms(4,5) by auto
  show "\<exists>p. m ?q = Some p \<and> snd (n_origin p) = Suc (snd (n_origin n)) \<and> n_head p = Some (n_origin p)"
    using pk(1,6) d(3,4) [OF pk(1)] iq by (auto simp: halves_def)
  have m': "m' z = (if z = x \<or> z = ?y then None else m z)" for z by (simp add: m'_def)
  have kids: "z = x \<or> z = ?y" if "m z = Some j" "n_parent j = ?q" for z j using d(6) [OF assms(2) that(1) assms(3)] that(2) by blast
  show i: "inner m' z \<longleftrightarrow> inner m z \<and> z \<noteq> ?q" for z
  proof
    assume "inner m' z"
    then obtain w j where w: "m w = Some j" "n_parent j = z" "z \<noteq> 0" "w \<noteq> x" "w \<noteq> ?y" unfolding inner_def m' by (auto split: if_splits)
    then show "inner m z \<and> z \<noteq> ?q" using kids [OF w(1)] by (auto simp: inner_def)
  next
    assume z: "inner m z \<and> z \<noteq> ?q"
    then obtain w j where w: "m w = Some j" "n_parent j = z" "z \<noteq> 0" by (auto simp: inner_def)
    then have "w \<noteq> x" "w \<noteq> ?y" using z assms(2) pk(2,4) by auto
    then show "inner m' z" using w unfolding inner_def m' by auto
  qed
  then show "\<not> inner m' ?q" by simp
  have lx: "leaf m x n" "leaf m ?y k" using assms(2,4,5) pk(2) by (auto simp: leaf_def)
  have lf: "leaf m' z j \<longleftrightarrow> z = ?q \<and> j = p \<or> z \<noteq> x \<and> z \<noteq> ?y \<and> leaf m z j" for z j
    using iq pk(1) qx unfolding leaf_def i by (cases "z = ?q") (auto simp: m')
  note hr = halves_region [OF pk(6)]
  show "tree_ok m' R"
  proof (rule tree_okI)
    show "m' 0 = None" using d(1) by (simp add: m')
    have "{y. \<exists>x n. leaf m' x n \<and> y \<in> region n} = {y. \<exists>x n. leaf m x n \<and> y \<in> region n}"
    proof (intro subset_antisym subsetI CollectI; (elim CollectE exE conjE))
      fix y z j assume "leaf m' z j" "y \<in> region j"
      then show "\<exists>x n. leaf m x n \<and> y \<in> region n" unfolding lf using lx hr(1) by blast
    next
      fix y z j assume y: "leaf m z j" "y \<in> region j"
      show "\<exists>x n. leaf m' x n \<and> y \<in> region n"
      proof (cases "z = x \<or> z = ?y")
        case True
        then have "j = n \<or> j = k" using y(1) assms(2) pk(2) by (auto simp: leaf_def)
        then have "y \<in> region p" using y(2) hr(1) by blast
        then show ?thesis unfolding lf by blast
      qed (use y lf in blast)
    qed
    then show "{y. \<exists>x n. leaf m' x n \<and> y \<in> region n} = R" using d(8) by simp
    have o: "region p \<inter> region j = {}" if "z \<noteq> x" "z \<noteq> ?y" "leaf m z j" for z j
      using d(7) [OF lx(1) that(3)] d(7) [OF lx(2) that(3)] that(1,2) hr(1) by auto
    show "region u \<inter> region v = {}" if uv: "leaf m' w u" "leaf m' z v" "w \<noteq> z" for w u z v
      using uv d(7) [of w u z v] o [of w u] o [of z v] unfolding lf by (elim disjE conjE) auto
    fix z j assume z: "m' z = Some j"
    then have zm: "m z = Some j" "z \<noteq> x" "z \<noteq> ?y" by (auto simp: m' split: if_splits)
    show "size_ok j" using d(2) zm(1) by blast
    show "n_head j = None \<and> \<not> inner m' z \<or> n_head j = Some (n_origin j)" using d(3,4) [OF zm(1)] by (auto simp: i)
    show "family m' z j" if j: "n_parent j \<noteq> 0"
    proof -
      obtain a b where f: "m (n_parent j) = Some a" "m (n_sibling j) = Some b" "n_sibling j \<noteq> z" "n_parent b = n_parent j" "n_sibling b = z" "halves a j b"
        using d(5) [OF zm(1) j] unfolding family_def by blast
      have "n_parent j \<noteq> x" "n_parent j \<noteq> ?y" using assms(4,5) zm(1) j by (auto simp: inner_def)
      moreover have "n_sibling j \<noteq> x" "n_sibling j \<noteq> ?y" using f(2,4,5) assms(2) pk(2,5) zm(2,3) by auto
      ultimately show ?thesis using f unfolding family_def m' by auto
    qed
    fix w b assume "m' w = Some b" "n_parent j \<noteq> 0" "n_parent b = n_parent j"
    then show "w = z \<or> w = n_sibling j" using d(6) [OF zm(1), of w b] by (auto simp: m' split: if_splits)
  qed
qed

lemma tree_root:
  assumes "tree_ok m R" "m x = None" "x \<noteq> 0" "n_parent n = 0" "size_ok n" "n_head n = Some (n_origin n)" "region n \<inter> R = {}"
  shows "tree_ok (m(x \<mapsto> n)) (R \<union> region n)" "\<not> inner (m(x \<mapsto> n)) x" "inner (m(x \<mapsto> n)) q = inner m q"
proof -
  let ?m = "m(x \<mapsto> n)"
  note d = tree_okD [OF assms(1)]
  show i: "inner ?m q = inner m q" for q
  proof -
    have "(\<exists>z j. ?m z = Some j \<and> n_parent j = q) = (\<exists>z j. m z = Some j \<and> n_parent j = q)" if "q \<noteq> 0"
      using assms(2,4) that by (metis fun_upd_apply option.distinct(1) option.inject)
    then show ?thesis unfolding inner_def by blast
  qed
  have xi: "\<not> inner m x" using inner_dom [OF assms(1)] assms(2) by auto
  then show "\<not> inner ?m x" using i by simp
  have lf: "leaf ?m z j \<longleftrightarrow> z = x \<and> j = n \<or> z \<noteq> x \<and> leaf m z j" for z j using xi by (auto simp: leaf_def i)
  have sub: "region j \<subseteq> R" if "leaf m z j" for z j using d(8) that by blast
  show "tree_ok ?m (R \<union> region n)"
  proof (rule tree_okI)
    have "z \<noteq> x" if "leaf m z j" for z j using that assms(2) by (auto simp: leaf_def)
    then show "{y. \<exists>z j. leaf ?m z j \<and> y \<in> region j} = R \<union> region n" unfolding lf d(8) [symmetric] by blast
    show "region u \<inter> region v = {}" if "leaf ?m w u" "leaf ?m z v" "w \<noteq> z" for w u z v
      using that d(7) sub assms(7) unfolding lf by blast
    fix z j assume z: "?m z = Some j"
    show "size_ok j" using z d(2) assms(5) by (auto split: if_splits)
    show "n_head j = None \<and> \<not> inner ?m z \<or> n_head j = Some (n_origin j)" using z d(3,4) [of z j] assms(6) by (auto simp: i split: if_splits)
    show "family ?m z j" if j: "n_parent j \<noteq> 0"
    proof -
      have "m z = Some j" "z \<noteq> x" using z j assms(4) by (auto split: if_splits)
      then show ?thesis using d(5) [of z j] no_child [OF assms(1,2), of z j] j unfolding family_def by auto
    qed
    fix w b assume "?m w = Some b" "n_parent j \<noteq> 0" "n_parent b = n_parent j"
    then show "w = z \<or> w = n_sibling j" using z d(6) [of z j w b] assms(4) by (auto split: if_splits)
  qed (use d(1) assms(3) in simp)
qed

lemma same_core_dom: "same_core s s' X \<Longrightarrow> dom (ut_nodes s') = dom (ut_nodes s)"
  by (simp add: same_core_def)

lemma same_core_refl: "same_core s s X"
  by (auto simp: same_core_def)

lemma same_core_trans:
  assumes "same_core s s1 X" "same_core s1 s2 Y"
  shows "same_core s s2 (X \<union> Y)"
  unfolding same_core_def
proof (intro conjI allI impI)
  show "dom (ut_nodes s2) = dom (ut_nodes s)" using assms by (simp add: same_core_def)
  fix x n n2 assume n: "ut_nodes s x = Some n \<and> ut_nodes s2 x = Some n2"
  then obtain n1 where n1: "ut_nodes s1 x = Some n1" using assms(1) unfolding same_core_def by (metis domD domI)
  show "node_core n2 = node_core n" using assms n n1 unfolding same_core_def by metis
  show "n_head n2 = n_head n" if "x \<notin> X \<union> Y" using assms n n1 that unfolding same_core_def by (metis UnCI)
qed

lemma lists_ok_nodes:
  assumes "lists_ok s fl" "\<And>h x. x \<in> set (fl h) \<Longrightarrow> links m x = links (ut_nodes s) x"
  shows "lists_ok (s\<lparr>ut_nodes := m\<rparr>) fl"
proof (rule lists_okI)
  note d = lists_okD [OF assms(1)]
  fix h :: head_ref assume i: "snd h < CONFIG_WORD_SIZE"
  have "seg m p q (fl h) = seg (ut_nodes s) p q (fl h)" for p q by (rule seg_cong) (use assms(2) in blast)
  then show "\<exists>p. get_head (s\<lparr>ut_nodes := m\<rparr>) h = Some p \<and> seg (ut_nodes (s\<lparr>ut_nodes := m\<rparr>)) p 0 (fl h)" using d(4,5) [OF i] by simp
next
  note d = lists_okD [OF assms(1)]
  fix h :: head_ref
  show "fl h = []" if "CONFIG_WORD_SIZE \<le> snd h"
  proof -
    have "set (fl h) = {}" using d(3) [of _ h] that by fastforce
    then show ?thesis by simp
  qed
  show "\<And>y h'. y \<in> set (fl h) \<Longrightarrow> y \<in> set (fl h') \<Longrightarrow> h' = h" using d(6) by blast
qed (use lists_okD(1,2) [OF assms(1)] in auto)

definition ut_inv :: "utspace \<Rightarrow> (head_ref \<Rightarrow> int list) \<Rightarrow> int set \<Rightarrow> bool" where
  \<comment> \<open>trees and free lists agree\<close>
  "ut_inv s fl R \<longleftrightarrow> lists_ok s fl \<and> tree_ok (ut_nodes s) R
     \<and> (\<forall>h x. x \<in> set (fl h) \<longleftrightarrow> (\<exists>n. ut_nodes s x = Some n \<and> n_head n = None \<and> n_origin n = h))"

definition used :: "(int \<rightharpoonup> ut_node) \<Rightarrow> int set" where
  \<comment> \<open>the pieces that are handed out\<close>
  "used m = {x. \<exists>n. leaf m x n \<and> n_head n \<noteq> None}"

definition untouched :: "utspace \<Rightarrow> utspace \<Rightarrow> bool" where
  \<comment> \<open>the same pieces are handed out\<close>
  "untouched s s' \<longleftrightarrow> used (ut_nodes s') = used (ut_nodes s)
     \<and> (\<forall>x\<in>used (ut_nodes s). node_core (the (ut_nodes s' x)) = node_core (the (ut_nodes s x)))"

lemma untouched_refl: "untouched s s"
  by (simp add: untouched_def)

lemma untouched_trans: "untouched s s1 \<Longrightarrow> untouched s1 s2 \<Longrightarrow> untouched s s2"
  by (simp add: untouched_def)

definition slots :: "(int \<rightharpoonup> ut_node) \<Rightarrow> int set" where
  \<comment> \<open>the slots that belong to the allocator: those of the halves\<close>
  "slots m = {c. \<exists>x n. m x = Some n \<and> n_parent n \<noteq> 0 \<and> c = cp_capPtr (n_ut n)}"

definition slots_inj :: "(int \<rightharpoonup> ut_node) \<Rightarrow> bool" where
  "slots_inj m \<longleftrightarrow> (\<forall>x n z k. m x = Some n \<and> n_parent n \<noteq> 0 \<and> m z = Some k \<and> n_parent k \<noteq> 0 \<and> cp_capPtr (n_ut n) = cp_capPtr (n_ut k) \<longrightarrow> x = z)"

lemma ut_invD:
  assumes "ut_inv s fl R"
  shows "lists_ok s fl" "tree_ok (ut_nodes s) R" "x \<in> set (fl h) \<longleftrightarrow> (\<exists>n. ut_nodes s x = Some n \<and> n_head n = None \<and> n_origin n = h)"
  using assms unfolding ut_inv_def by blast+

lemma same_coreD:
  assumes "same_core s s' X" "ut_nodes s x = Some n"
  shows "\<exists>n'. ut_nodes s' x = Some n' \<and> node_core n' = node_core n \<and> (x \<notin> X \<longrightarrow> n_head n' = n_head n)"
proof -
  obtain n' where "ut_nodes s' x = Some n'" using assms unfolding same_core_def by (metis domD domI)
  then show ?thesis using assms by (auto simp: same_core_def)
qed

lemma same_core_sub:
  \<comment> \<open>nodes that only one of the states has are left out\<close>
  assumes "same_core (s\<lparr>ut_nodes := (ut_nodes s)(l \<mapsto> gl, r \<mapsto> gr)\<rparr>) s' X" "l \<notin> dom (ut_nodes s)" "r \<notin> dom (ut_nodes s)"
  shows "same_core s (s'\<lparr>ut_nodes := (ut_nodes s')(l := None, r := None)\<rparr>) X"
proof -
  let ?s2 = "s\<lparr>ut_nodes := (ut_nodes s)(l \<mapsto> gl, r \<mapsto> gr)\<rparr>"
  have d: "dom (ut_nodes s') = insert r (insert l (dom (ut_nodes s)))" using assms(1) by (simp add: same_core_def)
  have "dom ((ut_nodes s')(l := None, r := None)) = dom (ut_nodes s)" using d assms(2,3) by auto
  moreover have "node_core n' = node_core n \<and> (x \<notin> X \<longrightarrow> n_head n' = n_head n)"
    if "ut_nodes s x = Some n" "((ut_nodes s')(l := None, r := None)) x = Some n'" for x n n'
  proof -
    have "ut_nodes ?s2 x = Some n" "ut_nodes s' x = Some n'" using that assms(2,3) by (auto split: if_splits)
    then show ?thesis using same_coreD [OF assms(1)] by fastforce
  qed
  ultimately show ?thesis unfolding same_core_def by (simp del: fun_upd_apply dom_fun_upd) blast
qed

lemma free_node:
  assumes "ut_inv s fl R" "x \<in> set (fl h)"
  obtains n where "ut_nodes s x = Some n" "n_head n = None" "n_origin n = h" "\<not> inner (ut_nodes s) x" "size_ok n" "x \<noteq> 0"
proof -
  note u = ut_invD [OF assms(1)]
  obtain n where n: "ut_nodes s x = Some n" "n_head n = None" "n_origin n = h" using u(3) assms(2) by blast
  then show ?thesis using that tree_okD(2,3) [OF u(2) n(1)] lists_okD(7) [OF u(1) assms(2)] by blast
qed

lemma split_link_spec:
  fixes gl gr s l r
  assumes u: "ut_inv s fl R" "node \<in> set (fl (pool, Suc i))" "1 \<le> i" and lr: "l \<notin> dom (ut_nodes s)" "r \<notin> dom (ut_nodes s)" "l \<noteq> r" "l \<noteq> 0" "r \<noteq> 0"
  defines "s2 \<equiv> s\<lparr>ut_nodes := (ut_nodes s)(l \<mapsto> gl, r \<mapsto> gr)\<rparr>"
  obtains s6 nl nr n where "split_link pool i node l r s2 = Some s6"
    "ut_inv s6 (fl((pool, Suc i) := remove1 node (fl (pool, Suc i)), (pool, i) := l # r # fl (pool, i))) R"
    "ut_nodes s node = Some n" "ut_nodes s6 l = Some nl" "ut_nodes s6 r = Some nr" "n_ut nl = n_ut gl" "n_ut nr = n_ut gr" "n_parent nl = node" "n_parent nr = node"
    "n_paddr nl = n_paddr n" "n_paddr nr = n_paddr n + 2 ^ i"
    "same_core s (s6\<lparr>ut_nodes := (ut_nodes s6)(l := None, r := None)\<rparr>) {node}"
    "untouched s s6"
proof -
  let ?m = "ut_nodes s" and ?H = "(pool, Suc i)" and ?h = "(pool, i)"
  let ?fl3 = "fl(?H := remove1 node (fl ?H))"
  let ?fl6 = "fl(?H := remove1 node (fl ?H), ?h := l # r # fl ?h)"
  note inv = ut_invD [OF u(1)]
  obtain n where n: "?m node = Some n" "n_head n = None" "n_origin n = ?H" "\<not> inner ?m node" "size_ok n" "node \<noteq> 0" using free_node [OF u(1,2)] by blast
  have infl: "x \<in> dom ?m" "x \<noteq> l" "x \<noteq> r" if "x \<in> set (fl h)" for x h using lists_okD(7) [OF inv(1) that] lr(1,2) by auto
  have nlr: "node \<noteq> l" "node \<noteq> r" using infl u(2) by blast+
  have iw: "i < CONFIG_WORD_SIZE" "Suc i < CONFIG_WORD_SIZE" using n(3,5) by (auto simp: size_ok_def)
  have l2: "lists_ok s2 fl" unfolding s2_def by (rule lists_ok_nodes [OF inv(1)]) (use infl in \<open>simp add: links_def\<close>)
  obtain s3 n3 where s3: "remove_node s2 ?H node = Some s3" "lists_ok s3 ?fl3" "same_core s2 s3 {node}" "ut_nodes s3 node = Some n3" "n_head n3 = Some ?H"
    using remove_spec [OF l2 u(2)] by blast
  have s2n: "ut_nodes s2 l = Some gl" "ut_nodes s2 r = Some gr" "ut_nodes s2 node = Some n" using lr(3) nlr n(1) by (auto simp: s2_def)
  obtain gl3 where gl3: "ut_nodes s3 l = Some gl3" "node_core gl3 = node_core gl" using same_coreD [OF s3(3) s2n(1)] by blast
  obtain gr3 where gr3: "ut_nodes s3 r = Some gr3" "node_core gr3 = node_core gr" using same_coreD [OF s3(3) s2n(2)] by blast
  have n3: "node_core n3 = node_core n" using same_coreD [OF s3(3) s2n(3)] s3(4) by auto
  note f3 = core_fields [OF n3]
  have pw: "0 \<le> n_paddr n" "n_paddr n + 2 * 2 ^ i < 4294967296" "n_paddr n \<noteq> 1" "(2::int) * 2 ^ i dvd n_paddr n"
    using n(3,5) size_ok_paddr [OF n(5)] by (auto simp: size_ok_def)
  have pb: "n_paddr n + 2 ^ i < 4294967296" using pw(2) zero_less_power [of "2::int" i] by linarith
  have pu: "u32 (n_paddr n + 2 ^ i) = n_paddr n + 2 ^ i" using pw(1,2) zero_less_power [of "2::int" i] by (intro u32_id) linarith+
  define nl4 where "nl4 = gl3\<lparr>n_parent := node, n_sibling := r, n_origin := ?h, n_paddr := n_paddr n\<rparr>"
  define nr4 where "nr4 = gr3\<lparr>n_parent := node, n_sibling := l, n_origin := ?h, n_paddr := n_paddr n + 2 ^ i\<rparr>"
  define s4 where "s4 = s3\<lparr>ut_nodes := (ut_nodes s3)(l \<mapsto> nl4, r \<mapsto> nr4)\<rparr>"
  have sub: "set (?fl3 h) \<subseteq> set (fl h)" for h by (simp add: set_remove1_subset)
  have l4: "lists_ok s4 ?fl3" unfolding s4_def
  proof (rule lists_ok_nodes [OF s3(2)])
    fix h x assume "x \<in> set (?fl3 h)"
    then have "x \<in> set (fl h)" using sub by blast
    then show "links ((ut_nodes s3)(l \<mapsto> nl4, r \<mapsto> nr4)) x = links (ut_nodes s3) x" using infl(2,3) by (simp add: links_def)
  qed
  have d4: "l \<in> dom (ut_nodes s4)" "r \<in> dom (ut_nodes s4)" by (auto simp: s4_def)
  have nin: "r \<notin> set (?fl3 h)" "l \<notin> set (?fl3 h)" for h using sub [of h] infl(2,3) [of _ h] by blast+
  have "snd ?h < CONFIG_WORD_SIZE" using iw(1) by simp
  note ins = insert_spec [OF l4 this d4(2) lr(5) nin(1)]
  obtain s5 n5 where s5: "insert_node s4 ?h r = Some s5" "lists_ok s5 (?fl3(?h := r # ?fl3 ?h))" "same_core s4 s5 {r}" "ut_nodes s5 r = Some n5" "n_head n5 = None"
    using ins by blast
  have d5: "l \<in> dom (ut_nodes s5)" using d4(1) same_core_dom [OF s5(3)] by simp
  have nin5: "l \<notin> set ((?fl3(?h := r # ?fl3 ?h)) h)" for h using nin(2) [of h] nin(2) [of ?h] lr(3) by (cases "h = ?h") auto
  obtain s6 n6 where s6: "insert_node s5 ?h l = Some s6" "lists_ok s6 ((?fl3(?h := r # ?fl3 ?h))(?h := l # (?fl3(?h := r # ?fl3 ?h)) ?h))"
    "same_core s5 s6 {l}" "ut_nodes s6 l = Some n6" "n_head n6 = None"
    using insert_spec [OF s5(2) \<open>snd ?h < CONFIG_WORD_SIZE\<close> d5 lr(4) nin5] by blast
  have fl6: "(?fl3(?h := r # ?fl3 ?h))(?h := l # (?fl3(?h := r # ?fl3 ?h)) ?h) = ?fl6" by (simp add: fun_eq_iff)
  have run: "split_link pool i node l r s2 = Some s6"
  proof -
    have "nd_upd s3 l (\<lambda>m. m\<lparr>n_parent := node, n_sibling := r, n_origin := ?h, n_paddr := n_paddr n\<rparr>) = Some (s3\<lparr>ut_nodes := (ut_nodes s3)(l \<mapsto> nl4)\<rparr>)"
      unfolding nl4_def by (rule nd_upd_at [OF gl3(1)])
    moreover have "ut_nodes (s3\<lparr>ut_nodes := (ut_nodes s3)(l \<mapsto> nl4)\<rparr>) r = Some gr3" using gr3(1) lr(3) by simp
    then have "nd_upd (s3\<lparr>ut_nodes := (ut_nodes s3)(l \<mapsto> nl4)\<rparr>) r (\<lambda>m. m\<lparr>n_parent := node, n_sibling := l, n_origin := ?h, n_paddr := n_paddr n + 2 ^ i\<rparr>) = Some s4"
      unfolding s4_def nr4_def by (subst nd_upd_at) auto
    ultimately show ?thesis unfolding split_link_def using s3(1,4) f3 pw(3) pu s5(1) s6(1) by (simp add: ALLOCMAN_NO_PADDR_def Let_def)
  qed
  have c46: "same_core s4 s6 {l, r}" using same_core_trans [OF s5(3) s6(3)] by (simp add: insert_commute)
  have n4: "ut_nodes s4 l = Some nl4" "ut_nodes s4 r = Some nr4" using lr(3) by (auto simp: s4_def)
  obtain nr where nr: "ut_nodes s6 r = Some nr" "node_core nr = node_core nr4" "n_head nr = None"
    using same_coreD [OF c46 n4(2)] same_coreD [OF s6(3) s5(4)] s5(5) lr(3) by auto
  have nl: "node_core n6 = node_core nl4" using same_coreD [OF c46 n4(1)] s6(4) by auto
  note fl = core_fields [OF nl] core_fields [OF nr(2)]
  define s3r where "s3r = s3\<lparr>ut_nodes := (ut_nodes s3)(l := None, r := None)\<rparr>"
  have c3: "same_core s s3r {node}" unfolding s3r_def by (rule same_core_sub [OF s3(3) [unfolded s2_def] lr(1,2)])
  have n3r: "ut_nodes s3r node = Some n3" "ut_nodes s3r l = None" "ut_nodes s3r r = None" using s3(4) nlr by (auto simp: s3r_def)
  have h3: "n_head k = None \<and> \<not> inner ?m x \<or> n_head k = Some (n_origin k)" if "x \<in> {node}" "ut_nodes s3r x = Some k" for x k
    using that n3r(1) s3(5) f3 n(3) by auto
  have tree3: "tree_ok (ut_nodes s3r) R" by (rule tree_flip(1) [OF inv(2) c3 h3])
  have in3: "inner (ut_nodes s3r) q = inner ?m q" for q by (rule tree_flip(2) [OF inv(2) c3 h3])
  define t where "t = s3r\<lparr>ut_nodes := (ut_nodes s3r)(l \<mapsto> nl4\<lparr>n_head := Some ?h\<rparr>, r \<mapsto> nr4\<lparr>n_head := Some ?h\<rparr>)\<rparr>"
  have hv: "halves n3 (nl4\<lparr>n_head := Some ?h\<rparr>) (nr4\<lparr>n_head := Some ?h\<rparr>)" using f3 n(3) by (simp add: halves_def nl4_def nr4_def)
  have dv: "(2::int) ^ i dvd n_paddr n" using pw(4) by (rule dvd_mult_right)
  have sz: "size_ok (nl4\<lparr>n_head := Some ?h\<rparr>)" "size_ok (nr4\<lparr>n_head := Some ?h\<rparr>)"
    using pw(1,2) pb dv u(3) iw(1) by (simp_all add: size_ok_def nl4_def nr4_def)
  have sp: "tree_ok (ut_nodes t) R" "\<not> inner (ut_nodes t) l" "\<not> inner (ut_nodes t) r" "inner (ut_nodes t) q \<longleftrightarrow> inner (ut_nodes s3r) q \<or> q = node" for q
    using tree_split [OF tree3 n3r(1) _ _ n3r(2,3) lr(3-5) _ _ _ _ hv sz] n(3,4) in3 s3(5) f3 unfolding t_def by (simp_all add: nl4_def nr4_def)
  have ct: "same_core t s6 {l, r}"
  proof -
    have "dom (ut_nodes s6) = dom (ut_nodes t)"
      using same_core_dom [OF c46] gl3(1) gr3(1) by (auto simp: t_def s3r_def s4_def)
    moreover have "node_core k = node_core j \<and> (x \<notin> {l, r} \<longrightarrow> n_head k = n_head j)" if x: "ut_nodes t x = Some j" "ut_nodes s6 x = Some k" for x j k
    proof -
      consider "x = l" | "x = r" | "x \<noteq> l" "x \<noteq> r" by blast
      then show ?thesis
      proof cases
        case 1
        then show ?thesis using x nl s6(4) lr(3) by (auto simp: t_def node_core_def)
      next
        case 2
        then show ?thesis using x nr by (auto simp: t_def node_core_def)
      next
        case 3
        then have "ut_nodes s4 x = Some j" using x(1) by (simp add: t_def s3r_def s4_def)
        then show ?thesis using same_coreD [OF c46] x(2) by fastforce
      qed
    qed
    ultimately show ?thesis unfolding same_core_def by blast
  qed
  have h6: "n_head k = None \<and> \<not> inner (ut_nodes t) x \<or> n_head k = Some (n_origin k)" if "x \<in> {l, r}" "ut_nodes s6 x = Some k" for x k
    using that s6(4,5) nr sp(2,3) by auto
  have tree6: "tree_ok (ut_nodes s6) R" by (rule tree_flip(1) [OF sp(1) ct h6])
  have "inner (ut_nodes s6) q = inner (ut_nodes t) q" for q by (rule tree_flip(2) [OF sp(1) ct h6])
  then have in6: "inner (ut_nodes s6) q \<longleftrightarrow> inner ?m q \<or> q = node" for q using sp(4) in3 by simp
  have c6: "same_core s (s6\<lparr>ut_nodes := (ut_nodes s6)(l := None, r := None)\<rparr>) {node}"
  proof -
    have "dom (ut_nodes s6) = insert r (insert l (dom ?m))" using same_core_dom [OF ct] same_core_dom [OF c3] by (simp add: t_def)
    then have "dom ((ut_nodes s6)(l := None, r := None)) = dom ?m" using lr(1,2) by auto
    moreover have "node_core k = node_core j \<and> (x \<notin> {node} \<longrightarrow> n_head k = n_head j)" if x: "?m x = Some j" "((ut_nodes s6)(l := None, r := None)) x = Some k" for x j k
    proof -
      have xl: "x \<noteq> l" "x \<noteq> r" "ut_nodes s6 x = Some k" using x(2) by (auto split: if_splits)
      obtain j3 where j3: "ut_nodes s3r x = Some j3" "node_core j3 = node_core j" "x \<notin> {node} \<longrightarrow> n_head j3 = n_head j" using same_coreD [OF c3 x(1)] by blast
      then have "ut_nodes t x = Some j3" using xl by (simp add: t_def)
      then show ?thesis using same_coreD [OF ct] xl j3 by fastforce
    qed
    ultimately show ?thesis unfolding same_core_def by (simp del: fun_upd_apply dom_fun_upd) blast
  qed
  have old: "\<exists>k. ut_nodes s6 x = Some k \<and> node_core k = node_core j \<and> (x \<noteq> node \<longrightarrow> n_head k = n_head j)" if x: "?m x = Some j" for x j
  proof -
    have "x \<noteq> l" "x \<noteq> r" using x lr(1,2) by auto
    then show ?thesis using same_coreD [OF c6 x] by auto
  qed
  have bk: "\<exists>j. ?m x = Some j" if x: "ut_nodes s6 x = Some k" "x \<noteq> l" "x \<noteq> r" for x k
  proof -
    have "x \<in> dom ((ut_nodes s6)(l := None, r := None))" using x by auto
    then show ?thesis using same_core_dom [OF c6] by auto
  qed
  obtain k6 where k6: "ut_nodes s6 node = Some k6" "n_head k6 = Some ?H"
    using same_coreD [OF ct, of node n3] n3r(1) nlr s3(5) by (auto simp: t_def)
  have mem: "x \<in> set (?fl6 h) \<longleftrightarrow> (\<exists>k. ut_nodes s6 x = Some k \<and> n_head k = None \<and> n_origin k = h)" for x h
  proof -
    consider "x = l" | "x = r" | "x = node" | "x \<noteq> l" "x \<noteq> r" "x \<noteq> node" by blast
    then show ?thesis
    proof cases
      case 1
      then show ?thesis using s6(4,5) fl(1) lr(3) infl(2) [of l h] infl(2) [of l ?h] nin(2) [of h] by (auto simp: nl4_def)
    next
      case 2
      then show ?thesis using nr(1,3) fl(2) lr(3) infl(3) [of r h] infl(3) [of r ?h] nin(1) [of h] by (auto simp: nr4_def)
    next
      case 3
      have "node \<notin> set (remove1 node (fl ?H))" using lists_okD(2) [OF inv(1), of ?H] by simp
      moreover have "node \<notin> set (fl k)" if "k \<noteq> ?H" for k using lists_okD(6) [OF inv(1) u(2)] that by blast
      ultimately have "node \<notin> set (?fl6 h)" using nlr by (cases "h = ?h"; cases "h = ?H") simp_all
      then show ?thesis using 3 k6 by auto
    next
      case 4
      have "x \<in> set (?fl6 h) \<longleftrightarrow> x \<in> set (fl h)" using 4 by (auto simp: in_set_remove1)
      also have "\<dots> \<longleftrightarrow> (\<exists>j. ?m x = Some j \<and> n_head j = None \<and> n_origin j = h)" by (rule inv(3))
      also have "\<dots> \<longleftrightarrow> (\<exists>k. ut_nodes s6 x = Some k \<and> n_head k = None \<and> n_origin k = h)"
      proof
        assume "\<exists>j. ?m x = Some j \<and> n_head j = None \<and> n_origin j = h"
        then obtain j where j: "?m x = Some j" "n_head j = None" "n_origin j = h" by blast
        obtain k where k: "ut_nodes s6 x = Some k" "node_core k = node_core j" "n_head k = n_head j" using old [OF j(1)] 4(3) by blast
        show "\<exists>k. ut_nodes s6 x = Some k \<and> n_head k = None \<and> n_origin k = h" using k j(2,3) core_fields [OF k(2)] by auto
      next
        assume "\<exists>k. ut_nodes s6 x = Some k \<and> n_head k = None \<and> n_origin k = h"
        then obtain k where k: "ut_nodes s6 x = Some k" "n_head k = None" "n_origin k = h" by blast
        obtain j where j: "?m x = Some j" using bk [OF k(1)] 4 by blast
        have "node_core k = node_core j" "n_head k = n_head j" using old [OF j] k(1) 4(3) by auto
        then show "\<exists>j. ?m x = Some j \<and> n_head j = None \<and> n_origin j = h" using j k(2,3) core_fields [of k j] by auto
      qed
      finally show ?thesis .
    qed
  qed
  have "ut_inv s6 ?fl6 R" unfolding ut_inv_def using s6(2) fl6 tree6 mem by simp
  moreover have "untouched s s6"
  proof -
    have "x \<in> used (ut_nodes s6) \<longleftrightarrow> x \<in> used ?m" for x
    proof
      assume "x \<in> used (ut_nodes s6)"
      then obtain k where k: "ut_nodes s6 x = Some k" "\<not> inner (ut_nodes s6) x" "n_head k \<noteq> None" by (auto simp: used_def leaf_def)
      then have x: "x \<noteq> l" "x \<noteq> r" "x \<noteq> node" "\<not> inner ?m x" using s6(4,5) nr(1,3) in6 [of x] by auto
      then obtain j where j: "?m x = Some j" using bk k(1) by blast
      then have "n_head k = n_head j" using old [OF j] k(1) x(3) by auto
      then show "x \<in> used ?m" using j k(3) x(4) by (auto simp: used_def leaf_def)
    next
      assume "x \<in> used ?m"
      then obtain j where j: "?m x = Some j" "\<not> inner ?m x" "n_head j \<noteq> None" by (auto simp: used_def leaf_def)
      then have "x \<noteq> node" using n(1,2) by auto
      then show "x \<in> used (ut_nodes s6)" using old [OF j(1)] j in6 by (auto simp: used_def leaf_def)
    qed
    moreover have "node_core (the (ut_nodes s6 x)) = node_core (the (?m x))" if "x \<in> used ?m" for x
      using that old by (fastforce simp: used_def leaf_def)
    ultimately show ?thesis by (auto simp: untouched_def)
  qed
  moreover have "n_ut n6 = n_ut gl" "n_ut nr = n_ut gr" using fl core_fields [OF gl3(2)] core_fields [OF gr3(2)] by (auto simp: nl4_def nr4_def)
  moreover have "n_parent n6 = node" "n_parent nr = node" "n_paddr n6 = n_paddr n" "n_paddr nr = n_paddr n + 2 ^ i" using fl by (auto simp: nl4_def nr4_def)
  ultimately show ?thesis using that run n(1) s6(4) nr(1) c6 by blast
qed

end
