(* ===== verification/Buddy.thy ===== *)
theory Buddy
  imports Untyped
begin

text \<open>
  The operations of the buddy allocator (\<^verbatim>\<open>libsel4allocman/src/utspace/split.c\<close>), on the trees and lists of \<open>Untyped\<close>: refilling,
  allocation and release keep the invariant, whatever the kernel and the allocators of nodes and slots answer, and none of the assertions
  of the code fails.
\<close>

lemma slotsI: "m x = Some n \<Longrightarrow> n_parent n \<noteq> 0 \<Longrightarrow> cp_capPtr (n_ut n) \<in> slots m"
  unfolding slots_def by blast

lemma slotsE:
  assumes "c \<in> slots m"
  obtains x n where "m x = Some n" "n_parent n \<noteq> 0" "c = cp_capPtr (n_ut n)"
  using assms unfolding slots_def by blast

lemma slots_injD: "slots_inj m \<Longrightarrow> m x = Some n \<Longrightarrow> n_parent n \<noteq> 0 \<Longrightarrow> m z = Some k \<Longrightarrow> n_parent k \<noteq> 0 \<Longrightarrow> cp_capPtr (n_ut n) = cp_capPtr (n_ut k) \<Longrightarrow> x = z"
  unfolding slots_inj_def by blast

lemma slots_injI:
  "(\<And>x n z k. m x = Some n \<Longrightarrow> n_parent n \<noteq> 0 \<Longrightarrow> m z = Some k \<Longrightarrow> n_parent k \<noteq> 0 \<Longrightarrow> cp_capPtr (n_ut n) = cp_capPtr (n_ut k) \<Longrightarrow> x = z) \<Longrightarrow> slots_inj m"
  unfolding slots_inj_def by blast

lemma slots_same:
  assumes "same_core s s' X"
  shows "slots (ut_nodes s') = slots (ut_nodes s)" "slots_inj (ut_nodes s') = slots_inj (ut_nodes s)"
proof -
  have f: "\<exists>n'. ut_nodes s' x = Some n' \<and> n_parent n' = n_parent n \<and> n_ut n' = n_ut n" if "ut_nodes s x = Some n" for x n
    using same_coreD [OF assms that] core_fields by metis
  have b: "\<exists>n. ut_nodes s x = Some n \<and> n_parent n = n_parent n' \<and> n_ut n = n_ut n'" if x: "ut_nodes s' x = Some n'" for x n'
  proof -
    obtain n where n: "ut_nodes s x = Some n" using x same_core_dom [OF assms] by (metis domD domI)
    then show ?thesis using f [OF n] x by auto
  qed
  show "slots (ut_nodes s') = slots (ut_nodes s)"
  proof (intro subset_antisym subsetI)
    fix c assume "c \<in> slots (ut_nodes s')"
    then obtain x n' where x: "ut_nodes s' x = Some n'" "n_parent n' \<noteq> 0" "c = cp_capPtr (n_ut n')" by (rule slotsE)
    show "c \<in> slots (ut_nodes s)" using b [OF x(1)] x(2,3) slotsI [of "ut_nodes s" x] by metis
  next
    fix c assume "c \<in> slots (ut_nodes s)"
    then obtain x n where x: "ut_nodes s x = Some n" "n_parent n \<noteq> 0" "c = cp_capPtr (n_ut n)" by (rule slotsE)
    show "c \<in> slots (ut_nodes s')" using f [OF x(1)] x(2,3) slotsI [of "ut_nodes s'" x] by metis
  qed
  show "slots_inj (ut_nodes s') = slots_inj (ut_nodes s)"
  proof (intro iffI; rule slots_injI)
    fix x n z k assume *: "slots_inj (ut_nodes s')" "ut_nodes s x = Some n" "n_parent n \<noteq> 0" "ut_nodes s z = Some k" "n_parent k \<noteq> 0" "cp_capPtr (n_ut n) = cp_capPtr (n_ut k)"
    then show "x = z" using f [OF *(2)] f [OF *(4)] slots_injD [of "ut_nodes s'" x _ z] by metis
  next
    fix x n z k assume *: "slots_inj (ut_nodes s)" "ut_nodes s' x = Some n" "n_parent n \<noteq> 0" "ut_nodes s' z = Some k" "n_parent k \<noteq> 0" "cp_capPtr (n_ut n) = cp_capPtr (n_ut k)"
    then show "x = z" using b [OF *(2)] b [OF *(4)] slots_injD [of "ut_nodes s" x _ z] by metis
  qed
qed

lemma slots_add:
  assumes "m l = None" "n_parent n \<noteq> 0"
  shows "slots (m(l \<mapsto> n)) = insert (cp_capPtr (n_ut n)) (slots m)"
    "slots_inj m \<Longrightarrow> cp_capPtr (n_ut n) \<notin> slots m \<Longrightarrow> slots_inj (m(l \<mapsto> n))"
proof -
  let ?m = "m(l \<mapsto> n)"
  have new: "?m x = Some k \<longleftrightarrow> x = l \<and> k = n \<or> m x = Some k" for x k using assms(1) by auto
  show "slots ?m = insert (cp_capPtr (n_ut n)) (slots m)" unfolding slots_def new using assms(2) by blast
  show "slots_inj ?m" if that: "slots_inj m" "cp_capPtr (n_ut n) \<notin> slots m"
  proof (rule slots_injI)
    fix x k z j assume *: "?m x = Some k" "n_parent k \<noteq> 0" "?m z = Some j" "n_parent j \<noteq> 0" "cp_capPtr (n_ut k) = cp_capPtr (n_ut j)"
    then show "x = z" using slots_injD [OF that(1), of x k z j] slotsI [of m x k] slotsI [of m z j] that(2) unfolding new by metis
  qed
qed

lemma slots_drop:
  assumes "slots_inj m" "m x = Some n" "n_parent n \<noteq> 0"
  shows "slots (m(x := None)) = slots m - {cp_capPtr (n_ut n)}" "slots_inj (m(x := None))" "cp_capPtr (n_ut n) \<in> slots m"
proof -
  have old: "(m(x := None)) z = Some k \<longleftrightarrow> z \<noteq> x \<and> m z = Some k" for z k by simp
  show "cp_capPtr (n_ut n) \<in> slots m" using slotsI [of m x n] assms(2,3) by blast
  show "slots_inj (m(x := None))" by (rule slots_injI) (unfold old, use slots_injD [OF assms(1)] in blast)
  show "slots (m(x := None)) = slots m - {cp_capPtr (n_ut n)}"
  proof (intro subset_antisym subsetI)
    fix c assume "c \<in> slots (m(x := None))"
    then obtain z k where "(m(x := None)) z = Some k" "n_parent k \<noteq> 0" "c = cp_capPtr (n_ut k)" by (rule slotsE)
    then have z: "z \<noteq> x" "m z = Some k" "n_parent k \<noteq> 0" "c = cp_capPtr (n_ut k)" unfolding old by blast+
    then show "c \<in> slots m - {cp_capPtr (n_ut n)}" using slotsI [of m z k] slots_injD [of m z k x n] assms z by auto
  next
    fix c assume c: "c \<in> slots m - {cp_capPtr (n_ut n)}"
    then obtain z k where z: "m z = Some k" "n_parent k \<noteq> 0" "c = cp_capPtr (n_ut k)" by (blast elim: slotsE)
    then have "z \<noteq> x" using c assms(2) by auto
    then show "c \<in> slots (m(x := None))" using slotsI [of "m(x := None)" z k] z by simp
  qed
qed

lemma slots_two:
  assumes "same_core s (s'\<lparr>ut_nodes := (ut_nodes s')(l := None, r := None)\<rparr>) X" "ut_nodes s' l = Some nl" "ut_nodes s' r = Some nr" "l \<noteq> r"
    "n_parent nl \<noteq> 0" "n_parent nr \<noteq> 0" "slots_inj (ut_nodes s)" "cp_capPtr (n_ut nl) \<notin> slots (ut_nodes s)"
    "cp_capPtr (n_ut nr) \<notin> insert (cp_capPtr (n_ut nl)) (slots (ut_nodes s))"
  shows "slots (ut_nodes s') = insert (cp_capPtr (n_ut nr)) (insert (cp_capPtr (n_ut nl)) (slots (ut_nodes s)))" "slots_inj (ut_nodes s')"
    "dom (ut_nodes s') = insert r (insert l (dom (ut_nodes s)))"
proof -
  define m where "m = (ut_nodes s')(l := None, r := None)"
  have m': "ut_nodes s' = m(l \<mapsto> nl, r \<mapsto> nr)" using assms(2-4) by (auto simp: m_def fun_eq_iff)
  have sm: "slots m = slots (ut_nodes s)" "slots_inj m" using slots_same [OF assms(1)] assms(7) unfolding m_def by simp_all
  have l: "m l = None" "(m(l \<mapsto> nl)) r = None" using assms(4) by (auto simp: m_def)
  have 1: "slots (m(l \<mapsto> nl)) = insert (cp_capPtr (n_ut nl)) (slots (ut_nodes s))" "slots_inj (m(l \<mapsto> nl))"
    using slots_add [of m l nl, OF l(1) assms(5)] sm assms(8) by simp_all
  show "slots (ut_nodes s') = insert (cp_capPtr (n_ut nr)) (insert (cp_capPtr (n_ut nl)) (slots (ut_nodes s)))" "slots_inj (ut_nodes s')"
    unfolding m' using slots_add [of "m(l \<mapsto> nl)" r nr, OF l(2) assms(6)] 1 assms(9) by simp_all
  show "dom (ut_nodes s') = insert r (insert l (dom (ut_nodes s)))"
    unfolding m' using same_core_dom [OF assms(1)] by (simp add: m_def [symmetric])
qed

lemma find_node_seg:
  assumes "seg (ut_nodes s) p prv xs"
  shows "\<exists>y. find_node P s p = Some y \<and> (if y = 0 then \<forall>x\<in>set xs. \<not> P (the (ut_nodes s x)) else y \<in> set xs \<and> P (the (ut_nodes s y)))"
  using assms
proof (induction xs arbitrary: p prv)
  case (Cons x xs)
  then obtain n where n: "p = x" "x \<noteq> 0" "ut_nodes s x = Some n" "seg (ut_nodes s) (n_next n) x xs" by auto
  show ?case
  proof (cases "P n")
    case True
    then show ?thesis using n by (simp add: find_node.simps [of P s x])
  next
    case False
    then have "find_node P s p = find_node P s (n_next n)" using n by (simp add: find_node.simps [of P s x])
    then show ?thesis using Cons.IH [OF n(4)] False n(3) by (auto split: if_splits)
  qed
qed (simp add: find_node.simps)

lemma find_free:
  \<comment> \<open>the search of a free list ends, with a piece that passes the test if there is one\<close>
  assumes "ut_inv s fl R" "snd h < CONFIG_WORD_SIZE"
  obtains p y where "get_head s h = Some p" "find_node P s p = Some y" "y = 0 \<Longrightarrow> \<forall>x\<in>set (fl h). \<not> P (the (ut_nodes s x))"
    "y \<noteq> 0 \<Longrightarrow> y \<in> set (fl h) \<and> P (the (ut_nodes s y))"
proof -
  note d = lists_okD [OF ut_invD(1) [OF assms(1)]]
  obtain y where "find_node P s (if fl h = [] then 0 else hd (fl h)) = Some y"
    "if y = 0 then \<forall>x\<in>set (fl h). \<not> P (the (ut_nodes s x)) else y \<in> set (fl h) \<and> P (the (ut_nodes s y))"
    using find_node_seg [OF d(5) [OF assms(2)]] by blast
  then show ?thesis using that d(4) [OF assms(2)] by (cases "y = 0") auto
qed

lemma covers_region:
  assumes "ut_inv s fl R" "x \<in> set (fl (pool, i))" "ut_nodes s x = Some n"
  shows "ut_covers paddr i n \<longleftrightarrow> n_paddr n \<le> paddr \<and> paddr < n_paddr n + 2 ^ i"
proof -
  obtain n' where "ut_nodes s x = Some n'" "n_origin n' = (pool, i)" "size_ok n'" using free_node [OF assms(1,2)] by blast
  then have n: "n_origin n = (pool, i)" "size_ok n" using assms(3) by auto
  then have "u32 (n_paddr n + 2 ^ i) = n_paddr n + 2 ^ i" by (intro u32_id) (auto simp: size_ok_def)
  then show ?thesis using size_ok_paddr [OF n(2)] by (simp add: ut_covers_def ALLOCMAN_NO_PADDR_def)
qed

definition suits :: "int \<Rightarrow> nat \<Rightarrow> ut_node \<Rightarrow> bool" where
  \<comment> \<open>a piece of this size that can be used, or split, for the address\<close>
  "suits paddr i n \<longleftrightarrow> paddr = ALLOCMAN_NO_PADDR \<or> ut_covers paddr i n"

lemma look:
  assumes "ut_inv s fl R" "i < CONFIG_WORD_SIZE"
  obtains p y where "get_head s (pool, i) = Some p" "(if paddr = ALLOCMAN_NO_PADDR then Some p else find_node (ut_covers paddr i) s p) = Some y"
    "y = 0 \<Longrightarrow> \<forall>x\<in>set (fl (pool, i)). \<not> suits paddr i (the (ut_nodes s x))" "y \<noteq> 0 \<Longrightarrow> y \<in> set (fl (pool, i)) \<and> suits paddr i (the (ut_nodes s y))"
proof (cases "paddr = ALLOCMAN_NO_PADDR")
  case True
  have g: "get_head s (pool, i) = Some (if fl (pool, i) = [] then 0 else hd (fl (pool, i)))" using lists_okD(4) [OF ut_invD(1) [OF assms(1)], of "(pool, i)"] assms(2) by simp
  have "hd (fl (pool, i)) \<noteq> 0" if "fl (pool, i) \<noteq> []" using lists_okD(7) [OF ut_invD(1) [OF assms(1)] hd_in_set [OF that]] by simp
  then show ?thesis using that g True by (cases "fl (pool, i) = []") (auto simp: suits_def)
next
  case False
  obtain p y where "get_head s (pool, i) = Some p" "find_node (ut_covers paddr i) s p = Some y" "y = 0 \<Longrightarrow> \<forall>x\<in>set (fl (pool, i)). \<not> ut_covers paddr i (the (ut_nodes s x))"
    "y \<noteq> 0 \<Longrightarrow> y \<in> set (fl (pool, i)) \<and> ut_covers paddr i (the (ut_nodes s y))" using find_free [OF assms(1), of "(pool, i)" "ut_covers paddr i"] assms(2) by auto
  then show ?thesis using that False by (auto simp: suits_def)
qed

lemma same_core_back:
  assumes "same_core s s' X" "ut_nodes s' x = Some n'"
  shows "\<exists>n. ut_nodes s x = Some n \<and> node_core n' = node_core n \<and> (x \<notin> X \<longrightarrow> n_head n' = n_head n)"
proof -
  obtain n where n: "ut_nodes s x = Some n" using assms same_core_dom [OF assms(1)] by (metis domD domI)
  then show ?thesis using same_coreD [OF assms(1) n] assms(2) by auto
qed

lemma usedE:
  assumes "x \<in> used m"
  obtains n where "m x = Some n" "\<not> inner m x" "n_head n \<noteq> None"
  using assms unfolding used_def leaf_def by blast

lemma usedI: "m x = Some n \<Longrightarrow> \<not> inner m x \<Longrightarrow> n_head n \<noteq> None \<Longrightarrow> x \<in> used m"
  unfolding used_def leaf_def by blast

lemma used_same:
  assumes "same_core s s' X" "\<And>p. inner (ut_nodes s') p = inner (ut_nodes s) p" "y \<notin> X"
  shows "y \<in> used (ut_nodes s') \<longleftrightarrow> y \<in> used (ut_nodes s)"
proof
  assume "y \<in> used (ut_nodes s')"
  then obtain n where n: "ut_nodes s' y = Some n" "\<not> inner (ut_nodes s') y" "n_head n \<noteq> None" by (rule usedE)
  obtain k where k: "ut_nodes s y = Some k" "n_head n = n_head k" using same_core_back [OF assms(1) n(1)] assms(3) by blast
  show "y \<in> used (ut_nodes s)" using usedI [of "ut_nodes s" y k] k n(2,3) assms(2) by simp
next
  assume "y \<in> used (ut_nodes s)"
  then obtain n where n: "ut_nodes s y = Some n" "\<not> inner (ut_nodes s) y" "n_head n \<noteq> None" by (rule usedE)
  obtain k where k: "ut_nodes s' y = Some k" "n_head k = n_head n" using same_coreD [OF assms(1) n(1)] assms(3) by blast
  show "y \<in> used (ut_nodes s')" using usedI [of "ut_nodes s'" y k] k n(2,3) assms(2) by simp
qed

lemma free_same:
  assumes "same_core s s' X" "y \<notin> X"
  shows "(\<exists>n. ut_nodes s' y = Some n \<and> n_head n = None \<and> n_origin n = h) \<longleftrightarrow> (\<exists>n. ut_nodes s y = Some n \<and> n_head n = None \<and> n_origin n = h)"
proof
  assume "\<exists>n. ut_nodes s' y = Some n \<and> n_head n = None \<and> n_origin n = h"
  then obtain n where n: "ut_nodes s' y = Some n" "n_head n = None" "n_origin n = h" by blast
  obtain k where k: "ut_nodes s y = Some k" "node_core n = node_core k" "n_head n = n_head k" using same_core_back [OF assms(1) n(1)] assms(2) by blast
  then show "\<exists>n. ut_nodes s y = Some n \<and> n_head n = None \<and> n_origin n = h" using n core_fields [OF k(2)] by auto
next
  assume "\<exists>n. ut_nodes s y = Some n \<and> n_head n = None \<and> n_origin n = h"
  then obtain n where n: "ut_nodes s y = Some n" "n_head n = None" "n_origin n = h" by blast
  obtain k where k: "ut_nodes s' y = Some k" "node_core k = node_core n" "n_head k = n_head n" using same_coreD [OF assms(1) n(1)] assms(2) by blast
  then show "\<exists>n. ut_nodes s' y = Some n \<and> n_head n = None \<and> n_origin n = h" using n core_fields [OF k(2)] by auto
qed

lemma take_spec:
  assumes u: "ut_inv s fl R" "x \<in> set (fl h)"
  obtains s' n where "remove_node s h x = Some s'" "ut_inv s' (fl(h := remove1 x (fl h))) R" "same_core s s' {x}" "used (ut_nodes s') = insert x (used (ut_nodes s))" "x \<notin> used (ut_nodes s)"
    "ut_nodes s' x = Some n" "n_head n = Some h" "n_origin n = h"
proof -
  note inv = ut_invD [OF u(1)]
  obtain n0 where n0: "ut_nodes s x = Some n0" "n_head n0 = None" "n_origin n0 = h" "\<not> inner (ut_nodes s) x" using free_node [OF u] by blast
  obtain s' n where s': "remove_node s h x = Some s'" "lists_ok s' (fl(h := remove1 x (fl h)))" "same_core s s' {x}" "ut_nodes s' x = Some n" "n_head n = Some h"
    using remove_spec [OF inv(1) u(2)] by blast
  have o: "n_origin n = h" using same_coreD [OF s'(3) n0(1)] s'(4) n0(3) core_fields [of n n0] by auto
  have f: "n_head k = None \<and> \<not> inner (ut_nodes s) z \<or> n_head k = Some (n_origin k)" if "z \<in> {x}" "ut_nodes s' z = Some k" for z k using that s'(4,5) o by auto
  have i: "inner (ut_nodes s') p = inner (ut_nodes s) p" for p by (rule tree_flip(2) [OF inv(2) s'(3) f])
  have "y \<in> set ((fl(h := remove1 x (fl h))) h') \<longleftrightarrow> (\<exists>k. ut_nodes s' y = Some k \<and> n_head k = None \<and> n_origin k = h')" for y h'
  proof (cases "y = x")
    case True
    have "x \<notin> set (remove1 x (fl h))" using lists_okD(2) [OF inv(1), of h] by simp
    moreover have "x \<notin> set (fl h')" if "h' \<noteq> h" using lists_okD(6) [OF inv(1) u(2)] that by blast
    ultimately show ?thesis using True s'(4,5) by auto
  next
    case False
    then have "y \<in> set ((fl(h := remove1 x (fl h))) h') \<longleftrightarrow> y \<in> set (fl h')" by (auto simp: in_set_remove1)
    then show ?thesis using inv(3) [of y h'] free_same [OF s'(3), of y h'] False by simp
  qed
  then have v: "ut_inv s' (fl(h := remove1 x (fl h))) R" unfolding ut_inv_def using s'(2) tree_flip(1) [OF inv(2) s'(3) f] by simp
  have "x \<in> used (ut_nodes s')" using usedI [of "ut_nodes s'" x n] s'(4,5) n0(4) i by simp
  then have "y \<in> used (ut_nodes s') \<longleftrightarrow> y \<in> insert x (used (ut_nodes s))" for y using used_same [OF s'(3) i, of y] by (cases "y = x") auto
  then have us: "used (ut_nodes s') = insert x (used (ut_nodes s))" by (rule set_eqI)
  have "x \<notin> used (ut_nodes s)" using n0(1,2) by (auto elim: usedE)
  then show ?thesis using that s' v us o by blast
qed

lemma put_spec:
  assumes u: "ut_inv s fl R" "x \<in> used (ut_nodes s)" "ut_nodes s x = Some n0"
  obtains s' where "insert_node s (n_origin n0) x = Some s'" "ut_inv s' (fl(n_origin n0 := x # fl (n_origin n0))) R" "same_core s s' {x}" "used (ut_nodes s') = used (ut_nodes s) - {x}"
proof -
  note inv = ut_invD [OF u(1)]
  let ?h = "n_origin n0"
  have n0: "\<not> inner (ut_nodes s) x" "n_head n0 \<noteq> None" using u(2,3) by (auto elim: usedE)
  have xo: "x \<notin> set (fl h)" for h using inv(3) n0(2) u(3) by auto
  have w: "snd ?h < CONFIG_WORD_SIZE" using tree_okD(2) [OF inv(2) u(3)] by (simp add: size_ok_def)
  have "x \<in> dom (ut_nodes s)" "x \<noteq> 0" using u(3) tree_okD(1) [OF inv(2)] by (auto intro: ccontr)
  then obtain s' n where s': "insert_node s ?h x = Some s'" "lists_ok s' (fl(?h := x # fl ?h))" "same_core s s' {x}" "ut_nodes s' x = Some n" "n_head n = None"
    using insert_spec [OF inv(1) w _ _ xo] by blast
  have o: "n_origin n = ?h" using same_coreD [OF s'(3) u(3)] s'(4) core_fields [of n n0] by auto
  have f: "n_head k = None \<and> \<not> inner (ut_nodes s) z \<or> n_head k = Some (n_origin k)" if "z \<in> {x}" "ut_nodes s' z = Some k" for z k using that s'(4,5) n0(1) by auto
  have i: "inner (ut_nodes s') p = inner (ut_nodes s) p" for p by (rule tree_flip(2) [OF inv(2) s'(3) f])
  have "y \<in> set ((fl(?h := x # fl ?h)) h') \<longleftrightarrow> (\<exists>k. ut_nodes s' y = Some k \<and> n_head k = None \<and> n_origin k = h')" for y h'
  proof (cases "y = x")
    case True
    then show ?thesis using s'(4,5) o xo [of h'] by auto
  next
    case False
    then have "y \<in> set ((fl(?h := x # fl ?h)) h') \<longleftrightarrow> y \<in> set (fl h')" by auto
    then show ?thesis using inv(3) [of y h'] free_same [OF s'(3), of y h'] False by simp
  qed
  then have v: "ut_inv s' (fl(?h := x # fl ?h)) R" unfolding ut_inv_def using s'(2) tree_flip(1) [OF inv(2) s'(3) f] by simp
  have "x \<notin> used (ut_nodes s')" using s'(4,5) by (auto elim: usedE)
  then have "y \<in> used (ut_nodes s') \<longleftrightarrow> y \<in> used (ut_nodes s) - {x}" for y using used_same [OF s'(3) i, of y] by (cases "y = x") auto
  then have "used (ut_nodes s') = used (ut_nodes s) - {x}" by (rule set_eqI)
  then show ?thesis using that s'(1,3) v by blast
qed

lemma merge_spec:
  \<comment> \<open>two halves that are in no list are replaced by the piece they came from\<close>
  assumes u: "ut_inv s fl R" and x: "ut_nodes s x = Some n" "x \<in> used (ut_nodes s)" "n_sibling n \<in> used (ut_nodes s)" "n_parent n \<noteq> 0"
  defines "s' \<equiv> s\<lparr>ut_nodes := (ut_nodes s)(x := None, n_sibling n := None)\<rparr>"
  shows "ut_inv s' fl R" "used (ut_nodes s') = insert (n_parent n) (used (ut_nodes s) - {x, n_sibling n})" "n_parent n \<notin> used (ut_nodes s)"
    "\<exists>p. ut_nodes s' (n_parent n) = Some p \<and> snd (n_origin p) = Suc (snd (n_origin n))"
proof -
  let ?m = "ut_nodes s" and ?y = "n_sibling n" and ?q = "n_parent n"
  let ?m' = "?m(x := None, ?y := None)"
  note inv = ut_invD [OF u]
  obtain k where k: "?m ?y = Some k" "\<not> inner ?m ?y" "n_head k \<noteq> None" using x(3) by (rule usedE)
  have nx: "\<not> inner ?m x" "n_head n \<noteq> None" using x(1,2) by (auto elim: usedE)
  note mg = tree_merge [OF inv(2) x(1,4) nx(1) k(2)]
  obtain p where p: "?m ?q = Some p" "snd (n_origin p) = Suc (snd (n_origin n))" "n_head p = Some (n_origin p)" using mg(5) by blast
  have m': "?m' z = (if z = x \<or> z = ?y then None else ?m z)" for z by simp
  have out: "x \<notin> set (fl h)" "?y \<notin> set (fl h)" for h using inv(3) x(1) nx(2) k(1,3) by auto
  have "lists_ok s' fl" unfolding s'_def by (rule lists_ok_nodes [OF inv(1)]) (use out in \<open>auto simp: links_def\<close>)
  moreover have "z \<in> set (fl h) \<longleftrightarrow> (\<exists>j. ut_nodes s' z = Some j \<and> n_head j = None \<and> n_origin j = h)" for z h
    using inv(3) [of z h] out [of h] by (cases "z = x \<or> z = ?y") (auto simp: s'_def)
  ultimately show "ut_inv s' fl R" using mg(1) unfolding ut_inv_def by (simp add: s'_def)
  have "inner ?m ?q" using x(1,4) by (auto simp: inner_def)
  then show "?q \<notin> used ?m" by (auto elim: usedE)
  show "\<exists>p. ut_nodes s' ?q = Some p \<and> snd (n_origin p) = Suc (snd (n_origin n))" using p mg(3,4) by (simp add: s'_def)
  have "z \<in> used ?m' \<longleftrightarrow> z \<in> insert ?q (used ?m - {x, ?y})" for z
  proof -
    have "z \<in> used ?m' \<longleftrightarrow> z \<noteq> x \<and> z \<noteq> ?y \<and> (\<exists>j. ?m z = Some j \<and> (\<not> inner ?m z \<or> z = ?q) \<and> n_head j \<noteq> None)"
      unfolding used_def leaf_def mg(6) m' by auto
    then show ?thesis using p mg(3,4) unfolding used_def leaf_def by auto
  qed
  then show "used (ut_nodes s') = insert ?q (used ?m - {x, ?y})" unfolding s'_def by (simp del: fun_upd_apply) blast
qed

lemma root_spec:
  \<comment> \<open>a new untyped joins the free pieces\<close>
  assumes u: "ut_inv s fl R" and x: "x \<notin> dom (ut_nodes s)" "x \<noteq> 0" and g: "n_parent g = 0" "size_ok g" "region g \<inter> R = {}"
  defines "s1 \<equiv> s\<lparr>ut_nodes := (ut_nodes s)(x \<mapsto> g)\<rparr>"
  obtains s' fl' where "insert_node s1 (n_origin g) x = Some s'" "ut_inv s' fl' (R \<union> region g)" "untouched s s'" "same_core s1 s' {x}"
proof -
  let ?m = "ut_nodes s" and ?h = "n_origin g"
  let ?g = "g\<lparr>n_head := Some ?h\<rparr>"
  let ?t = "s\<lparr>ut_nodes := ?m(x \<mapsto> ?g)\<rparr>"
  note inv = ut_invD [OF u]
  have mx: "?m x = None" using x(1) by auto
  have "size_ok ?g" "region ?g \<inter> R = {}" "n_parent ?g = 0" using g by (auto simp: size_ok_def region_def)
  then have tr: "tree_ok (ut_nodes ?t) (R \<union> region ?g)" "\<not> inner (ut_nodes ?t) x" "inner (ut_nodes ?t) q = inner ?m q" for q
    using tree_root [OF inv(2) mx x(2), of ?g] by simp_all
  have out: "x \<notin> set (fl h)" for h using inv(3) mx by auto
  have l1: "lists_ok s1 fl" unfolding s1_def by (rule lists_ok_nodes [OF inv(1)]) (use out in \<open>auto simp: links_def\<close>)
  have w: "snd ?h < CONFIG_WORD_SIZE" using g(2) by (simp add: size_ok_def)
  have "x \<in> dom (ut_nodes s1)" by (simp add: s1_def)
  then obtain s' n where s': "insert_node s1 ?h x = Some s'" "lists_ok s' (fl(?h := x # fl ?h))" "same_core s1 s' {x}" "ut_nodes s' x = Some n" "n_head n = None"
    using insert_spec [OF l1 w _ x(2) out] by blast
  have "same_core ?t s1 {x}" unfolding same_core_def s1_def by (auto simp: node_core_def)
  then have c: "same_core ?t s' {x}" using same_core_trans [OF _ s'(3)] by fastforce
  have o: "n_origin n = ?h" using same_coreD [OF c, of x ?g] s'(4) core_fields [of n ?g] by auto
  have f: "n_head k = None \<and> \<not> inner (ut_nodes ?t) z \<or> n_head k = Some (n_origin k)" if "z \<in> {x}" "ut_nodes s' z = Some k" for z k using that s'(4,5) tr(2) by auto
  have i: "inner (ut_nodes s') p = inner (ut_nodes ?t) p" for p by (rule tree_flip(2) [OF tr(1) c f])
  have "y \<in> set ((fl(?h := x # fl ?h)) h') \<longleftrightarrow> (\<exists>k. ut_nodes s' y = Some k \<and> n_head k = None \<and> n_origin k = h')" for y h'
  proof (cases "y = x")
    case True
    then show ?thesis using s'(4,5) o out [of h'] by auto
  next
    case False
    then have "y \<in> set ((fl(?h := x # fl ?h)) h') \<longleftrightarrow> y \<in> set (fl h')" by auto
    then show ?thesis using inv(3) [of y h'] free_same [OF c, of y h'] False by simp
  qed
  then have v: "ut_inv s' (fl(?h := x # fl ?h)) (R \<union> region g)"
    unfolding ut_inv_def using s'(2) tree_flip(1) [OF tr(1) c f] by (simp add: region_def)
  have us: "y \<in> used (ut_nodes s') \<longleftrightarrow> y \<in> used ?m" for y
  proof (cases "y = x")
    case True
    then show ?thesis using s'(4,5) mx by (auto elim!: usedE)
  next
    case False
    then have "y \<in> used (ut_nodes ?t) \<longleftrightarrow> y \<in> used ?m" unfolding used_def leaf_def tr(3) by simp
    then show ?thesis using used_same [OF c i, of y] False by simp
  qed
  have "node_core (the (ut_nodes s' y)) = node_core (the (?m y))" if y: "y \<in> used ?m" for y
  proof -
    obtain k where k: "?m y = Some k" using y by (rule usedE)
    then have "y \<noteq> x" using mx by auto
    then show ?thesis using same_coreD [OF c, of y k] k by auto
  qed
  then have "untouched s s'" using us by (auto simp: untouched_def)
  then show ?thesis using that s'(1,3) v by blast
qed

fun fits :: "int set \<Rightarrow> (cspacepath \<times> nat \<times> int) list \<Rightarrow> bool" where
  \<comment> \<open>untypeds as the kernel has them: aligned to their size, of at least two bytes, with an address, and disjoint\<close>
  "fits R [] \<longleftrightarrow> True"
| "fits R ((ut, i, p) # uts) \<longleftrightarrow> 1 \<le> i \<and> i < CONFIG_WORD_SIZE \<and> 0 \<le> p \<and> 2 ^ i dvd p \<and> p + 2 ^ i < 4294967296 \<and> {p..<p + 2 ^ i} \<inter> R = {} \<and> fits (R \<union> {p..<p + 2 ^ i}) uts"

fun spans :: "(cspacepath \<times> nat \<times> int) list \<Rightarrow> int set" where
  "spans [] = {}"
| "spans ((ut, i, p) # uts) = {p..<p + 2 ^ i} \<union> spans uts"

lemma slots_root:
  assumes "m x = None" "n_parent n = 0"
  shows "slots (m(x \<mapsto> n)) = slots m" "slots_inj (m(x \<mapsto> n)) = slots_inj m"
proof -
  have new: "(m(x \<mapsto> n)) z = Some k \<and> n_parent k \<noteq> 0 \<longleftrightarrow> m z = Some k \<and> n_parent k \<noteq> 0" for z k using assms by auto
  show "slots (m(x \<mapsto> n)) = slots m" unfolding slots_def using new by blast
  show "slots_inj (m(x \<mapsto> n)) = slots_inj m" unfolding slots_inj_def using new by blast
qed

lemma find_head_total:
  assumes "ut_inv s fl R" "\<And>i. i \<in> set is \<Longrightarrow> i < CONFIG_WORD_SIZE"
  shows "\<exists>b. find_head_from s pool paddr size_bits is = Some b"
  using assms(2)
proof (induction "is")
  case (Cons i "is")
  let ?P = "\<lambda>n. n_paddr n \<noteq> ALLOCMAN_NO_PADDR \<and> n_paddr n \<le> paddr \<and> u32 (paddr + 2 ^ size_bits) \<le> u32 (n_paddr n + u32 (2 ^ i))"
  have "snd (pool, i) < CONFIG_WORD_SIZE" using Cons.prems [of i] by simp
  then obtain p y where "get_head s (pool, i) = Some p" "find_node ?P s p = Some y" using find_free [OF assms(1), of "(pool, i)" ?P] by blast
  then show ?case using Cons.IH Cons.prems by auto
qed (auto intro: exI [of _ False])

lemma aligned_start:
  assumes "(2::int) ^ i dvd x" "2 ^ i dvd y" "x \<le> y" "y < x + 2 ^ i"
  shows "x = y"
proof -
  have "(y - x) mod 2 ^ i = 0" using dvd_diff [OF assms(2,1)] by simp
  moreover have "(y - x) mod 2 ^ i = y - x" using assms(3,4) by (intro mod_pos_pos_trivial) auto
  ultimately show ?thesis by simp
qed

definition holds :: "('a \<Rightarrow> int set \<Rightarrow> int set \<Rightarrow> bool) \<Rightarrow> utspace \<Rightarrow> 'a \<Rightarrow> int set \<Rightarrow> int set \<Rightarrow> bool" where
  \<comment> \<open>what is in use is what others have (\<open>M\<close>, \<open>S\<close>) and what the allocator has\<close>
  "holds valid s a M S \<longleftrightarrow> valid a (M \<union> dom (ut_nodes s)) (S \<union> slots (ut_nodes s)) \<and> M \<inter> dom (ut_nodes s) = {} \<and> S \<inter> slots (ut_nodes s) = {}
     \<and> slots_inj (ut_nodes s)"

locale ut_supply =
  fixes e :: "'a ut_env"
    and valid :: "'a \<Rightarrow> int set \<Rightarrow> int set \<Rightarrow> bool" \<comment> \<open>which nodes' memory and which slots are in use\<close>
  assumes mem_alloc: "valid a M S \<Longrightarrow> \<exists>p a'. mem_alloc e a = Some (p, a') \<and> (if p = 0 then valid a' M S else p \<notin> M \<and> valid a' (insert p M) S)"
    and mem_free: "valid a M S \<Longrightarrow> p \<in> M \<Longrightarrow> \<exists>a'. mem_free e a p = Some a' \<and> valid a' (M - {p}) S"
    and slot_alloc: "valid a M S \<Longrightarrow> \<exists>r q a'. slot_alloc e a = Some (r, q, a')
      \<and> (if r = 0 then \<exists>c. q = Some c \<and> cp_capPtr c \<notin> S \<and> valid a' M (insert (cp_capPtr c) S) else valid a' M S)"
    and slot_free: "valid a M S \<Longrightarrow> cp_capPtr c \<in> S \<Longrightarrow> \<exists>a'. slot_free e a c = Some a' \<and> valid a' M (S - {cp_capPtr c})"
    and kernel: "valid a M S \<Longrightarrow> retype e a u t n c = (r, a') \<Longrightarrow> valid a' M S" "valid a M S \<Longrightarrow> valid (cap_delete e a c) M S"
begin

lemma new_node_spec:
  assumes "valid a M S"
  shows "\<exists>p s' a'. new_node e s a = Some (p, s', a')
    \<and> (if p = 0 then s' = s \<and> valid a' M S
       else p \<notin> M \<and> (\<exists>n. s' = s\<lparr>ut_nodes := (ut_nodes s)(p \<mapsto> n)\<rparr> \<and> cp_capPtr (n_ut n) \<notin> S \<and> valid a' (insert p M) (insert (cp_capPtr (n_ut n)) S)))"
proof -
  obtain p a1 where p: "mem_alloc e a = Some (p, a1)" "if p = 0 then valid a1 M S else p \<notin> M \<and> valid a1 (insert p M) S"
    using mem_alloc [OF assms] by blast
  show ?thesis
  proof (cases "p = 0")
    case False
    then have v: "valid a1 (insert p M) S" "p \<notin> M" using p(2) by auto
    obtain r q a2 where r: "slot_alloc e a1 = Some (r, q, a2)"
      "if r = 0 then \<exists>c. q = Some c \<and> cp_capPtr c \<notin> S \<and> valid a2 (insert p M) (insert (cp_capPtr c) S) else valid a2 (insert p M) S"
      using slot_alloc [OF v(1)] by blast
    show ?thesis
    proof (cases "r = 0")
      case True
      then obtain c where c: "q = Some c" "cp_capPtr c \<notin> S" "valid a2 (insert p M) (insert (cp_capPtr c) S)" using r(2) by auto
      let ?n = "(fresh_node e p)\<lparr>n_ut := c\<rparr>"
      have "new_node e s a = Some (p, s\<lparr>ut_nodes := (ut_nodes s)(p \<mapsto> ?n)\<rparr>, a2)" using p(1) r(1) c(1) True False by (simp add: new_node_def)
      moreover have "n_ut ?n = c" by simp
      ultimately show ?thesis using False v(2) c(2,3) by metis
    next
      case r0: False
      then obtain a3 where "mem_free e a2 p = Some a3" "valid a3 (insert p M - {p}) S" using mem_free [of a2 "insert p M" S p] r(2) by auto
      then show ?thesis using p(1) r(1) False r0 v(2) by (simp add: new_node_def)
    qed
  qed (use p in \<open>simp add: new_node_def\<close>)
qed

lemma delete_node_spec:
  assumes "valid a M S" "ut_nodes s x = Some n" "x \<in> M" "cp_capPtr (n_ut n) \<in> S"
  shows "\<exists>a'. delete_node e s a x = Some (s\<lparr>ut_nodes := (ut_nodes s)(x := None)\<rparr>, a') \<and> valid a' (M - {x}) (S - {cp_capPtr (n_ut n)})"
proof -
  obtain a1 where a1: "slot_free e (cap_delete e a (n_ut n)) (n_ut n) = Some a1" "valid a1 M (S - {cp_capPtr (n_ut n)})"
    using slot_free [OF kernel(2) [OF assms(1)] assms(4)] by blast
  obtain a2 where "mem_free e a1 x = Some a2" "valid a2 (M - {x}) (S - {cp_capPtr (n_ut n)})" using mem_free [OF a1(2) assms(3)] by blast
  then show ?thesis using a1(1) assms(2) by (simp add: delete_node_def)
qed

lemma holds_delete:
  assumes "holds valid s a M S" "ut_nodes s x = Some n" "n_parent n \<noteq> 0"
  shows "\<exists>a'. delete_node e s a x = Some (s\<lparr>ut_nodes := (ut_nodes s)(x := None)\<rparr>, a') \<and> holds valid (s\<lparr>ut_nodes := (ut_nodes s)(x := None)\<rparr>) a' M S"
proof -
  let ?m = "ut_nodes s" and ?c = "cp_capPtr (n_ut n)"
  have h: "valid a (M \<union> dom ?m) (S \<union> slots ?m)" "M \<inter> dom ?m = {}" "S \<inter> slots ?m = {}" "slots_inj ?m" using assms(1) by (auto simp: holds_def)
  note sd = slots_drop [of ?m x n, OF h(4) assms(2,3)]
  have "x \<in> M \<union> dom ?m" "?c \<in> S \<union> slots ?m" using assms(2) sd(3) by auto
  then obtain a' where a': "delete_node e s a x = Some (s\<lparr>ut_nodes := ?m(x := None)\<rparr>, a')" "valid a' (M \<union> dom ?m - {x}) (S \<union> slots ?m - {?c})"
    using delete_node_spec [OF h(1) assms(2)] by blast
  moreover have "M \<union> dom ?m - {x} = M \<union> dom (?m(x := None))" "S \<union> slots ?m - {?c} = S \<union> slots (?m(x := None))"
    using h(2,3) sd(1,3) assms(2) by auto
  ultimately show ?thesis using h(2,3) sd(1,2) by (auto simp: holds_def)
qed

lemma back_out:
  \<comment> \<open>giving up on a split leaves the allocator as it was\<close>
  assumes "valid a (insert r (insert l M)) (insert (cp_capPtr (n_ut gr)) (insert (cp_capPtr (n_ut gl)) S))" "l \<notin> M" "r \<notin> insert l M" "cp_capPtr (n_ut gl) \<notin> S"
    "cp_capPtr (n_ut gr) \<notin> insert (cp_capPtr (n_ut gl)) S" "dom (ut_nodes s) \<subseteq> M"
  defines "s2 \<equiv> s\<lparr>ut_nodes := (ut_nodes s)(l \<mapsto> gl, r \<mapsto> gr)\<rparr>"
  shows "\<exists>s3 a3 a4. delete_node e s2 a l = Some (s3, a3) \<and> delete_node e s3 a3 r = Some (s, a4) \<and> valid a4 M S"
proof -
  have lr: "l \<noteq> r" "ut_nodes s l = None" "ut_nodes s r = None" using assms(2,3,6) by auto
  let ?s3 = "s2\<lparr>ut_nodes := (ut_nodes s2)(l := None)\<rparr>"
  have n: "ut_nodes s2 l = Some gl" "ut_nodes ?s3 r = Some gr" using lr by (simp_all add: s2_def)
  obtain a3 where a3: "delete_node e s2 a l = Some (?s3, a3)" "valid a3 (insert r M) (insert (cp_capPtr (n_ut gr)) S)"
  proof -
    have "insert r (insert l M) - {l} = insert r M" "insert (cp_capPtr (n_ut gr)) (insert (cp_capPtr (n_ut gl)) S) - {cp_capPtr (n_ut gl)} = insert (cp_capPtr (n_ut gr)) S"
      using assms(2-5) by auto
    then show ?thesis using delete_node_spec [OF assms(1) n(1)] that by auto
  qed
  have "insert r M - {r} = M" "insert (cp_capPtr (n_ut gr)) S - {cp_capPtr (n_ut gr)} = S" using assms(3,5) by auto
  moreover have "?s3\<lparr>ut_nodes := (ut_nodes ?s3)(r := None)\<rparr> = s"
  proof -
    have "(ut_nodes ?s3)(r := None) = ut_nodes s" using lr by (auto simp: s2_def fun_eq_iff)
    then show ?thesis by (simp add: s2_def)
  qed
  ultimately obtain a4 where "delete_node e ?s3 a3 r = Some (s, a4)" "valid a4 M S" using delete_node_spec [OF a3(2) n(2)] by auto
  then show ?thesis using a3(1) by blast
qed

lemma split_node_linked:
  \<comment> \<open>both retypes have succeeded\<close>
  assumes u: "ut_inv s fl R" "node \<in> set (fl (pool, Suc i))" "1 \<le> i" and h: "holds valid s a0 M S"
    and v: "valid a (insert r (insert l (M \<union> dom (ut_nodes s)))) (insert (cp_capPtr (n_ut gr)) (insert (cp_capPtr (n_ut gl)) (S \<union> slots (ut_nodes s))))"
      "l \<noteq> 0" "r \<noteq> 0" "l \<notin> M \<union> dom (ut_nodes s)" "r \<notin> insert l (M \<union> dom (ut_nodes s))" "cp_capPtr (n_ut gl) \<notin> S \<union> slots (ut_nodes s)"
      "cp_capPtr (n_ut gr) \<notin> insert (cp_capPtr (n_ut gl)) (S \<union> slots (ut_nodes s))"
  shows "\<exists>s' fl' nl nr. split_link pool i node l r (s\<lparr>ut_nodes := (ut_nodes s)(l \<mapsto> gl, r \<mapsto> gr)\<rparr>) = Some s' \<and> holds valid s' a M S \<and> ut_inv s' fl' R \<and> untouched s s'
    \<and> l \<in> set (fl' (pool, i)) \<and> r \<in> set (fl' (pool, i)) \<and> ut_nodes s' l = Some nl \<and> ut_nodes s' r = Some nr
    \<and> n_paddr nl = n_paddr (the (ut_nodes s node)) \<and> n_paddr nr = n_paddr (the (ut_nodes s node)) + 2 ^ i"
proof -
  let ?fl = "fl((pool, Suc i) := remove1 node (fl (pool, Suc i)), (pool, i) := l # r # fl (pool, i))"
  have lr: "l \<notin> dom (ut_nodes s)" "r \<notin> dom (ut_nodes s)" "l \<noteq> r" using v(4,5) by auto
  have h': "M \<inter> dom (ut_nodes s) = {}" "S \<inter> slots (ut_nodes s) = {}" "slots_inj (ut_nodes s)" using h by (auto simp: holds_def)
  obtain s6 nl nr n where s6: "split_link pool i node l r (s\<lparr>ut_nodes := (ut_nodes s)(l \<mapsto> gl, r \<mapsto> gr)\<rparr>) = Some s6" "ut_inv s6 ?fl R"
    "ut_nodes s node = Some n" "ut_nodes s6 l = Some nl" "ut_nodes s6 r = Some nr" "n_ut nl = n_ut gl" "n_ut nr = n_ut gr" "n_parent nl = node" "n_parent nr = node"
    "n_paddr nl = n_paddr n" "n_paddr nr = n_paddr n + 2 ^ i"
    "same_core s (s6\<lparr>ut_nodes := (ut_nodes s6)(l := None, r := None)\<rparr>) {node}" "untouched s s6"
    by (rule split_link_spec [OF u lr v(2,3)])
  have "node \<noteq> 0" using lists_okD(7) [OF ut_invD(1) [OF u(1)] u(2)] by simp
  then have sl: "slots (ut_nodes s6) = insert (cp_capPtr (n_ut nr)) (insert (cp_capPtr (n_ut nl)) (slots (ut_nodes s)))" "slots_inj (ut_nodes s6)"
    "dom (ut_nodes s6) = insert r (insert l (dom (ut_nodes s)))"
    using slots_two [OF s6(12,4,5) lr(3)] h'(3) s6(6-9) v(6,7) by auto
  have "holds valid s6 a M S" using v h' sl(2) unfolding holds_def sl(1,3) s6(6,7) by (auto simp: insert_commute)
  then show ?thesis using s6 by (intro exI [of _ s6] exI [of _ ?fl] exI [of _ nl] exI [of _ nr]) simp
qed

lemma split_node_spec:
  assumes u: "ut_inv s fl R" "node \<in> set (fl (pool, Suc i))" "1 \<le> i" and h: "holds valid s a M S"
  shows "\<exists>err s' a'. split_node e pool i node s a = Some (err, s', a') \<and> holds valid s' a' M S
    \<and> (if err = 0 then \<exists>fl' l r nl nr. ut_inv s' fl' R \<and> untouched s s' \<and> l \<in> set (fl' (pool, i)) \<and> r \<in> set (fl' (pool, i)) \<and> ut_nodes s' l = Some nl \<and> ut_nodes s' r = Some nr
         \<and> n_paddr nl = n_paddr (the (ut_nodes s node)) \<and> n_paddr nr = n_paddr (the (ut_nodes s node)) + 2 ^ i
       else err = 1 \<and> s' = s)"
proof -
  let ?m = "ut_nodes s"
  let ?M = "M \<union> dom ?m" and ?S = "S \<union> slots ?m"
  have v: "valid a ?M ?S" using h by (simp add: holds_def)
  have same: "holds valid s a' M S" if "valid a' ?M ?S" for a' using h that by (simp add: holds_def)
  have fail: ?thesis if "split_node e pool i node s a = Some (1, s, a')" "valid a' ?M ?S" for a' using that same by simp
  obtain l s1 a1 where l: "new_node e s a = Some (l, s1, a1)"
    "if l = 0 then s1 = s \<and> valid a1 ?M ?S else l \<notin> ?M \<and> (\<exists>n. s1 = s\<lparr>ut_nodes := ?m(l \<mapsto> n)\<rparr> \<and> cp_capPtr (n_ut n) \<notin> ?S \<and> valid a1 (insert l ?M) (insert (cp_capPtr (n_ut n)) ?S))"
    using new_node_spec [OF v] by blast
  show ?thesis
  proof (cases "l = 0")
    case True
    then show ?thesis using l same by (simp add: split_node_def)
  next
    case l0: False
    then obtain gl where gl: "s1 = s\<lparr>ut_nodes := ?m(l \<mapsto> gl)\<rparr>" "l \<notin> ?M" "cp_capPtr (n_ut gl) \<notin> ?S" "valid a1 (insert l ?M) (insert (cp_capPtr (n_ut gl)) ?S)" using l(2) by auto
    have ml: "?m l = None" using gl(2) by auto
    obtain r s2 a2 where r: "new_node e s1 a1 = Some (r, s2, a2)"
      "if r = 0 then s2 = s1 \<and> valid a2 (insert l ?M) (insert (cp_capPtr (n_ut gl)) ?S) else r \<notin> insert l ?M \<and> (\<exists>n. s2 = s1\<lparr>ut_nodes := (ut_nodes s1)(r \<mapsto> n)\<rparr>
         \<and> cp_capPtr (n_ut n) \<notin> insert (cp_capPtr (n_ut gl)) ?S \<and> valid a2 (insert r (insert l ?M)) (insert (cp_capPtr (n_ut n)) (insert (cp_capPtr (n_ut gl)) ?S)))"
      using new_node_spec [OF gl(4)] by blast
    show ?thesis
    proof (cases "r = 0")
      case True
      then have v2: "valid a2 (insert l ?M) (insert (cp_capPtr (n_ut gl)) ?S)" "s2 = s1" using r(2) by auto
      have "s1\<lparr>ut_nodes := (ut_nodes s1)(l := None)\<rparr> = s" using ml by (simp add: gl(1) fun_upd_idem)
      moreover have "insert l ?M - {l} = ?M" "insert (cp_capPtr (n_ut gl)) ?S - {cp_capPtr (n_ut gl)} = ?S" using gl(2,3) by auto
      ultimately obtain a3 where "delete_node e s1 a2 l = Some (s, a3)" "valid a3 ?M ?S" using delete_node_spec [OF v2(1), of s1 l gl] gl(1) by auto
      then show ?thesis using l(1) r(1) l0 True v2(2) same by (simp add: split_node_def)
    next
      case r0: False
      then obtain gr where gr: "s2 = s\<lparr>ut_nodes := ?m(l \<mapsto> gl, r \<mapsto> gr)\<rparr>" "r \<notin> insert l ?M" "cp_capPtr (n_ut gr) \<notin> insert (cp_capPtr (n_ut gl)) ?S"
        "valid a2 (insert r (insert l ?M)) (insert (cp_capPtr (n_ut gr)) (insert (cp_capPtr (n_ut gl)) ?S))" using r(2) gl(1) by auto
      obtain n where n: "?m node = Some n" using free_node [OF u(1,2)] by blast
      have s2: "ut_nodes s2 node = Some n" "ut_nodes s2 l = Some gl" "ut_nodes s2 r = Some gr" using n gl(2) gr(1,2) by auto
      obtain e1 a3 where e1: "retype e a2 (cp_capPtr (n_ut n)) 0 (int i) (n_ut gl) = (e1, a3)" by fastforce
      obtain e2 a4 where e2: "retype e a3 (cp_capPtr (n_ut n)) 0 (int i) (n_ut gr) = (e2, a4)" by fastforce
      note v3 = kernel(1) [OF gr(4) e1]
      note v4 = kernel(1) [OF v3 e2]
      note out = back_out [OF _ gl(2) gr(2) gl(3) gr(3), of _ s, folded gr(1)]
      have run: "split_node e pool i node s a =
        (if e1 \<noteq> 0 then do { (s, a) \<leftarrow> delete_node e s2 a3 l; (s, a) \<leftarrow> delete_node e s a r; Some (1, s, a) }
         else if e2 \<noteq> 0 then do { (s, a) \<leftarrow> delete_node e s2 (cap_delete e a4 (n_ut gl)) l; (s, a) \<leftarrow> delete_node e s a r; Some (1, s, a) }
         else do { s \<leftarrow> split_link pool i node l r s2; Some (0, s, a4) })"
        unfolding split_node_def using l(1) r(1) l0 r0 s2 e1 e2 by simp
      consider "e1 \<noteq> 0" | "e1 = 0" "e2 \<noteq> 0" | "e1 = 0" "e2 = 0" by blast
      then show ?thesis
      proof cases
        case 1
        then have "\<exists>a'. split_node e pool i node s a = Some (1, s, a') \<and> valid a' ?M ?S" using run out [OF v3] by auto
        then show ?thesis using fail by blast
      next
        case 2
        then have "\<exists>a'. split_node e pool i node s a = Some (1, s, a') \<and> valid a' ?M ?S" using run out [OF kernel(2) [OF v4, of "n_ut gl"]] by auto
        then show ?thesis using fail by blast
      next
        case 3
        obtain s' fl' nl nr where *: "split_link pool i node l r s2 = Some s'" "holds valid s' a4 M S" "ut_inv s' fl' R" "untouched s s'" "l \<in> set (fl' (pool, i))" "r \<in> set (fl' (pool, i))"
          "ut_nodes s' l = Some nl" "ut_nodes s' r = Some nr" "n_paddr nl = n_paddr (the (?m node))" "n_paddr nr = n_paddr (the (?m node)) + 2 ^ i"
          using split_node_linked [OF u h v4 l0 r0 gl(2) gr(2) gl(3) gr(3), folded gr(1)] by blast
        have "split_node e pool i node s a = Some (0, s', a4)" using run 3 *(1) by simp
        then show ?thesis using *(2-) by (intro exI [of _ 0] exI [of _ s'] exI [of _ a4]) (simp, blast)
      qed
    qed
  qed
qed

lemma refill_spec:
  assumes u: "ut_inv s fl R" and h: "holds valid s a M S" and i: "1 \<le> i" "i < CONFIG_WORD_SIZE"
  shows "\<exists>err s' a' fl'. refill_pool e pool paddr i s a = Some (err, s', a') \<and> holds valid s' a' M S \<and> ut_inv s' fl' R \<and> untouched s s'
    \<and> (err = 0 \<longrightarrow> (\<exists>x\<in>set (fl' (pool, i)). suits paddr i (the (ut_nodes s' x))))"
  using i
proof (induction "CONFIG_WORD_SIZE - i" arbitrary: i)
  case (Suc k)
  obtain p y where y: "get_head s (pool, i) = Some p" "(if paddr = ALLOCMAN_NO_PADDR then Some p else find_node (ut_covers paddr i) s p) = Some y"
    "y = 0 \<Longrightarrow> \<forall>x\<in>set (fl (pool, i)). \<not> suits paddr i (the (ut_nodes s x))" "y \<noteq> 0 \<Longrightarrow> y \<in> set (fl (pool, i)) \<and> suits paddr i (the (ut_nodes s y))"
    using look [OF u Suc.prems(2)] by metis
  show ?case
  proof (cases "y \<noteq> 0 \<or> CONFIG_WORD_SIZE - 2 \<le> i")
    case True
    then have "refill_pool e pool paddr i s a = Some (if y \<noteq> 0 then 0 else 1, s, a)" using y(1,2) by (subst refill_pool.simps) simp
    then show ?thesis using u h untouched_refl [of s] y(4) by (cases "y = 0") (simp, blast)+
  next
    case False
    have k: "k = CONFIG_WORD_SIZE - Suc i" "Suc i < CONFIG_WORD_SIZE" using Suc.hyps(2) False by (auto simp: CONFIG_WORD_SIZE_def)
    obtain err s1 a1 fl1 where r: "refill_pool e pool paddr (Suc i) s a = Some (err, s1, a1)" "holds valid s1 a1 M S" "ut_inv s1 fl1 R" "untouched s s1"
      "err = 0 \<longrightarrow> (\<exists>x\<in>set (fl1 (pool, Suc i)). suits paddr (Suc i) (the (ut_nodes s1 x)))"
      using Suc.hyps(1) [OF k(1) _ k(2)] by (metis le_SucI Suc.prems(1))
    show ?thesis
    proof (cases "err = 0")
      case e0: True
      obtain p1 z where z: "get_head s1 (pool, Suc i) = Some p1" "(if paddr = ALLOCMAN_NO_PADDR then Some p1 else find_node (ut_covers paddr (Suc i)) s1 p1) = Some z"
        "z \<in> set (fl1 (pool, Suc i))" "suits paddr (Suc i) (the (ut_nodes s1 z))" "z \<noteq> 0"
      proof -
        obtain p1 z where z: "get_head s1 (pool, Suc i) = Some p1" "(if paddr = ALLOCMAN_NO_PADDR then Some p1 else find_node (ut_covers paddr (Suc i)) s1 p1) = Some z"
          "z = 0 \<Longrightarrow> \<forall>x\<in>set (fl1 (pool, Suc i)). \<not> suits paddr (Suc i) (the (ut_nodes s1 x))" "z \<noteq> 0 \<Longrightarrow> z \<in> set (fl1 (pool, Suc i)) \<and> suits paddr (Suc i) (the (ut_nodes s1 z))"
          using look [OF r(3) k(2)] by metis
        have "z \<noteq> 0" using r(5) e0 z(3) by blast
        then show ?thesis using that z by blast
      qed
      obtain err' s' a' where s': "split_node e pool i z s1 a1 = Some (err', s', a')" "holds valid s' a' M S"
        "if err' = 0 then \<exists>fl' l r nl nr. ut_inv s' fl' R \<and> untouched s1 s' \<and> l \<in> set (fl' (pool, i)) \<and> r \<in> set (fl' (pool, i)) \<and> ut_nodes s' l = Some nl \<and> ut_nodes s' r = Some nr
           \<and> n_paddr nl = n_paddr (the (ut_nodes s1 z)) \<and> n_paddr nr = n_paddr (the (ut_nodes s1 z)) + 2 ^ i else err' = 1 \<and> s' = s1"
        using split_node_spec [OF r(3) z(3) Suc.prems(1) r(2)] by blast
      have run: "refill_pool e pool paddr i s a = Some (err', s', a')"
        using y(1,2) False r(1) e0 z(1,2,5) s'(1) by (subst refill_pool.simps) (auto simp: ok_def)
      show ?thesis
      proof (cases "err' = 0")
        case True
        then obtain fl' l r' nl nr where f: "ut_inv s' fl' R" "untouched s1 s'" "l \<in> set (fl' (pool, i))" "r' \<in> set (fl' (pool, i))" "ut_nodes s' l = Some nl" "ut_nodes s' r' = Some nr"
          "n_paddr nl = n_paddr (the (ut_nodes s1 z))" "n_paddr nr = n_paddr (the (ut_nodes s1 z)) + 2 ^ i" using s'(3) by auto
        obtain n where n: "ut_nodes s1 z = Some n" using free_node [OF r(3) z(3)] by blast
        have "suits paddr i nl \<or> suits paddr i nr"
          using z(4) covers_region [OF r(3) z(3) n] covers_region [OF f(1,3,5)] covers_region [OF f(1,4,6)] f(7,8) n by (auto simp: suits_def)
        then have "\<exists>x\<in>set (fl' (pool, i)). suits paddr i (the (ut_nodes s' x))" using f(3-6) by (metis option.sel)
        then show ?thesis using run s'(2) f(1) untouched_trans [OF r(4) f(2)] by blast
      next
        case False
        then show ?thesis using run s'(2,3) r(3,4) by (auto intro!: exI [of _ fl1])
      qed
    next
      case e0: False
      then have "refill_pool e pool paddr i s a = Some (1, s1, a1)" using y(1,2) False r(1) by (subst refill_pool.simps) auto
      then show ?thesis using r(2-4) by (auto intro!: exI [of _ fl1])
    qed
  qed
qed simp

lemma choose_at_spec:
  assumes u: "ut_inv s fl R" and h: "holds valid s a M S" and i: "1 \<le> i" "i < CONFIG_WORD_SIZE" and al: "2 ^ i dvd paddr" "paddr \<noteq> ALLOCMAN_NO_PADDR"
  shows "\<exists>res s' a' fl'. choose_at e s a i paddr dev = Some (res, s', a') \<and> holds valid s' a' M S \<and> ut_inv s' fl' R \<and> untouched s s'
    \<and> (\<forall>pool node. res = Some (pool, node) \<longrightarrow> node \<in> set (fl' (pool, i)) \<and> n_paddr (the (ut_nodes s' node)) = paddr)"
proof -
  have ft: "\<exists>b. find_head_for_paddr s pool paddr i = Some b" for pool unfolding find_head_for_paddr_def by (rule find_head_total [OF u]) simp
  obtain b1 where b1: "(if dev then find_head_for_paddr s dev_heads paddr i else Some False) = Some b1" using ft by (cases dev) auto
  obtain b2 where b2: "(if dev \<and> \<not> b1 then find_head_for_paddr s dev_mem_heads paddr i else Some False) = Some b2" using ft by (cases "dev \<and> \<not> b1") auto
  obtain b3 where b3: "(if \<not> b1 \<and> \<not> b2 then find_head_for_paddr s heads paddr i else Some False) = Some b3" using ft by (cases "\<not> b1 \<and> \<not> b2") auto
  show ?thesis
  proof (cases "\<not> b1 \<and> \<not> b2 \<and> \<not> b3")
    case True
    then have "choose_at e s a i paddr dev = Some (None, s, a)" unfolding choose_at_def b1 Option.bind.bind_lunit b2 b3 by simp
    then show ?thesis using u h untouched_refl [of s] by blast
  next
    case False
    define pool where "pool = (if b1 then dev_heads else if b2 then dev_mem_heads else heads)"
    obtain err s' a' fl' where r: "refill_pool e pool paddr i s a = Some (err, s', a')" "holds valid s' a' M S" "ut_inv s' fl' R" "untouched s s'"
      "err = 0 \<longrightarrow> (\<exists>x\<in>set (fl' (pool, i)). suits paddr i (the (ut_nodes s' x)))" using refill_spec [OF u h i] by blast
    let ?P = "\<lambda>n. n_paddr n \<noteq> ALLOCMAN_NO_PADDR \<and> n_paddr n = paddr"
    obtain p y where y: "get_head s' (pool, i) = Some p" "find_node ?P s' p = Some y" "y = 0 \<Longrightarrow> \<forall>x\<in>set (fl' (pool, i)). \<not> ?P (the (ut_nodes s' x))"
      "y \<noteq> 0 \<Longrightarrow> y \<in> set (fl' (pool, i)) \<and> ?P (the (ut_nodes s' y))" using find_free [OF r(3), of "(pool, i)" ?P] i(2) by auto
    have run: "choose_at e s a i paddr dev = (if err \<noteq> 0 then Some (None, s', a') else do { ok (y \<noteq> 0); Some (Some (pool, y), s', a') })"
      unfolding choose_at_def b1 Option.bind.bind_lunit b2 b3 if_not_P [OF False] Let_def pool_def [symmetric] r(1) prod.case using y(1,2) by simp
    show ?thesis
    proof (cases "err = 0")
      case True
      then obtain x where x: "x \<in> set (fl' (pool, i))" "suits paddr i (the (ut_nodes s' x))" using r(5) by blast
      obtain n where n: "ut_nodes s' x = Some n" "n_origin n = (pool, i)" "size_ok n" using free_node [OF r(3) x(1)] by blast
      have "n_paddr n \<le> paddr \<and> paddr < n_paddr n + 2 ^ i" using x(2) al(2) covers_region [OF r(3) x(1) n(1)] n(1) by (simp add: suits_def)
      then have "n_paddr n = paddr" using aligned_start [of i "n_paddr n" paddr] al(1) n(2,3) by (simp add: size_ok_def)
      then have "?P (the (ut_nodes s' x))" using n(1) al(2) by simp
      then have "y \<noteq> 0" using y(3) x(1) by blast
      then show ?thesis using run True r(2-4) y(4) by (auto simp: ok_def intro!: exI [of _ fl'])
    next
      case False
      then have "choose_at e s a i paddr dev = Some (None, s', a')" using run by simp
      then show ?thesis using r(2-4) by blast
    qed
  qed
qed

lemma refill_any:
  assumes u: "ut_inv s fl R" and h: "holds valid s a M S" and i: "1 \<le> i" "i < CONFIG_WORD_SIZE"
  obtains err s' a' fl' p where "refill_pool e pool ALLOCMAN_NO_PADDR i s a = Some (err, s', a')" "holds valid s' a' M S" "ut_inv s' fl' R" "untouched s s'"
    "get_head s' (pool, i) = Some p" "err = 0 \<Longrightarrow> p \<in> set (fl' (pool, i))"
proof -
  obtain err s' a' fl' where r: "refill_pool e pool ALLOCMAN_NO_PADDR i s a = Some (err, s', a')" "holds valid s' a' M S" "ut_inv s' fl' R" "untouched s s'"
    "err = 0 \<longrightarrow> (\<exists>x\<in>set (fl' (pool, i)). suits ALLOCMAN_NO_PADDR i (the (ut_nodes s' x)))" using refill_spec [OF u h i] by blast
  have "get_head s' (pool, i) = Some (if fl' (pool, i) = [] then 0 else hd (fl' (pool, i)))" using lists_okD(4) [OF ut_invD(1) [OF r(3)], of "(pool, i)"] i(2) by simp
  moreover have "(if fl' (pool, i) = [] then 0 else hd (fl' (pool, i))) \<in> set (fl' (pool, i))" if "err = 0" using r(5) that by (cases "fl' (pool, i)") auto
  ultimately show ?thesis using that r by blast
qed

lemma choose_any_spec:
  assumes u: "ut_inv s fl R" and h: "holds valid s a M S" and i: "1 \<le> i" "i < CONFIG_WORD_SIZE"
  shows "\<exists>res s' a' fl'. choose_any e s a i dev = Some (res, s', a') \<and> holds valid s' a' M S \<and> ut_inv s' fl' R \<and> untouched s s'
    \<and> (\<forall>pool node. res = Some (pool, node) \<longrightarrow> node \<in> set (fl' (pool, i)))"
proof -
  obtain b s1 a1 fl1 p1 where d: "(if dev then do { (error, s, a) \<leftarrow> refill_pool e dev_mem_heads ALLOCMAN_NO_PADDR i s a; Some (error = 0, s, a) } else Some (False, s, a)) = Some (b, s1, a1)"
    "holds valid s1 a1 M S" "ut_inv s1 fl1 R" "untouched s s1" "get_head s1 (dev_mem_heads, i) = Some p1" "b \<Longrightarrow> p1 \<in> set (fl1 (dev_mem_heads, i))"
  proof (cases dev)
    case True
    obtain err s' a' fl' p where "refill_pool e dev_mem_heads ALLOCMAN_NO_PADDR i s a = Some (err, s', a')" "holds valid s' a' M S" "ut_inv s' fl' R" "untouched s s'"
      "get_head s' (dev_mem_heads, i) = Some p" "err = 0 \<Longrightarrow> p \<in> set (fl' (dev_mem_heads, i))" using refill_any [OF u h i] by metis
    then show ?thesis using that [of "err = 0" s' a' fl' p] True by simp
  next
    case False
    have "get_head s (dev_mem_heads, i) \<noteq> None" using lists_okD(4) [OF ut_invD(1) [OF u], of "(dev_mem_heads, i)"] i(2) by simp
    then show ?thesis using that [of False s a fl] False u h untouched_refl [of s] by auto
  qed
  show ?thesis
  proof (cases b)
    case True
    have "choose_any e s a i dev = Some (Some (dev_mem_heads, p1), s1, a1)" unfolding choose_any_def d(1) using d(5) True by simp
    then show ?thesis using d(2-4) d(6) [OF True] by blast
  next
    case False
    obtain err s' a' fl' p where r: "refill_pool e heads ALLOCMAN_NO_PADDR i s1 a1 = Some (err, s', a')" "holds valid s' a' M S" "ut_inv s' fl' R" "untouched s1 s'"
      "get_head s' (heads, i) = Some p" "err = 0 \<Longrightarrow> p \<in> set (fl' (heads, i))" using refill_any [OF d(3,2) i] by metis
    have "choose_any e s a i dev = Some (if err \<noteq> 0 then None else Some (heads, p), s', a')" unfolding choose_any_def d(1) using r(1,5) False by simp
    moreover have "\<forall>pool node. (if err \<noteq> 0 then None else Some (heads, p)) = Some (pool, node) \<longrightarrow> node \<in> set (fl' (pool, i))" using r(6) by simp
    ultimately show ?thesis using r(2,3) untouched_trans [OF d(4) r(4)] by blast
  qed
qed

lemma alloc_spec:
  assumes u: "ut_inv s fl R" and h: "holds valid s a M S" and i: "i < CONFIG_WORD_SIZE" and al: "paddr \<noteq> ALLOCMAN_NO_PADDR \<Longrightarrow> 2 ^ i dvd paddr"
  shows "\<exists>node err s' a' fl'. utspace_split_alloc e s a i type slot paddr dev = Some (node, err, s', a') \<and> holds valid s' a' M S \<and> ut_inv s' fl' R
    \<and> (if err = 0 then node \<notin> used (ut_nodes s) \<and> used (ut_nodes s') = insert node (used (ut_nodes s)) \<and> (\<forall>x\<in>used (ut_nodes s). node_core (the (ut_nodes s' x)) = node_core (the (ut_nodes s x)))
         \<and> (\<exists>n. ut_nodes s' node = Some n \<and> snd (n_origin n) = i \<and> (paddr \<noteq> ALLOCMAN_NO_PADDR \<longrightarrow> n_paddr n = paddr))
       else node = 0 \<and> err = 1 \<and> untouched s s')"
proof (cases "int i \<noteq> vka_get_object_size type (get_sel4_object_size type (int i)) \<or> i = 0")
  case True
  then have "utspace_split_alloc e s a i type slot paddr dev = Some (0, 1, s, a)" by (simp add: utspace_split_alloc_def Let_def)
  then show ?thesis using u h untouched_refl [of s] by simp blast
next
  case False
  then have i1: "1 \<le> i" by simp
  let ?c = "if paddr \<noteq> ALLOCMAN_NO_PADDR then choose_at e s a i paddr dev else choose_any e s a i dev"
  let ?sz = "get_sel4_object_size type (int i)"
  obtain res s1 a1 fl1 where c: "?c = Some (res, s1, a1)" "holds valid s1 a1 M S" "ut_inv s1 fl1 R" "untouched s s1"
    "\<And>pool node. res = Some (pool, node) \<Longrightarrow> node \<in> set (fl1 (pool, i)) \<and> (paddr \<noteq> ALLOCMAN_NO_PADDR \<longrightarrow> n_paddr (the (ut_nodes s1 node)) = paddr)"
  proof (cases "paddr = ALLOCMAN_NO_PADDR")
    case True
    then show ?thesis using choose_any_spec [OF u h i1 i] that by fastforce
  next
    case False
    then show ?thesis using choose_at_spec [OF u h i1 i al] that by fastforce
  qed
  have run: "utspace_split_alloc e s a i type slot paddr dev = (case res of None \<Rightarrow> Some (0, 1, s1, a1)
    | Some (pool, node) \<Rightarrow> do { n \<leftarrow> ut_nodes s1 node;
                 let (sel4_error, a) = retype e a1 (cp_capPtr (n_ut n)) type ?sz slot;
                 if sel4_error \<noteq> 0 then Some (0, 1, s1, a)
                 else do { s \<leftarrow> remove_node s1 (pool, i) node; Some (node, 0, s, a) } })"
    unfolding utspace_split_alloc_def Let_def if_not_P [OF False] c(1) by simp
  show ?thesis
  proof (cases res)
    case None
    then show ?thesis using run c(2-4) by (auto intro!: exI [of _ fl1])
  next
    case (Some pn)
    obtain pool node where pn: "res = Some (pool, node)" using Some by (cases pn) auto
    note nd = c(5) [OF pn]
    obtain n where n: "ut_nodes s1 node = Some n" using free_node [OF c(3)] nd by blast
    obtain se a2 where se: "retype e a1 (cp_capPtr (n_ut n)) type ?sz slot = (se, a2)" by fastforce
    have h2: "holds valid s1 a2 M S" using c(2) kernel(1) [OF _ se] by (simp add: holds_def)
    show ?thesis
    proof (cases "se = 0")
      case True
      obtain s' n' where s': "remove_node s1 (pool, i) node = Some s'" "ut_inv s' (fl1((pool, i) := remove1 node (fl1 (pool, i)))) R" "same_core s1 s' {node}"
        "used (ut_nodes s') = insert node (used (ut_nodes s1))" "node \<notin> used (ut_nodes s1)" "ut_nodes s' node = Some n'" "n_origin n' = (pool, i)"
        using take_spec [OF c(3), of node "(pool, i)"] nd by metis
      have "utspace_split_alloc e s a i type slot paddr dev = Some (node, 0, s', a2)" using run pn n se True s'(1) by simp
      moreover have "holds valid s' a2 M S" using h2 slots_same [OF s'(3)] same_core_dom [OF s'(3)] by (simp add: holds_def)
      moreover have us: "used (ut_nodes s1) = used (ut_nodes s)" using c(4) by (simp add: untouched_def)
      moreover have "node_core (the (ut_nodes s' x)) = node_core (the (ut_nodes s x))" if x: "x \<in> used (ut_nodes s)" for x
      proof -
        obtain k where k: "ut_nodes s1 x = Some k" using x us by (metis usedE)
        have "node_core (the (ut_nodes s' x)) = node_core (the (ut_nodes s1 x))" using same_coreD [OF s'(3) k] k by auto
        then show ?thesis using c(4) x by (simp add: untouched_def)
      qed
      moreover have "paddr \<noteq> ALLOCMAN_NO_PADDR \<longrightarrow> n_paddr n' = paddr" using nd n same_coreD [OF s'(3) n] s'(6) core_fields [of n' n] by auto
      ultimately show ?thesis using s'(2,4-7) by auto
    next
      case False
      then have "utspace_split_alloc e s a i type slot paddr dev = Some (0, 1, s1, a2)" using run pn n se by simp
      then show ?thesis using h2 c(3,4) by (auto intro!: exI [of _ fl1])
    qed
  qed
qed

lemma release_spec:
  assumes "ut_inv s fl R" "holds valid s a M S" "x \<in> used (ut_nodes s)"
  shows "\<exists>s' a' fl'. utspace_split_free e s a x = Some (s', a') \<and> holds valid s' a' M S \<and> ut_inv s' fl' R \<and> used (ut_nodes s') = used (ut_nodes s) - {x}
    \<and> (\<forall>z\<in>used (ut_nodes s) - {x}. node_core (the (ut_nodes s' z)) = node_core (the (ut_nodes s z)))"
  using assms
proof (induction "CONFIG_WORD_SIZE - snd (n_origin (the (ut_nodes s x)))" arbitrary: s a fl x rule: less_induct)
  case less
  note u = less.prems(1) and h = less.prems(2)
  note inv = ut_invD [OF u]
  let ?m = "ut_nodes s"
  obtain n where n: "?m x = Some n" "\<not> inner ?m x" "n_head n \<noteq> None" using less.prems(3) by (rule usedE)
  have head: "n_head n = Some (n_origin n)" using tree_okD(4) [OF inv(2) n(1)] n(3) by simp
  let ?y = "n_sibling n" and ?q = "n_parent n"
  obtain b where b: "(if ?q = 0 then Some False else do { m \<leftarrow> ?m ?y; Some (n_head m = None) }) = Some b" "b \<longleftrightarrow> ?q \<noteq> 0 \<and> n_head (the (?m ?y)) = None"
    using tree_okD(5) [OF inv(2) n(1)] by (cases "?q = 0") (auto simp: family_def)
  have run: "utspace_split_free e s a x = (if b then do { m \<leftarrow> ?m ?y; s \<leftarrow> remove_node s (n_origin m) ?y; (s, a) \<leftarrow> delete_node e s a ?y; (s, a) \<leftarrow> delete_node e s a x; utspace_split_free e s a ?q }
     else do { s \<leftarrow> insert_node s (n_origin n) x; Some (s, a) })"
    by (subst utspace_split_free.simps) (simp only: n(1) Option.bind.bind_lunit Let_def b(1) head)
  show ?case
  proof (cases b)
    case False
    obtain s' where s': "insert_node s (n_origin n) x = Some s'" "ut_inv s' (fl(n_origin n := x # fl (n_origin n))) R" "same_core s s' {x}" "used (ut_nodes s') = used ?m - {x}"
      using put_spec [OF u less.prems(3) n(1)] by blast
    have "holds valid s' a M S" using h slots_same [OF s'(3)] same_core_dom [OF s'(3)] by (simp add: holds_def)
    moreover have "node_core (the (ut_nodes s' z)) = node_core (the (?m z))" if "z \<in> used ?m - {x}" for z
      using that same_coreD [OF s'(3)] by (fastforce elim: usedE)
    ultimately show ?thesis using run False s'(1,2,4) by (simp del: fun_upd_apply) blast
  next
    case True
    then have q: "?q \<noteq> 0" "n_head (the (?m ?y)) = None" using b(2) by auto
    obtain k where k: "?m ?y = Some k" "?y \<noteq> x" "n_parent k = ?q" using tree_okD(5) [OF inv(2) n(1) q(1)] by (auto simp: family_def)
    have yf: "?y \<in> set (fl (n_origin k))" using inv(3) k(1) q(2) by simp
    obtain s1 k0 where s1: "remove_node s (n_origin k) ?y = Some s1" "ut_inv s1 (fl(n_origin k := remove1 ?y (fl (n_origin k)))) R" "same_core s s1 {?y}"
      "used (ut_nodes s1) = insert ?y (used ?m)" "?y \<notin> used ?m"
      "ut_nodes s1 ?y = Some k0" "n_head k0 = Some (n_origin k)" "n_origin k0 = n_origin k"
      by (rule take_spec [OF u yf])
    let ?fl1 = "fl(n_origin k := remove1 ?y (fl (n_origin k)))"
    have h1: "holds valid s1 a M S" using h slots_same [OF s1(3)] same_core_dom [OF s1(3)] by (simp add: holds_def)
    obtain k1 where k1: "ut_nodes s1 ?y = Some k1" "n_parent k1 = ?q" using same_coreD [OF s1(3) k(1)] core_fields k(3) by metis
    obtain n1 where n1: "ut_nodes s1 x = Some n1" "node_core n1 = node_core n" using same_coreD [OF s1(3) n(1)] by blast
    note f1 = core_fields [OF n1(2)]
    let ?s2 = "s1\<lparr>ut_nodes := (ut_nodes s1)(?y := None)\<rparr>"
    obtain a2 where a2: "delete_node e s1 a ?y = Some (?s2, a2)" "holds valid ?s2 a2 M S" using holds_delete [OF h1 k1(1)] k1(2) q(1) by auto
    have n2: "ut_nodes ?s2 x = Some n1" using n1(1) k(2) by simp
    let ?s3 = "s1\<lparr>ut_nodes := (ut_nodes s1)(x := None, ?y := None)\<rparr>"
    have s3: "?s2\<lparr>ut_nodes := (ut_nodes ?s2)(x := None)\<rparr> = ?s3" using k(2) by (simp add: fun_upd_twist)
    obtain a3 where a3: "delete_node e ?s2 a2 x = Some (?s3, a3)" "holds valid ?s3 a3 M S" using holds_delete [OF a2(2) n2] f1 q(1) s3 by auto
    have xu: "x \<in> used (ut_nodes s1)" "n_sibling n1 \<in> used (ut_nodes s1)" "n_parent n1 \<noteq> 0" using s1(4) less.prems(3) f1 q(1) by auto
    note mg = merge_spec [OF s1(2) n1(1) xu]
    have fq: "n_parent n1 = ?q" "n_sibling n1 = ?y" "n_origin n1 = n_origin n" using f1 by auto
    have u3: "ut_inv ?s3 ?fl1 R" "?q \<notin> insert ?y (used ?m)" using mg(1,3) unfolding fq s1(4) by blast+
    have "used (ut_nodes ?s3) = insert ?q (insert ?y (used ?m) - {x, ?y})" using mg(2) unfolding fq s1(4) .
    then have u4: "used (ut_nodes ?s3) = insert ?q (used ?m - {x})" using s1(5) by auto
    obtain p where p: "ut_nodes ?s3 ?q = Some p" "snd (n_origin p) = Suc (snd (n_origin n))" using mg(4) unfolding fq by blast
    have w: "snd (n_origin p) < CONFIG_WORD_SIZE" using tree_okD(2) [OF ut_invD(2) [OF u3(1)] p(1)] by (simp add: size_ok_def)
    have "CONFIG_WORD_SIZE - snd (n_origin (the (ut_nodes ?s3 ?q))) < CONFIG_WORD_SIZE - snd (n_origin (the (?m x)))" unfolding p(1) n(1) option.sel using p(2) w by linarith
    from less.hyps [OF this u3(1) a3(2)] obtain s' a' fl' where s': "utspace_split_free e ?s3 a3 ?q = Some (s', a')" "holds valid s' a' M S" "ut_inv s' fl' R"
      "used (ut_nodes s') = used (ut_nodes ?s3) - {?q}" "\<forall>z\<in>used (ut_nodes ?s3) - {?q}. node_core (the (ut_nodes s' z)) = node_core (the (ut_nodes ?s3 z))"
      unfolding u4 by blast
    have us: "used (ut_nodes ?s3) - {?q} = used ?m - {x}" unfolding u4 using u3(2) by blast
    have "node_core (the (ut_nodes s' z)) = node_core (the (?m z))" if z: "z \<in> used ?m - {x}" for z
    proof -
      obtain j where j: "?m z = Some j" using z by (blast elim: usedE)
      have "z \<noteq> ?y" using z s1(5) by blast
      then have "node_core (the (ut_nodes ?s3 z)) = node_core j" using same_coreD [OF s1(3) j] z by auto
      then show ?thesis using s'(5) z j unfolding us by simp
    qed
    moreover have "utspace_split_free e s a x = Some (s', a')" using run True k(1) s1(1) a2(1) a3(1) s'(1) by simp
    ultimately show ?thesis using s'(2-4) unfolding us by blast
  qed
qed

lemma insert_new_node_spec:
  assumes u: "ut_inv s fl R" and h: "holds valid s a M S" and f: "fits R ((ut, i, p) # uts)"
  shows "\<exists>err s' a' fl' R'. insert_new_node e s a (pool, i) ut p = Some (err, s', a') \<and> holds valid s' a' M S \<and> ut_inv s' fl' R' \<and> untouched s s'
    \<and> R' = (if err = 0 then R \<union> {p..<p + 2 ^ i} else R)"
proof -
  let ?m = "ut_nodes s"
  have v: "valid a (M \<union> dom ?m) (S \<union> slots ?m)" using h by (simp add: holds_def)
  obtain x a1 where x: "mem_alloc e a = Some (x, a1)" "if x = 0 then valid a1 (M \<union> dom ?m) (S \<union> slots ?m) else x \<notin> M \<union> dom ?m \<and> valid a1 (insert x (M \<union> dom ?m)) (S \<union> slots ?m)"
    using mem_alloc [OF v] by blast
  show ?thesis
  proof (cases "x = 0")
    case True
    then have "insert_new_node e s a (pool, i) ut p = Some (1, s, a1)" "holds valid s a1 M S" using x h by (simp_all add: insert_new_node_def holds_def)
    then show ?thesis using u untouched_refl [of s] by fastforce
  next
    case False
    define g where "g = (fresh_node e x)\<lparr>n_parent := 0, n_ut := ut, n_paddr := p, n_origin := (pool, i)\<rparr>"
    have g: "n_parent g = 0" "size_ok g" "region g \<inter> R = {}" "n_origin g = (pool, i)" "region g = {p..<p + 2 ^ i}" using f by (auto simp: g_def size_ok_def region_def)
    have xm: "x \<notin> dom ?m" "?m x = None" using x(2) False by auto
    obtain s' fl' where s': "insert_node (s\<lparr>ut_nodes := ?m(x \<mapsto> g)\<rparr>) (n_origin g) x = Some s'" "ut_inv s' fl' (R \<union> region g)" "untouched s s'"
      "same_core (s\<lparr>ut_nodes := ?m(x \<mapsto> g)\<rparr>) s' {x}" using root_spec [OF u xm(1) False g(1-3)] by blast
    have run: "insert_new_node e s a (pool, i) ut p = Some (0, s', a1)" using x(1) False s'(1) unfolding g(4) insert_new_node_def g_def by simp
    have "dom (ut_nodes s') = insert x (dom ?m)" "slots (ut_nodes s') = slots ?m" "slots_inj (ut_nodes s') = slots_inj ?m"
      using same_core_dom [OF s'(4)] slots_same [OF s'(4)] slots_root [of ?m x g, OF xm(2) g(1)] by simp_all
    then have "holds valid s' a1 M S" using x(2) False h by (auto simp: holds_def)
    then show ?thesis using run s'(2,3) g(5) by fastforce
  qed
qed

lemma add_uts_spec:
  assumes "ut_inv s fl R" "holds valid s a M S" "fits R uts"
  shows "\<exists>err s' a' fl' R'. add_uts e pool uts s a = Some (err, s', a') \<and> holds valid s' a' M S \<and> ut_inv s' fl' R' \<and> untouched s s'
    \<and> R \<subseteq> R' \<and> R' \<subseteq> R \<union> spans uts \<and> (err = 0 \<longrightarrow> R' = R \<union> spans uts)"
  using assms
proof (induction uts arbitrary: s a fl R)
  case Nil
  then show ?case using untouched_refl [of s] by fastforce
next
  case (Cons w uts)
  obtain ut i p where w: "w = (ut, i, p)" by (cases w) auto
  have f: "fits R ((ut, i, p) # uts)" using Cons.prems(3) w by simp
  obtain err s1 a1 fl1 R1 where n: "insert_new_node e s a (pool, i) ut p = Some (err, s1, a1)" "holds valid s1 a1 M S" "ut_inv s1 fl1 R1" "untouched s s1"
    "R1 = (if err = 0 then R \<union> {p..<p + 2 ^ i} else R)" using insert_new_node_spec [OF Cons.prems(1,2) f] by blast
  show ?case
  proof (cases "err = 0")
    case True
    then have "fits R1 uts" using f n(5) by simp
    then obtain err' s' a' fl' R' where r: "add_uts e pool uts s1 a1 = Some (err', s', a')" "holds valid s' a' M S" "ut_inv s' fl' R'" "untouched s1 s'"
      "R1 \<subseteq> R'" "R' \<subseteq> R1 \<union> spans uts" "err' = 0 \<longrightarrow> R' = R1 \<union> spans uts" using Cons.IH [OF n(3,2)] by blast
    have "add_uts e pool (w # uts) s a = Some (err', s', a')" using n(1) True r(1) w by simp
    moreover have "R \<subseteq> R'" "R' \<subseteq> R \<union> spans (w # uts)" "err' = 0 \<longrightarrow> R' = R \<union> spans (w # uts)" using r(5-7) n(5) True w by auto
    ultimately show ?thesis using r(2,3) untouched_trans [OF n(4) r(4)] by blast
  next
    case False
    then have "add_uts e pool (w # uts) s a = Some (err, s1, a1)" using n(1) w by simp
    then show ?thesis using n(2-5) False by auto
  qed
qed

end

lemma find_head_found:
  assumes u: "ut_inv s fl R" and x: "x \<in> set (fl (pool, j))" "ut_nodes s x = Some n" "n_paddr n \<le> paddr" "paddr + 2 ^ i \<le> n_paddr n + 2 ^ j"
    and js: "j \<in> set is" "\<And>k. k \<in> set is \<Longrightarrow> k < CONFIG_WORD_SIZE"
  shows "find_head_from s pool paddr i is = Some True"
  using js
proof (induction "is")
  case (Cons k "is")
  let ?P = "\<lambda>n. n_paddr n \<noteq> ALLOCMAN_NO_PADDR \<and> n_paddr n \<le> paddr \<and> u32 (paddr + 2 ^ i) \<le> u32 (n_paddr n + u32 (2 ^ k))"
  have "snd (pool, k) < CONFIG_WORD_SIZE" using Cons.prems(2) [of k] by simp
  then obtain p y where y: "get_head s (pool, k) = Some p" "find_node ?P s p = Some y" "y = 0 \<Longrightarrow> \<forall>x\<in>set (fl (pool, k)). \<not> ?P (the (ut_nodes s x))"
    using find_free [OF u, of "(pool, k)" ?P] by blast
  show ?case
  proof (cases "y = 0")
    case True
    have "j \<noteq> k"
    proof
      assume "j = k"
      obtain n' where "ut_nodes s x = Some n'" "n_origin n' = (pool, j)" "size_ok n'" using free_node [OF u x(1)] by blast
      then have n: "n_origin n = (pool, j)" "size_ok n" using x(2) by auto
      then have b: "0 \<le> n_paddr n" "n_paddr n + 2 ^ j < 4294967296" by (auto simp: size_ok_def)
      have pos: "0 < (2::int) ^ i" "0 < (2::int) ^ j" by auto
      have "(2::int) ^ j < 4294967296" using b by linarith
      then have "u32 (2 ^ j) = 2 ^ j" using u32_id [of "2 ^ j"] by simp
      moreover have "u32 (n_paddr n + 2 ^ j) = n_paddr n + 2 ^ j" using u32_id [of "n_paddr n + 2 ^ j"] b pos by simp
      moreover have "u32 (paddr + 2 ^ i) = paddr + 2 ^ i" using u32_id [of "paddr + 2 ^ i"] b pos x(3,4) by linarith
      ultimately have "?P n" using x(3,4) size_ok_paddr [OF n(2)] \<open>j = k\<close> by (simp add: ALLOCMAN_NO_PADDR_def)
      then show False using y(3) [OF True] x(1,2) \<open>j = k\<close> by auto
    qed
    then show ?thesis using Cons y(1,2) True by simp
  qed (use y(1,2) in simp)
qed simp

lemma aligned_inside:
  assumes "i \<le> j" "(2::int) ^ i dvd x" "2 ^ j dvd y" "x < y + 2 ^ j"
  shows "x + 2 ^ i \<le> y + 2 ^ j"
proof -
  have "(2::int) ^ i dvd 2 ^ j" by (rule le_imp_power_dvd [OF assms(1)])
  then have "(2::int) ^ i dvd y + 2 ^ j - x" using assms(2,3) by (meson dvd_add dvd_diff dvd_trans)
  then have "2 ^ i \<le> y + 2 ^ j - x" using assms(4) by (intro zdvd_imp_le) auto
  then show ?thesis by simp
qed

locale ut_plenty = ut_supply e valid for e :: "'a ut_env" and valid +
  fixes plenty :: "nat \<Rightarrow> 'a \<Rightarrow> bool" \<comment> \<open>so many nodes, with their slots, can still be had, and the kernel refuses nothing\<close>
  assumes plenty_less: "plenty (Suc n) a \<Longrightarrow> plenty n a"
    and plenty_node: "plenty (Suc n) a \<Longrightarrow> valid a M S \<Longrightarrow> mem_alloc e a = Some (p, a1) \<Longrightarrow> slot_alloc e a1 = Some (r, q, a2) \<Longrightarrow> p \<noteq> 0 \<and> r = 0 \<and> plenty n a2"
    and plenty_kernel: "plenty n a \<Longrightarrow> retype e a u t z c = (r, a') \<Longrightarrow> r = 0 \<and> plenty n a'"
begin

lemma plenty_le: "plenty m a \<Longrightarrow> n \<le> m \<Longrightarrow> plenty n a"
  by (induction m) (auto simp: le_Suc_eq dest: plenty_less)

lemma new_node_plenty:
  assumes "plenty (Suc n) a" "valid a M S" "new_node e s a = Some (p, s', a')"
  shows "p \<noteq> 0 \<and> plenty n a'"
proof -
  obtain x a1 where x: "mem_alloc e a = Some (x, a1)" "if x = 0 then valid a1 M S else valid a1 (insert x M) S" using mem_alloc [OF assms(2)] by metis
  obtain r q a2 where r: "slot_alloc e a1 = Some (r, q, a2)" using slot_alloc x(2) by (metis (full_types))
  have "x \<noteq> 0" "r = 0" "plenty n a2" using plenty_node [OF assms(1,2) x(1) r] by auto
  then show ?thesis using assms(3) x(1) r by (auto simp: new_node_def bind_eq_Some_conv)
qed

lemma split_node_plenty:
  assumes "plenty (Suc (Suc n)) a" "valid a M S" "split_node e pool i node s a = Some (err, s', a')"
  shows "err = 0 \<and> plenty n a'"
proof -
  obtain l s1 a1 where l: "new_node e s a = Some (l, s1, a1)" "l \<noteq> 0 \<Longrightarrow> \<exists>M' S'. valid a1 M' S'" using new_node_spec [OF assms(2)] by metis
  have pl: "l \<noteq> 0" "plenty (Suc n) a1" using new_node_plenty [OF assms(1,2) l(1)] by auto
  then obtain M1 S1 where v1: "valid a1 M1 S1" using l(2) by blast
  obtain r s2 a2 where r: "new_node e s1 a1 = Some (r, s2, a2)" using new_node_spec [OF v1] by blast
  have pr: "r \<noteq> 0" "plenty n a2" using new_node_plenty [OF pl(2) v1 r] by auto
  obtain k gl gr where k: "ut_nodes s2 node = Some k" "ut_nodes s2 l = Some gl" "ut_nodes s2 r = Some gr"
    using assms(3) l(1) pl(1) r pr(1) unfolding split_node_def by (cases "ut_nodes s2 node"; cases "ut_nodes s2 l"; cases "ut_nodes s2 r") simp_all
  obtain e1 a3 where e1: "retype e a2 (cp_capPtr (n_ut k)) 0 (int i) (n_ut gl) = (e1, a3)" by fastforce
  obtain e2 a4 where e2: "retype e a3 (cp_capPtr (n_ut k)) 0 (int i) (n_ut gr) = (e2, a4)" by fastforce
  have p4: "e1 = 0" "e2 = 0" "plenty n a4" using plenty_kernel [OF pr(2) e1] plenty_kernel [OF _ e2] by auto
  have "split_node e pool i node s a = do { s \<leftarrow> split_link pool i node l r s2; Some (0, s, a4) }"
    unfolding split_node_def using l(1) pl(1) r pr(1) k e1 e2 p4 by simp
  then show ?thesis using assms(3) p4(3) by (cases "split_link pool i node l r s2") auto
qed

lemma refill_plenty:
  assumes u: "ut_inv s fl R" "holds valid s a M S" "1 \<le> i" and j: "i \<le> j" "j \<le> CONFIG_WORD_SIZE - 2" "x \<in> set (fl (pool, j))" "suits paddr j (the (ut_nodes s x))"
    and "plenty (n + 2 * (j - i)) a" "refill_pool e pool paddr i s a = Some (err, s', a')"
  shows "err = 0 \<and> plenty n a'"
  using assms(3,4,8,9)
proof (induction "j - i" arbitrary: i n err s' a')
  case 0
  have w: "i < CONFIG_WORD_SIZE" using 0 j(2) by (simp add: CONFIG_WORD_SIZE_def)
  obtain p y where y: "get_head s (pool, i) = Some p" "(if paddr = ALLOCMAN_NO_PADDR then Some p else find_node (ut_covers paddr i) s p) = Some y"
    "y = 0 \<Longrightarrow> \<forall>x\<in>set (fl (pool, i)). \<not> suits paddr i (the (ut_nodes s x))" using look [OF u(1) w] by metis
  have ij: "i = j" using 0 by simp
  then have "y \<noteq> 0" using y(3) j(3,4) by blast
  then show ?case using 0(4,5) y(1,2) ij by (subst (asm) refill_pool.simps) simp
next
  case (Suc k)
  have w: "i < CONFIG_WORD_SIZE" "Suc i < CONFIG_WORD_SIZE" "\<not> CONFIG_WORD_SIZE - 2 \<le> i" "Suc i \<le> j" "k = j - Suc i" "n + 2 * (j - i) = Suc (Suc n) + 2 * (j - Suc i)"
    using Suc.hyps(2) j(2) by (auto simp: CONFIG_WORD_SIZE_def)
  obtain p y where y: "get_head s (pool, i) = Some p" "(if paddr = ALLOCMAN_NO_PADDR then Some p else find_node (ut_covers paddr i) s p) = Some y" using look [OF u(1) w(1)] by metis
  show ?case
  proof (cases "y = 0")
    case True
    obtain err1 s1 a1 where r: "refill_pool e pool paddr (Suc i) s a = Some (err1, s1, a1)" "holds valid s1 a1 M S"
      using refill_spec [OF u(1,2) _ w(2)] by (metis le_SucI Suc.prems(1))
    have e: "err1 = 0" "plenty (Suc (Suc n)) a1" using Suc.hyps(1) [OF w(5) _ w(4) _ r(1), of "Suc (Suc n)"] Suc.prems(1,3) unfolding w(6) by auto
    obtain node where "split_node e pool i node s1 a1 = Some (err, s', a')"
      using Suc.prems(4) y True w(3) r(1) e(1) by (subst (asm) refill_pool.simps) (auto simp: bind_eq_Some_conv split: if_splits)
    then show ?thesis using split_node_plenty [OF e(2)] r(2) unfolding holds_def by blast
  next
    case False
    then have "err = 0" "a' = a" using Suc.prems(4) y by (subst (asm) refill_pool.simps, simp)+
    then show ?thesis using plenty_le [OF Suc.prems(3), of n] by simp
  qed
qed

lemma alloc_plenty:
  assumes u: "ut_inv s fl R" "holds valid s a M S" and i: "1 \<le> i" "i \<le> j" "j \<le> CONFIG_WORD_SIZE - 2" "int i = vka_get_object_size type (get_sel4_object_size type (int i))"
    and x: "x \<in> set (fl (heads, j))" "suits paddr j (the (ut_nodes s x))" "paddr \<noteq> ALLOCMAN_NO_PADDR \<Longrightarrow> 2 ^ i dvd paddr" and p: "plenty (2 * (j - i)) a"
    and r: "utspace_split_alloc e s a i type slot paddr False = Some (c, err, s', a')"
  shows "err = 0"
proof -
  have w: "i < CONFIG_WORD_SIZE" "j < CONFIG_WORD_SIZE" using i by (auto simp: CONFIG_WORD_SIZE_def)
  obtain err1 s1 a1 where f: "refill_pool e heads paddr i s a = Some (err1, s1, a1)" using refill_spec [OF u i(1) w(1)] by blast
  have e: "err1 = 0" "plenty 0 a1" using refill_plenty [OF u i(1-3) x(1,2) _ f, of 0] p by auto
  let ?c = "if paddr \<noteq> ALLOCMAN_NO_PADDR then choose_at e s a i paddr False else choose_any e s a i False"
  have "\<exists>pool node. ?c = Some (Some (pool, node), s1, a1)"
  proof (cases "paddr = ALLOCMAN_NO_PADDR")
    case True
    obtain res s2 a2 where c: "choose_any e s a i False = Some (res, s2, a2)" using choose_any_spec [OF u i(1) w(1)] by blast
    then show ?thesis using f e(1) True by (auto simp: choose_any_def bind_eq_Some_conv)
  next
    case False
    obtain n where n: "ut_nodes s x = Some n" "n_origin n = (heads, j)" "size_ok n" using free_node [OF u(1) x(1)] by blast
    have cv: "n_paddr n \<le> paddr" "paddr < n_paddr n + 2 ^ j" using x(2) False covers_region [OF u(1) x(1) n(1)] n(1) by (auto simp: suits_def)
    have "paddr + 2 ^ i \<le> n_paddr n + 2 ^ j" using aligned_inside [OF i(2) x(3) [OF False] _ cv(2)] n(2,3) by (simp add: size_ok_def)
    then have h: "find_head_for_paddr s heads paddr i = Some True"
      unfolding find_head_for_paddr_def using find_head_found [OF u(1) x(1) n(1) cv(1), of i "[0..<CONFIG_WORD_SIZE]"] w(2) by simp
    obtain res s2 a2 where c: "choose_at e s a i paddr False = Some (res, s2, a2)" using choose_at_spec [OF u i(1) w(1) x(3) [OF False] False] by blast
    then have "\<exists>node. choose_at e s a i paddr False = Some (Some (heads, node), s1, a1)"
      using f e(1) h by (auto simp: choose_at_def bind_eq_Some_conv Let_def ok_def split: if_splits)
    then show ?thesis using False by auto
  qed
  then obtain pool node where c: "?c = Some (Some (pool, node), s1, a1)" by blast
  have nb: "\<not> (int i \<noteq> vka_get_object_size type (get_sel4_object_size type (int i)) \<or> i = 0)" using i(1,4) by simp
  have run: "do { n \<leftarrow> ut_nodes s1 node; let (sel4_error, a) = retype e a1 (cp_capPtr (n_ut n)) type (get_sel4_object_size type (int i)) slot;
      if sel4_error \<noteq> 0 then Some (0, 1, s1, a) else do { s \<leftarrow> remove_node s1 (pool, i) node; Some (node, 0, s, a) } } = Some (c, err, s', a')"
    using r unfolding utspace_split_alloc_def Let_def if_not_P [OF nb] c by simp
  obtain k where k: "ut_nodes s1 node = Some k" using run by (cases "ut_nodes s1 node") auto
  obtain se a2 where se: "retype e a1 (cp_capPtr (n_ut k)) type (get_sel4_object_size type (int i)) slot = (se, a2)" by fastforce
  have "se = 0" using plenty_kernel [OF e(2) se] by blast
  then show ?thesis using run k se by (cases "remove_node s1 (pool, i) node") auto
qed

end

subsection \<open>With the allocators of the system\<close>

text \<open>
  The nodes come from the dual pool of \<open>Malloc\<close>, the slots from the bitmap of \<open>Cslots\<close>. What the rest of the system does with both, and that nodes are written to, is covered by
  the laws of those components: blocks and slots that are in use stay so. The kernel is a parameter; it can refuse any invocation.
\<close>

record 'k kernel_calls =
  k_retype :: "'k \<Rightarrow> int \<Rightarrow> int \<Rightarrow> int \<Rightarrow> cspacepath \<Rightarrow> int \<times> 'k"
  k_delete :: "'k \<Rightarrow> cspacepath \<Rightarrow> 'k"

record 'k alloc_sys =
  sys_pool :: dual_pool
  sys_slots :: single_level
  sys_kernel :: 'k

definition NODE_BYTES :: int where "NODE_BYTES = 56" \<comment> \<open>\<^verbatim>\<open>sizeof(struct utspace_split_node)\<close>: 14 words\<close>

definition alloc_env :: "(int \<Rightarrow> int) \<Rightarrow> 'k kernel_calls \<Rightarrow> (int \<Rightarrow> ut_node) \<Rightarrow> 'k alloc_sys ut_env" where
  "alloc_env add_page kc junk =
     \<lparr>mem_alloc = (\<lambda>a. do { (p, error, d) \<leftarrow> mspace_dual_pool_alloc add_page (sys_pool a) NODE_BYTES; Some (if error = 0 then p else 0, a\<lparr>sys_pool := d\<rparr>) }),
      mem_free = (\<lambda>a p. do { d \<leftarrow> mspace_dual_pool_free (sys_pool a) p; Some (a\<lparr>sys_pool := d\<rparr>) }),
      slot_alloc = (\<lambda>a. do { (r, q, c) \<leftarrow> cspace_single_level_alloc (sys_slots a); Some (r, q, a\<lparr>sys_slots := c\<rparr>) }),
      slot_free = (\<lambda>a p. do { c \<leftarrow> cspace_single_level_free (sys_slots a) p; Some (a\<lparr>sys_slots := c\<rparr>) }),
      retype = (\<lambda>a u t n c. let (r, k) = k_retype kc (sys_kernel a) u t n c in (r, a\<lparr>sys_kernel := k\<rparr>)),
      cap_delete = (\<lambda>a c. a\<lparr>sys_kernel := k_delete kc (sys_kernel a) c\<rparr>),
      fresh_node = junk\<rparr>"

definition sys_valid :: "(int \<Rightarrow> int) \<Rightarrow> 'k alloc_sys \<Rightarrow> int set \<Rightarrow> int set \<Rightarrow> bool" where
  "sys_valid add_page a M S \<longleftrightarrow> (\<exists>U. dual_run add_page (sys_pool a) U \<and> dom U = M) \<and> slot_run (sys_slots a) S"

lemma block_positive:
  assumes "dual_ok d U" "U r = Some b"
  shows "0 < r"
proof -
  have "0 < r" if p: "pool_ok start brk lim k U'" "U' r = Some b" for start brk lim k U'
  proof -
    obtain F A where f: "kr_inv start brk lim k F A" using pool_use [OF p] by blast
    then show ?thesis using pool_ranges(1) [OF p] kr_invD(1) [OF f] heap_wD(1) [OF kr_invD(5) [OF f]] by linarith
  qed
  then show ?thesis using assms by (cases "r \<in> in_fixed d"; cases "have_virtual_pool d") (fastforce simp: dual_ok_def fixed_ok_def virtual_ok_def)+
qed

interpretation al: ut_supply "alloc_env add_page kc junk" "sys_valid add_page"
proof (unfold_locales, goal_cases)
  case (1 a M S)
  then obtain U where U: "dual_run add_page (sys_pool a) U" "dom U = M" "slot_run (sys_slots a) S" by (auto simp: sys_valid_def)
  have b: "0 < NODE_BYTES" "NODE_BYTES \<le> 268435456" by (simp_all add: NODE_BYTES_def)
  obtain r err d where r: "mspace_dual_pool_alloc add_page (sys_pool a) NODE_BYTES = Some (r, err, d)"
    "if err = 0 then U r = None \<and> dual_ok d (U(r \<mapsto> NODE_BYTES)) else err = 1" using dual_alloc [OF dual_run_ok [OF U(1)] b] by (metis (mono_tags, lifting))
  show ?case
  proof (cases "err = 0")
    case True
    then have "dual_run add_page d (U(r \<mapsto> NODE_BYTES))" using dual_run.alloc [OF U(1) b] r(1) by blast
    moreover have "r \<noteq> 0" using block_positive [of d "U(r \<mapsto> NODE_BYTES)" r NODE_BYTES] r(2) True by simp
    moreover have "r \<notin> M" "dom (U(r \<mapsto> NODE_BYTES)) = insert r M" using r(2) True U(2) by auto
    ultimately show ?thesis using r(1) True U(3) by (auto simp: alloc_env_def sys_valid_def simp del: fun_upd_apply dom_fun_upd)
  next
    case False
    then have "dual_run add_page d U" using dual_run.fails [OF U(1) b] r by auto
    then show ?thesis using r(1) False U(2,3) by (auto simp: alloc_env_def sys_valid_def)
  qed
next
  case (2 a M S p)
  then obtain U b where U: "dual_run add_page (sys_pool a) U" "dom U = M" "slot_run (sys_slots a) S" "U p = Some b" by (auto simp: sys_valid_def)
  obtain d where d: "mspace_dual_pool_free (sys_pool a) p = Some d" using dual_free [OF dual_run_ok [OF U(1)] U(4)] by blast
  have "dual_run add_page d (U(p := None))" "dom (U(p := None)) = M - {p}" using dual_run.free [OF U(1,4) d] U(2) by auto
  then show ?case using d U(3) by (auto simp: alloc_env_def sys_valid_def simp del: fun_upd_apply dom_fun_upd)
next
  case (3 a M S)
  then have s: "slot_run (sys_slots a) S" by (simp add: sys_valid_def)
  then have v: "sl_valid (sys_slots a)" "S = sl_managed (sys_slots a) - sl_avail (sys_slots a)" using slot_run_ok by (auto simp: run_ok_def)
  show ?case
  proof (cases "sl_avail (sys_slots a) = {}")
    case True
    then have "cspace_single_level_alloc (sys_slots a) = Some (1, None, sys_slots a)" using sl_alloc_spec [OF v(1)] by simp
    then show ?thesis using 3 by (simp add: alloc_env_def)
  next
    case False
    then obtain p c where c: "cspace_single_level_alloc (sys_slots a) = Some (0, Some p, c)" "cp_capPtr p \<in> sl_avail (sys_slots a)" using sl_alloc_spec [OF v(1)] by auto
    then have "slot_run c (insert (cp_capPtr p) S)" "cp_capPtr p \<notin> S" using slot_run.alloc [OF s c(1)] v(2) by auto
    then show ?thesis using c(1) 3 by (auto simp: alloc_env_def sys_valid_def)
  qed
next
  case (4 a M S p)
  then have s: "slot_run (sys_slots a) S" by (simp add: sys_valid_def)
  then have v: "sl_valid (sys_slots a)" "cp_capPtr p \<in> sl_managed (sys_slots a)" "cp_capPtr p \<notin> sl_avail (sys_slots a)" using slot_run_ok [OF s] 4(2) by (auto simp: run_ok_def)
  then obtain c where c: "cspace_single_level_free (sys_slots a) p = Some c" using sl_put_spec [OF v(1,2)] by auto
  then show ?case using slot_run.free [OF s 4(2) c] 4(1) by (auto simp: alloc_env_def sys_valid_def)
next
  case (5 a M S u t n c r a')
  then show ?case by (auto simp: alloc_env_def sys_valid_def split: prod.splits)
next
  case (6 a M S c)
  then show ?case by (simp add: alloc_env_def sys_valid_def)
qed

inductive ut_run :: "(int \<Rightarrow> int) \<Rightarrow> 'k kernel_calls \<Rightarrow> (int \<Rightarrow> ut_node) \<Rightarrow> utspace \<Rightarrow> 'k alloc_sys \<Rightarrow> (int \<rightharpoonup> nat) \<Rightarrow> int set \<Rightarrow> bool" for add_page kc junk where
  \<comment> \<open>the allocator after some calls, the pieces that are handed out with their sizes, and the memory it was given\<close>
  create: "ut_nodes s = Map.empty \<Longrightarrow> sys_valid add_page a M S \<Longrightarrow> ut_run add_page kc junk (utspace_split_create s) a Map.empty {}"
| add: "ut_run add_page kc junk s a out R \<Longrightarrow> fits R uts \<Longrightarrow> utspace_split_add_uts (alloc_env add_page kc junk) s a uts utType = Some (err, s', a')
    \<Longrightarrow> ut_run add_page kc junk s' a' out (R \<union> spans uts)"
| alloc: "ut_run add_page kc junk s a out R \<Longrightarrow> i < CONFIG_WORD_SIZE \<Longrightarrow> paddr = ALLOCMAN_NO_PADDR \<or> 2 ^ i dvd paddr
    \<Longrightarrow> utspace_split_alloc (alloc_env add_page kc junk) s a i type slot paddr dev = Some (c, err, s', a') \<Longrightarrow> ut_run add_page kc junk s' a' (if err = 0 then out(c \<mapsto> i) else out) R"
| free: "ut_run add_page kc junk s a out R \<Longrightarrow> out c = Some i \<Longrightarrow> utspace_split_free (alloc_env add_page kc junk) s a c = Some (s', a')
    \<Longrightarrow> ut_run add_page kc junk s' a' (out(c := None)) R"
| others: "ut_run add_page kc junk s a out R \<Longrightarrow> holds (sys_valid add_page) s a' M S \<Longrightarrow> ut_run add_page kc junk s a' out R"

definition ut_ok :: "(int \<Rightarrow> int) \<Rightarrow> utspace \<Rightarrow> 'k alloc_sys \<Rightarrow> (int \<rightharpoonup> nat) \<Rightarrow> int set \<Rightarrow> bool" where
  "ut_ok add_page s a out R \<longleftrightarrow> (\<exists>fl R0 M S. ut_inv s fl R0 \<and> R0 \<subseteq> R \<and> holds (sys_valid add_page) s a M S \<and> dom out = used (ut_nodes s)
     \<and> (\<forall>c i. out c = Some i \<longrightarrow> snd (n_origin (the (ut_nodes s c))) = i))"

lemma fits_mono: "fits R uts \<Longrightarrow> R0 \<subseteq> R \<Longrightarrow> fits R0 uts"
  by (induction R uts arbitrary: R0 rule: fits.induct) (auto, blast)

lemma create_inv: "ut_inv (utspace_split_create s) (\<lambda>_. []) {}" if "ut_nodes s = Map.empty"
proof -
  have "lists_ok (utspace_split_create s) (\<lambda>_. [])"
    by (rule lists_okI) (auto simp: utspace_split_create_def get_head_def arr_def)
  moreover have "tree_ok Map.empty {}" by (rule tree_okI) (auto simp: leaf_def)
  ultimately show ?thesis using that by (simp add: ut_inv_def utspace_split_create_def)
qed

lemma add_spec:
  assumes "ut_inv s fl R" "holds (sys_valid add_page) s a M S" "fits R uts"
  shows "\<exists>err s' a' fl' R'. utspace_split_add_uts (alloc_env add_page kc junk) s a uts utType = Some (err, s', a') \<and> holds (sys_valid add_page) s' a' M S
    \<and> ut_inv s' fl' R' \<and> untouched s s' \<and> R \<subseteq> R' \<and> R' \<subseteq> R \<union> spans uts"
proof (cases "utType = 0 \<or> utType = 1 \<or> utType = 2")
  case True
  define pool where "pool = (if utType = 0 then heads else if utType = 1 then dev_heads else dev_mem_heads)"
  have "utspace_split_add_uts (alloc_env add_page kc junk) s a uts utType = add_uts (alloc_env add_page kc junk) pool uts s a"
    using True by (auto simp: utspace_split_add_uts_def pool_def)
  then show ?thesis using al.add_uts_spec [OF assms, of kc junk pool] by metis
next
  case False
  then have "utspace_split_add_uts (alloc_env add_page kc junk) s a uts utType = Some (- 1, s, a)" by (auto simp: utspace_split_add_uts_def)
  then show ?thesis using assms untouched_refl [of s] by blast
qed

lemma core_size: "node_core (the (m' x)) = node_core (the (m x)) \<Longrightarrow> n_origin (the (m' x)) = n_origin (the (m x)) \<and> n_paddr (the (m' x)) = n_paddr (the (m x))"
  using core_fields by blast

lemma ut_run_ok: "ut_run add_page kc junk s a out R \<Longrightarrow> ut_ok add_page s a out R"
proof (induction rule: ut_run.induct)
  case (create s a M S)
  have "holds (sys_valid add_page) (utspace_split_create s) a M S" using create by (simp add: holds_def utspace_split_create_def slots_def slots_inj_def)
  moreover have "used (ut_nodes (utspace_split_create s)) = {}" using create by (simp add: utspace_split_create_def used_def leaf_def)
  ultimately show ?case unfolding ut_ok_def using create_inv [OF create(1)] by (intro exI [of _ "\<lambda>_. []"] exI [of _ "{}"] exI [of _ M] exI [of _ S]) auto
next
  case (add s a out R uts utType err s' a')
  obtain fl R0 M S where o: "ut_inv s fl R0" "R0 \<subseteq> R" "holds (sys_valid add_page) s a M S" "dom out = used (ut_nodes s)"
    "\<forall>c i. out c = Some i \<longrightarrow> snd (n_origin (the (ut_nodes s c))) = i" using add.IH unfolding ut_ok_def by blast
  obtain fl' R' where r: "holds (sys_valid add_page) s' a' M S" "ut_inv s' fl' R'" "untouched s s'" "R' \<subseteq> R0 \<union> spans uts"
    using add_spec [OF o(1,3) fits_mono [OF add.hyps(2) o(2)], of kc junk utType] add.hyps(3) by auto
  have "snd (n_origin (the (ut_nodes s' c))) = i" if "out c = Some i" for c i
    using that o(4,5) r(3) core_size [of "ut_nodes s'" c "ut_nodes s"] unfolding untouched_def by (metis domI)
  moreover have "dom out = used (ut_nodes s')" using o(4) r(3) by (simp add: untouched_def)
  ultimately show ?case unfolding ut_ok_def using r o(2) by blast
next
  case (alloc s a out R i paddr type slot dev c err s' a')
  obtain fl R0 M S where o: "ut_inv s fl R0" "R0 \<subseteq> R" "holds (sys_valid add_page) s a M S" "dom out = used (ut_nodes s)"
    "\<forall>c i. out c = Some i \<longrightarrow> snd (n_origin (the (ut_nodes s c))) = i" using alloc.IH unfolding ut_ok_def by blast
  have al: "paddr \<noteq> ALLOCMAN_NO_PADDR \<Longrightarrow> 2 ^ i dvd paddr" using alloc.hyps(3) by blast
  obtain fl' where r: "holds (sys_valid add_page) s' a' M S" "ut_inv s' fl' R0"
    "if err = 0 then c \<notin> used (ut_nodes s) \<and> used (ut_nodes s') = insert c (used (ut_nodes s)) \<and> (\<forall>x\<in>used (ut_nodes s). node_core (the (ut_nodes s' x)) = node_core (the (ut_nodes s x)))
         \<and> (\<exists>n. ut_nodes s' c = Some n \<and> snd (n_origin n) = i \<and> (paddr \<noteq> ALLOCMAN_NO_PADDR \<longrightarrow> n_paddr n = paddr)) else c = 0 \<and> err = 1 \<and> untouched s s'"
    using al.alloc_spec [OF o(1,3) alloc.hyps(2) al, of kc junk type slot dev] alloc.hyps(4) by auto
  have sz: "snd (n_origin (the (ut_nodes s' x))) = j" if "out x = Some j" for x j
  proof -
    have "x \<in> used (ut_nodes s)" using that o(4) by blast
    then have "node_core (the (ut_nodes s' x)) = node_core (the (ut_nodes s x))" using r(3) unfolding untouched_def by (cases "err = 0") auto
    then show ?thesis using core_size [of "ut_nodes s'" x "ut_nodes s"] o(5) that by simp
  qed
  have "dom (if err = 0 then out(c \<mapsto> i) else out) = used (ut_nodes s')" using r(3) o(4) unfolding untouched_def by (cases "err = 0") auto
  moreover have "snd (n_origin (the (ut_nodes s' x))) = j" if "(if err = 0 then out(c \<mapsto> i) else out) x = Some j" for x j
    using that sz [of x j] r(3) by (auto split: if_splits)
  ultimately show ?case unfolding ut_ok_def using r(1,2) o(2) by blast
next
  case (free s a out R c i s' a')
  obtain fl R0 M S where o: "ut_inv s fl R0" "R0 \<subseteq> R" "holds (sys_valid add_page) s a M S" "dom out = used (ut_nodes s)"
    "\<forall>c i. out c = Some i \<longrightarrow> snd (n_origin (the (ut_nodes s c))) = i" using free.IH unfolding ut_ok_def by blast
  have "c \<in> used (ut_nodes s)" using free.hyps(2) o(4) by blast
  then obtain fl' where r: "holds (sys_valid add_page) s' a' M S" "ut_inv s' fl' R0" "used (ut_nodes s') = used (ut_nodes s) - {c}"
    "\<forall>z\<in>used (ut_nodes s) - {c}. node_core (the (ut_nodes s' z)) = node_core (the (ut_nodes s z))"
    using al.release_spec [OF o(1,3), of c kc junk] free.hyps(3) by auto
  have "snd (n_origin (the (ut_nodes s' x))) = j" if "(out(c := None)) x = Some j" for x j
  proof -
    have x: "x \<in> used (ut_nodes s) - {c}" "out x = Some j" using that o(4) by (auto split: if_splits)
    then show ?thesis using core_size [of "ut_nodes s'" x "ut_nodes s"] o(5) r(4) by simp
  qed
  moreover have "dom (out(c := None)) = used (ut_nodes s')" using r(3) o(4) by auto
  ultimately show ?case unfolding ut_ok_def using r(1,2) o(2) by blast
next
  case (others s a out R a' M S)
  then show ?case unfolding ut_ok_def by blast
qed

fun can_alloc :: "(int \<Rightarrow> int) \<Rightarrow> nat \<Rightarrow> dual_pool \<Rightarrow> single_level \<Rightarrow> bool" where
  \<comment> \<open>memory and slots for so many nodes are left\<close>
  "can_alloc add_page 0 d c \<longleftrightarrow> True"
| "can_alloc add_page (Suc n) d c \<longleftrightarrow>
     (case (mspace_dual_pool_alloc add_page d NODE_BYTES, cspace_single_level_alloc c) of
        (Some (p, error, d'), Some (r, q, c')) \<Rightarrow> error = 0 \<and> r = 0 \<and> can_alloc add_page n d' c' | _ \<Rightarrow> False)"

definition accepts :: "'k kernel_calls \<Rightarrow> bool" where
  "accepts kc \<longleftrightarrow> (\<forall>k u t n c. fst (k_retype kc k u t n c) = 0)"

lemma can_alloc_less: "can_alloc add_page (Suc n) d c \<Longrightarrow> can_alloc add_page n d c"
proof (induction n arbitrary: d c)
  case (Suc n)
  obtain p d' q c' where n: "mspace_dual_pool_alloc add_page d NODE_BYTES = Some (p, 0, d')" "cspace_single_level_alloc c = Some (0, q, c')" "can_alloc add_page (Suc n) d' c'"
    using Suc.prems unfolding can_alloc.simps(2) [of add_page "Suc n" d c] by (auto split: option.splits prod.splits simp del: can_alloc.simps)
  have "can_alloc add_page n d' c'" by (rule Suc.IH [OF n(3)])
  then show ?case unfolding can_alloc.simps(2) [of add_page n d c] n(1,2) by simp
qed simp

interpretation pl: ut_plenty "alloc_env add_page kc junk" "sys_valid add_page" "\<lambda>n a. accepts kc \<and> can_alloc add_page n (sys_pool a) (sys_slots a)"
proof (unfold_locales, goal_cases)
  case (1 n a)
  then show ?case using can_alloc_less by blast
next
  case (2 n a M S p a1 r q a2)
  then obtain p' e' d' r' q' c' where n: "mspace_dual_pool_alloc add_page (sys_pool a) NODE_BYTES = Some (p', e', d')" "cspace_single_level_alloc (sys_slots a) = Some (r', q', c')"
    "e' = 0" "r' = 0" "can_alloc add_page n d' c'" by (auto split: option.splits prod.splits)
  obtain U where U: "dual_run add_page (sys_pool a) U" using 2(2) by (auto simp: sys_valid_def)
  have b: "0 < NODE_BYTES" "NODE_BYTES \<le> 268435456" by (simp_all add: NODE_BYTES_def)
  have "dual_run add_page d' (U(p' \<mapsto> NODE_BYTES))" using dual_run.alloc [OF U b] n(1,3) by blast
  then have "p' \<noteq> 0" using block_positive [OF dual_run_ok, of add_page d' "U(p' \<mapsto> NODE_BYTES)" p' NODE_BYTES] by simp
  then show ?case using 2 n by (auto simp: alloc_env_def)
next
  case (3 n a u t z c r a')
  then show ?case by (auto simp: alloc_env_def accepts_def split: prod.splits) (metis fst_conv)
qed

lemma piece:
  assumes "ut_ok add_page s a out R" "out c = Some i"
  obtains n where "leaf (ut_nodes s) c n" "utspace_split_paddr s c = Some (n_paddr n)" "region n = {n_paddr n..<n_paddr n + 2 ^ i}" "2 ^ i dvd n_paddr n" "region n \<subseteq> R"
proof -
  obtain fl R0 where o: "ut_inv s fl R0" "R0 \<subseteq> R" "dom out = used (ut_nodes s)" "snd (n_origin (the (ut_nodes s c))) = i" using assms unfolding ut_ok_def by blast
  have "c \<in> used (ut_nodes s)" using o(3) assms(2) by blast
  then obtain n where n: "ut_nodes s c = Some n" "\<not> inner (ut_nodes s) c" by (rule usedE)
  note t = tree_okD [OF ut_invD(2) [OF o(1)]]
  have i: "snd (n_origin n) = i" using o(4) n(1) by simp
  have l: "leaf (ut_nodes s) c n" using n by (simp add: leaf_def)
  have "region n \<subseteq> R" using t(8) l o(2) by blast
  then show ?thesis using that l t(2) [OF n(1)] n(1) i by (simp add: utspace_split_paddr_def region_def size_ok_def)
qed

lemma same_paddr:
  assumes "dom out = used (ut_nodes s)" "\<And>x. x \<in> used (ut_nodes s) - X \<Longrightarrow> node_core (the (ut_nodes s' x)) = node_core (the (ut_nodes s x))" "used (ut_nodes s) - X \<subseteq> used (ut_nodes s')"
    "d \<in> dom out - X"
  shows "utspace_split_paddr s' d = utspace_split_paddr s d"
proof -
  have d: "d \<in> used (ut_nodes s) - X" "d \<in> used (ut_nodes s)" "d \<in> used (ut_nodes s')" using assms(1,3,4) by auto
  obtain n n' where "ut_nodes s d = Some n" "ut_nodes s' d = Some n'" using d(2,3) by (blast elim: usedE)
  then show ?thesis using core_size [of "ut_nodes s'" d "ut_nodes s"] assms(2) [OF d(1)] by (simp add: utspace_split_paddr_def)
qed

text \<open>C25. Objects do not overlap. After any sequence of calls of the allocator for untyped memory, with any untypeds that are disjoint and aligned, whatever the kernel answers, and whatever the rest of the system takes and gives back in
  between: the pieces that are handed out lie in the memory the allocator was given, are aligned to their size and do not overlap. Every allocation of fewer than 32 bits returns (no assertion fails, and no pointer to a node that
  does not exist is followed), with error 1 or with a piece that was not in use, at the address that was asked for if it is aligned to the size; every piece in use can be released; both leave the other pieces where they are.\<close>

theorem untyped_exclusive:
  assumes "ut_run add_page kc junk s a out R"
  shows "(\<forall>c i. out c = Some i \<longrightarrow> (\<exists>p. utspace_split_paddr s c = Some p \<and> 2 ^ i dvd p \<and> {p..<p + 2 ^ i} \<subseteq> R))
    \<and> (\<forall>c i p d j q. out c = Some i \<and> utspace_split_paddr s c = Some p \<and> out d = Some j \<and> utspace_split_paddr s d = Some q \<and> c \<noteq> d \<longrightarrow> {p..<p + 2 ^ i} \<inter> {q..<q + 2 ^ j} = {})
    \<and> (\<forall>i type slot paddr dev. i < CONFIG_WORD_SIZE \<and> (paddr = ALLOCMAN_NO_PADDR \<or> 2 ^ i dvd paddr) \<longrightarrow>
        (\<exists>c err s' a'. utspace_split_alloc (alloc_env add_page kc junk) s a i type slot paddr dev = Some (c, err, s', a') \<and> (\<forall>d\<in>dom out. utspace_split_paddr s' d = utspace_split_paddr s d)
          \<and> (if err = 0 then out c = None \<and> (paddr = ALLOCMAN_NO_PADDR \<or> utspace_split_paddr s' c = Some paddr) else err = 1 \<and> c = 0)))
    \<and> (\<forall>c\<in>dom out. \<exists>s' a'. utspace_split_free (alloc_env add_page kc junk) s a c = Some (s', a') \<and> (\<forall>d\<in>dom out - {c}. utspace_split_paddr s' d = utspace_split_paddr s d))"
proof (intro conjI allI impI ballI)
  note ok = ut_run_ok [OF assms]
  then obtain fl R0 M S where o: "ut_inv s fl R0" "holds (sys_valid add_page) s a M S" "dom out = used (ut_nodes s)" unfolding ut_ok_def by blast
  note t = tree_okD [OF ut_invD(2) [OF o(1)]]
  fix c i
  show "\<exists>p. utspace_split_paddr s c = Some p \<and> 2 ^ i dvd p \<and> {p..<p + 2 ^ i} \<subseteq> R" if "out c = Some i" using piece [OF ok that] by metis
  show "{p..<p + 2 ^ i} \<inter> {q..<q + 2 ^ j} = {}" if x: "out c = Some i \<and> utspace_split_paddr s c = Some p \<and> out d = Some j \<and> utspace_split_paddr s d = Some q \<and> c \<noteq> d" for p d j q
  proof -
    obtain n where n: "leaf (ut_nodes s) c n" "n_paddr n = p" "region n = {p..<p + 2 ^ i}" using piece [OF ok, of c i] x by (metis option.inject)
    obtain k where k: "leaf (ut_nodes s) d k" "n_paddr k = q" "region k = {q..<q + 2 ^ j}" using piece [OF ok, of d j] x by (metis option.inject)
    show ?thesis using t(7) [OF n(1) k(1)] x n(3) k(3) by simp
  qed
  show "\<exists>s' a'. utspace_split_free (alloc_env add_page kc junk) s a c = Some (s', a') \<and> (\<forall>d\<in>dom out - {c}. utspace_split_paddr s' d = utspace_split_paddr s d)" if cd: "c \<in> dom out"
  proof -
    obtain s' a' where f: "utspace_split_free (alloc_env add_page kc junk) s a c = Some (s', a')" "used (ut_nodes s') = used (ut_nodes s) - {c}"
      "\<forall>z\<in>used (ut_nodes s) - {c}. node_core (the (ut_nodes s' z)) = node_core (the (ut_nodes s z))" using al.release_spec [OF o(1,2), of c kc junk] cd o(3) by blast
    then have "\<forall>d\<in>dom out - {c}. utspace_split_paddr s' d = utspace_split_paddr s d" using same_paddr [OF o(3), of "{c}" s'] by blast
    then show ?thesis using f(1) by blast
  qed
next
  fix i type slot paddr dev assume i: "i < CONFIG_WORD_SIZE \<and> (paddr = ALLOCMAN_NO_PADDR \<or> 2 ^ i dvd paddr)"
  obtain fl R0 M S where o: "ut_inv s fl R0" "holds (sys_valid add_page) s a M S" "dom out = used (ut_nodes s)" using ut_run_ok [OF assms] unfolding ut_ok_def by blast
  have "paddr \<noteq> ALLOCMAN_NO_PADDR \<Longrightarrow> 2 ^ i dvd paddr" using i by blast
  then obtain c err s' a' where r: "utspace_split_alloc (alloc_env add_page kc junk) s a i type slot paddr dev = Some (c, err, s', a')"
    "if err = 0 then c \<notin> used (ut_nodes s) \<and> used (ut_nodes s') = insert c (used (ut_nodes s)) \<and> (\<forall>x\<in>used (ut_nodes s). node_core (the (ut_nodes s' x)) = node_core (the (ut_nodes s x)))
         \<and> (\<exists>n. ut_nodes s' c = Some n \<and> snd (n_origin n) = i \<and> (paddr \<noteq> ALLOCMAN_NO_PADDR \<longrightarrow> n_paddr n = paddr)) else c = 0 \<and> err = 1 \<and> untouched s s'"
    using al.alloc_spec [OF o(1,2) conjunct1 [OF i], of paddr kc junk type slot dev] by blast
  have k: "node_core (the (ut_nodes s' x)) = node_core (the (ut_nodes s x))" "used (ut_nodes s) - {} \<subseteq> used (ut_nodes s')" if "x \<in> used (ut_nodes s) - {}" for x
    using r(2) that unfolding untouched_def by (cases "err = 0"; auto)+
  have "utspace_split_paddr s' d = utspace_split_paddr s d" if "d \<in> dom out" for d using same_paddr [OF o(3) k(1) k(2), of d d] that o(3) by auto
  moreover have "if err = 0 then out c = None \<and> (paddr = ALLOCMAN_NO_PADDR \<or> utspace_split_paddr s' c = Some paddr) else err = 1 \<and> c = 0"
    using r(2) o(3) by (cases "err = 0") (auto simp: utspace_split_paddr_def)
  ultimately show "\<exists>c err s' a'. utspace_split_alloc (alloc_env add_page kc junk) s a i type slot paddr dev = Some (c, err, s', a') \<and> (\<forall>d\<in>dom out. utspace_split_paddr s' d = utspace_split_paddr s d)
      \<and> (if err = 0 then out c = None \<and> (paddr = ALLOCMAN_NO_PADDR \<or> utspace_split_paddr s' c = Some paddr) else err = 1 \<and> c = 0)" using r(1) by blast
qed

text \<open>C26. Memory that is free can be used. If some free piece of general-purpose memory, of \<open>2 ^ j\<close> bytes and at most 1 GiB, is at least as large as the object (and contains the address, if one is asked for, which is aligned to the size
  of the object), memory and slots for two nodes per halving are left, and the kernel does not refuse to split and retype untyped memory, then the allocation succeeds: with error 0 and a piece at that address.\<close>

theorem object_allocated:
  assumes "ut_run add_page kc junk s a out R" "accepts kc" "1 \<le> i" "i \<le> j" "j \<le> 30"
    "int i = vka_get_object_size type (get_sel4_object_size type (int i))" "paddr = ALLOCMAN_NO_PADDR \<or> 2 ^ i dvd paddr"
    "get_head s (heads, j) = Some p" "find_node (suits paddr j) s p = Some x" "x \<noteq> 0" "can_alloc add_page (2 * (j - i)) (sys_pool a) (sys_slots a)"
  shows "\<exists>c s' a'. utspace_split_alloc (alloc_env add_page kc junk) s a i type slot paddr False = Some (c, 0, s', a') \<and> out c = None
    \<and> (paddr = ALLOCMAN_NO_PADDR \<or> utspace_split_paddr s' c = Some paddr)"
proof -
  obtain fl R0 M S where o: "ut_inv s fl R0" "holds (sys_valid add_page) s a M S" "dom out = used (ut_nodes s)" using ut_run_ok [OF assms(1)] unfolding ut_ok_def by blast
  have w: "i < CONFIG_WORD_SIZE" "j < CONFIG_WORD_SIZE" "j \<le> CONFIG_WORD_SIZE - 2" using assms(4,5) by (auto simp: CONFIG_WORD_SIZE_def)
  have al: "paddr \<noteq> ALLOCMAN_NO_PADDR \<Longrightarrow> 2 ^ i dvd paddr" using assms(7) by blast
  have x: "x \<in> set (fl (heads, j))" "suits paddr j (the (ut_nodes s x))" 
  proof -
    have j: "snd (heads, j) < CONFIG_WORD_SIZE" using w(2) by simp
    obtain p' y where y: "get_head s (heads, j) = Some p'" "find_node (suits paddr j) s p' = Some y" "y \<noteq> 0 \<Longrightarrow> y \<in> set (fl (heads, j)) \<and> suits paddr j (the (ut_nodes s y))"
      using find_free [OF o(1) j, of "suits paddr j"] by metis
    then show "x \<in> set (fl (heads, j))" "suits paddr j (the (ut_nodes s x))" using assms(8-10) by auto
  qed
  obtain c err s' a' where r: "utspace_split_alloc (alloc_env add_page kc junk) s a i type slot paddr False = Some (c, err, s', a')"
    "err = 0 \<Longrightarrow> c \<notin> used (ut_nodes s) \<and> (\<exists>n. ut_nodes s' c = Some n \<and> (paddr \<noteq> ALLOCMAN_NO_PADDR \<longrightarrow> n_paddr n = paddr))"
    using al.alloc_spec [OF o(1,2) w(1) al, of kc junk type slot False] by (metis (mono_tags, lifting))
  have "err = 0" using pl.alloc_plenty [OF o(1,2) assms(3,4) w(3) assms(6) x al _ r(1)] assms(2,11) by blast
  then show ?thesis using r o(3) by (auto simp: utspace_split_paddr_def)
qed

subsection \<open>A sample system\<close>

definition sample_kernel :: "unit kernel_calls" where
  "sample_kernel = \<lparr>k_retype = (\<lambda>k u t n c. (0, k)), k_delete = (\<lambda>k c. k)\<rparr>"

definition sample_junk :: "int \<Rightarrow> ut_node" where
  "sample_junk x = \<lparr>n_ut = make_path sample_config 0, n_parent = 7, n_sibling = 7, n_head = None, n_origin = (heads, 0), n_paddr = 7, n_next = 7, n_prev = 7\<rparr>"

definition no_uts :: utspace where
  "no_uts = \<lparr>ut_nodes = Map.empty, ut_heads = (\<lambda>_. [])\<rparr>"

lemma sample_run:
  obtains s a p where "ut_run (\<lambda>_. 0) sample_kernel sample_junk s a Map.empty {1048576..<1052672}" "get_head s (heads, 12) = Some p" "p \<noteq> 0" "ut_nodes s p \<noteq> None"
proof -
  let ?d = "mspace_dual_pool_create sample_dual 8192 4096" and ?e = "alloc_env (\<lambda>_. 0) sample_kernel sample_junk"
  let ?uts = "[(make_path sample_config 19, 12, 1048576)]"
  have "pool_mem (d_fixed_kr sample_dual) (8192 + 8192 mod 8) (8192 + 4096)" by (auto simp: pool_mem_def sample_dual_def)
  then have d: "dual_run (\<lambda>_. 0) ?d Map.empty" by (rule dual_run.create) simp
  have "config_ok sample_config" by (simp add: config_ok_def sample_config_def)
  then obtain c where c: "slot_run c {}" using create_spec slot_run.start by blast
  define a where "a = \<lparr>sys_pool = ?d, sys_slots = c, sys_kernel = ()\<rparr>"
  have v: "sys_valid (\<lambda>_. 0) a {} {}" unfolding sys_valid_def a_def using c d by auto
  have s0: "ut_run (\<lambda>_. 0) sample_kernel sample_junk (utspace_split_create no_uts) a Map.empty {}" by (rule ut_run.create [OF _ v]) (simp add: no_uts_def)
  obtain p err d' where p: "mspace_dual_pool_alloc (\<lambda>_. 0) ?d NODE_BYTES = Some (p, err, d')"
    "if err = 0 then dual_ok d' (Map.empty(p \<mapsto> NODE_BYTES)) else remaining (d_fixed ?d) < 8 * nunits_for NODE_BYTES"
    using dual_alloc [OF dual_run_ok [OF d], of NODE_BYTES "\<lambda>_. 0"] by (auto simp: NODE_BYTES_def split: if_splits)
  have "\<not> remaining (d_fixed ?d) < 8 * nunits_for NODE_BYTES"
    by (simp add: mspace_dual_pool_create_def mspace_fixed_pool_create_def Let_def u32_def nunits_for_def NODE_BYTES_def)
  then have e0: "err = 0" using p(2) by (auto split: if_splits)
  then have p0: "p \<noteq> 0" using block_positive [of d' "Map.empty(p \<mapsto> NODE_BYTES)" p NODE_BYTES] p(2) by simp
  obtain s' where s': "utspace_split_add_uts ?e (utspace_split_create no_uts) a ?uts 0 = Some (0, s', a\<lparr>sys_pool := d'\<rparr>)" "get_head s' (heads, 12) = Some p" "ut_nodes s' p \<noteq> None"
    using p(1) e0 p0 that by (simp add: utspace_split_add_uts_def insert_new_node_def insert_node_def alloc_env_def a_def get_head_def set_head_def nd_upd_def
        utspace_split_create_def no_uts_def arr_def arr_upd_def CONFIG_WORD_SIZE_def)
  have "fits {} ?uts" by (simp add: CONFIG_WORD_SIZE_def dvd_def)
  then have "ut_run (\<lambda>_. 0) sample_kernel sample_junk s' (a\<lparr>sys_pool := d'\<rparr>) Map.empty ({} \<union> spans ?uts)" by (rule ut_run.add [OF s0 _ s'(1)])
  then show ?thesis using that s'(2,3) p0 by simp
qed

theorem untyped_exclusive_witness:
  "\<exists>s a c err s' a'. ut_run (\<lambda>_. 0) sample_kernel sample_junk s a Map.empty {1048576..<1052672}
    \<and> utspace_split_alloc (alloc_env (\<lambda>_. 0) sample_kernel sample_junk) s a 11 1 (make_path sample_config 18) ALLOCMAN_NO_PADDR True = Some (c, err, s', a') \<and> (err = 0 \<or> c = 0)"
proof -
  obtain s a p where r: "ut_run (\<lambda>_. 0) sample_kernel sample_junk s a Map.empty {1048576..<1052672}" by (rule sample_run)
  have "(11::nat) < CONFIG_WORD_SIZE \<and> (ALLOCMAN_NO_PADDR = ALLOCMAN_NO_PADDR \<or> 2 ^ 11 dvd ALLOCMAN_NO_PADDR)" by (simp add: CONFIG_WORD_SIZE_def)
  from untyped_exclusive [OF r, THEN conjunct2, THEN conjunct2, THEN conjunct1, rule_format, OF this, of 1 "make_path sample_config 18" True]
  obtain c err s' a' where "utspace_split_alloc (alloc_env (\<lambda>_. 0) sample_kernel sample_junk) s a 11 1 (make_path sample_config 18) ALLOCMAN_NO_PADDR True = Some (c, err, s', a')"
    "err = 0 \<or> c = 0" by (auto split: if_splits)
  then show ?thesis using r by blast
qed

theorem object_allocated_witness:
  "\<exists>s a c s' a'. ut_run (\<lambda>_. 0) sample_kernel sample_junk s a Map.empty {1048576..<1052672}
    \<and> utspace_split_alloc (alloc_env (\<lambda>_. 0) sample_kernel sample_junk) s a 12 5 (make_path sample_config 18) ALLOCMAN_NO_PADDR False = Some (c, 0, s', a')"
proof -
  obtain s a p where r: "ut_run (\<lambda>_. 0) sample_kernel sample_junk s a Map.empty {1048576..<1052672}" "get_head s (heads, 12) = Some p" "p \<noteq> 0" "ut_nodes s p \<noteq> None" by (rule sample_run)
  have f: "find_node (suits ALLOCMAN_NO_PADDR 12) s p = Some p" using r(3,4) by (subst find_node.simps) (auto simp: suits_def)
  have "accepts sample_kernel" by (simp add: accepts_def sample_kernel_def)
  then obtain c s' a' where "utspace_split_alloc (alloc_env (\<lambda>_. 0) sample_kernel sample_junk) s a 12 5 (make_path sample_config 18) ALLOCMAN_NO_PADDR False = Some (c, 0, s', a')"
    using object_allocated [OF r(1) _ _ _ _ _ _ r(2) f r(3), of 12 5 "make_path sample_config 18"] by (auto simp: get_sel4_object_size_def vka_get_object_size_def)
  then show ?thesis using r(1) by blast
qed

end
