(* ===== verification/Manager.thy ===== *)
theory Manager
  imports Buddy
begin

text \<open>
  The allocation manager (\<^verbatim>\<open>libsel4allocman/src/allocman.c\<close>): the calls every user of the allocators makes. It passes them on to the allocators for memory,
  slots and untyped memory that are installed, which may call the manager again; it keeps a reserve (``watermark'') of each resource for calls that may not be passed on or that fail, and refills
  the reserves when the outermost operation ends.

  The installed allocators are the record \<open>spaces\<close>, functions on the whole state: the manager's, and the one of the rest of the system. An array of the manager is the list of its first \<^verbatim>\<open>num\<close>
  entries, beside the pointer to its memory. \<^verbatim>\<open>_end_operation\<close> and \<^verbatim>\<open>_refill_watermark\<close> call each other through the operations: the operations take the
  refilling as an argument, and \<open>refill_watermark\<close> has the depth of the recursion as fuel; its first call sets a flag that makes a second one return at once, so that
  a depth of 2 is enough.
\<close>

record am_properties =
  alloc_can_free :: bool
  free_can_alloc :: bool
  alloc_can_alloc :: bool
  free_can_free :: bool

definition ALLOCMAN_DEFAULT_PROPERTIES :: am_properties where
  "ALLOCMAN_DEFAULT_PROPERTIES = \<lparr>alloc_can_free = False, free_can_alloc = False, alloc_can_alloc = False, free_can_free = False\<rparr>"

record allocman =
  have_mspace :: bool
  have_cspace :: bool
  have_utspace :: bool
  in_operation :: bool
  cspace_alloc_depth :: nat
  cspace_free_depth :: nat
  utspace_alloc_depth :: nat
  utspace_free_depth :: nat
  mspace_alloc_depth :: nat
  mspace_free_depth :: nat
  refilling_watermark :: bool
  used_watermark :: bool
  desired_freed_slots :: nat
  freed_slots :: "cspacepath list"
  freed_slots_ptr :: int
  desired_freed_mspace_chunks :: nat
  freed_mspace_chunks :: "(int \<times> int) list" \<comment> \<open>\<^verbatim>\<open>ptr\<close>, \<^verbatim>\<open>size\<close>\<close>
  freed_mspace_ptr :: int
  desired_freed_utspace_chunks :: nat
  freed_utspace_chunks :: "(int \<times> nat) list" \<comment> \<open>\<^verbatim>\<open>cookie\<close>, \<^verbatim>\<open>size_bits\<close>\<close>
  freed_utspace_ptr :: int
  desired_cspace_slots :: nat
  cspace_slots :: "cspacepath list"
  cspace_slots_ptr :: int
  mspace_chunk :: "(int \<times> nat) list" \<comment> \<open>\<^verbatim>\<open>size\<close>, \<^verbatim>\<open>count\<close>\<close>
  mspace_chunks :: "int list list"
  mspace_ptrs :: "int \<times> int \<times> int" \<comment> \<open>the memory of \<^verbatim>\<open>mspace_chunk\<close>, \<^verbatim>\<open>mspace_chunk_count\<close> and \<^verbatim>\<open>mspace_chunks\<close>\<close>
  utspace_chunk :: "(nat \<times> int \<times> nat) list" \<comment> \<open>\<^verbatim>\<open>size_bits\<close>, \<^verbatim>\<open>type\<close>, \<^verbatim>\<open>count\<close>\<close>
  utspace_chunks :: "(int \<times> cspacepath) list list" \<comment> \<open>\<^verbatim>\<open>cookie\<close>, \<^verbatim>\<open>slot\<close>\<close>
  utspace_ptrs :: "int \<times> int \<times> int" \<comment> \<open>the memory of \<^verbatim>\<open>utspace_chunk\<close>, \<^verbatim>\<open>utspace_chunk_count\<close> and \<^verbatim>\<open>utspace_chunks\<close>\<close>

record 'w am_world =
  am :: allocman
  inside :: 'w

record 'w spaces = \<comment> \<open>\<^verbatim>\<open>struct mspace_interface\<close>, \<^verbatim>\<open>struct cspace_interface\<close>, \<^verbatim>\<open>struct utspace_interface\<close>, \<^verbatim>\<open>vka_cnode_move\<close>\<close>
  mspace_properties :: am_properties
  sp_mspace_alloc :: "'w am_world \<Rightarrow> int \<Rightarrow> (int \<times> int \<times> 'w am_world) option" \<comment> \<open>the pointer and \<^verbatim>\<open>*error\<close>\<close>
  sp_mspace_free :: "'w am_world \<Rightarrow> int \<Rightarrow> int \<Rightarrow> 'w am_world option"
  cspace_properties :: am_properties
  sp_cspace_alloc :: "'w am_world \<Rightarrow> (int \<times> cspacepath option \<times> 'w am_world) option"
  sp_cspace_free :: "'w am_world \<Rightarrow> cspacepath \<Rightarrow> 'w am_world option"
  utspace_properties :: am_properties
  sp_utspace_alloc :: "'w am_world \<Rightarrow> nat \<Rightarrow> int \<Rightarrow> cspacepath \<Rightarrow> int \<Rightarrow> bool \<Rightarrow> (int \<times> int \<times> 'w am_world) option"
  sp_utspace_free :: "'w am_world \<Rightarrow> int \<Rightarrow> nat \<Rightarrow> 'w am_world option"
  cnode_move :: "'w am_world \<Rightarrow> cspacepath \<Rightarrow> cspacepath \<Rightarrow> int \<times> 'w am_world"

abbreviation am_upd :: "(allocman \<Rightarrow> allocman) \<Rightarrow> 'w am_world \<Rightarrow> 'w am_world" where
  "am_upd f w \<equiv> w\<lparr>am := f (am w)\<rparr>"

subsection \<open>Operations\<close>

definition am_can_alloc :: "am_properties \<Rightarrow> nat \<Rightarrow> nat \<Rightarrow> bool" where
  "am_can_alloc properties alloc_depth free_depth \<longleftrightarrow>
     (alloc_can_alloc properties \<or> \<not> alloc_depth > 0) \<and> (free_can_alloc properties \<or> \<not> free_depth > 0)"

definition am_can_free :: "am_properties \<Rightarrow> nat \<Rightarrow> nat \<Rightarrow> bool" where
  "am_can_free properties alloc_depth free_depth \<longleftrightarrow>
     (alloc_can_free properties \<or> \<not> alloc_depth > 0) \<and> (free_can_free properties \<or> \<not> free_depth > 0)"

definition start_operation :: "'w am_world \<Rightarrow> bool \<times> 'w am_world" where
  "start_operation w = (\<not> in_operation (am w), am_upd (\<lambda>a. a\<lparr>in_operation := True\<rparr>) w)"

definition end_operation :: "('w am_world \<Rightarrow> (bool \<times> 'w am_world) option) \<Rightarrow> bool \<Rightarrow> 'w am_world \<Rightarrow> 'w am_world option" where
  "end_operation refill root w =
     (let w = am_upd (\<lambda>a. a\<lparr>in_operation := \<not> root\<rparr>) w in
      if root then map_option snd (refill w) else Some w)"

definition allocman_mspace_queue_for_free :: "int \<Rightarrow> int \<Rightarrow> 'w am_world \<Rightarrow> 'w am_world option" where
  "allocman_mspace_queue_for_free ptr bytes w =
     do { ok (length (freed_mspace_chunks (am w)) \<noteq> desired_freed_mspace_chunks (am w));
          Some (am_upd (\<lambda>a. a\<lparr>freed_mspace_chunks := freed_mspace_chunks a @ [(ptr, bytes)]\<rparr>) w) }"

definition allocman_cspace_queue_for_free :: "cspacepath \<Rightarrow> 'w am_world \<Rightarrow> 'w am_world option" where
  "allocman_cspace_queue_for_free path w =
     do { ok (length (freed_slots (am w)) \<noteq> desired_freed_slots (am w));
          Some (am_upd (\<lambda>a. a\<lparr>freed_slots := freed_slots a @ [path]\<rparr>) w) }"

definition allocman_utspace_queue_for_free :: "int \<Rightarrow> nat \<Rightarrow> 'w am_world \<Rightarrow> 'w am_world option" where
  "allocman_utspace_queue_for_free cookie size_bits w =
     do { ok (length (freed_utspace_chunks (am w)) \<noteq> desired_freed_utspace_chunks (am w));
          Some (am_upd (\<lambda>a. a\<lparr>freed_utspace_chunks := freed_utspace_chunks a @ [(cookie, size_bits)]\<rparr>) w) }"

type_synonym 'w refill = "'w am_world \<Rightarrow> (bool \<times> 'w am_world) option"

definition allocman_cspace_free :: "'w spaces \<Rightarrow> 'w refill \<Rightarrow> cspacepath \<Rightarrow> 'w am_world \<Rightarrow> 'w am_world option" where
  "allocman_cspace_free sp refill slot w =
     do { ok (have_cspace (am w));
          if \<not> am_can_free (cspace_properties sp) (cspace_alloc_depth (am w)) (cspace_free_depth (am w)) then allocman_cspace_queue_for_free slot w
          else do {
            let (root, w) = start_operation w;
            let w = am_upd (\<lambda>a. a\<lparr>cspace_free_depth := cspace_free_depth a + 1\<rparr>) w;
            w \<leftarrow> sp_cspace_free sp w slot;
            let w = am_upd (\<lambda>a. a\<lparr>cspace_free_depth := cspace_free_depth a - 1\<rparr>) w;
            end_operation refill root w } }"

definition allocman_mspace_free :: "'w spaces \<Rightarrow> 'w refill \<Rightarrow> int \<Rightarrow> int \<Rightarrow> 'w am_world \<Rightarrow> 'w am_world option" where
  "allocman_mspace_free sp refill ptr bytes w =
     do { ok (have_mspace (am w));
          if \<not> am_can_free (mspace_properties sp) (mspace_alloc_depth (am w)) (mspace_free_depth (am w)) then allocman_mspace_queue_for_free ptr bytes w
          else do {
            let (root, w) = start_operation w;
            let w = am_upd (\<lambda>a. a\<lparr>mspace_free_depth := mspace_free_depth a + 1\<rparr>) w;
            w \<leftarrow> sp_mspace_free sp w ptr bytes;
            let w = am_upd (\<lambda>a. a\<lparr>mspace_free_depth := mspace_free_depth a - 1\<rparr>) w;
            end_operation refill root w } }"

definition allocman_utspace_free :: "'w spaces \<Rightarrow> 'w refill \<Rightarrow> int \<Rightarrow> nat \<Rightarrow> 'w am_world \<Rightarrow> 'w am_world option" where
  "allocman_utspace_free sp refill cookie size_bits w =
     do { ok (have_utspace (am w));
          if \<not> am_can_free (utspace_properties sp) (utspace_alloc_depth (am w)) (utspace_free_depth (am w)) then allocman_utspace_queue_for_free cookie size_bits w
          else do {
            let (root, w) = start_operation w;
            let w = am_upd (\<lambda>a. a\<lparr>utspace_free_depth := utspace_free_depth a + 1\<rparr>) w;
            w \<leftarrow> sp_utspace_free sp w cookie size_bits;
            let w = am_upd (\<lambda>a. a\<lparr>utspace_free_depth := utspace_free_depth a - 1\<rparr>) w;
            end_operation refill root w } }"

subsection \<open>The reserves\<close>

fun find_stock :: "('c \<Rightarrow> bool) \<Rightarrow> 'c list \<Rightarrow> 'x list list \<Rightarrow> nat option" where
  \<comment> \<open>the loops of \<^verbatim>\<open>_try_watermark_mspace\<close> and \<^verbatim>\<open>_try_watermark_utspace\<close>: the first reserve of the kind that is not empty\<close>
  "find_stock P (c # cs) (xs # xss) = (if P c \<and> xs \<noteq> [] then Some 0 else map_option Suc (find_stock P cs xss))"
| "find_stock P _ _ = None"

definition try_watermark_mspace :: "int \<Rightarrow> 'w am_world \<Rightarrow> int \<times> int \<times> 'w am_world" where
  "try_watermark_mspace bytes w =
     (case find_stock (\<lambda>c. fst c = bytes) (mspace_chunk (am w)) (mspace_chunks (am w)) of
        Some i \<Rightarrow> (last (mspace_chunks (am w) ! i), 0,
                   am_upd (\<lambda>a. a\<lparr>mspace_chunks := (mspace_chunks a)[i := butlast (mspace_chunks a ! i)], used_watermark := True\<rparr>) w)
      | None \<Rightarrow> (0, 1, w))"

definition try_watermark_cspace :: "'w am_world \<Rightarrow> int \<times> cspacepath option \<times> 'w am_world" where
  "try_watermark_cspace w =
     (if cspace_slots (am w) = [] then (1, None, w)
      else (0, Some (last (cspace_slots (am w))), am_upd (\<lambda>a. a\<lparr>used_watermark := True, cspace_slots := butlast (cspace_slots a)\<rparr>) w))"

definition try_watermark_utspace ::
  "'w spaces \<Rightarrow> 'w refill \<Rightarrow> nat \<Rightarrow> int \<Rightarrow> cspacepath \<Rightarrow> 'w am_world \<Rightarrow> (int \<times> int \<times> 'w am_world) option" where
  "try_watermark_utspace sp refill size_bits type path w =
     (case find_stock (\<lambda>(s, t, _). s = size_bits \<and> t = type) (utspace_chunk (am w)) (utspace_chunks (am w)) of
        Some i \<Rightarrow>
          (let (cookie, slot) = last (utspace_chunks (am w) ! i);
               (error, w) = cnode_move sp w path slot in
           if error \<noteq> 0 then Some (0, 1, w)
           else do {
             let w = am_upd (\<lambda>a. a\<lparr>used_watermark := True, utspace_chunks := (utspace_chunks a)[i := butlast (utspace_chunks a ! i)]\<rparr>) w;
             w \<leftarrow> allocman_cspace_free sp refill slot w;
             Some (cookie, 0, w) })
      | None \<Rightarrow> Some (0, 1, w))"

subsection \<open>Allocation\<close>

definition am_mspace_alloc :: "'w spaces \<Rightarrow> 'w refill \<Rightarrow> int \<Rightarrow> bool \<Rightarrow> 'w am_world \<Rightarrow> (int \<times> int \<times> 'w am_world) option" where
  \<comment> \<open>\<^verbatim>\<open>_allocman_mspace_alloc\<close>\<close>
  "am_mspace_alloc sp refill bytes use_watermark w =
     (if \<not> have_mspace (am w) then Some (0, 1, w)
      else if \<not> am_can_alloc (mspace_properties sp) (mspace_alloc_depth (am w)) (mspace_free_depth (am w)) then
        if use_watermark then Some (try_watermark_mspace bytes w) else Some (0, 1, w)
      else do {
        let (root_op, w) = start_operation w;
        let w = am_upd (\<lambda>a. a\<lparr>mspace_alloc_depth := mspace_alloc_depth a + 1\<rparr>) w;
        (ret, error, w) \<leftarrow> sp_mspace_alloc sp w bytes;
        let w = am_upd (\<lambda>a. a\<lparr>mspace_alloc_depth := mspace_alloc_depth a - 1\<rparr>) w;
        let (ret, error, w) = (if error = 0 then (ret, 0, w) else if use_watermark then try_watermark_mspace bytes w else (0, 1, w));
        w \<leftarrow> end_operation refill root_op w;
        Some (ret, error, w) })"

definition am_cspace_alloc :: "'w spaces \<Rightarrow> 'w refill \<Rightarrow> bool \<Rightarrow> 'w am_world \<Rightarrow> (int \<times> cspacepath option \<times> 'w am_world) option" where
  \<comment> \<open>\<^verbatim>\<open>_allocman_cspace_alloc\<close>\<close>
  "am_cspace_alloc sp refill use_watermark w =
     (if \<not> have_cspace (am w) then Some (1, None, w)
      else if \<not> am_can_alloc (cspace_properties sp) (cspace_alloc_depth (am w)) (cspace_free_depth (am w)) then
        if use_watermark then Some (try_watermark_cspace w) else Some (1, None, w)
      else do {
        let (root_op, w) = start_operation w;
        let w = am_upd (\<lambda>a. a\<lparr>cspace_alloc_depth := cspace_alloc_depth a + 1\<rparr>) w;
        (error, slot, w) \<leftarrow> sp_cspace_alloc sp w;
        let w = am_upd (\<lambda>a. a\<lparr>cspace_alloc_depth := cspace_alloc_depth a - 1\<rparr>) w;
        let (error, slot, w) = (if error = 0 then (0, slot, w) else if use_watermark then try_watermark_cspace w else (1, None, w));
        w \<leftarrow> end_operation refill root_op w;
        Some (error, slot, w) })"

definition am_utspace_alloc ::
  "'w spaces \<Rightarrow> 'w refill \<Rightarrow> nat \<Rightarrow> int \<Rightarrow> cspacepath \<Rightarrow> int \<Rightarrow> bool \<Rightarrow> bool \<Rightarrow> 'w am_world \<Rightarrow> (int \<times> int \<times> 'w am_world) option" where
  \<comment> \<open>\<^verbatim>\<open>_allocman_utspace_alloc\<close>\<close>
  "am_utspace_alloc sp refill size_bits type path paddr canBeDev use_watermark w =
     (if \<not> have_utspace (am w) then Some (0, 1, w)
      else if \<not> am_can_alloc (utspace_properties sp) (utspace_alloc_depth (am w)) (utspace_free_depth (am w)) then
        if use_watermark \<and> paddr = ALLOCMAN_NO_PADDR then try_watermark_utspace sp refill size_bits type path w else Some (0, 1, w)
      else do {
        let (root_op, w) = start_operation w;
        let w = am_upd (\<lambda>a. a\<lparr>utspace_alloc_depth := utspace_alloc_depth a + 1\<rparr>) w;
        (ret, error, w) \<leftarrow> sp_utspace_alloc sp w size_bits type path paddr canBeDev;
        let w = am_upd (\<lambda>a. a\<lparr>utspace_alloc_depth := utspace_alloc_depth a - 1\<rparr>) w;
        (ret, error, w) \<leftarrow> (if error = 0 then Some (ret, 0, w)
           else if use_watermark \<and> paddr = ALLOCMAN_NO_PADDR then try_watermark_utspace sp refill size_bits type path w else Some (0, 1, w));
        w \<leftarrow> end_operation refill root_op w;
        Some (ret, error, w) })"

subsection \<open>Refilling\<close>

partial_function (option) drain :: "('w am_world \<Rightarrow> 'x list) \<Rightarrow> ('x list \<Rightarrow> 'w am_world \<Rightarrow> 'w am_world) \<Rightarrow> ('x \<Rightarrow> 'w am_world \<Rightarrow> 'w am_world option) \<Rightarrow> 'w am_world \<Rightarrow> 'w am_world option" where
  \<comment> \<open>the three loops over what could not be freed before\<close>
  "drain queue put free w =
     (if queue w = [] then Some w
      else do { let x = last (queue w); w \<leftarrow> free x (put (butlast (queue w)) w); drain queue put free w })"

definition drain_all :: "'w spaces \<Rightarrow> 'w refill \<Rightarrow> 'w am_world \<Rightarrow> (bool \<times> 'w am_world) option" where
  \<comment> \<open>and whether there was anything\<close>
  "drain_all sp refill w =
     do { let some_slots = (freed_slots (am w) \<noteq> []);
          w \<leftarrow> drain (freed_slots \<circ> am) (\<lambda>xs. am_upd (\<lambda>a. a\<lparr>freed_slots := xs\<rparr>)) (allocman_cspace_free sp refill) w;
          let some_memory = (freed_mspace_chunks (am w) \<noteq> []);
          w \<leftarrow> drain (freed_mspace_chunks \<circ> am) (\<lambda>xs. am_upd (\<lambda>a. a\<lparr>freed_mspace_chunks := xs\<rparr>)) (\<lambda>(ptr, bytes). allocman_mspace_free sp refill ptr bytes) w;
          let some_untyped = (freed_utspace_chunks (am w) \<noteq> []);
          w \<leftarrow> drain (freed_utspace_chunks \<circ> am) (\<lambda>xs. am_upd (\<lambda>a. a\<lparr>freed_utspace_chunks := xs\<rparr>)) (\<lambda>(cookie, size_bits). allocman_utspace_free sp refill cookie size_bits) w;
          Some (some_slots \<or> some_memory \<or> some_untyped, w) }"

definition refill_cspace :: "'w spaces \<Rightarrow> 'w refill \<Rightarrow> 'w am_world \<Rightarrow> (bool \<times> bool \<times> 'w am_world) option" where
  \<comment> \<open>\<^verbatim>\<open>found_empty_pool\<close>, \<^verbatim>\<open>did_allocation\<close>\<close>
  "refill_cspace sp refill w =
     (if length (cspace_slots (am w)) < desired_cspace_slots (am w) then
        do { (error, slot, w) \<leftarrow> am_cspace_alloc sp refill False w;
             if error = 0 then do { slot \<leftarrow> slot; Some (True, True, am_upd (\<lambda>a. a\<lparr>cspace_slots := cspace_slots a @ [slot]\<rparr>) w) }
             else Some (True, False, w) }
      else Some (False, False, w))"

definition refill_utspace_one :: "'w spaces \<Rightarrow> 'w refill \<Rightarrow> nat \<Rightarrow> 'w am_world \<Rightarrow> (bool \<times> bool \<times> 'w am_world) option" where
  "refill_utspace_one sp refill i w =
     (let (size_bits, type, count) = utspace_chunk (am w) ! i in
      if length (utspace_chunks (am w) ! i) < count then
        do { (error, slot, w) \<leftarrow> am_cspace_alloc sp refill True w;
             if error \<noteq> 0 then Some (True, False, w)
             else do {
               slot \<leftarrow> slot;
               (cookie, error, w) \<leftarrow> am_utspace_alloc sp refill size_bits type slot ALLOCMAN_NO_PADDR False False w;
               if error = 0 then Some (True, True, am_upd (\<lambda>a. a\<lparr>utspace_chunks := (utspace_chunks a)[i := utspace_chunks a ! i @ [(cookie, slot)]]\<rparr>) w)
               else do { w \<leftarrow> allocman_cspace_free sp refill slot w; Some (True, False, w) } } }
      else Some (False, False, w))"

definition refill_mspace_one :: "'w spaces \<Rightarrow> 'w refill \<Rightarrow> nat \<Rightarrow> 'w am_world \<Rightarrow> (bool \<times> bool \<times> 'w am_world) option" where
  "refill_mspace_one sp refill i w =
     (let (bytes, count) = mspace_chunk (am w) ! i in
      if length (mspace_chunks (am w) ! i) < count then
        do { (ret, error, w) \<leftarrow> am_mspace_alloc sp refill bytes False w;
             if error = 0 then Some (True, True, am_upd (\<lambda>a. a\<lparr>mspace_chunks := (mspace_chunks a)[i := mspace_chunks a ! i @ [ret]]\<rparr>) w)
             else Some (True, False, w) }
      else Some (False, False, w))"

fun each :: "(nat \<Rightarrow> 'w am_world \<Rightarrow> (bool \<times> bool \<times> 'w am_world) option) \<Rightarrow> nat list \<Rightarrow> 'w am_world \<Rightarrow> (bool \<times> bool \<times> 'w am_world) option" where
  "each f [] w = Some (False, False, w)"
| "each f (i # is) w = do { (e, d, w) \<leftarrow> f i w; (e', d', w) \<leftarrow> each f is w; Some (e \<or> e', d \<or> d', w) }"

definition refill_round :: "'w spaces \<Rightarrow> 'w refill \<Rightarrow> 'w am_world \<Rightarrow> (bool \<times> bool \<times> 'w am_world) option" where
  \<comment> \<open>the body of the loop of \<^verbatim>\<open>_refill_watermark\<close>\<close>
  "refill_round sp refill w =
     do { (d0, w) \<leftarrow> drain_all sp refill w;
          (e1, d1, w) \<leftarrow> refill_cspace sp refill w;
          (e2, d2, w) \<leftarrow> each (refill_utspace_one sp refill) [0..<length (utspace_chunk (am w))] w;
          (e3, d3, w) \<leftarrow> each (refill_mspace_one sp refill) [0..<length (mspace_chunk (am w))] w;
          Some (e1 \<or> e2 \<or> e3, d0 \<or> d1 \<or> d2 \<or> d3, w) }"

fun refill_rounds :: "'w spaces \<Rightarrow> 'w refill \<Rightarrow> nat \<Rightarrow> 'w am_world \<Rightarrow> (bool \<times> 'w am_world) option" where
  \<comment> \<open>\<^verbatim>\<open>do ... while (found_empty_pool && did_allocation && limit < 4)\<close>: so many rounds are left after this one\<close>
  "refill_rounds sp refill n w =
     do { (found_empty_pool, did_allocation, w) \<leftarrow> refill_round sp refill w;
          if found_empty_pool \<and> did_allocation then (case n of 0 \<Rightarrow> Some (found_empty_pool, w) | Suc m \<Rightarrow> refill_rounds sp refill m w)
          else Some (found_empty_pool, w) }"

fun refill_watermark :: "'w spaces \<Rightarrow> nat \<Rightarrow> 'w refill" where
  "refill_watermark sp depth w =
     (if refilling_watermark (am w) \<or> \<not> used_watermark (am w) then Some (False, w)
      else case depth of 0 \<Rightarrow> None
      | Suc d \<Rightarrow>
          do { let w = am_upd (\<lambda>a. a\<lparr>refilling_watermark := True\<rparr>) w;
               (found_empty_pool, w) \<leftarrow> refill_rounds sp (refill_watermark sp d) 3 w;
               let w = am_upd (\<lambda>a. a\<lparr>refilling_watermark := False\<rparr>) w;
               Some (found_empty_pool, if found_empty_pool then w else am_upd (\<lambda>a. a\<lparr>used_watermark := False\<rparr>) w) })"

declare refill_rounds.simps [simp del] refill_watermark.simps [simp del]

abbreviation am_refill :: "'w spaces \<Rightarrow> 'w refill" where
  "am_refill sp \<equiv> refill_watermark sp 2"

definition allocman_mspace_alloc :: "'w spaces \<Rightarrow> int \<Rightarrow> 'w am_world \<Rightarrow> (int \<times> int \<times> 'w am_world) option" where
  "allocman_mspace_alloc sp bytes w = am_mspace_alloc sp (am_refill sp) bytes True w"

definition allocman_cspace_alloc :: "'w spaces \<Rightarrow> 'w am_world \<Rightarrow> (int \<times> cspacepath option \<times> 'w am_world) option" where
  "allocman_cspace_alloc sp w = am_cspace_alloc sp (am_refill sp) True w"

definition allocman_utspace_alloc_at :: "'w spaces \<Rightarrow> nat \<Rightarrow> int \<Rightarrow> cspacepath \<Rightarrow> int \<Rightarrow> bool \<Rightarrow> 'w am_world \<Rightarrow> (int \<times> int \<times> 'w am_world) option" where
  "allocman_utspace_alloc_at sp size_bits type path paddr canBeDev w = am_utspace_alloc sp (am_refill sp) size_bits type path paddr canBeDev True w"

subsection \<open>Setting up\<close>

definition allocman_create :: "'w \<Rightarrow> 'w am_world" where
  "allocman_create x = \<lparr>am = \<lparr>have_mspace = True, have_cspace = False, have_utspace = False, in_operation = False, cspace_alloc_depth = 0, cspace_free_depth = 0,
     utspace_alloc_depth = 0, utspace_free_depth = 0, mspace_alloc_depth = 0, mspace_free_depth = 0, refilling_watermark = False, used_watermark = False,
     desired_freed_slots = 0, freed_slots = [], freed_slots_ptr = 0, desired_freed_mspace_chunks = 0, freed_mspace_chunks = [], freed_mspace_ptr = 0,
     desired_freed_utspace_chunks = 0, freed_utspace_chunks = [], freed_utspace_ptr = 0, desired_cspace_slots = 0, cspace_slots = [], cspace_slots_ptr = 0,
     mspace_chunk = [], mspace_chunks = [], mspace_ptrs = (0, 0, 0), utspace_chunk = [], utspace_chunks = [], utspace_ptrs = (0, 0, 0)\<rparr>, inside = x\<rparr>"

definition allocman_fill_reserves :: "'w spaces \<Rightarrow> 'w refill \<Rightarrow> 'w am_world \<Rightarrow> (bool \<times> 'w am_world) option" where
  "allocman_fill_reserves sp refill w =
     do { let (root, w) = start_operation w;
          let w = am_upd (\<lambda>a. a\<lparr>used_watermark := True\<rparr>) w;
          (full, w) \<leftarrow> refill w;
          w \<leftarrow> end_operation refill root w;
          Some (full, w) }"

definition allocman_utspace_add_uts ::
  "'w spaces \<Rightarrow> ('w am_world \<Rightarrow> (cspacepath \<times> nat \<times> int) list \<Rightarrow> int \<Rightarrow> (int \<times> 'w am_world) option) \<Rightarrow> 'w refill \<Rightarrow> (cspacepath \<times> nat \<times> int) list \<Rightarrow> int \<Rightarrow> 'w am_world \<Rightarrow> (int \<times> 'w am_world) option" where
  \<comment> \<open>with the \<^verbatim>\<open>add_uts\<close> of the allocator that is installed\<close>
  "allocman_utspace_add_uts sp add refill uts utType w =
     do { ok (have_utspace (am w));
          (error, w) \<leftarrow> add w uts utType;
          if error \<noteq> 0 then Some (error, w)
          else do { (full, w) \<leftarrow> allocman_fill_reserves sp refill w; Some (0, w) } }"

definition ALLOCMAN_UT_DEV :: int where "ALLOCMAN_UT_DEV = 1"

fun allocman_add_untypeds_from_timer_objects ::
  "'w spaces \<Rightarrow> ('w am_world \<Rightarrow> (cspacepath \<times> nat \<times> int) list \<Rightarrow> int \<Rightarrow> (int \<times> 'w am_world) option) \<Rightarrow> (int \<Rightarrow> cspacepath) \<Rightarrow> 'w refill \<Rightarrow> (int \<times> nat \<times> int) list \<Rightarrow> 'w am_world \<Rightarrow> (int \<times> 'w am_world) option" where
  \<comment> \<open>the objects with \<^verbatim>\<open>obj.cptr\<close>, \<^verbatim>\<open>obj.size_bits\<close> and \<^verbatim>\<open>region.base_addr\<close>; \<open>path_of\<close> is the \<^verbatim>\<open>make_path\<close> of the installed allocator for slots\<close>
  "allocman_add_untypeds_from_timer_objects sp add path_of refill [] w = Some (0, w)"
| "allocman_add_untypeds_from_timer_objects sp add path_of refill ((cptr, size_bits, base_addr) # objs) w =
     do { (error, w) \<leftarrow> allocman_utspace_add_uts sp add refill [(path_of cptr, size_bits, base_addr)] ALLOCMAN_UT_DEV w;
          if error \<noteq> 0 then Some (error, w) else allocman_add_untypeds_from_timer_objects sp add path_of refill objs w }"

definition allocman_attach_utspace :: "'w spaces \<Rightarrow> 'w refill \<Rightarrow> 'w am_world \<Rightarrow> (int \<times> 'w am_world) option" where
  "allocman_attach_utspace sp refill w =
     do { let (root, w) = start_operation w;
          ok root;
          if have_utspace (am w) then Some (1, w)
          else do { w \<leftarrow> end_operation refill root (am_upd (\<lambda>a. a\<lparr>have_utspace := True\<rparr>) w); Some (0, w) } }"

definition allocman_attach_cspace :: "'w spaces \<Rightarrow> 'w refill \<Rightarrow> 'w am_world \<Rightarrow> (int \<times> 'w am_world) option" where
  "allocman_attach_cspace sp refill w =
     do { let (root, w) = start_operation w;
          ok root;
          if have_cspace (am w) then Some (1, w)
          else do { w \<leftarrow> end_operation refill root (am_upd (\<lambda>a. a\<lparr>have_cspace := True\<rparr>) w); Some (0, w) } }"

definition resize_array ::
  "'w spaces \<Rightarrow> 'w refill \<Rightarrow> nat \<Rightarrow> (allocman \<Rightarrow> int) \<Rightarrow> (allocman \<Rightarrow> nat) \<Rightarrow> (allocman \<Rightarrow> nat) \<Rightarrow> (int \<Rightarrow> nat \<Rightarrow> allocman \<Rightarrow> allocman) \<Rightarrow> int \<Rightarrow> 'w am_world \<Rightarrow> (int \<times> 'w am_world) option" where
  \<comment> \<open>the array, its size and the number of its entries; how to switch a new one in\<close>
  "resize_array sp refill num array size_of count_of switch item_size w =
     do { let (root, w) = start_operation w;
          ok root;
          (new_array, error, w) \<leftarrow> am_mspace_alloc sp refill (u32 (item_size * int num)) True w;
          if error \<noteq> 0 then Some (error, w)
          else if num < count_of (am w) then Some (- 1, w)
          else do {
            w \<leftarrow> (if array (am w) \<noteq> 0 then allocman_mspace_free sp refill (array (am w)) (u32 (item_size * int (size_of (am w)))) w else Some w);
            let w = am_upd (\<lambda>a. (switch new_array num a)\<lparr>used_watermark := True\<rparr>) w;
            w \<leftarrow> end_operation refill root w;
            Some (error, w) } }"

definition allocman_configure_cspace_reserve :: "'w spaces \<Rightarrow> 'w refill \<Rightarrow> nat \<Rightarrow> 'w am_world \<Rightarrow> (int \<times> 'w am_world) option" where
  "allocman_configure_cspace_reserve sp refill num =
     resize_array sp refill num cspace_slots_ptr desired_cspace_slots (length \<circ> cspace_slots) (\<lambda>p n a. a\<lparr>cspace_slots_ptr := p, desired_cspace_slots := n\<rparr>) 28"

definition allocman_configure_max_freed_slots :: "'w spaces \<Rightarrow> 'w refill \<Rightarrow> nat \<Rightarrow> 'w am_world \<Rightarrow> (int \<times> 'w am_world) option" where
  "allocman_configure_max_freed_slots sp refill num =
     resize_array sp refill num freed_slots_ptr desired_freed_slots (length \<circ> freed_slots) (\<lambda>p n a. a\<lparr>freed_slots_ptr := p, desired_freed_slots := n\<rparr>) 28"

definition allocman_configure_max_freed_memory_chunks :: "'w spaces \<Rightarrow> 'w refill \<Rightarrow> nat \<Rightarrow> 'w am_world \<Rightarrow> (int \<times> 'w am_world) option" where
  "allocman_configure_max_freed_memory_chunks sp refill num =
     resize_array sp refill num freed_mspace_ptr desired_freed_mspace_chunks (length \<circ> freed_mspace_chunks)
       (\<lambda>p n a. a\<lparr>freed_mspace_ptr := p, desired_freed_mspace_chunks := n\<rparr>) 8"

definition allocman_configure_max_freed_untyped_chunks :: "'w spaces \<Rightarrow> 'w refill \<Rightarrow> nat \<Rightarrow> 'w am_world \<Rightarrow> (int \<times> 'w am_world) option" where
  "allocman_configure_max_freed_untyped_chunks sp refill num =
     resize_array sp refill num freed_utspace_ptr desired_freed_utspace_chunks (length \<circ> freed_utspace_chunks)
       (\<lambda>p n a. a\<lparr>freed_utspace_ptr := p, desired_freed_utspace_chunks := n\<rparr>) 8"

fun free_arrays :: "'w spaces \<Rightarrow> 'w refill \<Rightarrow> (int \<times> int) list \<Rightarrow> 'w am_world \<Rightarrow> 'w am_world option" where
  \<comment> \<open>\<^verbatim>\<open>allocman_mspace_free\<close> of several arrays in a row\<close>
  "free_arrays sp refill [] w = Some w"
| "free_arrays sp refill ((p, bytes) # ps) w = do { w \<leftarrow> allocman_mspace_free sp refill p bytes w; free_arrays sp refill ps w }"

fun alloc_arrays :: "'w spaces \<Rightarrow> 'w refill \<Rightarrow> int list \<Rightarrow> (int \<times> int) list \<Rightarrow> 'w am_world \<Rightarrow> (int \<times> (int \<times> int) list \<times> 'w am_world) option" where
  \<comment> \<open>the new arrays, one after the other; those that exist already are freed on an error\<close>
  "alloc_arrays sp refill [] done w = Some (0, done, w)"
| "alloc_arrays sp refill (bytes # rest) done w =
     do { (p, error, w) \<leftarrow> am_mspace_alloc sp refill bytes True w;
          if error \<noteq> 0 then do { w \<leftarrow> free_arrays sp refill done w; Some (error, [], w) }
          else alloc_arrays sp refill rest (done @ [(p, bytes)]) w }"

definition allocman_configure_utspace_reserve :: "'w spaces \<Rightarrow> 'w refill \<Rightarrow> nat \<times> int \<times> nat \<Rightarrow> 'w am_world \<Rightarrow> (int \<times> 'w am_world) option" where
  "allocman_configure_utspace_reserve sp refill chunk w =
     do { let (root, w) = start_operation w;
          let n = int (length (utspace_chunk (am w)));
          (error, w) \<leftarrow>
            (if list_ex (\<lambda>(size_bits, type, count). size_bits = fst chunk \<and> type = fst (snd chunk)) (utspace_chunk (am w)) then Some (1, w)
             else do {
               (error, new, w) \<leftarrow> alloc_arrays sp refill [u32 (12 * (n + 1)), u32 (4 * (n + 1)), u32 (4 * (n + 1)), u32 (32 * int (snd (snd chunk)))] [] w;
               if error \<noteq> 0 then Some (error, w)
               else do {
                 let (p1, p2, p3) = utspace_ptrs (am w);
                 w \<leftarrow> (if n > 0 then free_arrays sp refill [(p1, u32 (12 * n)), (p2, u32 (4 * n)), (p3, u32 (4 * n))] w else Some w);
                 Some (0, am_upd (\<lambda>a. a\<lparr>utspace_ptrs := (fst (new ! 0), fst (new ! 1), fst (new ! 2)), utspace_chunk := utspace_chunk a @ [chunk],
                   utspace_chunks := utspace_chunks a @ [[]], used_watermark := True\<rparr>) w) } });
          w \<leftarrow> end_operation refill root w;
          Some (error, w) }"

definition allocman_configure_mspace_reserve :: "'w spaces \<Rightarrow> 'w refill \<Rightarrow> int \<times> nat \<Rightarrow> 'w am_world \<Rightarrow> (int \<times> 'w am_world) option" where
  "allocman_configure_mspace_reserve sp refill chunk w =
     do { let (root, w) = start_operation w;
          let n = int (length (mspace_chunk (am w)));
          (error, w) \<leftarrow>
            (if list_ex (\<lambda>c. fst c = fst chunk) (mspace_chunk (am w)) then Some (1, w)
             else do {
               (error, new, w) \<leftarrow> alloc_arrays sp refill [u32 (8 * (n + 1)), u32 (4 * (n + 1)), u32 (4 * (n + 1)), u32 (4 * int (snd chunk))] [] w;
               if error \<noteq> 0 then Some (error, w)
               else do {
                 let (p1, p2, p3) = mspace_ptrs (am w);
                 w \<leftarrow> (if n > 0 then free_arrays sp refill [(p1, u32 (8 * n)), (p2, u32 (4 * n)), (p3, u32 (4 * n))] w else Some w);
                 Some (0, am_upd (\<lambda>a. a\<lparr>mspace_ptrs := (fst (new ! 0), fst (new ! 1), fst (new ! 2)), mspace_chunk := mspace_chunk a @ [chunk],
                   mspace_chunks := mspace_chunks a @ [[]], used_watermark := True\<rparr>) w) } });
          w \<leftarrow> end_operation refill root w;
          Some (error, w) }"

subsection \<open>The allocators of the system behind the manager\<close>

record 'k kernel_ops = "'k kernel_calls" +
  k_move :: "'k \<Rightarrow> cspacepath \<Rightarrow> cspacepath \<Rightarrow> int \<times> 'k" \<comment> \<open>\<^verbatim>\<open>vka_cnode_move\<close>: destination, source\<close>

type_synonym 'k inner = "'k alloc_sys \<times> utspace"

definition base_spaces :: "(int \<Rightarrow> int) \<Rightarrow> 'k kernel_ops \<Rightarrow> 'k inner spaces" where
  \<comment> \<open>\<^verbatim>\<open>mspace_dual_pool_make_interface\<close> and \<^verbatim>\<open>cspace_single_level_make_interface\<close>; no allocator for untyped memory yet\<close>
  "base_spaces add_page kc =
     \<lparr>mspace_properties = ALLOCMAN_DEFAULT_PROPERTIES,
      sp_mspace_alloc = (\<lambda>w bytes. do { (p, error, d) \<leftarrow> mspace_dual_pool_alloc add_page (sys_pool (fst (inside w))) bytes;
        Some (p, error, w\<lparr>inside := ((fst (inside w))\<lparr>sys_pool := d\<rparr>, snd (inside w))\<rparr>) }),
      sp_mspace_free = (\<lambda>w p bytes. do { d \<leftarrow> mspace_dual_pool_free (sys_pool (fst (inside w))) p;
        Some (w\<lparr>inside := ((fst (inside w))\<lparr>sys_pool := d\<rparr>, snd (inside w))\<rparr>) }),
      cspace_properties = ALLOCMAN_DEFAULT_PROPERTIES,
      sp_cspace_alloc = (\<lambda>w. do { (r, q, c) \<leftarrow> cspace_single_level_alloc (sys_slots (fst (inside w)));
        Some (r, q, w\<lparr>inside := ((fst (inside w))\<lparr>sys_slots := c\<rparr>, snd (inside w))\<rparr>) }),
      sp_cspace_free = (\<lambda>w p. do { c \<leftarrow> cspace_single_level_free (sys_slots (fst (inside w))) p;
        Some (w\<lparr>inside := ((fst (inside w))\<lparr>sys_slots := c\<rparr>, snd (inside w))\<rparr>) }),
      utspace_properties = ALLOCMAN_DEFAULT_PROPERTIES,
      sp_utspace_alloc = (\<lambda>w size_bits type path paddr dev. None),
      sp_utspace_free = (\<lambda>w cookie size_bits. None),
      cnode_move = (\<lambda>w dest src. let (r, k) = k_move kc (sys_kernel (fst (inside w))) dest src in
        (r, w\<lparr>inside := ((fst (inside w))\<lparr>sys_kernel := k\<rparr>, snd (inside w))\<rparr>))\<rparr>"

definition nested_env :: "(int \<Rightarrow> int) \<Rightarrow> 'k kernel_ops \<Rightarrow> (int \<Rightarrow> ut_node) \<Rightarrow> 'k inner am_world ut_env" where
  \<comment> \<open>what the allocator for untyped memory calls: the manager, which is in an operation then and does not refill its reserves\<close>
  "nested_env add_page kc junk =
     \<lparr>mem_alloc = (\<lambda>w. do { (p, error, w) \<leftarrow> am_mspace_alloc (base_spaces add_page kc) (\<lambda>_. None) NODE_BYTES True w; Some (if error = 0 then p else 0, w) }),
      mem_free = (\<lambda>w p. allocman_mspace_free (base_spaces add_page kc) (\<lambda>_. None) p NODE_BYTES w),
      slot_alloc = am_cspace_alloc (base_spaces add_page kc) (\<lambda>_. None) True,
      slot_free = (\<lambda>w p. allocman_cspace_free (base_spaces add_page kc) (\<lambda>_. None) p w),
      retype = (\<lambda>w u t n c. let (r, k) = k_retype kc (sys_kernel (fst (inside w))) u t n c in (r, w\<lparr>inside := ((fst (inside w))\<lparr>sys_kernel := k\<rparr>, snd (inside w))\<rparr>)),
      cap_delete = (\<lambda>w c. w\<lparr>inside := ((fst (inside w))\<lparr>sys_kernel := k_delete kc (sys_kernel (fst (inside w))) c\<rparr>, snd (inside w))\<rparr>),
      fresh_node = junk\<rparr>"

definition sys_spaces :: "(int \<Rightarrow> int) \<Rightarrow> 'k kernel_ops \<Rightarrow> (int \<Rightarrow> ut_node) \<Rightarrow> 'k inner spaces" where
  \<comment> \<open>and \<^verbatim>\<open>utspace_split_make_interface\<close>\<close>
  "sys_spaces add_page kc junk = (base_spaces add_page kc)\<lparr>
     sp_utspace_alloc := (\<lambda>w size_bits type path paddr dev. do {
       (cookie, error, s, w) \<leftarrow> utspace_split_alloc (nested_env add_page kc junk) (snd (inside w)) w size_bits type path paddr dev;
       Some (cookie, error, w\<lparr>inside := (fst (inside w), s)\<rparr>) }),
     sp_utspace_free := (\<lambda>w cookie size_bits. do {
       (s, w) \<leftarrow> utspace_split_free (nested_env add_page kc junk) (snd (inside w)) w cookie;
       Some (w\<lparr>inside := (fst (inside w), s)\<rparr>) })\<rparr>"

text \<open>The allocator for untyped memory takes new untypeds outside of an operation, so that the memory for a node may refill the reserves, from the same allocator, before the node is linked.\<close>

definition sys_insert_new_node :: "(int \<Rightarrow> int) \<Rightarrow> 'k kernel_ops \<Rightarrow> (int \<Rightarrow> ut_node) \<Rightarrow> head_ref \<Rightarrow> cspacepath \<Rightarrow> int \<Rightarrow> 'k inner am_world \<Rightarrow> (int \<times> 'k inner am_world) option" where
  "sys_insert_new_node add_page kc junk head ut paddr w =
     do { (p, error, w) \<leftarrow> allocman_mspace_alloc (sys_spaces add_page kc junk) NODE_BYTES w;
          (error, s, w) \<leftarrow> insert_new_node ((nested_env add_page kc junk)\<lparr>mem_alloc := (\<lambda>w. Some (if error = 0 then p else 0, w))\<rparr>) (snd (inside w)) w head ut paddr;
          Some (error, w\<lparr>inside := (fst (inside w), s)\<rparr>) }"

fun sys_add_loop :: "(int \<Rightarrow> int) \<Rightarrow> 'k kernel_ops \<Rightarrow> (int \<Rightarrow> ut_node) \<Rightarrow> ut_pool \<Rightarrow> (cspacepath \<times> nat \<times> int) list \<Rightarrow> 'k inner am_world \<Rightarrow> (int \<times> 'k inner am_world) option" where
  "sys_add_loop add_page kc junk pool [] w = Some (0, w)"
| "sys_add_loop add_page kc junk pool ((ut, size_bits, paddr) # uts) w =
     do { (error, w) \<leftarrow> sys_insert_new_node add_page kc junk (pool, size_bits) ut paddr w;
          if error \<noteq> 0 then Some (error, w) else sys_add_loop add_page kc junk pool uts w }"

definition sys_add_uts :: "(int \<Rightarrow> int) \<Rightarrow> 'k kernel_ops \<Rightarrow> (int \<Rightarrow> ut_node) \<Rightarrow> 'k inner am_world \<Rightarrow> (cspacepath \<times> nat \<times> int) list \<Rightarrow> int \<Rightarrow> (int \<times> 'k inner am_world) option" where
  "sys_add_uts add_page kc junk w uts utType =
     (if utType = 0 then sys_add_loop add_page kc junk heads uts w
      else if utType = 1 then sys_add_loop add_page kc junk dev_heads uts w
      else if utType = 2 then sys_add_loop add_page kc junk dev_mem_heads uts w
      else Some (- 1, w))"

end
