(* ===== verification/Reserve.thy ===== *)
theory Reserve
  imports Manager "HOL-Library.Multiset"
begin

text \<open>
  The allocation manager between the allocators: what it owns (the stock of its reserves) and what its clients have, and that every call keeps the two apart. The allocator for untyped
  memory calls the manager for the memory and the slots of its nodes; the interpretation \<open>nest\<close> of its interface on the manager's own calls carries the lemmas of \<^verbatim>\<open>Buddy.thy\<close> over.
\<close>

abbreviation pool_of :: "'k inner am_world \<Rightarrow> dual_pool" where "pool_of w \<equiv> sys_pool (fst (inside w))"
abbreviation slots_of :: "'k inner am_world \<Rightarrow> single_level" where "slots_of w \<equiv> sys_slots (fst (inside w))"

subsection \<open>What the manager owns\<close>

definition stock_mem :: "allocman \<Rightarrow> int set" where
  "stock_mem a = set (concat (mspace_chunks a))"

definition stock_caps :: "allocman \<Rightarrow> int list" where
  "stock_caps a = map cp_capPtr (cspace_slots a @ map snd (concat (utspace_chunks a)))"

definition stock_ok :: "allocman \<Rightarrow> (int \<rightharpoonup> int) \<Rightarrow> bool" where
  \<comment> \<open>the blocks of the reserves have their sizes\<close>
  "stock_ok a U \<longleftrightarrow> length (mspace_chunks a) = length (mspace_chunk a) \<and> distinct (concat (mspace_chunks a)) \<and> distinct (stock_caps a)
     \<and> (\<forall>i<length (mspace_chunk a). 0 < fst (mspace_chunk a ! i) \<and> fst (mspace_chunk a ! i) \<le> 268435456
         \<and> (\<forall>p\<in>set (mspace_chunks a ! i). U p = Some (fst (mspace_chunk a ! i))))"

definition frame :: "allocman \<Rightarrow> allocman" where
  \<comment> \<open>what allocation of memory and slots leaves as it is\<close>
  "frame a = a\<lparr>in_operation := False, mspace_chunks := [], cspace_slots := [], used_watermark := False\<rparr>"

definition ready :: "allocman \<Rightarrow> bool" where
  \<comment> \<open>memory and slots can be asked for\<close>
  "ready a \<longleftrightarrow> have_mspace a \<and> have_cspace a \<and> mspace_alloc_depth a = 0 \<and> mspace_free_depth a = 0 \<and> cspace_alloc_depth a = 0 \<and> cspace_free_depth a = 0"

definition res_valid :: "(int \<Rightarrow> int) \<Rightarrow> allocman \<Rightarrow> (int \<rightharpoonup> int) \<Rightarrow> 'k inner am_world \<Rightarrow> int set \<Rightarrow> int set \<Rightarrow> bool" where
  \<comment> \<open>the blocks \<open>M\<close> (some of the sizes \<open>Uc\<close>) and the slots \<open>S\<close> are in use outside of the manager; the manager's state agrees with \<open>A\<close> up to its stock\<close>
  "res_valid add_page A Uc w M S \<longleftrightarrow> ready (am w) \<and> frame (am w) = frame A
     \<and> (\<exists>U. dual_run add_page (pool_of w) U \<and> Uc \<subseteq>\<^sub>m U \<and> stock_ok (am w) U \<and> dom U = M \<union> stock_mem (am w)) \<and> dom Uc \<subseteq> M \<and> M \<inter> stock_mem (am w) = {}
     \<and> slot_run (slots_of w) (S \<union> set (stock_caps (am w))) \<and> S \<inter> set (stock_caps (am w)) = {}"

lemma find_stock_spec:
  "find_stock P cs xss = Some i \<Longrightarrow> i < length cs \<and> i < length xss \<and> P (cs ! i) \<and> xss ! i \<noteq> []"
  by (induction P cs xss arbitrary: i rule: find_stock.induct) (auto split: if_splits)

lemma concat_take_last:
  assumes "i < length xss" "xss ! i \<noteq> []"
  shows "mset (concat xss) = add_mset (last (xss ! i)) (mset (concat (xss[i := butlast (xss ! i)])))"
proof -
  have "concat xss = concat (take i xss) @ xss ! i @ concat (drop (Suc i) xss)" using id_take_nth_drop [OF assms(1)] by (metis concat.simps(2) concat_append)
  moreover have "concat (xss[i := butlast (xss ! i)]) = concat (take i xss) @ butlast (xss ! i) @ concat (drop (Suc i) xss)"
    using upd_conv_take_nth_drop [OF assms(1)] by (metis concat.simps(2) concat_append)
  moreover have "mset (xss ! i) = add_mset (last (xss ! i)) (mset (butlast (xss ! i)))" using append_butlast_last_id [OF assms(2)] by (metis add_mset_add_single mset_append mset_single_iff)
  ultimately show ?thesis by simp
qed

lemma concat_put:
  assumes "i < length xss"
  shows "mset (concat (xss[i := xss ! i @ [x]])) = add_mset x (mset (concat xss))"
proof -
  have "concat xss = concat (take i xss) @ xss ! i @ concat (drop (Suc i) xss)" using id_take_nth_drop [OF assms(1)] by (metis concat.simps(2) concat_append)
  moreover have "concat (xss[i := xss ! i @ [x]]) = concat (take i xss) @ (xss ! i @ [x]) @ concat (drop (Suc i) xss)"
    using upd_conv_take_nth_drop [OF assms(1)] by (metis concat.simps(2) concat_append)
  ultimately show ?thesis by simp
qed

lemma mset_take:
  assumes "mset ys = add_mset x (mset xs)"
  shows "set ys = insert x (set xs)" "distinct ys \<longleftrightarrow> x \<notin> set xs \<and> distinct xs"
proof -
  have m: "mset ys = mset (x # xs)" using assms by simp
  show "set ys = insert x (set xs)" using mset_eq_setD [OF m] by simp
  show "distinct ys \<longleftrightarrow> x \<notin> set xs \<and> distinct xs" using mset_eq_imp_distinct_iff [OF m] by simp
qed

lemma res_validE:
  assumes "res_valid add_page A Uc w M S"
  obtains U where "ready (am w)" "frame (am w) = frame A" "dual_run add_page (pool_of w) U" "Uc \<subseteq>\<^sub>m U" "stock_ok (am w) U" "dom U = M \<union> stock_mem (am w)" "dom Uc \<subseteq> M" "M \<inter> stock_mem (am w) = {}"
    "slot_run (slots_of w) (S \<union> set (stock_caps (am w)))" "S \<inter> set (stock_caps (am w)) = {}"
  using assms unfolding res_valid_def by blast

lemma res_validI:
  assumes "ready (am w)" "frame (am w) = frame A" "dual_run add_page (pool_of w) U" "Uc \<subseteq>\<^sub>m U" "stock_ok (am w) U" "dom U = M \<union> stock_mem (am w)" "dom Uc \<subseteq> M" "M \<inter> stock_mem (am w) = {}"
    "slot_run (slots_of w) (S \<union> set (stock_caps (am w)))" "S \<inter> set (stock_caps (am w)) = {}"
  shows "res_valid add_page A Uc w M S"
  using assms unfolding res_valid_def by blast

lemma res_upd:
  \<comment> \<open>the fields that are not stock\<close>
  assumes "res_valid add_page A Uc w M S" "ready a" "frame a = frame A'"
    "mspace_chunk a = mspace_chunk (am w)" "mspace_chunks a = mspace_chunks (am w)" "cspace_slots a = cspace_slots (am w)" "utspace_chunks a = utspace_chunks (am w)"
  shows "res_valid add_page A' Uc (w\<lparr>am := a\<rparr>) M S"
proof -
  have "stock_mem a = stock_mem (am w)" "stock_caps a = stock_caps (am w)" "stock_ok a U = stock_ok (am w) U" for U
    using assms(4-7) by (simp_all add: stock_mem_def stock_caps_def stock_ok_def)
  note st = this
  obtain U where U: "dual_run add_page (pool_of w) U" "Uc \<subseteq>\<^sub>m U" "stock_ok (am w) U" "dom U = M \<union> stock_mem (am w)" "dom Uc \<subseteq> M" "M \<inter> stock_mem (am w) = {}"
    "slot_run (slots_of w) (S \<union> set (stock_caps (am w)))" "S \<inter> set (stock_caps (am w)) = {}" using assms(1) unfolding res_valid_def by blast
  then show ?thesis using assms(2,3) by (intro res_validI [of _ _ _ U]) (simp_all add: st)
qed

lemma res_forget:
  assumes "res_valid add_page A (Uc(p \<mapsto> b)) w (insert p M) S" "p \<notin> M" "dom Uc \<subseteq> M"
  shows "res_valid add_page A Uc w (insert p M) S"
proof -
  have "Uc \<subseteq>\<^sub>m Uc(p \<mapsto> b)" using assms(2,3) by (auto simp: map_le_def)
  moreover obtain U where U: "ready (am w)" "frame (am w) = frame A" "dual_run add_page (pool_of w) U" "Uc(p \<mapsto> b) \<subseteq>\<^sub>m U" "stock_ok (am w) U" "dom U = insert p M \<union> stock_mem (am w)"
    "dom (Uc(p \<mapsto> b)) \<subseteq> insert p M" "insert p M \<inter> stock_mem (am w) = {}" "slot_run (slots_of w) (S \<union> set (stock_caps (am w)))" "S \<inter> set (stock_caps (am w)) = {}" using assms(1) by (rule res_validE)
  ultimately have "Uc \<subseteq>\<^sub>m U" by (metis map_le_trans)
  then show ?thesis using U(1-3,5,6,8-10) assms(3) by (intro res_validI [of _ _ _ U]) auto
qed

lemma take_stock_mem:
  assumes v: "res_valid add_page A Uc w M S" and r: "try_watermark_mspace bytes w = (p, err, w')"
  shows "inside w' = inside w \<and> in_operation (am w') = in_operation (am w)
    \<and> (if err = 0 then p \<notin> M \<and> p \<noteq> 0 \<and> res_valid add_page A (Uc(p \<mapsto> bytes)) w' (insert p M) S else p = 0 \<and> err = 1 \<and> w' = w)"
proof (cases "find_stock (\<lambda>c. fst c = bytes) (mspace_chunk (am w)) (mspace_chunks (am w))")
  case None
  then show ?thesis using r by (simp add: try_watermark_mspace_def)
next
  case (Some i)
  let ?a = "am w"
  let ?a' = "?a\<lparr>mspace_chunks := (mspace_chunks ?a)[i := butlast (mspace_chunks ?a ! i)], used_watermark := True\<rparr>"
  obtain U where U: "ready ?a" "frame ?a = frame A" "dual_run add_page (pool_of w) U" "Uc \<subseteq>\<^sub>m U" "stock_ok ?a U" "dom U = M \<union> stock_mem ?a" "dom Uc \<subseteq> M" "M \<inter> stock_mem ?a = {}"
    "slot_run (slots_of w) (S \<union> set (stock_caps ?a))" "S \<inter> set (stock_caps ?a) = {}" using v by (rule res_validE)
  have f: "i < length (mspace_chunk ?a)" "i < length (mspace_chunks ?a)" "fst (mspace_chunk ?a ! i) = bytes" "mspace_chunks ?a ! i \<noteq> []" using find_stock_spec [OF Some] by auto
  have w': "p = last (mspace_chunks ?a ! i)" "err = 0" "w' = w\<lparr>am := ?a'\<rparr>" using r Some by (auto simp: try_watermark_mspace_def)
  have m: "mset (concat (mspace_chunks ?a)) = add_mset p (mset (concat (mspace_chunks ?a')))" using concat_take_last [OF f(2,4)] w'(1) by simp
  have sm: "stock_mem ?a = insert p (stock_mem ?a')" "p \<notin> stock_mem ?a'" "distinct (concat (mspace_chunks ?a'))"
    using mset_take [OF m] U(5) by (auto simp: stock_mem_def stock_ok_def)
  have Up: "U p = Some bytes" using U(5) f last_in_set [OF f(4)] w'(1) by (simp add: stock_ok_def)
  have "stock_ok ?a' U" using U(5) sm(3) f(2) by (auto simp: stock_ok_def stock_caps_def nth_list_update dest: in_set_butlastD)
  moreover have "Uc(p \<mapsto> bytes) \<subseteq>\<^sub>m U" using U(4) Up by (auto simp: map_le_def)
  moreover have "dom U = insert p M \<union> stock_mem ?a'" "insert p M \<inter> stock_mem ?a' = {}" "dom (Uc(p \<mapsto> bytes)) \<subseteq> insert p M" using U(6-8) sm by auto
  moreover have "stock_caps ?a' = stock_caps ?a" "ready ?a'" "frame ?a' = frame A" using U(1,2) by (simp_all add: stock_caps_def ready_def frame_def)
  ultimately have "res_valid add_page A (Uc(p \<mapsto> bytes)) w' (insert p M) S" using U(3,9,10) unfolding w'(3) by (intro res_validI [of _ _ _ U]) (simp_all del: dom_fun_upd)
  moreover have "p \<notin> M" "p \<noteq> 0" using U(8) sm(1) block_positive [OF dual_run_ok [OF U(3)] Up] by auto
  ultimately show ?thesis using w' by simp
qed

lemma take_stock_slot:
  assumes v: "res_valid add_page A Uc w M S" and r: "try_watermark_cspace w = (err, q, w')"
  shows "inside w' = inside w \<and> in_operation (am w') = in_operation (am w)
    \<and> (if err = 0 then \<exists>c. q = Some c \<and> cp_capPtr c \<notin> S \<and> res_valid add_page A Uc w' M (insert (cp_capPtr c) S) else err = 1 \<and> w' = w)"
proof (cases "cspace_slots (am w) = []")
  case True
  then show ?thesis using r by (simp add: try_watermark_cspace_def)
next
  case False
  let ?a = "am w"
  let ?c = "last (cspace_slots ?a)" and ?a' = "?a\<lparr>used_watermark := True, cspace_slots := butlast (cspace_slots ?a)\<rparr>"
  obtain U where U: "ready ?a" "frame ?a = frame A" "dual_run add_page (pool_of w) U" "Uc \<subseteq>\<^sub>m U" "stock_ok ?a U" "dom U = M \<union> stock_mem ?a" "dom Uc \<subseteq> M" "M \<inter> stock_mem ?a = {}"
    "slot_run (slots_of w) (S \<union> set (stock_caps ?a))" "S \<inter> set (stock_caps ?a) = {}" using v by (rule res_validE)
  have w': "q = Some ?c" "err = 0" "w' = w\<lparr>am := ?a'\<rparr>" using r False by (auto simp: try_watermark_cspace_def)
  let ?rest = "map cp_capPtr (map snd (concat (utspace_chunks ?a)))"
  have "map cp_capPtr (cspace_slots ?a) = map cp_capPtr (butlast (cspace_slots ?a)) @ [cp_capPtr ?c]" using append_butlast_last_id [OF False] by (metis list.simps(8,9) map_append)
  then have "stock_caps ?a = map cp_capPtr (butlast (cspace_slots ?a)) @ cp_capPtr ?c # ?rest" "stock_caps ?a' = map cp_capPtr (butlast (cspace_slots ?a)) @ ?rest" by (simp_all add: stock_caps_def)
  then have "mset (stock_caps ?a) = add_mset (cp_capPtr ?c) (mset (stock_caps ?a'))" by (simp del: map_map)
  note sc = mset_take [OF this]
  then have s: "set (stock_caps ?a) = insert (cp_capPtr ?c) (set (stock_caps ?a'))" "cp_capPtr ?c \<notin> set (stock_caps ?a')" "distinct (stock_caps ?a')" using U(5) by (auto simp: stock_ok_def)
  then have "stock_ok ?a' U" using U(5) by (simp add: stock_ok_def)
  moreover have "stock_mem ?a' = stock_mem ?a" "ready ?a'" "frame ?a' = frame A" using U(1,2) by (simp_all add: stock_mem_def ready_def frame_def)
  moreover have "S \<union> set (stock_caps ?a) = insert (cp_capPtr ?c) S \<union> set (stock_caps ?a')" "insert (cp_capPtr ?c) S \<inter> set (stock_caps ?a') = {}" using s U(10) by auto
  ultimately have "res_valid add_page A Uc w' M (insert (cp_capPtr ?c) S)" using U(3,4,6-9) unfolding w'(3) by (intro res_validI [of _ _ _ U]) simp_all
  then show ?thesis using w' U(10) s(1) by auto
qed

lemma default_can [simp]:
  "am_can_alloc ALLOCMAN_DEFAULT_PROPERTIES m n \<longleftrightarrow> m = 0 \<and> n = 0" "am_can_free ALLOCMAN_DEFAULT_PROPERTIES m n \<longleftrightarrow> m = 0 \<and> n = 0"
  by (auto simp: am_can_alloc_def am_can_free_def ALLOCMAN_DEFAULT_PROPERTIES_def)

lemma pool_step:
  assumes v: "res_valid add_page A Uc w M S" and b: "0 < bytes" "bytes \<le> 268435456"
  shows "\<exists>p err d. mspace_dual_pool_alloc add_page (pool_of w) bytes = Some (p, err, d)
    \<and> (if err = 0 then p \<notin> M \<and> p \<noteq> 0 \<and> res_valid add_page A (Uc(p \<mapsto> bytes)) (w\<lparr>inside := ((fst (inside w))\<lparr>sys_pool := d\<rparr>, snd (inside w))\<rparr>) (insert p M) S
       else err = 1 \<and> res_valid add_page A Uc (w\<lparr>inside := ((fst (inside w))\<lparr>sys_pool := d\<rparr>, snd (inside w))\<rparr>) M S)"
proof -
  let ?a = "am w"
  obtain U where U: "ready ?a" "frame ?a = frame A" "dual_run add_page (pool_of w) U" "Uc \<subseteq>\<^sub>m U" "stock_ok ?a U" "dom U = M \<union> stock_mem ?a" "dom Uc \<subseteq> M" "M \<inter> stock_mem ?a = {}"
    "slot_run (slots_of w) (S \<union> set (stock_caps ?a))" "S \<inter> set (stock_caps ?a) = {}" using v by (rule res_validE)
  obtain p err d where d: "mspace_dual_pool_alloc add_page (pool_of w) bytes = Some (p, err, d)" "if err = 0 then U p = None \<and> dual_ok d (U(p \<mapsto> bytes)) else err = 1"
    using dual_alloc [OF dual_run_ok [OF U(3)] b] by (metis (mono_tags, lifting))
  let ?w = "w\<lparr>inside := ((fst (inside w))\<lparr>sys_pool := d\<rparr>, snd (inside w))\<rparr>"
  show ?thesis
  proof (cases "err = 0")
    case True
    let ?U = "U(p \<mapsto> bytes)"
    have p: "U p = None" "p \<noteq> 0" using d(2) True block_positive [of d ?U p bytes] by auto
    have n: "p \<notin> M" "p \<notin> stock_mem ?a" using p(1) U(6) by auto
    have "dual_run add_page d ?U" using dual_run.alloc [OF U(3) b] d(1) True by blast
    moreover have "Uc(p \<mapsto> bytes) \<subseteq>\<^sub>m ?U" using U(4) by (auto simp: map_le_def)
    moreover have "stock_ok ?a ?U"
    proof -
      have "x \<noteq> p" if "i < length (mspace_chunk ?a)" "x \<in> set (mspace_chunks ?a ! i)" for i x
        using U(5) that p(1) by (auto simp: stock_ok_def)
      then show ?thesis using U(5) by (simp add: stock_ok_def)
    qed
    moreover have "dom ?U = insert p M \<union> stock_mem ?a" "dom (Uc(p \<mapsto> bytes)) \<subseteq> insert p M" "insert p M \<inter> stock_mem ?a = {}" using U(6-8) n by auto
    ultimately have "res_valid add_page A (Uc(p \<mapsto> bytes)) ?w (insert p M) S" using U(1,2,9,10) by (intro res_validI [of _ _ _ ?U]) (simp_all del: dom_fun_upd fun_upd_apply)
    then show ?thesis using d(1) True n(1) p(2) by auto
  next
    case False
    then have "dual_run add_page d U" using dual_run.fails [OF U(3) b] d by auto
    then have "res_valid add_page A Uc ?w M S" using U by (intro res_validI [of _ _ _ U]) simp_all
    then show ?thesis using d False by auto
  qed
qed

lemma slot_step:
  assumes v: "res_valid add_page A Uc w M S"
  shows "\<exists>err q c. cspace_single_level_alloc (slots_of w) = Some (err, q, c)
    \<and> (if err = 0 then \<exists>p. q = Some p \<and> cp_capPtr p \<notin> S \<and> res_valid add_page A Uc (w\<lparr>inside := ((fst (inside w))\<lparr>sys_slots := c\<rparr>, snd (inside w))\<rparr>) M (insert (cp_capPtr p) S)
       else err = 1 \<and> res_valid add_page A Uc (w\<lparr>inside := ((fst (inside w))\<lparr>sys_slots := c\<rparr>, snd (inside w))\<rparr>) M S)"
proof -
  let ?a = "am w" and ?c = "slots_of w"
  obtain U where U: "ready ?a" "frame ?a = frame A" "dual_run add_page (pool_of w) U" "Uc \<subseteq>\<^sub>m U" "stock_ok ?a U" "dom U = M \<union> stock_mem ?a" "dom Uc \<subseteq> M" "M \<inter> stock_mem ?a = {}"
    "slot_run ?c (S \<union> set (stock_caps ?a))" "S \<inter> set (stock_caps ?a) = {}" using v by (rule res_validE)
  have s: "sl_valid ?c" "S \<union> set (stock_caps ?a) = sl_managed ?c - sl_avail ?c" using slot_run_ok [OF U(9)] by (auto simp: run_ok_def)
  show ?thesis
  proof (cases "sl_avail ?c = {}")
    case True
    then have "cspace_single_level_alloc ?c = Some (1, None, ?c)" using sl_alloc_spec [OF s(1)] by simp
    then show ?thesis using v by simp
  next
    case False
    then obtain p t where p: "cspace_single_level_alloc ?c = Some (0, Some p, t)" "cp_capPtr p \<in> sl_avail ?c" using sl_alloc_spec [OF s(1)] by auto
    have n: "cp_capPtr p \<notin> S" "cp_capPtr p \<notin> set (stock_caps ?a)" using p(2) s(2) by auto
    have "slot_run t (insert (cp_capPtr p) S \<union> set (stock_caps ?a))" using slot_run.alloc [OF U(9) p(1)] by simp
    then have "res_valid add_page A Uc (w\<lparr>inside := ((fst (inside w))\<lparr>sys_slots := t\<rparr>, snd (inside w))\<rparr>) M (insert (cp_capPtr p) S)"
      using U n(2) by (intro res_validI [of _ _ _ U]) simp_all
    then show ?thesis using p(1) n(1) by auto
  qed
qed

lemma free_step:
  assumes v: "res_valid add_page A Uc w M S" "p \<in> M"
  shows "\<exists>d. mspace_dual_pool_free (pool_of w) p = Some d \<and> res_valid add_page A (Uc(p := None)) (w\<lparr>inside := ((fst (inside w))\<lparr>sys_pool := d\<rparr>, snd (inside w))\<rparr>) (M - {p}) S"
proof -
  let ?a = "am w"
  obtain U where U: "ready ?a" "frame ?a = frame A" "dual_run add_page (pool_of w) U" "Uc \<subseteq>\<^sub>m U" "stock_ok ?a U" "dom U = M \<union> stock_mem ?a" "dom Uc \<subseteq> M" "M \<inter> stock_mem ?a = {}"
    "slot_run (slots_of w) (S \<union> set (stock_caps ?a))" "S \<inter> set (stock_caps ?a) = {}" using v(1) by (rule res_validE)
  obtain b where b: "U p = Some b" using U(6) v(2) by blast
  obtain d where d: "mspace_dual_pool_free (pool_of w) p = Some d" using dual_free [OF dual_run_ok [OF U(3)] b] by blast
  have n: "p \<notin> stock_mem ?a" using U(8) v(2) by blast
  have "stock_ok ?a (U(p := None))"
  proof -
    have "x \<noteq> p" if "i < length (mspace_chunk ?a)" "x \<in> set (mspace_chunks ?a ! i)" for i x
      using n that U(5) nth_mem [of i "mspace_chunks ?a"] by (auto simp: stock_mem_def stock_ok_def)
    then show ?thesis using U(5) by (simp add: stock_ok_def)
  qed
  moreover have "Uc(p := None) \<subseteq>\<^sub>m U(p := None)" using U(4) by (auto simp: map_le_def)
  moreover have "dom (U(p := None)) = (M - {p}) \<union> stock_mem ?a" "dom (Uc(p := None)) \<subseteq> M - {p}" "(M - {p}) \<inter> stock_mem ?a = {}" using U(6-8) n by auto
  ultimately have "res_valid add_page A (Uc(p := None)) (w\<lparr>inside := ((fst (inside w))\<lparr>sys_pool := d\<rparr>, snd (inside w))\<rparr>) (M - {p}) S"
    using U(1,2,9,10) dual_run.free [OF U(3) b d] by (intro res_validI [of _ _ _ "U(p := None)"]) (simp_all del: dom_fun_upd fun_upd_apply)
  then show ?thesis using d by blast
qed

lemma slot_free_step:
  assumes v: "res_valid add_page A Uc w M S" "cp_capPtr p \<in> S"
  shows "\<exists>c. cspace_single_level_free (slots_of w) p = Some c \<and> res_valid add_page A Uc (w\<lparr>inside := ((fst (inside w))\<lparr>sys_slots := c\<rparr>, snd (inside w))\<rparr>) M (S - {cp_capPtr p})"
proof -
  let ?a = "am w" and ?c = "slots_of w"
  obtain U where U: "ready ?a" "frame ?a = frame A" "dual_run add_page (pool_of w) U" "Uc \<subseteq>\<^sub>m U" "stock_ok ?a U" "dom U = M \<union> stock_mem ?a" "dom Uc \<subseteq> M" "M \<inter> stock_mem ?a = {}"
    "slot_run ?c (S \<union> set (stock_caps ?a))" "S \<inter> set (stock_caps ?a) = {}" using v(1) by (rule res_validE)
  have m: "cp_capPtr p \<in> S \<union> set (stock_caps ?a)" using v(2) by blast
  have s: "sl_valid ?c" "S \<union> set (stock_caps ?a) = sl_managed ?c - sl_avail ?c" using slot_run_ok [OF U(9)] by (auto simp: run_ok_def)
  then have "cp_capPtr p \<in> sl_managed ?c" "cp_capPtr p \<notin> sl_avail ?c" using m by auto
  then obtain c where c: "cspace_single_level_free ?c p = Some c" using sl_put_spec [OF s(1), of p] by auto
  have "S \<union> set (stock_caps ?a) - {cp_capPtr p} = (S - {cp_capPtr p}) \<union> set (stock_caps ?a)" "(S - {cp_capPtr p}) \<inter> set (stock_caps ?a) = {}" using U(10) v(2) by auto
  then have "res_valid add_page A Uc (w\<lparr>inside := ((fst (inside w))\<lparr>sys_slots := c\<rparr>, snd (inside w))\<rparr>) M (S - {cp_capPtr p})"
    using U slot_run.free [OF U(9) m c] by (intro res_validI [of _ _ _ U]) simp_all
  then show ?thesis using c by blast
qed

lemma depth_back:
  "mspace_alloc_depth a = 0 \<Longrightarrow> a\<lparr>mspace_alloc_depth := 0\<rparr> = a" "mspace_free_depth a = 0 \<Longrightarrow> a\<lparr>mspace_free_depth := 0\<rparr> = a"
  "cspace_alloc_depth a = 0 \<Longrightarrow> a\<lparr>cspace_alloc_depth := 0\<rparr> = a" "cspace_free_depth a = 0 \<Longrightarrow> a\<lparr>cspace_free_depth := 0\<rparr> = a"
  "utspace_alloc_depth a = 0 \<Longrightarrow> a\<lparr>utspace_alloc_depth := 0\<rparr> = a" "utspace_free_depth a = 0 \<Longrightarrow> a\<lparr>utspace_free_depth := 0\<rparr> = a"
  by (cases a; simp)+

definition based :: "(int \<Rightarrow> int) \<Rightarrow> 'k kernel_ops \<Rightarrow> 'k inner spaces \<Rightarrow> bool" where
  \<comment> \<open>memory and slots come from the two allocators\<close>
  "based add_page kc sp \<longleftrightarrow> mspace_properties sp = ALLOCMAN_DEFAULT_PROPERTIES \<and> sp_mspace_alloc sp = sp_mspace_alloc (base_spaces add_page kc) \<and> sp_mspace_free sp = sp_mspace_free (base_spaces add_page kc)
     \<and> cspace_properties sp = ALLOCMAN_DEFAULT_PROPERTIES \<and> sp_cspace_alloc sp = sp_cspace_alloc (base_spaces add_page kc) \<and> sp_cspace_free sp = sp_cspace_free (base_spaces add_page kc)
     \<and> cnode_move sp = cnode_move (base_spaces add_page kc)"

lemma based_spaces: "based add_page kc (base_spaces add_page kc)" "based add_page kc (sys_spaces add_page kc junk)"
  by (simp_all add: based_def sys_spaces_def base_spaces_def)

lemma in_op:
  assumes "res_valid add_page A Uc w M S"
  shows "res_valid add_page A Uc (am_upd (\<lambda>a. a\<lparr>in_operation := b\<rparr>) w) M S"
  using assms by (intro res_upd [OF assms]) (auto simp: res_valid_def ready_def frame_def)

lemma am_first: "w\<lparr>inside := x, am := a\<rparr> = w\<lparr>am := a, inside := x\<rparr>"
  by simp

lemma in_op_inside: "inside (am_upd f w) = inside w"
  by simp

lemma readyD:
  assumes "res_valid add_page A Uc w M S"
  shows "have_mspace (am w)" "have_cspace (am w)" "mspace_alloc_depth (am w) = 0" "mspace_free_depth (am w) = 0" "cspace_alloc_depth (am w) = 0" "cspace_free_depth (am w) = 0"
  using assms by (simp_all add: res_valid_def ready_def)

lemma mspace_alloc_step:
  assumes v: "res_valid add_page A Uc w M S" and sp: "based add_page kc sp" and b: "0 < bytes" "bytes \<le> 268435456"
  shows "\<exists>p err w'. am_mspace_alloc sp refill bytes wm w = do { w \<leftarrow> end_operation refill (\<not> in_operation (am w)) w'; Some (p, err, w) } \<and> in_operation (am w') \<and> snd (inside w') = snd (inside w)
    \<and> (if err = 0 then p \<notin> M \<and> p \<noteq> 0 \<and> res_valid add_page A (Uc(p \<mapsto> bytes)) w' (insert p M) S else err = 1 \<and> res_valid add_page A Uc w' M S)"
proof -
  note r = readyD [OF v]
  let ?w = "am_upd (\<lambda>a. a\<lparr>in_operation := True\<rparr>) w"
  let ?wd = "\<lambda>d. ?w\<lparr>inside := ((fst (inside w))\<lparr>sys_pool := d\<rparr>, snd (inside w))\<rparr>"
  obtain p err d where d: "mspace_dual_pool_alloc add_page (pool_of w) bytes = Some (p, err, d)"
    "if err = 0 then p \<notin> M \<and> p \<noteq> 0 \<and> res_valid add_page A (Uc(p \<mapsto> bytes)) (?wd d) (insert p M) S else err = 1 \<and> res_valid add_page A Uc (?wd d) M S"
    using pool_step [OF in_op [OF v, of True] b] unfolding in_op_inside by blast
  let ?res = "if err = 0 then (p, 0, ?wd d) else if wm then try_watermark_mspace bytes (?wd d) else (0, 1, ?wd d)"
  obtain q e w' where q: "?res = (q, e, w')" by (metis prod_cases3)
  have "am_mspace_alloc sp refill bytes wm w = (case ?res of (q, e, w') \<Rightarrow> do { w \<leftarrow> end_operation refill (\<not> in_operation (am w)) w'; Some (q, e, w) })"
    using sp r d(1) by (simp add: am_mspace_alloc_def based_def base_spaces_def start_operation_def depth_back am_first Let_def)
  then have run: "am_mspace_alloc sp refill bytes wm w = do { w \<leftarrow> end_operation refill (\<not> in_operation (am w)) w'; Some (q, e, w) }" unfolding q by simp
  consider "err = 0" | "err \<noteq> 0" "wm" | "err \<noteq> 0" "\<not> wm" by blast
  then show ?thesis
  proof cases
    case 1
    then show ?thesis using run q d(2) by (intro exI [of _ q] exI [of _ e] exI [of _ w']) auto
  next
    case 2
    then have v': "res_valid add_page A Uc (?wd d) M S" "try_watermark_mspace bytes (?wd d) = (q, e, w')" using d(2) q by auto
    show ?thesis using run take_stock_mem [OF v'] v'(1) by (intro exI [of _ q] exI [of _ e] exI [of _ w']) (auto split: if_splits)
  next
    case 3
    then show ?thesis using run q d(2) by (intro exI [of _ q] exI [of _ e] exI [of _ w']) auto
  qed
qed

lemma cspace_alloc_step:
  assumes v: "res_valid add_page A Uc w M S" and sp: "based add_page kc sp"
  shows "\<exists>err q w'. am_cspace_alloc sp refill wm w = do { w \<leftarrow> end_operation refill (\<not> in_operation (am w)) w'; Some (err, q, w) } \<and> in_operation (am w') \<and> snd (inside w') = snd (inside w)
    \<and> (if err = 0 then \<exists>c. q = Some c \<and> cp_capPtr c \<notin> S \<and> res_valid add_page A Uc w' M (insert (cp_capPtr c) S) else err = 1 \<and> res_valid add_page A Uc w' M S)"
proof -
  note r = readyD [OF v]
  let ?w = "am_upd (\<lambda>a. a\<lparr>in_operation := True\<rparr>) w"
  let ?wc = "\<lambda>c. ?w\<lparr>inside := ((fst (inside w))\<lparr>sys_slots := c\<rparr>, snd (inside w))\<rparr>"
  obtain err p c where c: "cspace_single_level_alloc (slots_of w) = Some (err, p, c)"
    "if err = 0 then \<exists>x. p = Some x \<and> cp_capPtr x \<notin> S \<and> res_valid add_page A Uc (?wc c) M (insert (cp_capPtr x) S) else err = 1 \<and> res_valid add_page A Uc (?wc c) M S"
    using slot_step [OF in_op [OF v, of True]] unfolding in_op_inside by blast
  let ?res = "if err = 0 then (0, p, ?wc c) else if wm then try_watermark_cspace (?wc c) else (1, None, ?wc c)"
  obtain e q w' where q: "?res = (e, q, w')" by (metis prod_cases3)
  have "am_cspace_alloc sp refill wm w = (case ?res of (e, q, w') \<Rightarrow> do { w \<leftarrow> end_operation refill (\<not> in_operation (am w)) w'; Some (e, q, w) })"
    using sp r c(1) by (simp add: am_cspace_alloc_def based_def base_spaces_def start_operation_def depth_back am_first Let_def)
  then have run: "am_cspace_alloc sp refill wm w = do { w \<leftarrow> end_operation refill (\<not> in_operation (am w)) w'; Some (e, q, w) }" unfolding q by simp
  consider "err = 0" | "err \<noteq> 0" "wm" | "err \<noteq> 0" "\<not> wm" by blast
  then show ?thesis
  proof cases
    case 1
    then show ?thesis using run q c(2) by (intro exI [of _ e] exI [of _ q] exI [of _ w']) auto
  next
    case 2
    then have v': "res_valid add_page A Uc (?wc c) M S" "try_watermark_cspace (?wc c) = (e, q, w')" using c(2) q by auto
    show ?thesis using run take_stock_slot [OF v'] v'(1) by (intro exI [of _ e] exI [of _ q] exI [of _ w']) (auto split: if_splits)
  next
    case 3
    then show ?thesis using run q c(2) by (intro exI [of _ e] exI [of _ q] exI [of _ w']) auto
  qed
qed

lemma mspace_free_step:
  assumes v: "res_valid add_page A Uc w M S" and sp: "based add_page kc sp" and p: "p \<in> M"
  shows "\<exists>w'. allocman_mspace_free sp refill p bytes w = end_operation refill (\<not> in_operation (am w)) w' \<and> in_operation (am w') \<and> snd (inside w') = snd (inside w)
    \<and> res_valid add_page A (Uc(p := None)) w' (M - {p}) S"
proof -
  let ?w = "am_upd (\<lambda>a. a\<lparr>in_operation := True\<rparr>) w"
  obtain d where d: "mspace_dual_pool_free (pool_of w) p = Some d" "res_valid add_page A (Uc(p := None)) (?w\<lparr>inside := ((fst (inside w))\<lparr>sys_pool := d\<rparr>, snd (inside w))\<rparr>) (M - {p}) S"
    using free_step [OF in_op [OF v, of True] p] unfolding in_op_inside by blast
  then show ?thesis using sp readyD [OF v]
    by (intro exI [of _ "?w\<lparr>inside := ((fst (inside w))\<lparr>sys_pool := d\<rparr>, snd (inside w))\<rparr>"])
      (simp add: allocman_mspace_free_def based_def base_spaces_def start_operation_def depth_back am_first Let_def ok_def del: fun_upd_apply)
qed

lemma cspace_free_step:
  assumes v: "res_valid add_page A Uc w M S" and sp: "based add_page kc sp" and p: "cp_capPtr c \<in> S"
  shows "\<exists>w'. allocman_cspace_free sp refill c w = end_operation refill (\<not> in_operation (am w)) w' \<and> in_operation (am w') \<and> snd (inside w') = snd (inside w)
    \<and> res_valid add_page A Uc w' M (S - {cp_capPtr c})"
proof -
  let ?w = "am_upd (\<lambda>a. a\<lparr>in_operation := True\<rparr>) w"
  obtain d where d: "cspace_single_level_free (slots_of w) c = Some d" "res_valid add_page A Uc (?w\<lparr>inside := ((fst (inside w))\<lparr>sys_slots := d\<rparr>, snd (inside w))\<rparr>) M (S - {cp_capPtr c})"
    using slot_free_step [OF in_op [OF v, of True] p] unfolding in_op_inside by blast
  then show ?thesis using sp readyD [OF v]
    by (intro exI [of _ "?w\<lparr>inside := ((fst (inside w))\<lparr>sys_slots := d\<rparr>, snd (inside w))\<rparr>"])
      (simp add: allocman_cspace_free_def based_def base_spaces_def start_operation_def depth_back am_first Let_def ok_def)
qed

subsection \<open>Calls from inside an operation\<close>

lemma end_nested: "in_operation (am w) \<Longrightarrow> end_operation refill False w = Some w"
  by (cases w; cases "am w") (auto simp: end_operation_def)

definition nest_valid :: "(int \<Rightarrow> int) \<Rightarrow> allocman \<Rightarrow> (int \<rightharpoonup> int) \<Rightarrow> 'k inner am_world \<Rightarrow> int set \<Rightarrow> int set \<Rightarrow> bool" where
  \<comment> \<open>the manager is in an operation; clients have the blocks \<open>Uc\<close>, the allocator for untyped memory has \<open>M\<close>\<close>
  "nest_valid add_page A Uc w M S \<longleftrightarrow> in_operation (am w) \<and> M \<inter> dom Uc = {} \<and> res_valid add_page A Uc w (M \<union> dom Uc) S"

lemma res_kernel: "res_valid add_page A Uc (w\<lparr>inside := ((fst (inside w))\<lparr>sys_kernel := k\<rparr>, s)\<rparr>) M S = res_valid add_page A Uc w M S"
  by (simp add: res_valid_def)

interpretation nest: ut_supply "nested_env add_page kc junk" "nest_valid add_page A Uc"
proof (unfold_locales, goal_cases)
  case (1 w M S)
  then have v: "in_operation (am w)" "M \<inter> dom Uc = {}" "res_valid add_page A Uc w (M \<union> dom Uc) S" by (auto simp: nest_valid_def)
  obtain p err w' where p: "am_mspace_alloc (base_spaces add_page kc) (\<lambda>_. None) NODE_BYTES True w = do { w \<leftarrow> end_operation (\<lambda>_. None) (\<not> in_operation (am w)) w'; Some (p, err, w) }"
    "in_operation (am w')" "if err = 0 then p \<notin> M \<union> dom Uc \<and> p \<noteq> 0 \<and> res_valid add_page A (Uc(p \<mapsto> NODE_BYTES)) w' (insert p (M \<union> dom Uc)) S else err = 1 \<and> res_valid add_page A Uc w' (M \<union> dom Uc) S"
    using mspace_alloc_step [OF v(3) based_spaces(1) [of add_page kc], of NODE_BYTES "\<lambda>_. None" True] by (auto simp: NODE_BYTES_def)
  have run: "mem_alloc (nested_env add_page kc junk) w = Some (if err = 0 then p else 0, w')" using p(1) v(1) end_nested [OF p(2)] by (simp add: nested_env_def)
  show ?case
  proof (cases "err = 0")
    case True
    then have n: "p \<notin> M \<union> dom Uc" "p \<noteq> 0" "res_valid add_page A (Uc(p \<mapsto> NODE_BYTES)) w' (insert p (M \<union> dom Uc)) S" using p(3) by auto
    have "res_valid add_page A Uc w' (insert p (M \<union> dom Uc)) S" by (rule res_forget [OF n(3,1)]) simp
    then have "nest_valid add_page A Uc w' (insert p M) S" using p(2) n(1) v(2) by (simp add: nest_valid_def)
    then show ?thesis using run True n(1,2) by auto
  next
    case False
    then have "nest_valid add_page A Uc w' M S" using p(2,3) v(2) by (simp add: nest_valid_def)
    then show ?thesis using run False by auto
  qed
next
  case (2 w M S p)
  then have v: "in_operation (am w)" "M \<inter> dom Uc = {}" "res_valid add_page A Uc w (M \<union> dom Uc) S" "p \<in> M \<union> dom Uc" by (auto simp: nest_valid_def)
  obtain w' where w': "allocman_mspace_free (base_spaces add_page kc) (\<lambda>_. None) p NODE_BYTES w = end_operation (\<lambda>_. None) (\<not> in_operation (am w)) w'" "in_operation (am w')"
    "res_valid add_page A (Uc(p := None)) w' (M \<union> dom Uc - {p}) S" using mspace_free_step [OF v(3) based_spaces(1) v(4)] by blast
  have "p \<notin> dom Uc" using 2(2) v(2) by blast
  then have "Uc(p := None) = Uc" "M \<union> dom Uc - {p} = (M - {p}) \<union> dom Uc" by auto
  then have "nest_valid add_page A Uc w' (M - {p}) S" using w'(2,3) v(2) by (auto simp: nest_valid_def)
  then show ?case using w'(1,2) v(1) end_nested [OF w'(2)] by (simp add: nested_env_def)
next
  case (3 w M S)
  then have v: "in_operation (am w)" "M \<inter> dom Uc = {}" "res_valid add_page A Uc w (M \<union> dom Uc) S" by (auto simp: nest_valid_def)
  obtain err q w' where q: "am_cspace_alloc (base_spaces add_page kc) (\<lambda>_. None) True w = do { w \<leftarrow> end_operation (\<lambda>_. None) (\<not> in_operation (am w)) w'; Some (err, q, w) }" "in_operation (am w')"
    "if err = 0 then \<exists>c. q = Some c \<and> cp_capPtr c \<notin> S \<and> res_valid add_page A Uc w' (M \<union> dom Uc) (insert (cp_capPtr c) S) else err = 1 \<and> res_valid add_page A Uc w' (M \<union> dom Uc) S"
    using cspace_alloc_step [OF v(3) based_spaces(1) [of add_page kc], of "\<lambda>_. None" True] by blast
  have "slot_alloc (nested_env add_page kc junk) w = Some (err, q, w')" using q(1) v(1) end_nested [OF q(2)] by (simp add: nested_env_def)
  then show ?case using q(2,3) v(2) by (cases "err = 0") (auto simp: nest_valid_def)
next
  case (4 w M S c)
  then have v: "in_operation (am w)" "M \<inter> dom Uc = {}" "res_valid add_page A Uc w (M \<union> dom Uc) S" by (auto simp: nest_valid_def)
  obtain w' where w': "allocman_cspace_free (base_spaces add_page kc) (\<lambda>_. None) c w = end_operation (\<lambda>_. None) (\<not> in_operation (am w)) w'" "in_operation (am w')"
    "res_valid add_page A Uc w' (M \<union> dom Uc) (S - {cp_capPtr c})" using cspace_free_step [OF v(3) based_spaces(1) 4(2)] by blast
  then show ?case using v(1,2) end_nested [OF w'(2)] by (auto simp: nested_env_def nest_valid_def)
next
  case (5 w M S u t n c r w')
  then show ?case by (auto simp: nested_env_def nest_valid_def res_kernel split: prod.splits)
next
  case (6 w M S c)
  then show ?case by (simp add: nested_env_def nest_valid_def res_kernel)
qed

subsection \<open>The state between calls\<close>

abbreviation piece_size :: "utspace \<Rightarrow> int \<Rightarrow> nat" where "piece_size s c \<equiv> snd (n_origin (the (ut_nodes s c)))"

definition objs_ok :: "allocman \<Rightarrow> utspace \<Rightarrow> (int \<rightharpoonup> nat) \<Rightarrow> bool" where
  \<comment> \<open>the pieces in use are those of clients, \<open>out\<close>, and those of the reserves\<close>
  "objs_ok a s out \<longleftrightarrow> length (utspace_chunks a) = length (utspace_chunk a) \<and> distinct (map fst (concat (utspace_chunks a)))
     \<and> dom out \<inter> fst ` set (concat (utspace_chunks a)) = {} \<and> used (ut_nodes s) = dom out \<union> fst ` set (concat (utspace_chunks a))
     \<and> (\<forall>c i. out c = Some i \<longrightarrow> piece_size s c = i)
     \<and> (\<forall>i<length (utspace_chunk a). fst (utspace_chunk a ! i) < CONFIG_WORD_SIZE \<and> (\<forall>x\<in>set (utspace_chunks a ! i). piece_size s (fst x) = fst (utspace_chunk a ! i)))"

definition setting :: "allocman \<Rightarrow> allocman" where
  \<comment> \<open>what no allocation changes\<close>
  "setting a = (frame a)\<lparr>utspace_chunks := []\<rparr>"

definition core_ok :: "(int \<Rightarrow> int) \<Rightarrow> allocman \<Rightarrow> int set \<Rightarrow> 'k inner am_world \<Rightarrow> (int \<rightharpoonup> int) \<Rightarrow> int set \<Rightarrow> (int \<rightharpoonup> nat) \<Rightarrow> bool" where
  \<comment> \<open>clients have the blocks \<open>Uc\<close>, the slots \<open>Sc\<close> and the pieces \<open>out\<close> of the memory \<open>R\<close>; \<open>rf\<close>: how the manager is set up, and whether the reserves are being refilled\<close>
  "core_ok add_page rf R w Uc Sc out \<longleftrightarrow>
     setting (am w) = rf \<and> have_utspace (am w) \<and> utspace_alloc_depth (am w) = 0 \<and> utspace_free_depth (am w) = 0
     \<and> freed_slots (am w) = [] \<and> freed_mspace_chunks (am w) = [] \<and> freed_utspace_chunks (am w) = []
     \<and> objs_ok (am w) (snd (inside w)) out \<and> (\<exists>fl R0. ut_inv (snd (inside w)) fl R0 \<and> R0 \<subseteq> R) \<and> dom (ut_nodes (snd (inside w))) \<inter> dom Uc = {}
     \<and> res_valid add_page (am w) Uc w (dom (ut_nodes (snd (inside w))) \<union> dom Uc) (Sc \<union> slots (ut_nodes (snd (inside w))))
     \<and> Sc \<inter> slots (ut_nodes (snd (inside w))) = {} \<and> slots_inj (ut_nodes (snd (inside w)))"

lemma frameD:
  assumes "frame a = frame b"
  shows "refilling_watermark a = refilling_watermark b" "have_utspace a = have_utspace b" "utspace_alloc_depth a = utspace_alloc_depth b" "utspace_free_depth a = utspace_free_depth b"
    "freed_slots a = freed_slots b" "freed_mspace_chunks a = freed_mspace_chunks b" "freed_utspace_chunks a = freed_utspace_chunks b" "mspace_chunk a = mspace_chunk b"
    "utspace_chunk a = utspace_chunk b" "utspace_chunks a = utspace_chunks b" "desired_cspace_slots a = desired_cspace_slots b"
proof -
  have "f (frame a) = f (frame b)" for f :: "allocman \<Rightarrow> 'b" using assms by simp
  then show "refilling_watermark a = refilling_watermark b" "have_utspace a = have_utspace b" "utspace_alloc_depth a = utspace_alloc_depth b" "utspace_free_depth a = utspace_free_depth b"
    "freed_slots a = freed_slots b" "freed_mspace_chunks a = freed_mspace_chunks b" "freed_utspace_chunks a = freed_utspace_chunks b" "mspace_chunk a = mspace_chunk b"
    "utspace_chunk a = utspace_chunk b" "utspace_chunks a = utspace_chunks b" "desired_cspace_slots a = desired_cspace_slots b"
    using arg_cong [OF assms, of refilling_watermark] arg_cong [OF assms, of have_utspace] arg_cong [OF assms, of utspace_alloc_depth] arg_cong [OF assms, of utspace_free_depth]
      arg_cong [OF assms, of freed_slots] arg_cong [OF assms, of freed_mspace_chunks] arg_cong [OF assms, of freed_utspace_chunks] arg_cong [OF assms, of mspace_chunk]
      arg_cong [OF assms, of utspace_chunk] arg_cong [OF assms, of utspace_chunks] arg_cong [OF assms, of desired_cspace_slots]
    by (simp_all add: frame_def)
qed

lemma res_self:
  assumes "res_valid add_page A Uc w M S"
  shows "frame (am w) = frame A" "res_valid add_page (am w) Uc w M S" "dom Uc \<subseteq> M"
  using assms by (auto simp: res_valid_def)

lemma core_move:
  assumes c: "core_ok add_page rf R w Uc Sc out" and s: "snd (inside w') = snd (inside w)"
    and v: "res_valid add_page (am w) Uc' w' (dom (ut_nodes (snd (inside w))) \<union> dom Uc') (Sc' \<union> slots (ut_nodes (snd (inside w))))"
    and d: "dom (ut_nodes (snd (inside w))) \<inter> dom Uc' = {}" "Sc' \<inter> slots (ut_nodes (snd (inside w))) = {}"
  shows "core_ok add_page rf R w' Uc' Sc' out"
proof -
  note f = frameD [OF res_self(1) [OF v]]
  have "objs_ok (am w') (snd (inside w')) out" using c unfolding core_ok_def objs_ok_def f s by blast
  moreover have "setting (am w') = setting (am w)" using res_self(1) [OF v] by (simp add: setting_def)
  ultimately show ?thesis using c res_self(2) [OF v] d unfolding core_ok_def f s by simp
qed

lemma core_in_op:
  assumes "core_ok add_page rf R w Uc Sc out"
  shows "core_ok add_page rf R (am_upd (\<lambda>a. a\<lparr>in_operation := b\<rparr>) w) Uc Sc out"
proof (rule core_move [OF assms])
  show "res_valid add_page (am w) Uc (am_upd (\<lambda>a. a\<lparr>in_operation := b\<rparr>) w) (dom (ut_nodes (snd (inside w))) \<union> dom Uc) (Sc \<union> slots (ut_nodes (snd (inside w))))"
    by (rule in_op) (use assms in \<open>simp add: core_ok_def\<close>)
qed (use assms in \<open>simp_all add: core_ok_def\<close>)

lemma objs_intro:
  assumes "length (utspace_chunks a) = length (utspace_chunk a)" "distinct (map fst (concat (utspace_chunks a)))" "fst ` set (concat (utspace_chunks a)) = F" "dom out \<inter> F = {}" "used (ut_nodes s) = dom out \<union> F"
    "\<And>c i. out c = Some i \<Longrightarrow> piece_size s c = i" "\<And>i. i < length (utspace_chunk a) \<Longrightarrow> fst (utspace_chunk a ! i) < CONFIG_WORD_SIZE"
    "\<And>i x. i < length (utspace_chunk a) \<Longrightarrow> x \<in> set (utspace_chunks a ! i) \<Longrightarrow> piece_size s (fst x) = fst (utspace_chunk a ! i)"
  shows "objs_ok a s out"
  using assms unfolding objs_ok_def by blast

lemma objs_okI:
  assumes "objs_ok a s out" "used (ut_nodes s') = dom out' \<union> fst ` set (concat (utspace_chunks a))" "dom out' \<inter> fst ` set (concat (utspace_chunks a)) = {}"
    "\<And>c i. out' c = Some i \<Longrightarrow> piece_size s' c = i" "\<And>c. c \<in> fst ` set (concat (utspace_chunks a)) \<Longrightarrow> piece_size s' c = piece_size s c"
  shows "objs_ok a s' out'"
proof -
  have "piece_size s' (fst x) = fst (utspace_chunk a ! i)" if "i < length (utspace_chunk a)" "x \<in> set (utspace_chunks a ! i)" for i x
  proof -
    have "x \<in> set (concat (utspace_chunks a))" using that assms(1) nth_mem [of i "utspace_chunks a"] by (auto simp: objs_ok_def)
    then have "piece_size s' (fst x) = piece_size s (fst x)" by (intro assms(5)) blast
    then show ?thesis using that assms(1) by (simp add: objs_ok_def)
  qed
  then show ?thesis using assms(1-4) unfolding objs_ok_def by blast
qed

lemma objs_alloc:
  assumes o: "objs_ok a s out" and n: "c \<notin> used (ut_nodes s)" "used (ut_nodes s') = insert c (used (ut_nodes s))" "piece_size s' c = i"
    and k: "\<And>x. x \<in> used (ut_nodes s) \<Longrightarrow> node_core (the (ut_nodes s' x)) = node_core (the (ut_nodes s x))"
  shows "objs_ok a s' (out(c \<mapsto> i))"
proof -
  let ?F = "fst ` set (concat (utspace_chunks a))"
  have u: "used (ut_nodes s) = dom out \<union> ?F" "dom out \<inter> ?F = {}" "\<And>x j. out x = Some j \<Longrightarrow> piece_size s x = j" using o unfolding objs_ok_def by blast+
  have z: "piece_size s' x = piece_size s x" if "x \<in> used (ut_nodes s)" for x using core_size [of "ut_nodes s'" x "ut_nodes s"] k [OF that] by simp
  show ?thesis
  proof (rule objs_okI [OF o])
    show "used (ut_nodes s') = dom (out(c \<mapsto> i)) \<union> ?F" using n(2) u(1) by auto
    show "dom (out(c \<mapsto> i)) \<inter> ?F = {}" using n(1) u(1,2) by auto
    show "piece_size s' x = j" if "(out(c \<mapsto> i)) x = Some j" for x j using that n(3) z [of x] u(1) u(3) [of x j] by (cases "x = c") auto
    show "piece_size s' x = piece_size s x" if "x \<in> ?F" for x using z [of x] that u(1) by blast
  qed
qed

lemma objs_same:
  assumes o: "objs_ok a s out" and t: "untouched s s'"
  shows "objs_ok a s' out"
proof -
  let ?F = "fst ` set (concat (utspace_chunks a))"
  have u: "used (ut_nodes s) = dom out \<union> ?F" "dom out \<inter> ?F = {}" "\<And>x j. out x = Some j \<Longrightarrow> piece_size s x = j" using o unfolding objs_ok_def by blast+
  have z: "piece_size s' x = piece_size s x" if "x \<in> used (ut_nodes s)" for x using core_size [of "ut_nodes s'" x "ut_nodes s"] t that by (simp add: untouched_def)
  show ?thesis
  proof (rule objs_okI [OF o])
    show "used (ut_nodes s') = dom out \<union> ?F" using t u(1) by (simp add: untouched_def)
    show "piece_size s' x = j" if "out x = Some j" for x j using z [of x] u(1) u(3) [OF that] that by auto
    show "piece_size s' x = piece_size s x" if "x \<in> ?F" for x using z [of x] that u(1) by blast
  qed (rule u(2))
qed

lemma objs_free:
  assumes o: "objs_ok a s out" and n: "out c = Some i" "used (ut_nodes s') = used (ut_nodes s) - {c}"
    and k: "\<And>x. x \<in> used (ut_nodes s) - {c} \<Longrightarrow> node_core (the (ut_nodes s' x)) = node_core (the (ut_nodes s x))"
  shows "objs_ok a s' (out(c := None))"
proof -
  let ?F = "fst ` set (concat (utspace_chunks a))"
  have u: "used (ut_nodes s) = dom out \<union> ?F" "dom out \<inter> ?F = {}" "\<And>x j. out x = Some j \<Longrightarrow> piece_size s x = j" using o unfolding objs_ok_def by blast+
  have c: "c \<notin> ?F" using n(1) u(2) by blast
  have z: "piece_size s' x = piece_size s x" if "x \<in> used (ut_nodes s) - {c}" for x using core_size [of "ut_nodes s'" x "ut_nodes s"] k [OF that] by simp
  show ?thesis
  proof (rule objs_okI [OF o])
    show "used (ut_nodes s') = dom (out(c := None)) \<union> ?F" using n(2) u(1) c by auto
    show "dom (out(c := None)) \<inter> ?F = {}" using u(2) by auto
    show "piece_size s' x = j" if "(out(c := None)) x = Some j" for x j
    proof -
      have x: "x \<noteq> c" "out x = Some j" using that by (auto split: if_splits)
      then show ?thesis using z [of x] u(1) u(3) [OF x(2)] by auto
    qed
    show "piece_size s' x = piece_size s x" if "x \<in> ?F" for x using z [of x] that u(1) c by blast
  qed
qed

lemma ready_frame: "frame a = frame b \<Longrightarrow> ready a = ready b"
proof -
  assume f: "frame a = frame b"
  have "ready (frame x) = ready x" for x by (simp add: ready_def frame_def)
  then show ?thesis using f by metis
qed

lemma core_ut:
  assumes c: "core_ok add_page rf R w Uc Sc out" and h: "holds (nest_valid add_page A Uc) s' w2 {} Sc"
    and a: "frame a = frame (am w)" "mspace_chunk a = mspace_chunk (am w2)" "mspace_chunks a = mspace_chunks (am w2)" "cspace_slots a = cspace_slots (am w2)" "utspace_chunks a = utspace_chunks (am w2)"
    and u: "ut_inv s' fl R0" "R0 \<subseteq> R" and o: "objs_ok (am w) s' out'"
  shows "core_ok add_page rf R (w2\<lparr>am := a, inside := (fst (inside w2), s')\<rparr>) Uc Sc out'"
proof -
  have v: "res_valid add_page A Uc w2 (dom (ut_nodes s') \<union> dom Uc) (Sc \<union> slots (ut_nodes s'))" "dom (ut_nodes s') \<inter> dom Uc = {}" "Sc \<inter> slots (ut_nodes s') = {}" "slots_inj (ut_nodes s')"
    using h by (simp_all add: holds_def nest_valid_def)
  have r: "ready a" using ready_frame [OF a(1)] c by (simp add: core_ok_def res_valid_def)
  have "res_valid add_page a Uc (w2\<lparr>am := a\<rparr>) (dom (ut_nodes s') \<union> dom Uc) (Sc \<union> slots (ut_nodes s'))" by (rule res_upd [OF v(1) r refl a(2-5)])
  then have "res_valid add_page a Uc (w2\<lparr>am := a, inside := (fst (inside w2), s')\<rparr>) (dom (ut_nodes s') \<union> dom Uc) (Sc \<union> slots (ut_nodes s'))" by (simp add: res_valid_def)
  moreover have "objs_ok a s' out'" using o unfolding objs_ok_def frameD [OF a(1)] .
  moreover have "\<exists>fl R0. ut_inv s' fl R0 \<and> R0 \<subseteq> R" using u by blast
  moreover have "setting (am w) = rf" "have_utspace (am w)" "utspace_alloc_depth (am w) = 0" "utspace_free_depth (am w) = 0" "freed_slots (am w) = []" "freed_mspace_chunks (am w) = []"
    "freed_utspace_chunks (am w) = []" using c by (simp_all add: core_ok_def)
  ultimately show ?thesis using v(2-4) by (simp add: core_ok_def setting_def a(1) frameD [OF a(1)])
qed

lemma core_okE:
  assumes "core_ok add_page rf R w Uc Sc out"
  obtains U where "setting (am w) = rf" "have_utspace (am w)" "utspace_alloc_depth (am w) = 0" "utspace_free_depth (am w) = 0"
    "freed_slots (am w) = []" "freed_mspace_chunks (am w) = []" "freed_utspace_chunks (am w) = []" "objs_ok (am w) (snd (inside w)) out" "\<exists>fl R0. ut_inv (snd (inside w)) fl R0 \<and> R0 \<subseteq> R"
    "dom (ut_nodes (snd (inside w))) \<inter> dom Uc = {}" "Sc \<inter> slots (ut_nodes (snd (inside w))) = {}" "slots_inj (ut_nodes (snd (inside w)))"
    "ready (am w)" "dual_run add_page (pool_of w) U" "Uc \<subseteq>\<^sub>m U" "stock_ok (am w) U" "dom U = dom (ut_nodes (snd (inside w))) \<union> dom Uc \<union> stock_mem (am w)"
    "(dom (ut_nodes (snd (inside w))) \<union> dom Uc) \<inter> stock_mem (am w) = {}"
    "slot_run (slots_of w) (Sc \<union> slots (ut_nodes (snd (inside w))) \<union> set (stock_caps (am w)))" "(Sc \<union> slots (ut_nodes (snd (inside w)))) \<inter> set (stock_caps (am w)) = {}"
  using assms unfolding core_ok_def res_valid_def by blast

lemma core_okI:
  assumes "setting (am w) = rf" "have_utspace (am w)" "utspace_alloc_depth (am w) = 0" "utspace_free_depth (am w) = 0"
    "freed_slots (am w) = []" "freed_mspace_chunks (am w) = []" "freed_utspace_chunks (am w) = []" "objs_ok (am w) (snd (inside w)) out" "\<exists>fl R0. ut_inv (snd (inside w)) fl R0 \<and> R0 \<subseteq> R"
    "dom (ut_nodes (snd (inside w))) \<inter> dom Uc = {}" "Sc \<inter> slots (ut_nodes (snd (inside w))) = {}" "slots_inj (ut_nodes (snd (inside w)))"
    "ready (am w)" "dual_run add_page (pool_of w) U" "Uc \<subseteq>\<^sub>m U" "stock_ok (am w) U" "dom U = dom (ut_nodes (snd (inside w))) \<union> dom Uc \<union> stock_mem (am w)"
    "(dom (ut_nodes (snd (inside w))) \<union> dom Uc) \<inter> stock_mem (am w) = {}"
    "slot_run (slots_of w) (Sc \<union> slots (ut_nodes (snd (inside w))) \<union> set (stock_caps (am w)))" "(Sc \<union> slots (ut_nodes (snd (inside w)))) \<inter> set (stock_caps (am w)) = {}"
  shows "core_ok add_page rf R w Uc Sc out"
  using assms unfolding core_ok_def res_valid_def by blast

lemma stock_caps_mset: "mset (stock_caps a) = image_mset cp_capPtr (mset (cspace_slots a)) + image_mset (cp_capPtr \<circ> snd) (mset (concat (utspace_chunks a)))"
  by (simp add: stock_caps_def image_mset.comp)

lemma core_put_slot:
  assumes c: "core_ok add_page rf R w Uc Sc out" and x: "cp_capPtr x \<in> Sc"
  shows "core_ok add_page rf R (am_upd (\<lambda>a. a\<lparr>cspace_slots := cspace_slots a @ [x]\<rparr>) w) Uc (Sc - {cp_capPtr x}) out"
proof -
  let ?a' = "(am w)\<lparr>cspace_slots := cspace_slots (am w) @ [x]\<rparr>" and ?n = "ut_nodes (snd (inside w))"
  obtain U where U: "setting (am w) = rf" "have_utspace (am w)" "utspace_alloc_depth (am w) = 0" "utspace_free_depth (am w) = 0"
    "freed_slots (am w) = []" "freed_mspace_chunks (am w) = []" "freed_utspace_chunks (am w) = []" "objs_ok (am w) (snd (inside w)) out" "\<exists>fl R0. ut_inv (snd (inside w)) fl R0 \<and> R0 \<subseteq> R"
    "dom ?n \<inter> dom Uc = {}" "Sc \<inter> slots ?n = {}" "slots_inj ?n" "ready (am w)" "dual_run add_page (pool_of w) U" "Uc \<subseteq>\<^sub>m U" "stock_ok (am w) U"
    "dom U = dom ?n \<union> dom Uc \<union> stock_mem (am w)" "(dom ?n \<union> dom Uc) \<inter> stock_mem (am w) = {}"
    "slot_run (slots_of w) (Sc \<union> slots ?n \<union> set (stock_caps (am w)))" "(Sc \<union> slots ?n) \<inter> set (stock_caps (am w)) = {}" using c by (rule core_okE)
  have "mset (stock_caps ?a') = add_mset (cp_capPtr x) (mset (stock_caps (am w)))" by (simp add: stock_caps_mset)
  note m = mset_take [OF this]
  have "stock_ok ?a' U" using U(16,20) m x by (auto simp: stock_ok_def)
  moreover have "stock_mem ?a' = stock_mem (am w)" "ready ?a'" "objs_ok ?a' (snd (inside w)) out" using U(8,13) by (simp_all add: stock_mem_def ready_def objs_ok_def)
  moreover have "Sc - {cp_capPtr x} \<union> slots ?n \<union> set (stock_caps ?a') = Sc \<union> slots ?n \<union> set (stock_caps (am w))" using m(1) x by auto
  moreover have "(Sc - {cp_capPtr x} \<union> slots ?n) \<inter> set (stock_caps ?a') = {}" "(Sc - {cp_capPtr x}) \<inter> slots ?n = {}" using m(1) x U(11,20) by auto
  ultimately show ?thesis using U(1-7,9,10,12,14,15,17-19) by (intro core_okI [where U = U]) (simp_all add: setting_def frame_def)
qed

lemma core_put_mem:
  assumes c: "core_ok add_page rf R w Uc Sc out" and x: "Uc p = Some (fst (mspace_chunk (am w) ! i))" "i < length (mspace_chunk (am w))"
  shows "core_ok add_page rf R (am_upd (\<lambda>a. a\<lparr>mspace_chunks := (mspace_chunks a)[i := mspace_chunks a ! i @ [p]]\<rparr>) w) (Uc(p := None)) Sc out"
proof -
  let ?a' = "(am w)\<lparr>mspace_chunks := (mspace_chunks (am w))[i := mspace_chunks (am w) ! i @ [p]]\<rparr>" and ?n = "ut_nodes (snd (inside w))"
  obtain U where U: "setting (am w) = rf" "have_utspace (am w)" "utspace_alloc_depth (am w) = 0" "utspace_free_depth (am w) = 0"
    "freed_slots (am w) = []" "freed_mspace_chunks (am w) = []" "freed_utspace_chunks (am w) = []" "objs_ok (am w) (snd (inside w)) out" "\<exists>fl R0. ut_inv (snd (inside w)) fl R0 \<and> R0 \<subseteq> R"
    "dom ?n \<inter> dom Uc = {}" "Sc \<inter> slots ?n = {}" "slots_inj ?n" "ready (am w)" "dual_run add_page (pool_of w) U" "Uc \<subseteq>\<^sub>m U" "stock_ok (am w) U"
    "dom U = dom ?n \<union> dom Uc \<union> stock_mem (am w)" "(dom ?n \<union> dom Uc) \<inter> stock_mem (am w) = {}"
    "slot_run (slots_of w) (Sc \<union> slots ?n \<union> set (stock_caps (am w)))" "(Sc \<union> slots ?n) \<inter> set (stock_caps (am w)) = {}" using c by (rule core_okE)
  have i: "i < length (mspace_chunks (am w))" using x(2) U(16) by (simp add: stock_ok_def)
  have "mset (concat (mspace_chunks ?a')) = add_mset p (mset (concat (mspace_chunks (am w))))" using concat_put [OF i] by simp
  note m = mset_take [OF this]
  have p: "p \<notin> stock_mem (am w)" "p \<in> dom Uc" "p \<notin> dom ?n" "U p = Some (fst (mspace_chunk (am w) ! i))" using x(1) U(10,15,18) by (auto simp: map_le_def dom_def)
  have "stock_ok ?a' U" using U(16) m(2) p(1,4) i by (auto simp: stock_ok_def stock_mem_def stock_caps_def nth_list_update)
  moreover have "stock_mem ?a' = insert p (stock_mem (am w))" using m(1) by (simp add: stock_mem_def)
  moreover have "stock_caps ?a' = stock_caps (am w)" "ready ?a'" "objs_ok ?a' (snd (inside w)) out" using U(8,13) by (simp_all add: stock_caps_def ready_def objs_ok_def)
  moreover have "dom ?n \<inter> dom (Uc(p := None)) = {}" "Uc(p := None) \<subseteq>\<^sub>m U" using U(10,15) by (auto simp: map_le_def)
  moreover have "dom U = dom ?n \<union> dom (Uc(p := None)) \<union> insert p (stock_mem (am w))" "(dom ?n \<union> dom (Uc(p := None))) \<inter> insert p (stock_mem (am w)) = {}" using U(17,18) p(2,3) by auto
  ultimately show ?thesis using U(1-7,9,11,12,14,19,20) by (intro core_okI [where U = U]) (simp_all add: setting_def frame_def del: dom_fun_upd)
qed

lemma core_put_obj:
  assumes c: "core_ok add_page rf R w Uc Sc out" and x: "out k = Some (fst (utspace_chunk (am w) ! i))" "i < length (utspace_chunk (am w))" "cp_capPtr q \<in> Sc"
  shows "core_ok add_page rf R (am_upd (\<lambda>a. a\<lparr>utspace_chunks := (utspace_chunks a)[i := utspace_chunks a ! i @ [(k, q)]]\<rparr>) w) Uc (Sc - {cp_capPtr q}) (out(k := None))"
proof -
  let ?a' = "(am w)\<lparr>utspace_chunks := (utspace_chunks (am w))[i := utspace_chunks (am w) ! i @ [(k, q)]]\<rparr>" and ?s = "snd (inside w)"
  let ?n = "ut_nodes ?s"
  obtain U where U: "setting (am w) = rf" "have_utspace (am w)" "utspace_alloc_depth (am w) = 0" "utspace_free_depth (am w) = 0"
    "freed_slots (am w) = []" "freed_mspace_chunks (am w) = []" "freed_utspace_chunks (am w) = []" "objs_ok (am w) (snd (inside w)) out" "\<exists>fl R0. ut_inv (snd (inside w)) fl R0 \<and> R0 \<subseteq> R"
    "dom ?n \<inter> dom Uc = {}" "Sc \<inter> slots ?n = {}" "slots_inj ?n" "ready (am w)" "dual_run add_page (pool_of w) U" "Uc \<subseteq>\<^sub>m U" "stock_ok (am w) U"
    "dom U = dom ?n \<union> dom Uc \<union> stock_mem (am w)" "(dom ?n \<union> dom Uc) \<inter> stock_mem (am w) = {}"
    "slot_run (slots_of w) (Sc \<union> slots ?n \<union> set (stock_caps (am w)))" "(Sc \<union> slots ?n) \<inter> set (stock_caps (am w)) = {}" using c by (rule core_okE)
  have i: "i < length (utspace_chunks (am w))" using x(2) U(8) by (simp add: objs_ok_def)
  have ms: "mset (concat (utspace_chunks ?a')) = add_mset (k, q) (mset (concat (utspace_chunks (am w))))" using concat_put [OF i] by simp
  then have "mset (stock_caps ?a') = add_mset (cp_capPtr q) (mset (stock_caps (am w)))" by (simp only: stock_caps_mset) simp
  note m = mset_take [OF this]
  have "mset (map fst (concat (utspace_chunks ?a'))) = add_mset k (mset (map fst (concat (utspace_chunks (am w)))))" using ms by (simp only: mset_map) simp
  note f = mset_take [OF this]
  have "stock_ok ?a' U" using U(16,20) m x(3) by (auto simp: stock_ok_def)
  moreover have "objs_ok ?a' ?s (out(k := None))"
  proof -
    let ?F = "fst ` set (concat (utspace_chunks (am w)))"
    have o: "length (utspace_chunks (am w)) = length (utspace_chunk (am w))" "distinct (map fst (concat (utspace_chunks (am w))))" "dom out \<inter> ?F = {}" "used ?n = dom out \<union> ?F"
      "\<And>x j. out x = Some j \<Longrightarrow> piece_size ?s x = j" "\<And>j. j < length (utspace_chunk (am w)) \<Longrightarrow> fst (utspace_chunk (am w) ! j) < CONFIG_WORD_SIZE"
      "\<And>j y. j < length (utspace_chunk (am w)) \<Longrightarrow> y \<in> set (utspace_chunks (am w) ! j) \<Longrightarrow> piece_size ?s (fst y) = fst (utspace_chunk (am w) ! j)"
      using U(8) unfolding objs_ok_def by blast+
    have F: "fst ` set (concat (utspace_chunks ?a')) = insert k ?F" using f(1) by (simp only: set_map)
    have k: "k \<in> dom out" "k \<notin> ?F" using x(1) o(3) by auto
    have "dom (out(k := None)) \<inter> insert k ?F = {}" "used ?n = dom (out(k := None)) \<union> insert k ?F" using k o(3,4) by auto
    moreover have "distinct (map fst (concat (utspace_chunks ?a')))" using f(2) o(2) k(2) by simp
    moreover have "piece_size ?s y = j" if "(out(k := None)) y = Some j" for y j using that o(5) by (auto split: if_splits)
    moreover have "piece_size ?s (fst y) = fst (utspace_chunk (am w) ! j)" if "j < length (utspace_chunk (am w))" "y \<in> set (utspace_chunks ?a' ! j)" for j y
    proof (cases "j = i \<and> y = (k, q)")
      case True
      then show ?thesis using o(5) [OF x(1)] by simp
    next
      case False
      then have "y \<in> set (utspace_chunks (am w) ! j)" using that(2) i by (cases "j = i") auto
      then show ?thesis by (rule o(7) [OF that(1)])
    qed
    moreover have "length (utspace_chunks ?a') = length (utspace_chunk ?a')" "utspace_chunk ?a' = utspace_chunk (am w)" using o(1) by simp_all
    ultimately show ?thesis using o(6) F by (intro objs_intro [of ?a' "insert k ?F"]) (simp_all only:)
  qed
  moreover have "stock_mem ?a' = stock_mem (am w)" "ready ?a'" using U(13) by (simp_all add: stock_mem_def ready_def)
  moreover have "Sc - {cp_capPtr q} \<union> slots ?n \<union> set (stock_caps ?a') = Sc \<union> slots ?n \<union> set (stock_caps (am w))" using m(1) x(3) by auto
  moreover have "(Sc - {cp_capPtr q} \<union> slots ?n) \<inter> set (stock_caps ?a') = {}" "(Sc - {cp_capPtr q}) \<inter> slots ?n = {}" using m(1) x(3) U(11,20) by auto
  ultimately show ?thesis using U(1-7,9,10,12,14,15,17-19) by (intro core_okI [where U = U]) (simp_all add: setting_def frame_def)
qed

lemma core_take_obj:
  assumes c: "core_ok add_page rf R w Uc Sc out" and x: "i < length (utspace_chunks (am w))" "utspace_chunks (am w) ! i \<noteq> []" "last (utspace_chunks (am w) ! i) = (k, q)"
  shows "core_ok add_page rf R (am_upd (\<lambda>a. a\<lparr>used_watermark := True, utspace_chunks := (utspace_chunks a)[i := butlast (utspace_chunks a ! i)]\<rparr>) w) Uc (insert (cp_capPtr q) Sc)
      (out(k \<mapsto> fst (utspace_chunk (am w) ! i)))" "out k = None" "cp_capPtr q \<notin> Sc"
proof -
  let ?a' = "(am w)\<lparr>used_watermark := True, utspace_chunks := (utspace_chunks (am w))[i := butlast (utspace_chunks (am w) ! i)]\<rparr>" and ?s = "snd (inside w)"
  let ?n = "ut_nodes ?s" and ?z = "fst (utspace_chunk (am w) ! i)"
  obtain U where U: "setting (am w) = rf" "have_utspace (am w)" "utspace_alloc_depth (am w) = 0" "utspace_free_depth (am w) = 0"
    "freed_slots (am w) = []" "freed_mspace_chunks (am w) = []" "freed_utspace_chunks (am w) = []" "objs_ok (am w) (snd (inside w)) out" "\<exists>fl R0. ut_inv (snd (inside w)) fl R0 \<and> R0 \<subseteq> R"
    "dom ?n \<inter> dom Uc = {}" "Sc \<inter> slots ?n = {}" "slots_inj ?n" "ready (am w)" "dual_run add_page (pool_of w) U" "Uc \<subseteq>\<^sub>m U" "stock_ok (am w) U"
    "dom U = dom ?n \<union> dom Uc \<union> stock_mem (am w)" "(dom ?n \<union> dom Uc) \<inter> stock_mem (am w) = {}"
    "slot_run (slots_of w) (Sc \<union> slots ?n \<union> set (stock_caps (am w)))" "(Sc \<union> slots ?n) \<inter> set (stock_caps (am w)) = {}" using c by (rule core_okE)
  have ms: "mset (concat (utspace_chunks (am w))) = add_mset (k, q) (mset (concat (utspace_chunks ?a')))" using concat_take_last [OF x(1,2)] x(3) by simp
  then have "mset (stock_caps (am w)) = add_mset (cp_capPtr q) (mset (stock_caps ?a'))" by (simp only: stock_caps_mset) simp
  note m = mset_take [OF this]
  have "mset (map fst (concat (utspace_chunks (am w)))) = add_mset k (mset (map fst (concat (utspace_chunks ?a'))))" using ms by (simp only: mset_map) simp
  note f = mset_take [OF this]
  have d: "cp_capPtr q \<notin> set (stock_caps ?a')" "distinct (stock_caps ?a')" using U(16) m(2) by (auto simp: stock_ok_def)
  have "stock_ok ?a' U" using U(16) d(2) by (simp add: stock_ok_def)
  moreover
  let ?F = "fst ` set (concat (utspace_chunks (am w)))" and ?F' = "fst ` set (concat (utspace_chunks ?a'))"
  have o: "length (utspace_chunks (am w)) = length (utspace_chunk (am w))" "distinct (map fst (concat (utspace_chunks (am w))))" "dom out \<inter> ?F = {}" "used ?n = dom out \<union> ?F"
    "\<And>x j. out x = Some j \<Longrightarrow> piece_size ?s x = j" "\<And>j. j < length (utspace_chunk (am w)) \<Longrightarrow> fst (utspace_chunk (am w) ! j) < CONFIG_WORD_SIZE"
    "\<And>j y. j < length (utspace_chunk (am w)) \<Longrightarrow> y \<in> set (utspace_chunks (am w) ! j) \<Longrightarrow> piece_size ?s (fst y) = fst (utspace_chunk (am w) ! j)"
    using U(8) unfolding objs_ok_def by blast+
  have F: "?F = insert k ?F'" using f(1) by (simp only: set_map)
  have k: "k \<notin> ?F'" "distinct (map fst (concat (utspace_chunks ?a')))" using f(2) o(2) by (metis set_map)+
  show n: "out k = None" using o(3) F by auto
  have "objs_ok ?a' ?s (out(k \<mapsto> ?z))"
  proof -
    have "dom (out(k \<mapsto> ?z)) \<inter> ?F' = {}" "used ?n = dom (out(k \<mapsto> ?z)) \<union> ?F'" using k(1) o(3,4) F by auto
    moreover have "piece_size ?s y = j" if "(out(k \<mapsto> ?z)) y = Some j" for y j
      using that o(5) [of y j] o(7) [of i "(k, q)"] x last_in_set [OF x(2)] o(1) by (cases "y = k") auto
    moreover have "piece_size ?s (fst y) = fst (utspace_chunk (am w) ! j)" if "j < length (utspace_chunk (am w))" "y \<in> set (utspace_chunks ?a' ! j)" for j y
    proof -
      have "y \<in> set (utspace_chunks (am w) ! j)" using that(2) x(1) by (cases "j = i") (auto dest: in_set_butlastD)
      then show ?thesis by (rule o(7) [OF that(1)])
    qed
    moreover have "length (utspace_chunks ?a') = length (utspace_chunk ?a')" "utspace_chunk ?a' = utspace_chunk (am w)" using o(1) by simp_all
    ultimately show ?thesis using o(6) k(2) by (intro objs_intro [of ?a' ?F']) (simp_all only:)
  qed
  moreover have "stock_mem ?a' = stock_mem (am w)" "ready ?a'" using U(13) by (simp_all add: stock_mem_def ready_def)
  moreover have "insert (cp_capPtr q) Sc \<union> slots ?n \<union> set (stock_caps ?a') = Sc \<union> slots ?n \<union> set (stock_caps (am w))" using m(1) by auto
  moreover have "(insert (cp_capPtr q) Sc \<union> slots ?n) \<inter> set (stock_caps ?a') = {}" "insert (cp_capPtr q) Sc \<inter> slots ?n = {}" using m(1) d(1) U(11,20) by auto
  ultimately show "core_ok add_page rf R (am_upd (\<lambda>a. a\<lparr>used_watermark := True, utspace_chunks := (utspace_chunks a)[i := butlast (utspace_chunks a ! i)]\<rparr>) w) Uc (insert (cp_capPtr q) Sc)
      (out(k \<mapsto> ?z))" using U(1-7,9,10,12,14,15,17-19) by (intro core_okI [where U = U]) (simp_all add: setting_def frame_def)
  show "cp_capPtr q \<notin> Sc" using m(1) U(20) by auto
qed

lemma core_kernel:
  assumes "core_ok add_page rf R w Uc Sc out"
  shows "core_ok add_page rf R (w\<lparr>inside := ((fst (inside w))\<lparr>sys_kernel := k\<rparr>, snd (inside w))\<rparr>) Uc Sc out"
  using assms by (simp add: core_ok_def res_kernel)

lemma frame_depth:
  "frame (a\<lparr>utspace_alloc_depth := n\<rparr>) = (frame a)\<lparr>utspace_alloc_depth := n\<rparr>" "frame (a\<lparr>utspace_free_depth := n\<rparr>) = (frame a)\<lparr>utspace_free_depth := n\<rparr>"
  "frame (a\<lparr>in_operation := b\<rparr>) = frame a" "(frame a)\<lparr>utspace_alloc_depth := utspace_alloc_depth a\<rparr> = frame a" "(frame a)\<lparr>utspace_free_depth := utspace_free_depth a\<rparr> = frame a"
  by (simp_all add: frame_def)

lemma holds_start:
  \<comment> \<open>what the allocator for untyped memory may rely on when it is called\<close>
  assumes c: "core_ok add_page rf R w Uc Sc out" and a: "in_operation a" "frame a = (frame (am w))\<lparr>utspace_alloc_depth := m, utspace_free_depth := n\<rparr>"
    "mspace_chunks a = mspace_chunks (am w)" "cspace_slots a = cspace_slots (am w)"
  shows "holds (nest_valid add_page a Uc) (snd (inside w)) (w\<lparr>am := a\<rparr>) {} Sc"
proof -
  let ?n = "ut_nodes (snd (inside w))"
  have v: "res_valid add_page (am w) Uc w (dom ?n \<union> dom Uc) (Sc \<union> slots ?n)" "dom ?n \<inter> dom Uc = {}" "Sc \<inter> slots ?n = {}" "slots_inj ?n" using c by (simp_all add: core_ok_def)
  have "f (frame a) = f ((frame (am w))\<lparr>utspace_alloc_depth := m, utspace_free_depth := n\<rparr>)" for f :: "allocman \<Rightarrow> bool" using a(2) by simp
  from this [of ready] have r: "ready a" using v(1) by (simp add: ready_def frame_def res_valid_def)
  have "mspace_chunk a = mspace_chunk (am w)" "utspace_chunks a = utspace_chunks (am w)"
    using arg_cong [OF a(2), of mspace_chunk] arg_cong [OF a(2), of utspace_chunks] by (simp_all add: frame_def)
  then have "res_valid add_page a Uc (w\<lparr>am := a\<rparr>) (dom ?n \<union> dom Uc) (Sc \<union> slots ?n)" using a(3,4) by (intro res_upd [OF v(1) r refl]) simp_all
  then show ?thesis using v(2-4) a(1) by (simp add: holds_def nest_valid_def)
qed

lemma holds_in_op: "holds (nest_valid add_page A Uc) s w M S \<Longrightarrow> in_operation (am w) \<and> frame (am w) = frame A"
  by (simp add: holds_def nest_valid_def res_valid_def)

lemma utspace_alloc_step:
  assumes c: "core_ok add_page rf R w Uc Sc out" and i: "i < CONFIG_WORD_SIZE" "paddr \<noteq> ALLOCMAN_NO_PADDR \<Longrightarrow> 2 ^ i dvd paddr"
  shows "\<exists>k (err :: int) w'. am_utspace_alloc (sys_spaces add_page kc junk) refill i type path paddr dev wm w =
      do { (k, err, w'') \<leftarrow> (if err = 0 then Some (k, 0, w') else if wm \<and> paddr = ALLOCMAN_NO_PADDR then try_watermark_utspace (sys_spaces add_page kc junk) refill i type path w' else Some (0, 1, w'));
           w \<leftarrow> end_operation refill (\<not> in_operation (am w)) w''; Some (k, err, w) }
    \<and> in_operation (am w') \<and> (if err = 0 then out k = None \<and> core_ok add_page rf R w' Uc Sc (out(k \<mapsto> i)) else core_ok add_page rf R w' Uc Sc out)"
proof -
  let ?s = "snd (inside w)" and ?e = "nested_env add_page kc junk"
  define a where "a = (am w)\<lparr>in_operation := True, utspace_alloc_depth := 1\<rparr>"
  obtain fl R0 where u: "ut_inv ?s fl R0" "R0 \<subseteq> R" using c by (auto simp: core_ok_def)
  have d: "have_utspace (am w)" "utspace_alloc_depth (am w) = 0" "utspace_free_depth (am w) = 0" "objs_ok (am w) ?s out" using c by (simp_all add: core_ok_def)
  have h: "holds (nest_valid add_page a Uc) ?s (w\<lparr>am := a\<rparr>) {} Sc" by (rule holds_start [OF c, where m = 1 and n = 0]) (use d in \<open>cases "am w"; simp add: a_def frame_def\<close>)+
  obtain k err s' w2 fl' where r: "utspace_split_alloc ?e ?s (w\<lparr>am := a\<rparr>) i type path paddr dev = Some (k, err, s', w2)" "holds (nest_valid add_page a Uc) s' w2 {} Sc" "ut_inv s' fl' R0"
    "if err = 0 then k \<notin> used (ut_nodes ?s) \<and> used (ut_nodes s') = insert k (used (ut_nodes ?s)) \<and> (\<forall>x\<in>used (ut_nodes ?s). node_core (the (ut_nodes s' x)) = node_core (the (ut_nodes ?s x)))
         \<and> (\<exists>n. ut_nodes s' k = Some n \<and> snd (n_origin n) = i \<and> (paddr \<noteq> ALLOCMAN_NO_PADDR \<longrightarrow> n_paddr n = paddr)) else k = 0 \<and> err = 1 \<and> untouched ?s s'"
    using nest.alloc_spec [OF u(1) h i, of kc junk type path dev] by blast
  define b where "b = (am w2)\<lparr>utspace_alloc_depth := 0\<rparr>"
  define w3 where "w3 = w2\<lparr>am := b, inside := (fst (inside w2), s')\<rparr>"
  have f: "in_operation (am w2)" "frame (am w2) = frame a" using holds_in_op [OF r(2)] by auto
  have fb: "frame b = frame (am w)" unfolding b_def frame_depth f(2) a_def using d(2) by (simp add: frame_def)
  have "utspace_alloc_depth (am w2) = 1" using frameD(3) [OF f(2)] by (simp add: a_def)
  then have run: "am_utspace_alloc (sys_spaces add_page kc junk) refill i type path paddr dev wm w =
      do { (k, err, w'') \<leftarrow> (if err = 0 then Some (k, 0, w3) else if wm \<and> paddr = ALLOCMAN_NO_PADDR then try_watermark_utspace (sys_spaces add_page kc junk) refill i type path w3 else Some (0, 1, w3));
           w \<leftarrow> end_operation refill (\<not> in_operation (am w)) w''; Some (k, err, w) }"
    using r(1) d by (simp add: am_utspace_alloc_def sys_spaces_def base_spaces_def start_operation_def Let_def a_def b_def w3_def am_first)
  have keep: "core_ok add_page rf R w3 Uc Sc out'" if "objs_ok (am w) s' out'" for out'
    unfolding w3_def by (rule core_ut [OF c r(2) fb _ _ _ _ r(3) u(2) that]) (simp_all add: b_def)
  have in3: "in_operation (am w3)" using f(1) by (simp add: w3_def b_def)
  show ?thesis
  proof (cases "err = 0")
    case True
    then have n: "k \<notin> used (ut_nodes ?s)" "used (ut_nodes s') = insert k (used (ut_nodes ?s))" "piece_size s' k = i"
      "\<And>x. x \<in> used (ut_nodes ?s) \<Longrightarrow> node_core (the (ut_nodes s' x)) = node_core (the (ut_nodes ?s x))" using r(4) by auto
    have "core_ok add_page rf R w3 Uc Sc (out(k \<mapsto> i))" by (rule keep [OF objs_alloc [OF d(4) n]])
    moreover have "out k = None" using n(1) d(4) by (auto simp: objs_ok_def)
    ultimately show ?thesis using run in3 True by - (rule exI [of _ k], rule exI [of _ err], rule exI [of _ w3], simp)
  next
    case False
    then have "untouched ?s s'" using r(4) by simp
    then have "core_ok add_page rf R w3 Uc Sc out" by (rule keep [OF objs_same [OF d(4)]])
    then show ?thesis using run in3 False by - (rule exI [of _ k], rule exI [of _ err], rule exI [of _ w3], simp)
  qed
qed

lemma utspace_free_step:
  assumes c: "core_ok add_page rf R w Uc Sc out" and k: "out k = Some i"
  shows "\<exists>w'. allocman_utspace_free (sys_spaces add_page kc junk) refill k size_bits w = end_operation refill (\<not> in_operation (am w)) w' \<and> core_ok add_page rf R w' Uc Sc (out(k := None))"
proof -
  let ?s = "snd (inside w)" and ?e = "nested_env add_page kc junk"
  define a where "a = (am w)\<lparr>in_operation := True, utspace_free_depth := 1\<rparr>"
  obtain fl R0 where u: "ut_inv ?s fl R0" "R0 \<subseteq> R" using c by (auto simp: core_ok_def)
  have d: "have_utspace (am w)" "utspace_alloc_depth (am w) = 0" "utspace_free_depth (am w) = 0" "objs_ok (am w) ?s out" using c by (simp_all add: core_ok_def)
  have h: "holds (nest_valid add_page a Uc) ?s (w\<lparr>am := a\<rparr>) {} Sc" by (rule holds_start [OF c, where m = 0 and n = 1]) (use d in \<open>cases "am w"; simp add: a_def frame_def\<close>)+
  have "k \<in> used (ut_nodes ?s)" using d(4) k by (auto simp: objs_ok_def)
  then obtain s' w2 fl' where r: "utspace_split_free ?e ?s (w\<lparr>am := a\<rparr>) k = Some (s', w2)" "holds (nest_valid add_page a Uc) s' w2 {} Sc" "ut_inv s' fl' R0"
    "used (ut_nodes s') = used (ut_nodes ?s) - {k}" "\<And>x. x \<in> used (ut_nodes ?s) - {k} \<Longrightarrow> node_core (the (ut_nodes s' x)) = node_core (the (ut_nodes ?s x))"
    using nest.release_spec [OF u(1) h, of k kc junk] by blast
  define b where "b = (am w2)\<lparr>utspace_free_depth := 0\<rparr>"
  have f: "frame (am w2) = frame a" using holds_in_op [OF r(2)] by auto
  have fb: "frame b = frame (am w)" unfolding b_def frame_depth f a_def using d(3) by (simp add: frame_def)
  have "utspace_free_depth (am w2) = 1" using frameD(4) [OF f] by (simp add: a_def)
  then have "allocman_utspace_free (sys_spaces add_page kc junk) refill k size_bits w = end_operation refill (\<not> in_operation (am w)) (w2\<lparr>am := b, inside := (fst (inside w2), s')\<rparr>)"
    using r(1) d by (simp add: allocman_utspace_free_def sys_spaces_def base_spaces_def start_operation_def Let_def ok_def a_def b_def am_first)
  moreover have "core_ok add_page rf R (w2\<lparr>am := b, inside := (fst (inside w2), s')\<rparr>) Uc Sc (out(k := None))"
    by (rule core_ut [OF c r(2) fb _ _ _ _ r(3) u(2) objs_free [OF d(4) k r(4,5)]]) (simp_all add: b_def)
  ultimately show ?thesis by blast
qed

end
