(* ===== verification/Managed.thy ===== *)
theory Managed
  imports Reserve
begin

text \<open>
  Refilling: the locale \<open>refilling\<close> has the lemmas for every operation of the manager, given what refilling keeps; it is interpreted twice, for the calls made while the reserves are being refilled
  (\<open>busy\<close>, where refilling again does nothing) and, on the facts of that, for the calls of clients (\<open>idle\<close>).
\<close>

locale refilling =
  fixes add_page :: "int \<Rightarrow> int" and kc :: "'k kernel_ops" and junk :: "int \<Rightarrow> ut_node" and rf :: allocman and R :: "int set" and refill :: "'k inner refill"
  assumes refill_keeps: "core_ok add_page rf R w Uc Sc out \<Longrightarrow> \<exists>b w'. refill w = Some (b, w') \<and> core_ok add_page rf R w' Uc Sc out \<and> in_operation (am w') = in_operation (am w)"
begin

abbreviation sp :: "'k inner spaces" where "sp \<equiv> sys_spaces add_page kc junk"
abbreviation good :: "'k inner am_world \<Rightarrow> (int \<rightharpoonup> int) \<Rightarrow> int set \<Rightarrow> (int \<rightharpoonup> nat) \<Rightarrow> bool" where "good \<equiv> core_ok add_page rf R"

lemma end_keeps:
  assumes "good w Uc Sc out"
  shows "\<exists>w'. end_operation refill (\<not> b) w = Some w' \<and> good w' Uc Sc out \<and> in_operation (am w') = b"
proof (cases b)
  case True
  then show ?thesis using core_in_op [OF assms, of True] by (intro exI [of _ "am_upd (\<lambda>a. a\<lparr>in_operation := True\<rparr>) w"]) (simp add: end_operation_def)
next
  case False
  obtain c w' where "refill (am_upd (\<lambda>a. a\<lparr>in_operation := False\<rparr>) w) = Some (c, w')" "good w' Uc Sc out" "in_operation (am w') = False"
    using refill_keeps [OF core_in_op [OF assms, of False]] by auto
  then show ?thesis using False by (simp add: end_operation_def)
qed

lemma mspace_alloc_keeps:
  assumes c: "good w Uc Sc out" and b: "0 < bytes" "bytes \<le> 268435456"
  shows "\<exists>p err w'. am_mspace_alloc sp refill bytes wm w = Some (p, err, w') \<and> in_operation (am w') = in_operation (am w)
    \<and> (if err = 0 then Uc p = None \<and> p \<noteq> 0 \<and> good w' (Uc(p \<mapsto> bytes)) Sc out else err = 1 \<and> good w' Uc Sc out)"
proof -
  let ?n = "ut_nodes (snd (inside w))"
  have v: "res_valid add_page (am w) Uc w (dom ?n \<union> dom Uc) (Sc \<union> slots ?n)" "dom ?n \<inter> dom Uc = {}" "Sc \<inter> slots ?n = {}" using c by (simp_all add: core_ok_def)
  obtain p err w1 where p: "am_mspace_alloc sp refill bytes wm w = do { w \<leftarrow> end_operation refill (\<not> in_operation (am w)) w1; Some (p, err, w) }" "snd (inside w1) = snd (inside w)"
    "if err = 0 then p \<notin> dom ?n \<union> dom Uc \<and> p \<noteq> 0 \<and> res_valid add_page (am w) (Uc(p \<mapsto> bytes)) w1 (insert p (dom ?n \<union> dom Uc)) (Sc \<union> slots ?n) else err = 1 \<and> res_valid add_page (am w) Uc w1 (dom ?n \<union> dom Uc) (Sc \<union> slots ?n)"
    using mspace_alloc_step [OF v(1) based_spaces(2) b] by blast
  show ?thesis
  proof (cases "err = 0")
    case True
    then have n: "p \<notin> dom ?n \<union> dom Uc" "p \<noteq> 0" "res_valid add_page (am w) (Uc(p \<mapsto> bytes)) w1 (dom ?n \<union> dom (Uc(p \<mapsto> bytes))) (Sc \<union> slots ?n)" using p(3) by auto
    have "dom ?n \<inter> dom (Uc(p \<mapsto> bytes)) = {}" using n(1) v(2) by auto
    then have "good w1 (Uc(p \<mapsto> bytes)) Sc out" by (rule core_move [OF c p(2) n(3) _ v(3)])
    then show ?thesis using end_keeps [of w1 "Uc(p \<mapsto> bytes)" Sc out "in_operation (am w)"] p(1) n(1,2) True by auto
  next
    case False
    then have n: "res_valid add_page (am w) Uc w1 (dom ?n \<union> dom Uc) (Sc \<union> slots ?n)" "err = 1" using p(3) by auto
    then have "good w1 Uc Sc out" by (intro core_move [OF c p(2) n(1) v(2,3)])
    then obtain w' where "end_operation refill (\<not> in_operation (am w)) w1 = Some w'" "good w' Uc Sc out" "in_operation (am w') = in_operation (am w)" using end_keeps by blast
    then show ?thesis using p(1) n(2) by (intro exI [of _ p] exI [of _ err] exI [of _ w']) simp
  qed
qed

lemma mspace_free_keeps:
  assumes c: "good w Uc Sc out" and b: "p \<in> dom Uc"
  shows "\<exists>w'. allocman_mspace_free sp refill p bytes w = Some w' \<and> in_operation (am w') = in_operation (am w) \<and> good w' (Uc(p := None)) Sc out"
proof -
  let ?n = "ut_nodes (snd (inside w))"
  have v: "res_valid add_page (am w) Uc w (dom ?n \<union> dom Uc) (Sc \<union> slots ?n)" "dom ?n \<inter> dom Uc = {}" "Sc \<inter> slots ?n = {}" "p \<in> dom ?n \<union> dom Uc" using c b by (simp_all add: core_ok_def)
  obtain w1 where w1: "allocman_mspace_free sp refill p bytes w = end_operation refill (\<not> in_operation (am w)) w1" "snd (inside w1) = snd (inside w)"
    "res_valid add_page (am w) (Uc(p := None)) w1 (dom ?n \<union> dom Uc - {p}) (Sc \<union> slots ?n)" using mspace_free_step [OF v(1) based_spaces(2) v(4)] by blast
  have "dom ?n \<union> dom Uc - {p} = dom ?n \<union> dom (Uc(p := None))" "dom ?n \<inter> dom (Uc(p := None)) = {}" using b v(2) by auto
  then have "good w1 (Uc(p := None)) Sc out" using core_move [OF c w1(2) _ _ v(3), of "Uc(p := None)"] w1(3) by simp
  then show ?thesis using end_keeps [of w1 "Uc(p := None)" Sc out "in_operation (am w)"] w1(1) by auto
qed

lemma cspace_alloc_keeps:
  assumes c: "good w Uc Sc out"
  shows "\<exists>err q w'. am_cspace_alloc sp refill wm w = Some (err, q, w') \<and> in_operation (am w') = in_operation (am w)
    \<and> (if err = 0 then \<exists>x. q = Some x \<and> cp_capPtr x \<notin> Sc \<and> good w' Uc (insert (cp_capPtr x) Sc) out else err = 1 \<and> good w' Uc Sc out)"
proof -
  let ?n = "ut_nodes (snd (inside w))"
  have v: "res_valid add_page (am w) Uc w (dom ?n \<union> dom Uc) (Sc \<union> slots ?n)" "dom ?n \<inter> dom Uc = {}" "Sc \<inter> slots ?n = {}" using c by (simp_all add: core_ok_def)
  obtain err q w1 where p: "am_cspace_alloc sp refill wm w = do { w \<leftarrow> end_operation refill (\<not> in_operation (am w)) w1; Some (err, q, w) }" "snd (inside w1) = snd (inside w)"
    "if err = 0 then \<exists>x. q = Some x \<and> cp_capPtr x \<notin> Sc \<union> slots ?n \<and> res_valid add_page (am w) Uc w1 (dom ?n \<union> dom Uc) (insert (cp_capPtr x) (Sc \<union> slots ?n)) else err = 1 \<and> res_valid add_page (am w) Uc w1 (dom ?n \<union> dom Uc) (Sc \<union> slots ?n)"
    using cspace_alloc_step [OF v(1) based_spaces(2)] by blast
  show ?thesis
  proof (cases "err = 0")
    case True
    then obtain x where x: "q = Some x" "cp_capPtr x \<notin> Sc \<union> slots ?n" "res_valid add_page (am w) Uc w1 (dom ?n \<union> dom Uc) (insert (cp_capPtr x) Sc \<union> slots ?n)" using p(3) by auto
    have "insert (cp_capPtr x) Sc \<inter> slots ?n = {}" using x(2) v(3) by auto
    then have "good w1 Uc (insert (cp_capPtr x) Sc) out" by (rule core_move [OF c p(2) x(3) v(2)])
    then show ?thesis using end_keeps [of w1 Uc "insert (cp_capPtr x) Sc" out "in_operation (am w)"] p(1) x(1,2) True by auto
  next
    case False
    then have n: "res_valid add_page (am w) Uc w1 (dom ?n \<union> dom Uc) (Sc \<union> slots ?n)" "err = 1" using p(3) by auto
    then have "good w1 Uc Sc out" by (intro core_move [OF c p(2) n(1) v(2,3)])
    then obtain w' where "end_operation refill (\<not> in_operation (am w)) w1 = Some w'" "good w' Uc Sc out" "in_operation (am w') = in_operation (am w)" using end_keeps by blast
    then show ?thesis using p(1) n(2) by (intro exI [of _ err] exI [of _ q] exI [of _ w']) simp
  qed
qed

lemma cspace_free_keeps:
  assumes c: "good w Uc Sc out" and b: "cp_capPtr x \<in> Sc"
  shows "\<exists>w'. allocman_cspace_free sp refill x w = Some w' \<and> in_operation (am w') = in_operation (am w) \<and> good w' Uc (Sc - {cp_capPtr x}) out"
proof -
  let ?n = "ut_nodes (snd (inside w))"
  have v: "res_valid add_page (am w) Uc w (dom ?n \<union> dom Uc) (Sc \<union> slots ?n)" "dom ?n \<inter> dom Uc = {}" "Sc \<inter> slots ?n = {}" "cp_capPtr x \<in> Sc \<union> slots ?n" using c b by (simp_all add: core_ok_def)
  obtain w1 where w1: "allocman_cspace_free sp refill x w = end_operation refill (\<not> in_operation (am w)) w1" "snd (inside w1) = snd (inside w)"
    "res_valid add_page (am w) Uc w1 (dom ?n \<union> dom Uc) (Sc \<union> slots ?n - {cp_capPtr x})" using cspace_free_step [OF v(1) based_spaces(2) v(4)] by blast
  have "Sc \<union> slots ?n - {cp_capPtr x} = (Sc - {cp_capPtr x}) \<union> slots ?n" "(Sc - {cp_capPtr x}) \<inter> slots ?n = {}" using b v(3) by auto
  then have "good w1 Uc (Sc - {cp_capPtr x}) out" using core_move [OF c w1(2) _ v(2), of "Sc - {cp_capPtr x}"] w1(3) by simp
  then show ?thesis using end_keeps [of w1 Uc "Sc - {cp_capPtr x}" out "in_operation (am w)"] w1(1) by auto
qed

lemma try_utspace_keeps:
  assumes c: "good w Uc Sc out"
  shows "\<exists>k err w'. try_watermark_utspace sp refill i type path w = Some (k, err, w') \<and> in_operation (am w') = in_operation (am w)
    \<and> (if err = 0 then out k = None \<and> good w' Uc Sc (out(k \<mapsto> i)) else err = 1 \<and> good w' Uc Sc out)"
proof (cases "find_stock (\<lambda>(s, t, _). s = i \<and> t = type) (utspace_chunk (am w)) (utspace_chunks (am w))")
  case None
  then show ?thesis using c by (simp add: try_watermark_utspace_def)
next
  case (Some j)
  have f: "j < length (utspace_chunks (am w))" "utspace_chunks (am w) ! j \<noteq> []" "fst (utspace_chunk (am w) ! j) = i" using find_stock_spec [OF Some] by auto
  obtain k q where l: "last (utspace_chunks (am w) ! j) = (k, q)" by fastforce
  obtain r x where m: "k_move kc (sys_kernel (fst (inside w))) path q = (r, x)" by fastforce
  let ?w = "w\<lparr>inside := ((fst (inside w))\<lparr>sys_kernel := x\<rparr>, snd (inside w))\<rparr>"
  have mv: "cnode_move sp w path q = (r, ?w)" using m by (simp add: sys_spaces_def base_spaces_def)
  show ?thesis
  proof (cases "r = 0")
    case True
    let ?w1 = "am_upd (\<lambda>a. a\<lparr>used_watermark := True, utspace_chunks := (utspace_chunks a)[j := butlast (utspace_chunks a ! j)]\<rparr>) ?w"
    have t: "good ?w1 Uc (insert (cp_capPtr q) Sc) (out(k \<mapsto> i))" "out k = None" "cp_capPtr q \<notin> Sc" using core_take_obj [OF core_kernel [OF c, of x], of j k q] f l by simp_all
    obtain w' where w': "allocman_cspace_free sp refill q ?w1 = Some w'" "in_operation (am w') = in_operation (am w)" "good w' Uc (insert (cp_capPtr q) Sc - {cp_capPtr q}) (out(k \<mapsto> i))"
      using cspace_free_keeps [OF t(1), of q] by auto
    have "insert (cp_capPtr q) Sc - {cp_capPtr q} = Sc" using t(3) by simp
    moreover have "try_watermark_utspace sp refill i type path w = Some (k, 0, w')" using Some l mv True w'(1) by (simp add: try_watermark_utspace_def Let_def)
    ultimately show ?thesis using w'(2,3) t(2) by simp
  next
    case False
    then have "try_watermark_utspace sp refill i type path w = Some (0, 1, ?w)" using Some l mv by (simp add: try_watermark_utspace_def Let_def)
    then show ?thesis using core_kernel [OF c, of x] by simp
  qed
qed

lemma utspace_alloc_keeps:
  assumes c: "good w Uc Sc out" and i: "i < CONFIG_WORD_SIZE" "paddr \<noteq> ALLOCMAN_NO_PADDR \<Longrightarrow> 2 ^ i dvd paddr"
  shows "\<exists>k err w'. am_utspace_alloc sp refill i type path paddr dev wm w = Some (k, err, w') \<and> in_operation (am w') = in_operation (am w)
    \<and> (if err = 0 then out k = None \<and> good w' Uc Sc (out(k \<mapsto> i)) else err = 1 \<and> good w' Uc Sc out)"
proof -
  obtain k0 and err0 :: int and w1 where a: "am_utspace_alloc sp refill i type path paddr dev wm w =
      do { (k, err, w'') \<leftarrow> (if err0 = 0 then Some (k0, 0, w1) else if wm \<and> paddr = ALLOCMAN_NO_PADDR then try_watermark_utspace sp refill i type path w1 else Some (0, 1, w1));
           w \<leftarrow> end_operation refill (\<not> in_operation (am w)) w''; Some (k, err, w) }"
    "if err0 = 0 then out k0 = None \<and> good w1 Uc Sc (out(k0 \<mapsto> i)) else good w1 Uc Sc out"
    using utspace_alloc_step [OF c i, of kc junk refill type path dev wm] by blast
  have "\<exists>k err w''. (if err0 = 0 then Some (k0, 0, w1) else if wm \<and> paddr = ALLOCMAN_NO_PADDR then try_watermark_utspace sp refill i type path w1 else Some (0, 1, w1)) = Some (k, err, w'')
    \<and> (if err = 0 then out k = None \<and> good w'' Uc Sc (out(k \<mapsto> i)) else err = 1 \<and> good w'' Uc Sc out)"
  proof (cases "err0 = 0")
    case True
    then show ?thesis using a(2) by simp
  next
    case False
    then have g: "good w1 Uc Sc out" using a(2) by simp
    obtain k err w'' where t: "try_watermark_utspace sp refill i type path w1 = Some (k, err, w'')" "if err = 0 then out k = None \<and> good w'' Uc Sc (out(k \<mapsto> i)) else err = 1 \<and> good w'' Uc Sc out"
      using try_utspace_keeps [OF g, of i type path] by blast
    show ?thesis
    proof (cases "wm \<and> paddr = ALLOCMAN_NO_PADDR")
      case True
      show ?thesis by (rule exI [of _ k], rule exI [of _ err], rule exI [of _ w'']) (use False True t in simp)
    next
      case outside: False
      show ?thesis by (rule exI [of _ 0], rule exI [of _ 1], rule exI [of _ w1]) (use False outside g in auto)
    qed
  qed
  then obtain k err w'' where t: "(if err0 = 0 then Some (k0, 0, w1) else if wm \<and> paddr = ALLOCMAN_NO_PADDR then try_watermark_utspace sp refill i type path w1 else Some (0, 1, w1)) = Some (k, err, w'')"
    "if err = 0 then out k = None \<and> good w'' Uc Sc (out(k \<mapsto> i)) else err = 1 \<and> good w'' Uc Sc out" by blast
  define out' where "out' = (if err = 0 then out(k \<mapsto> i) else out)"
  have "good w'' Uc Sc out'" using t(2) by (simp add: out'_def split: if_splits)
  then obtain w' where e: "end_operation refill (\<not> in_operation (am w)) w'' = Some w'" "good w' Uc Sc out'" "in_operation (am w') = in_operation (am w)" using end_keeps by blast
  have "am_utspace_alloc sp refill i type path paddr dev wm w = Some (k, err, w')" unfolding a(1) t(1) using e(1) by simp
  then show ?thesis using e(2,3) t(2) unfolding out'_def by (cases "err = 0") simp_all
qed

lemma utspace_free_keeps:
  assumes c: "good w Uc Sc out" and k: "out k = Some i"
  shows "\<exists>w'. allocman_utspace_free sp refill k size_bits w = Some w' \<and> in_operation (am w') = in_operation (am w) \<and> good w' Uc Sc (out(k := None))"
  using utspace_free_step [OF c k, of kc junk refill size_bits] end_keeps by metis

lemma refill_cspace_keeps:
  assumes c: "good w Uc Sc out"
  shows "\<exists>e d w'. refill_cspace sp refill w = Some (e, d, w') \<and> good w' Uc Sc out \<and> in_operation (am w') = in_operation (am w)"
proof (cases "length (cspace_slots (am w)) < desired_cspace_slots (am w)")
  case True
  obtain err q w1 where a: "am_cspace_alloc sp refill False w = Some (err, q, w1)" "in_operation (am w1) = in_operation (am w)"
    "if err = 0 then \<exists>x. q = Some x \<and> cp_capPtr x \<notin> Sc \<and> good w1 Uc (insert (cp_capPtr x) Sc) out else err = 1 \<and> good w1 Uc Sc out" using cspace_alloc_keeps [OF c, of False] by blast
  show ?thesis
  proof (cases "err = 0")
    case ok: True
    then obtain x where x: "q = Some x" "cp_capPtr x \<notin> Sc" "good w1 Uc (insert (cp_capPtr x) Sc) out" using a(3) by auto
    have "good (am_upd (\<lambda>a. a\<lparr>cspace_slots := cspace_slots a @ [x]\<rparr>) w1) Uc Sc out" using core_put_slot [OF x(3), of x] x(2) by simp
    then show ?thesis using True ok a(1,2) x(1) by (auto simp: refill_cspace_def)
  next
    case False
    then show ?thesis using True a by (auto simp: refill_cspace_def)
  qed
next
  case False
  then show ?thesis using c by (auto simp: refill_cspace_def)
qed

lemma setD: "good w Uc Sc out \<Longrightarrow> utspace_chunk (am w) = utspace_chunk rf \<and> mspace_chunk (am w) = mspace_chunk rf"
  by (auto simp: core_ok_def setting_def frame_def)

lemma refill_utspace_one_keeps:
  assumes c: "good w Uc Sc out" and i: "i < length (utspace_chunk rf)"
  shows "\<exists>e d w'. refill_utspace_one sp refill i w = Some (e, d, w') \<and> good w' Uc Sc out \<and> in_operation (am w') = in_operation (am w)"
proof -
  obtain z type n where z: "utspace_chunk rf ! i = (z, type, n)" by (metis prod_cases3)
  have ch: "utspace_chunk (am w) ! i = (z, type, n)" using setD [OF c] z by simp
  have zs: "z < CONFIG_WORD_SIZE"
  proof -
    have "objs_ok (am w) (snd (inside w)) out" using c by (simp add: core_ok_def)
    then have "fst (utspace_chunk (am w) ! i) < CONFIG_WORD_SIZE" using i setD [OF c] by (simp add: objs_ok_def)
    then show ?thesis using ch by simp
  qed
  show ?thesis
  proof (cases "length (utspace_chunks (am w) ! i) < n")
    case True
    obtain err q w1 where a: "am_cspace_alloc sp refill True w = Some (err, q, w1)" "in_operation (am w1) = in_operation (am w)"
      "if err = 0 then \<exists>x. q = Some x \<and> cp_capPtr x \<notin> Sc \<and> good w1 Uc (insert (cp_capPtr x) Sc) out else err = 1 \<and> good w1 Uc Sc out" using cspace_alloc_keeps [OF c, of True] by blast
    show ?thesis
    proof (cases "err = 0")
      case ok: True
      then obtain x where x: "q = Some x" "cp_capPtr x \<notin> Sc" "good w1 Uc (insert (cp_capPtr x) Sc) out" using a(3) by auto
      obtain k err2 w2 where k: "am_utspace_alloc sp refill z type x ALLOCMAN_NO_PADDR False False w1 = Some (k, err2, w2)" "in_operation (am w2) = in_operation (am w1)"
        "if err2 = 0 then out k = None \<and> good w2 Uc (insert (cp_capPtr x) Sc) (out(k \<mapsto> z)) else err2 = 1 \<and> good w2 Uc (insert (cp_capPtr x) Sc) out"
        using utspace_alloc_keeps [OF x(3) zs, of ALLOCMAN_NO_PADDR type x False False] by blast
      show ?thesis
      proof (cases "err2 = 0")
        case found: True
        then have g: "out k = None" "good w2 Uc (insert (cp_capPtr x) Sc) (out(k \<mapsto> z))" using k(3) by auto
        have "utspace_chunk (am w2) ! i = (z, type, n)" "i < length (utspace_chunk (am w2))" using setD [OF g(2)] z i by simp_all
        then have p: "good (am_upd (\<lambda>a. a\<lparr>utspace_chunks := (utspace_chunks a)[i := utspace_chunks a ! i @ [(k, x)]]\<rparr>) w2) Uc (insert (cp_capPtr x) Sc - {cp_capPtr x}) ((out(k \<mapsto> z))(k := None))"
          by (intro core_put_obj [OF g(2)]) simp_all
        have undo: "insert (cp_capPtr x) Sc - {cp_capPtr x} = Sc" "(out(k \<mapsto> z))(k := None) = out" using x(2) g(1) by auto
        show ?thesis using True ok found a(1,2) k(1,2) ch x(1) p unfolding undo by (auto simp: refill_utspace_one_def)
      next
        case False
        then have g: "good w2 Uc (insert (cp_capPtr x) Sc) out" using k(3) by auto
        then obtain w' where w': "allocman_cspace_free sp refill x w2 = Some w'" "in_operation (am w') = in_operation (am w2)" "good w' Uc (insert (cp_capPtr x) Sc - {cp_capPtr x}) out"
          using cspace_free_keeps [OF g, of x] by auto
        have undo: "insert (cp_capPtr x) Sc - {cp_capPtr x} = Sc" using x(2) by auto
        show ?thesis using True ok False a(1,2) k(1,2) ch x(1) w' unfolding undo by (auto simp: refill_utspace_one_def)
      qed
    next
      case False
      then show ?thesis using True a ch by (auto simp: refill_utspace_one_def)
    qed
  next
    case False
    then show ?thesis using c ch by (auto simp: refill_utspace_one_def)
  qed
qed

lemma refill_mspace_one_keeps:
  assumes c: "good w Uc Sc out" and i: "i < length (mspace_chunk rf)"
  shows "\<exists>e d w'. refill_mspace_one sp refill i w = Some (e, d, w') \<and> good w' Uc Sc out \<and> in_operation (am w') = in_operation (am w)"
proof -
  obtain bytes n where z: "mspace_chunk rf ! i = (bytes, n)" by fastforce
  have ch: "mspace_chunk (am w) ! i = (bytes, n)" using setD [OF c] z by simp
  have b: "0 < bytes" "bytes \<le> 268435456"
  proof -
    obtain U where "stock_ok (am w) U" using c by (auto simp: core_ok_def res_valid_def)
    then have "0 < fst (mspace_chunk (am w) ! i)" "fst (mspace_chunk (am w) ! i) \<le> 268435456" using i setD [OF c] by (simp_all add: stock_ok_def)
    then show "0 < bytes" "bytes \<le> 268435456" using ch by simp_all
  qed
  show ?thesis
  proof (cases "length (mspace_chunks (am w) ! i) < n")
    case True
    obtain p err w1 where a: "am_mspace_alloc sp refill bytes False w = Some (p, err, w1)" "in_operation (am w1) = in_operation (am w)"
      "if err = 0 then Uc p = None \<and> p \<noteq> 0 \<and> good w1 (Uc(p \<mapsto> bytes)) Sc out else err = 1 \<and> good w1 Uc Sc out" using mspace_alloc_keeps [OF c b, of False] by blast
    show ?thesis
    proof (cases "err = 0")
      case ok: True
      then have g: "Uc p = None" "good w1 (Uc(p \<mapsto> bytes)) Sc out" using a(3) by auto
      have "mspace_chunk (am w1) ! i = (bytes, n)" "i < length (mspace_chunk (am w1))" using setD [OF g(2)] z i by simp_all
      then have p: "good (am_upd (\<lambda>a. a\<lparr>mspace_chunks := (mspace_chunks a)[i := mspace_chunks a ! i @ [p]]\<rparr>) w1) ((Uc(p \<mapsto> bytes))(p := None)) Sc out" by (intro core_put_mem [OF g(2)]) simp_all
      have undo: "(Uc(p \<mapsto> bytes))(p := None) = Uc" using g(1) by auto
      show ?thesis using True ok a(1,2) ch p unfolding undo by (auto simp: refill_mspace_one_def)
    next
      case False
      then show ?thesis using True a ch by (auto simp: refill_mspace_one_def)
    qed
  next
    case False
    then show ?thesis using c ch by (auto simp: refill_mspace_one_def)
  qed
qed

lemma each_keeps:
  assumes step: "\<And>i w. i \<in> set is \<Longrightarrow> good w Uc Sc out \<Longrightarrow> \<exists>e d w'. f i w = Some (e, d, w') \<and> good w' Uc Sc out \<and> in_operation (am w') = in_operation (am w)" and c: "good w Uc Sc out"
  shows "\<exists>e d w'. each f is w = Some (e, d, w') \<and> good w' Uc Sc out \<and> in_operation (am w') = in_operation (am w)"
  using assms
proof (induction "is" arbitrary: w)
  case Nil
  then show ?case by auto
next
  case (Cons i "is")
  obtain e d w1 where a: "f i w = Some (e, d, w1)" "good w1 Uc Sc out" "in_operation (am w1) = in_operation (am w)" using Cons.prems(1) [of i w] Cons.prems(2) by auto
  have "\<exists>e d w'. each f is w1 = Some (e, d, w') \<and> good w' Uc Sc out \<and> in_operation (am w') = in_operation (am w1)"
    by (rule Cons.IH [OF Cons.prems(1) a(2)]) simp_all
  then show ?case using a by auto
qed

lemma drain_nothing:
  assumes "good w Uc Sc out"
  shows "drain_all sp refill w = Some (False, w)"
proof -
  have "freed_slots (am w) = []" "freed_mspace_chunks (am w) = []" "freed_utspace_chunks (am w) = []" using assms by (simp_all add: core_ok_def)
  then show ?thesis by (simp add: drain_all_def drain.simps)
qed

lemma refill_round_keeps:
  assumes c: "good w Uc Sc out"
  shows "\<exists>e d w'. refill_round sp refill w = Some (e, d, w') \<and> good w' Uc Sc out \<and> in_operation (am w') = in_operation (am w)"
proof -
  obtain e1 d1 w1 where a: "refill_cspace sp refill w = Some (e1, d1, w1)" "good w1 Uc Sc out" "in_operation (am w1) = in_operation (am w)" using refill_cspace_keeps [OF c] by blast
  obtain e2 d2 w2 where b: "each (refill_utspace_one sp refill) [0..<length (utspace_chunk (am w1))] w1 = Some (e2, d2, w2)" "good w2 Uc Sc out" "in_operation (am w2) = in_operation (am w)"
    using each_keeps [of "[0..<length (utspace_chunk (am w1))]" Uc Sc out "refill_utspace_one sp refill", OF refill_utspace_one_keeps a(2)] setD [OF a(2)] a(3) by auto
  obtain e3 d3 w3 where d: "each (refill_mspace_one sp refill) [0..<length (mspace_chunk (am w2))] w2 = Some (e3, d3, w3)" "good w3 Uc Sc out" "in_operation (am w3) = in_operation (am w)"
    using each_keeps [of "[0..<length (mspace_chunk (am w2))]" Uc Sc out "refill_mspace_one sp refill", OF refill_mspace_one_keeps b(2)] setD [OF b(2)] b(3) by auto
  show ?thesis using drain_nothing [OF c] a(1) b(1) d by (simp add: refill_round_def)
qed

lemma refill_rounds_keeps:
  assumes c: "good w Uc Sc out"
  shows "\<exists>e w'. refill_rounds sp refill n w = Some (e, w') \<and> good w' Uc Sc out \<and> in_operation (am w') = in_operation (am w)"
  using c
proof (induction n arbitrary: w)
  case 0
  then show ?case using refill_round_keeps [OF 0] by (subst refill_rounds.simps) auto
next
  case (Suc n)
  obtain e d w1 where a: "refill_round sp refill w = Some (e, d, w1)" "good w1 Uc Sc out" "in_operation (am w1) = in_operation (am w)" using refill_round_keeps [OF Suc.prems] by blast
  show ?case using a Suc.IH [OF a(2)] by (subst refill_rounds.simps) auto
qed

lemma free_arrays_keeps:
  assumes "good w Uc Sc out" "fst ` set ps \<subseteq> dom Uc" "distinct (map fst ps)"
  shows "\<exists>w'. free_arrays sp refill ps w = Some w' \<and> in_operation (am w') = in_operation (am w) \<and> good w' (Uc |` (- fst ` set ps)) Sc out"
  using assms
proof (induction ps arbitrary: w Uc)
  case Nil
  then show ?case by simp
next
  case (Cons x ps)
  obtain p bytes where x: "x = (p, bytes)" by fastforce
  obtain w1 where a: "allocman_mspace_free sp refill p bytes w = Some w1" "in_operation (am w1) = in_operation (am w)" "good w1 (Uc(p := None)) Sc out"
    using mspace_free_keeps [OF Cons.prems(1), of p bytes] Cons.prems(2) x by auto
  have "fst ` set ps \<subseteq> dom (Uc(p := None))" "distinct (map fst ps)" using Cons.prems(2,3) x by auto
  then obtain w' where b: "free_arrays sp refill ps w1 = Some w'" "in_operation (am w') = in_operation (am w1)" "good w' ((Uc(p := None)) |` (- fst ` set ps)) Sc out"
    using Cons.IH [OF a(3)] by blast
  have "(Uc(p := None)) |` (- fst ` set ps) = Uc |` (- fst ` set (x # ps))" using x by (auto simp: restrict_map_def)
  then show ?case using a(1,2) b x by simp
qed

lemma alloc_arrays_keeps:
  assumes "good w Uc Sc out" "\<forall>b\<in>set bs. 0 < b \<and> b \<le> 268435456" "fst ` set pre \<subseteq> dom Uc" "distinct (map fst pre)"
  shows "\<exists>err new w'. alloc_arrays sp refill bs pre w = Some (err, new, w') \<and> in_operation (am w') = in_operation (am w)
    \<and> (if err = 0 then \<exists>ps. new = pre @ zip ps bs \<and> length ps = length bs \<and> distinct ps \<and> set ps \<inter> dom Uc = {} \<and> 0 \<notin> set ps \<and> good w' (Uc ++ map_of (zip ps bs)) Sc out
       else err = 1 \<and> good w' (Uc |` (- fst ` set pre)) Sc out)"
  using assms
proof (induction bs arbitrary: w Uc pre)
  case Nil
  then show ?case by simp
next
  case (Cons b bs)
  obtain p err w1 where a: "am_mspace_alloc sp refill b True w = Some (p, err, w1)" "in_operation (am w1) = in_operation (am w)"
    "if err = 0 then Uc p = None \<and> p \<noteq> 0 \<and> good w1 (Uc(p \<mapsto> b)) Sc out else err = 1 \<and> good w1 Uc Sc out" using mspace_alloc_keeps [OF Cons.prems(1), of b True] Cons.prems(2) by auto
  show ?case
  proof (cases "err = 0")
    case False
    then have g: "err = 1" "good w1 Uc Sc out" using a(3) by auto
    obtain w' where f: "free_arrays sp refill pre w1 = Some w'" "in_operation (am w') = in_operation (am w1)" "good w' (Uc |` (- fst ` set pre)) Sc out"
      using free_arrays_keeps [OF g(2) Cons.prems(3,4)] by blast
    then have "alloc_arrays sp refill (b # bs) pre w = Some (1, [], w')" using a(1) g(1) by simp
    then show ?thesis using f(2,3) a(2) by simp
  next
    case True
    then have g: "Uc p = None" "p \<noteq> 0" "good w1 (Uc(p \<mapsto> b)) Sc out" using a(3) by auto
    have p: "p \<notin> fst ` set pre" using g(1) Cons.prems(3) by auto
    have pre: "fst ` set (pre @ [(p, b)]) \<subseteq> dom (Uc(p \<mapsto> b))" "distinct (map fst (pre @ [(p, b)]))" using Cons.prems(3,4) p by auto
    have rng: "\<forall>c\<in>set bs. 0 < c \<and> c \<le> 268435456" using Cons.prems(2) by simp
    obtain e new w' where r: "alloc_arrays sp refill bs (pre @ [(p, b)]) w1 = Some (e, new, w')" "in_operation (am w') = in_operation (am w1)"
      "if e = 0 then \<exists>ps. new = (pre @ [(p, b)]) @ zip ps bs \<and> length ps = length bs \<and> distinct ps \<and> set ps \<inter> dom (Uc(p \<mapsto> b)) = {} \<and> 0 \<notin> set ps \<and> good w' (Uc(p \<mapsto> b) ++ map_of (zip ps bs)) Sc out
       else e = 1 \<and> good w' ((Uc(p \<mapsto> b)) |` (- fst ` set (pre @ [(p, b)]))) Sc out"
      using Cons.IH [OF g(3) rng pre] by blast
    have run: "alloc_arrays sp refill (b # bs) pre w = Some (e, new, w')" using a(1) True r(1) by simp
    show ?thesis
    proof (cases "e = 0")
      case ok: True
      then obtain ps where ps: "new = (pre @ [(p, b)]) @ zip ps bs" "length ps = length bs" "distinct ps" "set ps \<inter> dom (Uc(p \<mapsto> b)) = {}" "0 \<notin> set ps" "good w' (Uc(p \<mapsto> b) ++ map_of (zip ps bs)) Sc out"
        using r(3) by auto
      have "map_of (zip ps bs) p = None" using ps(4) by (auto simp: map_of_eq_None_iff dest: set_zip_leftD)
      then have "Uc(p \<mapsto> b) ++ map_of (zip ps bs) = Uc ++ map_of (zip (p # ps) (b # bs))" by (auto simp: map_add_def split: option.splits)
      moreover have "new = pre @ zip (p # ps) (b # bs)" "length (p # ps) = length (b # bs)" "distinct (p # ps)" "set (p # ps) \<inter> dom Uc = {}" "0 \<notin> set (p # ps)" using ps g(1,2) by auto
      ultimately have "\<exists>qs. new = pre @ zip qs (b # bs) \<and> length qs = length (b # bs) \<and> distinct qs \<and> set qs \<inter> dom Uc = {} \<and> 0 \<notin> set qs \<and> good w' (Uc ++ map_of (zip qs (b # bs))) Sc out"
        using ps(6) by (intro exI [of _ "p # ps"]) simp
      then show ?thesis using run r(2) a(2) ok by simp
    next
      case False
      have "(Uc(p \<mapsto> b)) |` (- fst ` set (pre @ [(p, b)])) = Uc |` (- fst ` set pre)" using g(1) by (auto simp: restrict_map_def)
      then show ?thesis using run r(2,3) a(2) False by simp
    qed
  qed
qed

end

lemma refill_busy: "refilling_watermark (am w) \<Longrightarrow> refill_watermark sp d w = Some (False, w)"
  by (simp add: refill_watermark.simps)

lemma core_set:
  assumes c: "core_ok add_page rf R w Uc Sc out" and a: "ready a" "have_utspace a" "utspace_alloc_depth a = 0" "utspace_free_depth a = 0" "freed_slots a = []" "freed_mspace_chunks a = []" "freed_utspace_chunks a = []"
    "mspace_chunk a = mspace_chunk (am w)" "mspace_chunks a = mspace_chunks (am w)" "cspace_slots a = cspace_slots (am w)" "utspace_chunk a = utspace_chunk (am w)" "utspace_chunks a = utspace_chunks (am w)"
  shows "core_ok add_page (setting a) R (w\<lparr>am := a\<rparr>) Uc Sc out"
proof -
  let ?n = "ut_nodes (snd (inside w))"
  have v: "res_valid add_page (am w) Uc w (dom ?n \<union> dom Uc) (Sc \<union> slots ?n)" using c by (simp add: core_ok_def)
  have "res_valid add_page a Uc (w\<lparr>am := a\<rparr>) (dom ?n \<union> dom Uc) (Sc \<union> slots ?n)" using a(8-12) by (intro res_upd [OF v a(1) refl]) simp_all
  moreover have "objs_ok a (snd (inside w)) out" using c a(11,12) by (simp add: core_ok_def objs_ok_def)
  ultimately show ?thesis using c a(2-7) by (simp add: core_ok_def)
qed

lemma core_flag:
  assumes c: "core_ok add_page rf R w Uc Sc out"
  shows "core_ok add_page (rf\<lparr>refilling_watermark := b\<rparr>) R (am_upd (\<lambda>a. a\<lparr>refilling_watermark := b\<rparr>) w) Uc Sc out"
proof -
  have "setting ((am w)\<lparr>refilling_watermark := b\<rparr>) = rf\<lparr>refilling_watermark := b\<rparr>" using c by (auto simp: core_ok_def setting_def frame_def)
  then show ?thesis using core_set [OF c, of "(am w)\<lparr>refilling_watermark := b\<rparr>"] c by (simp add: core_ok_def res_valid_def ready_def)
qed

lemma core_used:
  assumes c: "core_ok add_page rf R w Uc Sc out"
  shows "core_ok add_page rf R (am_upd (\<lambda>a. a\<lparr>used_watermark := b\<rparr>) w) Uc Sc out"
proof -
  have "setting ((am w)\<lparr>used_watermark := b\<rparr>) = rf" using c by (auto simp: core_ok_def setting_def frame_def)
  then show ?thesis using core_set [OF c, of "(am w)\<lparr>used_watermark := b\<rparr>"] c by (simp add: core_ok_def res_valid_def ready_def)
qed

interpretation busy: refilling add_page kc junk "rf\<lparr>refilling_watermark := True\<rparr>" R "refill_watermark (sys_spaces add_page kc junk) d"
proof (unfold_locales, goal_cases)
  case (1 w Uc Sc out)
  then have c: "core_ok add_page (rf\<lparr>refilling_watermark := True\<rparr>) R w Uc Sc out" .
  have "refilling_watermark (setting (am w)) = True" using c by (simp add: core_ok_def)
  then have "refilling_watermark (am w)" by (simp add: setting_def frame_def)
  then show ?case
    using c refill_busy by blast
qed

interpretation idle: refilling add_page kc junk "rf\<lparr>refilling_watermark := False\<rparr>" R "am_refill (sys_spaces add_page kc junk)"
proof (unfold_locales, goal_cases)
  case (1 w Uc Sc out)
  let ?sp = "sys_spaces add_page kc junk"
  have c: "core_ok add_page (rf\<lparr>refilling_watermark := False\<rparr>) R w Uc Sc out" by (rule 1)
  have "refilling_watermark (setting (am w)) = False" using c by (simp add: core_ok_def)
  then have f: "\<not> refilling_watermark (am w)" by (simp add: setting_def frame_def)
  show ?case
  proof (cases "used_watermark (am w)")
    case True
    let ?w = "am_upd (\<lambda>a. a\<lparr>refilling_watermark := True\<rparr>) w"
    have "core_ok add_page (rf\<lparr>refilling_watermark := True\<rparr>) R ?w Uc Sc out" using core_flag [OF c, of True] by simp
    then obtain e w1 where r: "refill_rounds ?sp (refill_watermark ?sp 1) 3 ?w = Some (e, w1)" "core_ok add_page (rf\<lparr>refilling_watermark := True\<rparr>) R w1 Uc Sc out" "in_operation (am w1) = in_operation (am w)"
      using busy.refill_rounds_keeps [of add_page rf R ?w Uc Sc out kc junk 1 3] by auto
    let ?w2 = "am_upd (\<lambda>a. a\<lparr>refilling_watermark := False\<rparr>) w1"
    have g: "core_ok add_page (rf\<lparr>refilling_watermark := False\<rparr>) R ?w2 Uc Sc out" using core_flag [OF r(2), of False] by simp
    have "am_refill ?sp w = Some (e, if e then ?w2 else am_upd (\<lambda>a. a\<lparr>used_watermark := False\<rparr>) ?w2)"
      using f True r(1) by (simp add: refill_watermark.simps [of _ 2])
    then show ?thesis using g core_used [OF g, of False] r(3) by auto
  next
    case False
    then show ?thesis using c by (auto simp: refill_watermark.simps [of _ 2])
  qed
qed

end
