(* ===== verification/Handout.thy ===== *)
theory Handout
  imports Managed
begin

text \<open>
  The manager from the outside: setting it up, configuring its reserves (whose arrays the manager allocates from itself), giving it untyped memory, and any sequence of calls of clients, as the inductive
  relation \<open>am_run\<close>. Its invariant \<open>am_ok\<close> gives the properties: nothing is handed out twice, every call returns, and what a failed call leaves behind.
\<close>

subsection \<open>Setting up\<close>

lemma core_new_mem:
  assumes c: "core_ok add_page rf R w Uc Sc out" and b: "0 < bytes" "bytes \<le> 268435456"
    and a: "a = (am w)\<lparr>mspace_ptrs := ps, mspace_chunk := mspace_chunk (am w) @ [(bytes, n)], mspace_chunks := mspace_chunks (am w) @ [[]], used_watermark := u\<rparr>"
  shows "core_ok add_page (setting a) R (w\<lparr>am := a\<rparr>) Uc Sc out"
proof -
  let ?n = "ut_nodes (snd (inside w))"
  obtain U where U: "setting (am w) = rf" "have_utspace (am w)" "utspace_alloc_depth (am w) = 0" "utspace_free_depth (am w) = 0"
    "freed_slots (am w) = []" "freed_mspace_chunks (am w) = []" "freed_utspace_chunks (am w) = []" "objs_ok (am w) (snd (inside w)) out" "\<exists>fl R0. ut_inv (snd (inside w)) fl R0 \<and> R0 \<subseteq> R"
    "dom ?n \<inter> dom Uc = {}" "Sc \<inter> slots ?n = {}" "slots_inj ?n" "ready (am w)" "dual_run add_page (pool_of w) U" "Uc \<subseteq>\<^sub>m U" "stock_ok (am w) U"
    "dom U = dom ?n \<union> dom Uc \<union> stock_mem (am w)" "(dom ?n \<union> dom Uc) \<inter> stock_mem (am w) = {}"
    "slot_run (slots_of w) (Sc \<union> slots ?n \<union> set (stock_caps (am w)))" "(Sc \<union> slots ?n) \<inter> set (stock_caps (am w)) = {}" using c by (rule core_okE)
  have "stock_mem a = stock_mem (am w)" "stock_caps a = stock_caps (am w)" "ready a" "objs_ok a (snd (inside w)) out" using U(8,13) by (simp_all add: a stock_mem_def stock_caps_def ready_def objs_ok_def)
  moreover have "stock_ok a U" using U(16) b by (auto simp: a stock_ok_def stock_caps_def nth_append less_Suc_eq)
  ultimately show ?thesis using U by (intro core_okI [where U = U]) (simp_all add: a)
qed

lemma core_new_obj:
  assumes c: "core_ok add_page rf R w Uc Sc out" and b: "size_bits < CONFIG_WORD_SIZE"
    and a: "a = (am w)\<lparr>utspace_ptrs := ps, utspace_chunk := utspace_chunk (am w) @ [(size_bits, n)], utspace_chunks := utspace_chunks (am w) @ [[]], used_watermark := u\<rparr>"
  shows "core_ok add_page (setting a) R (w\<lparr>am := a\<rparr>) Uc Sc out"
proof -
  let ?n = "ut_nodes (snd (inside w))"
  obtain U where U: "setting (am w) = rf" "have_utspace (am w)" "utspace_alloc_depth (am w) = 0" "utspace_free_depth (am w) = 0"
    "freed_slots (am w) = []" "freed_mspace_chunks (am w) = []" "freed_utspace_chunks (am w) = []" "objs_ok (am w) (snd (inside w)) out" "\<exists>fl R0. ut_inv (snd (inside w)) fl R0 \<and> R0 \<subseteq> R"
    "dom ?n \<inter> dom Uc = {}" "Sc \<inter> slots ?n = {}" "slots_inj ?n" "ready (am w)" "dual_run add_page (pool_of w) U" "Uc \<subseteq>\<^sub>m U" "stock_ok (am w) U"
    "dom U = dom ?n \<union> dom Uc \<union> stock_mem (am w)" "(dom ?n \<union> dom Uc) \<inter> stock_mem (am w) = {}"
    "slot_run (slots_of w) (Sc \<union> slots ?n \<union> set (stock_caps (am w)))" "(Sc \<union> slots ?n) \<inter> set (stock_caps (am w)) = {}" using c by (rule core_okE)
  have "stock_mem a = stock_mem (am w)" "stock_caps a = stock_caps (am w)" "ready a" using U(13) by (simp_all add: a stock_mem_def stock_caps_def ready_def)
  moreover have "stock_ok a U" using U(16) by (simp add: a stock_ok_def stock_caps_def)
  moreover have "objs_ok a (snd (inside w)) out" using U(8) b by (auto simp: a objs_ok_def nth_append less_Suc_eq)
  ultimately show ?thesis using U by (intro core_okI [where U = U]) (simp_all add: a)
qed

definition ptrs :: "allocman \<Rightarrow> int list" where
  \<comment> \<open>the memory of the manager's arrays\<close>
  "ptrs a = [freed_slots_ptr a, freed_mspace_ptr a, freed_utspace_ptr a, cspace_slots_ptr a,
     fst (mspace_ptrs a), fst (snd (mspace_ptrs a)), snd (snd (mspace_ptrs a)), fst (utspace_ptrs a), fst (snd (utspace_ptrs a)), snd (snd (utspace_ptrs a))]"

definition owned :: "int list \<Rightarrow> (int \<rightharpoonup> int) \<Rightarrow> bool" where
  "owned xs K \<longleftrightarrow> (\<forall>i<length xs. xs ! i \<noteq> 0 \<longrightarrow> xs ! i \<in> dom K \<and> (\<forall>j<length xs. j \<noteq> i \<longrightarrow> xs ! j \<noteq> xs ! i))"

definition arr_ok :: "allocman \<Rightarrow> (int \<rightharpoonup> int) \<Rightarrow> bool" where
  "arr_ok a K \<longleftrightarrow> owned (ptrs a) K \<and> (mspace_chunk a \<noteq> [] \<longrightarrow> 0 \<notin> set (take 3 (drop 4 (ptrs a)))) \<and> (utspace_chunk a \<noteq> [] \<longrightarrow> 0 \<notin> set (drop 7 (ptrs a)))"

definition am_ok :: "(int \<Rightarrow> int) \<Rightarrow> int set \<Rightarrow> 'k inner am_world \<Rightarrow> (int \<rightharpoonup> int) \<Rightarrow> int set \<Rightarrow> (int \<rightharpoonup> nat) \<Rightarrow> bool" where
  \<comment> \<open>clients have the blocks \<open>Uc\<close>, the slots \<open>Sc\<close> and the pieces \<open>out\<close>; the manager has the blocks \<open>K\<close> beside its reserves\<close>
  "am_ok add_page R w Uc Sc out \<longleftrightarrow>
     (\<exists>K. core_ok add_page ((setting (am w))\<lparr>refilling_watermark := False\<rparr>) R w (Uc ++ K) Sc out \<and> dom Uc \<inter> dom K = {} \<and> arr_ok (am w) K)"

lemma owned_put:
  assumes "owned xs K" "p \<notin> dom K"
  shows "owned (xs[i := p]) (K(p \<mapsto> b))"
proof -
  have d: "xs ! k \<in> dom K" "j < length xs \<Longrightarrow> j \<noteq> k \<Longrightarrow> xs ! j \<noteq> xs ! k" if "k < length xs" "xs ! k \<noteq> 0" for j k using assms(1) that unfolding owned_def by blast+
  have "xs ! k \<noteq> p" if "k < length xs" "xs ! k \<noteq> 0" for k using d(1) [OF that] assms(2) by blast
  note q = this
  have "xs[i := p] ! k \<in> dom (K(p \<mapsto> b))" if "k < length xs" "xs[i := p] ! k \<noteq> 0" for k using d(1) [of k] that by (cases "k = i") auto
  moreover have "xs[i := p] ! j \<noteq> xs[i := p] ! k" if "k < length xs" "xs[i := p] ! k \<noteq> 0" "j < length xs" "j \<noteq> k" for j k
    using d(2) [of k j] q [of k] q [of j] that by (cases "k = i"; cases "j = i") auto
  ultimately show ?thesis unfolding owned_def by simp
qed

lemma owned_drop:
  assumes "owned xs K" "q \<notin> set xs"
  shows "owned xs (K(q := None))"
  using assms unfolding owned_def by (auto simp: in_set_conv_nth)

lemma owned_gone:
  assumes "owned xs K" "i < length xs" "xs ! i \<noteq> 0" "p \<notin> dom K"
  shows "xs ! i \<notin> set (xs[i := p])"
proof -
  have "xs ! i \<in> dom K" "\<And>j. j < length xs \<Longrightarrow> j \<noteq> i \<Longrightarrow> xs ! j \<noteq> xs ! i" using assms(1-3) unfolding owned_def by blast+
  then show ?thesis using assms(2,4) by (auto simp: in_set_conv_nth nth_list_update split: if_splits)
qed

lemma settingD:
  assumes "setting a = (setting b)\<lparr>refilling_watermark := False\<rparr>"
  shows "ptrs a = ptrs b" "mspace_chunk a = mspace_chunk b" "utspace_chunk a = utspace_chunk b" "\<not> refilling_watermark a" "arr_ok a = arr_ok b"
proof -
  show "ptrs a = ptrs b" using arg_cong [OF assms, of ptrs] by (simp add: setting_def frame_def ptrs_def)
  moreover show "mspace_chunk a = mspace_chunk b" using arg_cong [OF assms, of mspace_chunk] by (simp add: setting_def frame_def)
  moreover show "utspace_chunk a = utspace_chunk b" using arg_cong [OF assms, of utspace_chunk] by (simp add: setting_def frame_def)
  ultimately show "arr_ok a = arr_ok b" by (simp add: arr_ok_def fun_eq_iff)
  show "\<not> refilling_watermark a" using arg_cong [OF assms, of refilling_watermark] by (simp add: setting_def frame_def)
qed

lemma core_setting: "core_ok add_page rf R w T Sc out \<Longrightarrow> setting (am w) = rf"
  by (simp add: core_ok_def)

lemma am_okI:
  assumes "core_ok add_page ((setting a)\<lparr>refilling_watermark := False\<rparr>) R w (Uc ++ K) Sc out" "arr_ok a K" "dom Uc \<inter> dom K = {}"
  shows "am_ok add_page R w Uc Sc out"
  using assms core_setting [OF assms(1)] settingD(5) [OF core_setting [OF assms(1)]] unfolding am_ok_def by (intro exI [of _ K]) simp

lemma am_okE:
  assumes "am_ok add_page R w Uc Sc out"
  obtains K where "core_ok add_page ((setting (am w))\<lparr>refilling_watermark := False\<rparr>) R w (Uc ++ K) Sc out" "dom Uc \<inter> dom K = {}" "arr_ok (am w) K"
  using assms unfolding am_ok_def by blast

definition array_switch :: "nat \<Rightarrow> (allocman \<Rightarrow> int) \<Rightarrow> (int \<Rightarrow> nat \<Rightarrow> allocman \<Rightarrow> allocman) \<Rightarrow> bool" where
  \<comment> \<open>the array is the one with this number, and nothing else that matters changes\<close>
  "array_switch j array switch \<longleftrightarrow> j < 4 \<and> (\<forall>a. array a = ptrs a ! j) \<and> (\<forall>p n a. ptrs (switch p n a) = (ptrs a)[j := p] \<and> ready (switch p n a) = ready a
     \<and> have_utspace (switch p n a) = have_utspace a \<and> utspace_alloc_depth (switch p n a) = utspace_alloc_depth a \<and> utspace_free_depth (switch p n a) = utspace_free_depth a
     \<and> freed_slots (switch p n a) = freed_slots a \<and> freed_mspace_chunks (switch p n a) = freed_mspace_chunks a \<and> freed_utspace_chunks (switch p n a) = freed_utspace_chunks a
     \<and> mspace_chunk (switch p n a) = mspace_chunk a \<and> mspace_chunks (switch p n a) = mspace_chunks a \<and> cspace_slots (switch p n a) = cspace_slots a
     \<and> utspace_chunk (switch p n a) = utspace_chunk a \<and> utspace_chunks (switch p n a) = utspace_chunks a
     \<and> refilling_watermark (switch p n a) = refilling_watermark a \<and> in_operation (switch p n a) = in_operation a)"

lemma switches:
  "array_switch 0 freed_slots_ptr (\<lambda>p n a. a\<lparr>freed_slots_ptr := p, desired_freed_slots := n\<rparr>)"
  "array_switch 1 freed_mspace_ptr (\<lambda>p n a. a\<lparr>freed_mspace_ptr := p, desired_freed_mspace_chunks := n\<rparr>)"
  "array_switch 2 freed_utspace_ptr (\<lambda>p n a. a\<lparr>freed_utspace_ptr := p, desired_freed_utspace_chunks := n\<rparr>)"
  "array_switch 3 cspace_slots_ptr (\<lambda>p n a. a\<lparr>cspace_slots_ptr := p, desired_cspace_slots := n\<rparr>)"
  by (simp_all add: array_switch_def ptrs_def ready_def numeral_3_eq_3 numeral_2_eq_2)

lemma restrict_right: "Q \<inter> dom m = {} \<Longrightarrow> (m ++ k) |` (- Q) = m ++ (k |` (- Q))"
proof
  fix x assume "Q \<inter> dom m = {}"
  then have "x \<in> Q \<Longrightarrow> m x = None" by auto
  then show "((m ++ k) |` (- Q)) x = (m ++ (k |` (- Q))) x" by (auto simp: restrict_map_def map_add_def)
qed

lemma delete_right: "q \<notin> dom m \<Longrightarrow> (m ++ k)(q := None) = m ++ k(q := None)"
proof
  fix x assume "q \<notin> dom m"
  then have "m q = None" by auto
  then show "((m ++ k)(q := None)) x = (m ++ k(q := None)) x" by (auto simp: map_add_def)
qed

lemma set_idle: "\<not> refilling_watermark a \<Longrightarrow> (setting (a\<lparr>used_watermark := b\<rparr>))\<lparr>refilling_watermark := False\<rparr> = setting a"
  by (cases a) (simp add: setting_def frame_def)

lemma delete_left: "q \<notin> dom k \<Longrightarrow> (m ++ k)(q := None) = m(q := None) ++ k"
proof
  fix x assume "q \<notin> dom k"
  then have "k q = None" by auto
  then show "((m ++ k)(q := None)) x = (m(q := None) ++ k) x" by (auto simp: map_add_def split: option.split)
qed

lemma switch_keeps:
  assumes c: "core_ok add_page ((setting a0)\<lparr>refilling_watermark := False\<rparr>) R w T Sc out" and j: "array_switch j array switch"
  shows "core_ok add_page ((setting (switch p n (am w)))\<lparr>refilling_watermark := False\<rparr>) R (am_upd (\<lambda>a. (switch p n a)\<lparr>used_watermark := True\<rparr>) w) T Sc out"
proof -
  let ?b = "switch p n (am w)"
  have f: "ready ?b = ready (am w)" "have_utspace ?b = have_utspace (am w)" "utspace_alloc_depth ?b = utspace_alloc_depth (am w)" "utspace_free_depth ?b = utspace_free_depth (am w)" "freed_slots ?b = freed_slots (am w)"
    "freed_mspace_chunks ?b = freed_mspace_chunks (am w)" "freed_utspace_chunks ?b = freed_utspace_chunks (am w)" "mspace_chunk ?b = mspace_chunk (am w)" "mspace_chunks ?b = mspace_chunks (am w)"
    "cspace_slots ?b = cspace_slots (am w)" "utspace_chunk ?b = utspace_chunk (am w)" "utspace_chunks ?b = utspace_chunks (am w)" "refilling_watermark ?b = refilling_watermark (am w)"
    using j unfolding array_switch_def by blast+
  have r: "ready (am w)" "have_utspace (am w)" "utspace_alloc_depth (am w) = 0" "utspace_free_depth (am w) = 0" "freed_slots (am w) = []" "freed_mspace_chunks (am w) = []" "freed_utspace_chunks (am w) = []"
    using c by (simp_all add: core_ok_def res_valid_def)
  have i: "\<not> refilling_watermark ?b" using f(13) settingD(4) [OF core_setting [OF c]] by simp
  have "ready (?b\<lparr>used_watermark := True\<rparr>)" using f(1) r(1) by (simp add: ready_def)
  then have "core_ok add_page (setting (?b\<lparr>used_watermark := True\<rparr>)) R (w\<lparr>am := ?b\<lparr>used_watermark := True\<rparr>\<rparr>) T Sc out" using f r by (intro core_set [OF c]) simp_all
  moreover have "setting (?b\<lparr>used_watermark := True\<rparr>) = (setting ?b)\<lparr>refilling_watermark := False\<rparr>" using i set_idle [OF i] by (cases ?b) (simp add: setting_def frame_def)
  ultimately show ?thesis by simp
qed

lemma resize_keeps:
  assumes o: "am_ok add_page R w Uc Sc out" and i: "\<not> in_operation (am w)" and j: "array_switch j array switch" and b: "0 < u32 (item_size * int num)" "u32 (item_size * int num) \<le> 268435456"
  shows "\<exists>err w'. resize_array (sys_spaces add_page kc junk) (am_refill (sys_spaces add_page kc junk)) num array size_of count_of switch item_size w = Some (err, w')
    \<and> am_ok add_page R w' Uc Sc out \<and> (in_operation (am w') \<longleftrightarrow> err \<noteq> 0)"
proof -
  let ?sp = "sys_spaces add_page kc junk" and ?b = "u32 (item_size * int num)" and ?rf = "(setting (am w))\<lparr>refilling_watermark := False\<rparr>"
  let ?w = "am_upd (\<lambda>a. a\<lparr>in_operation := True\<rparr>) w"
  obtain K where K: "core_ok add_page ?rf R w (Uc ++ K) Sc out" "dom Uc \<inter> dom K = {}" "arr_ok (am w) K" using o by (rule am_okE)
  obtain p err w1 where a: "am_mspace_alloc ?sp (am_refill ?sp) ?b True ?w = Some (p, err, w1)" "in_operation (am w1)"
    "if err = 0 then (Uc ++ K) p = None \<and> p \<noteq> 0 \<and> core_ok add_page ?rf R w1 ((Uc ++ K)(p \<mapsto> ?b)) Sc out else err = 1 \<and> core_ok add_page ?rf R w1 (Uc ++ K) Sc out"
    using idle.mspace_alloc_keeps [OF core_in_op [OF K(1), of True] b, of kc junk True] by auto
  have run: "resize_array ?sp (am_refill ?sp) num array size_of count_of switch item_size w =
      (if err \<noteq> 0 then Some (err, w1) else if num < count_of (am w1) then Some (- 1, w1)
       else do { w \<leftarrow> (if array (am w1) \<noteq> 0 then allocman_mspace_free ?sp (am_refill ?sp) (array (am w1)) (u32 (item_size * int (size_of (am w1)))) w1 else Some w1);
            w \<leftarrow> end_operation (am_refill ?sp) True (am_upd (\<lambda>a. (switch p num a)\<lparr>used_watermark := True\<rparr>) w); Some (err, w) })"
    using a(1) i by (simp add: resize_array_def start_operation_def ok_def Let_def)
  show ?thesis
  proof (cases "err = 0")
    case False
    then have g: "err = 1" "core_ok add_page ?rf R w1 (Uc ++ K) Sc out" using a(3) by auto
    have "am_ok add_page R w1 Uc Sc out" using g(2) K(2,3) by (intro am_okI [of _ "am w" _ _ _ K])
    then show ?thesis using run g(1) a(2) by simp
  next
    case True
    let ?K = "K(p \<mapsto> ?b)"
    have g: "(Uc ++ K) p = None" "p \<noteq> 0" "core_ok add_page ?rf R w1 (Uc ++ ?K) Sc out" using a(3) True by auto
    then have pn: "p \<notin> dom K" "p \<notin> dom Uc" by (auto simp: map_add_None)
    have d: "dom Uc \<inter> dom ?K = {}" using K(2) pn by auto
    have ow: "owned (ptrs (am w)) K" using K(3) by (simp add: arr_ok_def)
    have pt: "ptrs (am w1) = ptrs (am w)" using settingD(1) [OF core_setting [OF g(3)]] .
    have jj: "j < 4" "array (am w1) = ptrs (am w) ! j" "j < length (ptrs (am w))" using j pt by (auto simp: array_switch_def ptrs_def)
    show ?thesis
    proof (cases "num < count_of (am w1)")
      case shrink: True
      have "owned (ptrs (am w)) ?K" using ow pn(1) by (auto simp: owned_def)
      then have "arr_ok (am w) ?K" using K(3) by (simp add: arr_ok_def)
      then have "am_ok add_page R w1 Uc Sc out" using g(3) d by (intro am_okI [of _ "am w" _ _ _ ?K])
      then show ?thesis using run True shrink a(2) by simp
    next
      case grow: False
      define q where "q = ptrs (am w) ! j"
      define K2 where "K2 = (if q = 0 then ?K else ?K(q := None))"
      have qK: "q \<in> dom ?K" "q \<notin> dom Uc" "q \<noteq> p" if "q \<noteq> 0" using ow jj(3) that K(2) pn(1) unfolding q_def owned_def by auto
      have "\<exists>w2. (if q \<noteq> 0 then allocman_mspace_free ?sp (am_refill ?sp) q (u32 (item_size * int (size_of (am w1)))) w1 else Some w1) = Some w2 \<and> in_operation (am w2) \<and> core_ok add_page ?rf R w2 (Uc ++ K2) Sc out"
      proof (cases "q = 0")
        case False
        have "q \<in> dom (Uc ++ ?K)" using qK(1) [OF False] by auto
        moreover have "(Uc ++ ?K)(q := None) = Uc ++ ?K(q := None)" by (rule delete_right [OF qK(2) [OF False]])
        ultimately show ?thesis using idle.mspace_free_keeps [OF g(3), of q kc junk "u32 (item_size * int (size_of (am w1)))"] False a(2) by (auto simp: K2_def)
      qed (use g(3) a(2) in \<open>simp add: K2_def\<close>)
      then obtain w2 where f: "(if q \<noteq> 0 then allocman_mspace_free ?sp (am_refill ?sp) q (u32 (item_size * int (size_of (am w1)))) w1 else Some w1) = Some w2" "core_ok add_page ?rf R w2 (Uc ++ K2) Sc out" by blast
      let ?s = "switch p num (am w2)"
      have s: "ptrs ?s = (ptrs (am w))[j := p]" "mspace_chunk ?s = mspace_chunk (am w)" "utspace_chunk ?s = utspace_chunk (am w)"
        using j settingD(1-3) [OF core_setting [OF f(2)]] by (simp_all add: array_switch_def)
      have "owned (ptrs ?s) K2"
        using owned_put [OF ow pn(1), of j ?b] owned_drop [OF owned_put [OF ow pn(1), of j ?b] owned_gone [OF ow jj(3) _ pn(1)]] unfolding s(1) K2_def q_def by auto
      then have ar: "arr_ok ?s K2" using K(3) jj(1) s by (simp add: arr_ok_def)
      obtain w3 where e: "end_operation (am_refill ?sp) True (am_upd (\<lambda>a. (switch p num a)\<lparr>used_watermark := True\<rparr>) w2) = Some w3"
        "core_ok add_page ((setting ?s)\<lparr>refilling_watermark := False\<rparr>) R w3 (Uc ++ K2) Sc out" "\<not> in_operation (am w3)"
        using idle.end_keeps [OF switch_keeps [OF f(2) j], of kc junk False p num] by auto
      have "dom Uc \<inter> dom K2 = {}" using d by (auto simp: K2_def split: if_splits)
      then have "am_ok add_page R w3 Uc Sc out" using e(2) ar by (intro am_okI [of _ ?s _ _ _ K2])
      moreover have "resize_array ?sp (am_refill ?sp) num array size_of count_of switch item_size w = Some (0, w3)" using run True grow f(1) e(1) jj(2) unfolding q_def by (simp split: if_splits)
      ultimately show ?thesis using e(3) by auto
    qed
  qed
qed

lemma ownedD:
  assumes "owned xs K" "i < length xs" "xs ! i \<noteq> 0"
  shows "xs ! i \<in> dom K" "\<And>j. j < length xs \<Longrightarrow> j \<noteq> i \<Longrightarrow> xs ! j \<noteq> xs ! i"
  using assms unfolding owned_def by blast+

lemma owned_three:
  assumes o: "owned xs K" and i: "i + 2 < length xs" and p: "distinct [p1, p2, p3]" "p1 \<notin> dom K" "p2 \<notin> dom K" "p3 \<notin> dom K"
    and Q: "Q \<subseteq> {xs ! i, xs ! (i + 1), xs ! (i + 2)} - {0}" and K': "dom K \<union> {p1, p2, p3} - Q \<subseteq> dom K'"
  shows "owned (xs[i := p1, i + 1 := p2, i + 2 := p3]) K'"
proof -
  let ?ys = "xs[i := p1, i + 1 := p2, i + 2 := p3]"
  have o3: "owned ?ys (K(p1 \<mapsto> 0, p2 \<mapsto> 0, p3 \<mapsto> 0))" using p by (intro owned_put o) auto
  have "?ys ! m \<in> dom K'" if m: "m < length ?ys" "?ys ! m \<noteq> 0" for m
  proof -
    have d: "?ys ! m \<in> dom K \<union> {p1, p2, p3}" using ownedD(1) [OF o3 m] by auto
    have "?ys ! m \<notin> Q"
    proof
      assume y: "?ys ! m \<in> Q"
      then have "?ys ! m \<in> (!) xs ` {i, i + 1, i + 2}" "?ys ! m \<noteq> 0" using Q by auto
      then obtain k where k: "k \<in> {i, i + 1, i + 2}" "?ys ! m = xs ! k" "xs ! k \<noteq> 0" by auto
      have kd: "k < length xs" "xs ! k \<in> dom K" "\<And>j. j < length xs \<Longrightarrow> j \<noteq> k \<Longrightarrow> xs ! j \<noteq> xs ! k" using k i ownedD [OF o, of k] by auto
      show False
      proof (cases "m \<in> {i, i + 1, i + 2}")
        case True
        then have "?ys ! m \<in> {p1, p2, p3}" using i by auto
        then show ?thesis using k(2) kd(2) p(2-4) by auto
      next
        case False
        then have "?ys ! m = xs ! m" "m \<noteq> k" using k(1) by auto
        then show ?thesis using kd(3) [of m] m(1) k(2) by simp
      qed
    qed
    then show ?thesis using d K' by blast
  qed
  then show ?thesis using o3 unfolding owned_def by blast
qed

lemma arrays_replaced:
  assumes c: "core_ok add_page (rf\<lparr>refilling_watermark := False\<rparr>) R w (Uc ++ K) Sc out" "dom Uc \<inter> dom K = {}" and o: "owned xs K" "i + 2 < length xs"
    and q: "qs = [(xs ! i, c1), (xs ! (i + 1), c2), (xs ! (i + 2), c3)]" "old \<Longrightarrow> 0 \<notin> set [xs ! i, xs ! (i + 1), xs ! (i + 2)]"
    and b: "length bs = 4" "\<forall>b\<in>set bs. 0 < b \<and> b \<le> 268435456"
  shows "\<exists>err new w1. alloc_arrays (sys_spaces add_page kc junk) (am_refill (sys_spaces add_page kc junk)) bs [] w = Some (err, new, w1) \<and> setting (am w1) = rf\<lparr>refilling_watermark := False\<rparr>
    \<and> (if err = 0 then \<exists>w2 K2. (if old then free_arrays (sys_spaces add_page kc junk) (am_refill (sys_spaces add_page kc junk)) qs w1 else Some w1) = Some w2 \<and> in_operation (am w2) = in_operation (am w)
         \<and> core_ok add_page (rf\<lparr>refilling_watermark := False\<rparr>) R w2 (Uc ++ K2) Sc out \<and> dom Uc \<inter> dom K2 = {}
         \<and> owned (xs[i := fst (new ! 0), i + 1 := fst (new ! 1), i + 2 := fst (new ! 2)]) K2 \<and> 0 \<notin> set [fst (new ! 0), fst (new ! 1), fst (new ! 2)]
       else err = 1 \<and> core_ok add_page (rf\<lparr>refilling_watermark := False\<rparr>) R w1 (Uc ++ K) Sc out)"
proof -
  let ?sp = "sys_spaces add_page kc junk" and ?rf = "rf\<lparr>refilling_watermark := False\<rparr>"
  have e: "fst ` set ([] :: (int \<times> int) list) \<subseteq> dom (Uc ++ K)" "distinct (map fst ([] :: (int \<times> int) list))" by simp_all
  obtain err new w1 where a: "alloc_arrays ?sp (am_refill ?sp) bs [] w = Some (err, new, w1)" "in_operation (am w1) = in_operation (am w)"
    "if err = 0 then \<exists>ps. new = [] @ zip ps bs \<and> length ps = length bs \<and> distinct ps \<and> set ps \<inter> dom (Uc ++ K) = {} \<and> 0 \<notin> set ps \<and> core_ok add_page ?rf R w1 ((Uc ++ K) ++ map_of (zip ps bs)) Sc out
     else err = 1 \<and> core_ok add_page ?rf R w1 ((Uc ++ K) |` (- fst ` set ([] :: (int \<times> int) list))) Sc out"
    using idle.alloc_arrays_keeps [where bs = bs and pre = "[]" and kc = kc and junk = junk, OF c(1) b(2) e] by blast
  show ?thesis
  proof (cases "err = 0")
    case False
    then have "core_ok add_page ?rf R w1 (Uc ++ K) Sc out" "err = 1" using a(3) by (auto simp: restrict_map_def)
    then show ?thesis using a(1) core_setting by auto
  next
    case True
    then obtain ps where ps: "new = zip ps bs" "length ps = length bs" "distinct ps" "set ps \<inter> dom (Uc ++ K) = {}" "0 \<notin> set ps" "core_ok add_page ?rf R w1 (Uc ++ (K ++ map_of (zip ps bs))) Sc out" using a(3) by auto
    obtain p1 p2 p3 p4 b1 b2 b3 b4 where p: "ps = [p1, p2, p3, p4]" "bs = [b1, b2, b3, b4]" using ps(2) b(1) by (auto simp: numeral_eq_Suc length_Suc_conv)
    define K1 where "K1 = K ++ map_of (zip ps bs)"
    have dK1: "dom K1 = dom K \<union> set ps" by (auto simp: K1_def p)
    have d1: "dom Uc \<inter> dom K1 = {}" using c(2) ps(4) dK1 by auto
    let ?Q = "{xs ! i, xs ! (i + 1), xs ! (i + 2)}"
    have "\<exists>w2 K2. (if old then free_arrays ?sp (am_refill ?sp) qs w1 else Some w1) = Some w2 \<and> in_operation (am w2) = in_operation (am w) \<and> core_ok add_page ?rf R w2 (Uc ++ K2) Sc out
        \<and> dom Uc \<inter> dom K2 = {} \<and> (\<exists>Q. Q \<subseteq> ?Q - {0} \<and> dom K \<union> {p1, p2, p3} - Q \<subseteq> dom K2)"
    proof (cases old)
      case True
      have z: "xs ! i \<noteq> 0" "xs ! (i + 1) \<noteq> 0" "xs ! (i + 2) \<noteq> 0" using q(2) [OF True] by auto
      have k: "?Q \<subseteq> dom K" "xs ! i \<noteq> xs ! (i + 1)" "xs ! i \<noteq> xs ! (i + 2)" "xs ! (i + 1) \<noteq> xs ! (i + 2)"
        using ownedD [OF o(1), of i] ownedD [OF o(1), of "i + 1"] ownedD [OF o(1), of "i + 2"] z o(2) by fastforce+
      have "fst ` set qs \<subseteq> dom (Uc ++ K1)" "distinct (map fst qs)" "fst ` set qs = ?Q" using k dK1 by (auto simp: q(1))
      then obtain w2 where f: "free_arrays ?sp (am_refill ?sp) qs w1 = Some w2" "in_operation (am w2) = in_operation (am w1)" "core_ok add_page ?rf R w2 ((Uc ++ K1) |` (- ?Q)) Sc out"
        using idle.free_arrays_keeps [OF ps(6), of qs kc junk] unfolding K1_def by auto
      have "?Q \<inter> dom Uc = {}" using k(1) c(2) by blast
      then have "core_ok add_page ?rf R w2 (Uc ++ K1 |` (- ?Q)) Sc out" using f(3) by (simp add: restrict_right)
      moreover have "dom Uc \<inter> dom (K1 |` (- ?Q)) = {}" using d1 by auto
      moreover have "?Q \<subseteq> ?Q - {0}" "dom K \<union> {p1, p2, p3} - ?Q \<subseteq> dom (K1 |` (- ?Q))" using z dK1 p(1) by auto
      ultimately show ?thesis using f(1,2) a(2) True by (intro exI [of _ w2] exI [of _ "K1 |` (- ?Q)"]) auto
    next
      case False
      have "dom K \<union> {p1, p2, p3} - {} \<subseteq> dom K1" using dK1 p(1) by auto
      then show ?thesis using ps(6) d1 False a(2) unfolding K1_def by (intro exI [of _ w1] exI [of _ "K ++ map_of (zip ps bs)"]) auto
    qed
    then obtain w2 K2 Q where w2: "(if old then free_arrays ?sp (am_refill ?sp) qs w1 else Some w1) = Some w2" "in_operation (am w2) = in_operation (am w)" "core_ok add_page ?rf R w2 (Uc ++ K2) Sc out"
      "dom Uc \<inter> dom K2 = {}" "Q \<subseteq> ?Q - {0}" "dom K \<union> {p1, p2, p3} - Q \<subseteq> dom K2" by blast
    have n: "fst (new ! 0) = p1" "fst (new ! 1) = p2" "fst (new ! 2) = p3" by (simp_all add: ps(1) p)
    have "distinct [p1, p2, p3]" "p1 \<notin> dom K" "p2 \<notin> dom K" "p3 \<notin> dom K" using ps(3,4) p(1) by auto
    then have "owned (xs[i := p1, i + 1 := p2, i + 2 := p3]) K2" by (rule owned_three [OF o _ _ _ _ w2(5,6)])
    moreover have "0 \<notin> set [p1, p2, p3]" using ps(5) p(1) by auto
    ultimately have "\<exists>w2 K2. (if old then free_arrays ?sp (am_refill ?sp) qs w1 else Some w1) = Some w2 \<and> in_operation (am w2) = in_operation (am w)
         \<and> core_ok add_page ?rf R w2 (Uc ++ K2) Sc out \<and> dom Uc \<inter> dom K2 = {}
         \<and> owned (xs[i := fst (new ! 0), i + 1 := fst (new ! 1), i + 2 := fst (new ! 2)]) K2 \<and> 0 \<notin> set [fst (new ! 0), fst (new ! 1), fst (new ! 2)]"
      unfolding n using w2(1-4) by blast
    then show ?thesis using a(1) core_setting [OF ps(6)] True by auto
  qed
qed

lemma configure_mspace_keeps:
  assumes o: "am_ok add_page R w Uc Sc out" and b: "0 < bytes" "bytes \<le> 268435456" "0 < num" "4 * int num \<le> 268435456" "8 * (int (length (mspace_chunk (am w))) + 1) \<le> 268435456"
  shows "\<exists>err w'. allocman_configure_mspace_reserve (sys_spaces add_page kc junk) (am_refill (sys_spaces add_page kc junk)) (bytes, num) w = Some (err, w')
    \<and> am_ok add_page R w' Uc Sc out \<and> in_operation (am w') = in_operation (am w)"
proof -
  let ?sp = "sys_spaces add_page kc junk" and ?rf = "(setting (am w))\<lparr>refilling_watermark := False\<rparr>" and ?n = "int (length (mspace_chunk (am w)))"
  let ?w = "am_upd (\<lambda>a. a\<lparr>in_operation := True\<rparr>) w" and ?bs = "[u32 (8 * (int (length (mspace_chunk (am w))) + 1)), u32 (4 * (int (length (mspace_chunk (am w))) + 1)), u32 (4 * (int (length (mspace_chunk (am w))) + 1)), u32 (4 * int num)]"
  obtain K where K: "core_ok add_page ?rf R w (Uc ++ K) Sc out" "dom Uc \<inter> dom K = {}" "arr_ok (am w) K" using o by (rule am_okE)
  have start: "core_ok add_page ?rf R ?w (Uc ++ K) Sc out" by (rule core_in_op [OF K(1)])
  obtain p1 p2 p3 where p: "mspace_ptrs (am w) = (p1, p2, p3)" by (metis prod_cases3)
  have fin: "\<exists>w'. end_operation (am_refill ?sp) (\<not> in_operation (am w)) w1 = Some w' \<and> am_ok add_page R w' Uc Sc out \<and> in_operation (am w') = in_operation (am w)"
    if "core_ok add_page ((setting a)\<lparr>refilling_watermark := False\<rparr>) R w1 (Uc ++ K') Sc out" "arr_ok a K'" "dom Uc \<inter> dom K' = {}" for a w1 K'
    using idle.end_keeps [OF that(1), of kc junk "in_operation (am w)"] am_okI [OF _ that(2,3)] by blast
  show ?thesis
  proof (cases "list_ex (\<lambda>c. fst c = bytes) (mspace_chunk (am w))")
    case True
    then have "allocman_configure_mspace_reserve ?sp (am_refill ?sp) (bytes, num) w = do { w \<leftarrow> end_operation (am_refill ?sp) (\<not> in_operation (am w)) ?w; Some (1, w) }"
      by (simp add: allocman_configure_mspace_reserve_def start_operation_def)
    then show ?thesis using fin [OF start K(3,2)] by auto
  next
    case False
    let ?qs = "[(p1, u32 (8 * ?n)), (p2, u32 (4 * ?n)), (p3, u32 (4 * ?n))]"
    have xs: "ptrs (am w) ! 4 = p1" "ptrs (am w) ! (4 + 1) = p2" "ptrs (am w) ! (4 + 2) = p3" "4 + 2 < length (ptrs (am w))" by (simp_all add: ptrs_def p)
    have nz: "0 \<notin> set [p1, p2, p3]" if "?n > 0" using K(3) that by (auto simp: arr_ok_def ptrs_def p)
    have ow: "owned (ptrs (am w)) K" using K(3) by (simp add: arr_ok_def)
    have bs: "length ?bs = 4" "\<forall>b\<in>set ?bs. 0 < b \<and> b \<le> 268435456" using b by (simp_all add: u32_def)
    obtain err new w1 where a: "alloc_arrays ?sp (am_refill ?sp) ?bs [] ?w = Some (err, new, w1)" "setting (am w1) = ?rf"
      "if err = 0 then \<exists>w2 K2. (if ?n > 0 then free_arrays ?sp (am_refill ?sp) ?qs w1 else Some w1) = Some w2 \<and> in_operation (am w2) = in_operation (am ?w)
         \<and> core_ok add_page ?rf R w2 (Uc ++ K2) Sc out \<and> dom Uc \<inter> dom K2 = {}
         \<and> owned ((ptrs (am w))[4 := fst (new ! 0), 4 + 1 := fst (new ! 1), 4 + 2 := fst (new ! 2)]) K2 \<and> 0 \<notin> set [fst (new ! 0), fst (new ! 1), fst (new ! 2)]
       else err = 1 \<and> core_ok add_page ?rf R w1 (Uc ++ K) Sc out"
      using arrays_replaced [OF start K(2) ow xs(4), of ?qs "u32 (8 * ?n)" "u32 (4 * ?n)" "u32 (4 * ?n)" "?n > 0" ?bs kc junk] nz bs unfolding xs by blast
    have run: "allocman_configure_mspace_reserve ?sp (am_refill ?sp) (bytes, num) w =
        do { (error, v) \<leftarrow> (if err \<noteq> 0 then Some (err, w1)
              else do { let (p1, p2, p3) = mspace_ptrs (am w1);
                        w \<leftarrow> (if ?n > 0 then free_arrays ?sp (am_refill ?sp) [(p1, u32 (8 * ?n)), (p2, u32 (4 * ?n)), (p3, u32 (4 * ?n))] w1 else Some w1);
                        Some (0, am_upd (\<lambda>a. a\<lparr>mspace_ptrs := (fst (new ! 0), fst (new ! 1), fst (new ! 2)), mspace_chunk := mspace_chunk a @ [(bytes, num)],
                          mspace_chunks := mspace_chunks a @ [[]], used_watermark := True\<rparr>) w) });
             w' \<leftarrow> end_operation (am_refill ?sp) (\<not> in_operation (am w)) v; Some (error, w') }"
      using False a(1) by (simp add: allocman_configure_mspace_reserve_def start_operation_def Let_def del: alloc_arrays.simps free_arrays.simps cong del: if_weak_cong)
    show ?thesis
    proof (cases "err = 0")
      case False
      then show ?thesis using run a(3) fin [OF _ K(3,2), of w1] by auto
    next
      case True
      then obtain w2 K2 where w2: "(if ?n > 0 then free_arrays ?sp (am_refill ?sp) ?qs w1 else Some w1) = Some w2" "core_ok add_page ?rf R w2 (Uc ++ K2) Sc out" "dom Uc \<inter> dom K2 = {}"
        "owned ((ptrs (am w))[4 := fst (new ! 0), 4 + 1 := fst (new ! 1), 4 + 2 := fst (new ! 2)]) K2" "0 \<notin> set [fst (new ! 0), fst (new ! 1), fst (new ! 2)]" using a(3) by auto
      have "mspace_ptrs (am w1) = (p1, p2, p3)" using arg_cong [OF a(2), of mspace_ptrs] p by (simp add: setting_def frame_def)
      let ?a = "(am w2)\<lparr>mspace_ptrs := (fst (new ! 0), fst (new ! 1), fst (new ! 2)), mspace_chunk := mspace_chunk (am w2) @ [(bytes, num)], mspace_chunks := mspace_chunks (am w2) @ [[]], used_watermark := True\<rparr>"
      note s = settingD [OF core_setting [OF w2(2)]]
      have "core_ok add_page (setting ?a) R (w2\<lparr>am := ?a\<rparr>) (Uc ++ K2) Sc out" by (rule core_new_mem [OF w2(2) b(1,2) refl])
      moreover have "setting ?a = (setting ?a)\<lparr>refilling_watermark := False\<rparr>" using s(4) by (cases "am w2") (simp add: setting_def frame_def)
      ultimately have c: "core_ok add_page ((setting ?a)\<lparr>refilling_watermark := False\<rparr>) R (w2\<lparr>am := ?a\<rparr>) (Uc ++ K2) Sc out" by simp
      have pt: "ptrs ?a = (ptrs (am w))[4 := fst (new ! 0), 4 + 1 := fst (new ! 1), 4 + 2 := fst (new ! 2)]" using s(1) by (simp add: ptrs_def)
      have "arr_ok ?a K2" using w2(4,5) K(3) s(3) unfolding arr_ok_def pt by (simp add: ptrs_def)
      then obtain w' where "end_operation (am_refill ?sp) (\<not> in_operation (am w)) (w2\<lparr>am := ?a\<rparr>) = Some w'" "am_ok add_page R w' Uc Sc out" "in_operation (am w') = in_operation (am w)"
        using fin [OF c _ w2(3)] by blast
      then show ?thesis using run w2(1) True \<open>mspace_ptrs (am w1) = (p1, p2, p3)\<close> by simp
    qed
  qed
qed

lemma configure_utspace_keeps:
  assumes o: "am_ok add_page R w Uc Sc out" and b: "size_bits < CONFIG_WORD_SIZE" "0 < num" "32 * int num \<le> 268435456" "12 * (int (length (utspace_chunk (am w))) + 1) \<le> 268435456"
  shows "\<exists>err w'. allocman_configure_utspace_reserve (sys_spaces add_page kc junk) (am_refill (sys_spaces add_page kc junk)) (size_bits, type, num) w = Some (err, w')
    \<and> am_ok add_page R w' Uc Sc out \<and> in_operation (am w') = in_operation (am w)"
proof -
  let ?sp = "sys_spaces add_page kc junk" and ?rf = "(setting (am w))\<lparr>refilling_watermark := False\<rparr>" and ?n = "int (length (utspace_chunk (am w)))"
  let ?w = "am_upd (\<lambda>a. a\<lparr>in_operation := True\<rparr>) w" and ?bs = "[u32 (12 * (int (length (utspace_chunk (am w))) + 1)), u32 (4 * (int (length (utspace_chunk (am w))) + 1)), u32 (4 * (int (length (utspace_chunk (am w))) + 1)), u32 (32 * int num)]"
  obtain K where K: "core_ok add_page ?rf R w (Uc ++ K) Sc out" "dom Uc \<inter> dom K = {}" "arr_ok (am w) K" using o by (rule am_okE)
  have start: "core_ok add_page ?rf R ?w (Uc ++ K) Sc out" by (rule core_in_op [OF K(1)])
  obtain p1 p2 p3 where p: "utspace_ptrs (am w) = (p1, p2, p3)" by (metis prod_cases3)
  have fin: "\<exists>w'. end_operation (am_refill ?sp) (\<not> in_operation (am w)) w1 = Some w' \<and> am_ok add_page R w' Uc Sc out \<and> in_operation (am w') = in_operation (am w)"
    if "core_ok add_page ((setting a)\<lparr>refilling_watermark := False\<rparr>) R w1 (Uc ++ K') Sc out" "arr_ok a K'" "dom Uc \<inter> dom K' = {}" for a w1 K'
    using idle.end_keeps [OF that(1), of kc junk "in_operation (am w)"] am_okI [OF _ that(2,3)] by blast
  show ?thesis
  proof (cases "list_ex (\<lambda>(s, t, n). s = size_bits \<and> t = type) (utspace_chunk (am w))")
    case True
    then have "allocman_configure_utspace_reserve ?sp (am_refill ?sp) (size_bits, type, num) w = do { w \<leftarrow> end_operation (am_refill ?sp) (\<not> in_operation (am w)) ?w; Some (1, w) }"
      by (simp add: allocman_configure_utspace_reserve_def start_operation_def)
    then show ?thesis using fin [OF start K(3,2)] by auto
  next
    case False
    let ?qs = "[(p1, u32 (12 * ?n)), (p2, u32 (4 * ?n)), (p3, u32 (4 * ?n))]"
    have xs: "ptrs (am w) ! 7 = p1" "ptrs (am w) ! (7 + 1) = p2" "ptrs (am w) ! (7 + 2) = p3" "7 + 2 < length (ptrs (am w))" by (simp_all add: ptrs_def p)
    have nz: "0 \<notin> set [p1, p2, p3]" if "?n > 0" using K(3) that by (auto simp: arr_ok_def ptrs_def p)
    have ow: "owned (ptrs (am w)) K" using K(3) by (simp add: arr_ok_def)
    have bs: "length ?bs = 4" "\<forall>b\<in>set ?bs. 0 < b \<and> b \<le> 268435456" using b by (simp_all add: u32_def)
    obtain err new w1 where a: "alloc_arrays ?sp (am_refill ?sp) ?bs [] ?w = Some (err, new, w1)" "setting (am w1) = ?rf"
      "if err = 0 then \<exists>w2 K2. (if ?n > 0 then free_arrays ?sp (am_refill ?sp) ?qs w1 else Some w1) = Some w2 \<and> in_operation (am w2) = in_operation (am ?w)
         \<and> core_ok add_page ?rf R w2 (Uc ++ K2) Sc out \<and> dom Uc \<inter> dom K2 = {}
         \<and> owned ((ptrs (am w))[7 := fst (new ! 0), 7 + 1 := fst (new ! 1), 7 + 2 := fst (new ! 2)]) K2 \<and> 0 \<notin> set [fst (new ! 0), fst (new ! 1), fst (new ! 2)]
       else err = 1 \<and> core_ok add_page ?rf R w1 (Uc ++ K) Sc out"
      using arrays_replaced [OF start K(2) ow xs(4), of ?qs "u32 (12 * ?n)" "u32 (4 * ?n)" "u32 (4 * ?n)" "?n > 0" ?bs kc junk] nz bs unfolding xs by blast
    have run: "allocman_configure_utspace_reserve ?sp (am_refill ?sp) (size_bits, type, num) w =
        do { (error, v) \<leftarrow> (if err \<noteq> 0 then Some (err, w1)
              else do { let (p1, p2, p3) = utspace_ptrs (am w1);
                        w \<leftarrow> (if ?n > 0 then free_arrays ?sp (am_refill ?sp) [(p1, u32 (12 * ?n)), (p2, u32 (4 * ?n)), (p3, u32 (4 * ?n))] w1 else Some w1);
                        Some (0, am_upd (\<lambda>a. a\<lparr>utspace_ptrs := (fst (new ! 0), fst (new ! 1), fst (new ! 2)), utspace_chunk := utspace_chunk a @ [(size_bits, type, num)],
                          utspace_chunks := utspace_chunks a @ [[]], used_watermark := True\<rparr>) w) });
             w' \<leftarrow> end_operation (am_refill ?sp) (\<not> in_operation (am w)) v; Some (error, w') }"
      using False a(1) by (simp add: allocman_configure_utspace_reserve_def start_operation_def Let_def del: alloc_arrays.simps free_arrays.simps cong del: if_weak_cong)
    show ?thesis
    proof (cases "err = 0")
      case False
      then show ?thesis using run a(3) fin [OF _ K(3,2), of w1] by auto
    next
      case True
      then obtain w2 K2 where w2: "(if ?n > 0 then free_arrays ?sp (am_refill ?sp) ?qs w1 else Some w1) = Some w2" "core_ok add_page ?rf R w2 (Uc ++ K2) Sc out" "dom Uc \<inter> dom K2 = {}"
        "owned ((ptrs (am w))[7 := fst (new ! 0), 7 + 1 := fst (new ! 1), 7 + 2 := fst (new ! 2)]) K2" "0 \<notin> set [fst (new ! 0), fst (new ! 1), fst (new ! 2)]" using a(3) by auto
      have "utspace_ptrs (am w1) = (p1, p2, p3)" using arg_cong [OF a(2), of utspace_ptrs] p by (simp add: setting_def frame_def)
      let ?a = "(am w2)\<lparr>utspace_ptrs := (fst (new ! 0), fst (new ! 1), fst (new ! 2)), utspace_chunk := utspace_chunk (am w2) @ [(size_bits, type, num)], utspace_chunks := utspace_chunks (am w2) @ [[]], used_watermark := True\<rparr>"
      note s = settingD [OF core_setting [OF w2(2)]]
      have "core_ok add_page (setting ?a) R (w2\<lparr>am := ?a\<rparr>) (Uc ++ K2) Sc out" by (rule core_new_obj [OF w2(2) b(1) refl])
      moreover have "setting ?a = (setting ?a)\<lparr>refilling_watermark := False\<rparr>" using s(4) by (cases "am w2") (simp add: setting_def frame_def)
      ultimately have c: "core_ok add_page ((setting ?a)\<lparr>refilling_watermark := False\<rparr>) R (w2\<lparr>am := ?a\<rparr>) (Uc ++ K2) Sc out" by simp
      have pt: "ptrs ?a = (ptrs (am w))[7 := fst (new ! 0), 7 + 1 := fst (new ! 1), 7 + 2 := fst (new ! 2)]" using s(1) by (simp add: ptrs_def)
      have "arr_ok ?a K2" using w2(4,5) K(3) s(2) unfolding arr_ok_def pt by (simp add: ptrs_def)
      then obtain w' where "end_operation (am_refill ?sp) (\<not> in_operation (am w)) (w2\<lparr>am := ?a\<rparr>) = Some w'" "am_ok add_page R w' Uc Sc out" "in_operation (am w') = in_operation (am w)"
        using fin [OF c _ w2(3)] by blast
      then show ?thesis using run w2(1) True \<open>utspace_ptrs (am w1) = (p1, p2, p3)\<close> by simp
    qed
  qed
qed

subsection \<open>Runs\<close>

lemma am_mspace_alloc_ok:
  assumes o: "am_ok add_page R w Uc Sc out" and b: "0 < bytes" "bytes \<le> 268435456"
  shows "\<exists>p err w'. allocman_mspace_alloc (sys_spaces add_page kc junk) bytes w = Some (p, err, w') \<and> in_operation (am w') = in_operation (am w)
    \<and> (if err = 0 then Uc p = None \<and> p \<noteq> 0 \<and> am_ok add_page R w' (Uc(p \<mapsto> bytes)) Sc out else err = 1 \<and> am_ok add_page R w' Uc Sc out)"
proof -
  let ?sp = "sys_spaces add_page kc junk" and ?rf = "(setting (am w))\<lparr>refilling_watermark := False\<rparr>"
  obtain K where K: "core_ok add_page ?rf R w (Uc ++ K) Sc out" "dom Uc \<inter> dom K = {}" "arr_ok (am w) K" using o by (rule am_okE)
  obtain p err w' where a: "am_mspace_alloc ?sp (am_refill ?sp) bytes True w = Some (p, err, w')" "in_operation (am w') = in_operation (am w)"
    "if err = 0 then (Uc ++ K) p = None \<and> p \<noteq> 0 \<and> core_ok add_page ?rf R w' ((Uc ++ K)(p \<mapsto> bytes)) Sc out else err = 1 \<and> core_ok add_page ?rf R w' (Uc ++ K) Sc out"
    using idle.mspace_alloc_keeps [OF K(1) b, of kc junk True] by blast
  have run: "allocman_mspace_alloc ?sp bytes w = Some (p, err, w')" using a(1) by (simp add: allocman_mspace_alloc_def)
  show ?thesis
  proof (cases "err = 0")
    case True
    then have g: "Uc p = None" "p \<notin> dom K" "p \<noteq> 0" "core_ok add_page ?rf R w' ((Uc ++ K)(p \<mapsto> bytes)) Sc out" using a(3) by auto
    have "(Uc ++ K)(p \<mapsto> bytes) = Uc(p \<mapsto> bytes) ++ K" using g(2) by (simp add: map_add_upd_left)
    moreover have "dom (Uc(p \<mapsto> bytes)) \<inter> dom K = {}" using K(2) g(2) by auto
    ultimately have "am_ok add_page R w' (Uc(p \<mapsto> bytes)) Sc out" using g(4) K(3) by (intro am_okI [of _ "am w" _ _ _ K]) simp_all
    then show ?thesis using run a(2) True g(1,3) by simp
  next
    case False
    then have "err = 1" "am_ok add_page R w' Uc Sc out" using a(3) K(2,3) am_okI [of add_page "am w" R w' Uc K Sc out] by auto
    then show ?thesis using run a(2) by simp
  qed
qed

lemma am_mspace_free_ok:
  assumes o: "am_ok add_page R w Uc Sc out" and p: "Uc p = Some b"
  shows "\<exists>w'. allocman_mspace_free (sys_spaces add_page kc junk) (am_refill (sys_spaces add_page kc junk)) p bytes w = Some w' \<and> in_operation (am w') = in_operation (am w) \<and> am_ok add_page R w' (Uc(p := None)) Sc out"
proof -
  let ?sp = "sys_spaces add_page kc junk" and ?rf = "(setting (am w))\<lparr>refilling_watermark := False\<rparr>"
  obtain K where K: "core_ok add_page ?rf R w (Uc ++ K) Sc out" "dom Uc \<inter> dom K = {}" "arr_ok (am w) K" using o by (rule am_okE)
  have n: "p \<in> dom (Uc ++ K)" "p \<notin> dom K" using p K(2) by auto
  obtain w' where w': "allocman_mspace_free ?sp (am_refill ?sp) p bytes w = Some w'" "in_operation (am w') = in_operation (am w)" "core_ok add_page ?rf R w' ((Uc ++ K)(p := None)) Sc out"
    using idle.mspace_free_keeps [OF K(1) n(1), of kc junk bytes] by blast
  have "(Uc ++ K)(p := None) = Uc(p := None) ++ K" by (rule delete_left [OF n(2)])
  moreover have "dom (Uc(p := None)) \<inter> dom K = {}" using K(2) by auto
  ultimately have "am_ok add_page R w' (Uc(p := None)) Sc out" using w'(3) K(3) by (intro am_okI [of _ "am w" _ _ _ K]) simp_all
  then show ?thesis using w'(1,2) by simp
qed

lemma am_cspace_alloc_ok:
  assumes o: "am_ok add_page R w Uc Sc out"
  shows "\<exists>err q w'. allocman_cspace_alloc (sys_spaces add_page kc junk) w = Some (err, q, w') \<and> in_operation (am w') = in_operation (am w)
    \<and> (if err = 0 then \<exists>x. q = Some x \<and> cp_capPtr x \<notin> Sc \<and> am_ok add_page R w' Uc (insert (cp_capPtr x) Sc) out else err = 1 \<and> am_ok add_page R w' Uc Sc out)"
proof -
  let ?sp = "sys_spaces add_page kc junk" and ?rf = "(setting (am w))\<lparr>refilling_watermark := False\<rparr>"
  obtain K where K: "core_ok add_page ?rf R w (Uc ++ K) Sc out" "dom Uc \<inter> dom K = {}" "arr_ok (am w) K" using o by (rule am_okE)
  note I = am_okI [of add_page "am w" R _ Uc K, OF _ K(3,2)]
  obtain err q w' where a: "am_cspace_alloc ?sp (am_refill ?sp) True w = Some (err, q, w')" "in_operation (am w') = in_operation (am w)"
    "if err = 0 then \<exists>x. q = Some x \<and> cp_capPtr x \<notin> Sc \<and> core_ok add_page ?rf R w' (Uc ++ K) (insert (cp_capPtr x) Sc) out else err = 1 \<and> core_ok add_page ?rf R w' (Uc ++ K) Sc out"
    using idle.cspace_alloc_keeps [OF K(1), of kc junk True] by blast
  have "if err = 0 then \<exists>x. q = Some x \<and> cp_capPtr x \<notin> Sc \<and> am_ok add_page R w' Uc (insert (cp_capPtr x) Sc) out else err = 1 \<and> am_ok add_page R w' Uc Sc out"
    using a(3) I by (cases "err = 0") auto
  then show ?thesis using a(1,2) unfolding allocman_cspace_alloc_def by blast
qed

lemma am_cspace_free_ok:
  assumes o: "am_ok add_page R w Uc Sc out" and x: "cp_capPtr x \<in> Sc"
  shows "\<exists>w'. allocman_cspace_free (sys_spaces add_page kc junk) (am_refill (sys_spaces add_page kc junk)) x w = Some w' \<and> in_operation (am w') = in_operation (am w) \<and> am_ok add_page R w' Uc (Sc - {cp_capPtr x}) out"
proof -
  obtain K where K: "core_ok add_page ((setting (am w))\<lparr>refilling_watermark := False\<rparr>) R w (Uc ++ K) Sc out" "dom Uc \<inter> dom K = {}" "arr_ok (am w) K" using o by (rule am_okE)
  show ?thesis using idle.cspace_free_keeps [OF K(1) x, of kc junk] am_okI [of add_page "am w" R _ Uc K, OF _ K(3,2)] by blast
qed

lemma am_utspace_alloc_ok:
  assumes o: "am_ok add_page R w Uc Sc out" and i: "i < CONFIG_WORD_SIZE" "paddr = ALLOCMAN_NO_PADDR \<or> 2 ^ i dvd paddr"
  shows "\<exists>k err w'. allocman_utspace_alloc_at (sys_spaces add_page kc junk) i type path paddr dev w = Some (k, err, w') \<and> in_operation (am w') = in_operation (am w)
    \<and> (if err = 0 then out k = None \<and> am_ok add_page R w' Uc Sc (out(k \<mapsto> i)) else err = 1 \<and> am_ok add_page R w' Uc Sc out)"
proof -
  let ?sp = "sys_spaces add_page kc junk" and ?rf = "(setting (am w))\<lparr>refilling_watermark := False\<rparr>"
  obtain K where K: "core_ok add_page ?rf R w (Uc ++ K) Sc out" "dom Uc \<inter> dom K = {}" "arr_ok (am w) K" using o by (rule am_okE)
  note I = am_okI [of add_page "am w" R _ Uc K, OF _ K(3,2)]
  have al: "paddr \<noteq> ALLOCMAN_NO_PADDR \<Longrightarrow> 2 ^ i dvd paddr" using i(2) by blast
  obtain k err w' where a: "am_utspace_alloc ?sp (am_refill ?sp) i type path paddr dev True w = Some (k, err, w')" "in_operation (am w') = in_operation (am w)"
    "if err = 0 then out k = None \<and> core_ok add_page ?rf R w' (Uc ++ K) Sc (out(k \<mapsto> i)) else err = 1 \<and> core_ok add_page ?rf R w' (Uc ++ K) Sc out"
    using idle.utspace_alloc_keeps [OF K(1) i(1) al, of kc junk type path dev True] by blast
  have "if err = 0 then out k = None \<and> am_ok add_page R w' Uc Sc (out(k \<mapsto> i)) else err = 1 \<and> am_ok add_page R w' Uc Sc out" using a(3) I by (cases "err = 0") auto
  then show ?thesis using a(1,2) unfolding allocman_utspace_alloc_at_def by blast
qed

lemma am_utspace_free_ok:
  assumes o: "am_ok add_page R w Uc Sc out" and x: "out k = Some i"
  shows "\<exists>w'. allocman_utspace_free (sys_spaces add_page kc junk) (am_refill (sys_spaces add_page kc junk)) k size_bits w = Some w' \<and> in_operation (am w') = in_operation (am w) \<and> am_ok add_page R w' Uc Sc (out(k := None))"
proof -
  obtain K where K: "core_ok add_page ((setting (am w))\<lparr>refilling_watermark := False\<rparr>) R w (Uc ++ K) Sc out" "dom Uc \<inter> dom K = {}" "arr_ok (am w) K" using o by (rule am_okE)
  show ?thesis using idle.utspace_free_keeps [OF K(1) x, of kc junk size_bits] am_okI [of add_page "am w" R _ Uc K, OF _ K(3,2)] by blast
qed

lemma am_fill_ok:
  assumes o: "am_ok add_page R w Uc Sc out"
  shows "\<exists>full w'. allocman_fill_reserves (sys_spaces add_page kc junk) (am_refill (sys_spaces add_page kc junk)) w = Some (full, w') \<and> in_operation (am w') = in_operation (am w) \<and> am_ok add_page R w' Uc Sc out"
proof -
  let ?sp = "sys_spaces add_page kc junk" and ?rf = "(setting (am w))\<lparr>refilling_watermark := False\<rparr>"
  obtain K where K: "core_ok add_page ?rf R w (Uc ++ K) Sc out" "dom Uc \<inter> dom K = {}" "arr_ok (am w) K" using o by (rule am_okE)
  let ?w = "am_upd (\<lambda>a. a\<lparr>used_watermark := True\<rparr>) (am_upd (\<lambda>a. a\<lparr>in_operation := True\<rparr>) w)"
  obtain full w1 where f: "am_refill ?sp ?w = Some (full, w1)" "core_ok add_page ?rf R w1 (Uc ++ K) Sc out" using idle.refill_keeps [OF core_used [OF core_in_op [OF K(1), of True], of True], of kc junk] by blast
  obtain w' where e: "end_operation (am_refill ?sp) (\<not> in_operation (am w)) w1 = Some w'" "core_ok add_page ?rf R w' (Uc ++ K) Sc out" "in_operation (am w') = in_operation (am w)"
    using idle.end_keeps [OF f(2), of kc junk "in_operation (am w)"] by blast
  have "allocman_fill_reserves ?sp (am_refill ?sp) w = Some (full, w')" using f(1) e(1) by (simp add: allocman_fill_reserves_def start_operation_def Let_def)
  then show ?thesis using e(3) am_okI [OF e(2) K(3,2)] by blast
qed

definition allocman_boot :: "'w spaces \<Rightarrow> 'w \<Rightarrow> 'w am_world option" where
  \<comment> \<open>a manager with its allocators\<close>
  "allocman_boot sp x =
     do { (error, w) \<leftarrow> allocman_attach_cspace sp (am_refill sp) (allocman_create x); ok (error = 0);
          (error, w) \<leftarrow> allocman_attach_utspace sp (am_refill sp) w; ok (error = 0);
          Some w }"

lemma boot_run: "allocman_boot sp x = Some \<lparr>am = (am (allocman_create x))\<lparr>have_cspace := True, have_utspace := True\<rparr>, inside = x\<rparr>"
  by (simp add: allocman_boot_def allocman_attach_cspace_def allocman_attach_utspace_def start_operation_def end_operation_def allocman_create_def ok_def refill_watermark.simps Let_def)

lemma boot_ok:
  assumes h: "holds (sys_valid add_page) s a {} Sc" and u: "ut_inv s fl R0" "R0 \<subseteq> R" "used (ut_nodes s) = {}" and w: "allocman_boot sp (a, s) = Some w"
  shows "am_ok add_page R w Map.empty Sc Map.empty" "\<not> in_operation (am w)"
proof -
  let ?a = "(am (allocman_create (a, s)))\<lparr>have_cspace := True, have_utspace := True\<rparr>"
  have w': "w = \<lparr>am = ?a, inside = (a, s)\<rparr>" using w by (simp add: boot_run)
  obtain U where U: "dual_run add_page (sys_pool a) U" "dom U = dom (ut_nodes s)" "slot_run (sys_slots a) (Sc \<union> slots (ut_nodes s))" "Sc \<inter> slots (ut_nodes s) = {}" "slots_inj (ut_nodes s)"
    using h by (auto simp: holds_def sys_valid_def)
  have "core_ok add_page (setting ?a) R w (Map.empty ++ Map.empty) Sc Map.empty"
    by (rule core_okI [where U = U]) (use U u in \<open>auto simp: w' allocman_create_def objs_ok_def ready_def stock_ok_def stock_mem_def stock_caps_def\<close>)
  moreover have "setting ?a = (setting ?a)\<lparr>refilling_watermark := False\<rparr>" by (simp add: allocman_create_def setting_def frame_def)
  moreover have "arr_ok ?a Map.empty" by (auto simp: arr_ok_def owned_def ptrs_def allocman_create_def less_Suc_eq)
  ultimately show "am_ok add_page R w Map.empty Sc Map.empty" by (intro am_okI [of _ ?a _ _ _ Map.empty]) simp_all
  show "\<not> in_operation (am w)" by (simp add: w' allocman_create_def)
qed

lemma core_grow:
  assumes c: "core_ok add_page rf R w T Sc out" and r: "R \<subseteq> R'"
  shows "core_ok add_page rf R' w T Sc out"
proof -
  obtain fl R0 where "ut_inv (snd (inside w)) fl R0" "R0 \<subseteq> R" using c by (auto simp: core_ok_def)
  then have "\<exists>fl R0. ut_inv (snd (inside w)) fl R0 \<and> R0 \<subseteq> R'" using r by blast
  then show ?thesis using c by (simp add: core_ok_def)
qed

lemma core_insert:
  assumes c: "core_ok add_page rf R w T Sc out" and p: "T p = Some b" "p \<noteq> 0" and g: "n_parent g = 0" "size_ok g" "region g \<inter> R = {}"
  shows "\<exists>s'. insert_node ((snd (inside w))\<lparr>ut_nodes := (ut_nodes (snd (inside w)))(p \<mapsto> g)\<rparr>) (n_origin g) p = Some s'
    \<and> core_ok add_page rf (R \<union> region g) (w\<lparr>inside := (fst (inside w), s')\<rparr>) (T(p := None)) Sc out"
proof -
  let ?s = "snd (inside w)"
  let ?n = "ut_nodes ?s"
  obtain U where U: "setting (am w) = rf" "have_utspace (am w)" "utspace_alloc_depth (am w) = 0" "utspace_free_depth (am w) = 0"
    "freed_slots (am w) = []" "freed_mspace_chunks (am w) = []" "freed_utspace_chunks (am w) = []" "objs_ok (am w) ?s out" "\<exists>fl R0. ut_inv ?s fl R0 \<and> R0 \<subseteq> R"
    "dom ?n \<inter> dom T = {}" "Sc \<inter> slots ?n = {}" "slots_inj ?n" "ready (am w)" "dual_run add_page (pool_of w) U" "T \<subseteq>\<^sub>m U" "stock_ok (am w) U"
    "dom U = dom ?n \<union> dom T \<union> stock_mem (am w)" "(dom ?n \<union> dom T) \<inter> stock_mem (am w) = {}"
    "slot_run (slots_of w) (Sc \<union> slots ?n \<union> set (stock_caps (am w)))" "(Sc \<union> slots ?n) \<inter> set (stock_caps (am w)) = {}" using c by (rule core_okE)
  obtain fl R0 where u: "ut_inv ?s fl R0" "R0 \<subseteq> R" using U(9) by blast
  have pd: "p \<in> dom T" "p \<notin> dom ?n" "?n p = None" using p(1) U(10) by auto
  have "region g \<inter> R0 = {}" using g(3) u(2) by blast
  then obtain s' fl' where s': "insert_node (?s\<lparr>ut_nodes := ?n(p \<mapsto> g)\<rparr>) (n_origin g) p = Some s'" "ut_inv s' fl' (R0 \<union> region g)" "untouched ?s s'"
    "same_core (?s\<lparr>ut_nodes := ?n(p \<mapsto> g)\<rparr>) s' {p}" using root_spec [OF u(1) pd(2) p(2) g(1,2)] by blast
  have d: "dom (ut_nodes s') = insert p (dom ?n)" "slots (ut_nodes s') = slots ?n" "slots_inj (ut_nodes s') = slots_inj ?n"
    using same_core_dom [OF s'(4)] slots_same [OF s'(4)] slots_root [of ?n p g, OF pd(3) g(1)] by simp_all
  have "\<exists>fl R1. ut_inv s' fl R1 \<and> R1 \<subseteq> R \<union> region g" using s'(2) u(2) by blast
  moreover have "objs_ok (am w) s' out" by (rule objs_same [OF U(8) s'(3)])
  moreover have "dom (ut_nodes s') \<inter> dom (T(p := None)) = {}" "T(p := None) \<subseteq>\<^sub>m U" using U(10,15) d(1) by (auto simp: map_le_def)
  moreover have "dom U = dom (ut_nodes s') \<union> dom (T(p := None)) \<union> stock_mem (am w)" "(dom (ut_nodes s') \<union> dom (T(p := None))) \<inter> stock_mem (am w) = {}" using U(17,18) d(1) pd(1) by auto
  ultimately have "core_ok add_page rf (R \<union> region g) (w\<lparr>inside := (fst (inside w), s')\<rparr>) (T(p := None)) Sc out"
    using U(1-7,11-14,16,19,20) d(2,3) by (intro core_okI [where U = U]) (simp_all del: dom_fun_upd)
  then show ?thesis using s'(1) by blast
qed

lemma sys_insert_ok:
  assumes o: "am_ok add_page R w Uc Sc out" and f: "fits R ((ut, i, p) # uts)"
  shows "\<exists>err w'. sys_insert_new_node add_page kc junk (pool, i) ut p w = Some (err, w') \<and> in_operation (am w') = in_operation (am w) \<and> am_ok add_page (R \<union> {p..<p + 2 ^ i}) w' Uc Sc out"
proof -
  let ?sp = "sys_spaces add_page kc junk"
  have b: "0 < NODE_BYTES" "NODE_BYTES \<le> 268435456" by (simp_all add: NODE_BYTES_def)
  obtain q err w1 where a: "allocman_mspace_alloc ?sp NODE_BYTES w = Some (q, err, w1)" "in_operation (am w1) = in_operation (am w)"
    "if err = 0 then Uc q = None \<and> q \<noteq> 0 \<and> am_ok add_page R w1 (Uc(q \<mapsto> NODE_BYTES)) Sc out else err = 1 \<and> am_ok add_page R w1 Uc Sc out" using am_mspace_alloc_ok [OF o b, of kc junk] by blast
  show ?thesis
  proof (cases "err = 0")
    case False
    then obtain K where K: "core_ok add_page ((setting (am w1))\<lparr>refilling_watermark := False\<rparr>) R w1 (Uc ++ K) Sc out" "dom Uc \<inter> dom K = {}" "arr_ok (am w1) K" using a(3) by (auto elim: am_okE)
    have "am_ok add_page (R \<union> {p..<p + 2 ^ i}) w1 Uc Sc out" by (rule am_okI [OF core_grow [OF K(1)] K(3,2)]) blast
    moreover have "sys_insert_new_node add_page kc junk (pool, i) ut p w = Some (1, w1)" using a(1) False by (simp add: sys_insert_new_node_def insert_new_node_def)
    ultimately show ?thesis using a(2) by blast
  next
    case True
    then have n: "Uc q = None" "q \<noteq> 0" "am_ok add_page R w1 (Uc(q \<mapsto> NODE_BYTES)) Sc out" using a(3) by auto
    obtain K where K: "core_ok add_page ((setting (am w1))\<lparr>refilling_watermark := False\<rparr>) R w1 (Uc(q \<mapsto> NODE_BYTES) ++ K) Sc out" "dom (Uc(q \<mapsto> NODE_BYTES)) \<inter> dom K = {}" "arr_ok (am w1) K" using n(3) by (rule am_okE)
    define g where "g = (junk q)\<lparr>n_parent := 0, n_ut := ut, n_paddr := p, n_origin := (pool, i)\<rparr>"
    have g: "n_parent g = 0" "size_ok g" "region g \<inter> R = {}" "n_origin g = (pool, i)" "region g = {p..<p + 2 ^ i}" using f by (auto simp: g_def size_ok_def region_def)
    have q: "q \<notin> dom K" using K(2) by auto
    have "(Uc(q \<mapsto> NODE_BYTES) ++ K) q = Some NODE_BYTES" using q by (simp add: map_add_dom_app_simps)
    then obtain s' where s': "insert_node ((snd (inside w1))\<lparr>ut_nodes := (ut_nodes (snd (inside w1)))(q \<mapsto> g)\<rparr>) (pool, i) q = Some s'"
      "core_ok add_page ((setting (am w1))\<lparr>refilling_watermark := False\<rparr>) (R \<union> {p..<p + 2 ^ i}) (w1\<lparr>inside := (fst (inside w1), s')\<rparr>) ((Uc(q \<mapsto> NODE_BYTES) ++ K)(q := None)) Sc out"
      using core_insert [OF K(1) _ n(2) g(1-3)] g(4,5) by auto
    have "(Uc(q \<mapsto> NODE_BYTES) ++ K)(q := None) = Uc ++ K" using delete_left [OF q, of "Uc(q \<mapsto> NODE_BYTES)"] n(1) by (simp add: fun_upd_idem)
    then have "am_ok add_page (R \<union> {p..<p + 2 ^ i}) (w1\<lparr>inside := (fst (inside w1), s')\<rparr>) Uc Sc out" using s'(2) K(2,3) by (intro am_okI [of _ "am w1" _ _ _ K]) auto
    moreover have "sys_insert_new_node add_page kc junk (pool, i) ut p w = Some (0, w1\<lparr>inside := (fst (inside w1), s')\<rparr>)"
      using a(1) True n(2) s'(1) by (simp add: sys_insert_new_node_def insert_new_node_def nested_env_def g_def)
    ultimately show ?thesis using a(2) by auto
  qed
qed

lemma sys_add_ok:
  assumes "am_ok add_page R w Uc Sc out" "fits R uts"
  shows "\<exists>err w'. sys_add_loop add_page kc junk pool uts w = Some (err, w') \<and> in_operation (am w') = in_operation (am w) \<and> am_ok add_page (R \<union> spans uts) w' Uc Sc out"
  using assms
proof (induction uts arbitrary: w R)
  case Nil
  then show ?case by simp
next
  case (Cons x uts)
  obtain ut i p where x: "x = (ut, i, p)" by (cases x) auto
  obtain err w1 where a: "sys_insert_new_node add_page kc junk (pool, i) ut p w = Some (err, w1)" "in_operation (am w1) = in_operation (am w)" "am_ok add_page (R \<union> {p..<p + 2 ^ i}) w1 Uc Sc out"
    using sys_insert_ok [OF Cons.prems(1), of ut i p uts kc junk pool] Cons.prems(2) x by blast
  show ?case
  proof (cases "err = 0")
    case True
    have "fits (R \<union> {p..<p + 2 ^ i}) uts" using Cons.prems(2) x by simp
    then show ?thesis using Cons.IH [OF a(3)] a(1,2) True x by (auto simp: Un_assoc)
  next
    case False
    obtain K where K: "core_ok add_page ((setting (am w1))\<lparr>refilling_watermark := False\<rparr>) (R \<union> {p..<p + 2 ^ i}) w1 (Uc ++ K) Sc out" "dom Uc \<inter> dom K = {}" "arr_ok (am w1) K" using a(3) by (rule am_okE)
    have "am_ok add_page (R \<union> spans (x # uts)) w1 Uc Sc out" by (rule am_okI [OF core_grow [OF K(1)] K(3,2)]) (auto simp: x)
    then show ?thesis using a(1,2) False x by simp
  qed
qed

lemma am_add_ok:
  assumes o: "am_ok add_page R w Uc Sc out" and f: "fits R uts"
  shows "\<exists>err w'. allocman_utspace_add_uts (sys_spaces add_page kc junk) (sys_add_uts add_page kc junk) (am_refill (sys_spaces add_page kc junk)) uts utType w = Some (err, w')
    \<and> in_operation (am w') = in_operation (am w) \<and> am_ok add_page (R \<union> spans uts) w' Uc Sc out"
proof -
  let ?sp = "sys_spaces add_page kc junk"
  obtain K where K: "core_ok add_page ((setting (am w))\<lparr>refilling_watermark := False\<rparr>) R w (Uc ++ K) Sc out" "dom Uc \<inter> dom K = {}" "arr_ok (am w) K" using o by (rule am_okE)
  have hv: "have_utspace (am w)" using K(1) by (simp add: core_ok_def)
  have "\<exists>err w1. sys_add_uts add_page kc junk w uts utType = Some (err, w1) \<and> in_operation (am w1) = in_operation (am w) \<and> am_ok add_page (R \<union> spans uts) w1 Uc Sc out"
  proof (cases "utType = 0 \<or> utType = 1 \<or> utType = 2")
    case True
    then show ?thesis using sys_add_ok [OF o f, of kc junk] by (auto simp: sys_add_uts_def)
  next
    case False
    have "am_ok add_page (R \<union> spans uts) w Uc Sc out" by (rule am_okI [OF core_grow [OF K(1)] K(3,2)]) blast
    then show ?thesis using False by (auto simp: sys_add_uts_def)
  qed
  then obtain err w1 where a: "sys_add_uts add_page kc junk w uts utType = Some (err, w1)" "in_operation (am w1) = in_operation (am w)" "am_ok add_page (R \<union> spans uts) w1 Uc Sc out" by blast
  show ?thesis
  proof (cases "err = 0")
    case True
    then show ?thesis using am_fill_ok [OF a(3), of kc junk] a(1,2) hv by (auto simp: allocman_utspace_add_uts_def ok_def)
  next
    case False
    then show ?thesis using a hv by (simp add: allocman_utspace_add_uts_def ok_def)
  qed
qed

inductive am_run :: "(int \<Rightarrow> int) \<Rightarrow> 'k kernel_ops \<Rightarrow> (int \<Rightarrow> ut_node) \<Rightarrow> 'k inner am_world \<Rightarrow> (int \<rightharpoonup> int) \<Rightarrow> int set \<Rightarrow> (int \<rightharpoonup> nat) \<Rightarrow> int set \<Rightarrow> bool" for add_page kc junk where
  \<comment> \<open>the manager after some calls; the blocks, slots and pieces that clients have, and the untyped memory it was given\<close>
  boot: "ut_nodes s = Map.empty \<Longrightarrow> sys_valid add_page a {} Sc \<Longrightarrow> allocman_boot (sys_spaces add_page kc junk) (a, utspace_split_create s) = Some w \<Longrightarrow> am_run add_page kc junk w Map.empty Sc Map.empty {}"
| add: "am_run add_page kc junk w Uc Sc out R \<Longrightarrow> fits R uts
    \<Longrightarrow> allocman_utspace_add_uts (sys_spaces add_page kc junk) (sys_add_uts add_page kc junk) (am_refill (sys_spaces add_page kc junk)) uts utType w = Some (err, w')
    \<Longrightarrow> am_run add_page kc junk w' Uc Sc out (R \<union> spans uts)"
| kernel: "am_run add_page kc junk w Uc Sc out R \<Longrightarrow> am_run add_page kc junk (w\<lparr>inside := ((fst (inside w))\<lparr>sys_kernel := k\<rparr>, snd (inside w))\<rparr>) Uc Sc out R"
    \<comment> \<open>other system calls\<close>
| mem_alloc: "am_run add_page kc junk w Uc Sc out R \<Longrightarrow> 0 < bytes \<Longrightarrow> bytes \<le> 268435456 \<Longrightarrow> allocman_mspace_alloc (sys_spaces add_page kc junk) bytes w = Some (p, err, w')
    \<Longrightarrow> am_run add_page kc junk w' (if err = 0 then Uc(p \<mapsto> bytes) else Uc) Sc out R"
| mem_free: "am_run add_page kc junk w Uc Sc out R \<Longrightarrow> Uc p = Some bytes \<Longrightarrow> allocman_mspace_free (sys_spaces add_page kc junk) (am_refill (sys_spaces add_page kc junk)) p bytes w = Some w'
    \<Longrightarrow> am_run add_page kc junk w' (Uc(p := None)) Sc out R"
| slot_alloc: "am_run add_page kc junk w Uc Sc out R \<Longrightarrow> allocman_cspace_alloc (sys_spaces add_page kc junk) w = Some (err, q, w')
    \<Longrightarrow> am_run add_page kc junk w' Uc (if err = 0 then insert (cp_capPtr (the q)) Sc else Sc) out R"
| slot_free: "am_run add_page kc junk w Uc Sc out R \<Longrightarrow> cp_capPtr x \<in> Sc \<Longrightarrow> allocman_cspace_free (sys_spaces add_page kc junk) (am_refill (sys_spaces add_page kc junk)) x w = Some w'
    \<Longrightarrow> am_run add_page kc junk w' Uc (Sc - {cp_capPtr x}) out R"
| obj_alloc: "am_run add_page kc junk w Uc Sc out R \<Longrightarrow> i < CONFIG_WORD_SIZE \<Longrightarrow> paddr = ALLOCMAN_NO_PADDR \<or> 2 ^ i dvd paddr
    \<Longrightarrow> allocman_utspace_alloc_at (sys_spaces add_page kc junk) i type path paddr dev w = Some (k, err, w') \<Longrightarrow> am_run add_page kc junk w' Uc Sc (if err = 0 then out(k \<mapsto> i) else out) R"
| obj_free: "am_run add_page kc junk w Uc Sc out R \<Longrightarrow> out k = Some i \<Longrightarrow> allocman_utspace_free (sys_spaces add_page kc junk) (am_refill (sys_spaces add_page kc junk)) k i w = Some w'
    \<Longrightarrow> am_run add_page kc junk w' Uc Sc (out(k := None)) R"
| fill: "am_run add_page kc junk w Uc Sc out R \<Longrightarrow> allocman_fill_reserves (sys_spaces add_page kc junk) (am_refill (sys_spaces add_page kc junk)) w = Some (full, w') \<Longrightarrow> am_run add_page kc junk w' Uc Sc out R"
| reserve_slots: "am_run add_page kc junk w Uc Sc out R \<Longrightarrow> 0 < num \<Longrightarrow> 28 * int num \<le> 268435456
    \<Longrightarrow> allocman_configure_cspace_reserve (sys_spaces add_page kc junk) (am_refill (sys_spaces add_page kc junk)) num w = Some (err, w') \<Longrightarrow> am_run add_page kc junk w' Uc Sc out R"
| max_slots: "am_run add_page kc junk w Uc Sc out R \<Longrightarrow> 0 < num \<Longrightarrow> 28 * int num \<le> 268435456
    \<Longrightarrow> allocman_configure_max_freed_slots (sys_spaces add_page kc junk) (am_refill (sys_spaces add_page kc junk)) num w = Some (err, w') \<Longrightarrow> am_run add_page kc junk w' Uc Sc out R"
| max_memory: "am_run add_page kc junk w Uc Sc out R \<Longrightarrow> 0 < num \<Longrightarrow> 8 * int num \<le> 268435456
    \<Longrightarrow> allocman_configure_max_freed_memory_chunks (sys_spaces add_page kc junk) (am_refill (sys_spaces add_page kc junk)) num w = Some (err, w') \<Longrightarrow> am_run add_page kc junk w' Uc Sc out R"
| max_untyped: "am_run add_page kc junk w Uc Sc out R \<Longrightarrow> 0 < num \<Longrightarrow> 8 * int num \<le> 268435456
    \<Longrightarrow> allocman_configure_max_freed_untyped_chunks (sys_spaces add_page kc junk) (am_refill (sys_spaces add_page kc junk)) num w = Some (err, w') \<Longrightarrow> am_run add_page kc junk w' Uc Sc out R"
| reserve_mem: "am_run add_page kc junk w Uc Sc out R \<Longrightarrow> 0 < bytes \<Longrightarrow> bytes \<le> 268435456 \<Longrightarrow> 0 < num \<Longrightarrow> 4 * int num \<le> 268435456 \<Longrightarrow> 8 * (int (length (mspace_chunk (am w))) + 1) \<le> 268435456
    \<Longrightarrow> allocman_configure_mspace_reserve (sys_spaces add_page kc junk) (am_refill (sys_spaces add_page kc junk)) (bytes, num) w = Some (err, w') \<Longrightarrow> am_run add_page kc junk w' Uc Sc out R"
| reserve_obj: "am_run add_page kc junk w Uc Sc out R \<Longrightarrow> i < CONFIG_WORD_SIZE \<Longrightarrow> 0 < num \<Longrightarrow> 32 * int num \<le> 268435456 \<Longrightarrow> 12 * (int (length (utspace_chunk (am w))) + 1) \<le> 268435456
    \<Longrightarrow> allocman_configure_utspace_reserve (sys_spaces add_page kc junk) (am_refill (sys_spaces add_page kc junk)) (i, type, num) w = Some (err, w') \<Longrightarrow> am_run add_page kc junk w' Uc Sc out R"

lemma resize_in_operation: "in_operation (am w) \<Longrightarrow> resize_array sp refill num array size_of count_of switch item_size w = None"
  by (simp add: resize_array_def start_operation_def ok_def)

lemma resize_run:
  assumes "am_ok add_page R w Uc Sc out" "array_switch j array switch" "0 < num" "item_size * int num \<le> 268435456" "0 < item_size"
    "resize_array (sys_spaces add_page kc junk) (am_refill (sys_spaces add_page kc junk)) num array size_of count_of switch item_size w = Some (err, w')"
  shows "am_ok add_page R w' Uc Sc out" "\<not> in_operation (am w)" "in_operation (am w') \<longleftrightarrow> err \<noteq> 0"
proof -
  show i: "\<not> in_operation (am w)" using resize_in_operation assms(6) by (metis option.distinct(1))
  have "0 < item_size * int num" using assms(3,5) by simp
  then have b: "0 < u32 (item_size * int num)" "u32 (item_size * int num) \<le> 268435456" using assms(4) by (simp_all add: u32_def)
  obtain err0 w0 where r: "resize_array (sys_spaces add_page kc junk) (am_refill (sys_spaces add_page kc junk)) num array size_of count_of switch item_size w = Some (err0, w0)"
    "am_ok add_page R w0 Uc Sc out" "in_operation (am w0) \<longleftrightarrow> err0 \<noteq> 0" using resize_keeps [OF assms(1) i assms(2) b, of kc junk size_of count_of] by blast
  then show "am_ok add_page R w' Uc Sc out" "in_operation (am w') \<longleftrightarrow> err \<noteq> 0" using assms(6) by auto
qed

lemma am_run_ok: "am_run add_page kc junk w Uc Sc out R \<Longrightarrow> am_ok add_page R w Uc Sc out"
proof (induction rule: am_run.induct)
  case (boot s a Sc w)
  have "holds (sys_valid add_page) (utspace_split_create s) a {} Sc" using boot(1,2) by (simp add: holds_def utspace_split_create_def slots_def slots_inj_def)
  moreover have "used (ut_nodes (utspace_split_create s)) = {}" using boot(1) by (simp add: utspace_split_create_def used_def leaf_def)
  ultimately show ?case using boot_ok(1) [OF _ create_inv [OF boot(1)] _ _ boot(3), of add_page Sc "{}"] by simp
next
  case (add w Uc Sc out R uts utType err w')
  then show ?case using am_add_ok [OF add.IH add.hyps(2), of kc junk utType] by auto
next
  case (kernel w Uc Sc out R k)
  obtain K where K: "core_ok add_page ((setting (am w))\<lparr>refilling_watermark := False\<rparr>) R w (Uc ++ K) Sc out" "dom Uc \<inter> dom K = {}" "arr_ok (am w) K" using kernel.IH by (rule am_okE)
  show ?case by (rule am_okI [OF core_kernel [OF K(1)] K(3,2)])
next
  case (mem_alloc w Uc Sc out R bytes p err w')
  then show ?case using am_mspace_alloc_ok [OF mem_alloc.IH mem_alloc.hyps(2,3), of kc junk] by auto
next
  case (mem_free w Uc Sc out R p bytes w')
  show ?case using am_mspace_free_ok [OF mem_free.IH mem_free.hyps(2), of kc junk bytes] mem_free.hyps(3) by (metis option.inject)
next
  case (slot_alloc w Uc Sc out R err q w')
  then show ?case using am_cspace_alloc_ok [OF slot_alloc.IH, of kc junk] by auto
next
  case (slot_free w Uc Sc out R x w')
  then show ?case using am_cspace_free_ok [OF slot_free.IH slot_free.hyps(2), of kc junk] by auto
next
  case (obj_alloc w Uc Sc out R i paddr type path dev k err w')
  then show ?case using am_utspace_alloc_ok [OF obj_alloc.IH obj_alloc.hyps(2,3), of kc junk type path dev] by auto
next
  case (obj_free w Uc Sc out R k i w')
  show ?case using am_utspace_free_ok [OF obj_free.IH obj_free.hyps(2), of kc junk i] obj_free.hyps(3) by (metis option.inject)
next
  case (fill w Uc Sc out R full w')
  then show ?case using am_fill_ok [OF fill.IH, of kc junk] by auto
next
  case (reserve_slots w Uc Sc out R num err w')
  show ?case by (rule resize_run(1) [OF reserve_slots.IH switches(4) reserve_slots.hyps(2,3) _ reserve_slots.hyps(4) [unfolded allocman_configure_cspace_reserve_def]]) simp
next
  case (max_slots w Uc Sc out R num err w')
  show ?case by (rule resize_run(1) [OF max_slots.IH switches(1) max_slots.hyps(2,3) _ max_slots.hyps(4) [unfolded allocman_configure_max_freed_slots_def]]) simp
next
  case (max_memory w Uc Sc out R num err w')
  show ?case by (rule resize_run(1) [OF max_memory.IH switches(2) max_memory.hyps(2,3) _ max_memory.hyps(4) [unfolded allocman_configure_max_freed_memory_chunks_def]]) simp
next
  case (max_untyped w Uc Sc out R num err w')
  show ?case by (rule resize_run(1) [OF max_untyped.IH switches(3) max_untyped.hyps(2,3) _ max_untyped.hyps(4) [unfolded allocman_configure_max_freed_untyped_chunks_def]]) simp
next
  case (reserve_mem w Uc Sc out R bytes num err w')
  then show ?case using configure_mspace_keeps [OF reserve_mem.IH reserve_mem.hyps(2-6), of kc junk] by auto
next
  case (reserve_obj w Uc Sc out R i num type err w')
  then show ?case using configure_utspace_keeps [OF reserve_obj.IH reserve_obj.hyps(2-5), of kc junk type] by auto
qed

lemma am_ok_ready: "am_ok add_page R w Uc Sc out \<Longrightarrow> ready (am w)"
  by (auto simp: am_ok_def core_ok_def res_valid_def)

lemma slots_empty:
  assumes "am_ok add_page R w Uc Sc out" "allocman_cspace_alloc (sys_spaces add_page kc junk) w = Some (err, q, w')" "err \<noteq> 0"
  shows "cspace_slots (am w) = []"
proof -
  have r: "have_cspace (am w)" "cspace_alloc_depth (am w) = 0" "cspace_free_depth (am w) = 0" using am_ok_ready [OF assms(1)] by (simp_all add: ready_def)
  obtain e p c where "cspace_single_level_alloc (slots_of w) = Some (e, p, c)"
    using assms(2) r by (cases "cspace_single_level_alloc (slots_of w)") (auto simp: allocman_cspace_alloc_def am_cspace_alloc_def sys_spaces_def base_spaces_def start_operation_def Let_def)
  then show ?thesis using assms(2,3) r
    by (auto simp: allocman_cspace_alloc_def am_cspace_alloc_def sys_spaces_def base_spaces_def start_operation_def try_watermark_cspace_def Let_def split: if_splits bind_splits)
qed

lemma blocks_empty:
  assumes "am_ok add_page R w Uc Sc out" "allocman_mspace_alloc (sys_spaces add_page kc junk) bytes w = Some (p, err, w')" "err \<noteq> 0"
  shows "find_stock (\<lambda>c. fst c = bytes) (mspace_chunk (am w)) (mspace_chunks (am w)) = None"
proof -
  have r: "have_mspace (am w)" "mspace_alloc_depth (am w) = 0" "mspace_free_depth (am w) = 0" using am_ok_ready [OF assms(1)] by (simp_all add: ready_def)
  obtain e c d where "mspace_dual_pool_alloc add_page (pool_of w) bytes = Some (c, e, d)"
    using assms(2) r by (cases "mspace_dual_pool_alloc add_page (pool_of w) bytes") (auto simp: allocman_mspace_alloc_def am_mspace_alloc_def sys_spaces_def base_spaces_def start_operation_def Let_def)
  then show ?thesis using assms(2,3) r
    by (auto simp: allocman_mspace_alloc_def am_mspace_alloc_def sys_spaces_def base_spaces_def start_operation_def try_watermark_mspace_def Let_def split: if_splits bind_splits option.splits)
qed

definition block_of :: "'w am_world \<Rightarrow> (int \<rightharpoonup> int) \<Rightarrow> int \<Rightarrow> int \<Rightarrow> bool" where
  \<comment> \<open>a block of a client, or of a reserve\<close>
  "block_of w Uc p bytes \<longleftrightarrow> Uc p = Some bytes \<or> (\<exists>i<length (mspace_chunk (am w)). p \<in> set (mspace_chunks (am w) ! i) \<and> bytes = fst (mspace_chunk (am w) ! i))"

definition piece_of :: "'w am_world \<Rightarrow> (int \<rightharpoonup> nat) \<Rightarrow> int \<Rightarrow> nat \<Rightarrow> bool" where
  "piece_of w out k size_bits \<longleftrightarrow> out k = Some size_bits \<or> (\<exists>i<length (utspace_chunk (am w)). k \<in> fst ` set (utspace_chunks (am w) ! i) \<and> size_bits = fst (utspace_chunk (am w) ! i))"

lemma blocks_apart:
  assumes c: "core_ok add_page rf R w T Sc out" and b: "block_of w T p m" "block_of w T q n" "p \<noteq> q"
  shows "p + m \<le> q \<or> q + n \<le> p"
proof -
  obtain U where U: "dual_run add_page (pool_of w) U" "T \<subseteq>\<^sub>m U" "stock_ok (am w) U" using c by (auto simp: core_ok_def res_valid_def)
  have "U x = Some k" if "block_of w T x k" for x k using that U(2,3) by (auto simp: block_of_def stock_ok_def map_le_def dom_def)
  then show ?thesis using dual_disjoint [OF dual_run_ok [OF U(1)]] b by blast
qed

lemma pieces_ok:
  assumes c: "core_ok add_page rf R w T Sc out"
  shows "ut_ok add_page (snd (inside w)) (fst (inside w)) (\<lambda>k. if k \<in> used (ut_nodes (snd (inside w))) then Some (piece_size (snd (inside w)) k) else None) R"
    "piece_of w out k i \<Longrightarrow> k \<in> used (ut_nodes (snd (inside w))) \<and> piece_size (snd (inside w)) k = i"
proof -
  let ?s = "snd (inside w)"
  obtain U where U: "objs_ok (am w) ?s out" "\<exists>fl R0. ut_inv ?s fl R0 \<and> R0 \<subseteq> R" "dom (ut_nodes ?s) \<inter> dom T = {}" "Sc \<inter> slots (ut_nodes ?s) = {}" "slots_inj (ut_nodes ?s)"
    "dual_run add_page (pool_of w) U" "dom U = dom (ut_nodes ?s) \<union> dom T \<union> stock_mem (am w)" "(dom (ut_nodes ?s) \<union> dom T) \<inter> stock_mem (am w) = {}"
    "slot_run (slots_of w) (Sc \<union> slots (ut_nodes ?s) \<union> set (stock_caps (am w)))" "(Sc \<union> slots (ut_nodes ?s)) \<inter> set (stock_caps (am w)) = {}" using c by (rule core_okE)
  obtain fl R0 where u: "ut_inv ?s fl R0" "R0 \<subseteq> R" using U(2) by blast
  have "dom U = (dom T \<union> stock_mem (am w)) \<union> dom (ut_nodes ?s)" using U(7) by auto
  moreover have "Sc \<union> slots (ut_nodes ?s) \<union> set (stock_caps (am w)) = (Sc \<union> set (stock_caps (am w))) \<union> slots (ut_nodes ?s)" by auto
  ultimately have "sys_valid add_page (fst (inside w)) ((dom T \<union> stock_mem (am w)) \<union> dom (ut_nodes ?s)) ((Sc \<union> set (stock_caps (am w))) \<union> slots (ut_nodes ?s))" using U(6,9) unfolding sys_valid_def by auto
  then have "holds (sys_valid add_page) ?s (fst (inside w)) (dom T \<union> stock_mem (am w)) (Sc \<union> set (stock_caps (am w)))" using U(3-5,8,10) unfolding holds_def by blast
  then show "ut_ok add_page ?s (fst (inside w)) (\<lambda>k. if k \<in> used (ut_nodes ?s) then Some (piece_size ?s k) else None) R"
    unfolding ut_ok_def using u by (intro exI [of _ fl] exI [of _ R0] exI [of _ "dom T \<union> stock_mem (am w)"] exI [of _ "Sc \<union> set (stock_caps (am w))"]) (auto simp: dom_def)
  have o: "used (ut_nodes ?s) = dom out \<union> fst ` set (concat (utspace_chunks (am w)))" "length (utspace_chunks (am w)) = length (utspace_chunk (am w))" "\<And>x j. out x = Some j \<Longrightarrow> piece_size ?s x = j"
    "\<And>j y. j < length (utspace_chunk (am w)) \<Longrightarrow> y \<in> set (utspace_chunks (am w) ! j) \<Longrightarrow> piece_size ?s (fst y) = fst (utspace_chunk (am w) ! j)" using U(1) unfolding objs_ok_def by blast+
  show "k \<in> used (ut_nodes ?s) \<and> piece_size ?s k = i" if p: "piece_of w out k i"
  proof (cases "out k = Some i")
    case True
    then show ?thesis using o(1,3) by blast
  next
    case False
    then obtain j y where y: "j < length (utspace_chunk (am w))" "y \<in> set (utspace_chunks (am w) ! j)" "k = fst y" "i = fst (utspace_chunk (am w) ! j)" using p unfolding piece_of_def by blast
    have "y \<in> set (concat (utspace_chunks (am w)))" using y(1,2) o(2) nth_mem [of j "utspace_chunks (am w)"] by auto
    then show ?thesis using o(1) o(4) [OF y(1,2)] y(3,4) by blast
  qed
qed

lemma am_blocks_apart:
  assumes o: "am_ok add_page R w Uc Sc out" and b: "block_of w Uc p m" "block_of w Uc q n" "p \<noteq> q"
  shows "p + m \<le> q \<or> q + n \<le> p"
proof -
  obtain K where K: "core_ok add_page ((setting (am w))\<lparr>refilling_watermark := False\<rparr>) R w (Uc ++ K) Sc out" "dom Uc \<inter> dom K = {}" using o by (rule am_okE)
  have "block_of w (Uc ++ K) x k" if x: "block_of w Uc x k" for x k
  proof -
    have "K x = None" if "Uc x = Some k" using K(2) that by blast
    then show ?thesis using x by (auto simp: block_of_def map_add_def)
  qed
  then show ?thesis using blocks_apart [OF K(1) _ _ b(3)] b(1,2) by blast
qed


definition sample_ops :: "unit kernel_ops" where
  "sample_ops = \<lparr>k_retype = (\<lambda>k u t n c. (0, k)), k_delete = (\<lambda>k c. k), k_move = (\<lambda>k dest src. (0, k))\<rparr>"

lemma sample_boot:
  obtains w where "am_run (\<lambda>_. 0) sample_ops sample_junk w Map.empty {} Map.empty {}" "pool_of w = mspace_dual_pool_create sample_dual 8192 4096" "am w = (am (allocman_create (inside w)))\<lparr>have_cspace := True, have_utspace := True\<rparr>"
proof -
  let ?d = "mspace_dual_pool_create sample_dual 8192 4096" and ?s = "utspace_split_create no_uts"
  have "pool_mem (d_fixed_kr sample_dual) (8192 + 8192 mod 8) (8192 + 4096)" by (auto simp: pool_mem_def sample_dual_def)
  then have d: "dual_run (\<lambda>_. 0) ?d Map.empty" by (rule dual_run.create) simp
  have "config_ok sample_config" by (simp add: config_ok_def sample_config_def)
  then obtain c where c: "slot_run c {}" using create_spec slot_run.start by blast
  define a where "a = \<lparr>sys_pool = ?d, sys_slots = c, sys_kernel = ()\<rparr>"
  define w where "w = \<lparr>am = (am (allocman_create (a, ?s)))\<lparr>have_cspace := True, have_utspace := True\<rparr>, inside = (a, ?s)\<rparr>"
  have v: "sys_valid (\<lambda>_. 0) a {} {}" unfolding sys_valid_def a_def using c d by auto
  have "am_run (\<lambda>_. 0) sample_ops sample_junk w Map.empty {} Map.empty {}" by (rule am_run.boot [OF _ v, of no_uts]) (simp_all add: no_uts_def boot_run w_def)
  then show ?thesis using that [of w] by (simp add: w_def a_def)
qed

lemma sample_am_run: "\<exists>w. am_run (\<lambda>_. 0) sample_ops sample_junk w Map.empty {} Map.empty {1048576..<1052672}"
proof -
  let ?sp = "sys_spaces (\<lambda>_. 0) sample_ops sample_junk" and ?uts = "[(make_path sample_config 19, 12, 1048576)]"
  obtain w where w: "am_run (\<lambda>_. 0) sample_ops sample_junk w Map.empty {} Map.empty {}" by (rule sample_boot)
  have f: "fits {} ?uts" by (simp add: CONFIG_WORD_SIZE_def dvd_def)
  obtain err w' where "allocman_utspace_add_uts ?sp (sys_add_uts (\<lambda>_. 0) sample_ops sample_junk) (am_refill ?sp) ?uts 0 w = Some (err, w')" using am_add_ok [OF am_run_ok [OF w] f, of sample_ops sample_junk 0] by blast
  then have "am_run (\<lambda>_. 0) sample_ops sample_junk w' Map.empty {} Map.empty ({} \<union> spans ?uts)" by (rule am_run.add [OF w f])
  then show ?thesis by auto
qed




lemma nested_slot: "in_operation (am w) \<Longrightarrow> am_cspace_alloc sp r wm w = am_cspace_alloc sp r' wm w"
  by (simp add: am_cspace_alloc_def start_operation_def end_operation_def Let_def)

lemma nested_mem: "in_operation (am w) \<Longrightarrow> am_mspace_alloc sp r bytes wm w = am_mspace_alloc sp r' bytes wm w"
  by (simp add: am_mspace_alloc_def start_operation_def end_operation_def Let_def)


lemma sample_full: "\<exists>d. mspace_dual_pool_alloc (\<lambda>_. 0) (mspace_dual_pool_create sample_dual 8192 4096) 28000 = Some (0, 1, d)"
  by (simp add: mspace_dual_pool_alloc_def mspace_dual_pool_create_def sample_dual_def mspace_fixed_pool_alloc_def mspace_k_r_malloc_alloc_def alloc_loop.simps rd_size_def rd_ptr_def wr_ptr_def wr_size_def
    fixed_morecore_def mspace_fixed_pool_create_def mspace_k_r_malloc_init_def Let_def u32_def nunits_for_def)


end
