(* ===== verification/Spec2Isabelle.thy ===== *)
theory Spec2Isabelle
  imports Geometry Alloc Blocks Dirs Files Blockmap Content Pagefile Paths Names Vga Keyboard Workers Vspace Frames Process Vmfault
    Paging Syscalls Shape Boot Muslc Shell Calls Swap Release Exclusive Cslots Malloc Untyped Buddy Manager Reserve Managed Handout
begin

text \<open>
  A verification development for the operating system in \<^verbatim>\<open>src/projects/seL4sys\<close>: a system that runs as the root
  task of the seL4 kernel on ia32 and offers processes, demand paging with swapping, a file system on an ATA
  disk, a console and a shell. Paths below that start with \<^verbatim>\<open>os/\<close> or \<^verbatim>\<open>apps/\<close> are relative to that
  directory, those that start with \<^verbatim>\<open>lib\<close> to \<^verbatim>\<open>src/projects/seL4_libs\<close>.

  \<^bold>\<open>The parts and how they interact.\<close> A process calls the C library, whose system call layer
  (\<^verbatim>\<open>libsel4muslcsys\<close>) sends a message to the server. The server thread (\<^verbatim>\<open>os/src/root.c\<close>) receives it and
  \<^verbatim>\<open>os/src/syscall_handler.c\<close> answers at once or hands a request to one of eight workers
  (\<^verbatim>\<open>os/src/worker/sys_worker.c\<close>). A worker opens a window onto the caller's buffer
  (\<^verbatim>\<open>os/src/vm/mem_projection.c\<close>, over the address-space manager of \<^verbatim>\<open>libsel4utils\<close>), runs a file operation
  (\<^verbatim>\<open>os/src/filesystem/fs.c\<close> over \<^verbatim>\<open>ext.c\<close> over \<^verbatim>\<open>disk.c\<close>) or a console operation
  (\<^verbatim>\<open>os/src/console\<close>), closes the window and replies. Page faults arrive at a thread of their own
  (\<^verbatim>\<open>os/src/vm/vmfault_handler.c\<close>), which gives a process new frames or takes the frame of another of its
  pages, saved to a page file (\<^verbatim>\<open>os/src/filesystem/pagefile.c\<close>) in the same file system.

  \<^bold>\<open>Conventions\<close> (theory \<open>Prelude\<close>). A function of the source is a function of the same name on explicit
  state. Its result is an \<^verbatim>\<open>option\<close>: \<^term>\<open>None\<close> is what C leaves undefined (an access outside an array, a failed
  \<^verbatim>\<open>assert\<close>, a bad shift, a loop that does not end), error codes are values. C integers are \<^typ>\<open>int\<close> with the
  conversions \<^const>\<open>i32\<close> and \<^const>\<open>u32\<close> where the source stores or converts them, bytes and device registers are
  machine words. A pointer argument through which a function writes is a component of the result.
  Loops are structural recursion or a \<^verbatim>\<open>function\<close> with a measure; a loop that waits for hardware is a
  \<^verbatim>\<open>partial_function\<close>, and what is stated of it is that it returns. There is no fuel in the development.

  \<^bold>\<open>The disk and the file system.\<close>
  \<^item> \<open>Disk\<close> (\<^verbatim>\<open>disk.c\<close>): \<^const>\<open>read_disk\<close> and \<^const>\<open>write_disk\<close> over sectors, proved to be reads and replacements of a
    byte range, and \<^const>\<open>read_sect\<close>, \<^const>\<open>write_sect\<close> over the drive's ports. What the ATA drive documents is the locale
    \<open>ata_drive\<close>; it is interpreted on a drive that obeys it.
  \<^item> \<open>Layout\<close> (\<^verbatim>\<open>ext.h\<close>): superblock, group descriptor, inode and directory entry with their bytes, and
    the round trip through the disk.
  \<^item> \<open>Geometry\<close> (\<^verbatim>\<open>ext.c\<close>, \<^verbatim>\<open>calGroupNum\<close> to \<^verbatim>\<open>readGroupHeader\<close>): the search for the group count ends, a disk
    that was formatted is mounted with the same headers, and a disk with more than one group overruns \<^verbatim>\<open>gDesc\<close>.
  \<^item> \<open>Alloc\<close>: the allocators for blocks and inodes. The locale \<open>bitmap_pool\<close> is their contract
    (a unit taken was free and is marked, nothing else changes, the counts agree with the bitmap);
    both allocators provide it. The code bounds its search by the number of \<^emph>\<open>free\<close> units; where the
    search is known to succeed (\<^const>\<open>block_ready\<close>, \<^const>\<open>room\<close>: enough free units that the bound is not met
    first) is a hypothesis, and what happens otherwise is a theorem.
  \<^item> \<open>Blocks\<close> is the code of the block map, \<open>Blockmap\<close> its refinement: under the invariant \<^const>\<open>file_at\<close> a file is an
    array of blocks that can be read, written and extended; the count of pointer blocks the code
    computes is that of the tree. \<open>Content\<close> lifts this to bytes and to the calls
    \<^const>\<open>syscall_readfile\<close>, \<^const>\<open>syscall_writefile\<close> and \<^const>\<open>syscall_lseek\<close> of \<open>Files\<close>.
  \<^item> \<open>Dirs\<close> is the code of directories; in \<open>Paths\<close> a directory is a list of entries and a path a list of
    names, \<^const>\<open>syscall_open\<close> is the walk over them, and a page written to a page file is read back by its
    name; \<open>Names\<close> shows that creating a file adds one entry and one inode and changes nothing else;
    \<open>Release\<close> shows that removing one frees exactly its blocks and its inode and clears its entry.
  \<^item> \<open>Pagefile\<close>: no page file is handed out twice.

  The theorems on files are for the configuration the system creates: one group, blocks of 1024 bytes, at
  most 8192 blocks; so the triply indirect level, which is modelled, is not reached by them.

  \<^bold>\<open>The console.\<close> \<open>Vga\<close> (\<^verbatim>\<open>vga.c\<close>) refines a terminal of 25 lines. \<open>Keyboard\<close> (\<^verbatim>\<open>keyboard.c\<close>,
  \<^verbatim>\<open>stdio_handler.c\<close>) has the scan-code tables, the modifier keys, the ring buffer behind the locale \<open>edit_buffer\<close>,
  and the theorem that a read returns the line as it was edited.

  \<^bold>\<open>Threads.\<close> \<open>Workers\<close> is the interleaving of the dispatcher and the workers, a step relation with one step per
  statement: every request is executed by one worker and once, and the pool cannot get stuck.

  \<^bold>\<open>Memory and processes.\<close>
  \<^item> \<open>Vspace\<close> (\<^verbatim>\<open>libsel4utils\<close>): the two-level shadow page table refines a flat one (locale \<open>slot_action\<close>,
    interpreted for reserving, clearing and updating), reservations do not overlap, the search for a
    free range finds one when there is one. \<open>Frames\<close>: capabilities, frames and the windows onto a process; opening
    and closing one leaves everything as it was.
  \<^item> \<open>Process\<close> (\<^verbatim>\<open>process.c\<close>), \<open>Vmfault\<close> (\<^verbatim>\<open>vmfault_handler.c\<close>): creation, end and listing of processes; the second-chance
    search ends with the page that it should choose. \<open>Paging\<close>: touching a page of the heap for the first
    time maps a zeroed frame there.
  \<^item> \<open>Swap\<close>: a page that is evicted is saved, and when it comes back it has the bytes it had, whatever frame it gets.
  \<^item> \<open>Syscalls\<close> (\<^verbatim>\<open>syscall_handler.c\<close>, handlers in \<^verbatim>\<open>fs.c\<close>, \<^verbatim>\<open>stdio_handler.c\<close>, \<^verbatim>\<open>timer.c\<close>): every case of the
    dispatcher. \<open>Calls\<close>: a write and a read followed from the message through window and file system to the caller's memory. \<open>Shape\<close> puts all operations into one step relation of the system and proves the
    well-formedness of every state that can be reached; \<open>Exclusive\<close> proves over the same relation that no two pages, of
    whatever processes, ever share a page file. \<open>Boot\<close>: the order of \<^verbatim>\<open>main\<close>, which ends in such a state.

  \<^bold>\<open>The allocator library.\<close> \<open>Cslots\<close> (\<^verbatim>\<open>libsel4allocman/src/cspace\<close>): the two allocators for capability slots
  the system uses, behind the locales \<open>slot_source\<close> and \<open>slot_pool\<close>; no slot is handed out twice.
  \<open>Malloc\<close> (\<^verbatim>\<open>libsel4allocman/src/mspace\<close>): the allocator for their bookkeeping memory. Its free list is a ring of addresses, and
  free blocks and blocks in use tile the pool; the locale \<open>core_source\<close> is what it needs of the pool below, provided by the fixed and by the
  virtual pool. No byte is handed out twice, and the search of the ring ends.
  \<open>Untyped\<close> and \<open>Buddy\<close> (\<^verbatim>\<open>libsel4allocman/src/utspace/split.c\<close>): the buddy allocator all kernel objects are made from. \<open>Untyped\<close> has the model, the doubly linked free
  lists and the trees of halves; \<open>Buddy\<close> the operations, over the locale \<open>ut_supply\<close> (memory for nodes, slots, the kernel), which the two components above provide. Objects
  never overlap; and free memory can be used: the locale \<open>ut_plenty\<close>.
  \<open>Manager\<close>, \<open>Reserve\<close>, \<open>Managed\<close> and \<open>Handout\<close> (\<^verbatim>\<open>libsel4allocman/src/allocman.c\<close>): the manager that all calls go through. It passes a call on to the allocator for it, which may call
  the manager again; keeps reserves for calls that cannot be passed on or fail, and refills them at the end of an operation, with calls of its own. \<open>Manager\<close> has the model: the operations take
  the refilling as an argument, and refilling has the depth of the recursion as fuel. \<open>Reserve\<close> separates what the manager has from what clients have and
  interprets \<open>ut_supply\<close> on the manager's own calls (\<open>nest\<close>), so that the buddy allocator's lemmas hold with the manager in between; \<open>Managed\<close> has the locale \<open>refilling\<close>, interpreted for calls during refilling
  (\<open>busy\<close>) and, on that, for calls of clients (\<open>idle\<close>): a depth of 2 is enough. \<open>Handout\<close>: over all runs from \<^verbatim>\<open>allocman_create\<close> on, no block, slot or piece of memory is handed out
  twice, every call returns and fails only if the reserve is empty too; a failed call to resize a reserve ends all refilling.

  \<^bold>\<open>Programs.\<close> \<open>Muslc\<close> (\<^verbatim>\<open>libsel4muslcsys\<close>): the client's half of the calls and what the calls that are answered at once
  return to the program. \<open>Shell\<close> (\<^verbatim>\<open>apps/shell\<close>): a line becomes the words and the command one expects.

  \<^bold>\<open>Parameters.\<close> Hardware and the kernel are parameters: the ports of the drive (\<open>ata_drive\<close>), the error code of the
  kernel's mapping invocation, the accessed and dirty bits, the clock, the ELF loader (record \<^typ>\<open>env\<close>), the
  message exchange of a client (\<^verbatim>\<open>seL4_Call\<close>). Uninitialised stack arrays are parameters as well, so that no theorem
  depends on their contents.

  \<^bold>\<open>Not modelled.\<close> The seL4 kernel and the musl C library, which are vendored (what the code uses of them is part
  of the models above); the creation of kernel objects other than frames (endpoints, threads, CNodes) and the
  set-up of the allocator and device libraries in \<^verbatim>\<open>rootvars_init\<close>, \<^verbatim>\<open>serial_init\<close> and \<^verbatim>\<open>timer_init\<close>, which only call
  those libraries; the functions of \<^verbatim>\<open>libsel4utils\<close> that the system does not call; C library calls that are
  ignored or only fail an assertion. Workers that run file operations at the same time share the file system's
  state without a lock; the models of the operations are atomic.
\<close>

end
